(* ===== verification/Prelude.thy ===== *)
theory Prelude
  imports Main "HOL-Library.Word" "HOL-Library.Char_ord"
begin

text \<open>
  Shared vocabulary of the development: C characters and character literals, string
  literals read the way C reads them (with the terminating NUL, and out-of-bounds reads
  visible), \<open>memchr\<close>, and the lemma collections the component theories fill.

  Bytes are values of type \<open>char\<close> (eight bits); a buffer is a \<open>string\<close>. The order on
  characters is the unsigned order of \<open>HOL-Library.Char_ord\<close>. The C code compares plain
  \<open>char\<close> values, which are signed on the usual targets; every comparison it makes is a
  range test between two ASCII constants, for which the signed and the unsigned reading
  agree (a byte above 127 is outside the range in both).
\<close>

named_theorems parser_defs \<open>definitions of the parser's state handlers\<close>
named_theorems char_eval \<open>rules that evaluate character classes on ground characters\<close>

unbundle bit_operations_syntax

abbreviation NUL :: char where "NUL \<equiv> CHR 0x00"
abbreviation CR :: char where "CR \<equiv> CHR 0x0D"
abbreviation LF :: char where "LF \<equiv> CHR 0x0A"
abbreviation TAB :: char where "TAB \<equiv> CHR 0x09"
abbreviation SP :: char where "SP \<equiv> CHR 0x20"

text \<open>
  Reading the character at an index of a C string literal: the characters, then the
  terminating NUL; \<open>None\<close> stands for a read beyond the terminator, which C leaves undefined.
\<close>

definition lit_at :: "string \<Rightarrow> nat \<Rightarrow> char option" where
  "lit_at s i =
     (if i < length s then Some (s ! i) else if i = length s then Some NUL else None)"

lemma lit_at_inside: "i < length s \<Longrightarrow> lit_at s i = Some (s ! i)"
  by (simp add: lit_at_def)

lemma lit_at_le: "i \<le> length s \<Longrightarrow> \<exists>c. lit_at s i = Some c"
  by (auto simp: lit_at_def)

lemma lit_at_None_iff: "lit_at s i = None \<longleftrightarrow> length s < i"
  by (auto simp: lit_at_def)

lemma lit_at_not_NUL: "lit_at s i = Some c \<Longrightarrow> c \<noteq> NUL \<Longrightarrow> i < length s"
  by (auto simp: lit_at_def split: if_splits)

text \<open>\<open>isspace\<close> in the C locale.\<close>

definition is_space :: "char \<Rightarrow> bool" where
  "is_space c \<longleftrightarrow> c = SP \<or> (CHR 0x09 \<le> c \<and> c \<le> CHR 0x0D)"

text \<open>\<open>memchr\<close>: the offset of the first occurrence of a byte, if there is one.\<close>

fun memchr :: "char \<Rightarrow> string \<Rightarrow> nat option" where
  "memchr c [] = None"
| "memchr c (x # xs) = (if x = c then Some 0 else map_option Suc (memchr c xs))"

lemma memchr_Some:
  "memchr c xs = Some i \<Longrightarrow> i < length xs \<and> xs ! i = c \<and> (\<forall>j<i. xs ! j \<noteq> c)"
proof (induction xs arbitrary: i)
  case (Cons x xs)
  then show ?case
    by (auto split: if_splits simp: nth_Cons less_Suc_eq_0_disj split: nat.splits)
qed simp

lemma memchr_None: "memchr c xs = None \<longleftrightarrow> c \<notin> set xs"
  by (induction xs) auto

lemma memchr_pos: "memchr c xs = Some i \<Longrightarrow> xs \<noteq> [] \<Longrightarrow> hd xs \<noteq> c \<Longrightarrow> 0 < i"
  by (cases xs) auto

text \<open>The code of a character, as an unsigned value of the width it is used at.\<close>

lemma of_char_nat_less: "(of_char c :: nat) < 256"
  by simp

text \<open>Bits of flag words.\<close>

lemma word_or_and_zero_iff:
  fixes a b c :: "'a::len word"
  shows "(a OR b) AND c = 0 \<longleftrightarrow> a AND c = 0 \<and> b AND c = 0"
  by (metis (no_types, opaque_lifting) or_eq_0_iff bit.conj_disj_distrib2)

text \<open>Numbers that fit in 64 bits.\<close>

lemma unat_of_nat_64: "n < 2 ^ 64 \<Longrightarrow> unat (of_nat n :: 64 word) = n"
  by (simp add: unat_of_nat take_bit_nat_eq_self)

text \<open>The value of a string of decimal digits, read after the value \<open>v\<close>.\<close>

definition decimal_digit :: "char \<Rightarrow> nat" where
  "decimal_digit c = of_char c - 48"

definition decimal_from :: "nat \<Rightarrow> string \<Rightarrow> nat" where
  "decimal_from v ds = foldl (\<lambda>v c. v * 10 + decimal_digit c) v ds"

lemma decimal_from_simps [simp]:
  "decimal_from v [] = v"
  "decimal_from v (c # ds) = decimal_from (v * 10 + decimal_digit c) ds"
  "decimal_from v (ds @ [c]) = decimal_from v ds * 10 + decimal_digit c"
  by (simp_all add: decimal_from_def)

lemma decimal_from_ge: "v \<le> decimal_from v ds"
proof (induction ds arbitrary: v)
  case (Cons c ds)
  have "v \<le> v * 10 + decimal_digit c" by simp
  also have "\<dots> \<le> decimal_from (v * 10 + decimal_digit c) ds" by (rule Cons.IH)
  finally show ?case by simp
qed simp

end
