(* ===== verification/Http_Parser_Types.thy ===== *)
theory Http_Parser_Types
  imports Prelude
begin

text \<open>
  The data types of \<^verbatim>\<open>woody/lib/http_parser/http_parser.h\<close> and the enumerations of
  \<^verbatim>\<open>http_parser.c\<close>: methods, error numbers, flags, parser states, header states, the
  \<open>http_parser\<close> struct and the table of callbacks.

  Bit fields and machine integers keep their width: \<open>flags\<close> is 7 bits, \<open>index\<close> 8 bits,
  \<open>nread\<close> 32 bits, \<open>content_length\<close> 64 bits, the version numbers and the status code 16
  bits. Bit fields that only ever hold an enumeration (\<open>type\<close>, \<open>state\<close>,
  \<open>header_state\<close>, \<open>method\<close>, \<open>http_errno\<close>) hold a value of that enumeration. The
  pointer \<open>data\<close> of the struct is the state of the callbacks, threaded separately as a
  world of type \<open>'u\<close>.
\<close>

subsection \<open>Request methods\<close>

datatype (plugins only: code) http_method =
    HTTP_DELETE | HTTP_GET | HTTP_HEAD | HTTP_POST | HTTP_PUT | HTTP_CONNECT
  | HTTP_OPTIONS | HTTP_TRACE | HTTP_COPY | HTTP_LOCK | HTTP_MKCOL | HTTP_MOVE
  | HTTP_PROPFIND | HTTP_PROPPATCH | HTTP_SEARCH | HTTP_UNLOCK | HTTP_BIND | HTTP_REBIND
  | HTTP_UNBIND | HTTP_ACL | HTTP_REPORT | HTTP_MKACTIVITY | HTTP_CHECKOUT | HTTP_MERGE
  | HTTP_MSEARCH | HTTP_NOTIFY | HTTP_SUBSCRIBE | HTTP_UNSUBSCRIBE | HTTP_PATCH | HTTP_PURGE
  | HTTP_MKCALENDAR | HTTP_LINK | HTTP_UNLINK

text \<open>The string table \<open>method_strings\<close>.\<close>

primrec method_strings :: "http_method \<Rightarrow> string" where
  "method_strings HTTP_DELETE = ''DELETE''"
| "method_strings HTTP_GET = ''GET''"
| "method_strings HTTP_HEAD = ''HEAD''"
| "method_strings HTTP_POST = ''POST''"
| "method_strings HTTP_PUT = ''PUT''"
| "method_strings HTTP_CONNECT = ''CONNECT''"
| "method_strings HTTP_OPTIONS = ''OPTIONS''"
| "method_strings HTTP_TRACE = ''TRACE''"
| "method_strings HTTP_COPY = ''COPY''"
| "method_strings HTTP_LOCK = ''LOCK''"
| "method_strings HTTP_MKCOL = ''MKCOL''"
| "method_strings HTTP_MOVE = ''MOVE''"
| "method_strings HTTP_PROPFIND = ''PROPFIND''"
| "method_strings HTTP_PROPPATCH = ''PROPPATCH''"
| "method_strings HTTP_SEARCH = ''SEARCH''"
| "method_strings HTTP_UNLOCK = ''UNLOCK''"
| "method_strings HTTP_BIND = ''BIND''"
| "method_strings HTTP_REBIND = ''REBIND''"
| "method_strings HTTP_UNBIND = ''UNBIND''"
| "method_strings HTTP_ACL = ''ACL''"
| "method_strings HTTP_REPORT = ''REPORT''"
| "method_strings HTTP_MKACTIVITY = ''MKACTIVITY''"
| "method_strings HTTP_CHECKOUT = ''CHECKOUT''"
| "method_strings HTTP_MERGE = ''MERGE''"
| "method_strings HTTP_MSEARCH = ''M-SEARCH''"
| "method_strings HTTP_NOTIFY = ''NOTIFY''"
| "method_strings HTTP_SUBSCRIBE = ''SUBSCRIBE''"
| "method_strings HTTP_UNSUBSCRIBE = ''UNSUBSCRIBE''"
| "method_strings HTTP_PATCH = ''PATCH''"
| "method_strings HTTP_PURGE = ''PURGE''"
| "method_strings HTTP_MKCALENDAR = ''MKCALENDAR''"
| "method_strings HTTP_LINK = ''LINK''"
| "method_strings HTTP_UNLINK = ''UNLINK''"

datatype http_parser_type = HTTP_REQUEST | HTTP_RESPONSE | HTTP_BOTH

subsection \<open>Flags\<close>

type_synonym flag_word = "7 word"

definition F_CHUNKED :: flag_word where [char_eval]: "F_CHUNKED = push_bit 0 1"
definition F_CONNECTION_KEEP_ALIVE :: flag_word where
  [char_eval]: "F_CONNECTION_KEEP_ALIVE = push_bit 1 1"
definition F_CONNECTION_CLOSE :: flag_word where
  [char_eval]: "F_CONNECTION_CLOSE = push_bit 2 1"
definition F_CONNECTION_UPGRADE :: flag_word where
  [char_eval]: "F_CONNECTION_UPGRADE = push_bit 3 1"
definition F_TRAILING :: flag_word where [char_eval]: "F_TRAILING = push_bit 4 1"
definition F_UPGRADE :: flag_word where [char_eval]: "F_UPGRADE = push_bit 5 1"
definition F_SKIPBODY :: flag_word where [char_eval]: "F_SKIPBODY = push_bit 6 1"

subsection \<open>Error numbers\<close>

datatype (plugins only: code) http_errno =
    HPE_OK
  | HPE_CB_message_begin | HPE_CB_url | HPE_CB_header_field | HPE_CB_header_value
  | HPE_CB_headers_complete | HPE_CB_body | HPE_CB_message_complete | HPE_CB_status
  | HPE_CB_chunk_header | HPE_CB_chunk_complete
  | HPE_INVALID_EOF_STATE | HPE_HEADER_OVERFLOW | HPE_CLOSED_CONNECTION
  | HPE_INVALID_VERSION | HPE_INVALID_STATUS | HPE_INVALID_METHOD | HPE_INVALID_URL
  | HPE_INVALID_HOST | HPE_INVALID_PORT | HPE_INVALID_PATH | HPE_INVALID_QUERY_STRING
  | HPE_INVALID_FRAGMENT | HPE_LF_EXPECTED | HPE_INVALID_HEADER_TOKEN
  | HPE_INVALID_CONTENT_LENGTH | HPE_INVALID_CHUNK_SIZE | HPE_INVALID_CONSTANT
  | HPE_INVALID_INTERNAL_STATE | HPE_STRICT | HPE_PAUSED | HPE_UNKNOWN

text \<open>The table \<open>http_strerror_tab\<close>, generated from the same map as the enumeration.\<close>

primrec http_errno_name :: "http_errno \<Rightarrow> string" where
  "http_errno_name HPE_OK = ''HPE_OK''"
| "http_errno_name HPE_CB_message_begin = ''HPE_CB_message_begin''"
| "http_errno_name HPE_CB_url = ''HPE_CB_url''"
| "http_errno_name HPE_CB_header_field = ''HPE_CB_header_field''"
| "http_errno_name HPE_CB_header_value = ''HPE_CB_header_value''"
| "http_errno_name HPE_CB_headers_complete = ''HPE_CB_headers_complete''"
| "http_errno_name HPE_CB_body = ''HPE_CB_body''"
| "http_errno_name HPE_CB_message_complete = ''HPE_CB_message_complete''"
| "http_errno_name HPE_CB_status = ''HPE_CB_status''"
| "http_errno_name HPE_CB_chunk_header = ''HPE_CB_chunk_header''"
| "http_errno_name HPE_CB_chunk_complete = ''HPE_CB_chunk_complete''"
| "http_errno_name HPE_INVALID_EOF_STATE = ''HPE_INVALID_EOF_STATE''"
| "http_errno_name HPE_HEADER_OVERFLOW = ''HPE_HEADER_OVERFLOW''"
| "http_errno_name HPE_CLOSED_CONNECTION = ''HPE_CLOSED_CONNECTION''"
| "http_errno_name HPE_INVALID_VERSION = ''HPE_INVALID_VERSION''"
| "http_errno_name HPE_INVALID_STATUS = ''HPE_INVALID_STATUS''"
| "http_errno_name HPE_INVALID_METHOD = ''HPE_INVALID_METHOD''"
| "http_errno_name HPE_INVALID_URL = ''HPE_INVALID_URL''"
| "http_errno_name HPE_INVALID_HOST = ''HPE_INVALID_HOST''"
| "http_errno_name HPE_INVALID_PORT = ''HPE_INVALID_PORT''"
| "http_errno_name HPE_INVALID_PATH = ''HPE_INVALID_PATH''"
| "http_errno_name HPE_INVALID_QUERY_STRING = ''HPE_INVALID_QUERY_STRING''"
| "http_errno_name HPE_INVALID_FRAGMENT = ''HPE_INVALID_FRAGMENT''"
| "http_errno_name HPE_LF_EXPECTED = ''HPE_LF_EXPECTED''"
| "http_errno_name HPE_INVALID_HEADER_TOKEN = ''HPE_INVALID_HEADER_TOKEN''"
| "http_errno_name HPE_INVALID_CONTENT_LENGTH = ''HPE_INVALID_CONTENT_LENGTH''"
| "http_errno_name HPE_INVALID_CHUNK_SIZE = ''HPE_INVALID_CHUNK_SIZE''"
| "http_errno_name HPE_INVALID_CONSTANT = ''HPE_INVALID_CONSTANT''"
| "http_errno_name HPE_INVALID_INTERNAL_STATE = ''HPE_INVALID_INTERNAL_STATE''"
| "http_errno_name HPE_STRICT = ''HPE_STRICT''"
| "http_errno_name HPE_PAUSED = ''HPE_PAUSED''"
| "http_errno_name HPE_UNKNOWN = ''HPE_UNKNOWN''"

primrec http_errno_description :: "http_errno \<Rightarrow> string" where
  "http_errno_description HPE_OK =
     ''success''"
| "http_errno_description HPE_CB_message_begin =
     ''the on_message_begin callback failed''"
| "http_errno_description HPE_CB_url =
     ''the on_url callback failed''"
| "http_errno_description HPE_CB_header_field =
     ''the on_header_field callback failed''"
| "http_errno_description HPE_CB_header_value =
     ''the on_header_value callback failed''"
| "http_errno_description HPE_CB_headers_complete =
     ''the on_headers_complete callback failed''"
| "http_errno_description HPE_CB_body =
     ''the on_body callback failed''"
| "http_errno_description HPE_CB_message_complete =
     ''the on_message_complete callback failed''"
| "http_errno_description HPE_CB_status =
     ''the on_status callback failed''"
| "http_errno_description HPE_CB_chunk_header =
     ''the on_chunk_header callback failed''"
| "http_errno_description HPE_CB_chunk_complete =
     ''the on_chunk_complete callback failed''"
| "http_errno_description HPE_INVALID_EOF_STATE =
     ''stream ended at an unexpected time''"
| "http_errno_description HPE_HEADER_OVERFLOW =
     ''too many header bytes seen; overflow detected''"
| "http_errno_description HPE_CLOSED_CONNECTION =
     ''data received after completed connection: close message''"
| "http_errno_description HPE_INVALID_VERSION =
     ''invalid HTTP version''"
| "http_errno_description HPE_INVALID_STATUS =
     ''invalid HTTP status code''"
| "http_errno_description HPE_INVALID_METHOD =
     ''invalid HTTP method''"
| "http_errno_description HPE_INVALID_URL =
     ''invalid URL''"
| "http_errno_description HPE_INVALID_HOST =
     ''invalid host''"
| "http_errno_description HPE_INVALID_PORT =
     ''invalid port''"
| "http_errno_description HPE_INVALID_PATH =
     ''invalid path''"
| "http_errno_description HPE_INVALID_QUERY_STRING =
     ''invalid query string''"
| "http_errno_description HPE_INVALID_FRAGMENT =
     ''invalid fragment''"
| "http_errno_description HPE_LF_EXPECTED =
     ''LF character expected''"
| "http_errno_description HPE_INVALID_HEADER_TOKEN =
     ''invalid character in header''"
| "http_errno_description HPE_INVALID_CONTENT_LENGTH =
     ''invalid character in content-length header''"
| "http_errno_description HPE_INVALID_CHUNK_SIZE =
     ''invalid character in chunk size header''"
| "http_errno_description HPE_INVALID_CONSTANT =
     ''invalid constant string''"
| "http_errno_description HPE_INVALID_INTERNAL_STATE =
     ''encountered unexpected internal state''"
| "http_errno_description HPE_STRICT =
     ''strict mode assertion failed''"
| "http_errno_description HPE_PAUSED =
     ''parser is paused''"
| "http_errno_description HPE_UNKNOWN =
     ''an unknown error occurred''"

subsection \<open>Parser states\<close>

datatype (plugins only: code) state =
    s_dead | s_start_req_or_res | s_res_or_resp_H | s_start_res | s_res_H | s_res_HT
  | s_res_HTT | s_res_HTTP | s_res_first_http_major | s_res_http_major
  | s_res_first_http_minor | s_res_http_minor | s_res_first_status_code
  | s_res_status_code | s_res_status_start | s_res_status | s_res_line_almost_done
  | s_start_req | s_req_method | s_req_spaces_before_url | s_req_schema
  | s_req_schema_slash | s_req_schema_slash_slash | s_req_server_start | s_req_server
  | s_req_server_with_at | s_req_path | s_req_query_string_start | s_req_query_string
  | s_req_fragment_start | s_req_fragment | s_req_http_start | s_req_http_H
  | s_req_http_HT | s_req_http_HTT | s_req_http_HTTP | s_req_first_http_major
  | s_req_http_major | s_req_first_http_minor | s_req_http_minor
  | s_req_line_almost_done | s_header_field_start | s_header_field
  | s_header_value_discard_ws | s_header_value_discard_ws_almost_done
  | s_header_value_discard_lws | s_header_value_start | s_header_value
  | s_header_value_lws | s_header_almost_done | s_chunk_size_start | s_chunk_size
  | s_chunk_parameters | s_chunk_size_almost_done | s_headers_almost_done
  | s_headers_done | s_chunk_data | s_chunk_data_almost_done | s_chunk_data_done
  | s_body_identity | s_body_identity_eof | s_message_done

text \<open>The numeric value of a state (\<open>s_dead = 1\<close>), which the code compares.\<close>

primrec state_code :: "state \<Rightarrow> nat" where
  "state_code s_dead = 1"
| "state_code s_start_req_or_res = 2"
| "state_code s_res_or_resp_H = 3"
| "state_code s_start_res = 4"
| "state_code s_res_H = 5"
| "state_code s_res_HT = 6"
| "state_code s_res_HTT = 7"
| "state_code s_res_HTTP = 8"
| "state_code s_res_first_http_major = 9"
| "state_code s_res_http_major = 10"
| "state_code s_res_first_http_minor = 11"
| "state_code s_res_http_minor = 12"
| "state_code s_res_first_status_code = 13"
| "state_code s_res_status_code = 14"
| "state_code s_res_status_start = 15"
| "state_code s_res_status = 16"
| "state_code s_res_line_almost_done = 17"
| "state_code s_start_req = 18"
| "state_code s_req_method = 19"
| "state_code s_req_spaces_before_url = 20"
| "state_code s_req_schema = 21"
| "state_code s_req_schema_slash = 22"
| "state_code s_req_schema_slash_slash = 23"
| "state_code s_req_server_start = 24"
| "state_code s_req_server = 25"
| "state_code s_req_server_with_at = 26"
| "state_code s_req_path = 27"
| "state_code s_req_query_string_start = 28"
| "state_code s_req_query_string = 29"
| "state_code s_req_fragment_start = 30"
| "state_code s_req_fragment = 31"
| "state_code s_req_http_start = 32"
| "state_code s_req_http_H = 33"
| "state_code s_req_http_HT = 34"
| "state_code s_req_http_HTT = 35"
| "state_code s_req_http_HTTP = 36"
| "state_code s_req_first_http_major = 37"
| "state_code s_req_http_major = 38"
| "state_code s_req_first_http_minor = 39"
| "state_code s_req_http_minor = 40"
| "state_code s_req_line_almost_done = 41"
| "state_code s_header_field_start = 42"
| "state_code s_header_field = 43"
| "state_code s_header_value_discard_ws = 44"
| "state_code s_header_value_discard_ws_almost_done = 45"
| "state_code s_header_value_discard_lws = 46"
| "state_code s_header_value_start = 47"
| "state_code s_header_value = 48"
| "state_code s_header_value_lws = 49"
| "state_code s_header_almost_done = 50"
| "state_code s_chunk_size_start = 51"
| "state_code s_chunk_size = 52"
| "state_code s_chunk_parameters = 53"
| "state_code s_chunk_size_almost_done = 54"
| "state_code s_headers_almost_done = 55"
| "state_code s_headers_done = 56"
| "state_code s_chunk_data = 57"
| "state_code s_chunk_data_almost_done = 58"
| "state_code s_chunk_data_done = 59"
| "state_code s_body_identity = 60"
| "state_code s_body_identity_eof = 61"
| "state_code s_message_done = 62"

definition PARSING_HEADER :: "state \<Rightarrow> bool" where
  "PARSING_HEADER s \<longleftrightarrow> state_code s \<le> state_code s_headers_done"

datatype (plugins only: code) header_states =
    h_general | h_C | h_CO | h_CON | h_matching_connection | h_matching_proxy_connection
  | h_matching_content_length | h_matching_transfer_encoding | h_matching_upgrade
  | h_connection | h_content_length | h_transfer_encoding | h_upgrade
  | h_matching_transfer_encoding_chunked | h_matching_connection_token_start
  | h_matching_connection_keep_alive | h_matching_connection_close
  | h_matching_connection_upgrade | h_matching_connection_token
  | h_transfer_encoding_chunked | h_connection_keep_alive | h_connection_close
  | h_connection_upgrade

subsection \<open>The parser struct and the callback table\<close>

record http_parser =
  ptype :: http_parser_type
  flags :: flag_word
  state :: state
  header_state :: header_states
  index :: "8 word"
  nread :: "32 word"
  content_length :: "64 word"
  http_major :: "16 word"
  http_minor :: "16 word"
  status_code :: "16 word"
  "method" :: http_method
  http_errno :: http_errno
  upgrade :: bool

text \<open>
  A callback may read and write the parser it is given and the world behind its
  \<open>data\<close> pointer, and returns an \<open>int\<close>. A data callback is given the bytes
  \<open>at[0..length)\<close> as well. A null function pointer is \<open>None\<close>.
\<close>

type_synonym 'u http_cb = "http_parser \<Rightarrow> 'u \<Rightarrow> int \<times> http_parser \<times> 'u"
type_synonym 'u http_data_cb = "string \<Rightarrow> http_parser \<Rightarrow> 'u \<Rightarrow> int \<times> http_parser \<times> 'u"

record 'u http_parser_settings =
  on_message_begin :: "'u http_cb option"
  on_url :: "'u http_data_cb option"
  on_status :: "'u http_data_cb option"
  on_header_field :: "'u http_data_cb option"
  on_header_value :: "'u http_data_cb option"
  on_headers_complete :: "'u http_cb option"
  on_body :: "'u http_data_cb option"
  on_message_complete :: "'u http_cb option"
  on_chunk_header :: "'u http_cb option"
  on_chunk_complete :: "'u http_cb option"

definition http_parser_settings_init :: "'u http_parser_settings" where
  "http_parser_settings_init =
     \<lparr>on_message_begin = None, on_url = None, on_status = None, on_header_field = None,
      on_header_value = None, on_headers_complete = None, on_body = None,
      on_message_complete = None, on_chunk_header = None, on_chunk_complete = None\<rparr>"

definition HTTP_MAX_HEADER_SIZE :: nat where
  [char_eval]: "HTTP_MAX_HEADER_SIZE = 80 * 1024"

definition ULLONG_MAX :: "64 word" where
  "ULLONG_MAX = - 1"

lemma unat_ULLONG_MAX: "unat ULLONG_MAX = 2 ^ 64 - 1"
  unfolding ULLONG_MAX_def unsigned_minus_1_eq_mask by (simp add: mask_eq_exp_minus_1)

text \<open>
  The character tables and character classes of \<^verbatim>\<open>http_parser.c\<close>, in the strict build
  (\<open>HTTP_PARSER_STRICT\<close> is 1 unless the build overrides it, and this one does not).
  The tables are C arrays of 256 entries whose initialisers list the first 128; C fills
  the others with zero, which \<open>table_at\<close> makes explicit.
\<close>

definition table_at :: "'a list \<Rightarrow> 'a \<Rightarrow> nat \<Rightarrow> 'a" where
  "table_at t zero i = (if i < length t then t ! i else zero)"

subsection \<open>Tables\<close>

definition tokens :: string where
  "tokens =
     replicate 33 NUL
     @ [CHR ''!'', NUL, CHR ''#'', CHR ''$'', CHR ''%'', CHR ''&'', CHR 0x27]
     @ [NUL, NUL, CHR ''*'', CHR ''+'', NUL, CHR ''-'', CHR ''.'', NUL]
     @ ''01234567''
     @ ''89'' @ [NUL, NUL, NUL, NUL, NUL, NUL]
     @ [NUL] @ ''abcdefg''
     @ ''hijklmno''
     @ ''pqrstuvw''
     @ ''xyz'' @ [NUL, NUL, NUL, CHR ''^'', CHR ''_'']
     @ [CHR 0x60] @ ''abcdefg''
     @ ''hijklmno''
     @ ''pqrstuvw''
     @ ''xyz'' @ [NUL, CHR ''|'', NUL, CHR ''~'', NUL]"

definition unhex :: "int list" where
  "unhex =
     replicate 48 (-1)
     @ [0, 1, 2, 3, 4, 5, 6, 7, 8, 9, -1, -1, -1, -1, -1, -1]
     @ [-1, 10, 11, 12, 13, 14, 15, -1, -1, -1, -1, -1, -1, -1, -1, -1]
     @ replicate 16 (-1)
     @ [-1, 10, 11, 12, 13, 14, 15, -1, -1, -1, -1, -1, -1, -1, -1, -1]
     @ replicate 16 (-1)"

definition normal_url_char :: "8 word list" where
  "normal_url_char =
     [0, 0,
      0, 0,
      0 OR 2 OR 4 OR 0 OR 16 OR 32 OR 64 OR 128, 255,
      255, 1 OR 2 OR 4 OR 8 OR 16 OR 32 OR 64 OR 0,
      255, 255, 255, 255, 255, 255, 255,
      1 OR 2 OR 4 OR 8 OR 16 OR 32 OR 64 OR 0]"

text \<open>\<open>BIT_AT(a, i)\<close>: bit \<open>i & 7\<close> of byte \<open>i >> 3\<close>.\<close>

definition BIT_AT :: "8 word list \<Rightarrow> 32 word \<Rightarrow> bool" where
  "BIT_AT a i \<longleftrightarrow>
     (table_at a 0 (unat (drop_bit 3 i))) AND push_bit (unat (i AND 7)) 1 \<noteq> 0"

subsection \<open>Character classes\<close>

fun LOWER :: "char \<Rightarrow> char" where
  "LOWER (Char b0 b1 b2 b3 b4 b5 b6 b7) = Char b0 b1 b2 b3 b4 True b6 b7"

definition IS_ALPHA :: "char \<Rightarrow> bool" where
  "IS_ALPHA c \<longleftrightarrow> CHR ''a'' \<le> LOWER c \<and> LOWER c \<le> CHR ''z''"

definition IS_NUM :: "char \<Rightarrow> bool" where
  "IS_NUM c \<longleftrightarrow> CHR ''0'' \<le> c \<and> c \<le> CHR ''9''"

definition IS_ALPHANUM :: "char \<Rightarrow> bool" where
  "IS_ALPHANUM c \<longleftrightarrow> IS_ALPHA c \<or> IS_NUM c"

definition IS_HEX :: "char \<Rightarrow> bool" where
  "IS_HEX c \<longleftrightarrow> IS_NUM c \<or> (CHR ''a'' \<le> LOWER c \<and> LOWER c \<le> CHR ''f'')"

definition IS_MARK :: "char \<Rightarrow> bool" where
  "IS_MARK c \<longleftrightarrow>
     c = CHR ''-'' \<or> c = CHR ''_'' \<or> c = CHR ''.'' \<or> c = CHR ''!'' \<or> c = CHR ''~'' \<or>
     c = CHR ''*'' \<or> c = CHR 0x27 \<or> c = CHR ''('' \<or> c = CHR '')''"

definition IS_USERINFO_CHAR :: "char \<Rightarrow> bool" where
  "IS_USERINFO_CHAR c \<longleftrightarrow>
     IS_ALPHANUM c \<or> IS_MARK c \<or> c = CHR ''%'' \<or> c = CHR '';'' \<or> c = CHR '':'' \<or>
     c = CHR ''&'' \<or> c = CHR ''='' \<or> c = CHR ''+'' \<or> c = CHR ''$'' \<or> c = CHR '',''"

definition STRICT_TOKEN :: "char \<Rightarrow> char" where
  "STRICT_TOKEN c = table_at tokens NUL (of_char c)"

definition TOKEN :: "char \<Rightarrow> char" where
  "TOKEN c = table_at tokens NUL (of_char c)"

definition IS_URL_CHAR :: "char \<Rightarrow> bool" where
  "IS_URL_CHAR c \<longleftrightarrow> BIT_AT normal_url_char (of_char c)"

definition IS_HOST_CHAR :: "char \<Rightarrow> bool" where
  "IS_HOST_CHAR c \<longleftrightarrow> IS_ALPHANUM c \<or> c = CHR ''.'' \<or> c = CHR ''-''"

text \<open>\<open>unhex[(unsigned char) ch]\<close>.\<close>

definition unhex_at :: "char \<Rightarrow> int" where
  "unhex_at c = table_at unhex 0 (of_char c)"

text \<open>\<open>ch - '0'\<close> stored in an unsigned integer; the code uses it after \<open>IS_NUM\<close> only.\<close>

definition digit_of :: "char \<Rightarrow> 'a::len word" where
  "digit_of c = of_char c - 48"

subsection \<open>What the tables and classes contain\<close>

text \<open>
  The tables are compared with a description of their contents by evaluating both on all
  256 characters.
\<close>

lemma all_chars: "list_all P (Enum.enum :: char list) \<Longrightarrow> P c"
  by (metis UNIV_I enum_UNIV list_all_iff)

definition is_upper :: "char \<Rightarrow> bool" where
  "is_upper c \<longleftrightarrow> CHR ''A'' \<le> c \<and> c \<le> CHR ''Z''"

definition is_token_char :: "char \<Rightarrow> bool" where
  "is_token_char c \<longleftrightarrow>
     IS_ALPHANUM c \<or> c \<in> set (''!#$%&*+-.^_|~'' @ [CHR 0x27, CHR 0x60])"

definition to_lower :: "char \<Rightarrow> char" where
  "to_lower c = (if is_upper c then LOWER c else c)"

lemma TOKEN_contents: "TOKEN c = (if is_token_char c then to_lower c else NUL)"
  by (rule all_chars [of "\<lambda>c. TOKEN c = (if is_token_char c then to_lower c else NUL)"])
    code_simp

lemma STRICT_TOKEN_eq: "STRICT_TOKEN c = TOKEN c"
  by (simp add: STRICT_TOKEN_def TOKEN_def)

lemma to_lower_token: "is_token_char c \<longrightarrow> to_lower c \<noteq> NUL"
  by (rule all_chars [of "\<lambda>c. is_token_char c \<longrightarrow> to_lower c \<noteq> NUL"]) code_simp

lemma TOKEN_NUL_iff: "TOKEN c = NUL \<longleftrightarrow> \<not> is_token_char c"
  using to_lower_token [of c] by (simp add: TOKEN_contents)

lemma IS_URL_CHAR_contents:
  "IS_URL_CHAR c \<longleftrightarrow> CHR 0x21 \<le> c \<and> c \<le> CHR 0x7E \<and> c \<noteq> CHR ''#'' \<and> c \<noteq> CHR ''?''"
  by (rule all_chars [of "\<lambda>c. IS_URL_CHAR c \<longleftrightarrow>
        CHR 0x21 \<le> c \<and> c \<le> CHR 0x7E \<and> c \<noteq> CHR ''#'' \<and> c \<noteq> CHR ''?''"]) code_simp

text \<open>
  The decoding table of chunk sizes. The last case is the tail of the array that the
  initialiser leaves out: C fills it with 0, so every byte above 127 reads as the digit 0.
\<close>

definition hex_value :: "char \<Rightarrow> int" where
  "hex_value c =
     (if IS_NUM c then of_char c - 48
      else if IS_HEX c then of_char (LOWER c) - 87
      else if CHR 0x80 \<le> c then 0
      else -1)"

lemma unhex_at_contents: "unhex_at c = hex_value c"
  by (rule all_chars [of "\<lambda>c. unhex_at c = hex_value c"]) code_simp

lemma unhex_at_range: "-1 \<le> unhex_at c \<and> unhex_at c \<le> 15"
  by (rule all_chars [of "\<lambda>c. -1 \<le> unhex_at c \<and> unhex_at c \<le> 15"]) code_simp

lemma IS_NUM_code: "IS_NUM c \<longleftrightarrow> 48 \<le> (of_char c :: nat) \<and> (of_char c :: nat) \<le> 57"
  by (simp add: IS_NUM_def less_eq_char_def)

lemma digit_of_nat: "IS_NUM c \<Longrightarrow> (digit_of c :: 'a::len word) = of_nat (of_char c - 48)"
  by (auto simp: digit_of_def IS_NUM_code of_nat_diff of_nat_of_char)

lemma IS_NUM_small: "IS_NUM c \<Longrightarrow> of_char c - 48 < (10 :: nat)"
  by (simp add: IS_NUM_code) arith

lemma unat_digit_of64: "IS_NUM c \<Longrightarrow> unat (digit_of c :: 64 word) = of_char c - 48"
  using IS_NUM_small [of c] by (simp only: digit_of_nat unat_of_nat) simp

lemma unat_digit_of16: "IS_NUM c \<Longrightarrow> unat (digit_of c :: 16 word) = of_char c - 48"
  using IS_NUM_small [of c] by (simp only: digit_of_nat unat_of_nat) simp

lemma unat_digit_of16_le: "IS_NUM c \<Longrightarrow> unat (digit_of c :: 16 word) \<le> 9"
  by (simp add: unat_digit_of16 IS_NUM_code) arith

lemma unat_digit_of64_le: "IS_NUM c \<Longrightarrow> unat (digit_of c :: 64 word) \<le> 9"
  by (simp add: unat_digit_of64 IS_NUM_code) arith

text \<open>Evaluation of the classes on ground characters, for concrete runs.\<close>

lemmas char_class_defs =
  IS_ALPHA_def IS_NUM_def IS_ALPHANUM_def IS_HEX_def IS_MARK_def IS_USERINFO_CHAR_def
  IS_HOST_CHAR_def IS_URL_CHAR_contents TOKEN_contents STRICT_TOKEN_eq is_token_char_def
  to_lower_def is_upper_def unhex_at_contents hex_value_def digit_of_def

declare char_class_defs [char_eval]

lemma TOKEN_separators [simp]:
  "TOKEN CR = NUL" "TOKEN LF = NUL" "TOKEN (CHR '':'') = NUL" "TOKEN SP = NUL" "TOKEN TAB = NUL"
  by (simp_all add: char_eval)

end
