(* ===== verification/Parser_Machine.thy ===== *)
theory Parser_Machine
  imports Http_Parser_Types
begin

text \<open>
  The machinery of \<open>http_parser_execute\<close> in \<^verbatim>\<open>http_parser.c\<close>: its local variables, the
  ways a case of its big \<open>switch\<close> can end, the macros that run callbacks, count header
  bytes and check strictness, and the two predicates on a finished message head.
\<close>

subsection \<open>Predicates on the parser\<close>

definition has_flag :: "http_parser \<Rightarrow> flag_word \<Rightarrow> bool" where
  "has_flag ps f \<longleftrightarrow> flags ps AND f \<noteq> 0"

definition add_flag :: "flag_word \<Rightarrow> http_parser \<Rightarrow> http_parser" where
  "add_flag f ps = ps\<lparr>flags := flags ps OR f\<rparr>"

definition http_message_needs_eof :: "http_parser \<Rightarrow> bool" where
  "http_message_needs_eof ps =
     (if ptype ps = HTTP_REQUEST then False
      else if status_code ps div 100 = 1 \<or> status_code ps = 204 \<or> status_code ps = 304 \<or>
              has_flag ps F_SKIPBODY then False
      else if has_flag ps F_CHUNKED \<or> content_length ps \<noteq> ULLONG_MAX then False
      else True)"

definition http_should_keep_alive :: "http_parser \<Rightarrow> bool" where
  "http_should_keep_alive ps =
     (if http_major ps > 0 \<and> http_minor ps > 0 then
        (if has_flag ps F_CONNECTION_CLOSE then False else \<not> http_message_needs_eof ps)
      else
        (if \<not> has_flag ps F_CONNECTION_KEEP_ALIVE then False
         else \<not> http_message_needs_eof ps))"

definition start_state :: "http_parser \<Rightarrow> state" where
  "start_state ps = (if ptype ps = HTTP_REQUEST then s_start_req else s_start_res)"

definition NEW_MESSAGE :: "http_parser \<Rightarrow> state" where
  "NEW_MESSAGE ps = (if http_should_keep_alive ps then start_state ps else s_dead)"

subsection \<open>Local variables and outcomes\<close>

text \<open>
  The pointer \<open>p\<close> is the offset \<open>pos\<close> into the buffer; the five mark pointers are
  offsets, \<open>None\<close> for a null pointer; \<open>p_state\<close> is the local copy of the state, written
  back to the struct before callbacks and on return. The world \<open>'u\<close> is what the callbacks
  reach through \<open>data\<close>.
\<close>

datatype mark = header_field_mark | header_value_mark | url_mark | body_mark | status_mark

record 'u exec =
  parser :: http_parser
  world :: 'u
  p_state :: state
  pos :: nat
  ch :: char
  marks :: "mark \<Rightarrow> nat option"

text \<open>
  How a piece of a case ends: it runs on (\<open>Next\<close>), leaves the switch (\<open>Break\<close>), jumps to
  \<open>reexecute\<close> or to \<open>error\<close>, returns from the function, or aborts: an \<open>assert\<close> that
  fails, or an access outside an array.
\<close>

datatype 'u outcome =
    Next "'u exec" | Break "'u exec" | Reexecute "'u exec" | Goto_error "'u exec"
  | Return nat "'u exec" | Abort

fun seq :: "'u outcome \<Rightarrow> ('u exec \<Rightarrow> 'u outcome) \<Rightarrow> 'u outcome" where
  "seq (Next e) f = f e"
| "seq (Break e) f = Break e"
| "seq (Reexecute e) f = Reexecute e"
| "seq (Goto_error e) f = Goto_error e"
| "seq (Return n e) f = Return n e"
| "seq Abort f = Abort"

lemma seq_assoc: "seq (seq m f) g = seq m (\<lambda>e. seq (f e) g)"
  by (cases m) simp_all

subsection \<open>The macros\<close>

definition SET_ERRNO :: "http_errno \<Rightarrow> 'u exec \<Rightarrow> 'u exec" where
  "SET_ERRNO er e = e\<lparr>parser := (parser e)\<lparr>http_errno := er\<rparr>\<rparr>"

definition UPDATE_STATE :: "state \<Rightarrow> 'u exec \<Rightarrow> 'u exec" where
  "UPDATE_STATE s e = e\<lparr>p_state := s\<rparr>"

definition upd_parser :: "(http_parser \<Rightarrow> http_parser) \<Rightarrow> 'u exec \<Rightarrow> 'u exec" where
  "upd_parser f e = e\<lparr>parser := f (parser e)\<rparr>"

text \<open>\<open>SET_ERRNO(er); goto error;\<close>\<close>

definition fail :: "http_errno \<Rightarrow> 'u exec \<Rightarrow> 'u outcome" where
  "fail er e = Goto_error (SET_ERRNO er e)"

text \<open>\<open>RETURN(V)\<close>: write the state back, then return.\<close>

definition RETURN :: "nat \<Rightarrow> 'u exec \<Rightarrow> 'u outcome" where
  "RETURN n e = Return n (e\<lparr>parser := (parser e)\<lparr>state := p_state e\<rparr>\<rparr>)"

definition assert_that :: "bool \<Rightarrow> 'u exec \<Rightarrow> 'u outcome" where
  "assert_that c e = (if c then Next e else Abort)"

definition STRICT_CHECK :: "bool \<Rightarrow> 'u exec \<Rightarrow> 'u outcome" where
  "STRICT_CHECK c e = (if c then fail HPE_STRICT e else Next e)"

definition COUNT_HEADER_SIZE :: "nat \<Rightarrow> 'u exec \<Rightarrow> 'u outcome" where
  "COUNT_HEADER_SIZE v e =
     (let e1 = upd_parser (\<lambda>ps. ps\<lparr>nread := nread ps + of_nat v\<rparr>) e
      in if nread (parser e1) > of_nat HTTP_MAX_HEADER_SIZE
         then fail HPE_HEADER_OVERFLOW e1
         else Next e1)"

definition MARK :: "mark \<Rightarrow> 'u exec \<Rightarrow> 'u exec" where
  "MARK m e =
     (if marks e m = None then e\<lparr>marks := (marks e)(m := Some (pos e))\<rparr> else e)"

text \<open>
  The common part of the macros \<open>CALLBACK_NOTIFY_\<close> and \<open>CALLBACK_DATA_\<close> (named with the suffix \<open>ER\<close> here): write the state back, call,
  record a non-zero return as an error, read the state back, and return \<open>er\<close> if the parser
  now has an error or was paused.
\<close>

definition run_callback ::
  "'u http_cb \<Rightarrow> http_errno \<Rightarrow> nat \<Rightarrow> 'u exec \<Rightarrow> 'u outcome" where
  "run_callback f hpe er e =
     (let (r, ps, w) = f ((parser e)\<lparr>state := p_state e\<rparr>) (world e);
          ps' = (if r \<noteq> 0 then ps\<lparr>http_errno := hpe\<rparr> else ps);
          e' = e\<lparr>parser := ps', world := w, p_state := state ps'\<rparr>
      in if http_errno ps' \<noteq> HPE_OK then Return er e' else Next e')"

definition CALLBACK_NOTIFY_ER ::
  "'u http_cb option \<Rightarrow> http_errno \<Rightarrow> nat \<Rightarrow> 'u exec \<Rightarrow> 'u outcome" where
  "CALLBACK_NOTIFY_ER cb hpe er e =
     (if http_errno (parser e) \<noteq> HPE_OK then Abort
      else case cb of None \<Rightarrow> Next e | Some f \<Rightarrow> run_callback f hpe er e)"

definition CALLBACK_NOTIFY :: "'u http_cb option \<Rightarrow> http_errno \<Rightarrow> 'u exec \<Rightarrow> 'u outcome" where
  "CALLBACK_NOTIFY cb hpe e = CALLBACK_NOTIFY_ER cb hpe (pos e + 1) e"

definition CALLBACK_NOTIFY_NOADVANCE ::
  "'u http_cb option \<Rightarrow> http_errno \<Rightarrow> 'u exec \<Rightarrow> 'u outcome" where
  "CALLBACK_NOTIFY_NOADVANCE cb hpe e = CALLBACK_NOTIFY_ER cb hpe (pos e) e"

text \<open>Which callback and which error number belong to a mark.\<close>

primrec data_callback :: "mark \<Rightarrow> 'u http_parser_settings \<Rightarrow> 'u http_data_cb option" where
  "data_callback header_field_mark st = on_header_field st"
| "data_callback header_value_mark st = on_header_value st"
| "data_callback url_mark st = on_url st"
| "data_callback body_mark st = on_body st"
| "data_callback status_mark st = on_status st"

primrec data_errno :: "mark \<Rightarrow> http_errno" where
  "data_errno header_field_mark = HPE_CB_header_field"
| "data_errno header_value_mark = HPE_CB_header_value"
| "data_errno url_mark = HPE_CB_url"
| "data_errno body_mark = HPE_CB_body"
| "data_errno status_mark = HPE_CB_status"

text \<open>
  The macro \<open>CALLBACK_DATA_\<close> with its length and return value. The bytes handed over are those from the mark up to
  the offset \<open>stop\<close>, so \<open>LEN = stop - mark\<close>.
\<close>

definition CALLBACK_DATA_ER ::
  "'u http_parser_settings \<Rightarrow> string \<Rightarrow> mark \<Rightarrow> nat \<Rightarrow> nat \<Rightarrow> 'u exec \<Rightarrow> 'u outcome" where
  "CALLBACK_DATA_ER st d m stop er e =
     (if http_errno (parser e) \<noteq> HPE_OK then Abort
      else case marks e m of
        None \<Rightarrow> Next e
      | Some i \<Rightarrow>
          seq (case data_callback m st of
                 None \<Rightarrow> Next e
               | Some f \<Rightarrow>
                   run_callback (f (take (stop - i) (drop i d))) (data_errno m) er e)
              (\<lambda>e. Next (e\<lparr>marks := (marks e)(m := None)\<rparr>)))"

definition CALLBACK_DATA ::
  "'u http_parser_settings \<Rightarrow> string \<Rightarrow> mark \<Rightarrow> 'u exec \<Rightarrow> 'u outcome" where
  "CALLBACK_DATA st d m e = CALLBACK_DATA_ER st d m (pos e) (pos e + 1) e"

definition CALLBACK_DATA_NOADVANCE ::
  "'u http_parser_settings \<Rightarrow> string \<Rightarrow> mark \<Rightarrow> 'u exec \<Rightarrow> 'u outcome" where
  "CALLBACK_DATA_NOADVANCE st d m e = CALLBACK_DATA_ER st d m (pos e) (pos e) e"

lemmas macro_defs =
  SET_ERRNO_def UPDATE_STATE_def upd_parser_def fail_def RETURN_def assert_that_def
  STRICT_CHECK_def COUNT_HEADER_SIZE_def MARK_def CALLBACK_NOTIFY_def
  CALLBACK_NOTIFY_NOADVANCE_def CALLBACK_DATA_def CALLBACK_DATA_NOADVANCE_def
  has_flag_def add_flag_def

declare macro_defs [parser_defs]

end
