(* ===== verification/Url_Char.thy ===== *)
theory Url_Char
  imports Http_Parser_Types
begin

text \<open>
  \<open>parse_url_char\<close> of \<^verbatim>\<open>http_parser.c\<close>: one transition of the URL automaton that
  \<open>http_parser_execute\<close> and \<open>http_parser_parse_url\<close> share, with the strict build's
  extra refusal of tab and form feed.
\<close>

definition parse_url_char :: "state \<Rightarrow> char \<Rightarrow> state" where
  "parse_url_char s ch =
     (if ch = SP \<or> ch = CR \<or> ch = LF then s_dead
      else if ch = TAB \<or> ch = CHR 0x0C then s_dead
      else case s of
        s_req_spaces_before_url \<Rightarrow>
          (if ch = CHR ''/'' \<or> ch = CHR ''*'' then s_req_path
           else if IS_ALPHA ch then s_req_schema
           else s_dead)
      | s_req_schema \<Rightarrow>
          (if IS_ALPHA ch then s_req_schema
           else if ch = CHR '':'' then s_req_schema_slash
           else s_dead)
      | s_req_schema_slash \<Rightarrow>
          (if ch = CHR ''/'' then s_req_schema_slash_slash else s_dead)
      | s_req_schema_slash_slash \<Rightarrow>
          (if ch = CHR ''/'' then s_req_server_start else s_dead)
      | s_req_server_with_at \<Rightarrow>
          (if ch = CHR ''@'' then s_dead
           else if ch = CHR ''/'' then s_req_path
           else if ch = CHR ''?'' then s_req_query_string_start
           else if IS_USERINFO_CHAR ch \<or> ch = CHR ''['' \<or> ch = CHR '']'' then s_req_server
           else s_dead)
      | s_req_server_start \<Rightarrow>
          (if ch = CHR ''/'' then s_req_path
           else if ch = CHR ''?'' then s_req_query_string_start
           else if ch = CHR ''@'' then s_req_server_with_at
           else if IS_USERINFO_CHAR ch \<or> ch = CHR ''['' \<or> ch = CHR '']'' then s_req_server
           else s_dead)
      | s_req_server \<Rightarrow>
          (if ch = CHR ''/'' then s_req_path
           else if ch = CHR ''?'' then s_req_query_string_start
           else if ch = CHR ''@'' then s_req_server_with_at
           else if IS_USERINFO_CHAR ch \<or> ch = CHR ''['' \<or> ch = CHR '']'' then s_req_server
           else s_dead)
      | s_req_path \<Rightarrow>
          (if IS_URL_CHAR ch then s_req_path
           else if ch = CHR ''?'' then s_req_query_string_start
           else if ch = CHR ''#'' then s_req_fragment_start
           else s_dead)
      | s_req_query_string_start \<Rightarrow>
          (if IS_URL_CHAR ch then s_req_query_string
           else if ch = CHR ''?'' then s_req_query_string
           else if ch = CHR ''#'' then s_req_fragment_start
           else s_dead)
      | s_req_query_string \<Rightarrow>
          (if IS_URL_CHAR ch then s_req_query_string
           else if ch = CHR ''?'' then s_req_query_string
           else if ch = CHR ''#'' then s_req_fragment_start
           else s_dead)
      | s_req_fragment_start \<Rightarrow>
          (if IS_URL_CHAR ch then s_req_fragment
           else if ch = CHR ''?'' then s_req_fragment
           else if ch = CHR ''#'' then s_req_fragment_start
           else s_dead)
      | s_req_fragment \<Rightarrow>
          (if IS_URL_CHAR ch then s_req_fragment
           else if ch = CHR ''?'' \<or> ch = CHR ''#'' then s_req_fragment
           else s_dead)
      | _ \<Rightarrow> s_dead)"

text \<open>
  The states of the automaton while it is inside a URL; \<open>s_req_spaces_before_url\<close> is its
  start state.
\<close>

definition url_states :: "state set" where
  "url_states =
     {s_req_schema, s_req_schema_slash, s_req_schema_slash_slash, s_req_server_start,
      s_req_server, s_req_server_with_at, s_req_path, s_req_query_string_start,
      s_req_query_string, s_req_fragment_start, s_req_fragment}"

lemma parse_url_char_range: "parse_url_char s ch \<in> insert s_dead url_states"
  by (cases s) (simp_all add: parse_url_char_def url_states_def)

lemma parse_url_char_url_state:
  "parse_url_char s ch \<noteq> s_dead \<Longrightarrow> parse_url_char s ch \<in> url_states"
  using parse_url_char_range [of s ch] by simp

text \<open>Outside the URL the automaton is dead: no state but those above accepts a byte.\<close>

lemma parse_url_char_dead:
  "s \<notin> insert s_req_spaces_before_url url_states \<Longrightarrow> parse_url_char s ch = s_dead"
  by (cases s) (simp_all add: parse_url_char_def url_states_def)

text \<open>Every byte the automaton accepts is a printable ASCII character.\<close>

definition url_byte :: "char \<Rightarrow> bool" where
  "url_byte c \<longleftrightarrow> CHR 0x21 \<le> c \<and> c \<le> CHR 0x7E"

lemma alpha_url_byte: "IS_ALPHA c \<longrightarrow> url_byte c"
  by (rule all_chars [of "\<lambda>c. IS_ALPHA c \<longrightarrow> url_byte c"]) code_simp

lemma userinfo_url_byte: "IS_USERINFO_CHAR c \<longrightarrow> url_byte c"
  by (rule all_chars [of "\<lambda>c. IS_USERINFO_CHAR c \<longrightarrow> url_byte c"]) code_simp

lemma url_char_url_byte: "IS_URL_CHAR c \<Longrightarrow> url_byte c"
  by (simp add: IS_URL_CHAR_contents url_byte_def)

lemma parse_url_char_printable:
  assumes "parse_url_char s c \<noteq> s_dead"
  shows "url_byte c"
proof (cases "IS_ALPHA c \<or> IS_USERINFO_CHAR c \<or> IS_URL_CHAR c")
  case True
  then show ?thesis
    using alpha_url_byte userinfo_url_byte url_char_url_byte by blast
next
  case False
  with assms have "c \<in> set ''/*:@?[]#''"
    by (cases s) (auto simp: parse_url_char_def split: if_splits)
  then show ?thesis by (auto simp: url_byte_def)
qed

end
