(* ===== verification/Start_Lines.thy ===== *)
theory Start_Lines
  imports Parser_Machine Url_Char
begin

text \<open>
  The cases of the switch of \<open>http_parser_execute\<close> that wait for a message and read a
  status line: \<open>s_dead\<close>, \<open>s_start_req_or_res\<close>, \<open>s_res_or_resp_H\<close> and
  \<open>s_start_res\<close> to \<open>s_res_line_almost_done\<close>. One definition per case, or one for the
  cases that share their code up to the expected character and the next state. Then the cases of a
  request line, from \<open>s_start_req\<close> on.
\<close>

definition case_dead :: "'u exec \<Rightarrow> 'u outcome" where
  "case_dead e =
     (if ch e = CR \<or> ch e = LF then Break e else fail HPE_CLOSED_CONNECTION e)"

definition reset_message :: "http_parser \<Rightarrow> http_parser" where
  "reset_message ps = ps\<lparr>flags := 0, content_length := ULLONG_MAX\<rparr>"

definition case_start_req_or_res :: "'u http_parser_settings \<Rightarrow> 'u exec \<Rightarrow> 'u outcome" where
  "case_start_req_or_res st e =
     (if ch e = CR \<or> ch e = LF then Break e
      else
        let e1 = upd_parser reset_message e in
        if ch e = CHR ''H'' then
          seq (CALLBACK_NOTIFY (on_message_begin st) HPE_CB_message_begin
                 (UPDATE_STATE s_res_or_resp_H e1)) Break
        else
          Reexecute (UPDATE_STATE s_start_req
            (upd_parser (\<lambda>ps. ps\<lparr>ptype := HTTP_REQUEST\<rparr>) e1)))"

definition case_res_or_resp_H :: "'u exec \<Rightarrow> 'u outcome" where
  "case_res_or_resp_H e =
     (if ch e = CHR ''T'' then
        Break (UPDATE_STATE s_res_HT (upd_parser (\<lambda>ps. ps\<lparr>ptype := HTTP_RESPONSE\<rparr>) e))
      else if ch e \<noteq> CHR ''E'' then fail HPE_INVALID_CONSTANT e
      else
        Break (UPDATE_STATE s_req_method
          (upd_parser (\<lambda>ps. ps\<lparr>ptype := HTTP_REQUEST, method := HTTP_HEAD, index := 2\<rparr>) e)))"

definition case_start_res :: "'u http_parser_settings \<Rightarrow> 'u exec \<Rightarrow> 'u outcome" where
  "case_start_res st e =
     (let e1 = upd_parser reset_message e in
      seq (if ch e = CHR ''H'' then Next (UPDATE_STATE s_res_H e1)
           else if ch e = CR \<or> ch e = LF then Next e1
           else fail HPE_INVALID_CONSTANT e1)
        (\<lambda>e2. seq (CALLBACK_NOTIFY (on_message_begin st) HPE_CB_message_begin e2) Break))"

text \<open>
  \<open>STRICT_CHECK(ch != c); UPDATE_STATE(s); break;\<close>: the body of \<open>s_res_H\<close>, \<open>s_res_HT\<close>,
  \<open>s_res_HTT\<close>, \<open>s_res_HTTP\<close>, \<open>s_res_line_almost_done\<close> and of their request-line
  counterparts.
\<close>

definition expect_char :: "char \<Rightarrow> state \<Rightarrow> 'u exec \<Rightarrow> 'u outcome" where
  "expect_char c s e = seq (STRICT_CHECK (ch e \<noteq> c) e) (\<lambda>e1. Break (UPDATE_STATE s e1))"

definition case_res_first_http_major :: "'u exec \<Rightarrow> 'u outcome" where
  "case_res_first_http_major e =
     (if ch e < CHR ''0'' \<or> ch e > CHR ''9'' then fail HPE_INVALID_VERSION e
      else Break (UPDATE_STATE s_res_http_major
             (upd_parser (\<lambda>ps. ps\<lparr>http_major := digit_of (ch e)\<rparr>) e)))"

text \<open>One more digit of the major or the minor version, with the limit 999.\<close>

definition more_major :: "'u exec \<Rightarrow> 'u outcome" where
  "more_major e =
     (let e1 = upd_parser (\<lambda>ps. ps\<lparr>http_major := http_major ps * 10 + digit_of (ch e)\<rparr>) e
      in if http_major (parser e1) > 999 then fail HPE_INVALID_VERSION e1 else Break e1)"

definition more_minor :: "'u exec \<Rightarrow> 'u outcome" where
  "more_minor e =
     (let e1 = upd_parser (\<lambda>ps. ps\<lparr>http_minor := http_minor ps * 10 + digit_of (ch e)\<rparr>) e
      in if http_minor (parser e1) > 999 then fail HPE_INVALID_VERSION e1 else Break e1)"

definition case_res_http_major :: "'u exec \<Rightarrow> 'u outcome" where
  "case_res_http_major e =
     (if ch e = CHR ''.'' then Break (UPDATE_STATE s_res_first_http_minor e)
      else if \<not> IS_NUM (ch e) then fail HPE_INVALID_VERSION e
      else more_major e)"

definition case_res_first_http_minor :: "'u exec \<Rightarrow> 'u outcome" where
  "case_res_first_http_minor e =
     (if \<not> IS_NUM (ch e) then fail HPE_INVALID_VERSION e
      else Break (UPDATE_STATE s_res_http_minor
             (upd_parser (\<lambda>ps. ps\<lparr>http_minor := digit_of (ch e)\<rparr>) e)))"

definition case_res_http_minor :: "'u exec \<Rightarrow> 'u outcome" where
  "case_res_http_minor e =
     (if ch e = SP then Break (UPDATE_STATE s_res_first_status_code e)
      else if \<not> IS_NUM (ch e) then fail HPE_INVALID_VERSION e
      else more_minor e)"

definition case_res_first_status_code :: "'u exec \<Rightarrow> 'u outcome" where
  "case_res_first_status_code e =
     (if \<not> IS_NUM (ch e) then
        (if ch e = SP then Break e else fail HPE_INVALID_STATUS e)
      else Break (UPDATE_STATE s_res_status_code
             (upd_parser (\<lambda>ps. ps\<lparr>status_code := digit_of (ch e)\<rparr>) e)))"

definition case_res_status_code :: "'u exec \<Rightarrow> 'u outcome" where
  "case_res_status_code e =
     (if \<not> IS_NUM (ch e) then
        (if ch e = SP then Break (UPDATE_STATE s_res_status_start e)
         else if ch e = CR then Break (UPDATE_STATE s_res_line_almost_done e)
         else if ch e = LF then Break (UPDATE_STATE s_header_field_start e)
         else fail HPE_INVALID_STATUS e)
      else
        let e1 = upd_parser
                   (\<lambda>ps. ps\<lparr>status_code := status_code ps * 10 + digit_of (ch e)\<rparr>) e
        in if status_code (parser e1) > 999 then fail HPE_INVALID_STATUS e1 else Break e1)"

definition case_res_status_start :: "'u exec \<Rightarrow> 'u outcome" where
  "case_res_status_start e =
     (if ch e = CR then Break (UPDATE_STATE s_res_line_almost_done e)
      else if ch e = LF then Break (UPDATE_STATE s_header_field_start e)
      else Break (upd_parser (\<lambda>ps. ps\<lparr>index := 0\<rparr>)
             (UPDATE_STATE s_res_status (MARK status_mark e))))"

definition case_res_status ::
  "'u http_parser_settings \<Rightarrow> string \<Rightarrow> 'u exec \<Rightarrow> 'u outcome" where
  "case_res_status st d e =
     (if ch e = CR then
        seq (CALLBACK_DATA st d status_mark (UPDATE_STATE s_res_line_almost_done e)) Break
      else if ch e = LF then
        seq (CALLBACK_DATA st d status_mark (UPDATE_STATE s_header_field_start e)) Break
      else Break e)"

lemmas response_line_defs =
  case_dead_def reset_message_def case_start_req_or_res_def case_res_or_resp_H_def
  case_start_res_def expect_char_def case_res_first_http_major_def more_major_def
  more_minor_def case_res_http_major_def case_res_first_http_minor_def
  case_res_http_minor_def case_res_first_status_code_def case_res_status_code_def
  case_res_status_start_def case_res_status_def

declare response_line_defs [parser_defs]

text \<open>
  The cases of the switch of \<open>http_parser_execute\<close> that read a request line:
  \<open>s_start_req\<close>, \<open>s_req_method\<close>, the URL states and \<open>s_req_http_start\<close> to
  \<open>s_req_line_almost_done\<close>.
\<close>

subsection \<open>The method\<close>

text \<open>The first guess of the method, from its first letter.\<close>

definition first_method :: "char \<Rightarrow> http_method option" where
  "first_method c =
     (if c = CHR ''A'' then Some HTTP_ACL
      else if c = CHR ''B'' then Some HTTP_BIND
      else if c = CHR ''C'' then Some HTTP_CONNECT
      else if c = CHR ''D'' then Some HTTP_DELETE
      else if c = CHR ''G'' then Some HTTP_GET
      else if c = CHR ''H'' then Some HTTP_HEAD
      else if c = CHR ''L'' then Some HTTP_LOCK
      else if c = CHR ''M'' then Some HTTP_MKCOL
      else if c = CHR ''N'' then Some HTTP_NOTIFY
      else if c = CHR ''O'' then Some HTTP_OPTIONS
      else if c = CHR ''P'' then Some HTTP_POST
      else if c = CHR ''R'' then Some HTTP_REPORT
      else if c = CHR ''S'' then Some HTTP_SUBSCRIBE
      else if c = CHR ''T'' then Some HTTP_TRACE
      else if c = CHR ''U'' then Some HTTP_UNLOCK
      else None)"

definition case_start_req :: "'u http_parser_settings \<Rightarrow> 'u exec \<Rightarrow> 'u outcome" where
  "case_start_req st e =
     (if ch e = CR \<or> ch e = LF then Break e
      else
        let e1 = upd_parser reset_message e in
        if \<not> IS_ALPHA (ch e) then fail HPE_INVALID_METHOD e1
        else
          let e2 = upd_parser (\<lambda>ps. ps\<lparr>method := HTTP_DELETE, index := 1\<rparr>) e1 in
          case first_method (ch e) of
            None \<Rightarrow> fail HPE_INVALID_METHOD e2
          | Some m \<Rightarrow>
              seq (CALLBACK_NOTIFY (on_message_begin st) HPE_CB_message_begin
                    (UPDATE_STATE s_req_method (upd_parser (\<lambda>ps. ps\<lparr>method := m\<rparr>) e2)))
                Break)"

text \<open>
  The branches of \<open>s_req_method\<close> after the character differs from the one the current
  guess expects: another guess, or \<open>None\<close> for \<open>HPE_INVALID_METHOD\<close>. The nesting is the
  code's; where the code leaves the chain without an assignment (index 1 and a method other
  than \<open>POST\<close> and \<open>LOCK\<close>) the guess stays as it is.
\<close>

definition switch_method :: "http_method \<Rightarrow> 8 word \<Rightarrow> char \<Rightarrow> http_method option" where
  "switch_method m i c =
     (if m = HTTP_CONNECT then
        (if i = 1 \<and> c = CHR ''H'' then Some HTTP_CHECKOUT
         else if i = 2 \<and> c = CHR ''P'' then Some HTTP_COPY
         else None)
      else if m = HTTP_MKCOL then
        (if i = 1 \<and> c = CHR ''O'' then Some HTTP_MOVE
         else if i = 1 \<and> c = CHR ''E'' then Some HTTP_MERGE
         else if i = 1 \<and> c = CHR ''-'' then Some HTTP_MSEARCH
         else if i = 2 \<and> c = CHR ''A'' then Some HTTP_MKACTIVITY
         else if i = 3 \<and> c = CHR ''A'' then Some HTTP_MKCALENDAR
         else None)
      else if m = HTTP_SUBSCRIBE then
        (if i = 1 \<and> c = CHR ''E'' then Some HTTP_SEARCH else None)
      else if m = HTTP_REPORT then
        (if i = 2 \<and> c = CHR ''B'' then Some HTTP_REBIND else None)
      else if i = 1 then
        (if m = HTTP_POST then
           (if c = CHR ''R'' then Some HTTP_PROPFIND
            else if c = CHR ''U'' then Some HTTP_PUT
            else if c = CHR ''A'' then Some HTTP_PATCH
            else None)
         else if m = HTTP_LOCK then
           (if c = CHR ''I'' then Some HTTP_LINK else None)
         else Some m)
      else if i = 2 then
        (if m = HTTP_PUT then
           (if c = CHR ''R'' then Some HTTP_PURGE else None)
         else if m = HTTP_UNLOCK then
           (if c = CHR ''S'' then Some HTTP_UNSUBSCRIBE
            else if c = CHR ''B'' then Some HTTP_UNBIND
            else None)
         else None)
      else if i = 4 \<and> m = HTTP_PROPFIND \<and> c = CHR ''P'' then Some HTTP_PROPPATCH
      else if i = 3 \<and> m = HTTP_UNLOCK \<and> c = CHR ''I'' then Some HTTP_UNLINK
      else None)"

definition next_index :: "'u exec \<Rightarrow> 'u exec" where
  "next_index e = upd_parser (\<lambda>ps. ps\<lparr>index := index ps + 1\<rparr>) e"

text \<open>
  Reading \<open>matcher[parser->index]\<close> beyond the terminator of the method name would be
  outside the array.
\<close>

definition case_req_method :: "'u exec \<Rightarrow> 'u outcome" where
  "case_req_method e =
     (if ch e = NUL then fail HPE_INVALID_METHOD e
      else
        case lit_at (method_strings (method (parser e))) (unat (index (parser e))) of
          None \<Rightarrow> Abort
        | Some m \<Rightarrow>
            if ch e = SP \<and> m = NUL then
              Break (next_index (UPDATE_STATE s_req_spaces_before_url e))
            else if ch e = m then Break (next_index e)
            else
              case switch_method (method (parser e)) (index (parser e)) (ch e) of
                None \<Rightarrow> fail HPE_INVALID_METHOD e
              | Some m' \<Rightarrow> Break (next_index (upd_parser (\<lambda>ps. ps\<lparr>method := m'\<rparr>) e)))"

subsection \<open>The URL\<close>

definition url_step :: "'u exec \<Rightarrow> 'u outcome" where
  "url_step e =
     (let e1 = UPDATE_STATE (parse_url_char (p_state e) (ch e)) e in
      if p_state e1 = s_dead then fail HPE_INVALID_URL e1 else Break e1)"

definition case_req_spaces_before_url :: "'u exec \<Rightarrow> 'u outcome" where
  "case_req_spaces_before_url e =
     (if ch e = SP then Break e
      else
        let e1 = MARK url_mark e;
            e2 = (if method (parser e1) = HTTP_CONNECT
                  then UPDATE_STATE s_req_server_start e1 else e1)
        in url_step e2)"

text \<open>\<open>s_req_schema\<close>, \<open>s_req_schema_slash\<close>, \<open>s_req_schema_slash_slash\<close>,
  \<open>s_req_server_start\<close>.\<close>

definition case_req_schema :: "'u exec \<Rightarrow> 'u outcome" where
  "case_req_schema e =
     (if ch e = SP \<or> ch e = CR \<or> ch e = LF then fail HPE_INVALID_URL e else url_step e)"

text \<open>\<open>s_req_server\<close>, \<open>s_req_server_with_at\<close>, \<open>s_req_path\<close> and the states of the
  query string and the fragment.\<close>

definition case_req_url ::
  "'u http_parser_settings \<Rightarrow> string \<Rightarrow> 'u exec \<Rightarrow> 'u outcome" where
  "case_req_url st d e =
     (if ch e = SP then
        seq (CALLBACK_DATA st d url_mark (UPDATE_STATE s_req_http_start e)) Break
      else if ch e = CR \<or> ch e = LF then
        seq (CALLBACK_DATA st d url_mark
              (UPDATE_STATE (if ch e = CR then s_req_line_almost_done else s_header_field_start)
                (upd_parser (\<lambda>ps. ps\<lparr>http_major := 0, http_minor := 9\<rparr>) e))) Break
      else url_step e)"

subsection \<open>The version\<close>

definition case_req_http_start :: "'u exec \<Rightarrow> 'u outcome" where
  "case_req_http_start e =
     (if ch e = CHR ''H'' then Break (UPDATE_STATE s_req_http_H e)
      else if ch e = SP then Break e
      else fail HPE_INVALID_CONSTANT e)"

definition case_req_first_http_major :: "'u exec \<Rightarrow> 'u outcome" where
  "case_req_first_http_major e =
     (if ch e < CHR ''1'' \<or> ch e > CHR ''9'' then fail HPE_INVALID_VERSION e
      else Break (UPDATE_STATE s_req_http_major
             (upd_parser (\<lambda>ps. ps\<lparr>http_major := digit_of (ch e)\<rparr>) e)))"

definition case_req_http_major :: "'u exec \<Rightarrow> 'u outcome" where
  "case_req_http_major e =
     (if ch e = CHR ''.'' then Break (UPDATE_STATE s_req_first_http_minor e)
      else if \<not> IS_NUM (ch e) then fail HPE_INVALID_VERSION e
      else more_major e)"

definition case_req_first_http_minor :: "'u exec \<Rightarrow> 'u outcome" where
  "case_req_first_http_minor e =
     (if \<not> IS_NUM (ch e) then fail HPE_INVALID_VERSION e
      else Break (UPDATE_STATE s_req_http_minor
             (upd_parser (\<lambda>ps. ps\<lparr>http_minor := digit_of (ch e)\<rparr>) e)))"

definition case_req_http_minor :: "'u exec \<Rightarrow> 'u outcome" where
  "case_req_http_minor e =
     (if ch e = CR then Break (UPDATE_STATE s_req_line_almost_done e)
      else if ch e = LF then Break (UPDATE_STATE s_header_field_start e)
      else if \<not> IS_NUM (ch e) then fail HPE_INVALID_VERSION e
      else more_minor e)"

definition case_req_line_almost_done :: "'u exec \<Rightarrow> 'u outcome" where
  "case_req_line_almost_done e =
     (if ch e \<noteq> LF then fail HPE_LF_EXPECTED e
      else Break (UPDATE_STATE s_header_field_start e))"

lemmas request_line_defs =
  case_start_req_def next_index_def case_req_method_def url_step_def
  case_req_spaces_before_url_def case_req_schema_def case_req_url_def
  case_req_http_start_def case_req_first_http_major_def case_req_http_major_def
  case_req_first_http_minor_def case_req_http_minor_def case_req_line_almost_done_def

declare request_line_defs [parser_defs]

end
