(* ===== verification/Header_Lines.thy ===== *)
theory Header_Lines
  imports Parser_Machine
begin

text \<open>
  The cases of the switch of \<open>http_parser_execute\<close> that read header lines:
  \<open>s_header_field_start\<close> to \<open>s_header_value_lws\<close>. Two of them hold inner loops over the
  rest of the buffer, the loop over a header's name and the loop over its value; each loop
  is a recursive function, the code after it a definition that calls the loop.
\<close>

subsection \<open>Names the parser looks for\<close>

definition PROXY_CONNECTION :: string where
  [char_eval]: "PROXY_CONNECTION = ''proxy-connection''"
definition CONNECTION :: string where [char_eval]: "CONNECTION = ''connection''"
definition CONTENT_LENGTH :: string where [char_eval]: "CONTENT_LENGTH = ''content-length''"
definition TRANSFER_ENCODING :: string where
  [char_eval]: "TRANSFER_ENCODING = ''transfer-encoding''"
definition UPGRADE :: string where [char_eval]: "UPGRADE = ''upgrade''"
definition CHUNKED :: string where [char_eval]: "CHUNKED = ''chunked''"
definition KEEP_ALIVE :: string where [char_eval]: "KEEP_ALIVE = ''keep-alive''"
definition CLOSE :: string where [char_eval]: "CLOSE = ''close''"

lemmas literal_defs =
  PROXY_CONNECTION_def CONNECTION_def CONTENT_LENGTH_def TRANSFER_ENCODING_def UPGRADE_def
  CHUNKED_def KEEP_ALIVE_def CLOSE_def

text \<open>
  One step of matching a literal (\<open>sizeof(lit)\<close> is its length plus one): advance the
  index; a mismatch goes to \<open>miss\<close>, the last character to \<open>hit\<close>, any other character
  stays. \<open>None\<close> is a read outside the literal.
\<close>

definition match_literal ::
  "string \<Rightarrow> header_states \<Rightarrow> header_states \<Rightarrow> header_states \<Rightarrow> char \<Rightarrow> 8 word
   \<Rightarrow> header_states option" where
  "match_literal lit stay miss hit c i =
     (if length lit < unat i then Some miss
      else case lit_at lit (unat i) of
        None \<Rightarrow> None
      | Some l \<Rightarrow>
          if c \<noteq> l then Some miss
          else if unat i = length lit - 1 then Some hit
          else Some stay)"

subsection \<open>The header name\<close>

definition first_header_state :: "char \<Rightarrow> header_states" where
  "first_header_state c =
     (if c = CHR ''c'' then h_C
      else if c = CHR ''p'' then h_matching_proxy_connection
      else if c = CHR ''t'' then h_matching_transfer_encoding
      else if c = CHR ''u'' then h_matching_upgrade
      else h_general)"

definition case_header_field_start :: "'u exec \<Rightarrow> 'u outcome" where
  "case_header_field_start e =
     (if ch e = CR then Break (UPDATE_STATE s_headers_almost_done e)
      else if ch e = LF then Reexecute (UPDATE_STATE s_headers_almost_done e)
      else
        let c = TOKEN (ch e) in
        if c = NUL then fail HPE_INVALID_HEADER_TOKEN e
        else
          Break (upd_parser (\<lambda>ps. ps\<lparr>header_state := first_header_state c\<rparr>)
            (UPDATE_STATE s_header_field
              (upd_parser (\<lambda>ps. ps\<lparr>index := 0\<rparr>) (MARK header_field_mark e)))))"

text \<open>
  The switch over \<open>header_state\<close> inside the loop over the name, for one character of
  the name (\<open>ch\<close>) and its token (\<open>c\<close>); \<open>None\<close> for a failing \<open>assert\<close>.
\<close>

definition match_field ::
  "string \<Rightarrow> header_states \<Rightarrow> char \<Rightarrow> http_parser \<Rightarrow> http_parser option" where
  "match_field lit hit c ps =
     (let i = index ps + 1 in
      map_option (\<lambda>h. ps\<lparr>index := i, header_state := h\<rparr>)
        (match_literal lit (header_state ps) h_general hit c i))"

definition header_field_char :: "char \<Rightarrow> char \<Rightarrow> http_parser \<Rightarrow> http_parser option" where
  "header_field_char chr c ps =
     (case header_state ps of
        h_general \<Rightarrow> Some ps
      | h_C \<Rightarrow>
          Some (ps\<lparr>index := index ps + 1,
                   header_state := (if c = CHR ''o'' then h_CO else h_general)\<rparr>)
      | h_CO \<Rightarrow>
          Some (ps\<lparr>index := index ps + 1,
                   header_state := (if c = CHR ''n'' then h_CON else h_general)\<rparr>)
      | h_CON \<Rightarrow>
          Some (ps\<lparr>index := index ps + 1,
                   header_state :=
                     (if c = CHR ''n'' then h_matching_connection
                      else if c = CHR ''t'' then h_matching_content_length
                      else h_general)\<rparr>)
      | h_matching_connection \<Rightarrow> match_field CONNECTION h_connection c ps
      | h_matching_proxy_connection \<Rightarrow> match_field PROXY_CONNECTION h_connection c ps
      | h_matching_content_length \<Rightarrow> match_field CONTENT_LENGTH h_content_length c ps
      | h_matching_transfer_encoding \<Rightarrow> match_field TRANSFER_ENCODING h_transfer_encoding c ps
      | h_matching_upgrade \<Rightarrow> match_field UPGRADE h_upgrade c ps
      | h_connection \<Rightarrow> Some (if chr \<noteq> SP then ps\<lparr>header_state := h_general\<rparr> else ps)
      | h_content_length \<Rightarrow> Some (if chr \<noteq> SP then ps\<lparr>header_state := h_general\<rparr> else ps)
      | h_transfer_encoding \<Rightarrow> Some (if chr \<noteq> SP then ps\<lparr>header_state := h_general\<rparr> else ps)
      | h_upgrade \<Rightarrow> Some (if chr \<noteq> SP then ps\<lparr>header_state := h_general\<rparr> else ps)
      | _ \<Rightarrow> None)"

text \<open>
  The loop over the name, over the bytes from \<open>p\<close> on: it stops at the end of the buffer or
  at a byte that is no token, and returns the parser, the number of bytes passed and the last
  value of \<open>ch\<close>.
\<close>

fun header_field_loop ::
  "string \<Rightarrow> http_parser \<Rightarrow> nat \<Rightarrow> char \<Rightarrow> (http_parser \<times> nat \<times> char) option" where
  "header_field_loop [] ps n chr = Some (ps, n, chr)"
| "header_field_loop (x # xs) ps n chr =
     (if TOKEN x = NUL then Some (ps, n, x)
      else case header_field_char x (TOKEN x) ps of
        None \<Rightarrow> None
      | Some ps' \<Rightarrow> header_field_loop xs ps' (Suc n) x)"

definition case_header_field ::
  "'u http_parser_settings \<Rightarrow> string \<Rightarrow> 'u exec \<Rightarrow> 'u outcome" where
  "case_header_field st d e =
     (case header_field_loop (drop (pos e) d) (parser e) 0 (ch e) of
        None \<Rightarrow> Abort
      | Some (ps, n, c) \<Rightarrow>
          seq (COUNT_HEADER_SIZE n (e\<lparr>parser := ps, pos := pos e + n, ch := c\<rparr>))
            (\<lambda>e1.
              if pos e1 = length d then Break (e1\<lparr>pos := pos e1 - 1\<rparr>)
              else if ch e1 = CHR '':'' then
                seq (CALLBACK_DATA st d header_field_mark
                      (UPDATE_STATE s_header_value_discard_ws e1)) Break
              else fail HPE_INVALID_HEADER_TOKEN e1))"

subsection \<open>The start of the header value\<close>

text \<open>The switch over \<open>header_state\<close> at the first character of a value; \<open>None\<close> for
  \<open>HPE_INVALID_CONTENT_LENGTH\<close>.\<close>

definition header_value_first :: "char \<Rightarrow> http_parser \<Rightarrow> http_parser option" where
  "header_value_first chr ps =
     (let c = LOWER chr in
      case header_state ps of
        h_upgrade \<Rightarrow> Some ((add_flag F_UPGRADE ps)\<lparr>header_state := h_general\<rparr>)
      | h_transfer_encoding \<Rightarrow>
          Some (ps\<lparr>header_state :=
            (if CHR ''c'' = c then h_matching_transfer_encoding_chunked else h_general)\<rparr>)
      | h_content_length \<Rightarrow>
          (if \<not> IS_NUM chr then None else Some (ps\<lparr>content_length := digit_of chr\<rparr>))
      | h_connection \<Rightarrow>
          Some (ps\<lparr>header_state :=
            (if c = CHR ''k'' then h_matching_connection_keep_alive
             else if c = CHR ''c'' then h_matching_connection_close
             else if c = CHR ''u'' then h_matching_connection_upgrade
             else h_matching_connection_token)\<rparr>)
      | h_matching_connection_token_start \<Rightarrow> Some ps
      | _ \<Rightarrow> Some (ps\<lparr>header_state := h_general\<rparr>))"

definition case_header_value_start :: "'u exec \<Rightarrow> 'u outcome" where
  "case_header_value_start e =
     (let e1 = upd_parser (\<lambda>ps. ps\<lparr>index := 0\<rparr>)
                 (UPDATE_STATE s_header_value (MARK header_value_mark e))
      in case header_value_first (ch e1) (parser e1) of
           None \<Rightarrow> fail HPE_INVALID_CONTENT_LENGTH e1
         | Some ps \<Rightarrow> Break (e1\<lparr>parser := ps\<rparr>))"

definition case_header_value_discard_ws :: "'u exec \<Rightarrow> 'u outcome" where
  "case_header_value_discard_ws e =
     (if ch e = SP \<or> ch e = TAB then Break e
      else if ch e = CR then Break (UPDATE_STATE s_header_value_discard_ws_almost_done e)
      else if ch e = LF then Break (UPDATE_STATE s_header_value_discard_lws e)
      else case_header_value_start e)"

subsection \<open>The header value\<close>

text \<open>
  \<open>h_general\<close> skips to the next line end with \<open>memchr\<close>, looking at no more than
  \<open>HTTP_MAX_HEADER_SIZE\<close> bytes; the result is the new value of \<open>p\<close> before the
  \<open>--p\<close> that the \<open>p++\<close> of the loop undoes.
\<close>

definition general_skip :: "string \<Rightarrow> nat \<Rightarrow> nat" where
  "general_skip d p =
     (let limit = min (length d - p) HTTP_MAX_HEADER_SIZE;
          p_cr = map_option ((+) p) (memchr CR (take limit (drop p d)));
          p_lf = map_option ((+) p) (memchr LF (take limit (drop p d)))
      in case p_cr of
           Some cr \<Rightarrow> (case p_lf of
                         Some lf \<Rightarrow> (if cr \<ge> lf then lf else cr)
                       | None \<Rightarrow> cr)
         | None \<Rightarrow> (case p_lf of Some lf \<Rightarrow> lf | None \<Rightarrow> length d))"

text \<open>
  The other cases of the switch over \<open>h_state\<close>: the next \<open>h_state\<close> and parser, a bad
  \<open>Content-Length\<close>, or an abort (a failing \<open>assert\<close> or a read outside a literal).
\<close>

datatype value_step = Value_next header_states http_parser | Value_bad | Value_abort

definition match_value ::
  "string \<Rightarrow> header_states \<Rightarrow> header_states \<Rightarrow> header_states \<Rightarrow> char \<Rightarrow> http_parser
   \<Rightarrow> value_step" where
  "match_value lit stay miss hit c ps =
     (let i = index ps + 1 in
      case match_literal lit stay miss hit c i of
        None \<Rightarrow> Value_abort
      | Some h \<Rightarrow> Value_next h (ps\<lparr>index := i\<rparr>))"

definition content_length_digit :: "char \<Rightarrow> http_parser \<Rightarrow> value_step" where
  "content_length_digit chr ps =
     (if chr = SP then Value_next h_content_length ps
      else if \<not> IS_NUM chr then Value_bad
      else
        let t = content_length ps * 10 + digit_of chr in
        if (ULLONG_MAX - 10) div 10 < content_length ps then Value_bad
        else Value_next h_content_length (ps\<lparr>content_length := t\<rparr>))"

text \<open>A finished token of a \<open>Connection\<close> header: a comma sets its flag.\<close>

definition connection_token_end :: "header_states \<Rightarrow> flag_word \<Rightarrow> char \<Rightarrow> http_parser \<Rightarrow> value_step" where
  "connection_token_end h f chr ps =
     (if chr = CHR '','' then
        Value_next h_matching_connection_token_start ((add_flag f ps)\<lparr>index := 0\<rparr>)
      else if chr \<noteq> SP then Value_next h_matching_connection_token ps
      else Value_next h ps)"

definition header_value_char :: "char \<Rightarrow> header_states \<Rightarrow> http_parser \<Rightarrow> value_step" where
  "header_value_char chr h ps =
     (let c = LOWER chr in
      case h of
        h_connection \<Rightarrow> Value_abort
      | h_transfer_encoding \<Rightarrow> Value_abort
      | h_content_length \<Rightarrow> content_length_digit chr ps
      | h_matching_transfer_encoding_chunked \<Rightarrow>
          match_value CHUNKED h h_general h_transfer_encoding_chunked c ps
      | h_matching_connection_token_start \<Rightarrow>
          (if c = CHR ''k'' then Value_next h_matching_connection_keep_alive ps
           else if c = CHR ''c'' then Value_next h_matching_connection_close ps
           else if c = CHR ''u'' then Value_next h_matching_connection_upgrade ps
           else if STRICT_TOKEN c \<noteq> NUL then Value_next h_matching_connection_token ps
           else if c = SP \<or> c = TAB then Value_next h ps
           else Value_next h_general ps)
      | h_matching_connection_keep_alive \<Rightarrow>
          match_value KEEP_ALIVE h h_matching_connection_token h_connection_keep_alive c ps
      | h_matching_connection_close \<Rightarrow>
          match_value CLOSE h h_matching_connection_token h_connection_close c ps
      | h_matching_connection_upgrade \<Rightarrow>
          match_value UPGRADE h h_matching_connection_token h_connection_upgrade c ps
      | h_matching_connection_token \<Rightarrow>
          (if chr = CHR '',''
           then Value_next h_matching_connection_token_start (ps\<lparr>index := 0\<rparr>)
           else Value_next h ps)
      | h_transfer_encoding_chunked \<Rightarrow>
          (if chr \<noteq> SP then Value_next h_general ps else Value_next h ps)
      | h_connection_keep_alive \<Rightarrow> connection_token_end h F_CONNECTION_KEEP_ALIVE chr ps
      | h_connection_close \<Rightarrow> connection_token_end h F_CONNECTION_CLOSE chr ps
      | h_connection_upgrade \<Rightarrow> connection_token_end h F_CONNECTION_UPGRADE chr ps
      | _ \<Rightarrow> Value_next h_general ps)"

text \<open>
  Why the loop over the value stopped: at the end of the buffer, at a carriage return, at a
  line feed, at a bad \<open>Content-Length\<close>, or with an abort.
\<close>

datatype value_stop = Stop_end | Stop_CR | Stop_LF | Stop_bad | Stop_abort

lemma general_skip_gt:
  assumes "p < length d" and "d ! p \<noteq> CR" and "d ! p \<noteq> LF"
  shows "p < general_skip d p"
proof -
  let ?xs = "take (min (length d - p) HTTP_MAX_HEADER_SIZE) (drop p d)"
  have ne: "?xs \<noteq> []" and hd: "hd ?xs = d ! p"
    using assms(1) by (simp_all add: hd_drop_conv_nth HTTP_MAX_HEADER_SIZE_def)
  have "memchr c ?xs = Some i \<Longrightarrow> c \<noteq> d ! p \<Longrightarrow> 0 < i" for c i
    using memchr_pos [of c ?xs i] ne hd by simp
  then show ?thesis
    using assms unfolding general_skip_def Let_def
    by (auto split: option.splits)
qed

function header_value_loop ::
  "string \<Rightarrow> nat \<Rightarrow> header_states \<Rightarrow> http_parser \<Rightarrow> char
   \<Rightarrow> value_stop \<times> nat \<times> header_states \<times> http_parser \<times> char" where
  "header_value_loop d p h ps c0 =
     (if length d \<le> p then (Stop_end, p, h, ps, c0)
      else
        let chr = d ! p in
        if chr = CR then (Stop_CR, p, h, ps, chr)
        else if chr = LF then (Stop_LF, p, h, ps, chr)
        else if h = h_general then
          header_value_loop d (Suc (general_skip d p - 1)) h ps chr
        else
          case header_value_char chr h ps of
            Value_next h' ps' \<Rightarrow> header_value_loop d (Suc p) h' ps' chr
          | Value_bad \<Rightarrow> (Stop_bad, p, h, ps, chr)
          | Value_abort \<Rightarrow> (Stop_abort, p, h, ps, chr))"
  by pat_completeness auto
termination
proof (relation "measure (\<lambda>(d, p, h, ps, c0). length d - p)", goal_cases)
  case 1
  show ?case by simp
next
  case (2 d p h ps c0 chr)
  then show ?case using general_skip_gt [of p d] by auto
next
  case (3 d p h ps c0 chr h' ps')
  then show ?case by simp
qed

declare header_value_loop.simps [simp del]

text \<open>The case \<open>s_header_value\<close>: the loop, then what the code does where it stopped.\<close>

definition case_header_value ::
  "'u http_parser_settings \<Rightarrow> string \<Rightarrow> 'u exec \<Rightarrow> 'u outcome" where
  "case_header_value st d e =
     (let start = pos e;
          (stop, p, h, ps, c) =
            header_value_loop d start (header_state (parser e)) (parser e) (ch e);
          e1 = e\<lparr>parser := ps, pos := p, ch := c\<rparr>;
          save = upd_parser (\<lambda>ps. ps\<lparr>header_state := h\<rparr>);
          after = (\<lambda>e2. seq (COUNT_HEADER_SIZE (pos e2 - start) (save e2))
                    (\<lambda>e3. Break (if pos e3 = length d then e3\<lparr>pos := pos e3 - 1\<rparr> else e3)))
      in case stop of
           Stop_end \<Rightarrow> after e1
         | Stop_CR \<Rightarrow>
             seq (CALLBACK_DATA st d header_value_mark
                   (save (UPDATE_STATE s_header_almost_done e1))) after
         | Stop_LF \<Rightarrow>
             seq (COUNT_HEADER_SIZE (p - start) (UPDATE_STATE s_header_almost_done e1))
               (\<lambda>e2. seq (CALLBACK_DATA_NOADVANCE st d header_value_mark (save e2)) Reexecute)
         | Stop_bad \<Rightarrow> Goto_error (save (SET_ERRNO HPE_INVALID_CONTENT_LENGTH e1))
         | Stop_abort \<Rightarrow> Abort)"

subsection \<open>After the value\<close>

definition case_header_value_lws :: "'u exec \<Rightarrow> 'u outcome" where
  "case_header_value_lws e =
     (if ch e = SP \<or> ch e = TAB then Reexecute (UPDATE_STATE s_header_value_start e)
      else
        Reexecute (UPDATE_STATE s_header_field_start
          (upd_parser
            (\<lambda>ps. case header_state ps of
               h_connection_keep_alive \<Rightarrow> add_flag F_CONNECTION_KEEP_ALIVE ps
             | h_connection_close \<Rightarrow> add_flag F_CONNECTION_CLOSE ps
             | h_transfer_encoding_chunked \<Rightarrow> add_flag F_CHUNKED ps
             | h_connection_upgrade \<Rightarrow> add_flag F_CONNECTION_UPGRADE ps
             | _ \<Rightarrow> ps) e)))"

definition case_header_value_discard_lws ::
  "'u http_parser_settings \<Rightarrow> string \<Rightarrow> 'u exec \<Rightarrow> 'u outcome" where
  "case_header_value_discard_lws st d e =
     (if ch e = SP \<or> ch e = TAB then Break (UPDATE_STATE s_header_value_discard_ws e)
      else
        let e1 = upd_parser
              (\<lambda>ps. case header_state ps of
                 h_connection_keep_alive \<Rightarrow> add_flag F_CONNECTION_KEEP_ALIVE ps
               | h_connection_close \<Rightarrow> add_flag F_CONNECTION_CLOSE ps
               | h_connection_upgrade \<Rightarrow> add_flag F_CONNECTION_UPGRADE ps
               | h_transfer_encoding_chunked \<Rightarrow> add_flag F_CHUNKED ps
               | _ \<Rightarrow> ps) e
        in seq (CALLBACK_DATA_NOADVANCE st d header_value_mark
                 (UPDATE_STATE s_header_field_start (MARK header_value_mark e1)))
             Reexecute)"

lemmas header_line_defs =
  case_header_field_start_def case_header_field_def case_header_value_start_def
  case_header_value_discard_ws_def case_header_value_def case_header_value_lws_def
  case_header_value_discard_lws_def

lemmas header_char_defs =
  match_literal_def first_header_state_def match_field_def header_field_char_def
  header_value_first_def match_value_def content_length_digit_def connection_token_end_def
  header_value_char_def

declare header_line_defs [parser_defs] header_char_defs [parser_defs]

end
