(* ===== verification/Message_Body.thy ===== *)
theory Message_Body
  imports Parser_Machine
begin

text \<open>
  The cases of the switch of \<open>http_parser_execute\<close> from the end of the header block on:
  \<open>s_headers_almost_done\<close>, \<open>s_headers_done\<close>, the two kinds of plain body, the chunked
  body and \<open>s_message_done\<close>.
\<close>

subsection \<open>The end of the headers\<close>

definition upgrade_requested :: "http_parser \<Rightarrow> bool" where
  "upgrade_requested ps \<longleftrightarrow>
     flags ps AND (F_UPGRADE OR F_CONNECTION_UPGRADE) = (F_UPGRADE OR F_CONNECTION_UPGRADE) \<or>
     method ps = HTTP_CONNECT"

text \<open>
  The call of \<open>on_headers_complete\<close>, which the code writes out because the value 1 means
  that the message has no body. The struct's \<open>state\<close> field is not written back before the
  call, and the local state is not read back after it.
\<close>

definition headers_complete_callback ::
  "'u http_parser_settings \<Rightarrow> 'u exec \<Rightarrow> 'u outcome" where
  "headers_complete_callback st e =
     (case on_headers_complete st of
        None \<Rightarrow> Next e
      | Some f \<Rightarrow>
          (let (r, ps, w) = f (parser e) (world e);
               e1 = e\<lparr>parser := ps, world := w\<rparr>
           in if r = 0 then Next e1
              else if r = 1 then Next (upd_parser (add_flag F_SKIPBODY) e1)
              else RETURN (pos e1) (SET_ERRNO HPE_CB_headers_complete e1)))"

definition case_headers_almost_done ::
  "'u http_parser_settings \<Rightarrow> 'u exec \<Rightarrow> 'u outcome" where
  "case_headers_almost_done st e =
     seq (STRICT_CHECK (ch e \<noteq> LF) e)
       (\<lambda>e1.
         if has_flag (parser e1) F_TRAILING then
           seq (CALLBACK_NOTIFY_NOADVANCE (on_chunk_complete st) HPE_CB_chunk_complete
                 (UPDATE_STATE s_message_done e1)) Reexecute
         else
           seq (headers_complete_callback st
                 (upd_parser (\<lambda>ps. ps\<lparr>upgrade := upgrade_requested ps\<rparr>)
                   (UPDATE_STATE s_headers_done e1)))
             (\<lambda>e2. if http_errno (parser e2) \<noteq> HPE_OK then RETURN (pos e2) e2
                   else Reexecute e2))"

definition has_body :: "http_parser \<Rightarrow> bool" where
  "has_body ps \<longleftrightarrow>
     has_flag ps F_CHUNKED \<or> (content_length ps > 0 \<and> content_length ps \<noteq> ULLONG_MAX)"

definition upgrade_exit :: "http_parser \<Rightarrow> bool" where
  "upgrade_exit ps \<longleftrightarrow>
     upgrade ps \<and> (method ps = HTTP_CONNECT \<or> has_flag ps F_SKIPBODY \<or> \<not> has_body ps)"

text \<open>\<open>UPDATE_STATE(NEW_MESSAGE()); CALLBACK_NOTIFY(message_complete);\<close>\<close>

definition message_complete :: "'u http_parser_settings \<Rightarrow> 'u exec \<Rightarrow> 'u outcome" where
  "message_complete st e =
     CALLBACK_NOTIFY (on_message_complete st) HPE_CB_message_complete
       (UPDATE_STATE (NEW_MESSAGE (parser e)) e)"

definition case_headers_done :: "'u http_parser_settings \<Rightarrow> 'u exec \<Rightarrow> 'u outcome" where
  "case_headers_done st e =
     seq (STRICT_CHECK (ch e \<noteq> LF) e)
       (\<lambda>e0.
         let e1 = upd_parser (\<lambda>ps. ps\<lparr>nread := 0\<rparr>) e0; ps = parser e1 in
         if upgrade_exit ps then
           seq (message_complete st e1) (\<lambda>e2. RETURN (pos e2 + 1) e2)
         else if has_flag ps F_SKIPBODY then seq (message_complete st e1) Break
         else if has_flag ps F_CHUNKED then Break (UPDATE_STATE s_chunk_size_start e1)
         else if content_length ps = 0 then seq (message_complete st e1) Break
         else if content_length ps \<noteq> ULLONG_MAX then Break (UPDATE_STATE s_body_identity e1)
         else if \<not> http_message_needs_eof ps then seq (message_complete st e1) Break
         else Break (UPDATE_STATE s_body_identity_eof e1))"

subsection \<open>Plain bodies\<close>

text \<open>\<open>MIN(parser->content_length, (uint64_t) ((data + len) - p))\<close>\<close>

definition to_read :: "string \<Rightarrow> 'u exec \<Rightarrow> 64 word" where
  "to_read d e = min (content_length (parser e)) (of_nat (length d - pos e))"

definition read_body :: "64 word \<Rightarrow> 'u exec \<Rightarrow> 'u exec" where
  "read_body n e =
     (let e1 = upd_parser (\<lambda>ps. ps\<lparr>content_length := content_length ps - n\<rparr>) (MARK body_mark e)
      in e1\<lparr>pos := pos e1 + unat n - 1\<rparr>)"

definition body_length_known :: "http_parser \<Rightarrow> bool" where
  "body_length_known ps \<longleftrightarrow> content_length ps \<noteq> 0 \<and> content_length ps \<noteq> ULLONG_MAX"

definition case_body_identity ::
  "'u http_parser_settings \<Rightarrow> string \<Rightarrow> 'u exec \<Rightarrow> 'u outcome" where
  "case_body_identity st d e =
     seq (assert_that (body_length_known (parser e)) e)
       (\<lambda>e0.
         let e1 = read_body (to_read d e0) e0 in
         if content_length (parser e1) = 0 then
           seq (CALLBACK_DATA_ER st d body_mark (pos e1 + 1) (pos e1)
                 (UPDATE_STATE s_message_done e1)) Reexecute
         else Break e1)"

definition case_body_identity_eof :: "string \<Rightarrow> 'u exec \<Rightarrow> 'u outcome" where
  "case_body_identity_eof d e = Break ((MARK body_mark e)\<lparr>pos := length d - 1\<rparr>)"

definition case_message_done :: "'u http_parser_settings \<Rightarrow> 'u exec \<Rightarrow> 'u outcome" where
  "case_message_done st e =
     seq (message_complete st e)
       (\<lambda>e1. if upgrade (parser e1) then RETURN (pos e1 + 1) e1 else Break e1)"

subsection \<open>Chunked bodies\<close>

definition case_chunk_size_start :: "'u exec \<Rightarrow> 'u outcome" where
  "case_chunk_size_start e =
     seq (assert_that (nread (parser e) = 1) e)
       (\<lambda>e0. seq (assert_that (has_flag (parser e0) F_CHUNKED) e0)
         (\<lambda>e1.
           let v = unhex_at (ch e1) in
           if v = -1 then fail HPE_INVALID_CHUNK_SIZE e1
           else Break (UPDATE_STATE s_chunk_size
                  (upd_parser (\<lambda>ps. ps\<lparr>content_length := of_int v\<rparr>) e1))))"

definition case_chunk_size :: "'u exec \<Rightarrow> 'u outcome" where
  "case_chunk_size e =
     seq (assert_that (has_flag (parser e) F_CHUNKED) e)
       (\<lambda>e1.
         if ch e1 = CR then Break (UPDATE_STATE s_chunk_size_almost_done e1)
         else
           let v = unhex_at (ch e1) in
           if v = -1 then
             (if ch e1 = CHR '';'' \<or> ch e1 = SP
              then Break (UPDATE_STATE s_chunk_parameters e1)
              else fail HPE_INVALID_CHUNK_SIZE e1)
           else
             let t = content_length (parser e1) * 16 + of_int v in
             if (ULLONG_MAX - 16) div 16 < content_length (parser e1)
             then fail HPE_INVALID_CONTENT_LENGTH e1
             else Break (upd_parser (\<lambda>ps. ps\<lparr>content_length := t\<rparr>) e1))"

definition case_chunk_parameters :: "'u exec \<Rightarrow> 'u outcome" where
  "case_chunk_parameters e =
     seq (assert_that (has_flag (parser e) F_CHUNKED) e)
       (\<lambda>e1. if ch e1 = CR then Break (UPDATE_STATE s_chunk_size_almost_done e1)
             else Break e1)"

definition case_chunk_size_almost_done ::
  "'u http_parser_settings \<Rightarrow> 'u exec \<Rightarrow> 'u outcome" where
  "case_chunk_size_almost_done st e =
     seq (assert_that (has_flag (parser e) F_CHUNKED) e)
       (\<lambda>e0. seq (STRICT_CHECK (ch e0 \<noteq> LF) e0)
         (\<lambda>e1.
           let e2 = upd_parser (\<lambda>ps. ps\<lparr>nread := 0\<rparr>) e1;
               e3 = (if content_length (parser e2) = 0
                     then UPDATE_STATE s_header_field_start (upd_parser (add_flag F_TRAILING) e2)
                     else UPDATE_STATE s_chunk_data e2)
           in seq (CALLBACK_NOTIFY (on_chunk_header st) HPE_CB_chunk_header e3) Break))"

definition case_chunk_data :: "string \<Rightarrow> 'u exec \<Rightarrow> 'u outcome" where
  "case_chunk_data d e =
     seq (assert_that (has_flag (parser e) F_CHUNKED) e)
       (\<lambda>e0. seq (assert_that (body_length_known (parser e0)) e0)
         (\<lambda>e1.
           let e2 = read_body (to_read d e1) e1 in
           Break (if content_length (parser e2) = 0
                  then UPDATE_STATE s_chunk_data_almost_done e2 else e2)))"

definition case_chunk_data_almost_done ::
  "'u http_parser_settings \<Rightarrow> string \<Rightarrow> 'u exec \<Rightarrow> 'u outcome" where
  "case_chunk_data_almost_done st d e =
     seq (assert_that (has_flag (parser e) F_CHUNKED) e)
       (\<lambda>e0. seq (assert_that (content_length (parser e0) = 0) e0)
         (\<lambda>e1. seq (STRICT_CHECK (ch e1 \<noteq> CR) e1)
           (\<lambda>e2. seq (CALLBACK_DATA st d body_mark (UPDATE_STATE s_chunk_data_done e2)) Break)))"

definition case_chunk_data_done ::
  "'u http_parser_settings \<Rightarrow> 'u exec \<Rightarrow> 'u outcome" where
  "case_chunk_data_done st e =
     seq (assert_that (has_flag (parser e) F_CHUNKED) e)
       (\<lambda>e0. seq (STRICT_CHECK (ch e0 \<noteq> LF) e0)
         (\<lambda>e1. seq (CALLBACK_NOTIFY (on_chunk_complete st) HPE_CB_chunk_complete
                     (UPDATE_STATE s_chunk_size_start
                       (upd_parser (\<lambda>ps. ps\<lparr>nread := 0\<rparr>) e1))) Break))"

lemmas message_body_defs =
  upgrade_requested_def headers_complete_callback_def case_headers_almost_done_def
  has_body_def upgrade_exit_def message_complete_def case_headers_done_def to_read_def
  read_body_def body_length_known_def case_body_identity_def case_body_identity_eof_def
  case_message_done_def case_chunk_size_start_def case_chunk_size_def
  case_chunk_parameters_def case_chunk_size_almost_done_def case_chunk_data_def
  case_chunk_data_almost_done_def case_chunk_data_done_def

declare message_body_defs [parser_defs]

end
