(* ===== verification/Parser_Execute.thy ===== *)
theory Parser_Execute
  imports Start_Lines Header_Lines Message_Body
begin

text \<open>
  \<open>http_parser_execute\<close>: the switch over the state, the loop over the buffer with its
  label \<open>reexecute\<close>, the code before the loop and the code after it; and the operations
  that create, pause and inspect a parser.
\<close>

subsection \<open>The switch\<close>

primrec switch ::
  "state \<Rightarrow> 'u http_parser_settings \<Rightarrow> string \<Rightarrow> 'u exec \<Rightarrow> 'u outcome" where
  "switch s_dead st d e = case_dead e"
| "switch s_start_req_or_res st d e = case_start_req_or_res st e"
| "switch s_res_or_resp_H st d e = case_res_or_resp_H e"
| "switch s_start_res st d e = case_start_res st e"
| "switch s_res_H st d e = expect_char (CHR ''T'') s_res_HT e"
| "switch s_res_HT st d e = expect_char (CHR ''T'') s_res_HTT e"
| "switch s_res_HTT st d e = expect_char (CHR ''P'') s_res_HTTP e"
| "switch s_res_HTTP st d e = expect_char (CHR ''/'') s_res_first_http_major e"
| "switch s_res_first_http_major st d e = case_res_first_http_major e"
| "switch s_res_http_major st d e = case_res_http_major e"
| "switch s_res_first_http_minor st d e = case_res_first_http_minor e"
| "switch s_res_http_minor st d e = case_res_http_minor e"
| "switch s_res_first_status_code st d e = case_res_first_status_code e"
| "switch s_res_status_code st d e = case_res_status_code e"
| "switch s_res_status_start st d e = case_res_status_start e"
| "switch s_res_status st d e = case_res_status st d e"
| "switch s_res_line_almost_done st d e = expect_char LF s_header_field_start e"
| "switch s_start_req st d e = case_start_req st e"
| "switch s_req_method st d e = case_req_method e"
| "switch s_req_spaces_before_url st d e = case_req_spaces_before_url e"
| "switch s_req_schema st d e = case_req_schema e"
| "switch s_req_schema_slash st d e = case_req_schema e"
| "switch s_req_schema_slash_slash st d e = case_req_schema e"
| "switch s_req_server_start st d e = case_req_schema e"
| "switch s_req_server st d e = case_req_url st d e"
| "switch s_req_server_with_at st d e = case_req_url st d e"
| "switch s_req_path st d e = case_req_url st d e"
| "switch s_req_query_string_start st d e = case_req_url st d e"
| "switch s_req_query_string st d e = case_req_url st d e"
| "switch s_req_fragment_start st d e = case_req_url st d e"
| "switch s_req_fragment st d e = case_req_url st d e"
| "switch s_req_http_start st d e = case_req_http_start e"
| "switch s_req_http_H st d e = expect_char (CHR ''T'') s_req_http_HT e"
| "switch s_req_http_HT st d e = expect_char (CHR ''T'') s_req_http_HTT e"
| "switch s_req_http_HTT st d e = expect_char (CHR ''P'') s_req_http_HTTP e"
| "switch s_req_http_HTTP st d e = expect_char (CHR ''/'') s_req_first_http_major e"
| "switch s_req_first_http_major st d e = case_req_first_http_major e"
| "switch s_req_http_major st d e = case_req_http_major e"
| "switch s_req_first_http_minor st d e = case_req_first_http_minor e"
| "switch s_req_http_minor st d e = case_req_http_minor e"
| "switch s_req_line_almost_done st d e = case_req_line_almost_done e"
| "switch s_header_field_start st d e = case_header_field_start e"
| "switch s_header_field st d e = case_header_field st d e"
| "switch s_header_value_discard_ws st d e = case_header_value_discard_ws e"
| "switch s_header_value_discard_ws_almost_done st d e =
     expect_char LF s_header_value_discard_lws e"
| "switch s_header_value_discard_lws st d e = case_header_value_discard_lws st d e"
| "switch s_header_value_start st d e = case_header_value_start e"
| "switch s_header_value st d e = case_header_value st d e"
| "switch s_header_value_lws st d e = case_header_value_lws e"
| "switch s_header_almost_done st d e = expect_char LF s_header_value_lws e"
| "switch s_chunk_size_start st d e = case_chunk_size_start e"
| "switch s_chunk_size st d e = case_chunk_size e"
| "switch s_chunk_parameters st d e = case_chunk_parameters e"
| "switch s_chunk_size_almost_done st d e = case_chunk_size_almost_done st e"
| "switch s_headers_almost_done st d e = case_headers_almost_done st e"
| "switch s_headers_done st d e = case_headers_done st e"
| "switch s_chunk_data st d e = case_chunk_data d e"
| "switch s_chunk_data_almost_done st d e = case_chunk_data_almost_done st d e"
| "switch s_chunk_data_done st d e = case_chunk_data_done st e"
| "switch s_body_identity st d e = case_body_identity st d e"
| "switch s_body_identity_eof st d e = case_body_identity_eof d e"
| "switch s_message_done st d e = case_message_done st e"

subsection \<open>The loop\<close>

text \<open>The head of the loop: \<open>ch = *p\<close> and the count of header bytes.\<close>

definition fetch :: "string \<Rightarrow> 'u exec \<Rightarrow> 'u outcome" where
  "fetch d e =
     (if length d \<le> pos e then Abort
      else
        let e1 = e\<lparr>ch := d ! pos e\<rparr> in
        if PARSING_HEADER (p_state e1) then COUNT_HEADER_SIZE 1 e1 else Next e1)"

text \<open>
  The loop \<open>for (p = data; p != data + len; p++)\<close>. The flag says whether control is at the
  label \<open>reexecute\<close> or at the loop's test. A callback may write any state into the parser,
  so no bound on the jumps to \<open>reexecute\<close> holds for all callbacks: the loop is a partial
  function, and \<open>None\<close> means that it does not end.
\<close>

partial_function (option) exec_loop ::
  "'u http_parser_settings \<Rightarrow> string \<Rightarrow> bool \<Rightarrow> 'u exec \<Rightarrow> 'u outcome option" where
  "exec_loop st d at_reexecute e =
     (if at_reexecute then
        (case switch (p_state e) st d e of
           Next e1 \<Rightarrow> exec_loop st d False (e1\<lparr>pos := pos e1 + 1\<rparr>)
         | Break e1 \<Rightarrow> exec_loop st d False (e1\<lparr>pos := pos e1 + 1\<rparr>)
         | Reexecute e1 \<Rightarrow> exec_loop st d True e1
         | Goto_error e1 \<Rightarrow> Some (Goto_error e1)
         | Return n e1 \<Rightarrow> Some (Return n e1)
         | Abort \<Rightarrow> Some Abort)
      else if pos e = length d then Some (Next e)
      else
        (case fetch d e of
           Next e1 \<Rightarrow> exec_loop st d True e1
         | Break e1 \<Rightarrow> Some (Break e1)
         | Reexecute e1 \<Rightarrow> Some (Reexecute e1)
         | Goto_error e1 \<Rightarrow> Some (Goto_error e1)
         | Return n e1 \<Rightarrow> Some (Return n e1)
         | Abort \<Rightarrow> Some Abort))"

declare exec_loop.simps [code]

subsection \<open>Before and after the loop\<close>

text \<open>The marks that are set on entry, because a token continues from the last buffer.\<close>

definition entry_marks :: "state \<Rightarrow> mark \<Rightarrow> nat option" where
  "entry_marks s =
     (if s = s_header_field then (\<lambda>_. None)(header_field_mark := Some 0)
      else if s = s_header_value then (\<lambda>_. None)(header_value_mark := Some 0)
      else if s \<in> url_states then (\<lambda>_. None)(url_mark := Some 0)
      else if s = s_res_status then (\<lambda>_. None)(status_mark := Some 0)
      else (\<lambda>_. None))"

definition enter :: "http_parser \<Rightarrow> 'u \<Rightarrow> 'u exec" where
  "enter ps w =
     \<lparr>parser = ps, world = w, p_state = state ps, pos = 0, ch = NUL,
      marks = entry_marks (state ps)\<rparr>"

definition mark_count :: "'u exec \<Rightarrow> nat" where
  "mark_count e =
     length (filter (\<lambda>m. marks e m \<noteq> None)
       [header_field_mark, header_value_mark, url_mark, body_mark, status_mark])"

text \<open>The code after the loop: flush the mark that is still set, return \<open>len\<close>.\<close>

definition finish :: "'u http_parser_settings \<Rightarrow> string \<Rightarrow> 'u exec \<Rightarrow> 'u outcome" where
  "finish st d e0 =
     seq (assert_that (mark_count e0 \<le> 1) e0)
      (\<lambda>e. seq (CALLBACK_DATA_NOADVANCE st d header_field_mark e)
      (\<lambda>e. seq (CALLBACK_DATA_NOADVANCE st d header_value_mark e)
      (\<lambda>e. seq (CALLBACK_DATA_NOADVANCE st d url_mark e)
      (\<lambda>e. seq (CALLBACK_DATA_NOADVANCE st d body_mark e)
      (\<lambda>e. seq (CALLBACK_DATA_NOADVANCE st d status_mark e)
      (\<lambda>e. RETURN (length d) e))))))"

text \<open>The label \<open>error\<close>.\<close>

definition error_exit :: "'u exec \<Rightarrow> 'u outcome" where
  "error_exit e =
     (let e1 = (if http_errno (parser e) = HPE_OK then SET_ERRNO HPE_UNKNOWN e else e)
      in RETURN (pos e1) e1)"

text \<open>The result of a call: it returns a count, or the process aborts.\<close>

datatype 'u exec_result = Returned nat http_parser 'u | Aborted

definition result_of :: "'u http_parser_settings \<Rightarrow> string \<Rightarrow> 'u outcome \<Rightarrow> 'u exec_result" where
  "result_of st d out =
     (case (case out of
              Next e \<Rightarrow> finish st d e
            | Goto_error e \<Rightarrow> error_exit e
            | Break e \<Rightarrow> Abort
            | Reexecute e \<Rightarrow> Abort
            | Return n e \<Rightarrow> Return n e
            | Abort \<Rightarrow> Abort) of
        Return n e \<Rightarrow> Returned n (parser e) (world e)
      | _ \<Rightarrow> Aborted)"

definition execute_eof ::
  "'u http_parser_settings \<Rightarrow> http_parser \<Rightarrow> 'u \<Rightarrow> 'u exec_result" where
  "execute_eof st ps w =
     (if state ps = s_body_identity_eof then
        (case CALLBACK_NOTIFY_NOADVANCE (on_message_complete st) HPE_CB_message_complete
                (\<lparr>parser = ps, world = w, p_state = state ps, pos = 0, ch = NUL,
                  marks = (\<lambda>_. None)\<rparr>) of
           Next e \<Rightarrow> Returned 0 (parser e) (world e)
         | Return n e \<Rightarrow> Returned n (parser e) (world e)
         | _ \<Rightarrow> Aborted)
      else if state ps \<in> {s_dead, s_start_req_or_res, s_start_res, s_start_req} then
        Returned 0 ps w
      else Returned 1 (ps\<lparr>http_errno := HPE_INVALID_EOF_STATE\<rparr>) w)"

definition http_parser_execute ::
  "'u http_parser_settings \<Rightarrow> http_parser \<Rightarrow> string \<Rightarrow> 'u \<Rightarrow> 'u exec_result option" where
  "http_parser_execute st ps d w =
     (if http_errno ps \<noteq> HPE_OK then Some (Returned 0 ps w)
      else if d = [] then Some (execute_eof st ps w)
      else map_option (result_of st d) (exec_loop st d False (enter ps w)))"

subsection \<open>The other operations on a parser\<close>

definition http_method_str :: "http_method \<Rightarrow> string" where
  "http_method_str m = method_strings m"

definition http_parser_init :: "http_parser_type \<Rightarrow> http_parser" where
  "http_parser_init t =
     \<lparr>ptype = t, flags = 0,
      state = (if t = HTTP_REQUEST then s_start_req
               else if t = HTTP_RESPONSE then s_start_res else s_start_req_or_res),
      header_state = h_general, index = 0, nread = 0, content_length = 0, http_major = 0,
      http_minor = 0, status_code = 0, method = HTTP_DELETE, http_errno = HPE_OK,
      upgrade = False\<rparr>"

text \<open>\<open>None\<close>: the \<open>assert\<close> against pausing a parser in an error state fails.\<close>

definition http_parser_pause :: "http_parser \<Rightarrow> bool \<Rightarrow> http_parser option" where
  "http_parser_pause ps paused =
     (if http_errno ps = HPE_OK \<or> http_errno ps = HPE_PAUSED
      then Some (ps\<lparr>http_errno := (if paused then HPE_PAUSED else HPE_OK)\<rparr>)
      else None)"

definition http_body_is_final :: "http_parser \<Rightarrow> bool" where
  "http_body_is_final ps \<longleftrightarrow> state ps = s_message_done"

definition http_parser_version :: "64 word" where
  "http_parser_version = 2 * 0x10000 OR 6 * 0x00100 OR 0 * 0x00001"

text \<open>The equations that evaluate a call on a concrete buffer, together with \<open>exec_loop.simps\<close>.\<close>

lemmas run_eval =
  http_parser_execute_def enter_def entry_marks_def fetch_def parser_defs PARSING_HEADER_def
  char_eval CALLBACK_NOTIFY_ER_def CALLBACK_DATA_ER_def run_callback_def first_method_def
  switch_method_def parse_url_char_def url_states_def lit_at_def NEW_MESSAGE_def start_state_def
  http_should_keep_alive_def http_message_needs_eof_def result_of_def finish_def mark_count_def
  ULLONG_MAX_def http_parser_init_def http_parser_settings_init_def

end
