(* ===== verification/Parser_Safety.thy ===== *)
theory Parser_Safety
  imports Parser_Execute
begin

text \<open>
  The invariant of \<open>http_parser_execute\<close>: what each state needs of the parser struct so
  that no \<open>assert\<close> of the code fails and no read leaves its array, and which mark pointers
  can be set in it; and a rank that every jump to \<open>reexecute\<close> decreases.

  The contract of callbacks is the locale \<open>parser_callbacks\<close>: a callback leaves the struct
  alone except for \<open>http_errno\<close>, which \<open>http_parser_pause\<close> sets (the header declares the
  other fields private or read-only).
\<close>

subsection \<open>The invariant\<close>

definition field_header_states :: "header_states set" where
  "field_header_states =
     {h_general, h_C, h_CO, h_CON, h_matching_connection, h_matching_proxy_connection,
      h_matching_content_length, h_matching_transfer_encoding, h_matching_upgrade,
      h_connection, h_content_length, h_transfer_encoding, h_upgrade}"

definition chunk_states :: "state set" where
  "chunk_states =
     {s_chunk_size_start, s_chunk_size, s_chunk_parameters, s_chunk_size_almost_done,
      s_chunk_data, s_chunk_data_almost_done, s_chunk_data_done}"

text \<open>The part about version, status and header size, which holds in every state.\<close>

definition bounds_ok :: "http_parser \<Rightarrow> bool" where
  "bounds_ok ps \<longleftrightarrow>
     http_major ps \<le> 999 \<and> http_minor ps \<le> 999 \<and> status_code ps \<le> 999 \<and>
     nread ps \<le> of_nat HTTP_MAX_HEADER_SIZE"

text \<open>
  The part that depends on the state. \<open>head\<close> tells the loop's test from the switch: in
  between, the byte of a header state has been counted.
\<close>

definition state_ok :: "bool \<Rightarrow> state \<Rightarrow> http_parser \<Rightarrow> bool" where
  "state_ok head s ps \<longleftrightarrow>
     (s = s_req_method \<longrightarrow>
        0 < index ps \<and> unat (index ps) \<le> length (method_strings (method ps))) \<and>
     (s = s_header_field \<longrightarrow> header_state ps \<in> field_header_states) \<and>
     (s = s_header_value \<longrightarrow> header_state ps \<noteq> h_connection \<and>
        header_state ps \<noteq> h_transfer_encoding) \<and>
     (s \<in> chunk_states \<longrightarrow> has_flag ps F_CHUNKED) \<and>
     (s = s_chunk_size_start \<longrightarrow> nread ps = (if head then 0 else 1)) \<and>
     (s \<in> {s_chunk_size, s_chunk_parameters, s_chunk_size_almost_done} \<longrightarrow>
        content_length ps \<noteq> ULLONG_MAX) \<and>
     (s \<in> {s_chunk_data, s_body_identity} \<longrightarrow> body_length_known ps) \<and>
     (s = s_chunk_data_almost_done \<longrightarrow> content_length ps = 0)"

definition pinv :: "bool \<Rightarrow> state \<Rightarrow> http_parser \<Rightarrow> bool" where
  "pinv head s ps \<longleftrightarrow> bounds_ok ps \<and> state_ok head s ps"

text \<open>The invariant between two calls: it matters where the parser can run on.\<close>

definition parser_inv :: "http_parser \<Rightarrow> bool" where
  "parser_inv ps \<longleftrightarrow>
     (http_errno ps \<in> {HPE_OK, HPE_PAUSED} \<longrightarrow> pinv True (state ps) ps)"

primrec mark_states :: "mark \<Rightarrow> state set" where
  "mark_states header_field_mark = {s_header_field}"
| "mark_states header_value_mark = {s_header_value}"
| "mark_states url_mark = url_states"
| "mark_states body_mark =
     {s_chunk_data, s_chunk_data_almost_done, s_body_identity, s_body_identity_eof}"
| "mark_states status_mark = {s_res_status}"

definition marks_ok :: "state \<Rightarrow> nat \<Rightarrow> (mark \<Rightarrow> nat option) \<Rightarrow> bool" where
  "marks_ok s p mk \<longleftrightarrow> (\<forall>m i. mk m = Some i \<longrightarrow> i \<le> p \<and> s \<in> mark_states m)"

definition loop_inv :: "string \<Rightarrow> 'u exec \<Rightarrow> bool" where
  "loop_inv d e \<longleftrightarrow>
     pos e \<le> length d \<and> http_errno (parser e) = HPE_OK \<and>
     pinv True (p_state e) (parser e) \<and> marks_ok (p_state e) (pos e) (marks e)"

definition switch_inv :: "string \<Rightarrow> 'u exec \<Rightarrow> bool" where
  "switch_inv d e \<longleftrightarrow>
     pos e < length d \<and> http_errno (parser e) = HPE_OK \<and>
     pinv False (p_state e) (parser e) \<and> marks_ok (p_state e) (pos e) (marks e)"

definition rank :: "state \<Rightarrow> nat" where
  "rank s =
     (if s = s_header_value_lws \<or> s = s_header_value_discard_lws then 3
      else if s = s_header_field_start then 2
      else if s \<in> {s_headers_almost_done, s_start_req_or_res, s_header_value, s_body_identity}
      then 1 else 0)"

text \<open>
  What an outcome of the switch has to satisfy: it never aborts and never falls off the end
  of a case; a break or a jump keeps the invariant and does not move back; a return leaves a
  parser that the next call can take.
\<close>

definition good :: "string \<Rightarrow> 'u exec \<Rightarrow> 'u outcome \<Rightarrow> bool" where
  "good d e out \<longleftrightarrow>
     (case out of
        Next e' \<Rightarrow> False
      | Break e' \<Rightarrow> pos e \<le> pos e' \<and> pos e' < length d \<and> loop_inv d (e'\<lparr>pos := pos e' + 1\<rparr>)
      | Reexecute e' \<Rightarrow>
          pos e \<le> pos e' \<and> switch_inv d e' \<and> rank (p_state e') < rank (p_state e)
      | Goto_error e' \<Rightarrow>
          pos e' \<le> length d \<and> http_errno (parser e') \<notin> {HPE_OK, HPE_PAUSED}
      | Return n e' \<Rightarrow>
          n \<le> length d \<and> parser_inv (parser e') \<and>
          (http_errno (parser e') \<noteq> HPE_OK \<or> upgrade (parser e'))
      | Abort \<Rightarrow> False)"

subsection \<open>The contract of callbacks\<close>

definition keeps_parser :: "'u http_cb \<Rightarrow> bool" where
  "keeps_parser f \<longleftrightarrow>
     (\<forall>ps w. \<exists>r er w'. f ps w = (r, ps\<lparr>http_errno := er\<rparr>, w'))"

definition notify_callbacks :: "'u http_parser_settings \<Rightarrow> 'u http_cb option list" where
  "notify_callbacks st =
     [on_message_begin st, on_headers_complete st, on_message_complete st,
      on_chunk_header st, on_chunk_complete st]"

locale parser_callbacks =
  fixes st :: "'u http_parser_settings"
  assumes notify: "Some f \<in> set (notify_callbacks st) \<Longrightarrow> keeps_parser f"
    and data: "data_callback m st = Some g \<Longrightarrow> keeps_parser (g s)"


subsection \<open>Facts about the invariant\<close>

lemma pinv_frame [simp]:
  "pinv b s (ps\<lparr>state := x\<rparr>) = pinv b s ps"
  "pinv b s (ps\<lparr>http_errno := er\<rparr>) = pinv b s ps"
  "pinv b s (ps\<lparr>upgrade := u\<rparr>) = pinv b s ps"
  "pinv b s (ps\<lparr>ptype := t\<rparr>) = pinv b s ps"
  by (simp_all add: pinv_def bounds_ok_def state_ok_def has_flag_def body_length_known_def)

text \<open>States of which the invariant asks nothing in particular.\<close>

definition free_states :: "state set" where
  "free_states =
     - ({s_req_method, s_header_field, s_header_value, s_body_identity} \<union> chunk_states)"

lemma state_ok_free: "s \<in> free_states \<Longrightarrow> state_ok b s ps"
  by (auto simp: free_states_def state_ok_def chunk_states_def)

lemma pinv_free: "s \<in> free_states \<Longrightarrow> pinv b s ps = bounds_ok ps"
  by (simp add: pinv_def state_ok_free)

lemma bounds_frame [simp]:
  "bounds_ok (ps\<lparr>state := x\<rparr>) = bounds_ok ps"
  "bounds_ok (ps\<lparr>http_errno := er\<rparr>) = bounds_ok ps"
  "bounds_ok (ps\<lparr>upgrade := u\<rparr>) = bounds_ok ps"
  "bounds_ok (ps\<lparr>ptype := t\<rparr>) = bounds_ok ps"
  "bounds_ok (ps\<lparr>flags := fl\<rparr>) = bounds_ok ps"
  "bounds_ok (ps\<lparr>index := i\<rparr>) = bounds_ok ps"
  "bounds_ok (ps\<lparr>header_state := h\<rparr>) = bounds_ok ps"
  "bounds_ok (ps\<lparr>method := m\<rparr>) = bounds_ok ps"
  "bounds_ok (ps\<lparr>content_length := n\<rparr>) = bounds_ok ps"
  "bounds_ok (add_flag f ps) = bounds_ok ps"
  "bounds_ok (reset_message ps) = bounds_ok ps"
  by (simp_all add: bounds_ok_def add_flag_def reset_message_def)

lemma bounds_nread_0 [simp]: "bounds_ok ps \<Longrightarrow> bounds_ok (ps\<lparr>nread := 0\<rparr>)"
  by (simp add: bounds_ok_def)

lemma mark_states_disjoint:
  "s \<in> mark_states m \<Longrightarrow> s \<in> mark_states m' \<Longrightarrow> m = m'"
  by (cases m; cases m') (auto simp: url_states_def)

lemma marks_ok_none [simp]: "marks_ok s p (\<lambda>_. None)"
  by (simp add: marks_ok_def)

lemma marks_ok_unmarked:
  "marks_ok s p mk \<Longrightarrow> \<forall>m. s \<notin> mark_states m \<Longrightarrow> mk = (\<lambda>_. None)"
  unfolding marks_ok_def by (metis (mono_tags) ext not_Some_eq)

lemma marks_ok_clear:
  "marks_ok s p mk \<Longrightarrow> s \<in> mark_states m \<Longrightarrow> mk(m := None) = (\<lambda>_. None)"
proof (rule ext)
  fix m'
  assume ok: "marks_ok s p mk" and m: "s \<in> mark_states m"
  show "(mk(m := None)) m' = None"
    using ok m mark_states_disjoint [OF m, of m']
    by (cases "mk m'") (auto simp: marks_ok_def)
qed

lemma marks_ok_other: "marks_ok s p mk \<Longrightarrow> s \<in> mark_states m \<Longrightarrow> m' \<noteq> m \<Longrightarrow> mk m' = None"
  using marks_ok_clear [of s p mk m] by (metis fun_upd_other)

lemma marks_ok_mono: "marks_ok s p mk \<Longrightarrow> p \<le> q \<Longrightarrow> marks_ok s q mk"
  unfolding marks_ok_def by fastforce

lemma marks_ok_set: "s \<in> mark_states m \<Longrightarrow> i \<le> p \<Longrightarrow> marks_ok s p ((\<lambda>_. None)(m := Some i))"
  by (simp add: marks_ok_def)

lemma marks_ok_count:
  assumes "marks_ok (p_state e) (pos e) (marks e)"
  shows "mark_count e \<le> 1"
proof (cases "\<exists>m. p_state e \<in> mark_states m")
  case True
  then obtain m where "p_state e \<in> mark_states m" by blast
  with assms have "marks e m' = None" if "m' \<noteq> m" for m'
    using that marks_ok_other by blast
  then show ?thesis by (cases m) (simp_all add: mark_count_def)
next
  case False
  with assms have "marks e = (\<lambda>_. None)" using marks_ok_unmarked by blast
  then show ?thesis by (simp add: mark_count_def)
qed

text \<open>
  Every case of the switch keeps the invariant of \<open>Parser_Invariant\<close>: one lemma per case,
  under the contract of callbacks, combined by case analysis on the state.
\<close>

subsection \<open>Callbacks that keep the parser\<close>

lemma set_errno_same:
  "http_errno ps = er \<Longrightarrow> ps\<lparr>state := x, http_errno := er\<rparr> = ps\<lparr>state := x\<rparr>"
  by simp

lemma run_callback_keeps:
  assumes "keeps_parser f"
  shows "\<exists>er w. run_callback f hpe n e =
    (let e' = e\<lparr>parser := (parser e)\<lparr>state := p_state e, http_errno := er\<rparr>, world := w\<rparr>
     in if er \<noteq> HPE_OK then Return n e' else Next e')"
proof -
  obtain r er w where f: "f ((parser e)\<lparr>state := p_state e\<rparr>) (world e) =
      (r, (parser e)\<lparr>state := p_state e, http_errno := er\<rparr>, w)"
    using assms unfolding keeps_parser_def by blast
  show ?thesis
    by (rule exI [of _ "if r \<noteq> 0 then hpe else er"], rule exI [of _ w])
      (simp add: run_callback_def f Let_def)
qed

text \<open>
  Rules for the two callback macros: what has to hold afterwards has to hold when the
  callback succeeds and when it stops the parser.
\<close>

lemma notify_rule:
  assumes ok: "http_errno (parser e) = HPE_OK"
    and cb: "\<And>f. cb = Some f \<Longrightarrow> keeps_parser f"
    and go: "\<And>x w. P (k (e\<lparr>parser := (parser e)\<lparr>state := x\<rparr>, world := w\<rparr>))"
    and stop: "\<And>er w. er \<noteq> HPE_OK \<Longrightarrow>
      P (Return n (e\<lparr>parser := (parser e)\<lparr>state := p_state e, http_errno := er\<rparr>, world := w\<rparr>))"
  shows "P (seq (CALLBACK_NOTIFY_ER cb hpe n e) k)"
proof (cases cb)
  case None
  have "e\<lparr>parser := (parser e)\<lparr>state := state (parser e)\<rparr>, world := world e\<rparr> = e" by simp
  with go [where x = "state (parser e)" and w = "world e"] ok None show ?thesis
    by (simp add: CALLBACK_NOTIFY_ER_def)
next
  case (Some f)
  obtain er w where rc: "run_callback f hpe n e =
    (let e' = e\<lparr>parser := (parser e)\<lparr>state := p_state e, http_errno := er\<rparr>, world := w\<rparr>
     in if er \<noteq> HPE_OK then Return n e' else Next e')"
    using run_callback_keeps [OF cb [OF Some]] by blast
  show ?thesis
    using go [where x = "p_state e" and w = w] stop [where er = er and w = w] ok Some
    by (auto simp: CALLBACK_NOTIFY_ER_def rc Let_def set_errno_same)
qed

lemma data_rule:
  assumes ok: "http_errno (parser e) = HPE_OK"
    and cb: "\<And>g s. data_callback m st = Some g \<Longrightarrow> keeps_parser (g s)"
    and go: "\<And>x w. P (k (e\<lparr>parser := (parser e)\<lparr>state := x\<rparr>, world := w,
                           marks := (marks e)(m := None)\<rparr>))"
    and stop: "\<And>er w. er \<noteq> HPE_OK \<Longrightarrow>
      P (Return n (e\<lparr>parser := (parser e)\<lparr>state := p_state e, http_errno := er\<rparr>, world := w\<rparr>))"
  shows "P (seq (CALLBACK_DATA_ER st d m q n e) k)"
proof (cases "marks e m")
  case None
  have eq: "e\<lparr>parser := (parser e)\<lparr>state := state (parser e)\<rparr>, world := world e,
                marks := (marks e)(m := None)\<rparr> = e"
    using None by (simp add: fun_upd_idem)
  show ?thesis
    using go [where x = "state (parser e)" and w = "world e"] ok None unfolding eq
    by (simp add: CALLBACK_DATA_ER_def)
next
  case (Some i)
  show ?thesis
  proof (cases "data_callback m st")
    case None
    have eq: "e\<lparr>parser := (parser e)\<lparr>state := state (parser e)\<rparr>, world := world e,
                marks := (marks e)(m := None)\<rparr> = e\<lparr>marks := (marks e)(m := None)\<rparr>" by simp
    show ?thesis
      using go [where x = "state (parser e)" and w = "world e"] ok Some None unfolding eq
      by (simp add: CALLBACK_DATA_ER_def)
  next
    case (Some g)
    let ?f = "g (take (q - i) (drop i d))"
    obtain er w where rc: "run_callback ?f (data_errno m) n e =
      (let e' = e\<lparr>parser := (parser e)\<lparr>state := p_state e, http_errno := er\<rparr>, world := w\<rparr>
       in if er \<noteq> HPE_OK then Return n e' else Next e')"
      using run_callback_keeps [OF cb [OF Some]] by blast
    show ?thesis
      using go [where x = "p_state e" and w = w] stop [where er = er and w = w] ok Some \<open>marks e m = Some i\<close>
      by (auto simp: CALLBACK_DATA_ER_def rc Let_def set_errno_same)
  qed
qed

subsection \<open>The status line and the request line\<close>

lemma digit16_le: "IS_NUM c \<Longrightarrow> (digit_of c :: 16 word) \<le> 999"
  using unat_digit_of16_le [of c] by (simp add: word_le_nat_alt)


definition marked_states :: "state set" where
  "marked_states =
     {s_header_field, s_header_value, s_chunk_data, s_chunk_data_almost_done, s_body_identity,
      s_body_identity_eof, s_res_status} \<union> url_states"

lemma mark_states_marked: "mark_states m \<subseteq> marked_states"
  by (cases m) (auto simp: marked_states_def)

lemma unmarked: "marks_ok s p mk \<Longrightarrow> s \<notin> marked_states \<Longrightarrow> mk = (\<lambda>_. None)"
  using marks_ok_unmarked mark_states_marked by blast

text \<open>What the invariant gives and asks, for one outcome at a time.\<close>

lemma good_Break:
  assumes "pos e \<le> pos e'" and "pos e' < length d" and "http_errno (parser e') = HPE_OK"
    and "pinv True (p_state e') (parser e')" and "marks_ok (p_state e') (pos e' + 1) (marks e')"
  shows "good d e (Break e')"
  using assms by (simp add: good_def loop_inv_def)

lemma good_Reexecute:
  assumes "pos e \<le> pos e'" and "pos e' < length d" and "http_errno (parser e') = HPE_OK"
    and "pinv False (p_state e') (parser e')" and "marks_ok (p_state e') (pos e') (marks e')"
    and "rank (p_state e') < rank (p_state e)"
  shows "good d e (Reexecute e')"
  using assms by (simp add: good_def switch_inv_def)

lemma good_Return:
  assumes "n \<le> length d" and "http_errno (parser e') = HPE_PAUSED \<Longrightarrow> pinv True (state (parser e')) (parser e')"
    and "http_errno (parser e') = HPE_OK \<Longrightarrow>
      upgrade (parser e') \<and> pinv True (state (parser e')) (parser e')"
  shows "good d e (Return n e')"
  using assms by (auto simp: good_def parser_inv_def)

lemma good_fail:
  assumes "er \<notin> {HPE_OK, HPE_PAUSED}" and "pos e' \<le> length d"
  shows "good d e (fail er e')"
  using assms by (simp add: good_def fail_def SET_ERRNO_def)

lemmas good_rules = good_Break good_Reexecute good_Return good_fail

lemmas good_notify = notify_rule [where P = "good d e0"] for d e0
lemmas good_data = data_rule [where P = "good d e0"] for d e0

lemma state_sets:
  "s \<in> free_states \<longleftrightarrow>
     s \<notin> {s_req_method, s_header_field, s_header_value, s_body_identity} \<and> s \<notin> chunk_states"
  by (auto simp: free_states_def)

lemma errno_frame [simp]:
  "http_errno (reset_message ps) = http_errno ps"
  "http_errno (add_flag f ps) = http_errno ps"
  by (simp_all add: reset_message_def add_flag_def)

lemma upgrade_frame [simp]:
  "upgrade (reset_message ps) = upgrade ps"
  "upgrade (add_flag f ps) = upgrade ps"
  by (simp_all add: reset_message_def add_flag_def)

lemma seq_fail [simp]: "seq (fail er e) f = fail er e"
  by (simp add: fail_def)

lemma seq_RETURN [simp]: "seq (RETURN n e) f = RETURN n e"
  by (simp add: RETURN_def)

lemmas step_macros =
  SET_ERRNO_def UPDATE_STATE_def upd_parser_def RETURN_def CALLBACK_NOTIFY_def
  CALLBACK_NOTIFY_NOADVANCE_def CALLBACK_DATA_def CALLBACK_DATA_NOADVANCE_def
  STRICT_CHECK_def assert_that_def Let_def

text \<open>Membership of concrete states in the sets above, and the rank of concrete states.\<close>

lemmas state_eval = marked_states_def url_states_def pinv_free state_sets chunk_states_def rank_def

context parser_callbacks
begin

text \<open>The notifications of the settings, for use with \<open>notify_rule\<close>.\<close>

lemma notify_keeps:
  "on_message_begin st = Some f \<Longrightarrow> keeps_parser f"
  "on_message_complete st = Some f \<Longrightarrow> keeps_parser f"
  "on_chunk_header st = Some f \<Longrightarrow> keeps_parser f"
  "on_chunk_complete st = Some f \<Longrightarrow> keeps_parser f"
  "on_headers_complete st = Some f \<Longrightarrow> keeps_parser f"
  by (rule notify, simp add: notify_callbacks_def)+

lemma switch_invD:
  assumes "switch_inv d e"
  shows "pos e < length d" "http_errno (parser e) = HPE_OK" "bounds_ok (parser e)"
    "state_ok False (p_state e) (parser e)" "marks_ok (p_state e) (pos e) (marks e)"
  using assms by (simp_all add: switch_inv_def pinv_def)

lemma good_dead:
  assumes "switch_inv d e" and "p_state e = s_dead"
  shows "good d e (case_dead e)"
  using switch_invD [OF assms(1)] unmarked [of s_dead "pos e" "marks e"] assms(2)
  by (auto simp: case_dead_def state_eval intro!: good_rules)

lemma good_start_req_or_res:
  assumes "switch_inv d e" and "p_state e = s_start_req_or_res"
  shows "good d e (case_start_req_or_res st e)"
  using switch_invD [OF assms(1)] unmarked [of s_start_req_or_res "pos e" "marks e"] assms(2)
  by (auto simp: case_start_req_or_res_def step_macros state_eval
      intro!: good_rules good_notify intro: notify_keeps)

lemma good_res_or_resp_H:
  assumes "switch_inv d e" and "p_state e = s_res_or_resp_H"
  shows "good d e (case_res_or_resp_H e)"
  using switch_invD [OF assms(1)] unmarked [of s_res_or_resp_H "pos e" "marks e"] assms(2)
  by (auto simp: case_res_or_resp_H_def step_macros state_eval pinv_def state_ok_def
      intro!: good_rules)

lemma good_start_res:
  assumes "switch_inv d e" and "p_state e = s_start_res"
  shows "good d e (case_start_res st e)"
  using switch_invD [OF assms(1)] unmarked [of s_start_res "pos e" "marks e"] assms(2)
  by (auto simp: case_start_res_def step_macros state_eval
      intro!: good_rules good_notify intro: notify_keeps)

lemma good_expect_char:
  assumes "switch_inv d e" and "p_state e \<notin> marked_states" and "s \<in> free_states"
    and "s \<notin> chunk_states"
  shows "good d e (expect_char c s e)"
  using switch_invD [OF assms(1)] unmarked [of "p_state e" "pos e" "marks e"] assms(2-)
  by (auto simp: expect_char_def step_macros pinv_free intro!: good_rules)

lemma good_res_first_http_major:
  assumes "switch_inv d e" and "p_state e = s_res_first_http_major"
  shows "good d e (case_res_first_http_major e)"
  using switch_invD [OF assms(1)] unmarked [of s_res_first_http_major "pos e" "marks e"] assms(2)
  using digit16_le [of "ch e"]
  by (auto simp: case_res_first_http_major_def step_macros state_eval bounds_ok_def IS_NUM_def not_less
      intro!: good_rules)

lemma good_more_major:
  assumes "switch_inv d e" and "p_state e \<in> free_states" and "p_state e \<notin> marked_states"
  shows "good d e (more_major e)"
  using switch_invD [OF assms(1)] unmarked [of "p_state e" "pos e" "marks e"] assms(2-)
  by (auto simp: more_major_def step_macros pinv_free bounds_ok_def not_less intro!: good_rules)

lemma good_more_minor:
  assumes "switch_inv d e" and "p_state e \<in> free_states" and "p_state e \<notin> marked_states"
  shows "good d e (more_minor e)"
  using switch_invD [OF assms(1)] unmarked [of "p_state e" "pos e" "marks e"] assms(2-)
  by (auto simp: more_minor_def step_macros pinv_free bounds_ok_def not_less intro!: good_rules)

lemma good_res_http_major:
  assumes "switch_inv d e" and "p_state e = s_res_http_major"
  shows "good d e (case_res_http_major e)"
  using switch_invD [OF assms(1)] unmarked [of s_res_http_major "pos e" "marks e"] assms
  by (auto simp: case_res_http_major_def step_macros state_eval
      intro!: good_rules good_more_major)

lemma good_res_first_http_minor:
  assumes "switch_inv d e" and "p_state e = s_res_first_http_minor"
  shows "good d e (case_res_first_http_minor e)"
  using switch_invD [OF assms(1)] unmarked [of s_res_first_http_minor "pos e" "marks e"] assms(2)
  by (auto simp: case_res_first_http_minor_def step_macros state_eval bounds_ok_def digit16_le
      intro!: good_rules)

lemma good_res_http_minor:
  assumes "switch_inv d e" and "p_state e = s_res_http_minor"
  shows "good d e (case_res_http_minor e)"
  using switch_invD [OF assms(1)] unmarked [of s_res_http_minor "pos e" "marks e"] assms
  by (auto simp: case_res_http_minor_def step_macros state_eval
      intro!: good_rules good_more_minor)

lemma good_res_first_status_code:
  assumes "switch_inv d e" and "p_state e = s_res_first_status_code"
  shows "good d e (case_res_first_status_code e)"
  using switch_invD [OF assms(1)] unmarked [of s_res_first_status_code "pos e" "marks e"] assms(2)
  by (auto simp: case_res_first_status_code_def step_macros state_eval bounds_ok_def digit16_le
      intro!: good_rules)

lemma good_res_status_code:
  assumes "switch_inv d e" and "p_state e = s_res_status_code"
  shows "good d e (case_res_status_code e)"
  using switch_invD [OF assms(1)] unmarked [of s_res_status_code "pos e" "marks e"] assms(2)
  by (auto simp: case_res_status_code_def step_macros state_eval bounds_ok_def not_less
      intro!: good_rules)

lemma good_res_status_start:
  assumes "switch_inv d e" and "p_state e = s_res_status_start"
  shows "good d e (case_res_status_start e)"
  using switch_invD [OF assms(1)] unmarked [of s_res_status_start "pos e" "marks e"] assms(2)
  by (auto simp: case_res_status_start_def step_macros MARK_def state_eval
      intro!: good_rules marks_ok_set)

lemma good_res_status:
  assumes "switch_inv d e" and "p_state e = s_res_status"
  shows "good d e (case_res_status st d e)"
  using switch_invD [OF assms(1)] marks_ok_clear [of s_res_status "pos e" "marks e" status_mark]
    assms(2)
  by (auto simp: case_res_status_def step_macros state_eval
      intro!: good_rules good_data intro: data marks_ok_mono)

end

subsection \<open>The request line\<close>

lemma method_strings_length: "3 \<le> length (method_strings m) \<and> length (method_strings m) \<le> 11"
  by (cases m) simp_all

lemma method_strings_nonempty [simp]: "method_strings m \<noteq> []"
  using method_strings_length [of m] by auto

lemma switch_method_length:
  "switch_method m i c = Some m' \<Longrightarrow> unat i + 1 \<le> length (method_strings m')"
  using method_strings_length [of m']
  by (auto simp: switch_method_def split: if_splits)

lemma index_step:
  "unat (i :: 8 word) \<le> 11 \<Longrightarrow> unat (i + 1) = unat i + 1 \<and> 0 < i + 1"
  by (simp add: unat_word_ariths word_less_nat_alt)

context parser_callbacks
begin

lemma good_start_req:
  assumes "switch_inv d e" and "p_state e = s_start_req"
  shows "good d e (case_start_req st e)"
  using switch_invD [OF assms(1)] unmarked [of s_start_req "pos e" "marks e"] assms(2)
    method_strings_length
  by (auto simp: case_start_req_def step_macros state_eval pinv_def state_ok_def Suc_le_eq
      split: option.splits intro!: good_rules good_notify intro: notify_keeps order_trans)

lemma good_req_method:
  assumes "switch_inv d e" and "p_state e = s_req_method"
  shows "good d e (case_req_method e)"
proof -
  have idx: "0 < index (parser e)"
    "unat (index (parser e)) \<le> length (method_strings (method (parser e)))"
    using switch_invD(4) [OF assms(1)] assms(2) by (simp_all add: state_ok_def)
  have step: "unat (index (parser e) + 1) = unat (index (parser e)) + 1" "0 < index (parser e) + 1"
    using index_step [of "index (parser e)"] idx(2) method_strings_length
    by (meson order_trans)+
  obtain m where m: "lit_at (method_strings (method (parser e))) (unat (index (parser e))) = Some m"
    using lit_at_le [OF idx(2)] by blast
  show ?thesis
    using switch_invD [OF assms(1)] unmarked [of s_req_method "pos e" "marks e"] assms(2) m step
      lit_at_not_NUL [OF m] switch_method_length
    by (auto simp: case_req_method_def next_index_def step_macros state_eval pinv_def state_ok_def
        Suc_le_eq split: option.splits intro!: good_rules)
qed

lemma good_url_step:
  assumes "pos e = pos e0" and "pos e < length d" and "http_errno (parser e) = HPE_OK"
    and "bounds_ok (parser e)"
    and "\<And>s. s \<in> url_states \<Longrightarrow> marks_ok s (Suc (pos e)) (marks e)"
  shows "good d e0 (url_step e)"
proof (cases "parse_url_char (p_state e) (ch e) = s_dead")
  case True
  then show ?thesis using assms by (auto simp: url_step_def step_macros intro!: good_rules)
next
  case False
  then have u: "parse_url_char (p_state e) (ch e) \<in> url_states"
    by (rule parse_url_char_url_state)
  then have "parse_url_char (p_state e) (ch e) \<in> free_states"
    by (auto simp: url_states_def state_sets chunk_states_def)
  with u False assms show ?thesis
    by (auto simp: url_step_def step_macros pinv_free intro!: good_rules)
qed

lemma marks_ok_url:
  assumes "marks_ok s p mk" and "s \<in> url_states" and "s' \<in> url_states" and "p \<le> q"
  shows "marks_ok s' q mk"
  unfolding marks_ok_def
proof (intro allI impI)
  fix m i assume "mk m = Some i"
  with assms(1) have "i \<le> p" and "s \<in> mark_states m" by (auto simp: marks_ok_def)
  then have "m = url_mark" using mark_states_disjoint [of s m url_mark] assms(2) by simp
  then show "i \<le> q \<and> s' \<in> mark_states m" using \<open>i \<le> p\<close> assms(3,4) by simp
qed

lemma good_req_spaces_before_url:
  assumes "switch_inv d e" and "p_state e = s_req_spaces_before_url"
  shows "good d e (case_req_spaces_before_url e)"
  using switch_invD [OF assms(1)] unmarked [of s_req_spaces_before_url "pos e" "marks e"] assms(2)
  by (auto simp: case_req_spaces_before_url_def step_macros MARK_def pinv_free state_sets
      chunk_states_def marked_states_def url_states_def [THEN eqset_imp_iff]
      intro!: good_rules good_url_step marks_ok_set)

lemma good_req_schema:
  assumes "switch_inv d e" and "p_state e \<in> url_states"
  shows "good d e (case_req_schema e)"
  using switch_invD [OF assms(1)] assms(2)
  by (auto simp: case_req_schema_def intro!: good_rules good_url_step intro: marks_ok_url)

lemma good_req_url:
  assumes "switch_inv d e" and "p_state e \<in> url_states"
  shows "good d e (case_req_url st d e)"
  using switch_invD [OF assms(1)] assms(2)
    marks_ok_clear [of "p_state e" "pos e" "marks e" url_mark]
  by (auto simp: case_req_url_def step_macros pinv_free state_sets chunk_states_def bounds_ok_def
      intro!: good_rules good_url_step good_data intro: marks_ok_url data)

subsection \<open>The version of a request\<close>

lemma good_req_http_start:
  assumes "switch_inv d e" and "p_state e = s_req_http_start"
  shows "good d e (case_req_http_start e)"
  using switch_invD [OF assms(1)] unmarked [of s_req_http_start "pos e" "marks e"] assms(2)
  by (auto simp: case_req_http_start_def step_macros state_eval intro!: good_rules)

lemma good_req_first_http_major:
  assumes "switch_inv d e" and "p_state e = s_req_first_http_major"
  shows "good d e (case_req_first_http_major e)"
proof -
  have "\<not> ch e < CHR ''1'' \<Longrightarrow> \<not> CHR ''9'' < ch e \<Longrightarrow> IS_NUM (ch e)"
    by (auto simp: IS_NUM_def not_less intro: order_trans [of _ "CHR ''1''"])
  then show ?thesis
    using switch_invD [OF assms(1)] unmarked [of s_req_first_http_major "pos e" "marks e"] assms(2)
    by (auto simp: case_req_first_http_major_def step_macros state_eval bounds_ok_def digit16_le
        intro!: good_rules)
qed

lemma good_req_http_major:
  assumes "switch_inv d e" and "p_state e = s_req_http_major"
  shows "good d e (case_req_http_major e)"
  using switch_invD [OF assms(1)] unmarked [of s_req_http_major "pos e" "marks e"] assms
  by (auto simp: case_req_http_major_def step_macros state_eval
      intro!: good_rules good_more_major)

lemma good_req_first_http_minor:
  assumes "switch_inv d e" and "p_state e = s_req_first_http_minor"
  shows "good d e (case_req_first_http_minor e)"
  using switch_invD [OF assms(1)] unmarked [of s_req_first_http_minor "pos e" "marks e"] assms(2)
  by (auto simp: case_req_first_http_minor_def step_macros state_eval bounds_ok_def digit16_le
      intro!: good_rules)

lemma good_req_http_minor:
  assumes "switch_inv d e" and "p_state e = s_req_http_minor"
  shows "good d e (case_req_http_minor e)"
  using switch_invD [OF assms(1)] unmarked [of s_req_http_minor "pos e" "marks e"] assms
  by (auto simp: case_req_http_minor_def step_macros state_eval
      intro!: good_rules good_more_minor)

lemma good_req_line_almost_done:
  assumes "switch_inv d e" and "p_state e = s_req_line_almost_done"
  shows "good d e (case_req_line_almost_done e)"
  using switch_invD [OF assms(1)] unmarked [of s_req_line_almost_done "pos e" "marks e"] assms(2)
  by (auto simp: case_req_line_almost_done_def step_macros state_eval intro!: good_rules)

end

end
