(* ===== verification/Header_Safety.thy ===== *)
theory Header_Safety
  imports Parser_Safety
begin

text \<open>
  The cases of the header lines keep the invariant: the two inner loops stay inside the
  buffer, read no literal beyond its end, fail no \<open>assert\<close>, and change nothing of the
  parser but the fields they are about.
\<close>

subsection \<open>The loop over the name\<close>

lemma match_literal_total:
  "\<exists>h\<in>{stay, miss, hit}. match_literal lit stay miss hit c i = Some h"
  by (auto simp: match_literal_def lit_at_def)

lemma match_field_total:
  "\<exists>h\<in>{header_state ps, h_general, hit}.
     match_field lit hit c ps = Some (ps\<lparr>index := index ps + 1, header_state := h\<rparr>)"
  using match_literal_total [of "header_state ps" h_general hit lit c "index ps + 1"]
  by (auto simp: match_field_def)

text \<open>The loops change \<open>index\<close> and \<open>header_state\<close> only.\<close>

definition same_but_match :: "http_parser \<Rightarrow> http_parser \<Rightarrow> bool" where
  "same_but_match ps ps' \<longleftrightarrow>
     ps' = ps\<lparr>index := index ps', header_state := header_state ps'\<rparr>"

lemma same_but_match_refl [simp]: "same_but_match ps ps"
  by (simp add: same_but_match_def)

lemma same_but_match_upd [simp]:
  "same_but_match ps (ps\<lparr>header_state := h\<rparr>)"
  "same_but_match ps (ps\<lparr>index := i\<rparr>)"
  "same_but_match ps (ps\<lparr>index := i, header_state := h\<rparr>)"
  by (simp_all add: same_but_match_def)

lemma same_but_match_trans:
  assumes "same_but_match a b" and "same_but_match b c"
  shows "same_but_match a c"
proof -
  have "c = b\<lparr>index := index c, header_state := header_state c\<rparr>"
    using assms(2) by (simp add: same_but_match_def)
  also have "b = a\<lparr>index := index b, header_state := header_state b\<rparr>"
    using assms(1) by (simp add: same_but_match_def)
  finally have "c = a\<lparr>index := index c, header_state := header_state c\<rparr>" by simp
  then show ?thesis by (simp add: same_but_match_def)
qed

lemma same_but_match_frame:
  assumes "same_but_match ps ps'"
  shows "http_errno ps' = http_errno ps" "bounds_ok ps' = bounds_ok ps"
    "upgrade ps' = upgrade ps" "nread ps' = nread ps" "flags ps' = flags ps"
    "content_length ps' = content_length ps" "method ps' = method ps" "ptype ps' = ptype ps"
    "state ps' = state ps"
proof -
  obtain i h where "ps' = ps\<lparr>index := i, header_state := h\<rparr>"
    using assms unfolding same_but_match_def by blast
  then show "http_errno ps' = http_errno ps" "bounds_ok ps' = bounds_ok ps"
    "upgrade ps' = upgrade ps" "nread ps' = nread ps" "flags ps' = flags ps"
    "content_length ps' = content_length ps" "method ps' = method ps" "ptype ps' = ptype ps"
    "state ps' = state ps"
    by simp_all
qed

lemma header_field_char_total:
  assumes "header_state ps \<in> field_header_states"
  shows "\<exists>ps'. header_field_char x c ps = Some ps' \<and> header_state ps' \<in> field_header_states \<and>
    same_but_match ps ps'"
proof -
  have match: "\<exists>ps'. match_field lit hit c ps = Some ps' \<and>
      header_state ps' \<in> field_header_states \<and> same_but_match ps ps'"
    if "hit \<in> field_header_states" for lit hit
    using match_field_total [of ps hit lit c] that assms
    by (auto simp: field_header_states_def)
  show ?thesis
    using assms match
    by (cases "header_state ps")
      (simp_all add: header_field_char_def field_header_states_def)
qed

lemma header_field_loop_total:
  assumes "header_state ps \<in> field_header_states"
  shows "\<exists>ps' m c. header_field_loop xs ps n c0 = Some (ps', m, c) \<and>
    header_state ps' \<in> field_header_states \<and> same_but_match ps ps'"
  using assms
proof (induction xs arbitrary: ps n c0)
  case Nil
  then show ?case by simp
next
  case (Cons x xs)
  show ?case
  proof (cases "TOKEN x = NUL")
    case True
    with Cons.prems show ?thesis by simp
  next
    case False
    from header_field_char_total [OF Cons.prems, of x "TOKEN x"] obtain ps1
      where s: "header_field_char x (TOKEN x) ps = Some ps1" "same_but_match ps ps1"
        and h: "header_state ps1 \<in> field_header_states" by blast
    from Cons.IH [OF h, of "Suc n" x] obtain ps' m c
      where l: "header_field_loop xs ps1 (Suc n) x = Some (ps', m, c)"
        "header_state ps' \<in> field_header_states" "same_but_match ps1 ps'" by blast
    have "header_field_loop (x # xs) ps n c0 = Some (ps', m, c)"
      using False s(1) l(1) by simp
    with l(2) same_but_match_trans [OF s(2) l(3)] show ?thesis by blast
  qed
qed

text \<open>The loop stops either at the end of the buffer or at a byte that is no token.\<close>

lemma header_field_loop_stop:
  "header_field_loop xs ps n c0 = Some (ps', m, c) \<Longrightarrow>
     n \<le> m \<and> m \<le> n + length xs \<and> (m < n + length xs \<longrightarrow> c = xs ! (m - n) \<and> TOKEN c = NUL)"
proof (induction xs arbitrary: ps n c0)
  case (Cons x xs)
  show ?case
  proof (cases "TOKEN x = NUL")
    case True
    with Cons.prems show ?thesis by auto
  next
    case False
    with Cons.prems obtain ps1 where "header_field_loop xs ps1 (Suc n) x = Some (ps', m, c)"
      by (auto split: option.splits)
    note ih = Cons.IH [OF this, THEN conjunct1] Cons.IH [OF this, THEN conjunct2, THEN conjunct1]
      Cons.IH [OF this, THEN conjunct2, THEN conjunct2, rule_format]
    then have nth: "(x # xs) ! (m - n) = xs ! (m - Suc n)" by (simp add: Suc_diff_le)
    show ?thesis unfolding nth
      by (intro conjI impI ih(3) [THEN conjunct1] ih(3) [THEN conjunct2])
        (use ih(1,2) in simp_all)
  qed
qed simp

subsection \<open>The count of header bytes\<close>

lemma good_count:
  assumes "pos e \<le> length d"
    and "\<And>n. n \<le> of_nat HTTP_MAX_HEADER_SIZE \<Longrightarrow>
      good d e0 (k (e\<lparr>parser := (parser e)\<lparr>nread := n\<rparr>\<rparr>))"
  shows "good d e0 (seq (COUNT_HEADER_SIZE v e) k)"
  using assms by (auto simp: COUNT_HEADER_SIZE_def upd_parser_def Let_def not_less intro!: good_fail)

lemma bounds_nread [simp]:
  "n \<le> of_nat HTTP_MAX_HEADER_SIZE \<Longrightarrow> bounds_ok ps \<Longrightarrow> bounds_ok (ps\<lparr>nread := n\<rparr>)"
  by (simp add: bounds_ok_def)

context parser_callbacks
begin

lemma data_keeps:
  "on_header_field st = Some g \<Longrightarrow> \<forall>s. keeps_parser (g s)"
  "on_header_value st = Some g \<Longrightarrow> \<forall>s. keeps_parser (g s)"
  "on_body st = Some g \<Longrightarrow> \<forall>s. keeps_parser (g s)"
  using data [of header_field_mark g] data [of header_value_mark g] data [of body_mark g]
  by simp_all

lemma good_header_field_start:
  assumes "switch_inv d e" and "p_state e = s_header_field_start"
  shows "good d e (case_header_field_start e)"
proof -
  have "first_header_state c \<in> field_header_states" for c
    by (simp add: first_header_state_def field_header_states_def)
  then show ?thesis
    using switch_invD [OF assms(1)] unmarked [of s_header_field_start "pos e" "marks e"] assms(2)
    by (auto simp: case_header_field_start_def step_macros MARK_def state_eval pinv_def state_ok_def
        intro!: good_rules marks_ok_set)
qed

lemma good_header_field:
  assumes "switch_inv d e" and "p_state e = s_header_field"
  shows "good d e (case_header_field st d e)"
proof -
  note inv = switch_invD [OF assms(1)]
  have "header_state (parser e) \<in> field_header_states"
    using inv(4) assms(2) by (simp add: state_ok_def)
  from header_field_loop_total [OF this] obtain ps n c where
    l: "header_field_loop (drop (pos e) d) (parser e) 0 (ch e) = Some (ps, n, c)"
    and h: "header_state ps \<in> field_header_states" and s: "same_but_match (parser e) ps"
    by blast
  have n: "pos e + n \<le> length d" using header_field_loop_stop [OF l] inv(1) by auto
  have last: "pos e \<le> length d - Suc 0" "length d - Suc 0 < length d"
    "Suc (length d - Suc 0) = length d" "pos e \<le> length d" using inv(1) by simp_all
  have mono: "marks_ok s_header_field q (marks e)" if "pos e \<le> q" for q
    using marks_ok_mono [OF inv(5) that] assms(2) by simp
  have mk: "(marks e)(header_field_mark := None) = (\<lambda>_. None)"
    using marks_ok_clear [OF inv(5)] assms(2) by simp
  show ?thesis
    unfolding case_header_field_def l option.case prod.case
    using inv n h mk last assms(2) same_but_match_frame(1,2) [OF s]
    by (auto simp: step_macros state_eval pinv_def state_ok_def
        intro!: good_count good_rules good_data mono simp: data_keeps)
qed

end

subsection \<open>The loop over the value\<close>

lemma general_skip_le: "p \<le> length d \<Longrightarrow> general_skip d p \<le> length d"
  unfolding general_skip_def Let_def
  by (auto split: option.splits dest!: memchr_Some)

text \<open>The loop changes \<open>index\<close>, \<open>flags\<close> and \<open>content_length\<close> only.\<close>

definition same_but_value :: "http_parser \<Rightarrow> http_parser \<Rightarrow> bool" where
  "same_but_value ps ps' \<longleftrightarrow>
     (\<exists>i f n. ps' = ps\<lparr>index := i, flags := f, content_length := n\<rparr>)"

lemma same_but_valueI [simp]:
  "same_but_value ps ps"
  "same_but_value ps (ps\<lparr>index := i\<rparr>)"
  "same_but_value ps (ps\<lparr>content_length := n\<rparr>)"
  "same_but_value ps ((add_flag f ps)\<lparr>index := i\<rparr>)"
proof -
  have "ps = ps\<lparr>index := index ps, flags := flags ps, content_length := content_length ps\<rparr>"
    "ps\<lparr>index := i\<rparr> = ps\<lparr>index := i, flags := flags ps, content_length := content_length ps\<rparr>"
    "ps\<lparr>content_length := n\<rparr> = ps\<lparr>index := index ps, flags := flags ps, content_length := n\<rparr>"
    "(add_flag f ps)\<lparr>index := i\<rparr> =
       ps\<lparr>index := i, flags := flags ps OR f, content_length := content_length ps\<rparr>"
    by (simp_all add: add_flag_def)
  then show "same_but_value ps ps" "same_but_value ps (ps\<lparr>index := i\<rparr>)"
    "same_but_value ps (ps\<lparr>content_length := n\<rparr>)"
    "same_but_value ps ((add_flag f ps)\<lparr>index := i\<rparr>)"
    unfolding same_but_value_def by blast+
qed

lemma same_but_value_trans:
  "same_but_value a b \<Longrightarrow> same_but_value b c \<Longrightarrow> same_but_value a c"
  unfolding same_but_value_def by (elim exE) (simp, blast)

lemma same_but_value_frame:
  assumes "same_but_value ps ps'"
  shows "http_errno ps' = http_errno ps" "bounds_ok ps' = bounds_ok ps"
    "header_state ps' = header_state ps" "nread ps' = nread ps" "method ps' = method ps"
    "ptype ps' = ptype ps" "state ps' = state ps"
  using assms by (auto simp: same_but_value_def)

definition value_states :: "header_states set" where
  "value_states = - {h_connection, h_transfer_encoding}"

lemma match_value_total:
  assumes "stay \<in> value_states" and "miss \<in> value_states" and "hit \<in> value_states"
  shows "\<exists>h' ps'. match_value lit stay miss hit c ps = Value_next h' ps' \<and> h' \<in> value_states \<and>
    same_but_value ps ps'"
  using match_literal_total [of stay miss hit lit c "index ps + 1"] assms
  by (auto simp: match_value_def)

lemma header_value_char_total:
  assumes "h \<in> value_states"
  shows "header_value_char c h ps = Value_bad \<or>
    (\<exists>h' ps'. header_value_char c h ps = Value_next h' ps' \<and> h' \<in> value_states \<and>
       same_but_value ps ps')"
  using assms
    match_value_total [of h h_general h_transfer_encoding_chunked CHUNKED "LOWER c" ps]
    match_value_total [of h h_matching_connection_token h_connection_keep_alive KEEP_ALIVE "LOWER c" ps]
    match_value_total [of h h_matching_connection_token h_connection_close CLOSE "LOWER c" ps]
    match_value_total [of h h_matching_connection_token h_connection_upgrade UPGRADE "LOWER c" ps]
  by (cases h)
    (simp_all add: header_value_char_def content_length_digit_def
      connection_token_end_def Let_def value_states_def)

definition loop_result ::
  "string \<Rightarrow> nat \<Rightarrow> http_parser \<Rightarrow> value_stop \<times> nat \<times> header_states \<times> http_parser \<times> char \<Rightarrow> bool" where
  "loop_result d p ps r =
     (case r of (stop, p', h', ps', c) \<Rightarrow>
        stop \<noteq> Stop_abort \<and> p \<le> p' \<and> h' \<in> value_states \<and> same_but_value ps ps' \<and>
        (if stop = Stop_end then p' = length d
         else p' < length d \<and> c = d ! p' \<and> (stop = Stop_CR \<longrightarrow> c = CR) \<and> (stop = Stop_LF \<longrightarrow> c = LF)))"

lemma loop_result_step:
  "loop_result d q ps1 r \<Longrightarrow> p \<le> q \<Longrightarrow> same_but_value ps ps1 \<Longrightarrow> loop_result d p ps r"
  by (auto simp: loop_result_def intro: same_but_value_trans)

lemma header_value_loop_total:
  assumes "p \<le> length d" and "h \<in> value_states"
  shows "loop_result d p ps (header_value_loop d p h ps c0)"
  using assms
proof (induction d p h ps c0 rule: header_value_loop.induct)
  case (1 d p h ps c0)
  let ?c = "d ! p"
  show ?case
  proof (cases "length d \<le> p \<or> ?c = CR \<or> ?c = LF")
    case True
    with "1.prems" show ?thesis
      by (subst header_value_loop.simps) (auto simp: loop_result_def Let_def)
  next
    case False
    then have p: "p < length d" "?c \<noteq> CR" "?c \<noteq> LF" by simp_all
    show ?thesis
    proof (cases "h = h_general")
      case True
      have skip: "p < general_skip d p" "general_skip d p \<le> length d"
        using general_skip_gt [OF p] general_skip_le [of p d] p(1) by simp_all
      have "loop_result d (Suc (general_skip d p - 1)) ps
          (header_value_loop d (Suc (general_skip d p - 1)) h ps ?c)"
        using "1.IH"(1) [OF _ refl p(2,3) True] skip "1.prems"(2) p(1) by simp
      then have "loop_result d p ps (header_value_loop d (Suc (general_skip d p - 1)) h ps ?c)"
        by (rule loop_result_step) (use skip in simp_all)
      then show ?thesis
        by (subst header_value_loop.simps) (use False True in \<open>simp add: Let_def\<close>)
    next
      case ng: False
      from header_value_char_total [OF "1.prems"(2), of ?c ps] show ?thesis
      proof
        assume "header_value_char ?c h ps = Value_bad"
        with False ng "1.prems"(2) show ?thesis
          by (subst header_value_loop.simps) (simp add: Let_def loop_result_def)
      next
        assume "\<exists>h' ps'. header_value_char ?c h ps = Value_next h' ps' \<and> h' \<in> value_states \<and>
          same_but_value ps ps'"
        then obtain h' ps' where s: "header_value_char ?c h ps = Value_next h' ps'"
          "h' \<in> value_states" "same_but_value ps ps'" by blast
        have "loop_result d (Suc p) ps' (header_value_loop d (Suc p) h' ps' ?c)"
          using "1.IH"(2) [OF _ refl p(2,3) ng s(1)] s(2) p(1) by simp
        then have "loop_result d p ps (header_value_loop d (Suc p) h' ps' ?c)"
          by (rule loop_result_step) (use s(3) in simp_all)
        then show ?thesis
          by (subst header_value_loop.simps) (use False ng s(1) in \<open>simp add: Let_def\<close>)
      qed
    qed
  qed
qed

subsection \<open>The cases of the header value\<close>

context parser_callbacks
begin

lemma good_Goto:
  "http_errno (parser e') \<notin> {HPE_OK, HPE_PAUSED} \<Longrightarrow> pos e' \<le> length d \<Longrightarrow>
     good d e (Goto_error e')"
  by (simp add: good_def)

lemma header_value_first_frame:
  assumes "header_value_first c ps = Some ps'"
  shows "http_errno ps' = http_errno ps \<and> bounds_ok ps' = bounds_ok ps \<and>
    header_state ps' \<in> value_states"
  using assms
  by (cases "header_state ps")
    (auto simp: header_value_first_def value_states_def Let_def add_flag_def bounds_ok_def
      split: if_splits)

lemma good_header_value_start:
  assumes "switch_inv d e"
    and "p_state e \<in> {s_header_value_start, s_header_value_discard_ws}"
  shows "good d e (case_header_value_start e)"
proof -
  have "p_state e \<notin> marked_states"
    using assms(2) by (elim insertE emptyE) (simp_all add: marked_states_def url_states_def)
  from unmarked [OF switch_invD(5) [OF assms(1)] this]
  have e1: "case_header_value_start e =
      (let e1 = e\<lparr>marks := (\<lambda>_. None)(header_value_mark := Some (pos e)), p_state := s_header_value,
                  parser := (parser e)\<lparr>index := 0\<rparr>\<rparr>
       in case header_value_first (ch e) ((parser e)\<lparr>index := 0\<rparr>) of
            None \<Rightarrow> fail HPE_INVALID_CONTENT_LENGTH e1
          | Some ps \<Rightarrow> Break (e1\<lparr>parser := ps\<rparr>))"
    by (simp add: case_header_value_start_def step_macros MARK_def)
  show ?thesis
  proof (cases "header_value_first (ch e) ((parser e)\<lparr>index := 0\<rparr>)")
    case None
    with switch_invD(1) [OF assms(1)] show ?thesis
      by (simp add: e1 Let_def good_fail)
  next
    case (Some ps)
    have v: "http_errno ps = HPE_OK" "pinv True s_header_value ps"
      using header_value_first_frame [OF Some] switch_invD(2,3) [OF assms(1)]
      by (simp_all add: pinv_def state_ok_def chunk_states_def value_states_def)
    show ?thesis
      unfolding e1 Some Let_def option.case
      by (rule good_Break) (use v switch_invD(1) [OF assms(1)] in \<open>simp_all add: marks_ok_set\<close>)
  qed
qed

lemma good_header_value_discard_ws:
  assumes "switch_inv d e" and "p_state e = s_header_value_discard_ws"
  shows "good d e (case_header_value_discard_ws e)"
  using switch_invD [OF assms(1)] unmarked [of s_header_value_discard_ws "pos e" "marks e"] assms
  by (auto simp: case_header_value_discard_ws_def step_macros state_eval
      intro!: good_rules good_header_value_start)

lemma good_header_value:
  assumes "switch_inv d e" and "p_state e = s_header_value"
  shows "good d e (case_header_value st d e)"
proof -
  note inv = switch_invD [OF assms(1)]
  have h0: "header_state (parser e) \<in> value_states"
    using inv(4) assms(2) by (simp add: state_ok_def value_states_def)
  obtain stop p h ps c where
    l: "header_value_loop d (pos e) (header_state (parser e)) (parser e) (ch e) = (stop, p, h, ps, c)"
    by (metis prod_cases5)
  have r: "stop \<noteq> Stop_abort" "pos e \<le> p" "h \<noteq> h_connection" "h \<noteq> h_transfer_encoding"
    "same_but_value (parser e) ps"
    "stop = Stop_end \<Longrightarrow> p = length d" "stop \<noteq> Stop_end \<Longrightarrow> p < length d"
    using header_value_loop_total [OF less_imp_le [OF inv(1)] h0, of "parser e" "ch e"]
    by (simp_all add: l loop_result_def value_states_def split: if_splits)
  have last: "pos e \<le> length d - Suc 0" "length d - Suc 0 < length d"
    "Suc (length d - Suc 0) = length d" "pos e \<le> length d" using inv(1) by simp_all
  have mono: "marks_ok s_header_value q (marks e)" if "pos e \<le> q" for q
    using marks_ok_mono [OF inv(5) that] assms(2) by simp
  have mk: "(marks e)(header_value_mark := None) = (\<lambda>_. None)"
    using marks_ok_clear [OF inv(5)] assms(2) by simp
  show ?thesis
    unfolding case_header_value_def l Let_def prod.case
    using inv r last mk assms(2) same_but_value_frame(1,2) [OF r(5)]
    by (cases stop)
      (auto simp: step_macros state_eval pinv_def state_ok_def
        intro!: good_count good_rules good_Goto good_data mono simp: data_keeps)
qed

lemma good_header_value_lws:
  assumes "switch_inv d e" and "p_state e = s_header_value_lws"
  shows "good d e (case_header_value_lws e)"
  using switch_invD [OF assms(1)] unmarked [of s_header_value_lws "pos e" "marks e"] assms(2)
  by (auto simp: case_header_value_lws_def step_macros state_eval
      split: header_states.split intro!: good_rules)

lemma good_header_value_discard_lws:
  assumes "switch_inv d e" and "p_state e = s_header_value_discard_lws"
  shows "good d e (case_header_value_discard_lws st d e)"
  using switch_invD [OF assms(1)] unmarked [of s_header_value_discard_lws "pos e" "marks e"] assms(2)
  by (auto simp: case_header_value_discard_lws_def step_macros MARK_def state_eval
      split: header_states.split intro!: good_rules good_data simp: data_keeps)

end

end
