(* ===== verification/Body_Safety.thy ===== *)
theory Body_Safety
  imports Header_Safety
begin

text \<open>
  The cases from the end of the headers on keep the invariant. The arithmetic on
  \<open>content_length\<close> and on the number of bytes to read is done at 64 bits; a buffer is
  shorter than \<open>2 ^ 64\<close> bytes, as its length is a \<open>size_t\<close>.
\<close>

subsection \<open>Word arithmetic\<close>

text \<open>The test before a chunk size grows by a digit rules out an overflow.\<close>

lemma chunk_size_step:
  assumes "\<not> (ULLONG_MAX - 16) div 16 < cl" and "0 \<le> v" and "v \<le> 15"
  shows "unat (cl * 16 + of_int v) = unat cl * 16 + nat v"
    and "cl * 16 + of_int v \<noteq> ULLONG_MAX"
proof -
  have "unat ((ULLONG_MAX - 16) div 16) = 1152921504606846974"
    by (simp add: ULLONG_MAX_def unat_div)
  with assms(1) have cl: "unat cl \<le> 1152921504606846974"
    by (simp add: not_less word_le_nat_alt)
  have v: "unat (of_int v :: 64 word) = nat v"
    using assms(2,3) unat_of_nat_64 [of "nat v"] by simp
  show eq: "unat (cl * 16 + of_int v) = unat cl * 16 + nat v"
    using cl v assms(2,3) by (simp add: unat_word_ariths)
  show "cl * 16 + of_int v \<noteq> ULLONG_MAX"
    using eq cl assms(3) unat_ULLONG_MAX by auto
qed

lemma unat_to_read:
  assumes "length d < 2 ^ 64"
  shows "unat (to_read d e) = min (unat (content_length (parser e))) (length d - pos e)"
proof -
  have "unat (of_nat (length d - pos e) :: 64 word) = length d - pos e"
    using assms by (intro unat_of_nat_64) simp
  then show ?thesis by (simp add: to_read_def min_def word_le_nat_alt)
qed

text \<open>What reading a piece of the body does.\<close>

lemma read_body_props:
  assumes "length d < 2 ^ 64" and "pos e < length d" and "body_length_known (parser e)"
    and "e' = read_body (to_read d e) e"
  shows "pos e \<le> pos e'" "pos e' < length d" "p_state e' = p_state e"
    "pos e' + 1 = pos e + min (unat (content_length (parser e))) (length d - pos e)"
    "parser e' = (parser e)\<lparr>content_length := content_length (parser e')\<rparr>"
    "unat (content_length (parser e')) =
       unat (content_length (parser e)) - (pos e' + 1 - pos e)"
    "content_length (parser e') \<noteq> ULLONG_MAX"
    "marks e' = marks (MARK body_mark e)"
proof -
  let ?n = "to_read d e"
  have n: "unat ?n = min (unat (content_length (parser e))) (length d - pos e)"
    by (rule unat_to_read [OF assms(1)])
  have "0 < unat (content_length (parser e))"
    using assms(3) by (simp add: body_length_known_def unat_gt_0)
  with n assms(2) have pn: "0 < unat ?n" "unat ?n \<le> unat (content_length (parser e))"
    "unat ?n \<le> length d - pos e" by simp_all
  have e': "pos e' = pos e + unat ?n - 1" "parser e' =
      (parser e)\<lparr>content_length := content_length (parser e) - ?n\<rparr>"
    by (simp_all add: assms(4) read_body_def upd_parser_def Let_def MARK_def)
  have cl: "unat (content_length (parser e) - ?n) = unat (content_length (parser e)) - unat ?n"
    using pn(2) by (simp add: unat_sub word_le_nat_alt)
  show "pos e \<le> pos e'" "pos e' < length d"
    "pos e' + 1 = pos e + min (unat (content_length (parser e))) (length d - pos e)"
    "parser e' = (parser e)\<lparr>content_length := content_length (parser e')\<rparr>"
    using e' pn n assms(2) by simp_all
  show "p_state e' = p_state e" "marks e' = marks (MARK body_mark e)"
    by (simp_all add: assms(4) read_body_def upd_parser_def Let_def MARK_def)
  have u: "unat (content_length (parser e')) = unat (content_length (parser e)) - unat ?n"
    using e'(2) cl by simp
  then show "unat (content_length (parser e')) =
      unat (content_length (parser e)) - (pos e' + 1 - pos e)"
    using e'(1) pn(1) by simp
  show "content_length (parser e') \<noteq> ULLONG_MAX"
    using u pn(1,2) unsigned_less [where ?'a = nat, of "content_length (parser e)"] unat_ULLONG_MAX by auto
qed

lemma marks_ok_MARK:
  assumes "marks_ok s (pos e) (marks e)" and "s \<in> mark_states m" and "s' \<in> mark_states m"
    and "pos e \<le> q"
  shows "marks_ok s' q (marks (MARK m e))"
proof -
  have "marks e m' = None" if "m' \<noteq> m" for m'
    using that marks_ok_other [OF assms(1,2)] by blast
  then show ?thesis
    using assms by (fastforce simp: marks_ok_def MARK_def split: if_splits)
qed

subsection \<open>The end of the headers\<close>

lemma NEW_MESSAGE_states: "NEW_MESSAGE ps \<in> {s_dead, s_start_req, s_start_res}"
  by (simp add: NEW_MESSAGE_def start_state_def)

lemma NEW_MESSAGE_free [simp]: "NEW_MESSAGE ps \<in> free_states"
  using NEW_MESSAGE_states [of ps] by (auto simp: state_sets chunk_states_def)

lemma has_flag_frame [simp]:
  "has_flag (ps\<lparr>state := x\<rparr>) f = has_flag ps f"
  "has_flag (ps\<lparr>http_errno := er\<rparr>) f = has_flag ps f"
  "has_flag (ps\<lparr>nread := n\<rparr>) f = has_flag ps f"
  "has_flag (ps\<lparr>content_length := c\<rparr>) f = has_flag ps f"
  by (simp_all add: has_flag_def)

lemma body_length_known_frame [simp]:
  "body_length_known (ps\<lparr>state := x\<rparr>) = body_length_known ps"
  "body_length_known (ps\<lparr>http_errno := er\<rparr>) = body_length_known ps"
  "body_length_known (ps\<lparr>nread := n\<rparr>) = body_length_known ps"
  by (simp_all add: body_length_known_def)

text \<open>What the invariant says in the states of the body.\<close>

lemma pinv_body:
  "pinv b s_body_identity ps \<longleftrightarrow> bounds_ok ps \<and> body_length_known ps"
  "pinv b s_chunk_size_start ps \<longleftrightarrow>
     bounds_ok ps \<and> has_flag ps F_CHUNKED \<and> nread ps = (if b then 0 else 1)"
  "pinv b s_chunk_size ps \<longleftrightarrow>
     bounds_ok ps \<and> has_flag ps F_CHUNKED \<and> content_length ps \<noteq> ULLONG_MAX"
  "pinv b s_chunk_parameters ps \<longleftrightarrow>
     bounds_ok ps \<and> has_flag ps F_CHUNKED \<and> content_length ps \<noteq> ULLONG_MAX"
  "pinv b s_chunk_size_almost_done ps \<longleftrightarrow>
     bounds_ok ps \<and> has_flag ps F_CHUNKED \<and> content_length ps \<noteq> ULLONG_MAX"
  "pinv b s_chunk_data ps \<longleftrightarrow> bounds_ok ps \<and> has_flag ps F_CHUNKED \<and> body_length_known ps"
  "pinv b s_chunk_data_almost_done ps \<longleftrightarrow>
     bounds_ok ps \<and> has_flag ps F_CHUNKED \<and> content_length ps = 0"
  "pinv b s_chunk_data_done ps \<longleftrightarrow> bounds_ok ps \<and> has_flag ps F_CHUNKED"
  by (auto simp: pinv_def state_ok_def chunk_states_def)

lemma body_free:
  "s_headers_done \<in> free_states" "s_message_done \<in> free_states"
  "s_body_identity_eof \<in> free_states" "s_header_field_start \<in> free_states"
  "s_headers_almost_done \<in> free_states"
  by (simp_all add: state_sets chunk_states_def)

lemmas pinv_eval = pinv_body pinv_free body_free

context parser_callbacks
begin

lemma good_message_complete:
  assumes "http_errno (parser e) = HPE_OK" and "bounds_ok (parser e)" and "pos e < length d"
    and "marks e = (\<lambda>_. None)"
    and "\<And>x w. good d e0
      (k (e\<lparr>p_state := NEW_MESSAGE (parser e), parser := (parser e)\<lparr>state := x\<rparr>, world := w\<rparr>))"
  shows "good d e0 (seq (message_complete st e) k)"
  unfolding message_complete_def CALLBACK_NOTIFY_def UPDATE_STATE_def
  by (rule good_notify) (use assms in \<open>auto simp: pinv_free intro: good_rules notify_keeps\<close>)

lemma good_complete_Break:
  assumes "http_errno (parser e) = HPE_OK" and "bounds_ok (parser e)" and "pos e < length d"
    and "marks e = (\<lambda>_. None)" and "pos e0 \<le> pos e"
  shows "good d e0 (seq (message_complete st e) Break)"
  by (rule good_message_complete, use assms in simp_all)
    (rule good_Break, use assms in \<open>simp_all add: pinv_free\<close>)

lemma good_complete_RETURN:
  assumes "http_errno (parser e) = HPE_OK" and "bounds_ok (parser e)" and "pos e < length d"
    and "marks e = (\<lambda>_. None)" and "upgrade (parser e)"
  shows "good d e0 (seq (message_complete st e) (\<lambda>e2. RETURN (Suc (pos e2)) e2))"
  by (rule good_message_complete, use assms in simp_all)
    (unfold RETURN_def, rule good_Return, use assms in \<open>simp_all add: pinv_free\<close>)

lemma good_headers_done:
  assumes "switch_inv d e" and "p_state e = s_headers_done"
  shows "good d e (case_headers_done st e)"
proof -
  have mk: "marks e = (\<lambda>_. None)"
    using unmarked [OF switch_invD(5) [OF assms(1)]] assms(2)
    by (simp add: marked_states_def url_states_def)
  show ?thesis
    unfolding case_headers_done_def
    using switch_invD(1-3) [OF assms(1)] mk
    by (simp add: STRICT_CHECK_def UPDATE_STATE_def upd_parser_def Let_def good_fail good_Break
        good_complete_Break good_complete_RETURN pinv_eval body_length_known_def upgrade_exit_def)
qed

lemma good_headers_complete:
  assumes "http_errno (parser e) = HPE_OK" and "bounds_ok (parser e)" and "pos e < length d"
    and "p_state e = s_headers_done" and "marks e = (\<lambda>_. None)"
    and "rank s_headers_done < rank (p_state e0)" and "pos e0 \<le> pos e"
  shows "good d e0 (seq (headers_complete_callback st e)
    (\<lambda>e2. if http_errno (parser e2) \<noteq> HPE_OK then RETURN (pos e2) e2 else Reexecute e2))"
proof -
  have free: "s_headers_done \<in> free_states" by (simp add: state_sets chunk_states_def)
  show ?thesis
  proof (cases "on_headers_complete st")
    case None
    with assms free show ?thesis
      by (auto simp: headers_complete_callback_def pinv_free intro!: good_rules)
  next
    case (Some f)
    then have "keeps_parser f" by (rule notify_keeps)
    then obtain r er w where "f (parser e) (world e) = (r, (parser e)\<lparr>http_errno := er\<rparr>, w)"
      unfolding keeps_parser_def by blast
    with assms free Some show ?thesis
      by (auto simp: headers_complete_callback_def pinv_free step_macros intro!: good_rules)
  qed
qed

lemma good_headers_almost_done:
  assumes "switch_inv d e" and "p_state e = s_headers_almost_done"
  shows "good d e (case_headers_almost_done st e)"
  using switch_invD [OF assms(1)] unmarked [of s_headers_almost_done "pos e" "marks e"] assms(2)
  by (auto simp: case_headers_almost_done_def step_macros state_eval
      intro!: good_rules good_notify good_headers_complete intro: notify_keeps)

lemma good_message_done:
  assumes "switch_inv d e" and "p_state e = s_message_done"
  shows "good d e (case_message_done st e)"
proof -
  have mk: "marks e = (\<lambda>_. None)"
    using unmarked [OF switch_invD(5) [OF assms(1)]] assms(2)
    by (simp add: marked_states_def url_states_def)
  show ?thesis
    unfolding case_message_done_def
    by (rule good_message_complete)
      (use switch_invD(1-3) [OF assms(1)] mk in
        \<open>simp_all add: RETURN_def pinv_eval good_Break good_Return\<close>)
qed

subsection \<open>Plain and chunked bodies\<close>

lemma good_body_identity_eof:
  assumes "switch_inv d e" and "p_state e = s_body_identity_eof"
  shows "good d e (case_body_identity_eof d e)"
proof -
  have last: "Suc (length d - Suc 0) = length d" using switch_invD(1) [OF assms(1)] by simp
  have mk: "marks_ok s_body_identity_eof (length d) (marks (MARK body_mark e))"
    using switch_invD(1,5) [OF assms(1)] assms(2)
      marks_ok_MARK [of s_body_identity_eof e body_mark s_body_identity_eof "length d"] by simp
  show ?thesis
    unfolding case_body_identity_eof_def
    by (rule good_Break) (use switch_invD(1-3) [OF assms(1)] last mk assms(2) in
      \<open>auto simp: MARK_def pinv_eval split: if_splits\<close>)
qed

lemma good_body_identity:
  assumes "switch_inv d e" and "p_state e = s_body_identity" and "length d < 2 ^ 64"
  shows "good d e (case_body_identity st d e)"
proof -
  note inv = switch_invD [OF assms(1)]
  have known: "body_length_known (parser e)" using inv(4) assms(2) by (simp add: state_ok_def)
  define e' where "e' = read_body (to_read d e) e"
  note r = read_body_props [OF assms(3) inv(1) known e'_def]
  have mk: "marks_ok s_body_identity q (marks e')" if "pos e \<le> q" for q
    using that inv(5) assms(2) r(8) by (simp add: marks_ok_MARK)
  have clear: "(marks e')(body_mark := None) = (\<lambda>_. None)"
    using marks_ok_clear [OF mk [OF order.refl]] by simp
  obtain cl where p: "parser e' = (parser e)\<lparr>content_length := cl\<rparr>" "cl \<noteq> ULLONG_MAX"
    using r(5,7) by blast
  show ?thesis
    unfolding case_body_identity_def assert_that_def Let_def
    using known inv(1-3) assms(2) r(1-3) mk clear p
    by (auto simp: e'_def [symmetric] UPDATE_STATE_def rank_def pinv_eval body_length_known_def
        data_keeps intro!: good_rules good_data)
qed

lemma good_chunk_data:
  assumes "switch_inv d e" and "p_state e = s_chunk_data" and "length d < 2 ^ 64"
  shows "good d e (case_chunk_data d e)"
proof -
  note inv = switch_invD [OF assms(1)]
  have known: "body_length_known (parser e)" and ch: "has_flag (parser e) F_CHUNKED"
    using inv(4) assms(2) by (simp_all add: state_ok_def chunk_states_def)
  define e' where "e' = read_body (to_read d e) e"
  note r = read_body_props [OF assms(3) inv(1) known e'_def]
  have mk: "marks_ok s q (marks e')" if "pos e \<le> q" "s \<in> mark_states body_mark" for s q
    using that inv(5) assms(2) r(8) marks_ok_MARK [of s_chunk_data e body_mark s q] by simp
  obtain cl where p: "parser e' = (parser e)\<lparr>content_length := cl\<rparr>" "cl \<noteq> ULLONG_MAX"
    using r(5,7) by blast
  show ?thesis
    unfolding case_chunk_data_def assert_that_def Let_def
    using known ch inv(1-3) assms(2) r(1-3) mk p
    by (auto simp: e'_def [symmetric] UPDATE_STATE_def pinv_eval body_length_known_def
        intro!: good_rules)
qed

lemma good_chunk_size_start:
  assumes "switch_inv d e" and "p_state e = s_chunk_size_start"
  shows "good d e (case_chunk_size_start e)"
proof -
  note inv = switch_invD [OF assms(1)]
  have ch: "has_flag (parser e) F_CHUNKED" "nread (parser e) = 1"
    using inv(4) assms(2) by (simp_all add: state_ok_def chunk_states_def)
  have v: "word_of_int (unhex_at (ch e)) \<noteq> ULLONG_MAX" if "unhex_at (ch e) \<noteq> -1"
    using that unhex_at_range [of "ch e"] chunk_size_step(2) [of 0 "unhex_at (ch e)"]
    by simp
  show ?thesis
    unfolding case_chunk_size_start_def
    using inv(1-3) ch v unmarked [OF inv(5)] assms(2)
    by (simp add: assert_that_def UPDATE_STATE_def upd_parser_def Let_def good_fail good_Break
        pinv_eval marked_states_def url_states_def)
qed

lemma good_chunk_size:
  assumes "switch_inv d e" and "p_state e = s_chunk_size"
  shows "good d e (case_chunk_size e)"
proof -
  note inv = switch_invD [OF assms(1)]
  have ch: "has_flag (parser e) F_CHUNKED" "content_length (parser e) \<noteq> ULLONG_MAX"
    using inv(4) assms(2) by (simp_all add: state_ok_def chunk_states_def)
  have v: "content_length (parser e) * 16 + word_of_int (unhex_at (ch e)) \<noteq> ULLONG_MAX"
    if "unhex_at (ch e) \<noteq> -1" "\<not> (ULLONG_MAX - 16) div 16 < content_length (parser e)"
    using that unhex_at_range [of "ch e"] by (intro chunk_size_step(2)) simp_all
  show ?thesis
    unfolding case_chunk_size_def
    using inv(1-3) ch v unmarked [OF inv(5)] assms(2)
    by (simp add: assert_that_def UPDATE_STATE_def upd_parser_def Let_def good_fail good_Break
        pinv_eval marked_states_def url_states_def)
qed

lemma good_chunk_parameters:
  assumes "switch_inv d e" and "p_state e = s_chunk_parameters"
  shows "good d e (case_chunk_parameters e)"
  using switch_invD [OF assms(1)] unmarked [OF switch_invD(5) [OF assms(1)]] assms(2)
  by (simp add: case_chunk_parameters_def assert_that_def UPDATE_STATE_def good_Break pinv_eval
      marked_states_def url_states_def state_ok_def chunk_states_def)

lemma good_chunk_size_almost_done:
  assumes "switch_inv d e" and "p_state e = s_chunk_size_almost_done"
  shows "good d e (case_chunk_size_almost_done st e)"
proof -
  note inv = switch_invD [OF assms(1)]
  have ch: "has_flag (parser e) F_CHUNKED" "content_length (parser e) \<noteq> ULLONG_MAX"
    using inv(4) assms(2) by (simp_all add: state_ok_def chunk_states_def)
  have mk: "marks e = (\<lambda>_. None)"
    using unmarked [OF inv(5)] assms(2) by (simp add: marked_states_def url_states_def)
  show ?thesis
    using inv(1-3) ch mk assms(2)
    by (auto simp: case_chunk_size_almost_done_def step_macros pinv_eval body_length_known_def
        intro!: good_rules good_notify intro: notify_keeps)
qed

lemma good_chunk_data_almost_done:
  assumes "switch_inv d e" and "p_state e = s_chunk_data_almost_done"
  shows "good d e (case_chunk_data_almost_done st d e)"
proof -
  note inv = switch_invD [OF assms(1)]
  have ch: "has_flag (parser e) F_CHUNKED" "content_length (parser e) = 0"
    using inv(4) assms(2) by (simp_all add: state_ok_def chunk_states_def)
  have clear: "(marks e)(body_mark := None) = (\<lambda>_. None)"
    using marks_ok_clear [OF inv(5)] assms(2) by simp
  show ?thesis
    using inv(1-3) ch clear assms(2)
    by (auto simp: case_chunk_data_almost_done_def step_macros pinv_eval data_keeps
        intro!: good_rules good_data)
qed

lemma good_chunk_data_done:
  assumes "switch_inv d e" and "p_state e = s_chunk_data_done"
  shows "good d e (case_chunk_data_done st e)"
proof -
  note inv = switch_invD [OF assms(1)]
  have ch: "has_flag (parser e) F_CHUNKED"
    using inv(4) assms(2) by (simp add: state_ok_def chunk_states_def)
  have mk: "marks e = (\<lambda>_. None)"
    using unmarked [OF inv(5)] assms(2) by (simp add: marked_states_def url_states_def)
  show ?thesis
    using inv(1-3) ch mk assms(2)
    by (auto simp: case_chunk_data_done_def step_macros pinv_eval
        intro!: good_rules good_notify intro: notify_keeps)
qed

end

subsection \<open>The switch as a whole\<close>

context parser_callbacks
begin

theorem good_switch:
  assumes "switch_inv d e" and "length d < 2 ^ 64"
  shows "good d e (switch (p_state e) st d e)"
proof -
  have lit: "good d e (expect_char c s e)"
    if "p_state e \<notin> marked_states" "s \<in> free_states" for c s
    using good_expect_char [OF assms(1) that] that(2) by (simp add: state_sets)
  note req = good_start_req good_req_method good_req_spaces_before_url good_req_http_start
    good_req_first_http_major good_req_http_major good_req_first_http_minor good_req_http_minor
    good_req_line_almost_done
  note res = good_start_res good_res_first_http_major good_res_http_major
    good_res_first_http_minor good_res_http_minor good_res_first_status_code good_res_status_code
    good_res_status_start good_res_status
  note hdr = good_header_field_start good_header_field good_header_value_discard_ws
    good_header_value_discard_lws good_header_value_start good_header_value good_header_value_lws
    good_headers_almost_done good_headers_done
  note body = good_chunk_size_start good_chunk_size good_chunk_parameters
    good_chunk_size_almost_done good_chunk_data_almost_done good_chunk_data_done
    good_body_identity_eof good_message_done
  note big = good_chunk_data [OF assms(1) _ assms(2)] good_body_identity [OF assms(1) _ assms(2)]
  note all = good_dead good_start_req_or_res good_res_or_resp_H req res hdr body
  show ?thesis
    using all [OF assms(1)] big lit good_req_schema [OF assms(1)] good_req_url [OF assms(1)]
    by (cases "p_state e") (simp_all add: marked_states_def url_states_def state_sets chunk_states_def)
qed

end

end
