(* ===== verification/Execute_Safety.thy ===== *)
theory Execute_Safety
  imports Body_Safety
begin

text \<open>
  \<open>http_parser_execute\<close> ends, never aborts, never counts more bytes than it was given and
  leaves a parser that satisfies the invariant: from the cases of the switch, by induction on
  the bytes that are left and, between two bytes, on the rank of the state.
\<close>

subsection \<open>The head of the loop\<close>

lemma state_ok_count:
  assumes "state_ok True s ps"
  shows "state_ok False s (if PARSING_HEADER s then ps\<lparr>nread := nread ps + 1\<rparr> else ps)"
  using assms
  by (cases "s = s_chunk_size_start")
    (auto simp: state_ok_def PARSING_HEADER_def chunk_states_def has_flag_def body_length_known_def)

lemma fetch_inv:
  assumes "loop_inv d e" and "pos e < length d"
  obtains (go) e' where "fetch d e = Next e'" "switch_inv d e'" "pos e' = pos e"
  | (overflow) e' where "fetch d e = Goto_error e'" "pos e' = pos e"
      "http_errno (parser e') = HPE_HEADER_OVERFLOW"
proof (cases "PARSING_HEADER (p_state e)")
  case True
  let ?e = "e\<lparr>ch := d ! pos e, parser := (parser e)\<lparr>nread := nread (parser e) + 1\<rparr>\<rparr>"
  have s: "state_ok False (p_state e) (parser ?e)"
    using assms(1) state_ok_count [of "p_state e" "parser e"] True
    by (simp add: loop_inv_def pinv_def)
  have eq: "fetch d e =
      (if nread (parser ?e) > of_nat HTTP_MAX_HEADER_SIZE then fail HPE_HEADER_OVERFLOW ?e
       else Next ?e)"
    using assms(2) True by (simp add: fetch_def Let_def COUNT_HEADER_SIZE_def upd_parser_def)
  show ?thesis
  proof (cases "nread (parser ?e) > of_nat HTTP_MAX_HEADER_SIZE")
    case True
    with eq have "fetch d e = Goto_error (SET_ERRNO HPE_HEADER_OVERFLOW ?e)"
      by (simp add: fail_def)
    then show ?thesis by (rule overflow) (simp_all add: SET_ERRNO_def)
  next
    case False
    with assms s have "switch_inv d ?e"
      by (simp add: loop_inv_def switch_inv_def pinv_def not_less bounds_ok_def)
    moreover from eq False have "fetch d e = Next ?e" by simp
    ultimately show ?thesis by (intro go [of ?e]) simp_all
  qed
next
  case False
  have "state_ok False (p_state e) (parser e)"
    using assms(1) state_ok_count [of "p_state e" "parser e"] False
    by (simp add: loop_inv_def pinv_def)
  with assms have "switch_inv d (e\<lparr>ch := d ! pos e\<rparr>)"
    by (simp add: loop_inv_def switch_inv_def pinv_def)
  moreover from assms(2) False have "fetch d e = Next (e\<lparr>ch := d ! pos e\<rparr>)"
    by (simp add: fetch_def)
  ultimately show ?thesis by (intro go [of "e\<lparr>ch := d ! pos e\<rparr>"]) simp_all
qed

subsection \<open>The loop\<close>

definition ends_well :: "string \<Rightarrow> 'u outcome \<Rightarrow> bool" where
  "ends_well d out \<longleftrightarrow>
     (case out of
        Next e \<Rightarrow> loop_inv d e \<and> pos e = length d
      | Goto_error e \<Rightarrow> pos e \<le> length d \<and> http_errno (parser e) \<notin> {HPE_OK, HPE_PAUSED}
      | Return n e \<Rightarrow>
          n \<le> length d \<and> parser_inv (parser e) \<and>
          (http_errno (parser e) \<noteq> HPE_OK \<or> upgrade (parser e))
      | _ \<Rightarrow> False)"

definition loop_measure :: "string \<Rightarrow> bool \<Rightarrow> 'u exec \<Rightarrow> nat" where
  "loop_measure d at_reexecute e =
     8 * (length d - pos e) + (if at_reexecute then rank (p_state e) else 4)"

lemma rank_le: "rank s \<le> 3"
  by (simp add: rank_def)

context parser_callbacks
begin

lemma exec_loop_total:
  assumes "if at_reexecute then switch_inv d e else loop_inv d e" and "length d < 2 ^ 64"
  shows "\<exists>out. exec_loop st d at_reexecute e = Some out \<and> ends_well d out"
  using assms(1)
proof (induction "loop_measure d at_reexecute e" arbitrary: at_reexecute e rule: less_induct)
  case less
  note simps = exec_loop.simps [of st d True e] exec_loop.simps [of st d False e]
  show ?case
  proof (cases at_reexecute)
    case True
    with less.prems have inv: "switch_inv d e" by simp
    have pos: "pos e < length d" by (rule switch_invD(1) [OF inv])
    have g: "good d e (switch (p_state e) st d e)" by (rule good_switch [OF inv assms(2)])
    show ?thesis
    proof (cases "switch (p_state e) st d e")
      case (Break e')
      with g have e': "pos e \<le> pos e'" "pos e' < length d" "loop_inv d (e'\<lparr>pos := pos e' + 1\<rparr>)"
        by (simp_all add: good_def)
      have "loop_measure d False (e'\<lparr>pos := pos e' + 1\<rparr>) < loop_measure d at_reexecute e"
        using True e'(1,2) by (simp add: loop_measure_def)
      from less.hyps [OF this] e'(3) show ?thesis by (simp add: simps True Break)
    next
      case (Reexecute e')
      with g have e': "pos e \<le> pos e'" "switch_inv d e'" "rank (p_state e') < rank (p_state e)"
        by (simp_all add: good_def)
      have "loop_measure d True e' < loop_measure d at_reexecute e"
        using True e'(1,3) by (simp add: loop_measure_def)
      from less.hyps [OF this] e'(2) show ?thesis by (simp add: simps True Reexecute)
    qed (use g in \<open>simp_all add: good_def ends_well_def simps True\<close>)
  next
    case False
    with less.prems have inv: "loop_inv d e" by simp
    show ?thesis
    proof (cases "pos e = length d")
      case True
      with inv False show ?thesis by (simp add: simps ends_well_def)
    next
      case ne: False
      with inv have pos: "pos e < length d" by (simp add: loop_inv_def)
      from fetch_inv [OF inv pos] show ?thesis
      proof cases
        case go: (1 e')
        have "loop_measure d True e' < loop_measure d at_reexecute e"
          using False go(3) rank_le [of "p_state e'"] by (simp add: loop_measure_def)
        from less.hyps [OF this] go(2) show ?thesis by (simp add: simps False ne go(1))
      next
        case (2 e')
        with pos show ?thesis by (simp add: simps False ne ends_well_def)
      qed
    qed
  qed
qed

end

subsection \<open>Entry and exit\<close>

lemma enter_inv:
  assumes "parser_inv ps" and "http_errno ps = HPE_OK"
  shows "loop_inv d (enter ps w)"
  using assms
  by (auto simp: loop_inv_def enter_def parser_inv_def entry_marks_def url_states_def marks_ok_def
      split: if_splits)

text \<open>What a call promises.\<close>

definition call_ok :: "string \<Rightarrow> 'u exec_result \<Rightarrow> bool" where
  "call_ok d r \<longleftrightarrow>
     (case r of
        Aborted \<Rightarrow> False
      | Returned n ps w \<Rightarrow>
          parser_inv ps \<and> n \<le> max 1 (length d) \<and>
          (n < length d \<longrightarrow> http_errno ps \<noteq> HPE_OK \<or> upgrade ps) \<and>
          (n > length d \<longrightarrow> http_errno ps = HPE_INVALID_EOF_STATE))"

definition returns_ok :: "string \<Rightarrow> 'u outcome \<Rightarrow> bool" where
  "returns_ok d out \<longleftrightarrow>
     (\<exists>n e. out = Return n e \<and> n \<le> length d \<and> parser_inv (parser e) \<and>
        (n < length d \<longrightarrow> http_errno (parser e) \<noteq> HPE_OK \<or> upgrade (parser e)))"

lemma call_ok_result:
  "returns_ok d (case out of Next e \<Rightarrow> finish st d e | Goto_error e \<Rightarrow> error_exit e
     | Break e \<Rightarrow> Abort | Reexecute e \<Rightarrow> Abort | Return n e \<Rightarrow> Return n e | Abort \<Rightarrow> Abort) \<Longrightarrow>
   call_ok d (result_of st d out)"
  by (auto simp: returns_ok_def call_ok_def result_of_def)

context parser_callbacks
begin

lemma flush_rule:
  assumes "http_errno (parser e) = HPE_OK" and "pinv True (p_state e) (parser e)"
    and "pos e = length d"
    and "\<And>e'. http_errno (parser e') = HPE_OK \<Longrightarrow> pinv True (p_state e') (parser e') \<Longrightarrow>
      pos e' = length d \<Longrightarrow> returns_ok d (k e')"
  shows "returns_ok d (seq (CALLBACK_DATA_NOADVANCE st d m e) k)"
  unfolding CALLBACK_DATA_NOADVANCE_def
  by (rule data_rule [where P = "returns_ok d"])
    (use assms data in \<open>auto simp: returns_ok_def parser_inv_def\<close>)

lemma finish_ok:
  assumes "loop_inv d e" and "pos e = length d"
  shows "returns_ok d (finish st d e)"
proof -
  have "mark_count e \<le> 1" using assms(1) marks_ok_count [of e] by (simp add: loop_inv_def)
  then show ?thesis
    using assms unfolding finish_def assert_that_def
    by (simp, intro flush_rule)
      (auto simp: loop_inv_def RETURN_def returns_ok_def parser_inv_def)
qed

lemma call_ok_eof:
  assumes "parser_inv ps" and "http_errno ps = HPE_OK"
  shows "call_ok [] (execute_eof st ps w)"
proof (cases "state ps = s_body_identity_eof")
  case False
  then show ?thesis using assms by (auto simp: execute_eof_def call_ok_def parser_inv_def)
next
  case True
  show ?thesis
  proof (cases "on_message_complete st")
    case None
    with True assms show ?thesis
      by (simp add: execute_eof_def call_ok_def CALLBACK_NOTIFY_NOADVANCE_def CALLBACK_NOTIFY_ER_def)
  next
    case (Some f)
    let ?e = "\<lparr>parser = ps, world = w, p_state = state ps, pos = 0, ch = NUL,
        marks = (\<lambda>_. None)\<rparr>"
    obtain er w' where rc: "run_callback f HPE_CB_message_complete 0 ?e =
      (let e' = ?e\<lparr>parser := ps\<lparr>state := state ps, http_errno := er\<rparr>, world := w'\<rparr>
       in if er \<noteq> HPE_OK then Return 0 e' else Next e')"
      using run_callback_keeps [OF notify_keeps(2) [OF Some], of HPE_CB_message_complete 0 ?e]
      by auto
    have "pinv True (state ps) ps" using assms by (simp add: parser_inv_def)
    with True Some rc assms(2) show ?thesis
      by (simp add: execute_eof_def call_ok_def CALLBACK_NOTIFY_NOADVANCE_def CALLBACK_NOTIFY_ER_def
          Let_def parser_inv_def)
  qed
qed

theorem execute_total:
  assumes "parser_inv ps" and "length d < 2 ^ 64"
  shows "\<exists>r. http_parser_execute st ps d w = Some r \<and> call_ok d r"
proof (cases "http_errno ps = HPE_OK")
  case False
  with assms(1) show ?thesis by (simp add: http_parser_execute_def call_ok_def)
next
  case ok: True
  show ?thesis
  proof (cases "d = []")
    case True
    with ok call_ok_eof [OF assms(1) ok] show ?thesis by (simp add: http_parser_execute_def)
  next
    case False
    obtain out where out: "exec_loop st d False (enter ps w) = Some out" "ends_well d out"
      using exec_loop_total [of False d "enter ps w"] enter_inv [OF assms(1) ok, of d w] assms(2) by auto
    have "call_ok d (result_of st d out)"
    proof (rule call_ok_result, cases out)
      case (Next e)
      with out(2) finish_ok [of d e] show "returns_ok d (case out of Next e \<Rightarrow> finish st d e
          | Goto_error e \<Rightarrow> error_exit e | Break e \<Rightarrow> Abort | Reexecute e \<Rightarrow> Abort
          | Return n e \<Rightarrow> Return n e | Abort \<Rightarrow> Abort)"
        by (simp add: ends_well_def)
    qed (use out(2) in \<open>auto simp: ends_well_def error_exit_def RETURN_def returns_ok_def
        parser_inv_def\<close>)
    with out(1) ok False show ?thesis by (simp add: http_parser_execute_def)
  qed
qed

end

text \<open>
  The life of a parser over many calls: created by \<open>http_parser_init\<close>, run on one buffer
  after the other, paused and resumed. And single steps of the loop, for theorems that
  follow it through a part of a buffer.
\<close>

subsection \<open>Sessions\<close>

inductive session :: "'u http_parser_settings \<Rightarrow> http_parser \<Rightarrow> bool"
  for st :: "'u http_parser_settings" where
  session_init: "session st (http_parser_init t)"
| session_execute:
    "session st ps \<Longrightarrow> length d < 2 ^ 64 \<Longrightarrow>
     http_parser_execute st ps d w = Some (Returned n ps' w') \<Longrightarrow> session st ps'"
| session_pause:
    "session st ps \<Longrightarrow> http_parser_pause ps paused = Some ps' \<Longrightarrow> session st ps'"



lemma parser_inv_init: "parser_inv (http_parser_init t)"
  by (cases t) (simp_all add: parser_inv_def http_parser_init_def pinv_def bounds_ok_def state_ok_def
      chunk_states_def)

lemma parser_inv_pause:
  assumes "parser_inv ps" and "http_parser_pause ps b = Some ps'"
  shows "parser_inv ps'"
proof -
  have ok: "http_errno ps \<in> {HPE_OK, HPE_PAUSED}"
    and ps': "ps' = ps\<lparr>http_errno := (if b then HPE_PAUSED else HPE_OK)\<rparr>"
    using assms(2) by (auto simp: http_parser_pause_def split: if_splits)
  then have "pinv True (state ps) ps" using assms(1) by (simp add: parser_inv_def)
  then show ?thesis by (simp add: ps' parser_inv_def)
qed

lemma settings_init_callbacks: "parser_callbacks http_parser_settings_init"
proof
  show "Some f \<in> set (notify_callbacks http_parser_settings_init) \<Longrightarrow> keeps_parser f" for f
    by (simp add: notify_callbacks_def http_parser_settings_init_def)
  show "data_callback m http_parser_settings_init = Some g \<Longrightarrow> keeps_parser (g s)" for m g s
    by (cases m) (simp_all add: http_parser_settings_init_def)
qed

context parser_callbacks
begin

lemma execute_call:
  assumes "parser_inv ps" and "length d < 2 ^ 64"
  obtains n ps' w' where "http_parser_execute st ps d w = Some (Returned n ps' w')"
    "parser_inv ps'" "n \<le> max 1 (length d)"
    "n < length d \<Longrightarrow> http_errno ps' \<noteq> HPE_OK \<or> upgrade ps'"
proof -
  obtain r where r: "http_parser_execute st ps d w = Some r" "call_ok d r"
    using execute_total [OF assms] by blast
  then show ?thesis by (cases r) (auto simp: call_ok_def intro: that)
qed

lemma session_inv: "session st ps \<Longrightarrow> parser_inv ps"
proof (induction rule: session.induct)
  case (session_init t)
  show ?case by (rule parser_inv_init)
next
  case (session_execute ps d w n ps' w')
  then show ?case by (metis execute_call exec_result.inject option.inject)
next
  case (session_pause ps paused ps')
  then show ?case by (metis parser_inv_pause)
qed

end

subsection \<open>Steps of the loop\<close>

definition fetched :: "string \<Rightarrow> 'u exec \<Rightarrow> 'u exec" where
  "fetched d e =
     e\<lparr>ch := d ! pos e, parser := (parser e)\<lparr>nread := nread (parser e) + 1\<rparr>\<rparr>"

lemma exec_loop_header_step:
  assumes "pos e < length d" and "PARSING_HEADER (p_state e)"
    and "unat (nread (parser e)) < HTTP_MAX_HEADER_SIZE"
    and "switch (p_state e) st d (fetched d e) = Break e'"
  shows "exec_loop st d False e = exec_loop st d False (e'\<lparr>pos := pos e' + 1\<rparr>)"
proof -
  have "unat (nread (parser e) + 1) = unat (nread (parser e)) + 1"
    using assms(3) by (simp add: unat_word_ariths HTTP_MAX_HEADER_SIZE_def)
  then have "\<not> nread (parser e) + 1 > of_nat HTTP_MAX_HEADER_SIZE"
    using assms(3) by (simp add: word_less_nat_alt HTTP_MAX_HEADER_SIZE_def)
  then have "fetch d e = Next (fetched d e)"
    using assms(1,2)
    by (simp add: fetch_def fetched_def Let_def COUNT_HEADER_SIZE_def upd_parser_def)
  then show ?thesis
    using assms(1,4)
    by (simp add: exec_loop.simps [of st d False e] exec_loop.simps [of st d True "fetched d e"])
      (simp add: fetched_def)
qed

end
