(* ===== verification/Header_Name.thy ===== *)
theory Header_Name
  imports Header_Lines "HOL-Library.Sublist"
begin

text \<open>
  The loop over a header name recognises names on the fly, one character at a time, in
  thirteen values of \<open>header_state\<close> and an 8-bit index. It is shown to compute a function of
  the name alone: the comparison of the whole, lower-cased name with five literals.
\<close>

definition name_literals :: "string list" where
  "name_literals = [CONNECTION, PROXY_CONNECTION, CONTENT_LENGTH, TRANSFER_ENCODING, UPGRADE]"

text \<open>What the code makes of a whole name, given in lower case.\<close>

definition header_kind :: "string \<Rightarrow> header_states" where
  "header_kind s =
     (if s = CONNECTION \<or> s = PROXY_CONNECTION then h_connection
      else if s = CONTENT_LENGTH then h_content_length
      else if s = TRANSFER_ENCODING then h_transfer_encoding
      else if s = UPGRADE then h_upgrade
      else h_general)"

text \<open>A state of the matcher that does not end in one of the four special kinds.\<close>

definition settle :: "header_states \<Rightarrow> header_states" where
  "settle h =
     (if h \<in> {h_connection, h_content_length, h_transfer_encoding, h_upgrade} then h
      else h_general)"

definition no_literal :: "string \<Rightarrow> bool" where
  "no_literal s \<longleftrightarrow> (\<forall>l \<in> set name_literals. \<not> prefix s l)"

definition matching :: "nat \<Rightarrow> string \<Rightarrow> string \<Rightarrow> http_parser \<Rightarrow> bool" where
  "matching k l s ps \<longleftrightarrow>
     prefix s l \<and> length s < length l \<and> k \<le> length s \<and> unat (index ps) + 1 = length s"

text \<open>What each state of the matcher says about the part of the name read so far.\<close>

definition tracks :: "string \<Rightarrow> http_parser \<Rightarrow> bool" where
  "tracks s ps \<longleftrightarrow>
     (case header_state ps of
        h_general \<Rightarrow> no_literal s
      | h_C \<Rightarrow> s = ''c'' \<and> index ps = 0
      | h_CO \<Rightarrow> s = ''co'' \<and> index ps = 1
      | h_CON \<Rightarrow> s = ''con'' \<and> index ps = 2
      | h_matching_connection \<Rightarrow> matching 4 CONNECTION s ps
      | h_matching_proxy_connection \<Rightarrow> matching 1 PROXY_CONNECTION s ps
      | h_matching_content_length \<Rightarrow> matching 4 CONTENT_LENGTH s ps
      | h_matching_transfer_encoding \<Rightarrow> matching 1 TRANSFER_ENCODING s ps
      | h_matching_upgrade \<Rightarrow> matching 1 UPGRADE s ps
      | h_connection \<Rightarrow> s = CONNECTION \<or> s = PROXY_CONNECTION
      | h_content_length \<Rightarrow> s = CONTENT_LENGTH
      | h_transfer_encoding \<Rightarrow> s = TRANSFER_ENCODING
      | h_upgrade \<Rightarrow> s = UPGRADE
      | _ \<Rightarrow> False)"

text \<open>A prefix long enough to tell the five literals apart belongs to one of them.\<close>

lemma two_prefixes: "prefix s a \<Longrightarrow> prefix s b \<Longrightarrow> k \<le> length s \<Longrightarrow> take k a = take k b"
  by (auto simp: prefix_def)

lemma no_literal_append: "no_literal s \<Longrightarrow> no_literal (s @ t)"
  by (auto simp: no_literal_def dest: append_prefixD)

lemma no_literal_other:
  assumes "prefix s l" and "k \<le> length s" and "length s < length l" and "c \<noteq> l ! length s"
    and "\<forall>l' \<in> set name_literals. take k l' = take k l \<longrightarrow> l' = l"
  shows "no_literal (s @ [c])"
  unfolding no_literal_def
proof (intro ballI notI)
  fix l' assume l': "l' \<in> set name_literals" "prefix (s @ [c]) l'"
  then have "prefix s l'" by (simp add: append_prefixD)
  from two_prefixes [OF this assms(1,2)] l'(1) assms(5) have "l' = l" by blast
  with l'(2) assms(4) show False by (auto simp: prefix_def)
qed

lemma long_not_literal:
  assumes "l \<in> set name_literals" and "\<forall>l' \<in> set name_literals. prefix l l' \<longrightarrow> l' = l"
  shows "no_literal (l @ [c])"
  using assms by (auto simp: no_literal_def dest: append_prefixD)

lemma prefix_snoc:
  assumes "prefix s l" and "length s < length l"
  shows "prefix (s @ [l ! length s]) l"
  using assms by (auto simp: prefix_def nth_append Cons_nth_drop_Suc neq_Nil_conv)

subsection \<open>One character\<close>

lemma match_field_tracks:
  assumes "matching k l s ps" and "length l \<le> 20" and "c \<noteq> NUL"
  shows "match_field l hit c ps = Some (ps\<lparr>index := index ps + 1, header_state :=
      (if c \<noteq> l ! length s then h_general else if Suc (length s) = length l then hit
       else header_state ps)\<rparr>)"
    and "unat (index ps + 1) = length s"
proof -
  show i: "unat (index ps + 1) = length s"
    using assms(1,2) by (simp add: matching_def unat_word_ariths)
  show "match_field l hit c ps = Some (ps\<lparr>index := index ps + 1, header_state :=
      (if c \<noteq> l ! length s then h_general else if Suc (length s) = length l then hit
       else header_state ps)\<rparr>)"
    using assms(1) i
    by (auto simp: match_field_def match_literal_def matching_def lit_at_def Let_def)
qed

lemma matching_step:
  assumes "matching k l s ps" and "length l \<le> 20" and "c \<noteq> NUL"
    and "\<forall>l' \<in> set name_literals. take k l' = take k l \<longrightarrow> l' = l"
  obtains ps' where "match_field l hit c ps = Some ps'"
    "header_state ps' = h_general \<and> no_literal (s @ [c]) \<or>
     header_state ps' = hit \<and> s @ [c] = l \<or>
     header_state ps' = header_state ps \<and> matching k l (s @ [c]) ps'"
proof -
  note m = match_field_tracks [OF assms(1-3)]
  have s: "prefix s l" "k \<le> length s" "length s < length l"
    using assms(1) by (simp_all add: matching_def)
  show ?thesis
  proof (cases "c = l ! length s")
    case False
    show ?thesis
      by (rule that [OF m(1)]) (simp add: False no_literal_other [OF s False assms(4)])
  next
    case True
    with s prefix_snoc have p: "prefix (s @ [c]) l" by blast
    show ?thesis
    proof (cases "Suc (length s) = length l")
      case len: True
      with p have "s @ [c] = l" by (auto simp: prefix_def)
      then show ?thesis by (intro that [OF m(1)]) (simp add: True len)
    next
      case False
      with p s m(2) have "matching k l (s @ [c]) (ps\<lparr>index := index ps + 1\<rparr>)"
        by (simp add: matching_def)
      then show ?thesis by (intro that [OF m(1)]) (simp add: True False matching_def)
    qed
  qed
qed

lemma settle_tracks:
  assumes "tracks s ps"
  shows "settle (header_state ps) = header_kind s"
proof -
  have general: "header_kind s = h_general" if "no_literal s"
    using that by (auto simp: no_literal_def name_literals_def header_kind_def)
  have short: "header_kind s = h_general"
    if "matching k l s ps" "l \<in> set name_literals" "\<forall>l' \<in> set name_literals. take k l' = take k l \<longrightarrow> l' = l"
    for k l
  proof -
    have "s \<noteq> l'" if "l' \<in> set name_literals" for l'
    proof
      assume "s = l'"
      with \<open>matching k l s ps\<close> have "prefix l' l" "length l' < length l" "k \<le> length l'"
        by (simp_all add: matching_def)
      then have "take k l' = take k l" using two_prefixes [of l' l l' k] by simp
      with that \<open>\<forall>l' \<in> set name_literals. _\<close> have "l' = l" by blast
      with \<open>length l' < length l\<close> show False by simp
    qed
    then show ?thesis by (simp add: name_literals_def header_kind_def)
  qed
  show ?thesis
    using assms general short [of 4 CONNECTION] short [of 1 PROXY_CONNECTION]
      short [of 4 CONTENT_LENGTH] short [of 1 TRANSFER_ENCODING] short [of 1 UPGRADE]
    by (cases "header_state ps")
      (auto simp: tracks_def settle_def name_literals_def literal_defs header_kind_def)
qed

lemma tracks_first:
  assumes "header_state ps = first_header_state c" and "index ps = 0"
  shows "tracks [c] ps"
  using assms
  by (auto simp: tracks_def first_header_state_def matching_def no_literal_def name_literals_def
      literal_defs)

lemma tracks_step:
  assumes "tracks s ps" and "x \<noteq> SP" and "c \<noteq> NUL"
  shows "\<exists>ps'. header_field_char x c ps = Some ps' \<and> tracks (s @ [c]) ps'"
proof -
  have step: "\<exists>ps'. match_field l hit c ps = Some ps' \<and> tracks (s @ [c]) ps'"
    if m: "matching k l s ps" "length l \<le> 20"
      "\<forall>l' \<in> set name_literals. take k l' = take k l \<longrightarrow> l' = l"
      and hit: "\<And>ps'. header_state ps' = hit \<Longrightarrow> s @ [c] = l \<Longrightarrow> tracks (s @ [c]) ps'"
      and go: "\<And>ps'. header_state ps' = header_state ps \<Longrightarrow> matching k l (s @ [c]) ps' \<Longrightarrow>
        tracks (s @ [c]) ps'"
    for k l hit
  proof -
    obtain ps' where ps': "match_field l hit c ps = Some ps'"
      "header_state ps' = h_general \<and> no_literal (s @ [c]) \<or>
       header_state ps' = hit \<and> s @ [c] = l \<or>
       header_state ps' = header_state ps \<and> matching k l (s @ [c]) ps'"
      using matching_step [OF m(1,2) assms(3) m(3)] .
    have "no_literal (s @ [c]) \<Longrightarrow> header_state ps' = h_general \<Longrightarrow> tracks (s @ [c]) ps'"
      by (simp add: tracks_def)
    with ps' hit go show ?thesis by blast
  qed
  note lits = name_literals_def literal_defs
  show ?thesis
  proof (cases "header_state ps")
    case h_matching_connection
    with assms(1) step [of 4 CONNECTION h_connection] show ?thesis
      by (simp add: tracks_def header_field_char_def lits)
  next
    case h_matching_proxy_connection
    with assms(1) step [of 1 PROXY_CONNECTION h_connection] show ?thesis
      by (simp add: tracks_def header_field_char_def lits)
  next
    case h_matching_content_length
    with assms(1) step [of 4 CONTENT_LENGTH h_content_length] show ?thesis
      by (simp add: tracks_def header_field_char_def lits)
  next
    case h_matching_transfer_encoding
    with assms(1) step [of 1 TRANSFER_ENCODING h_transfer_encoding] show ?thesis
      by (simp add: tracks_def header_field_char_def lits)
  next
    case h_matching_upgrade
    with assms(1) step [of 1 UPGRADE h_upgrade] show ?thesis
      by (simp add: tracks_def header_field_char_def lits)
  next
    case h_general
    with assms(1) no_literal_append [of s "[c]"] show ?thesis
      by (simp add: tracks_def header_field_char_def)
  qed (use assms(1,2) in \<open>auto simp: tracks_def header_field_char_def lits no_literal_def
      matching_def\<close>)
qed

subsection \<open>The whole name\<close>

lemma TOKEN_not_SP: "TOKEN x \<noteq> NUL \<Longrightarrow> x \<noteq> SP"
  by auto

lemma header_field_loop_tracks:
  assumes "tracks s ps" and "\<forall>x \<in> set xs. TOKEN x \<noteq> NUL"
  shows "\<exists>ps'. header_field_loop (xs @ ys) ps n x0 =
      header_field_loop ys ps' (n + length xs) (last (x0 # xs)) \<and> tracks (s @ map TOKEN xs) ps'"
  using assms
proof (induction xs arbitrary: s ps n x0)
  case (Cons x xs)
  from Cons.prems TOKEN_not_SP [of x] tracks_step [of s ps x "TOKEN x"] obtain ps1
    where "header_field_char x (TOKEN x) ps = Some ps1" "tracks (s @ [TOKEN x]) ps1" by auto
  with Cons.IH [of "s @ [TOKEN x]" ps1 "Suc n" x] Cons.prems(2) show ?case by simp
qed auto

lemma header_field_loop_split:
  "header_field_loop (xs @ ys) ps n x0 =
     (case header_field_loop xs ps n x0 of
        None \<Rightarrow> None
      | Some (ps', m, c) \<Rightarrow>
          if m < n + length xs then Some (ps', m, c) else header_field_loop ys ps' m c)"
proof (induction xs arbitrary: ps n x0)
  case (Cons x xs)
  show ?case
    using Cons.IH [of _ "Suc n" x] by (auto split: option.splits)
qed simp

text \<open>The name, up to the colon, and what the parser then makes of the first byte of the value.\<close>

lemma header_field_loop_name:
  assumes "TOKEN x \<noteq> NUL" and "\<forall>c \<in> set xs. TOKEN c \<noteq> NUL"
    and "header_state ps = first_header_state (TOKEN x)" and "index ps = 0"
  obtains ps' where "header_field_loop (xs @ CHR '':'' # rest) ps 0 x =
      Some (ps', length xs, CHR '':'')"
    and "settle (header_state ps') = header_kind (map TOKEN (x # xs))"
    and "header_state ps' \<noteq> h_matching_connection_token_start"
proof -
  have "tracks [TOKEN x] ps" using assms by (intro tracks_first) simp_all
  then obtain ps' where ps': "header_field_loop (xs @ CHR '':'' # rest) ps 0 x =
      header_field_loop (CHR '':'' # rest) ps' (length xs) (last (x # xs))"
    "tracks ([TOKEN x] @ map TOKEN xs) ps'"
    using header_field_loop_tracks [of "[TOKEN x]" ps xs "CHR '':'' # rest" 0 x] assms by auto
  have "header_state ps' \<noteq> h_matching_connection_token_start"
    using ps'(2) by (auto simp: tracks_def)
  with ps' settle_tracks [OF ps'(2)] that [of ps'] show ?thesis by simp
qed

lemma header_value_first_settle:
  assumes "header_state ps \<noteq> h_matching_connection_token_start"
  shows "header_value_first v ps = header_value_first v (ps\<lparr>header_state := settle (header_state ps)\<rparr>)"
  using assms
  by (cases "header_state ps") (simp_all add: header_value_first_def settle_def add_flag_def Let_def)

lemma header_field_loop_last:
  "header_field_loop (a # as) ps n x = header_field_loop (a # as) ps n y"
  by simp

text \<open>The loop writes the two fields of the matcher only.\<close>

lemma header_field_char_frame:
  "header_field_char x c ps = Some ps' \<Longrightarrow>
     ps' = ps\<lparr>index := index ps', header_state := header_state ps'\<rparr>"
  by (cases "header_state ps")
    (auto simp: header_field_char_def match_field_def Let_def split: if_splits)

lemma header_field_loop_frame:
  "header_field_loop xs ps n x = Some (ps', m, c) \<Longrightarrow>
     ps' = ps\<lparr>index := index ps', header_state := header_state ps'\<rparr>"
proof (induction xs arbitrary: ps n x)
  case (Cons y ys)
  show ?case
  proof (cases "TOKEN y = NUL")
    case False
    with Cons.prems obtain ps1 where ps1: "header_field_char y (TOKEN y) ps = Some ps1"
      "header_field_loop ys ps1 (Suc n) y = Some (ps', m, c)" by (auto split: option.splits)
    then have "ps' = ps1\<lparr>index := index ps', header_state := header_state ps'\<rparr>"
      by (intro Cons.IH)
    also have "\<dots> = ps\<lparr>index := index ps', header_state := header_state ps'\<rparr>"
      by (subst header_field_char_frame [OF ps1(1)]) simp
    finally show ?thesis .
  qed (use Cons.prems in auto)
qed auto

end
