(* ===== verification/Header_Value.thy ===== *)
theory Header_Value
  imports Header_Lines "HOL-Library.Sublist"
begin

text \<open>
  The loop over a header value: its skip with \<open>memchr\<close> is shown equal to a loop over the
  single bytes; on top of that loop, what it makes of a \<open>Content-Length\<close> and of a
  \<open>Transfer-Encoding\<close>.
\<close>

subsection \<open>The loop, one byte at a time\<close>

fun value_loop_ref ::
  "string \<Rightarrow> nat \<Rightarrow> header_states \<Rightarrow> http_parser \<Rightarrow> value_stop \<times> nat \<times> header_states \<times> http_parser"
where
  "value_loop_ref [] p h ps = (Stop_end, p, h, ps)"
| "value_loop_ref (x # xs) p h ps =
     (if x = CR then (Stop_CR, p, h, ps)
      else if x = LF then (Stop_LF, p, h, ps)
      else case header_value_char x h ps of
             Value_next h' ps' \<Rightarrow> value_loop_ref xs (Suc p) h' ps'
           | Value_bad \<Rightarrow> (Stop_bad, p, h, ps)
           | Value_abort \<Rightarrow> (Stop_abort, p, h, ps))"

lemma header_value_char_general [simp]: "header_value_char x h_general ps = Value_next h_general ps"
  by (simp add: header_value_char_def)

lemma value_loop_ref_general:
  "\<forall>x \<in> set xs. x \<noteq> CR \<and> x \<noteq> LF \<Longrightarrow>
     value_loop_ref (xs @ ys) p h_general ps = value_loop_ref ys (p + length xs) h_general ps"
  by (induction xs arbitrary: p) simp_all

text \<open>The skip goes to the first line end, or to the end of the buffer.\<close>

lemma general_skip_spec:
  assumes "p \<le> length d" and "length d - p \<le> HTTP_MAX_HEADER_SIZE" and "q = general_skip d p"
  shows "p \<le> q" "q \<le> length d"
    "\<And>i. p \<le> i \<Longrightarrow> i < q \<Longrightarrow> d ! i \<noteq> CR \<and> d ! i \<noteq> LF"
proof -
  let ?xs = "drop p d"
  have xs: "take (min (length d - p) HTTP_MAX_HEADER_SIZE) ?xs = ?xs"
    using assms(2) by (simp add: min_def)
  have skip: "q =
      (case memchr CR ?xs of
         Some a \<Rightarrow> (case memchr LF ?xs of Some b \<Rightarrow> p + min a b | None \<Rightarrow> p + a)
       | None \<Rightarrow> (case memchr LF ?xs of Some b \<Rightarrow> p + b | None \<Rightarrow> length d))"
    unfolding assms(3) general_skip_def Let_def xs by (auto split: option.split simp: min_def)
  have some: "i < length d - p \<and> (\<forall>j<i. d ! (p + j) \<noteq> c)" if "memchr c ?xs = Some i" for c i
    using memchr_Some [OF that] assms(1) by simp
  have none: "\<forall>j<length d - p. d ! (p + j) \<noteq> c" if "memchr c ?xs = None" for c
    using that assms(1) memchr_None [of c ?xs] by (auto simp: in_set_conv_nth)
  have "p \<le> q \<and> q \<le> length d \<and> (\<forall>j<q - p. d ! (p + j) \<noteq> CR \<and> d ! (p + j) \<noteq> LF)"
    using skip assms(1) some [of CR] some [of LF] none [of CR] none [of LF]
    by (cases "memchr CR ?xs"; cases "memchr LF ?xs") auto
  moreover have "i = p + (i - p) \<and> i - p < q - p" if "p \<le> i" "i < q" for i
    using that by simp
  ultimately show "p \<le> q" "q \<le> length d"
    "\<And>i. p \<le> i \<Longrightarrow> i < q \<Longrightarrow> d ! i \<noteq> CR \<and> d ! i \<noteq> LF" by metis+
qed

lemma value_loop_ref_skip:
  assumes "p \<le> length d" and "length d - p \<le> HTTP_MAX_HEADER_SIZE"
  shows "value_loop_ref (drop p d) p h_general ps =
    value_loop_ref (drop (general_skip d p) d) (general_skip d p) h_general ps"
proof -
  let ?q = "general_skip d p"
  note q = general_skip_spec [OF assms refl]
  have split: "drop p d = take (?q - p) (drop p d) @ drop ?q d"
    using q(1) by (metis append_take_drop_id drop_drop le_add_diff_inverse2)
  have len: "length (take (?q - p) (drop p d)) = ?q - p" using q(2) by simp
  have "\<forall>x \<in> set (take (?q - p) (drop p d)). x \<noteq> CR \<and> x \<noteq> LF"
  proof
    fix x assume "x \<in> set (take (?q - p) (drop p d))"
    then obtain j where "j < ?q - p" "x = d ! (p + j)"
      using q(1,2) assms(1) by (auto simp: in_set_conv_nth)
    with q(3) [of "p + j"] show "x \<noteq> CR \<and> x \<noteq> LF" by simp
  qed
  from value_loop_ref_general [OF this, of "drop ?q d" p ps] len q(1) split
  show ?thesis by simp
qed

definition drop_char ::
  "value_stop \<times> nat \<times> header_states \<times> http_parser \<times> char
   \<Rightarrow> value_stop \<times> nat \<times> header_states \<times> http_parser" where
  "drop_char r = (case r of (stop, p, h, ps, c) \<Rightarrow> (stop, p, h, ps))"

lemma header_value_loop_ref:
  assumes "p \<le> length d" and "length d - p \<le> HTTP_MAX_HEADER_SIZE"
  shows "drop_char (header_value_loop d p h ps c0) = value_loop_ref (drop p d) p h ps"
  using assms
proof (induction d p h ps c0 rule: header_value_loop.induct)
  case (1 d p h ps c0)
  let ?c = "d ! p"
  show ?case
  proof (cases "length d \<le> p")
    case True
    then show ?thesis by (simp add: header_value_loop.simps [of d p] drop_char_def)
  next
    case p: False
    then have dr: "drop p d = ?c # drop (Suc p) d" by (simp add: Cons_nth_drop_Suc)
    show ?thesis
    proof (cases "?c = CR \<or> ?c = LF")
      case True
      with p show ?thesis
        by (subst header_value_loop.simps) (auto simp: drop_char_def dr Let_def)
    next
      case False
      then have c: "?c \<noteq> CR" "?c \<noteq> LF" by simp_all
      show ?thesis
      proof (cases "h = h_general")
        case True
        have skip: "p < general_skip d p" "general_skip d p \<le> length d"
          using general_skip_gt [of p d] general_skip_spec(2) [OF "1.prems" refl] p c by simp_all
        have "drop_char (header_value_loop d (Suc (general_skip d p - 1)) h ps ?c) =
            value_loop_ref (drop (general_skip d p) d) (general_skip d p) h ps"
          using "1.IH"(1) [OF p refl c True] skip "1.prems" by simp
        then show ?thesis
          using value_loop_ref_skip [OF "1.prems", of ps] p c True
          by (subst header_value_loop.simps) (simp add: Let_def)
      next
        case ng: False
        show ?thesis
          using "1.IH"(2) [OF p refl c ng] "1.prems" p c ng
          by (subst header_value_loop.simps)
            (simp add: Let_def dr drop_char_def split: value_step.split)
      qed
    qed
  qed
qed

subsection \<open>Content-Length\<close>

text \<open>The largest value to which the code still appends a digit.\<close>

definition length_limit :: nat where
  "length_limit = (2 ^ 64 - 11) div 10"

lemma content_length_digit_value:
  assumes "IS_NUM c"
  shows "content_length_digit c ps =
    (if length_limit < unat (content_length ps) then Value_bad
     else Value_next h_content_length
       (ps\<lparr>content_length := of_nat (unat (content_length ps) * 10 + decimal_digit c)\<rparr>))"
proof -
  have "unat ((ULLONG_MAX - 10) div 10) = length_limit"
    by (simp add: ULLONG_MAX_def unat_div length_limit_def)
  moreover have "c \<noteq> SP" using assms by (auto simp: IS_NUM_def)
  ultimately show ?thesis
    using assms
    by (simp add: content_length_digit_def word_less_nat_alt digit_of_nat decimal_digit_def)
qed

lemma decimal_small: "v \<le> length_limit \<Longrightarrow> IS_NUM c \<Longrightarrow> v * 10 + decimal_digit c < 2 ^ 64 - 1"
  using IS_NUM_small [of c] by (simp add: length_limit_def decimal_digit_def)

lemma IS_NUM_no_eol: "IS_NUM c \<Longrightarrow> c \<noteq> CR \<and> c \<noteq> LF"
  by (auto simp: IS_NUM_def)

text \<open>Digits that fit are read as a decimal number; nothing wraps round.\<close>

lemma value_loop_digits:
  assumes "\<forall>c \<in> set ds. IS_NUM c" and "unat (content_length ps) = v"
    and "ds = [] \<or> decimal_from v (butlast ds) \<le> length_limit"
  shows "value_loop_ref (ds @ xs) p h_content_length ps =
      value_loop_ref xs (p + length ds) h_content_length
        (ps\<lparr>content_length := of_nat (decimal_from v ds)\<rparr>)"
  using assms
proof (induction ds arbitrary: ps v p)
  case (Cons c ds)
  have le: "v \<le> length_limit"
    using Cons.prems(3) decimal_from_ge [of v "butlast (c # ds)"] by simp
  let ?v = "v * 10 + decimal_digit c"
  let ?ps = "ps\<lparr>content_length := of_nat ?v\<rparr>"
  have u: "unat (content_length ?ps) = ?v"
    using unat_of_nat_64 [of ?v] decimal_small [OF le, of c] Cons.prems(1)
    by (simp del: of_nat_add of_nat_mult)
  have "value_loop_ref ((c # ds) @ xs) p h_content_length ps =
      value_loop_ref (ds @ xs) (Suc p) h_content_length ?ps"
    using Cons.prems le IS_NUM_no_eol [of c]
    by (simp add: header_value_char_def content_length_digit_value Let_def)
  also have "\<dots> = value_loop_ref xs (Suc p + length ds) h_content_length
      (?ps\<lparr>content_length := of_nat (decimal_from ?v ds)\<rparr>)"
    using Cons.prems(1,3) by (intro Cons.IH [OF _ u]) (auto split: if_splits)
  finally show ?case by simp
next
  case Nil
  then have "ps\<lparr>content_length := of_nat v\<rparr> = ps" by (simp flip: Nil(2))
  then show ?case by simp
qed

text \<open>Digits that do not fit are rejected.\<close>

lemma value_loop_overflow:
  assumes "\<forall>c \<in> set ds. IS_NUM c" and "unat (content_length ps) = v"
    and "ds \<noteq> []" and "length_limit < decimal_from v (butlast ds)"
  shows "fst (value_loop_ref (ds @ xs) p h_content_length ps) = Stop_bad"
  using assms
proof (induction ds arbitrary: ps v p)
  case (Cons c ds)
  show ?case
  proof (cases "length_limit < v")
    case True
    with Cons.prems IS_NUM_no_eol [of c] show ?thesis
      by (simp add: header_value_char_def content_length_digit_value Let_def)
  next
    case False
    let ?v = "v * 10 + decimal_digit c"
    let ?ps = "ps\<lparr>content_length := of_nat ?v\<rparr>"
    have u: "unat (content_length ?ps) = ?v"
      using unat_of_nat_64 [of ?v] decimal_small [of v c] False Cons.prems(1)
      by (simp del: of_nat_add of_nat_mult)
    have "ds \<noteq> []" using Cons.prems(4) False by auto
    then have "fst (value_loop_ref (ds @ xs) (Suc p) h_content_length ?ps) = Stop_bad"
      using Cons.prems(1,4) by (intro Cons.IH [OF _ u]) auto
    with Cons.prems False IS_NUM_no_eol [of c] show ?thesis
      by (simp add: header_value_char_def content_length_digit_value Let_def)
  qed
qed simp

subsection \<open>Transfer-Encoding\<close>

text \<open>The values that count as \<open>chunked\<close>: that word in any case, then blanks only.\<close>

definition te_chunked :: "string \<Rightarrow> bool" where
  "te_chunked v \<longleftrightarrow> map LOWER (take 7 v) = CHUNKED \<and> set (drop 7 v) \<subseteq> {SP}"

definition tracks_te :: "string \<Rightarrow> header_states \<Rightarrow> http_parser \<Rightarrow> bool" where
  "tracks_te s h ps \<longleftrightarrow>
     (h = h_matching_transfer_encoding_chunked \<and> map LOWER s = take (length s) CHUNKED \<and>
        0 < length s \<and> length s < 7 \<and> unat (index ps) + 1 = length s) \<or>
     (h = h_transfer_encoding_chunked \<and> te_chunked s) \<or>
     (h = h_general \<and> (\<forall>t. \<not> te_chunked (s @ t)))"

lemma CHUNKED_length [simp]: "length CHUNKED = 7"
  by (simp add: CHUNKED_def)

lemma te_chunked_length: "te_chunked s \<Longrightarrow> 7 \<le> length s"
  by (rule ccontr) (auto simp: te_chunked_def dest!: arg_cong [where f = length])

lemma tracks_te_result: "tracks_te s h ps \<Longrightarrow> h = h_transfer_encoding_chunked \<longleftrightarrow> te_chunked s"
  using te_chunked_length [of s] by (auto simp: tracks_te_def dest: spec [of _ "[]"])

lemma te_chunked_mismatch:
  assumes "length s < 7" and "LOWER x \<noteq> CHUNKED ! length s"
  shows "\<not> te_chunked ((s @ [x]) @ t)"
proof
  assume a: "te_chunked ((s @ [x]) @ t)"
  then have "map LOWER (take 7 (s @ x # t)) ! length s = CHUNKED ! length s"
    by (simp add: te_chunked_def)
  moreover have "map LOWER (take 7 (s @ x # t)) ! length s = LOWER x"
    using assms(1) by (simp add: nth_append)
  ultimately show False using assms(2) by simp
qed

lemma te_chunked_snoc:
  "te_chunked s \<Longrightarrow> te_chunked (s @ [SP])"
  "te_chunked s \<Longrightarrow> x \<noteq> SP \<Longrightarrow> \<not> te_chunked ((s @ [x]) @ t)"
  using te_chunked_length [of s] by (auto simp: te_chunked_def)

lemma tracks_te_step:
  assumes "tracks_te s h ps"
  shows "\<exists>h' ps'. header_value_char x h ps = Value_next h' ps' \<and> tracks_te (s @ [x]) h' ps'"
  using assms unfolding tracks_te_def [of s h ps]
proof (elim disjE conjE)
  assume h: "h = h_transfer_encoding_chunked" and s: "te_chunked s"
  show ?thesis
    using te_chunked_snoc(1) [OF s] te_chunked_snoc(2) [OF s, of x]
    by (cases "x = SP") (simp_all add: h header_value_char_def tracks_te_def)
next
  assume "h = h_general" and "\<forall>t. \<not> te_chunked (s @ t)"
  then show ?thesis by (simp add: tracks_te_def)
next
  assume h: "h = h_matching_transfer_encoding_chunked"
    and s: "map LOWER s = take (length s) CHUNKED" "length s < 7" "unat (index ps) + 1 = length s"
  have i: "unat (index ps + 1) = length s"
    using s(2,3) by (simp add: unat_word_ariths)
  show ?thesis
  proof (cases "LOWER x = CHUNKED ! length s")
    case False
    with h s(2) i te_chunked_mismatch [OF s(2) False] show ?thesis
      by (simp add: header_value_char_def match_value_def match_literal_def lit_at_def Let_def
          tracks_te_def)
  next
    case True
    have m: "map LOWER (s @ [x]) = take (Suc (length s)) CHUNKED"
      using s(1,2) True by (simp add: take_Suc_conv_app_nth)
    show ?thesis
    proof (cases "length s = 6")
      case len: True
      with m have "te_chunked (s @ [x])" by (simp add: te_chunked_def)
      with h s(2) i True len show ?thesis
        by (simp add: header_value_char_def match_value_def match_literal_def lit_at_def Let_def
            tracks_te_def)
    next
      case False
      with h s(2) i True m show ?thesis
        by (simp add: header_value_char_def match_value_def match_literal_def lit_at_def Let_def
            tracks_te_def)
    qed
  qed
qed

lemma value_loop_te:
  assumes "tracks_te s h ps" and "\<forall>x \<in> set xs. x \<noteq> CR \<and> x \<noteq> LF"
  shows "\<exists>h' ps'. value_loop_ref (xs @ ys) p h ps = value_loop_ref ys (p + length xs) h' ps' \<and>
    tracks_te (s @ xs) h' ps'"
  using assms
proof (induction xs arbitrary: s h ps p)
  case (Cons x xs)
  from tracks_te_step [OF Cons.prems(1), of x] obtain h1 ps1
    where "header_value_char x h ps = Value_next h1 ps1" "tracks_te (s @ [x]) h1 ps1" by blast
  with Cons.IH [of "s @ [x]" h1 ps1 "Suc p"] Cons.prems(2) show ?case by simp
qed auto

end
