(* ===== verification/String_Map.thy ===== *)
theory String_Map
  imports Prelude "HOL-Library.List_Lexorder" "HOL-Library.Multiset"
begin

text \<open>
  \<open>std::map<std::string, std::string>\<close>: a list of pairs in increasing order of the keys
  (bytes compare as unsigned values, as in \<open>char_traits\<close>), with the three operations the
  code uses: \<open>insert\<close>, which keeps an entry that is there, assignment through
  \<open>operator[]\<close>, which replaces it, \<open>find\<close>, and \<open>erase\<close>, which says how many entries it took out.
  The operations serve maps to other values as well.
\<close>

type_synonym string_map = "(string \<times> string) list"

fun map_find :: "(string \<times> 'v) list \<Rightarrow> string \<Rightarrow> 'v option" where
  "map_find [] k = None"
| "map_find ((k', v) # m) k = (if k = k' then Some v else map_find m k)"

fun map_insert :: "string \<Rightarrow> 'v \<Rightarrow> (string \<times> 'v) list \<Rightarrow> (string \<times> 'v) list" where
  "map_insert k v [] = [(k, v)]"
| "map_insert k v ((k', v') # m) =
     (if k = k' then (k', v') # m
      else if k < k' then (k, v) # (k', v') # m
      else (k', v') # map_insert k v m)"

fun map_assign :: "string \<Rightarrow> 'v \<Rightarrow> (string \<times> 'v) list \<Rightarrow> (string \<times> 'v) list" where
  "map_assign k v [] = [(k, v)]"
| "map_assign k v ((k', v') # m) =
     (if k = k' then (k', v) # m
      else if k < k' then (k, v) # (k', v') # m
      else (k', v') # map_assign k v m)"

definition map_erase :: "string \<Rightarrow> (string \<times> 'v) list \<Rightarrow> nat \<times> (string \<times> 'v) list" where
  "map_erase k m = (length (filter (\<lambda>e. fst e = k) m), filter (\<lambda>e. fst e \<noteq> k) m)"

definition map_ordered :: "(string \<times> 'v) list \<Rightarrow> bool" where
  "map_ordered m \<longleftrightarrow> sorted_wrt (<) (map fst m)"

lemma map_ordered_simps [simp]:
  "map_ordered []"
  "map_ordered ((k, v) # m) \<longleftrightarrow> (\<forall>k' \<in> set (map fst m). k < k') \<and> map_ordered m"
  by (simp_all add: map_ordered_def)

lemma map_insert_keys: "set (map fst (map_insert k v m)) = insert k (set (map fst m))"
  by (induction k v m rule: map_insert.induct) auto

lemma map_assign_keys: "set (map fst (map_assign k v m)) = insert k (set (map fst m))"
  by (induction k v m rule: map_assign.induct) auto

lemma map_insert_ordered: "map_ordered m \<Longrightarrow> map_ordered (map_insert k v m)"
proof (induction k v m rule: map_insert.induct)
  case (2 k v k' v' m)
  then show ?case
    using map_insert_keys [of k v m] by (auto simp: not_less order.order_iff_strict)
qed simp

lemma map_assign_ordered: "map_ordered m \<Longrightarrow> map_ordered (map_assign k v m)"
proof (induction k v m rule: map_assign.induct)
  case (2 k v k' v' m)
  then show ?case
    using map_assign_keys [of k v m] by (auto simp: not_less order.order_iff_strict)
qed simp

lemma map_find_None: "map_find m k = None \<longleftrightarrow> k \<notin> set (map fst m)"
  by (induction m k rule: map_find.induct) auto

lemma map_find_less: "map_ordered m \<Longrightarrow> \<forall>k' \<in> set (map fst m). k < k' \<Longrightarrow> map_find m k = None"
  by (auto simp: map_find_None)

text \<open>An insertion is seen by the next lookup, and only where no entry was.\<close>

lemma map_find_insert:
  assumes "map_ordered m"
  shows "map_find (map_insert k v m) k' =
    (if k' = k \<and> map_find m k = None then Some v else map_find m k')"
  using assms
proof (induction k v m rule: map_insert.induct)
  case (2 k v j w m)
  show ?case
  proof (cases "k < j")
    case True
    then have "map_find m k = None"
      using 2(2) by (intro map_find_less) (auto intro: less_trans)
    with True show ?thesis by auto
  next
    case False
    with 2 show ?thesis by auto
  qed
qed simp

lemma map_find_assign:
  assumes "map_ordered m"
  shows "map_find (map_assign k v m) k' = (if k' = k then Some v else map_find m k')"
  using assms by (induction k v m rule: map_assign.induct) auto

text \<open>A series of insertions keeps the first value of each key.\<close>

definition insert_all :: "(string \<times> string) list \<Rightarrow> string_map \<Rightarrow> string_map" where
  "insert_all kvs m = foldl (\<lambda>m (k, v). map_insert k v m) m kvs"

lemma insert_all_simps [simp]:
  "insert_all [] m = m"
  "insert_all ((k, v) # kvs) m = insert_all kvs (map_insert k v m)"
  "insert_all (xs @ ys) m = insert_all ys (insert_all xs m)"
  by (simp_all add: insert_all_def)

lemma insert_all_ordered: "map_ordered m \<Longrightarrow> map_ordered (insert_all kvs m)"
  by (induction kvs arbitrary: m) (auto simp: map_insert_ordered)

lemma map_find_insert_all:
  "map_ordered m \<Longrightarrow> map_find (insert_all kvs m) k =
     (case map_find m k of Some v \<Rightarrow> Some v | None \<Rightarrow> map_of kvs k)"
  by (induction kvs arbitrary: m)
    (auto simp: map_insert_ordered map_find_insert split: option.splits)

text \<open>The entries after an assignment and after an erasure.\<close>

lemma map_assign_new:
  "k \<notin> set (map fst m) \<Longrightarrow> mset (map_assign k v m) = add_mset (k, v) (mset m)"
  by (induction k v m rule: map_assign.induct) auto

lemma map_erase_ordered: "map_ordered m \<Longrightarrow> map_ordered (snd (map_erase k m))"
  unfolding map_erase_def map_ordered_def
  by (induction m) auto

lemma map_erase_one:
  assumes "map_ordered m" and "(k, v) \<in> set m"
  shows "map_erase k m = (1, remove1 (k, v) m)"
  using assms
proof (induction m)
  case (Cons e m)
  have none: "filter (\<lambda>e. fst e = k) m = []" "filter (\<lambda>e. fst e \<noteq> k) m = m" if "fst e = k"
    using Cons.prems(1) that by (cases e; force simp: filter_empty_conv filter_id_conv)+
  have other: "fst e \<noteq> k" if "(k, v) \<in> set m"
    using Cons.prems(1) that by (cases e) force
  show ?case
    using Cons none other by (cases e) (auto simp: map_erase_def)
qed simp

end
