(* ===== verification/Http_Request.thy ===== *)
theory Http_Request
  imports String_Map
begin

text \<open>
  \<open>HTTPRequest\<close> of \<^verbatim>\<open>woody/http/http_request.cc\<close>: the request that the codec fills,
  with its header map and the parameters of the query part of the URL.
\<close>

record http_request =
  r_is_header_finished :: bool
  r_is_body_finished :: bool
  r_is_upgrade :: bool
  r_method :: string
  r_url :: string
  r_version :: string
  r_headers_map :: string_map
  r_get_params :: string_map
  r_body :: string

definition new_http_request :: http_request where
  "new_http_request =
     \<lparr>r_is_header_finished = False, r_is_body_finished = False, r_is_upgrade = False,
      r_method = [], r_url = [], r_version = [], r_headers_map = [], r_get_params = [],
      r_body = []\<rparr>"

definition AddHeader :: "string \<Rightarrow> string \<Rightarrow> http_request \<Rightarrow> http_request" where
  "AddHeader name v r = r\<lparr>r_headers_map := map_insert name v (r_headers_map r)\<rparr>"

text \<open>\<open>GetHeader\<close> and \<open>GetGETParams\<close> return a flag and store the value; here an option.\<close>

definition GetHeader :: "http_request \<Rightarrow> string \<Rightarrow> string option" where
  "GetHeader r name = map_find (r_headers_map r) name"

definition GetGETParams :: "http_request \<Rightarrow> string \<Rightarrow> string option" where
  "GetGETParams r name = map_find (r_get_params r) name"

definition SetUrl :: "string \<Rightarrow> http_request \<Rightarrow> http_request" where
  "SetUrl u r = r\<lparr>r_url := u\<rparr>"

definition SetMethod :: "string \<Rightarrow> http_request \<Rightarrow> http_request" where
  "SetMethod m r = r\<lparr>r_method := m\<rparr>"

definition SetBody :: "string \<Rightarrow> http_request \<Rightarrow> http_request" where
  "SetBody b r = r\<lparr>r_body := b\<rparr>"

definition SetUpgrade :: "http_request \<Rightarrow> http_request" where
  "SetUpgrade r = r\<lparr>r_is_upgrade := True\<rparr>"

text \<open>
  The loop of \<open>ParseUrl\<close> over the part after the question mark, on what is left of the URL:
  a key up to \<open>=\<close>, a value up to \<open>&\<close> or a blank. A key without \<open>=\<close> ends the loop.
\<close>

function params_loop :: "string \<Rightarrow> string_map \<Rightarrow> string_map" where
  "params_loop s m =
     (if s = [] then m
      else
        let key = takeWhile (\<lambda>c. c \<noteq> CHR ''='') s;
            s1 = dropWhile (\<lambda>c. c \<noteq> CHR ''='') s
        in if s1 = [] then m
           else
             let s2 = tl s1;
                 v = takeWhile (\<lambda>c. c \<noteq> CHR ''&'' \<and> c \<noteq> SP) s2;
                 s3 = dropWhile (\<lambda>c. c \<noteq> CHR ''&'' \<and> c \<noteq> SP) s2
             in params_loop (tl s3) (map_assign key v m))"
  by pat_completeness auto
termination
proof (relation "measure (\<lambda>(s, m). length s)", goal_cases)
  case 1
  show ?case by simp
next
  case (2 s m key s1 s2 v s3)
  have "length s3 \<le> length s2" unfolding 2 by (rule length_dropWhile_le)
  moreover have "length s1 \<le> length s" unfolding 2 by (rule length_dropWhile_le)
  moreover have "0 < length s1" using 2 by simp
  moreover have "length s2 = length s1 - 1" unfolding 2 by simp
  ultimately have "length s3 < length s" by linarith
  then show ?case by simp
qed

declare params_loop.simps [simp del]

definition ParseUrl :: "http_request \<Rightarrow> http_request" where
  "ParseUrl r =
     (if r_url r = [] then r
      else case dropWhile (\<lambda>c. c \<noteq> CHR ''?'') (r_url r) of
             [] \<Rightarrow> r
           | _ # query \<Rightarrow> r\<lparr>r_get_params := params_loop query (r_get_params r)\<rparr>)"

text \<open>\<open>CleanUp\<close> leaves the body alone.\<close>

definition CleanUp :: "http_request \<Rightarrow> http_request" where
  "CleanUp r =
     r\<lparr>r_is_header_finished := False, r_is_body_finished := False, r_is_upgrade := False,
       r_method := [], r_url := [], r_version := [], r_headers_map := [], r_get_params := []\<rparr>"

subsection \<open>Query parameters\<close>

definition param_text :: "string \<times> string \<Rightarrow> string" where
  "param_text p = fst p @ ''='' @ snd p"

fun query_text :: "(string \<times> string) list \<Rightarrow> string" where
  "query_text [] = []"
| "query_text [p] = param_text p"
| "query_text (p # ps) = param_text p @ ''&'' @ query_text ps"

definition param_ok :: "string \<times> string \<Rightarrow> bool" where
  "param_ok p \<longleftrightarrow>
     CHR ''='' \<notin> set (fst p) \<and> CHR ''&'' \<notin> set (snd p) \<and> SP \<notin> set (snd p)"

definition assign_all :: "(string \<times> string) list \<Rightarrow> string_map \<Rightarrow> string_map" where
  "assign_all kvs m = foldl (\<lambda>m (k, v). map_assign k v m) m kvs"

lemma takeWhile_all: "\<forall>x \<in> set xs. P x \<Longrightarrow> \<not> P y \<Longrightarrow> takeWhile P (xs @ y # ys) = xs"
  by (induction xs) auto

lemma dropWhile_all: "\<forall>x \<in> set xs. P x \<Longrightarrow> \<not> P y \<Longrightarrow> dropWhile P (xs @ y # ys) = y # ys"
  by (induction xs) auto

lemma params_loop_step:
  assumes "param_ok p" and "rest = [] \<or> (\<exists>t. rest = CHR ''&'' # t)"
  shows "params_loop (param_text p @ rest) m = params_loop (tl rest) (map_assign (fst p) (snd p) m)"
proof -
  let ?v = "\<lambda>c. c \<noteq> CHR ''&'' \<and> c \<noteq> SP"
  have k: "takeWhile (\<lambda>c. c \<noteq> CHR ''='') (fst p @ CHR ''='' # snd p @ rest) = fst p"
    "dropWhile (\<lambda>c. c \<noteq> CHR ''='') (fst p @ CHR ''='' # snd p @ rest) = CHR ''='' # snd p @ rest"
    using assms(1) by (auto simp: param_ok_def intro!: takeWhile_all dropWhile_all)
  have v: "takeWhile ?v (snd p @ rest) = snd p" "dropWhile ?v (snd p @ rest) = rest"
  proof -
    have in_v: "\<forall>x \<in> set (snd p). ?v x" using assms(1) by (auto simp: param_ok_def)
    show "takeWhile ?v (snd p @ rest) = snd p"
    proof (cases "rest = []")
      case True
      with in_v show ?thesis by (simp only: append_Nil2 takeWhile_eq_all_conv)
    next
      case False
      with assms(2) obtain t where "rest = CHR ''&'' # t" by blast
      then show ?thesis by (simp only:) (rule takeWhile_all [OF in_v], simp)
    qed
    show "dropWhile ?v (snd p @ rest) = rest"
    proof (cases "rest = []")
      case True
      with in_v show ?thesis by (simp only: append_Nil2 dropWhile_eq_Nil_conv)
    next
      case False
      with assms(2) obtain t where "rest = CHR ''&'' # t" by blast
      then show ?thesis by (simp only:) (rule dropWhile_all [OF in_v], simp)
    qed
  qed
  show ?thesis
    by (subst params_loop.simps) (simp add: param_text_def k v Let_def)
qed

lemma params_loop_text:
  "list_all param_ok ps \<Longrightarrow> params_loop (query_text ps) m = assign_all ps m"
proof (induction ps arbitrary: m rule: query_text.induct)
  case 1
  show ?case by (simp add: params_loop.simps [of "[]"] assign_all_def)
next
  case (2 p)
  then show ?case
    using params_loop_step [of p "[]" m]
    by (simp add: assign_all_def params_loop.simps [of "[]"] split: prod.split)
next
  case (3 p q ps)
  then show ?case
    using params_loop_step [of p "''&'' @ query_text (q # ps)" m]
    by (simp add: assign_all_def split: prod.split)
qed

lemma assign_all_ordered: "map_ordered m \<Longrightarrow> map_ordered (assign_all kvs m)"
  by (induction kvs arbitrary: m) (auto simp: assign_all_def map_assign_ordered)

lemma map_find_assign_all:
  "map_ordered m \<Longrightarrow> map_find (assign_all kvs m) k =
     (case map_of (rev kvs) k of Some v \<Rightarrow> Some v | None \<Rightarrow> map_find m k)"
proof (induction kvs arbitrary: m)
  case (Cons kv kvs)
  obtain k' v where kv: "kv = (k', v)" by (cases kv)
  have "assign_all (kv # kvs) m = assign_all kvs (map_assign k' v m)"
    by (simp add: assign_all_def kv)
  with Cons.IH [of "map_assign k' v m"] Cons.prems show ?case
    by (auto simp: map_assign_ordered map_find_assign kv map_add_def split: option.splits)
qed (simp add: assign_all_def)

end
