(* ===== verification/Http_Codec.thy ===== *)
theory Http_Codec
  imports Http_Request Execute_Safety
begin

text \<open>
  \<open>HTTPCodec\<close> of \<^verbatim>\<open>woody/http/http_codec.cc\<close>: the callbacks that assemble a request
  from what the parser reports, and \<open>OnData\<close>, which runs the parser. It is the client of the
  parser: its settings satisfy the contract \<open>parser_callbacks\<close>.

  The functions that the owner of the codec registers work on a world \<open>'w\<close> of their own;
  they do not touch the codec or its parser. An empty \<open>boost::function\<close> is \<open>None\<close>; only
  \<open>error_callback_\<close> is called without a test, and calling it when it is empty throws.
\<close>

datatype header_parse_state =
  kParseHeaderNothing | kParseHeaderBegin | kParseHeaderName | kParseHeaderValue
| kParseHeaderComplete

record http_codec =
  c_parse_state :: header_parse_state
  c_is_headers_complete :: bool
  c_is_body_complete :: bool
  c_is_upgrade_complete :: bool
  c_header_value :: string
  c_header_name :: string
  c_stream_id :: "32 word"
  c_request :: http_request

record 'w codec_callbacks =
  message_begin_cb :: "(32 word \<Rightarrow> 'w \<Rightarrow> 'w) option"
  message_complete_cb :: "(32 word \<Rightarrow> http_request \<Rightarrow> 'w \<Rightarrow> 'w) option"
  headers_complete_cb :: "('w \<Rightarrow> 'w) option"
  error_cb :: "('w \<Rightarrow> 'w) option"

text \<open>The constructor: the codec, and its parser.\<close>

definition new_http_codec :: http_codec where
  "new_http_codec =
     \<lparr>c_parse_state = kParseHeaderNothing, c_is_headers_complete = False,
      c_is_body_complete = False, c_is_upgrade_complete = False, c_header_value = [],
      c_header_name = [], c_stream_id = 0, c_request = new_http_request\<rparr>"

definition new_codec_parser :: http_parser where
  "new_codec_parser = http_parser_init HTTP_REQUEST"

subsection \<open>The events\<close>

definition OnMessageBegin :: "'w codec_callbacks \<Rightarrow> http_codec \<times> 'w \<Rightarrow> bool \<times> http_codec \<times> 'w" where
  "OnMessageBegin cbs cw =
     (let (c, w) = cw; c1 = c\<lparr>c_parse_state := kParseHeaderBegin\<rparr> in
      case message_begin_cb cbs of
        None \<Rightarrow> (True, c1, w)
      | Some f \<Rightarrow> (True, c1, f (c_stream_id c1) w))"

definition OnUrl :: "string \<Rightarrow> http_codec \<times> 'w \<Rightarrow> bool \<times> http_codec \<times> 'w" where
  "OnUrl buf cw = (let (c, w) = cw in (True, c\<lparr>c_request := SetUrl buf (c_request c)\<rparr>, w))"

definition header_field_event :: "string \<Rightarrow> http_codec \<Rightarrow> http_codec" where
  "header_field_event buf c =
     (let c1 =
        (if c_parse_state c = kParseHeaderValue then
           c\<lparr>c_request := AddHeader (c_header_name c) (c_header_value c) (c_request c),
             c_header_name := buf\<rparr>
         else if c_parse_state c = kParseHeaderName \<or> c_parse_state c = kParseHeaderBegin then
           c\<lparr>c_header_name := c_header_name c @ buf\<rparr>
         else c)
      in c1\<lparr>c_parse_state := kParseHeaderName\<rparr>)"

definition header_value_event :: "string \<Rightarrow> http_codec \<Rightarrow> http_codec" where
  "header_value_event buf c =
     (let c1 =
        (if c_parse_state c = kParseHeaderName then c\<lparr>c_header_value := buf\<rparr>
         else if c_parse_state c = kParseHeaderValue then
           c\<lparr>c_header_value := c_header_value c @ buf\<rparr>
         else c)
      in c1\<lparr>c_parse_state := kParseHeaderValue\<rparr>)"

definition OnHeaderField :: "string \<Rightarrow> http_codec \<times> 'w \<Rightarrow> bool \<times> http_codec \<times> 'w" where
  "OnHeaderField buf cw = (let (c, w) = cw in (True, header_field_event buf c, w))"

definition OnHeaderValue :: "string \<Rightarrow> http_codec \<times> 'w \<Rightarrow> bool \<times> http_codec \<times> 'w" where
  "OnHeaderValue buf cw = (let (c, w) = cw in (True, header_value_event buf c, w))"

definition headers_complete_event :: "http_parser \<Rightarrow> http_codec \<Rightarrow> http_codec" where
  "headers_complete_event ps c =
     (let r = AddHeader (c_header_name c) (c_header_value c) (c_request c);
          r1 = ParseUrl (SetMethod (http_method_str (method ps)) r);
          r2 = (if upgrade ps then SetUpgrade r1 else r1)
      in c\<lparr>c_is_headers_complete := True, c_request := r2\<rparr>)"

definition OnHeadersComplete ::
  "'w codec_callbacks \<Rightarrow> http_parser \<Rightarrow> http_codec \<times> 'w \<Rightarrow> bool \<times> http_codec \<times> 'w" where
  "OnHeadersComplete cbs ps cw =
     (let (c, w) = cw; c1 = headers_complete_event ps c in
      case headers_complete_cb cbs of
        None \<Rightarrow> (True, c1, w)
      | Some f \<Rightarrow> (True, c1, f w))"

definition OnBody :: "string \<Rightarrow> http_codec \<times> 'w \<Rightarrow> bool \<times> http_codec \<times> 'w" where
  "OnBody buf cw = (let (c, w) = cw in (True, c\<lparr>c_request := SetBody buf (c_request c)\<rparr>, w))"

definition OnMessageComplete ::
  "'w codec_callbacks \<Rightarrow> http_codec \<times> 'w \<Rightarrow> bool \<times> http_codec \<times> 'w" where
  "OnMessageComplete cbs cw =
     (let (c, w) = cw in
      case message_complete_cb cbs of
        None \<Rightarrow> (True, c, w)
      | Some f \<Rightarrow>
          (True, c\<lparr>c_request := CleanUp (c_request c)\<rparr>, f (c_stream_id c) (c_request c) w))"

subsection \<open>The callbacks of the parser\<close>

text \<open>The static functions: 0 if the member function returns true, else 1.\<close>

definition as_callback ::
  "('u \<Rightarrow> bool \<times> 'u) \<Rightarrow> 'u http_cb" where
  "as_callback f ps u = (let (ok, u') = f u in (if ok then 0 else 1, ps, u'))"

text \<open>\<open>InitParserSettings\<close>, on the zero-initialised static object.\<close>

definition kParserSettings :: "'w codec_callbacks \<Rightarrow> (http_codec \<times> 'w) http_parser_settings" where
  "kParserSettings cbs =
     http_parser_settings_init
       \<lparr>on_message_begin := Some (as_callback (OnMessageBegin cbs)),
        on_url := Some (\<lambda>buf. as_callback (OnUrl buf)),
        on_header_field := Some (\<lambda>buf. as_callback (OnHeaderField buf)),
        on_header_value := Some (\<lambda>buf. as_callback (OnHeaderValue buf)),
        on_headers_complete := Some (\<lambda>ps. as_callback (OnHeadersComplete cbs ps) ps),
        on_body := Some (\<lambda>buf. as_callback (OnBody buf)),
        on_message_complete := Some (as_callback (OnMessageComplete cbs))\<rparr>"

lemma as_callback_keeps: "keeps_parser (\<lambda>ps. as_callback (f ps) ps)"
  unfolding keeps_parser_def
proof (intro allI)
  fix ps u
  obtain ok u' where "f ps u = (ok, u')" by (cases "f ps u")
  then show "\<exists>r er w'. as_callback (f ps) ps u = (r, ps\<lparr>http_errno := er\<rparr>, w')"
    by (auto simp: as_callback_def intro!: exI [of _ "http_errno ps"])
qed

lemma kParserSettings_callbacks: "parser_callbacks (kParserSettings cbs)"
proof
  fix f assume "Some f \<in> set (notify_callbacks (kParserSettings cbs))"
  then show "keeps_parser f"
    using as_callback_keeps [of "\<lambda>_. OnMessageBegin cbs"]
      as_callback_keeps [of "OnHeadersComplete cbs"]
      as_callback_keeps [of "\<lambda>_. OnMessageComplete cbs"]
    by (auto simp: notify_callbacks_def kParserSettings_def http_parser_settings_init_def)
next
  fix m g s assume "data_callback m (kParserSettings cbs) = Some g"
  then show "keeps_parser (g s)"
    using as_callback_keeps [of "\<lambda>_. OnUrl s"] as_callback_keeps [of "\<lambda>_. OnHeaderField s"]
      as_callback_keeps [of "\<lambda>_. OnHeaderValue s"] as_callback_keeps [of "\<lambda>_. OnBody s"]
    by (cases m) (auto simp: kParserSettings_def http_parser_settings_init_def)
qed

interpretation codec_settings: parser_callbacks "kParserSettings cbs" for cbs
  by (rule kParserSettings_callbacks)

subsection \<open>OnData\<close>

text \<open>A call returns the number of parsed bytes, throws, or the process aborts.\<close>

datatype 'w codec_result = Codec_parsed nat http_parser http_codec 'w | Codec_throw | Codec_abort

definition OnParseError :: "'w codec_callbacks \<Rightarrow> 'w \<Rightarrow> 'w option" where
  "OnParseError cbs w = map_option (\<lambda>f. f w) (error_cb cbs)"

definition OnData ::
  "'w codec_callbacks \<Rightarrow> http_parser \<Rightarrow> http_codec \<Rightarrow> string \<Rightarrow> 'w \<Rightarrow> 'w codec_result option" where
  "OnData cbs ps c data w =
     map_option
       (\<lambda>r. case r of
          Aborted \<Rightarrow> Codec_abort
        | Returned n ps' (c', w') \<Rightarrow>
            if http_errno ps' \<noteq> HPE_OK \<and> http_errno ps' \<noteq> HPE_PAUSED then
              (case OnParseError cbs w' of
                 None \<Rightarrow> Codec_throw
               | Some w'' \<Rightarrow> Codec_parsed n ps' c' w'')
            else Codec_parsed n ps' c' w')
       (http_parser_execute (kParserSettings cbs) ps data (c, w))"

lemma OnData_returns:
  assumes "parser_inv ps" and "length data < 2 ^ 64" and "error_cb cbs \<noteq> None"
  shows "\<exists>n ps' c' w'. OnData cbs ps c data w = Some (Codec_parsed n ps' c' w') \<and>
    parser_inv ps' \<and> n \<le> max 1 (length data) \<and>
    (n < length data \<longrightarrow> http_errno ps' \<noteq> HPE_OK \<or> upgrade ps')"
proof -
  obtain r where r: "http_parser_execute (kParserSettings cbs) ps data (c, w) = Some r"
    "call_ok data r"
    using codec_settings.execute_total [OF assms(1,2), of cbs "(c, w)"] by blast
  then obtain n ps' c' w' where "r = Returned n ps' (c', w')"
    by (cases r) (auto simp: call_ok_def)
  with r assms(3) show ?thesis by (auto simp: OnData_def OnParseError_def call_ok_def)
qed

subsection \<open>Assembling headers\<close>

text \<open>
  A header as the parser reports it: the name and the value each in one piece or more, as
  the buffers happen to cut them.
\<close>

type_synonym header_pieces = "string list \<times> string list"

definition header_events :: "header_pieces \<Rightarrow> http_codec \<Rightarrow> http_codec" where
  "header_events h c =
     foldl (\<lambda>c s. header_value_event s c) (foldl (\<lambda>c s. header_field_event s c) c (fst h)) (snd h)"

definition header_of :: "header_pieces \<Rightarrow> string \<times> string" where
  "header_of h = (concat (fst h), concat (snd h))"

definition pieces_ok :: "header_pieces \<Rightarrow> bool" where
  "pieces_ok h \<longleftrightarrow> fst h \<noteq> [] \<and> snd h \<noteq> []"

text \<open>The header the codec holds back until the next one starts or the headers end.\<close>

definition pending :: "http_codec \<Rightarrow> string \<times> string \<Rightarrow> string_map \<Rightarrow> bool" where
  "pending c nv m \<longleftrightarrow>
     c_parse_state c = kParseHeaderValue \<and> (c_header_name c, c_header_value c) = nv \<and>
     r_headers_map (c_request c) = m"

lemma field_events_name:
  "c_parse_state c = kParseHeaderName \<Longrightarrow>
     foldl (\<lambda>c s. header_field_event s c) c ss =
       c\<lparr>c_header_name := c_header_name c @ concat ss\<rparr>"
  by (induction ss arbitrary: c) (simp_all add: header_field_event_def)

lemma value_events_value:
  "c_parse_state c = kParseHeaderValue \<Longrightarrow>
     foldl (\<lambda>c s. header_value_event s c) c ss =
       c\<lparr>c_header_value := c_header_value c @ concat ss\<rparr>"
  by (induction ss arbitrary: c) (simp_all add: header_value_event_def)

lemma value_events_name:
  assumes "c_parse_state c = kParseHeaderName" and "ss \<noteq> []"
  shows "foldl (\<lambda>c s. header_value_event s c) c ss =
    c\<lparr>c_header_value := concat ss, c_parse_state := kParseHeaderValue\<rparr>"
proof -
  obtain s ss' where ss: "ss = s # ss'" using assms(2) by (cases ss) auto
  show ?thesis
    using value_events_value [of "header_value_event s c" ss'] assms(1)
    by (simp add: ss header_value_event_def)
qed

lemma header_events_first:
  assumes "c_parse_state c = kParseHeaderBegin" and "pieces_ok h"
  shows "pending (header_events h c) (c_header_name c @ concat (fst h), concat (snd h))
    (r_headers_map (c_request c))"
proof -
  obtain s ss where s: "fst h = s # ss" using assms(2) by (cases "fst h") (auto simp: pieces_ok_def)
  show ?thesis
    using field_events_name [of "header_field_event s c" ss] assms
      value_events_name [of _ "snd h"]
    by (simp add: header_events_def s pending_def header_field_event_def pieces_ok_def)
qed

lemma header_events_next:
  assumes "pending c (n, v) m" and "pieces_ok h"
  shows "pending (header_events h c) (header_of h) (map_insert n v m)"
proof -
  obtain s ss where s: "fst h = s # ss" using assms(2) by (cases "fst h") (auto simp: pieces_ok_def)
  show ?thesis
    using field_events_name [of "header_field_event s c" ss] assms
      value_events_name [of _ "snd h"]
    by (simp add: header_events_def s pending_def header_field_event_def pieces_ok_def header_of_def
        AddHeader_def)
qed

definition all_header_events :: "header_pieces list \<Rightarrow> http_codec \<Rightarrow> http_codec" where
  "all_header_events hs c = foldl (\<lambda>c h. header_events h c) c hs"

lemma headers_rest:
  assumes "pending c nv m" and "list_all pieces_ok hs"
  shows "pending (all_header_events hs c) (last (nv # map header_of hs))
      (insert_all (butlast (nv # map header_of hs)) m)"
  using assms
proof (induction hs arbitrary: c nv m)
  case Nil
  then show ?case by (simp add: all_header_events_def)
next
  case (Cons h hs)
  obtain n v where nv: "nv = (n, v)" by (cases nv)
  have "pending (header_events h c) (header_of h) (map_insert n v m)"
    using header_events_next [of c n v m h] Cons.prems by (simp add: nv)
  from Cons.IH [OF this] Cons.prems(2) show ?case
    by (simp add: all_header_events_def nv)
qed

lemma headers_map_ParseUrl [simp]: "r_headers_map (ParseUrl r) = r_headers_map r"
  by (simp add: ParseUrl_def split: list.split)

lemma headers_assembled:
  assumes "c_parse_state c = kParseHeaderBegin" and "list_all pieces_ok (h # hs)"
  shows "r_headers_map (c_request (headers_complete_event ps (all_header_events (h # hs) c))) =
    insert_all ((c_header_name c @ concat (fst h), concat (snd h)) # map header_of hs)
      (r_headers_map (c_request c))"
proof -
  let ?nv = "(c_header_name c @ concat (fst h), concat (snd h))"
  let ?m = "r_headers_map (c_request c)"
  have 1: "pending (header_events h c) ?nv ?m"
    using header_events_first [OF assms(1), of h] assms(2) by simp
  let ?l = "?nv # map header_of hs"
  let ?c = "all_header_events hs (header_events h c)"
  have 2: "pending ?c (last ?l) (insert_all (butlast ?l) ?m)"
    using headers_rest [OF 1, of hs] assms(2) by simp
  obtain n v where nv: "last ?l = (n, v)" by (cases "last ?l") simp
  have "r_headers_map (c_request (headers_complete_event ps ?c)) =
      map_insert n v (insert_all (butlast ?l) ?m)"
    using 2 unfolding nv
    by (simp add: pending_def headers_complete_event_def Let_def AddHeader_def SetMethod_def
        SetUpgrade_def)
  also have "\<dots> = insert_all (butlast ?l @ [last ?l]) ?m"
    unfolding nv insert_all_simps(3) by (simp only: insert_all_simps)
  also have "butlast ?l @ [last ?l] = ?l" by (rule append_butlast_last_id) simp
  finally show ?thesis by (simp add: all_header_events_def)
qed

end
