(* ===== verification/Parser_Theorems.thy ===== *)
theory Parser_Theorems
  imports Execute_Safety Header_Name Header_Value Http_Codec
begin

text \<open>
  The size line of a chunk: the loop, followed through the digits of the size, reads them as
  a hexadecimal number, or stops with an error when the number comes close to 64 bits. Then the
  properties of the message parser over whole sessions of calls, pauses and resumptions.
\<close>

definition hex_digit :: "char \<Rightarrow> bool" where
  "hex_digit c \<longleftrightarrow> unhex_at c \<noteq> -1"

definition hex_from :: "nat \<Rightarrow> string \<Rightarrow> nat" where
  "hex_from v hs = foldl (\<lambda>v c. v * 16 + nat (unhex_at c)) v hs"

text \<open>The largest size to which the code still appends a digit.\<close>

definition chunk_limit :: nat where
  "chunk_limit = (2 ^ 64 - 17) div 16"

lemma hex_from_simps [simp]:
  "hex_from v [] = v"
  "hex_from v (c # hs) = hex_from (v * 16 + nat (unhex_at c)) hs"
  "hex_from v (hs @ [c]) = hex_from v hs * 16 + nat (unhex_at c)"
  by (simp_all add: hex_from_def)

lemma hex_from_ge: "v \<le> hex_from v hs"
proof (induction hs arbitrary: v)
  case (Cons c hs)
  have "v \<le> v * 16 + nat (unhex_at c)" by simp
  also have "\<dots> \<le> hex_from (v * 16 + nat (unhex_at c)) hs" by (rule Cons.IH)
  finally show ?case by simp
qed simp

lemma hex_digit_not: "hex_digit c \<Longrightarrow> c \<noteq> CR"
  by (auto simp: hex_digit_def char_eval)

lemma chunk_limit_word: "\<not> (ULLONG_MAX - 16) div 16 < cl \<longleftrightarrow> unat cl \<le> chunk_limit"
proof -
  have "unat ((ULLONG_MAX - 16) div 16) = chunk_limit"
    by (simp add: ULLONG_MAX_def unat_div chunk_limit_def)
  then show ?thesis by (simp add: not_less word_le_nat_alt)
qed

definition in_size :: "nat \<Rightarrow> nat \<Rightarrow> nat \<Rightarrow> 'u exec \<Rightarrow> bool" where
  "in_size v p n e \<longleftrightarrow>
     p_state e = s_chunk_size \<and> unat (content_length (parser e)) = v \<and> pos e = p \<and>
     unat (nread (parser e)) = n \<and> has_flag (parser e) F_CHUNKED"

lemma chunk_digit_step:
  assumes "in_size v p n e" and "p < length d" and "hex_digit (d ! p)" and "v \<le> chunk_limit"
    and "n < HTTP_MAX_HEADER_SIZE"
  shows "\<exists>e'. exec_loop st d False e = exec_loop st d False e' \<and>
    in_size (v * 16 + nat (unhex_at (d ! p))) (p + 1) (n + 1) e'"
proof -
  let ?c = "d ! p"
  let ?f = "fetched d e"
  have v: "0 \<le> unhex_at ?c" "unhex_at ?c \<le> 15" "unhex_at ?c \<noteq> -1"
    using assms(3) unhex_at_range [of ?c] by (simp_all add: hex_digit_def)
  have lim: "\<not> (ULLONG_MAX - 16) div 16 < content_length (parser e)"
    using assms(1,4) by (simp add: chunk_limit_word in_size_def)
  let ?e = "?f\<lparr>parser := (parser ?f)\<lparr>content_length :=
      content_length (parser e) * 16 + of_int (unhex_at ?c)\<rparr>\<rparr>"
  have sw: "switch (p_state e) st d ?f = Break ?e"
    using assms(1) v(3) lim hex_digit_not [OF assms(3)]
    by (simp add: in_size_def case_chunk_size_def assert_that_def upd_parser_def fetched_def Let_def)
  have n: "unat (nread (parser e) + 1) = n + 1"
    using assms(1,5) by (simp add: in_size_def unat_word_ariths HTTP_MAX_HEADER_SIZE_def)
  have "exec_loop st d False e = exec_loop st d False (?e\<lparr>pos := pos ?e + 1\<rparr>)"
    using assms(1,2,5)
    by (intro exec_loop_header_step sw) (simp_all add: in_size_def PARSING_HEADER_def)
  moreover have "in_size (v * 16 + nat (unhex_at ?c)) (p + 1) (n + 1) (?e\<lparr>pos := pos ?e + 1\<rparr>)"
    using assms(1) n chunk_size_step(1) [OF lim v(1,2)] by (simp add: in_size_def fetched_def)
  ultimately show ?thesis by blast
qed

lemma chunk_digits:
  assumes "in_size v p n e" and "d = pre @ hs @ post" and "p = length pre"
    and "\<forall>c \<in> set hs. hex_digit c" and "hs = [] \<or> hex_from v (butlast hs) \<le> chunk_limit"
    and "n + length hs \<le> HTTP_MAX_HEADER_SIZE"
  shows "\<exists>e'. exec_loop st d False e = exec_loop st d False e' \<and>
    in_size (hex_from v hs) (p + length hs) (n + length hs) e'"
  using assms
proof (induction hs arbitrary: v p n e pre)
  case Nil
  then show ?case by auto
next
  case (Cons c hs)
  have c: "d ! p = c" "p < length d" using Cons.prems(2,3) by simp_all
  have le: "v \<le> chunk_limit"
    using Cons.prems(5) hex_from_ge [of v "butlast (c # hs)"] by simp
  obtain e1 where e1: "exec_loop st d False e = exec_loop st d False e1"
    "in_size (v * 16 + nat (unhex_at c)) (p + 1) (n + 1) e1"
    using chunk_digit_step [OF Cons.prems(1) c(2) _ le, of st] Cons.prems(4,6) c(1) by auto
  have "\<exists>e'. exec_loop st d False e1 = exec_loop st d False e' \<and>
      in_size (hex_from (v * 16 + nat (unhex_at c)) hs) (p + 1 + length hs) (n + 1 + length hs) e'"
    using Cons.prems(2-6)
    by (intro Cons.IH [OF e1(2), of "pre @ [c]"]) (auto split: if_splits)
  with e1(1) show ?case by simp
qed

text \<open>From the start of the size to the carriage return after it.\<close>

lemma chunk_size_line:
  assumes "p_state e = s_chunk_size_start" and "pos e = length pre" and "nread (parser e) = 0"
    and "has_flag (parser e) F_CHUNKED" and "d = pre @ hs @ CR # post" and "hs \<noteq> []"
    and "\<forall>c \<in> set hs. hex_digit c" and "hex_from 0 (butlast hs) \<le> chunk_limit"
    and "length hs < HTTP_MAX_HEADER_SIZE"
  shows "\<exists>e'. exec_loop st d False e = exec_loop st d False e' \<and>
    p_state e' = s_chunk_size_almost_done \<and> pos e' = length pre + length hs + 1 \<and>
    unat (content_length (parser e')) = hex_from 0 hs"
proof -
  obtain c cs where hs: "hs = c # cs" using assms(6) by (cases hs) auto
  have d: "d ! pos e = c" "pos e < length d" using assms(2,5) by (simp_all add: hs)
  have v: "0 \<le> unhex_at c" "unhex_at c \<le> 15" "unhex_at c \<noteq> -1"
    using assms(7) unhex_at_range [of c] by (simp_all add: hs hex_digit_def)
  let ?f = "fetched d e"
  let ?e = "?f\<lparr>parser := (parser ?f)\<lparr>content_length := of_int (unhex_at c)\<rparr>,
      p_state := s_chunk_size\<rparr>"
  have sw: "switch (p_state e) st d ?f = Break ?e"
    using assms(1,3,4) v(3) d(1)
    by (simp add: case_chunk_size_start_def assert_that_def upd_parser_def UPDATE_STATE_def
        fetched_def Let_def)
  have start: "exec_loop st d False e = exec_loop st d False (?e\<lparr>pos := pos ?e + 1\<rparr>)"
    using assms(1,3) d(2)
    by (intro exec_loop_header_step sw) (simp_all add: PARSING_HEADER_def HTTP_MAX_HEADER_SIZE_def)
  have "unat (of_int (unhex_at c) :: 64 word) = nat (unhex_at c)"
    using chunk_size_step(1) [of 0 "unhex_at c"] v(1,2) by simp
  then have in1: "in_size (nat (unhex_at c)) (length (pre @ [c])) 1 (?e\<lparr>pos := pos ?e + 1\<rparr>)"
    using assms(2,3,4) by (simp add: in_size_def fetched_def)
  have "\<exists>e'. exec_loop st d False (?e\<lparr>pos := pos ?e + 1\<rparr>) = exec_loop st d False e' \<and>
      in_size (hex_from (nat (unhex_at c)) cs) (length (pre @ [c]) + length cs) (1 + length cs) e'"
    using assms(5,7,8,9)
    by (intro chunk_digits [OF in1, of _ "pre @ [c]" cs "CR # post"]) (auto simp: hs split: if_splits)
  then obtain e2 where e2: "exec_loop st d False (?e\<lparr>pos := pos ?e + 1\<rparr>) = exec_loop st d False e2"
    "in_size (hex_from 0 hs) (length pre + length hs) (length hs) e2" by (auto simp: hs)
  have d2: "d ! pos e2 = CR" "pos e2 < length d"
    using e2(2) assms(5) by (simp_all add: in_size_def nth_append)
  let ?f2 = "fetched d e2"
  have "exec_loop st d False e2 =
      exec_loop st d False (?f2\<lparr>p_state := s_chunk_size_almost_done, pos := pos e2 + 1\<rparr>)"
    using e2(2) d2 assms(9)
      exec_loop_header_step [of e2 d st "?f2\<lparr>p_state := s_chunk_size_almost_done\<rparr>"]
    by (simp add: in_size_def PARSING_HEADER_def case_chunk_size_def assert_that_def
        UPDATE_STATE_def fetched_def)
  with start e2 show ?thesis
    by (intro exI [of _ "?f2\<lparr>p_state := s_chunk_size_almost_done, pos := pos e2 + 1\<rparr>"])
      (simp add: in_size_def fetched_def)
qed

text \<open>
  The properties of the message parser: safety and termination of calls and of sessions,
  and what the parser makes of methods, header names, header values and chunk sizes.
\<close>

subsection \<open>Calls and sessions\<close>

text \<open>C1: \<open>http_parser_execute\<close> ends and never aborts, whatever bytes it is given: under the
  contract of callbacks, from a parser that satisfies the invariant and with a buffer whose
  length fits a \<open>size_t\<close>, the call returns, leaves a parser that satisfies the invariant,
  and does not stop before the end of the buffer without an error or an upgrade.\<close>

theorem execute_returns:
  assumes "parser_callbacks st" and "parser_inv ps" and "length d < 2 ^ 64"
  shows "\<exists>n ps' w'. http_parser_execute st ps d w = Some (Returned n ps' w') \<and>
    parser_inv ps' \<and> n \<le> max 1 (length d) \<and>
    (n < length d \<longrightarrow> http_errno ps' \<noteq> HPE_OK \<or> upgrade ps')"
  using parser_callbacks.execute_call [OF assms] by blast

definition no_codec_callbacks :: "unit codec_callbacks" where
  "no_codec_callbacks =
     \<lparr>message_begin_cb = None, message_complete_cb = None, headers_complete_cb = None,
      error_cb = None\<rparr>"

lemma execute_returns_witness:
  "\<exists>n ps' w'. http_parser_execute (kParserSettings no_codec_callbacks) (http_parser_init HTTP_REQUEST) ''GET /''
      (new_http_codec, ()) = Some (Returned n ps' w') \<and>
    parser_inv ps' \<and> n \<le> max 1 (length ''GET /'') \<and>
    (n < length ''GET /'' \<longrightarrow> http_errno ps' \<noteq> HPE_OK \<or> upgrade ps')"
  by (rule execute_returns [OF kParserSettings_callbacks parser_inv_init]) simp

text \<open>Every parser that a session reaches, by creation, calls on arbitrary buffers,
  pausing and resuming, can take the next buffer: the call returns and does not abort.\<close>

theorem session_goes_on:
  assumes "parser_callbacks st" and "session st ps" and "length d < 2 ^ 64"
  shows "\<exists>n ps' w'. http_parser_execute st ps d w = Some (Returned n ps' w') \<and> session st ps'"
proof -
  have inv: "parser_inv ps" by (rule parser_callbacks.session_inv [OF assms(1,2)])
  obtain n ps' w' where "http_parser_execute st ps d w = Some (Returned n ps' w')"
    by (rule parser_callbacks.execute_call [OF assms(1) inv assms(3)])
  with session_execute [OF assms(2,3)] show ?thesis by blast
qed

lemma session_goes_on_witness:
  "\<exists>n ps' w'. http_parser_execute (kParserSettings no_codec_callbacks) (http_parser_init HTTP_BOTH) ''HTTP''
      (new_http_codec, ()) = Some (Returned n ps' w') \<and> session (kParserSettings no_codec_callbacks) ps'"
  by (rule session_goes_on [OF kParserSettings_callbacks session_init]) simp

text \<open>In a session, a parser that is not in an error state has counted at most
  \<open>HTTP_MAX_HEADER_SIZE\<close> header bytes, and its version numbers and status code have at most
  three digits.\<close>

theorem session_bounds:
  assumes "parser_callbacks st" and "session st ps" and "http_errno ps \<in> {HPE_OK, HPE_PAUSED}"
  shows "unat (nread ps) \<le> HTTP_MAX_HEADER_SIZE \<and> unat (http_major ps) \<le> 999 \<and>
    unat (http_minor ps) \<le> 999 \<and> unat (status_code ps) \<le> 999"
proof -
  have "bounds_ok ps"
    using parser_callbacks.session_inv [OF assms(1,2)] assms(3)
    by (auto simp: parser_inv_def pinv_def)
  then show ?thesis
    by (simp add: bounds_ok_def word_le_nat_alt HTTP_MAX_HEADER_SIZE_def)
qed

lemma session_bounds_witness:
  "unat (nread (http_parser_init HTTP_RESPONSE)) \<le> HTTP_MAX_HEADER_SIZE \<and>
   unat (http_major (http_parser_init HTTP_RESPONSE)) \<le> 999 \<and>
   unat (http_minor (http_parser_init HTTP_RESPONSE)) \<le> 999 \<and>
   unat (status_code (http_parser_init HTTP_RESPONSE)) \<le> 999"
  by (rule session_bounds [OF kParserSettings_callbacks session_init])
    (simp add: http_parser_init_def)

subsection \<open>Methods\<close>

text \<open>The letter-by-letter dispatch on the method recognises every method of the table:
  a request parser that reads the method's name and a blank has stored the method and waits
  for the URL.\<close>

theorem methods_recognised:
  "\<exists>ps. http_parser_execute http_parser_settings_init (http_parser_init HTTP_REQUEST)
      (http_method_str m @ '' '') () = Some (Returned (length (http_method_str m) + 1) ps ()) \<and>
    method ps = m \<and> state ps = s_req_spaces_before_url \<and> http_errno ps = HPE_OK"
  by (cases m) (simp_all add: run_eval exec_loop.simps http_method_str_def)

text \<open>The dispatch also accepts what is no method: with a wrong second letter the request
  line \<open>GXT / HTTP/1.1\<close> is parsed to its end, as a \<open>GET\<close>, without an error.\<close>

theorem wrong_method_accepted:
  "\<exists>ps. http_parser_execute http_parser_settings_init (http_parser_init HTTP_REQUEST)
      (''GXT / HTTP/1.1'' @ [CR, LF, CR, LF]) () = Some (Returned 18 ps ()) \<and>
    method ps = HTTP_GET \<and> http_errno ps = HPE_OK \<and> state ps = s_start_req"
  by (simp add: run_eval exec_loop.simps)

subsection \<open>Header names\<close>

text \<open>The incremental matcher of header names computes a function of the whole name: for
  a name of token characters followed by a colon, the loop stops at the colon, and the state it
  leaves makes the parser treat the value as the comparison of the lower-cased name with the
  five known names says.\<close>

theorem header_name_recognised:
  assumes "list_all (\<lambda>c. TOKEN c \<noteq> NUL) (x # xs)"
  shows "\<exists>ps'. header_field_loop (xs @ CHR '':'' # rest)
        (ps\<lparr>index := 0, header_state := first_header_state (TOKEN x)\<rparr>) 0 x =
      Some (ps', length xs, CHR '':'') \<and>
    settle (header_state ps') = header_kind (map TOKEN (x # xs)) \<and>
    header_value_first v ps' =
      header_value_first v (ps'\<lparr>header_state := header_kind (map TOKEN (x # xs))\<rparr>)"
proof -
  obtain ps' where ps': "header_field_loop (xs @ CHR '':'' # rest)
        (ps\<lparr>index := 0, header_state := first_header_state (TOKEN x)\<rparr>) 0 x =
      Some (ps', length xs, CHR '':'')"
    "settle (header_state ps') = header_kind (map TOKEN (x # xs))"
    "header_state ps' \<noteq> h_matching_connection_token_start"
    by (rule header_field_loop_name
          [of x xs "ps\<lparr>index := 0, header_state := first_header_state (TOKEN x)\<rparr>" rest])
      (use assms in \<open>auto simp: list_all_iff\<close>)
  with header_value_first_settle [OF ps'(3), of v] show ?thesis by simp
qed

lemma header_name_recognised_witness:
  "\<exists>ps'. header_field_loop (''pgrade'' @ CHR '':'' # [])
        ((http_parser_init HTTP_REQUEST)\<lparr>index := 0, header_state := first_header_state (TOKEN (CHR ''U''))\<rparr>) 0 (CHR ''U'') =
      Some (ps', length ''pgrade'', CHR '':'') \<and>
    settle (header_state ps') = header_kind (map TOKEN (CHR ''U'' # ''pgrade'')) \<and>
    header_value_first (CHR ''w'') ps' =
      header_value_first (CHR ''w'') (ps'\<lparr>header_state := header_kind (map TOKEN (CHR ''U'' # ''pgrade''))\<rparr>)"
  by (rule header_name_recognised) (simp add: char_eval)

text \<open>A header name may be cut by the end of a buffer at any place: running the loop on
  the first part and then on the second gives the state, the count and the last byte of a run
  over the whole.\<close>

theorem header_name_split:
  "header_field_loop (xs @ ys) ps n c0 =
     (case header_field_loop xs ps n c0 of
        None \<Rightarrow> None
      | Some (ps', m, c) \<Rightarrow>
          if m < n + length xs then Some (ps', m, c) else header_field_loop ys ps' m c)"
  by (rule header_field_loop_split)

subsection \<open>Header values\<close>

text \<open>Skipping to the end of a line with \<open>memchr\<close> changes nothing: on a buffer with at
  most \<open>HTTP_MAX_HEADER_SIZE\<close> bytes left, the loop over a header value stops for the same
  reason, at the same place, in the same state and with the same parser as a loop that looks
  at each byte.\<close>

theorem value_skip_correct:
  assumes "p \<le> length d" and "length d - p \<le> HTTP_MAX_HEADER_SIZE"
  shows "drop_char (header_value_loop d p h ps c0) = value_loop_ref (drop p d) p h ps"
  by (rule header_value_loop_ref [OF assms])

lemma value_skip_correct_witness:
  "drop_char (header_value_loop (''abc'' @ [CR]) 0 h_general (http_parser_init HTTP_REQUEST) NUL) =
     value_loop_ref (drop 0 (''abc'' @ [CR])) 0 h_general (http_parser_init HTTP_REQUEST)"
  by (rule value_skip_correct) (simp_all add: HTTP_MAX_HEADER_SIZE_def)

text \<open>C6: a \<open>Content-Length\<close> of decimal digits is read as a decimal number that does not wrap
  round at 64 bits, and the loop stops at the carriage return; it is refused exactly when the
  number without its last digit exceeds the code's limit \<open>(2 ^ 64 - 11) div 10\<close>.\<close>

theorem content_length_value:
  assumes "list_all IS_NUM (x # ds)" and "header_state ps = h_content_length"
    and "header_value_first x ps = Some ps1"
    and "length (ds @ CR # post) \<le> HTTP_MAX_HEADER_SIZE"
    and "header_value_loop (pre @ ds @ CR # post) (length pre) (header_state ps1) ps1 x =
      (stop, p, h, ps2, c)"
  shows "if ds = [] \<or> decimal_from 0 (butlast (x # ds)) \<le> length_limit
    then stop = Stop_CR \<and> p = length pre + length ds \<and>
      unat (content_length ps2) = decimal_from 0 (x # ds)
    else stop = Stop_bad"
proof -
  let ?d = "pre @ ds @ CR # post"
  let ?v = "decimal_digit x"
  have x: "IS_NUM x" "\<forall>c \<in> set ds. IS_NUM c" using assms(1) by (auto simp: list_all_iff)
  have ps1: "ps1 = ps\<lparr>content_length := digit_of x\<rparr>" "header_state ps1 = h_content_length"
    using assms(2,3) x(1) by (auto simp: header_value_first_def)
  have u: "unat (content_length ps1) = ?v"
    by (simp add: ps1(1) unat_digit_of64 [OF x(1)] decimal_digit_def)
  have small: "?v \<le> 9" using IS_NUM_small [OF x(1)] by (simp add: decimal_digit_def)
  have loop: "(stop, p, h, ps2) =
      value_loop_ref (ds @ CR # post) (length pre) h_content_length ps1"
    using header_value_loop_ref [of "length pre" ?d "header_state ps1" ps1 x] assms(4,5) ps1(2)
    by (simp add: drop_char_def)
  show ?thesis
  proof (cases "ds = [] \<or> decimal_from ?v (butlast ds) \<le> length_limit")
    case True
    have "decimal_from ?v ds < 2 ^ 64"
    proof (cases ds rule: rev_cases)
      case Nil
      then show ?thesis using small by simp
    next
      case (snoc ds' c)
      then show ?thesis
        using True x(2) decimal_small [of "decimal_from ?v ds'" c] by simp
    qed
    with loop value_loop_digits [OF x(2) u True, of "CR # post" "length pre"] True
    show ?thesis by (auto simp: unat_of_nat_64)
  next
    case False
    with arg_cong [OF loop, of fst] value_loop_overflow [OF x(2) u, of "CR # post" "length pre"]
    show ?thesis by auto
  qed
qed

definition length_header :: http_parser where
  "length_header = (http_parser_init HTTP_REQUEST)\<lparr>header_state := h_content_length\<rparr>"

lemma content_length_value_witness:
  "\<exists>stop p h ps2 c.
     header_value_loop (''42'' @ [CR]) 0 h_content_length (length_header\<lparr>content_length := 7\<rparr>)
       (CHR ''7'') = (stop, p, h, ps2, c) \<and>
     stop = Stop_CR \<and> p = 2 \<and> unat (content_length ps2) = 742"
proof -
  let ?ps1 = "length_header\<lparr>content_length := 7\<rparr>"
  obtain stop p h ps2 c where l:
    "header_value_loop (''42'' @ [CR]) 0 h_content_length ?ps1 (CHR ''7'') = (stop, p, h, ps2, c)"
    by (metis prod_cases5)
  have "list_all IS_NUM (CHR ''7'' # ''42'')" "header_state length_header = h_content_length"
    "header_value_first (CHR ''7'') length_header = Some ?ps1"
    "length (''42'' @ CR # []) \<le> HTTP_MAX_HEADER_SIZE"
    "header_value_loop ([] @ ''42'' @ CR # []) (length ([] :: string)) (header_state ?ps1) ?ps1
       (CHR ''7'') = (stop, p, h, ps2, c)"
    using l by (simp_all add: header_value_first_def char_eval length_header_def)
  from content_length_value [OF this]
  have "stop = Stop_CR \<and> p = 2 \<and> unat (content_length ps2) = 742"
    by (simp add: length_limit_def decimal_digit_def)
  with l show ?thesis by blast
qed

text \<open>A \<open>Transfer-Encoding\<close> value counts as chunked exactly when it is the word
  \<open>chunked\<close> in any case followed by blanks only.\<close>

theorem transfer_encoding_chunked:
  assumes "list_all (\<lambda>c. c \<noteq> CR \<and> c \<noteq> LF) (x # xs)" and "header_state ps = h_transfer_encoding"
    and "header_value_first x (ps\<lparr>index := 0\<rparr>) = Some ps1"
    and "length (xs @ CR # post) \<le> HTTP_MAX_HEADER_SIZE"
  shows "\<exists>h ps2. drop_char (header_value_loop (pre @ xs @ CR # post) (length pre)
        (header_state ps1) ps1 x) = (Stop_CR, length pre + length xs, h, ps2) \<and>
    (h = h_transfer_encoding_chunked \<longleftrightarrow> te_chunked (x # xs))"
proof -
  let ?d = "pre @ xs @ CR # post"
  have "tracks_te [x] (header_state ps1) ps1"
    using assms(2,3) te_chunked_mismatch [of "[]" x]
    by (auto simp: header_value_first_def tracks_te_def CHUNKED_def split: if_splits)
  from value_loop_te [OF this, of xs "CR # post" "length pre"] assms(1) obtain h ps2
    where "value_loop_ref (xs @ CR # post) (length pre) (header_state ps1) ps1 =
        value_loop_ref (CR # post) (length pre + length xs) h ps2"
      "tracks_te ([x] @ xs) h ps2" by (auto simp: list_all_iff)
  then have "value_loop_ref (xs @ CR # post) (length pre) (header_state ps1) ps1 =
        (Stop_CR, length pre + length xs, h, ps2)"
      "h = h_transfer_encoding_chunked \<longleftrightarrow> te_chunked (x # xs)"
    using tracks_te_result [of "x # xs" h ps2] by simp_all
  then show ?thesis
    using header_value_loop_ref [of "length pre" ?d "header_state ps1" ps1 x] assms(4) by simp
qed

definition encoding_header :: http_parser where
  "encoding_header = (http_parser_init HTTP_REQUEST)\<lparr>header_state := h_transfer_encoding\<rparr>"

lemma transfer_encoding_chunked_witness:
  "\<exists>h ps2. drop_char (header_value_loop (''hunked'' @ [CR]) 0
        h_matching_transfer_encoding_chunked
        (encoding_header\<lparr>header_state := h_matching_transfer_encoding_chunked\<rparr>) (CHR ''C'')) =
      (Stop_CR, 6, h, ps2) \<and>
    (h = h_transfer_encoding_chunked \<longleftrightarrow> te_chunked ''Chunked'')"
proof -
  let ?ps1 = "encoding_header\<lparr>header_state := h_matching_transfer_encoding_chunked\<rparr>"
  have "list_all (\<lambda>c. c \<noteq> CR \<and> c \<noteq> LF) (CHR ''C'' # ''hunked'')"
    "header_state encoding_header = h_transfer_encoding"
    "header_value_first (CHR ''C'') (encoding_header\<lparr>index := 0\<rparr>) = Some ?ps1"
    "length (''hunked'' @ CR # []) \<le> HTTP_MAX_HEADER_SIZE"
    by (simp_all add: header_value_first_def char_eval encoding_header_def http_parser_init_def)
  from transfer_encoding_chunked [OF this, of "[]"] show ?thesis by (simp add: eval_nat_numeral)
qed

subsection \<open>Chunk sizes\<close>

text \<open>The loop over a chunk-size line of digits that the decoding table accepts reads the
  size as a hexadecimal number without wrapping round, and goes on after the carriage return in
  the state that expects the line feed.\<close>

theorem chunk_size_value:
  assumes "p_state e = s_chunk_size_start" and "pos e = length pre" and "nread (parser e) = 0"
    and "has_flag (parser e) F_CHUNKED" and "d = pre @ hs @ CR # post" and "hs \<noteq> []"
    and "list_all hex_digit hs" and "hex_from 0 (butlast hs) \<le> chunk_limit"
    and "length hs < HTTP_MAX_HEADER_SIZE"
  shows "\<exists>e'. exec_loop st d False e = exec_loop st d False e' \<and>
    p_state e' = s_chunk_size_almost_done \<and> pos e' = length pre + length hs + 1 \<and>
    unat (content_length (parser e')) = hex_from 0 hs"
  using chunk_size_line [OF assms(1-6) _ assms(8,9)] assms(7) by (simp add: list_all_iff)

definition chunk_start :: "unit exec" where
  "chunk_start =
     \<lparr>parser = (http_parser_init HTTP_REQUEST)\<lparr>flags := F_CHUNKED\<rparr>, world = (),
      p_state = s_chunk_size_start, pos = 0, ch = NUL, marks = (\<lambda>_. None)\<rparr>"

lemma chunk_size_value_witness:
  "\<exists>e'. exec_loop http_parser_settings_init (''1f'' @ [CR]) False chunk_start =
      exec_loop http_parser_settings_init (''1f'' @ [CR]) False e' \<and>
    p_state e' = s_chunk_size_almost_done \<and> pos e' = 3 \<and>
    unat (content_length (parser e')) = hex_from 0 ''1f''"
proof -
  have "p_state chunk_start = s_chunk_size_start" "pos chunk_start = length ([] :: string)"
    "nread (parser chunk_start) = 0" "has_flag (parser chunk_start) F_CHUNKED"
    "''1f'' @ [CR] = [] @ ''1f'' @ CR # []" "''1f'' \<noteq> []" "list_all hex_digit ''1f''"
    "hex_from 0 (butlast ''1f'') \<le> chunk_limit" "length ''1f'' < HTTP_MAX_HEADER_SIZE"
    by (simp_all add: chunk_start_def http_parser_init_def has_flag_def hex_digit_def char_eval
        hex_from_def chunk_limit_def F_CHUNKED_def)
  from chunk_size_value [OF this, of http_parser_settings_init] show ?thesis
    by (simp add: eval_nat_numeral)
qed

text \<open>What the decoding table of chunk sizes accepts: the hexadecimal digits with their
  values, and, because the initialiser stops at 128 entries, every byte from 0x80 on, as a 0.\<close>

theorem unhex_table:
  "unhex_at c =
     (if IS_NUM c then of_char c - 48
      else if IS_HEX c then of_char (LOWER c) - 87
      else if CHR 0x80 \<le> c then 0
      else -1)"
  by (simp add: unhex_at_contents hex_value_def)

end
