(* ===== verification/Url_Parser.thy ===== *)
theory Url_Parser
  imports Url_Char
begin

text \<open>
  \<open>http_parser_parse_url\<close> of \<^verbatim>\<open>http_parser.c\<close> with \<open>http_parse_host\<close> and
  \<open>http_parse_host_char\<close>: the scan of a whole URL into fields given by 16-bit offsets and
  lengths, and the second scan of the host part.

  \<open>buf\<close> is the memory from the pointer on, which may be longer than \<open>buflen\<close>:
  \<open>strtoul\<close> does not know \<open>buflen\<close>. A read beyond that memory is \<open>None\<close> or \<open>Url_abort\<close>.
\<close>

subsection \<open>Data\<close>

datatype http_parser_url_fields =
  UF_SCHEMA | UF_HOST | UF_PORT | UF_PATH | UF_QUERY | UF_FRAGMENT | UF_USERINFO

primrec uf_code :: "http_parser_url_fields \<Rightarrow> nat" where
  "uf_code UF_SCHEMA = 0"
| "uf_code UF_HOST = 1"
| "uf_code UF_PORT = 2"
| "uf_code UF_PATH = 3"
| "uf_code UF_QUERY = 4"
| "uf_code UF_FRAGMENT = 5"
| "uf_code UF_USERINFO = 6"

record url_field_data =
  off :: "16 word"
  len :: "16 word"

record http_parser_url =
  field_set :: "16 word"
  port :: "16 word"
  field_data :: "http_parser_url_fields \<Rightarrow> url_field_data"

definition http_parser_url_init :: http_parser_url where
  "http_parser_url_init = \<lparr>field_set = 0, port = 0, field_data = (\<lambda>_. \<lparr>off = 0, len = 0\<rparr>)\<rparr>"

definition uf_bit :: "http_parser_url_fields \<Rightarrow> 16 word" where
  "uf_bit f = push_bit (uf_code f) 1"

definition has_field :: "http_parser_url \<Rightarrow> http_parser_url_fields \<Rightarrow> bool" where
  "has_field u f \<longleftrightarrow> field_set u AND uf_bit f \<noteq> 0"

definition add_field :: "http_parser_url_fields \<Rightarrow> http_parser_url \<Rightarrow> http_parser_url" where
  "add_field f u = u\<lparr>field_set := field_set u OR uf_bit f\<rparr>"

definition set_off :: "http_parser_url_fields \<Rightarrow> 16 word \<Rightarrow> http_parser_url \<Rightarrow> http_parser_url" where
  "set_off f n u = u\<lparr>field_data := (field_data u)(f := (field_data u f)\<lparr>off := n\<rparr>)\<rparr>"

definition set_len :: "http_parser_url_fields \<Rightarrow> 16 word \<Rightarrow> http_parser_url \<Rightarrow> http_parser_url" where
  "set_len f n u = u\<lparr>field_data := (field_data u)(f := (field_data u f)\<lparr>len := n\<rparr>)\<rparr>"

definition inc_len :: "http_parser_url_fields \<Rightarrow> http_parser_url \<Rightarrow> http_parser_url" where
  "inc_len f u = set_len f (len (field_data u f) + 1) u"

subsection \<open>The host\<close>

datatype http_host_state =
    s_http_host_dead | s_http_userinfo_start | s_http_userinfo | s_http_host_start
  | s_http_host_v6_start | s_http_host | s_http_host_v6 | s_http_host_v6_end
  | s_http_host_v6_zone_start | s_http_host_v6_zone | s_http_host_port_start | s_http_host_port

definition is_zone_char :: "char \<Rightarrow> bool" where
  "is_zone_char ch \<longleftrightarrow>
     IS_ALPHANUM ch \<or> ch = CHR ''%'' \<or> ch = CHR ''.'' \<or> ch = CHR ''-'' \<or> ch = CHR ''_'' \<or>
     ch = CHR ''~''"

definition http_parse_host_char :: "http_host_state \<Rightarrow> char \<Rightarrow> http_host_state" where
  "http_parse_host_char s ch =
     (case s of
        s_http_userinfo \<Rightarrow>
          (if ch = CHR ''@'' then s_http_host_start
           else if IS_USERINFO_CHAR ch then s_http_userinfo else s_http_host_dead)
      | s_http_userinfo_start \<Rightarrow>
          (if ch = CHR ''@'' then s_http_host_start
           else if IS_USERINFO_CHAR ch then s_http_userinfo else s_http_host_dead)
      | s_http_host_start \<Rightarrow>
          (if ch = CHR ''['' then s_http_host_v6_start
           else if IS_HOST_CHAR ch then s_http_host else s_http_host_dead)
      | s_http_host \<Rightarrow>
          (if IS_HOST_CHAR ch then s_http_host
           else if ch = CHR '':'' then s_http_host_port_start else s_http_host_dead)
      | s_http_host_v6_end \<Rightarrow>
          (if ch = CHR '':'' then s_http_host_port_start else s_http_host_dead)
      | s_http_host_v6 \<Rightarrow>
          (if ch = CHR '']'' then s_http_host_v6_end
           else if IS_HEX ch \<or> ch = CHR '':'' \<or> ch = CHR ''.'' then s_http_host_v6
           else if ch = CHR ''%'' then s_http_host_v6_zone_start else s_http_host_dead)
      | s_http_host_v6_start \<Rightarrow>
          (if IS_HEX ch \<or> ch = CHR '':'' \<or> ch = CHR ''.'' then s_http_host_v6
           else s_http_host_dead)
      | s_http_host_v6_zone \<Rightarrow>
          (if ch = CHR '']'' then s_http_host_v6_end
           else if is_zone_char ch then s_http_host_v6_zone else s_http_host_dead)
      | s_http_host_v6_zone_start \<Rightarrow>
          (if is_zone_char ch then s_http_host_v6_zone else s_http_host_dead)
      | s_http_host_port \<Rightarrow> (if IS_NUM ch then s_http_host_port else s_http_host_dead)
      | s_http_host_port_start \<Rightarrow> (if IS_NUM ch then s_http_host_port else s_http_host_dead)
      | s_http_host_dead \<Rightarrow> s_http_host_dead)"

text \<open>The body of the loop of \<open>http_parse_host\<close> after the test for the dead state, at the
  offset \<open>p\<close>, from the state \<open>s\<close> to \<open>new_s\<close>.\<close>

definition host_field_step ::
  "nat \<Rightarrow> http_host_state \<Rightarrow> http_host_state \<Rightarrow> http_parser_url \<Rightarrow> http_parser_url" where
  "host_field_step p s new_s u =
     (case new_s of
        s_http_host \<Rightarrow>
          inc_len UF_HOST (if s \<noteq> s_http_host then set_off UF_HOST (of_nat p) u else u)
      | s_http_host_v6 \<Rightarrow>
          inc_len UF_HOST (if s \<noteq> s_http_host_v6 then set_off UF_HOST (of_nat p) u else u)
      | s_http_host_v6_zone_start \<Rightarrow> inc_len UF_HOST u
      | s_http_host_v6_zone \<Rightarrow> inc_len UF_HOST u
      | s_http_host_port \<Rightarrow>
          inc_len UF_PORT
            (if s \<noteq> s_http_host_port
             then add_field UF_PORT (set_len UF_PORT 0 (set_off UF_PORT (of_nat p) u)) else u)
      | s_http_userinfo \<Rightarrow>
          inc_len UF_USERINFO
            (if s \<noteq> s_http_userinfo
             then add_field UF_USERINFO (set_len UF_USERINFO 0 (set_off UF_USERINFO (of_nat p) u))
             else u)
      | _ \<Rightarrow> u)"

text \<open>The loop over the bytes from the offset \<open>p\<close> on; \<open>Inl\<close> is the early \<open>return 1\<close>.\<close>

fun host_loop ::
  "string \<Rightarrow> nat \<Rightarrow> http_host_state \<Rightarrow> http_parser_url
   \<Rightarrow> http_parser_url + http_host_state \<times> http_parser_url" where
  "host_loop [] p s u = Inr (s, u)"
| "host_loop (c # cs) p s u =
     (let new_s = http_parse_host_char s c in
      if new_s = s_http_host_dead then Inl u
      else host_loop cs (Suc p) new_s (host_field_step p s new_s u))"

definition host_end_ok :: "http_host_state \<Rightarrow> bool" where
  "host_end_ok s \<longleftrightarrow>
     s \<notin> {s_http_host_start, s_http_host_v6_start, s_http_host_v6, s_http_host_v6_zone_start,
           s_http_host_v6_zone, s_http_host_port_start, s_http_userinfo, s_http_userinfo_start}"

text \<open>\<open>None\<close>: the \<open>assert\<close> fails or the loop reads outside the memory.\<close>

definition http_parse_host ::
  "string \<Rightarrow> http_parser_url \<Rightarrow> bool \<Rightarrow> (int \<times> http_parser_url) option" where
  "http_parse_host buf u found_at =
     (if \<not> has_field u UF_HOST then None
      else
        let start = unat (off (field_data u UF_HOST));
            buflen = start + unat (len (field_data u UF_HOST));
            u1 = set_len UF_HOST 0 u
        in if length buf < buflen then None
           else
             (case host_loop (take (buflen - start) (drop start buf)) start
                     (if found_at then s_http_userinfo_start else s_http_host_start) u1 of
                Inl u2 \<Rightarrow> Some (1, u2)
              | Inr (s, u2) \<Rightarrow> Some (if host_end_ok s then 0 else 1, u2)))"

subsection \<open>The whole URL\<close>

record url_scan =
  sc_state :: state
  old_uf :: "http_parser_url_fields option"
  found_at :: bool
  scanned :: http_parser_url

text \<open>The switch over the state after a character: the URL ends as dead, the character is
  a delimiter, it belongs to a field, or the \<open>assert\<close> of the default case fails.\<close>

datatype url_class = Class_dead | Class_skip | Class_field http_parser_url_fields | Class_assert

definition url_class :: "state \<Rightarrow> url_class" where
  "url_class s =
     (case s of
        s_dead \<Rightarrow> Class_dead
      | s_req_schema_slash \<Rightarrow> Class_skip
      | s_req_schema_slash_slash \<Rightarrow> Class_skip
      | s_req_server_start \<Rightarrow> Class_skip
      | s_req_query_string_start \<Rightarrow> Class_skip
      | s_req_fragment_start \<Rightarrow> Class_skip
      | s_req_schema \<Rightarrow> Class_field UF_SCHEMA
      | s_req_server_with_at \<Rightarrow> Class_field UF_HOST
      | s_req_server \<Rightarrow> Class_field UF_HOST
      | s_req_path \<Rightarrow> Class_field UF_PATH
      | s_req_query_string \<Rightarrow> Class_field UF_QUERY
      | s_req_fragment \<Rightarrow> Class_field UF_FRAGMENT
      | _ \<Rightarrow> Class_assert)"

text \<open>What a call returns: a value with the struct as it is then, or the call aborts.\<close>

datatype url_exit = Url_return int http_parser_url | Url_abort

definition scan_field :: "nat \<Rightarrow> http_parser_url_fields \<Rightarrow> url_scan \<Rightarrow> url_scan" where
  "scan_field p uf sc =
     (if old_uf sc = Some uf then sc\<lparr>scanned := inc_len uf (scanned sc)\<rparr>
      else sc\<lparr>scanned :=
                add_field uf (set_len uf 1 (set_off uf (of_nat p) (scanned sc))),
              old_uf := Some uf\<rparr>)"

fun url_scan_loop :: "string \<Rightarrow> nat \<Rightarrow> url_scan \<Rightarrow> url_exit + url_scan" where
  "url_scan_loop [] p sc = Inr sc"
| "url_scan_loop (c # cs) p sc =
     (let s = parse_url_char (sc_state sc) c; sc1 = sc\<lparr>sc_state := s\<rparr> in
      case url_class s of
        Class_dead \<Rightarrow> Inl (Url_return 1 (scanned sc1))
      | Class_skip \<Rightarrow> url_scan_loop cs (Suc p) sc1
      | Class_assert \<Rightarrow> Inl Url_abort
      | Class_field uf \<Rightarrow>
          url_scan_loop cs (Suc p)
            (scan_field p uf
              (if s = s_req_server_with_at then sc1\<lparr>found_at := True\<rparr> else sc1)))"

text \<open>
  \<open>strtoul(p, NULL, 10)\<close> on the bytes from \<open>p\<close> on: blanks, a sign, digits; a value that is
  too large becomes \<open>ULONG_MAX\<close>. \<open>None\<close>: no byte in the memory ends the digits.
\<close>

fun strtoul_digits :: "string \<Rightarrow> nat \<Rightarrow> nat option" where
  "strtoul_digits [] v = None"
| "strtoul_digits (c # cs) v =
     (if IS_NUM c then strtoul_digits cs (v * 10 + (of_char c - 48)) else Some v)"

definition saturate :: "nat \<Rightarrow> bool \<Rightarrow> 64 word" where
  "saturate v negative =
     (if v < 2 ^ 64 then (if negative then - of_nat v else of_nat v) else ULLONG_MAX)"

definition strtoul :: "string \<Rightarrow> 64 word option" where
  "strtoul s =
     (case dropWhile is_space s of
        [] \<Rightarrow> None
      | c # cs \<Rightarrow>
          (if c = CHR ''-'' then map_option (\<lambda>v. saturate v True) (strtoul_digits cs 0)
           else if c = CHR ''+'' then map_option (\<lambda>v. saturate v False) (strtoul_digits cs 0)
           else map_option (\<lambda>v. saturate v False) (strtoul_digits (c # cs) 0)))"

definition read_port :: "string \<Rightarrow> http_parser_url \<Rightarrow> url_exit" where
  "read_port buf u =
     (if has_field u UF_PORT then
        (case strtoul (drop (unat (off (field_data u UF_PORT))) buf) of
           None \<Rightarrow> Url_abort
         | Some v \<Rightarrow>
             if v > 0xFFFF then Url_return 1 u else Url_return 0 (u\<lparr>port := ucast v\<rparr>))
      else Url_return 0 u)"

definition check_connect :: "string \<Rightarrow> bool \<Rightarrow> http_parser_url \<Rightarrow> url_exit" where
  "check_connect buf is_connect u =
     (if is_connect \<and> field_set u \<noteq> uf_bit UF_HOST OR uf_bit UF_PORT then Url_return 1 u
      else read_port buf u)"

definition http_parser_parse_url ::
  "string \<Rightarrow> nat \<Rightarrow> bool \<Rightarrow> http_parser_url \<Rightarrow> url_exit" where
  "http_parser_parse_url buf buflen is_connect u0 =
     (if length buf < buflen then Url_abort
      else
        (case url_scan_loop (take buflen buf) 0
                \<lparr>sc_state = (if is_connect then s_req_server_start else s_req_spaces_before_url),
                 old_uf = None, found_at = False,
                 scanned = u0\<lparr>port := 0, field_set := 0\<rparr>\<rparr> of
           Inl r \<Rightarrow> r
         | Inr sc \<Rightarrow>
             (let u = scanned sc in
              if has_field u UF_SCHEMA \<and> \<not> has_field u UF_HOST then Url_return 1 u
              else if has_field u UF_HOST then
                (case http_parse_host buf u (found_at sc) of
                   None \<Rightarrow> Url_abort
                 | Some (r, u1) \<Rightarrow>
                     if r \<noteq> 0 then Url_return 1 u1 else check_connect buf is_connect u1)
              else check_connect buf is_connect u)))"

end
