(* ===== verification/Url_Fields.thy ===== *)
theory Url_Fields
  imports Url_Parser
begin

text \<open>
  What \<open>http_parser_parse_url\<close> promises: fields that lie inside the buffer, a result for
  every buffer that is followed by a NUL, and the parts of a well-formed URL. The struct is
  read through \<open>fields_of\<close>, a map from field names to offset and length as natural numbers.
\<close>

definition fields_of :: "http_parser_url \<Rightarrow> http_parser_url_fields \<Rightarrow> (nat \<times> nat) option" where
  "fields_of u f =
     (if has_field u f then Some (unat (off (field_data u f)), unat (len (field_data u f)))
      else None)"

lemma has_field_bit: "has_field u f \<longleftrightarrow> bit (field_set u) (uf_code f)"
  by (simp add: has_field_def uf_bit_def push_bit_eq_mult and_exp_eq_0_iff_not_bit)

lemma uf_code_less: "uf_code f < 16"
  by (cases f) simp_all

lemma uf_code_inject [simp]: "uf_code f = uf_code g \<longleftrightarrow> f = g"
  by (cases f; cases g) simp_all

lemma has_field_add [simp]: "has_field (add_field f u) g \<longleftrightarrow> g = f \<or> has_field u g"
  using uf_code_less [of g]
  by (auto simp: has_field_bit add_field_def bit_or_iff uf_bit_def push_bit_eq_mult bit_exp_iff)

lemma has_field_frame [simp]:
  "has_field (set_off f n u) g = has_field u g"
  "has_field (set_len f n u) g = has_field u g"
  "has_field (inc_len f u) g = has_field u g"
  "has_field (u\<lparr>port := q\<rparr>) g = has_field u g"
  "has_field (u\<lparr>field_data := d\<rparr>) g = has_field u g"
  "has_field (u\<lparr>field_set := 0\<rparr>) g = False"
  by (simp_all add: has_field_def set_off_def set_len_def inc_len_def)

lemma field_data_add [simp]: "field_data (add_field f u) = field_data u"
  by (simp add: add_field_def)

lemma fields_of_reset [simp]: "fields_of (u\<lparr>field_set := 0\<rparr>) = (\<lambda>_. None)"
  "fields_of (u\<lparr>port := q\<rparr>) = fields_of u"
  by (simp_all add: fields_of_def fun_eq_iff)

lemma fields_of_new:
  assumes "p < 2 ^ 16"
  shows "fields_of (add_field f (set_len f n (set_off f (of_nat p) u))) = (fields_of u)(f \<mapsto> (p, unat n))"
  using assms
  by (auto simp: fields_of_def set_off_def set_len_def fun_eq_iff unat_of_nat take_bit_nat_eq_self)

lemma fields_of_inc:
  assumes "fields_of u f = Some (o1, l)" and "l + 1 < 2 ^ 16"
  shows "fields_of (inc_len f u) = (fields_of u)(f \<mapsto> (o1, l + 1))"
  using assms
  by (auto simp: fields_of_def inc_len_def set_len_def fun_eq_iff unat_word_ariths has_field_def
      split: if_splits)

lemma fields_of_set_off:
  assumes "fields_of u f = Some (o1, l)" and "p < 2 ^ 16"
  shows "fields_of (set_off f (of_nat p) u) = (fields_of u)(f \<mapsto> (p, l))"
  using assms
  by (auto simp: fields_of_def set_off_def fun_eq_iff unat_of_nat take_bit_nat_eq_self has_field_def
      split: if_splits)

lemma fields_of_set_len:
  assumes "fields_of u f = Some (o1, l)"
  shows "fields_of (set_len f n u) = (fields_of u)(f \<mapsto> (o1, unat n))"
  using assms
  by (auto simp: fields_of_def set_len_def fun_eq_iff has_field_def split: if_splits)

subsection \<open>Fields inside the buffer\<close>

text \<open>Every field ends at or before a bound, which may differ from field to field.\<close>

definition inside :: "(http_parser_url_fields \<Rightarrow> nat) \<Rightarrow> http_parser_url \<Rightarrow> bool" where
  "inside b u \<longleftrightarrow> (\<forall>f i l. fields_of u f = Some (i, l) \<longrightarrow> i + l \<le> b f)"

lemma inside_mono: "inside b u \<Longrightarrow> b \<le> b' \<Longrightarrow> inside b' u"
  unfolding inside_def le_fun_def by (meson order_trans)

lemma inside_upd:
  assumes "inside b u" and "fields_of u' = (fields_of u)(f \<mapsto> (i, l))" and "b \<le> b'"
    and "i + l \<le> b' f"
  shows "inside b' u'"
  using assms inside_mono [OF assms(1,3)] unfolding inside_def by (auto split: if_splits)

lemma inside_new:
  assumes "inside b u" and "p < 2 ^ 16" and "b \<le> b'" and "p + unat n \<le> b' f"
  shows "inside b' (add_field f (set_len f n (set_off f (of_nat p) u)))"
  by (rule inside_upd [OF assms(1) fields_of_new [OF assms(2)] assms(3,4)])

lemma inside_inc:
  assumes "inside b u" and "has_field u f" and "b f < 2 ^ 16 - 1" and "b \<le> b'"
    and "b f < b' f"
  shows "inside b' (inc_len f u)"
proof -
  obtain i l where il: "fields_of u f = Some (i, l)" using assms(2) by (simp add: fields_of_def)
  then have "i + l \<le> b f" using assms(1) by (simp add: inside_def)
  then show ?thesis
    using inside_upd [OF assms(1) fields_of_inc [OF il] assms(4)] assms(3,5) by simp
qed

definition scan_inv :: "nat \<Rightarrow> url_scan \<Rightarrow> bool" where
  "scan_inv p sc \<longleftrightarrow>
     inside (\<lambda>_. p) (scanned sc) \<and>
     (\<forall>f. old_uf sc = Some f \<longrightarrow> has_field (scanned sc) f) \<and>
     (\<forall>f. has_field (scanned sc) f \<longrightarrow> f \<noteq> UF_PORT \<and> f \<noteq> UF_USERINFO)"

lemma url_class_states:
  "s \<in> url_states \<Longrightarrow> url_class s \<noteq> Class_assert \<and> url_class s \<noteq> Class_dead"
  by (auto simp: url_states_def url_class_def)

lemma url_class_field:
  "url_class s = Class_field f \<Longrightarrow> f \<noteq> UF_PORT \<and> f \<noteq> UF_USERINFO"
  by (cases s) (auto simp: url_class_def)

lemma scan_field_inv:
  assumes "scan_inv p sc" and "p < 2 ^ 16 - 1" and "f \<noteq> UF_PORT" and "f \<noteq> UF_USERINFO"
  shows "scan_inv (Suc p) (scan_field p f sc)"
proof (cases "old_uf sc = Some f")
  case True
  then have "has_field (scanned sc) f" using assms(1) by (simp add: scan_inv_def)
  with assms(1,2) inside_inc [of "\<lambda>_. p" "scanned sc" f "\<lambda>_. Suc p"] True show ?thesis
    by (simp add: scan_inv_def scan_field_def le_fun_def)
next
  case False
  with assms inside_new [of "\<lambda>_. p" "scanned sc" p "\<lambda>_. Suc p" 1 f] show ?thesis
    by (auto simp: scan_inv_def scan_field_def le_fun_def)
qed

lemma scan_inv_frame [simp]:
  "scan_inv p (sc\<lparr>sc_state := s\<rparr>) = scan_inv p sc"
  "scan_inv p (sc\<lparr>found_at := b\<rparr>) = scan_inv p sc"
  by (simp_all add: scan_inv_def)

lemma scan_inv_mono: "scan_inv p sc \<Longrightarrow> p \<le> q \<Longrightarrow> scan_inv q sc"
  by (auto simp: scan_inv_def le_fun_def intro: inside_mono)

lemma url_scan_loop_inv:
  assumes "scan_inv p sc" and "p + length cs < 2 ^ 16"
  shows "case url_scan_loop cs p sc of
      Inl r \<Rightarrow> \<exists>u. r = Url_return 1 u \<and> inside (\<lambda>_. p + length cs) u
    | Inr sc' \<Rightarrow> scan_inv (p + length cs) sc'"
  using assms
proof (induction cs arbitrary: p sc)
  case (Cons c cs)
  let ?s = "parse_url_char (sc_state sc) c"
  let ?sc1 = "sc\<lparr>sc_state := ?s\<rparr>"
  have p: "Suc p + length cs < 2 ^ 16" "p < 2 ^ 16 - 1" using Cons.prems(2) by simp_all
  have len: "p + length (c # cs) = Suc p + length cs" by simp
  have "case url_scan_loop (c # cs) p sc of
      Inl r \<Rightarrow> \<exists>u. r = Url_return 1 u \<and> inside (\<lambda>_. Suc p + length cs) u
    | Inr sc' \<Rightarrow> scan_inv (Suc p + length cs) sc'"
  proof (cases "?s = s_dead")
    case True
    then show ?thesis
      using Cons.prems(1) inside_mono [of "\<lambda>_. p" "scanned sc" "\<lambda>_. Suc p + length cs"]
      by (simp add: Let_def url_class_def scan_inv_def le_fun_def)
  next
    case False
    then have u: "?s \<in> url_states" by (rule parse_url_char_url_state)
    show ?thesis
    proof (cases "url_class ?s")
      case Class_skip
      then show ?thesis
        using Cons.IH [of "Suc p" ?sc1] scan_inv_mono [OF Cons.prems(1), of "Suc p"] p
        by (simp add: Let_def)
    next
      case (Class_field f)
      then show ?thesis
        using Cons.IH [of "Suc p" "scan_field p f
            (if ?s = s_req_server_with_at then ?sc1\<lparr>found_at := True\<rparr> else ?sc1)"]
          scan_field_inv [of p _ f] Cons.prems(1) url_class_field [OF Class_field] p
        by (simp add: Let_def)
    qed (use url_class_states [OF u] in simp_all)
  qed
  then show ?case unfolding len .
qed simp

subsection \<open>The host\<close>

text \<open>While the host part is scanned, the three fields in it end before the current
  position, the others before the end \<open>n\<close> of the URL.\<close>

definition host_bound :: "nat \<Rightarrow> nat \<Rightarrow> http_parser_url_fields \<Rightarrow> nat" where
  "host_bound n p f = (if f \<in> {UF_HOST, UF_PORT, UF_USERINFO} then p else n)"

lemma host_bound_simps [simp]:
  "host_bound n p UF_HOST = p" "host_bound n p UF_PORT = p" "host_bound n p UF_USERINFO = p"
  "p \<le> q \<Longrightarrow> host_bound n p \<le> host_bound n q"
  by (auto simp: host_bound_def le_fun_def)

text \<open>The states in which no character of the host itself has been seen.\<close>

definition early_states :: "http_host_state set" where
  "early_states =
     {s_http_userinfo_start, s_http_userinfo, s_http_host_start, s_http_host_v6_start}"

definition host_inv :: "nat \<Rightarrow> nat \<Rightarrow> http_host_state \<Rightarrow> http_parser_url \<Rightarrow> bool" where
  "host_inv n p s u \<longleftrightarrow>
     inside (host_bound n p) u \<and> has_field u UF_HOST \<and>
     (s = s_http_host_port \<longrightarrow> has_field u UF_PORT) \<and>
     (s = s_http_userinfo \<longrightarrow> has_field u UF_USERINFO) \<and>
     (s \<in> early_states \<longrightarrow> len (field_data u UF_HOST) = 0)"

lemma inside_restart:
  assumes "inside b u" and "has_field u f" and "len (field_data u f) = 0" and "p < 2 ^ 16"
    and "p \<le> b f"
  shows "inside b (set_off f (of_nat p) u)"
proof -
  obtain i where i: "fields_of u f = Some (i, 0)" using assms(2,3) by (simp add: fields_of_def)
  show ?thesis
    using inside_upd [OF assms(1) fields_of_set_off [OF i assms(4)] order.refl] assms(5) by simp
qed

lemma http_parse_host_char_from:
  "http_parse_host_char s c = s_http_host \<Longrightarrow> s \<noteq> s_http_host \<Longrightarrow> s \<in> early_states"
  "http_parse_host_char s c = s_http_host_v6 \<Longrightarrow> s \<noteq> s_http_host_v6 \<Longrightarrow> s \<in> early_states"
  "http_parse_host_char s c \<in> early_states \<Longrightarrow> s \<in> early_states"
  by (cases s; auto simp: http_parse_host_char_def early_states_def split: if_splits)+

lemma field_data_frame [simp]:
  "g \<noteq> f \<Longrightarrow> field_data (set_off f n u) g = field_data u g"
  "g \<noteq> f \<Longrightarrow> field_data (set_len f n u) g = field_data u g"
  "g \<noteq> f \<Longrightarrow> field_data (inc_len f u) g = field_data u g"
  by (simp_all add: set_off_def set_len_def inc_len_def)

lemma host_step_inv:
  assumes "host_inv n p s u" and "p < 2 ^ 16 - 1"
    and "http_parse_host_char s c = s'" and "s' \<noteq> s_http_host_dead"
  shows "host_inv n (Suc p) s' (host_field_step p s s' u)"
proof -
  have inv: "inside (host_bound n p) u" "has_field u UF_HOST"
    "s = s_http_host_port \<Longrightarrow> has_field u UF_PORT"
    "s = s_http_userinfo \<Longrightarrow> has_field u UF_USERINFO"
    "s \<in> early_states \<Longrightarrow> len (field_data u UF_HOST) = 0"
    using assms(1) by (simp_all add: host_inv_def)
  let ?b = "host_bound n (Suc p)"
  have inc: "inside ?b (inc_len f v)"
    if "f \<in> {UF_HOST, UF_PORT, UF_USERINFO}" "inside (host_bound n p) v" "has_field v f" for f v
    using inside_inc [OF that(2,3), of ?b] that(1) assms(2) by auto
  have new: "inside ?b (inc_len f (add_field f (set_len f 0 (set_off f (of_nat p) u))))"
    if "f \<in> {UF_HOST, UF_PORT, UF_USERINFO}" for f
    using that inside_new [OF inv(1), of p "host_bound n p" 0 f] assms(2)
    by (intro inc) auto
  have restart: "inside ?b (inc_len UF_HOST (set_off UF_HOST (of_nat p) u))"
    if "s \<in> early_states"
    using inside_restart [OF inv(1,2) inv(5) [OF that], of p] assms(2) inv(2)
    by (intro inc) auto
  have keep: "inside ?b u" using inside_mono [OF inv(1)] by simp
  note from_early = http_parse_host_char_from [of s c, unfolded assms(3)]
  show ?thesis
  proof (cases s')
    case s_http_host
    with inv(1,2) from_early(1) restart inc [of UF_HOST u] show ?thesis
      by (simp add: host_inv_def host_field_step_def early_states_def)
  next
    case s_http_host_v6
    with inv(1,2) from_early(2) restart inc [of UF_HOST u] show ?thesis
      by (simp add: host_inv_def host_field_step_def early_states_def)
  next
    case s_http_userinfo
    with inv from_early(3) new [of UF_USERINFO] inc [of UF_USERINFO u] show ?thesis
      by (simp add: host_inv_def host_field_step_def early_states_def)
  next
    case s_http_host_port
    with inv new [of UF_PORT] inc [of UF_PORT u] show ?thesis
      by (simp add: host_inv_def host_field_step_def early_states_def)
  next
    case s_http_host_v6_zone_start
    with inv(1,2) inc [of UF_HOST u] show ?thesis
      by (simp add: host_inv_def host_field_step_def early_states_def)
  next
    case s_http_host_v6_zone
    with inv(1,2) inc [of UF_HOST u] show ?thesis
      by (simp add: host_inv_def host_field_step_def early_states_def)
  qed (use inv keep from_early(3) assms(4) in
      \<open>simp_all add: host_inv_def host_field_step_def early_states_def\<close>)
qed

lemma host_loop_inv:
  assumes "host_inv n p s u" and "p + length cs < 2 ^ 16"
  shows "case host_loop cs p s u of
      Inl u' \<Rightarrow> inside (host_bound n (p + length cs)) u'
    | Inr (s', u') \<Rightarrow> host_inv n (p + length cs) s' u'"
  using assms
proof (induction cs arbitrary: p s u)
  case (Cons c cs)
  let ?s = "http_parse_host_char s c"
  have len: "p + length (c # cs) = Suc p + length cs" by simp
  have p: "p < 2 ^ 16 - 1" "Suc p + length cs < 2 ^ 16" using Cons.prems(2) by simp_all
  have "case host_loop (c # cs) p s u of
      Inl u' \<Rightarrow> inside (host_bound n (Suc p + length cs)) u'
    | Inr (s', u') \<Rightarrow> host_inv n (Suc p + length cs) s' u'"
  proof (cases "?s = s_http_host_dead")
    case True
    then show ?thesis
      using Cons.prems(1) inside_mono [of "host_bound n p" u "host_bound n (Suc p + length cs)"]
      by (simp add: Let_def host_inv_def)
  next
    case False
    then show ?thesis
      using Cons.IH [OF host_step_inv [OF Cons.prems(1) p(1) refl False] p(2)]
      by (simp add: Let_def)
  qed
  then show ?case unfolding len .
qed simp

lemma http_parse_host_ok:
  assumes "inside (\<lambda>_. n) u" and "has_field u UF_HOST" and "\<not> has_field u UF_PORT"
    and "\<not> has_field u UF_USERINFO" and "n < 2 ^ 16" and "n \<le> length buf"
  shows "\<exists>r u'. http_parse_host buf u b = Some (r, u') \<and> inside (\<lambda>_. n) u'"
proof -
  obtain i l where il: "fields_of u UF_HOST = Some (i, l)"
    using assms(2) by (simp add: fields_of_def)
  have le: "i + l \<le> n" using assms(1) il by (simp add: inside_def)
  have i: "unat (off (field_data u UF_HOST)) = i" "unat (len (field_data u UF_HOST)) = l"
    using il assms(2) by (simp_all add: fields_of_def)
  let ?u = "set_len UF_HOST 0 u"
  let ?s = "if b then s_http_userinfo_start else s_http_host_start"
  let ?cs = "take l (drop i buf)"
  have cs: "i + length ?cs = i + l" using le assms(6) by simp
  have "inside (host_bound n i) ?u"
    unfolding inside_def fields_of_set_len [OF il]
    using assms(1,3,4) il by (auto simp: inside_def host_bound_def fields_of_def split: if_splits)
  then have "host_inv n i ?s ?u"
    using assms(2) by (simp add: host_inv_def set_len_def early_states_def has_field_def)
  note h = host_loop_inv [OF this, of ?cs, unfolded cs]
  have inv: "case host_loop ?cs i ?s ?u of
      Inl u' \<Rightarrow> inside (host_bound n (i + l)) u' | Inr (s', u') \<Rightarrow> host_inv n (i + l) s' u'"
    by (rule h) (use le assms(5) in simp)
  have "host_bound n (i + l) \<le> (\<lambda>_. n)" using le by (simp add: host_bound_def le_fun_def)
  then have "case host_loop ?cs i ?s ?u of
      Inl u' \<Rightarrow> inside (\<lambda>_. n) u' | Inr (s', u') \<Rightarrow> inside (\<lambda>_. n) u'"
    using inv inside_mono by (fastforce simp: host_inv_def split: sum.splits prod.splits)
  then show ?thesis
    using assms(2) le assms(6)
    by (auto simp: http_parse_host_def i Let_def split: sum.splits prod.splits)
qed

subsection \<open>The port\<close>

lemma strtoul_digits_total: "\<exists>c \<in> set s. \<not> IS_NUM c \<Longrightarrow> \<exists>v. strtoul_digits s v0 = Some v"
  by (induction s arbitrary: v0) auto

lemma NUL_not: "\<not> IS_NUM NUL" "\<not> is_space NUL"
  by (simp_all add: IS_NUM_def is_space_def)

lemma strtoul_total:
  assumes "NUL \<in> set s"
  shows "\<exists>v. strtoul s = Some v"
proof -
  have n: "NUL \<in> set (dropWhile is_space s)"
    using assms NUL_not(2) by (induction s) auto
  then obtain c cs where c: "dropWhile is_space s = c # cs" by (cases "dropWhile is_space s") auto
  have "\<exists>x \<in> set (c # cs). \<not> IS_NUM x" using n c NUL_not(1) by auto
  moreover have "c \<noteq> NUL \<Longrightarrow> \<exists>x \<in> set cs. \<not> IS_NUM x" using n c NUL_not(1) by auto
  ultimately show ?thesis
    using strtoul_digits_total [of cs 0] strtoul_digits_total [of "c # cs" 0] c
    by (auto simp: strtoul_def)
qed

lemma read_port_ok:
  assumes "inside (\<lambda>_. n) u" and "n < length buf" and "buf ! n = NUL"
  shows "\<exists>r u'. read_port buf u = Url_return r u' \<and> r \<in> {0, 1} \<and> inside (\<lambda>_. n) u'"
proof (cases "has_field u UF_PORT")
  case True
  let ?o = "unat (off (field_data u UF_PORT))"
  have "fields_of u UF_PORT = Some (?o, unat (len (field_data u UF_PORT)))"
    using True by (simp add: fields_of_def)
  then have "?o \<le> n" using assms(1) by (fastforce simp: inside_def)
  then have "drop ?o buf ! (n - ?o) = NUL" "n - ?o < length (drop ?o buf)"
    using assms(2,3) by simp_all
  then have "NUL \<in> set (drop ?o buf)" by (metis nth_mem)
  from strtoul_total [OF this] assms(1) True show ?thesis
    by (auto simp: read_port_def inside_def)
next
  case False
  with assms(1) show ?thesis by (simp add: read_port_def)
qed

lemma check_connect_ok:
  assumes "inside (\<lambda>_. n) u" and "n < length buf" and "buf ! n = NUL"
  shows "\<exists>r u'. check_connect buf b u = Url_return r u' \<and> r \<in> {0, 1} \<and> inside (\<lambda>_. n) u'"
  using read_port_ok [OF assms] assms(1) by (simp add: check_connect_def)

lemma parse_url_total:
  assumes "buflen < 2 ^ 16" and "buflen < length buf" and "buf ! buflen = NUL"
  shows "\<exists>r u. http_parser_parse_url buf buflen is_connect u0 = Url_return r u \<and> r \<in> {0, 1} \<and>
    inside (\<lambda>_. buflen) u"
proof -
  let ?sc = "\<lparr>sc_state = (if is_connect then s_req_server_start else s_req_spaces_before_url),
      old_uf = None, found_at = False, scanned = u0\<lparr>port := 0, field_set := 0\<rparr>\<rparr>"
  have inv: "scan_inv 0 ?sc" by (simp add: scan_inv_def inside_def)
  have l: "0 + length (take buflen buf) = buflen" using assms(2) by simp
  note scan = url_scan_loop_inv [OF inv, of "take buflen buf", unfolded l, OF assms(1)]
  show ?thesis
  proof (cases "url_scan_loop (take buflen buf) 0 ?sc")
    case (Inl r)
    with scan assms(2) show ?thesis by (auto simp: http_parser_parse_url_def)
  next
    case (Inr sc)
    let ?u = "scanned sc"
    have u: "inside (\<lambda>_. buflen) ?u" "\<not> has_field ?u UF_PORT" "\<not> has_field ?u UF_USERINFO"
      using scan Inr by (auto simp: scan_inv_def)
    show ?thesis
    proof (cases "has_field ?u UF_HOST")
      case True
      from http_parse_host_ok [OF u(1) True u(2,3) assms(1), of buf "found_at sc"] assms(2)
      obtain r u' where "http_parse_host buf ?u (found_at sc) = Some (r, u')"
        "inside (\<lambda>_. buflen) u'" by auto
      with Inr True assms(2) check_connect_ok [OF _ assms(2,3), of u' is_connect] show ?thesis
        by (auto simp: http_parser_parse_url_def Let_def)
    next
      case False
      with Inr u(1) assms(2) check_connect_ok [OF u(1) assms(2,3), of is_connect] show ?thesis
        by (auto simp: http_parser_parse_url_def Let_def)
    qed
  qed
qed

end
