(* ===== verification/Url_Parts.thy ===== *)
theory Url_Parts
  imports Url_Fields
begin

text \<open>
  The parts of a URL: \<open>http_parser_parse_url\<close> takes a URL that is put together from a
  schema, an optional user part, a host, an optional port, a path, an optional query and an
  optional fragment back into these parts.
\<close>

subsection \<open>The scan, segment by segment\<close>

lemma port_frame [simp]:
  "port (set_off f n u) = port u" "port (set_len f n u) = port u"
  "port (inc_len f u) = port u" "port (add_field f u) = port u"
  by (simp_all add: set_off_def set_len_def inc_len_def add_field_def)

lemma port_host_step [simp]: "port (host_field_step p s s' u) = port u"
  by (cases s') (simp_all add: host_field_step_def)

definition at_url ::
  "url_scan \<Rightarrow> state \<Rightarrow> http_parser_url_fields option \<Rightarrow> bool
   \<Rightarrow> (http_parser_url_fields \<Rightarrow> (nat \<times> nat) option) \<Rightarrow> bool" where
  "at_url sc s o1 fa m \<longleftrightarrow>
     sc_state sc = s \<and> old_uf sc = o1 \<and> found_at sc = fa \<and> fields_of (scanned sc) = m \<and>
     port (scanned sc) = 0"

definition scans_to ::
  "string \<Rightarrow> nat \<Rightarrow> url_scan \<Rightarrow> state \<Rightarrow> http_parser_url_fields option \<Rightarrow> bool
   \<Rightarrow> (http_parser_url_fields \<Rightarrow> (nat \<times> nat) option) \<Rightarrow> bool" where
  "scans_to xs p sc s o1 fa m \<longleftrightarrow>
     (\<exists>sc'. (\<forall>ys. url_scan_loop (xs @ ys) p sc = url_scan_loop ys (p + length xs) sc') \<and>
        at_url sc' s o1 fa m)"

lemma scans_to_Nil: "at_url sc s o1 fa m \<Longrightarrow> scans_to [] p sc s o1 fa m"
  by (auto simp: scans_to_def)

lemma scans_to_append:
  assumes "scans_to xs p sc s1 o1 f1 m1"
    and "\<And>sc'. at_url sc' s1 o1 f1 m1 \<Longrightarrow> scans_to ys (p + length xs) sc' s2 o2 f2 m2"
  shows "scans_to (xs @ ys) p sc s2 o2 f2 m2"
proof -
  obtain sc1 where sc1: "\<And>zs. url_scan_loop (xs @ zs) p sc = url_scan_loop zs (p + length xs) sc1"
    "at_url sc1 s1 o1 f1 m1" using assms(1) by (auto simp: scans_to_def)
  with assms(2) [OF sc1(2)] show ?thesis by (auto simp: scans_to_def add.assoc)
qed

lemma scan_skip:
  assumes "at_url sc s0 o1 fa m" and "parse_url_char s0 c = s" and "url_class s = Class_skip"
  shows "scans_to [c] p sc s o1 fa m"
  using assms
  by (auto simp: scans_to_def at_url_def Let_def intro!: exI [of _ "sc\<lparr>sc_state := s\<rparr>"])

lemma scan_new:
  assumes "at_url sc s0 o1 fa m" and "parse_url_char s0 c = s" and "url_class s = Class_field f"
    and "o1 \<noteq> Some f" and "p < 2 ^ 16" and "s \<noteq> s_req_server_with_at"
  shows "scans_to [c] p sc s (Some f) fa (m(f \<mapsto> (p, 1)))"
proof -
  let ?sc = "scan_field p f (sc\<lparr>sc_state := s\<rparr>)"
  have "at_url ?sc s (Some f) fa (m(f \<mapsto> (p, 1)))"
    using assms(1,4) fields_of_new [OF assms(5), of f 1 "scanned sc"]
    by (simp add: at_url_def scan_field_def)
  with assms(1-3,6) show ?thesis
    by (auto simp: scans_to_def at_url_def Let_def intro!: exI [of _ ?sc])
qed

lemma scan_more:
  assumes "at_url sc s0 (Some f) fa m" and "parse_url_char s0 c = s" and "url_class s = Class_field f"
    and "m f = Some (i, l)" and "l + 1 < 2 ^ 16"
  shows "scans_to [c] p sc s (Some f) (fa \<or> s = s_req_server_with_at) (m(f \<mapsto> (i, l + 1)))"
proof -
  let ?sc1 = "sc\<lparr>sc_state := s\<rparr>"
  let ?sc = "scan_field p f (if s = s_req_server_with_at then ?sc1\<lparr>found_at := True\<rparr> else ?sc1)"
  have "fields_of (scanned sc) f = Some (i, l)" using assms(1,4) by (simp add: at_url_def)
  from fields_of_inc [OF this assms(5)] assms(1)
  have "at_url ?sc s (Some f) (fa \<or> s = s_req_server_with_at) (m(f \<mapsto> (i, l + 1)))"
    by (simp add: at_url_def scan_field_def)
  with assms(1-3) show ?thesis
    by (auto simp: scans_to_def at_url_def Let_def intro!: exI [of _ ?sc])
qed

lemma scan_run:
  assumes "at_url sc s (Some f) fa m" and "\<forall>c \<in> set xs. parse_url_char s c = s"
    and "url_class s = Class_field f" and "m f = Some (i, l)" and "l + length xs < 2 ^ 16"
    and "s \<noteq> s_req_server_with_at"
  shows "scans_to xs p sc s (Some f) fa (m(f \<mapsto> (i, l + length xs)))"
  using assms
proof (induction xs arbitrary: sc m l p)
  case Nil
  then show ?case by (auto intro!: scans_to_Nil simp: fun_upd_idem)
next
  case (Cons c cs)
  have one: "scans_to [c] p sc s (Some f) fa (m(f \<mapsto> (i, l + 1)))"
    using scan_more [OF Cons.prems(1) _ Cons.prems(3,4), of c p] Cons.prems(2,5,6) by simp
  have "scans_to ([c] @ cs) p sc s (Some f) fa (m(f \<mapsto> (i, l + length (c # cs))))"
  proof (rule scans_to_append [OF one])
    fix sc' assume "at_url sc' s (Some f) fa (m(f \<mapsto> (i, l + 1)))"
    then have "scans_to cs (p + length [c]) sc' s (Some f) fa
        ((m(f \<mapsto> (i, l + 1)))(f \<mapsto> (i, l + 1 + length cs)))"
      by (rule Cons.IH) (use Cons.prems(2,3,5,6) in simp_all)
    then show "scans_to cs (p + length [c]) sc' s (Some f) fa (m(f \<mapsto> (i, l + length (c # cs))))"
      unfolding fun_upd_upd by simp
  qed
  then show ?case by (simp del: fun_upd_apply)
qed

lemma scan_segment:
  assumes "at_url sc s0 o1 fa m" and "xs \<noteq> []" and "parse_url_char s0 (hd xs) = s"
    and "\<forall>c \<in> set (tl xs). parse_url_char s c = s" and "url_class s = Class_field f"
    and "o1 \<noteq> Some f" and "p + length xs < 2 ^ 16" and "s \<noteq> s_req_server_with_at"
  shows "scans_to xs p sc s (Some f) fa (m(f \<mapsto> (p, length xs)))"
proof -
  obtain c cs where xs: "xs = c # cs" using assms(2) by (cases xs) auto
  have one: "scans_to [c] p sc s (Some f) fa (m(f \<mapsto> (p, 1)))"
    using scan_new [OF assms(1) _ assms(5,6)] assms(3,7,8) by (simp add: xs)
  have "scans_to ([c] @ cs) p sc s (Some f) fa (m(f \<mapsto> (p, 1 + length cs)))"
  proof (rule scans_to_append [OF one])
    fix sc' assume "at_url sc' s (Some f) fa (m(f \<mapsto> (p, 1)))"
    then have "scans_to cs (p + length [c]) sc' s (Some f) fa
        ((m(f \<mapsto> (p, 1)))(f \<mapsto> (p, 1 + length cs)))"
      by (rule scan_run) (use assms(4,5,7,8) in \<open>simp_all add: xs\<close>)
    then show "scans_to cs (p + length [c]) sc' s (Some f) fa (m(f \<mapsto> (p, 1 + length cs)))"
      unfolding fun_upd_upd .
  qed
  then show ?thesis by (simp add: xs)
qed

subsection \<open>The parts\<close>

definition url_part :: "char \<Rightarrow> string option \<Rightarrow> string" where
  "url_part c x = (case x of None \<Rightarrow> [] | Some s \<Rightarrow> c # s)"

definition user_part :: "string option \<Rightarrow> string" where
  "user_part x = (case x of None \<Rightarrow> [] | Some s \<Rightarrow> s @ ''@'')"

definition no_delimiter :: "char \<Rightarrow> bool" where
  "no_delimiter c \<longleftrightarrow>
     c \<noteq> SP \<and> c \<noteq> CR \<and> c \<noteq> LF \<and> c \<noteq> TAB \<and> c \<noteq> CHR 0x0C \<and> c \<noteq> CHR ''?''"

lemma url_char_not: "IS_URL_CHAR c \<longrightarrow> no_delimiter c \<and> c \<noteq> CHR ''#''"
  by (rule all_chars [of "\<lambda>c. IS_URL_CHAR c \<longrightarrow> no_delimiter c \<and> c \<noteq> CHR ''#''"]) code_simp

lemma userinfo_not: "IS_USERINFO_CHAR c \<longrightarrow> no_delimiter c \<and> c \<noteq> CHR ''/'' \<and> c \<noteq> CHR ''@''"
  by (rule all_chars [of
        "\<lambda>c. IS_USERINFO_CHAR c \<longrightarrow> no_delimiter c \<and> c \<noteq> CHR ''/'' \<and> c \<noteq> CHR ''@''"])
    code_simp

lemma alpha_not:
  "IS_ALPHA c \<longrightarrow> no_delimiter c \<and> c \<noteq> CHR ''/'' \<and> c \<noteq> CHR ''*'' \<and> c \<noteq> CHR '':''"
  by (rule all_chars [of
        "\<lambda>c. IS_ALPHA c \<longrightarrow> no_delimiter c \<and> c \<noteq> CHR ''/'' \<and> c \<noteq> CHR ''*'' \<and> c \<noteq> CHR '':''"])
    code_simp

lemma parse_url_char_path:
  "IS_URL_CHAR c \<Longrightarrow> parse_url_char s_req_path c = s_req_path"
  "IS_URL_CHAR c \<Longrightarrow> parse_url_char s_req_query_string_start c = s_req_query_string"
  "IS_URL_CHAR c \<Longrightarrow> parse_url_char s_req_query_string c = s_req_query_string"
  "IS_URL_CHAR c \<Longrightarrow> parse_url_char s_req_fragment_start c = s_req_fragment"
  "IS_URL_CHAR c \<Longrightarrow> parse_url_char s_req_fragment c = s_req_fragment"
  using url_char_not [of c] by (simp_all add: parse_url_char_def no_delimiter_def)

lemma parse_url_char_server:
  "IS_USERINFO_CHAR c \<Longrightarrow> parse_url_char s_req_server_start c = s_req_server"
  "IS_USERINFO_CHAR c \<Longrightarrow> parse_url_char s_req_server c = s_req_server"
  "IS_USERINFO_CHAR c \<Longrightarrow> parse_url_char s_req_server_with_at c = s_req_server"
  using userinfo_not [of c] by (simp_all add: parse_url_char_def no_delimiter_def)

lemma parse_url_char_schema:
  "IS_ALPHA c \<Longrightarrow> parse_url_char s_req_spaces_before_url c = s_req_schema"
  "IS_ALPHA c \<Longrightarrow> parse_url_char s_req_schema c = s_req_schema"
  using alpha_not [of c] by (simp_all add: parse_url_char_def no_delimiter_def)

lemma scan_fragment:
  assumes "at_url sc s o1 fa m" and "s \<in> {s_req_path, s_req_query_string}" and "o1 \<noteq> Some UF_FRAGMENT"
    and "\<forall>t. frag = Some t \<longrightarrow> t \<noteq> [] \<and> (\<forall>c \<in> set t. IS_URL_CHAR c)"
    and "p + length (url_part (CHR ''#'') frag) < 2 ^ 16"
  shows "scans_to (url_part (CHR ''#'') frag) p sc
    (if frag = None then s else s_req_fragment) (if frag = None then o1 else Some UF_FRAGMENT) fa
    (case frag of None \<Rightarrow> m | Some t \<Rightarrow> m(UF_FRAGMENT \<mapsto> (p + 1, length t)))"
proof (cases frag)
  case None
  then show ?thesis using scans_to_Nil [OF assms(1)] by (auto simp: url_part_def)
next
  case (Some t)
  have one: "scans_to ''#'' p sc s_req_fragment_start o1 fa m"
    using assms(2) url_char_not [of "CHR ''#''"] by (intro scan_skip [OF assms(1)])
      (auto simp: parse_url_char_def url_class_def)
  have "scans_to (''#'' @ t) p sc s_req_fragment (Some UF_FRAGMENT) fa
      (m(UF_FRAGMENT \<mapsto> (p + 1, length t)))"
  proof (rule scans_to_append [OF one])
    fix sc' assume a: "at_url sc' s_req_fragment_start o1 fa m"
    have t: "t \<noteq> []" "\<forall>c \<in> set t. IS_URL_CHAR c" using assms(4) Some by auto
    then have "IS_URL_CHAR (hd t)" "\<forall>c \<in> set (tl t). IS_URL_CHAR c"
      by (auto dest: list.set_sel(2))
    then show "scans_to t (p + length ''#'') sc' s_req_fragment (Some UF_FRAGMENT) fa
        (m(UF_FRAGMENT \<mapsto> (p + 1, length t)))"
      using scan_segment [OF a t(1), of s_req_fragment UF_FRAGMENT "p + 1"] assms(3,5)
        parse_url_char_path(4,5)
      by (simp add: Some url_part_def url_class_def)
  qed
  with Some show ?thesis by (auto simp: url_part_def)
qed

lemma scan_query:
  assumes "at_url sc s_req_path (Some UF_PATH) fa m"
    and "\<forall>t. query = Some t \<longrightarrow> t \<noteq> [] \<and> (\<forall>c \<in> set t. IS_URL_CHAR c)"
    and "p + length (url_part (CHR ''?'') query) < 2 ^ 16"
  shows "scans_to (url_part (CHR ''?'') query) p sc
      (if query = None then s_req_path else s_req_query_string)
      (Some (if query = None then UF_PATH else UF_QUERY)) fa
      (case query of None \<Rightarrow> m | Some t \<Rightarrow> m(UF_QUERY \<mapsto> (p + 1, length t)))"
proof (cases query)
  case None
  then show ?thesis using scans_to_Nil [OF assms(1)] by (auto simp: url_part_def)
next
  case (Some t)
  have one: "scans_to ''?'' p sc s_req_query_string_start (Some UF_PATH) fa m"
    using url_char_not [of "CHR ''?''"] by (intro scan_skip [OF assms(1)])
      (auto simp: parse_url_char_def url_class_def no_delimiter_def)
  have "scans_to (''?'' @ t) p sc s_req_query_string (Some UF_QUERY) fa
      (m(UF_QUERY \<mapsto> (p + 1, length t)))"
  proof (rule scans_to_append [OF one])
    fix sc' assume a: "at_url sc' s_req_query_string_start (Some UF_PATH) fa m"
    have t: "t \<noteq> []" "\<forall>c \<in> set t. IS_URL_CHAR c" using assms(2) Some by auto
    then have "IS_URL_CHAR (hd t)" "\<forall>c \<in> set (tl t). IS_URL_CHAR c"
      by (auto dest: list.set_sel(2))
    then show "scans_to t (p + length ''?'') sc' s_req_query_string (Some UF_QUERY) fa
        (m(UF_QUERY \<mapsto> (p + 1, length t)))"
      using scan_segment [OF a t(1), of s_req_query_string UF_QUERY "p + 1"] assms(3)
        parse_url_char_path(2,3)
      by (simp add: Some url_part_def url_class_def)
  qed
  with Some show ?thesis by (auto simp: url_part_def)
qed

lemma scan_path:
  assumes "at_url sc s_req_server (Some UF_HOST) fa m" and "path = CHR ''/'' # path'"
    and "\<forall>c \<in> set path'. IS_URL_CHAR c" and "p + length path < 2 ^ 16"
  shows "scans_to path p sc s_req_path (Some UF_PATH) fa (m(UF_PATH \<mapsto> (p, length path)))"
  using parse_url_char_path(1) assms(3,4)
  by (intro scan_segment [OF assms(1)])
    (simp_all add: assms(2) url_class_def, simp add: parse_url_char_def)

lemma scan_schema:
  assumes "at_url sc s_req_spaces_before_url None fa m" and "schema \<noteq> []"
    and "\<forall>c \<in> set schema. IS_ALPHA c" and "p + length schema < 2 ^ 16"
  shows "scans_to (schema @ ''://'') p sc s_req_server_start (Some UF_SCHEMA) fa
    (m(UF_SCHEMA \<mapsto> (p, length schema)))"
proof -
  have "IS_ALPHA (hd schema)" "\<forall>c \<in> set (tl schema). IS_ALPHA c"
    using assms(2,3) by (auto dest: list.set_sel(2))
  then have 1: "scans_to schema p sc s_req_schema (Some UF_SCHEMA) fa
      (m(UF_SCHEMA \<mapsto> (p, length schema)))"
    using parse_url_char_schema assms(4)
    by (intro scan_segment [OF assms(1,2)]) (simp_all add: url_class_def)
  have alpha: "\<not> IS_ALPHA (CHR '':'')" using alpha_not [of "CHR '':''"] by blast
  have 2: "parse_url_char s_req_schema (CHR '':'') = s_req_schema_slash"
    "parse_url_char s_req_schema_slash (CHR ''/'') = s_req_schema_slash_slash"
    "parse_url_char s_req_schema_slash_slash (CHR ''/'') = s_req_server_start"
    using alpha by (simp_all add: parse_url_char_def)
  have 3: "scans_to ('':'' @ ''/'' @ ''/'') q sc' s_req_server_start (Some UF_SCHEMA) fa m'"
    if "at_url sc' s_req_schema (Some UF_SCHEMA) fa m'" for sc' q m'
    by (rule scans_to_append, rule scan_skip [OF that 2(1)], simp add: url_class_def,
        rule scans_to_append, erule scan_skip [OF _ 2(2)], simp add: url_class_def,
        erule scan_skip [OF _ 2(3)], simp add: url_class_def)
  show ?thesis
    by (rule scans_to_append [OF 1]) (use 3 in simp)
qed

text \<open>The host with its user part and port is one run of the field \<open>UF_HOST\<close>.\<close>

lemma scan_host_run:
  assumes "at_url sc s (Some UF_HOST) fa m" and "s \<in> {s_req_server, s_req_server_with_at}"
    and "xs \<noteq> []" and "\<forall>c \<in> set xs. IS_USERINFO_CHAR c" and "m UF_HOST = Some (i, l)"
    and "l + length xs < 2 ^ 16"
  shows "scans_to xs p sc s_req_server (Some UF_HOST) fa (m(UF_HOST \<mapsto> (i, l + length xs)))"
proof -
  obtain c cs where xs: "xs = c # cs" using assms(3) by (cases xs) auto
  have one: "scans_to [c] p sc s_req_server (Some UF_HOST) fa (m(UF_HOST \<mapsto> (i, l + 1)))"
    using scan_more [OF assms(1) _ _ assms(5), of c s_req_server p] assms(2,4,6)
      parse_url_char_server by (auto simp: xs url_class_def)
  have "scans_to ([c] @ cs) p sc s_req_server (Some UF_HOST) fa
      (m(UF_HOST \<mapsto> (i, l + length xs)))"
  proof (rule scans_to_append [OF one])
    fix sc' assume "at_url sc' s_req_server (Some UF_HOST) fa (m(UF_HOST \<mapsto> (i, l + 1)))"
    then have "scans_to cs (p + length [c]) sc' s_req_server (Some UF_HOST) fa
        ((m(UF_HOST \<mapsto> (i, l + 1)))(UF_HOST \<mapsto> (i, l + 1 + length cs)))"
      by (rule scan_run) (use assms(4,6) parse_url_char_server in \<open>simp_all add: xs url_class_def\<close>)
    then show "scans_to cs (p + length [c]) sc' s_req_server (Some UF_HOST) fa
        (m(UF_HOST \<mapsto> (i, l + length xs)))"
      unfolding fun_upd_upd by (simp add: xs)
  qed
  then show ?thesis by (simp add: xs)
qed

lemma scan_host_first:
  assumes "at_url sc s_req_server_start (Some UF_SCHEMA) fa m" and "xs \<noteq> []"
    and "\<forall>c \<in> set xs. IS_USERINFO_CHAR c" and "p + length xs < 2 ^ 16"
  shows "scans_to xs p sc s_req_server (Some UF_HOST) fa (m(UF_HOST \<mapsto> (p, length xs)))"
proof -
  have "IS_USERINFO_CHAR (hd xs)" "\<forall>c \<in> set (tl xs). IS_USERINFO_CHAR c"
    using assms(2,3) by (auto dest: list.set_sel(2))
  then show ?thesis
    using parse_url_char_server assms(4)
    by (intro scan_segment [OF assms(1,2)]) (simp_all add: url_class_def)
qed

lemma scan_authority:
  assumes "at_url sc s_req_server_start (Some UF_SCHEMA) False m" and "rest \<noteq> []"
    and "\<forall>c \<in> set rest. IS_USERINFO_CHAR c"
    and "\<forall>t. user = Some t \<longrightarrow> t \<noteq> [] \<and> (\<forall>c \<in> set t. IS_USERINFO_CHAR c)"
    and "p + length (user_part user @ rest) < 2 ^ 16"
  shows "scans_to (user_part user @ rest) p sc s_req_server (Some UF_HOST) (user \<noteq> None)
    (m(UF_HOST \<mapsto> (p, length (user_part user @ rest))))"
proof (cases user)
  case None
  with scan_host_first [OF assms(1-3)] assms(5) show ?thesis by (simp add: user_part_def)
next
  case (Some t)
  have t: "t \<noteq> []" "\<forall>c \<in> set t. IS_USERINFO_CHAR c" using assms(4) Some by auto
  have 1: "scans_to t p sc s_req_server (Some UF_HOST) False (m(UF_HOST \<mapsto> (p, length t)))"
    using assms(5) by (intro scan_host_first [OF assms(1) t]) (simp add: Some user_part_def)
  have at: "parse_url_char s_req_server (CHR ''@'') = s_req_server_with_at"
    by (simp add: parse_url_char_def)
  have 2: "scans_to ''@'' (p + length t) sc' s_req_server_with_at (Some UF_HOST) True
      (m(UF_HOST \<mapsto> (p, length t + 1)))"
    if "at_url sc' s_req_server (Some UF_HOST) False (m(UF_HOST \<mapsto> (p, length t)))" for sc'
    using scan_more [OF that at, of p "length t" "p + length t"] assms(5)
    by (simp add: Some user_part_def url_class_def)
  have 3: "scans_to rest q sc' s_req_server (Some UF_HOST) True
      (m(UF_HOST \<mapsto> (p, length t + 1 + length rest)))"
    if "at_url sc' s_req_server_with_at (Some UF_HOST) True (m(UF_HOST \<mapsto> (p, length t + 1)))"
    for sc' q
    using scan_host_run [OF that _ assms(2,3), of p "length t + 1" q] assms(5)
    by (simp add: Some user_part_def)
  have "scans_to (t @ ''@'' @ rest) p sc s_req_server (Some UF_HOST) True
      (m(UF_HOST \<mapsto> (p, length t + 1 + length rest)))"
    by (rule scans_to_append [OF 1], rule scans_to_append, erule 2, erule 3)
  then show ?thesis by (simp add: Some user_part_def)
qed

subsection \<open>The host, segment by segment\<close>

definition host_to ::
  "string \<Rightarrow> nat \<Rightarrow> http_host_state \<Rightarrow> http_parser_url \<Rightarrow> http_host_state
   \<Rightarrow> (http_parser_url_fields \<Rightarrow> (nat \<times> nat) option) \<Rightarrow> bool" where
  "host_to xs p s u s' m \<longleftrightarrow>
     (\<exists>u'. (\<forall>ys. host_loop (xs @ ys) p s u = host_loop ys (p + length xs) s' u') \<and>
        fields_of u' = m \<and> port u' = port u)"

lemma host_to_append:
  assumes "host_to xs p s u s1 m1"
    and "\<And>u'. fields_of u' = m1 \<Longrightarrow> host_to ys (p + length xs) s1 u' s2 m2"
  shows "host_to (xs @ ys) p s u s2 m2"
proof -
  obtain u1 where u1: "\<And>zs. host_loop (xs @ zs) p s u = host_loop zs (p + length xs) s1 u1"
    "fields_of u1 = m1" "port u1 = port u" using assms(1) by (auto simp: host_to_def)
  with assms(2) [OF u1(2)] show ?thesis by (auto simp: host_to_def add.assoc)
qed

lemma host_to_char:
  assumes "http_parse_host_char s c = s'" and "s' \<noteq> s_http_host_dead"
    and "fields_of (host_field_step p s s' u) = m"
  shows "host_to [c] p s u s' m"
  using assms by (auto simp: host_to_def Let_def)

lemma host_to_run:
  assumes "\<forall>c \<in> set xs. http_parse_host_char s c = s" and "s \<noteq> s_http_host_dead"
    and "\<And>p u. host_field_step p s s u = inc_len f u"
    and "fields_of u f = Some (i, l)" and "l + length xs < 2 ^ 16"
  shows "host_to xs p s u s ((fields_of u)(f \<mapsto> (i, l + length xs)))"
  using assms(1,4,5)
proof (induction xs arbitrary: u l p)
  case Nil
  then show ?case by (auto simp: host_to_def fun_upd_idem)
next
  case (Cons c cs)
  have inc: "fields_of (inc_len f u) = (fields_of u)(f \<mapsto> (i, l + 1))"
    using Cons.prems by (intro fields_of_inc) simp_all
  have "host_to ([c] @ cs) p s u s ((fields_of u)(f \<mapsto> (i, l + length (c # cs))))"
  proof (rule host_to_append)
    show "host_to [c] p s u s ((fields_of u)(f \<mapsto> (i, l + 1)))"
      using Cons.prems(1) assms(2,3) inc by (intro host_to_char) simp_all
    fix u' assume u': "fields_of u' = (fields_of u)(f \<mapsto> (i, l + 1))"
    have "host_to cs (p + length [c]) s u' s ((fields_of u')(f \<mapsto> (i, l + 1 + length cs)))"
      using Cons.prems(1,3) u' by (intro Cons.IH) simp_all
    then show "host_to cs (p + length [c]) s u' s ((fields_of u)(f \<mapsto> (i, l + length (c # cs))))"
      unfolding u' fun_upd_upd by simp
  qed
  then show ?case by (simp del: fun_upd_apply)
qed

text \<open>A segment whose first character starts the field anew.\<close>

lemma host_segment:
  assumes "xs \<noteq> []" and "http_parse_host_char s0 (hd xs) = s"
    and "\<forall>c \<in> set (tl xs). http_parse_host_char s c = s" and "s \<noteq> s_http_host_dead"
    and "\<And>p u. host_field_step p s s u = inc_len f u"
    and "fields_of (host_field_step p s0 s u) = m(f \<mapsto> (p, 1))" and "length xs < 2 ^ 16"
  shows "host_to xs p s0 u s (m(f \<mapsto> (p, length xs)))"
proof -
  obtain c cs where xs: "xs = c # cs" using assms(1) by (cases xs) auto
  have "host_to ([c] @ cs) p s0 u s (m(f \<mapsto> (p, length xs)))"
  proof (rule host_to_append)
    show "host_to [c] p s0 u s (m(f \<mapsto> (p, 1)))"
      using assms(2,4,6) by (intro host_to_char) (simp_all add: xs)
    fix u' assume u': "fields_of u' = m(f \<mapsto> (p, 1))"
    have "host_to cs (p + length [c]) s u' s ((fields_of u')(f \<mapsto> (p, 1 + length cs)))"
      using assms(3,7) u' by (intro host_to_run assms(4,5)) (simp_all add: xs)
    then show "host_to cs (p + length [c]) s u' s (m(f \<mapsto> (p, length xs)))"
      unfolding u' fun_upd_upd by (simp add: xs)
  qed
  then show ?thesis by (simp add: xs)
qed

lemma host_new_field:
  assumes "p < 2 ^ 16 - 1"
  shows "fields_of (inc_len f (add_field f (set_len f 0 (set_off f (of_nat p) u)))) =
    (fields_of u)(f \<mapsto> (p, 1))"
proof -
  have "fields_of (add_field f (set_len f 0 (set_off f (of_nat p) u))) = (fields_of u)(f \<mapsto> (p, 0))"
    using fields_of_new [of p f 0 u] assms by simp
  then show ?thesis using fields_of_inc [of _ f p 0] by simp
qed

lemma host_user:
  assumes "t \<noteq> []" and "\<forall>c \<in> set t. IS_USERINFO_CHAR c" and "p + length t < 2 ^ 16"
  shows "host_to (t @ ''@'') p s_http_userinfo_start u s_http_host_start
    ((fields_of u)(UF_USERINFO \<mapsto> (p, length t)))"
proof (rule host_to_append)
  have c: "http_parse_host_char s_http_userinfo_start c = s_http_userinfo"
    "http_parse_host_char s_http_userinfo c = s_http_userinfo" if "c \<in> set t" for c
    using that assms(2) userinfo_not [of c] by (auto simp: http_parse_host_char_def)
  have lt: "p < 65535" using assms(1,3) by (cases t) auto
  with c assms(1,3) show "host_to t p s_http_userinfo_start u s_http_userinfo
      ((fields_of u)(UF_USERINFO \<mapsto> (p, length t)))"
    using list.set_sel(2) [of t]
    by (intro host_segment) (auto simp: host_field_step_def host_new_field)
  fix u' assume "fields_of u' = (fields_of u)(UF_USERINFO \<mapsto> (p, length t))"
  then show "host_to ''@'' (p + length t) s_http_userinfo u' s_http_host_start
      ((fields_of u)(UF_USERINFO \<mapsto> (p, length t)))"
    by (intro host_to_char) (simp_all add: http_parse_host_char_def host_field_step_def)
qed

lemma host_name:
  assumes "host \<noteq> []" and "\<forall>c \<in> set host. IS_HOST_CHAR c" and "p + length host < 2 ^ 16"
    and "fields_of u UF_HOST = Some (i, 0)"
  shows "host_to host p s_http_host_start u s_http_host
    ((fields_of u)(UF_HOST \<mapsto> (p, length host)))"
proof -
  have br: "IS_HOST_CHAR c \<Longrightarrow> c \<noteq> CHR ''[''" for c
    by (auto simp: char_eval)
  have c: "http_parse_host_char s_http_host_start c = s_http_host"
    "http_parse_host_char s_http_host c = s_http_host" if "c \<in> set host" for c
    using that assms(2) br [of c] by (simp_all add: http_parse_host_char_def)
  have lt: "p < 65535" using assms(1,3) by (cases host) auto
  have "fields_of (set_off UF_HOST (of_nat p) u) = (fields_of u)(UF_HOST \<mapsto> (p, 0))"
    using fields_of_set_off [OF assms(4), of p] lt by simp
  then have "fields_of (inc_len UF_HOST (set_off UF_HOST (of_nat p) u)) =
      (fields_of u)(UF_HOST \<mapsto> (p, 1))"
    using fields_of_inc [of _ UF_HOST p 0] by simp
  with c assms(1,3) show ?thesis
    using list.set_sel(2) [of host]
    by (intro host_segment) (auto simp: host_field_step_def)
qed

lemma host_port:
  assumes "ds \<noteq> []" and "\<forall>c \<in> set ds. IS_NUM c" and "p + 1 + length ds < 2 ^ 16"
  shows "host_to (CHR '':'' # ds) p s_http_host u s_http_host_port
    ((fields_of u)(UF_PORT \<mapsto> (p + 1, length ds)))"
proof -
  have col: "\<not> IS_HOST_CHAR (CHR '':'')" by (simp add: char_eval)
  have "host_to ('':'' @ ds) p s_http_host u s_http_host_port
      ((fields_of u)(UF_PORT \<mapsto> (p + 1, length ds)))"
  proof (rule host_to_append)
    show "host_to '':'' p s_http_host u s_http_host_port_start (fields_of u)"
      using col by (intro host_to_char) (simp_all add: http_parse_host_char_def host_field_step_def)
    fix u' assume u': "fields_of u' = fields_of u"
    have c: "http_parse_host_char s_http_host_port_start c = s_http_host_port"
      "http_parse_host_char s_http_host_port c = s_http_host_port" if "c \<in> set ds" for c
      using that assms(2) by (simp_all add: http_parse_host_char_def)
    have lt: "p + 1 < 65535" using assms(1,3) by (cases ds) auto
    have "host_to ds (p + 1) s_http_host_port_start u' s_http_host_port
        ((fields_of u')(UF_PORT \<mapsto> (p + 1, length ds)))"
      by (rule host_segment)
        (use c lt assms(1,3) host_new_field [of "p + 1" UF_PORT] list.set_sel [of ds] in
          \<open>auto simp: host_field_step_def\<close>)
    then show "host_to ds (p + length '':'') s_http_host_port_start u' s_http_host_port
        ((fields_of u)(UF_PORT \<mapsto> (p + 1, length ds)))"
      by (simp add: u' del: fun_upd_apply)
  qed
  then show ?thesis by simp
qed

subsection \<open>The number of the port\<close>

lemma strtoul_digits_value:
  "\<forall>c \<in> set ds. IS_NUM c \<Longrightarrow> \<not> IS_NUM x \<Longrightarrow>
     strtoul_digits (ds @ x # rest) v = Some (decimal_from v ds)"
  by (induction ds arbitrary: v) (simp_all add: decimal_digit_def)

lemma num_not_space: "IS_NUM c \<longrightarrow> \<not> is_space c \<and> c \<noteq> CHR ''-'' \<and> c \<noteq> CHR ''+''"
  by (rule all_chars [of "\<lambda>c. IS_NUM c \<longrightarrow> \<not> is_space c \<and> c \<noteq> CHR ''-'' \<and> c \<noteq> CHR ''+''"])
    code_simp

lemma strtoul_value:
  assumes "ds \<noteq> []" and "\<forall>c \<in> set ds. IS_NUM c" and "\<not> IS_NUM x"
  shows "strtoul (ds @ x # rest) = Some (saturate (decimal_from 0 ds) False)"
proof -
  obtain c cs where ds: "ds = c # cs" using assms(1) by (cases ds) auto
  have c: "IS_NUM c" "\<not> is_space c" "c \<noteq> CHR ''-''" "c \<noteq> CHR ''+''"
    using assms(2) num_not_space [of c] by (auto simp: ds)
  then show ?thesis
    using strtoul_digits_value [OF assms(2,3), of rest 0] by (simp add: strtoul_def ds)
qed

lemma read_port_value:
  assumes "fields_of u UF_PORT = Some (p, length ds)" and "buf = pre @ ds @ x # rest"
    and "p = length pre" and "ds \<noteq> []" and "\<forall>c \<in> set ds. IS_NUM c" and "\<not> IS_NUM x"
  shows "if decimal_from 0 ds \<le> 65535
    then \<exists>q. unat q = decimal_from 0 ds \<and> read_port buf u = Url_return 0 (u\<lparr>port := q\<rparr>)
    else read_port buf u = Url_return 1 u"
proof -
  let ?v = "decimal_from 0 ds"
  have s: "strtoul (drop (unat (off (field_data u UF_PORT))) buf) = Some (saturate ?v False)"
    "has_field u UF_PORT"
    using assms(1-3) strtoul_value [OF assms(4-6), of rest]
    by (auto simp: fields_of_def split: if_splits)
  have v: "saturate ?v False = of_nat ?v" "unat (of_nat ?v :: 64 word) = ?v" if "?v < 2 ^ 64"
    using that unat_of_nat_64 [of ?v] by (simp_all add: saturate_def)
  have big: "\<not> ULLONG_MAX \<le> 0xFFFF" by (simp add: word_le_nat_alt unat_ULLONG_MAX)
  have le: "saturate ?v False \<le> 0xFFFF \<longleftrightarrow> ?v \<le> 65535"
    using v big by (cases "?v < 2 ^ 64") (simp_all add: word_le_nat_alt saturate_def)
  show ?thesis
  proof (cases "?v \<le> 65535")
    case True
    have "unat (ucast (saturate ?v False) :: 16 word) = ?v"
      using v True by (simp add: unsigned_ucast_eq take_bit_nat_eq_self)
    with True le s show ?thesis
      by (auto simp: read_port_def not_less intro!: exI [of _ "ucast (saturate ?v False)"])
  next
    case False
    with le s show ?thesis by (simp add: read_port_def not_le)
  qed
qed

subsection \<open>The whole URL\<close>

record url_parts =
  u_schema :: string
  u_user :: "string option"
  u_host :: string
  u_port :: "string option"
  u_path :: string
  u_query :: "string option"
  u_fragment :: "string option"

definition optional :: "(char \<Rightarrow> bool) \<Rightarrow> string option \<Rightarrow> bool" where
  "optional P x = (case x of None \<Rightarrow> True | Some s \<Rightarrow> s \<noteq> [] \<and> list_all P s)"

definition url_parts_ok :: "url_parts \<Rightarrow> bool" where
  "url_parts_ok x \<longleftrightarrow>
     u_schema x \<noteq> [] \<and> list_all IS_ALPHA (u_schema x) \<and>
     optional IS_USERINFO_CHAR (u_user x) \<and>
     u_host x \<noteq> [] \<and> list_all IS_HOST_CHAR (u_host x) \<and>
     optional IS_NUM (u_port x) \<and>
     u_path x \<noteq> [] \<and> hd (u_path x) = CHR ''/'' \<and> list_all IS_URL_CHAR (tl (u_path x)) \<and>
     optional IS_URL_CHAR (u_query x) \<and> optional IS_URL_CHAR (u_fragment x)"

definition authority_text :: "url_parts \<Rightarrow> string" where
  "authority_text x = user_part (u_user x) @ u_host x @ url_part (CHR '':'') (u_port x)"

definition url_text :: "url_parts \<Rightarrow> string" where
  "url_text x =
     (u_schema x @ ''://'') @ authority_text x @ u_path x @ url_part (CHR ''?'') (u_query x) @
     url_part (CHR ''#'') (u_fragment x)"

definition port_value :: "url_parts \<Rightarrow> nat" where
  "port_value x = (case u_port x of None \<Rightarrow> 0 | Some ds \<Rightarrow> decimal_from 0 ds)"

definition part_of_url :: "url_parts \<Rightarrow> http_parser_url_fields \<Rightarrow> string option" where
  "part_of_url x f =
     (case f of
        UF_SCHEMA \<Rightarrow> Some (u_schema x) | UF_HOST \<Rightarrow> Some (u_host x) | UF_PORT \<Rightarrow> u_port x
      | UF_PATH \<Rightarrow> Some (u_path x) | UF_QUERY \<Rightarrow> u_query x | UF_FRAGMENT \<Rightarrow> u_fragment x
      | UF_USERINFO \<Rightarrow> u_user x)"

definition field_text :: "string \<Rightarrow> http_parser_url \<Rightarrow> http_parser_url_fields \<Rightarrow> string option" where
  "field_text buf u f = map_option (\<lambda>(i, l). take l (drop i buf)) (fields_of u f)"

definition set_part ::
  "http_parser_url_fields \<Rightarrow> nat \<Rightarrow> string option
   \<Rightarrow> (http_parser_url_fields \<Rightarrow> (nat \<times> nat) option)
   \<Rightarrow> (http_parser_url_fields \<Rightarrow> (nat \<times> nat) option)" where
  "set_part f p x m = (case x of None \<Rightarrow> m | Some s \<Rightarrow> m(f \<mapsto> (p, length s)))"

lemma optional_iff: "optional P x \<longleftrightarrow> (\<forall>s. x = Some s \<longrightarrow> s \<noteq> [] \<and> (\<forall>c \<in> set s. P c))"
  by (simp add: optional_def list_all_iff split: option.split)

lemma host_char_userinfo: "IS_HOST_CHAR c \<longrightarrow> IS_USERINFO_CHAR c"
  by (rule all_chars [of "\<lambda>c. IS_HOST_CHAR c \<longrightarrow> IS_USERINFO_CHAR c"]) code_simp

lemma num_userinfo: "IS_NUM c \<longrightarrow> IS_USERINFO_CHAR c"
  by (rule all_chars [of "\<lambda>c. IS_NUM c \<longrightarrow> IS_USERINFO_CHAR c"]) code_simp

lemma colon_userinfo: "IS_USERINFO_CHAR (CHR '':'')"
  by code_simp

lemma host_port_userinfo:
  assumes "url_parts_ok x"
  shows "\<forall>c \<in> set (u_host x @ url_part (CHR '':'') (u_port x)). IS_USERINFO_CHAR c"
  using assms host_char_userinfo num_userinfo colon_userinfo
  by (auto simp: url_parts_ok_def url_part_def optional_def list_all_iff split: option.splits)

text \<open>The offsets of the parts.\<close>

definition authority_pos :: "url_parts \<Rightarrow> nat" where
  "authority_pos x = length (u_schema x) + 3"

definition host_pos :: "url_parts \<Rightarrow> nat" where
  "host_pos x = authority_pos x + length (user_part (u_user x))"

definition path_pos :: "url_parts \<Rightarrow> nat" where
  "path_pos x = authority_pos x + length (authority_text x)"

definition query_pos :: "url_parts \<Rightarrow> nat" where
  "query_pos x = path_pos x + length (u_path x)"

definition fragment_pos :: "url_parts \<Rightarrow> nat" where
  "fragment_pos x = query_pos x + length (url_part (CHR ''?'') (u_query x))"

lemmas pos_defs = authority_pos_def host_pos_def path_pos_def query_pos_def fragment_pos_def

definition scan_fields :: "url_parts \<Rightarrow> http_parser_url_fields \<Rightarrow> (nat \<times> nat) option" where
  "scan_fields x =
     set_part UF_FRAGMENT (fragment_pos x + 1) (u_fragment x)
       (set_part UF_QUERY (query_pos x + 1) (u_query x)
         [UF_SCHEMA \<mapsto> (0, length (u_schema x)),
          UF_HOST \<mapsto> (authority_pos x, length (authority_text x)),
          UF_PATH \<mapsto> (path_pos x, length (u_path x))])"

lemma scan_url:
  assumes "url_parts_ok x" and "length (url_text x) < 2 ^ 16"
    and "at_url sc s_req_spaces_before_url None False Map.empty"
  shows "\<exists>s o1. scans_to (url_text x) 0 sc s o1 (u_user x \<noteq> None) (scan_fields x)"
proof -
  note ok = assms(1) [unfolded url_parts_ok_def list_all_iff optional_iff]
  let ?m1 = "[UF_SCHEMA \<mapsto> (0, length (u_schema x))]"
  let ?m2 = "?m1(UF_HOST \<mapsto> (authority_pos x, length (authority_text x)))"
  let ?m3 = "?m2(UF_PATH \<mapsto> (path_pos x, length (u_path x)))"
  let ?m4 = "set_part UF_QUERY (query_pos x + 1) (u_query x) ?m3"
  let ?fa = "u_user x \<noteq> None"
  have len: "fragment_pos x + length (url_part (CHR ''#'') (u_fragment x)) < 2 ^ 16"
    using assms(2) by (simp add: url_text_def pos_defs)
  have le: "authority_pos x \<le> path_pos x" "path_pos x \<le> query_pos x" "query_pos x \<le> fragment_pos x"
    by (simp_all add: pos_defs)
  have 1: "scans_to (u_schema x @ ''://'') 0 sc s_req_server_start (Some UF_SCHEMA) False ?m1"
    using scan_schema [OF assms(3), of "u_schema x" 0] ok len by (simp add: pos_defs)
  have 2: "scans_to (authority_text x) (authority_pos x) sc' s_req_server (Some UF_HOST) ?fa ?m2"
    if "at_url sc' s_req_server_start (Some UF_SCHEMA) False ?m1" for sc'
    using scan_authority [OF that _ host_port_userinfo [OF assms(1)], of "u_user x" "authority_pos x"]
      ok len by (auto simp: authority_text_def pos_defs)
  have path: "u_path x = CHR ''/'' # tl (u_path x)" using ok by (cases "u_path x") simp_all
  have 3: "scans_to (u_path x) (path_pos x) sc' s_req_path (Some UF_PATH) ?fa ?m3"
    if "at_url sc' s_req_server (Some UF_HOST) ?fa ?m2" for sc'
    using scan_path [OF that path, of "path_pos x"] ok len le
    by (simp add: query_pos_def fragment_pos_def)
  let ?s = "if u_query x = None then s_req_path else s_req_query_string"
  let ?o = "Some (if u_query x = None then UF_PATH else UF_QUERY)"
  have 4: "scans_to (url_part (CHR ''?'') (u_query x)) (query_pos x) sc' ?s ?o ?fa ?m4"
    if "at_url sc' s_req_path (Some UF_PATH) ?fa ?m3" for sc'
    using scan_query [OF that, of "u_query x" "query_pos x"] ok len
    by (cases "u_query x") (simp_all add: fragment_pos_def set_part_def)
  have 5: "scans_to (url_part (CHR ''#'') (u_fragment x)) (fragment_pos x) sc'
      (if u_fragment x = None then ?s else s_req_fragment)
      (if u_fragment x = None then ?o else Some UF_FRAGMENT) ?fa (scan_fields x)"
    if "at_url sc' ?s ?o ?fa ?m4" for sc'
    using scan_fragment [OF that, of "u_fragment x" "fragment_pos x"] ok len
    by (cases "u_query x"; cases "u_fragment x") (simp_all add: scan_fields_def set_part_def)
  have "scans_to (url_text x) 0 sc (if u_fragment x = None then ?s else s_req_fragment)
      (if u_fragment x = None then ?o else Some UF_FRAGMENT) ?fa (scan_fields x)"
    unfolding url_text_def
  proof (rule scans_to_append [OF 1])
    fix sc1 assume a1: "at_url sc1 s_req_server_start (Some UF_SCHEMA) False ?m1"
    have p1: "0 + length (u_schema x @ ''://'') = authority_pos x" by (simp add: pos_defs)
    show "scans_to (authority_text x @ u_path x @ url_part (CHR ''?'') (u_query x) @
        url_part (CHR ''#'') (u_fragment x)) (0 + length (u_schema x @ ''://'')) sc1
        (if u_fragment x = None then ?s else s_req_fragment)
        (if u_fragment x = None then ?o else Some UF_FRAGMENT) ?fa (scan_fields x)"
      unfolding p1
      by (rule scans_to_append [OF 2 [OF a1]], fold path_pos_def,
          rule scans_to_append, erule 3, fold query_pos_def,
          rule scans_to_append, erule 4, fold fragment_pos_def, erule 5)
  qed
  then show ?thesis by blast
qed

definition url_fields :: "url_parts \<Rightarrow> http_parser_url_fields \<Rightarrow> (nat \<times> nat) option" where
  "url_fields x =
     set_part UF_PORT (host_pos x + length (u_host x) + 1) (u_port x)
       ((set_part UF_USERINFO (authority_pos x) (u_user x) (scan_fields x))
          (UF_HOST \<mapsto> (host_pos x, length (u_host x))))"

lemma set_part_other [simp]: "f \<noteq> g \<Longrightarrow> set_part f p x m g = m g"
  by (simp add: set_part_def split: option.split)

lemma set_part_upd:
  "f \<noteq> g \<Longrightarrow> (set_part f p x (m(g \<mapsto> y)))(g \<mapsto> z) = (set_part f p x m)(g \<mapsto> z)"
  by (auto simp: set_part_def fun_eq_iff split: option.split)

lemma host_parts:
  assumes "url_parts_ok x" and "length (url_text x) < 2 ^ 16"
    and "fields_of u = (scan_fields x)(UF_HOST \<mapsto> (authority_pos x, 0))"
  shows "\<exists>s. host_end_ok s \<and> host_to (authority_text x) (authority_pos x)
    (if u_user x \<noteq> None then s_http_userinfo_start else s_http_host_start) u s (url_fields x)"
proof -
  note ok = assms(1) [unfolded url_parts_ok_def list_all_iff optional_iff]
  have len: "path_pos x < 2 ^ 16"
    using assms(2) by (simp add: url_text_def pos_defs)
  have lens: "host_pos x + length (u_host x) + length (url_part (CHR '':'') (u_port x)) < 2 ^ 16"
    using len by (simp add: pos_defs authority_text_def)
  let ?m1 = "set_part UF_USERINFO (authority_pos x) (u_user x) (fields_of u)"
  let ?m2 = "?m1(UF_HOST \<mapsto> (host_pos x, length (u_host x)))"
  have eq: "url_fields x = set_part UF_PORT (host_pos x + length (u_host x) + 1) (u_port x) ?m2"
    by (simp add: url_fields_def assms(3) set_part_upd del: fun_upd_apply)
  have 1: "host_to (user_part (u_user x)) (authority_pos x)
      (if u_user x \<noteq> None then s_http_userinfo_start else s_http_host_start) u s_http_host_start ?m1"
  proof (cases "u_user x")
    case None
    then show ?thesis by (auto simp: host_to_def user_part_def set_part_def)
  next
    case (Some t)
    have "host_to (t @ ''@'') (authority_pos x) s_http_userinfo_start u s_http_host_start
        ((fields_of u)(UF_USERINFO \<mapsto> (authority_pos x, length t)))"
      using ok Some len by (intro host_user) (auto simp: pos_defs authority_text_def user_part_def)
    with Some show ?thesis by (simp add: user_part_def set_part_def)
  qed
  have 2: "host_to (u_host x) (host_pos x) s_http_host_start u' s_http_host ?m2"
    if "fields_of u' = ?m1" for u'
    using host_name [of "u_host x" "host_pos x" u' "authority_pos x"] ok lens that assms(3)
    by simp
  let ?s = "if u_port x = None then s_http_host else s_http_host_port"
  have 3: "host_to (url_part (CHR '':'') (u_port x)) (host_pos x + length (u_host x)) s_http_host u' ?s
      (url_fields x)" if u': "fields_of u' = ?m2" for u'
  proof (cases "u_port x")
    case None
    then show ?thesis using u' by (auto simp: host_to_def url_part_def set_part_def eq)
  next
    case (Some ds)
    then show ?thesis
      unfolding eq u' [symmetric]
      using host_port [of ds "host_pos x + length (u_host x)" u'] ok lens
      by (simp add: url_part_def set_part_def)
  qed
  have "host_to (authority_text x) (authority_pos x)
      (if u_user x \<noteq> None then s_http_userinfo_start else s_http_host_start) u ?s (url_fields x)"
    unfolding authority_text_def
    by (rule host_to_append [OF 1], fold host_pos_def, rule host_to_append, erule 2, erule 3)
  moreover have "host_end_ok ?s" by (simp add: host_end_ok_def)
  ultimately show ?thesis by blast
qed

lemma parse_host_parts:
  assumes "url_parts_ok x" and "length (url_text x) < 2 ^ 16" and "fields_of u = scan_fields x"
  shows "\<exists>u'. http_parse_host (url_text x @ rest) u (u_user x \<noteq> None) = Some (0, u') \<and>
    fields_of u' = url_fields x \<and> port u' = port u"
proof -
  have host: "fields_of u UF_HOST = Some (authority_pos x, length (authority_text x))"
    by (simp add: assms(3) scan_fields_def)
  then have h: "has_field u UF_HOST" "unat (off (field_data u UF_HOST)) = authority_pos x"
    "unat (len (field_data u UF_HOST)) = length (authority_text x)"
    by (simp_all add: fields_of_def split: if_splits)
  let ?u = "set_len UF_HOST 0 u"
  have u1: "fields_of ?u = (scan_fields x)(UF_HOST \<mapsto> (authority_pos x, 0))"
    using fields_of_set_len [OF host, of 0] assms(3) by simp
  let ?s0 = "if u_user x \<noteq> None then s_http_userinfo_start else s_http_host_start"
  obtain s where s: "host_end_ok s"
    "host_to (authority_text x) (authority_pos x) ?s0 ?u s (url_fields x)"
    using host_parts [OF assms(1,2) u1] by blast
  from s(2) obtain u' where u': "\<forall>ys. host_loop (authority_text x @ ys) (authority_pos x) ?s0 ?u =
      host_loop ys (authority_pos x + length (authority_text x)) s u'"
    "fields_of u' = url_fields x" "port u' = port ?u"
    unfolding host_to_def by blast
  have loop: "host_loop (authority_text x) (authority_pos x) ?s0 ?u = Inr (s, u')"
    using u'(1) [rule_format, of "[]"] by simp
  have t: "take (length (authority_text x)) (drop (authority_pos x) (url_text x @ rest)) =
      authority_text x" "authority_pos x + length (authority_text x) \<le> length (url_text x @ rest)"
    by (simp_all add: url_text_def authority_pos_def)
  with h s(1) u'(2,3) loop show ?thesis by (simp add: http_parse_host_def Let_def)
qed

lemma has_field_fields: "has_field u f \<longleftrightarrow> fields_of u f \<noteq> None"
  by (simp add: fields_of_def)

lemma take_mid: "length pre = i \<Longrightarrow> take (length s) (drop i (pre @ s @ post)) = s"
  by auto

lemma part_positions:
  "take (length (u_schema x)) (drop 0 (url_text x)) = u_schema x"
  "u_user x = Some t \<Longrightarrow> take (length t) (drop (authority_pos x) (url_text x)) = t"
  "take (length (u_host x)) (drop (host_pos x) (url_text x)) = u_host x"
  "u_port x = Some t \<Longrightarrow>
     take (length t) (drop (host_pos x + length (u_host x) + 1) (url_text x)) = t"
  "take (length (u_path x)) (drop (path_pos x) (url_text x)) = u_path x"
  "u_query x = Some t \<Longrightarrow> take (length t) (drop (query_pos x + 1) (url_text x)) = t"
  "u_fragment x = Some t \<Longrightarrow> take (length t) (drop (fragment_pos x + 1) (url_text x)) = t"
proof -
  let ?s = "u_schema x @ ''://''"
  let ?q = "url_part (CHR ''?'') (u_query x)"
  let ?f = "url_part (CHR ''#'') (u_fragment x)"
  let ?p = "url_part (CHR '':'') (u_port x)"
  note texts = url_text_def authority_text_def
  show "take (length (u_schema x)) (drop 0 (url_text x)) = u_schema x" by (simp add: texts)
  show "u_user x = Some t \<Longrightarrow> take (length t) (drop (authority_pos x) (url_text x)) = t"
    using take_mid [of ?s "authority_pos x" t "''@'' @ u_host x @ ?p @ u_path x @ ?q @ ?f"]
    by (simp add: texts pos_defs user_part_def)
  show "take (length (u_host x)) (drop (host_pos x) (url_text x)) = u_host x"
    using take_mid [of "?s @ user_part (u_user x)" "host_pos x" "u_host x" "?p @ u_path x @ ?q @ ?f"]
    by (simp add: texts pos_defs)
  show "u_port x = Some t \<Longrightarrow>
      take (length t) (drop (host_pos x + length (u_host x) + 1) (url_text x)) = t"
    using take_mid [of "?s @ user_part (u_user x) @ u_host x @ '':''"
        "host_pos x + length (u_host x) + 1" t "u_path x @ ?q @ ?f"]
    by (simp add: texts pos_defs url_part_def)
  show "take (length (u_path x)) (drop (path_pos x) (url_text x)) = u_path x"
    using take_mid [of "?s @ authority_text x" "path_pos x" "u_path x" "?q @ ?f"]
    by (simp add: url_text_def pos_defs)
  show "u_query x = Some t \<Longrightarrow> take (length t) (drop (query_pos x + 1) (url_text x)) = t"
    using take_mid [of "?s @ authority_text x @ u_path x @ ''?''" "query_pos x + 1" t ?f]
    by (simp add: url_text_def pos_defs url_part_def)
  show "u_fragment x = Some t \<Longrightarrow> take (length t) (drop (fragment_pos x + 1) (url_text x)) = t"
    using take_mid [of "?s @ authority_text x @ u_path x @ ?q @ ''#''" "fragment_pos x + 1" t "[]"]
    by (simp add: url_text_def pos_defs url_part_def)
qed

lemma url_fields_text:
  assumes "fields_of u = url_fields x"
  shows "field_text (url_text x) u f = part_of_url x f"
  using part_positions [of x]
  by (cases f) (simp_all add: field_text_def part_of_url_def assms url_fields_def set_part_def
      scan_fields_def split: option.split)

lemma parse_url_parts:
  assumes "url_parts_ok x" and "length (url_text x) < 2 ^ 16"
  shows "\<exists>u. http_parser_parse_url (url_text x @ rest) (length (url_text x)) False u0 =
      Url_return (if port_value x \<le> 65535 then 0 else 1) u \<and>
    (\<forall>f. field_text (url_text x) u f = part_of_url x f) \<and>
    (port_value x \<le> 65535 \<longrightarrow> unat (port u) = port_value x)"
proof -
  let ?buf = "url_text x @ rest"
  let ?sc = "\<lparr>sc_state = s_req_spaces_before_url, old_uf = None, found_at = False,
      scanned = u0\<lparr>port := 0, field_set := 0\<rparr>\<rparr>"
  have "at_url ?sc s_req_spaces_before_url None False Map.empty" by (simp add: at_url_def)
  from scan_url [OF assms this] obtain s o1 sc where
    sc: "\<forall>ys. url_scan_loop (url_text x @ ys) 0 ?sc = url_scan_loop ys (0 + length (url_text x)) sc"
    "at_url sc s o1 (u_user x \<noteq> None) (scan_fields x)"
    unfolding scans_to_def by blast
  have scanned: "url_scan_loop (url_text x) 0 ?sc = Inr sc" using sc(1) [rule_format, of "[]"] by simp
  have f: "fields_of (scanned sc) = scan_fields x" "found_at sc = (u_user x \<noteq> None)"
    "port (scanned sc) = 0" using sc(2) by (simp_all add: at_url_def)
  obtain u where host: "http_parse_host ?buf (scanned sc) (u_user x \<noteq> None) = Some (0, u)"
    "fields_of u = url_fields x" "port u = 0"
    using parse_host_parts [OF assms f(1), of rest] f(3) by auto
  have host_set: "has_field (scanned sc) UF_HOST" by (simp add: has_field_fields f(1) scan_fields_def)
  have parse: "http_parser_parse_url ?buf (length (url_text x)) False u0 = read_port ?buf u"
    using scanned f(2) host(1) host_set by (simp add: http_parser_parse_url_def check_connect_def)
  have parts: "\<forall>f. field_text (url_text x) v f = part_of_url x f" if "fields_of v = url_fields x" for v
    using url_fields_text [OF that] by blast
  show ?thesis
  proof (cases "u_port x")
    case None
    then have "\<not> has_field u UF_PORT"
      by (simp add: has_field_fields host(2) url_fields_def set_part_def scan_fields_def
          split: option.split)
    with None parse host(2,3) parts show ?thesis by (simp add: read_port_def port_value_def)
  next
    case (Some ds)
    define pre where "pre = u_schema x @ ''://'' @ user_part (u_user x) @ u_host x @ '':''"
    have ds: "ds \<noteq> []" "\<forall>c \<in> set ds. IS_NUM c"
      using assms(1) Some by (auto simp: url_parts_ok_def optional_iff)
    have "u_path x = CHR ''/'' # tl (u_path x)"
      using assms(1) by (cases "u_path x") (simp_all add: url_parts_ok_def)
    then have buf: "?buf = pre @ ds @ CHR ''/'' # (tl (u_path x) @ url_part (CHR ''?'') (u_query x) @
        url_part (CHR ''#'') (u_fragment x) @ rest)"
      by (metis (no_types, opaque_lifting) Some append.assoc append_Cons append_Nil authority_text_def
          option.case(2) pre_def url_part_def url_text_def)
    have pf: "fields_of u UF_PORT = Some (length pre, length ds)"
      by (simp add: host(2) url_fields_def set_part_def Some pre_def pos_defs)
    have "\<not> IS_NUM (CHR ''/'')" by code_simp
    from read_port_value [OF pf buf refl ds this] parse host(2) parts [of u] parts
    show ?thesis by (auto simp: Some port_value_def split: if_splits)
  qed
qed

end
