(* ===== verification/Byte_Order.thy ===== *)
theory Byte_Order
  imports Prelude
begin

text \<open>
  Integers in memory and on the wire: \<^verbatim>\<open>woody/base/endian_util.h\<close> and
  \<^verbatim>\<open>lib/muduo/net/Endian.h\<close>. The memory image of an unsigned integer is the list of its
  bytes on a little-endian host, least significant byte first; \<open>htobe\<close> and \<open>betoh\<close> of
  \<^verbatim>\<open>endian.h\<close> reverse that image. Signed integers have the image of their unsigned
  counterpart.
\<close>

subsection \<open>Numbers as bytes, least significant first\<close>

primrec le_nat :: "string \<Rightarrow> nat" where
  "le_nat [] = 0"
| "le_nat (c # cs) = of_char c + 256 * le_nat cs"

primrec le_bytes :: "nat \<Rightarrow> nat \<Rightarrow> string" where
  "le_bytes 0 x = []"
| "le_bytes (Suc n) x = char_of x # le_bytes n (x div 256)"

lemma length_le_bytes [simp]: "length (le_bytes n x) = n"
  by (induction n arbitrary: x) simp_all

lemma le_nat_less: "le_nat cs < 256 ^ length cs"
proof (induction cs)
  case (Cons c cs)
  have "of_char c < (256 :: nat)" by simp
  with Cons.IH have "of_char c + 256 * le_nat cs < 256 + 256 * (256 ^ length cs - 1)"
    by (intro add_less_le_mono mult_le_mono2) simp_all
  also have "\<dots> = 256 ^ length (c # cs)"
    using one_le_power [of "256 :: nat" "length cs"] by (simp add: algebra_simps)
  finally show ?case by simp
qed simp

lemma le_nat_bytes: "x < 256 ^ n \<Longrightarrow> le_nat (le_bytes n x) = x"
proof (induction n arbitrary: x)
  case (Suc n)
  then have "x div 256 < 256 ^ n" by (simp add: less_mult_imp_div_less mult.commute)
  with Suc.IH show ?case by simp
qed simp

lemma le_bytes_nat [simp]: "le_bytes (length cs) (le_nat cs) = cs"
  by (induction cs) (simp_all add: char_of_eq_iff take_bit_eq_mod mod_add_eq)

subsection \<open>The memory image of an integer\<close>

definition host_bytes :: "'a::len word \<Rightarrow> string" where
  "host_bytes w = le_bytes (LENGTH('a) div 8) (unat w)"

definition host_word :: "string \<Rightarrow> 'a::len word" where
  "host_word cs = of_nat (le_nat cs)"

definition byte_swap :: "'a::len word \<Rightarrow> 'a word" where
  "byte_swap w = host_word (rev (host_bytes w))"

lemma length_host_bytes [simp]: "length (host_bytes (w :: 'a::len word)) = LENGTH('a) div 8"
  by (simp add: host_bytes_def)

lemma pow_256:
  assumes "8 dvd n"
  shows "(256 :: nat) ^ (n div 8) = 2 ^ n"
proof -
  obtain k where n: "n = 8 * k" using assms by (rule dvdE)
  have "(2 :: nat) ^ (8 * k) = (2 ^ 8) ^ k" by (rule power_mult)
  then show ?thesis by (simp add: n)
qed

lemma host_word_bytes:
  assumes "8 dvd LENGTH('a)"
  shows "host_word (host_bytes w) = (w :: 'a::len word)"
  using unsigned_less [of w, where 'a = nat]
  by (simp add: host_word_def host_bytes_def le_nat_bytes pow_256 [OF assms])

lemma host_bytes_word:
  assumes "8 dvd LENGTH('a)" and "length cs = LENGTH('a) div 8"
  shows "host_bytes (host_word cs :: 'a::len word) = cs"
proof -
  have "le_nat cs < 2 ^ LENGTH('a)"
    using le_nat_less [of cs] assms(2) pow_256 [OF assms(1)] by simp
  then have "unat (host_word cs :: 'a word) = le_nat cs"
    by (simp add: host_word_def unat_of_nat take_bit_nat_eq_self)
  then show ?thesis using assms(2) le_bytes_nat [of cs] by (simp add: host_bytes_def)
qed

text \<open>The image of the swapped integer is the reversed image, so swapping twice is the identity.\<close>

lemma host_bytes_swap:
  assumes "8 dvd LENGTH('a)"
  shows "host_bytes (byte_swap w :: 'a::len word) = rev (host_bytes w)"
  unfolding byte_swap_def by (rule host_bytes_word [OF assms]) simp

lemma byte_swap_twice:
  assumes "8 dvd LENGTH('a)"
  shows "byte_swap (byte_swap w) = (w :: 'a::len word)"
  unfolding byte_swap_def [of "byte_swap w"] host_bytes_swap [OF assms]
  by (simp add: host_word_bytes [OF assms])

subsection \<open>Conversions\<close>

definition HostToNetwork64 :: "64 word \<Rightarrow> 64 word" where
  "HostToNetwork64 w = byte_swap w"

definition HostToNetwork32 :: "32 word \<Rightarrow> 32 word" where
  "HostToNetwork32 w = byte_swap w"

definition HostToNetwork16 :: "16 word \<Rightarrow> 16 word" where
  "HostToNetwork16 w = byte_swap w"

definition NetworkToHost64 :: "64 word \<Rightarrow> 64 word" where
  "NetworkToHost64 w = byte_swap w"

definition NetworkToHost32 :: "32 word \<Rightarrow> 32 word" where
  "NetworkToHost32 w = byte_swap w"

definition NetworkToHost16 :: "16 word \<Rightarrow> 16 word" where
  "NetworkToHost16 w = byte_swap w"

text \<open>
  The functions that read the integer from memory; \<open>None\<close> for a read behind the end of the
  memory that is given.
\<close>

definition NetworkToHostInt64 :: "string \<Rightarrow> 64 word option" where
  "NetworkToHostInt64 bytes =
     (if length bytes < 8 then None else Some (byte_swap (host_word (take 8 bytes))))"

definition NetworkToHostInt32 :: "string \<Rightarrow> 32 word option" where
  "NetworkToHostInt32 bytes =
     (if length bytes < 4 then None else Some (byte_swap (host_word (take 4 bytes))))"

definition NetworkToHostInt16 :: "string \<Rightarrow> 16 word option" where
  "NetworkToHostInt16 bytes =
     (if length bytes < 2 then None else Some (byte_swap (host_word (take 2 bytes))))"

lemma network_word:
  assumes "8 dvd LENGTH('a)"
  shows "byte_swap (host_word (host_bytes (byte_swap w))) = (w :: 'a::len word)"
  by (simp add: host_word_bytes [OF assms] byte_swap_twice [OF assms])

lemma network_read:
  "NetworkToHostInt64 (host_bytes (HostToNetwork64 x) @ rest) = Some x"
  "NetworkToHostInt32 (host_bytes (HostToNetwork32 y) @ rest) = Some y"
  "NetworkToHostInt16 (host_bytes (HostToNetwork16 z) @ rest) = Some z"
  by (simp_all add: NetworkToHostInt64_def NetworkToHostInt32_def NetworkToHostInt16_def
      HostToNetwork64_def HostToNetwork32_def HostToNetwork16_def network_word)

text \<open>On the wire: the most significant byte first.\<close>

lemma network_bytes_64:
  "host_bytes (HostToNetwork64 w) = rev (le_bytes 8 (unat w))"
  by (simp add: HostToNetwork64_def host_bytes_swap) (simp add: host_bytes_def)

lemma network_bytes_32:
  "host_bytes (HostToNetwork32 w) = rev (le_bytes 4 (unat w))"
  by (simp add: HostToNetwork32_def host_bytes_swap) (simp add: host_bytes_def)

lemma network_bytes_16:
  "host_bytes (HostToNetwork16 w) = rev (le_bytes 2 (unat w))"
  by (simp add: HostToNetwork16_def host_bytes_swap) (simp add: host_bytes_def)

end
