(* ===== verification/Net_Buffer.thy ===== *)
theory Net_Buffer
  imports Prelude Byte_Order
begin

text \<open>
  What a byte buffer promises its clients: a queue of bytes with room for some bytes in front.
  The contract is the locale \<open>byte_queue\<close>; the clients' lemma is that any sequence of
  operations behaves as it does on a plain list of bytes. Then \<open>Buffer\<close> of \<^verbatim>\<open>muduo/net/Buffer.h\<close>
  and \<^verbatim>\<open>Buffer.cc\<close>, operation by operation, and that it keeps the contract.
\<close>

datatype queue_op = Push string | Pop nat | Pop_all | Unpop string

fun queue_step :: "queue_op \<Rightarrow> string \<Rightarrow> (string \<times> string) option" where
  "queue_step (Push s) q = Some ([], q @ s)"
| "queue_step (Pop n) q = (if length q < n then None else Some (take n q, drop n q))"
| "queue_step Pop_all q = Some (q, [])"
| "queue_step (Unpop s) q = Some ([], s @ q)"

text \<open>A run of a step function: the outputs and the last state.\<close>

fun run_steps :: "('op \<Rightarrow> 'b \<Rightarrow> (string \<times> 'b) option) \<Rightarrow> 'op list \<Rightarrow> 'b \<Rightarrow> (string list \<times> 'b) option" where
  "run_steps f [] b = Some ([], b)"
| "run_steps f (p # ps) b =
     Option.bind (f p b) (\<lambda>(out, b1). map_option (\<lambda>(outs, b2). (out # outs, b2)) (run_steps f ps b1))"

fun is_unpop :: "queue_op \<Rightarrow> bool" where
  "is_unpop (Unpop s) \<longleftrightarrow> True"
| "is_unpop _ \<longleftrightarrow> False"

locale byte_queue =
  fixes inv :: "'b \<Rightarrow> bool"
    and bytes :: "'b \<Rightarrow> string"
    and room :: "'b \<Rightarrow> nat"
    and push :: "string \<Rightarrow> 'b \<Rightarrow> 'b option"
    and pop :: "nat \<Rightarrow> 'b \<Rightarrow> (string \<times> 'b) option"
    and pop_all :: "'b \<Rightarrow> (string \<times> 'b) option"
    and unpop :: "string \<Rightarrow> 'b \<Rightarrow> 'b option"
  assumes push: "inv b \<Longrightarrow> \<exists>b'. push s b = Some b' \<and> inv b' \<and> bytes b' = bytes b @ s"
    and pop_None: "inv b \<Longrightarrow> pop n b = None \<longleftrightarrow> length (bytes b) < n"
    and pop_Some: "inv b \<Longrightarrow> pop n b = Some (s, b') \<Longrightarrow>
      inv b' \<and> s = take n (bytes b) \<and> bytes b' = drop n (bytes b)"
    and pop_all: "inv b \<Longrightarrow> \<exists>b'. pop_all b = Some (bytes b, b') \<and> inv b' \<and> bytes b' = []"
    and unpop_None: "inv b \<Longrightarrow> unpop s b = None \<longleftrightarrow> room b < length s"
    and unpop_Some: "inv b \<Longrightarrow> unpop s b = Some b' \<Longrightarrow> inv b' \<and> bytes b' = s @ bytes b"

fun step_with ::
  "(string \<Rightarrow> 'b \<Rightarrow> 'b option) \<Rightarrow> (nat \<Rightarrow> 'b \<Rightarrow> (string \<times> 'b) option) \<Rightarrow> ('b \<Rightarrow> (string \<times> 'b) option)
   \<Rightarrow> (string \<Rightarrow> 'b \<Rightarrow> 'b option) \<Rightarrow> queue_op \<Rightarrow> 'b \<Rightarrow> (string \<times> 'b) option" where
  "step_with push pop pop_all unpop (Push s) b = map_option (Pair []) (push s b)"
| "step_with push pop pop_all unpop (Pop n) b = pop n b"
| "step_with push pop pop_all unpop Pop_all b = pop_all b"
| "step_with push pop pop_all unpop (Unpop s) b = map_option (Pair []) (unpop s b)"

context byte_queue
begin

lemma step_refines:
  assumes "inv b" and "step_with push pop pop_all unpop p b = Some (out, b')"
  shows "inv b' \<and> queue_step p (bytes b) = Some (out, bytes b')"
proof (cases p)
  case (Push s)
  with assms push [OF assms(1), of s] show ?thesis by auto
next
  case (Pop n)
  with assms pop_Some [OF assms(1), of n out b'] pop_None [OF assms(1), of n] show ?thesis by auto
next
  case Pop_all
  with assms pop_all [OF assms(1)] show ?thesis by auto
next
  case (Unpop s)
  with assms unpop_Some [OF assms(1), of s b'] show ?thesis by auto
qed

lemma step_total:
  assumes "inv b" and "step_with push pop pop_all unpop p b = None" and "\<not> is_unpop p"
  shows "queue_step p (bytes b) = None"
proof (cases p)
  case (Push s)
  with assms(2) push [OF assms(1), of s] show ?thesis by auto
next
  case (Pop n)
  with assms(2) pop_None [OF assms(1), of n] show ?thesis by simp
next
  case Pop_all
  with assms(2) pop_all [OF assms(1)] show ?thesis by auto
next
  case (Unpop s)
  with assms(3) show ?thesis by simp
qed

lemma run_refines:
  "inv b \<Longrightarrow> run_steps (step_with push pop pop_all unpop) ops b = Some (outs, b') \<Longrightarrow>
     inv b' \<and> run_steps queue_step ops (bytes b) = Some (outs, bytes b')"
proof (induction ops arbitrary: b outs)
  case (Cons p ops)
  obtain out b1 where p: "step_with push pop pop_all unpop p b = Some (out, b1)"
    using Cons.prems(2) by (cases "step_with push pop pop_all unpop p b") auto
  with Cons.prems(2) obtain outs' where
    "run_steps (step_with push pop pop_all unpop) ops b1 = Some (outs', b')" "outs = out # outs'"
    by auto
  with Cons.IH [of b1 outs'] step_refines [OF Cons.prems(1) p] show ?case by simp
qed simp

lemma run_total:
  assumes "inv b" and "run_steps (step_with push pop pop_all unpop) ops b = None"
    and "\<forall>p \<in> set ops. \<not> is_unpop p"
  shows "run_steps queue_step ops (bytes b) = None"
  using assms
proof (induction ops arbitrary: b)
  case (Cons p ops)
  show ?case
  proof (cases "step_with push pop pop_all unpop p b")
    case None
    with step_total [OF Cons.prems(1) None] Cons.prems(3) show ?thesis by simp
  next
    case (Some ob)
    obtain out b1 where ob: "ob = (out, b1)" by (cases ob)
    with Some Cons.prems(2) have "run_steps (step_with push pop pop_all unpop) ops b1 = None" by simp
    with Cons.IH [of b1] step_refines [OF Cons.prems(1) Some [unfolded ob]] Cons.prems(3)
    show ?thesis by simp
  qed
qed simp

end

text \<open>
  \<open>muduo::net::Buffer\<close> of \<^verbatim>\<open>lib/muduo/net/Buffer.h\<close> and \<^verbatim>\<open>Buffer.cc\<close>: the byte
  buffer between a connection and its handler. The operations are those of the code, on the
  vector and the two indexes; \<open>None\<close> is a failed \<open>assert\<close>. A pointer into the buffer is its
  offset from \<open>begin()\<close>. Sizes are natural numbers: their sums are taken to fit a \<open>size_t\<close>,
  and the allocation of a vector to succeed.
\<close>

record net_buffer =
  storage :: string
  readerIndex :: nat
  writerIndex :: nat

definition kCheapPrepend :: nat where "kCheapPrepend = 8"
definition kInitialSize :: nat where "kInitialSize = 1024"
definition kCRLF :: string where "kCRLF = [CR, LF]"

definition new_buffer :: "nat \<Rightarrow> net_buffer" where
  "new_buffer initialSize =
     \<lparr>storage = replicate (kCheapPrepend + initialSize) NUL, readerIndex = kCheapPrepend,
      writerIndex = kCheapPrepend\<rparr>"

definition swap_buffers :: "net_buffer \<times> net_buffer \<Rightarrow> net_buffer \<times> net_buffer" where
  "swap_buffers bs = (snd bs, fst bs)"

definition readableBytes :: "net_buffer \<Rightarrow> nat" where
  "readableBytes b = writerIndex b - readerIndex b"

definition writableBytes :: "net_buffer \<Rightarrow> nat" where
  "writableBytes b = length (storage b) - writerIndex b"

definition prependableBytes :: "net_buffer \<Rightarrow> nat" where
  "prependableBytes b = readerIndex b"

text \<open>The bytes from \<open>peek()\<close> to \<open>beginWrite()\<close>, or from an offset to \<open>beginWrite()\<close>.\<close>

definition bytes_from :: "nat \<Rightarrow> net_buffer \<Rightarrow> string" where
  "bytes_from start b = take (writerIndex b - start) (drop start (storage b))"

definition content :: "net_buffer \<Rightarrow> string" where
  "content b = bytes_from (readerIndex b) b"

subsection \<open>Searching\<close>

text \<open>\<open>std::search\<close> for \<open>kCRLF\<close>: the offset of the first occurrence.\<close>

fun search_crlf :: "string \<Rightarrow> nat option" where
  "search_crlf (x # y # xs) =
     (if x = CR \<and> y = LF then Some 0 else map_option Suc (search_crlf (y # xs)))"
| "search_crlf xs = None"

definition findCRLF :: "net_buffer \<Rightarrow> nat option" where
  "findCRLF b = map_option ((+) (readerIndex b)) (search_crlf (content b))"

definition findCRLF_from :: "nat \<Rightarrow> net_buffer \<Rightarrow> nat option option" where
  "findCRLF_from start b =
     (if readerIndex b \<le> start \<and> start \<le> writerIndex b
      then Some (map_option ((+) start) (search_crlf (bytes_from start b))) else None)"

definition findEOL :: "net_buffer \<Rightarrow> nat option" where
  "findEOL b = map_option ((+) (readerIndex b)) (memchr LF (content b))"

definition findEOL_from :: "nat \<Rightarrow> net_buffer \<Rightarrow> nat option option" where
  "findEOL_from start b =
     (if readerIndex b \<le> start \<and> start \<le> writerIndex b
      then Some (map_option ((+) start) (memchr LF (bytes_from start b))) else None)"

subsection \<open>Taking bytes out\<close>

definition retrieveAll :: "net_buffer \<Rightarrow> net_buffer" where
  "retrieveAll b = b\<lparr>readerIndex := kCheapPrepend, writerIndex := kCheapPrepend\<rparr>"

definition retrieve :: "nat \<Rightarrow> net_buffer \<Rightarrow> net_buffer option" where
  "retrieve n b =
     (if readableBytes b < n then None
      else if n < readableBytes b then Some (b\<lparr>readerIndex := readerIndex b + n\<rparr>)
      else Some (retrieveAll b))"

definition retrieveUntil :: "nat \<Rightarrow> net_buffer \<Rightarrow> net_buffer option" where
  "retrieveUntil stop b =
     (if readerIndex b \<le> stop \<and> stop \<le> writerIndex b
      then retrieve (stop - readerIndex b) b else None)"

definition retrieveAsString :: "nat \<Rightarrow> net_buffer \<Rightarrow> (string \<times> net_buffer) option" where
  "retrieveAsString n b =
     (if readableBytes b < n then None
      else map_option (Pair (take n (drop (readerIndex b) (storage b)))) (retrieve n b))"

definition retrieveAllAsString :: "net_buffer \<Rightarrow> (string \<times> net_buffer) option" where
  "retrieveAllAsString b = retrieveAsString (readableBytes b) b"

text \<open>\<open>toStringPiece\<close> casts the size to \<open>int\<close>; \<open>None\<close> if that makes it negative.\<close>

definition toStringPiece :: "net_buffer \<Rightarrow> string option" where
  "toStringPiece b =
     (let n = sint (of_nat (readableBytes b) :: 32 word) in
      if n < 0 then None else Some (take (nat n) (drop (readerIndex b) (storage b))))"

subsection \<open>Putting bytes in\<close>

text \<open>\<open>std::copy\<close> to an offset of a vector.\<close>

definition write_at :: "nat \<Rightarrow> string \<Rightarrow> string \<Rightarrow> string" where
  "write_at i s v = take i v @ s @ drop (i + length s) v"

definition makeSpace :: "nat \<Rightarrow> net_buffer \<Rightarrow> net_buffer option" where
  "makeSpace n b =
     (if writableBytes b + prependableBytes b < n + kCheapPrepend then
        Some (b\<lparr>storage := take (writerIndex b + n)
                  (storage b @ replicate (writerIndex b + n - length (storage b)) NUL)\<rparr>)
      else if readerIndex b \<le> kCheapPrepend then None
      else Some (b\<lparr>storage := write_at kCheapPrepend (content b) (storage b),
                   readerIndex := kCheapPrepend,
                   writerIndex := kCheapPrepend + readableBytes b\<rparr>))"

definition ensureWritableBytes :: "nat \<Rightarrow> net_buffer \<Rightarrow> net_buffer option" where
  "ensureWritableBytes n b =
     Option.bind (if writableBytes b < n then makeSpace n b else Some b)
       (\<lambda>b1. if n \<le> writableBytes b1 then Some b1 else None)"

definition hasWritten :: "nat \<Rightarrow> net_buffer \<Rightarrow> net_buffer option" where
  "hasWritten n b =
     (if n \<le> writableBytes b then Some (b\<lparr>writerIndex := writerIndex b + n\<rparr>) else None)"

definition unwrite :: "nat \<Rightarrow> net_buffer \<Rightarrow> net_buffer option" where
  "unwrite n b =
     (if n \<le> readableBytes b then Some (b\<lparr>writerIndex := writerIndex b - n\<rparr>) else None)"

definition append_bytes :: "string \<Rightarrow> net_buffer \<Rightarrow> net_buffer option" where
  "append_bytes data b =
     Option.bind (ensureWritableBytes (length data) b)
       (\<lambda>b1. hasWritten (length data)
               (b1\<lparr>storage := write_at (writerIndex b1) data (storage b1)\<rparr>))"

definition prepend :: "string \<Rightarrow> net_buffer \<Rightarrow> net_buffer option" where
  "prepend data b =
     (if prependableBytes b < length data then None
      else
        let r = readerIndex b - length data in
        Some (b\<lparr>readerIndex := r, storage := write_at r data (storage b)\<rparr>))"

definition shrink :: "nat \<Rightarrow> net_buffer \<Rightarrow> net_buffer option" where
  "shrink reserve b =
     Option.bind (ensureWritableBytes (readableBytes b + reserve) (new_buffer kInitialSize))
       (\<lambda>other. Option.bind (toStringPiece b)
       (\<lambda>s. map_option (\<lambda>other'. fst (swap_buffers (b, other')))
              (append_bytes s other)))"

subsection \<open>Integers in network order\<close>

definition appendInt64 :: "64 word \<Rightarrow> net_buffer \<Rightarrow> net_buffer option" where
  "appendInt64 x = append_bytes (host_bytes (HostToNetwork64 x))"

definition appendInt32 :: "32 word \<Rightarrow> net_buffer \<Rightarrow> net_buffer option" where
  "appendInt32 x = append_bytes (host_bytes (HostToNetwork32 x))"

definition appendInt16 :: "16 word \<Rightarrow> net_buffer \<Rightarrow> net_buffer option" where
  "appendInt16 x = append_bytes (host_bytes (HostToNetwork16 x))"

definition appendInt8 :: "8 word \<Rightarrow> net_buffer \<Rightarrow> net_buffer option" where
  "appendInt8 x = append_bytes (host_bytes x)"

definition prependInt64 :: "64 word \<Rightarrow> net_buffer \<Rightarrow> net_buffer option" where
  "prependInt64 x = prepend (host_bytes (HostToNetwork64 x))"

definition prependInt32 :: "32 word \<Rightarrow> net_buffer \<Rightarrow> net_buffer option" where
  "prependInt32 x = prepend (host_bytes (HostToNetwork32 x))"

definition prependInt16 :: "16 word \<Rightarrow> net_buffer \<Rightarrow> net_buffer option" where
  "prependInt16 x = prepend (host_bytes (HostToNetwork16 x))"

definition prependInt8 :: "8 word \<Rightarrow> net_buffer \<Rightarrow> net_buffer option" where
  "prependInt8 x = prepend (host_bytes x)"

definition peekInt64 :: "net_buffer \<Rightarrow> 64 word option" where
  "peekInt64 b =
     (if readableBytes b < 8 then None
      else Some (NetworkToHost64 (host_word (take 8 (drop (readerIndex b) (storage b))))))"

definition peekInt32 :: "net_buffer \<Rightarrow> 32 word option" where
  "peekInt32 b =
     (if readableBytes b < 4 then None
      else Some (NetworkToHost32 (host_word (take 4 (drop (readerIndex b) (storage b))))))"

definition peekInt16 :: "net_buffer \<Rightarrow> 16 word option" where
  "peekInt16 b =
     (if readableBytes b < 2 then None
      else Some (NetworkToHost16 (host_word (take 2 (drop (readerIndex b) (storage b))))))"

definition peekInt8 :: "net_buffer \<Rightarrow> 8 word option" where
  "peekInt8 b =
     (if readableBytes b < 1 then None
      else Some (host_word (take 1 (drop (readerIndex b) (storage b)))))"

definition retrieveInt64 :: "net_buffer \<Rightarrow> net_buffer option" where
  "retrieveInt64 = retrieve 8"

definition retrieveInt32 :: "net_buffer \<Rightarrow> net_buffer option" where
  "retrieveInt32 = retrieve 4"

definition retrieveInt16 :: "net_buffer \<Rightarrow> net_buffer option" where
  "retrieveInt16 = retrieve 2"

definition retrieveInt8 :: "net_buffer \<Rightarrow> net_buffer option" where
  "retrieveInt8 = retrieve 1"

definition readInt64 :: "net_buffer \<Rightarrow> (64 word \<times> net_buffer) option" where
  "readInt64 b = Option.bind (peekInt64 b) (\<lambda>x. map_option (Pair x) (retrieveInt64 b))"

definition readInt32 :: "net_buffer \<Rightarrow> (32 word \<times> net_buffer) option" where
  "readInt32 b = Option.bind (peekInt32 b) (\<lambda>x. map_option (Pair x) (retrieveInt32 b))"

definition readInt16 :: "net_buffer \<Rightarrow> (16 word \<times> net_buffer) option" where
  "readInt16 b = Option.bind (peekInt16 b) (\<lambda>x. map_option (Pair x) (retrieveInt16 b))"

definition readInt8 :: "net_buffer \<Rightarrow> (8 word \<times> net_buffer) option" where
  "readInt8 b = Option.bind (peekInt8 b) (\<lambda>x. map_option (Pair x) (retrieveInt8 b))"

subsection \<open>Reading from a socket\<close>

text \<open>
  \<open>readFd\<close> gives \<open>readv\<close> the writable bytes and, if they are fewer than 65536, an extra
  buffer of 65536 bytes. \<open>received\<close> is what \<open>readv\<close> put there in order, or \<open>None\<close> for an
  error, whose \<open>errno\<close> is saved; the result is the return value.
\<close>

definition kExtraBuf :: nat where "kExtraBuf = 65536"

definition readv_room :: "net_buffer \<Rightarrow> nat" where
  "readv_room b =
     (if writableBytes b < kExtraBuf then writableBytes b + kExtraBuf else writableBytes b)"

definition readFd :: "string option \<Rightarrow> net_buffer \<Rightarrow> (int \<times> net_buffer) option" where
  "readFd received b =
     (case received of
        None \<Rightarrow> Some (-1, b)
      | Some s \<Rightarrow>
          let writable = writableBytes b;
              b1 = b\<lparr>storage := write_at (writerIndex b) (take writable s) (storage b)\<rparr>
          in if length s \<le> writable
             then Some (int (length s), b1\<lparr>writerIndex := writerIndex b + length s\<rparr>)
             else map_option (Pair (int (length s)))
                    (append_bytes (drop writable s) (b1\<lparr>writerIndex := length (storage b)\<rparr>)))"

subsection \<open>The invariant and the content after each operation\<close>

definition buffer_inv :: "net_buffer \<Rightarrow> bool" where
  "buffer_inv b \<longleftrightarrow>
     readerIndex b \<le> writerIndex b \<and> writerIndex b \<le> length (storage b) \<and>
     kCheapPrepend \<le> length (storage b)"

lemma length_content: "buffer_inv b \<Longrightarrow> length (content b) = readableBytes b"
  by (auto simp: buffer_inv_def content_def bytes_from_def readableBytes_def min_def)

lemma content_eq:
  "readerIndex b \<le> writerIndex b \<Longrightarrow>
     content b = drop (readerIndex b) (take (writerIndex b) (storage b))"
  by (simp add: content_def bytes_from_def drop_take)

lemma length_write_at: "i + length s \<le> length v \<Longrightarrow> length (write_at i s v) = length v"
  by (simp add: write_at_def)

lemma storage_split:
  assumes "buffer_inv b"
  shows "storage b = take (readerIndex b) (storage b) @ content b @ drop (writerIndex b) (storage b)"
proof -
  have "drop (readerIndex b) (storage b) =
      take (writerIndex b - readerIndex b) (drop (readerIndex b) (storage b)) @
      drop (writerIndex b - readerIndex b) (drop (readerIndex b) (storage b))"
    by (rule append_take_drop_id [symmetric])
  then have "drop (readerIndex b) (storage b) = content b @ drop (writerIndex b) (storage b)"
    using assms by (simp add: content_def bytes_from_def buffer_inv_def)
  then show ?thesis by (metis append_take_drop_id)
qed

lemma new_buffer_ok:
  "buffer_inv (new_buffer n) \<and> content (new_buffer n) = [] \<and>
   writableBytes (new_buffer n) = n \<and> prependableBytes (new_buffer n) = kCheapPrepend"
  by (simp add: new_buffer_def buffer_inv_def content_def bytes_from_def writableBytes_def
      prependableBytes_def)

lemma retrieveAll_ok:
  "buffer_inv b \<Longrightarrow> buffer_inv (retrieveAll b) \<and> content (retrieveAll b) = [] \<and>
     prependableBytes (retrieveAll b) = kCheapPrepend"
  by (simp add: retrieveAll_def buffer_inv_def content_def bytes_from_def prependableBytes_def)

lemma retrieve_ok:
  assumes "buffer_inv b"
  shows "retrieve n b = None \<longleftrightarrow> length (content b) < n"
    and "retrieve n b = Some b' \<Longrightarrow> buffer_inv b' \<and> content b' = drop n (content b)"
proof -
  show "retrieve n b = None \<longleftrightarrow> length (content b) < n"
    using length_content [OF assms] by (simp add: retrieve_def)
  assume r: "retrieve n b = Some b'"
  show "buffer_inv b' \<and> content b' = drop n (content b)"
  proof (cases "n < readableBytes b")
    case True
    then have "b' = b\<lparr>readerIndex := readerIndex b + n\<rparr>" using r by (simp add: retrieve_def)
    with True assms show ?thesis
      by (simp add: buffer_inv_def content_def bytes_from_def readableBytes_def drop_take
          add.commute)
  next
    case False
    then have "b' = retrieveAll b" using r by (simp add: retrieve_def split: if_splits)
    with False retrieveAll_ok [OF assms] length_content [OF assms] show ?thesis by simp
  qed
qed

lemma retrieveAsString_ok:
  assumes "buffer_inv b"
  shows "retrieveAsString n b = None \<longleftrightarrow> length (content b) < n"
    and "retrieveAsString n b = Some (s, b') \<Longrightarrow>
      buffer_inv b' \<and> s = take n (content b) \<and> content b' = drop n (content b)"
proof -
  show "retrieveAsString n b = None \<longleftrightarrow> length (content b) < n"
    using retrieve_ok(1) [OF assms, of n] length_content [OF assms]
    by (simp add: retrieveAsString_def)
  assume r: "retrieveAsString n b = Some (s, b')"
  then have n: "n \<le> readableBytes b" "retrieve n b = Some b'"
    "s = take n (drop (readerIndex b) (storage b))"
    by (auto simp: retrieveAsString_def split: if_splits)
  with retrieve_ok(2) [OF assms n(2)]
  show "buffer_inv b' \<and> s = take n (content b) \<and> content b' = drop n (content b)"
    by (simp add: content_def bytes_from_def readableBytes_def min_def)
qed

lemma retrieveAllAsString_ok:
  assumes "buffer_inv b"
  shows "retrieveAllAsString b = Some (content b, retrieveAll b)"
  using assms
  by (simp add: retrieveAllAsString_def retrieveAsString_def retrieve_def content_def
      bytes_from_def readableBytes_def)

lemma take_drop_write_at:
  "i + length s \<le> length v \<Longrightarrow> take (length s) (drop i (write_at i s v)) = s"
  by (simp add: write_at_def)

lemma makeSpace_ok:
  assumes "buffer_inv b" and "writableBytes b < n"
  shows "\<exists>b'. makeSpace n b = Some b' \<and> buffer_inv b' \<and> content b' = content b \<and>
    n \<le> writableBytes b'"
proof (cases "writableBytes b + prependableBytes b < n + kCheapPrepend")
  case True
  define s where "s = take (writerIndex b + n)
      (storage b @ replicate (writerIndex b + n - length (storage b)) NUL)"
  have len: "length s = writerIndex b + n"
    using assms by (simp add: s_def writableBytes_def buffer_inv_def)
  have "take (writerIndex b) s = take (writerIndex b) (storage b)"
    using assms(1) by (auto simp: s_def buffer_inv_def min_def)
  then have c: "content (b\<lparr>storage := s\<rparr>) = content b"
    using assms(1) by (simp add: content_eq buffer_inv_def)
  have "length (storage b) \<le> writerIndex b + n"
    using assms by (simp add: writableBytes_def buffer_inv_def)
  then have "buffer_inv (b\<lparr>storage := s\<rparr>)" using assms(1) by (simp add: buffer_inv_def len)
  moreover have "n \<le> writableBytes (b\<lparr>storage := s\<rparr>)" by (simp add: writableBytes_def len)
  moreover have "makeSpace n b = Some (b\<lparr>storage := s\<rparr>)"
    using True by (simp add: makeSpace_def s_def)
  ultimately show ?thesis using c by blast
next
  case False
  let ?c = "content b"
  have r: "kCheapPrepend < readerIndex b"
    using False assms(2) by (simp add: prependableBytes_def)
  have len: "length ?c = readableBytes b" by (rule length_content [OF assms(1)])
  have fits: "kCheapPrepend + length ?c \<le> length (storage b)"
    using r assms(1) unfolding len by (auto simp: readableBytes_def buffer_inv_def)
  let ?b = "b\<lparr>storage := write_at kCheapPrepend ?c (storage b), readerIndex := kCheapPrepend,
      writerIndex := kCheapPrepend + readableBytes b\<rparr>"
  have "makeSpace n b = Some ?b" using False r by (simp add: makeSpace_def)
  moreover have "buffer_inv ?b"
    using fits assms(1) by (simp add: buffer_inv_def length_write_at len)
  moreover have "content ?b = ?c"
    using take_drop_write_at [OF fits] len by (simp add: content_def bytes_from_def)
  moreover have "n \<le> writableBytes ?b"
    using False fits assms(1) r length_write_at [OF fits]
    by (simp add: writableBytes_def prependableBytes_def readableBytes_def buffer_inv_def)
  ultimately show ?thesis by blast
qed

lemma ensureWritableBytes_ok:
  assumes "buffer_inv b"
  shows "\<exists>b'. ensureWritableBytes n b = Some b' \<and> buffer_inv b' \<and> content b' = content b \<and>
    n \<le> writableBytes b'"
  using makeSpace_ok [OF assms, of n] assms
  by (cases "writableBytes b < n") (auto simp: ensureWritableBytes_def)

lemma written_content:
  assumes "buffer_inv b" and "length s \<le> writableBytes b"
  shows "hasWritten (length s) (b\<lparr>storage := write_at (writerIndex b) s (storage b)\<rparr>) =
      Some (b\<lparr>storage := write_at (writerIndex b) s (storage b),
             writerIndex := writerIndex b + length s\<rparr>)"
    and "buffer_inv (b\<lparr>storage := write_at (writerIndex b) s (storage b),
           writerIndex := writerIndex b + length s\<rparr>)"
    and "content (b\<lparr>storage := write_at (writerIndex b) s (storage b),
           writerIndex := writerIndex b + length s\<rparr>) = content b @ s"
proof -
  have fits: "writerIndex b + length s \<le> length (storage b)"
    using assms by (auto simp: writableBytes_def buffer_inv_def)
  note len = length_write_at [OF fits]
  show "hasWritten (length s) (b\<lparr>storage := write_at (writerIndex b) s (storage b)\<rparr>) =
      Some (b\<lparr>storage := write_at (writerIndex b) s (storage b),
             writerIndex := writerIndex b + length s\<rparr>)"
    using assms(2) by (simp add: hasWritten_def writableBytes_def len)
  show "buffer_inv (b\<lparr>storage := write_at (writerIndex b) s (storage b),
      writerIndex := writerIndex b + length s\<rparr>)"
    using assms(1) fits by (simp add: buffer_inv_def len)
  have "take (writerIndex b + length s) (write_at (writerIndex b) s (storage b)) =
      take (writerIndex b) (storage b) @ s"
    using fits take_append [of "length (take (writerIndex b) (storage b) @ s)"
        "take (writerIndex b) (storage b) @ s" "drop (writerIndex b + length s) (storage b)"]
    by (simp add: write_at_def)
  then show "content (b\<lparr>storage := write_at (writerIndex b) s (storage b),
      writerIndex := writerIndex b + length s\<rparr>) = content b @ s"
    using assms(1) fits
    by (auto simp: content_eq buffer_inv_def)
qed

lemma append_ok:
  assumes "buffer_inv b"
  shows "\<exists>b'. append_bytes data b = Some b' \<and> buffer_inv b' \<and> content b' = content b @ data"
proof -
  obtain b1 where b1: "ensureWritableBytes (length data) b = Some b1" "buffer_inv b1"
    "content b1 = content b" "length data \<le> writableBytes b1"
    using ensureWritableBytes_ok [OF assms] by blast
  from written_content [OF b1(2,4)] b1(1,3) show ?thesis
    by (auto simp: append_bytes_def)
qed

lemma prepend_ok:
  assumes "buffer_inv b"
  shows "prepend data b = None \<longleftrightarrow> prependableBytes b < length data"
    and "prepend data b = Some b' \<Longrightarrow> buffer_inv b' \<and> content b' = data @ content b"
proof -
  show "prepend data b = None \<longleftrightarrow> prependableBytes b < length data"
    by (simp add: prepend_def Let_def)
  let ?r = "readerIndex b - length data"
  assume "prepend data b = Some b'"
  then have n: "length data \<le> readerIndex b"
    and b': "b' = b\<lparr>readerIndex := ?r, storage := write_at ?r data (storage b)\<rparr>"
    by (simp_all add: prepend_def Let_def prependableBytes_def split: if_splits)
  have fits: "?r + length data \<le> length (storage b)"
    using n assms by (simp add: buffer_inv_def)
  have "drop ?r (write_at ?r data (storage b)) = data @ drop (readerIndex b) (storage b)"
    using n fits by (simp add: write_at_def)
  then have "content b' = data @ content b"
    using n assms by (auto simp: b' content_def bytes_from_def buffer_inv_def)
  moreover have "buffer_inv b'"
    using n fits assms length_write_at [OF fits] by (auto simp: b' buffer_inv_def)
  ultimately show "buffer_inv b' \<and> content b' = data @ content b" by simp
qed

lemma hasWritten_unwrite:
  assumes "buffer_inv b"
  shows "unwrite n b = None \<longleftrightarrow> length (content b) < n"
    and "unwrite n b = Some b' \<Longrightarrow>
      buffer_inv b' \<and> content b' = take (length (content b) - n) (content b)"
proof -
  show "unwrite n b = None \<longleftrightarrow> length (content b) < n"
    using length_content [OF assms] by (auto simp: unwrite_def)
  assume "unwrite n b = Some b'"
  then have "n \<le> readableBytes b" "b' = b\<lparr>writerIndex := writerIndex b - n\<rparr>"
    by (auto simp: unwrite_def split: if_splits)
  with assms show "buffer_inv b' \<and> content b' = take (length (content b) - n) (content b)"
    using length_content [OF assms]
    by (auto simp: buffer_inv_def content_def bytes_from_def readableBytes_def min_def add.commute)
qed

lemma readFd_ok:
  assumes "buffer_inv b" and "\<And>s. received = Some s \<Longrightarrow> length s \<le> readv_room b"
  shows "\<exists>n b'. readFd received b = Some (n, b') \<and> buffer_inv b' \<and>
    (case received of None \<Rightarrow> n = -1 \<and> b' = b
     | Some s \<Rightarrow> n = int (length s) \<and> content b' = content b @ s)"
proof (cases received)
  case None
  then show ?thesis using assms(1) by (simp add: readFd_def)
next
  case (Some s)
  let ?t = "take (writableBytes b) s"
  have t: "length ?t \<le> writableBytes b" by simp
  note w = written_content [OF assms(1) t]
  show ?thesis
  proof (cases "length s \<le> writableBytes b")
    case True
    then have "?t = s" by simp
    with w(2,3) True Some show ?thesis by (simp add: readFd_def)
  next
    case False
    let ?b = "b\<lparr>storage := write_at (writerIndex b) ?t (storage b),
        writerIndex := length (storage b)\<rparr>"
    have "writerIndex b + length ?t = length (storage b)"
      using False assms(1) by (auto simp: writableBytes_def buffer_inv_def)
    with w(2,3) have b: "buffer_inv ?b" "content ?b = content b @ ?t" by simp_all
    obtain b' where "append_bytes (drop (writableBytes b) s) ?b = Some b'" "buffer_inv b'"
      "content b' = content ?b @ drop (writableBytes b) s" using append_ok [OF b(1)] by blast
    with b(2) False Some show ?thesis by (simp add: readFd_def)
  qed
qed

lemma toStringPiece_ok:
  assumes "buffer_inv b" and "readableBytes b < 2 ^ 31"
  shows "toStringPiece b = Some (content b)"
proof -
  have "sint (of_nat (readableBytes b) :: 32 word) = int (readableBytes b)"
    using assms(2) by (simp add: signed_of_nat signed_take_bit_int_eq_self)
  then show ?thesis by (simp add: toStringPiece_def content_def bytes_from_def readableBytes_def)
qed

lemma shrink_ok:
  assumes "buffer_inv b" and "readableBytes b < 2 ^ 31"
  shows "\<exists>b'. shrink n b = Some b' \<and> buffer_inv b' \<and> content b' = content b"
proof -
  obtain b1 where b1: "ensureWritableBytes (readableBytes b + n) (new_buffer kInitialSize) = Some b1"
    "buffer_inv b1" "content b1 = []"
    using ensureWritableBytes_ok new_buffer_ok by metis
  obtain b2 where "append_bytes (content b) b1 = Some b2" "buffer_inv b2" "content b2 = content b"
    using append_ok [OF b1(2), of "content b"] b1(3) by auto
  with b1 show ?thesis
    by (simp add: shrink_def toStringPiece_ok [OF assms] swap_buffers_def)
qed

lemma peek_content:
  assumes "buffer_inv b" and "n \<le> readableBytes b"
  shows "take n (drop (readerIndex b) (storage b)) = take n (content b)"
  using assms by (simp add: content_def bytes_from_def readableBytes_def min_def)

subsection \<open>The buffer is a byte queue\<close>

interpretation buffer_queue: byte_queue buffer_inv content prependableBytes append_bytes
  retrieveAsString retrieveAllAsString prepend
proof
  fix b :: net_buffer and s n b'
  assume inv: "buffer_inv b"
  show "\<exists>b'. append_bytes s b = Some b' \<and> buffer_inv b' \<and> content b' = content b @ s"
    by (rule append_ok [OF inv])
  show "retrieveAsString n b = None \<longleftrightarrow> length (content b) < n"
    by (rule retrieveAsString_ok(1) [OF inv])
  show "\<exists>b'. retrieveAllAsString b = Some (content b, b') \<and> buffer_inv b' \<and> content b' = []"
    using retrieveAllAsString_ok [OF inv] retrieveAll_ok [OF inv] by blast
  show "prepend s b = None \<longleftrightarrow> prependableBytes b < length s"
    by (rule prepend_ok(1) [OF inv])
  show "retrieveAsString n b = Some (s, b') \<Longrightarrow>
      buffer_inv b' \<and> s = take n (content b) \<and> content b' = drop n (content b)"
    by (rule retrieveAsString_ok(2) [OF inv])
  show "prepend s b = Some b' \<Longrightarrow> buffer_inv b' \<and> content b' = s @ content b"
    by (rule prepend_ok(2) [OF inv])
qed

definition buffer_step :: "queue_op \<Rightarrow> net_buffer \<Rightarrow> (string \<times> net_buffer) option" where
  "buffer_step = step_with append_bytes retrieveAsString retrieveAllAsString prepend"

lemma read_content:
  assumes "buffer_inv b" and "content b = host_bytes (byte_swap x :: 'a::len word) @ rest"
    and "8 dvd LENGTH('a)" and "n = LENGTH('a) div 8" and "0 < n"
  shows "n \<le> readableBytes b"
    and "byte_swap (host_word (take n (drop (readerIndex b) (storage b)))) = x"
    and "\<exists>b'. retrieve n b = Some b' \<and> buffer_inv b' \<and> content b' = rest"
proof -
  show n: "n \<le> readableBytes b" using length_content [OF assms(1)] assms(2,4) by simp
  show "byte_swap (host_word (take n (drop (readerIndex b) (storage b)))) = x"
    unfolding peek_content [OF assms(1) n] assms(2)
    using assms(4) by (simp add: network_word [OF assms(3)])
  show "\<exists>b'. retrieve n b = Some b' \<and> buffer_inv b' \<and> content b' = rest"
    using retrieve_ok [OF assms(1), of n] assms(2,4) by (cases "retrieve n b") auto
qed

lemma append_read:
  assumes "buffer_inv b" and "content b = []" and "8 dvd LENGTH('a)" and "n = LENGTH('a) div 8"
    and "0 < n"
  obtains b1 b2 where "append_bytes (host_bytes (byte_swap x :: 'a::len word)) b = Some b1"
    "\<not> readableBytes b1 < n"
    "byte_swap (host_word (take n (drop (readerIndex b1) (storage b1)))) = x"
    "retrieve n b1 = Some b2" "content b2 = []"
proof -
  obtain b1 where b1: "append_bytes (host_bytes (byte_swap x)) b = Some b1" "buffer_inv b1"
    "content b1 = host_bytes (byte_swap x) @ []"
    using append_ok [OF assms(1), of "host_bytes (byte_swap x)"] assms(2) by auto
  note r = read_content [OF b1(2,3) assms(3-5)]
  obtain b2 where "retrieve n b1 = Some b2" "content b2 = []" using r(3) by blast
  with b1(1) r(1,2) show ?thesis by (intro that) simp_all
qed

lemma int_roundtrips:
  assumes "buffer_inv b" and "content b = []"
  shows "\<exists>b2. Option.bind (appendInt64 x b) readInt64 = Some (x, b2) \<and> content b2 = []"
    and "\<exists>b2. Option.bind (appendInt32 y b) readInt32 = Some (y, b2) \<and> content b2 = []"
    and "\<exists>b2. Option.bind (appendInt16 z b) readInt16 = Some (z, b2) \<and> content b2 = []"
proof -
  show "\<exists>b2. Option.bind (appendInt64 x b) readInt64 = Some (x, b2) \<and> content b2 = []"
    by (rule append_read [OF assms, of 8 x])
      (simp_all add: HostToNetwork64_def appendInt64_def readInt64_def peekInt64_def
        retrieveInt64_def NetworkToHost64_def)
  show "\<exists>b2. Option.bind (appendInt32 y b) readInt32 = Some (y, b2) \<and> content b2 = []"
    by (rule append_read [OF assms, of 4 y])
      (simp_all add: HostToNetwork32_def appendInt32_def readInt32_def peekInt32_def
        retrieveInt32_def NetworkToHost32_def)
  show "\<exists>b2. Option.bind (appendInt16 z b) readInt16 = Some (z, b2) \<and> content b2 = []"
    by (rule append_read [OF assms, of 2 z])
      (simp_all add: HostToNetwork16_def appendInt16_def readInt16_def peekInt16_def
        retrieveInt16_def NetworkToHost16_def)
qed

end
