(* ===== verification/Base64.thy ===== *)
theory Base64
  imports Prelude Byte_Order
begin

text \<open>
  \<^verbatim>\<open>lib/bytree/ssl_util.hpp\<close>: Base64 and the byte order of a SHA-1 digest. The digest itself
  is computed by Boost and is a parameter. Only the entries of the local arrays that have been
  written are modelled; the code reads no others. Lengths are below \<open>2 ^ 31\<close>, where the
  code's \<open>int\<close> counter is the length.
\<close>

definition base64_chars :: string where
  "base64_chars = ''ABCDEFGHIJKLMNOPQRSTUVWXYZabcdefghijklmnopqrstuvwxyz0123456789+/''"

definition IsBase64 :: "char \<Rightarrow> bool" where
  "IsBase64 c \<longleftrightarrow>
     (CHR ''0'' \<le> c \<and> c \<le> CHR ''9'') \<or> (CHR ''A'' \<le> c \<and> c \<le> CHR ''Z'') \<or>
     (CHR ''a'' \<le> c \<and> c \<le> CHR ''z'') \<or> c = CHR ''+'' \<or> c = CHR ''/''"

subsection \<open>Encoding\<close>

text \<open>\<open>char_array_4\<close> from \<open>char_array_3\<close>, in arithmetic on unsigned bytes.\<close>

definition sextets :: "8 word \<Rightarrow> 8 word \<Rightarrow> 8 word \<Rightarrow> 8 word list" where
  "sextets a b c =
     [drop_bit 2 (a AND 0xFC),
      push_bit 4 (a AND 0x03) + drop_bit 4 (b AND 0xF0),
      push_bit 2 (b AND 0x0F) + drop_bit 6 (c AND 0xC0),
      c AND 0x3F]"

definition base64_digits :: "char list \<Rightarrow> string" where
  "base64_digits a =
     map (\<lambda>w. base64_chars ! unat w)
       (sextets (of_char (a ! 0)) (of_char (a ! 1)) (of_char (a ! 2)))"

text \<open>The loop over the bytes: those left, those collected in \<open>char_array_3\<close>, the result so far.\<close>

fun encode_loop :: "string \<Rightarrow> string \<Rightarrow> string \<Rightarrow> string \<times> string" where
  "encode_loop [] a ret = (a, ret)"
| "encode_loop (x # xs) a ret =
     (let a1 = a @ [x] in
      if length a1 = 3 then encode_loop xs [] (ret @ base64_digits a1)
      else encode_loop xs a1 ret)"

definition Base64Encode :: "string \<Rightarrow> string" where
  "Base64Encode message =
     (case encode_loop message [] [] of
        (a, ret) \<Rightarrow>
          if a = [] then ret
          else ret @ take (length a + 1) (base64_digits (a @ replicate (3 - length a) NUL)) @
               replicate (3 - length a) (CHR ''=''))"

subsection \<open>Decoding\<close>

text \<open>\<open>base64_chars.find(c)\<close>, stored in an unsigned byte: \<open>npos\<close> becomes 255.\<close>

fun position :: "char \<Rightarrow> string \<Rightarrow> nat option" where
  "position c [] = None"
| "position c (x # xs) = (if x = c then Some 0 else map_option Suc (position c xs))"

definition base64_value :: "char \<Rightarrow> 8 word" where
  "base64_value c = (case position c base64_chars of None \<Rightarrow> -1 | Some i \<Rightarrow> of_nat i)"

definition octets :: "8 word \<Rightarrow> 8 word \<Rightarrow> 8 word \<Rightarrow> 8 word \<Rightarrow> 8 word list" where
  "octets a b c d =
     [push_bit 2 a + drop_bit 4 (b AND 0x30),
      push_bit 4 (b AND 0xF) + drop_bit 2 (c AND 0x3C),
      push_bit 6 (c AND 0x3) + d]"

definition base64_bytes :: "char list \<Rightarrow> string" where
  "base64_bytes a =
     map (\<lambda>w. char_of (unat w))
       (octets (base64_value (a ! 0)) (base64_value (a ! 1)) (base64_value (a ! 2))
         (base64_value (a ! 3)))"

fun decode_loop :: "string \<Rightarrow> string \<Rightarrow> string \<Rightarrow> string \<times> string" where
  "decode_loop [] a ret = (a, ret)"
| "decode_loop (x # xs) a ret =
     (if x = CHR ''='' \<or> \<not> IsBase64 x then (a, ret)
      else
        let a1 = a @ [x] in
        if length a1 = 4 then decode_loop xs [] (ret @ base64_bytes a1)
        else decode_loop xs a1 ret)"

definition Base64Decode :: "string \<Rightarrow> string" where
  "Base64Decode encoded =
     (case decode_loop encoded [] [] of
        (a, ret) \<Rightarrow>
          if a = [] then ret
          else ret @ take (length a - 1) (base64_bytes (a @ replicate (4 - length a) NUL)))"

subsection \<open>Digests\<close>

definition ReverseBytes :: "32 word \<Rightarrow> string" where
  "ReverseBytes x =
     map (\<lambda>k. char_of (unat (drop_bit k x AND 0xFF))) [24, 16, 8, 0]"

definition Sha1 :: "(string \<Rightarrow> 32 word list) \<Rightarrow> string \<Rightarrow> string" where
  "Sha1 get_digest buf = concat (map ReverseBytes (get_digest buf))"

subsection \<open>The round trip\<close>

lemma base64_table:
  "list_all (\<lambda>k. base64_value (base64_chars ! k) = of_nat k \<and> IsBase64 (base64_chars ! k) \<and>
     base64_chars ! k \<noteq> CHR ''='') [0..<64]"
  by code_simp

lemma base64_entry:
  assumes "unat (w :: 8 word) < 64"
  shows "base64_value (base64_chars ! unat w) = w" "IsBase64 (base64_chars ! unat w)"
    "base64_chars ! unat w \<noteq> CHR ''=''"
  using base64_table assms by (simp_all add: list_all_iff)

text \<open>Bytes are compared bit by bit; the sums are disjoint, so they are bitwise or.\<close>

lemma byte_eqI:
  fixes v w :: "8 word"
  assumes "\<And>n. n \<in> {0, 1, 2, 3, 4, 5, 6, 7} \<Longrightarrow> bit v n = bit w n"
  shows "v = w"
proof (rule bit_word_eqI)
  fix n assume "n < LENGTH(8)"
  then have "n \<in> {0, 1, 2, 3, 4, 5, 6, 7}" by auto
  then show "bit v n = bit w n" by (rule assms)
qed

lemma byte_plus:
  fixes v w :: "8 word"
  assumes "\<And>n. n \<in> {0, 1, 2, 3, 4, 5, 6, 7} \<Longrightarrow> \<not> (bit v n \<and> bit w n)"
  shows "v + w = v OR w"
proof (rule disjunctive_add_eq_or, rule byte_eqI)
  fix n :: nat assume "n \<in> {0, 1, 2, 3, 4, 5, 6, 7}"
  from assms [OF this] show "bit (v AND w) n = bit 0 n" by (simp add: bit_and_iff)
qed

lemma sextet_sums:
  fixes a b c :: "8 word"
  shows "push_bit 4 (a AND 0x03) + drop_bit 4 (b AND 0xF0) =
      push_bit 4 (a AND 0x03) OR drop_bit 4 (b AND 0xF0)"
    and "push_bit 2 (b AND 0x0F) + drop_bit 6 (c AND 0xC0) =
      push_bit 2 (b AND 0x0F) OR drop_bit 6 (c AND 0xC0)"
  by (rule byte_plus, auto simp: bit_simps)+

lemma octets_sextets:
  fixes a b c :: "8 word"
  shows "push_bit 2 (drop_bit 2 (a AND 0xFC)) +
      drop_bit 4 ((push_bit 4 (a AND 0x03) OR drop_bit 4 (b AND 0xF0)) AND 0x30) = a"
    and "push_bit 4 ((push_bit 4 (a AND 0x03) OR drop_bit 4 (b AND 0xF0)) AND 0xF) +
      drop_bit 2 ((push_bit 2 (b AND 0x0F) OR drop_bit 6 (c AND 0xC0)) AND 0x3C) = b"
    and "push_bit 6 ((push_bit 2 (b AND 0x0F) OR drop_bit 6 (c AND 0xC0)) AND 0x3) + (c AND 0x3F) = c"
  by (subst byte_plus; (rule byte_eqI)?; elim insertE emptyE; hypsubst?;
      simp add: bit_simps flip: numeral_2_eq_2 numeral_3_eq_3)+

lemma sextets_small: "w \<in> set (sextets a b c) \<Longrightarrow> unat w < 64"
proof -
  assume w: "w \<in> set (sextets a b c)"
  have "take_bit 6 w = w"
  proof (rule byte_eqI)
    fix n :: nat assume "n \<in> {0, 1, 2, 3, 4, 5, 6, 7}"
    then show "bit (take_bit 6 w) n = bit w n"
      using w unfolding sextets_def sextet_sums
      by (elim insertE emptyE) (auto simp: bit_simps simp flip: numeral_2_eq_2 numeral_3_eq_3)
  qed
  then have "unat w = take_bit 6 (unat w)" by (metis unsigned_take_bit_eq)
  then show ?thesis using take_bit_nat_less_exp [of 6 "unat w"] by simp
qed

text \<open>Three bytes make four digits of the alphabet, which make the three bytes again.\<close>

lemma digits_good:
  "c \<in> set (base64_digits a) \<Longrightarrow> c \<noteq> CHR ''='' \<and> IsBase64 c"
  by (auto simp: base64_digits_def base64_entry dest: sextets_small)

lemma digits_length [simp]: "length (base64_digits a) = 4"
  by (simp add: base64_digits_def sextets_def)

lemma sextets_length [simp]: "length (sextets a b c) = 4"
  by (simp add: sextets_def)

lemma digit_value:
  assumes "k < 4"
  shows "base64_value (base64_digits a ! k) =
     sextets (of_char (a ! 0)) (of_char (a ! 1)) (of_char (a ! 2)) ! k"
  unfolding base64_digits_def using assms
  by (subst nth_map, simp) (rule base64_entry(1) [OF sextets_small [OF nth_mem]], simp)

lemma sextets_nth:
  "sextets a b c ! 0 = drop_bit 2 (a AND 0xFC)"
  "sextets a b c ! 1 = push_bit 4 (a AND 0x03) OR drop_bit 4 (b AND 0xF0)"
  "sextets a b c ! 2 = push_bit 2 (b AND 0x0F) OR drop_bit 6 (c AND 0xC0)"
  "sextets a b c ! 3 = c AND 0x3F"
  unfolding sextets_def sextet_sums by simp_all

lemma octet_nth:
  "push_bit 2 (sextets a b c ! 0) + drop_bit 4 (sextets a b c ! 1 AND 0x30) = a"
  "push_bit 4 (sextets a b c ! 1 AND 0xF) + drop_bit 2 (sextets a b c ! 2 AND 0x3C) = b"
  "push_bit 6 (sextets a b c ! 2 AND 0x3) + sextets a b c ! 3 = c"
  unfolding sextets_nth by (rule octets_sextets)+

lemma char_of_byte: "char_of (unat (of_char c :: 8 word)) = c"
proof -
  have "unat (of_char c :: 8 word) = unat (of_nat (of_char c) :: 8 word)"
    by (simp only: of_nat_of_char)
  also have "\<dots> = of_char c"
    using of_char_nat_less [of c] by (subst unat_of_nat) simp
  finally show ?thesis by simp
qed

lemma decoded_nth:
  assumes "base64_value d0 = sextets (of_char x) (of_char y) (of_char z) ! 0"
    and "base64_value d1 = sextets (of_char x) (of_char y) (of_char z) ! 1"
    and "base64_value d2 = sextets (of_char x) (of_char y) (of_char z) ! 2"
    and "base64_value d3 = sextets (of_char x) (of_char y) (of_char z) ! 3"
  shows "take 1 (base64_bytes [d0, d1, u, v]) = [x]"
    and "take 2 (base64_bytes [d0, d1, d2, v]) = [x, y]"
    and "base64_bytes [d0, d1, d2, d3] = [x, y, z]"
proof -
  have four: "[p, q, r, t] ! 0 = p" "[p, q, r, t] ! 1 = q" "[p, q, r, t] ! 2 = r"
    "[p, q, r, t] ! 3 = t" for p q r t :: char
    by simp_all
  show "take 1 (base64_bytes [d0, d1, u, v]) = [x]"
    unfolding base64_bytes_def octets_def four assms octet_nth by (simp add: char_of_byte)
  show "take 2 (base64_bytes [d0, d1, d2, v]) = [x, y]"
    unfolding base64_bytes_def octets_def four assms octet_nth by (simp add: char_of_byte)
  show "base64_bytes [d0, d1, d2, d3] = [x, y, z]"
    unfolding base64_bytes_def octets_def four assms octet_nth by (simp add: char_of_byte)
qed

lemma base64_digits_cases:
  obtains d0 d1 d2 d3 where "base64_digits [x, y, z] = [d0, d1, d2, d3]"
    "\<forall>d \<in> {d0, d1, d2, d3}. d \<noteq> CHR ''='' \<and> IsBase64 d"
    "take 1 (base64_bytes [d0, d1, NUL, NUL]) = [x]"
    "take 2 (base64_bytes [d0, d1, d2, NUL]) = [x, y]"
    "base64_bytes [d0, d1, d2, d3] = [x, y, z]"
proof -
  define ds where "ds = base64_digits [x, y, z]"
  have "ds = [ds ! 0, ds ! 1, ds ! 2, ds ! 3]"
    by (rule nth_equalityI) (auto simp: ds_def less_Suc_eq numeral_eq_Suc)
  moreover have "\<forall>d \<in> {ds ! 0, ds ! 1, ds ! 2, ds ! 3}. d \<in> set ds"
    by (simp add: ds_def)
  moreover have "base64_value (ds ! k) = sextets (of_char x) (of_char y) (of_char z) ! k"
    if "k < 4" for k
    using digit_value [OF that, of "[x, y, z]"] by (simp add: ds_def)
  ultimately show ?thesis
    using decoded_nth [of "ds ! 0" x y z "ds ! 1" "ds ! 2" "ds ! 3"] digits_good [of _ "[x, y, z]"]
    by (intro that [of "ds ! 0" "ds ! 1" "ds ! 2" "ds ! 3"]) (simp_all add: ds_def)
qed

text \<open>The two loops take three bytes, or four digits, at a time.\<close>

lemma encode_loop_acc:
  "encode_loop xs a (r @ r') = (case encode_loop xs a r' of (b, s) \<Rightarrow> (b, r @ s))"
  by (induction xs a r' rule: encode_loop.induct) (auto simp: Let_def)

lemma decode_loop_acc:
  "decode_loop xs a (r @ r') = (case decode_loop xs a r' of (b, s) \<Rightarrow> (b, r @ s))"
  by (induction xs a r' rule: decode_loop.induct) (auto simp: Let_def)

lemma encode_three: "Base64Encode (x # y # z # s) = base64_digits [x, y, z] @ Base64Encode s"
  using encode_loop_acc [of s "[]" "base64_digits [x, y, z]" "[]"]
  by (auto simp: Base64Encode_def split: prod.splits)

lemma decode_four:
  "\<forall>d \<in> {d0, d1, d2, d3}. d \<noteq> CHR ''='' \<and> IsBase64 d \<Longrightarrow>
     Base64Decode (d0 # d1 # d2 # d3 # s) = base64_bytes [d0, d1, d2, d3] @ Base64Decode s"
  using decode_loop_acc [of s "[]" "base64_bytes [d0, d1, d2, d3]" "[]"]
  by (auto simp: Base64Decode_def split: prod.splits)

lemma Base64_decode_encode: "Base64Decode (Base64Encode s) = s"
proof (induction s rule: length_induct)
  case (1 s)
  consider "s = []" | x where "s = [x]" | x y where "s = [x, y]"
    | x y z t where "s = x # y # z # t"
    by (metis neq_Nil_conv)
  then show ?case
  proof cases
    case 1 then show ?thesis by (simp add: Base64Encode_def Base64Decode_def)
  next
    case 2
    then show ?thesis
      by (cases x NUL NUL rule: base64_digits_cases)
        (auto simp: Base64Encode_def Base64Decode_def numeral_2_eq_2 numeral_3_eq_3 eval_nat_numeral)
  next
    case 3
    then show ?thesis
      by (cases x y NUL rule: base64_digits_cases)
        (auto simp: Base64Encode_def Base64Decode_def eval_nat_numeral)
  next
    case (4 x y z t)
    then have "Base64Decode (Base64Encode t) = t" using "1.IH" by simp
    with 4 show ?thesis
      by (cases x y z rule: base64_digits_cases) (simp add: encode_three decode_four)
  qed
qed

end
