(* ===== verification/String_Util.thy ===== *)
theory String_Util
  imports Prelude "HOL-Library.Sublist"
begin

text \<open>
  \<^verbatim>\<open>lib/bytree/string_util.hpp\<close>. The functions that only call Boost (\<open>IntToString\<close>,
  \<open>StringToInt\<close>, \<open>Split\<close>) are parameters of the model, kept together in a record. Sizes
  are \<open>size_t\<close> values.
\<close>

record boost_functions =
  IntToString :: "32 word \<Rightarrow> string"
  StringToInt :: "string \<Rightarrow> int option"
  Split :: "string \<Rightarrow> string \<Rightarrow> string list"
  sha1_digest :: "string \<Rightarrow> 32 word list"

text \<open>\<open>s.find(p)\<close>: the first position at which \<open>p\<close> occurs.\<close>

fun find_string :: "string \<Rightarrow> string \<Rightarrow> nat option" where
  "find_string p [] = (if p = [] then Some 0 else None)"
| "find_string p (c # s) =
     (if take (length p) (c # s) = p then Some 0 else map_option Suc (find_string p s))"

definition npos :: "64 word" where
  "npos = -1"

definition find_pos :: "string \<Rightarrow> string \<Rightarrow> 64 word" where
  "find_pos s p = (case find_string p s of None \<Rightarrow> npos | Some i \<Rightarrow> of_nat i)"

definition IsStringBeginWith :: "string \<Rightarrow> string \<Rightarrow> bool" where
  "IsStringBeginWith s p \<longleftrightarrow> 0 = find_pos s p"

definition IsStringEndWith :: "string \<Rightarrow> string \<Rightarrow> bool" where
  "IsStringEndWith s p \<longleftrightarrow> find_pos s p = of_nat (length s) - of_nat (length p)"

definition LTrim :: "string \<Rightarrow> string" where
  "LTrim s = dropWhile is_space s"

definition RTrim :: "string \<Rightarrow> string" where
  "RTrim s = rev (dropWhile is_space (rev s))"

definition Trim :: "string \<Rightarrow> string" where
  "Trim s = LTrim (RTrim s)"

definition LTrim_char :: "string \<Rightarrow> char \<Rightarrow> string" where
  "LTrim_char s x = dropWhile (\<lambda>c. c = x) s"

definition RTrim_char :: "string \<Rightarrow> char \<Rightarrow> string" where
  "RTrim_char s x = rev (dropWhile (\<lambda>c. c = x) (rev s))"

definition Trim_char :: "string \<Rightarrow> char \<Rightarrow> string" where
  "Trim_char s x = LTrim_char (RTrim_char s x) x"

subsection \<open>Searching\<close>

lemma take_prefix: "take (length p) s = p \<longleftrightarrow> prefix p s"
  by (auto simp: prefix_def append_eq_conv_conj) (metis append_take_drop_id)

lemma find_string_Some:
  "find_string p s = Some i \<Longrightarrow>
     prefix p (drop i s) \<and> i \<le> length s \<and> (\<forall>j<i. \<not> prefix p (drop j s))"
proof (induction s arbitrary: i)
  case (Cons c s)
  then show ?case
    by (auto split: if_splits simp: take_prefix less_Suc_eq_0_disj)
qed (auto split: if_splits)

lemma find_string_None:
  "find_string p s = None \<Longrightarrow> i \<le> length s \<Longrightarrow> \<not> prefix p (drop i s)"
proof (induction s arbitrary: i)
  case (Cons c s)
  then show ?case
    by (cases i) (auto split: if_splits simp: take_prefix)
qed (auto split: if_splits)

lemma find_string_0: "find_string p s = Some 0 \<longleftrightarrow> prefix p s"
  by (cases s) (auto simp: take_prefix)

lemma find_string_bound: "find_string p s = Some i \<Longrightarrow> i + length p \<le> length s"
  using find_string_Some [of p s i] prefix_length_le [of p "drop i s"] by auto

lemma of_nat_64_eq:
  assumes "m < 2 ^ 64" and "n < 2 ^ 64"
  shows "(of_nat m :: 64 word) = of_nat n \<longleftrightarrow> m = n"
  using unat_of_nat_64 [OF assms(1)] unat_of_nat_64 [OF assms(2)] by metis

lemma npos_nat: "npos = of_nat (2 ^ 64 - 1)"
  by (simp add: npos_def)

lemma begins_prefix:
  assumes "length s < 2 ^ 64 - 1"
  shows "IsStringBeginWith s p \<longleftrightarrow> prefix p s"
proof (cases "find_string p s")
  case None
  then show ?thesis
    using find_string_0 [of p s] by (simp add: IsStringBeginWith_def find_pos_def npos_def)
next
  case (Some i)
  then have "i < 2 ^ 64" using find_string_bound [OF Some] assms by linarith
  then have "(0 :: 64 word) = of_nat i \<longleftrightarrow> 0 = i"
    using of_nat_64_eq [of 0 i] by simp
  then show ?thesis
    using Some find_string_0 [of p s] by (auto simp: IsStringBeginWith_def find_pos_def)
qed

text \<open>
  \<open>IsStringEndWith\<close> compares the first occurrence: it misses a suffix that also occurs
  earlier, and takes a missing pattern that is one byte longer than the string for a suffix.
\<close>

lemma word_diff_nat:
  assumes "m < 2 ^ 64" and "n < 2 ^ 64" and "k < 2 ^ 64"
  shows "(of_nat k :: 64 word) = of_nat m - of_nat n \<longleftrightarrow> k + n = m \<or> k + n = m + 2 ^ 64"
proof -
  have "(of_nat k :: 64 word) = of_nat m - of_nat n \<longleftrightarrow> (of_nat (k + n) :: 64 word) = of_nat m"
    by (auto simp: algebra_simps)
  also have "\<dots> \<longleftrightarrow> (k + n) mod 2 ^ 64 = m mod 2 ^ 64"
    by (simp add: word_of_nat_eq_iff take_bit_eq_mod del: of_nat_add)
  also have "\<dots> \<longleftrightarrow> k + n = m \<or> k + n = m + 2 ^ 64"
    using assms by (cases "k + n < 2 ^ 64") (auto simp: mod_if)
  finally show ?thesis .
qed

lemma ends_with:
  assumes "length s < 2 ^ 63" and "length p < 2 ^ 63"
  shows "IsStringEndWith s p \<longleftrightarrow>
    (suffix p s \<and> (\<forall>j < length s - length p. \<not> prefix p (drop j s))) \<or> length p = length s + 1"
proof (cases "find_string p s")
  case None
  then have "\<not> suffix p s"
    by (metis append_eq_conv_conj find_string_None le_add1 length_append prefix_order.order_refl
        suffix_def)
  moreover have "IsStringEndWith s p \<longleftrightarrow> length p = length s + 1"
    using None assms word_diff_nat [of "length s" "length p" "2 ^ 64 - 1"]
    unfolding IsStringEndWith_def find_pos_def npos_nat by auto
  ultimately show ?thesis by blast
next
  case (Some i)
  note i = find_string_Some [OF Some] find_string_bound [OF Some]
  have "IsStringEndWith s p \<longleftrightarrow> i + length p = length s"
    using Some i assms word_diff_nat [of "length s" "length p" i]
    unfolding IsStringEndWith_def find_pos_def by auto
  also have "\<dots> \<longleftrightarrow> suffix p s \<and> (\<forall>j < length s - length p. \<not> prefix p (drop j s))"
  proof
    assume eq: "i + length p = length s"
    with i have "drop i s = p"
      by (metis add_diff_cancel_left' append_eq_conv_conj length_drop prefixE take_all_iff le_refl)
    with i eq show "suffix p s \<and> (\<forall>j < length s - length p. \<not> prefix p (drop j s))"
      by (metis add_diff_cancel_right' suffix_drop)
  next
    assume a: "suffix p s \<and> (\<forall>j < length s - length p. \<not> prefix p (drop j s))"
    then show "i + length p = length s"
      using i by (metis add_diff_inverse_nat add_le_imp_le_diff diff_add_inverse2 le_add_diff_inverse2
          le_antisym linorder_not_less not_add_less2 suffix_length_le)
  qed
  finally show ?thesis using i by auto
qed

subsection \<open>Trimming\<close>

text \<open>
  \<open>Trim\<close> takes away blanks at both ends, and nothing else.
\<close>

lemma trims:
  "\<exists>l r. s = l @ Trim s @ r \<and> list_all is_space l \<and> list_all is_space r \<and>
    (Trim s \<noteq> [] \<longrightarrow> \<not> is_space (hd (Trim s)) \<and> \<not> is_space (last (Trim s)))"
proof -
  let ?t = "RTrim s"
  let ?l = "takeWhile is_space ?t"
  let ?r = "rev (takeWhile is_space (rev s))"
  have s: "s = ?t @ ?r"
    unfolding RTrim_def by (metis rev_append rev_rev_ident takeWhile_dropWhile_id)
  have t: "?t = ?l @ Trim s" by (simp add: Trim_def LTrim_def)
  have "\<not> is_space (hd (Trim s))" if "Trim s \<noteq> []"
    using that hd_dropWhile [of is_space ?t] by (simp add: Trim_def LTrim_def)
  moreover have "\<not> is_space (last (Trim s))" if "Trim s \<noteq> []"
  proof -
    have "?t \<noteq> []" using that t by (metis Nil_is_append_conv)
    then have "\<not> is_space (last ?t)"
      unfolding RTrim_def using hd_dropWhile [of is_space "rev s"] by (simp add: last_rev)
    then show ?thesis using that t by (metis last_appendR)
  qed
  moreover have "list_all is_space ?l" "list_all is_space ?r"
    by (auto simp: list_all_iff dest: set_takeWhileD)
  moreover have "s = ?l @ Trim s @ ?r" using s t by (metis append_assoc)
  ultimately show ?thesis by blast
qed

end
