(* ===== verification/Http_Response.thy ===== *)
theory Http_Response
  imports String_Map String_Util
begin

text \<open>
  \<open>HTTPResponse\<close> of \<^verbatim>\<open>woody/http/http_response.cc\<close>: the response an application fills
  and the text that is sent for it. The constructor leaves the status code as it is in memory.
\<close>

record http_response =
  rs_status_code :: "32 word"
  rs_status_message :: string
  rs_headers_map :: string_map
  rs_body :: string

definition new_http_response :: "32 word \<Rightarrow> http_response" where
  "new_http_response junk =
     \<lparr>rs_status_code = junk, rs_status_message = [], rs_headers_map = [], rs_body = []\<rparr>"

definition SetStatus :: "32 word \<Rightarrow> string \<Rightarrow> http_response \<Rightarrow> http_response" where
  "SetStatus code message r = r\<lparr>rs_status_code := code, rs_status_message := message\<rparr>"

definition Response_AddHeader :: "string \<Rightarrow> string \<Rightarrow> http_response \<Rightarrow> http_response" where
  "Response_AddHeader name v r = r\<lparr>rs_headers_map := map_insert name v (rs_headers_map r)\<rparr>"

definition AddBody :: "string \<Rightarrow> http_response \<Rightarrow> http_response" where
  "AddBody body r = r\<lparr>rs_body := body\<rparr>"

definition GetHeaderValue :: "http_response \<Rightarrow> string \<Rightarrow> string" where
  "GetHeaderValue r name =
     (case map_find (rs_headers_map r) name of Some v \<Rightarrow> v | None \<Rightarrow> [])"

definition GetAllHeaders :: "http_response \<Rightarrow> string list \<times> string list" where
  "GetAllHeaders r = (map fst (rs_headers_map r), map snd (rs_headers_map r))"

definition header_line :: "string \<times> string \<Rightarrow> string" where
  "header_line h = fst h @ '': '' @ snd h @ [CR, LF]"

definition Response_ToString :: "boost_functions \<Rightarrow> http_response \<Rightarrow> string" where
  "Response_ToString bf r =
     (let first_line = ''HTTP/1.1 '' @ IntToString bf (rs_status_code r) @ '' '' @
            rs_status_message r;
          headers = concat (map header_line (rs_headers_map r))
      in first_line @ [CR, LF] @ headers @ [CR, LF] @ rs_body r)"

text \<open>\<open>body_.size()\<close> is passed as an \<open>int\<close>.\<close>

definition Format :: "boost_functions \<Rightarrow> http_response \<Rightarrow> http_response" where
  "Format bf r =
     Response_AddHeader ''Content-Length'' (IntToString bf (of_nat (length (rs_body r)))) r"

text \<open>\<open>End\<close>: the response, and what is passed to \<open>Send\<close> of its handler.\<close>

definition End :: "boost_functions \<Rightarrow> http_response \<Rightarrow> http_response \<times> string" where
  "End bf r = (let r1 = Format bf r in (r1, Response_ToString bf r1))"

definition CleanUp_response :: "http_response \<Rightarrow> http_response" where
  "CleanUp_response r =
     r\<lparr>rs_status_code := 0, rs_status_message := [], rs_headers_map := [], rs_body := []\<rparr>"

subsection \<open>Reading a response\<close>

text \<open>A client's reading of the text: lines that end with CR LF, an empty line, the body.\<close>

fun read_line :: "string \<Rightarrow> (string \<times> string) option" where
  "read_line [] = None"
| "read_line [c] = None"
| "read_line (c # d # s) =
     (if c = CR \<and> d = LF then Some ([], s)
      else map_option (\<lambda>(l, rest). (c # l, rest)) (read_line (d # s)))"

definition read_field :: "string \<Rightarrow> (string \<times> string) option" where
  "read_field l =
     (case dropWhile (\<lambda>c. c \<noteq> CHR '':'') l of
        c # d # v \<Rightarrow> (if d = SP then Some (takeWhile (\<lambda>c. c \<noteq> CHR '':'') l, v) else None)
      | _ \<Rightarrow> None)"

lemma read_line_shorter: "read_line s = Some (l, rest) \<Longrightarrow> length rest < length s"
  by (induction s arbitrary: l rule: read_line.induct) (auto split: if_splits)

function read_fields :: "string \<Rightarrow> ((string \<times> string) list \<times> string) option" where
  "read_fields s =
     (case read_line s of
        None \<Rightarrow> None
      | Some (l, rest) \<Rightarrow>
          if l = [] then Some ([], rest)
          else
            case read_field l of
              None \<Rightarrow> None
            | Some h \<Rightarrow> map_option (\<lambda>(hs, body). (h # hs, body)) (read_fields rest))"
  by pat_completeness auto
termination
  by (relation "measure length") (auto dest: read_line_shorter)

declare read_fields.simps [simp del]

definition read_status_line :: "string \<Rightarrow> (string \<times> string) option" where
  "read_status_line l =
     (if take 9 l = ''HTTP/1.1 '' then
        let t = drop 9 l in
        case dropWhile (\<lambda>c. c \<noteq> SP) t of
          [] \<Rightarrow> None
        | _ # message \<Rightarrow> Some (takeWhile (\<lambda>c. c \<noteq> SP) t, message)
      else None)"

text \<open>The code, the message, the headers and the body.\<close>

definition read_response ::
  "string \<Rightarrow> (string \<times> string \<times> (string \<times> string) list \<times> string) option" where
  "read_response s =
     (case read_line s of
        None \<Rightarrow> None
      | Some (l, rest) \<Rightarrow>
          case (read_status_line l, read_fields rest) of
            (Some (code, message), Some (hs, body)) \<Rightarrow> Some (code, message, hs, body)
          | _ \<Rightarrow> None)"

subsection \<open>The text can be read back\<close>

definition field_ok :: "string \<times> string \<Rightarrow> bool" where
  "field_ok h \<longleftrightarrow> CR \<notin> set (fst h) \<and> CHR '':'' \<notin> set (fst h) \<and> CR \<notin> set (snd h)"

definition response_ok :: "http_response \<Rightarrow> bool" where
  "response_ok r \<longleftrightarrow> CR \<notin> set (rs_status_message r) \<and> list_all field_ok (rs_headers_map r)"

text \<open>What \<open>lexical_cast\<close> promises of the text of an integer.\<close>

definition decimal_texts :: "boost_functions \<Rightarrow> bool" where
  "decimal_texts bf \<longleftrightarrow>
     (\<forall>i. set (IntToString bf i) \<subseteq> set ''-0123456789'')"

lemma read_line_found: "CR \<notin> set l \<Longrightarrow> read_line (l @ CR # LF # s) = Some (l, s)"
proof (induction l)
  case (Cons c l)
  then show ?case by (cases l) auto
qed simp

lemma read_field_line: "field_ok h \<Longrightarrow> read_field (fst h @ '': '' @ snd h) = Some h"
proof -
  assume "field_ok h"
  then have n: "\<forall>c \<in> set (fst h). c \<noteq> CHR '':''" by (auto simp: field_ok_def)
  have "dropWhile (\<lambda>c. c \<noteq> CHR '':'') (fst h @ '': '' @ snd h) = '': '' @ snd h"
    "takeWhile (\<lambda>c. c \<noteq> CHR '':'') (fst h @ '': '' @ snd h) = fst h"
    using n by (induction "fst h" arbitrary: h) (auto simp: dropWhile_append takeWhile_append)
  then show ?thesis by (simp add: read_field_def)
qed

lemma read_fields_lines:
  "list_all field_ok hs \<Longrightarrow>
     read_fields (concat (map header_line hs) @ CR # LF # body) = Some (hs, body)"
proof (induction hs)
  case Nil
  show ?case by (subst read_fields.simps) simp
next
  case (Cons h hs)
  let ?rest = "concat (map header_line hs) @ CR # LF # body"
  have "CR \<notin> set (fst h @ '': '' @ snd h)" using Cons.prems by (simp add: field_ok_def)
  from read_line_found [OF this, of ?rest]
  have "read_line (concat (map header_line (h # hs)) @ CR # LF # body) =
      Some (fst h @ '': '' @ snd h, ?rest)"
    by (simp add: header_line_def)
  then show ?case
    using Cons read_field_line [of h] by (subst read_fields.simps) simp
qed

lemma read_status_line_text:
  assumes "SP \<notin> set code"
  shows "read_status_line (''HTTP/1.1 '' @ code @ '' '' @ message) = Some (code, message)"
proof -
  have "dropWhile (\<lambda>c. c \<noteq> SP) (code @ '' '' @ message) = '' '' @ message"
    "takeWhile (\<lambda>c. c \<noteq> SP) (code @ '' '' @ message) = code"
    using assms by (induction code) auto
  then show ?thesis by (simp add: read_status_line_def)
qed

lemma read_ToString:
  assumes "decimal_texts bf" and "response_ok r"
  shows "read_response (Response_ToString bf r) =
    Some (IntToString bf (rs_status_code r), rs_status_message r, rs_headers_map r, rs_body r)"
proof -
  let ?code = "IntToString bf (rs_status_code r)"
  let ?line = "''HTTP/1.1 '' @ ?code @ '' '' @ rs_status_message r"
  have code: "SP \<notin> set ?code" "CR \<notin> set ?code"
    using assms(1) by (auto simp: decimal_texts_def)
  have "CR \<notin> set ?line" using code(2) assms(2) by (simp add: response_ok_def)
  from read_line_found [OF this]
  have "read_line (Response_ToString bf r) =
      Some (?line, concat (map header_line (rs_headers_map r)) @ CR # LF # rs_body r)"
    by (simp add: Response_ToString_def)
  then show ?thesis
    using read_fields_lines [of "rs_headers_map r" "rs_body r"] assms(2)
      read_status_line_text [OF code(1), of "rs_status_message r"]
    by (simp add: read_response_def response_ok_def)
qed

text \<open>\<open>End\<close> announces the length of the body, unless the application set the header.\<close>

lemma End_content_length:
  assumes "map_ordered (rs_headers_map r)"
  shows "GetHeaderValue (fst (End bf r)) ''Content-Length'' =
    (case map_find (rs_headers_map r) ''Content-Length'' of
       Some v \<Rightarrow> v | None \<Rightarrow> IntToString bf (of_nat (length (rs_body r))))"
  using assms
  by (auto simp: End_def Let_def Format_def Response_AddHeader_def GetHeaderValue_def
      map_find_insert split: option.splits)

lemma set_map_insert: "set (map_insert k v m) \<subseteq> insert (k, v) (set m)"
  by (induction k v m rule: map_insert.induct) auto

lemma End_ok:
  assumes "decimal_texts bf" and "response_ok r"
  shows "response_ok (fst (End bf r))"
proof -
  let ?h = "(''Content-Length'', IntToString bf (of_nat (length (rs_body r))))"
  have "CR \<notin> set (snd ?h)" using assms(1) unfolding decimal_texts_def by auto
  then have "field_ok ?h" by (simp add: field_ok_def)
  then have "list_all field_ok (map_insert (fst ?h) (snd ?h) (rs_headers_map r))"
    using set_map_insert [of "fst ?h" "snd ?h" "rs_headers_map r"] assms(2)
    unfolding response_ok_def list_all_iff prod.collapse by blast
  then show ?thesis
    using assms(2)
    by (simp add: End_def Let_def Format_def Response_AddHeader_def response_ok_def)
qed

lemma read_End:
  assumes "decimal_texts bf" and "response_ok r"
  shows "read_response (snd (End bf r)) =
    Some (IntToString bf (rs_status_code r), rs_status_message r,
      map_insert ''Content-Length'' (IntToString bf (of_nat (length (rs_body r))))
        (rs_headers_map r), rs_body r)"
  using read_ToString [OF assms(1) End_ok [OF assms]]
  by (simp add: End_def Let_def Format_def Response_AddHeader_def)

end
