(* ===== verification/Websocket_Parser.thy ===== *)
theory Websocket_Parser
  imports Byte_Order
begin

text \<open>
  \<open>WebsocketFrame\<close> and \<open>WebsocketMessage\<close> of \<^verbatim>\<open>woody/websocket\<close>, the masking of bodies,
  and \<open>WebsocketCodec::ConvertFrameToString\<close> and \<open>ConvertMessageToFrame\<close>, which write frames.
  Then \<open>WebsocketParser\<close>, which reads a frame from the bytes at hand or asks for more.
\<close>

subsection \<open>Frames\<close>

definition OPCODE_CONTINUATION :: int where "OPCODE_CONTINUATION = 0"
definition OPCODE_TEXT :: int where "OPCODE_TEXT = 1"
definition OPCODE_BINARY :: int where "OPCODE_BINARY = 2"
definition OPCODE_CLOSE :: int where "OPCODE_CLOSE = 8"
definition OPCODE_PING :: int where "OPCODE_PING = 9"
definition OPCODE_PONG :: int where "OPCODE_PONG = 10"

lemmas opcode_defs =
  OPCODE_CONTINUATION_def OPCODE_TEXT_def OPCODE_BINARY_def OPCODE_CLOSE_def OPCODE_PING_def
  OPCODE_PONG_def

record websocket_frame =
  fin :: int
  rsv1 :: int
  rsv2 :: int
  rsv3 :: int
  opcode :: int
  mask :: int
  payload_length :: "64 word"
  masking_key :: "32 word"
  frame_body :: string

text \<open>The exclusive or of two bytes, and the masking of a body with the bytes of the key in
  network order.\<close>

fun char_xor :: "char \<Rightarrow> char \<Rightarrow> char" where
  "char_xor (Char a0 a1 a2 a3 a4 a5 a6 a7) (Char b0 b1 b2 b3 b4 b5 b6 b7) =
     Char (a0 \<noteq> b0) (a1 \<noteq> b1) (a2 \<noteq> b2) (a3 \<noteq> b3) (a4 \<noteq> b4) (a5 \<noteq> b5) (a6 \<noteq> b6) (a7 \<noteq> b7)"

definition Mask :: "string \<Rightarrow> 32 word \<Rightarrow> string" where
  "Mask data key =
     (let keys = host_bytes (HostToNetwork32 key) in
      map (\<lambda>i. char_xor (data ! i) (keys ! (i mod 4))) [0..<length data])"

definition UnMask :: "string \<Rightarrow> 32 word \<Rightarrow> string" where
  "UnMask data key = Mask data key"

lemma char_xor_twice [simp]: "char_xor (char_xor c k) k = c"
  by (cases c; cases k) auto

lemma length_Mask [simp]: "length (Mask s key) = length s"
  by (simp add: Mask_def Let_def)

lemma UnMask_Mask [simp]: "UnMask (Mask s key) key = s"
  by (rule nth_equalityI) (simp_all add: UnMask_def Mask_def Let_def)

text \<open>The exclusive or is that of the numbers.\<close>

lemma char_xor_nat: "of_char (char_xor c k) = (of_char c XOR of_char k :: nat)"
proof -
  have "of_char (Char b0 b1 b2 b3 b4 b5 b6 b7) =
      (horner_sum of_bool 2 [b0, b1, b2, b3, b4, b5, b6, b7] :: nat)" for b0 b1 b2 b3 b4 b5 b6 b7
    by (simp only: of_char_Char)
  then have b: "bit (of_char (Char b0 b1 b2 b3 b4 b5 b6 b7) :: nat) n \<longleftrightarrow>
      n < 8 \<and> [b0, b1, b2, b3, b4, b5, b6, b7] ! n" for b0 b1 b2 b3 b4 b5 b6 b7 n
    by (simp only: bit_horner_sum_bit_iff) (simp add: eval_nat_numeral)
  obtain c0 c1 c2 c3 c4 c5 c6 c7 where c: "c = Char c0 c1 c2 c3 c4 c5 c6 c7" by (cases c)
  obtain k0 k1 k2 k3 k4 k5 k6 k7 where k: "k = Char k0 k1 k2 k3 k4 k5 k6 k7" by (cases k)
  show ?thesis
  proof (rule bit_eqI)
    fix n
    show "bit (of_char (char_xor c k) :: nat) n \<longleftrightarrow> bit (of_char c XOR of_char k :: nat) n"
    proof (cases "n < 8")
      case True
      then have "n \<in> {0, 1, 2, 3, 4, 5, 6, 7}" by auto
      then show ?thesis unfolding c k char_xor.simps bit_xor_iff b by auto
    next
      case False
      then show ?thesis unfolding c k char_xor.simps bit_xor_iff b by simp
    qed
  qed
qed

subsection \<open>Messages\<close>

datatype message_type =
  kNoneMessage | kTextMessage | kBinaryMessage | kCloseMessage | kPingMessage | kPongMessage

record websocket_message =
  m_type :: message_type
  m_data :: string

text \<open>The subclasses do not pass a type to the constructor, so the type is the default.\<close>

definition new_message :: websocket_message where
  "new_message = \<lparr>m_type = kNoneMessage, m_data = []\<rparr>"

definition Append :: "string \<Rightarrow> websocket_message \<Rightarrow> websocket_message" where
  "Append s m = m\<lparr>m_data := m_data m @ s\<rparr>"

definition CleanUp_message :: "websocket_message \<Rightarrow> websocket_message" where
  "CleanUp_message m = m\<lparr>m_data := []\<rparr>"

subsection \<open>Writing a frame\<close>

text \<open>
  The first byte is an \<open>unsigned char\<close> to which the fields are or-ed. A frame whose payload
  does not fit 32 bits is an error: what has been written stays in the string.
\<close>

definition first_byte :: "websocket_frame \<Rightarrow> char" where
  "first_byte f =
     char_of (push_bit 7 (fin f) OR push_bit 6 (rsv1 f) OR push_bit 5 (rsv2 f) OR
              push_bit 4 (rsv3 f) OR opcode f)"

definition second_byte :: "websocket_frame \<Rightarrow> int \<Rightarrow> char" where
  "second_byte f n = char_of (push_bit 7 (mask f) OR n)"

definition ConvertFrameToString :: "websocket_frame \<Rightarrow> string \<Rightarrow> bool \<times> string" where
  "ConvertFrameToString f s0 =
     (let s1 = s0 @ [first_byte f];
          n = payload_length f;
          bytes = host_bytes (HostToNetwork64 n);
          key = (if mask f \<noteq> 0 then host_bytes (HostToNetwork32 (masking_key f)) else [])
      in if n \<le> 125 then
           (True, s1 @ [second_byte f (of_char (bytes ! 7))] @ key @ frame_body f)
         else if n \<le> 0xFF then
           (True, s1 @ [second_byte f 126] @ take 2 (drop 6 bytes) @ key @ frame_body f)
         else if n \<le> 0xFFFFFFFF then
           (True, s1 @ [second_byte f 127] @ take 8 bytes @ key @ frame_body f)
         else (False, s1))"

text \<open>
  \<open>ConvertMessageToFrame\<close>; the constant \<open>mask\<close> is 0, so the branch that masks the body with a
  random key is dead. \<open>None\<close> is the value \<open>false\<close>.
\<close>

definition message_opcode :: "message_type \<Rightarrow> int option" where
  "message_opcode t =
     (case t of
        kNoneMessage \<Rightarrow> None
      | kTextMessage \<Rightarrow> Some OPCODE_TEXT
      | kBinaryMessage \<Rightarrow> Some OPCODE_BINARY
      | kCloseMessage \<Rightarrow> Some OPCODE_CLOSE
      | kPingMessage \<Rightarrow> Some OPCODE_PING
      | kPongMessage \<Rightarrow> Some OPCODE_PONG)"

definition ConvertMessageToFrame :: "message_type \<Rightarrow> string \<Rightarrow> websocket_frame option" where
  "ConvertMessageToFrame t data =
     map_option
       (\<lambda>oc. \<lparr>fin = 1, rsv1 = 0, rsv2 = 0, rsv3 = 0, opcode = oc, mask = 0,
              payload_length = of_nat (length data), masking_key = 0, frame_body = data\<rparr>)
       (message_opcode t)"

text \<open>
  \<open>WebsocketParser\<close> of \<^verbatim>\<open>woody/websocket/websocket_parser.cc\<close>: the header of a frame is
  read from one buffer, its body is collected over calls. The callback that receives a
  complete frame is a value of the result.
\<close>

subsection \<open>The parser\<close>

datatype parsing_state = kParsingHeaderBegin | kParsingBodyBegin | kParsingComplete

record websocket_parser =
  wp_state :: parsing_state
  wp_fin :: int
  wp_rsv1 :: int
  wp_rsv2 :: int
  wp_rsv3 :: int
  wp_opcode :: int
  wp_mask :: int
  wp_length :: "64 word"
  wp_key :: "32 word"
  wp_body :: string

text \<open>The constructor sets the state and the empty body; the other fields hold what the memory
  held, \<open>junk\<close>.\<close>

definition new_websocket_parser :: "websocket_parser \<Rightarrow> websocket_parser" where
  "new_websocket_parser junk = junk\<lparr>wp_state := kParsingHeaderBegin, wp_body := []\<rparr>"

definition CleanUp_parser :: "websocket_parser \<Rightarrow> websocket_parser" where
  "CleanUp_parser p = p\<lparr>wp_body := [], wp_state := kParsingHeaderBegin\<rparr>"

definition parsed_frame :: "websocket_parser \<Rightarrow> websocket_frame" where
  "parsed_frame p =
     \<lparr>fin = wp_fin p, rsv1 = wp_rsv1 p, rsv2 = wp_rsv2 p, rsv3 = wp_rsv3 p,
      opcode = wp_opcode p, mask = wp_mask p, payload_length = wp_length p,
      masking_key = wp_key p, frame_body = wp_body p\<rparr>"

text \<open>\<open>(byte >> k) & 1\<close>; the byte is a signed \<open>char\<close>, the shift keeps its low eight bits.\<close>

definition bit_of_byte :: "nat \<Rightarrow> char \<Rightarrow> int" where
  "bit_of_byte k c = of_bool (bit (of_char c :: nat) k)"

subsection \<open>The header\<close>

text \<open>
  How the header part ends: the call returns a value, or the header is complete and the
  number of its bytes is known. A read behind the data, which the checks of the length
  exclude, would be a fault.
\<close>

datatype header_exit = Header_return bool websocket_parser | Header_complete nat websocket_parser
  | Header_fault

definition set_first_byte :: "char \<Rightarrow> websocket_parser \<Rightarrow> websocket_parser" where
  "set_first_byte c p =
     p\<lparr>wp_fin := bit_of_byte 7 c, wp_rsv1 := bit_of_byte 6 c, wp_rsv2 := bit_of_byte 5 c,
       wp_rsv3 := bit_of_byte 4 c, wp_opcode := of_char c AND 0xF\<rparr>"

definition first_byte_ok :: "websocket_parser \<Rightarrow> bool" where
  "first_byte_ok p \<longleftrightarrow>
     wp_rsv1 p = 0 \<and> wp_rsv2 p = 0 \<and> wp_rsv3 p = 0 \<and>
     \<not> ((wp_opcode p > 2 \<and> wp_opcode p < 8) \<or> wp_opcode p > 0xA) \<and>
     \<not> (wp_opcode p > 7 \<and> wp_fin p = 0)"

definition parse_masking_key :: "string \<Rightarrow> nat \<Rightarrow> websocket_parser \<Rightarrow> header_exit" where
  "parse_masking_key data n p =
     (if wp_mask p = 0 then Header_complete n p
      else if length data < n + 4 then Header_return True p
      else case NetworkToHostInt32 (drop n data) of
             None \<Rightarrow> Header_fault
           | Some key \<Rightarrow> Header_complete (n + 4) (p\<lparr>wp_key := key\<rparr>))"

definition parse_length :: "string \<Rightarrow> nat \<Rightarrow> websocket_parser \<Rightarrow> header_exit" where
  "parse_length data n p =
     (if wp_length p = 127 then
        (if length data < n + 8 then Header_return True p
         else case NetworkToHostInt64 (drop n data) of
                None \<Rightarrow> Header_fault
              | Some l \<Rightarrow> parse_masking_key data (n + 8) (p\<lparr>wp_length := l\<rparr>))
      else if wp_length p = 126 then
        (if length data < n + 2 then Header_return True p
         else case NetworkToHostInt16 (drop n data) of
                None \<Rightarrow> Header_fault
              | Some l \<Rightarrow> parse_masking_key data (n + 2) (p\<lparr>wp_length := ucast l\<rparr>))
      else parse_masking_key data n p)"

text \<open>The variable \<open>parsed\<close> is the caller's \<open>parsed_bytes\<close>; where the data end early, its value
  is returned as a \<open>bool\<close>.\<close>

definition parse_header :: "string \<Rightarrow> nat \<Rightarrow> websocket_parser \<Rightarrow> header_exit" where
  "parse_header data parsed p =
     (case data of
        [] \<Rightarrow> Header_return (parsed \<noteq> 0) p
      | c # data1 \<Rightarrow>
          let p1 = set_first_byte c p in
          if \<not> first_byte_ok p1 then Header_return False p1
          else
            (case data1 of
               [] \<Rightarrow> Header_return (parsed \<noteq> 0) p1
             | c2 # _ \<Rightarrow>
                 let p2 = p1\<lparr>wp_mask := bit_of_byte 7 c2, wp_length := of_char c2 AND 0x7F\<rparr> in
                 if wp_opcode p2 > 127 \<and> wp_length p2 > 125 then Header_return False p2
                 else parse_length data 2 p2))"

subsection \<open>The body\<close>

text \<open>The result of a call: its value, \<open>parsed_bytes\<close>, the parser, the frame passed to the
  callback if there is one; or a fault.\<close>

datatype parse_result = Parsed bool nat websocket_parser "websocket_frame option" | Parse_fault

definition parse_body :: "string \<Rightarrow> nat \<Rightarrow> websocket_parser \<Rightarrow> parse_result" where
  "parse_body data parsed p =
     (let need = wp_length p - of_nat (length (wp_body p)) in
      if unat need \<le> length data - parsed then
        let p1 = p\<lparr>wp_body := wp_body p @ take (unat need) (drop parsed data),
                   wp_state := kParsingComplete\<rparr>
        in Parsed True (parsed + unat need) (CleanUp_parser p1) (Some (parsed_frame p1))
      else
        Parsed True (parsed + (length data - parsed))
          (p\<lparr>wp_body := wp_body p @ drop parsed data\<rparr>) None)"

definition Parse :: "string \<Rightarrow> nat \<Rightarrow> websocket_parser \<Rightarrow> parse_result" where
  "Parse data parsed p =
     (if wp_state p = kParsingHeaderBegin then
        (case parse_header data parsed p of
           Header_return r p1 \<Rightarrow> Parsed r parsed p1 None
         | Header_complete n p1 \<Rightarrow>
             parse_body data (parsed + n) (p1\<lparr>wp_state := kParsingBodyBegin\<rparr>)
         | Header_fault \<Rightarrow> Parse_fault)
      else parse_body data parsed p)"

subsection \<open>The invariant\<close>

text \<open>Between calls the parser waits for a header with an empty body, or for the rest of a body
  that is not complete.\<close>

definition wp_inv :: "websocket_parser \<Rightarrow> bool" where
  "wp_inv p \<longleftrightarrow>
     (wp_state p = kParsingHeaderBegin \<and> wp_body p = []) \<or>
     (wp_state p = kParsingBodyBegin \<and> length (wp_body p) < unat (wp_length p))"

lemma new_parser_inv: "wp_inv (new_websocket_parser junk)"
  by (simp add: wp_inv_def new_websocket_parser_def)

definition header_ok :: "string \<Rightarrow> websocket_parser \<Rightarrow> header_exit \<Rightarrow> bool" where
  "header_ok data p h \<longleftrightarrow>
     (case h of
        Header_return r p1 \<Rightarrow> wp_state p1 = wp_state p \<and> wp_body p1 = wp_body p
      | Header_complete n p1 \<Rightarrow>
          2 \<le> n \<and> n \<le> length data \<and> wp_state p1 = wp_state p \<and> wp_body p1 = wp_body p
      | Header_fault \<Rightarrow> False)"

lemma parse_masking_key_ok:
  assumes "2 \<le> n" and "n \<le> length data"
  shows "header_ok data p (parse_masking_key data n p)"
  using assms by (auto simp: parse_masking_key_def header_ok_def NetworkToHostInt32_def)

lemma header_ok_cong:
  "header_ok data p1 h \<Longrightarrow> wp_state p1 = wp_state p \<Longrightarrow> wp_body p1 = wp_body p \<Longrightarrow> header_ok data p h"
  by (cases h) (simp_all add: header_ok_def)

lemma parse_length_ok:
  assumes "2 \<le> n" and "n \<le> length data"
  shows "header_ok data p (parse_length data n p)"
proof -
  have key: "header_ok data p (parse_masking_key data m (p\<lparr>wp_length := l\<rparr>))"
    if "2 \<le> m" "m \<le> length data" for m l
    using parse_masking_key_ok [OF that] by (rule header_ok_cong) simp_all
  show ?thesis
    using assms key [of "n + 8"] key [of "n + 2"] parse_masking_key_ok [OF assms, of p]
    by (auto simp: parse_length_def NetworkToHostInt64_def NetworkToHostInt16_def)
      (simp_all add: header_ok_def)
qed

lemma parse_header_ok: "header_ok data p (parse_header data parsed p)"
proof (cases data)
  case Nil
  then show ?thesis by (simp add: parse_header_def header_ok_def)
next
  case (Cons c data1)
  show ?thesis
  proof (cases data1)
    case Nil
    then show ?thesis
      by (simp add: Cons parse_header_def header_ok_def set_first_byte_def Let_def)
  next
    case (Cons c2 data2)
    let ?p = "(set_first_byte c p)\<lparr>wp_mask := bit_of_byte 7 c2, wp_length := of_char c2 AND 0x7F\<rparr>"
    have len: "2 \<le> length data" by (simp add: Cons \<open>data = c # data1\<close>)
    have "header_ok data p (parse_length data 2 ?p)"
      using parse_length_ok [OF order_refl len, of ?p]
      by (rule header_ok_cong) (simp_all add: set_first_byte_def)
    then show ?thesis
      by (auto simp: Cons \<open>data = c # data1\<close> parse_header_def Let_def)
        (simp_all add: header_ok_def set_first_byte_def)
  qed
qed

text \<open>What a call does, on every input: no fault, the invariant, and no more than the data.\<close>

definition parse_ok :: "string \<Rightarrow> parse_result \<Rightarrow> bool" where
  "parse_ok data r \<longleftrightarrow> (\<exists>b n p f. r = Parsed b n p f \<and> wp_inv p \<and> n \<le> length data)"

lemma body_need:
  assumes "length b \<le> unat (w :: 64 word)"
  shows "unat (w - of_nat (length b)) = unat w - length b"
proof -
  have "length b < 2 ^ 64" using assms unsigned_less [of w, where 'a = nat] by simp
  then have "unat (of_nat (length b) :: 64 word) = length b" by (rule unat_of_nat_64)
  with assms show ?thesis by (simp add: unat_sub word_le_nat_alt)
qed

lemma parse_body_ok:
  assumes "parsed \<le> length data" and "length (wp_body p) \<le> unat (wp_length p)"
    and "wp_state p = kParsingBodyBegin"
  shows "parse_ok data (parse_body data parsed p)"
proof -
  note need = body_need [OF assms(2)]
  show ?thesis
  proof (cases "unat (wp_length p) - length (wp_body p) \<le> length data - parsed")
    case True
    then show ?thesis
      using assms
      by (auto simp: parse_body_def Let_def need parse_ok_def wp_inv_def CleanUp_parser_def)
  next
    case False
    then show ?thesis
      using assms by (auto simp: parse_body_def Let_def need parse_ok_def wp_inv_def)
  qed
qed

lemma Parse_ok:
  assumes "wp_inv p"
  shows "parse_ok data (Parse data 0 p)"
proof (cases "wp_state p = kParsingHeaderBegin")
  case True
  then have b: "wp_body p = []" using assms by (simp add: wp_inv_def)
  show ?thesis
  proof (cases "parse_header data 0 p")
    case (Header_return r p1)
    with parse_header_ok [of data p 0] True b show ?thesis
      by (simp add: Parse_def parse_ok_def header_ok_def wp_inv_def)
  next
    case (Header_complete n p1)
    with parse_header_ok [of data p 0] b
      parse_body_ok [of n data "p1\<lparr>wp_state := kParsingBodyBegin\<rparr>"] True
    show ?thesis by (simp add: Parse_def header_ok_def)
  next
    case Header_fault
    with parse_header_ok [of data p 0] show ?thesis by (simp add: header_ok_def)
  qed
next
  case False
  with assms show ?thesis
    using parse_body_ok [of 0 data p] by (simp add: Parse_def wp_inv_def)
qed

end
