(* ===== verification/Websocket_Wire.thy ===== *)
theory Websocket_Wire
  imports Websocket_Parser
begin

text \<open>
  Frames on the wire: what \<open>ConvertFrameToString\<close> writes, \<open>Parse\<close> reads back, also when the
  body arrives in pieces.
\<close>

definition frame_ok :: "websocket_frame \<Rightarrow> bool" where
  "frame_ok f \<longleftrightarrow>
     fin f \<in> {0, 1} \<and> rsv1 f = 0 \<and> rsv2 f = 0 \<and> rsv3 f = 0 \<and>
     opcode f \<in> {OPCODE_CONTINUATION, OPCODE_TEXT, OPCODE_BINARY, OPCODE_CLOSE, OPCODE_PING,
       OPCODE_PONG} \<and>
     (opcode f > 7 \<longrightarrow> fin f = 1) \<and> mask f \<in> {0, 1} \<and>
     payload_length f = of_nat (length (frame_body f)) \<and> length (frame_body f) \<le> 0xFFFFFFFF"

text \<open>The header: two bytes, the extended length, the key.\<close>

definition key_bytes :: "websocket_frame \<Rightarrow> string" where
  "key_bytes f = (if mask f \<noteq> 0 then host_bytes (HostToNetwork32 (masking_key f)) else [])"

definition frame_header :: "websocket_frame \<Rightarrow> string" where
  "frame_header f =
     (let n = length (frame_body f) in
      first_byte f #
      (if n \<le> 125 then [second_byte f (int n)]
       else if n \<le> 0xFF then
         second_byte f 126 # host_bytes (HostToNetwork16 (of_nat n))
       else second_byte f 127 # host_bytes (HostToNetwork64 (of_nat n))) @ key_bytes f)"

lemma le_bytes_add: "le_bytes (m + n) x = le_bytes m x @ le_bytes n (x div 256 ^ m)"
  by (induction m arbitrary: x) (simp_all add: div_mult2_eq)

lemma network_bytes_split:
  "host_bytes (HostToNetwork64 w) = rev (le_bytes 6 (unat w div 256 ^ 2)) @ rev (le_bytes 2 (unat w))"
proof -
  have "le_bytes 8 x = le_bytes 2 x @ le_bytes 6 (x div 256 ^ 2)" for x
    using le_bytes_add [of 2 6 x] by (simp del: le_bytes.simps)
  then show ?thesis unfolding network_bytes_64 by (simp only: rev_append)
qed

lemma le_bytes_2: "rev (le_bytes 2 x) = [char_of (x div 256), char_of x]"
  by (simp add: numeral_2_eq_2)

lemma convert_header:
  assumes "frame_ok f"
  shows "ConvertFrameToString f s = (True, s @ frame_header f @ frame_body f)"
proof -
  define n where "n = length (frame_body f)"
  have n: "n \<le> 0xFFFFFFFF" "payload_length f = of_nat n"
    using assms by (simp_all add: frame_ok_def n_def)
  have u: "unat (of_nat n :: 64 word) = n" using n(1) by (simp add: unat_of_nat_64)
  have le: "of_nat n \<le> (of_nat k :: 64 word) \<longleftrightarrow> n \<le> k" if "k < 2 ^ 64" for k
    using u unat_of_nat_64 [OF that] by (simp add: word_le_nat_alt)
  have l: "of_nat n \<le> (125 :: 64 word) \<longleftrightarrow> n \<le> 125" "of_nat n \<le> (0xFF :: 64 word) \<longleftrightarrow> n \<le> 0xFF"
    "of_nat n \<le> (0xFFFFFFFF :: 64 word)"
    using le [of 125] le [of 255] le [of 4294967295] n(1) by simp_all
  define bytes where "bytes = host_bytes (HostToNetwork64 (of_nat n))"
  have bytes: "bytes = rev (le_bytes 6 (n div 256 ^ 2)) @ [char_of (n div 256), char_of n]"
    unfolding bytes_def network_bytes_split u le_bytes_2 ..
  have len: "length (rev (le_bytes 6 x)) = 6" for x by simp
  have b7: "bytes ! 7 = char_of n" "take 2 (drop 6 bytes) = [char_of (n div 256), char_of n]"
    "take 8 bytes = bytes"
    unfolding bytes using len [of "n div 256 ^ 2"] by (simp_all del: le_bytes.simps add: nth_append)
  have small: "of_char (bytes ! 7) = int n" if "n \<le> 125"
  proof -
    have "of_char (bytes ! 7) = int (of_char (char_of n))" unfolding b7 by (rule of_nat_of_char [symmetric])
    also have "\<dots> = int n" using that by simp
    finally show ?thesis .
  qed
  have mid: "host_bytes (HostToNetwork16 (of_nat n)) = [char_of (n div 256), char_of n]" if "n \<le> 0xFF"
  proof -
    have "unat (of_nat n :: 16 word) = n" using that by (simp add: unat_of_nat take_bit_nat_eq_self)
    then show ?thesis by (simp only: network_bytes_16 le_bytes_2)
  qed
  have c: "ConvertFrameToString f s =
      (if n \<le> 125 then (True, s @ [first_byte f] @ [second_byte f (of_char (bytes ! 7))] @ key_bytes f @ frame_body f)
       else if n \<le> 0xFF then
         (True, s @ [first_byte f] @ [second_byte f 126] @ take 2 (drop 6 bytes) @ key_bytes f @ frame_body f)
       else (True, s @ [first_byte f] @ [second_byte f 127] @ take 8 bytes @ key_bytes f @ frame_body f))"
    using l by (simp add: ConvertFrameToString_def Let_def n(2) key_bytes_def flip: bytes_def)
  show ?thesis
  proof (cases "n \<le> 125")
    case True
    with small show ?thesis
      unfolding c frame_header_def n_def [symmetric] by simp
  next
    case big: False
    show ?thesis
    proof (cases "n \<le> 0xFF")
      case True
      with big mid b7(2) show ?thesis
        unfolding c frame_header_def n_def [symmetric] by simp
    next
      case False
      with big b7(3) show ?thesis
        unfolding c frame_header_def n_def [symmetric] by (simp add: bytes_def)
    qed
  qed
qed

subsection \<open>Reading the two bytes back\<close>

lemma bit_of_byte_char_of: "bit_of_byte k (char_of x) = of_bool (k < 8 \<and> bit (x :: int) k)"
proof -
  have "int (of_char (char_of x)) = take_bit 8 x"
    by (simp add: of_nat_of_char take_bit_eq_mod)
  then have "bit (of_char (char_of x) :: nat) k \<longleftrightarrow> bit (take_bit 8 x) k"
    by (metis bit_of_nat_iff_bit)
  then show ?thesis by (simp add: bit_of_byte_def bit_take_bit_iff)
qed

lemma read_first_byte:
  assumes "frame_ok f"
  shows "set_first_byte (first_byte f) p =
      p\<lparr>wp_fin := fin f, wp_rsv1 := 0, wp_rsv2 := 0, wp_rsv3 := 0, wp_opcode := opcode f\<rparr>"
    and "first_byte_ok (p\<lparr>wp_fin := fin f, wp_rsv1 := 0, wp_rsv2 := 0, wp_rsv3 := 0,
      wp_opcode := opcode f\<rparr>)"
proof -
  have f: "fin f = 0 \<or> fin f = 1" "rsv1 f = 0" "rsv2 f = 0" "rsv3 f = 0"
    "opcode f = 0 \<or> opcode f = 1 \<or> opcode f = 2 \<or> opcode f = 8 \<or> opcode f = 9 \<or> opcode f = 10"
    "opcode f > 7 \<longrightarrow> fin f = 1"
    using assms by (simp_all add: frame_ok_def opcode_defs)
  have "push_bit 7 (fin f) OR opcode f = opcode f + 128 * fin f"
    using f(1,5) by (elim disjE) (simp_all add: push_bit_eq_mult)
  then have b: "first_byte f = char_of (opcode f + 128 * fin f)"
    by (simp add: first_byte_def f)
  show "set_first_byte (first_byte f) p =
      p\<lparr>wp_fin := fin f, wp_rsv1 := 0, wp_rsv2 := 0, wp_rsv3 := 0, wp_opcode := opcode f\<rparr>"
    using f(1,5) unfolding b set_first_byte_def bit_of_byte_char_of
    by (elim disjE) simp_all
  show "first_byte_ok (p\<lparr>wp_fin := fin f, wp_rsv1 := 0, wp_rsv2 := 0, wp_rsv3 := 0,
      wp_opcode := opcode f\<rparr>)"
    using f(1,5,6) unfolding first_byte_ok_def by (elim disjE) simp_all
qed

lemma and_7F: "(x :: nat) AND 0x7F = x mod 128"
proof -
  have "x AND 0x7F = take_bit 7 x" by (simp add: take_bit_eq_mask mask_eq_exp_minus_1)
  then show ?thesis by (simp add: take_bit_eq_mod)
qed

lemma read_second_byte:
  assumes "mask f = 0 \<or> mask f = 1" and "n < 128"
  shows "bit_of_byte 7 (second_byte f (int n)) = mask f"
    and "(of_char (second_byte f (int n)) AND 0x7F :: 64 word) = of_nat n"
proof -
  have "take_bit 7 (int n) = int n" using assms(2) by (simp add: take_bit_int_eq_self)
  then have "push_bit 7 (mask f) OR int n = int n + 128 * mask f"
    using concat_bit_eq [of 7 "int n" "mask f"]
    by (simp add: concat_bit_def or.commute push_bit_eq_mult)
  then have b: "second_byte f (int n) = char_of (int n + 128 * mask f)"
    by (simp add: second_byte_def)
  have "bit (int n + 128 * mask f) 7 \<longleftrightarrow> mask f = 1"
    using assms by (auto simp: bit_iff_odd)
  then show "bit_of_byte 7 (second_byte f (int n)) = mask f"
    using assms(1) unfolding b bit_of_byte_char_of by auto
  have "int (of_char (second_byte f (int n))) mod 128 = int n"
    using assms unfolding b by (auto simp: of_nat_of_char mod_mod_cancel)
  then have "(of_char (second_byte f (int n)) :: nat) AND 0x7F = n"
    unfolding and_7F by (metis of_nat_eq_iff of_nat_numeral zmod_int)
  then have "(of_nat (of_char (second_byte f (int n)) AND 0x7F) :: 64 word) = of_nat n" by simp
  then show "(of_char (second_byte f (int n)) AND 0x7F :: 64 word) = of_nat n"
    by (simp add: of_nat_and_eq of_nat_of_char)
qed

subsection \<open>Reading the header back\<close>

text \<open>The parser after the header of a frame: an unmasked frame leaves the key of the last one.\<close>

definition after_header :: "websocket_frame \<Rightarrow> websocket_parser \<Rightarrow> websocket_parser" where
  "after_header f p =
     p\<lparr>wp_fin := fin f, wp_rsv1 := 0, wp_rsv2 := 0, wp_rsv3 := 0, wp_opcode := opcode f,
       wp_mask := mask f, wp_length := payload_length f,
       wp_key := (if mask f = 0 then wp_key p else masking_key f)\<rparr>"

lemma read_key:
  assumes "wp_mask p = mask f" and "length pre = n"
  shows "parse_masking_key (pre @ key_bytes f @ rest) n p =
    Header_complete (n + length (key_bytes f))
      (p\<lparr>wp_key := (if mask f = 0 then wp_key p else masking_key f)\<rparr>)"
  using assms by (simp add: parse_masking_key_def key_bytes_def network_read)

lemma read_header:
  assumes "frame_ok f"
  shows "parse_header (frame_header f @ rest) parsed p =
    Header_complete (length (frame_header f)) (after_header f p)"
proof -
  define n where "n = length (frame_body f)"
  have n: "n \<le> 0xFFFFFFFF" "payload_length f = of_nat n" "mask f = 0 \<or> mask f = 1"
    using assms by (simp_all add: frame_ok_def n_def)
  let ?p1 = "p\<lparr>wp_fin := fin f, wp_rsv1 := 0, wp_rsv2 := 0, wp_rsv3 := 0, wp_opcode := opcode f\<rparr>"
  have op: "\<not> opcode f > 127" using assms by (auto simp: frame_ok_def opcode_defs)
  have start: "parse_header (first_byte f # second_byte f (int k) # tail) parsed p =
      parse_length (first_byte f # second_byte f (int k) # tail) 2
        (?p1\<lparr>wp_mask := mask f, wp_length := of_nat k\<rparr>)" if "k < 128" for k tail
    using read_first_byte [OF assms, of p] read_second_byte [OF n(3) that] op
    by (simp add: parse_header_def Let_def)
  let ?p2 = "\<lambda>l. ?p1\<lparr>wp_mask := mask f, wp_length := l\<rparr>"
  have fin_key: "(?p2 (of_nat n))\<lparr>wp_key := (if mask f = 0 then wp_key (?p2 (of_nat n)) else masking_key f)\<rparr> =
      after_header f p" by (simp add: after_header_def n(2))
  have key: "parse_masking_key (pre @ key_bytes f @ rest) k (?p2 (of_nat n)) =
      Header_complete (k + length (key_bytes f)) (after_header f p)" if "length pre = k" for pre k
    unfolding fin_key [symmetric] using that by (intro read_key) simp_all
  show ?thesis
  proof (cases "n \<le> 125")
    case True
    have u: "unat (of_nat n :: 64 word) = n" using n(1) by (simp add: unat_of_nat_64)
    have "of_nat n \<noteq> (127 :: 64 word)" "of_nat n \<noteq> (126 :: 64 word)"
      using True u by (auto dest!: arg_cong [where f = unat])
    then show ?thesis
      using True start [of n "key_bytes f @ rest"] key [of "[first_byte f, second_byte f (int n)]" 2]
      by (simp add: frame_header_def parse_length_def flip: n_def)
  next
    case big: False
    show ?thesis
    proof (cases "n \<le> 0xFF")
      case True
      let ?l = "host_bytes (HostToNetwork16 (of_nat n))"
      have "ucast (of_nat n :: 16 word) = (of_nat n :: 64 word)"
        using True by (simp add: unsigned_of_nat take_bit_nat_eq_self)
      then show ?thesis
        using True big start [of 126 "?l @ key_bytes f @ rest"]
          key [of "first_byte f # second_byte f 126 # ?l" 4]
        by (simp add: frame_header_def parse_length_def network_read flip: n_def)
    next
      case False
      let ?l = "host_bytes (HostToNetwork64 (of_nat n))"
      show ?thesis
        using False big start [of 127 "?l @ key_bytes f @ rest"]
          key [of "first_byte f # second_byte f 127 # ?l" 10]
        by (simp add: frame_header_def parse_length_def network_read flip: n_def)
    qed
  qed
qed

subsection \<open>Reading a frame\<close>

text \<open>The frame as the callback gets it: an unmasked frame carries the key of an earlier one.\<close>

definition received :: "websocket_frame \<Rightarrow> websocket_parser \<Rightarrow> websocket_frame" where
  "received f p = f\<lparr>masking_key := (if mask f = 0 then wp_key p else masking_key f)\<rparr>"

text \<open>Pieces of a stream, each a buffer that one call consumes whole.\<close>

fun feed :: "string list \<Rightarrow> websocket_parser \<Rightarrow> (websocket_frame list \<times> websocket_parser) option" where
  "feed [] p = Some ([], p)"
| "feed (s # ss) p =
     (case Parse s 0 p of
        Parsed ok n p1 fr \<Rightarrow>
          if ok \<and> n = length s
          then map_option (apfst ((@) (case fr of None \<Rightarrow> [] | Some f \<Rightarrow> [f]))) (feed ss p1)
          else None
      | Parse_fault \<Rightarrow> None)"

lemma parse_body_end:
  assumes "wp_length p = of_nat (length b)" and "length b < 2 ^ 64" and "wp_body p @ s = b"
    and "parsed = length pre"
  shows "parse_body (pre @ s @ rest) parsed p =
    Parsed True (parsed + length s) (CleanUp_parser (p\<lparr>wp_body := b\<rparr>))
      (Some (parsed_frame (p\<lparr>wp_body := b\<rparr>)))"
proof -
  have u: "unat (wp_length p) = length b" unfolding assms(1) by (rule unat_of_nat_64 [OF assms(2)])
  have "length (wp_body p) \<le> unat (wp_length p)" unfolding u using assms(3) by auto
  from body_need [OF this] have "unat (wp_length p - of_nat (length (wp_body p))) = length s"
    unfolding u using assms(3) by auto
  with assms(3,4) show ?thesis
    by (simp add: parse_body_def CleanUp_parser_def parsed_frame_def)
qed

lemma parse_body_more:
  assumes "wp_length p = of_nat (length b)" and "length b < 2 ^ 64" and "wp_body p @ s @ r = b"
    and "r \<noteq> []" and "parsed = length pre"
  shows "parse_body (pre @ s) parsed p =
    Parsed True (parsed + length s) (p\<lparr>wp_body := wp_body p @ s\<rparr>) None"
proof -
  have u: "unat (wp_length p) = length b" unfolding assms(1) by (rule unat_of_nat_64 [OF assms(2)])
  have "length (wp_body p) \<le> unat (wp_length p)" unfolding u using assms(3) by auto
  from body_need [OF this] have "unat (wp_length p - of_nat (length (wp_body p))) = length (s @ r)"
    unfolding u using assms(3) by auto
  with assms(4,5) show ?thesis by (simp add: parse_body_def)
qed

lemma feed_body:
  assumes "wp_state p = kParsingBodyBegin" and "wp_length p = of_nat (length b)"
    and "length b < 2 ^ 64" and "wp_body p @ concat bs = b" and "bs \<noteq> []" and "[] \<notin> set bs"
  shows "feed bs p = Some ([parsed_frame (p\<lparr>wp_body := b\<rparr>)], CleanUp_parser (p\<lparr>wp_body := b\<rparr>))"
  using assms
proof (induction bs arbitrary: p)
  case (Cons s ss)
  show ?case
  proof (cases "ss = []")
    case True
    with Cons.prems show ?thesis
      using parse_body_end [OF Cons.prems(2,3), of s 0 "[]" "[]"] by (simp add: Parse_def)
  next
    case False
    then have "concat ss \<noteq> []" using Cons.prems(6) by (cases ss) auto
    then have "Parse s 0 p = Parsed True (length s) (p\<lparr>wp_body := wp_body p @ s\<rparr>) None"
      using Cons.prems parse_body_more [OF Cons.prems(2,3), of s "concat ss" 0 "[]"]
      by (simp add: Parse_def)
    with Cons.IH [of "p\<lparr>wp_body := wp_body p @ s\<rparr>"] Cons.prems False show ?thesis by simp
  qed
qed simp

lemma frame_parsed:
  assumes "frame_ok f"
  shows "parsed_frame ((after_header f p)\<lparr>wp_state := st, wp_body := frame_body f\<rparr>) = received f p"
  using assms by (cases f) (simp add: parsed_frame_def after_header_def received_def frame_ok_def)

lemma frame_length:
  assumes "frame_ok f"
  shows "wp_length (after_header f p) = of_nat (length (frame_body f))"
    and "length (frame_body f) < 2 ^ 64"
  using assms by (simp_all add: frame_ok_def after_header_def)

lemma Parse_frame:
  assumes "frame_ok f" and "wp_state p = kParsingHeaderBegin" and "wp_body p = []"
  shows "\<exists>p'. Parse (frame_header f @ frame_body f @ rest) 0 p =
      Parsed True (length (frame_header f @ frame_body f)) p' (Some (received f p)) \<and>
    wp_state p' = kParsingHeaderBegin \<and> wp_body p' = [] \<and>
    wp_key p' = (if mask f = 0 then wp_key p else masking_key f)"
proof -
  let ?p = "(after_header f p)\<lparr>wp_state := kParsingBodyBegin\<rparr>"
  have "wp_body ?p = []" using assms(3) by (simp add: after_header_def)
  then have "parse_body (frame_header f @ frame_body f @ rest) (length (frame_header f)) ?p =
      Parsed True (length (frame_header f) + length (frame_body f))
        (CleanUp_parser (?p\<lparr>wp_body := frame_body f\<rparr>)) (Some (received f p))"
    using parse_body_end [of ?p "frame_body f" "frame_body f" "length (frame_header f)"
        "frame_header f" rest] frame_length(1) [OF assms(1), of p] frame_length(2) [OF assms(1)] frame_parsed [OF assms(1), where p = p]
    by simp
  with assms(2) show ?thesis
    by (simp add: Parse_def read_header [OF assms(1)] CleanUp_parser_def after_header_def)
qed

lemma feed_frame:
  assumes "frame_ok f" and "wp_state p = kParsingHeaderBegin" and "wp_body p = []"
    and "b0 @ concat bs = frame_body f" and "[] \<notin> set bs"
  shows "\<exists>p'. feed ((frame_header f @ b0) # bs) p = Some ([received f p], p') \<and>
    wp_state p' = kParsingHeaderBegin \<and> wp_body p' = []"
proof (cases "bs = []")
  case True
  with assms(4) Parse_frame [OF assms(1-3), of "[]"] show ?thesis by auto
next
  case False
  let ?p = "(after_header f p)\<lparr>wp_state := kParsingBodyBegin\<rparr>"
  note len = frame_length(1) [OF assms(1), of p] frame_length(2) [OF assms(1)]
  have b: "wp_body ?p = []" using assms(3) by (simp add: after_header_def)
  have "concat bs \<noteq> []" using assms(5) False by (cases bs) auto
  then have "Parse (frame_header f @ b0) 0 p =
      Parsed True (length (frame_header f @ b0)) (?p\<lparr>wp_body := b0\<rparr>) None"
    using parse_body_more [of ?p "frame_body f" b0 "concat bs" "length (frame_header f)"
        "frame_header f"] assms(2,4) len b
    by (simp add: Parse_def read_header [OF assms(1)])
  moreover have "feed bs (?p\<lparr>wp_body := b0\<rparr>) =
      Some ([received f p], CleanUp_parser (?p\<lparr>wp_body := frame_body f\<rparr>))"
    using feed_body [of "?p\<lparr>wp_body := b0\<rparr>" "frame_body f" bs] assms(4,5) len False
      frame_parsed [OF assms(1), where p = p] by simp
  ultimately show ?thesis by (simp add: CleanUp_parser_def)
qed

end
