(* ===== verification/Websocket_Codec.thy ===== *)
theory Websocket_Codec
  imports Websocket_Wire
begin

text \<open>
  \<open>WebsocketCodec\<close> of \<^verbatim>\<open>woody/websocket/websocket_codec.cc\<close>: what becomes of a parsed
  frame. The calls of the registered callbacks are values of the result, in order. A function
  returns its value, the codec and the calls.
\<close>

datatype codec_event =
  Text_message websocket_message | Binary_message websocket_message
| Close_message websocket_message | Ping_message websocket_message
| Pong_message websocket_message | Codec_error

record websocket_codec =
  wc_parser :: websocket_parser
  is_expected_masking :: bool
  cur_message_type :: message_type
  text_message :: websocket_message
  binary_message :: websocket_message

definition new_websocket_codec :: "websocket_parser \<Rightarrow> websocket_codec" where
  "new_websocket_codec junk =
     \<lparr>wc_parser = new_websocket_parser junk, is_expected_masking = True,
      cur_message_type = kNoneMessage, text_message = new_message, binary_message = new_message\<rparr>"

type_synonym codec_step = "bool \<times> websocket_codec \<times> codec_event list"

text \<open>\<open>HandleFrameBody\<close>: the value, the handled body, the calls of \<open>OnCodecError\<close>.\<close>

definition HandleFrameBody ::
  "websocket_frame \<Rightarrow> websocket_codec \<Rightarrow> bool \<times> string \<times> codec_event list" where
  "HandleFrameBody f c =
     (if frame_body f \<noteq> [] then
        (if masking_key f \<noteq> 0 \<and> is_expected_masking c then
           (True, UnMask (frame_body f) (masking_key f), [])
         else if masking_key f \<noteq> 0 \<and> \<not> is_expected_masking c then (False, [], [Codec_error])
         else if masking_key f = 0 \<and> is_expected_masking c then (False, [], [Codec_error])
         else (True, [], []))
      else (True, [], []))"

text \<open>A handler of frames runs on the handled body, unless that failed.\<close>

definition with_body ::
  "websocket_frame \<Rightarrow> websocket_codec \<Rightarrow> (string \<Rightarrow> codec_step) \<Rightarrow> codec_step" where
  "with_body f c k =
     (case HandleFrameBody f c of
        (ok, body, es) \<Rightarrow>
          if \<not> ok then (False, c, es)
          else (case k body of (r, c', es') \<Rightarrow> (r, c', es @ es')))"

definition OnContinuationFrame :: "websocket_frame \<Rightarrow> websocket_codec \<Rightarrow> codec_step" where
  "OnContinuationFrame f c =
     with_body f c (\<lambda>body.
       if cur_message_type c = kNoneMessage then (False, c, [Codec_error])
       else
         let (c1, es) =
           (if cur_message_type c = kTextMessage then
              let m = Append body (text_message c) in
              if fin f = 1 then (c\<lparr>text_message := CleanUp_message m\<rparr>, [Text_message m])
              else (c\<lparr>text_message := m\<rparr>, [])
            else if cur_message_type c = kBinaryMessage then
              let m = Append body (binary_message c) in
              if fin f = 1 then (c\<lparr>binary_message := CleanUp_message m\<rparr>, [Binary_message m])
              else (c\<lparr>binary_message := m\<rparr>, [])
            else (c, []))
         in (True, c1\<lparr>cur_message_type := kNoneMessage\<rparr>, es))"

definition OnTextFrame :: "websocket_frame \<Rightarrow> websocket_codec \<Rightarrow> codec_step" where
  "OnTextFrame f c =
     with_body f c (\<lambda>body.
       if cur_message_type c \<noteq> kNoneMessage then (False, c, [Codec_error])
       else
         let m = Append body (text_message c) in
         if fin f = 1 then
           (True, c\<lparr>text_message := CleanUp_message m, cur_message_type := kNoneMessage\<rparr>,
            [Text_message m])
         else (True, c\<lparr>text_message := m, cur_message_type := kTextMessage\<rparr>, []))"

definition OnBinaryFrame :: "websocket_frame \<Rightarrow> websocket_codec \<Rightarrow> codec_step" where
  "OnBinaryFrame f c =
     with_body f c (\<lambda>body.
       if cur_message_type c \<noteq> kNoneMessage then (False, c, [Codec_error])
       else
         let m = Append body (binary_message c) in
         if fin f = 1 then
           (True, c\<lparr>binary_message := CleanUp_message m, cur_message_type := kNoneMessage\<rparr>,
            [Binary_message m])
         else (True, c\<lparr>binary_message := m, cur_message_type := kBinaryMessage\<rparr>, []))"

definition OnCloseFrame :: "websocket_frame \<Rightarrow> websocket_codec \<Rightarrow> codec_step" where
  "OnCloseFrame f c =
     with_body f c (\<lambda>body. (True, c, [Close_message (Append body new_message)]))"

definition OnPingFrame :: "websocket_frame \<Rightarrow> websocket_codec \<Rightarrow> codec_step" where
  "OnPingFrame f c = with_body f c (\<lambda>body. (True, c, [Ping_message new_message]))"

definition OnPongFrame :: "websocket_frame \<Rightarrow> websocket_codec \<Rightarrow> codec_step" where
  "OnPongFrame f c = with_body f c (\<lambda>body. (True, c, [Pong_message new_message]))"

definition OnParsedFrame :: "websocket_frame \<Rightarrow> websocket_codec \<Rightarrow> websocket_codec \<times> codec_event list" where
  "OnParsedFrame f c =
     (if opcode f = OPCODE_CONTINUATION then snd (OnContinuationFrame f c)
      else if opcode f = OPCODE_TEXT then snd (OnTextFrame f c)
      else if opcode f = OPCODE_BINARY then snd (OnBinaryFrame f c)
      else if opcode f = OPCODE_CLOSE then snd (OnCloseFrame f c)
      else if opcode f = OPCODE_PING then snd (OnPingFrame f c)
      else if opcode f = OPCODE_PONG then snd (OnPongFrame f c)
      else (c, []))"

text \<open>\<open>OnData\<close>: the value, \<open>parsed_bytes\<close>, the codec, the calls; \<open>None\<close> for a fault.\<close>

definition Websocket_OnData ::
  "string \<Rightarrow> websocket_codec \<Rightarrow> (bool \<times> nat \<times> websocket_codec \<times> codec_event list) option" where
  "Websocket_OnData data c =
     (case Parse data 0 (wc_parser c) of
        Parse_fault \<Rightarrow> None
      | Parsed ok n p fr \<Rightarrow>
          let (c1, es) = (case fr of None \<Rightarrow> (c, []) | Some f \<Rightarrow> OnParsedFrame f c);
              c2 = c1\<lparr>wc_parser := p\<rparr>
          in if \<not> ok then Some (False, n, c2, es @ [Codec_error]) else Some (True, n, c2, es))"

lemmas frame_handler_defs =
  with_body_def OnContinuationFrame_def OnTextFrame_def OnBinaryFrame_def OnCloseFrame_def
  OnPingFrame_def OnPongFrame_def OnParsedFrame_def

subsection \<open>The parser is not touched by the handlers of frames\<close>

lemma OnParsedFrame_keeps:
  "OnParsedFrame f c = (c', es) \<Longrightarrow>
     wc_parser c' = wc_parser c \<and> is_expected_masking c' = is_expected_masking c"
  by (auto simp: frame_handler_defs Let_def HandleFrameBody_def split: if_splits)

definition codec_inv :: "websocket_codec \<Rightarrow> bool" where
  "codec_inv c \<longleftrightarrow> wp_inv (wc_parser c)"

lemma new_codec_inv: "codec_inv (new_websocket_codec junk)"
  by (simp add: codec_inv_def new_websocket_codec_def new_parser_inv)

lemma Websocket_OnData_ok:
  assumes "codec_inv c"
  shows "\<exists>ok n c' es. Websocket_OnData data c = Some (ok, n, c', es) \<and> codec_inv c' \<and>
    n \<le> length data"
proof -
  obtain ok n p fr where r: "Parse data 0 (wc_parser c) = Parsed ok n p fr" "wp_inv p"
    "n \<le> length data"
    using Parse_ok [OF assms [unfolded codec_inv_def], of data] unfolding parse_ok_def by blast
  obtain c1 es where "(case fr of None \<Rightarrow> (c, []) | Some f \<Rightarrow> OnParsedFrame f c) = (c1, es)"
    by (cases "case fr of None \<Rightarrow> (c, []) | Some f \<Rightarrow> OnParsedFrame f c")
  with r show ?thesis by (cases ok) (auto simp: Websocket_OnData_def codec_inv_def)
qed

subsection \<open>The assembly of messages\<close>

text \<open>
  The protocol's view: a message is a first frame and continuation frames, the last of them
  marked; control frames come in between. The state is the kind and the data of the message
  under way.
\<close>

datatype message_kind = Text_kind | Binary_kind

datatype frame_view =
  First message_kind bool string | Continuation bool string
| Close_frame string | Ping_frame string | Pong_frame string

definition message_of :: "string \<Rightarrow> websocket_message" where
  "message_of d = \<lparr>m_type = kNoneMessage, m_data = d\<rparr>"

fun data_event :: "message_kind \<Rightarrow> string \<Rightarrow> codec_event" where
  "data_event Text_kind d = Text_message (message_of d)"
| "data_event Binary_kind d = Binary_message (message_of d)"

fun assemble ::
  "frame_view \<Rightarrow> (message_kind \<times> string) option \<Rightarrow> (message_kind \<times> string) option \<times> codec_event list" where
  "assemble (First k final d) None = (if final then (None, [data_event k d]) else (Some (k, d), []))"
| "assemble (First k final d) (Some m) = (Some m, [Codec_error])"
| "assemble (Continuation final d) None = (None, [Codec_error])"
| "assemble (Continuation final d) (Some (k, d0)) =
     (if final then (None, [data_event k (d0 @ d)]) else (Some (k, d0 @ d), []))"
| "assemble (Close_frame d) st = (st, [Close_message (message_of d)])"
| "assemble (Ping_frame d) st = (st, [Ping_message (message_of d)])"
| "assemble (Pong_frame d) st = (st, [Pong_message (message_of d)])"

fun assemble_all ::
  "frame_view list \<Rightarrow> (message_kind \<times> string) option \<Rightarrow> (message_kind \<times> string) option \<times> codec_event list" where
  "assemble_all [] st = (st, [])"
| "assemble_all (v # vs) st =
     (let (st1, es) = assemble v st; (st2, es2) = assemble_all vs st1 in (st2, es @ es2))"

text \<open>The frame a client sends for a view, with the key it masks the data with.\<close>

fun view_opcode :: "frame_view \<Rightarrow> int" where
  "view_opcode (First Text_kind final d) = OPCODE_TEXT"
| "view_opcode (First Binary_kind final d) = OPCODE_BINARY"
| "view_opcode (Continuation final d) = OPCODE_CONTINUATION"
| "view_opcode (Close_frame d) = OPCODE_CLOSE"
| "view_opcode (Ping_frame d) = OPCODE_PING"
| "view_opcode (Pong_frame d) = OPCODE_PONG"

fun view_last :: "frame_view \<Rightarrow> bool" where
  "view_last (First k final d) = final"
| "view_last (Continuation final d) = final"
| "view_last v = True"

fun view_data :: "frame_view \<Rightarrow> string" where
  "view_data (First k final d) = d"
| "view_data (Continuation final d) = d"
| "view_data (Close_frame d) = d"
| "view_data (Ping_frame d) = d"
| "view_data (Pong_frame d) = d"

definition client_frame :: "32 word \<Rightarrow> frame_view \<Rightarrow> websocket_frame" where
  "client_frame key v =
     \<lparr>fin = of_bool (view_last v), rsv1 = 0, rsv2 = 0, rsv3 = 0, opcode = view_opcode v,
      mask = 1, payload_length = of_nat (length (view_data v)), masking_key = key,
      frame_body = Mask (view_data v) key\<rparr>"

text \<open>
  What the codec makes of the frames of a client. It differs from the protocol in that a continuation
  frame that is not the last ends the message without an event, and its data stay with the codec, as the
  beginning of the next message of that kind; and in that a ping or a pong loses its data. The state is
  the kind of the message under way and the data held for texts and for binary messages.
\<close>

type_synonym collected = "message_kind option \<times> string \<times> string"

fun collect :: "frame_view \<Rightarrow> collected \<Rightarrow> collected \<times> codec_event list" where
  "collect (First Text_kind final d) (None, t, b) =
     (if final then ((None, [], b), [Text_message (message_of (t @ d))])
      else ((Some Text_kind, t @ d, b), []))"
| "collect (First Binary_kind final d) (None, t, b) =
     (if final then ((None, t, []), [Binary_message (message_of (b @ d))])
      else ((Some Binary_kind, t, b @ d), []))"
| "collect (First k final d) (Some m, t, b) = ((Some m, t, b), [Codec_error])"
| "collect (Continuation final d) (None, t, b) = ((None, t, b), [Codec_error])"
| "collect (Continuation final d) (Some Text_kind, t, b) =
     (if final then ((None, [], b), [Text_message (message_of (t @ d))]) else ((None, t @ d, b), []))"
| "collect (Continuation final d) (Some Binary_kind, t, b) =
     (if final then ((None, t, []), [Binary_message (message_of (b @ d))]) else ((None, t, b @ d), []))"
| "collect (Close_frame d) st = (st, [Close_message (message_of d)])"
| "collect (Ping_frame d) st = (st, [Ping_message (message_of [])])"
| "collect (Pong_frame d) st = (st, [Pong_message (message_of [])])"

fun collect_all :: "frame_view list \<Rightarrow> collected \<Rightarrow> collected \<times> codec_event list" where
  "collect_all [] st = (st, [])"
| "collect_all (v # vs) st =
     (let (st1, es) = collect v st; (st2, es2) = collect_all vs st1 in (st2, es @ es2))"

text \<open>The views that are handled as the protocol says, and the states that the protocol knows.\<close>

fun handled_view :: "frame_view \<Rightarrow> bool" where
  "handled_view (Continuation final d) \<longleftrightarrow> final"
| "handled_view (Ping_frame d) \<longleftrightarrow> d = []"
| "handled_view (Pong_frame d) \<longleftrightarrow> d = []"
| "handled_view v \<longleftrightarrow> True"

fun protocol_state :: "(message_kind \<times> string) option \<Rightarrow> collected" where
  "protocol_state None = (None, [], [])"
| "protocol_state (Some (Text_kind, d)) = (Some Text_kind, d, [])"
| "protocol_state (Some (Binary_kind, d)) = (Some Binary_kind, [], d)"

text \<open>The simulation relation.\<close>

definition collecting :: "websocket_codec \<Rightarrow> collected \<Rightarrow> bool" where
  "collecting c st \<longleftrightarrow>
     is_expected_masking c \<and>
     cur_message_type c =
       (case fst st of
          None \<Rightarrow> kNoneMessage | Some Text_kind \<Rightarrow> kTextMessage | Some Binary_kind \<Rightarrow> kBinaryMessage) \<and>
     text_message c = message_of (fst (snd st)) \<and> binary_message c = message_of (snd (snd st))"

lemma collecting_parser [simp]: "collecting (c\<lparr>wc_parser := p\<rparr>) st = collecting c st"
  by (simp add: collecting_def)

lemma message_of_simps [simp]:
  "Append s (message_of d) = message_of (d @ s)"
  "CleanUp_message (message_of d) = message_of []"
  "new_message = message_of []"
  by (simp_all add: message_of_def Append_def CleanUp_message_def new_message_def)

lemma client_body:
  assumes "is_expected_masking c" and "key \<noteq> 0"
  shows "with_body (client_frame key v) c k =
    (case k (view_data v) of (r, c', es) \<Rightarrow> (r, c', es))"
proof -
  have "Mask (view_data v) key = [] \<longleftrightarrow> view_data v = []"
    by (metis length_0_conv length_Mask)
  with assms have "HandleFrameBody (client_frame key v) c = (True, view_data v, [])"
    by (cases "view_data v = []") (simp_all add: HandleFrameBody_def client_frame_def)
  then show ?thesis by (simp add: with_body_def split: prod.split)
qed

lemma opcode_distinct [simp]:
  "OPCODE_TEXT \<noteq> OPCODE_CONTINUATION" "OPCODE_BINARY \<noteq> OPCODE_CONTINUATION"
  "OPCODE_BINARY \<noteq> OPCODE_TEXT" "OPCODE_CLOSE \<noteq> OPCODE_CONTINUATION"
  "OPCODE_CLOSE \<noteq> OPCODE_TEXT" "OPCODE_CLOSE \<noteq> OPCODE_BINARY"
  "OPCODE_PING \<noteq> OPCODE_CONTINUATION" "OPCODE_PING \<noteq> OPCODE_TEXT"
  "OPCODE_PING \<noteq> OPCODE_BINARY" "OPCODE_PING \<noteq> OPCODE_CLOSE"
  "OPCODE_PONG \<noteq> OPCODE_CONTINUATION" "OPCODE_PONG \<noteq> OPCODE_TEXT"
  "OPCODE_PONG \<noteq> OPCODE_BINARY" "OPCODE_PONG \<noteq> OPCODE_CLOSE" "OPCODE_PONG \<noteq> OPCODE_PING"
  by (simp_all add: opcode_defs)

lemma client_frame_sel [simp]:
  "opcode (client_frame key v) = view_opcode v" "fin (client_frame key v) = of_bool (view_last v)"
  by (simp_all add: client_frame_def)

lemma other_kind [simp]:
  "k \<noteq> Text_kind \<longleftrightarrow> k = Binary_kind" "k \<noteq> Binary_kind \<longleftrightarrow> k = Text_kind"
  by (cases k; simp)+

lemma codec_simulates:
  assumes "collecting c st" and "key \<noteq> 0"
    and "OnParsedFrame (client_frame key v) c = (c', es)" and "collect v st = (st', es')"
  shows "collecting c' st' \<and> es = es'"
proof -
  obtain m t b where st: "st = (m, t, b)" by (cases st)
  have mask: "is_expected_masking c" using assms(1) by (simp add: collecting_def)
  note body = client_body [OF mask assms(2)]
  show ?thesis
  proof (cases v)
    case (First k final d)
    with assms show ?thesis
      by (cases k; cases m)
        (auto simp: st OnParsedFrame_def OnTextFrame_def OnBinaryFrame_def body collecting_def Let_def
          split: if_splits message_kind.splits)
  next
    case (Continuation final d)
    with assms show ?thesis
      by (cases m; cases "the m")
        (auto simp: st OnParsedFrame_def OnContinuationFrame_def body collecting_def Let_def
          split: if_splits)
  next
    case (Close_frame d)
    with assms show ?thesis by (auto simp: OnParsedFrame_def OnCloseFrame_def body)
  next
    case (Ping_frame d)
    with assms show ?thesis by (auto simp: OnParsedFrame_def OnPingFrame_def body)
  next
    case (Pong_frame d)
    with assms show ?thesis by (auto simp: OnParsedFrame_def OnPongFrame_def body)
  qed
qed

text \<open>For the views it handles, the codec collects what the protocol assembles.\<close>

lemma collect_assemble:
  assumes "handled_view v"
  shows "collect v (protocol_state p) = apfst protocol_state (assemble v p)"
proof (cases v)
  case (First k final d)
  with assms show ?thesis by (cases p rule: protocol_state.cases; cases k) simp_all
qed (use assms in \<open>cases p rule: protocol_state.cases; simp\<close>)+

lemma collect_all_assemble:
  "list_all handled_view vs \<Longrightarrow>
     collect_all vs (protocol_state p) = apfst protocol_state (assemble_all vs p)"
proof (induction vs arbitrary: p)
  case (Cons v vs)
  obtain p1 es where a: "assemble v p = (p1, es)" by (cases "assemble v p")
  from Cons.prems have h: "handled_view v" "list_all handled_view vs" by simp_all
  show ?case using collect_assemble [OF h(1), of p] Cons.IH [OF h(2), of p1]
    by (simp add: a split: prod.split)
qed simp

subsection \<open>Frames from the wire\<close>

fun codec_feed :: "string list \<Rightarrow> websocket_codec \<Rightarrow> (codec_event list \<times> websocket_codec) option" where
  "codec_feed [] c = Some ([], c)"
| "codec_feed (s # ss) c =
     (case Websocket_OnData s c of
        None \<Rightarrow> None
      | Some (ok, n, c1, es) \<Rightarrow>
          if ok \<and> n = length s then map_option (apfst ((@) es)) (codec_feed ss c1) else None)"

definition wire :: "32 word \<times> frame_view \<Rightarrow> string" where
  "wire kv = snd (ConvertFrameToString (client_frame (fst kv) (snd kv)) [])"

definition sendable :: "32 word \<times> frame_view \<Rightarrow> bool" where
  "sendable kv \<longleftrightarrow> fst kv \<noteq> 0 \<and> length (view_data (snd kv)) \<le> 0xFFFFFFFF"

definition idle_parser :: "websocket_codec \<Rightarrow> bool" where
  "idle_parser c \<longleftrightarrow>
     wp_state (wc_parser c) = kParsingHeaderBegin \<and> wp_body (wc_parser c) = []"

lemma client_frame_ok: "sendable (key, v) \<Longrightarrow> frame_ok (client_frame key v)"
  by (cases v rule: view_opcode.cases)
    (auto simp: frame_ok_def client_frame_def sendable_def opcode_defs)

lemma OnData_client_frame:
  assumes "sendable kv" and "idle_parser c"
    and "OnParsedFrame (client_frame (fst kv) (snd kv)) c = (c1, es)"
  shows "\<exists>p'. Websocket_OnData (wire kv @ rest) c =
      Some (True, length (wire kv), c1\<lparr>wc_parser := p'\<rparr>, es) \<and> idle_parser (c1\<lparr>wc_parser := p'\<rparr>)"
proof -
  let ?f = "client_frame (fst kv) (snd kv)"
  have ok: "frame_ok ?f" using client_frame_ok [of "fst kv" "snd kv"] assms(1) by simp
  have w: "wire kv = frame_header ?f @ frame_body ?f"
    by (simp add: wire_def convert_header [OF ok])
  have "received ?f p = ?f" for p by (simp add: received_def client_frame_def)
  with Parse_frame [OF ok, of "wc_parser c" rest] assms(2) obtain p' where
    "Parse (wire kv @ rest) 0 (wc_parser c) = Parsed True (length (wire kv)) p' (Some ?f)"
    "wp_state p' = kParsingHeaderBegin" "wp_body p' = []"
    by (auto simp: w idle_parser_def)
  with assms(3) show ?thesis
    by (intro exI [of _ p']) (simp add: Websocket_OnData_def idle_parser_def)
qed

lemma codec_feed_simulates:
  assumes "collecting c st" and "idle_parser c" and "list_all sendable kvs"
  shows "\<exists>c'. codec_feed (map wire kvs) c = Some (snd (collect_all (map snd kvs) st), c') \<and>
    collecting c' (fst (collect_all (map snd kvs) st)) \<and> idle_parser c'"
  using assms
proof (induction kvs arbitrary: c st)
  case (Cons kv kvs)
  have kv: "sendable kv" using Cons.prems(3) by simp
  obtain c1 es where c1: "OnParsedFrame (client_frame (fst kv) (snd kv)) c = (c1, es)" by fastforce
  obtain st1 es' where st1: "collect (snd kv) st = (st1, es')" by fastforce
  have sim: "collecting c1 st1" "es = es'"
    using codec_simulates [OF Cons.prems(1) _ c1 st1] kv by (simp_all add: sendable_def)
  obtain p' where p': "Websocket_OnData (wire kv) c =
      Some (True, length (wire kv), c1\<lparr>wc_parser := p'\<rparr>, es)" "idle_parser (c1\<lparr>wc_parser := p'\<rparr>)"
    using OnData_client_frame [OF kv Cons.prems(2) c1, of "[]"] by auto
  have "collecting (c1\<lparr>wc_parser := p'\<rparr>) st1" using sim(1) by simp
  from Cons.IH [OF this p'(2)] Cons.prems(3) p'(1) sim(2) st1 show ?case
    by (auto split: prod.splits)
qed simp

end
