(* ===== verification/Data_Loop.thy ===== *)
theory Data_Loop
  imports Net_Buffer
begin

text \<open>
  The loop with which both handlers (\<^verbatim>\<open>HTTPHandler::OnData\<close>, \<^verbatim>\<open>WebsocketHandler::OnData\<close>)
  pass what has arrived to their codec: everything in the buffer is taken out, and what the
  codec did not consume is prepended again, which aborts when it does not fit in the space
  before the read index. The codec is a parameter; what it promises is a locale.
\<close>

subsection \<open>The loop\<close>

text \<open>A call of the codec: bytes were consumed, the loop stops, or the call does not return
  normally.\<close>

datatype 's codec_call = Consumed nat 's | Stopped 's | Codec_throws | Codec_aborts

datatype 's loop_result = Loop_done net_buffer 's | Loop_throws | Loop_aborts

partial_function (option) data_loop ::
  "(string \<Rightarrow> 's \<Rightarrow> 's codec_call option) \<Rightarrow> net_buffer \<Rightarrow> 's \<Rightarrow> 's loop_result option" where
  "data_loop codec b s =
     (if readableBytes b = 0 then Some (Loop_done b s)
      else
        case retrieveAllAsString b of
          None \<Rightarrow> Some Loop_aborts
        | Some (data, b1) \<Rightarrow>
            (case codec data s of
               None \<Rightarrow> None
             | Some (Consumed n s') \<Rightarrow>
                 (if length data < n then Some Loop_throws
                  else
                    case prepend (drop n data) b1 of
                      None \<Rightarrow> Some Loop_aborts
                    | Some b2 \<Rightarrow> data_loop codec b2 s')
             | Some (Stopped s') \<Rightarrow> Some (Loop_done b1 s')
             | Some Codec_throws \<Rightarrow> Some Loop_throws
             | Some Codec_aborts \<Rightarrow> Some Loop_aborts))"

declare data_loop.simps [code]

subsection \<open>The specification: pieces of a string\<close>

text \<open>
  What the loop does to the bytes: the codec is called with all of them, then with what it
  left, until it stops or nothing is left. A rest of more than eight bytes is one too many.
\<close>

datatype 's piece_result = Used_up 's | Too_much 's

partial_function (option) consume ::
  "(string \<Rightarrow> 's \<Rightarrow> 's codec_call option) \<Rightarrow> string \<Rightarrow> 's \<Rightarrow> 's piece_result option" where
  "consume codec data s =
     (if data = [] then Some (Used_up s)
      else
        case codec data s of
          Some (Consumed n s') \<Rightarrow>
            if kCheapPrepend < length (drop n data) then Some (Too_much s')
            else consume codec (drop n data) s'
        | Some (Stopped s') \<Rightarrow> Some (Used_up s')
        | _ \<Rightarrow> None)"

subsection \<open>The contract of a codec\<close>

locale data_codec =
  fixes codec :: "string \<Rightarrow> 's \<Rightarrow> 's codec_call option"
    and inv :: "'s \<Rightarrow> bool"
  assumes codec_call:
    "inv s \<Longrightarrow> data \<noteq> [] \<Longrightarrow> length data < 2 ^ 64 \<Longrightarrow>
       (\<exists>n s'. codec data s = Some (Consumed n s') \<and> 0 < n \<and> n \<le> length data \<and> inv s') \<or>
       (\<exists>s'. codec data s = Some (Stopped s') \<and> inv s')"
begin

lemma consume_total:
  assumes "inv s" and "length data < 2 ^ 64"
  shows "\<exists>s'. inv s' \<and> consume codec data s \<in> {Some (Used_up s'), Some (Too_much s')}"
  using assms
proof (induction "length data" arbitrary: data s rule: less_induct)
  case less
  show ?case
  proof (cases "data = []")
    case True
    with less.prems show ?thesis by (subst consume.simps) auto
  next
    case False
    from codec_call [OF less.prems(1) False less.prems(2)] show ?thesis
    proof (elim disjE exE conjE)
      fix n s' assume c: "codec data s = Some (Consumed n s')" "0 < n" "n \<le> length data" "inv s'"
      have "\<exists>s''. inv s'' \<and>
          consume codec (drop n data) s' \<in> {Some (Used_up s''), Some (Too_much s'')}"
        using c False less.prems(2) by (intro less.hyps) auto
      with c False show ?thesis by (subst consume.simps) auto
    next
      fix s' assume "codec data s = Some (Stopped s')" "inv s'"
      with False show ?thesis by (subst consume.simps) auto
    qed
  qed
qed

text \<open>The loop over the buffer does what the specification does with its content.\<close>

lemma data_loop_consume:
  assumes "inv s" and "buffer_inv b" and "length (content b) < 2 ^ 64"
  shows "\<exists>s'. inv s' \<and>
    (consume codec (content b) s = Some (Too_much s') \<and>
       data_loop codec b s = Some Loop_aborts \<or>
     consume codec (content b) s = Some (Used_up s') \<and>
       (\<exists>b'. data_loop codec b s = Some (Loop_done b' s') \<and> buffer_inv b' \<and> content b' = []))"
  using assms
proof (induction "length (content b)" arbitrary: b s rule: less_induct)
  case less
  note len = length_content [OF less.prems(2)]
  show ?case
  proof (cases "content b = []")
    case True
    with len less.prems show ?thesis
      by (subst (1 2) consume.simps, subst (1 2) data_loop.simps) auto
  next
    case False
    then have readable: "readableBytes b \<noteq> 0" using len by (metis length_0_conv)
    note all = retrieveAllAsString_ok [OF less.prems(2)]
    note empty = retrieveAll_ok [OF less.prems(2)]
    from codec_call [OF less.prems(1) False less.prems(3)] show ?thesis
    proof (elim disjE exE conjE)
      fix n s'
      assume c: "codec (content b) s = Some (Consumed n s')" "0 < n" "n \<le> length (content b)"
        "inv s'"
      let ?rest = "drop n (content b)"
      show ?thesis
      proof (cases "prepend ?rest (retrieveAll b)")
        case None
        then have "kCheapPrepend < length ?rest"
          using prepend_ok(1) [of "retrieveAll b" ?rest] empty by auto
        with None c False readable all show ?thesis
          by (subst (1 2) consume.simps, subst (1 2) data_loop.simps) auto
      next
        case (Some b2)
        then have "\<not> kCheapPrepend < length ?rest"
          using prepend_ok(1) [of "retrieveAll b" ?rest] empty by auto
        then have "consume codec (content b) s = consume codec ?rest s'"
          using c False by (subst consume.simps) simp
        moreover have "data_loop codec b s = data_loop codec b2 s'"
          using c Some readable all by (subst data_loop.simps) simp
        moreover have b2: "buffer_inv b2" "content b2 = ?rest"
          using prepend_ok(2) [OF _ Some] empty by auto
        ultimately show ?thesis
          using less.hyps [of b2 s'] c False less.prems(3) by auto
      qed
    next
      fix s' assume "codec (content b) s = Some (Stopped s')" "inv s'"
      with False readable all empty show ?thesis
        by (subst (1 2) consume.simps, subst (1 2) data_loop.simps) auto
    qed
  qed
qed

text \<open>So the loop returns, and leaves nothing behind.\<close>

lemma data_loop_returns:
  assumes "inv s" and "buffer_inv b" and "length (content b) < 2 ^ 64"
  shows "data_loop codec b s = Some Loop_aborts \<or>
    (\<exists>b' s'. data_loop codec b s = Some (Loop_done b' s') \<and> inv s' \<and> buffer_inv b' \<and>
       content b' = [])"
  using data_loop_consume [OF assms] by auto

text \<open>It does not abort when the codec never leaves more than eight bytes.\<close>

lemma consume_fits:
  assumes "\<And>data s n s'. inv s \<Longrightarrow> codec data s = Some (Consumed n s') \<Longrightarrow>
      length data \<le> n + kCheapPrepend"
    and "inv s" and "length data < 2 ^ 64"
  shows "\<exists>s'. consume codec data s = Some (Used_up s')"
  using assms(2,3)
proof (induction "length data" arbitrary: data s rule: less_induct)
  case less
  show ?case
  proof (cases "data = []")
    case True
    then show ?thesis by (subst consume.simps) auto
  next
    case False
    from codec_call [OF less.prems(1) False less.prems(2)] show ?thesis
    proof (elim disjE exE conjE)
      fix n s' assume c: "codec data s = Some (Consumed n s')" "0 < n" "n \<le> length data" "inv s'"
      have "\<exists>s''. consume codec (drop n data) s' = Some (Used_up s'')"
        using c False less.prems(2) by (intro less.hyps) auto
      with c False assms(1) [OF less.prems(1) c(1)] show ?thesis by (subst consume.simps) auto
    next
      fix s' assume "codec data s = Some (Stopped s')" "inv s'"
      with False show ?thesis by (subst consume.simps) auto
    qed
  qed
qed

end

end
