(* ===== verification/Http_Server.thy ===== *)
theory Http_Server
  imports Http_Codec Execute_Safety Http_Response Data_Loop
begin

text \<open>
  \<open>HTTPHandler\<close> of \<^verbatim>\<open>woody/http/http_handler.cc\<close>: one connection that speaks HTTP. The
  calls on the connection are recorded in their order (\<open>Redirected\<close> is the registration of
  another handler's callbacks); the rest of the world belongs to the application. The constructor
  registers \<open>OnMessageBegin\<close>, \<open>OnMessageComplete\<close> and \<open>HandleError\<close> with the codec; the server sets
  the request callback right after it, so a handler is modelled with one. Then \<open>HTTPServer\<close> of
  \<^verbatim>\<open>woody/http/http_server.cc\<close>, which keeps a handler for each connection.
\<close>

datatype connection_op = Sent string | Forced_close | Redirected string

record 'w connection =
  conn_ops :: "connection_op list"
  application :: 'w

definition conn_send :: "string \<Rightarrow> 'w connection \<Rightarrow> 'w connection" where
  "conn_send data w = w\<lparr>conn_ops := conn_ops w @ [Sent data]\<rparr>"

definition conn_forceClose :: "'w connection \<Rightarrow> 'w connection" where
  "conn_forceClose w = w\<lparr>conn_ops := conn_ops w @ [Forced_close]\<rparr>"

text \<open>A request callback gets the handler, here by its name, the request and the response.\<close>

type_synonym 'w request_callback =
  "string \<Rightarrow> http_request \<Rightarrow> http_response \<Rightarrow> 'w connection \<Rightarrow> 'w connection"

record 'w http_handler =
  hh_name :: string
  hh_parser :: http_parser
  hh_codec :: http_codec
  hh_request_complete_callback :: "'w request_callback"
  hh_close_callback :: "('w connection \<Rightarrow> 'w connection) option"
  hh_close_callback_with_this :: "(string \<Rightarrow> 'w connection \<Rightarrow> 'w connection) option"

definition new_http_handler :: "string \<Rightarrow> 'w request_callback \<Rightarrow> 'w http_handler" where
  "new_http_handler name cb =
     \<lparr>hh_name = name, hh_parser = new_codec_parser, hh_codec = new_http_codec,
      hh_request_complete_callback = cb, hh_close_callback = None,
      hh_close_callback_with_this = None\<rparr>"

definition HTTPHandler_ForceClose :: "'w connection \<Rightarrow> 'w connection" where
  "HTTPHandler_ForceClose = conn_forceClose"

definition HTTPHandler_Send :: "string \<Rightarrow> 'w connection \<Rightarrow> 'w connection" where
  "HTTPHandler_Send = conn_send"

definition HTTPHandler_HandleError :: "'w connection \<Rightarrow> 'w connection" where
  "HTTPHandler_HandleError = HTTPHandler_ForceClose"

text \<open>The response on the stack has a status code that is not initialised.\<close>

definition HTTPHandler_OnMessageComplete ::
  "32 word \<Rightarrow> 'w http_handler \<Rightarrow> 32 word \<Rightarrow> http_request \<Rightarrow> 'w connection \<Rightarrow> 'w connection" where
  "HTTPHandler_OnMessageComplete junk h sid req w =
     hh_request_complete_callback h (hh_name h) req (new_http_response junk) w"

definition handler_callbacks :: "32 word \<Rightarrow> 'w http_handler \<Rightarrow> 'w connection codec_callbacks" where
  "handler_callbacks junk h =
     \<lparr>message_begin_cb = Some (\<lambda>sid w. w),
      message_complete_cb = Some (HTTPHandler_OnMessageComplete junk h),
      headers_complete_cb = None, error_cb = Some HTTPHandler_HandleError\<rparr>"

text \<open>The call of \<open>codec_.OnData\<close> in the loop, and the loop.\<close>

type_synonym 'w http_session = "http_parser \<times> http_codec \<times> 'w connection"

definition http_codec_call ::
  "'w connection codec_callbacks \<Rightarrow> string \<Rightarrow> 'w http_session \<Rightarrow> 'w http_session codec_call option" where
  "http_codec_call cbs data s =
     (case s of (ps, c, w) \<Rightarrow>
        map_option
          (\<lambda>r. case r of
             Codec_parsed n ps' c' w' \<Rightarrow>
               if n = 0 then Stopped (ps', c', w') else Consumed n (ps', c', w')
           | Codec_throw \<Rightarrow> Codec_throws
           | Codec_abort \<Rightarrow> Codec_aborts)
          (OnData cbs ps c data w))"

datatype 'w handled = Handled "'w http_handler" net_buffer "'w connection" | Handler_throws | Handler_aborts

definition HTTPHandler_OnData ::
  "32 word \<Rightarrow> 'w http_handler \<Rightarrow> net_buffer \<Rightarrow> 'w connection \<Rightarrow> 'w handled option" where
  "HTTPHandler_OnData junk h b w =
     map_option
       (\<lambda>r. case r of
          Loop_done b' (ps, c, w') \<Rightarrow> Handled (h\<lparr>hh_parser := ps, hh_codec := c\<rparr>) b' w'
        | Loop_throws \<Rightarrow> Handler_throws
        | Loop_aborts \<Rightarrow> Handler_aborts)
       (data_loop (http_codec_call (handler_callbacks junk h)) b (hh_parser h, hh_codec h, w))"

definition HTTPHandler_OnClose :: "'w http_handler \<Rightarrow> 'w connection \<Rightarrow> 'w connection" where
  "HTTPHandler_OnClose h w =
     (let w1 = (case hh_close_callback_with_this h of None \<Rightarrow> w | Some f \<Rightarrow> f (hh_name h) w)
      in case hh_close_callback h of None \<Rightarrow> w1 | Some f \<Rightarrow> f w1)"

definition SetCloseCallback ::
  "('w connection \<Rightarrow> 'w connection) \<Rightarrow> 'w http_handler \<Rightarrow> 'w http_handler" where
  "SetCloseCallback cb h = h\<lparr>hh_close_callback := Some cb\<rparr>"

definition SetCloseCallbackWithThis ::
  "(string \<Rightarrow> 'w connection \<Rightarrow> 'w connection) \<Rightarrow> 'w http_handler \<Rightarrow> 'w http_handler" where
  "SetCloseCallbackWithThis cb h = h\<lparr>hh_close_callback_with_this := Some cb\<rparr>"

subsection \<open>The codec keeps the contract of the loop\<close>

lemma http_codec_contract:
  "data_codec (http_codec_call (handler_callbacks junk h)) (\<lambda>(ps, c, w). parser_inv ps)"
proof
  fix s :: "'a http_session" and data :: string
  assume inv: "case s of (ps, c, w) \<Rightarrow> parser_inv ps" and data: "data \<noteq> []" "length data < 2 ^ 64"
  obtain ps c w where s: "s = (ps, c, w)" by (cases s)
  have "error_cb (handler_callbacks junk h) \<noteq> None" by (simp add: handler_callbacks_def)
  from OnData_returns [OF _ data(2) this, of ps c w] inv
  obtain n ps' c' w' where
    "OnData (handler_callbacks junk h) ps c data w = Some (Codec_parsed n ps' c' w')"
    "parser_inv ps'" "n \<le> max 1 (length data)"
    by (auto simp: s)
  moreover have "max 1 (length data) = length data"
    using data(1) by (cases data) auto
  ultimately show "(\<exists>n s'. http_codec_call (handler_callbacks junk h) data s = Some (Consumed n s') \<and>
        0 < n \<and> n \<le> length data \<and> (case s' of (ps, c, w) \<Rightarrow> parser_inv ps)) \<or>
      (\<exists>s'. http_codec_call (handler_callbacks junk h) data s = Some (Stopped s') \<and>
        (case s' of (ps, c, w) \<Rightarrow> parser_inv ps))"
    by (cases "n = 0") (auto simp: http_codec_call_def s)
qed

interpretation http_data: data_codec "http_codec_call (handler_callbacks junk h)"
  "\<lambda>(ps, c, w). parser_inv ps" for junk h
  by (rule http_codec_contract)

definition handler_inv :: "'w http_handler \<Rightarrow> bool" where
  "handler_inv h \<longleftrightarrow> parser_inv (hh_parser h)"

lemma new_handler_inv: "handler_inv (new_http_handler name cb)"
  by (simp add: handler_inv_def new_http_handler_def new_codec_parser_def parser_inv_init)

lemma HTTPHandler_OnData_returns:
  assumes "handler_inv h" and "buffer_inv b" and "length (content b) < 2 ^ 64"
  shows "HTTPHandler_OnData junk h b w = Some Handler_aborts \<or>
    (\<exists>h' b' w'. HTTPHandler_OnData junk h b w = Some (Handled h' b' w') \<and> handler_inv h' \<and>
       buffer_inv b' \<and> content b' = [])"
  using http_data.data_loop_returns [of "(hh_parser h, hh_codec h, w)" b junk h] assms
  by (fastforce simp: HTTPHandler_OnData_def handler_inv_def)

subsection \<open>A request line that ends the process\<close>

text \<open>
  The parser stops at a byte that cannot continue the method. What follows it is left over, and
  does not fit before the read index.
\<close>

lemma wrong_method:
  "\<exists>ps' u. http_parser_execute (kParserSettings cbs) new_codec_parser (''GEX'' @ rest) u0 =
     Some (Returned 2 ps' u) \<and> http_errno ps' \<noteq> HPE_OK \<and> http_errno ps' \<noteq> HPE_PAUSED"
  by (cases "message_begin_cb cbs"; cases u0)
    (simp_all add: new_codec_parser_def run_eval kParserSettings_def as_callback_def
      OnMessageBegin_def exec_loop.simps error_exit_def flip: numeral_2_eq_2)

lemma aborts_on_rest:
  assumes "handler_inv h" and "buffer_inv b" and "length (content b) < 2 ^ 64"
    and "http_codec_call (handler_callbacks junk h) (content b) (hh_parser h, hh_codec h, w) =
      Some (Consumed n s)"
    and "n + kCheapPrepend < length (content b)"
  shows "HTTPHandler_OnData junk h b w = Some Handler_aborts"
proof -
  have "consume (http_codec_call (handler_callbacks junk h)) (content b)
      (hh_parser h, hh_codec h, w) = Some (Too_much s)"
    using assms(4,5) by (subst consume.simps) auto
  then have "data_loop (http_codec_call (handler_callbacks junk h)) b
      (hh_parser h, hh_codec h, w) = Some Loop_aborts"
    using http_data.data_loop_consume [of "(hh_parser h, hh_codec h, w)" b junk h] assms(1-3)
    by (auto simp: handler_inv_def)
  then show ?thesis by (simp add: HTTPHandler_OnData_def)
qed

lemma wrong_method_aborts:
  assumes "hh_parser h = new_codec_parser" and "buffer_inv b"
    and "content b = ''GEX'' @ rest" and "8 \<le> length rest" and "length rest < 2 ^ 63"
  shows "HTTPHandler_OnData junk h b w = Some Handler_aborts"
proof -
  let ?cbs = "handler_callbacks junk h"
  obtain ps' u where run: "http_parser_execute (kParserSettings ?cbs) new_codec_parser (content b)
      (hh_codec h, w) = Some (Returned 2 ps' u)" "http_errno ps' \<noteq> HPE_OK"
      "http_errno ps' \<noteq> HPE_PAUSED"
    using wrong_method assms(3) by metis
  obtain c' w' where "u = (c', w')" by (cases u)
  with run have "OnData ?cbs (hh_parser h) (hh_codec h) (content b) w =
      Some (Codec_parsed 2 ps' c' (HTTPHandler_HandleError w'))"
    by (simp add: OnData_def assms(1) OnParseError_def) (simp add: handler_callbacks_def)
  then have "http_codec_call ?cbs (content b) (hh_parser h, hh_codec h, w) =
      Some (Consumed 2 (ps', c', HTTPHandler_HandleError w'))"
    by (simp add: http_codec_call_def)
  moreover have "handler_inv h"
    using assms(1) by (simp add: handler_inv_def new_codec_parser_def parser_inv_init)
  ultimately show ?thesis
    using assms by (intro aborts_on_rest [of h b junk w 2]) (auto simp: kCheapPrepend_def)
qed

text \<open>
  \<open>HTTPServer\<close> of \<^verbatim>\<open>woody/http/http_server.cc\<close>: the table of applications, the handlers
  of the connections, and the steps by which connections come, send data and go. An application
  is its \<open>HandleRequest\<close>. A handler asks the server for the application when a request is
  complete; \<open>Handle\<close> is called before the server starts, so the table does not change then.
\<close>

record 'w http_server =
  sv_apps :: "(string \<times> 'w request_callback) list"
  sv_handler_map :: "string \<rightharpoonup> 'w http_handler"

definition new_http_server :: "'w http_server" where
  "new_http_server = \<lparr>sv_apps = [], sv_handler_map = (\<lambda>_. None)\<rparr>"

definition HTTPServer_Handle :: "string \<Rightarrow> 'w request_callback \<Rightarrow> 'w http_server \<Rightarrow> 'w http_server" where
  "HTTPServer_Handle path_prefix app sv = sv\<lparr>sv_apps := sv_apps sv @ [(path_prefix, app)]\<rparr>"

text \<open>The loop of \<open>OnRequest\<close>: the first application whose prefix the URL begins with.\<close>

fun request_loop :: "(string \<times> 'w request_callback) list \<Rightarrow> 'w request_callback" where
  "request_loop [] handler req resp w = w"
| "request_loop ((path_prefix, app) # apps) handler req resp w =
     (if IsStringBeginWith (r_url req) path_prefix then app handler req resp w
      else request_loop apps handler req resp w)"

definition HTTPServer_OnRequest :: "'w http_server \<Rightarrow> 'w request_callback" where
  "HTTPServer_OnRequest sv handler req resp w = request_loop (sv_apps sv) handler req resp w"

text \<open>\<open>std::map::insert\<close> keeps a handler that is there.\<close>

definition HTTPServer_OnConnection :: "string \<Rightarrow> 'w http_server \<Rightarrow> 'w http_server" where
  "HTTPServer_OnConnection conn_name sv =
     (let handler = new_http_handler conn_name (HTTPServer_OnRequest sv)
      in if conn_name \<in> dom (sv_handler_map sv) then sv
         else sv\<lparr>sv_handler_map := (sv_handler_map sv)(conn_name \<mapsto> handler)\<rparr>)"

definition HTTPServer_OnDisconnection :: "string \<Rightarrow> 'w http_server \<Rightarrow> 'w http_server" where
  "HTTPServer_OnDisconnection conn_name sv = sv"

definition OnCreateOrDestroyConnection :: "bool \<Rightarrow> string \<Rightarrow> 'w http_server \<Rightarrow> 'w http_server" where
  "OnCreateOrDestroyConnection connected conn_name sv =
     (if connected then HTTPServer_OnConnection conn_name sv
      else HTTPServer_OnDisconnection conn_name sv)"

definition OnHandlerClose :: "string \<Rightarrow> 'w http_server \<Rightarrow> 'w http_server" where
  "OnHandlerClose conn_name sv = sv\<lparr>sv_handler_map := (sv_handler_map sv)(conn_name := None)\<rparr>"

subsection \<open>Dispatch\<close>

lemma request_loop_find:
  assumes "length (r_url req) < 2 ^ 64 - 1"
  shows "request_loop apps handler req resp w =
    (case find (\<lambda>(p, app). prefix p (r_url req)) apps of
       None \<Rightarrow> w | Some (p, app) \<Rightarrow> app handler req resp w)"
  using begins_prefix [OF assms]
  by (induction apps handler req resp w rule: request_loop.induct) auto

subsection \<open>A running server\<close>

text \<open>
  The open connections, each with its input buffer and what was done to it, and the world the
  applications share. The names of the connections are made unique by the TCP server.
\<close>

record 'w system =
  sys_server :: "'w http_server"
  sys_open :: "string \<rightharpoonup> net_buffer \<times> connection_op list"
  sys_application :: 'w
  sys_ever :: "string set"

text \<open>
  The steps: a connection is established; data arrives on one, is read into its buffer and
  handled; a connection closes, for which it calls the connection callback, then \<open>OnClose\<close>
  of its handler.
\<close>

inductive server_step :: "32 word \<Rightarrow> 'w system \<Rightarrow> 'w system \<Rightarrow> bool" for junk where
  Connect:
    "n \<notin> sys_ever s \<Longrightarrow>
     server_step junk s
       (s\<lparr>sys_server := OnCreateOrDestroyConnection True n (sys_server s),
          sys_open := (sys_open s)(n \<mapsto> (new_buffer kInitialSize, [])),
          sys_ever := insert n (sys_ever s)\<rparr>)"
| Data:
    "sys_open s n = Some (b, ops) \<Longrightarrow> sv_handler_map (sys_server s) n = Some h \<Longrightarrow>
     readFd (Some data) b = Some (r, b1) \<Longrightarrow> 0 < r \<Longrightarrow>
     length data \<le> readv_room b \<Longrightarrow> length data < 2 ^ 63 \<Longrightarrow>
     HTTPHandler_OnData junk h b1 \<lparr>conn_ops = ops, application = sys_application s\<rparr> =
       Some (Handled h' b' w') \<Longrightarrow>
     server_step junk s
       (s\<lparr>sys_server := (sys_server s)
            \<lparr>sv_handler_map := (sv_handler_map (sys_server s))(n \<mapsto> h')\<rparr>,
          sys_open := (sys_open s)(n \<mapsto> (b', conn_ops w')),
          sys_application := application w'\<rparr>)"
| Close:
    "sys_open s n = Some (b, ops) \<Longrightarrow> sv_handler_map (sys_server s) n = Some h \<Longrightarrow>
     HTTPHandler_OnClose h \<lparr>conn_ops = ops, application = sys_application s\<rparr> = w' \<Longrightarrow>
     server_step junk s
       (s\<lparr>sys_server := OnCreateOrDestroyConnection False n (sys_server s),
          sys_open := (sys_open s)(n := None),
          sys_application := application w'\<rparr>)"

definition started :: "(string \<times> 'w request_callback) list \<Rightarrow> 'w \<Rightarrow> 'w system" where
  "started apps a =
     \<lparr>sys_server = \<lparr>sv_apps = apps, sv_handler_map = (\<lambda>_. None)\<rparr>, sys_open = (\<lambda>_. None),
      sys_application = a, sys_ever = {}\<rparr>"

definition running :: "32 word \<Rightarrow> 'w system \<Rightarrow> bool" where
  "running junk s \<longleftrightarrow> (\<exists>apps a. (server_step junk)\<^sup>*\<^sup>* (started apps a) s)"

text \<open>
  The invariant. Every handler that was ever made is in the map and stays there; no handler has a
  callback for the end of its connection; the input buffers are empty between the steps.
\<close>

definition idle_handler :: "'w http_handler \<Rightarrow> bool" where
  "idle_handler h \<longleftrightarrow> handler_inv h \<and> hh_close_callback h = None \<and>
     hh_close_callback_with_this h = None"

definition system_inv :: "'w system \<Rightarrow> bool" where
  "system_inv s \<longleftrightarrow>
     dom (sv_handler_map (sys_server s)) = sys_ever s \<and> dom (sys_open s) \<subseteq> sys_ever s \<and>
     (\<forall>n h. sv_handler_map (sys_server s) n = Some h \<longrightarrow> idle_handler h) \<and>
     (\<forall>n b ops. sys_open s n = Some (b, ops) \<longrightarrow> buffer_inv b \<and> content b = [])"

lemma handled_idle:
  assumes "HTTPHandler_OnData junk h b w = Some (Handled h' b' w')" and "idle_handler h"
    and "buffer_inv b" and "length (content b) < 2 ^ 64"
  shows "idle_handler h' \<and> buffer_inv b' \<and> content b' = []"
proof -
  have "handler_inv h' \<and> buffer_inv b' \<and> content b' = []"
    using HTTPHandler_OnData_returns [of h b junk w] assms by (auto simp: idle_handler_def)
  moreover have "hh_close_callback h' = hh_close_callback h \<and>
      hh_close_callback_with_this h' = hh_close_callback_with_this h"
  proof -
    obtain r where r: "data_loop (http_codec_call (handler_callbacks junk h)) b
        (hh_parser h, hh_codec h, w) = Some r"
      using assms(1) by (auto simp: HTTPHandler_OnData_def)
    then obtain x ps c w1 where "r = Loop_done x (ps, c, w1)"
      using assms(1) by (cases r) (auto simp: HTTPHandler_OnData_def)
    with r assms(1) show ?thesis by (auto simp: HTTPHandler_OnData_def)
  qed
  ultimately show ?thesis using assms(2) by (simp add: idle_handler_def)
qed

lemma step_inv: "server_step junk s s' \<Longrightarrow> system_inv s \<Longrightarrow> system_inv s'"
proof (induction rule: server_step.induct)
  case (Connect n s)
  moreover have "idle_handler (new_http_handler n cb)" for cb
    using new_handler_inv [of n cb] by (simp add: idle_handler_def new_http_handler_def)
  ultimately show ?case
    using new_buffer_ok [of kInitialSize]
    by (auto simp: system_inv_def OnCreateOrDestroyConnection_def HTTPServer_OnConnection_def
        Let_def)
next
  case (Data s n b ops h data r b1 h' b' w')
  then have b: "buffer_inv b" "content b = []" and h: "idle_handler h"
    unfolding system_inv_def by blast+
  have b1: "buffer_inv b1" "content b1 = data"
    using readFd_ok [OF b(1), of "Some data"] Data(3,5) b(2) by auto
  have "idle_handler h' \<and> buffer_inv b' \<and> content b' = []"
    using handled_idle [OF Data(7) h b1(1)] b1(2) Data(6) by simp
  with Data(1,2,8) show ?case
    by (auto simp: system_inv_def)
next
  case (Close s n b ops h w')
  then show ?case
    by (auto simp: system_inv_def OnCreateOrDestroyConnection_def HTTPServer_OnDisconnection_def
        split: if_splits)
qed

lemma running_inv: "running junk s \<Longrightarrow> system_inv s"
proof -
  have "(server_step junk)\<^sup>*\<^sup>* s0 s \<Longrightarrow> system_inv s0 \<Longrightarrow> system_inv s" for s0
    by (induction rule: rtranclp_induct) (auto intro: step_inv)
  moreover have "system_inv (started apps a)" for apps and a :: 'a
    by (simp add: system_inv_def started_def)
  ultimately show "running junk s \<Longrightarrow> system_inv s" by (auto simp: running_def)
qed

end
