(* ===== verification/Websocket_Handler.thy ===== *)
theory Websocket_Handler
  imports Http_Server Websocket_Codec Base64
begin

text \<open>
  \<open>WebsocketHandler\<close> of \<^verbatim>\<open>woody/websocket/websocket_handler.cc\<close>: the upgrade of a
  connection, and the messages on it afterwards. The codec's callbacks are values of its result;
  the handler runs them in their order. A function object that is empty throws when it is called.
\<close>

definition kVersion :: int where "kVersion = 13"

definition kWebsocketGUID :: string where
  "kWebsocketGUID = ''258EAFA5-E914-47DA-95CA-C5AB0DC85B11''"

type_synonym 'w message_callback =
  "string \<Rightarrow> websocket_message \<Rightarrow> 'w connection \<Rightarrow> 'w connection"

record 'w websocket_handler =
  wh_name :: string
  wh_conn :: bool
  wh_sub_protocols :: "string list"
  wh_codec :: websocket_codec
  text_message_callback :: "'w message_callback option"
  binary_message_callback :: "'w message_callback option"
  close_message_callback :: "'w message_callback option"
  ping_message_callback :: "'w message_callback option"
  pong_message_callback :: "'w message_callback option"
  wh_close_callback :: "('w connection \<Rightarrow> 'w connection) option"
  wh_close_callback_with_this :: "(string \<Rightarrow> 'w connection \<Rightarrow> 'w connection) option"

definition new_websocket_handler :: "string \<Rightarrow> websocket_parser \<Rightarrow> 'w websocket_handler" where
  "new_websocket_handler name junk =
     \<lparr>wh_name = name, wh_conn = False, wh_sub_protocols = [], wh_codec = new_websocket_codec junk,
      text_message_callback = None, binary_message_callback = None,
      close_message_callback = None, ping_message_callback = None,
      pong_message_callback = None, wh_close_callback = None,
      wh_close_callback_with_this = None\<rparr>"

definition AddSubProtocol :: "string \<Rightarrow> 'w websocket_handler \<Rightarrow> 'w websocket_handler" where
  "AddSubProtocol protocol h = h\<lparr>wh_sub_protocols := wh_sub_protocols h @ [protocol]\<rparr>"

text \<open>\<open>None\<close>: the connection is not set, and the \<open>assert\<close> fails.\<close>

definition Websocket_ForceClose ::
  "'w websocket_handler \<Rightarrow> 'w connection \<Rightarrow> 'w connection option" where
  "Websocket_ForceClose h w = (if wh_conn h then Some (conn_forceClose w) else None)"

definition Websocket_HandleError ::
  "'w websocket_handler \<Rightarrow> 'w connection \<Rightarrow> 'w connection option" where
  "Websocket_HandleError h w = Websocket_ForceClose h w"

subsection \<open>The upgrade\<close>

text \<open>\<open>GetHeader\<close> with its output argument: it is left alone when there is no such header.\<close>

definition header_into :: "http_request \<Rightarrow> string \<Rightarrow> string \<Rightarrow> bool \<times> string" where
  "header_into req name v =
     (case GetHeader req name of Some x \<Rightarrow> (True, x) | None \<Rightarrow> (False, v))"

definition SetCallback ::
  "'w websocket_handler \<Rightarrow> 'w connection \<Rightarrow> 'w websocket_handler \<times> 'w connection" where
  "SetCallback h w =
     (h\<lparr>wh_conn := True\<rparr>, w\<lparr>conn_ops := conn_ops w @ [Redirected (wh_name h)]\<rparr>)"

text \<open>The subprotocols of the request.\<close>

definition requested_protocols :: "boost_functions \<Rightarrow> http_request \<Rightarrow> string list" where
  "requested_protocols bf req =
     (case header_into req ''Sec-WebSocket-Protocol'' [] of
        (found, protocols) \<Rightarrow>
          if found \<and> protocols \<noteq> [] then map Trim (Split bf protocols '','') else [])"

definition accept_key :: "boost_functions \<Rightarrow> string \<Rightarrow> string" where
  "accept_key bf key = Base64Encode (Sha1 (sha1_digest bf) (key @ kWebsocketGUID))"

text \<open>
  \<open>HandleUpgrade\<close>: the value, the handler, the response and the world; \<open>None\<close> when
  \<open>StringToInt\<close> throws.
\<close>

definition HandleUpgrade ::
  "boost_functions \<Rightarrow> http_request \<Rightarrow> http_response \<Rightarrow> 'w websocket_handler \<Rightarrow> 'w connection \<Rightarrow>
     (bool \<times> 'w websocket_handler \<times> http_response \<times> 'w connection) option" where
  "HandleUpgrade bf req resp h w =
     (if r_method req \<noteq> ''GET'' then Some (False, h, resp, w)
      else
        let (has_upgrade, v) = header_into req ''Upgrade'' [];
            (has_connection, v') = header_into req ''Connection'' v
        in if \<not> has_upgrade \<and> v = ''websocket'' \<and> has_connection \<and> v' = ''upgrade'' then
             Some (False, h, resp, w)
           else
             let (has_key, key) = header_into req ''Sec-WebSocket-Key'' [] in
             if has_key \<and> length (Base64Decode key) \<noteq> 16 then Some (False, h, resp, w)
             else
               let (has_version, version) = header_into req ''Sec-WebSocket-Version'' [] in
               case (if has_version then StringToInt bf version else Some kVersion) of
                 None \<Rightarrow> None
               | Some n \<Rightarrow>
                   if n \<noteq> kVersion then Some (False, h, resp, w)
                   else
                     let h1 = fold AddSubProtocol (requested_protocols bf req) h;
                         resp1 =
                           SetStatus 101 ''Switching Protocols''
                            (Response_AddHeader ''Sec-WebSocket-Accept'' (accept_key bf key)
                            (Response_AddHeader ''Sec-WebSocket-Version'' version
                            (Response_AddHeader ''Connection'' ''Upgrade''
                            (Response_AddHeader ''Upgrade'' ''websocket'' resp))));
                         (h2, w1) = SetCallback h1 w;
                         (resp2, text) = End bf resp1
                     in Some (True, h2, resp2, HTTPHandler_Send text w1))"

subsection \<open>Messages\<close>

definition run_message ::
  "'w message_callback option \<Rightarrow> 'w websocket_handler \<Rightarrow> websocket_message \<Rightarrow> 'w connection \<Rightarrow>
     'w connection option" where
  "run_message cb h m w = map_option (\<lambda>f. f (wh_name h) m w) cb"

definition OnTextMessage where
  "OnTextMessage h = run_message (text_message_callback h) h"
definition OnBinaryMessage where
  "OnBinaryMessage h = run_message (binary_message_callback h) h"
definition OnCloseMessage where
  "OnCloseMessage h = run_message (close_message_callback h) h"
definition OnPingMessage where
  "OnPingMessage h = run_message (ping_message_callback h) h"
definition OnPongMessage where
  "OnPongMessage h = run_message (pong_message_callback h) h"

fun run_event :: "'w websocket_handler \<Rightarrow> codec_event \<Rightarrow> 'w connection \<Rightarrow> 'w connection option" where
  "run_event h (Text_message m) w = OnTextMessage h m w"
| "run_event h (Binary_message m) w = OnBinaryMessage h m w"
| "run_event h (Close_message m) w = OnCloseMessage h m w"
| "run_event h (Ping_message m) w = OnPingMessage h m w"
| "run_event h (Pong_message m) w = OnPongMessage h m w"
| "run_event h Codec_error w = Websocket_HandleError h w"

fun run_events :: "'w websocket_handler \<Rightarrow> codec_event list \<Rightarrow> 'w connection \<Rightarrow> 'w connection option" where
  "run_events h [] w = Some w"
| "run_events h (ev # evs) w = Option.bind (run_event h ev w) (run_events h evs)"

text \<open>\<open>OnData\<close>: the call of the codec in the loop, and the loop.\<close>

type_synonym 'w websocket_session = "'w websocket_handler \<times> 'w connection"

definition websocket_codec_call ::
  "string \<Rightarrow> 'w websocket_session \<Rightarrow> 'w websocket_session codec_call option" where
  "websocket_codec_call data s =
     (case s of (h, w) \<Rightarrow>
        case Websocket_OnData data (wh_codec h) of
          None \<Rightarrow> Some Codec_aborts
        | Some (ok, n, c, evs) \<Rightarrow>
            case run_events h evs w of
              None \<Rightarrow> Some Codec_throws
            | Some w' \<Rightarrow>
                if \<not> ok \<or> n = 0 then Some (Stopped (h\<lparr>wh_codec := c\<rparr>, w'))
                else Some (Consumed n (h\<lparr>wh_codec := c\<rparr>, w')))"

definition WebsocketHandler_OnData ::
  "net_buffer \<Rightarrow> 'w websocket_session \<Rightarrow> 'w websocket_session loop_result option" where
  "WebsocketHandler_OnData b s = data_loop websocket_codec_call b s"

definition WebsocketHandler_OnClose :: "'w websocket_handler \<Rightarrow> 'w connection \<Rightarrow> 'w connection" where
  "WebsocketHandler_OnClose h w =
     (let w1 = (case wh_close_callback_with_this h of None \<Rightarrow> w | Some f \<Rightarrow> f (wh_name h) w)
      in case wh_close_callback h of None \<Rightarrow> w1 | Some f \<Rightarrow> f w1)"

text \<open>\<open>SendWebsocketMessage\<close>; a frame that is too large is an error of the codec.\<close>

definition SendWebsocketMessage ::
  "message_type \<Rightarrow> string \<Rightarrow> 'w websocket_handler \<Rightarrow> 'w connection \<Rightarrow> (bool \<times> 'w connection) option" where
  "SendWebsocketMessage t data h w =
     (case ConvertMessageToFrame t data of
        None \<Rightarrow> Some (False, w)
      | Some frame \<Rightarrow>
          case ConvertFrameToString frame [] of
            (ok, frame_string) \<Rightarrow>
              if ok then Some (True, conn_send frame_string w)
              else map_option (Pair False) (Websocket_HandleError h w))"

definition SendTextMessage ::
  "websocket_message \<Rightarrow> 'w websocket_handler \<Rightarrow> 'w connection \<Rightarrow> (bool \<times> 'w connection) option" where
  "SendTextMessage m h w = SendWebsocketMessage kTextMessage (m_data m) h w"

subsection \<open>The codec keeps the contract of the loop\<close>

definition ready :: "'w websocket_handler \<Rightarrow> bool" where
  "ready h \<longleftrightarrow>
     wh_conn h \<and> codec_inv (wh_codec h) \<and> text_message_callback h \<noteq> None \<and>
     binary_message_callback h \<noteq> None \<and> close_message_callback h \<noteq> None \<and>
     ping_message_callback h \<noteq> None \<and> pong_message_callback h \<noteq> None"

lemma run_events_total: "ready h \<Longrightarrow> \<exists>w'. run_events h evs w = Some w'"
proof (induction evs arbitrary: w)
  case (Cons ev evs)
  have "\<exists>w'. run_event h ev w = Some w'"
    using Cons.prems
    by (cases ev) (auto simp: ready_def OnTextMessage_def OnBinaryMessage_def OnCloseMessage_def
        OnPingMessage_def OnPongMessage_def run_message_def Websocket_HandleError_def
        Websocket_ForceClose_def)
  with Cons show ?case by auto
qed simp

lemma websocket_codec_contract: "data_codec websocket_codec_call (\<lambda>(h, w). ready h)"
proof
  fix s :: "'a websocket_session" and data :: string
  assume r: "case s of (h, w) \<Rightarrow> ready h"
  obtain h w where s: "s = (h, w)" by (cases s)
  then have "codec_inv (wh_codec h)" using r by (simp add: ready_def)
  from Websocket_OnData_ok [OF this, of data]
  obtain ok n c evs where d: "Websocket_OnData data (wh_codec h) = Some (ok, n, c, evs)"
    "codec_inv c" "n \<le> length data" by blast
  obtain w' where w': "run_events h evs w = Some w'"
    using run_events_total [of h evs w] r s by auto
  have "ready (h\<lparr>wh_codec := c\<rparr>)" using r s d(2) by (simp add: ready_def)
  with d w' show "(\<exists>n s'. websocket_codec_call data s = Some (Consumed n s') \<and>
        0 < n \<and> n \<le> length data \<and> (case s' of (h, w) \<Rightarrow> ready h)) \<or>
      (\<exists>s'. websocket_codec_call data s = Some (Stopped s') \<and> (case s' of (h, w) \<Rightarrow> ready h))"
    by (cases "ok \<and> n \<noteq> 0") (auto simp: websocket_codec_call_def s)
qed

interpretation websocket_data: data_codec websocket_codec_call "\<lambda>(h, w). ready h"
  by (rule websocket_codec_contract)

lemma WebsocketHandler_OnData_returns:
  assumes "ready h" and "buffer_inv b" and "length (content b) < 2 ^ 64"
  shows "WebsocketHandler_OnData b (h, w) = Some Loop_aborts \<or>
    (\<exists>h' b' w'. WebsocketHandler_OnData b (h, w) = Some (Loop_done b' (h', w')) \<and> ready h' \<and>
       buffer_inv b' \<and> content b' = [])"
  using websocket_data.data_loop_returns [of "(h, w)" b] assms
  by (fastforce simp: WebsocketHandler_OnData_def)

subsection \<open>A frame in the buffer\<close>

text \<open>
  The codec takes one frame from what has arrived. The events of the frame are those that
  the codec collects.
\<close>

lemma codec_call_frame:
  assumes "ready h" and "collecting (wh_codec h) st" and "idle_parser (wh_codec h)"
    and "sendable kv" and "collect (snd kv) st = (st1, evs)"
  shows "\<exists>c w'. run_events h evs w = Some w' \<and>
    websocket_codec_call (wire kv @ rest) (h, w) =
      Some (Consumed (length (wire kv)) (h\<lparr>wh_codec := c\<rparr>, w')) \<and>
    collecting c st1 \<and> idle_parser c \<and> ready (h\<lparr>wh_codec := c\<rparr>) \<and> wire kv \<noteq> []"
proof -
  obtain c1 es where c1: "OnParsedFrame (client_frame (fst kv) (snd kv)) (wh_codec h) = (c1, es)"
    by fastforce
  have sim: "collecting c1 st1" "evs = es"
    using codec_simulates [OF assms(2) _ c1 assms(5)] assms(4) by (simp_all add: sendable_def)
  obtain p' where d: "Websocket_OnData (wire kv @ rest) (wh_codec h) =
      Some (True, length (wire kv), c1\<lparr>wc_parser := p'\<rparr>, evs)" "idle_parser (c1\<lparr>wc_parser := p'\<rparr>)"
    using OnData_client_frame [OF assms(4,3) c1, of rest] sim(2) by auto
  have a: "collecting (c1\<lparr>wc_parser := p'\<rparr>) st1" using sim(1) by simp
  have r: "ready (h\<lparr>wh_codec := c1\<lparr>wc_parser := p'\<rparr>\<rparr>)"
    using assms(1) d(2) by (simp add: ready_def codec_inv_def wp_inv_def idle_parser_def)
  have "wire kv \<noteq> []"
    using client_frame_ok [of "fst kv" "snd kv"] assms(4)
    by (simp add: wire_def convert_header frame_header_def Let_def)
  moreover obtain w' where "run_events h evs w = Some w'" using run_events_total [OF assms(1)] by blast
  ultimately show ?thesis using d a r by (auto simp: websocket_codec_call_def)
qed

lemma frame_delivered:
  assumes "ready h" and "collecting (wh_codec h) st" and "idle_parser (wh_codec h)"
    and "sendable kv" and "collect (snd kv) st = (st1, evs)"
    and "buffer_inv b" and "content b = wire kv" and "length (wire kv) < 2 ^ 64"
  shows "\<exists>h' b' w'. WebsocketHandler_OnData b (h, w) = Some (Loop_done b' (h', w')) \<and>
    run_events h evs w = Some w' \<and> ready h' \<and> collecting (wh_codec h') st1 \<and>
    idle_parser (wh_codec h') \<and> buffer_inv b' \<and> content b' = []"
proof -
  obtain c w' where c: "run_events h evs w = Some w'"
    "websocket_codec_call (wire kv @ []) (h, w) =
       Some (Consumed (length (wire kv)) (h\<lparr>wh_codec := c\<rparr>, w'))"
    "collecting c st1" "idle_parser c" "ready (h\<lparr>wh_codec := c\<rparr>)" "wire kv \<noteq> []"
    using codec_call_frame [OF assms(1-5), of w "[]"] by blast
  have "consume websocket_codec_call (wire kv) (h, w) = Some (Used_up (h\<lparr>wh_codec := c\<rparr>, w'))"
    using c(2,6) by (simp add: consume.simps [of _ "wire kv"] consume.simps [of _ "[]"])
  then obtain b' where "WebsocketHandler_OnData b (h, w) = Some (Loop_done b' (h\<lparr>wh_codec := c\<rparr>, w'))"
    "buffer_inv b'" "content b' = []"
    using websocket_data.data_loop_consume [of "(h, w)" b] assms(1,6-8)
    by (auto simp: WebsocketHandler_OnData_def)
  with c show ?thesis by (intro exI [of _ "h\<lparr>wh_codec := c\<rparr>"]) auto
qed

text \<open>More than eight bytes behind a frame end the process.\<close>

lemma frame_then_abort:
  assumes "ready h" and "collecting (wh_codec h) st" and "idle_parser (wh_codec h)"
    and "sendable kv" and "buffer_inv b" and "content b = wire kv @ rest" and "8 < length rest"
    and "length (content b) < 2 ^ 64"
  shows "WebsocketHandler_OnData b (h, w) = Some Loop_aborts"
proof -
  obtain st1 evs where e: "collect (snd kv) st = (st1, evs)" by fastforce
  obtain c w' where c: "websocket_codec_call (content b) (h, w) =
       Some (Consumed (length (wire kv)) (h\<lparr>wh_codec := c\<rparr>, w'))" "wire kv \<noteq> []"
    using codec_call_frame [OF assms(1-4) e, of w rest] assms(6) by auto
  have "consume websocket_codec_call (content b) (h, w) = Some (Too_much (h\<lparr>wh_codec := c\<rparr>, w'))"
    using c assms(6,7) by (subst consume.simps) (simp add: kCheapPrepend_def)
  then show ?thesis
    using websocket_data.data_loop_consume [of "(h, w)" b] assms(1,5,8)
    by (auto simp: WebsocketHandler_OnData_def)
qed

text \<open>One byte of a header is an error, and the connection is closed.\<close>

lemma one_byte_closes:
  assumes "ready h" and "idle_parser (wh_codec h)" and "buffer_inv b" and "content b = [x]"
  shows "\<exists>h' b'. WebsocketHandler_OnData b (h, w) = Some (Loop_done b' (h', conn_forceClose w)) \<and>
    content b' = []"
proof -
  obtain p where "Parse [x] 0 (wc_parser (wh_codec h)) = Parsed False 0 p None"
    using assms(2)
    by (cases "first_byte_ok (set_first_byte x (wc_parser (wh_codec h)))")
      (simp_all add: Parse_def parse_header_def idle_parser_def)
  then have "websocket_codec_call [x] (h, w) =
      Some (Stopped (h\<lparr>wh_codec := (wh_codec h)\<lparr>wc_parser := p\<rparr>\<rparr>, conn_forceClose w))"
    using assms(1)
    by (simp add: websocket_codec_call_def Websocket_OnData_def Websocket_HandleError_def
        Websocket_ForceClose_def ready_def)
  then have "consume websocket_codec_call (content b) (h, w) =
      Some (Used_up (h\<lparr>wh_codec := (wh_codec h)\<lparr>wc_parser := p\<rparr>\<rparr>, conn_forceClose w))"
    using assms(4) by (subst consume.simps) simp
  then show ?thesis
    using websocket_data.data_loop_consume [of "(h, w)" b] assms(1,3,4)
    by (auto simp: WebsocketHandler_OnData_def)
qed

subsection \<open>The answer to an upgrade\<close>

lemma Base64Encode_chars:
  "c \<in> set (Base64Encode s) \<Longrightarrow> IsBase64 c \<or> c = CHR ''=''"
proof (induction "length s" arbitrary: s rule: less_induct)
  case less
  consider "s = []" | x where "s = [x]" | x y where "s = [x, y]"
    | x y z t where "s = x # y # z # t"
    by (metis neq_Nil_conv)
  then show ?case
  proof cases
    case (4 x y z t)
    with less.prems less.hyps [of t] show ?thesis
      using digits_good [of c "[x, y, z]"] by (auto simp: encode_three)
  qed (use less.prems in \<open>auto simp: Base64Encode_def dest: in_set_takeD digits_good\<close>)
qed

lemma accept_key_ok: "field_ok (n, accept_key bf key) \<longleftrightarrow> CR \<notin> set n \<and> CHR '':'' \<notin> set n"
  using Base64Encode_chars [of CR] by (auto simp: field_ok_def accept_key_def IsBase64_def)

end
