(* ===== verification/Woody_Theorems.thy ===== *)
theory Woody_Theorems
  imports Url_Parts Http_Codec Execute_Safety Net_Buffer Base64 Http_Response Websocket_Codec
    Http_Server Websocket_Handler
begin

text \<open>
  The properties of woody's parts, in this order: the URL parser, the HTTP codec, muduo's buffer
  and the strings, responses, WebSocket frames and their codec, the handlers and the server, and
  WebSocket sessions.
\<close>

text \<open>C7: a URL put together from a schema, an optional user part, a host, an optional port, a
  path, an optional query and an optional fragment is taken apart again: every field of the
  struct delimits the text of its part and is unset when the part is missing, and \<open>port\<close> is the
  number of the port; the call fails when that number exceeds 65535, and only then.\<close>

theorem url_roundtrip:
  assumes "url_parts_ok x" and "length (url_text x) < 2 ^ 16"
  shows "\<exists>u. http_parser_parse_url (url_text x @ rest) (length (url_text x)) False u0 =
      Url_return (if port_value x \<le> 65535 then 0 else 1) u \<and>
    (\<forall>f. field_text (url_text x) u f = part_of_url x f) \<and>
    (port_value x \<le> 65535 \<longrightarrow> unat (port u) = port_value x)"
  by (rule parse_url_parts [OF assms])

definition sample_url :: url_parts where
  "sample_url =
     \<lparr>u_schema = ''http'', u_user = Some ''a:b'', u_host = ''h.org'', u_port = Some ''8080'',
      u_path = ''/p'', u_query = Some ''x=1'', u_fragment = None\<rparr>"

lemma url_roundtrip_witness:
  "\<exists>u. http_parser_parse_url (url_text sample_url @ '' HTTP/1.1'') (length (url_text sample_url))
      False http_parser_url_init = Url_return (if port_value sample_url \<le> 65535 then 0 else 1) u \<and>
    (\<forall>f. field_text (url_text sample_url) u f = part_of_url sample_url f) \<and>
    (port_value sample_url \<le> 65535 \<longrightarrow> unat (port u) = port_value sample_url)"
proof (rule url_roundtrip)
  show "url_parts_ok sample_url"
    by (simp add: url_parts_ok_def sample_url_def optional_def char_eval)
  show "length (url_text sample_url) < 2 ^ 16"
    by (simp add: url_text_def authority_text_def sample_url_def user_part_def url_part_def)
qed

text \<open>On a buffer shorter than \<open>2 ^ 16\<close> bytes that a NUL follows, \<open>http_parser_parse_url\<close>
  never reads outside the memory and no \<open>assert\<close> of it fails; it returns 0 or 1, and every field
  it has set lies inside the buffer.\<close>

theorem url_fields_inside:
  assumes "buflen < 2 ^ 16" and "buflen < length buf" and "buf ! buflen = NUL"
  shows "\<exists>r u. http_parser_parse_url buf buflen is_connect u0 = Url_return r u \<and> r \<in> {0, 1} \<and>
    (\<forall>f. has_field u f \<longrightarrow>
       unat (off (field_data u f)) + unat (len (field_data u f)) \<le> buflen)"
proof -
  obtain r u where "http_parser_parse_url buf buflen is_connect u0 = Url_return r u" "r \<in> {0, 1}"
    "inside (\<lambda>_. buflen) u" using parse_url_total [OF assms] by blast
  moreover have "unat (off (field_data u f)) + unat (len (field_data u f)) \<le> buflen"
    if "has_field u f" for f
  proof -
    have "fields_of u f = Some (unat (off (field_data u f)), unat (len (field_data u f)))"
      using that by (simp add: fields_of_def)
    with \<open>inside (\<lambda>_. buflen) u\<close> show ?thesis unfolding inside_def by blast
  qed
  ultimately show ?thesis by blast
qed

lemma url_fields_inside_witness:
  "\<exists>r u. http_parser_parse_url (''a.b:443'' @ [NUL]) 7 True http_parser_url_init = Url_return r u \<and>
    r \<in> {0, 1} \<and>
    (\<forall>f. has_field u f \<longrightarrow> unat (off (field_data u f)) + unat (len (field_data u f)) \<le> 7)"
  by (rule url_fields_inside) simp_all

text \<open>Without the NUL the call can read beyond its buffer: \<open>strtoul\<close> on the port does not
  know where the buffer ends, so a URL that ends in its port makes it run on to the end of the
  memory.\<close>

theorem port_overread:
  "http_parser_parse_url ''http://h:80'' (length ''http://h:80'') False http_parser_url_init = Url_abort"
  by (simp add: http_parser_parse_url_def http_parser_url_init_def parse_url_char_def url_class_def
      scan_field_def inc_len_def set_len_def set_off_def add_field_def has_field_def uf_bit_def
      http_parse_host_def http_parse_host_char_def host_field_step_def host_end_ok_def
      check_connect_def read_port_def strtoul_def is_space_def char_eval Let_def)

text \<open>
  The properties of the request, its codec and their use of the parser.
\<close>

text \<open>\<open>HTTPCodec::OnData\<close> returns on every input when an error callback is set, does not
  abort, and leaves a parser with which it can be called again.\<close>

theorem codec_on_data_returns:
  assumes "parser_inv ps" and "length data < 2 ^ 64" and "error_cb cbs \<noteq> None"
  shows "\<exists>n ps' c' w'. OnData cbs ps c data w = Some (Codec_parsed n ps' c' w') \<and>
    parser_inv ps' \<and> n \<le> max 1 (length data) \<and>
    (n < length data \<longrightarrow> http_errno ps' \<noteq> HPE_OK \<or> upgrade ps')"
  by (rule OnData_returns [OF assms])

definition counting_callbacks :: "nat codec_callbacks" where
  "counting_callbacks =
     \<lparr>message_begin_cb = None, message_complete_cb = None, headers_complete_cb = None,
      error_cb = Some Suc\<rparr>"

lemma codec_on_data_returns_witness:
  "\<exists>n ps' c' w'. OnData counting_callbacks new_codec_parser new_http_codec ''BAD'' 0 =
      Some (Codec_parsed n ps' c' w') \<and>
    parser_inv ps' \<and> n \<le> max 1 (length ''BAD'') \<and>
    (n < length ''BAD'' \<longrightarrow> http_errno ps' \<noteq> HPE_OK \<or> upgrade ps')"
  by (rule codec_on_data_returns)
    (simp_all add: counting_callbacks_def new_codec_parser_def parser_inv_init)

text \<open>Whatever pieces the names and values of the headers of a request are reported in, the
  codec stores, for each name, the first value given for it, each put together from its pieces;
  only the first name is preceded by what the codec still holds of a name before.\<close>

theorem codec_headers:
  assumes "c_parse_state c = kParseHeaderBegin" and "list_all pieces_ok (h # hs)"
    and "r_headers_map (c_request c) = []"
  shows "GetHeader (c_request (headers_complete_event ps (all_header_events (h # hs) c))) name =
    map_of ((c_header_name c @ concat (fst h), concat (snd h)) # map header_of hs) name"
proof -
  let ?l = "(c_header_name c @ concat (fst h), concat (snd h)) # map header_of hs"
  have "r_headers_map (c_request (headers_complete_event ps (all_header_events (h # hs) c))) =
      insert_all ?l []"
    using headers_assembled [OF assms(1,2)] assms(3) by simp
  then show ?thesis
    using map_find_insert_all [of "[]" ?l name]
    by (simp add: GetHeader_def del: insert_all_simps)
qed

definition begun_codec :: http_codec where
  "begun_codec = new_http_codec\<lparr>c_parse_state := kParseHeaderBegin\<rparr>"

lemma codec_headers_witness:
  "GetHeader (c_request (headers_complete_event new_codec_parser
      (all_header_events [([''Ho'', ''st''], [''x'']), ([''A''], [''1'', ''2''])] begun_codec))) ''Host'' =
    Some ''x''"
  using codec_headers [of begun_codec "([''Ho'', ''st''], [''x''])" "[([''A''], [''1'', ''2''])]"
      new_codec_parser "''Host''"]
  by (simp add: begun_codec_def new_http_codec_def new_http_request_def pieces_ok_def)

text \<open>\<open>ParseUrl\<close> reads the parameters of a query of the form \<open>k=v&k=v\<close>: each key is mapped
  to the last value given for it.\<close>

theorem url_parameters:
  assumes "list_all param_ok ps" and "CHR ''?'' \<notin> set path"
    and "r_url r = path @ CHR ''?'' # query_text ps" and "r_get_params r = []"
  shows "GetGETParams (ParseUrl r) k = map_of (rev ps) k"
proof -
  have "dropWhile (\<lambda>c. c \<noteq> CHR ''?'') (r_url r) = CHR ''?'' # query_text ps"
    unfolding assms(3) using assms(2) by (intro dropWhile_all) auto
  then have "r_get_params (ParseUrl r) = assign_all ps []"
    using params_loop_text [OF assms(1), of "[]"] assms(3,4) by (simp add: ParseUrl_def)
  then show ?thesis
    using map_find_assign_all [of "[]" ps k]
    by (simp add: GetGETParams_def split: option.splits)
qed

lemma url_parameters_witness:
  "GetGETParams (ParseUrl (new_http_request\<lparr>r_url := ''/p?a=1&b=2&a=3''\<rparr>)) ''a'' = Some ''3''"
  using url_parameters [of "[(''a'', ''1''), (''b'', ''2''), (''a'', ''3'')]" "''/p''"
      "new_http_request\<lparr>r_url := ''/p?a=1&b=2&a=3''\<rparr>" "''a''"]
  by (simp add: param_ok_def param_text_def new_http_request_def)

text \<open>
  The properties of the buffer and of the helpers for text: Base64, suffixes, responses.
\<close>

text \<open>C10: any sequence of appends, reads and prepends on a buffer that succeeds gives the outputs
  and the content of a plain queue of bytes, whatever the buffer had to grow or to move its
  bytes; without a prepend, a sequence fails only where the queue's does.\<close>

theorem buffer_refines_queue:
  assumes "buffer_inv b"
  shows "case run_steps buffer_step ops b of
      Some (outs, b') \<Rightarrow> buffer_inv b' \<and> run_steps queue_step ops (content b) = Some (outs, content b')
    | None \<Rightarrow> (\<exists>p \<in> set ops. is_unpop p) \<or> run_steps queue_step ops (content b) = None"
  using buffer_queue.run_refines [OF assms, of ops] buffer_queue.run_total [OF assms, of ops]
  unfolding buffer_step_def
  by (cases "run_steps (step_with append_bytes retrieveAsString retrieveAllAsString prepend) ops b")
    fastforce+

lemma buffer_refines_queue_witness:
  "case run_steps buffer_step [Push ''abc'', Pop 2, Unpop ''xy''] (new_buffer 2) of
      Some (outs, b') \<Rightarrow>
        buffer_inv b' \<and> run_steps queue_step [Push ''abc'', Pop 2, Unpop ''xy''] [] = Some (outs, content b')
    | None \<Rightarrow> (\<exists>p \<in> set [Push ''abc'', Pop 2, Unpop ''xy'']. is_unpop p) \<or>
        run_steps queue_step [Push ''abc'', Pop 2, Unpop ''xy''] [] = None"
proof -
  have inv: "buffer_inv (new_buffer 2)" and empty: "content (new_buffer 2) = []"
    using new_buffer_ok [of 2] by simp_all
  show ?thesis
    using buffer_refines_queue [OF inv, of "[Push ''abc'', Pop 2, Unpop ''xy'']"]
    unfolding empty .
qed

text \<open>An integer of 64, 32 or 16 bits appended to an empty buffer is read back.\<close>

theorem buffer_integers:
  assumes "buffer_inv b" and "content b = []"
  shows "(\<exists>b2. Option.bind (appendInt64 x b) readInt64 = Some (x, b2) \<and> content b2 = []) \<and>
    (\<exists>b2. Option.bind (appendInt32 y b) readInt32 = Some (y, b2) \<and> content b2 = []) \<and>
    (\<exists>b2. Option.bind (appendInt16 z b) readInt16 = Some (z, b2) \<and> content b2 = [])"
  using int_roundtrips [OF assms] by blast

lemma buffer_integers_witness:
  "(\<exists>b2. Option.bind (appendInt64 1 (new_buffer 4)) readInt64 = Some (1, b2) \<and> content b2 = []) \<and>
   (\<exists>b2. Option.bind (appendInt32 2 (new_buffer 4)) readInt32 = Some (2, b2) \<and> content b2 = []) \<and>
   (\<exists>b2. Option.bind (appendInt16 3 (new_buffer 4)) readInt16 = Some (3, b2) \<and> content b2 = [])"
  using buffer_integers [of "new_buffer 4"] new_buffer_ok [of 4] by simp

text \<open>\<open>readFd\<close> appends exactly the bytes that arrived, whether they fit the writable space
  or spill into the extra buffer, and leaves the buffer alone on an error.\<close>

theorem readFd_appends:
  assumes "buffer_inv b" and "\<And>s. arrived = Some s \<Longrightarrow> length s \<le> readv_room b"
  shows "\<exists>n b'. readFd arrived b = Some (n, b') \<and> buffer_inv b' \<and>
    (case arrived of None \<Rightarrow> n = -1 \<and> b' = b
     | Some s \<Rightarrow> n = int (length s) \<and> content b' = content b @ s)"
  by (rule readFd_ok [OF assms])

lemma readFd_appends_witness:
  "\<exists>n b'. readFd (Some ''spill'') (new_buffer 2) = Some (n, b') \<and> buffer_inv b' \<and>
    (case Some ''spill'' of None \<Rightarrow> n = -1 \<and> b' = new_buffer 2
     | Some s \<Rightarrow> n = int (length s) \<and> content b' = content (new_buffer 2) @ s)"
  by (rule readFd_appends) (use new_buffer_ok [of 2] in \<open>auto simp: readv_room_def kExtraBuf_def\<close>)

text \<open>Decoding what \<open>Base64Encode\<close> makes gives back the bytes, for every string.\<close>

theorem base64_roundtrip: "Base64Decode (Base64Encode s) = s"
  by (rule Base64_decode_encode)

text \<open>\<open>IsStringEndWith\<close> holds exactly for a suffix that occurs nowhere before, and for any
  pattern that is one byte longer than the string.\<close>

theorem string_end_exact:
  assumes "length s < 2 ^ 63" and "length p < 2 ^ 63"
  shows "IsStringEndWith s p \<longleftrightarrow>
    (suffix p s \<and> (\<forall>j < length s - length p. \<not> prefix p (drop j s))) \<or> length p = length s + 1"
  by (rule ends_with [OF assms])

lemma string_end_exact_witness:
  "\<not> IsStringEndWith ''abab'' ''ab'' \<and> IsStringEndWith ''ab'' ''xyz''"
proof
  have "prefix ''ab'' (drop 0 ''abab'')" by simp
  then show "\<not> IsStringEndWith ''abab'' ''ab''"
    using string_end_exact [of "''abab''" "''ab''"] by force
  show "IsStringEndWith ''ab'' ''xyz''" using string_end_exact [of "''ab''" "''xyz''"] by simp
qed

text \<open>C11: the text that \<open>End\<close> sends can be read back: status, headers in order of their names,
  with the length of the body under \<open>Content-Length\<close> unless the application set that header, and
  the body. (The text of an integer consists of digits and a sign.)\<close>

theorem response_roundtrip:
  assumes "decimal_texts bf" and "response_ok r"
  shows "read_response (snd (End bf r)) =
    Some (IntToString bf (rs_status_code r), rs_status_message r,
      map_insert ''Content-Length'' (IntToString bf (of_nat (length (rs_body r))))
        (rs_headers_map r), rs_body r)"
  by (rule read_End [OF assms])

text \<open>A digit for small numbers, as an instance of the library function.\<close>

definition small_boost :: boost_functions where
  "small_boost =
     \<lparr>IntToString = (\<lambda>i. if i < 10 then [''0123456789'' ! unat i] else ''200''),
      StringToInt = (\<lambda>s. if s = ''13'' then Some 13 else None),
      Split = (\<lambda>s p. [s]), sha1_digest = (\<lambda>s. replicate 5 1)\<rparr>"

lemma small_boost_decimal: "decimal_texts small_boost"
proof -
  have "''0123456789'' ! n \<in> set ''-0123456789''" if "n < 10" for n :: nat
  proof -
    have "n \<in> {0, 1, 2, 3, 4, 5, 6, 7, 8, 9}" using that by auto
    then show ?thesis by (elim insertE emptyE) simp_all
  qed
  then have "set (IntToString small_boost i) \<subseteq> set ''-0123456789''" for i
    by (simp add: small_boost_def word_less_nat_alt)
  then show ?thesis by (simp add: decimal_texts_def)
qed

lemma response_roundtrip_witness:
  "read_response (snd (End small_boost (SetStatus 200 ''OK'' (AddBody ''hi'' (new_http_response 0))))) =
    Some (''200'', ''OK'', [(''Content-Length'', ''2'')], ''hi'')"
  using response_roundtrip [OF small_boost_decimal,
      of "SetStatus 200 ''OK'' (AddBody ''hi'' (new_http_response 0))"]
  by (simp add: response_ok_def SetStatus_def AddBody_def new_http_response_def small_boost_def)

text \<open>
  The properties of the WebSocket frames, their parser and the assembly of messages.
\<close>

text \<open>C8: a frame that \<open>ConvertFrameToString\<close> writes is read back by \<open>Parse\<close>, which consumes
  it and nothing of what follows; an unmasked frame gets the key the parser saw last.\<close>

theorem frame_roundtrip:
  assumes "frame_ok f" and "wp_state p = kParsingHeaderBegin" and "wp_body p = []"
  shows "\<exists>text p'. ConvertFrameToString f [] = (True, text) \<and>
    Parse (text @ rest) 0 p = Parsed True (length text) p' (Some (received f p)) \<and> wp_inv p'"
  using Parse_frame [OF assms, of rest] convert_header [OF assms(1), of "[]"]
  by (auto simp: wp_inv_def)

definition sample_parser :: websocket_parser where
  "sample_parser =
     \<lparr>wp_state = kParsingHeaderBegin, wp_fin = 0, wp_rsv1 = 0, wp_rsv2 = 0, wp_rsv3 = 0,
      wp_opcode = 0, wp_mask = 0, wp_length = 0, wp_key = 0, wp_body = []\<rparr>"

lemma sample_sendable:
  "sendable (7, First Text_kind True ''hello'')" "sendable (7, First Text_kind False ''hel'')"
  "sendable (9, Continuation True ''lo'')"
  by (simp_all add: sendable_def)

lemma frame_roundtrip_witness:
  "\<exists>text p'. ConvertFrameToString (client_frame 7 (First Text_kind True ''hello'')) [] = (True, text) \<and>
    Parse (text @ ''xyz'') 0 sample_parser =
      Parsed True (length text) p'
        (Some (received (client_frame 7 (First Text_kind True ''hello'')) sample_parser)) \<and> wp_inv p'"
  using frame_roundtrip [OF client_frame_ok [OF sample_sendable(1)], of sample_parser "''xyz''"]
  by (simp add: sample_parser_def)

text \<open>The body of a frame may arrive in pieces: whatever non-empty pieces it is cut into,
  the first with the header, the calls of \<open>Parse\<close> consume them whole and together yield the
  frame.\<close>

theorem frame_in_pieces:
  assumes "frame_ok f" and "wp_state p = kParsingHeaderBegin" and "wp_body p = []"
    and "b0 @ concat bs = frame_body f" and "[] \<notin> set bs"
  shows "\<exists>p'. feed ((frame_header f @ b0) # bs) p = Some ([received f p], p') \<and> wp_inv p'"
  using feed_frame [OF assms] by (auto simp: wp_inv_def)

lemma frame_in_pieces_witness:
  "\<exists>p'. feed [frame_header (client_frame 7 (First Text_kind True ''hello'')) @ Mask ''hello'' 7]
      sample_parser =
    Some ([received (client_frame 7 (First Text_kind True ''hello'')) sample_parser], p') \<and> wp_inv p'"
  using frame_in_pieces [OF client_frame_ok [OF sample_sendable(1)], of sample_parser "Mask ''hello'' 7" "[]"]
  by (simp add: sample_parser_def client_frame_def)

text \<open>\<open>WebsocketCodec::OnData\<close> is defined on every input: it reads no byte that is not
  there, does not report more bytes than it was given, and leaves the parser between two frames
  with an empty body, or inside a body that is not complete.\<close>

theorem websocket_codec_safe:
  assumes "codec_inv c"
  shows "\<exists>ok n c' evs. Websocket_OnData data c = Some (ok, n, c', evs) \<and> n \<le> length data \<and>
    codec_inv c'"
  using Websocket_OnData_ok [OF assms, of data] by blast

lemma websocket_codec_safe_witness:
  "\<exists>ok n c' evs. Websocket_OnData [CHR 0x81, CHR 0xFE, NUL] (new_websocket_codec sample_parser) =
      Some (ok, n, c', evs) \<and> n \<le> length [CHR 0x81, CHR 0xFE, NUL] \<and> codec_inv c'"
  by (rule websocket_codec_safe [OF new_codec_inv])


lemma new_codec_collecting:
  "collecting (new_websocket_codec junk) (None, [], [])" "idle_parser (new_websocket_codec junk)"
  by (simp_all add: collecting_def idle_parser_def new_websocket_codec_def new_websocket_parser_def)


lemma continuation_forgets:
  assumes "collecting c (Some Text_kind, d0, [])" and "key \<noteq> 0"
    and "OnParsedFrame (client_frame key (Continuation False d)) c = (c1, es)"
  shows "es = [] \<and> collecting c1 (None, d0 @ d, [])"
  using codec_simulates [OF assms, of "(None, d0 @ d, [])" "[]"] by simp

text \<open>A message of three frames or more is not assembled. After a continuation frame that is
  not the last, the codec has forgotten the kind of the message: the next continuation is an
  error, and the data read so far begin the next text message.\<close>

theorem three_fragments_fail:
  assumes "collecting c (Some Text_kind, d0, [])" and "key \<noteq> 0"
    and "OnParsedFrame (client_frame key (Continuation False d)) c = (c1, es)"
  shows "es = [] \<and>
    snd (OnParsedFrame (client_frame key (Continuation True d')) c1) = [Codec_error] \<and>
    snd (OnParsedFrame (client_frame key (First Text_kind True d')) c1) =
      [Text_message (message_of (d0 @ d @ d'))]"
proof -
  note c1 = continuation_forgets [OF assms]
  have "snd (OnParsedFrame (client_frame key v) c1) = snd (collect v (None, d0 @ d, []))" for v
  proof -
    obtain c2 es2 where o: "OnParsedFrame (client_frame key v) c1 = (c2, es2)" by fastforce
    obtain st2 es3 where k: "collect v (None, d0 @ d, []) = (st2, es3)" by fastforce
    from codec_simulates [OF _ assms(2) o k] c1 show ?thesis by (simp add: o k)
  qed
  then show ?thesis using c1 by simp
qed

definition text_begun :: websocket_codec where
  "text_begun = (new_websocket_codec sample_parser)
     \<lparr>cur_message_type := kTextMessage, text_message := message_of ''a''\<rparr>"

lemma three_fragments_fail_witness:
  "snd (OnParsedFrame (client_frame 7 (Continuation True ''c''))
      (fst (OnParsedFrame (client_frame 7 (Continuation False ''b'')) text_begun))) = [Codec_error]"
  using three_fragments_fail [of text_begun "''a''" 7 "''b''"
      "fst (OnParsedFrame (client_frame 7 (Continuation False ''b'')) text_begun)"
      "snd (OnParsedFrame (client_frame 7 (Continuation False ''b'')) text_begun)" "''c''"]
  by (simp add: collecting_def text_begun_def new_websocket_codec_def)

text \<open>
  The properties of the handlers and of the server.
\<close>

definition held :: "string \<Rightarrow> net_buffer" where
  "held s = \<lparr>storage = replicate 8 NUL @ s, readerIndex = 8, writerIndex = 8 + length s\<rparr>"

lemma held_ok: "buffer_inv (held s) \<and> content (held s) = s"
  by (simp add: held_def buffer_inv_def kCheapPrepend_def content_def bytes_from_def)

definition quiet :: "unit connection" where
  "quiet = \<lparr>conn_ops = [], application = ()\<rparr>"

definition no_app :: "unit request_callback" where
  "no_app handler req resp w = w"

text \<open>C12: \<open>HTTPHandler::OnData\<close> returns on everything a client can send, or ends the process
  because too much is left over; when it returns the buffer is empty, so what the codec did not
  take is lost, and the handler can be called again.\<close>

theorem handler_on_data_returns:
  assumes "handler_inv h" and "buffer_inv b" and "length (content b) < 2 ^ 64"
  shows "HTTPHandler_OnData junk h b w = Some Handler_aborts \<or>
    (\<exists>h' b' w'. HTTPHandler_OnData junk h b w = Some (Handled h' b' w') \<and> handler_inv h' \<and>
       buffer_inv b' \<and> content b' = [])"
  by (rule HTTPHandler_OnData_returns [OF assms])

lemma handler_on_data_returns_witness:
  "HTTPHandler_OnData 0 (new_http_handler ''c'' no_app) (held ''GET / HTTP/1.1'') quiet =
      Some Handler_aborts \<or>
    (\<exists>h' b' w'. HTTPHandler_OnData 0 (new_http_handler ''c'' no_app) (held ''GET / HTTP/1.1'') quiet =
        Some (Handled h' b' w') \<and> handler_inv h' \<and> buffer_inv b' \<and> content b' = [])"
  using held_ok [of "''GET / HTTP/1.1''"]
  by (intro handler_on_data_returns new_handler_inv) simp_all

text \<open>A request whose method is wrong in its third letter ends the server process when eight
  bytes or more follow it in the buffer: the rest does not fit where \<open>prepend\<close> puts it.\<close>

theorem wrong_method_ends_process:
  assumes "hh_parser h = new_codec_parser" and "buffer_inv b"
    and "content b = ''GEX'' @ rest" and "8 \<le> length rest" and "length rest < 2 ^ 63"
  shows "HTTPHandler_OnData junk h b w = Some Handler_aborts"
  by (rule wrong_method_aborts [OF assms])

lemma wrong_method_ends_process_witness:
  "HTTPHandler_OnData 0 (new_http_handler ''c'' no_app) (held ''GEX / HTTP/1.1'') quiet =
    Some Handler_aborts"
  using held_ok [of "''GEX / HTTP/1.1''"]
  by (intro wrong_method_ends_process [where rest = "'' / HTTP/1.1''"])
    (simp_all add: new_http_handler_def)

text \<open>A request is passed to the first application, in the order of registration, whose
  prefix the URL begins with; with no such application nothing happens, and no response is sent.\<close>

theorem request_dispatch:
  assumes "length (r_url req) < 2 ^ 64 - 1"
  shows "HTTPServer_OnRequest sv handler req resp w =
    (case find (\<lambda>(p, app). prefix p (r_url req)) (sv_apps sv) of
       None \<Rightarrow> w | Some (p, app) \<Rightarrow> app handler req resp w)"
  by (simp add: HTTPServer_OnRequest_def request_loop_find [OF assms])

definition sending_app :: "string \<Rightarrow> unit request_callback" where
  "sending_app s handler req resp w = conn_send s w"

definition two_apps :: "unit http_server" where
  "two_apps = HTTPServer_Handle ''/'' (sending_app ''second'')
     (HTTPServer_Handle ''/a'' (sending_app ''first'') new_http_server)"

lemma request_dispatch_witness:
  "conn_ops (HTTPServer_OnRequest two_apps ''c'' (SetUrl ''/abc'' new_http_request)
      (new_http_response 0) quiet) = [Sent ''first''] \<and>
   conn_ops (HTTPServer_OnRequest two_apps ''c'' (SetUrl ''/b'' new_http_request)
      (new_http_response 0) quiet) = [Sent ''second'']"
  using request_dispatch [of "SetUrl ''/abc'' new_http_request" two_apps "''c''" "new_http_response 0" quiet]
    request_dispatch [of "SetUrl ''/b'' new_http_request" two_apps "''c''" "new_http_response 0" quiet]
  by (simp add: SetUrl_def new_http_request_def two_apps_def HTTPServer_Handle_def
      new_http_server_def sending_app_def conn_send_def quiet_def)

text \<open>C13: in a running server the handler of every connection there has ever been stays in the
  map, also when the connection is gone, and no handler has a callback that could remove it; the
  input buffer of every open connection is empty between two events.\<close>

theorem server_keeps_handlers:
  assumes "running junk s"
  shows "dom (sv_handler_map (sys_server s)) = sys_ever s \<and> dom (sys_open s) \<subseteq> sys_ever s \<and>
    (\<forall>n h. sv_handler_map (sys_server s) n = Some h \<longrightarrow>
       handler_inv h \<and> hh_close_callback_with_this h = None) \<and>
    (\<forall>n b ops. sys_open s n = Some (b, ops) \<longrightarrow> buffer_inv b \<and> content b = [])"
  using running_inv [OF assms] by (auto simp: system_inv_def idle_handler_def)

definition after_connect :: "unit system" where
  "after_connect = (started [] ())
     \<lparr>sys_server := OnCreateOrDestroyConnection True ''c'' (sys_server (started [] ())),
      sys_open := (sys_open (started [] ()))(''c'' \<mapsto> (new_buffer kInitialSize, [])),
      sys_ever := insert ''c'' (sys_ever (started [] ()))\<rparr>"

definition after_close :: "unit system" where
  "after_close = after_connect
     \<lparr>sys_server := OnCreateOrDestroyConnection False ''c'' (sys_server after_connect),
      sys_open := (sys_open after_connect)(''c'' := None),
      sys_application := ()\<rparr>"

lemma running_after_connect: "running 0 after_connect"
proof -
  have "server_step 0 (started [] ()) after_connect"
    unfolding after_connect_def by (rule Connect) (simp add: started_def)
  then show ?thesis unfolding running_def by blast
qed

lemma running_after_close: "running 0 after_close"
proof -
  let ?cb = "HTTPServer_OnRequest (sys_server (started [] ()))"
  have "sys_open after_connect ''c'' = Some (new_buffer kInitialSize, [])"
    "sv_handler_map (sys_server after_connect) ''c'' = Some (new_http_handler ''c'' ?cb)"
    by (simp_all add: after_connect_def started_def OnCreateOrDestroyConnection_def
        HTTPServer_OnConnection_def)
  from Close [OF this refl]
  have "server_step 0 after_connect after_close"
    by (simp add: after_close_def)
  with running_after_connect show ?thesis
    by (auto simp: running_def intro: rtranclp.rtrancl_into_rtrancl)
qed

lemma server_keeps_handlers_witness:
  "dom (sys_open after_close) = {} \<and> dom (sv_handler_map (sys_server after_close)) = {''c''}"
  using server_keeps_handlers [OF running_after_close]
  by (simp add: after_close_def after_connect_def started_def)

text \<open>In a running server, data that arrive on an open connection reach its handler, which
  returns or ends the process; the server never gets stuck on them.\<close>

theorem server_handles_data:
  assumes "running junk s" and "sys_open s n = Some (b, ops)"
    and "length data \<le> readv_room b" and "length data < 2 ^ 63"
  shows "\<exists>h r b1. sv_handler_map (sys_server s) n = Some h \<and> readFd (Some data) b = Some (r, b1) \<and>
    content b1 = data \<and>
    (HTTPHandler_OnData junk h b1 \<lparr>conn_ops = ops, application = sys_application s\<rparr> =
       Some Handler_aborts \<or>
     (\<exists>h' b' w'. HTTPHandler_OnData junk h b1 \<lparr>conn_ops = ops, application = sys_application s\<rparr> =
       Some (Handled h' b' w')))"
proof -
  note inv = running_inv [OF assms(1), unfolded system_inv_def]
  obtain h where h: "sv_handler_map (sys_server s) n = Some h" "handler_inv h"
    using inv assms(2) unfolding idle_handler_def by (metis domD domI subsetD)
  have b: "buffer_inv b" "content b = []" using inv assms(2) by blast+
  obtain r b1 where b1: "readFd (Some data) b = Some (r, b1)" "buffer_inv b1" "content b1 = data"
    using readFd_ok [OF b(1), of "Some data"] b(2) assms(3) by auto
  show ?thesis
    using HTTPHandler_OnData_returns [OF h(2) b1(2), of junk] h(1) b1 assms(4) by fastforce
qed

lemma server_handles_data_witness:
  "\<exists>h r b1. sv_handler_map (sys_server after_connect) ''c'' = Some h \<and>
    readFd (Some ''GET'') (new_buffer kInitialSize) = Some (r, b1) \<and> content b1 = ''GET'' \<and>
    (HTTPHandler_OnData 0 h b1 \<lparr>conn_ops = [], application = sys_application after_connect\<rparr> =
       Some Handler_aborts \<or>
     (\<exists>h' b' w'. HTTPHandler_OnData 0 h b1
         \<lparr>conn_ops = [], application = sys_application after_connect\<rparr> = Some (Handled h' b' w')))"
  by (rule server_handles_data [OF running_after_connect])
    (simp_all add: after_connect_def readv_room_def kExtraBuf_def)

text \<open>A handshake that \<open>HandleUpgrade\<close> accepts is answered with status 101 and the key that
  the protocol prescribes, the Base64 text of the SHA-1 digest of the client's key and the fixed
  GUID; from then on the connection's data go to the WebSocket handler.\<close>

theorem upgrade_answered:
  assumes "r_method req = ''GET''" and "GetHeader req ''Sec-WebSocket-Key'' = Some key"
    and "length (Base64Decode key) = 16"
    and "GetHeader req ''Sec-WebSocket-Version'' = Some version"
    and "StringToInt bf version = Some kVersion" and "CR \<notin> set version" and "decimal_texts bf"
  shows "\<exists>h' resp' w' text hs.
    HandleUpgrade bf req (new_http_response junk) h w = Some (True, h', resp', w') \<and> wh_conn h' \<and>
    conn_ops w' = conn_ops w @ [Redirected (wh_name h'), Sent text] \<and>
    read_response text = Some (IntToString bf 101, ''Switching Protocols'', hs, []) \<and>
    map_of hs ''Sec-WebSocket-Accept'' =
      Some (Base64Encode (Sha1 (sha1_digest bf) (key @ kWebsocketGUID))) \<and>
    map_of hs ''Upgrade'' = Some ''websocket''"
proof -
  let ?r = "SetStatus 101 ''Switching Protocols''
     (Response_AddHeader ''Sec-WebSocket-Accept'' (accept_key bf key)
     (Response_AddHeader ''Sec-WebSocket-Version'' version
     (Response_AddHeader ''Connection'' ''Upgrade''
     (Response_AddHeader ''Upgrade'' ''websocket'' (new_http_response junk)))))"
  let ?h = "fold AddSubProtocol (requested_protocols bf req) h"
  have sets: "field_ok (''Sec-WebSocket-Accept'', accept_key bf key)" by (simp add: accept_key_ok)
  have ok: "response_ok ?r"
    using sets assms(6)
    by (simp add: response_ok_def SetStatus_def Response_AddHeader_def new_http_response_def
        field_ok_def)
  have up: "HandleUpgrade bf req (new_http_response junk) h w =
      Some (True, fst (SetCallback ?h w), fst (End bf ?r),
        HTTPHandler_Send (snd (End bf ?r)) (snd (SetCallback ?h w)))"
    using assms(1-5)
    by (auto simp: HandleUpgrade_def header_into_def Let_def split: option.split prod.split)
  have hs: "map_of (map_insert ''Content-Length'' v (rs_headers_map ?r)) ''Sec-WebSocket-Accept'' =
        Some (accept_key bf key)"
      "map_of (map_insert ''Content-Length'' v (rs_headers_map ?r)) ''Upgrade'' = Some ''websocket''"
      for v
    by (simp_all add: SetStatus_def Response_AddHeader_def new_http_response_def)
  show ?thesis
    using read_End [OF assms(7) ok] up hs
    by (auto simp: SetCallback_def HTTPHandler_Send_def conn_send_def accept_key_def
        SetStatus_def [of 101] Response_AddHeader_def new_http_response_def)
qed

definition handshake :: http_request where
  "handshake = AddHeader ''Sec-WebSocket-Version'' ''13''
     (AddHeader ''Sec-WebSocket-Key'' (Base64Encode ''0123456789abcdef'')
     (SetMethod ''GET'' new_http_request))"

lemma upgrade_answered_witness:
  "\<exists>h' resp' w' text hs.
    HandleUpgrade small_boost handshake (new_http_response 0)
      (new_websocket_handler ''w'' sample_parser) quiet = Some (True, h', resp', w') \<and> wh_conn h' \<and>
    conn_ops w' = conn_ops quiet @ [Redirected (wh_name h'), Sent text] \<and>
    read_response text = Some (IntToString small_boost 101, ''Switching Protocols'', hs, []) \<and>
    map_of hs ''Sec-WebSocket-Accept'' = Some (Base64Encode (Sha1 (sha1_digest small_boost)
      (Base64Encode ''0123456789abcdef'' @ kWebsocketGUID))) \<and>
    map_of hs ''Upgrade'' = Some ''websocket''"
proof (rule upgrade_answered [where version = "''13''"])
  show "length (Base64Decode (Base64Encode ''0123456789abcdef'')) = 16"
    by (simp add: Base64_decode_encode)
  show "decimal_texts small_boost" by (rule small_boost_decimal)
qed (simp_all add: handshake_def AddHeader_def SetMethod_def new_http_request_def GetHeader_def
    small_boost_def kVersion_def)

text \<open>\<open>HandleUpgrade\<close> accepts a \<open>GET\<close> request that has none of the headers of a handshake.\<close>

theorem upgrade_without_handshake:
  assumes "r_method req = ''GET''" and "r_headers_map req = []"
  shows "\<exists>h' resp' w'. HandleUpgrade bf req resp h w = Some (True, h', resp', w')"
proof -
  have "GetHeader req n = None" for n by (simp add: GetHeader_def assms(2))
  then show ?thesis
    using assms(1)
    by (simp add: HandleUpgrade_def header_into_def Let_def split: prod.split)
qed

lemma upgrade_without_handshake_witness:
  "\<exists>h' resp' w'. HandleUpgrade small_boost (SetMethod ''GET'' new_http_request) (new_http_response 0)
    (new_websocket_handler ''w'' sample_parser) quiet = Some (True, h', resp', w')"
  by (rule upgrade_without_handshake) (simp_all add: SetMethod_def new_http_request_def)


definition echo :: "unit message_callback" where
  "echo name m w = conn_send (m_data m) w"

definition echo_handler :: "unit websocket_handler" where
  "echo_handler = (new_websocket_handler ''w'' sample_parser)
     \<lparr>wh_conn := True, text_message_callback := Some echo, binary_message_callback := Some echo,
      close_message_callback := Some echo, ping_message_callback := Some echo,
      pong_message_callback := Some echo\<rparr>"

lemma echo_ready:
  "ready echo_handler" "collecting (wh_codec echo_handler) (None, [], [])" "idle_parser (wh_codec echo_handler)"
  using new_codec_collecting [of sample_parser] new_codec_inv [of sample_parser]
  by (simp_all add: ready_def echo_handler_def new_websocket_handler_def)

lemma hello_wire_length:
  "length (wire (7, First Text_kind True ''hello'')) < 2 ^ 10"
  using client_frame_ok [OF sample_sendable(1)]
  by (simp add: wire_def convert_header frame_header_def Let_def client_frame_def key_bytes_def
      HostToNetwork32_def)


text \<open>Two frames that arrive together end the process when the second has more than eight
  bytes, whatever it is.\<close>

theorem two_frames_end_process:
  assumes "ready h" and "collecting (wh_codec h) st" and "idle_parser (wh_codec h)"
    and "sendable kv" and "buffer_inv b" and "content b = wire kv @ rest" and "8 < length rest"
    and "length (content b) < 2 ^ 64"
  shows "WebsocketHandler_OnData b (h, w) = Some Loop_aborts"
  by (rule frame_then_abort [OF assms])

lemma two_frames_end_process_witness:
  "WebsocketHandler_OnData (held (wire (7, First Text_kind True ''hello'') @ ''next frame''))
     (echo_handler, quiet) = Some Loop_aborts"
  using held_ok [of "wire (7, First Text_kind True ''hello'') @ ''next frame''"] hello_wire_length
  by (intro two_frames_end_process [OF echo_ready sample_sendable(1),
        where rest = "''next frame''"]) simp_all

end
