(* ===== verification/Request_Steps.thy ===== *)
theory Request_Steps
  imports Parser_Execute Header_Name Header_Value
begin

text \<open>
  The loop of \<open>http_parser_execute\<close>, one byte at a time, for callbacks that return 0 and leave
  the parser alone (the locale \<open>listener\<close>): what a byte makes of the loop's variables, and from
  there what the method, the URL and the version of a request line make of them.
\<close>

subsection \<open>Positions of the loop\<close>

abbreviation no_marks :: "mark \<Rightarrow> nat option" where
  "no_marks \<equiv> \<lambda>_. None"

lemma no_marks_upd [simp]: "no_marks(m := None) = no_marks"
  by (rule ext) simp

abbreviation exec_at ::
  "nat \<Rightarrow> state \<Rightarrow> (mark \<Rightarrow> nat option) \<Rightarrow> 'u \<Rightarrow> http_parser \<Rightarrow> 32 word \<Rightarrow> char \<Rightarrow> 'u exec" where
  "exec_at p s mk w ps n c \<equiv>
     \<lparr>parser = ps\<lparr>nread := n\<rparr>, world = w, p_state = s, pos = p, ch = c, marks = mk\<rparr>"

text \<open>
  At the loop's test, before the byte at offset \<open>p\<close>: not more header bytes than bytes have been
  counted.
\<close>

definition at ::
  "nat \<Rightarrow> state \<Rightarrow> (mark \<Rightarrow> nat option) \<Rightarrow> 'u \<Rightarrow> http_parser \<Rightarrow> 'u exec \<Rightarrow> bool" where
  "at p s mk w ps e \<longleftrightarrow>
     (\<exists>n c. e = exec_at p s mk w ps n c \<and> unat n \<le> p) \<and> http_errno ps = HPE_OK"

text \<open>The count is written last.\<close>

lemma nread_last:
  "ps\<lparr>nread := n, index := x1\<rparr> = ps\<lparr>index := x1, nread := n\<rparr>"
  "ps\<lparr>nread := n, method := x2\<rparr> = ps\<lparr>method := x2, nread := n\<rparr>"
  "ps\<lparr>nread := n, flags := x3\<rparr> = ps\<lparr>flags := x3, nread := n\<rparr>"
  "ps\<lparr>nread := n, content_length := x4\<rparr> = ps\<lparr>content_length := x4, nread := n\<rparr>"
  "ps\<lparr>nread := n, state := x5\<rparr> = ps\<lparr>state := x5, nread := n\<rparr>"
  "ps\<lparr>nread := n, header_state := x6\<rparr> = ps\<lparr>header_state := x6, nread := n\<rparr>"
  "ps\<lparr>nread := n, http_major := x7\<rparr> = ps\<lparr>http_major := x7, nread := n\<rparr>"
  "ps\<lparr>nread := n, http_minor := x8\<rparr> = ps\<lparr>http_minor := x8, nread := n\<rparr>"
  "ps\<lparr>nread := n, upgrade := x9\<rparr> = ps\<lparr>upgrade := x9, nread := n\<rparr>"
  by simp_all

lemma drop_next: "drop p d = c # cs \<Longrightarrow> drop (Suc p) d = cs"
  by (simp add: drop_Suc drop_tl)

lemma drop_plus: "drop p d = xs \<Longrightarrow> drop (p + n) d = drop n xs"
  by (metis add.commute drop_drop)

lemma drop_more: "drop p d = xs @ ys \<Longrightarrow> drop (p + length xs) d = ys"
  by (metis add.commute append_eq_conv_conj drop_drop)

text \<open>The loop goes on as from another position that satisfies \<open>Q\<close>.\<close>

definition leads ::
  "'u http_parser_settings \<Rightarrow> string \<Rightarrow> 'u exec \<Rightarrow> ('u exec \<Rightarrow> bool) \<Rightarrow> bool" where
  "leads st d e Q \<longleftrightarrow> (\<exists>e'. exec_loop st d False e = exec_loop st d False e' \<and> Q e')"

lemma leads_refl: "Q e \<Longrightarrow> leads st d e Q"
  by (auto simp: leads_def)

lemma leads_trans: "leads st d e Q \<Longrightarrow> (\<And>e'. Q e' \<Longrightarrow> leads st d e' R) \<Longrightarrow> leads st d e R"
  unfolding leads_def by metis

lemma leads_mono: "leads st d e Q \<Longrightarrow> (\<And>e'. Q e' \<Longrightarrow> R e') \<Longrightarrow> leads st d e R"
  unfolding leads_def by blast

lemma exec_loop_True:
  "switch (p_state e) st d e = Break e1 \<Longrightarrow>
     exec_loop st d True e = exec_loop st d False (e1\<lparr>pos := pos e1 + 1\<rparr>)"
  "switch (p_state e) st d e = Reexecute e1 \<Longrightarrow> exec_loop st d True e = exec_loop st d True e1"
  by (subst exec_loop.simps, simp)+

lemma exec_loop_break:
  "switch s st d (exec_at p s mk w ps n c) = Break (exec_at q s' mk' w' ps' n' c') \<Longrightarrow>
     exec_loop st d True (exec_at p s mk w ps n c) =
       exec_loop st d False (exec_at (Suc q) s' mk' w' ps' n' c')"
  using exec_loop_True(1) [of "exec_at p s mk w ps n c" st d] by simp

lemma fetch_header:
  assumes "PARSING_HEADER s" and "drop p d = c # cs" and "unat n \<le> p" and "p < HTTP_MAX_HEADER_SIZE"
  shows "fetch d (exec_at p s mk w ps n c0) = Next (exec_at p s mk w ps (n + 1) c)"
    and "unat (n + 1) \<le> Suc p"
proof -
  have p: "p < length d" "d ! p = c" using assms(2)
    by (metis drop_eq_Nil linorder_not_le list.distinct(1)) (metis assms(2) nth_via_drop)
  have n: "unat (n + 1) = unat n + 1"
    using assms(3,4) by (simp add: unat_word_ariths HTTP_MAX_HEADER_SIZE_def)
  then show "unat (n + 1) \<le> Suc p" using assms(3) by simp
  have "\<not> n + 1 > of_nat HTTP_MAX_HEADER_SIZE"
    using n assms(3,4) by (simp add: word_less_nat_alt HTTP_MAX_HEADER_SIZE_def)
  with p assms(1) show "fetch d (exec_at p s mk w ps n c0) = Next (exec_at p s mk w ps (n + 1) c)"
    by (simp add: fetch_def COUNT_HEADER_SIZE_def upd_parser_def Let_def)
qed

lemma count_ok:
  assumes "unat n \<le> i" and "i + k \<le> Suc q" and "q < HTTP_MAX_HEADER_SIZE"
  shows "COUNT_HEADER_SIZE k (exec_at p s mk w ps n c) =
      Next (exec_at p s mk w ps (n + of_nat k) c)"
    and "unat (n + of_nat k) \<le> Suc q"
proof -
  have n: "unat (n + of_nat k) = unat n + k"
    using assms by (simp add: unat_word_ariths unat_of_nat HTTP_MAX_HEADER_SIZE_def)
  then show "unat (n + of_nat k) \<le> Suc q" using assms by simp
  have "\<not> n + of_nat k > of_nat HTTP_MAX_HEADER_SIZE"
    using n assms by (simp add: word_less_nat_alt HTTP_MAX_HEADER_SIZE_def)
  then show "COUNT_HEADER_SIZE k (exec_at p s mk w ps n c) =
      Next (exec_at p s mk w ps (n + of_nat k) c)"
    by (simp add: COUNT_HEADER_SIZE_def upd_parser_def Let_def)
qed

lemma header_step:
  assumes "at p s mk w ps e" and "PARSING_HEADER s" and "drop p d = c # cs"
    and "p < HTTP_MAX_HEADER_SIZE"
    and "\<And>n. unat n \<le> Suc p \<Longrightarrow> http_errno ps = HPE_OK \<Longrightarrow>
      \<exists>e'. exec_loop st d True (exec_at p s mk w ps n c) = exec_loop st d False e' \<and> Q e'"
  shows "leads st d e Q"
proof -
  obtain n c0 where e: "e = exec_at p s mk w ps n c0" "unat n \<le> p" "http_errno ps = HPE_OK"
    using assms(1) by (auto simp: at_def)
  note f = fetch_header [OF assms(2,3) e(2) assms(4)]
  have "p \<noteq> length d" using assms(3) by auto
  then have "exec_loop st d False e = exec_loop st d True (exec_at p s mk w ps (n + 1) c)"
    by (subst exec_loop.simps) (simp add: e(1) f(1))
  with assms(5) [OF f(2) e(3)] show ?thesis by (simp add: leads_def)
qed

lemma header_break:
  assumes "at p s mk w ps e" and "PARSING_HEADER s" and "drop p d = c # cs"
    and "p < HTTP_MAX_HEADER_SIZE"
    and "\<And>n. unat n \<le> Suc p \<Longrightarrow> http_errno ps = HPE_OK \<Longrightarrow>
      \<exists>n' c'. switch s st d (exec_at p s mk w ps n c) = Break (exec_at q s' mk' w' ps' n' c') \<and>
        unat n' \<le> Suc q \<and> http_errno ps' = HPE_OK"
  shows "leads st d e (at (Suc q) s' mk' w' ps')"
proof (rule header_step [OF assms(1-4)])
  fix n :: "32 word" assume "unat n \<le> Suc p" and "http_errno ps = HPE_OK"
  from assms(5) [OF this] obtain n' c' where
    "switch s st d (exec_at p s mk w ps n c) = Break (exec_at q s' mk' w' ps' n' c')"
    "unat n' \<le> Suc q" "http_errno ps' = HPE_OK" by blast
  then show "\<exists>e'. exec_loop st d True (exec_at p s mk w ps n c) = exec_loop st d False e' \<and>
      at (Suc q) s' mk' w' ps' e'"
    using exec_loop_True(1) [of "exec_at p s mk w ps n c" st d] by (auto simp: at_def)
qed

lemma header_byte:
  assumes "at p s mk w ps e" and "PARSING_HEADER s" and "drop p d = c # cs"
    and "p < HTTP_MAX_HEADER_SIZE" and "http_errno ps' = http_errno ps"
    and "\<And>n. http_errno ps = HPE_OK \<Longrightarrow>
      \<exists>c'. switch s st d (exec_at p s mk w ps n c) = Break (exec_at p s' mk' w' ps' n c')"
  shows "leads st d e (at (Suc p) s' mk' w' ps')"
  using assms(5,6) by (intro header_break [OF assms(1-4)]) metis

subsection \<open>Callbacks that only listen\<close>

datatype parser_event =
  Message_begin | Url string | Header_field string | Header_value string
| Headers_complete http_method bool | Body string | Message_complete

locale listener =
  fixes st :: "'u http_parser_settings"
    and hear :: "parser_event \<Rightarrow> 'u \<Rightarrow> 'u"
  assumes listens:
    "on_message_begin st = Some (\<lambda>ps w. (0, ps, hear Message_begin w))"
    "on_url st = Some (\<lambda>s ps w. (0, ps, hear (Url s) w))"
    "on_header_field st = Some (\<lambda>s ps w. (0, ps, hear (Header_field s) w))"
    "on_header_value st = Some (\<lambda>s ps w. (0, ps, hear (Header_value s) w))"
    "on_headers_complete st =
       Some (\<lambda>ps w. (0, ps, hear (Headers_complete (method ps) (upgrade ps)) w))"
    "on_body st = Some (\<lambda>s ps w. (0, ps, hear (Body s) w))"
    "on_message_complete st = Some (\<lambda>ps w. (0, ps, hear Message_complete w))"

lemmas step_simps =
  CALLBACK_NOTIFY_ER_def CALLBACK_DATA_ER_def run_callback_def CALLBACK_NOTIFY_def
  CALLBACK_DATA_def UPDATE_STATE_def upd_parser_def MARK_def Let_def PARSING_HEADER_def

text \<open>A part of the text of which the states make an automaton: each byte only changes the state.\<close>

lemma automaton_bytes:
  assumes "at p s mk w ps e" and "s \<in> S" and "drop p d = cs @ rest"
    and "foldl f s cs \<noteq> s_dead" and "p + length cs \<le> HTTP_MAX_HEADER_SIZE"
    and "\<And>s c p n. s \<in> S \<Longrightarrow> f s c \<noteq> s_dead \<Longrightarrow> f s c \<in> S \<and> PARSING_HEADER s \<and>
      switch s st d (exec_at p s mk w ps n c) = Break (exec_at p (f s c) mk w ps n c)"
    and "\<And>c. f s_dead c = s_dead"
  shows "leads st d e (at (p + length cs) (foldl f s cs) mk w ps)"
  using assms(1-5)
proof (induction cs arbitrary: p s e)
  case Nil
  then show ?case by (auto intro: leads_refl)
next
  case (Cons c cs)
  have dead: "foldl f s_dead xs = s_dead" for xs by (induction xs) (simp_all add: assms(7))
  have "f s c \<noteq> s_dead" using Cons.prems(4) dead by auto
  note f = assms(6) [OF Cons.prems(2) this]
  have "leads st d e (at (Suc p) (f s c) mk w ps)"
    using Cons.prems(3,5) f by (intro header_byte [OF Cons.prems(1)]) auto
  moreover have "leads st d e' (at (p + length (c # cs)) (foldl f s (c # cs)) mk w ps)"
    if "at (Suc p) (f s c) mk w ps e'" for e'
    using Cons.IH [OF that] f drop_next [of p d c] Cons.prems(3-5) by simp
  ultimately show ?case by (rule leads_trans)
qed

subsection \<open>The method\<close>

text \<open>The letters of a method, on the two fields the parser keeps of it.\<close>

fun method_run :: "string \<Rightarrow> http_method \<Rightarrow> 8 word \<Rightarrow> (http_method \<times> 8 word) option" where
  "method_run [] m i = Some (m, i)"
| "method_run (c # cs) m i =
     (if c = NUL \<or> c = SP then None
      else
        case lit_at (method_strings m) (unat i) of
          None \<Rightarrow> None
        | Some l \<Rightarrow>
            if c = l then method_run cs m (i + 1)
            else
              case switch_method m i c of
                None \<Rightarrow> None
              | Some m' \<Rightarrow> method_run cs m' (i + 1))"

lemma method_chars:
  assumes "at p s_req_method no_marks w ps e" and "drop p d = cs @ rest"
    and "method_run cs (method ps) (index ps) = Some (m, i)"
    and "p + length cs \<le> HTTP_MAX_HEADER_SIZE"
  shows "leads st d e
    (at (p + length cs) s_req_method no_marks w (ps\<lparr>method := m, index := i\<rparr>))"
  using assms
proof (induction cs arbitrary: p ps e)
  case Nil
  then show ?case by (auto intro!: leads_refl)
next
  case (Cons c cs)
  let ?m = "method ps" and ?i = "index ps"
  obtain l where l: "c \<noteq> NUL" "c \<noteq> SP" "lit_at (method_strings ?m) (unat ?i) = Some l"
    using Cons.prems(3) by (auto split: if_splits option.splits)
  obtain m' where m': "c = l \<and> m' = ?m \<or> c \<noteq> l \<and> switch_method ?m ?i c = Some m'"
    "method_run cs m' (?i + 1) = Some (m, i)"
    using Cons.prems(3) l by (auto split: if_splits option.splits)
  let ?ps = "ps\<lparr>method := m', index := ?i + 1\<rparr>"
  have "leads st d e (at (Suc p) s_req_method no_marks w ?ps)"
    using Cons.prems(2,4) l m'(1)
    by (intro header_byte [OF Cons.prems(1), of d c "cs @ rest"])
      (auto simp: PARSING_HEADER_def case_req_method_def next_index_def upd_parser_def nread_last)
  moreover have "leads st d e' (at (p + length (c # cs)) s_req_method no_marks w
      (ps\<lparr>method := m, index := i\<rparr>))" if "at (Suc p) s_req_method no_marks w ?ps e'" for e'
    using Cons.IH [OF that] drop_next [of p d c] Cons.prems(2,4) m'(2) by simp
  ultimately show ?case by (rule leads_trans)
qed

text \<open>From the first guess of its first letter, every method is found.\<close>

lemma method_strings_run:
  obtains c cs m0 where "method_strings m = c # cs" and "first_method c = Some m0"
    and "IS_ALPHA c" and "c \<noteq> CR" and "c \<noteq> LF"
    and "method_run cs m0 1 = Some (m, of_nat (length (c # cs)))" and "length (c # cs) < 20"
  by (cases m) (simp_all add: first_method_def switch_method_def lit_at_def char_eval)


subsection \<open>The URL\<close>

text \<open>In a state inside a URL, a byte that the automaton takes moves the automaton.\<close>

lemma switch_url:
  assumes "s \<in> url_states" and "parse_url_char s c \<noteq> s_dead"
  shows "switch s st d (exec_at p s mk w ps n c) =
    Break (exec_at p (parse_url_char s c) mk w ps n c)"
proof -
  have c: "c \<noteq> SP" "c \<noteq> CR" "c \<noteq> LF" using assms(2) by (auto simp: parse_url_char_def)
  have step: "url_step (exec_at p s mk w ps n c) = Break (exec_at p (parse_url_char s c) mk w ps n c)"
    using assms(2) by (simp add: url_step_def UPDATE_STATE_def)
  show ?thesis
    using assms(1) c step
    by (auto simp: url_states_def case_req_schema_def case_req_url_def)
qed

lemma url_states_header: "s \<in> url_states \<Longrightarrow> PARSING_HEADER s"
  by (auto simp: url_states_def PARSING_HEADER_def)

lemma parse_url_char_absorbed [simp]: "parse_url_char s_dead c = s_dead"
  by (simp add: parse_url_char_def)

lemma url_chars:
  assumes "at p s mk w ps e" and "s \<in> url_states" and "drop p d = cs @ rest"
    and "foldl parse_url_char s cs \<noteq> s_dead" and "p + length cs \<le> HTTP_MAX_HEADER_SIZE"
  shows "leads st d e (at (p + length cs) (foldl parse_url_char s cs) mk w ps)"
proof (rule automaton_bytes [OF assms])
  fix s c p n assume "s \<in> url_states" and "parse_url_char s c \<noteq> s_dead"
  then show "parse_url_char s c \<in> url_states \<and> PARSING_HEADER s \<and>
      switch s st d (exec_at p s mk w ps n c) = Break (exec_at p (parse_url_char s c) mk w ps n c)"
    by (intro conjI parse_url_char_url_state url_states_header switch_url)
qed simp

text \<open>The states in which a URL may end.\<close>

definition url_end_states :: "state set" where
  "url_end_states =
     {s_req_server, s_req_server_with_at, s_req_path, s_req_query_string_start,
      s_req_query_string, s_req_fragment_start, s_req_fragment}"

lemma url_end_states: "url_end_states \<subseteq> url_states" "s_dead \<notin> url_end_states"
  by (auto simp: url_end_states_def url_states_def)

text \<open>The URLs a request line can hold: the automaton, from its start, ends in such a state.\<close>

definition url_start :: "http_method \<Rightarrow> state" where
  "url_start m = (if m = HTTP_CONNECT then s_req_server_start else s_req_spaces_before_url)"

definition request_url :: "http_method \<Rightarrow> string \<Rightarrow> bool" where
  "request_url m url \<longleftrightarrow> url \<noteq> [] \<and> foldl parse_url_char (url_start m) url \<in> url_end_states"

subsection \<open>The version\<close>

text \<open>Around the two digits of the version.\<close>

definition version_step :: "state \<Rightarrow> char \<Rightarrow> state" where
  "version_step s c =
     (if s = s_req_http_start \<and> c = CHR ''H'' then s_req_http_H
      else if s = s_req_http_H \<and> c = CHR ''T'' then s_req_http_HT
      else if s = s_req_http_HT \<and> c = CHR ''T'' then s_req_http_HTT
      else if s = s_req_http_HTT \<and> c = CHR ''P'' then s_req_http_HTTP
      else if s = s_req_http_HTTP \<and> c = CHR ''/'' then s_req_first_http_major
      else if s = s_req_http_major \<and> c = CHR ''.'' then s_req_first_http_minor
      else if s = s_req_http_minor \<and> c = CR then s_req_line_almost_done
      else if s = s_req_line_almost_done \<and> c = LF then s_header_field_start
      else s_dead)"

lemma version_step_cases:
  "version_step s c \<noteq> s_dead \<Longrightarrow> (s, c, version_step s c) \<in>
     {(s_req_http_start, CHR ''H'', s_req_http_H), (s_req_http_H, CHR ''T'', s_req_http_HT),
      (s_req_http_HT, CHR ''T'', s_req_http_HTT), (s_req_http_HTT, CHR ''P'', s_req_http_HTTP),
      (s_req_http_HTTP, CHR ''/'', s_req_first_http_major),
      (s_req_http_major, CHR ''.'', s_req_first_http_minor),
      (s_req_http_minor, CR, s_req_line_almost_done),
      (s_req_line_almost_done, LF, s_header_field_start)}"
  by (simp add: version_step_def split: if_splits)

lemma switch_version:
  assumes "version_step s c \<noteq> s_dead"
  shows "PARSING_HEADER s \<and>
    switch s st d (exec_at p s mk w ps n c) = Break (exec_at p (version_step s c) mk w ps n c)"
proof -
  have "(s, c, t) \<in> {(s_req_http_start, CHR ''H'', s_req_http_H), (s_req_http_H, CHR ''T'', s_req_http_HT),
      (s_req_http_HT, CHR ''T'', s_req_http_HTT), (s_req_http_HTT, CHR ''P'', s_req_http_HTTP),
      (s_req_http_HTTP, CHR ''/'', s_req_first_http_major),
      (s_req_http_major, CHR ''.'', s_req_first_http_minor),
      (s_req_http_minor, CR, s_req_line_almost_done),
      (s_req_line_almost_done, LF, s_header_field_start)} \<Longrightarrow>
    PARSING_HEADER s \<and> switch s st d (exec_at p s mk w ps n c) = Break (exec_at p t mk w ps n c)" for t
    by (elim insertE emptyE; simp add: expect_char_def STRICT_CHECK_def case_req_http_start_def
        case_req_http_major_def case_req_http_minor_def case_req_line_almost_done_def
        UPDATE_STATE_def PARSING_HEADER_def)
  from this [OF version_step_cases [OF assms]] show ?thesis .
qed

lemma version_chars:
  assumes "at p s mk w ps e" and "drop p d = cs @ rest"
    and "foldl version_step s cs \<noteq> s_dead" and "p + length cs \<le> HTTP_MAX_HEADER_SIZE"
  shows "leads st d e (at (p + length cs) (foldl version_step s cs) mk w ps)"
proof (rule automaton_bytes [OF assms(1) UNIV_I assms(2-4)])
  fix s c p n assume "version_step s c \<noteq> s_dead"
  then show "version_step s c \<in> UNIV \<and> PARSING_HEADER s \<and>
      switch s st d (exec_at p s mk w ps n c) = Break (exec_at p (version_step s c) mk w ps n c)"
    by (intro conjI UNIV_I switch_version [THEN conjunct1] switch_version [THEN conjunct2])
qed (simp add: version_step_def)

text \<open>\<open>HTTP/1.1\<close> and the end of the line.\<close>

lemma version_text:
  assumes "at p s_req_http_start no_marks w ps e"
    and "drop p d = ''HTTP/1.1'' @ [CR, LF] @ rest" and "p + 10 \<le> HTTP_MAX_HEADER_SIZE"
  shows "leads st d e (at (p + 10) s_header_field_start no_marks w
    (ps\<lparr>http_major := 1, http_minor := 1\<rparr>))"
proof -
  let ?ps1 = "ps\<lparr>http_major := 1\<rparr>" and ?ps2 = "ps\<lparr>http_major := 1, http_minor := 1\<rparr>"
  have digit: "digit_of (CHR ''1'') = (1 :: 16 word)" by (simp add: digit_of_def)
  have d: "drop p d = ''HTTP/'' @ ''1.1'' @ [CR, LF] @ rest"
    "drop (p + 5) d = CHR ''1'' # ''.1'' @ [CR, LF] @ rest"
    "drop (p + 6) d = ''.'' @ CHR ''1'' # [CR, LF] @ rest"
    "drop (p + 7) d = CHR ''1'' # [CR, LF] @ rest" "drop (p + 8) d = [CR, LF] @ rest"
    by (simp_all add: drop_plus [OF assms(2)] assms(2))
  have 1: "leads st d e (at (p + 5) s_req_first_http_major no_marks w ps)"
    using version_chars [OF assms(1) d(1)] assms(3)
    by (simp add: version_step_def eval_nat_numeral)
  have 2: "leads st d e' (at (p + 6) s_req_http_major no_marks w ?ps1)"
    if "at (p + 5) s_req_first_http_major no_marks w ps e'" for e'
    using header_byte [OF that _ d(2), where ps' = ?ps1 and s' = s_req_http_major] assms(3) digit
    by (auto simp: PARSING_HEADER_def case_req_first_http_major_def UPDATE_STATE_def
        upd_parser_def nread_last add.commute)
  have 3: "leads st d e' (at (p + 7) s_req_first_http_minor no_marks w ?ps1)"
    if "at (p + 6) s_req_http_major no_marks w ?ps1 e'" for e'
    using version_chars [OF that d(3)] assms(3)
    by (simp add: version_step_def eval_nat_numeral)
  have 4: "leads st d e' (at (p + 8) s_req_http_minor no_marks w ?ps2)"
    if "at (p + 7) s_req_first_http_minor no_marks w ?ps1 e'" for e'
    using header_byte [OF that _ d(4), where ps' = ?ps2 and s' = s_req_http_minor] assms(3) digit
    by (auto simp: PARSING_HEADER_def case_req_first_http_minor_def UPDATE_STATE_def
        upd_parser_def nread_last char_eval add.commute)
  have 5: "leads st d e' (at (p + 10) s_header_field_start no_marks w ?ps2)"
    if "at (p + 8) s_req_http_minor no_marks w ?ps2 e'" for e'
    using version_chars [OF that d(5)] assms(3)
    by (simp add: version_step_def eval_nat_numeral)
  show ?thesis by (rule leads_trans [OF leads_trans [OF leads_trans [OF leads_trans [OF 1 2] 3] 4] 5])
qed

text \<open>
  A whole request in a buffer: which callbacks \<open>http_parser_execute\<close> calls for it, and in which
  order. The request line, the header lines, the end of the headers and the body are taken one
  after the other; a listener's functions are applied to the world in the order of the calls.
\<close>

subsection \<open>The request line\<close>

definition request_line :: "http_method \<Rightarrow> string \<Rightarrow> string" where
  "request_line m url = http_method_str m @ SP # url @ SP # ''HTTP/1.1'' @ [CR, LF]"

text \<open>What the header lines do not change, apart from a \<open>Content-Length\<close>.\<close>

definition head ::
  "http_parser \<Rightarrow> http_parser_type \<times> http_method \<times> flag_word \<times> 64 word \<times> 16 word \<times> 16 word"
where
  "head ps = (ptype ps, method ps, flags ps, content_length ps, http_major ps, http_minor ps)"

context listener
begin

lemma method_text:
  assumes "at p s_start_req no_marks w ps e" and "drop p d = http_method_str m @ rest"
    and "p + length (http_method_str m) \<le> HTTP_MAX_HEADER_SIZE"
  shows "leads st d e (\<lambda>e'. \<exists>ps'.
    at (p + length (http_method_str m)) s_req_method no_marks (hear Message_begin w) ps' e' \<and>
    (ptype ps', method ps', flags ps', content_length ps') = (ptype ps, m, 0, ULLONG_MAX) \<and>
    index ps' = of_nat (length (http_method_str m)) \<and> length (http_method_str m) < 20)"
proof -
  obtain c cs m0 where m: "method_strings m = c # cs" "first_method c = Some m0" "IS_ALPHA c"
    "c \<noteq> CR" "c \<noteq> LF" "method_run cs m0 1 = Some (m, of_nat (length (c # cs)))"
    "length (c # cs) < 20"
    by (rule method_strings_run [of m])
  have d: "drop p d = c # cs @ rest" using assms(2) m(1) by (simp add: http_method_str_def)
  have len: "p + length (c # cs) \<le> HTTP_MAX_HEADER_SIZE"
    using assms(3) m(1) by (simp add: http_method_str_def)
  let ?ps1 = "(reset_message ps)\<lparr>method := m0, index := 1, state := s_req_method\<rparr>"
  have 1: "leads st d e (at (Suc p) s_req_method no_marks (hear Message_begin w) ?ps1)"
    using len
    by (intro header_byte [OF assms(1) _ d])
      (auto simp: case_start_req_def step_simps listens m nread_last reset_message_def)
  have 2: "leads st d e' (at (Suc p + length cs) s_req_method no_marks (hear Message_begin w)
      (?ps1\<lparr>method := m, index := of_nat (length (c # cs))\<rparr>))"
    if "at (Suc p) s_req_method no_marks (hear Message_begin w) ?ps1 e'" for e'
    using len m by (intro method_chars [OF that drop_next [OF d]]) auto
  show ?thesis
    using m(7) by (intro leads_mono [OF leads_trans [OF 1 2]])
      (auto simp: http_method_str_def m(1) reset_message_def intro!: exI)
qed

lemma callback_data:
  assumes "http_errno ps = HPE_OK" and "drop i d = text @ rest"
  shows "CALLBACK_DATA st d url_mark (exec_at (i + length text) s (no_marks(url_mark := Some i)) w ps n c) =
      Next (exec_at (i + length text) s no_marks (hear (Url text) w) (ps\<lparr>state := s\<rparr>) n c)"
    and "CALLBACK_DATA st d header_field_mark
        (exec_at (i + length text) s (no_marks(header_field_mark := Some i)) w ps n c) =
      Next (exec_at (i + length text) s no_marks (hear (Header_field text) w) (ps\<lparr>state := s\<rparr>) n c)"
    and "CALLBACK_DATA st d header_value_mark
        (exec_at (i + length text) s (no_marks(header_value_mark := Some i)) w ps n c) =
      Next (exec_at (i + length text) s no_marks (hear (Header_value text) w) (ps\<lparr>state := s\<rparr>) n c)"
  using assms by (simp_all add: step_simps listens nread_last)

lemma url_text:
  assumes "at p s_req_spaces_before_url no_marks w ps e" and "drop p d = url @ SP # rest"
    and "request_url (method ps) url" and "p + length url < HTTP_MAX_HEADER_SIZE"
  shows "leads st d e (at (Suc (p + length url)) s_req_http_start no_marks (hear (Url url) w)
    (ps\<lparr>state := s_req_http_start\<rparr>))"
proof -
  let ?mk = "no_marks(url_mark := Some p)"
  obtain u us where url: "url = u # us" using assms(3) by (cases url) (auto simp: request_url_def)
  let ?s1 = "parse_url_char (url_start (method ps)) u" and ?s2 = "foldl parse_url_char (url_start (method ps)) url"
  have s2: "?s2 \<in> url_end_states" "?s2 \<noteq> s_dead" and s2': "?s2 = foldl parse_url_char ?s1 us"
    using assms(3) url_end_states(2) by (auto simp: request_url_def url)
  have "foldl parse_url_char s_dead xs = s_dead" for xs by (induction xs) simp_all
  then have s1: "?s1 \<noteq> s_dead" using s2(2) s2' by metis
  then have u: "u \<noteq> SP" by (auto simp: parse_url_char_def)
  have d: "drop p d = u # us @ SP # rest" using assms(2) by (simp add: url)
  have 1: "leads st d e (at (Suc p) ?s1 ?mk w ps)"
    using assms(4) s1 u
    by (intro header_byte [OF assms(1) _ d])
      (auto simp: case_req_spaces_before_url_def url_step_def step_simps url_start_def)
  have 2: "leads st d e' (at (Suc p + length us) ?s2 ?mk w ps)" if "at (Suc p) ?s1 ?mk w ps e'" for e'
    unfolding s2' using s2(2) assms(4) s2' url
    by (intro url_chars [OF that parse_url_char_url_state [OF s1] drop_next [OF d]]) auto
  have sw: "switch s st d e = case_req_url st d e" if "s \<in> url_end_states" for s e
    using that by (auto simp: url_end_states_def)
  have 3: "leads st d e' (at (Suc (p + length url)) s_req_http_start no_marks (hear (Url url) w)
      (ps\<lparr>state := s_req_http_start\<rparr>))" if "at (Suc p + length us) ?s2 ?mk w ps e'" for e'
  proof (rule header_byte)
    show "at (p + length url) ?s2 ?mk w ps e'" using that by (simp add: url)
    show "PARSING_HEADER ?s2" using s2(1) url_end_states(1) url_states_header by blast
    show "drop (p + length url) d = SP # rest" using drop_more [OF assms(2)] .
    show "\<exists>c'. switch ?s2 st d (exec_at (p + length url) ?s2 ?mk w ps n SP) =
        Break (exec_at (p + length url) s_req_http_start no_marks (hear (Url url) w)
          (ps\<lparr>state := s_req_http_start\<rparr>) n c')" if "http_errno ps = HPE_OK" for n
      using callback_data(1) [OF that assms(2)] sw [OF s2(1)]
      by (simp add: case_req_url_def UPDATE_STATE_def)
  qed (use assms(4) in auto)
  show ?thesis by (rule leads_trans [OF leads_trans [OF 1 2] 3])
qed

lemma request_line_text:
  assumes "at p s_start_req no_marks w ps e" and "drop p d = request_line m url @ rest"
    and "request_url m url" and "p + length (request_line m url) \<le> HTTP_MAX_HEADER_SIZE"
  shows "leads st d e (\<lambda>e'. \<exists>ps'. at (p + length (request_line m url)) s_header_field_start
    no_marks (hear (Url url) (hear Message_begin w)) ps' e' \<and> head ps' = (ptype ps, m, 0, ULLONG_MAX, 1, 1))"
proof -
  let ?ms = "http_method_str m" and ?v = "''HTTP/1.1'' @ [CR, LF] @ rest"
  have len: "length (request_line m url) = length ?ms + length url + 12"
    by (simp add: request_line_def)
  have d: "drop p d = ?ms @ SP # url @ SP # ?v"
    using assms(2) by (simp add: request_line_def)
  note d1 = drop_more [OF d] and d2 = drop_next [OF drop_more [OF d]]
  note d3 = drop_next [OF drop_more [OF d2]]
  let ?p = "p + length ?ms"
  have 1: "leads st d e (\<lambda>e'. \<exists>ps'. at ?p s_req_method no_marks (hear Message_begin w) ps' e' \<and>
      (ptype ps', method ps', flags ps', content_length ps') = (ptype ps, m, 0, ULLONG_MAX) \<and>
      index ps' = of_nat (length ?ms) \<and> length ?ms < 20)"
    using assms(4) len by (intro method_text [OF assms(1) d]) simp
  show ?thesis
  proof (rule leads_trans [OF 1])
    fix e1 assume "\<exists>ps'. at ?p s_req_method no_marks (hear Message_begin w) ps' e1 \<and>
      (ptype ps', method ps', flags ps', content_length ps') = (ptype ps, m, 0, ULLONG_MAX) \<and>
      index ps' = of_nat (length ?ms) \<and> length ?ms < 20"
    then obtain ps1 where e1: "at ?p s_req_method no_marks (hear Message_begin w) ps1 e1"
      "ptype ps1 = ptype ps" "method ps1 = m" "flags ps1 = 0" "content_length ps1 = ULLONG_MAX"
      "unat (index ps1) = length ?ms" by (auto simp: unat_of_nat)
    let ?ps2 = "ps1\<lparr>index := index ps1 + 1\<rparr>"
    have 2: "leads st d e1 (at (Suc ?p) s_req_spaces_before_url no_marks (hear Message_begin w) ?ps2)"
      using assms(4) len e1(6)
      by (intro header_byte [OF e1(1) _ d1])
        (auto simp: case_req_method_def lit_at_def next_index_def step_simps nread_last e1(3)
          http_method_str_def)
    let ?ps3 = "?ps2\<lparr>state := s_req_http_start\<rparr>" and ?w = "hear (Url url) (hear Message_begin w)"
    have 3: "leads st d e2 (at (Suc (Suc ?p + length url)) s_req_http_start no_marks ?w ?ps3)"
      if "at (Suc ?p) s_req_spaces_before_url no_marks (hear Message_begin w) ?ps2 e2" for e2
      using assms(3,4) len e1(3) by (intro url_text [OF that d2]) simp_all
    have 4: "leads st d e3 (at (Suc (Suc ?p + length url) + 10) s_header_field_start no_marks ?w
        (?ps3\<lparr>http_major := 1, http_minor := 1\<rparr>))"
      if "at (Suc (Suc ?p + length url)) s_req_http_start no_marks ?w ?ps3 e3" for e3
      using assms(4) len by (intro version_text [OF that d3]) simp
    show "leads st d e1 (\<lambda>e'. \<exists>ps'. at (p + length (request_line m url)) s_header_field_start
        no_marks ?w ps' e' \<and> head ps' = (ptype ps, m, 0, ULLONG_MAX, 1, 1))"
      by (intro leads_mono [OF leads_trans [OF leads_trans [OF 2 3] 4]]
          exI [of _ "?ps3\<lparr>http_major := 1, http_minor := 1\<rparr>"])
        (simp_all add: e1 len head_def ac_simps)
  qed
qed

end

end
