(* ===== verification/Request_Headers.thy ===== *)
theory Request_Headers
  imports Request_Steps
begin

text \<open>
  The header lines of a request in a buffer: a header that the parser does not look at, or a
  \<open>Content-Length\<close>, is reported by its name and its value; after each of them, and before the
  first, the parser is at the start of a line.
\<close>

definition at_line :: "nat \<Rightarrow> 'u \<Rightarrow> http_parser \<Rightarrow> 'u exec \<Rightarrow> bool" where
  "at_line p w ps e \<longleftrightarrow>
     at p s_header_field_start no_marks w ps e \<or>
     at p s_header_value_lws no_marks w ps e \<and> header_state ps \<in> {h_general, h_content_length}"

definition header_text :: "string \<times> string \<Rightarrow> string" where
  "header_text h = fst h @ '': '' @ snd h @ [CR, LF]"

definition is_token :: "string \<Rightarrow> bool" where
  "is_token s \<longleftrightarrow> s \<noteq> [] \<and> list_all (\<lambda>c. TOKEN c \<noteq> NUL) s"

definition is_value :: "string \<Rightarrow> bool" where
  "is_value v \<longleftrightarrow> v \<noteq> [] \<and> hd v \<notin> {SP, TAB} \<and> list_all (\<lambda>c. c \<noteq> CR \<and> c \<noteq> LF) v"

lemma TOKEN_plain: "TOKEN c \<noteq> NUL \<Longrightarrow> c \<noteq> SP \<and> c \<noteq> TAB \<and> c \<noteq> CR \<and> c \<noteq> LF"
  by (auto simp: char_eval)

text \<open>A byte at the start of a line is read in \<open>s_header_field_start\<close>.\<close>

lemma line_byte:
  assumes "at_line p w ps e" and "drop p d = c # cs" and "p < HTTP_MAX_HEADER_SIZE"
    and "c \<noteq> SP" and "c \<noteq> TAB"
    and "\<And>n. http_errno ps = HPE_OK \<Longrightarrow> \<exists>c'. case_header_field_start
      (exec_at p s_header_field_start no_marks w ps n c) = Break (exec_at p s' mk' w' ps' n c')"
    and "http_errno ps' = http_errno ps"
  shows "leads st d e (at (Suc p) s' mk' w' ps')"
proof (cases "at p s_header_field_start no_marks w ps e")
  case True
  then show ?thesis
    using assms(2,3,6,7) by (intro header_byte [OF True]) (auto simp: PARSING_HEADER_def)
next
  case False
  with assms(1) have lws: "at p s_header_value_lws no_marks w ps e"
    "header_state ps \<in> {h_general, h_content_length}" by (auto simp: at_line_def)
  show ?thesis
  proof (rule header_step [OF lws(1) _ assms(2,3)])
    fix n :: "32 word" assume n: "unat n \<le> Suc p" "http_errno ps = HPE_OK"
    let ?e1 = "exec_at p s_header_value_lws no_marks w ps n c"
    let ?e2 = "exec_at p s_header_field_start no_marks w ps n c"
    obtain c' where c': "case_header_field_start ?e2 = Break (exec_at p s' mk' w' ps' n c')"
      using assms(6) [OF n(2)] by blast
    have "switch s_header_value_lws st d ?e1 = Reexecute ?e2"
      using lws(2) assms(4,5) by (auto simp: case_header_value_lws_def UPDATE_STATE_def upd_parser_def)
    then have "exec_loop st d True ?e1 = exec_loop st d True ?e2"
      by (intro exec_loop_True) simp
    also have "\<dots> = exec_loop st d False (exec_at (Suc p) s' mk' w' ps' n c')"
      using exec_loop_True(1) [of ?e2 st d] c' by simp
    finally show "\<exists>e'. exec_loop st d True ?e1 = exec_loop st d False e' \<and>
        at (Suc p) s' mk' w' ps' e'"
      using n assms(7) by (auto simp: at_def)
  qed (simp add: PARSING_HEADER_def)
qed

context listener
begin

lemma name_text:
  assumes "at_line p w ps e" and "drop p d = n @ CHR '':'' # rest" and "is_token n"
    and "p + length n < HTTP_MAX_HEADER_SIZE"
  shows "leads st d e (\<lambda>e'. \<exists>ps'. at (Suc (p + length n)) s_header_value_discard_ws no_marks
      (hear (Header_field n) w) ps' e' \<and> head ps' = head ps \<and>
      settle (header_state ps') = header_kind (map TOKEN n) \<and>
      header_state ps' \<noteq> h_matching_connection_token_start)"
proof -
  obtain x xs where n: "n = x # xs" using assms(3) by (cases n) (auto simp: is_token_def)
  have tok: "TOKEN x \<noteq> NUL" "\<forall>c \<in> set xs. TOKEN c \<noteq> NUL"
    using assms(3) by (auto simp: n is_token_def list_all_iff)
  note x = TOKEN_plain [OF tok(1)]
  have d: "drop p d = x # xs @ CHR '':'' # rest" using assms(2) by (simp add: n)
  let ?mk = "no_marks(header_field_mark := Some p)"
  let ?ps1 = "ps\<lparr>index := 0, header_state := first_header_state (TOKEN x)\<rparr>"
  have 1: "leads st d e (at (Suc p) s_header_field ?mk w ?ps1)"
    using assms(4) x tok(1)
    by (intro line_byte [OF assms(1) d])
      (auto simp: case_header_field_start_def step_simps nread_last)
  show ?thesis
  proof (rule leads_trans [OF 1])
    fix e1 assume e1: "at (Suc p) s_header_field ?mk w ?ps1 e1"
    obtain c2 cs2 where d2: "drop (Suc p) d = c2 # cs2" "c2 # cs2 = xs @ CHR '':'' # rest"
      using drop_next [OF d] by (cases "xs @ CHR '':'' # rest") auto
    show "leads st d e1 (\<lambda>e'. \<exists>ps'. at (Suc (p + length n)) s_header_value_discard_ws no_marks
      (hear (Header_field n) w) ps' e' \<and> head ps' = head ps \<and>
      settle (header_state ps') = header_kind (map TOKEN n) \<and>
      header_state ps' \<noteq> h_matching_connection_token_start)"
    proof (rule header_step [OF e1 _ d2(1)])
      fix k :: "32 word" assume k: "unat k \<le> Suc (Suc p)" "http_errno ?ps1 = HPE_OK"
      obtain ps2 where ps2: "header_field_loop (xs @ CHR '':'' # rest) (?ps1\<lparr>nread := k\<rparr>) 0 x =
            Some (ps2, length xs, CHR '':'')"
        "settle (header_state ps2) = header_kind (map TOKEN (x # xs))"
        "header_state ps2 \<noteq> h_matching_connection_token_start"
        by (rule header_field_loop_name [OF tok, of "?ps1\<lparr>nread := k\<rparr>" rest]) simp_all
      define i h where ih: "i = index ps2" "h = header_state ps2"
      let ?ps3 = "ps\<lparr>index := i, header_state := h\<rparr>"
      have frame: "ps2 = ?ps3\<lparr>nread := k\<rparr>"
        using header_field_loop_frame [OF ps2(1)] by (simp add: nread_last flip: ih)
      have loop: "header_field_loop (drop (Suc p) d) (?ps1\<lparr>nread := k\<rparr>) 0 c2 =
          Some (?ps3\<lparr>nread := k\<rparr>, length xs, CHR '':'')"
        using ps2(1) unfolding frame d2(1) d2(2) [symmetric]
        by (subst header_field_loop_last [of c2 cs2 _ 0 c2 x])
      let ?q = "p + length n" and ?k = "k + of_nat (length xs)"
      have count: "COUNT_HEADER_SIZE (length xs)
          (exec_at ?q s_header_field ?mk w ?ps3 k (CHR '':'')) =
          Next (exec_at ?q s_header_field ?mk w ?ps3 ?k (CHR '':''))" "unat ?k \<le> Suc ?q"
        using k(1) assms(4) n
        by (intro count_ok(1) [of k "Suc (Suc p)" _ ?q] count_ok(2) [of k "Suc (Suc p)"]; simp)+
      have q: "drop ?q d = CHR '':'' # rest" using drop_more [OF assms(2)] .
      then have "?q \<noteq> length d" by auto
      moreover have "CALLBACK_DATA st d header_field_mark
          (exec_at ?q s_header_value_discard_ws ?mk w ?ps3 ?k (CHR '':'')) =
        Next (exec_at ?q s_header_value_discard_ws no_marks (hear (Header_field n) w)
          (?ps3\<lparr>state := s_header_value_discard_ws\<rparr>) ?k (CHR '':''))"
        using k(2) by (intro callback_data(2) [OF _ assms(2)]) simp
      ultimately have "switch s_header_field st d (exec_at (Suc p) s_header_field ?mk w ?ps1 k c2) =
          Break (exec_at ?q s_header_value_discard_ws no_marks (hear (Header_field n) w)
          (?ps3\<lparr>state := s_header_value_discard_ws\<rparr>) ?k (CHR '':''))"
        using count(1) n by (simp add: case_header_field_def loop UPDATE_STATE_def)
      then have "exec_loop st d True (exec_at (Suc p) s_header_field ?mk w ?ps1 k c2) =
        exec_loop st d False (exec_at (Suc ?q) s_header_value_discard_ws no_marks (hear (Header_field n) w)
          (?ps3\<lparr>state := s_header_value_discard_ws\<rparr>) ?k (CHR '':''))"
        by (rule exec_loop_break)
      then show "\<exists>e'. exec_loop st d True (exec_at (Suc p) s_header_field ?mk w ?ps1 k c2) =
          exec_loop st d False e' \<and> (\<exists>ps'. at (Suc ?q) s_header_value_discard_ws no_marks
          (hear (Header_field n) w) ps' e' \<and> head ps' = head ps \<and>
          settle (header_state ps') = header_kind (map TOKEN n) \<and>
          header_state ps' \<noteq> h_matching_connection_token_start)"
        using count(2) k(2) ps2(2,3) [folded ih] n
        by (intro exI [of _ "exec_at (Suc ?q) s_header_value_discard_ws no_marks (hear (Header_field n) w)
            (?ps3\<lparr>state := s_header_value_discard_ws\<rparr>) ?k (CHR '':'')"] conjI
            exI [of _ "?ps3\<lparr>state := s_header_value_discard_ws\<rparr>"])
          (auto simp: at_def head_def)
    qed (use assms(4) n in \<open>auto simp: PARSING_HEADER_def\<close>)
  qed
qed

lemma value_text:
  assumes "at p s_header_value_discard_ws no_marks w ps e"
    and "drop p d = (v # vs) @ CR # LF # rest" and "is_value (v # vs)"
    and first: "\<And>k. header_value_first v (ps\<lparr>index := 0, nread := k\<rparr>) = Some (ps1\<lparr>nread := k\<rparr>)"
    and loop: "\<And>k. value_loop_ref (vs @ CR # LF # rest) (Suc p) (header_state ps1) (ps1\<lparr>nread := k\<rparr>) =
      (Stop_CR, p + length (v # vs), h, ps2\<lparr>nread := k\<rparr>)"
    and "http_errno ps1 = http_errno ps" and "http_errno ps2 = http_errno ps"
    and "length d \<le> HTTP_MAX_HEADER_SIZE"
  shows "leads st d e (at (p + length (v # vs) + 2) s_header_value_lws no_marks (hear (Header_value (v # vs)) w)
    (ps2\<lparr>header_state := h, state := s_header_almost_done\<rparr>))"
proof -
  let ?mk = "no_marks(header_value_mark := Some p)" and ?q = "p + length (v # vs)"
  let ?ps3 = "ps2\<lparr>header_state := h, state := s_header_almost_done\<rparr>" and ?w = "hear (Header_value (v # vs)) w"
  have v: "v \<noteq> SP" "v \<noteq> TAB" "v \<noteq> CR" "v \<noteq> LF" using assms(3) by (auto simp: is_value_def)
  have q: "drop ?q d = CR # LF # rest" using drop_more [OF assms(2)] .
  have len: "?q + 2 \<le> length d"
    using arg_cong [OF q, of length] by simp
  have d: "drop p d = v # vs @ CR # LF # rest" using assms(2) by simp
  have 1: "leads st d e (at (Suc p) s_header_value ?mk w ps1)"
    using v assms(6,8) len
    by (intro header_byte [OF assms(1) _ d])
      (auto simp: case_header_value_discard_ws_def case_header_value_start_def step_simps first
        nread_last)
  have 2: "leads st d e1 (at (Suc ?q) s_header_almost_done no_marks ?w ?ps3)"
    if e1: "at (Suc p) s_header_value ?mk w ps1 e1" for e1
  proof -
    obtain c2 cs2 where d2: "drop (Suc p) d = c2 # cs2" "c2 # cs2 = vs @ CR # LF # rest"
      using drop_next [OF d] by (cases "vs @ CR # LF # rest") auto
    show ?thesis
    proof (rule header_break [OF e1 _ d2(1)])
      fix k :: "32 word" assume k: "unat k \<le> Suc (Suc p)" "http_errno ps1 = HPE_OK"
      let ?k = "k + of_nat (length vs)"
      have "drop_char (header_value_loop d (Suc p) (header_state ps1) (ps1\<lparr>nread := k\<rparr>) c2) =
          (Stop_CR, ?q, h, ps2\<lparr>nread := k\<rparr>)"
        using header_value_loop_ref [of "Suc p" d "header_state ps1" "ps1\<lparr>nread := k\<rparr>" c2]
          loop [of k] assms(8) len d2 by simp
      then obtain c' where l: "header_value_loop d (Suc p) (header_state ps1) (ps1\<lparr>nread := k\<rparr>) c2 =
          (Stop_CR, ?q, h, ps2\<lparr>nread := k\<rparr>, c')"
        by (cases "header_value_loop d (Suc p) (header_state ps1) (ps1\<lparr>nread := k\<rparr>) c2")
          (auto simp: drop_char_def)
      have cb: "CALLBACK_DATA st d header_value_mark
          (exec_at ?q s_header_almost_done ?mk w (ps2\<lparr>header_state := h\<rparr>) k c') =
        Next (exec_at ?q s_header_almost_done no_marks ?w ?ps3 k c')"
        using k(2) assms(6,7) by (intro callback_data(3) [OF _ assms(2)]) simp
      have count: "COUNT_HEADER_SIZE (length vs) (exec_at ?q s_header_almost_done no_marks ?w ?ps3 k c') =
          Next (exec_at ?q s_header_almost_done no_marks ?w ?ps3 ?k c')" "unat ?k \<le> Suc ?q"
        using k(1) assms(8) len
        by (intro count_ok(1) [of k "Suc (Suc p)" _ ?q] count_ok(2) [of k "Suc (Suc p)"]; simp)+
      have st: "ps\<lparr>state := a, header_state := b\<rparr> = ps\<lparr>header_state := b, state := a\<rparr>"
        for ps :: http_parser and a b by simp
      have "switch s_header_value st d (exec_at (Suc p) s_header_value ?mk w ps1 k c2) =
          Break (exec_at ?q s_header_almost_done no_marks ?w ?ps3 ?k c')"
        using cb count(1) len
        by (simp add: case_header_value_def l UPDATE_STATE_def upd_parser_def nread_last st Let_def)
      then show "\<exists>n' c'. switch s_header_value st d (exec_at (Suc p) s_header_value ?mk w ps1 k c2) =
          Break (exec_at ?q s_header_almost_done no_marks ?w ?ps3 n' c') \<and> unat n' \<le> Suc ?q \<and>
          http_errno ?ps3 = HPE_OK"
        using count(2) k(2) assms(6,7) by auto
    qed (use assms(8) len in \<open>auto simp: PARSING_HEADER_def\<close>)
  qed
  have 3: "leads st d e2 (at (Suc (Suc ?q)) s_header_value_lws no_marks ?w ?ps3)"
    if "at (Suc ?q) s_header_almost_done no_marks ?w ?ps3 e2" for e2
    using assms(8) len
    by (intro header_byte [OF that _ drop_next [OF q]])
      (auto simp: PARSING_HEADER_def expect_char_def STRICT_CHECK_def UPDATE_STATE_def)
  show ?thesis using leads_trans [OF leads_trans [OF 1 2] 3] by simp
qed

text \<open>A header that the parser passes over, and one that gives the length of the body.\<close>

lemma header_line:
  assumes "at_line p w ps e" and "drop p d = header_text (n, v) @ rest"
    and "is_token n" and "is_value v" and "length d \<le> HTTP_MAX_HEADER_SIZE"
    and "\<And>ps1 k. head ps1 = head ps \<Longrightarrow> settle (header_state ps1) = header_kind (map TOKEN n) \<Longrightarrow>
        header_state ps1 \<noteq> h_matching_connection_token_start \<Longrightarrow>
        header_value_first (hd v) (ps1\<lparr>index := 0, nread := k\<rparr>) =
          Some ((f ps1)\<lparr>nread := k\<rparr>) \<and>
        value_loop_ref (tl v @ CR # LF # rest) (p + length n + 3) (header_state (f ps1)) ((f ps1)\<lparr>nread := k\<rparr>) =
          (Stop_CR, p + length n + 2 + length v, h, (g ps1)\<lparr>nread := k\<rparr>) \<and>
        http_errno (f ps1) = http_errno ps1 \<and> http_errno (g ps1) = http_errno ps1 \<and>
        head (g ps1) = head ps'"
    and "h \<in> {h_general, h_content_length}"
  shows "leads st d e (\<lambda>e'. \<exists>ps1. at_line (p + length (header_text (n, v))) (hear (Header_value v) (hear (Header_field n) w)) ps1 e' \<and>
    head ps1 = head ps')"
proof -
  have v: "v = hd v # tl v" using assms(4) by (simp add: is_value_def)
  have d: "drop p d = n @ CHR '':'' # SP # v @ CR # LF # rest"
    using assms(2) by (simp add: header_text_def)
  have len: "p + length n + length v + 4 \<le> length d"
    using arg_cong [OF d, of length] by simp
  let ?q = "p + length n"
  have 1: "leads st d e (\<lambda>e'. \<exists>ps'. at (Suc ?q) s_header_value_discard_ws no_marks
      (hear (Header_field n) w) ps' e' \<and> head ps' = head ps \<and>
      settle (header_state ps') = header_kind (map TOKEN n) \<and>
      header_state ps' \<noteq> h_matching_connection_token_start)"
    using assms(5) len by (intro name_text [OF assms(1) d assms(3)]) simp
  show ?thesis
  proof (rule leads_trans [OF 1], elim exE conjE)
    fix e1 ps1
    assume e1: "at (Suc ?q) s_header_value_discard_ws no_marks (hear (Header_field n) w) ps1 e1"
      and ps1: "head ps1 = head ps" "settle (header_state ps1) = header_kind (map TOKEN n)"
        "header_state ps1 \<noteq> h_matching_connection_token_start"
    note step = assms(6) [OF ps1]
    note d1 = drop_next [OF drop_more [OF d]]
    have d2: "drop (Suc (Suc ?q)) d = (hd v # tl v) @ CR # LF # rest"
      using drop_next [OF d1] v by simp
    have 2: "leads st d e1 (at (Suc (Suc ?q)) s_header_value_discard_ws no_marks (hear (Header_field n) w) ps1)"
      using assms(5) len
      by (intro header_byte [OF e1 _ d1])
        (auto simp: PARSING_HEADER_def case_header_value_discard_ws_def)
    let ?ps2 = "(g ps1)\<lparr>header_state := h, state := s_header_almost_done\<rparr>"
    have 3: "leads st d e2 (at (Suc (Suc ?q) + length (hd v # tl v) + 2) s_header_value_lws no_marks
        (hear (Header_value (hd v # tl v)) (hear (Header_field n) w)) ?ps2)"
      if "at (Suc (Suc ?q)) s_header_value_discard_ws no_marks (hear (Header_field n) w) ps1 e2" for e2
    proof (rule value_text [OF that d2, where ?ps1.0 = "f ps1" and h = h])
      show "is_value (hd v # tl v)" using assms(4) v by simp
      have "Suc (Suc (Suc ?q)) = ?q + 3" "Suc (Suc ?q) + length (hd v # tl v) = ?q + 2 + length v"
        using arg_cong [OF v, of length] by simp_all
      then show "value_loop_ref (tl v @ CR # LF # rest) (Suc (Suc (Suc ?q))) (header_state (f ps1))
          ((f ps1)\<lparr>nread := k\<rparr>) =
        (Stop_CR, Suc (Suc ?q) + length (hd v # tl v), h, (g ps1)\<lparr>nread := k\<rparr>)" for k
        using step by metis
    qed (use step assms(5) in auto)
    show "leads st d e1 (\<lambda>e'. \<exists>ps1. at_line (p + length (header_text (n, v)))
        (hear (Header_value v) (hear (Header_field n) w)) ps1 e' \<and> head ps1 = head ps')"
    proof (rule leads_mono [OF leads_trans [OF 2 3]])
      fix e3 assume e3: "at (Suc (Suc ?q) + length (hd v # tl v) + 2) s_header_value_lws no_marks
        (hear (Header_value (hd v # tl v)) (hear (Header_field n) w)) ?ps2 e3"
      have "Suc (Suc ?q) + length (hd v # tl v) + 2 = p + length (header_text (n, v))"
        using arg_cong [OF v, of length] by (simp add: header_text_def)
      then have "at (p + length (header_text (n, v))) s_header_value_lws no_marks
          (hear (Header_value v) (hear (Header_field n) w)) ?ps2 e3"
        using e3 v by metis
      then have "at_line (p + length (header_text (n, v))) (hear (Header_value v) (hear (Header_field n) w)) ?ps2 e3"
        using assms(7) by (simp add: at_line_def)
      moreover have "head ?ps2 = head ps'" using step by (simp add: head_def)
      ultimately show "\<exists>ps1. at_line (p + length (header_text (n, v)))
        (hear (Header_value v) (hear (Header_field n) w)) ps1 e3 \<and> head ps1 = head ps'" by blast
    qed
  qed
qed

end

subsection \<open>Header blocks\<close>

definition plain_header :: "string \<times> string \<Rightarrow> bool" where
  "plain_header h \<longleftrightarrow>
     is_token (fst h) \<and> is_value (snd h) \<and> header_kind (map TOKEN (fst h)) = h_general"

definition length_of_body :: "nat \<Rightarrow> string \<times> string \<Rightarrow> bool" where
  "length_of_body k h \<longleftrightarrow>
     is_token (fst h) \<and> map TOKEN (fst h) = CONTENT_LENGTH \<and> snd h \<noteq> [] \<and>
     list_all IS_NUM (snd h) \<and> decimal_from 0 (snd h) = k"

definition length_word :: "nat \<Rightarrow> (string \<times> string) list \<Rightarrow> 64 word \<Rightarrow> 64 word" where
  "length_word k hs cl = (if \<exists>h \<in> set hs. length_of_body k h then of_nat k else cl)"

lemma is_value_digits: "v \<noteq> [] \<Longrightarrow> list_all IS_NUM v \<Longrightarrow> is_value v"
  by (cases v) (auto simp: is_value_def list_all_iff IS_NUM_def)

context listener
begin

definition header_world :: "string \<times> string \<Rightarrow> 'u \<Rightarrow> 'u" where
  "header_world h w = hear (Header_value (snd h)) (hear (Header_field (fst h)) w)"

lemma plain_header_line:
  assumes "at_line p w ps e" and "drop p d = header_text h @ rest" and "plain_header h"
    and "length d \<le> HTTP_MAX_HEADER_SIZE"
  shows "leads st d e (\<lambda>e'. \<exists>ps'. at_line (p + length (header_text h)) (header_world h w) ps' e' \<and>
    head ps' = head ps)"
proof -
  obtain n v where h: "h = (n, v)" by (cases h)
  have nv: "is_token n" "is_value v" "header_kind (map TOKEN n) = h_general"
    using assms(3) by (auto simp: plain_header_def h)
  have v: "0 < length v" "\<forall>x \<in> set (tl v). x \<noteq> CR \<and> x \<noteq> LF"
    using nv(2) by (auto simp: is_value_def list_all_iff dest: list.set_sel(2))
  show ?thesis
    unfolding h header_world_def fst_conv snd_conv
  proof (rule header_line [OF assms(1) assms(2) [unfolded h] nv(1,2) assms(4),
        where f = "\<lambda>ps. ps\<lparr>index := 0, header_state := h_general\<rparr>" and h = h_general
          and g = "\<lambda>ps. ps\<lparr>index := 0, header_state := h_general\<rparr>"])
    fix ps1 :: http_parser and k
    let ?f = "ps1\<lparr>index := 0, header_state := h_general\<rparr>"
    assume ps1: "head ps1 = head ps" "settle (header_state ps1) = header_kind (map TOKEN n)"
      "header_state ps1 \<noteq> h_matching_connection_token_start"
    have "header_value_first (hd v) (ps1\<lparr>index := 0, nread := k\<rparr>) = Some (?f\<lparr>nread := k\<rparr>)"
      using header_value_first_settle [of "ps1\<lparr>index := 0, nread := k\<rparr>" "hd v"] ps1(2,3) nv(3)
      by (simp add: header_value_first_def Let_def nread_last)
    moreover have "value_loop_ref (tl v @ CR # LF # rest) (p + length n + 3) (header_state ?f)
        (?f\<lparr>nread := k\<rparr>) = (Stop_CR, p + length n + 2 + length v, h_general, ?f\<lparr>nread := k\<rparr>)"
      using value_loop_ref_general [OF v(2)] v(1) by (simp add: algebra_simps)
    ultimately show "header_value_first (hd v) (ps1\<lparr>index := 0, nread := k\<rparr>) =
          Some (?f\<lparr>nread := k\<rparr>) \<and>
        value_loop_ref (tl v @ CR # LF # rest) (p + length n + 3) (header_state ?f)
          (?f\<lparr>nread := k\<rparr>) =
          (Stop_CR, p + length n + 2 + length v, h_general, ?f\<lparr>nread := k\<rparr>) \<and>
        http_errno ?f = http_errno ps1 \<and> http_errno ?f = http_errno ps1 \<and> head ?f = head ps"
      using ps1(1) by (simp add: head_def)
  qed simp
qed

lemma length_header_line:
  assumes "at_line p w ps e" and "drop p d = header_text h @ rest" and "length_of_body k h"
    and "length d \<le> HTTP_MAX_HEADER_SIZE" and "k \<le> length_limit"
  shows "leads st d e (\<lambda>e'. \<exists>ps'. at_line (p + length (header_text h)) (header_world h w) ps' e' \<and>
    head ps' = head (ps\<lparr>content_length := of_nat k\<rparr>))"
proof -
  obtain n v where h: "h = (n, v)" by (cases h)
  have nv: "is_token n" "v \<noteq> []" "list_all IS_NUM v" "decimal_from 0 v = k"
    "map TOKEN n = CONTENT_LENGTH" using assms(3) by (auto simp: length_of_body_def h)
  obtain x xs where v: "v = x # xs" using nv(2) by (cases v) auto
  have x: "IS_NUM x" "\<forall>c \<in> set xs. IS_NUM c" using nv(3) by (auto simp: v list_all_iff)
  have kind: "header_kind (map TOKEN n) = h_content_length"
    by (simp add: nv(5) header_kind_def literal_defs)
  let ?f = "\<lambda>ps. ps\<lparr>index := 0, content_length := digit_of x\<rparr>"
  let ?g = "\<lambda>ps :: http_parser. ps\<lparr>index := 0, content_length := of_nat k\<rparr>"
  show ?thesis
    unfolding h header_world_def fst_conv snd_conv
  proof (rule header_line [OF assms(1) assms(2) [unfolded h] nv(1) is_value_digits [OF nv(2,3)]
        assms(4), where f = ?f and h = h_content_length and g = ?g])
    fix ps1 :: http_parser and j
    assume ps1: "head ps1 = head ps" "settle (header_state ps1) = header_kind (map TOKEN n)"
      "header_state ps1 \<noteq> h_matching_connection_token_start"
    then have hs: "header_state ps1 = h_content_length"
      using kind by (auto simp: settle_def split: if_splits)
    have u: "unat (content_length ((?f ps1)\<lparr>nread := j\<rparr>)) = decimal_digit x"
      by (simp add: unat_digit_of64 [OF x(1)] decimal_digit_def)
    have k: "decimal_from (decimal_digit x) xs = k" using nv(4) by (simp add: v)
    have "xs = [] \<or> decimal_from (decimal_digit x) (butlast xs) \<le> length_limit"
    proof (cases xs rule: rev_cases)
      case (snoc ys y)
      then show ?thesis using k assms(5) by simp
    qed simp
    from value_loop_digits [OF x(2) u this, of "CR # LF # rest" "p + length n + 3"]
    have "value_loop_ref (tl v @ CR # LF # rest) (p + length n + 3) (header_state (?f ps1))
        ((?f ps1)\<lparr>nread := j\<rparr>) =
        (Stop_CR, p + length n + 2 + length v, h_content_length, (?g ps1)\<lparr>nread := j\<rparr>)"
      unfolding k by (simp add: v hs nread_last)
    moreover have "header_value_first (hd v) (ps1\<lparr>index := 0, nread := j\<rparr>) =
        Some ((?f ps1)\<lparr>nread := j\<rparr>)"
      by (simp add: v hs x(1) header_value_first_def nread_last)
    moreover have "head (?g ps1) = head (ps\<lparr>content_length := of_nat k\<rparr>)"
      using ps1(1) by (simp add: head_def)
    ultimately show "header_value_first (hd v) (ps1\<lparr>index := 0, nread := j\<rparr>) =
          Some ((?f ps1)\<lparr>nread := j\<rparr>) \<and>
        value_loop_ref (tl v @ CR # LF # rest) (p + length n + 3) (header_state (?f ps1))
          ((?f ps1)\<lparr>nread := j\<rparr>) =
          (Stop_CR, p + length n + 2 + length v, h_content_length, (?g ps1)\<lparr>nread := j\<rparr>) \<and>
        http_errno (?f ps1) = http_errno ps1 \<and> http_errno (?g ps1) = http_errno ps1 \<and>
        head (?g ps1) = head (ps\<lparr>content_length := of_nat k\<rparr>)" by simp
  qed simp
qed

end

end
