(* ===== verification/Request_Message.thy ===== *)
theory Request_Message
  imports Request_Headers
begin

text \<open>
  A whole request, and requests that follow each other in one buffer: the texts, the events that
  \<open>http_parser_execute\<close> reports for them, and the state in which the parser waits for the next
  request.
\<close>

lemma small_length:
  assumes "n \<le> HTTP_MAX_HEADER_SIZE"
  shows "unat (of_nat n :: 64 word) = n" and "(of_nat n :: 64 word) \<noteq> ULLONG_MAX"
proof -
  show u: "unat (of_nat n :: 64 word) = n"
    using assms by (intro unat_of_nat_64) (simp add: HTTP_MAX_HEADER_SIZE_def)
  with unat_ULLONG_MAX assms show "(of_nat n :: 64 word) \<noteq> ULLONG_MAX"
    by (auto simp: HTTP_MAX_HEADER_SIZE_def)
qed

record request_parts =
  rq_method :: http_method
  rq_url :: string
  rq_headers :: "(string \<times> string) list"
  rq_body :: string

definition request_text :: "request_parts \<Rightarrow> string" where
  "request_text r =
     request_line (rq_method r) (rq_url r) @ concat (map header_text (rq_headers r)) @ [CR, LF] @
     rq_body r"

definition request_events :: "request_parts \<Rightarrow> parser_event list" where
  "request_events r =
     [Message_begin, Url (rq_url r)] @
     concat (map (\<lambda>h. [Header_field (fst h), Header_value (snd h)]) (rq_headers r)) @
     [Headers_complete (rq_method r) False] @
     (if rq_body r = [] then [] else [Body (rq_body r)]) @ [Message_complete]"

text \<open>
  The requests of which this is shown: no \<open>CONNECT\<close>; headers that the parser does not look at,
  and a \<open>Content-Length\<close> that is the length of the body, which has to be there when there is a
  body.
\<close>

definition request_ok :: "request_parts \<Rightarrow> bool" where
  "request_ok r \<longleftrightarrow>
     rq_method r \<noteq> HTTP_CONNECT \<and> request_url (rq_method r) (rq_url r) \<and>
     list_all (\<lambda>h. plain_header h \<or> length_of_body (length (rq_body r)) h) (rq_headers r) \<and>
     (rq_body r \<noteq> [] \<longrightarrow> list_ex (length_of_body (length (rq_body r))) (rq_headers r))"

context listener
begin

lemma header_block:
  assumes "at_line p w ps e" and "drop p d = concat (map header_text hs) @ rest"
    and "list_all (\<lambda>h. plain_header h \<or> length_of_body k h) hs"
    and "length d \<le> HTTP_MAX_HEADER_SIZE" and "k \<le> length_limit"
  shows "leads st d e (\<lambda>e'. \<exists>ps'. at_line (p + length (concat (map header_text hs)))
      (fold header_world hs w) ps' e' \<and>
    head ps' = head (ps\<lparr>content_length := length_word k hs (content_length ps)\<rparr>))"
  using assms(1-3)
proof (induction hs arbitrary: p w ps e)
  case Nil
  then show ?case
    by (intro leads_refl exI [of _ ps]) (simp add: length_word_def head_def)
next
  case (Cons h hs)
  have d: "drop p d = header_text h @ concat (map header_text hs) @ rest" using Cons.prems(2) by simp
  let ?q = "p + length (header_text h)" and ?w = "header_world h w"
  let ?cl = "if length_of_body k h then of_nat k else content_length ps"
  have 1: "leads st d e (\<lambda>e'. \<exists>ps'. at_line ?q ?w ps' e' \<and> head ps' = head (ps\<lparr>content_length := ?cl\<rparr>))"
  proof (cases "length_of_body k h")
    case True
    with length_header_line [OF Cons.prems(1) d True assms(4,5)] show ?thesis by simp
  next
    case False
    then have "plain_header h" using Cons.prems(3) by simp
    with False plain_header_line [OF Cons.prems(1) d _ assms(4)] show ?thesis
      by (simp add: head_def)
  qed
  show ?case
  proof (rule leads_trans [OF 1], elim exE conjE)
    fix e1 ps1
    assume e1: "at_line ?q ?w ps1 e1" and ps1: "head ps1 = head (ps\<lparr>content_length := ?cl\<rparr>)"
    have hs: "list_all (\<lambda>h. plain_header h \<or> length_of_body k h) hs" using Cons.prems(3) by simp
    have eq: "head (ps1\<lparr>content_length := length_word k hs (content_length ps1)\<rparr>) =
        head (ps\<lparr>content_length := length_word k (h # hs) (content_length ps)\<rparr>)"
      using ps1 by (auto simp: length_word_def head_def)
    have "p + length (concat (map header_text (h # hs))) =
        ?q + length (concat (map header_text hs))" by simp
    with Cons.IH [OF e1 drop_more [OF d] hs] show "leads st d e1 (\<lambda>e'. \<exists>ps'.
        at_line (p + length (concat (map header_text (h # hs)))) (fold header_world (h # hs) w) ps' e' \<and>
        head ps' = head (ps\<lparr>content_length := length_word k (h # hs) (content_length ps)\<rparr>))"
      unfolding eq by (simp only: fold_simps o_apply)
  qed
qed

lemma headers_end:
  assumes "at_line p w ps e" and "drop p d = CR # LF # rest"
    and "head ps = (HTTP_REQUEST, m, 0, cl, 1, 1)" and "m \<noteq> HTTP_CONNECT"
    and "p + 2 \<le> HTTP_MAX_HEADER_SIZE"
  shows "leads st d e (\<lambda>e'. \<exists>ps'. upgrade ps' = False \<and> head ps' = head ps \<and>
    (if cl = 0 \<or> cl = ULLONG_MAX
     then at (p + 2) s_start_req no_marks
       (hear Message_complete (hear (Headers_complete m False) w)) ps' e' \<and> nread (parser e') = 0
     else at (p + 2) s_body_identity no_marks (hear (Headers_complete m False) w) ps' e' \<and>
       nread (parser e') = 0))"
proof -
  have h: "ptype ps = HTTP_REQUEST" "method ps = m" "flags ps = 0" "content_length ps = cl"
    "http_major ps = 1" "http_minor ps = 1" using assms(3) by (simp_all add: head_def)
  have 1: "leads st d e (at (Suc p) s_headers_almost_done no_marks w ps)"
    using assms(5)
    by (intro line_byte [OF assms(1,2)]) (auto simp: case_header_field_start_def UPDATE_STATE_def)
  let ?w = "hear (Headers_complete m False) w"
  let ?ps = "ps\<lparr>upgrade := False\<rparr>"
  let ?Q = "\<lambda>e'. \<exists>ps'. upgrade ps' = False \<and> head ps' = head ps \<and>
    (if cl = 0 \<or> cl = ULLONG_MAX
     then at (p + 2) s_start_req no_marks (hear Message_complete ?w) ps' e' \<and> nread (parser e') = 0
     else at (p + 2) s_body_identity no_marks ?w ps' e' \<and> nread (parser e') = 0)"
  have 2: "leads st d e1 ?Q" if e1: "at (Suc p) s_headers_almost_done no_marks w ps e1" for e1
  proof (rule header_step [OF e1 _ drop_next [OF assms(2)]])
    fix n :: "32 word" assume n: "http_errno ps = HPE_OK"
    let ?e1 = "exec_at (Suc p) s_headers_almost_done no_marks w ps n LF"
    let ?e2 = "exec_at (Suc p) s_headers_done no_marks ?w ?ps n LF"
    have "upgrade_requested ps = False"
      using h(2,3) assms(4) by (simp add: upgrade_requested_def F_UPGRADE_def F_CONNECTION_UPGRADE_def)
    then have "switch s_headers_almost_done st d ?e1 = Reexecute ?e2"
      using n h(2,3)
      by (simp add: case_headers_almost_done_def headers_complete_callback_def STRICT_CHECK_def
          has_flag_def UPDATE_STATE_def upd_parser_def listens nread_last upgrade_requested_def)
    then have e2: "exec_loop st d True ?e1 = exec_loop st d True ?e2"
      by (intro exec_loop_True) simp
    have ex: "\<not> upgrade_exit (?ps\<lparr>nread := 0\<rparr>)" by (simp add: upgrade_exit_def)
    have keep: "NEW_MESSAGE (?ps\<lparr>nread := 0\<rparr>) = s_start_req"
      using h by (simp add: NEW_MESSAGE_def http_should_keep_alive_def has_flag_def start_state_def
          http_message_needs_eof_def)
    have needs: "\<not> http_message_needs_eof (?ps\<lparr>nread := 0\<rparr>)"
      using h(1) by (simp add: http_message_needs_eof_def)
    show "\<exists>e'. exec_loop st d True ?e1 = exec_loop st d False e' \<and> ?Q e'"
    proof (cases "cl = 0 \<or> cl = ULLONG_MAX")
      case True
      let ?ps' = "?ps\<lparr>state := s_start_req\<rparr>"
      have "switch s_headers_done st d ?e2 =
          Break (exec_at (Suc p) s_start_req no_marks (hear Message_complete ?w) ?ps' 0 LF)"
        using True ex keep needs h(3,4) n
        by (auto simp: case_headers_done_def message_complete_def STRICT_CHECK_def has_flag_def
            step_simps listens nread_last)
      then have "exec_loop st d True ?e1 =
          exec_loop st d False (exec_at (Suc (Suc p)) s_start_req no_marks (hear Message_complete ?w) ?ps' 0 LF)"
        using e2 exec_loop_break by metis
      with True n h show ?thesis
        by (intro exI [of _ "exec_at (Suc (Suc p)) s_start_req no_marks (hear Message_complete ?w) ?ps' 0 LF"]
            conjI exI [of _ ?ps']) (auto simp: at_def head_def)
    next
      case False
      have "switch s_headers_done st d ?e2 =
          Break (exec_at (Suc p) s_body_identity no_marks ?w ?ps 0 LF)"
        using False ex h(3,4) n
        by (simp add: case_headers_done_def STRICT_CHECK_def has_flag_def step_simps nread_last)
      then have "exec_loop st d True ?e1 =
          exec_loop st d False (exec_at (Suc (Suc p)) s_body_identity no_marks ?w ?ps 0 LF)"
        using e2 exec_loop_break by metis
      with False n h show ?thesis
        by (intro exI [of _ "exec_at (Suc (Suc p)) s_body_identity no_marks ?w ?ps 0 LF"]
            conjI exI [of _ ?ps]) (auto simp: at_def head_def)
    qed
  qed (use assms(5) in \<open>auto simp: PARSING_HEADER_def\<close>)
  show ?thesis by (rule leads_trans [OF 1 2])
qed

lemma body_text:
  assumes "at p s_body_identity no_marks w ps e" and "drop p d = b @ rest" and "b \<noteq> []"
    and "head ps = (HTTP_REQUEST, m, 0, of_nat (length b), 1, 1)" and "upgrade ps = False"
    and "nread (parser e) = 0" and "length d \<le> HTTP_MAX_HEADER_SIZE"
  shows "leads st d e (\<lambda>e'. \<exists>ps'. at (p + length b) s_start_req no_marks
      (hear Message_complete (hear (Body b) w)) ps' e' \<and> ptype ps' = HTTP_REQUEST \<and>
      nread (parser e') = 0)"
proof -
  let ?cl = "of_nat (length b) :: 64 word" and ?c = "d ! p"
  have h: "ptype ps = HTTP_REQUEST" "flags ps = 0" "content_length ps = ?cl"
    "http_major ps = 1" "http_minor ps = 1" using assms(4) by (simp_all add: head_def)
  obtain c0 where e: "e = exec_at p s_body_identity no_marks w ps 0 c0" and ok: "http_errno ps = HPE_OK"
    using assms(1,6) by (auto simp: at_def)
  have len: "p + length b \<le> length d"
    using arg_cong [OF assms(2), of length] assms(3) by (cases "p \<le> length d") auto
  have cl: "unat ?cl = length b" "?cl \<noteq> ULLONG_MAX"
    using len assms(7) by (intro small_length; simp)+
  then have cl0: "?cl \<noteq> 0" using assms(3) by (metis length_0_conv unat_0)
  have le: "length b \<le> length d - p" using len by arith
  have "unat (of_nat (length d - p) :: 64 word) = length d - p"
    using assms(7) by (intro small_length) simp
  then have read: "min ?cl (of_nat (length d - p)) = ?cl"
    using cl(1) le by (simp add: min_def word_le_nat_alt del: of_nat_diff)
  have lb: "0 < length b" using assms(3) by simp
  let ?ps1 = "ps\<lparr>content_length := 0\<rparr>" and ?q = "p + length b - 1"
  let ?e1 = "exec_at p s_body_identity no_marks w ps 0 ?c"
  let ?ps2 = "?ps1\<lparr>state := s_message_done\<rparr>" and ?w = "hear (Body b) w"
  let ?e2 = "exec_at ?q s_message_done no_marks ?w ?ps2 0 ?c"
  have q: "Suc ?q = p + length b" using lb by simp
  have inside: "\<not> length d \<le> p" using len lb by arith
  then have fetch: "fetch d e = Next ?e1"
    by (simp add: fetch_def e PARSING_HEADER_def)
  have sw: "switch s_body_identity st d ?e1 = Reexecute ?e2"
    using read cl cl0 ok h(3) q assms(2) lb
    by (simp add: case_body_identity_def assert_that_def body_length_known_def to_read_def
        read_body_def MARK_def upd_parser_def UPDATE_STATE_def CALLBACK_DATA_ER_def run_callback_def
        listens Let_def nread_last)
  have "NEW_MESSAGE (?ps2\<lparr>nread := 0\<rparr>) = s_start_req"
    using h by (simp add: NEW_MESSAGE_def http_should_keep_alive_def has_flag_def start_state_def
        http_message_needs_eof_def)
  then have "switch s_message_done st d ?e2 =
      Break (exec_at ?q s_start_req no_marks (hear Message_complete ?w) (?ps2\<lparr>state := s_start_req\<rparr>) 0 ?c)"
    using ok assms(5)
    by (simp add: case_message_done_def message_complete_def step_simps listens nread_last)
  then have loop: "exec_loop st d True ?e2 = exec_loop st d False
      (exec_at (Suc ?q) s_start_req no_marks (hear Message_complete ?w) (?ps2\<lparr>state := s_start_req\<rparr>) 0 ?c)"
    by (rule exec_loop_break)
  have "exec_loop st d False e = exec_loop st d True ?e1"
    using fetch inside e by (subst exec_loop.simps) auto
  also have "\<dots> = exec_loop st d True ?e2" using sw by (intro exec_loop_True) simp
  finally show ?thesis
    unfolding leads_def loop q
    by (intro exI conjI) (auto simp: at_def ok h(1))
qed

lemma fold_headers:
  "fold hear (concat (map (\<lambda>h. [Header_field (fst h), Header_value (snd h)]) hs)) w =
     fold header_world hs w"
  by (induction hs arbitrary: w) (simp_all add: header_world_def)

lemma request_run:
  assumes "at p s_start_req no_marks w ps e" and "ptype ps = HTTP_REQUEST"
    and "drop p d = request_text r @ rest" and "request_ok r" and "length d \<le> HTTP_MAX_HEADER_SIZE"
  shows "leads st d e (\<lambda>e'. \<exists>ps'. at (p + length (request_text r)) s_start_req no_marks
      (fold hear (request_events r) w) ps' e' \<and> ptype ps' = HTTP_REQUEST \<and> nread (parser e') = 0)"
proof -
  let ?m = "rq_method r" and ?hs = "rq_headers r" and ?b = "rq_body r" and ?k = "length (rq_body r)"
  let ?l = "request_line ?m (rq_url r)" and ?ht = "concat (map header_text ?hs)"
  let ?cl = "length_word ?k ?hs ULLONG_MAX"
  let ?w1 = "hear (Url (rq_url r)) (hear Message_begin w)" and ?w2 = "fold header_world ?hs"
  note ok = assms(4) [unfolded request_ok_def]
  have d: "drop p d = ?l @ ?ht @ CR # LF # ?b @ rest"
    using assms(3) by (simp add: request_text_def)
  note d1 = drop_more [OF d] and d2 = drop_more [OF drop_more [OF d]]
  note d3 = drop_next [OF drop_next [OF d2]]
  have total: "length (request_text r) = length ?l + length ?ht + 2 + ?k"
    by (simp add: request_text_def)
  have lend: "p + length (request_text r) \<le> length d"
    using arg_cong [OF assms(3), of length] by (cases "p \<le> length d") (auto simp: total)
  have small: "?k \<le> length_limit"
    using lend assms(5) by (simp add: total length_limit_def HTTP_MAX_HEADER_SIZE_def)
  have 1: "leads st d e (\<lambda>e'. \<exists>ps'. at (p + length ?l) s_header_field_start no_marks ?w1 ps' e' \<and>
      head ps' = (ptype ps, ?m, 0, ULLONG_MAX, 1, 1))"
    using ok lend assms(5) total by (intro request_line_text [OF assms(1) d]) auto
  show ?thesis
  proof (rule leads_trans [OF 1], elim exE conjE)
    fix e1 ps1 assume e1: "at (p + length ?l) s_header_field_start no_marks ?w1 ps1 e1"
      and ps1: "head ps1 = (ptype ps, ?m, 0, ULLONG_MAX, 1, 1)"
    have l1: "at_line (p + length ?l) ?w1 ps1 e1" using e1 by (simp add: at_line_def)
    have cl1: "head (ps1\<lparr>content_length := length_word ?k ?hs (content_length ps1)\<rparr>) =
        (HTTP_REQUEST, ?m, 0, ?cl, 1, 1)" using ps1 assms(2) by (simp add: head_def)
    let ?q = "p + length ?l + length ?ht"
    have 2: "leads st d e1 (\<lambda>e'. \<exists>ps'. at_line ?q (?w2 ?w1) ps' e' \<and>
        head ps' = (HTTP_REQUEST, ?m, 0, ?cl, 1, 1))"
      using header_block [OF l1 d1 _ assms(5) small] ok unfolding cl1 by simp
    show "leads st d e1 (\<lambda>e'. \<exists>ps'. at (p + length (request_text r)) s_start_req no_marks
      (fold hear (request_events r) w) ps' e' \<and> ptype ps' = HTTP_REQUEST \<and> nread (parser e') = 0)"
    proof (rule leads_trans [OF 2], elim exE conjE)
      fix e2 ps2 assume e2: "at_line ?q (?w2 ?w1) ps2 e2"
        and ps2: "head ps2 = (HTTP_REQUEST, ?m, 0, ?cl, 1, 1)"
      let ?w3 = "hear (Headers_complete ?m False) (?w2 ?w1)"
      have 3: "leads st d e2 (\<lambda>e'. \<exists>ps'. upgrade ps' = False \<and> head ps' = head ps2 \<and>
        (if ?cl = 0 \<or> ?cl = ULLONG_MAX
         then at (?q + 2) s_start_req no_marks (hear Message_complete ?w3) ps' e' \<and> nread (parser e') = 0
         else at (?q + 2) s_body_identity no_marks ?w3 ps' e' \<and> nread (parser e') = 0))"
        using ok lend assms(5) total by (intro headers_end [OF e2 d2 ps2]) auto
      have u: "unat (of_nat ?k :: 64 word) = ?k" and max: "(of_nat ?k :: 64 word) \<noteq> ULLONG_MAX"
        using lend assms(5) by (intro small_length; simp add: total)+
      have empty: "(?cl = 0 \<or> ?cl = ULLONG_MAX) \<longleftrightarrow> ?b = []"
      proof (cases "?b = []")
        case False
        then have "?cl = of_nat ?k" using ok by (auto simp: length_word_def list_ex_iff)
        with False u max show ?thesis by (metis length_0_conv unat_0)
      qed (auto simp: length_word_def)
      have events: "fold hear (request_events r) w =
          hear Message_complete (if ?b = [] then ?w3 else hear (Body ?b) ?w3)"
        by (simp add: request_events_def fold_headers)
      show "leads st d e2 (\<lambda>e'. \<exists>ps'. at (p + length (request_text r)) s_start_req no_marks
        (fold hear (request_events r) w) ps' e' \<and> ptype ps' = HTTP_REQUEST \<and> nread (parser e') = 0)"
      proof (rule leads_trans [OF 3], elim exE conjE)
        fix e3 ps3 assume ps3: "upgrade ps3 = False" "head ps3 = head ps2"
          and e3: "if ?cl = 0 \<or> ?cl = ULLONG_MAX
            then at (?q + 2) s_start_req no_marks (hear Message_complete ?w3) ps3 e3 \<and> nread (parser e3) = 0
            else at (?q + 2) s_body_identity no_marks ?w3 ps3 e3 \<and> nread (parser e3) = 0"
        have h3: "head ps3 = (HTTP_REQUEST, ?m, 0, ?cl, 1, 1)" using ps2 ps3(2) by simp
        have q: "p + length (request_text r) = ?q + 2 + ?k" by (simp add: total)
        show "leads st d e3 (\<lambda>e'. \<exists>ps'. at (p + length (request_text r)) s_start_req no_marks
          (fold hear (request_events r) w) ps' e' \<and> ptype ps' = HTTP_REQUEST \<and> nread (parser e') = 0)"
        proof (cases "?b = []")
          case True
          with e3 h3 empty show ?thesis
            unfolding events q by (intro leads_refl exI [of _ ps3]) (simp add: head_def)
        next
          case False
          then have cl: "?cl = of_nat ?k" using ok by (auto simp: length_word_def list_ex_iff)
          have "drop (?q + 2) d = ?b @ rest" using d3 by simp
          from body_text [OF _ this False h3 [unfolded cl] ps3(1) _ assms(5)] e3 False empty
          show ?thesis unfolding events q by simp
        qed
      qed
    qed
  qed
qed

lemma requests_run:
  assumes "at p s_start_req no_marks w ps e" and "ptype ps = HTTP_REQUEST" and "nread (parser e) = 0"
    and "drop p d = concat (map request_text rs)" and "list_all request_ok rs"
    and "length d \<le> HTTP_MAX_HEADER_SIZE"
  shows "leads st d e (\<lambda>e'. \<exists>ps'. at (p + length (concat (map request_text rs))) s_start_req no_marks
      (fold hear (concat (map request_events rs)) w) ps' e' \<and> ptype ps' = HTTP_REQUEST \<and>
      nread (parser e') = 0)"
  using assms(1-5)
proof (induction rs arbitrary: p w ps e)
  case Nil
  then show ?case by (intro leads_refl exI [of _ ps]) simp
next
  case (Cons r rs)
  have d: "drop p d = request_text r @ concat (map request_text rs)" using Cons.prems(4) by simp
  have 1: "leads st d e (\<lambda>e'. \<exists>ps'. at (p + length (request_text r)) s_start_req no_marks
      (fold hear (request_events r) w) ps' e' \<and> ptype ps' = HTTP_REQUEST \<and> nread (parser e') = 0)"
    using Cons.prems(5) assms(6) by (intro request_run [OF Cons.prems(1,2) d]) simp_all
  show ?case
  proof (rule leads_trans [OF 1], elim exE conjE)
    fix e1 ps1 assume "at (p + length (request_text r)) s_start_req no_marks
        (fold hear (request_events r) w) ps1 e1" "ptype ps1 = HTTP_REQUEST" "nread (parser e1) = 0"
    from Cons.IH [OF this drop_more [OF d]] Cons.prems(5)
    show "leads st d e1 (\<lambda>e'. \<exists>ps'.
      at (p + length (concat (map request_text (r # rs)))) s_start_req no_marks
        (fold hear (concat (map request_events (r # rs))) w) ps' e' \<and> ptype ps' = HTTP_REQUEST \<and>
        nread (parser e') = 0)"
      by (simp add: add.assoc)
  qed
qed

end

subsection \<open>Calls\<close>

text \<open>A parser that waits for a request.\<close>

definition waiting :: "http_parser \<Rightarrow> bool" where
  "waiting ps \<longleftrightarrow>
     ptype ps = HTTP_REQUEST \<and> state ps = s_start_req \<and> http_errno ps = HPE_OK \<and> nread ps = 0"

lemma waiting_init: "waiting (http_parser_init HTTP_REQUEST)"
  by (simp add: waiting_def http_parser_init_def)

context listener
begin

lemma execute_requests:
  assumes "waiting ps" and "list_all request_ok rs" and "rs \<noteq> []"
    and "d = concat (map request_text rs)" and "length d \<le> HTTP_MAX_HEADER_SIZE"
  shows "\<exists>ps'. http_parser_execute st ps d w =
      Some (Returned (length d) ps' (fold hear (concat (map request_events rs)) w)) \<and> waiting ps'"
proof -
  have ps: "ptype ps = HTTP_REQUEST" "state ps = s_start_req" "http_errno ps = HPE_OK" "nread ps = 0"
    using assms(1) by (simp_all add: waiting_def)
  have enter: "enter ps w = exec_at 0 s_start_req no_marks w ps 0 NUL"
    using ps by (simp add: enter_def entry_marks_def url_states_def)
  have "at 0 s_start_req no_marks w ps (enter ps w)" using ps(3) by (auto simp: enter at_def)
  from requests_run [OF this ps(1) _ _ assms(2,5)] assms(4)
  obtain e' ps' where e': "exec_loop st d False (enter ps w) = exec_loop st d False e'"
    "at (length d) s_start_req no_marks (fold hear (concat (map request_events rs)) w) ps' e'"
    "ptype ps' = HTTP_REQUEST" "nread (parser e') = 0"
    by (auto simp: leads_def enter)
  let ?w = "fold hear (concat (map request_events rs)) w"
  obtain c where c: "e' = exec_at (length d) s_start_req no_marks ?w ps' 0 c" "http_errno ps' = HPE_OK"
    using e'(2,4) by (auto simp: at_def)
  have "exec_loop st d False e' = Some (Next e')" by (subst exec_loop.simps) (simp add: c)
  moreover have "result_of st d (Next e') = Returned (length d) (ps'\<lparr>nread := 0, state := s_start_req\<rparr>) ?w"
    using c(2) by (simp add: result_of_def finish_def c mark_count_def assert_that_def
        CALLBACK_DATA_NOADVANCE_def CALLBACK_DATA_ER_def RETURN_def)
  moreover have "d \<noteq> []"
    using assms(3,4) by (cases rs) (simp_all add: request_text_def request_line_def)
  ultimately have "http_parser_execute st ps d w =
      Some (Returned (length d) (ps'\<lparr>nread := 0, state := s_start_req\<rparr>) ?w)"
    using e'(1) ps(3) by (simp add: http_parser_execute_def)
  moreover have "waiting (ps'\<lparr>nread := 0, state := s_start_req\<rparr>)"
    using e'(3) c(2) by (simp add: waiting_def)
  ultimately show ?thesis by blast
qed

end

end
