(* ===== verification/Request_Delivery.thy ===== *)
theory Request_Delivery
  imports Request_Message Http_Server
begin

text \<open>
  From the bytes of requests to the calls of the application: the parser reports the events of
  each request, the codec assembles a request from them, and the handler passes it on. The codec
  keeps the last header and the last body from one request to the next; \<open>received_request\<close> says what the
  application gets then.
\<close>

subsection \<open>The codec as a listener\<close>

fun codec_hear :: "'w codec_callbacks \<Rightarrow> parser_event \<Rightarrow> http_codec \<times> 'w \<Rightarrow> http_codec \<times> 'w" where
  "codec_hear cbs Message_begin cw = snd (OnMessageBegin cbs cw)"
| "codec_hear cbs (Url s) cw = snd (OnUrl s cw)"
| "codec_hear cbs (Header_field s) cw = snd (OnHeaderField s cw)"
| "codec_hear cbs (Header_value s) cw = snd (OnHeaderValue s cw)"
| "codec_hear cbs (Headers_complete m u) cw =
     snd (OnHeadersComplete cbs (new_codec_parser\<lparr>method := m, upgrade := u\<rparr>) cw)"
| "codec_hear cbs (Body s) cw = snd (OnBody s cw)"
| "codec_hear cbs Message_complete cw = snd (OnMessageComplete cbs cw)"

lemma codec_returns_true:
  "fst (OnMessageBegin cbs cw)" "fst (OnUrl s cw)" "fst (OnHeaderField s cw)"
  "fst (OnHeaderValue s cw)" "fst (OnHeadersComplete cbs ps cw)" "fst (OnBody s cw)"
  "fst (OnMessageComplete cbs cw)"
  by (simp_all add: OnMessageBegin_def OnUrl_def OnHeaderField_def OnHeaderValue_def
      OnHeadersComplete_def OnBody_def OnMessageComplete_def Let_def split: prod.split option.split)

lemma as_callback_true: "(\<And>u. fst (f u)) \<Longrightarrow> as_callback f = (\<lambda>ps u. (0, ps, snd (f u)))"
  by (auto simp: as_callback_def fun_eq_iff split: prod.split) (metis fst_conv)+

lemma OnHeadersComplete_fields:
  "OnHeadersComplete cbs ps cw =
     OnHeadersComplete cbs (new_codec_parser\<lparr>method := method ps, upgrade := upgrade ps\<rparr>) cw"
  by (simp add: OnHeadersComplete_def headers_complete_event_def)

interpretation codec_listener: listener "kParserSettings cbs" "codec_hear cbs" for cbs
proof
  have complete: "as_callback (OnHeadersComplete cbs ps) ps w =
      (0, ps, codec_hear cbs (Headers_complete (method ps) (upgrade ps)) w)" for ps w
    using as_callback_true [of "OnHeadersComplete cbs ps"] OnHeadersComplete_fields [of cbs ps w]
    by (simp add: codec_returns_true)
  then show "on_headers_complete (kParserSettings cbs) =
      Some (\<lambda>ps w. (0, ps, codec_hear cbs (Headers_complete (method ps) (upgrade ps)) w))"
    by (simp add: kParserSettings_def fun_eq_iff del: codec_hear.simps)
qed (simp_all add: kParserSettings_def as_callback_true codec_returns_true fun_eq_iff)

subsection \<open>What the application gets\<close>

text \<open>What the codec still holds: a header name, a header value, a body.\<close>

type_synonym left_over = "string \<times> string \<times> string"

fun received_headers :: "left_over \<Rightarrow> (string \<times> string) list \<Rightarrow> (string \<times> string) list" where
  "received_headers (nm, v, bd) [] = [(nm, v)]"
| "received_headers (nm, v, bd) (h # hs) = (nm @ fst h, snd h) # hs"

fun received_body :: "left_over \<Rightarrow> string \<Rightarrow> string" where
  "received_body (nm, v, bd) b = (if b = [] then bd else b)"

definition received_request :: "left_over \<Rightarrow> request_parts \<Rightarrow> http_request" where
  "received_request old r =
     ParseUrl (new_http_request
       \<lparr>r_method := http_method_str (rq_method r), r_url := rq_url r,
        r_headers_map := insert_all (received_headers old (rq_headers r)) [],
        r_body := received_body old (rq_body r)\<rparr>)"

fun still_held :: "left_over \<Rightarrow> request_parts \<Rightarrow> left_over" where
  "still_held old r =
     (let h = last (received_headers old (rq_headers r))
      in (fst h, snd h, received_body old (rq_body r)))"

fun deliveries :: "left_over \<Rightarrow> request_parts list \<Rightarrow> http_request list" where
  "deliveries old [] = []"
| "deliveries old (r # rs) = received_request old r # deliveries (still_held old r) rs"

definition holds :: "left_over \<Rightarrow> http_codec \<Rightarrow> bool" where
  "holds old c \<longleftrightarrow>
     (case old of (nm, v, bd) \<Rightarrow>
        c_header_name c = nm \<and> c_header_value c = v \<and> c_request c = new_http_request\<lparr>r_body := bd\<rparr>)"

subsection \<open>A request through the codec\<close>

abbreviation header_event_list :: "(string \<times> string) list \<Rightarrow> parser_event list" where
  "header_event_list hs \<equiv> concat (map (\<lambda>h. [Header_field (fst h), Header_value (snd h)]) hs)"

lemma later_headers:
  assumes "c_parse_state c = kParseHeaderValue" and "nv = (c_header_name c, c_header_value c)"
  shows "fold (codec_hear cbs) (header_event_list hs) (c, w) =
    (c\<lparr>c_header_name := fst (last (nv # hs)), c_header_value := snd (last (nv # hs)),
       c_request := (c_request c)
         \<lparr>r_headers_map := insert_all (butlast (nv # hs)) (r_headers_map (c_request c))\<rparr>\<rparr>, w)"
  using assms
proof (induction hs arbitrary: c nv)
  case Nil
  then show ?case by simp
next
  case (Cons h hs)
  let ?c = "header_value_event (snd h) (header_field_event (fst h) c)"
  have "fold (codec_hear cbs) (header_event_list (h # hs)) (c, w) =
      fold (codec_hear cbs) (header_event_list hs) (?c, w)"
    by (simp add: OnHeaderField_def OnHeaderValue_def)
  also have "?c = c\<lparr>c_header_name := fst h, c_header_value := snd h,
      c_request := AddHeader (fst nv) (snd nv) (c_request c)\<rparr>"
    using Cons.prems by (simp add: header_field_event_def header_value_event_def)
  also have "fold (codec_hear cbs) (header_event_list hs) (\<dots>, w) =
      (c\<lparr>c_header_name := fst (last (h # hs)), c_header_value := snd (last (h # hs)),
       c_request := (c_request c)
         \<lparr>r_headers_map := insert_all (butlast (h # hs))
            (map_insert (fst nv) (snd nv) (r_headers_map (c_request c)))\<rparr>\<rparr>, w)"
    using Cons.prems(1) by (subst Cons.IH [of _ h]) (simp_all add: AddHeader_def)
  finally show ?case by (cases nv) simp
qed

text \<open>After the headers the codec holds the last of the headers received, and has stored the others.\<close>

lemma headers_heard:
  assumes "c_parse_state c = kParseHeaderBegin" and "old = (c_header_name c, c_header_value c, bd)"
  shows "\<exists>s. fold (codec_hear cbs) (header_event_list hs) (c, w) =
    (c\<lparr>c_parse_state := s, c_header_name := fst (last (received_headers old hs)),
       c_header_value := snd (last (received_headers old hs)),
       c_request := (c_request c)\<lparr>r_headers_map :=
         insert_all (butlast (received_headers old hs)) (r_headers_map (c_request c))\<rparr>\<rparr>, w)"
proof (cases hs)
  case Nil
  with assms show ?thesis by (intro exI [of _ kParseHeaderBegin]) simp
next
  case (Cons h hs')
  let ?c = "c\<lparr>c_parse_state := kParseHeaderValue, c_header_name := c_header_name c @ fst h,
    c_header_value := snd h\<rparr>"
  have eq: "header_value_event (snd h) (header_field_event (fst h) c) = ?c"
    using assms(1) by (simp add: header_field_event_def header_value_event_def)
  have "fold (codec_hear cbs) (header_event_list hs) (c, w) =
      fold (codec_hear cbs) (header_event_list hs') (?c, w)"
    using eq by (simp add: Cons OnHeaderField_def OnHeaderValue_def)
  with later_headers [of ?c "(c_header_name c @ fst h, snd h)" cbs hs' w] assms(2) show ?thesis
    by (intro exI [of _ kParseHeaderValue]) (simp add: Cons)
qed

lemma request_heard:
  assumes "holds old c" and "message_begin_cb cbs = Some (\<lambda>sid w. w)"
    and "headers_complete_cb cbs = None" and "message_complete_cb cbs = Some f"
  shows "\<exists>c'. fold (codec_hear cbs) (request_events r) (c, w) =
      (c', f (c_stream_id c) (received_request old r) w) \<and>
    holds (still_held old r) c' \<and> c_stream_id c' = c_stream_id c"
proof -
  obtain nm v bd where old: "old = (nm, v, bd)" by (cases old)
  let ?hs = "received_headers old (rq_headers r)" and ?l = "last (received_headers old (rq_headers r))"
  have c: "c_header_name c = nm" "c_header_value c = v" "c_request c = new_http_request\<lparr>r_body := bd\<rparr>"
    using assms(1) by (simp_all add: holds_def old)
  let ?c1 = "c\<lparr>c_parse_state := kParseHeaderBegin, c_request := SetUrl (rq_url r) (c_request c)\<rparr>"
  have 1: "fold (codec_hear cbs) [Message_begin, Url (rq_url r)] (c, w) = (?c1, w)"
    by (simp add: OnMessageBegin_def OnUrl_def assms(2) Let_def)
  obtain s where 2: "fold (codec_hear cbs) (header_event_list (rq_headers r)) (?c1, w) =
    (?c1\<lparr>c_parse_state := s, c_header_name := fst ?l, c_header_value := snd ?l,
       c_request := (c_request ?c1)\<lparr>r_headers_map := insert_all (butlast ?hs) []\<rparr>\<rparr>, w)"
    using headers_heard [of ?c1 old bd cbs "rq_headers r" w] c
    by (auto simp: old SetUrl_def new_http_request_def)
  have ne: "?hs \<noteq> []" by (cases "rq_headers r") (simp_all add: old)
  then have all: "map_insert (fst ?l) (snd ?l) (insert_all (butlast ?hs) []) = insert_all ?hs []"
    by (metis append_butlast_last_id insert_all_simps(1-3) prod.collapse)
  let ?b = "received_body old (rq_body r)"
  have body: "(ParseUrl q)\<lparr>r_body := b\<rparr> = ParseUrl (q\<lparr>r_body := b\<rparr>)" for q b
    unfolding ParseUrl_def
    by (cases "r_url q = []"; cases "dropWhile (\<lambda>c. c \<noteq> CHR ''?'') (r_url q)")
      (simp_all del: dropWhile_eq_Nil_conv)
  have "fold (codec_hear cbs) (request_events r) (c, w) =
      fold (codec_hear cbs) (Headers_complete (rq_method r) False #
        (if rq_body r = [] then [] else [Body (rq_body r)]) @ [Message_complete])
      (fold (codec_hear cbs) (header_event_list (rq_headers r))
        (fold (codec_hear cbs) [Message_begin, Url (rq_url r)] (c, w)))"
    by (simp add: request_events_def del: codec_hear.simps)
  also have "\<dots> = fold (codec_hear cbs) (Headers_complete (rq_method r) False #
        (if rq_body r = [] then [] else [Body (rq_body r)]) @ [Message_complete])
      (?c1\<lparr>c_parse_state := s, c_header_name := fst ?l, c_header_value := snd ?l,
       c_request := (c_request ?c1)\<lparr>r_headers_map := insert_all (butlast ?hs) []\<rparr>\<rparr>, w)"
    unfolding 1 2 ..
  also have "\<dots> = (c\<lparr>c_parse_state := s, c_header_name := fst ?l, c_header_value := snd ?l,
        c_is_headers_complete := True, c_request := CleanUp (received_request old r)\<rparr>,
      f (c_stream_id c) (received_request old r) w)"
    using all c
    by (auto simp: OnHeadersComplete_def headers_complete_event_def OnBody_def OnMessageComplete_def
        assms(3,4) Let_def received_request_def SetMethod_def SetUrl_def AddHeader_def SetBody_def old body
        new_http_request_def)
  finally have run: "fold (codec_hear cbs) (request_events r) (c, w) =
     (c\<lparr>c_parse_state := s, c_header_name := fst ?l, c_header_value := snd ?l,
        c_is_headers_complete := True, c_request := CleanUp (received_request old r)\<rparr>,
      f (c_stream_id c) (received_request old r) w)" .
  have "CleanUp (ParseUrl q) = CleanUp q" for q
    by (simp add: ParseUrl_def CleanUp_def split: list.split)
  then have "CleanUp (received_request old r) = new_http_request\<lparr>r_body := ?b\<rparr>"
    by (simp add: received_request_def) (simp add: CleanUp_def new_http_request_def)
  with run show ?thesis by (auto simp: holds_def Let_def)
qed

lemma requests_heard:
  assumes "holds old c" and "message_begin_cb cbs = Some (\<lambda>sid w. w)"
    and "headers_complete_cb cbs = None" and "message_complete_cb cbs = Some f"
  shows "\<exists>c'. fold (codec_hear cbs) (concat (map request_events rs)) (c, w) =
      (c', fold (f (c_stream_id c)) (deliveries old rs) w) \<and>
    holds (foldl still_held old rs) c' \<and> c_stream_id c' = c_stream_id c"
  using assms(1)
proof (induction rs arbitrary: old c w)
  case Nil
  then show ?case by simp
next
  case (Cons r rs)
  from request_heard [OF Cons.prems assms(2-4), of r w] obtain c1 where c1:
    "fold (codec_hear cbs) (request_events r) (c, w) = (c1, f (c_stream_id c) (received_request old r) w)"
    "holds (still_held old r) c1" "c_stream_id c1 = c_stream_id c" by blast
  from Cons.IH [OF c1(2), of "f (c_stream_id c) (received_request old r) w"] c1(1,3)
  show ?case by (simp del: still_held.simps)
qed

subsection \<open>Requests through the handler\<close>

definition serves :: "left_over \<Rightarrow> 'w http_handler \<Rightarrow> bool" where
  "serves old h \<longleftrightarrow> handler_inv h \<and> waiting (hh_parser h) \<and> holds old (hh_codec h)"

lemma new_handler_serves: "serves ([], [], []) (new_http_handler name cb)"
  using waiting_init new_handler_inv [of name cb]
  by (simp add: serves_def holds_def new_http_handler_def new_codec_parser_def new_http_codec_def
      new_http_request_def)

text \<open>The call that the handler makes for a request.\<close>

definition serve :: "32 word \<Rightarrow> 'w http_handler \<Rightarrow> http_request \<Rightarrow> 'w connection \<Rightarrow> 'w connection"
where
  "serve junk h req w = hh_request_complete_callback h (hh_name h) req (new_http_response junk) w"

lemma handler_serves:
  assumes "serves old h" and "buffer_inv b" and "content b = concat (map request_text rs)"
    and "rs \<noteq> []" and "list_all request_ok rs" and "length (content b) \<le> HTTP_MAX_HEADER_SIZE"
  shows "\<exists>h' b'. HTTPHandler_OnData junk h b w =
      Some (Handled h' b' (fold (serve junk h) (deliveries old rs) w)) \<and>
    serves (foldl still_held old rs) h' \<and> buffer_inv b' \<and> content b' = []"
proof -
  let ?cbs = "handler_callbacks junk h" and ?d = "content b"
  have h: "handler_inv h" "waiting (hh_parser h)" "holds old (hh_codec h)"
    using assms(1) by (simp_all add: serves_def)
  from codec_listener.execute_requests [OF h(2) assms(5,4,3,6), of ?cbs "(hh_codec h, w)"]
  obtain ps' where ps': "http_parser_execute (kParserSettings ?cbs) (hh_parser h) ?d (hh_codec h, w) =
      Some (Returned (length ?d) ps'
        (fold (codec_hear ?cbs) (concat (map request_events rs)) (hh_codec h, w)))" "waiting ps'"
    by blast
  have "message_begin_cb ?cbs = Some (\<lambda>sid w. w)" "headers_complete_cb ?cbs = None"
    "message_complete_cb ?cbs = Some (HTTPHandler_OnMessageComplete junk h)"
    by (simp_all add: handler_callbacks_def)
  from requests_heard [OF h(3) this, of rs w] obtain c' where c':
    "fold (codec_hear ?cbs) (concat (map request_events rs)) (hh_codec h, w) =
       (c', fold (HTTPHandler_OnMessageComplete junk h (c_stream_id (hh_codec h))) (deliveries old rs) w)"
    "holds (foldl still_held old rs) c'" by blast
  have "HTTPHandler_OnMessageComplete junk h sid = serve junk h" for sid
    by (simp add: fun_eq_iff serve_def HTTPHandler_OnMessageComplete_def)
  with c'(1) have c'': "fold (codec_hear ?cbs) (concat (map request_events rs)) (hh_codec h, w) =
      (c', fold (serve junk h) (deliveries old rs) w)" by simp
  let ?w = "fold (serve junk h) (deliveries old rs) w"
  have d: "?d \<noteq> []"
    using assms(3,4) by (cases rs) (simp_all add: request_text_def request_line_def)
  have "OnData ?cbs (hh_parser h) (hh_codec h) ?d w = Some (Codec_parsed (length ?d) ps' c' ?w)"
    using ps' c'' by (simp add: OnData_def waiting_def)
  with d have "http_codec_call ?cbs ?d (hh_parser h, hh_codec h, w) = Some (Consumed (length ?d) (ps', c', ?w))"
    by (simp add: http_codec_call_def)
  with d have "consume (http_codec_call ?cbs) ?d (hh_parser h, hh_codec h, w) = Some (Used_up (ps', c', ?w))"
    by (simp add: consume.simps)
  moreover have "length ?d < 2 ^ 64" using assms(6) by (simp add: HTTP_MAX_HEADER_SIZE_def)
  ultimately obtain b' where "data_loop (http_codec_call ?cbs) b (hh_parser h, hh_codec h, w) =
      Some (Loop_done b' (ps', c', ?w))" "parser_inv ps'" "buffer_inv b'" "content b' = []"
    using http_data.data_loop_consume [of "(hh_parser h, hh_codec h, w)" b junk h] h(1) assms(2)
    by (auto simp: handler_inv_def)
  then show ?thesis
    using ps'(2) c'(2) by (simp add: HTTPHandler_OnData_def serves_def handler_inv_def)
qed

subsection \<open>The fields of what is received\<close>

lemma ParseUrl_fields [simp]:
  "r_method (ParseUrl r) = r_method r" "r_url (ParseUrl r) = r_url r" "r_body (ParseUrl r) = r_body r"
  "r_is_upgrade (ParseUrl r) = r_is_upgrade r"
  by (simp_all add: ParseUrl_def split: list.split)

lemma received_request_fields:
  "r_method (received_request old r) = http_method_str (rq_method r)" "r_url (received_request old r) = rq_url r"
  "r_body (received_request old r) = received_body old (rq_body r)"
  "\<not> r_is_upgrade (received_request old r)"
  by (simp_all add: received_request_def new_http_request_def)

lemma received_request_header:
  "GetHeader (received_request old r) name = map_of (received_headers old (rq_headers r)) name"
  using map_find_insert_all [of "[]" "received_headers old (rq_headers r)" name]
  by (simp add: GetHeader_def received_request_def)

end
