(* ===== verification/Request_Theorems.thy ===== *)
theory Request_Theorems
  imports Request_Delivery Woody_Theorems
begin

text \<open>
  The properties of whole requests: what the parser reports for them and what the application of
  an HTTP connection gets.
\<close>

text \<open>C2: for requests that follow each other in one buffer, each a request line, header lines and
  a body of the length announced, one call of \<open>http_parser_execute\<close> consumes them all and calls
  the callbacks in their order: the start of the message, the URL, the name and the value of each
  header, the end of the headers with the method, the body, the end of the message. The parser
  then waits for the next request.\<close>

theorem requests_reported:
  assumes "listener st hear" and "waiting ps" and "rs \<noteq> []" and "list_all request_ok rs"
    and "length (concat (map request_text rs)) \<le> HTTP_MAX_HEADER_SIZE"
  shows "\<exists>ps'. http_parser_execute st ps (concat (map request_text rs)) w =
      Some (Returned (length (concat (map request_text rs))) ps'
        (fold hear (concat (map request_events rs)) w)) \<and> waiting ps'"
  by (rule listener.execute_requests [OF assms(1,2,4,3) refl assms(5)])

definition sample_post :: request_parts where
  "sample_post =
     \<lparr>rq_method = HTTP_POST, rq_url = ''/a?x=1'',
      rq_headers = [(''Host'', ''h''), (''Content-Length'', ''3'')], rq_body = ''abc''\<rparr>"

definition sample_get :: request_parts where
  "sample_get =
     \<lparr>rq_method = HTTP_GET, rq_url = ''/'', rq_headers = [(''Host'', ''h'')], rq_body = []\<rparr>"

lemma samples_ok: "request_ok sample_post" "request_ok sample_get"
  by code_simp+

lemma samples_length:
  "length (concat (map request_text [sample_post, sample_get])) \<le> HTTP_MAX_HEADER_SIZE"
  by (simp add: request_text_def request_line_def header_text_def http_method_str_def sample_post_def
      sample_get_def HTTP_MAX_HEADER_SIZE_def)

text \<open>Settings whose callbacks write down what they hear.\<close>

definition recording :: "parser_event list http_parser_settings" where
  "recording =
     http_parser_settings_init
       \<lparr>on_message_begin := Some (\<lambda>ps w. (0, ps, w @ [Message_begin])),
        on_url := Some (\<lambda>s ps w. (0, ps, w @ [Url s])),
        on_header_field := Some (\<lambda>s ps w. (0, ps, w @ [Header_field s])),
        on_header_value := Some (\<lambda>s ps w. (0, ps, w @ [Header_value s])),
        on_headers_complete :=
          Some (\<lambda>ps w. (0, ps, w @ [Headers_complete (method ps) (upgrade ps)])),
        on_body := Some (\<lambda>s ps w. (0, ps, w @ [Body s])),
        on_message_complete := Some (\<lambda>ps w. (0, ps, w @ [Message_complete]))\<rparr>"

lemma recording_listener: "listener recording (\<lambda>ev w. w @ [ev])"
  by unfold_locales (simp_all add: recording_def)

lemma fold_record: "fold (\<lambda>ev w. w @ [ev]) evs w = w @ evs"
  by (induction evs arbitrary: w) simp_all

lemma requests_reported_witness:
  "\<exists>ps'. http_parser_execute recording (http_parser_init HTTP_REQUEST)
      (concat (map request_text [sample_post, sample_get])) [] =
    Some (Returned (length (concat (map request_text [sample_post, sample_get]))) ps'
      [Message_begin, Url ''/a?x=1'', Header_field ''Host'', Header_value ''h'',
       Header_field ''Content-Length'', Header_value ''3'', Headers_complete HTTP_POST False,
       Body ''abc'', Message_complete, Message_begin, Url ''/'', Header_field ''Host'',
       Header_value ''h'', Headers_complete HTTP_GET False, Message_complete]) \<and> waiting ps'"
proof -
  have ok: "list_all request_ok [sample_post, sample_get]" using samples_ok by simp
  have events: "concat (map request_events [sample_post, sample_get]) =
      [Message_begin, Url ''/a?x=1'', Header_field ''Host'', Header_value ''h'',
       Header_field ''Content-Length'', Header_value ''3'', Headers_complete HTTP_POST False,
       Body ''abc'', Message_complete, Message_begin, Url ''/'', Header_field ''Host'',
       Header_value ''h'', Headers_complete HTTP_GET False, Message_complete]"
    by (simp add: request_events_def sample_post_def sample_get_def)
  from requests_reported [OF recording_listener waiting_init _ ok samples_length, of "[]"] show ?thesis
    unfolding fold_record events by simp
qed


definition reporting ::
  "string \<Rightarrow> http_request \<Rightarrow> http_response \<Rightarrow> unit connection \<Rightarrow> unit connection" where
  "reporting name req resp w =
     conn_send (r_method req @ '' '' @ r_url req @ '' '' @ r_body req) w"

definition fresh_connection :: "unit connection" where
  "fresh_connection = \<lparr>conn_ops = [], application = ()\<rparr>"

definition two_requests :: string where
  "two_requests = concat (map request_text [sample_post, sample_get])"

lemma two_requests_length: "length two_requests \<le> HTTP_MAX_HEADER_SIZE"
  using samples_length by (simp add: two_requests_def)

lemma sample_fields:
  "rq_headers sample_post = [(''Host'', ''h''), (''Content-Length'', ''3'')]"
  "rq_headers sample_get = [(''Host'', ''h'')]" "rq_body sample_post = ''abc''"
  "rq_body sample_get = []" "rq_method sample_post = HTTP_POST" "rq_method sample_get = HTTP_GET"
  "rq_url sample_post = ''/a?x=1''" "rq_url sample_get = ''/''"
  by (simp_all add: sample_post_def sample_get_def)




text \<open>C5: the second request on a connection does not: the name of its first header is preceded
  by the name of the last header of the first request, and without a body of its own it gets the
  body of the first request.\<close>

theorem second_request_differs:
  assumes "request_ok r1" and "request_ok r2" and "rq_headers r1 \<noteq> []"
    and "rq_headers r2 = (n, v) # hs" and "buffer_inv b"
    and "content b = request_text r1 @ request_text r2"
    and "length (content b) \<le> HTTP_MAX_HEADER_SIZE"
  shows "\<exists>h' b' req1 req2. HTTPHandler_OnData junk (new_http_handler name cb) b w =
      Some (Handled h' b' (cb name req2 (new_http_response junk) (cb name req1 (new_http_response junk) w))) \<and>
    r_url req1 = rq_url r1 \<and> r_url req2 = rq_url r2 \<and>
    (\<forall>m. GetHeader req2 m = map_of ((fst (last (rq_headers r1)) @ n, v) # hs) m) \<and>
    (rq_body r2 = [] \<longrightarrow> r_body req2 = rq_body r1)"
proof -
  obtain h hs1 where hs: "rq_headers r1 = h # hs1" using assms(3) by (cases "rq_headers r1") auto
  let ?req1 = "received_request ([], [], []) r1" and ?req2 = "received_request (still_held ([], [], []) r1) r2"
  from handler_serves [OF new_handler_serves assms(5), of "[r1, r2]" junk name cb w] assms(1,2,6,7)
  obtain h' b' where "HTTPHandler_OnData junk (new_http_handler name cb) b w =
      Some (Handled h' b' (cb name ?req2 (new_http_response junk) (cb name ?req1 (new_http_response junk) w)))"
    by (auto simp: serve_def new_http_handler_def)
  moreover have "GetHeader ?req2 m = map_of ((fst (last (rq_headers r1)) @ n, v) # hs) m" for m
    by (simp add: received_request_header hs assms(4) Let_def)
  moreover have "rq_body r2 = [] \<longrightarrow> r_body ?req2 = rq_body r1"
    by (simp add: received_request_fields Let_def)
  ultimately show ?thesis using received_request_fields(2) by blast
qed

lemma second_request_differs_witness:
  "\<exists>h' b' req1 req2. HTTPHandler_OnData 0 (new_http_handler ''c'' reporting) (held two_requests)
      fresh_connection = Some (Handled h' b' (reporting ''c'' req2 (new_http_response 0)
        (reporting ''c'' req1 (new_http_response 0) fresh_connection))) \<and>
    GetHeader req2 ''Host'' = None \<and> GetHeader req2 ''Content-LengthHost'' = Some ''h'' \<and>
    r_body req2 = ''abc''"
proof -
  have "rq_headers sample_post \<noteq> []" "rq_headers sample_get = (''Host'', ''h'') # []"
    "buffer_inv (held two_requests)"
    "content (held two_requests) = request_text sample_post @ request_text sample_get"
    "length (content (held two_requests)) \<le> HTTP_MAX_HEADER_SIZE"
    using held_ok [of two_requests] two_requests_length by (simp_all add: sample_fields two_requests_def)
  from second_request_differs [OF samples_ok this, of 0 "''c''" reporting fresh_connection]
  obtain h' b' req1 req2 where "HTTPHandler_OnData 0 (new_http_handler ''c'' reporting)
        (held two_requests) fresh_connection = Some (Handled h' b' (reporting ''c'' req2
          (new_http_response 0) (reporting ''c'' req1 (new_http_response 0) fresh_connection)))"
    "\<forall>m. GetHeader req2 m = map_of [(''Content-LengthHost'', ''h'')] m" "r_body req2 = ''abc''"
    by (auto simp: sample_fields)
  moreover from this(2) have "GetHeader req2 ''Host'' = None"
    "GetHeader req2 ''Content-LengthHost'' = Some ''h''" by simp_all
  ultimately show ?thesis by blast
qed

end
