(* ===== verification/Channel.thy ===== *)
theory Channel
  imports Prelude
begin

text \<open>
  \<open>Channel\<close> of \<^verbatim>\<open>muduo/net/Channel.cc\<close>: the events a file descriptor is watched for, and
  the callbacks that the events it got call. The owner of a tied channel is alive; the poller,
  which is told of every change, is not part of the model.
\<close>

type_synonym events = "32 word"

text \<open>The bits of \<^verbatim>\<open>poll.h\<close>.\<close>

definition POLLIN :: events where "POLLIN = 0x001"
definition POLLPRI :: events where "POLLPRI = 0x002"
definition POLLOUT :: events where "POLLOUT = 0x004"
definition POLLERR :: events where "POLLERR = 0x008"
definition POLLHUP :: events where "POLLHUP = 0x010"
definition POLLNVAL :: events where "POLLNVAL = 0x020"
definition POLLRDHUP :: events where "POLLRDHUP = 0x2000"

lemmas poll_bits = POLLIN_def POLLPRI_def POLLOUT_def POLLERR_def POLLHUP_def POLLNVAL_def
  POLLRDHUP_def

definition kNoneEvent :: events where "kNoneEvent = 0"
definition kReadEvent :: events where "kReadEvent = POLLIN OR POLLPRI"
definition kWriteEvent :: events where "kWriteEvent = POLLOUT"

record channel =
  ch_events :: events
  ch_tied :: bool
  ch_eventHandling :: bool
  ch_addedToLoop :: bool

definition new_channel :: channel where
  "new_channel =
     \<lparr>ch_events = 0, ch_tied = False, ch_eventHandling = False, ch_addedToLoop = False\<rparr>"

definition tie :: "channel \<Rightarrow> channel" where
  "tie c = c\<lparr>ch_tied := True\<rparr>"

definition update :: "channel \<Rightarrow> channel" where
  "update c = c\<lparr>ch_addedToLoop := True\<rparr>"

definition isNoneEvent :: "channel \<Rightarrow> bool" where
  "isNoneEvent c \<longleftrightarrow> ch_events c = kNoneEvent"

text \<open>\<open>None\<close>: the \<open>assert\<close> fails, the channel is still watched for something.\<close>

definition remove_channel :: "channel \<Rightarrow> channel option" where
  "remove_channel c = (if isNoneEvent c then Some (c\<lparr>ch_addedToLoop := False\<rparr>) else None)"

definition enableReading :: "channel \<Rightarrow> channel" where
  "enableReading c = update (c\<lparr>ch_events := ch_events c OR kReadEvent\<rparr>)"

definition disableReading :: "channel \<Rightarrow> channel" where
  "disableReading c = update (c\<lparr>ch_events := ch_events c AND NOT kReadEvent\<rparr>)"

definition enableWriting :: "channel \<Rightarrow> channel" where
  "enableWriting c = update (c\<lparr>ch_events := ch_events c OR kWriteEvent\<rparr>)"

definition disableWriting :: "channel \<Rightarrow> channel" where
  "disableWriting c = update (c\<lparr>ch_events := ch_events c AND NOT kWriteEvent\<rparr>)"

definition disableAll :: "channel \<Rightarrow> channel" where
  "disableAll c = update (c\<lparr>ch_events := kNoneEvent\<rparr>)"

definition isWriting :: "channel \<Rightarrow> bool" where
  "isWriting c \<longleftrightarrow> ch_events c AND kWriteEvent \<noteq> 0"

definition isReading :: "channel \<Rightarrow> bool" where
  "isReading c \<longleftrightarrow> ch_events c AND kReadEvent \<noteq> 0"

text \<open>\<open>handleEventWithGuard\<close>: the callbacks it calls, in their order.\<close>

datatype channel_callback = Close_cb | Error_cb | Read_cb | Write_cb

definition handleEventWithGuard :: "events \<Rightarrow> channel_callback list" where
  "handleEventWithGuard revents =
     (if revents AND POLLHUP \<noteq> 0 \<and> revents AND POLLIN = 0 then [Close_cb] else []) @
     (if revents AND (POLLERR OR POLLNVAL) \<noteq> 0 then [Error_cb] else []) @
     (if revents AND (POLLIN OR POLLPRI OR POLLRDHUP) \<noteq> 0 then [Read_cb] else []) @
     (if revents AND POLLOUT \<noteq> 0 then [Write_cb] else [])"

text \<open>\<open>handleEvent\<close>: nothing happens when the owner of a tied channel is gone.\<close>

definition handleEvent :: "bool \<Rightarrow> channel \<Rightarrow> events \<Rightarrow> channel_callback list" where
  "handleEvent owner_alive c revents =
     (if ch_tied c \<longrightarrow> owner_alive then handleEventWithGuard revents else [])"

subsection \<open>What the operations do to the events\<close>

lemma word_and_bit: "(w :: 32 word) AND push_bit n 1 \<noteq> 0 \<longleftrightarrow> bit w n"
  by (simp add: bit_iff_and_push_bit_not_eq_0)

lemma isWriting_bit: "isWriting c \<longleftrightarrow> bit (ch_events c) 2"
  using word_and_bit [of "ch_events c" 2] by (simp add: isWriting_def kWriteEvent_def POLLOUT_def)

lemma isReading_bit: "isReading c \<longleftrightarrow> bit (ch_events c) 0 \<or> bit (ch_events c) 1"
proof -
  have "ch_events c AND kReadEvent \<noteq> 0 \<longleftrightarrow>
      ch_events c AND POLLIN \<noteq> 0 \<or> ch_events c AND POLLPRI \<noteq> 0"
    using word_or_and_zero_iff [of POLLIN POLLPRI "ch_events c"]
    unfolding kReadEvent_def and.commute [of "ch_events c"] by simp
  moreover have "POLLIN = push_bit 0 1" "POLLPRI = push_bit 1 1"
    by (simp_all add: POLLIN_def POLLPRI_def)
  ultimately have "ch_events c AND kReadEvent \<noteq> 0 \<longleftrightarrow>
      ch_events c AND push_bit 0 1 \<noteq> 0 \<or> ch_events c AND push_bit 1 1 \<noteq> 0"
    by (simp only:)
  then show ?thesis unfolding isReading_def word_and_bit .
qed

lemma event_bits:
  "bit (e OR kReadEvent) 2 = bit e 2" "bit (e OR kReadEvent) 0" "bit (e OR kReadEvent) 1"
  "bit (e OR kReadEvent) (Suc 0)" "bit (e AND NOT kReadEvent) 2 = bit e 2"
  "\<not> bit (e AND NOT kReadEvent) 0" "\<not> bit (e AND NOT kReadEvent) (Suc 0)"
  "bit (e OR kWriteEvent) 2" "bit (e OR kWriteEvent) 0 = bit e 0"
  "bit (e OR kWriteEvent) (Suc 0) = bit e (Suc 0)" "\<not> bit (e AND NOT kWriteEvent) 2"
  "bit (e AND NOT kWriteEvent) 0 = bit e 0" "bit (e AND NOT kWriteEvent) (Suc 0) = bit e (Suc 0)"
  "\<not> bit kNoneEvent n"
proof -
  have r: "bit kReadEvent n \<longleftrightarrow> n = 0 \<or> n = 1" for n
  proof -
    have "bit POLLIN n \<longleftrightarrow> n = 0" "bit POLLPRI n \<longleftrightarrow> n = 1"
      using bit_exp_iff [of 1 n, where 'a = "32 word"]
      by (auto simp: POLLIN_def POLLPRI_def bit_1_iff dest: bit_imp_le_length)
    then show ?thesis by (simp add: kReadEvent_def bit_or_iff)
  qed
  have w: "bit kWriteEvent n \<longleftrightarrow> n = 2" for n
    using bit_exp_iff [of 2 n, where 'a = "32 word"]
    by (auto simp: kWriteEvent_def POLLOUT_def dest: bit_imp_le_length)
  show "bit (e OR kReadEvent) 2 = bit e 2" "bit (e OR kReadEvent) 0" "bit (e OR kReadEvent) 1"
    "bit (e OR kReadEvent) (Suc 0)" "bit (e AND NOT kReadEvent) 2 = bit e 2"
    "\<not> bit (e AND NOT kReadEvent) 0" "\<not> bit (e AND NOT kReadEvent) (Suc 0)"
    "bit (e OR kWriteEvent) 2" "bit (e OR kWriteEvent) 0 = bit e 0"
    "bit (e OR kWriteEvent) (Suc 0) = bit e (Suc 0)" "\<not> bit (e AND NOT kWriteEvent) 2"
    "bit (e AND NOT kWriteEvent) 0 = bit e 0" "bit (e AND NOT kWriteEvent) (Suc 0) = bit e (Suc 0)"
    "\<not> bit kNoneEvent n"
    by (auto simp: bit_or_iff bit_and_iff bit_not_iff r w kNoneEvent_def
        simp flip: word_bw_assocs dest: bit_imp_le_length)
qed

lemma channel_events [simp]:
  "isWriting (enableReading c) = isWriting c" "isReading (enableReading c)"
  "isWriting (disableReading c) = isWriting c" "\<not> isReading (disableReading c)"
  "isWriting (enableWriting c)" "isReading (enableWriting c) = isReading c"
  "\<not> isWriting (disableWriting c)" "isReading (disableWriting c) = isReading c"
  "\<not> isWriting (disableAll c)" "\<not> isReading (disableAll c)" "isNoneEvent (disableAll c)"
  "isWriting (tie c) = isWriting c" "isReading (tie c) = isReading c"
  "isNoneEvent (tie c) = isNoneEvent c"
  unfolding isWriting_bit isReading_bit isNoneEvent_def
  by (simp_all add: enableReading_def disableReading_def enableWriting_def disableWriting_def
      disableAll_def update_def tie_def event_bits)

lemma none_event: "isNoneEvent c \<Longrightarrow> \<not> isWriting c \<and> \<not> isReading c"
  by (simp add: isWriting_bit isReading_bit isNoneEvent_def kNoneEvent_def)

end
