(* ===== verification/Tcp_Connection.thy ===== *)
theory Tcp_Connection
  imports Net_Buffer Channel
begin

text \<open>
  \<open>TcpConnection\<close> of \<^verbatim>\<open>muduo/net/TcpConnection.cc\<close>: the states of a connection, its two
  buffers, and the functors it queues in its event loop. What the system calls return are
  arguments. A flag says whether a call is made in the loop's thread; a call from another thread
  queues a functor. The bytes passed to the kernel are \<open>wire\<close>; \<open>accepted\<close> and \<open>broken\<close> are
  history: the bytes taken over from the callers, and whether a write found the connection broken.
  \<open>None\<close> is a failed \<open>assert\<close>.
\<close>

datatype tcp_state = kDisconnected | kConnecting | kConnected | kDisconnecting

definition stateToString :: "tcp_state \<Rightarrow> string" where
  "stateToString s =
     (case s of
        kDisconnected \<Rightarrow> ''kDisconnected''
      | kConnecting \<Rightarrow> ''kConnecting''
      | kConnected \<Rightarrow> ''kConnected''
      | kDisconnecting \<Rightarrow> ''kDisconnecting'')"

datatype loop_functor =
  Send_in_loop string | Shutdown_in_loop | Force_close_in_loop | Start_read_in_loop
| Stop_read_in_loop | Write_complete | High_water nat | Connect_destroyed

datatype connection_event =
  Connection_callback bool | Message_callback | Close_callback_without_this | Close_callback

text \<open>\<open>sockets::write\<close>: a count, or one of the errors that the code tells apart.\<close>

datatype write_result = Wrote nat | Would_block | Pipe_broken | Write_error

record tcp_connection =
  tc_state :: tcp_state
  tc_channel :: channel
  tc_inputBuffer :: net_buffer
  tc_outputBuffer :: net_buffer
  highWaterMark :: nat
  reading :: bool
  has_writeCompleteCallback :: bool
  has_highWaterMarkCallback :: bool
  has_closeCallbackWithoutThis :: bool
  tc_loop :: "loop_functor list"
  tc_timers :: nat
  tc_events :: "connection_event list"
  wire_bytes :: string
  fin_sent :: bool
  accepted :: string
  broken :: bool

definition new_tcp_connection :: tcp_connection where
  "new_tcp_connection =
     \<lparr>tc_state = kConnecting, tc_channel = new_channel,
      tc_inputBuffer = new_buffer kInitialSize, tc_outputBuffer = new_buffer kInitialSize,
      highWaterMark = 64 * 1024 * 1024, reading = True, has_writeCompleteCallback = False,
      has_highWaterMarkCallback = False, has_closeCallbackWithoutThis = False, tc_loop = [],
      tc_timers = 0, tc_events = [], wire_bytes = [], fin_sent = False, accepted = [],
      broken = False\<rparr>"

definition connected :: "tcp_connection \<Rightarrow> bool" where
  "connected c \<longleftrightarrow> tc_state c = kConnected"

definition setState :: "tcp_state \<Rightarrow> tcp_connection \<Rightarrow> tcp_connection" where
  "setState s c = c\<lparr>tc_state := s\<rparr>"

definition queueInLoop :: "loop_functor \<Rightarrow> tcp_connection \<Rightarrow> tcp_connection" where
  "queueInLoop f c = c\<lparr>tc_loop := tc_loop c @ [f]\<rparr>"

definition event :: "connection_event \<Rightarrow> tcp_connection \<Rightarrow> tcp_connection" where
  "event e c = c\<lparr>tc_events := tc_events c @ [e]\<rparr>"

subsection \<open>Sending\<close>

text \<open>The first half of \<open>sendInLoop\<close>: the direct write; \<open>nwrote\<close>, \<open>remaining\<close>, \<open>faultError\<close>.\<close>

definition write_directly ::
  "string \<Rightarrow> write_result \<Rightarrow> tcp_connection \<Rightarrow> nat \<times> nat \<times> bool \<times> tcp_connection" where
  "write_directly data wr c =
     (if \<not> isWriting (tc_channel c) \<and> readableBytes (tc_outputBuffer c) = 0 then
        (case wr of
           Wrote n \<Rightarrow>
             let c1 = c\<lparr>wire_bytes := wire_bytes c @ take n data\<rparr> in
             (n, length data - n, False,
              if n = length data \<and> has_writeCompleteCallback c then queueInLoop Write_complete c1
              else c1)
         | Pipe_broken \<Rightarrow> (0, length data, True, c\<lparr>broken := True\<rparr>)
         | _ \<Rightarrow> (0, length data, False, c))
      else (0, length data, False, c))"

definition sendInLoop :: "string \<Rightarrow> write_result \<Rightarrow> tcp_connection \<Rightarrow> tcp_connection option" where
  "sendInLoop data wr c0 =
     (if tc_state c0 = kDisconnected then Some c0
      else
        case write_directly data wr (c0\<lparr>accepted := accepted c0 @ data\<rparr>) of
          (nwrote, remaining, faultError, c) \<Rightarrow>
            if length data < nwrote then None
            else if \<not> faultError \<and> remaining > 0 then
              let oldLen = readableBytes (tc_outputBuffer c);
                  c1 = (if oldLen + remaining \<ge> highWaterMark c \<and> oldLen < highWaterMark c \<and>
                            has_highWaterMarkCallback c
                        then queueInLoop (High_water (oldLen + remaining)) c else c)
              in map_option
                   (\<lambda>b. c1\<lparr>tc_outputBuffer := b,
                           tc_channel := (if isWriting (tc_channel c1) then tc_channel c1
                                          else enableWriting (tc_channel c1))\<rparr>)
                   (append_bytes (drop nwrote data) (tc_outputBuffer c1))
            else Some c)"

definition tcp_send :: "bool \<Rightarrow> string \<Rightarrow> write_result \<Rightarrow> tcp_connection \<Rightarrow> tcp_connection option" where
  "tcp_send in_loop data wr c =
     (if tc_state c = kConnected then
        (if in_loop then sendInLoop data wr c else Some (queueInLoop (Send_in_loop data) c))
      else Some c)"

text \<open>\<open>send\<close> of a buffer, which is emptied.\<close>

definition tcp_send_buffer ::
  "bool \<Rightarrow> write_result \<Rightarrow> net_buffer \<Rightarrow> tcp_connection \<Rightarrow> (net_buffer \<times> tcp_connection) option"
where
  "tcp_send_buffer in_loop wr buf c =
     (if tc_state c = kConnected then
        (if in_loop then map_option (Pair (retrieveAll buf)) (sendInLoop (content buf) wr c)
         else map_option (\<lambda>(data, buf'). (buf', queueInLoop (Send_in_loop data) c))
                (retrieveAllAsString buf))
      else Some (buf, c))"

lemma tcp_send_buffer_eq:
  "buffer_inv buf \<Longrightarrow> tcp_send_buffer in_loop wr buf c =
     map_option (Pair (if tc_state c = kConnected then retrieveAll buf else buf))
       (tcp_send in_loop (content buf) wr c)"
  using retrieveAllAsString_ok [of buf] by (auto simp: tcp_send_buffer_def tcp_send_def)

subsection \<open>Closing\<close>

definition shutdownInLoop :: "tcp_connection \<Rightarrow> tcp_connection" where
  "shutdownInLoop c = (if isWriting (tc_channel c) then c else c\<lparr>fin_sent := True\<rparr>)"

definition shutdown :: "bool \<Rightarrow> tcp_connection \<Rightarrow> tcp_connection" where
  "shutdown in_loop c =
     (if tc_state c = kConnected then
        let c1 = setState kDisconnecting c in
        if in_loop then shutdownInLoop c1 else queueInLoop Shutdown_in_loop c1
      else c)"

definition forceClose :: "tcp_connection \<Rightarrow> tcp_connection" where
  "forceClose c =
     (if tc_state c = kConnected \<or> tc_state c = kDisconnecting then
        queueInLoop Force_close_in_loop (setState kDisconnecting c)
      else c)"

definition forceCloseWithDelay :: "tcp_connection \<Rightarrow> tcp_connection" where
  "forceCloseWithDelay c =
     (if tc_state c = kConnected \<or> tc_state c = kDisconnecting then
        (setState kDisconnecting c)\<lparr>tc_timers := tc_timers c + 1\<rparr>
      else c)"

text \<open>
  \<open>handleClose\<close>; the last callback is the server's, which takes the connection out of its map and
  queues \<open>connectDestroyed\<close>.
\<close>

definition handleClose :: "tcp_connection \<Rightarrow> tcp_connection option" where
  "handleClose c =
     (if tc_state c = kConnected \<or> tc_state c = kDisconnecting then
        let c1 = setState kDisconnected c;
            c2 = event (Connection_callback (connected c1))
              (c1\<lparr>tc_channel := disableAll (tc_channel c1)\<rparr>);
            c3 = (if has_closeCallbackWithoutThis c2 then event Close_callback_without_this c2
                  else c2)
        in Some (queueInLoop Connect_destroyed (event Close_callback c3))
      else None)"

definition forceCloseInLoop :: "tcp_connection \<Rightarrow> tcp_connection option" where
  "forceCloseInLoop c =
     (if tc_state c = kConnected \<or> tc_state c = kDisconnecting then handleClose c else Some c)"

subsection \<open>Reading\<close>

definition startReadInLoop :: "tcp_connection \<Rightarrow> tcp_connection" where
  "startReadInLoop c =
     (if \<not> reading c \<or> \<not> isReading (tc_channel c)
      then c\<lparr>tc_channel := enableReading (tc_channel c), reading := True\<rparr> else c)"

definition startRead :: "bool \<Rightarrow> tcp_connection \<Rightarrow> tcp_connection" where
  "startRead in_loop c = (if in_loop then startReadInLoop c else queueInLoop Start_read_in_loop c)"

definition stopReadInLoop :: "tcp_connection \<Rightarrow> tcp_connection" where
  "stopReadInLoop c =
     (if reading c \<or> isReading (tc_channel c)
      then c\<lparr>tc_channel := disableReading (tc_channel c), reading := False\<rparr> else c)"

definition stopRead :: "bool \<Rightarrow> tcp_connection \<Rightarrow> tcp_connection" where
  "stopRead in_loop c = (if in_loop then stopReadInLoop c else queueInLoop Stop_read_in_loop c)"

subsection \<open>The life of a connection\<close>

definition connectEstablished :: "tcp_connection \<Rightarrow> tcp_connection option" where
  "connectEstablished c =
     (if tc_state c = kConnecting then
        let c1 = setState kConnected c;
            c2 = c1\<lparr>tc_channel := enableReading (tie (tc_channel c1))\<rparr>
        in Some (event (Connection_callback (connected c2)) c2)
      else None)"

definition connectDestroyed :: "tcp_connection \<Rightarrow> tcp_connection option" where
  "connectDestroyed c =
     (let c1 =
        (if tc_state c = kConnected then
           let c2 = setState kDisconnected c
           in event (Connection_callback (connected c2))
                (c2\<lparr>tc_channel := disableAll (tc_channel c2)\<rparr>)
         else c)
      in map_option (\<lambda>ch. c1\<lparr>tc_channel := ch\<rparr>) (remove_channel (tc_channel c1)))"

text \<open>
  \<open>handleRead\<close> with what \<open>readv\<close> delivers. The message callback gets the input buffer and
  takes out of it what it wants: \<open>take_out\<close>.
\<close>

definition handleRead ::
  "string option \<Rightarrow> (net_buffer \<Rightarrow> net_buffer) \<Rightarrow> tcp_connection \<Rightarrow> tcp_connection option" where
  "handleRead received take_out c =
     Option.bind (readFd received (tc_inputBuffer c)) (\<lambda>(n, b).
       let c1 = c\<lparr>tc_inputBuffer := b\<rparr> in
       if n > 0 then Some (event Message_callback (c1\<lparr>tc_inputBuffer := take_out b\<rparr>))
       else if n = 0 then handleClose c1
       else Some c1)"

definition defaultMessageCallback :: "net_buffer \<Rightarrow> net_buffer" where
  "defaultMessageCallback = retrieveAll"

definition handleWrite :: "write_result \<Rightarrow> tcp_connection \<Rightarrow> tcp_connection option" where
  "handleWrite wr c =
     (if isWriting (tc_channel c) then
        (case wr of
           Wrote n \<Rightarrow>
             if n > 0 then
               map_option
                 (\<lambda>b. let c1 = c\<lparr>tc_outputBuffer := b,
                          wire_bytes := wire_bytes c @ take n (content (tc_outputBuffer c))\<rparr>
                       in if readableBytes b = 0 then
                            let c2 = c1\<lparr>tc_channel := disableWriting (tc_channel c1)\<rparr>;
                                c3 = (if has_writeCompleteCallback c2
                                      then queueInLoop Write_complete c2 else c2)
                            in if tc_state c3 = kDisconnecting then shutdownInLoop c3 else c3
                          else c1)
                 (retrieve n (tc_outputBuffer c))
             else Some c
         | _ \<Rightarrow> Some c)
      else Some c)"

text \<open>What the loop runs.\<close>

fun run_functor :: "loop_functor \<Rightarrow> write_result \<Rightarrow> tcp_connection \<Rightarrow> tcp_connection option" where
  "run_functor (Send_in_loop data) wr c = sendInLoop data wr c"
| "run_functor Shutdown_in_loop wr c = Some (shutdownInLoop c)"
| "run_functor Force_close_in_loop wr c = forceCloseInLoop c"
| "run_functor Start_read_in_loop wr c = Some (startReadInLoop c)"
| "run_functor Stop_read_in_loop wr c = Some (stopReadInLoop c)"
| "run_functor Write_complete wr c = Some c"
| "run_functor (High_water n) wr c = Some c"
| "run_functor Connect_destroyed wr c = connectDestroyed c"

lemmas tcp_simple_defs =
  setState_def queueInLoop_def event_def connected_def shutdownInLoop_def shutdown_def
  forceClose_def forceCloseWithDelay_def startReadInLoop_def stopReadInLoop_def startRead_def
  stopRead_def Let_def

end
