(* ===== verification/Tcp_Safety.thy ===== *)
theory Tcp_Safety
  imports Tcp_Connection
begin

text \<open>
  A connection in its loop: the calls of its owner, the events of the poller and the functors the
  loop runs, in any order. The invariant of the reachable states shows that no \<open>assert\<close> fails and
  that the bytes written are the bytes accepted, in order.
\<close>

datatype tcp_op =
  Establish | Set_callbacks bool bool bool nat | Send bool string write_result
| Shutdown bool | Force_close | Force_close_later | Timer_expires | Start_read | Stop_read bool
| Readable "string option" "net_buffer \<Rightarrow> net_buffer" | Writable write_result | Hang_up
| Run write_result

fun tcp_do :: "tcp_op \<Rightarrow> tcp_connection \<Rightarrow> tcp_connection option" where
  "tcp_do Establish c = connectEstablished c"
| "tcp_do (Set_callbacks wc hw ct mark) c =
     Some (c\<lparr>has_writeCompleteCallback := wc, has_highWaterMarkCallback := hw,
             has_closeCallbackWithoutThis := ct, highWaterMark := mark\<rparr>)"
| "tcp_do (Send in_loop data wr) c = tcp_send in_loop data wr c"
| "tcp_do (Shutdown in_loop) c = Some (shutdown in_loop c)"
| "tcp_do Force_close c = Some (forceClose c)"
| "tcp_do Force_close_later c = Some (forceCloseWithDelay c)"
| "tcp_do Timer_expires c = Some (forceClose (c\<lparr>tc_timers := tc_timers c - 1\<rparr>))"
| "tcp_do Start_read c = Some (startRead True c)"
| "tcp_do (Stop_read in_loop) c = Some (stopRead in_loop c)"
| "tcp_do (Readable received take_out) c = handleRead received take_out c"
| "tcp_do (Writable wr) c = handleWrite wr c"
| "tcp_do Hang_up c = handleClose c"
| "tcp_do (Run wr) c =
     (case tc_loop c of [] \<Rightarrow> Some c | f # fs \<Rightarrow> run_functor f wr (c\<lparr>tc_loop := fs\<rparr>))"

text \<open>
  What the surroundings keep to: the kernel takes no more than it is given, delivers no more than
  there is room for, and reports events of watched channels; reading is started only on a
  connection that is up.
\<close>

fun fits :: "write_result \<Rightarrow> nat \<Rightarrow> bool" where
  "fits (Wrote n) len \<longleftrightarrow> n \<le> len"
| "fits _ len \<longleftrightarrow> True"

definition up :: "tcp_connection \<Rightarrow> bool" where
  "up c \<longleftrightarrow> tc_state c = kConnected \<or> tc_state c = kDisconnecting"

fun enabled :: "tcp_op \<Rightarrow> tcp_connection \<Rightarrow> bool" where
  "enabled Establish c \<longleftrightarrow> tc_state c = kConnecting"
| "enabled (Send in_loop data wr) c \<longleftrightarrow> fits wr (length data)"
| "enabled Timer_expires c \<longleftrightarrow> 0 < tc_timers c"
| "enabled Start_read c \<longleftrightarrow> up c"
| "enabled (Readable received take_out) c \<longleftrightarrow>
     isReading (tc_channel c) \<and> (\<forall>b. buffer_inv b \<longrightarrow> buffer_inv (take_out b)) \<and>
     (case received of None \<Rightarrow> True | Some s \<Rightarrow> length s \<le> readv_room (tc_inputBuffer c))"
| "enabled (Writable wr) c \<longleftrightarrow> fits wr (readableBytes (tc_outputBuffer c))"
| "enabled Hang_up c \<longleftrightarrow> isReading (tc_channel c) \<or> isWriting (tc_channel c)"
| "enabled (Run wr) c \<longleftrightarrow>
     (case tc_loop c of Send_in_loop data # fs \<Rightarrow> fits wr (length data) | _ \<Rightarrow> True)"
| "enabled _ c \<longleftrightarrow> True"

inductive reachable :: "tcp_connection \<Rightarrow> bool" where
  reachable_new: "reachable new_tcp_connection"
| reachable_step: "reachable c \<Longrightarrow> enabled op c \<Longrightarrow> tcp_do op c = Some c' \<Longrightarrow> reachable c'"

subsection \<open>The invariant\<close>

text \<open>The parts: the buffers, the watched events, the queued functors, the stream.\<close>

definition io_inv :: "tcp_state \<Rightarrow> channel \<Rightarrow> net_buffer \<Rightarrow> bool" where
  "io_inv s ch out \<longleftrightarrow>
     buffer_inv out \<and> (isWriting ch \<longrightarrow> content out \<noteq> []) \<and>
     (s \<in> {kConnected, kDisconnecting} \<and> content out \<noteq> [] \<longrightarrow> isWriting ch) \<and>
     (s \<in> {kDisconnected, kConnecting} \<longrightarrow> isNoneEvent ch) \<and>
     (s = kConnecting \<longrightarrow> content out = [])"

definition queue_inv :: "tcp_state \<Rightarrow> loop_functor list \<Rightarrow> bool" where
  "queue_inv s fs \<longleftrightarrow>
     (Connect_destroyed \<in> set fs \<longrightarrow> s = kDisconnected) \<and> Start_read_in_loop \<notin> set fs \<and>
     (s = kConnecting \<longrightarrow> set fs \<subseteq> {Stop_read_in_loop})"

definition stream_inv :: "tcp_connection \<Rightarrow> bool" where
  "stream_inv c \<longleftrightarrow> (\<not> broken c \<longrightarrow> accepted c = wire_bytes c @ content (tc_outputBuffer c))"

definition tcp_inv :: "tcp_connection \<Rightarrow> bool" where
  "tcp_inv c \<longleftrightarrow>
     buffer_inv (tc_inputBuffer c) \<and> io_inv (tc_state c) (tc_channel c) (tc_outputBuffer c) \<and>
     queue_inv (tc_state c) (tc_loop c) \<and> stream_inv c"

definition keeps :: "tcp_connection \<Rightarrow> tcp_connection option \<Rightarrow> bool" where
  "keeps c r \<longleftrightarrow> (\<exists>c'. r = Some c' \<and> tcp_inv c')"

lemma keeps_Some [simp]: "keeps c (Some c') \<longleftrightarrow> tcp_inv c'"
  by (simp add: keeps_def)

lemmas inv_defs = tcp_inv_def io_inv_def queue_inv_def stream_inv_def

lemma isNoneEvent_disableReading [simp]: "isNoneEvent c \<Longrightarrow> isNoneEvent (disableReading c)"
  by (simp add: isNoneEvent_def disableReading_def update_def kNoneEvent_def)

lemma new_connection_inv: "tcp_inv new_tcp_connection"
  using new_buffer_ok [of kInitialSize]
  by (simp add: inv_defs new_tcp_connection_def none_event isNoneEvent_def new_channel_def
      kNoneEvent_def isWriting_def)

lemma queue_harmless:
  "tcp_inv c \<Longrightarrow> f \<noteq> Connect_destroyed \<Longrightarrow> f \<noteq> Start_read_in_loop \<Longrightarrow>
     tc_state c \<noteq> kConnecting \<or> f = Stop_read_in_loop \<Longrightarrow> tcp_inv (queueInLoop f c)"
  by (auto simp: inv_defs queueInLoop_def)

lemma shutdownInLoop_inv: "tcp_inv c \<Longrightarrow> tcp_inv (shutdownInLoop c)"
  by (auto simp: inv_defs shutdownInLoop_def)

lemma disconnecting_inv: "tcp_inv c \<Longrightarrow> up c \<Longrightarrow> tcp_inv (setState kDisconnecting c)"
  by (auto simp: inv_defs setState_def up_def)

lemma shutdown_inv: "tcp_inv c \<Longrightarrow> tcp_inv (shutdown in_loop c)"
  using disconnecting_inv [of c]
  by (auto simp: shutdown_def Let_def up_def setState_def intro!: shutdownInLoop_inv queue_harmless)

lemma forceClose_inv: "tcp_inv c \<Longrightarrow> tcp_inv (forceClose c)"
  using disconnecting_inv [of c]
  by (auto simp: forceClose_def up_def setState_def intro!: queue_harmless)

lemma timers_inv [simp]: "tcp_inv (c\<lparr>tc_timers := n\<rparr>) = tcp_inv c"
  by (simp add: inv_defs)

lemma forceCloseWithDelay_inv: "tcp_inv c \<Longrightarrow> tcp_inv (forceCloseWithDelay c)"
  using disconnecting_inv [of c] by (auto simp: forceCloseWithDelay_def up_def)

lemma handleClose_inv: "tcp_inv c \<Longrightarrow> up c \<Longrightarrow> keeps c (handleClose c)"
  by (auto simp: handleClose_def up_def inv_defs tcp_simple_defs)

lemma forceCloseInLoop_inv: "tcp_inv c \<Longrightarrow> keeps c (forceCloseInLoop c)"
  using handleClose_inv [of c] by (auto simp: forceCloseInLoop_def up_def)

lemma reading_inv:
  "tcp_inv c \<Longrightarrow> up c \<Longrightarrow> tcp_inv (startReadInLoop c)" "tcp_inv c \<Longrightarrow> tcp_inv (stopReadInLoop c)"
  by (auto simp: startReadInLoop_def stopReadInLoop_def inv_defs up_def)

lemma connectEstablished_inv:
  "tcp_inv c \<Longrightarrow> tc_state c = kConnecting \<Longrightarrow> keeps c (connectEstablished c)"
  using none_event [of "tc_channel c"]
  by (auto simp: connectEstablished_def inv_defs tcp_simple_defs)

lemma connectDestroyed_inv:
  assumes "tcp_inv c" and "tc_state c = kDisconnected"
  shows "keeps c (connectDestroyed c)"
proof -
  have "isNoneEvent (tc_channel c)" using assms by (simp add: inv_defs)
  with assms show ?thesis
    by (auto simp: connectDestroyed_def Let_def remove_channel_def inv_defs isWriting_def
        isNoneEvent_def)
qed

text \<open>Only a connection that is up is watched.\<close>

lemma watched_up:
  assumes "tcp_inv c" and "isReading (tc_channel c) \<or> isWriting (tc_channel c)"
  shows "up c"
proof (rule ccontr)
  assume "\<not> up c"
  then have "tc_state c \<in> {kDisconnected, kConnecting}"
    by (cases "tc_state c") (simp_all add: up_def)
  then have "isNoneEvent (tc_channel c)" using assms(1) unfolding tcp_inv_def io_inv_def by blast
  with assms(2) none_event show False by blast
qed

lemma handleRead_inv:
  assumes "tcp_inv c" and "enabled (Readable received take_out) c"
  shows "keeps c (handleRead received take_out c)"
proof -
  have up: "up c" using watched_up [OF assms(1)] assms(2) by simp
  have room: "length s \<le> readv_room (tc_inputBuffer c)" if "received = Some s" for s
    using assms(2) that by simp
  have "buffer_inv (tc_inputBuffer c)" using assms(1) by (simp add: tcp_inv_def)
  from readFd_ok [OF this room]
  obtain n b where b: "readFd received (tc_inputBuffer c) = Some (n, b)" "buffer_inv b" by blast
  have inv: "tcp_inv (c\<lparr>tc_inputBuffer := b'\<rparr>)" if "buffer_inv b'" for b'
    using assms(1) that by (simp add: inv_defs)
  have "up (c\<lparr>tc_inputBuffer := b\<rparr>)" using up by (simp add: up_def)
  then have "keeps c (handleClose (c\<lparr>tc_inputBuffer := b\<rparr>))"
    using handleClose_inv [OF inv [OF b(2)]] by (simp add: keeps_def)
  moreover have "tcp_inv (event Message_callback (c\<lparr>tc_inputBuffer := take_out b\<rparr>))"
    using inv [of "take_out b"] assms(2) b(2) by (simp add: inv_defs event_def)
  ultimately show ?thesis using b inv by (simp add: handleRead_def Let_def)
qed

subsection \<open>Writing\<close>

lemma readable_zero: "buffer_inv b \<Longrightarrow> readableBytes b = 0 \<longleftrightarrow> content b = []"
  using length_content [of b] by auto

lemma handleWrite_inv:
  assumes "tcp_inv c" and "enabled (Writable wr) c"
  shows "keeps c (handleWrite wr c)"
proof (cases "\<exists>n. wr = Wrote n \<and> 0 < n \<and> isWriting (tc_channel c)")
  case False
  with assms(1) show ?thesis by (auto simp: handleWrite_def split: write_result.split)
next
  case True
  then obtain n where n: "wr = Wrote n" "0 < n" "isWriting (tc_channel c)" by blast
  let ?out = "tc_outputBuffer c"
  have out: "buffer_inv ?out" using assms(1) by (simp add: tcp_inv_def io_inv_def)
  have up: "up c" using watched_up [OF assms(1)] n(3) by simp
  then have len: "n \<le> length (content ?out)"
    using assms(2) length_content [OF out] by (simp add: n(1))
  have "retrieve n ?out \<noteq> None" unfolding retrieve_ok(1) [OF out] using len by simp
  then obtain b where r: "retrieve n ?out = Some b" by blast
  note b = r retrieve_ok(2) [OF out r, THEN conjunct1] retrieve_ok(2) [OF out r, THEN conjunct2]
  let ?c = "c\<lparr>tc_outputBuffer := b, wire_bytes := wire_bytes c @ take n (content ?out)\<rparr>"
  have s: "stream_inv (?c\<lparr>tc_channel := ch\<rparr>)" for ch
    using assms(1) b(3) by (simp add: tcp_inv_def stream_inv_def)
  have q: "queue_inv (tc_state c) (tc_loop c)" "buffer_inv (tc_inputBuffer c)"
    using assms(1) by (simp_all add: tcp_inv_def)
  show ?thesis
  proof (cases "content b = []")
    case False
    then have "io_inv (tc_state c) (tc_channel c) b"
      using b(2) n(3) up by (auto simp: io_inv_def up_def)
    with s [of "tc_channel c"] q have "tcp_inv ?c" by (simp add: tcp_inv_def)
    with False show ?thesis
      using b n readable_zero [OF b(2)] by (simp add: handleWrite_def Let_def)
  next
    case True
    let ?d = "?c\<lparr>tc_channel := disableWriting (tc_channel c)\<rparr>"
    have "io_inv (tc_state c) (disableWriting (tc_channel c)) b"
      using b(2) True up by (auto simp: io_inv_def up_def)
    with s q have "tcp_inv ?d" by (simp add: tcp_inv_def)
    moreover from this have "tcp_inv (queueInLoop Write_complete ?d)"
      using up by (intro queue_harmless) (auto simp: up_def)
    ultimately show ?thesis
      using b n readable_zero [OF b(2)] True
      by (auto simp: handleWrite_def Let_def intro!: shutdownInLoop_inv)
  qed
qed

text \<open>The direct write takes a part of the data; the rest follows what is in the buffer.\<close>

lemma write_directly_ok:
  assumes "tcp_inv c" and "up c" and "fits wr (length data)"
    and "write_directly data wr (c\<lparr>accepted := accepted c @ data\<rparr>) = (nw, rem, fe, c1)"
  shows "nw \<le> length data" and "rem = length data - nw"
    and "tc_state c1 = tc_state c" and "tc_channel c1 = tc_channel c"
    and "tc_inputBuffer c1 = tc_inputBuffer c" and "tc_outputBuffer c1 = tc_outputBuffer c"
    and "queue_inv (tc_state c1) (tc_loop c1)"
    and "\<not> broken c1 \<Longrightarrow>
      \<not> fe \<and> accepted c1 = wire_bytes c1 @ content (tc_outputBuffer c) @ drop nw data"
proof -
  have out: "buffer_inv (tc_outputBuffer c)" using assms(1) by (simp add: inv_defs)
  note * = assms(1,3,4) readable_zero [OF out]
  show "nw \<le> length data" "rem = length data - nw"
    "tc_state c1 = tc_state c" "tc_channel c1 = tc_channel c"
    "tc_inputBuffer c1 = tc_inputBuffer c" "tc_outputBuffer c1 = tc_outputBuffer c"
    using * by (auto simp: write_directly_def Let_def queueInLoop_def
        split: write_result.splits if_splits)
  show "queue_inv (tc_state c1) (tc_loop c1)"
    using * assms(2)
    by (auto simp: write_directly_def Let_def queueInLoop_def tcp_inv_def queue_inv_def up_def
        split: write_result.splits if_splits)
  show "\<not> broken c1 \<Longrightarrow>
      \<not> fe \<and> accepted c1 = wire_bytes c1 @ content (tc_outputBuffer c) @ drop nw data"
    using * by (auto simp: write_directly_def Let_def queueInLoop_def tcp_inv_def stream_inv_def
        split: write_result.splits if_splits)
qed

lemma sendInLoop_inv:
  assumes "tcp_inv c" and "tc_state c \<noteq> kConnecting" and "fits wr (length data)"
  shows "keeps c (sendInLoop data wr c)"
proof (cases "tc_state c = kDisconnected")
  case True
  with assms(1) show ?thesis by (simp add: sendInLoop_def)
next
  case False
  then have up: "up c" using assms(2) by (cases "tc_state c") (auto simp: up_def)
  let ?c0 = "c\<lparr>accepted := accepted c @ data\<rparr>"
  obtain nw rem fe c1 where w: "write_directly data wr ?c0 = (nw, rem, fe, c1)"
    by (metis prod_cases4)
  note ok = write_directly_ok [OF assms(1) up assms(3) w]
  have c1: "buffer_inv (tc_inputBuffer c1)" "io_inv (tc_state c1) (tc_channel c1) (tc_outputBuffer c1)"
    using assms(1) ok(3-6) by (simp_all add: tcp_inv_def)
  show ?thesis
  proof (cases "\<not> fe \<and> 0 < rem")
    case False
    then have "stream_inv c1" using ok by (auto simp: stream_inv_def)
    with c1 ok(7) have "tcp_inv c1" by (simp add: tcp_inv_def)
    with False w ok(1) \<open>tc_state c \<noteq> kDisconnected\<close> show ?thesis by (auto simp: sendInLoop_def)
  next
    case True
    let ?old = "readableBytes (tc_outputBuffer c1)"
    let ?c2 = "if ?old + rem \<ge> highWaterMark c1 \<and> ?old < highWaterMark c1 \<and>
        has_highWaterMarkCallback c1 then queueInLoop (High_water (?old + rem)) c1 else c1"
    have c2: "tc_state ?c2 = tc_state c" "tc_channel ?c2 = tc_channel c"
      "tc_inputBuffer ?c2 = tc_inputBuffer c" "tc_outputBuffer ?c2 = tc_outputBuffer c"
      "queue_inv (tc_state ?c2) (tc_loop ?c2)" "broken ?c2 = broken c1"
      "accepted ?c2 = accepted c1" "wire_bytes ?c2 = wire_bytes c1"
      using ok up by (auto simp: queueInLoop_def queue_inv_def up_def)
    have out: "buffer_inv (tc_outputBuffer c)" using assms(1) by (simp add: inv_defs)
    obtain b where b: "append_bytes (drop nw data) (tc_outputBuffer ?c2) = Some b" "buffer_inv b"
      "content b = content (tc_outputBuffer c) @ drop nw data"
      using append_ok [OF out, of "drop nw data"] c2(4) by auto
    let ?c3 = "?c2\<lparr>tc_outputBuffer := b,
       tc_channel := (if isWriting (tc_channel ?c2) then tc_channel ?c2
                      else enableWriting (tc_channel ?c2))\<rparr>"
    have "drop nw data \<noteq> []" using True ok(2) by simp
    then have "io_inv (tc_state ?c3) (tc_channel ?c3) (tc_outputBuffer ?c3)"
      using b up c2(1) by (auto simp: io_inv_def up_def)
    moreover have "stream_inv ?c3" using ok(8) b(3) c2(6-8) by (simp add: stream_inv_def)
    moreover have "buffer_inv (tc_inputBuffer ?c3)" using c1(1) c2(3) ok(5) by simp
    ultimately have "tcp_inv ?c3" using c2(5) by (simp add: tcp_inv_def)
    moreover have "sendInLoop data wr c = Some ?c3"
      using False True w ok(1) b(1) by (simp add: sendInLoop_def Let_def)
    ultimately show ?thesis by simp
  qed
qed

subsection \<open>Every step\<close>

lemma pop_inv:
  "tcp_inv c \<Longrightarrow> tc_loop c = f # fs \<Longrightarrow> tcp_inv (c\<lparr>tc_loop := fs\<rparr>)"
  by (auto simp: inv_defs)

lemma run_functor_inv:
  assumes "tcp_inv c" and "tc_loop c = f # fs" and "enabled (Run wr) c"
  shows "keeps c (run_functor f wr (c\<lparr>tc_loop := fs\<rparr>))"
proof -
  let ?c = "c\<lparr>tc_loop := fs\<rparr>"
  note inv = pop_inv [OF assms(1,2)]
  have q: "queue_inv (tc_state c) (f # fs)" using assms(1,2) by (simp add: tcp_inv_def)
  show ?thesis
  proof (cases f)
    case (Send_in_loop data)
    with q assms(2,3) sendInLoop_inv [OF inv, of wr data] show ?thesis
      by (auto simp: queue_inv_def keeps_def)
  next
    case Force_close_in_loop
    with forceCloseInLoop_inv [OF inv] show ?thesis by (simp add: keeps_def)
  next
    case Connect_destroyed
    with q connectDestroyed_inv [OF inv] show ?thesis by (simp add: queue_inv_def keeps_def)
  qed (use q inv shutdownInLoop_inv [OF inv] reading_inv(2) [OF inv] in
      \<open>auto simp: queue_inv_def\<close>)
qed

lemma tcp_do_inv:
  assumes "tcp_inv c" and "enabled op c"
  shows "keeps c (tcp_do op c)"
proof (cases op)
  case Establish
  with assms connectEstablished_inv show ?thesis by simp
next
  case (Set_callbacks wc hw ct mark)
  with assms(1) show ?thesis by (simp add: inv_defs)
next
  case (Send in_loop data wr)
  with assms sendInLoop_inv [of c wr data] queue_harmless [of c "Send_in_loop data"] show ?thesis
    by (auto simp: tcp_send_def)
next
  case (Run wr)
  with assms run_functor_inv [OF assms(1) _ assms(2) [unfolded Run]] show ?thesis
    by (cases "tc_loop c") simp_all
next
  case (Readable received take_out)
  with assms handleRead_inv show ?thesis by simp
next
  case (Writable wr)
  with assms handleWrite_inv show ?thesis by simp
next
  case Hang_up
  have "up c" using watched_up [OF assms(1)] assms(2) Hang_up by simp
  with Hang_up assms(1) handleClose_inv show ?thesis by simp
next
  case (Stop_read in_loop)
  with assms(1) reading_inv(2) [of c] queue_harmless [of c Stop_read_in_loop] show ?thesis
    by (simp add: stopRead_def)
next
  case Start_read
  with assms reading_inv(1) [of c] show ?thesis by (simp add: startRead_def)
next
  case Timer_expires
  with assms(1) forceClose_inv [of "c\<lparr>tc_timers := tc_timers c - 1\<rparr>"] show ?thesis by simp
qed (use assms(1) shutdown_inv [of c] forceClose_inv [of c] forceCloseWithDelay_inv [of c] in simp_all)

lemma reachable_inv: "reachable c \<Longrightarrow> tcp_inv c"
proof (induction rule: reachable.induct)
  case reachable_new
  show ?case by (rule new_connection_inv)
next
  case (reachable_step c op c')
  then show ?case using tcp_do_inv [of c op] by (simp add: keeps_def)
qed

subsection \<open>The end of the stream\<close>

lemma fin_after_flush:
  assumes "tcp_inv c" and "up c" and "shutdownInLoop c = c'" and "\<not> fin_sent c" and "fin_sent c'"
  shows "content (tc_outputBuffer c) = [] \<and> (\<not> broken c \<longrightarrow> wire_bytes c = accepted c)"
proof -
  have "\<not> isWriting (tc_channel c)" using assms(3-5) by (auto simp: shutdownInLoop_def)
  with assms(1,2) show ?thesis by (auto simp: inv_defs up_def)
qed

end
