(* ===== verification/Tcp_Theorems.thy ===== *)
theory Tcp_Theorems
  imports Tcp_Safety
begin

text \<open>
  The properties of a connection of the network library.
\<close>

text \<open>Where a connection is destroyed outside its loop's queue, and where reading starts on a dead one.\<close>

lemma connectDestroyed_fails_iff:
  assumes "tcp_inv c"
  shows "connectDestroyed c = None \<longleftrightarrow> tc_state c = kDisconnecting \<and> \<not> isNoneEvent (tc_channel c)"
  using assms
  by (cases "tc_state c")
    (auto simp: connectDestroyed_def remove_channel_def inv_defs tcp_simple_defs Let_def)

lemma start_read_dead:
  assumes "tcp_inv c" and "tc_state c = kDisconnected"
  shows "connectDestroyed (startRead True c) = None"
proof -
  have "isNoneEvent (tc_channel c)" using assms by (simp add: inv_defs)
  then have "isReading (tc_channel (startRead True c))"
    using none_event by (simp add: tcp_simple_defs)
  then have "\<not> isNoneEvent (tc_channel (startRead True c))" using none_event by blast
  then show ?thesis using assms(2) by (simp add: connectDestroyed_def remove_channel_def tcp_simple_defs)
qed

text \<open>C15: a connection on which reading is started only in its loop's thread and while it is up, and which
  is destroyed only by the functor that its closing posts, fails no \<open>assert\<close>, in any order of the calls of its
  owner, the events of the poller and the functors of the loop. Of the two exceptions the theorem states
  what they do: \<open>connectDestroyed\<close> called directly, as the server's destructor does, fails its \<open>assert\<close>
  exactly when the connection is being shut down and its channel is still watched; and after \<open>startRead\<close>
  on a connection that has been closed, \<open>connectDestroyed\<close> fails.\<close>

theorem tcp_no_assert_fails:
  assumes "reachable c" and "enabled op c"
  shows "(\<exists>c'. tcp_do op c = Some c' \<and> reachable c') \<and>
    (connectDestroyed c = None \<longleftrightarrow> tc_state c = kDisconnecting \<and> \<not> isNoneEvent (tc_channel c)) \<and>
    (tc_state c = kDisconnected \<longrightarrow> connectDestroyed (startRead True c) = None)"
proof (intro conjI impI)
  note inv = reachable_inv [OF assms(1)]
  obtain c' where "tcp_do op c = Some c'"
    using tcp_do_inv [OF inv assms(2)] by (auto simp: keeps_def)
  with reachable_step [OF assms] show "\<exists>c'. tcp_do op c = Some c' \<and> reachable c'" by blast
  show "connectDestroyed c = None \<longleftrightarrow> tc_state c = kDisconnecting \<and> \<not> isNoneEvent (tc_channel c)"
    by (rule connectDestroyed_fails_iff [OF inv])
  show "connectDestroyed (startRead True c) = None" if "tc_state c = kDisconnected"
    by (rule start_read_dead [OF inv that])
qed

text \<open>A connection that is established, sends in two parts and is closed.\<close>

fun tcp_run :: "tcp_op list \<Rightarrow> tcp_connection \<Rightarrow> tcp_connection" where
  "tcp_run [] c = c"
| "tcp_run (op # ops) c = (case tcp_do op c of None \<Rightarrow> c | Some c' \<Rightarrow> tcp_run ops c')"

fun all_enabled :: "tcp_op list \<Rightarrow> tcp_connection \<Rightarrow> bool" where
  "all_enabled [] c \<longleftrightarrow> True"
| "all_enabled (op # ops) c \<longleftrightarrow> enabled op c \<and> all_enabled ops (tcp_run [op] c)"

lemma tcp_run_reachable: "reachable c \<Longrightarrow> all_enabled ops c \<Longrightarrow> reachable (tcp_run ops c)"
proof (induction ops arbitrary: c)
  case (Cons op ops)
  then show ?case
    using reachable_step [of c op] by (cases "tcp_do op c") auto
qed simp

definition half_sent :: tcp_connection where
  "half_sent = tcp_run [Establish, Send True ''hello'' (Wrote 2), Shutdown True] new_tcp_connection"

lemmas tcp_eval =
  half_sent_def new_tcp_connection_def connectEstablished_def tcp_send_def sendInLoop_def
  write_directly_def tcp_simple_defs append_bytes_def ensureWritableBytes_def hasWritten_def
  new_buffer_def readableBytes_def writableBytes_def kCheapPrepend_def kInitialSize_def write_at_def

lemma new_not_writing: "\<not> isWriting new_channel"
  by (simp add: isWriting_def new_channel_def)

lemma half_sent_reachable: "reachable half_sent"
  unfolding half_sent_def
  by (rule tcp_run_reachable [OF reachable_new])
    (simp add: tcp_eval new_not_writing)

lemma half_sent_watched: "tc_state half_sent = kDisconnecting" "\<not> isNoneEvent (tc_channel half_sent)"
proof -
  show k: "tc_state half_sent = kDisconnecting" by (simp add: tcp_eval new_not_writing)
  have "readableBytes (tc_outputBuffer half_sent) = 3" by (simp add: tcp_eval new_not_writing)
  then have "content (tc_outputBuffer half_sent) \<noteq> []"
    using reachable_inv [OF half_sent_reachable] length_content [of "tc_outputBuffer half_sent"]
    by (auto simp: inv_defs)
  then have "isWriting (tc_channel half_sent)"
    using reachable_inv [OF half_sent_reachable] k by (simp add: inv_defs)
  then show "\<not> isNoneEvent (tc_channel half_sent)" using none_event by blast
qed

lemma tcp_no_assert_fails_witness:
  "(\<exists>c'. tcp_do (Writable Would_block) half_sent = Some c' \<and> reachable c') \<and>
    connectDestroyed half_sent = None"
  using tcp_no_assert_fails [OF half_sent_reachable, of "Writable Would_block"] half_sent_watched
  by simp

text \<open>C16: the bytes a connection has written and the bytes that wait in its output buffer are, in
  this order, the bytes it has taken over from its callers: none is lost, repeated or passed by
  another, whatever the kernel accepts of each write, as long as no write found the connection
  broken.\<close>

theorem tcp_stream_in_order:
  assumes "reachable c" and "\<not> broken c"
  shows "accepted c = wire_bytes c @ content (tc_outputBuffer c)"
  using reachable_inv [OF assms(1)] assms(2) by (simp add: tcp_inv_def stream_inv_def)

lemma half_sent_state:
  "\<not> broken half_sent" "accepted half_sent = ''hello''" "wire_bytes half_sent = ''he''"
  "\<not> fin_sent half_sent" "tc_state half_sent = kDisconnecting"
  by (simp_all add: tcp_eval new_not_writing)

lemma half_sent_readable: "readableBytes (tc_outputBuffer half_sent) = 3"
  by (simp add: tcp_eval new_not_writing)

lemma tcp_stream_in_order_witness: "content (tc_outputBuffer half_sent) = ''llo''"
  using tcp_stream_in_order [OF half_sent_reachable] by (simp add: half_sent_state)

text \<open>Only \<open>shutdownInLoop\<close> sends the FIN, and only when the channel does not wait to write.\<close>

lemma fin_kept:
  "handleClose c = Some c' \<Longrightarrow> fin_sent c' = fin_sent c"
  "connectEstablished c = Some c' \<Longrightarrow> fin_sent c' = fin_sent c"
  "connectDestroyed c = Some c' \<Longrightarrow> fin_sent c' = fin_sent c"
  "fin_sent (forceClose c) = fin_sent c" "fin_sent (forceCloseWithDelay c) = fin_sent c"
  "fin_sent (startReadInLoop c) = fin_sent c" "fin_sent (stopReadInLoop c) = fin_sent c"
  "fin_sent (queueInLoop f c) = fin_sent c"
  by (auto simp: handleClose_def connectEstablished_def connectDestroyed_def tcp_simple_defs
      split: if_splits)

lemma fin_kept_send: "sendInLoop data wr c = Some c' \<Longrightarrow> fin_sent c' = fin_sent c"
  by (auto simp: sendInLoop_def write_directly_def queueInLoop_def Let_def
      split: if_splits write_result.splits)

lemma fin_kept_read: "handleRead received take_out c = Some c' \<Longrightarrow> fin_sent c' = fin_sent c"
  by (auto simp: handleRead_def event_def Let_def bind_eq_Some_conv dest!: fin_kept(1)
      split: if_splits)

lemma fin_kept_close: "forceCloseInLoop c = Some c' \<Longrightarrow> fin_sent c' = fin_sent c"
  by (auto simp: forceCloseInLoop_def dest: fin_kept(1) split: if_splits)

lemma fin_shutdown:
  "\<not> fin_sent c \<Longrightarrow> fin_sent (shutdownInLoop c) \<Longrightarrow> \<not> isWriting (tc_channel (shutdownInLoop c))"
  by (simp add: shutdownInLoop_def split: if_splits)

lemma fin_not_writing:
  assumes "tcp_do op c = Some c'" and "\<not> fin_sent c" and "fin_sent c'"
  shows "\<not> isWriting (tc_channel c')"
proof (cases op)
  case (Run wr)
  with assms show ?thesis
    using fin_shutdown [of "c\<lparr>tc_loop := tl (tc_loop c)\<rparr>"]
    by (cases "tc_loop c"; cases "hd (tc_loop c)")
      (auto simp: fin_kept dest: fin_kept_send fin_kept_close fin_kept(3))
next
  case (Send in_loop data wr)
  with assms show ?thesis
    by (auto simp: tcp_send_def fin_kept dest: fin_kept_send split: if_splits)
next
  case (Shutdown in_loop)
  with assms show ?thesis
    by (auto simp: shutdown_def Let_def shutdownInLoop_def setState_def queueInLoop_def
        split: if_splits)
next
  case (Writable wr)
  with assms show ?thesis
    by (auto simp: handleWrite_def Let_def shutdownInLoop_def queueInLoop_def
        split: if_splits write_result.splits)
next
  case Start_read
  with assms show ?thesis by (auto simp: startRead_def fin_kept)
next
  case (Stop_read in_loop)
  with assms show ?thesis by (auto simp: stopRead_def fin_kept split: if_splits)
qed (use assms in \<open>auto simp: fin_kept dest: fin_kept(1-3) fin_kept_read\<close>)

text \<open>A connection that is up sends its FIN only when all bytes it has taken over have been
  written.\<close>

theorem tcp_fin_after_data:
  assumes "reachable c" and "enabled op c" and "tcp_do op c = Some c'"
    and "\<not> fin_sent c" and "fin_sent c'" and "up c'" and "\<not> broken c'"
  shows "wire_bytes c' = accepted c'"
proof -
  have inv: "tcp_inv c'" using reachable_inv [OF reachable_step [OF assms(1-3)]] .
  with fin_not_writing [OF assms(3-5)] assms(6) have "content (tc_outputBuffer c') = []"
    by (auto simp: tcp_inv_def io_inv_def up_def)
  with inv assms(7) show ?thesis by (simp add: tcp_inv_def stream_inv_def)
qed

definition flushed :: tcp_connection where
  "flushed = tcp_run [Writable (Wrote 3)] half_sent"

lemma half_sent_flushed: "tcp_do (Writable (Wrote 3)) half_sent = Some flushed"
  unfolding flushed_def
  by (simp add: tcp_eval new_not_writing handleWrite_def retrieve_def retrieveAll_def content_def
      bytes_from_def)

lemma flushed_state:
  "fin_sent flushed" "up flushed" "\<not> broken flushed" "accepted flushed = ''hello''"
  unfolding flushed_def
  by (simp_all add: tcp_eval new_not_writing handleWrite_def retrieve_def retrieveAll_def content_def
      bytes_from_def up_def)

lemma tcp_fin_after_data_witness: "wire_bytes flushed = ''hello''"
  using tcp_fin_after_data [OF half_sent_reachable _ half_sent_flushed half_sent_state(4)
      flushed_state(1-3)] flushed_state(4)
  by (simp add: half_sent_readable)

text \<open>Reading that is started again on a connection that has been closed ends the process:
  its channel is watched again when \<open>connectDestroyed\<close> removes it.\<close>

theorem start_read_after_close:
  assumes "handleClose c = Some c1"
  shows "connectDestroyed (startRead True c1) = None"
proof -
  have d: "tc_state c1 = kDisconnected" "isNoneEvent (tc_channel c1)"
    using assms by (auto simp: handleClose_def tcp_simple_defs split: if_splits)
  then have "isReading (tc_channel (startRead True c1))"
    using none_event [OF d(2)] by (simp add: tcp_simple_defs)
  then have "\<not> isNoneEvent (tc_channel (startRead True c1))" using none_event by blast
  moreover have "tc_state (startRead True c1) = kDisconnected"
    using d(1) by (simp add: tcp_simple_defs)
  ultimately show ?thesis by (simp add: connectDestroyed_def remove_channel_def)
qed


lemma start_read_after_close_witness:
  "\<exists>c. handleClose half_sent = Some c \<and> connectDestroyed (startRead True c) = None"
proof -
  obtain c where "handleClose half_sent = Some c"
    by (simp add: handleClose_def half_sent_state Let_def)
  with start_read_after_close [OF this] show ?thesis by blast
qed


text \<open>
  A server that is destroyed while a connection is being shut down: \<open>connectDestroyed\<close> knows
  only of \<open>kConnected\<close>, and the channel it removes is still watched.
\<close>

lemma destroyed_while_disconnecting:
  "tc_state c = kDisconnecting \<Longrightarrow> isReading (tc_channel c) \<Longrightarrow> connectDestroyed c = None"
  using none_event [of "tc_channel c"] by (auto simp: connectDestroyed_def Let_def remove_channel_def)

end
