(* ===== verification/Muduo_Prelude.thy ===== *)
theory Muduo_Prelude
  imports Prelude "HOL-Library.Monad_Syntax"
begin

text \<open>
  What the models of the event loop's parts share: addresses of objects, and \<open>assert\<close> as a step
  that may fail. A function of these theories returns \<open>None\<close> where the program aborts.
\<close>

type_synonym address = nat

definition C_assert :: "bool \<Rightarrow> unit option" where
  "C_assert b = (if b then Some () else None)"

lemma C_assert_simps [simp]: "C_assert True = Some ()" "C_assert False = None"
  "C_assert b = Some u \<longleftrightarrow> b" "C_assert b = None \<longleftrightarrow> \<not> b"
  by (simp_all add: C_assert_def)

text \<open>A sequence of operations, each of which may fail.\<close>

primrec run_all :: "('op \<Rightarrow> 's \<Rightarrow> 's option) \<Rightarrow> 'op list \<Rightarrow> 's \<Rightarrow> 's option" where
  "run_all step [] s = Some s"
| "run_all step (op # ops) s = Option.bind (step op s) (run_all step ops)"

lemma run_all_invariant:
  assumes "run_all step ops s = Some s'" and "P s"
    and "\<And>op s s'. P s \<Longrightarrow> step op s = Some s' \<Longrightarrow> P s'"
  shows "P s'"
  using assms(1,2)
proof (induction ops arbitrary: s)
  case (Cons op ops)
  then obtain s1 where "step op s = Some s1" "run_all step ops s1 = Some s'"
    by (auto split: bind_splits)
  then show ?case using Cons.IH assms(3) [OF Cons.prems(2)] by blast
qed simp

lemma run_all_append:
  "run_all step (ops1 @ ops2) s = Option.bind (run_all step ops1 s) (run_all step ops2)"
  by (induction ops1 arbitrary: s) (auto split: bind_splits)

text \<open>
  \<open>Timestamp\<close> of \<^verbatim>\<open>muduo/base/Timestamp.h\<close>: microseconds since the epoch. The C++ type keeps them
  in 64 signed bits; times lie so far inside that range (292 thousand years) that they are
  integers here. A \<open>double\<close> of seconds enters the code in two ways only: whether it is positive, and
  as the whole number of microseconds that \<open>static_cast<int64_t>(seconds * 1000000)\<close> gives.
\<close>

type_synonym timestamp = int

definition kMicroSecondsPerSecond :: int where "kMicroSecondsPerSecond = 1000 * 1000"

definition valid_time :: "timestamp \<Rightarrow> bool" where
  "valid_time t \<longleftrightarrow> t > 0"

definition invalid_time :: timestamp where "invalid_time = 0"

definition fromUnixTime :: "int \<Rightarrow> int \<Rightarrow> timestamp" where
  "fromUnixTime t microseconds = t * kMicroSecondsPerSecond + microseconds"

record seconds =
  is_positive :: bool
  in_micros :: int

definition well_formed_seconds :: "seconds \<Rightarrow> bool" where
  "well_formed_seconds s \<longleftrightarrow> (is_positive s \<longrightarrow> 0 \<le> in_micros s)"

definition addTime :: "timestamp \<Rightarrow> seconds \<Rightarrow> timestamp" where
  "addTime t s = t + in_micros s"

text \<open>
  \<open>howMuchTimeFromNow\<close>: the delay that \<open>timerfd_settime\<close> gets, as seconds and nanoseconds. The
  divided number is at least 100, so C's division is \<open>div\<close>.
\<close>

definition howMuchTimeFromNow :: "timestamp \<Rightarrow> timestamp \<Rightarrow> int \<times> int" where
  "howMuchTimeFromNow now when =
     (let microseconds = (if when - now < 100 then 100 else when - now) in
      (microseconds div kMicroSecondsPerSecond,
       (microseconds mod kMicroSecondsPerSecond) * 1000))"

lemma howMuchTimeFromNow_bounds:
  assumes "howMuchTimeFromNow now when = (s, ns)"
  shows "0 \<le> s" "0 \<le> ns" "ns < 1000 * 1000 * 1000"
    "1000 * max 100 (when - now) = 1000 * 1000 * 1000 * s + ns"
proof -
  let ?m = "max 100 (when - now)"
  have m: "(if when - now < 100 then 100 else when - now) = ?m" by auto
  have eq: "s = ?m div 1000000" "ns = ?m mod 1000000 * 1000"
    using assms by (simp_all add: howMuchTimeFromNow_def m kMicroSecondsPerSecond_def Let_def)
  show "0 \<le> s" "0 \<le> ns" by (simp_all add: eq pos_imp_zdiv_nonneg_iff)
  show "ns < 1000 * 1000 * 1000" using pos_mod_bound [of 1000000 ?m] by (simp add: eq)
  have "?m = ?m div 1000000 * 1000000 + ?m mod 1000000" by simp
  then show "1000 * ?m = 1000 * 1000 * 1000 * s + ns" unfolding eq by linarith
qed

text \<open>
  The decimal texts of integers, as \<open>snprintf\<close> writes them for \<^verbatim>\<open>%d\<close>, \<^verbatim>\<open>%ld\<close> and
  \<^verbatim>\<open>%zd\<close>, and what is needed of them: the value can be read back, the characters are
  digits, and the length is bounded.
\<close>

definition digit_char :: "nat \<Rightarrow> char" where
  "digit_char d = ''0123456789'' ! d"

fun decimal :: "nat \<Rightarrow> string" where
  "decimal n = (if n < 10 then [digit_char n] else decimal (n div 10) @ [digit_char (n mod 10)])"

declare decimal.simps [simp del]

definition int_text :: "int \<Rightarrow> string" where
  "int_text i = (if i < 0 then CHR ''-'' # decimal (nat (- i)) else decimal (nat i))"

text \<open>\<open>snprintf\<close> to an array of \<open>n\<close> bytes: the text is cut behind \<open>n - 1\<close> characters.\<close>

definition snprintf_text :: "nat \<Rightarrow> string \<Rightarrow> string" where
  "snprintf_text n s = take (n - 1) s"

lemma below_ten: "d < 10 \<Longrightarrow> d \<in> {0, 1, 2, 3, 4, 5, 6, 7, 8, 9 :: nat}"
  unfolding insert_iff empty_iff by presburger

lemma digit_char_value: "d < 10 \<Longrightarrow> decimal_digit (digit_char d) = d"
proof -
  assume "d < 10"
  then have "d \<in> {0, 1, 2, 3, 4, 5, 6, 7, 8, 9}" by (rule below_ten)
  then show ?thesis by (elim insertE emptyE) (simp_all add: digit_char_def decimal_digit_def)
qed

lemma digit_char_digit: "d < 10 \<Longrightarrow> digit_char d \<in> set ''0123456789''"
  unfolding digit_char_def by (rule nth_mem) simp

lemma decimal_value [simp]: "decimal_from 0 (decimal n) = n"
proof (induction n rule: decimal.induct)
  case (1 n)
  show ?case
  proof (cases "n < 10")
    case True
    then show ?thesis by (subst decimal.simps) (simp add: digit_char_value)
  next
    case False
    then have "decimal_from 0 (decimal n) = n div 10 * 10 + n mod 10"
      using 1 by (subst decimal.simps) (simp add: digit_char_value)
    then show ?thesis by simp
  qed
qed

lemma decimal_digits: "set (decimal n) \<subseteq> set ''0123456789''"
proof (induction n rule: decimal.induct)
  case (1 n)
  then show ?case
    using digit_char_digit [of n] digit_char_digit [of "n mod 10"]
    by (subst decimal.simps) auto
qed

lemma decimal_not_Nil [simp]: "decimal n \<noteq> []"
  by (subst decimal.simps) simp

lemma decimal_length: "n < 10 ^ k \<Longrightarrow> 0 < k \<Longrightarrow> length (decimal n) \<le> k"
proof (induction k arbitrary: n)
  case (Suc k)
  show ?case
  proof (cases "n < 10")
    case True
    then show ?thesis by (subst decimal.simps) simp
  next
    case False
    have "n div 10 < 10 ^ k" using Suc.prems(1) by (simp add: less_mult_imp_div_less)
    moreover have "0 < k" using False Suc.prems(1) by (cases k) auto
    ultimately have "length (decimal (n div 10)) \<le> k" by (rule Suc.IH)
    then show ?thesis using False by (subst decimal.simps) simp
  qed
qed simp

text \<open>The value of a text with an optional sign.\<close>

definition int_value :: "string \<Rightarrow> int" where
  "int_value s = (case s of
     [] \<Rightarrow> 0
   | c # ds \<Rightarrow> if c = CHR ''-'' then - int (decimal_from 0 ds) else int (decimal_from 0 s))"

lemma decimal_no_sign: "decimal n = c # ds \<Longrightarrow> c \<noteq> CHR ''-''"
  using decimal_digits [of n] by auto

lemma int_text_value [simp]: "int_value (int_text i) = i"
proof (cases "i < 0")
  case True
  then show ?thesis by (simp add: int_text_def int_value_def)
next
  case False
  obtain c ds where d: "decimal (nat i) = c # ds" by (cases "decimal (nat i)") auto
  have "int_value (c # ds) = int (decimal_from 0 (c # ds))"
    using decimal_no_sign [OF d] unfolding int_value_def by simp
  then show ?thesis using False decimal_value [of "nat i"] unfolding int_text_def d by simp
qed

lemma int_text_chars: "set (int_text i) \<subseteq> set ''-0123456789''"
proof -
  define digits where "digits = set ''0123456789''"
  have "set (decimal n) \<subseteq> digits" for n unfolding digits_def by (rule decimal_digits)
  moreover have "set ''-0123456789'' = insert (CHR ''-'') digits" by (simp add: digits_def)
  ultimately show ?thesis by (auto simp: int_text_def)
qed

lemma int_text_length:
  assumes "\<bar>i\<bar> < 10 ^ k" and "0 < k"
  shows "length (int_text i) \<le> Suc k"
proof -
  have "nat (- i) < 10 ^ k" "nat i < 10 ^ k" using assms(1) by (auto simp: nat_less_iff)
  then show ?thesis
    using decimal_length [of "nat (- i)" k] decimal_length [of "nat i" k] assms(2)
    by (auto simp: int_text_def)
qed

subsection \<open>Numbers with padding\<close>

text \<open>\<^verbatim>\<open>%0wd\<close> and \<^verbatim>\<open>%wd\<close>.\<close>

definition zero_padded :: "nat \<Rightarrow> int \<Rightarrow> string" where
  "zero_padded w i =
     (let s = decimal (nat \<bar>i\<bar>); sign = (if i < 0 then ''-'' else []) in
      sign @ replicate (w - length sign - length s) (CHR ''0'') @ s)"

definition space_padded :: "nat \<Rightarrow> int \<Rightarrow> string" where
  "space_padded w i = replicate (w - length (int_text i)) (CHR '' '') @ int_text i"

lemma zero_padded_length:
  assumes "0 \<le> i" and "i < 10 ^ w" and "0 < w"
  shows "length (zero_padded w i) = w"
proof -
  have "nat i < 10 ^ w" using assms(1,2) by (simp add: nat_less_iff)
  from decimal_length [OF this assms(3)] show ?thesis using assms(1) by (simp add: zero_padded_def Let_def)
qed

lemma space_padded_length: "length (int_text i) \<le> w \<Longrightarrow> length (space_padded w i) = w"
  by (simp add: space_padded_def)

end
