(* ===== verification/Timer_Queue.thy ===== *)
theory Timer_Queue
  imports Prelude "HOL-Library.Product_Lexorder" Muduo_Prelude
begin

text \<open>
  \<open>std::set\<close> as the ascending list of its elements, in the order an iterator visits them. Pairs are
  ordered by their first component, then by the second, as \<open>std::pair\<close> is. Then \<open>Timer\<close> and
  \<open>TimerQueue\<close> of \<^verbatim>\<open>muduo/net/TimerQueue.cc\<close>, which keeps its timers in two such sets.
\<close>

abbreviation ascending :: "'a::linorder list \<Rightarrow> bool" where
  "ascending xs \<equiv> sorted xs \<and> distinct xs"

text \<open>\<open>insert\<close>: the set, and whether the element is new.\<close>

definition set_insert :: "'a::linorder \<Rightarrow> 'a list \<Rightarrow> 'a list \<times> bool" where
  "set_insert x xs = (if x \<in> set xs then (xs, False) else (insort x xs, True))"

text \<open>\<open>erase\<close> of a key: the set, and how many elements went.\<close>

definition set_erase :: "'a::linorder \<Rightarrow> 'a list \<Rightarrow> 'a list \<times> nat" where
  "set_erase x xs = (remove1 x xs, if x \<in> set xs then 1 else 0)"

text \<open>\<open>lower_bound\<close> splits the set before the first element that is not below the key.\<close>

definition below :: "'a::linorder \<Rightarrow> 'a list \<Rightarrow> 'a list" where
  "below x xs = takeWhile (\<lambda>y. y < x) xs"

definition from_bound :: "'a::linorder \<Rightarrow> 'a list \<Rightarrow> 'a list" where
  "from_bound x xs = dropWhile (\<lambda>y. y < x) xs"

lemma ascending_insort: "ascending xs \<Longrightarrow> x \<notin> set xs \<Longrightarrow> ascending (insort x xs)"
  by (simp add: sorted_insort distinct_insort)

lemma ascending_remove1: "ascending xs \<Longrightarrow> ascending (remove1 x xs)"
  by (simp add: sorted_remove1)

lemma set_insert_new:
  "x \<notin> set xs \<Longrightarrow> set_insert x xs = (insort x xs, True)"
  by (simp add: set_insert_def)

lemma set_erase_member:
  "x \<in> set xs \<Longrightarrow> set_erase x xs = (remove1 x xs, 1)"
  by (simp add: set_erase_def)

lemma below_from_bound: "below x xs @ from_bound x xs = xs"
  by (simp add: below_def from_bound_def)

lemma set_below: "ascending xs \<Longrightarrow> set (below x xs) = {y \<in> set xs. y < x}"
proof (induction xs)
  case (Cons y ys)
  then show ?case by (cases "y < x") (auto simp: below_def)
qed (simp add: below_def)

lemma set_from_bound: "ascending xs \<Longrightarrow> set (from_bound x xs) = {y \<in> set xs. x \<le> y}"
proof (induction xs)
  case (Cons y ys)
  then show ?case by (cases "y < x") (auto simp: from_bound_def)
qed (simp add: from_bound_def)

lemma ascending_below: "ascending xs \<Longrightarrow> ascending (below x xs)"
  by (simp add: below_def sorted_takeWhile)

lemma ascending_from_bound: "ascending xs \<Longrightarrow> ascending (from_bound x xs)"
  by (simp add: from_bound_def sorted_dropWhile distinct_dropWhile)

text \<open>Two ascending lists with the same elements are the same list.\<close>

lemma ascending_eq: "ascending xs \<Longrightarrow> ascending ys \<Longrightarrow> set xs = set ys \<Longrightarrow> xs = ys"
  by (simp add: sorted_distinct_set_unique)

lemma ascending_hd: "ascending xs \<Longrightarrow> x \<in> set xs \<Longrightarrow> hd xs \<le> x"
  by (cases xs) auto

lemma hd_insort: "hd (insort x xs) = (if xs = [] \<or> x \<le> hd xs then x else hd xs)"
  by (cases xs) auto

text \<open>
  \<open>TimerQueue\<close> of \<^verbatim>\<open>muduo/net/TimerQueue.cc\<close> and its \<open>Timer\<close>s. Timers are allocated objects: a
  timer is an address, what is stored there is \<open>objects\<close>, and \<open>delete\<close> empties the place, so that a
  later use of it is an error. \<open>None\<close> is a failed \<open>assert\<close> or the use of a deleted timer. The file
  descriptor of the timer is the expiration it was last set to, while it has not gone off. Calls
  from other threads queue a functor in the event loop.
\<close>

definition UINTPTR_MAX :: address where "UINTPTR_MAX = 2 ^ 64 - 1"

record timer =
  callback :: nat
  expiration :: timestamp
  interval :: seconds
  repeats :: bool
  sequence :: int

definition new_Timer :: "nat \<Rightarrow> timestamp \<Rightarrow> seconds \<Rightarrow> int \<Rightarrow> timer" where
  "new_Timer cb when i s =
     \<lparr>callback = cb, expiration = when, interval = i, repeats = is_positive i, sequence = s\<rparr>"

definition restart :: "timestamp \<Rightarrow> timer \<Rightarrow> timer" where
  "restart now t =
     (if repeats t then t\<lparr>expiration := addTime now (interval t)\<rparr>
      else t\<lparr>expiration := invalid_time\<rparr>)"

type_synonym timer_id = "address \<times> int"

datatype timer_functor = Add_in_loop address | Cancel_in_loop timer_id

record timer_queue =
  timers :: "(timestamp \<times> address) list"
  activeTimers :: "(address \<times> int) list"
  callingExpiredTimers :: bool
  cancelingTimers :: "(address \<times> int) list"
  objects :: "address \<Rightarrow> timer option"
  numCreated :: int
  alarm :: "timestamp option"
  posted :: "timer_functor list"

definition new_timer_queue :: timer_queue where
  "new_timer_queue =
     \<lparr>timers = [], activeTimers = [], callingExpiredTimers = False, cancelingTimers = [],
      objects = (\<lambda>_. None), numCreated = 0, alarm = None, posted = []\<rparr>"

definition resetTimerfd :: "timestamp \<Rightarrow> timer_queue \<Rightarrow> timer_queue" where
  "resetTimerfd when q = q\<lparr>alarm := Some when\<rparr>"

definition readTimerfd :: "timer_queue \<Rightarrow> timer_queue" where
  "readTimerfd q = q\<lparr>alarm := None\<rparr>"

subsection \<open>Adding\<close>

definition insert_timer :: "address \<Rightarrow> timer_queue \<Rightarrow> (bool \<times> timer_queue) option" where
  "insert_timer a q = do {
     C_assert (length (timers q) = length (activeTimers q));
     t \<leftarrow> objects q a;
     let when = expiration t;
     let earliestChanged = (timers q = [] \<or> when < fst (hd (timers q)));
     let (ts, new_entry) = set_insert (when, a) (timers q);
     C_assert new_entry;
     let (act, new_active) = set_insert (a, sequence t) (activeTimers q);
     C_assert new_active;
     C_assert (length ts = length act);
     Some (earliestChanged, q\<lparr>timers := ts, activeTimers := act\<rparr>)
   }"

definition addTimerInLoop :: "address \<Rightarrow> timer_queue \<Rightarrow> timer_queue option" where
  "addTimerInLoop a q = do {
     (earliestChanged, q) \<leftarrow> insert_timer a q;
     t \<leftarrow> objects q a;
     Some (if earliestChanged then resetTimerfd (expiration t) q else q)
   }"

text \<open>
  \<open>addTimer\<close>: \<open>new\<close> has chosen the address; the number of timers created is the new one's sequence
  number.
\<close>

definition addTimer ::
  "bool \<Rightarrow> address \<Rightarrow> nat \<Rightarrow> timestamp \<Rightarrow> seconds \<Rightarrow> timer_queue \<Rightarrow> (timer_id \<times> timer_queue) option"
where
  "addTimer in_loop a cb when i q = (
     let s = numCreated q + 1;
         q1 = q\<lparr>numCreated := s, objects := (objects q)(a \<mapsto> new_Timer cb when i s)\<rparr>
     in map_option (Pair (a, s))
          (if in_loop then addTimerInLoop a q1
           else Some (q1\<lparr>posted := posted q1 @ [Add_in_loop a]\<rparr>)))"

subsection \<open>Cancelling\<close>

definition cancelInLoop :: "timer_id \<Rightarrow> timer_queue \<Rightarrow> timer_queue option" where
  "cancelInLoop i q = do {
     C_assert (length (timers q) = length (activeTimers q));
     q \<leftarrow> (if i \<in> set (activeTimers q) then do {
             t \<leftarrow> objects q (fst i);
             let (ts, n) = set_erase (expiration t, fst i) (timers q);
             C_assert (n = 1);
             Some (q\<lparr>timers := ts, objects := (objects q)(fst i := None),
                     activeTimers := fst (set_erase i (activeTimers q))\<rparr>)
           }
           else if callingExpiredTimers q then
             Some (q\<lparr>cancelingTimers := fst (set_insert i (cancelingTimers q))\<rparr>)
           else Some q);
     C_assert (length (timers q) = length (activeTimers q));
     Some q
   }"

definition cancel :: "bool \<Rightarrow> timer_id \<Rightarrow> timer_queue \<Rightarrow> timer_queue option" where
  "cancel in_loop i q =
     (if in_loop then cancelInLoop i q
      else Some (q\<lparr>posted := posted q @ [Cancel_in_loop i]\<rparr>))"

subsection \<open>Running what has expired\<close>

primrec erase_active :: "(timestamp \<times> address) list \<Rightarrow> timer_queue \<Rightarrow> timer_queue option" where
  "erase_active [] q = Some q"
| "erase_active (e # es) q = do {
     t \<leftarrow> objects q (snd e);
     let (act, n) = set_erase (snd e, sequence t) (activeTimers q);
     C_assert (n = 1);
     erase_active es (q\<lparr>activeTimers := act\<rparr>)
   }"

definition getExpired ::
  "timestamp \<Rightarrow> timer_queue \<Rightarrow> ((timestamp \<times> address) list \<times> timer_queue) option" where
  "getExpired now q = do {
     C_assert (length (timers q) = length (activeTimers q));
     let sentry = (now, UINTPTR_MAX);
     let expired = below sentry (timers q);
     let rest = from_bound sentry (timers q);
     C_assert (rest = [] \<or> now < fst (hd rest));
     q \<leftarrow> erase_active expired (q\<lparr>timers := rest\<rparr>);
     C_assert (length (timers q) = length (activeTimers q));
     Some (expired, q)
   }"

primrec reset_expired ::
  "(timestamp \<times> address) list \<Rightarrow> timestamp \<Rightarrow> timer_queue \<Rightarrow> timer_queue option" where
  "reset_expired [] now q = Some q"
| "reset_expired (e # es) now q = do {
     t \<leftarrow> objects q (snd e);
     q \<leftarrow> (if repeats t \<and> (snd e, sequence t) \<notin> set (cancelingTimers q)
           then map_option snd
                  (insert_timer (snd e) (q\<lparr>objects := (objects q)(snd e \<mapsto> restart now t)\<rparr>))
           else Some (q\<lparr>objects := (objects q)(snd e := None)\<rparr>));
     reset_expired es now q
   }"

definition reset ::
  "(timestamp \<times> address) list \<Rightarrow> timestamp \<Rightarrow> timer_queue \<Rightarrow> timer_queue option" where
  "reset expired now q = do {
     q \<leftarrow> reset_expired expired now q;
     nextExpire \<leftarrow> (if timers q = [] then Some invalid_time
                   else map_option expiration (objects q (snd (hd (timers q)))));
     Some (if valid_time nextExpire then resetTimerfd nextExpire q else q)
   }"

text \<open>
  What a timer's callback calls while it runs: it adds and cancels timers, in the loop's thread.
\<close>

datatype timer_call = Call_add address nat timestamp seconds | Call_cancel timer_id

fun run_call :: "timer_call \<Rightarrow> timer_queue \<Rightarrow> timer_queue option" where
  "run_call (Call_add a cb when i) q = map_option snd (addTimer True a cb when i q)"
| "run_call (Call_cancel i) q = cancel True i q"

primrec run_calls :: "timer_call list \<Rightarrow> timer_queue \<Rightarrow> timer_queue option" where
  "run_calls [] q = Some q"
| "run_calls (c # cs) q = Option.bind (run_call c q) (run_calls cs)"

text \<open>The loop of \<open>handleRead\<close>: the callbacks run, and what each of them calls.\<close>

primrec run_expired ::
  "(timestamp \<times> address) list \<Rightarrow> (address \<Rightarrow> timer_call list) \<Rightarrow> timer_queue \<Rightarrow>
     (nat list \<times> timer_queue) option" where
  "run_expired [] calls q = Some ([], q)"
| "run_expired (e # es) calls q = do {
     t \<leftarrow> objects q (snd e);
     q \<leftarrow> run_calls (calls (snd e)) q;
     (ran, q) \<leftarrow> run_expired es calls q;
     Some (callback t # ran, q)
   }"

definition handle_timers ::
  "timestamp \<Rightarrow> (address \<Rightarrow> timer_call list) \<Rightarrow> timer_queue \<Rightarrow> (nat list \<times> timer_queue) option"
where
  "handle_timers now calls q = do {
     (expired, q) \<leftarrow> getExpired now (readTimerfd q);
     (ran, q) \<leftarrow> run_expired expired calls
                  (q\<lparr>callingExpiredTimers := True, cancelingTimers := []\<rparr>);
     q \<leftarrow> reset expired now (q\<lparr>callingExpiredTimers := False\<rparr>);
     Some (ran, q)
   }"

text \<open>The functors the event loop runs for the queue, one at a time.\<close>

definition run_posted :: "timer_queue \<Rightarrow> timer_queue option" where
  "run_posted q =
     (case posted q of
        [] \<Rightarrow> Some q
      | Add_in_loop a # fs \<Rightarrow> addTimerInLoop a (q\<lparr>posted := fs\<rparr>)
      | Cancel_in_loop i # fs \<Rightarrow> cancelInLoop i (q\<lparr>posted := fs\<rparr>))"

end
