(* ===== verification/Timer_Safety.thy ===== *)
theory Timer_Safety
  imports Timer_Queue
begin

text \<open>
  The invariant of a timer queue: the two sets hold the same timers, every timer they name is
  allocated, and every allocated timer is in the sets, on its way to the loop, or in the hands of
  \<open>handleRead\<close>. It is kept by every operation, so no \<open>assert\<close> fails, no deleted timer is used and
  none is leaked.
\<close>

primrec to_add :: "timer_functor list \<Rightarrow> address list" where
  "to_add [] = []"
| "to_add (f # fs) = (case f of Add_in_loop a \<Rightarrow> a # to_add fs | Cancel_in_loop i \<Rightarrow> to_add fs)"

lemma to_add_append [simp]: "to_add (xs @ ys) = to_add xs @ to_add ys"
  by (induction xs) (auto split: timer_functor.splits)

abbreviation places :: "timer_queue \<Rightarrow> address set" where
  "places q \<equiv> snd ` set (timers q)"

definition good_timer :: "int \<Rightarrow> timer \<Rightarrow> bool" where
  "good_timer n t \<longleftrightarrow>
     well_formed_seconds (interval t) \<and> repeats t = is_positive (interval t) \<and> sequence t \<le> n"

text \<open>The timers of the sets and of memory; \<open>b\<close> are the timers that \<open>handleRead\<close> holds.\<close>

definition sets_inv :: "timer_queue \<Rightarrow> bool" where
  "sets_inv q \<longleftrightarrow>
     ascending (timers q) \<and> ascending (activeTimers q) \<and>
     (\<forall>w a. (w, a) \<in> set (timers q) \<longrightarrow> (\<exists>t. objects q a = Some t \<and> expiration t = w)) \<and>
     (\<forall>a s. (a, s) \<in> set (activeTimers q) \<longleftrightarrow>
        (\<exists>t. objects q a = Some t \<and> sequence t = s \<and> (expiration t, a) \<in> set (timers q)))"

definition memory_inv :: "address list \<Rightarrow> timer_queue \<Rightarrow> bool" where
  "memory_inv b q \<longleftrightarrow>
     distinct (to_add (posted q) @ b) \<and> places q \<inter> set (to_add (posted q) @ b) = {} \<and>
     dom (objects q) = places q \<union> set (to_add (posted q) @ b)"

definition timers_inv :: "timer_queue \<Rightarrow> bool" where
  "timers_inv q \<longleftrightarrow>
     (\<forall>a t. objects q a = Some t \<longrightarrow> a < UINTPTR_MAX \<and> good_timer (numCreated q) t) \<and>
     inj_on (\<lambda>a. sequence (the (objects q a))) (dom (objects q))"

definition queue_inv :: "address list \<Rightarrow> timer_queue \<Rightarrow> bool" where
  "queue_inv b q \<longleftrightarrow> sets_inv q \<and> memory_inv b q \<and> timers_inv q"

lemmas inv_defs = queue_inv_def sets_inv_def memory_inv_def timers_inv_def

lemma entry_stored:
  "sets_inv q \<Longrightarrow> (w, a) \<in> set (timers q) \<Longrightarrow> \<exists>t. objects q a = Some t \<and> expiration t = w"
  by (simp add: sets_inv_def)

lemma active_iff:
  "sets_inv q \<Longrightarrow> (a, s) \<in> set (activeTimers q) \<longleftrightarrow>
     (\<exists>t. objects q a = Some t \<and> sequence t = s \<and> (expiration t, a) \<in> set (timers q))"
  by (simp add: sets_inv_def)

lemma same_length: "sets_inv q \<Longrightarrow> length (timers q) = length (activeTimers q)"
proof -
  assume inv: "sets_inv q"
  let ?f = "\<lambda>(w, a). (a, sequence (the (objects q a)))"
  have "inj_on ?f (set (timers q))"
    by (rule inj_onI) (auto dest!: entry_stored [OF inv])
  moreover have "set (activeTimers q) = ?f ` set (timers q)"
  proof (intro equalityI subsetI)
    fix x assume "x \<in> set (activeTimers q)"
    then obtain t where "objects q (fst x) = Some t" "sequence t = snd x"
        "(expiration t, fst x) \<in> set (timers q)"
      using active_iff [OF inv, of "fst x" "snd x"] by auto
    then show "x \<in> ?f ` set (timers q)" by (intro image_eqI [where x = "(expiration t, fst x)"]) auto
  next
    fix x assume "x \<in> ?f ` set (timers q)"
    then obtain w a where "(w, a) \<in> set (timers q)" "x = (a, sequence (the (objects q a)))" by auto
    then show "x \<in> set (activeTimers q)"
      using entry_stored [OF inv, of w a] by (auto simp: active_iff [OF inv])
  qed
  moreover have "distinct (timers q)" "distinct (activeTimers q)"
    using inv by (simp_all add: sets_inv_def)
  ultimately show ?thesis by (metis card_image distinct_card)
qed

lemma not_active: "sets_inv q \<Longrightarrow> a \<notin> places q \<Longrightarrow> (a, s) \<notin> set (activeTimers q)"
  by (force simp: active_iff)

subsection \<open>Inserting a timer\<close>

lemma insert_sets:
  assumes inv: "sets_inv q" and t: "objects q a = Some t" and new: "a \<notin> places q"
  shows "sets_inv (q\<lparr>timers := insort (expiration t, a) (timers q),
                    activeTimers := insort (a, sequence t) (activeTimers q)\<rparr>)"
proof -
  have "(expiration t, a) \<notin> set (timers q)" using new by force
  moreover have "(a, sequence t) \<notin> set (activeTimers q)" by (rule not_active [OF inv new])
  ultimately show ?thesis
    using inv t unfolding sets_inv_def
    by (simp add: set_insort_key sorted_insort distinct_insort) fastforce
qed

lemma insert_timer_ok:
  assumes inv: "queue_inv (a # b) q" and t: "objects q a = Some t"
  defines "q' \<equiv> q\<lparr>timers := insort (expiration t, a) (timers q),
                  activeTimers := insort (a, sequence t) (activeTimers q)\<rparr>"
  shows "insert_timer a q =
      Some (timers q = [] \<or> expiration t < fst (hd (timers q)), q')"
    and "queue_inv b q'"
proof -
  have sets: "sets_inv q" and new: "a \<notin> places q"
    using inv by (auto simp: queue_inv_def memory_inv_def)
  have sets': "sets_inv q'" unfolding q'_def by (rule insert_sets [OF sets t new])
  have "(expiration t, a) \<notin> set (timers q)" using new by force
  moreover have "(a, sequence t) \<notin> set (activeTimers q)" by (rule not_active [OF sets new])
  ultimately show "insert_timer a q =
      Some (timers q = [] \<or> expiration t < fst (hd (timers q)), q')"
    using same_length [OF sets] t
    by (simp add: insert_timer_def set_insert_new q'_def Let_def)
  have "places q' = insert a (places q)" by (auto simp: q'_def set_insort_key image_iff)
  then have "memory_inv b q'"
    using inv by (auto simp: queue_inv_def memory_inv_def q'_def)
  moreover have "timers_inv q'"
    using inv by (simp add: queue_inv_def timers_inv_def q'_def)
  ultimately show "queue_inv b q'" using sets' by (simp add: queue_inv_def)
qed

lemma queue_inv_more [simp]:
  "queue_inv b (q\<lparr>alarm := x\<rparr>) = queue_inv b q"
  "queue_inv b (q\<lparr>callingExpiredTimers := c\<rparr>) = queue_inv b q"
  "queue_inv b (q\<lparr>cancelingTimers := xs\<rparr>) = queue_inv b q"
  by (simp_all add: inv_defs)

lemma parts_inv_posted [simp]:
  "sets_inv (q\<lparr>posted := fs\<rparr>) = sets_inv q" "timers_inv (q\<lparr>posted := fs\<rparr>) = timers_inv q"
  by (simp_all add: sets_inv_def timers_inv_def)

lemma addTimerInLoop_ok:
  assumes "queue_inv (a # b) q" and "objects q a = Some t"
  shows "addTimerInLoop a q =
           Some ((if timers q = [] \<or> expiration t < fst (hd (timers q))
                  then resetTimerfd (expiration t) else (\<lambda>q. q))
                 (q\<lparr>timers := insort (expiration t, a) (timers q),
                    activeTimers := insort (a, sequence t) (activeTimers q)\<rparr>))"
    and "addTimerInLoop a q = Some q' \<Longrightarrow> queue_inv b q'"
  using insert_timer_ok [OF assms] assms(2)
  by (auto simp: addTimerInLoop_def resetTimerfd_def)

lemma post_add:
  "queue_inv (a # b) q \<Longrightarrow> queue_inv b (q\<lparr>posted := posted q @ [Add_in_loop a]\<rparr>)"
  by (auto simp: queue_inv_def memory_inv_def)

text \<open>What \<open>new\<close> may return, and what the caller may ask for.\<close>

definition fresh :: "address \<Rightarrow> seconds \<Rightarrow> timer_queue \<Rightarrow> bool" where
  "fresh a i q \<longleftrightarrow> objects q a = None \<and> a < UINTPTR_MAX \<and> well_formed_seconds i"

lemma allocate_ok:
  fixes cb :: nat and w :: timestamp
  assumes inv: "queue_inv b q" and fresh: "fresh a i q"
  defines "q' \<equiv> q\<lparr>numCreated := numCreated q + 1,
                 objects := (objects q)(a \<mapsto> new_Timer cb w i (numCreated q + 1))\<rparr>"
  shows "queue_inv (a # b) q'"
proof -
  have new: "a \<notin> places q" "a \<notin> set (to_add (posted q) @ b)"
  proof -
    have "a \<notin> dom (objects q)" using fresh by (simp add: fresh_def domIff)
    then show "a \<notin> places q" "a \<notin> set (to_add (posted q) @ b)"
      using inv by (auto simp: queue_inv_def memory_inv_def simp del: domIff)
  qed
  have "sets_inv q'"
  proof -
    have "(w', a) \<notin> set (timers q)" for w' using new(1) by force
    then show ?thesis
      using inv not_active [OF _ new(1)]
      by (simp add: queue_inv_def sets_inv_def q'_def)
  qed
  moreover have "memory_inv (a # b) q'"
    using inv new by (auto simp: queue_inv_def memory_inv_def q'_def)
  moreover have "timers_inv q'"
  proof -
    have "sequence (the (objects q x)) \<le> numCreated q" if "x \<in> dom (objects q)" for x
      using inv that by (auto simp: queue_inv_def timers_inv_def good_timer_def)
    moreover have "inj_on (\<lambda>a. sequence (the (objects q a))) (dom (objects q))"
      using inv by (simp add: queue_inv_def timers_inv_def)
    ultimately have "inj_on (\<lambda>a. sequence (the (objects q' a))) (dom (objects q'))"
      by (force simp: q'_def inj_on_def new_Timer_def)
    moreover have "x < UINTPTR_MAX \<and> good_timer (numCreated q') t" if "objects q' x = Some t" for x t
      using inv fresh that
      by (auto simp: queue_inv_def timers_inv_def fresh_def q'_def good_timer_def new_Timer_def
          split: if_splits dest!: spec [of _ x])
    ultimately show ?thesis by (simp add: timers_inv_def)
  qed
  ultimately show ?thesis by (simp add: queue_inv_def)
qed

lemma addTimer_ok:
  assumes inv: "queue_inv b q" and fresh: "fresh a i q"
  shows "\<exists>q'. addTimer in_loop a cb when i q = Some ((a, numCreated q + 1), q') \<and> queue_inv b q'"
proof -
  let ?t = "new_Timer cb when i (numCreated q + 1)"
  let ?q = "q\<lparr>numCreated := numCreated q + 1, objects := (objects q)(a \<mapsto> ?t)\<rparr>"
  have inv': "queue_inv (a # b) ?q" by (rule allocate_ok [OF inv fresh])
  show ?thesis
  proof (cases in_loop)
    case True
    obtain q' where "addTimerInLoop a ?q = Some q'" "queue_inv b q'"
      using addTimerInLoop_ok [OF inv', of ?t] by auto
    with True show ?thesis by (simp add: addTimer_def Let_def)
  next
    case False
    have "queue_inv b (?q\<lparr>posted := posted ?q @ [Add_in_loop a]\<rparr>)" by (rule post_add [OF inv'])
    with False show ?thesis by (simp add: addTimer_def Let_def)
  qed
qed

subsection \<open>Cancelling\<close>

lemma delete_sets:
  assumes inv: "sets_inv q" and t: "objects q a = Some t" and w: "(expiration t, a) \<in> set (timers q)"
  shows "sets_inv (q\<lparr>timers := remove1 (expiration t, a) (timers q),
                    objects := (objects q)(a := None),
                    activeTimers := remove1 (a, sequence t) (activeTimers q)\<rparr>)"
    and "snd ` set (remove1 (expiration t, a) (timers q)) = places q - {a}"
proof -
  have asc: "ascending (timers q)" "ascending (activeTimers q)"
    using inv by (simp_all add: sets_inv_def)
  have rem: "set (remove1 (expiration t, a) (timers q)) = set (timers q) - {(expiration t, a)}"
    "set (remove1 (a, sequence t) (activeTimers q)) = set (activeTimers q) - {(a, sequence t)}"
    using asc by (simp_all add: set_remove1_eq)
  have other: "x \<noteq> a" if "(w, x) \<in> set (timers q)" "(w, x) \<noteq> (expiration t, a)" for w x
    using entry_stored [OF inv that(1)] that(2) t by auto
  show "snd ` set (remove1 (expiration t, a) (timers q)) = places q - {a}"
  proof (intro equalityI subsetI)
    fix x assume "x \<in> snd ` set (remove1 (expiration t, a) (timers q))"
    then obtain w' where "(w', x) \<in> set (timers q) - {(expiration t, a)}" unfolding rem by force
    then show "x \<in> places q - {a}" using other by force
  next
    fix x assume "x \<in> places q - {a}"
    then obtain w' where "(w', x) \<in> set (timers q)" "x \<noteq> a" by auto
    then show "x \<in> snd ` set (remove1 (expiration t, a) (timers q))"
      unfolding rem by (intro image_eqI [where x = "(w', x)"]) auto
  qed
  let ?q = "q\<lparr>timers := remove1 (expiration t, a) (timers q), objects := (objects q)(a := None),
             activeTimers := remove1 (a, sequence t) (activeTimers q)\<rparr>"
  have "\<exists>u. objects ?q x = Some u \<and> expiration u = w'" if "(w', x) \<in> set (timers ?q)" for w' x
    using that entry_stored [OF inv, of w' x] other [of w' x] by (simp add: rem)
  moreover have "(x, s) \<in> set (activeTimers ?q) \<longleftrightarrow>
      (\<exists>u. objects ?q x = Some u \<and> sequence u = s \<and> (expiration u, x) \<in> set (timers ?q))" for x s
    using t by (cases "x = a") (simp_all add: rem active_iff [OF inv])
  ultimately show "sets_inv ?q"
    using asc by (simp add: sets_inv_def sorted_remove1)
qed

lemma cancelInLoop_found:
  assumes inv: "queue_inv b q" and i: "(a, s) \<in> set (activeTimers q)" and t: "objects q a = Some t"
  defines "q' \<equiv> q\<lparr>timers := remove1 (expiration t, a) (timers q),
                  objects := (objects q)(a := None),
                  activeTimers := remove1 (a, s) (activeTimers q)\<rparr>"
  shows "cancelInLoop (a, s) q = Some q'" and "queue_inv b q'"
proof -
  have sets: "sets_inv q" using inv by (simp add: queue_inv_def)
  have w: "(expiration t, a) \<in> set (timers q)" and s: "s = sequence t"
    using i t by (auto simp: active_iff [OF sets])
  have sets': "sets_inv q'" using delete_sets(1) [OF sets t w] by (simp add: q'_def s)
  have ps: "places q' = places q - {a}"
    using delete_sets(2) [OF sets t w] by (simp add: q'_def)
  show "cancelInLoop (a, s) q = Some q'"
    using same_length [OF sets] same_length [OF sets'] i t w
    by (simp add: cancelInLoop_def set_erase_member q'_def)
  have "a \<in> places q" using w by force
  then have "memory_inv b q'"
    using inv ps by (auto simp: queue_inv_def memory_inv_def q'_def)
  moreover have "timers_inv q'"
    using inv by (auto simp: queue_inv_def timers_inv_def q'_def inj_on_def)
  ultimately show "queue_inv b q'" using sets' by (simp add: queue_inv_def)
qed

lemma cancelInLoop_not_found:
  assumes inv: "queue_inv b q" and i: "i \<notin> set (activeTimers q)"
  shows "cancelInLoop i q =
    Some (if callingExpiredTimers q
          then q\<lparr>cancelingTimers := fst (set_insert i (cancelingTimers q))\<rparr> else q)"
  using same_length [of q] inv i by (simp add: cancelInLoop_def queue_inv_def)

lemma cancelInLoop_ok:
  assumes inv: "queue_inv b q"
  shows "\<exists>q'. cancelInLoop i q = Some q' \<and> queue_inv b q'"
proof (cases "i \<in> set (activeTimers q)")
  case True
  moreover obtain a s where i: "i = (a, s)" by (cases i)
  ultimately obtain t where "objects q a = Some t"
    using inv active_iff [of q a s] by (auto simp: queue_inv_def)
  with True i show ?thesis using cancelInLoop_found [OF inv, of a s t] by simp
next
  case False
  with inv show ?thesis by (simp add: cancelInLoop_not_found)
qed

subsection \<open>Taking out what has expired\<close>

lemma erase_active_ok:
  assumes "\<And>w a. (w, a) \<in> set es \<Longrightarrow> \<exists>t. objects q a = Some t \<and> (a, sequence t) \<in> set (activeTimers q)"
    and "distinct (map snd es)" and "ascending (activeTimers q)"
  shows "\<exists>act. erase_active es q = Some (q\<lparr>activeTimers := act\<rparr>) \<and> ascending act \<and>
           set act = {(a, s) \<in> set (activeTimers q). a \<notin> snd ` set es \<or>
                        s \<noteq> sequence (the (objects q a))}"
  using assms
proof (induction es arbitrary: q)
  case Nil
  then show ?case by (intro exI [where x = "activeTimers q"]) auto
next
  case (Cons e es)
  obtain w a where e: "e = (w, a)" by (cases e)
  then obtain t where t: "objects q a = Some t" "(a, sequence t) \<in> set (activeTimers q)"
    using Cons.prems(1) by fastforce
  let ?act = "remove1 (a, sequence t) (activeTimers q)"
  let ?q = "q\<lparr>activeTimers := ?act\<rparr>"
  have act: "set ?act = set (activeTimers q) - {(a, sequence t)}" "ascending ?act"
    using Cons.prems(3) by (simp_all add: set_remove1_eq sorted_remove1)
  have "\<exists>u. objects ?q x = Some u \<and> (x, sequence u) \<in> set (activeTimers ?q)"
    if "(w', x) \<in> set es" for w' x
  proof -
    have "x \<noteq> a" using that Cons.prems(2) e by force
    with Cons.prems(1) [of w' x] that show ?thesis by (auto simp: act)
  qed
  moreover have "distinct (map snd es)" using Cons.prems(2) by simp
  ultimately obtain act' where act': "erase_active es ?q = Some (?q\<lparr>activeTimers := act'\<rparr>)"
      "ascending act'"
      "set act' = {(a, s) \<in> set ?act. a \<notin> snd ` set es \<or> s \<noteq> sequence (the (objects q a))}"
    using Cons.IH [of ?q] act(2) by auto
  have "set act' = {(x, s) \<in> set (activeTimers q). x \<notin> snd ` set (e # es) \<or>
                        s \<noteq> sequence (the (objects q x))}"
    using act'(3) t(1) unfolding act(1) e by auto
  moreover have "erase_active (e # es) q = Some (q\<lparr>activeTimers := act'\<rparr>)"
    using act'(1) t e by (simp add: set_erase_member)
  ultimately show ?case using act'(2) by blast
qed

definition due :: "timestamp \<Rightarrow> timer_queue \<Rightarrow> (timestamp \<times> address) list" where
  "due now q = filter (\<lambda>e. fst e \<le> now) (timers q)"

definition later :: "timestamp \<Rightarrow> timer_queue \<Rightarrow> (timestamp \<times> address) list" where
  "later now q = filter (\<lambda>e. now < fst e) (timers q)"

lemma split_at_now:
  assumes inv: "queue_inv b q"
  shows "below (now, UINTPTR_MAX) (timers q) = due now q"
    and "from_bound (now, UINTPTR_MAX) (timers q) = later now q"
proof -
  have asc: "ascending (timers q)" using inv by (simp add: queue_inv_def sets_inv_def)
  have small: "snd e < UINTPTR_MAX" if e: "e \<in> set (timers q)" for e
  proof -
    have "(fst e, snd e) \<in> set (timers q)" using e by simp
    then obtain t where "objects q (snd e) = Some t"
      using inv entry_stored [of q "fst e" "snd e"] by (auto simp: queue_inv_def)
    then show ?thesis using inv by (simp add: queue_inv_def timers_inv_def)
  qed
  have eq: "e < (now, UINTPTR_MAX) \<longleftrightarrow> fst e \<le> now" if "e \<in> set (timers q)" for e
    using small [OF that] by (cases e) auto
  show "below (now, UINTPTR_MAX) (timers q) = due now q"
    by (rule ascending_eq)
      (use asc eq in \<open>auto simp: set_below due_def ascending_below sorted_wrt_filter\<close>)
  show "from_bound (now, UINTPTR_MAX) (timers q) = later now q"
    by (rule ascending_eq)
      (use asc eq in \<open>auto simp: set_from_bound later_def ascending_from_bound sorted_wrt_filter
          simp flip: not_less\<close>)
qed

lemma unique_entry:
  "sets_inv q \<Longrightarrow> (w, a) \<in> set (timers q) \<Longrightarrow> (w', a) \<in> set (timers q) \<Longrightarrow> w = w'"
  using entry_stored [of q w a] entry_stored [of q w' a] by auto

lemma distinct_places: "sets_inv q \<Longrightarrow> distinct (map snd (timers q))"
proof -
  assume inv: "sets_inv q"
  then have "inj_on snd (set (timers q))"
    by (intro inj_onI) (auto intro: unique_entry)
  then show ?thesis using inv by (simp add: distinct_map sets_inv_def)
qed

lemma getExpired_ok:
  assumes inv: "queue_inv b q"
  shows "\<exists>act. getExpired now q =
      Some (due now q, q\<lparr>timers := later now q, activeTimers := act\<rparr>) \<and>
      queue_inv (map snd (due now q) @ b) (q\<lparr>timers := later now q, activeTimers := act\<rparr>)"
proof -
  let ?q = "q\<lparr>timers := later now q\<rparr>"
  have sets: "sets_inv q" using inv by (simp add: queue_inv_def)
  have asc: "ascending (timers q)" "ascending (activeTimers q)"
    using sets by (simp_all add: sets_inv_def)
  have "later now q = [] \<or> now < fst (hd (later now q))"
    using hd_in_set [of "later now q"] by (auto simp: later_def)
  moreover have "distinct (map snd (due now q))"
    using distinct_places [OF sets] by (simp add: due_def distinct_map_filter)
  moreover have "\<exists>t. objects ?q a = Some t \<and> (a, sequence t) \<in> set (activeTimers ?q)"
    if "(w, a) \<in> set (due now q)" for w a
    using that entry_stored [OF sets, of w a] by (auto simp: due_def active_iff [OF sets])
  ultimately obtain act where act: "erase_active (due now q) ?q = Some (?q\<lparr>activeTimers := act\<rparr>)"
      "ascending act"
      "set act = {(a, s) \<in> set (activeTimers q). a \<notin> snd ` set (due now q) \<or>
                    s \<noteq> sequence (the (objects q a))}"
    using erase_active_ok [of "due now q" ?q] asc by auto
  let ?q' = "q\<lparr>timers := later now q, activeTimers := act\<rparr>"
  have parts: "set (timers q) = set (due now q) \<union> set (later now q)"
    by (auto simp: due_def later_def)
  have apart: "snd ` set (due now q) \<inter> snd ` set (later now q) = {}"
  proof (rule ccontr)
    assume "\<not> ?thesis"
    then obtain w w' a where "(w, a) \<in> set (due now q)" "(w', a) \<in> set (later now q)" by auto
    then show False using unique_entry [OF sets, of w a w'] by (simp add: due_def later_def)
  qed
  have "sets_inv ?q'"
  proof -
    have "(x, s) \<in> set act \<longleftrightarrow>
        (\<exists>u. objects q x = Some u \<and> sequence u = s \<and> (expiration u, x) \<in> set (later now q))" for x s
    proof -
      have "(expiration u, x) \<in> set (later now q) \<longleftrightarrow>
          (expiration u, x) \<in> set (timers q) \<and> x \<notin> snd ` set (due now q)" for u
        using apart by (force simp: parts)
      then show ?thesis unfolding act(3) by (auto simp: active_iff [OF sets])
    qed
    moreover have "ascending (later now q)"
      using asc by (simp add: later_def sorted_wrt_filter)
    moreover have "(w, a) \<in> set (later now q) \<Longrightarrow> (w, a) \<in> set (timers q)" for w a
      by (simp add: later_def)
    ultimately show ?thesis using act(2) entry_stored [OF sets] by (simp add: sets_inv_def)
  qed
  moreover have "memory_inv (map snd (due now q) @ b) ?q'"
    using inv apart \<open>distinct (map snd (due now q))\<close>
    by (auto simp: queue_inv_def memory_inv_def parts image_Un)
  moreover have "timers_inv ?q'" using inv by (simp add: queue_inv_def timers_inv_def)
  ultimately have inv': "queue_inv (map snd (due now q) @ b) ?q'" by (simp add: queue_inv_def)
  have "getExpired now q = Some (due now q, ?q')"
    using same_length [OF sets] same_length [of ?q'] \<open>sets_inv ?q'\<close>
      \<open>later now q = [] \<or> now < fst (hd (later now q))\<close> act(1)
    by (simp add: getExpired_def split_at_now [OF inv] Let_def)
  with inv' show ?thesis by blast
qed

subsection \<open>Running the callbacks\<close>

text \<open>What a callback may do: allocate as \<open>new\<close> does, and cancel anything.\<close>

fun call_ok :: "timer_call \<Rightarrow> timer_queue \<Rightarrow> bool" where
  "call_ok (Call_add a cb when i) q \<longleftrightarrow> fresh a i q"
| "call_ok (Call_cancel i) q \<longleftrightarrow> True"

primrec calls_ok :: "timer_call list \<Rightarrow> timer_queue \<Rightarrow> bool" where
  "calls_ok [] q \<longleftrightarrow> True"
| "calls_ok (c # cs) q \<longleftrightarrow>
     call_ok c q \<and> (case run_call c q of None \<Rightarrow> True | Some q' \<Rightarrow> calls_ok cs q')"

primrec expired_calls_ok ::
  "(timestamp \<times> address) list \<Rightarrow> (address \<Rightarrow> timer_call list) \<Rightarrow> timer_queue \<Rightarrow> bool" where
  "expired_calls_ok [] calls q \<longleftrightarrow> True"
| "expired_calls_ok (e # es) calls q \<longleftrightarrow>
     calls_ok (calls (snd e)) q \<and>
     (case run_calls (calls (snd e)) q of None \<Rightarrow> True | Some q' \<Rightarrow> expired_calls_ok es calls q')"

lemma addTimer_keeps:
  assumes "addTimer in_loop a cb when i q = Some (j, q')" and "objects q x = Some t" and "x \<noteq> a"
  shows "objects q' x = Some t"
  using assms
  by (auto simp: addTimer_def addTimerInLoop_def insert_timer_def resetTimerfd_def Let_def
      split: if_splits prod.splits bind_splits)

text \<open>A call keeps the timers in the hands of \<open>handleRead\<close> as they are.\<close>

lemma run_call_ok:
  assumes inv: "queue_inv b q" and ok: "call_ok c q"
  shows "\<exists>q'. run_call c q = Some q' \<and> queue_inv b q' \<and> (\<forall>a\<in>set b. objects q' a = objects q a)"
proof (cases c)
  case (Call_add a cb w i)
  with ok have fresh: "fresh a i q" by simp
  obtain q' where q': "addTimer True a cb w i q = Some ((a, numCreated q + 1), q')" "queue_inv b q'"
    using addTimer_ok [OF inv fresh] by blast
  have "objects q' x = objects q x" if "x \<in> set b" for x
  proof -
    have "x \<in> dom (objects q)" using inv that by (simp add: queue_inv_def memory_inv_def)
    then obtain t where t: "objects q x = Some t" by blast
    moreover have "x \<noteq> a" using fresh t by (auto simp: fresh_def)
    ultimately show ?thesis using addTimer_keeps [OF q'(1) t] by simp
  qed
  with q' Call_add show ?thesis by simp
next
  case (Call_cancel i)
  obtain a s where i: "i = (a, s)" by (cases i)
  have sets: "sets_inv q" using inv by (simp add: queue_inv_def)
  show ?thesis
  proof (cases "i \<in> set (activeTimers q)")
    case True
    then obtain t where t: "objects q a = Some t" "(expiration t, a) \<in> set (timers q)"
      using active_iff [OF sets, of a s] by (auto simp: i)
    have "a \<notin> set b" using inv t(2) by (force simp: queue_inv_def memory_inv_def)
    then show ?thesis
      using cancelInLoop_found [OF inv, of a s t] True t(1) i Call_cancel by (auto simp: cancel_def)
  next
    case False
    then show ?thesis
      using inv Call_cancel by (simp add: cancel_def cancelInLoop_not_found [OF inv])
  qed
qed

lemma run_calls_ok:
  "queue_inv b q \<Longrightarrow> calls_ok cs q \<Longrightarrow>
     \<exists>q'. run_calls cs q = Some q' \<and> queue_inv b q' \<and> (\<forall>a\<in>set b. objects q' a = objects q a)"
proof (induction cs arbitrary: q)
  case (Cons c cs)
  obtain q1 where q1: "run_call c q = Some q1" "queue_inv b q1" "\<forall>a\<in>set b. objects q1 a = objects q a"
    using run_call_ok [OF Cons.prems(1), of c] Cons.prems(2) by auto
  moreover have "calls_ok cs q1" using Cons.prems(2) q1(1) by simp
  ultimately show ?case using Cons.IH [OF q1(2)] by fastforce
qed simp

text \<open>Every expired timer's callback runs, whatever the callbacks before it did.\<close>

lemma run_expired_ok:
  assumes "queue_inv b q" and "expired_calls_ok es calls q" and "snd ` set es \<subseteq> set b"
  shows "\<exists>q'. run_expired es calls q =
             Some (map (\<lambda>e. callback (the (objects q (snd e)))) es, q') \<and>
           queue_inv b q' \<and> (\<forall>a\<in>set b. objects q' a = objects q a)"
  using assms
proof (induction es arbitrary: q)
  case (Cons e es)
  have "snd e \<in> dom (objects q)"
    using Cons.prems(1,3) by (auto simp: queue_inv_def memory_inv_def)
  then obtain t where t: "objects q (snd e) = Some t" by blast
  obtain q1 where q1: "run_calls (calls (snd e)) q = Some q1" "queue_inv b q1"
      "\<forall>a\<in>set b. objects q1 a = objects q a"
    using run_calls_ok [OF Cons.prems(1), of "calls (snd e)"] Cons.prems(2) by auto
  have "expired_calls_ok es calls q1" using Cons.prems(2) q1(1) by simp
  then obtain q2 where q2: "run_expired es calls q1 =
        Some (map (\<lambda>e. callback (the (objects q1 (snd e)))) es, q2)"
      "queue_inv b q2" "\<forall>a\<in>set b. objects q2 a = objects q1 a"
    using Cons.IH [OF q1(2)] Cons.prems(3) by auto
  have same: "map (\<lambda>e. callback (the (objects q1 (snd e)))) es =
      map (\<lambda>e. callback (the (objects q (snd e)))) es"
    using q1(3) Cons.prems(3) by (intro map_cong) auto
  have "run_expired (e # es) calls q =
      Some (callback t # map (\<lambda>e. callback (the (objects q (snd e)))) es, q2)"
    using q1(1) q2(1) t same by simp
  then show ?case using t q1(3) q2 by simp
qed simp

subsection \<open>Restarting or deleting what has run\<close>

lemma held_places: "queue_inv (a # b) q \<Longrightarrow> a \<notin> places q \<and> a \<in> dom (objects q)"
  by (simp add: queue_inv_def memory_inv_def)

lemma held_object_sets:
  assumes "sets_inv q" and new: "a \<notin> places q"
  shows "sets_inv (q\<lparr>objects := (objects q)(a := x)\<rparr>)"
proof -
  have "(w, a) \<notin> set (timers q)" for w using new by force
  then show ?thesis using assms not_active [OF assms] by (simp add: sets_inv_def)
qed

lemma restart_ok:
  assumes inv: "queue_inv (a # b) q" and t: "objects q a = Some t"
  shows "queue_inv (a # b) (q\<lparr>objects := (objects q)(a \<mapsto> restart now t)\<rparr>)"
proof -
  let ?q = "q\<lparr>objects := (objects q)(a \<mapsto> restart now t)\<rparr>"
  have seq: "sequence (the (objects ?q x)) = sequence (the (objects q x))" for x
    using t by (simp add: restart_def)
  have "dom (objects ?q) = dom (objects q)" using t by auto
  then have "memory_inv (a # b) ?q" using inv by (simp add: queue_inv_def memory_inv_def)
  moreover have "timers_inv ?q"
  proof -
    have "inj_on (\<lambda>a. sequence (the (objects ?q a))) (dom (objects ?q))"
      using inv unfolding seq \<open>dom (objects ?q) = dom (objects q)\<close>
      by (simp add: queue_inv_def timers_inv_def)
    moreover have "good_timer n t \<Longrightarrow> good_timer n (restart now t)" for n
      by (simp add: good_timer_def restart_def)
    ultimately show ?thesis
      using inv t by (simp add: queue_inv_def timers_inv_def)
  qed
  moreover have "sets_inv ?q"
    using inv held_places [OF inv] by (simp add: held_object_sets queue_inv_def)
  ultimately show ?thesis by (simp add: queue_inv_def)
qed

lemma free_ok:
  assumes inv: "queue_inv (a # b) q"
  shows "queue_inv b (q\<lparr>objects := (objects q)(a := None)\<rparr>)"
proof -
  let ?q = "q\<lparr>objects := (objects q)(a := None)\<rparr>"
  have "sets_inv ?q"
    using inv held_places [OF inv] by (simp add: held_object_sets queue_inv_def)
  moreover have "memory_inv b ?q"
    using inv by (auto simp: queue_inv_def memory_inv_def)
  moreover have "timers_inv ?q"
    using inv by (auto simp: queue_inv_def timers_inv_def inj_on_def)
  ultimately show ?thesis by (simp add: queue_inv_def)
qed

text \<open>The timers that \<open>reset\<close> puts back, with their next expirations.\<close>

definition renewed :: "timestamp \<Rightarrow> timer_queue \<Rightarrow> (timestamp \<times> address) list \<Rightarrow> (timestamp \<times> address) set"
where
  "renewed now q es =
     {(addTime now (interval t), a) | a t. a \<in> snd ` set es \<and> objects q a = Some t \<and> repeats t \<and>
        (a, sequence t) \<notin> set (cancelingTimers q)}"

lemma renewed_Cons:
  assumes "snd e \<notin> snd ` set es" and "objects q (snd e) = Some t"
  shows "renewed now q (e # es) =
     (if repeats t \<and> (snd e, sequence t) \<notin> set (cancelingTimers q)
      then {(addTime now (interval t), snd e)} else {}) \<union> renewed now q es"
  using assms by (auto simp: renewed_def)

lemma renewed_cong:
  "(\<And>a. a \<in> snd ` set es \<Longrightarrow> objects q' a = objects q a) \<Longrightarrow>
     cancelingTimers q' = cancelingTimers q \<Longrightarrow> renewed now q' es = renewed now q es"
  by (fastforce simp: renewed_def)

lemma reset_expired_ok:
  "queue_inv (map snd es @ b) q \<Longrightarrow>
     \<exists>q'. reset_expired es now q = Some q' \<and> queue_inv b q' \<and> alarm q' = alarm q \<and>
       posted q' = posted q \<and> callingExpiredTimers q' = callingExpiredTimers q \<and>
       numCreated q' = numCreated q \<and> set (timers q') = set (timers q) \<union> renewed now q es"
proof (induction es arbitrary: q)
  case Nil
  then show ?case by (simp add: renewed_def)
next
  case (Cons e es)
  let ?a = "snd e" and ?b = "map snd es @ b"
  have inv: "queue_inv (?a # ?b) q" using Cons.prems by simp
  have out: "?a \<notin> set ?b" using inv by (simp add: queue_inv_def memory_inv_def)
  then have other: "x \<noteq> ?a" if "x \<in> snd ` set es" for x
    using that by (cases "x = ?a") simp_all
  obtain t where t: "objects q ?a = Some t" using held_places [OF inv] by blast
  show ?case
  proof (cases "repeats t \<and> (?a, sequence t) \<notin> set (cancelingTimers q)")
    case True
    let ?q1 = "q\<lparr>objects := (objects q)(?a \<mapsto> restart now t)\<rparr>"
    let ?q2 = "?q1\<lparr>timers := insort (expiration (restart now t), ?a) (timers q),
                   activeTimers := insort (?a, sequence (restart now t)) (activeTimers q)\<rparr>"
    have "queue_inv (?a # ?b) ?q1" by (rule restart_ok [OF inv t])
    then have q2: "map_option snd (insert_timer ?a ?q1) = Some ?q2" "queue_inv ?b ?q2"
      using insert_timer_ok [of ?a ?b ?q1 "restart now t"] by simp_all
    obtain q' where q': "reset_expired es now ?q2 = Some q'" "queue_inv b q'" "alarm q' = alarm q"
        "posted q' = posted q" "callingExpiredTimers q' = callingExpiredTimers q"
        "numCreated q' = numCreated q" "set (timers q') = set (timers ?q2) \<union> renewed now ?q2 es"
      using Cons.IH [OF q2(2)] by auto
    have "renewed now ?q2 es = renewed now q es"
      by (rule renewed_cong) (use other in auto)
    then have "set (timers q') = set (timers q) \<union> renewed now q (e # es)"
      using q'(7) True out t by (simp add: renewed_Cons set_insort_key restart_def)
    moreover have "reset_expired (e # es) now q =
        Option.bind (map_option snd (insert_timer ?a ?q1)) (reset_expired es now)"
      using t True by simp
    then have "reset_expired (e # es) now q = Some q'" unfolding q2(1) using q'(1) by simp
    ultimately show ?thesis using q'(2-6) by blast
  next
    case False
    let ?q1 = "q\<lparr>objects := (objects q)(?a := None)\<rparr>"
    obtain q' where q': "reset_expired es now ?q1 = Some q'" "queue_inv b q'" "alarm q' = alarm q"
        "posted q' = posted q" "callingExpiredTimers q' = callingExpiredTimers q"
        "numCreated q' = numCreated q" "set (timers q') = set (timers ?q1) \<union> renewed now ?q1 es"
      using Cons.IH [OF free_ok [OF inv]] by auto
    have "renewed now ?q1 es = renewed now q es"
      by (rule renewed_cong) (use other in auto)
    then have "set (timers q') = set (timers q) \<union> renewed now q (e # es)"
      using q'(7) False out t by (auto simp: renewed_Cons)
    moreover have "reset_expired (e # es) now q = Some q'" using q'(1) t False by auto
    ultimately show ?thesis using q' by simp
  qed
qed

end
