(* ===== verification/Timer_Alarm.thy ===== *)
theory Timer_Alarm
  imports Timer_Safety
begin

text \<open>
  A timer queue in use: additions and cancellations from the loop's thread and from others, the
  functors the loop runs, and the alarms. Timers are also created for other queues, which share
  the counter of sequence numbers.
\<close>

datatype timer_op =
  Add_timer bool address nat timestamp seconds
| Cancel_timer bool timer_id
| Run_posted
| Created_elsewhere nat
| Alarm timestamp "address \<Rightarrow> timer_call list"

fun timer_do :: "timer_op \<Rightarrow> timer_queue \<Rightarrow> timer_queue option" where
  "timer_do (Add_timer in_loop a cb when i) q = map_option snd (addTimer in_loop a cb when i q)"
| "timer_do (Cancel_timer in_loop i) q = cancel in_loop i q"
| "timer_do Run_posted q = run_posted q"
| "timer_do (Created_elsewhere n) q = Some (q\<lparr>numCreated := numCreated q + int n\<rparr>)"
| "timer_do (Alarm now calls) q = map_option snd (handle_timers now calls q)"

text \<open>The queue as the callbacks of an alarm find it.\<close>

definition after_getExpired :: "timestamp \<Rightarrow> timer_queue \<Rightarrow> timer_queue" where
  "after_getExpired now q =
     (case getExpired now (readTimerfd q) of
        None \<Rightarrow> q
      | Some (es, q1) \<Rightarrow> q1\<lparr>callingExpiredTimers := True, cancelingTimers := []\<rparr>)"

fun timer_enabled :: "timer_op \<Rightarrow> timer_queue \<Rightarrow> bool" where
  "timer_enabled (Add_timer in_loop a cb when i) q \<longleftrightarrow> fresh a i q"
| "timer_enabled (Alarm now calls) q \<longleftrightarrow>
     0 < now \<and> expired_calls_ok (due now q) calls (after_getExpired now q)"
| "timer_enabled _ q \<longleftrightarrow> True"

inductive timer_reachable :: "timer_queue \<Rightarrow> bool" where
  timer_reachable_new: "timer_reachable new_timer_queue"
| timer_reachable_step:
    "timer_reachable q \<Longrightarrow> timer_enabled op q \<Longrightarrow> timer_do op q = Some q' \<Longrightarrow> timer_reachable q'"

subsection \<open>No operation fails\<close>

lemma new_queue_inv: "queue_inv [] new_timer_queue"
  by (simp add: inv_defs new_timer_queue_def)

lemma due_readTimerfd [simp]: "due now (readTimerfd q) = due now q"
  "later now (readTimerfd q) = later now q"
  by (simp_all add: due_def later_def readTimerfd_def)

lemma readTimerfd_inv [simp]: "queue_inv b (readTimerfd q) = queue_inv b q"
  by (simp add: readTimerfd_def)

lemma getExpired_after:
  assumes inv: "queue_inv [] q"
  obtains act where
    "getExpired now (readTimerfd q) =
       Some (due now q, q\<lparr>alarm := None, timers := later now q, activeTimers := act\<rparr>)"
    "after_getExpired now q = q\<lparr>alarm := None, timers := later now q, activeTimers := act,
       callingExpiredTimers := True, cancelingTimers := []\<rparr>"
    "queue_inv (map snd (due now q)) (after_getExpired now q)"
proof -
  have "queue_inv [] (readTimerfd q)" using inv by simp
  from getExpired_ok [OF this, of now] obtain act where act:
    "getExpired now (readTimerfd q) =
       Some (due now q, readTimerfd q\<lparr>timers := later now q, activeTimers := act\<rparr>)"
    "queue_inv (map snd (due now q)) (readTimerfd q\<lparr>timers := later now q, activeTimers := act\<rparr>)"
    by auto
  have "after_getExpired now q = readTimerfd q\<lparr>timers := later now q, activeTimers := act,
       callingExpiredTimers := True, cancelingTimers := []\<rparr>"
    by (simp add: after_getExpired_def act(1))
  moreover from act(2) have "queue_inv (map snd (due now q))
      (readTimerfd q\<lparr>timers := later now q, activeTimers := act,
         callingExpiredTimers := True, cancelingTimers := []\<rparr>)" by simp
  ultimately show thesis using that act(1) by (simp add: readTimerfd_def)
qed

lemma reset_ok:
  assumes "queue_inv (map snd es) q"
  shows "\<exists>q1. reset_expired es now q = Some q1 \<and> queue_inv [] q1 \<and>
      set (timers q1) = set (timers q) \<union> renewed now q es \<and> alarm q1 = alarm q \<and>
      reset es now q = Some (if timers q1 \<noteq> [] \<and> 0 < fst (hd (timers q1))
                             then resetTimerfd (fst (hd (timers q1))) q1 else q1)"
proof -
  obtain q1 where q1: "reset_expired es now q = Some q1" "queue_inv [] q1" "alarm q1 = alarm q"
      "set (timers q1) = set (timers q) \<union> renewed now q es"
    using reset_expired_ok [of es "[]" q now] assms by auto
  have "reset es now q = Some (if timers q1 \<noteq> [] \<and> 0 < fst (hd (timers q1))
                             then resetTimerfd (fst (hd (timers q1))) q1 else q1)"
  proof (cases "timers q1")
    case Nil
    then show ?thesis using q1(1) by (simp add: reset_def valid_time_def invalid_time_def)
  next
    case (Cons e es')
    then have "(fst e, snd e) \<in> set (timers q1)" by simp
    then obtain t where "objects q1 (snd e) = Some t" "expiration t = fst e"
      using q1(2) entry_stored [of q1 "fst e" "snd e"] by (auto simp: queue_inv_def)
    then show ?thesis using q1(1) Cons by (simp add: reset_def valid_time_def)
  qed
  with q1 show ?thesis by blast
qed

lemma handle_timers_ok:
  assumes inv: "queue_inv [] q" and ok: "expired_calls_ok (due now q) calls (after_getExpired now q)"
  shows "\<exists>q1 q2 q'. handle_timers now calls q =
        Some (map (\<lambda>e. callback (the (objects q (snd e)))) (due now q), q') \<and>
      run_expired (due now q) calls (after_getExpired now q) =
        Some (map (\<lambda>e. callback (the (objects q (snd e)))) (due now q), q1) \<and>
      (\<forall>a \<in> snd ` set (due now q). objects q1 a = objects q a) \<and>
      reset_expired (due now q) now (q1\<lparr>callingExpiredTimers := False\<rparr>) = Some q2 \<and>
      set (timers q2) = set (timers q1) \<union> renewed now q1 (due now q) \<and>
      alarm q2 = alarm q1 \<and> queue_inv [] q2 \<and>
      q' = (if timers q2 \<noteq> [] \<and> 0 < fst (hd (timers q2))
            then resetTimerfd (fst (hd (timers q2))) q2 else q2)"
proof -
  let ?ran = "map (\<lambda>e. callback (the (objects q (snd e)))) (due now q)"
  obtain act where act: "getExpired now (readTimerfd q) =
       Some (due now q, q\<lparr>alarm := None, timers := later now q, activeTimers := act\<rparr>)"
    "after_getExpired now q = q\<lparr>alarm := None, timers := later now q, activeTimers := act,
       callingExpiredTimers := True, cancelingTimers := []\<rparr>"
    "queue_inv (map snd (due now q)) (after_getExpired now q)"
    by (rule getExpired_after [OF inv])
  have objs: "objects (after_getExpired now q) = objects q" by (simp add: act(2))
  obtain q1 where q1: "run_expired (due now q) calls (after_getExpired now q) = Some (?ran, q1)"
      "queue_inv (map snd (due now q)) q1"
      "\<forall>a\<in>snd ` set (due now q). objects q1 a = objects q a"
    using run_expired_ok [OF act(3) ok] by (auto simp: objs)
  let ?q1 = "q1\<lparr>callingExpiredTimers := False\<rparr>"
  have "queue_inv (map snd (due now q)) ?q1" using q1(2) by simp
  from reset_ok [OF this, of now] obtain q2 where q2:
    "reset_expired (due now q) now ?q1 = Some q2" "queue_inv [] q2"
    "set (timers q2) = set (timers q1) \<union> renewed now ?q1 (due now q)" "alarm q2 = alarm q1"
    "reset (due now q) now ?q1 = Some (if timers q2 \<noteq> [] \<and> 0 < fst (hd (timers q2))
                             then resetTimerfd (fst (hd (timers q2))) q2 else q2)"
    by auto
  have "renewed now ?q1 (due now q) = renewed now q1 (due now q)" by (rule renewed_cong) simp_all
  moreover have "handle_timers now calls q =
      Some (?ran, if timers q2 \<noteq> [] \<and> 0 < fst (hd (timers q2))
                  then resetTimerfd (fst (hd (timers q2))) q2 else q2)"
    using q1(1) q2(5) act(1) by (simp add: handle_timers_def act(2) [symmetric])
  ultimately show ?thesis using q1 q2 by auto
qed

lemma run_posted_ok:
  assumes inv: "queue_inv [] q"
  shows "\<exists>q'. run_posted q = Some q' \<and> queue_inv [] q'"
proof (cases "posted q")
  case Nil
  then show ?thesis using inv by (simp add: run_posted_def)
next
  case (Cons f fs)
  let ?q = "q\<lparr>posted := fs\<rparr>"
  show ?thesis
  proof (cases f)
    case (Add_in_loop a)
    have inv': "queue_inv [a] ?q"
      using inv Cons Add_in_loop by (auto simp: queue_inv_def memory_inv_def)
    then obtain t where "objects ?q a = Some t" using held_places [OF inv'] by blast
    with addTimerInLoop_ok [OF inv' this] show ?thesis
      using Cons Add_in_loop by (simp add: run_posted_def)
  next
    case (Cancel_in_loop i)
    have "queue_inv [] ?q" using inv Cons Cancel_in_loop by (simp add: queue_inv_def memory_inv_def)
    from cancelInLoop_ok [OF this, of i] show ?thesis
      using Cons Cancel_in_loop by (simp add: run_posted_def)
  qed
qed

lemma timer_do_ok:
  assumes inv: "queue_inv [] q" and "timer_enabled op q"
  shows "\<exists>q'. timer_do op q = Some q' \<and> queue_inv [] q'"
proof (cases op)
  case (Add_timer in_loop a cb w i)
  with assms show ?thesis using addTimer_ok [OF inv, of a i in_loop cb w] by auto
next
  case (Cancel_timer in_loop i)
  have "queue_inv [] (q\<lparr>posted := posted q @ [Cancel_in_loop i]\<rparr>)"
    using inv by (simp add: queue_inv_def memory_inv_def)
  then show ?thesis using cancelInLoop_ok [OF inv, of i] Cancel_timer by (simp add: cancel_def)
next
  case Run_posted
  then show ?thesis using run_posted_ok [OF inv] by simp
next
  case (Created_elsewhere n)
  have "queue_inv [] (q\<lparr>numCreated := numCreated q + int n\<rparr>)"
    using inv by (fastforce simp: inv_defs good_timer_def)
  with Created_elsewhere show ?thesis by simp
next
  case (Alarm now calls)
  with handle_timers_ok [OF inv, of now calls] assms(2) show ?thesis
    by (auto simp: resetTimerfd_def)
qed

lemma timer_reachable_inv: "timer_reachable q \<Longrightarrow> queue_inv [] q"
proof (induction rule: timer_reachable.induct)
  case (timer_reachable_step q op q')
  then show ?case using timer_do_ok [of q op] by auto
qed (rule new_queue_inv)

text \<open>
  Two facts about a timer queue in use. The timer file descriptor is set whenever a timer waits,
  for no later than the earliest one. A timer that is deleted never comes back: the sequence
  numbers of the timers after an operation are those before it, or new.
\<close>

subsection \<open>The file descriptor is set\<close>

text \<open>\<open>P\<close> says which expirations count: all of them, or, while callbacks run, the invalid ones.\<close>

definition armed :: "(timestamp \<Rightarrow> bool) \<Rightarrow> timer_queue \<Rightarrow> bool" where
  "armed P q \<longleftrightarrow>
     (timers q \<noteq> [] \<and> P (fst (hd (timers q))) \<longrightarrow>
        (\<exists>e. alarm q = Some e \<and> e \<le> fst (hd (timers q))))"

definition downward :: "(timestamp \<Rightarrow> bool) \<Rightarrow> bool" where
  "downward P \<longleftrightarrow> (\<forall>x y. x \<le> y \<and> P y \<longrightarrow> P x)"

lemma downward_cases: "downward (\<lambda>_. True)" "downward (\<lambda>w. w \<le> 0)"
  by (auto simp: downward_def)

lemma armed_earlier:
  assumes P: "downward P" and armed: "armed P q" and sets: "ascending (timers q)"
    and sub: "set ts' \<subseteq> set (timers q)"
  shows "armed P (q\<lparr>timers := ts'\<rparr>)"
  unfolding armed_def
proof (clarsimp)
  assume ne: "ts' \<noteq> []" and p: "P (fst (hd ts'))"
  have "hd ts' \<in> set (timers q)" using ne sub by auto
  then have le: "hd (timers q) \<le> hd ts'" and ne': "timers q \<noteq> []"
    using ascending_hd [OF sets] by auto
  then have "fst (hd (timers q)) \<le> fst (hd ts')" by (auto simp: less_eq_prod_def)
  with P p armed ne' show "\<exists>e. alarm q = Some e \<and> e \<le> fst (hd ts')"
    unfolding armed_def downward_def by (meson order_trans)
qed

lemma armed_more [simp]:
  "armed P (q\<lparr>objects := m\<rparr>) = armed P q" "armed P (q\<lparr>activeTimers := act\<rparr>) = armed P q"
  "armed P (q\<lparr>posted := fs\<rparr>) = armed P q" "armed P (q\<lparr>numCreated := n\<rparr>) = armed P q"
  "armed P (q\<lparr>cancelingTimers := c\<rparr>) = armed P q"
  "armed P (q\<lparr>callingExpiredTimers := b\<rparr>) = armed P q"
  by (simp_all add: armed_def)

lemma addTimerInLoop_armed:
  assumes inv: "queue_inv (a # b) q" and t: "objects q a = Some t"
    and armed: "armed P q" and q': "addTimerInLoop a q = Some q'"
  shows "armed P q'"
proof -
  have "fst (hd (insort (expiration t, a) (timers q))) =
      (if timers q = [] \<or> expiration t < fst (hd (timers q)) then expiration t
       else fst (hd (timers q)))"
    by (auto simp: hd_insort less_eq_prod_def)
  then show ?thesis
    using q' armed addTimerInLoop_ok(1) [OF inv t]
    by (auto simp: armed_def resetTimerfd_def split: if_splits)
qed

lemma addTimer_armed:
  assumes inv: "queue_inv b q" and fresh: "fresh a i q" and armed: "armed P q"
    and q': "addTimer in_loop a cb w i q = Some (j, q')"
  shows "armed P q'"
proof -
  let ?t = "new_Timer cb w i (numCreated q + 1)"
  let ?q = "q\<lparr>numCreated := numCreated q + 1, objects := (objects q)(a \<mapsto> ?t)\<rparr>"
  have "queue_inv (a # b) ?q" by (rule allocate_ok [OF inv fresh])
  moreover have "armed P ?q" using armed by simp
  moreover have "objects ?q a = Some ?t" by simp
  ultimately show ?thesis
    using q' addTimerInLoop_armed [of a b ?q ?t P q']
    by (auto simp: addTimer_def Let_def split: if_splits)
qed

lemma cancelInLoop_armed:
  assumes inv: "queue_inv b q" and P: "downward P" and armed: "armed P q"
    and q': "cancelInLoop i q = Some q'"
  shows "armed P q'"
proof (cases "i \<in> set (activeTimers q)")
  case True
  obtain a s where i: "i = (a, s)" by (cases i)
  have sets: "sets_inv q" using inv by (simp add: queue_inv_def)
  then obtain t where t: "objects q a = Some t" using True active_iff [of q a s] i by auto
  have "armed P (q\<lparr>timers := remove1 (expiration t, a) (timers q)\<rparr>)"
    by (rule armed_earlier [OF P armed]) (use sets in \<open>auto simp: sets_inv_def set_remove1_subset\<close>)
  then show ?thesis
    using cancelInLoop_found(1) [OF inv, of a s t] True t i q' by (auto simp: armed_def)
next
  case False
  then show ?thesis
    using q' armed by (auto simp: cancelInLoop_not_found [OF inv] split: if_splits)
qed

lemma run_call_armed:
  assumes inv: "queue_inv b q" and "call_ok c q" and P: "downward P" and "armed P q"
    and "run_call c q = Some q'"
  shows "armed P q'"
proof (cases c)
  case (Call_add a cb w i)
  with assms show ?thesis using addTimer_armed [OF inv, of a i P True cb w] by auto
next
  case (Call_cancel i)
  with assms show ?thesis using cancelInLoop_armed [OF inv P] by (simp add: cancel_def)
qed

lemma run_calls_armed:
  "queue_inv b q \<Longrightarrow> calls_ok cs q \<Longrightarrow> downward P \<Longrightarrow> armed P q \<Longrightarrow> run_calls cs q = Some q' \<Longrightarrow>
     armed P q'"
proof (induction cs arbitrary: q)
  case (Cons c cs)
  obtain q1 where q1: "run_call c q = Some q1" "queue_inv b q1"
    using run_call_ok [OF Cons.prems(1), of c] Cons.prems(2) by auto
  have "armed P q1" using run_call_armed [OF Cons.prems(1) _ Cons.prems(3,4) q1(1)] Cons.prems(2)
    by simp
  then show ?case using Cons.IH [OF q1(2)] Cons.prems q1(1) by simp
qed simp

lemma run_expired_armed:
  "queue_inv b q \<Longrightarrow> expired_calls_ok es calls q \<Longrightarrow> downward P \<Longrightarrow> armed P q \<Longrightarrow>
     run_expired es calls q = Some (cbs, q') \<Longrightarrow> armed P q'"
proof (induction es arbitrary: q cbs)
  case (Cons e es)
  obtain q1 where q1: "run_calls (calls (snd e)) q = Some q1" "queue_inv b q1"
    using run_calls_ok [OF Cons.prems(1), of "calls (snd e)"] Cons.prems(2) by auto
  have "armed P q1"
    using run_calls_armed [OF Cons.prems(1) _ Cons.prems(3,4) q1(1)] Cons.prems(2) by simp
  moreover obtain cbs1 where "run_expired es calls q1 = Some (cbs1, q')"
    using Cons.prems(5) q1(1) by (auto split: bind_splits prod.splits)
  ultimately show ?case using Cons.IH [OF q1(2)] Cons.prems(2,3) q1(1) by simp
qed simp

lemma renewed_positive:
  assumes inv: "queue_inv b q" and now: "0 < now" and "(w, a) \<in> renewed now q es"
  shows "0 < w"
proof -
  obtain t where t: "objects q a = Some t" "repeats t" "w = addTime now (interval t)"
    using assms(3) by (auto simp: renewed_def)
  have "good_timer (numCreated q) t" using inv t(1) by (simp add: queue_inv_def timers_inv_def)
  then show ?thesis
    using t(2,3) now by (auto simp: good_timer_def well_formed_seconds_def addTime_def)
qed

lemma handle_timers_armed:
  assumes inv: "queue_inv [] q" and ok: "expired_calls_ok (due now q) calls (after_getExpired now q)"
    and now: "0 < now" and h: "handle_timers now calls q = Some (cbs, q')"
  shows "armed (\<lambda>_. True) q'"
proof -
  let ?P = "\<lambda>w::timestamp. w \<le> 0"
  have after: "queue_inv (map snd (due now q)) (after_getExpired now q)"
      "timers (after_getExpired now q) = later now q"
    by (rule getExpired_after [OF inv, of now]; simp)+
  have "armed ?P (after_getExpired now q)"
    using hd_in_set [of "later now q"] now unfolding armed_def after(2) by (auto simp: later_def)
  moreover from handle_timers_ok [OF inv ok] obtain q1 q2 where q12:
      "run_expired (due now q) calls (after_getExpired now q) = Some (cbs, q1)"
      "set (timers q2) = set (timers q1) \<union> renewed now q1 (due now q)" "alarm q2 = alarm q1"
      "queue_inv [] q2"
      "q' = (if timers q2 \<noteq> [] \<and> 0 < fst (hd (timers q2))
             then resetTimerfd (fst (hd (timers q2))) q2 else q2)"
    using h by auto
  ultimately have arm1: "armed ?P q1"
    using run_expired_armed [OF after(1) ok downward_cases(2)] by blast
  have inv1: "queue_inv (map snd (due now q)) q1"
    using run_expired_ok [OF after(1) ok] q12(1) by auto
  show ?thesis
  proof (cases "timers q2 \<noteq> [] \<and> fst (hd (timers q2)) \<le> 0")
    case True
    then have "hd (timers q2) \<in> set (timers q1)"
      using q12(2) hd_in_set [of "timers q2"]
        renewed_positive [OF inv1 now, of "fst (hd (timers q2))" "snd (hd (timers q2))"] by auto
    moreover have "ascending (timers q1)" using inv1 by (simp add: queue_inv_def sets_inv_def)
    ultimately have "timers q1 \<noteq> []" "fst (hd (timers q1)) \<le> fst (hd (timers q2))"
      using ascending_hd [of "timers q1" "hd (timers q2)"] by (auto simp: less_eq_prod_def)
    then show ?thesis using True arm1 q12(3,5) by (auto simp: armed_def)
  next
    case False
    then show ?thesis using q12(5) by (auto simp: armed_def resetTimerfd_def)
  qed
qed

lemma timer_reachable_armed: "timer_reachable q \<Longrightarrow> armed (\<lambda>_. True) q"
proof (induction rule: timer_reachable.induct)
  case timer_reachable_new
  show ?case by (simp add: armed_def new_timer_queue_def)
next
  case (timer_reachable_step q op q')
  have inv: "queue_inv [] q" by (rule timer_reachable_inv [OF timer_reachable_step(1)])
  show ?case
  proof (cases op)
    case (Add_timer in_loop a cb w i)
    with timer_reachable_step show ?thesis
      using addTimer_armed [OF inv, of a i _ in_loop cb w] by auto
  next
    case (Cancel_timer in_loop i)
    with timer_reachable_step show ?thesis
      using cancelInLoop_armed [OF inv downward_cases(1), of i]
      by (auto simp: cancel_def split: if_splits)
  next
    case Run_posted
    show ?thesis
    proof (cases "posted q")
      case Nil
      with Run_posted timer_reachable_step show ?thesis by (simp add: run_posted_def)
    next
      case (Cons f fs)
      let ?q = "q\<lparr>posted := fs\<rparr>"
      have armed: "armed (\<lambda>_. True) ?q" using timer_reachable_step by simp
      show ?thesis
      proof (cases f)
        case (Add_in_loop a)
        have inv': "queue_inv [a] ?q"
          using inv Cons Add_in_loop by (auto simp: queue_inv_def memory_inv_def)
        then obtain t where "objects ?q a = Some t" using held_places [OF inv'] by blast
        then show ?thesis
          using addTimerInLoop_armed [OF inv' _ armed] Run_posted timer_reachable_step(3) Cons
            Add_in_loop by (simp add: run_posted_def)
      next
        case (Cancel_in_loop i)
        have "queue_inv [] ?q"
          using inv Cons Cancel_in_loop by (simp add: queue_inv_def memory_inv_def)
        then show ?thesis
          using cancelInLoop_armed [OF _ downward_cases(1) armed] Run_posted
            timer_reachable_step(3) Cons Cancel_in_loop by (simp add: run_posted_def)
      qed
    qed
  next
    case (Created_elsewhere n)
    with timer_reachable_step show ?thesis by auto
  next
    case (Alarm now calls)
    with timer_reachable_step show ?thesis
      using handle_timers_armed [OF inv, of now calls] by auto
  qed
qed

subsection \<open>No timer comes back\<close>

definition no_comeback :: "timer_queue \<Rightarrow> timer_queue \<Rightarrow> bool" where
  "no_comeback q q' \<longleftrightarrow>
     numCreated q \<le> numCreated q' \<and>
     (\<forall>a t'. objects q' a = Some t' \<longrightarrow> numCreated q < sequence t' \<or>
        (\<exists>t. objects q a = Some t \<and> sequence t = sequence t'))"

lemma no_comeback_refl [simp]: "no_comeback q q"
  by (simp add: no_comeback_def)

lemma no_comeback_trans: "no_comeback q q1 \<Longrightarrow> no_comeback q1 q2 \<Longrightarrow> no_comeback q q2"
  unfolding no_comeback_def by (smt (verit))

lemma no_comeback_same:
  "objects q' = objects q \<Longrightarrow> numCreated q' = numCreated q \<Longrightarrow> no_comeback q q'"
  by (simp add: no_comeback_def)

lemma insert_timer_same:
  "insert_timer a q = Some (e, q') \<Longrightarrow> objects q' = objects q \<and> numCreated q' = numCreated q"
  by (auto simp: insert_timer_def Let_def split: bind_splits prod.splits)

lemma addTimerInLoop_same:
  "addTimerInLoop a q = Some q' \<Longrightarrow> objects q' = objects q \<and> numCreated q' = numCreated q"
  by (auto simp: addTimerInLoop_def resetTimerfd_def dest!: insert_timer_same
      split: bind_splits prod.splits if_splits)

lemma addTimer_no_comeback: "addTimer in_loop a cb w i q = Some (j, q') \<Longrightarrow> no_comeback q q'"
  by (auto simp: addTimer_def Let_def no_comeback_def new_Timer_def dest!: addTimerInLoop_same
      split: if_splits)

lemma cancelInLoop_no_comeback: "cancelInLoop i q = Some q' \<Longrightarrow> no_comeback q q'"
  by (auto simp: cancelInLoop_def Let_def no_comeback_def split: if_splits bind_splits prod.splits)

lemma run_call_no_comeback: "run_call c q = Some q' \<Longrightarrow> no_comeback q q'"
  by (cases c) (auto simp: cancel_def dest: addTimer_no_comeback cancelInLoop_no_comeback)

lemma run_calls_no_comeback: "run_calls cs q = Some q' \<Longrightarrow> no_comeback q q'"
proof (induction cs arbitrary: q)
  case (Cons c cs)
  then obtain q1 where "run_call c q = Some q1" "run_calls cs q1 = Some q'"
    by (auto split: bind_splits)
  then show ?case using no_comeback_trans [OF run_call_no_comeback Cons.IH] by blast
qed simp

lemma run_expired_no_comeback:
  "run_expired es calls q = Some (cbs, q') \<Longrightarrow> no_comeback q q'"
proof (induction es arbitrary: q cbs)
  case (Cons e es)
  then obtain q1 cbs1 where "run_calls (calls (snd e)) q = Some q1"
      "run_expired es calls q1 = Some (cbs1, q')"
    by (auto split: bind_splits prod.splits)
  then show ?case using no_comeback_trans [OF run_calls_no_comeback Cons.IH] by blast
qed simp

lemma reset_expired_no_comeback: "reset_expired es now q = Some q' \<Longrightarrow> no_comeback q q'"
proof (induction es arbitrary: q)
  case (Cons e es)
  then obtain t where t: "objects q (snd e) = Some t" by (auto split: bind_splits)
  show ?case
  proof (cases "repeats t \<and> (snd e, sequence t) \<notin> set (cancelingTimers q)")
    case True
    let ?q = "q\<lparr>objects := (objects q)(snd e \<mapsto> restart now t)\<rparr>"
    obtain x q1 where q1: "insert_timer (snd e) ?q = Some (x, q1)" "reset_expired es now q1 = Some q'"
      using Cons.prems t True by (auto split: bind_splits)
    have "no_comeback q q1"
      using insert_timer_same [OF q1(1)] t by (simp add: no_comeback_def restart_def)
    then show ?thesis using no_comeback_trans Cons.IH [OF q1(2)] by blast
  next
    case False
    let ?q = "q\<lparr>objects := (objects q)(snd e := None)\<rparr>"
    have "no_comeback q ?q" by (simp add: no_comeback_def)
    moreover have "reset_expired es now ?q = Some q'" using Cons.prems t False by auto
    ultimately show ?thesis using no_comeback_trans Cons.IH by blast
  qed
qed simp

lemma erase_active_same:
  "erase_active es q = Some q' \<Longrightarrow> objects q' = objects q \<and> numCreated q' = numCreated q"
proof (induction es arbitrary: q)
  case (Cons e es)
  then show ?case by (fastforce simp: Let_def split: bind_splits prod.splits)
qed simp

lemma handle_timers_no_comeback:
  assumes "handle_timers now calls q = Some (cbs, q')"
  shows "no_comeback q q'"
proof -
  obtain es q1 q2 q3 where h: "getExpired now (readTimerfd q) = Some (es, q1)"
      "run_expired es calls (q1\<lparr>callingExpiredTimers := True, cancelingTimers := []\<rparr>) = Some (cbs, q2)"
      "reset_expired es now (q2\<lparr>callingExpiredTimers := False\<rparr>) = Some q3"
      "\<exists>x. q' = q3\<lparr>alarm := x\<rparr>"
    using assms
    by (fastforce simp: handle_timers_def reset_def resetTimerfd_def
        split: bind_splits prod.splits if_splits intro: exI [where x = "alarm q'"])
  have "no_comeback q (q1\<lparr>callingExpiredTimers := True, cancelingTimers := []\<rparr>)"
    using h(1)
    by (auto simp: getExpired_def Let_def readTimerfd_def dest!: erase_active_same
        intro!: no_comeback_same split: bind_splits)
  moreover have "no_comeback \<dots> q2" by (rule run_expired_no_comeback [OF h(2)])
  moreover have "no_comeback q2 (q2\<lparr>callingExpiredTimers := False\<rparr>)"
    by (simp add: no_comeback_same)
  moreover have "no_comeback \<dots> q3" by (rule reset_expired_no_comeback [OF h(3)])
  moreover have "no_comeback q3 q'"
    using h(4) by (auto intro!: no_comeback_same)
  ultimately show ?thesis by (meson no_comeback_trans)
qed

lemma timer_do_no_comeback: "timer_do op q = Some q' \<Longrightarrow> no_comeback q q'"
proof (cases op)
  case (Add_timer in_loop a cb w i)
  assume "timer_do op q = Some q'"
  with Add_timer show ?thesis by (auto dest: addTimer_no_comeback)
next
  case (Cancel_timer in_loop i)
  assume "timer_do op q = Some q'"
  with Cancel_timer show ?thesis
    by (auto simp: cancel_def intro: no_comeback_same dest: cancelInLoop_no_comeback split: if_splits)
next
  case Run_posted
  assume "timer_do op q = Some q'"
  then have run: "run_posted q = Some q'" using Run_posted by simp
  show ?thesis
  proof (cases "posted q")
    case (Cons f fs)
    have "no_comeback q (q\<lparr>posted := fs\<rparr>)" by (simp add: no_comeback_same)
    moreover have "no_comeback (q\<lparr>posted := fs\<rparr>) q'"
      using run Cons
      by (cases f) (auto simp: run_posted_def intro: cancelInLoop_no_comeback no_comeback_same
          dest: addTimerInLoop_same)
    ultimately show ?thesis by (rule no_comeback_trans)
  qed (use run in \<open>simp add: run_posted_def\<close>)
next
  case (Created_elsewhere n)
  assume "timer_do op q = Some q'"
  with Created_elsewhere show ?thesis by (auto simp: no_comeback_def)
next
  case (Alarm now calls)
  assume "timer_do op q = Some q'"
  with Alarm show ?thesis by (auto dest: handle_timers_no_comeback)
qed

end
