(* ===== verification/Timer_Theorems.thy ===== *)
theory Timer_Theorems
  imports Timer_Alarm
begin

text \<open>The properties of \<open>TimerQueue\<close>, over queues that any sequence of operations can reach.\<close>

lemma timer_run_no_comeback: "run_all timer_do ops q = Some q' \<Longrightarrow> no_comeback q q'"
  by (rule run_all_invariant [where P = "no_comeback q"])
    (auto intro: no_comeback_trans timer_do_no_comeback)

lemma run_expired_no_calls:
  "snd ` set es \<subseteq> dom (objects q) \<Longrightarrow>
     run_expired es (\<lambda>_. []) q = Some (map (\<lambda>e. callback (the (objects q (snd e)))) es, q)"
  by (induction es) auto

text \<open>
  A queue with two timers, for the examples: the first is due at 10 and repeats every 5
  microseconds, the second is due at 20, once.
\<close>

definition first_timer :: timer where
  "first_timer = new_Timer 1 10 \<lparr>is_positive = True, in_micros = 5\<rparr> 1"

definition second_timer :: timer where
  "second_timer = new_Timer 2 20 \<lparr>is_positive = False, in_micros = 0\<rparr> 2"

definition two_timers :: timer_queue where
  "two_timers =
     new_timer_queue\<lparr>timers := [(10, 100), (20, 200)], activeTimers := [(100, 1), (200, 2)],
       objects := [100 \<mapsto> first_timer, 200 \<mapsto> second_timer], numCreated := 2, alarm := Some 10\<rparr>"

lemma two_timers_reachable: "timer_reachable two_timers"
proof -
  let ?op1 = "Add_timer True 100 1 10 \<lparr>is_positive = True, in_micros = 5\<rparr>"
  let ?op2 = "Add_timer True 200 2 20 \<lparr>is_positive = False, in_micros = 0\<rparr>"
  let ?q1 = "new_timer_queue\<lparr>timers := [(10, 100)], activeTimers := [(100, 1)],
       objects := [100 \<mapsto> first_timer], numCreated := 1, alarm := Some 10\<rparr>"
  have "timer_do ?op1 new_timer_queue = Some ?q1"
    by (simp add: addTimer_def addTimerInLoop_def insert_timer_def set_insert_def
        new_timer_queue_def resetTimerfd_def new_Timer_def first_timer_def)
  moreover have "timer_enabled ?op1 new_timer_queue"
    by (simp add: fresh_def new_timer_queue_def UINTPTR_MAX_def well_formed_seconds_def)
  ultimately have "timer_reachable ?q1"
    using timer_reachable_step [OF timer_reachable_new] by blast
  moreover have "timer_enabled ?op2 ?q1"
    by (simp add: fresh_def new_timer_queue_def UINTPTR_MAX_def well_formed_seconds_def)
  moreover have "timer_do ?op2 ?q1 = Some two_timers"
    by (simp add: addTimer_def addTimerInLoop_def insert_timer_def set_insert_def
        new_timer_queue_def resetTimerfd_def new_Timer_def second_timer_def two_timers_def)
  ultimately show ?thesis by (rule timer_reachable_step)
qed

text \<open>C17: no operation on a timer queue fails an assertion or uses a deleted timer, whatever the
  order of additions, cancellations, posted functors and alarms, and whatever the callbacks of an
  alarm call themselves; afterwards the two sets have the same size, and every allocated timer is
  in the sets or on its way to the loop: none is leaked.
\<close>

theorem timer_queue_sound:
  assumes "timer_reachable q" and "timer_enabled op q"
  shows "\<exists>q'. timer_do op q = Some q' \<and> ascending (timers q') \<and>
           length (timers q') = length (activeTimers q') \<and>
           dom (objects q') = snd ` set (timers q') \<union> set (to_add (posted q'))"
proof -
  obtain q' where "timer_do op q = Some q'" "queue_inv [] q'"
    using timer_do_ok [OF timer_reachable_inv [OF assms(1)] assms(2)] by blast
  then show ?thesis
    using same_length [of q'] by (simp add: queue_inv_def memory_inv_def sets_inv_def)
qed

theorem timer_queue_sound_witness:
  "\<exists>q'. timer_do (Alarm 15 (\<lambda>a. [Call_cancel (100, 1)])) two_timers = Some q' \<and> ascending (timers q') \<and>
     length (timers q') = length (activeTimers q') \<and>
     dom (objects q') = snd ` set (timers q') \<union> set (to_add (posted q'))"
  by (rule timer_queue_sound [OF two_timers_reachable])
    (simp add: two_timers_def due_def after_getExpired_def split: option.splits)

text \<open>C18: when the timer's descriptor goes off, the callbacks of the timers that are due run, each once
  and in the order of their expirations, even if one of them cancels another; with callbacks that
  leave the queue alone, what then waits is what was not yet due, and the due timers that repeat,
  at now plus their intervals.
\<close>

theorem due_timers_run:
  assumes "timer_reachable q" and "timer_enabled (Alarm now calls) q"
  shows "\<exists>q'. handle_timers now calls q =
      Some (map (\<lambda>e. callback (the (objects q (snd e)))) (filter (\<lambda>e. fst e \<le> now) (timers q)), q') \<and>
      (calls = (\<lambda>_. []) \<longrightarrow>
         set (timers q') = {e \<in> set (timers q). now < fst e} \<union>
           {(addTime now (interval t), a) | a t w. (w, a) \<in> set (timers q) \<and> w \<le> now \<and>
              objects q a = Some t \<and> repeats t})"
proof -
  have inv: "queue_inv [] q" by (rule timer_reachable_inv [OF assms(1)])
  let ?a = "after_getExpired now q"
  have after: "timers ?a = later now q" "cancelingTimers ?a = []" "objects ?a = objects q"
    by (rule getExpired_after [OF inv, of now]; simp)+
  have ok: "expired_calls_ok (due now q) calls ?a" using assms(2) by simp
  obtain q1 q2 q' where h: "handle_timers now calls q =
        Some (map (\<lambda>e. callback (the (objects q (snd e)))) (due now q), q')"
      "run_expired (due now q) calls ?a =
        Some (map (\<lambda>e. callback (the (objects q (snd e)))) (due now q), q1)"
      "set (timers q2) = set (timers q1) \<union> renewed now q1 (due now q)"
      "q' = (if timers q2 \<noteq> [] \<and> 0 < fst (hd (timers q2))
            then resetTimerfd (fst (hd (timers q2))) q2 else q2)"
    using handle_timers_ok [OF inv ok] by blast
  have h4: "timers q' = timers q2" using h(4) by (simp add: resetTimerfd_def)
  have "set (timers q') = {e \<in> set (timers q). now < fst e} \<union>
           {(addTime now (interval t), a) | a t w. (w, a) \<in> set (timers q) \<and> w \<le> now \<and>
              objects q a = Some t \<and> repeats t}" if "calls = (\<lambda>_. [])"
  proof -
    have "snd ` set (due now q) \<subseteq> dom (objects q)"
      using inv entry_stored [of q] by (fastforce simp: queue_inv_def due_def)
    then have "q1 = ?a" using h(2) run_expired_no_calls [of "due now q" ?a] that by (simp add: after)
    then show ?thesis
      unfolding h4 h(3) by (auto simp: after renewed_def later_def due_def image_iff)
  qed
  with h(1) show ?thesis by (auto simp: due_def)
qed

theorem due_timers_run_witness:
  "\<exists>q'. handle_timers 30 (\<lambda>a. if a = 100 then [Call_cancel (200, 2)] else []) two_timers =
     Some ([1, 2], q')"
proof -
  have "timer_enabled (Alarm 30 (\<lambda>a. if a = 100 then [Call_cancel (200, 2)] else [])) two_timers"
    by (auto simp: two_timers_def due_def cancel_def split: option.splits)
  from due_timers_run [OF two_timers_reachable this] show ?thesis
    by (auto simp: two_timers_def first_timer_def second_timer_def new_Timer_def)
qed

text \<open>No timer is forgotten: whenever a timer waits, the timer's descriptor is set, and for no
  later than the earliest expiration.
\<close>

theorem alarm_is_set:
  assumes "timer_reachable q" and "timers q \<noteq> []"
  shows "\<exists>e. alarm q = Some e \<and> (\<forall>w a. (w, a) \<in> set (timers q) \<longrightarrow> e \<le> w)"
proof -
  obtain e where e: "alarm q = Some e" "e \<le> fst (hd (timers q))"
    using timer_reachable_armed [OF assms(1)] assms(2) by (auto simp: armed_def)
  have "ascending (timers q)"
    using timer_reachable_inv [OF assms(1)] by (simp add: queue_inv_def sets_inv_def)
  then have "fst (hd (timers q)) \<le> w" if "(w, a) \<in> set (timers q)" for w a
    using ascending_hd [OF _ that] by (auto simp: less_eq_prod_def)
  then show ?thesis using e by force
qed

theorem alarm_is_set_witness:
  "\<exists>e. alarm two_timers = Some e \<and> (\<forall>w a. (w, a) \<in> set (timers two_timers) \<longrightarrow> e \<le> w)"
  by (rule alarm_is_set [OF two_timers_reachable]) (simp add: two_timers_def)

subsection \<open>Cancelled timers\<close>

text \<open>No timer has the sequence number, or none but the one at an address.\<close>

definition gone :: "int \<Rightarrow> timer_queue \<Rightarrow> bool" where
  "gone s q \<longleftrightarrow> (\<forall>b t. objects q b = Some t \<longrightarrow> sequence t \<noteq> s)"

definition known :: "timer_id \<Rightarrow> timer_queue \<Rightarrow> bool" where
  "known i q \<longleftrightarrow> snd i \<le> numCreated q \<and> (\<forall>b t. objects q b = Some t \<and> sequence t = snd i \<longrightarrow> b = fst i)"

lemma gone_stays: "gone s q \<Longrightarrow> s \<le> numCreated q \<Longrightarrow> no_comeback q q' \<Longrightarrow> gone s q'"
  by (force simp: gone_def no_comeback_def)

lemma known_stays: "known i q \<Longrightarrow> no_comeback q q' \<Longrightarrow> known i q'"
  by (force simp: known_def no_comeback_def)

lemma active_known:
  assumes "queue_inv b q" and "(a, s) \<in> set (activeTimers q)"
  shows "known (a, s) q"
proof -
  obtain t where t: "objects q a = Some t" "sequence t = s"
    using assms active_iff [of q a s] by (auto simp: queue_inv_def)
  have "inj_on (\<lambda>a. sequence (the (objects q a))) (dom (objects q))"
    and "s \<le> numCreated q"
    using assms(1) t by (auto simp: queue_inv_def timers_inv_def good_timer_def)
  moreover have "b = a" if "objects q b = Some u" "sequence u = s" for b u
    using inj_onD [OF calculation(1), of b a] that t by (simp add: domI)
  ultimately show ?thesis by (auto simp: known_def)
qed

text \<open>What a cancelled timer has come to while callbacks run: it is deleted, or, when it is one of those
  that are due, in the set of the timers that \<open>reset\<close> is to delete.\<close>

definition settled :: "timer_id \<Rightarrow> address list \<Rightarrow> timer_queue \<Rightarrow> bool" where
  "settled i b q \<longleftrightarrow> (if fst i \<in> set b then i \<in> set (cancelingTimers q) else gone (snd i) q)"

definition tracked :: "timer_id \<Rightarrow> address list \<Rightarrow> timer_queue \<Rightarrow> bool" where
  "tracked i b q \<longleftrightarrow>
     queue_inv b q \<and> known i q \<and> fst i \<notin> set (to_add (posted q)) \<and>
     (fst i \<in> set b \<longrightarrow> callingExpiredTimers q)"

lemma insert_timer_rest:
  "insert_timer a q = Some (e, q') \<Longrightarrow>
     posted q' = posted q \<and> callingExpiredTimers q' = callingExpiredTimers q \<and>
     cancelingTimers q' = cancelingTimers q"
  by (auto simp: insert_timer_def Let_def split: bind_splits prod.splits)

lemma addTimer_rest:
  "addTimer True a cb w i q = Some (j, q') \<Longrightarrow>
     posted q' = posted q \<and> callingExpiredTimers q' = callingExpiredTimers q \<and>
     cancelingTimers q' = cancelingTimers q"
  by (auto simp: addTimer_def addTimerInLoop_def Let_def resetTimerfd_def dest!: insert_timer_rest
      split: bind_splits prod.splits if_splits)

lemma set_insert_subset: "set xs \<subseteq> set (fst (set_insert x xs))" "x \<in> set (fst (set_insert x xs))"
  by (auto simp: set_insert_def set_insort_key)

lemma cancelInLoop_rest:
  "cancelInLoop i q = Some q' \<Longrightarrow>
     posted q' = posted q \<and> callingExpiredTimers q' = callingExpiredTimers q \<and>
     set (cancelingTimers q) \<subseteq> set (cancelingTimers q')"
  using set_insert_subset(1) [of "cancelingTimers q" i]
  by (auto simp: cancelInLoop_def Let_def split: if_splits bind_splits prod.splits)

lemma run_call_rest:
  "run_call c q = Some q' \<Longrightarrow>
     posted q' = posted q \<and> callingExpiredTimers q' = callingExpiredTimers q \<and>
     set (cancelingTimers q) \<subseteq> set (cancelingTimers q')"
  by (cases c) (auto simp: cancel_def dest: addTimer_rest cancelInLoop_rest)

lemma run_call_tracked:
  assumes "tracked i b q" and "call_ok c q" and "run_call c q = Some q'"
  shows "tracked i b q'" and "settled i b q \<Longrightarrow> settled i b q'"
proof -
  have "queue_inv b q'" using run_call_ok [of b q c] assms by (auto simp: tracked_def)
  then show "tracked i b q'"
    using assms(1) run_call_rest [OF assms(3)] known_stays [OF _ run_call_no_comeback [OF assms(3)]]
    by (simp add: tracked_def)
  show "settled i b q'" if "settled i b q"
    using that assms(1) run_call_rest [OF assms(3)] gone_stays [OF _ _ run_call_no_comeback [OF assms(3)]]
    by (auto simp: settled_def tracked_def known_def)
qed

text \<open>Cancelling settles a timer.\<close>

lemma cancelInLoop_settles:
  assumes "tracked i b q" and "cancelInLoop i q = Some q'"
  shows "settled i b q'"
proof -
  obtain a s where i: "i = (a, s)" by (cases i)
  have inv: "queue_inv b q" and known: "known (a, s) q"
    and calling: "a \<in> set b \<Longrightarrow> callingExpiredTimers q" and new: "a \<notin> set (to_add (posted q))"
    using assms(1) by (simp_all add: tracked_def i)
  have sets: "sets_inv q" using inv by (simp add: queue_inv_def)
  show ?thesis
  proof (cases "(a, s) \<in> set (activeTimers q)")
    case True
    then obtain t where t: "objects q a = Some t" "(expiration t, a) \<in> set (timers q)"
      using active_iff [OF sets, of a s] by auto
    have "a \<notin> set b" using inv t(2) by (force simp: queue_inv_def memory_inv_def)
    moreover have "gone s q'"
      using cancelInLoop_found(1) [OF inv True t(1)] assms(2) known
      by (auto simp: i gone_def known_def split: if_splits)
    ultimately show ?thesis by (simp add: settled_def i)
  next
    case False
    then have q': "q' = (if callingExpiredTimers q
        then q\<lparr>cancelingTimers := fst (set_insert i (cancelingTimers q))\<rparr> else q)"
      using assms(2) by (simp add: i cancelInLoop_not_found [OF inv] split: if_splits)
    have "gone s q" if "a \<notin> set b"
    proof -
      have "False" if "objects q x = Some t" "sequence t = s" for x t
      proof -
        have "x = a" using known that by (simp add: known_def)
        then have "a \<in> dom (objects q)" using that by auto
        then have "a \<in> places q"
          using inv new \<open>a \<notin> set b\<close> by (simp add: queue_inv_def memory_inv_def)
        then obtain w where "(w, a) \<in> set (timers q)" by auto
        then have "(a, s) \<in> set (activeTimers q)"
          using entry_stored [OF sets, of w a] that \<open>x = a\<close> by (auto simp: active_iff [OF sets])
        with False show ?thesis by simp
      qed
      then show ?thesis by (auto simp: gone_def)
    qed
    then show ?thesis
      using q' calling set_insert_subset(2) [of i] by (auto simp: settled_def i gone_def)
  qed
qed

lemma run_calls_settle:
  "tracked i b q \<Longrightarrow> calls_ok cs q \<Longrightarrow> run_calls cs q = Some q' \<Longrightarrow>
     tracked i b q' \<and> (settled i b q \<or> Call_cancel i \<in> set cs \<longrightarrow> settled i b q')"
proof (induction cs arbitrary: q)
  case (Cons c cs)
  obtain q1 where q1: "run_call c q = Some q1" "run_calls cs q1 = Some q'"
    using Cons.prems(3) by (auto split: bind_splits)
  have "call_ok c q" "calls_ok cs q1" using Cons.prems(2) q1(1) by simp_all
  note step = run_call_tracked [OF Cons.prems(1) \<open>call_ok c q\<close> q1(1)]
  have "settled i b q1" if "c = Call_cancel i"
    using cancelInLoop_settles [OF Cons.prems(1)] q1(1) that by (simp add: cancel_def)
  then show ?case using Cons.IH [OF step(1) \<open>calls_ok cs q1\<close> q1(2)] step(2) by auto
qed simp

lemma run_expired_settle:
  "tracked i b q \<Longrightarrow> expired_calls_ok es calls q \<Longrightarrow> run_expired es calls q = Some (cbs, q') \<Longrightarrow>
     tracked i b q' \<and> (settled i b q \<or> (\<exists>e\<in>set es. Call_cancel i \<in> set (calls (snd e))) \<longrightarrow> settled i b q')"
proof (induction es arbitrary: q cbs)
  case (Cons e es)
  obtain q1 cbs1 where q1: "run_calls (calls (snd e)) q = Some q1"
      "run_expired es calls q1 = Some (cbs1, q')"
    using Cons.prems(3) by (auto split: bind_splits prod.splits)
  have "calls_ok (calls (snd e)) q" "expired_calls_ok es calls q1"
    using Cons.prems(2) q1(1) by simp_all
  then show ?case
    using run_calls_settle [OF Cons.prems(1) _ q1(1)] Cons.IH [OF _ _ q1(2)] by auto
qed simp

text \<open>\<open>reset\<close> deletes the timer that was cancelled while it ran.\<close>

lemma reset_expired_deletes:
  "known (a, s) q \<Longrightarrow> (a, s) \<in> set (cancelingTimers q) \<Longrightarrow> a \<in> snd ` set es \<Longrightarrow>
     reset_expired es now q = Some q' \<Longrightarrow> gone s q'"
proof (induction es arbitrary: q)
  case (Cons e es)
  obtain t where t: "objects q (snd e) = Some t" using Cons.prems(4) by (auto split: bind_splits)
  let ?again = "repeats t \<and> (snd e, sequence t) \<notin> set (cancelingTimers q)"
  obtain q1 where q1: "reset_expired es now q1 = Some q'" "no_comeback q q1"
      "cancelingTimers q1 = cancelingTimers q" "\<not> ?again \<Longrightarrow> objects q1 (snd e) = None"
  proof (cases ?again)
    case True
    let ?q = "q\<lparr>objects := (objects q)(snd e \<mapsto> restart now t)\<rparr>"
    obtain x q1 where i: "insert_timer (snd e) ?q = Some (x, q1)" "reset_expired es now q1 = Some q'"
      using Cons.prems(4) t True by (auto split: bind_splits)
    have "no_comeback q q1"
      using insert_timer_same [OF i(1)] t by (simp add: no_comeback_def restart_def)
    then show thesis using that [OF i(2)] insert_timer_rest [OF i(1)] True by simp
  next
    case False
    let ?q = "q\<lparr>objects := (objects q)(snd e := None)\<rparr>"
    have "no_comeback q ?q" by (simp add: no_comeback_def)
    moreover have "reset_expired es now ?q = Some q'" using Cons.prems(4) t False by auto
    ultimately show thesis using that [of ?q] by simp
  qed
  have known1: "known (a, s) q1" by (rule known_stays [OF Cons.prems(1) q1(2)])
  show ?case
  proof (cases "snd e = a")
    case True
    have "gone s q1"
    proof (cases "sequence t = s")
      case same: True
      then have "objects q1 a = None" using q1(4) True Cons.prems(2) by simp
      then show ?thesis using known1 by (auto simp: gone_def known_def)
    next
      case False
      then have "gone s q" using t True Cons.prems(1) by (auto simp: gone_def known_def)
      then show ?thesis using gone_stays [OF _ _ q1(2)] Cons.prems(1) by (simp add: known_def)
    qed
    then show ?thesis
      using gone_stays [OF _ _ reset_expired_no_comeback [OF q1(1)]] known1 by (simp add: known_def)
  next
    case False
    then have "a \<in> snd ` set es" using Cons.prems(3) by auto
    then show ?thesis using Cons.IH [OF known1 _ _ q1(1)] Cons.prems(2) q1(3) by simp
  qed
qed simp

lemma alarm_settles:
  assumes inv: "queue_inv [] q" and active: "(a, s) \<in> set (activeTimers q)"
    and ok: "expired_calls_ok (due now q) calls (after_getExpired now q)"
    and cancelled: "\<exists>e\<in>set (due now q). Call_cancel (a, s) \<in> set (calls (snd e))"
    and h: "handle_timers now calls q = Some (cbs, q')"
  shows "gone s q'"
proof -
  let ?b = "map snd (due now q)" and ?qa = "after_getExpired now q"
  obtain act where qa: "?qa = q\<lparr>alarm := None, timers := later now q, activeTimers := act,
       callingExpiredTimers := True, cancelingTimers := []\<rparr>" "queue_inv ?b ?qa"
    using getExpired_after [OF inv, of now] by metis
  have "a \<in> places q" using inv active active_iff [of q a s] by (force simp: queue_inv_def)
  then have "a \<notin> set (to_add (posted q))" using inv by (auto simp: queue_inv_def memory_inv_def)
  then have "tracked (a, s) ?b ?qa"
    using active_known [OF inv active] qa(2) unfolding tracked_def known_def qa(1) by simp
  moreover obtain q1 q2 where r: "run_expired (due now q) calls ?qa = Some (cbs, q1)"
      "reset_expired (due now q) now (q1\<lparr>callingExpiredTimers := False\<rparr>) = Some q2"
      "objects q' = objects q2"
    using handle_timers_ok [OF inv ok] h by (fastforce simp: resetTimerfd_def split: if_splits)
  ultimately have q1: "tracked (a, s) ?b q1" "settled (a, s) ?b q1"
    using run_expired_settle [OF _ ok r(1)] cancelled by blast+
  let ?q1 = "q1\<lparr>callingExpiredTimers := False\<rparr>"
  have known: "known (a, s) ?q1" using q1(1) by (simp add: tracked_def known_def)
  have "gone s q2"
  proof (cases "a \<in> set ?b")
    case True
    then show ?thesis using reset_expired_deletes [OF known _ _ r(2)] q1(2) by (simp add: settled_def)
  next
    case False
    then have "gone s ?q1" using q1(2) by (simp add: settled_def gone_def)
    then show ?thesis
      using gone_stays [OF _ _ reset_expired_no_comeback [OF r(2)]] known by (simp add: known_def)
  qed
  then show ?thesis by (simp add: gone_def r(3))
qed

text \<open>A step of the loop's thread that cancels the timer: a call, the functor that another thread has posted,
  or a callback of an alarm.\<close>

fun cancels :: "timer_id \<Rightarrow> timer_op \<Rightarrow> timer_queue \<Rightarrow> bool" where
  "cancels i (Cancel_timer in_loop j) q \<longleftrightarrow> in_loop \<and> j = i"
| "cancels i Run_posted q \<longleftrightarrow> (\<exists>fs. posted q = Cancel_in_loop i # fs)"
| "cancels i (Alarm now calls) q \<longleftrightarrow> (\<exists>e\<in>set (due now q). Call_cancel i \<in> set (calls (snd e)))"
| "cancels i _ q \<longleftrightarrow> False"

lemma cancels_gone:
  assumes inv: "queue_inv [] q" and active: "(a, s) \<in> set (activeTimers q)"
    and "timer_enabled op q" and "cancels (a, s) op q" and "timer_do op q = Some q'"
  shows "gone s q'"
proof -
  have "a \<in> places q" using inv active active_iff [of q a s] by (force simp: queue_inv_def)
  then have new: "a \<notin> set (to_add (posted q))" using inv by (auto simp: queue_inv_def memory_inv_def)
  note known = active_known [OF inv active]
  show ?thesis
  proof (cases op)
    case (Cancel_timer in_loop i)
    have "tracked (a, s) [] q" using inv known new by (simp add: tracked_def)
    then show ?thesis
      using cancelInLoop_settles [of "(a, s)" "[]" q q'] assms(4,5) Cancel_timer
      by (simp add: cancel_def settled_def)
  next
    case Run_posted
    then obtain fs where fs: "posted q = Cancel_in_loop (a, s) # fs" using assms(4) by auto
    have "queue_inv [] (q\<lparr>posted := fs\<rparr>)" using inv fs by (simp add: queue_inv_def memory_inv_def)
    then have "tracked (a, s) [] (q\<lparr>posted := fs\<rparr>)"
      using known new fs by (simp add: tracked_def known_def)
    then show ?thesis
      using cancelInLoop_settles [of "(a, s)" "[]" _ q'] assms(5) Run_posted fs
      by (simp add: run_posted_def settled_def)
  next
    case (Alarm now calls)
    with assms(5) obtain cbs where "handle_timers now calls q = Some (cbs, q')" by auto
    then show ?thesis using alarm_settles [OF inv active, of now calls] assms(3,4) Alarm by simp
  qed (use assms(4) in simp_all)
qed

text \<open>C19: a timer that waits in the queue and is cancelled, by a call in the loop's thread, by the functor
  that a call in another thread has posted, or by a callback of an alarm, its own or another's and be the
  timer due in this alarm or not, is gone for good when that step is over: it is not in the queue, and
  after any further operations no timer has its sequence number, so its callback is run by no later alarm
  and its \<open>TimerId\<close> never meets another timer, even if one is allocated at the same address. (In the alarm
  itself the callback of a due timer runs even when another callback has cancelled the timer; and the
  functor of a cancellation that runs before the one that adds the timer cancels nothing.)
\<close>

theorem cancelled_timer_gone:
  assumes "timer_reachable q" and "(a, s) \<in> set (activeTimers q)"
    and "timer_enabled op q" and "cancels (a, s) op q" and "timer_do op q = Some q1"
    and "run_all timer_do ops q1 = Some q2"
  shows "(a, s) \<notin> set (activeTimers q1) \<and> (\<forall>b t. objects q2 b = Some t \<longrightarrow> sequence t \<noteq> s)"
proof -
  have inv: "queue_inv [] q" by (rule timer_reachable_inv [OF assms(1)])
  have gone: "gone s q1" by (rule cancels_gone [OF inv assms(2-5)])
  have inv1: "queue_inv [] q1" using timer_do_ok [OF inv assms(3)] assms(5) by auto
  have "known (a, s) q1"
    using active_known [OF inv assms(2)] known_stays timer_do_no_comeback [OF assms(5)] by blast
  then have "gone s q2" using gone_stays [OF gone _ timer_run_no_comeback [OF assms(6)]] by (simp add: known_def)
  moreover have "(a, s) \<notin> set (activeTimers q1)"
    using gone inv1 active_iff [of q1 a s] by (auto simp: gone_def queue_inv_def)
  ultimately show ?thesis by (simp add: gone_def)
qed

theorem cancelled_timer_gone_witness:
  "\<exists>q1. timer_do (Alarm 25 (\<lambda>a. if a = 200 then [Call_cancel (100, 1)] else [])) two_timers = Some q1 \<and>
     (100, 1) \<notin> set (activeTimers q1) \<and> (\<forall>b t. objects q1 b = Some t \<longrightarrow> sequence t \<noteq> 1)"
proof -
  let ?op = "Alarm 25 (\<lambda>a. if a = 200 then [Call_cancel (100, 1)] else [])"
  have enabled: "timer_enabled ?op two_timers"
    by (auto simp: two_timers_def due_def cancel_def split: option.splits)
  obtain q1 where q1: "timer_do ?op two_timers = Some q1"
    using timer_do_ok [OF timer_reachable_inv [OF two_timers_reachable] enabled] by blast
  have "(100, 1) \<in> set (activeTimers two_timers)" "cancels (100, 1) ?op two_timers"
    by (simp_all add: two_timers_def due_def)
  from cancelled_timer_gone [OF two_timers_reachable this(1) enabled this(2) q1, of "[]"] q1
  show ?thesis by (auto simp del: timer_do.simps)
qed

end
