(* ===== verification/Poller.thy ===== *)
theory Poller
  imports Channel Muduo_Prelude
begin

text \<open>
  The channels as a poller sees them (\<^verbatim>\<open>muduo/net/Channel.h\<close>), and what an event loop may expect
  of a poller (\<^verbatim>\<open>muduo/net/Poller.h\<close>): that it watches the descriptors for the events their channels
  last asked for. The contract is a locale; \<open>PollPoller\<close> and \<open>EPollPoller\<close> are its two
  implementations.
\<close>

record poll_channel =
  pc_fd :: int
  pc_events :: events
  pc_revents :: events
  pc_index :: int

definition new_poll_channel :: "int \<Rightarrow> poll_channel" where
  "new_poll_channel fd = \<lparr>pc_fd = fd, pc_events = 0, pc_revents = 0, pc_index = -1\<rparr>"

type_synonym channel_store = "address \<Rightarrow> poll_channel"

abbreviation set_index :: "address \<Rightarrow> int \<Rightarrow> channel_store \<Rightarrow> channel_store" where
  "set_index a i st \<equiv> st(a := (st a)\<lparr>pc_index := i\<rparr>)"

abbreviation set_revents :: "address \<Rightarrow> events \<Rightarrow> channel_store \<Rightarrow> channel_store" where
  "set_revents a r st \<equiv> st(a := (st a)\<lparr>pc_revents := r\<rparr>)"

abbreviation set_events :: "address \<Rightarrow> events \<Rightarrow> channel_store \<Rightarrow> channel_store" where
  "set_events a e st \<equiv> st(a := (st a)\<lparr>pc_events := e\<rparr>)"

definition hasChannel :: "address \<Rightarrow> (int \<rightharpoonup> address) \<Rightarrow> channel_store \<Rightarrow> bool" where
  "hasChannel a channels st \<longleftrightarrow> channels (pc_fd (st a)) = Some a"

subsection \<open>What a loop may expect\<close>

text \<open>
  A channel is new, registered with the events it last asked for, or removed. It may ask for other
  events while it asks for some; a channel that asks for none may only be removed.
\<close>

datatype phase = Fresh | Registered events | Removed

datatype poller_op = Update address events | Remove address

fun allowed :: "(address \<Rightarrow> int) \<Rightarrow> poller_op \<Rightarrow> (address \<Rightarrow> phase) \<Rightarrow> bool" where
  "allowed fd (Update a e) s \<longleftrightarrow>
     (case s a of
        Fresh \<Rightarrow> e \<noteq> kNoneEvent \<and> (\<forall>b e'. s b = Registered e' \<longrightarrow> fd b \<noteq> fd a)
      | Registered e' \<Rightarrow> e' \<noteq> kNoneEvent
      | Removed \<Rightarrow> False)"
| "allowed fd (Remove a) s \<longleftrightarrow> s a = Registered kNoneEvent"

fun next_phase :: "poller_op \<Rightarrow> (address \<Rightarrow> phase) \<Rightarrow> address \<Rightarrow> phase" where
  "next_phase (Update a e) s = s(a := Registered e)"
| "next_phase (Remove a) s = s(a := Removed)"

text \<open>The descriptors that are to be watched; the kernel's interface has 16 bits of events.\<close>

definition watches ::
  "(address \<Rightarrow> int) \<Rightarrow> (int \<Rightarrow> 16 word option) \<Rightarrow> (address \<Rightarrow> phase) \<Rightarrow> bool" where
  "watches fd w s \<longleftrightarrow>
     (\<forall>d ev. w d = Some ev \<longleftrightarrow>
        (\<exists>a e. s a = Registered e \<and> e \<noteq> kNoneEvent \<and> fd a = d \<and> ev = ucast e))"

lemma watches_unique: "watches fd w s \<Longrightarrow> watches fd w' s \<Longrightarrow> w = w'"
proof
  fix d assume w: "watches fd w s" "watches fd w' s"
  then have "w d = Some ev \<longleftrightarrow> w' d = Some ev" for ev unfolding watches_def by blast
  then show "w d = w' d" by (metis not_Some_eq)
qed

primrec allowed_run ::
  "(address \<Rightarrow> int) \<Rightarrow> poller_op list \<Rightarrow> (address \<Rightarrow> phase) \<Rightarrow> bool" where
  "allowed_run fd [] s \<longleftrightarrow> True"
| "allowed_run fd (op # ops) s \<longleftrightarrow> allowed fd op s \<and> allowed_run fd ops (next_phase op s)"

locale poller =
  fixes fd :: "address \<Rightarrow> int"
    and do_op :: "poller_op \<Rightarrow> 'p \<Rightarrow> 'p option"
    and watched :: "'p \<Rightarrow> int \<Rightarrow> 16 word option"
    and rel :: "'p \<Rightarrow> (address \<Rightarrow> phase) \<Rightarrow> bool"
  assumes op_ok: "rel p s \<Longrightarrow> allowed fd op s \<Longrightarrow>
      \<exists>p'. do_op op p = Some p' \<and> rel p' (next_phase op s)"
    and watched_ok: "rel p s \<Longrightarrow> watches fd (watched p) s"
begin

lemma run_ok:
  "rel p s \<Longrightarrow> allowed_run fd ops s \<Longrightarrow>
     \<exists>p'. run_all do_op ops p = Some p' \<and> rel p' (fold next_phase ops s)"
proof (induction ops arbitrary: p s)
  case (Cons op ops)
  then obtain p1 where "do_op op p = Some p1" "rel p1 (next_phase op s)"
    using op_ok [of p s op] by auto
  then show ?case using Cons.IH [of p1 "next_phase op s"] Cons.prems(2) by simp
qed simp

lemma run_watches:
  "rel p s \<Longrightarrow> allowed_run fd ops s \<Longrightarrow>
     \<exists>p'. run_all do_op ops p = Some p' \<and> watches fd (watched p') (fold next_phase ops s)"
  using run_ok watched_ok by blast

end

end
