(* ===== verification/Poll_Poller.thy ===== *)
theory Poll_Poller
  imports Poller
begin

text \<open>
  \<open>PollPoller\<close> of \<^verbatim>\<open>muduo/net/poller/PollPoller.cc\<close>: an array of \<open>pollfd\<close>s, and for every
  channel its index there. A negative descriptor hides an entry from the kernel. What \<open>poll\<close>
  returns is an argument.
\<close>

record pollfd =
  pfd_fd :: int
  pfd_events :: "16 word"
  pfd_revents :: "16 word"

record poll_poller =
  poll_channels :: "int \<rightharpoonup> address"
  pollfds :: "pollfd list"
  poll_store :: channel_store

definition new_poll_poller :: "(address \<Rightarrow> int) \<Rightarrow> poll_poller" where
  "new_poll_poller fd =
     \<lparr>poll_channels = Map.empty, pollfds = [], poll_store = (\<lambda>a. new_poll_channel (fd a))\<rparr>"

definition poll_updateChannel :: "address \<Rightarrow> poll_poller \<Rightarrow> poll_poller option" where
  "poll_updateChannel a p = (
     let c = poll_store p a in
     if pc_index c < 0 then do {
       C_assert (poll_channels p (pc_fd c) = None);
       let pfd = \<lparr>pfd_fd = pc_fd c, pfd_events = ucast (pc_events c), pfd_revents = 0\<rparr>;
       let fds = pollfds p @ [pfd];
       Some (p\<lparr>pollfds := fds, poll_store := set_index a (int (length fds) - 1) (poll_store p),
               poll_channels := (poll_channels p)(pc_fd c \<mapsto> a)\<rparr>)
     }
     else do {
       C_assert (poll_channels p (pc_fd c) \<noteq> None);
       C_assert (poll_channels p (pc_fd c) = Some a);
       let idx = pc_index c;
       C_assert (0 \<le> idx \<and> idx < int (length (pollfds p)));
       let pfd = pollfds p ! nat idx;
       C_assert (pfd_fd pfd = pc_fd c \<or> pfd_fd pfd = - pc_fd c - 1);
       let pfd = pfd\<lparr>pfd_events := ucast (pc_events c), pfd_revents := 0\<rparr>;
       let pfd = (if pc_events c = kNoneEvent then pfd\<lparr>pfd_fd := - pc_fd c - 1\<rparr> else pfd);
       Some (p\<lparr>pollfds := (pollfds p)[nat idx := pfd]\<rparr>)
     })"

text \<open>
  \<open>removeChannel\<close>: the last entry takes the place of the removed one. The channel's own index is
  left as it is.
\<close>

definition poll_removeChannel :: "address \<Rightarrow> poll_poller \<Rightarrow> poll_poller option" where
  "poll_removeChannel a p = do {
     let c = poll_store p a;
     C_assert (poll_channels p (pc_fd c) \<noteq> None);
     C_assert (poll_channels p (pc_fd c) = Some a);
     C_assert (pc_events c = kNoneEvent);
     let idx = pc_index c;
     C_assert (0 \<le> idx \<and> idx < int (length (pollfds p)));
     let pfd = pollfds p ! nat idx;
     C_assert (pfd_fd pfd = - pc_fd c - 1 \<and> scast (pfd_events pfd) = pc_events c);
     let channels = (poll_channels p)(pc_fd c := None);
     if nat idx = length (pollfds p) - 1 then
       Some (p\<lparr>poll_channels := channels, pollfds := butlast (pollfds p)\<rparr>)
     else do {
       let channelAtEnd = pfd_fd (last (pollfds p));
       let swapped = (pollfds p)[nat idx := last (pollfds p), length (pollfds p) - 1 := pfd];
       let channelAtEnd = (if channelAtEnd < 0 then - channelAtEnd - 1 else channelAtEnd);
       b \<leftarrow> channels channelAtEnd;
       Some (p\<lparr>poll_channels := channels, pollfds := butlast swapped,
               poll_store := set_index b idx (poll_store p)\<rparr>)
     }
   }"

fun fill_active ::
  "pollfd list \<Rightarrow> nat \<Rightarrow> (int \<rightharpoonup> address) \<Rightarrow> channel_store \<Rightarrow> (address list \<times> channel_store) option"
where
  "fill_active (pfd # fds) (Suc numEvents) channels st =
     (if 0 < sint (pfd_revents pfd) then do {
        a \<leftarrow> channels (pfd_fd pfd);
        C_assert (pc_fd (st a) = pfd_fd pfd);
        (active, st) \<leftarrow> fill_active fds numEvents channels
                         (set_revents a (scast (pfd_revents pfd)) st);
        Some (a # active, st)
      }
      else fill_active fds (Suc numEvents) channels st)"
| "fill_active _ _ channels st = Some ([], st)"

text \<open>
  \<open>poll\<close>: the kernel has set the \<open>revents\<close> and counted the entries where they are not zero; a
  negative count is an error.
\<close>

definition poll_poll ::
  "int \<Rightarrow> 16 word list \<Rightarrow> poll_poller \<Rightarrow> (address list \<times> poll_poller) option" where
  "poll_poll numEvents revents p = (
     let p = p\<lparr>pollfds := map2 (\<lambda>pfd r. pfd\<lparr>pfd_revents := r\<rparr>) (pollfds p) revents\<rparr> in
     if 0 < numEvents then do {
       (active, st) \<leftarrow> fill_active (pollfds p) (nat numEvents) (poll_channels p) (poll_store p);
       Some (active, p\<lparr>poll_store := st\<rparr>)
     }
     else Some ([], p))"

text \<open>What \<open>Channel\<close> calls after it has changed its events, or to be removed.\<close>

fun poll_do :: "poller_op \<Rightarrow> poll_poller \<Rightarrow> poll_poller option" where
  "poll_do (Update a e) p = poll_updateChannel a (p\<lparr>poll_store := set_events a e (poll_store p)\<rparr>)"
| "poll_do (Remove a) p = poll_removeChannel a p"

text \<open>What the kernel is asked to watch: the entries that are not hidden.\<close>

definition poll_watched :: "poll_poller \<Rightarrow> int \<Rightarrow> 16 word option" where
  "poll_watched p d =
     (if d < 0 then None
      else map_option pfd_events (find (\<lambda>pfd. pfd_fd pfd = d) (pollfds p)))"

subsection \<open>The array and the indices\<close>

definition slot_fd :: "pollfd \<Rightarrow> int" where
  "slot_fd pfd = (if pfd_fd pfd < 0 then - pfd_fd pfd - 1 else pfd_fd pfd)"

text \<open>Every registered channel has its entry, and every entry its channel.\<close>

definition slots_inv :: "poll_poller \<Rightarrow> bool" where
  "slots_inv p \<longleftrightarrow>
     (\<forall>d a. poll_channels p d = Some a \<longrightarrow>
        pc_fd (poll_store p a) = d \<and> 0 \<le> pc_index (poll_store p a) \<and>
        nat (pc_index (poll_store p a)) < length (pollfds p) \<and>
        slot_fd (pollfds p ! nat (pc_index (poll_store p a))) = d) \<and>
     (\<forall>i < length (pollfds p).
        \<exists>a. poll_channels p (slot_fd (pollfds p ! i)) = Some a \<and> pc_index (poll_store p a) = int i)"

definition poll_phase :: "poll_poller \<Rightarrow> address \<Rightarrow> phase \<Rightarrow> bool" where
  "poll_phase p a ph \<longleftrightarrow>
     (case ph of
        Fresh \<Rightarrow> pc_index (poll_store p a) < 0 \<and> (\<forall>d. poll_channels p d \<noteq> Some a)
      | Registered e \<Rightarrow>
          poll_channels p (pc_fd (poll_store p a)) = Some a \<and> pc_events (poll_store p a) = e \<and>
          (let pfd = pollfds p ! nat (pc_index (poll_store p a)); d = pc_fd (poll_store p a) in
           pfd_fd pfd = (if e = kNoneEvent then - d - 1 else d) \<and> pfd_events pfd = ucast e)
      | Removed \<Rightarrow> \<forall>d. poll_channels p d \<noteq> Some a)"

definition poll_rel ::
  "(address \<Rightarrow> int) \<Rightarrow> poll_poller \<Rightarrow> (address \<Rightarrow> phase) \<Rightarrow> bool" where
  "poll_rel fd p s \<longleftrightarrow>
     slots_inv p \<and> (\<forall>a. 0 \<le> fd a \<and> pc_fd (poll_store p a) = fd a \<and> poll_phase p a (s a))"

lemma poll_rel_new: "(\<And>a. 0 \<le> fd a) \<Longrightarrow> poll_rel fd (new_poll_poller fd) (\<lambda>_. Fresh)"
  by (simp add: poll_rel_def slots_inv_def poll_phase_def new_poll_poller_def new_poll_channel_def)

lemma slot_of:
  assumes "slots_inv p" and "poll_channels p d = Some a"
  shows "pc_fd (poll_store p a) = d" "0 \<le> pc_index (poll_store p a)"
    "nat (pc_index (poll_store p a)) < length (pollfds p)"
    "slot_fd (pollfds p ! nat (pc_index (poll_store p a))) = d"
  using assms unfolding slots_inv_def by blast+

lemma channel_of_slot:
  assumes "slots_inv p" and "i < length (pollfds p)"
  obtains a where "poll_channels p (slot_fd (pollfds p ! i)) = Some a"
    "pc_index (poll_store p a) = int i"
  using assms unfolding slots_inv_def by blast

lemma same_slot:
  assumes "slots_inv p" and "poll_channels p d = Some a" and "poll_channels p d' = Some b"
    and "pc_index (poll_store p a) = pc_index (poll_store p b)"
  shows "a = b" "d = d'"
proof -
  show "d = d'" using slot_of(4) [OF assms(1,2)] slot_of(4) [OF assms(1,3)] assms(4) by simp
  then show "a = b" using assms(2,3) by simp
qed

lemma registered_phase: "poll_channels p d = Some a \<Longrightarrow> poll_phase p a ph \<Longrightarrow> \<exists>e. ph = Registered e"
  by (cases ph) (auto simp: poll_phase_def)

subsection \<open>The operations keep the array\<close>

lemma poll_phase_cong:
  assumes "poll_store p' b = poll_store p b"
    and "\<And>d. poll_channels p' d = Some b \<longleftrightarrow> poll_channels p d = Some b"
    and "poll_channels p (pc_fd (poll_store p b)) = Some b \<Longrightarrow>
      pollfds p' ! nat (pc_index (poll_store p b)) = pollfds p ! nat (pc_index (poll_store p b))"
  shows "poll_phase p' b ph = poll_phase p b ph"
  using assms by (auto simp: poll_phase_def split: phase.splits)

lemma slots_invI:
  assumes "\<And>d a. poll_channels p d = Some a \<Longrightarrow>
        pc_fd (poll_store p a) = d \<and> 0 \<le> pc_index (poll_store p a) \<and>
        nat (pc_index (poll_store p a)) < length (pollfds p) \<and>
        slot_fd (pollfds p ! nat (pc_index (poll_store p a))) = d"
    and "\<And>i. i < length (pollfds p) \<Longrightarrow>
        \<exists>a. poll_channels p (slot_fd (pollfds p ! i)) = Some a \<and> pc_index (poll_store p a) = int i"
  shows "slots_inv p"
  using assms unfolding slots_inv_def by blast

lemma poll_rel_phase: "poll_rel fd p s \<Longrightarrow> poll_phase p a (s a)"
  and poll_rel_fd: "poll_rel fd p s \<Longrightarrow> pc_fd (poll_store p a) = fd a"
  and poll_rel_nonneg: "poll_rel fd p s \<Longrightarrow> 0 \<le> fd a"
  and poll_rel_slots: "poll_rel fd p s \<Longrightarrow> slots_inv p"
  by (simp_all add: poll_rel_def)

lemma poll_add_ok:
  assumes rel: "poll_rel fd p s" and fresh: "s a = Fresh"
    and free: "\<And>b e'. s b = Registered e' \<Longrightarrow> fd b \<noteq> fd a" and e: "e \<noteq> kNoneEvent"
  shows "\<exists>p'. poll_do (Update a e) p = Some p' \<and> poll_rel fd p' (s(a := Registered e))"
proof -
  let ?n = "length (pollfds p)"
  let ?pfd = "\<lparr>pfd_fd = fd a, pfd_events = ucast e, pfd_revents = 0\<rparr>"
  let ?p = "p\<lparr>pollfds := pollfds p @ [?pfd],
              poll_store := set_index a (int ?n) (set_events a e (poll_store p)),
              poll_channels := (poll_channels p)(fd a \<mapsto> a)\<rparr>"
  have slots: "slots_inv p" and fd: "pc_fd (poll_store p b) = fd b" and nonneg: "0 \<le> fd b" for b
    using rel by (simp_all add: poll_rel_def)
  have phase: "poll_phase p b (s b)" for b by (rule poll_rel_phase [OF rel])
  have none: "poll_channels p (fd a) = None"
  proof (rule ccontr)
    assume "poll_channels p (fd a) \<noteq> None"
    then obtain b where b: "poll_channels p (fd a) = Some b" by auto
    then obtain e' where "s b = Registered e'" using registered_phase [OF b phase] by blast
    moreover have "fd b = fd a" using slot_of(1) [OF slots b] fd by simp
    ultimately show False using free by blast
  qed
  have a: "pc_index (poll_store p a) < 0" "poll_channels p d \<noteq> Some a" for d
    using phase [of a] fresh by (auto simp: poll_phase_def)
  have "poll_do (Update a e) p = Some ?p"
    using a(1) none fd by (simp add: poll_updateChannel_def)
  moreover have "slots_inv ?p"
  proof (rule slots_invI)
    fix d b assume "poll_channels ?p d = Some b"
    then show "pc_fd (poll_store ?p b) = d \<and> 0 \<le> pc_index (poll_store ?p b) \<and>
        nat (pc_index (poll_store ?p b)) < length (pollfds ?p) \<and>
        slot_fd (pollfds ?p ! nat (pc_index (poll_store ?p b))) = d"
    proof (cases "d = fd a")
      case False
      then have b: "poll_channels p d = Some b" using \<open>poll_channels ?p d = Some b\<close> by simp
      then have "b \<noteq> a" using a(2) by auto
      with slot_of [OF slots b] show ?thesis by (simp add: nth_append)
    qed (use fd nonneg in \<open>auto simp: slot_fd_def not_less\<close>)
  next
    fix i assume "i < length (pollfds ?p)"
    then consider "i < ?n" | "i = ?n" by fastforce
    then show "\<exists>b. poll_channels ?p (slot_fd (pollfds ?p ! i)) = Some b \<and>
        pc_index (poll_store ?p b) = int i"
    proof cases
      case 1
      then obtain b where b: "poll_channels p (slot_fd (pollfds p ! i)) = Some b"
          "pc_index (poll_store p b) = int i"
        by (rule channel_of_slot [OF slots])
      then have "b \<noteq> a" "slot_fd (pollfds p ! i) \<noteq> fd a" using a(2) none by auto
      with b 1 show ?thesis by (simp add: nth_append)
    next
      case 2
      then show ?thesis using nonneg [of a] by (simp add: slot_fd_def not_less [symmetric])
    qed
  qed
  moreover have "poll_phase ?p b ((s(a := Registered e)) b)" for b
  proof (cases "b = a")
    case True
    then show ?thesis using e fd by (simp add: poll_phase_def)
  next
    case False
    have "poll_phase ?p b (s b) = poll_phase p b (s b)"
    proof (rule poll_phase_cong)
      show "poll_channels ?p d = Some b \<longleftrightarrow> poll_channels p d = Some b" for d
        using False none by auto
    qed (use False slot_of(3) [OF slots] in \<open>auto simp: nth_append\<close>)
    then show ?thesis using False phase by simp
  qed
  ultimately show ?thesis using nonneg fd by (auto simp: poll_rel_def)
qed

lemma poll_update_ok:
  assumes rel: "poll_rel fd p s" and reg: "s a = Registered e'" and e': "e' \<noteq> kNoneEvent"
  shows "\<exists>p'. poll_do (Update a e) p = Some p' \<and> poll_rel fd p' (s(a := Registered e))"
proof -
  let ?i = "nat (pc_index (poll_store p a))"
  let ?pfd = "(pollfds p ! ?i)\<lparr>pfd_fd := (if e = kNoneEvent then - fd a - 1 else fd a),
               pfd_events := ucast e, pfd_revents := 0\<rparr>"
  let ?p = "p\<lparr>poll_store := set_events a e (poll_store p), pollfds := (pollfds p)[?i := ?pfd]\<rparr>"
  have slots: "slots_inv p" and fd: "pc_fd (poll_store p b) = fd b" and nonneg: "0 \<le> fd b" for b
    using rel by (simp_all add: poll_rel_def)
  have phase: "poll_phase p b (s b)" for b by (rule poll_rel_phase [OF rel])
  have a: "poll_channels p (fd a) = Some a" "pfd_fd (pollfds p ! ?i) = fd a"
    using phase [of a] reg e' fd by (simp_all add: poll_phase_def Let_def)
  note idx = slot_of [OF slots a(1)]
  have small: "pc_index (poll_store p a) < int (length (pollfds p))" using idx(2,3) by linarith
  have pfd: "?pfd = (let x = (pollfds p ! ?i)\<lparr>pfd_events := ucast e, pfd_revents := 0\<rparr>
      in if e = kNoneEvent then x\<lparr>pfd_fd := - fd a - 1\<rparr> else x)"
    using a(2) by (cases "pollfds p ! ?i") simp
  have "poll_do (Update a e) p = Some ?p"
    unfolding pfd using a idx(2) small fd by (simp add: poll_updateChannel_def Let_def)
  moreover have other: "nat (pc_index (poll_store p b)) \<noteq> ?i"
    if "poll_channels p d = Some b" "b \<noteq> a" for b d
  proof
    assume "nat (pc_index (poll_store p b)) = ?i"
    then have "pc_index (poll_store p b) = pc_index (poll_store p a)"
      using slot_of(2) [OF slots that(1)] idx(2) by simp
    then show False using same_slot(1) [OF slots that(1) a(1)] that(2) by blast
  qed
  have slot: "slot_fd ?pfd = fd a" using nonneg [of a] by (simp add: slot_fd_def)
  have "slots_inv ?p"
  proof (rule slots_invI)
    fix d b assume "poll_channels ?p d = Some b"
    then have b: "poll_channels p d = Some b" by simp
    then have "d = fd b" using slot_of(1) [OF slots b] fd by simp
    then show "pc_fd (poll_store ?p b) = d \<and> 0 \<le> pc_index (poll_store ?p b) \<and>
        nat (pc_index (poll_store ?p b)) < length (pollfds ?p) \<and>
        slot_fd (pollfds ?p ! nat (pc_index (poll_store ?p b))) = d"
      using slot_of [OF slots b] other [OF b] slot idx by (cases "b = a") auto
  next
    fix i assume i: "i < length (pollfds ?p)"
    then have "i < length (pollfds p)" by simp
    then obtain b where b: "poll_channels p (slot_fd (pollfds p ! i)) = Some b"
        "pc_index (poll_store p b) = int i"
      by (rule channel_of_slot [OF slots])
    have "slot_fd (pollfds ?p ! i) = slot_fd (pollfds p ! i)"
      using idx slot i by (cases "i = ?i") auto
    with b show "\<exists>b. poll_channels ?p (slot_fd (pollfds ?p ! i)) = Some b \<and>
        pc_index (poll_store ?p b) = int i" by (intro exI [where x = b]) auto
  qed
  moreover have "poll_phase ?p b ((s(a := Registered e)) b)" for b
  proof (cases "b = a")
    case True
    then show ?thesis using fd a idx by (simp add: poll_phase_def)
  next
    case False
    have "poll_phase ?p b (s b) = poll_phase p b (s b)"
    proof (rule poll_phase_cong)
      assume "poll_channels p (pc_fd (poll_store p b)) = Some b"
      from other [OF this False]
      show "pollfds ?p ! nat (pc_index (poll_store p b)) =
          pollfds p ! nat (pc_index (poll_store p b))" by simp
    qed (use False in simp_all)
    then show ?thesis using False phase by simp
  qed
  ultimately show ?thesis using nonneg fd by (auto simp: poll_rel_def)
qed

lemma butlast_update_last:
  "butlast (xs[i := x, length xs - 1 := y]) = (butlast xs)[i := x]" if "i < length xs - 1"
proof (cases xs rule: rev_cases)
  case (snoc zs z)
  with that show ?thesis by (simp add: list_update_append)
qed (use that in simp)

lemma poll_remove_ok:
  assumes rel: "poll_rel fd p s" and reg: "s a = Registered kNoneEvent"
  shows "\<exists>p'. poll_do (Remove a) p = Some p' \<and> poll_rel fd p' (s(a := Removed))"
proof -
  let ?i = "nat (pc_index (poll_store p a))" and ?n = "length (pollfds p) - 1"
  have slots: "slots_inv p" and fd: "pc_fd (poll_store p b) = fd b" and nonneg: "0 \<le> fd b" for b
    using rel by (simp_all add: poll_rel_def)
  have phase: "poll_phase p b (s b)" for b by (rule poll_rel_phase [OF rel])
  have a: "poll_channels p (fd a) = Some a" "pfd_fd (pollfds p ! ?i) = - fd a - 1"
    "pc_events (poll_store p a) = kNoneEvent" "pfd_events (pollfds p ! ?i) = ucast kNoneEvent"
    using phase [of a] reg fd by (simp_all add: poll_phase_def Let_def)
  note idx = slot_of [OF slots a(1)]
  have small: "pc_index (poll_store p a) < int (length (pollfds p))" using idx(2,3) by linarith
  have ev: "scast (pfd_events (pollfds p ! ?i)) = pc_events (poll_store p a)"
    by (simp add: a(3,4) kNoneEvent_def)
  have n: "length (pollfds p) = Suc ?n" using idx(3) by simp
  let ?chs = "(poll_channels p)(fd a := None)"
  have other: "b \<noteq> a" "nat (pc_index (poll_store p b)) \<noteq> ?i" "d = fd b"
    if "?chs d = Some b" for b d
  proof -
    have d: "d \<noteq> fd a" "poll_channels p d = Some b" using that by (auto split: if_splits)
    show "d = fd b" using slot_of(1) [OF slots d(2)] fd by simp
    then show "b \<noteq> a" using d(1) by auto
    then show "nat (pc_index (poll_store p b)) \<noteq> ?i"
      using slot_of(2) [OF slots d(2)] idx(2) same_slot(1) [OF slots d(2) a(1)] by fastforce
  qed
  have slot_a: "slot_fd (pollfds p ! j) = fd a \<Longrightarrow> j < length (pollfds p) \<Longrightarrow> j = ?i" for j
    by (rule channel_of_slot [OF slots, of j]) (use a(1) in auto)
  show ?thesis
  proof (cases "?i = ?n")
    case True
    let ?p = "p\<lparr>poll_channels := ?chs, pollfds := butlast (pollfds p)\<rparr>"
    have "poll_do (Remove a) p = Some ?p"
      using a idx(2) small ev True by (simp add: poll_removeChannel_def fd)
    moreover have short: "nat (pc_index (poll_store p b)) < ?n" if "?chs d = Some b" for b d
    proof -
      have "poll_channels p d = Some b" using that by (auto split: if_splits)
      then show ?thesis using slot_of(3) [OF slots] other(2) [OF that] True n by fastforce
    qed
    have "slots_inv ?p"
    proof (rule slots_invI)
      fix d b assume "poll_channels ?p d = Some b"
      then have b: "?chs d = Some b" by simp
      then have "poll_channels p d = Some b" by (auto split: if_splits)
      from slot_of [OF slots this] short [OF b]
      show "pc_fd (poll_store ?p b) = d \<and> 0 \<le> pc_index (poll_store ?p b) \<and>
          nat (pc_index (poll_store ?p b)) < length (pollfds ?p) \<and>
          slot_fd (pollfds ?p ! nat (pc_index (poll_store ?p b))) = d"
        by (simp add: nth_butlast)
    next
      fix i assume "i < length (pollfds ?p)"
      then have i: "i < ?n" "i < length (pollfds p)" by simp_all
      from i(2) obtain b where b: "poll_channels p (slot_fd (pollfds p ! i)) = Some b"
          "pc_index (poll_store p b) = int i"
        by (rule channel_of_slot [OF slots])
      have "slot_fd (pollfds p ! i) \<noteq> fd a" using slot_a [of i] i True by auto
      with b i show "\<exists>b. poll_channels ?p (slot_fd (pollfds ?p ! i)) = Some b \<and>
          pc_index (poll_store ?p b) = int i" by (simp add: nth_butlast)
    qed
    moreover have "poll_phase ?p b ((s(a := Removed)) b)" for b
    proof (cases "b = a")
      case True
      have "?chs d \<noteq> Some a" for d using other(1) [of d a] by blast
      then show ?thesis using True by (simp add: poll_phase_def)
    next
      case False
      have "poll_phase ?p b (s b) = poll_phase p b (s b)"
      proof (rule poll_phase_cong)
        show "poll_channels ?p d = Some b \<longleftrightarrow> poll_channels p d = Some b" for d
          using False a(1) by auto
        assume "poll_channels p (pc_fd (poll_store p b)) = Some b"
        then have "?chs (fd b) = Some b" using False a(1) fd by auto
        from short [OF this]
        show "pollfds ?p ! nat (pc_index (poll_store p b)) =
            pollfds p ! nat (pc_index (poll_store p b))" by (simp add: nth_butlast)
      qed simp
      then show ?thesis using False phase by simp
    qed
    ultimately show ?thesis using nonneg fd by (auto simp: poll_rel_def)
  next
    case False
    then have i: "?i < ?n" using idx(3) by linarith
    let ?tail = "last (pollfds p)"
    have last: "?tail = pollfds p ! ?n" using n by (metis last_conv_nth length_0_conv nat.simps(3))
    have "?n < length (pollfds p)" using n by simp
    then obtain b where b: "poll_channels p (slot_fd ?tail) = Some b"
        "pc_index (poll_store p b) = int ?n"
      unfolding last by (rule channel_of_slot [OF slots])
    have end_a: "slot_fd ?tail \<noteq> fd a" using slot_a [of ?n] i last \<open>?n < length (pollfds p)\<close> by fastforce
    then have ba: "b \<noteq> a" using b(1) slot_of(1) [OF slots b(1)] fd by auto
    let ?p = "p\<lparr>poll_channels := ?chs, pollfds := (butlast (pollfds p))[?i := ?tail],
                poll_store := set_index b (pc_index (poll_store p a)) (poll_store p)\<rparr>"
    have swap: "butlast ((pollfds p)[?i := ?tail, length (pollfds p) - Suc 0 := x]) =
        (butlast (pollfds p))[?i := ?tail]" for x
      using butlast_update_last [OF i] by simp
    have "poll_do (Remove a) p = Some ?p"
      using a idx(2) small ev False b end_a i
      by (simp add: poll_removeChannel_def fd slot_fd_def Let_def swap split: if_splits)
    moreover have index: "nat (pc_index (poll_store ?p c)) < ?n \<and>
        pollfds ?p ! nat (pc_index (poll_store ?p c)) = pollfds p ! nat (pc_index (poll_store p c))"
      if "?chs d = Some c" for c d
    proof (cases "c = b")
      case True
      have "nat (pc_index (poll_store p b)) = ?n" unfolding b(2) by (rule nat_int)
      then show ?thesis using True i last by simp
    next
      case False
      have c: "poll_channels p d = Some c" using that by (auto split: if_splits)
      have "nat (pc_index (poll_store p c)) \<noteq> ?n"
        using same_slot(1) [OF slots c b(1)] slot_of(2) [OF slots c] b(2) False by fastforce
      then have "nat (pc_index (poll_store p c)) < ?n" using slot_of(3) [OF slots c] by linarith
      then show ?thesis using False other(2) [OF that] by (simp add: nth_butlast)
    qed
    have "slots_inv ?p"
    proof (rule slots_invI)
      fix d c assume "poll_channels ?p d = Some c"
      then have c: "?chs d = Some c" by simp
      then have "poll_channels p d = Some c" by (auto split: if_splits)
      from slot_of [OF slots this] index [OF c] idx(2)
      show "pc_fd (poll_store ?p c) = d \<and> 0 \<le> pc_index (poll_store ?p c) \<and>
          nat (pc_index (poll_store ?p c)) < length (pollfds ?p) \<and>
          slot_fd (pollfds ?p ! nat (pc_index (poll_store ?p c))) = d"
        by auto
    next
      fix j assume "j < length (pollfds ?p)"
      then have j: "j < ?n" "j < length (pollfds p)" by simp_all
      show "\<exists>c. poll_channels ?p (slot_fd (pollfds ?p ! j)) = Some c \<and>
          pc_index (poll_store ?p c) = int j"
      proof (cases "j = ?i")
        case True
        then show ?thesis using b end_a i idx(2) by (intro exI [where x = b]) simp
      next
        case False
        obtain c where c: "poll_channels p (slot_fd (pollfds p ! j)) = Some c"
            "pc_index (poll_store p c) = int j"
          by (rule channel_of_slot [OF slots j(2)])
        have "c \<noteq> b" using c(2) b(2) j by auto
        moreover have "slot_fd (pollfds p ! j) \<noteq> fd a" using slot_a [of j] False j by auto
        ultimately show ?thesis
          using c j False by (intro exI [where x = c]) (simp add: nth_butlast)
      qed
    qed
    moreover have "poll_phase ?p c ((s(a := Removed)) c)" for c
    proof (cases "c = a")
      case True
      have "?chs d \<noteq> Some a" for d using other(1) [of d a] by blast
      then show ?thesis using True by (simp add: poll_phase_def)
    next
      case False
      show ?thesis
      proof (cases "\<exists>d. poll_channels p d = Some c")
        case True
        then obtain d where d: "poll_channels p d = Some c" ..
        then obtain e where e: "s c = Registered e" using registered_phase [OF d phase] by blast
        have "d = fd c" using slot_of(1) [OF slots d] fd by simp
        then have chs: "?chs (fd c) = Some c" using d False a(1) by auto
        have "pc_fd (poll_store ?p c) = fd c" "pc_events (poll_store ?p c) = pc_events (poll_store p c)"
          using fd by simp_all
        then show ?thesis
          using phase [of c] index [OF chs] chs False
          by (simp add: e poll_phase_def Let_def fd)
      next
        case none: False
        then have "poll_phase ?p c (s c) = poll_phase p c (s c)"
          by (intro poll_phase_cong) (use b(1) in auto)
        then show ?thesis using False phase by simp
      qed
    qed
    ultimately show ?thesis using nonneg fd by (auto simp: poll_rel_def)
  qed
qed

lemma poll_watches:
  assumes rel: "poll_rel fd p s"
  shows "watches fd (poll_watched p) s"
proof -
  have slots: "slots_inv p" and fd: "pc_fd (poll_store p b) = fd b" and nonneg: "0 \<le> fd b" for b
    using rel by (simp_all add: poll_rel_def)
  have phase: "poll_phase p b (s b)" for b by (rule poll_rel_phase [OF rel])
  have "poll_watched p d = Some ev \<longleftrightarrow>
      (\<exists>a e. s a = Registered e \<and> e \<noteq> kNoneEvent \<and> fd a = d \<and> ev = ucast e)" for d ev
  proof
    assume "poll_watched p d = Some ev"
    then obtain pfd where "0 \<le> d" "find (\<lambda>pfd. pfd_fd pfd = d) (pollfds p) = Some pfd"
        "ev = pfd_events pfd"
      by (auto simp: poll_watched_def not_less split: if_splits)
    then obtain i where i: "i < length (pollfds p)" "pfd_fd (pollfds p ! i) = d" "0 \<le> d"
        "ev = pfd_events (pollfds p ! i)"
      by (auto simp: find_Some_iff)
    obtain a where a: "poll_channels p (slot_fd (pollfds p ! i)) = Some a"
        "pc_index (poll_store p a) = int i"
      by (rule channel_of_slot [OF slots i(1)])
    then obtain e where e: "s a = Registered e" using registered_phase [OF a(1) phase] by blast
    then show "\<exists>a e. s a = Registered e \<and> e \<noteq> kNoneEvent \<and> fd a = d \<and> ev = ucast e"
      using phase [of a] a(2) i nonneg [of a] fd
      by (auto simp: poll_phase_def Let_def split: if_splits intro!: exI [where x = a])
  next
    assume "\<exists>a e. s a = Registered e \<and> e \<noteq> kNoneEvent \<and> fd a = d \<and> ev = ucast e"
    then obtain a e where a: "s a = Registered e" "e \<noteq> kNoneEvent" "fd a = d" "ev = ucast e" by blast
    let ?i = "nat (pc_index (poll_store p a))"
    have ch: "poll_channels p d = Some a" "pfd_fd (pollfds p ! ?i) = d"
        "pfd_events (pollfds p ! ?i) = ev"
      using phase [of a] a fd by (simp_all add: poll_phase_def Let_def)
    have "?i < length (pollfds p)" by (rule slot_of(3) [OF slots ch(1)])
    moreover have "pfd_fd (pollfds p ! j) \<noteq> d" if "j < ?i" for j
    proof
      assume j: "pfd_fd (pollfds p ! j) = d"
      have "j < length (pollfds p)" using that \<open>?i < length (pollfds p)\<close> by simp
      then obtain b where b: "poll_channels p (slot_fd (pollfds p ! j)) = Some b"
          "pc_index (poll_store p b) = int j"
        by (rule channel_of_slot [OF slots])
      have "slot_fd (pollfds p ! j) = d" using j nonneg [of a] a(3) by (simp add: slot_fd_def)
      then show False using b ch(1) that by simp
    qed
    ultimately have "find (\<lambda>pfd. pfd_fd pfd = d) (pollfds p) = Some (pollfds p ! ?i)"
      using ch(2) by (auto simp: find_Some_iff)
    then show "poll_watched p d = Some ev"
      using ch(3) nonneg [of a] a(3) by (simp add: poll_watched_def)
  qed
  then show ?thesis by (simp add: watches_def)
qed

interpretation poll: poller fd poll_do poll_watched "poll_rel fd" for fd
proof
  fix p s op assume rel: "poll_rel fd p s" and ok: "allowed fd op s"
  show "\<exists>p'. poll_do op p = Some p' \<and> poll_rel fd p' (next_phase op s)"
  proof (cases op)
    case (Update a e)
    with rel ok show ?thesis
      using poll_add_ok [OF rel, of a e] poll_update_ok [OF rel, of a _ e]
      by (auto split: phase.splits simp del: poll_do.simps)
  next
    case (Remove a)
    with rel ok show ?thesis
      using poll_remove_ok [OF rel, of a] by (auto simp del: poll_do.simps)
  qed
qed (rule poll_watches)

end
