(* ===== verification/Epoll_Poller.thy ===== *)
theory Epoll_Poller
  imports Poller
begin

text \<open>
  \<open>EPollPoller\<close> of \<^verbatim>\<open>muduo/net/poller/EPollPoller.cc\<close>. The kernel's side of the \<open>epoll\<close>
  descriptor is part of the state, with \<open>epoll_ctl\<close> as documented: adding a descriptor that is there
  and modifying or deleting one that is not are errors. An error aborts the program, except for
  a deletion, which is only logged. A channel's index is \<open>kNew\<close>, \<open>kAdded\<close> or \<open>kDeleted\<close>.
\<close>

definition kNew :: int where "kNew = -1"
definition kAdded :: int where "kAdded = 1"
definition kDeleted :: int where "kDeleted = 2"
definition kInitEventListSize :: nat where "kInitEventListSize = 16"

record epoll_poller =
  epoll_channels :: "int \<rightharpoonup> address"
  epoll_store :: channel_store
  kernel :: "int \<rightharpoonup> (events \<times> address)"
  events_size :: nat

definition new_epoll_poller :: "(address \<Rightarrow> int) \<Rightarrow> epoll_poller" where
  "new_epoll_poller fd =
     \<lparr>epoll_channels = Map.empty, epoll_store = (\<lambda>a. new_poll_channel (fd a)),
      kernel = Map.empty, events_size = kInitEventListSize\<rparr>"

datatype epoll_ctl_op = EPOLL_CTL_ADD | EPOLL_CTL_MOD | EPOLL_CTL_DEL

fun epoll_ctl ::
  "epoll_ctl_op \<Rightarrow> int \<Rightarrow> events \<times> address \<Rightarrow> (int \<rightharpoonup> (events \<times> address)) \<Rightarrow>
     (int \<rightharpoonup> (events \<times> address)) option" where
  "epoll_ctl EPOLL_CTL_ADD d ev k = (if k d = None then Some (k(d \<mapsto> ev)) else None)"
| "epoll_ctl EPOLL_CTL_MOD d ev k = (if k d = None then None else Some (k(d \<mapsto> ev)))"
| "epoll_ctl EPOLL_CTL_DEL d ev k = (if k d = None then None else Some (k(d := None)))"

definition operationToString :: "epoll_ctl_op \<Rightarrow> string" where
  "operationToString op =
     (case op of EPOLL_CTL_ADD \<Rightarrow> ''ADD'' | EPOLL_CTL_DEL \<Rightarrow> ''DEL'' | EPOLL_CTL_MOD \<Rightarrow> ''MOD'')"

definition epoll_update :: "epoll_ctl_op \<Rightarrow> address \<Rightarrow> epoll_poller \<Rightarrow> epoll_poller option" where
  "epoll_update op a p =
     (let c = epoll_store p a in
      case epoll_ctl op (pc_fd c) (pc_events c, a) (kernel p) of
        Some k \<Rightarrow> Some (p\<lparr>kernel := k\<rparr>)
      | None \<Rightarrow> if op = EPOLL_CTL_DEL then Some p else None)"

definition epoll_updateChannel :: "address \<Rightarrow> epoll_poller \<Rightarrow> epoll_poller option" where
  "epoll_updateChannel a p = (
     let c = epoll_store p a; index = pc_index c; fd = pc_fd c in
     if index = kNew \<or> index = kDeleted then do {
       p \<leftarrow> (if index = kNew then do {
               C_assert (epoll_channels p fd = None);
               Some (p\<lparr>epoll_channels := (epoll_channels p)(fd \<mapsto> a)\<rparr>)
             }
             else do {
               C_assert (epoll_channels p fd \<noteq> None);
               C_assert (epoll_channels p fd = Some a);
               Some p
             });
       epoll_update EPOLL_CTL_ADD a (p\<lparr>epoll_store := set_index a kAdded (epoll_store p)\<rparr>)
     }
     else do {
       C_assert (epoll_channels p fd \<noteq> None);
       C_assert (epoll_channels p fd = Some a);
       C_assert (index = kAdded);
       if pc_events c = kNoneEvent then do {
         p \<leftarrow> epoll_update EPOLL_CTL_DEL a p;
         Some (p\<lparr>epoll_store := set_index a kDeleted (epoll_store p)\<rparr>)
       }
       else epoll_update EPOLL_CTL_MOD a p
     })"

definition epoll_removeChannel :: "address \<Rightarrow> epoll_poller \<Rightarrow> epoll_poller option" where
  "epoll_removeChannel a p = do {
     let c = epoll_store p a;
     C_assert (epoll_channels p (pc_fd c) \<noteq> None);
     C_assert (epoll_channels p (pc_fd c) = Some a);
     C_assert (pc_events c = kNoneEvent);
     let index = pc_index c;
     C_assert (index = kAdded \<or> index = kDeleted);
     let p = p\<lparr>epoll_channels := (epoll_channels p)(pc_fd c := None)\<rparr>;
     p \<leftarrow> (if index = kAdded then epoll_update EPOLL_CTL_DEL a p else Some p);
     Some (p\<lparr>epoll_store := set_index a kNew (epoll_store p)\<rparr>)
   }"

primrec fill_ready ::
  "(events \<times> address) list \<Rightarrow> (int \<rightharpoonup> address) \<Rightarrow> channel_store \<Rightarrow>
     (address list \<times> channel_store) option" where
  "fill_ready [] channels st = Some ([], st)"
| "fill_ready (ev # evs) channels st = do {
     C_assert (channels (pc_fd (st (snd ev))) \<noteq> None);
     C_assert (channels (pc_fd (st (snd ev))) = Some (snd ev));
     (active, st) \<leftarrow> fill_ready evs channels (set_revents (snd ev) (fst ev) st);
     Some (snd ev # active, st)
   }"

text \<open>\<open>poll\<close>: \<open>ready\<close> is what the kernel has put into \<open>events_\<close>; \<open>None\<close> is an error of the call.\<close>

definition epoll_poll ::
  "(events \<times> address) list option \<Rightarrow> epoll_poller \<Rightarrow> (address list \<times> epoll_poller) option" where
  "epoll_poll ready p =
     (case ready of
        Some (ev # evs) \<Rightarrow> do {
          C_assert (length (ev # evs) \<le> events_size p);
          (active, st) \<leftarrow> fill_ready (ev # evs) (epoll_channels p) (epoll_store p);
          let p = p\<lparr>epoll_store := st\<rparr>;
          Some (active, if length (ev # evs) = events_size p
                        then p\<lparr>events_size := events_size p * 2\<rparr> else p)
        }
      | _ \<Rightarrow> Some ([], p))"

fun epoll_do :: "poller_op \<Rightarrow> epoll_poller \<Rightarrow> epoll_poller option" where
  "epoll_do (Update a e) p = epoll_updateChannel a (p\<lparr>epoll_store := set_events a e (epoll_store p)\<rparr>)"
| "epoll_do (Remove a) p = epoll_removeChannel a p"

definition epoll_watched :: "epoll_poller \<Rightarrow> int \<Rightarrow> 16 word option" where
  "epoll_watched p d = map_option (\<lambda>ev. ucast (fst ev)) (kernel p d)"

subsection \<open>The kernel's side and the channels\<close>

definition epoll_phase :: "epoll_poller \<Rightarrow> address \<Rightarrow> phase \<Rightarrow> bool" where
  "epoll_phase p a ph \<longleftrightarrow>
     (case ph of
        Registered e \<Rightarrow>
          epoll_channels p (pc_fd (epoll_store p a)) = Some a \<and> pc_events (epoll_store p a) = e \<and>
          pc_index (epoll_store p a) = (if e = kNoneEvent then kDeleted else kAdded)
      | _ \<Rightarrow> pc_index (epoll_store p a) = kNew \<and> (\<forall>d. epoll_channels p d \<noteq> Some a))"

definition kernel_inv :: "epoll_poller \<Rightarrow> bool" where
  "kernel_inv p \<longleftrightarrow>
     (\<forall>d. kernel p d =
        (case epoll_channels p d of
           None \<Rightarrow> None
         | Some a \<Rightarrow> if pc_events (epoll_store p a) = kNoneEvent then None
                    else Some (pc_events (epoll_store p a), a)))"

definition epoll_rel ::
  "(address \<Rightarrow> int) \<Rightarrow> epoll_poller \<Rightarrow> (address \<Rightarrow> phase) \<Rightarrow> bool" where
  "epoll_rel fd p s \<longleftrightarrow>
     kernel_inv p \<and> (\<forall>d a. epoll_channels p d = Some a \<longrightarrow> fd a = d) \<and>
     (\<forall>a. pc_fd (epoll_store p a) = fd a \<and> epoll_phase p a (s a))"

lemma epoll_rel_new: "epoll_rel fd (new_epoll_poller fd) (\<lambda>_. Fresh)"
  by (simp add: epoll_rel_def kernel_inv_def epoll_phase_def new_epoll_poller_def
      new_poll_channel_def kNew_def)

lemma epoll_registered:
  "epoll_channels p d = Some a \<Longrightarrow> epoll_phase p a ph \<Longrightarrow> \<exists>e. ph = Registered e"
  by (cases ph) (auto simp: epoll_phase_def)

lemma index_values [simp]: "kNew \<noteq> kAdded" "kNew \<noteq> kDeleted" "kAdded \<noteq> kDeleted"
  "kAdded \<noteq> kNew" "kDeleted \<noteq> kNew" "kDeleted \<noteq> kAdded"
  by (simp_all add: kNew_def kAdded_def kDeleted_def)

lemma epoll_phase_cong:
  assumes "epoll_store p' b = epoll_store p b"
    and "\<And>d. epoll_channels p' d = Some b \<longleftrightarrow> epoll_channels p d = Some b"
  shows "epoll_phase p' b ph = epoll_phase p b ph"
  using assms by (auto simp: epoll_phase_def split: phase.splits)

lemma epoll_relD:
  assumes "epoll_rel fd p s"
  shows "kernel_inv p" "\<And>d a. epoll_channels p d = Some a \<Longrightarrow> fd a = d"
    "\<And>a. pc_fd (epoll_store p a) = fd a" "\<And>a. epoll_phase p a (s a)"
  using assms by (simp_all add: epoll_rel_def)

text \<open>
  What every operation comes to: the map and one channel change, and the kernel's side follows.
\<close>

lemma epoll_rel_step:
  assumes rel: "epoll_rel fd p s"
    and chs: "\<And>d. d \<noteq> fd a \<Longrightarrow> epoll_channels p' d = epoll_channels p d"
    and ch: "epoll_channels p' (fd a) = None \<or> epoll_channels p' (fd a) = Some a"
    and old: "epoll_channels p (fd a) = None \<or> epoll_channels p (fd a) = Some a"
    and store: "\<And>b. b \<noteq> a \<Longrightarrow> epoll_store p' b = epoll_store p b"
    and fd: "pc_fd (epoll_store p' a) = fd a"
    and k: "\<And>d. d \<noteq> fd a \<Longrightarrow> kernel p' d = kernel p d"
    and ka: "kernel p' (fd a) = (if epoll_channels p' (fd a) = Some a \<and>
        pc_events (epoll_store p' a) \<noteq> kNoneEvent then Some (pc_events (epoll_store p' a), a) else None)"
    and phase: "epoll_phase p' a ph"
  shows "epoll_rel fd p' (s(a := ph))"
proof -
  note D = epoll_relD [OF rel]
  have other: "epoll_channels p' d = Some b \<longleftrightarrow> epoll_channels p d = Some b" if "b \<noteq> a" for b d
    using chs [of d] ch old that by (cases "d = fd a") auto
  have "kernel_inv p'"
    unfolding kernel_inv_def
  proof
    fix d
    show "kernel p' d = (case epoll_channels p' d of None \<Rightarrow> None
         | Some a \<Rightarrow> if pc_events (epoll_store p' a) = kNoneEvent then None
                    else Some (pc_events (epoll_store p' a), a))"
    proof (cases "d = fd a")
      case True
      then show ?thesis using ka ch by auto
    next
      case False
      then have "\<And>b. epoll_channels p d = Some b \<Longrightarrow> b \<noteq> a" using D(2) by blast
      then show ?thesis
        using False D(1) chs [OF False] k [OF False] store
        by (auto simp: kernel_inv_def split: option.splits)
    qed
  qed
  moreover have "fd b = d" if "epoll_channels p' d = Some b" for b d
    using that ch chs [of d] D(2) by (cases "d = fd a") auto
  moreover have "pc_fd (epoll_store p' b) = fd b" for b
    using fd store [of b] D(3) [of b] by (cases "b = a") auto
  moreover have "epoll_phase p' b ((s(a := ph)) b)" for b
    using phase D(4) [of b] epoll_phase_cong [of p' b p, OF store other] by (cases "b = a") auto
  ultimately show ?thesis by (simp add: epoll_rel_def)
qed

lemma epoll_add_ok:
  assumes rel: "epoll_rel fd p s" and fresh: "s a = Fresh"
    and free: "\<And>b e'. s b = Registered e' \<Longrightarrow> fd b \<noteq> fd a" and e: "e \<noteq> kNoneEvent"
  shows "\<exists>p'. epoll_do (Update a e) p = Some p' \<and> epoll_rel fd p' (s(a := Registered e))"
proof -
  note D = epoll_relD [OF rel]
  have none: "epoll_channels p (fd a) = None"
  proof (rule ccontr)
    assume "epoll_channels p (fd a) \<noteq> None"
    then obtain b where b: "epoll_channels p (fd a) = Some b" by auto
    then obtain e' where "s b = Registered e'" using epoll_registered [OF b D(4)] by blast
    then show False using free D(2) [OF b] by blast
  qed
  then have k: "kernel p (fd a) = None" using D(1) by (simp add: kernel_inv_def)
  have index: "pc_index (epoll_store p a) = kNew"
    using D(4) [of a] fresh by (simp add: epoll_phase_def)
  let ?p = "p\<lparr>epoll_store := set_index a kAdded (set_events a e (epoll_store p)),
              epoll_channels := (epoll_channels p)(fd a \<mapsto> a), kernel := (kernel p)(fd a \<mapsto> (e, a))\<rparr>"
  have "epoll_do (Update a e) p = Some ?p"
    using none k index D(3) by (simp add: epoll_updateChannel_def epoll_update_def Let_def)
  moreover have "epoll_rel fd ?p (s(a := Registered e))"
    by (rule epoll_rel_step [OF rel]) (use none e D(3) in \<open>auto simp: epoll_phase_def\<close>)
  ultimately show ?thesis by blast
qed

lemma epoll_update_ok:
  assumes rel: "epoll_rel fd p s" and reg: "s a = Registered e'"
    and some: "e \<noteq> kNoneEvent \<or> e' \<noteq> kNoneEvent"
  shows "\<exists>p'. epoll_do (Update a e) p = Some p' \<and> epoll_rel fd p' (s(a := Registered e))"
proof -
  note D = epoll_relD [OF rel]
  have a: "epoll_channels p (fd a) = Some a" "pc_events (epoll_store p a) = e'"
    "pc_index (epoll_store p a) = (if e' = kNoneEvent then kDeleted else kAdded)"
    using D(4) [of a] reg D(3) by (simp_all add: epoll_phase_def)
  have k: "kernel p (fd a) = (if e' = kNoneEvent then None else Some (e', a))"
    using D(1) a by (simp add: kernel_inv_def)
  let ?p = "p\<lparr>epoll_store := set_index a (if e = kNoneEvent then kDeleted else kAdded)
                  (set_events a e (epoll_store p)),
              kernel := (kernel p)(fd a := (if e = kNoneEvent then None else Some (e, a)))\<rparr>"
  have fda: "pc_fd (epoll_store p a) = fd a" by (rule D(3))
  have "epoll_do (Update a e) p = Some ?p"
  proof (cases "e' = kNoneEvent")
    case True
    then show ?thesis
      using a k some fda by (simp add: epoll_updateChannel_def epoll_update_def Let_def)
  next
    case e': False
    show ?thesis
    proof (cases "e = kNoneEvent")
      case True
      then show ?thesis
        using a k e' fda by (simp add: epoll_updateChannel_def epoll_update_def Let_def)
    next
      case False
      obtain r where "epoll_store p a =
          \<lparr>pc_fd = fd a, pc_events = e', pc_revents = r, pc_index = kAdded\<rparr>"
        using a(2,3) e' fda by (cases "epoll_store p a") simp
      then show ?thesis
        using a(1) k e' False by (simp add: epoll_updateChannel_def epoll_update_def Let_def)
    qed
  qed
  moreover have "epoll_rel fd ?p (s(a := Registered e))"
    by (rule epoll_rel_step [OF rel]) (use a D(3) in \<open>auto simp: epoll_phase_def\<close>)
  ultimately show ?thesis by blast
qed

lemma epoll_remove_ok:
  assumes rel: "epoll_rel fd p s" and reg: "s a = Registered kNoneEvent"
  shows "\<exists>p'. epoll_do (Remove a) p = Some p' \<and> epoll_rel fd p' (s(a := Removed))"
proof -
  note D = epoll_relD [OF rel]
  have a: "epoll_channels p (fd a) = Some a" "pc_events (epoll_store p a) = kNoneEvent"
    "pc_index (epoll_store p a) = kDeleted"
    using D(4) [of a] reg D(3) by (simp_all add: epoll_phase_def)
  have k: "kernel p (fd a) = None" using D(1) a by (simp add: kernel_inv_def)
  let ?p = "p\<lparr>epoll_channels := (epoll_channels p)(fd a := None),
              epoll_store := set_index a kNew (epoll_store p)\<rparr>"
  have "epoll_do (Remove a) p = Some ?p"
    using a D(3) by (simp add: epoll_removeChannel_def)
  moreover have "epoll_rel fd ?p (s(a := Removed))"
  proof (rule epoll_rel_step [OF rel])
    have "epoll_channels p d \<noteq> Some a" if "d \<noteq> fd a" for d using D(2) [of d a] that by blast
    then show "epoll_phase ?p a Removed" by (simp add: epoll_phase_def)
  qed (use a k D(3) [of a] in simp_all)
  ultimately show ?thesis by blast
qed

lemma epoll_watches:
  assumes rel: "epoll_rel fd p s"
  shows "watches fd (epoll_watched p) s"
proof -
  note D = epoll_relD [OF rel]
  have "epoll_watched p d = Some ev \<longleftrightarrow>
      (\<exists>a e. s a = Registered e \<and> e \<noteq> kNoneEvent \<and> fd a = d \<and> ev = ucast e)" for d ev
  proof
    assume "epoll_watched p d = Some ev"
    then obtain a where a: "epoll_channels p d = Some a" "pc_events (epoll_store p a) \<noteq> kNoneEvent"
        "ev = ucast (pc_events (epoll_store p a))"
      using D(1) by (auto simp: epoll_watched_def kernel_inv_def split: option.splits if_splits)
    then obtain e where "s a = Registered e" using epoll_registered [OF a(1) D(4)] by blast
    then show "\<exists>a e. s a = Registered e \<and> e \<noteq> kNoneEvent \<and> fd a = d \<and> ev = ucast e"
      using D(4) [of a] D(2) [OF a(1)] a by (auto simp: epoll_phase_def)
  next
    assume "\<exists>a e. s a = Registered e \<and> e \<noteq> kNoneEvent \<and> fd a = d \<and> ev = ucast e"
    then obtain a e where a: "s a = Registered e" "e \<noteq> kNoneEvent" "fd a = d" "ev = ucast e" by blast
    then have "epoll_channels p d = Some a" "pc_events (epoll_store p a) = e"
      using D(4) [of a] D(3) by (simp_all add: epoll_phase_def)
    then show "epoll_watched p d = Some ev"
      using D(1) a by (simp add: epoll_watched_def kernel_inv_def)
  qed
  then show ?thesis by (simp add: watches_def)
qed

interpretation epoll: poller fd epoll_do epoll_watched "epoll_rel fd" for fd
proof
  fix p s op assume rel: "epoll_rel fd p s" and ok: "allowed fd op s"
  show "\<exists>p'. epoll_do op p = Some p' \<and> epoll_rel fd p' (next_phase op s)"
  proof (cases op)
    case (Update a e)
    with rel ok show ?thesis
      using epoll_add_ok [OF rel, of a e] epoll_update_ok [OF rel, of a _ e]
      by (auto split: phase.splits simp del: epoll_do.simps)
  next
    case (Remove a)
    with rel ok show ?thesis
      using epoll_remove_ok [OF rel, of a] by (auto simp del: epoll_do.simps)
  qed
qed (rule epoll_watches)

end
