(* ===== verification/Poller_Theorems.thy ===== *)
theory Poller_Theorems
  imports Poll_Poller Epoll_Poller
begin

text \<open>
  The properties of the pollers: both watch what the channels ask for, both hand every ready
  channel to the loop, and where the two part.
\<close>

subsection \<open>Filling the active channels\<close>

definition same_but_revents :: "channel_store \<Rightarrow> channel_store \<Rightarrow> bool" where
  "same_but_revents st st' \<longleftrightarrow>
     (\<forall>a. pc_fd (st' a) = pc_fd (st a) \<and> pc_events (st' a) = pc_events (st a) \<and>
        pc_index (st' a) = pc_index (st a))"

lemma same_set_revents: "same_but_revents (set_revents a r st) st' \<Longrightarrow> same_but_revents st st'"
  by (auto simp: same_but_revents_def split: if_splits)

lemma fill_active_ok:
  assumes "\<And>pfd. pfd \<in> set fds \<Longrightarrow> pfd_revents pfd \<noteq> 0 \<Longrightarrow>
      0 < sint (pfd_revents pfd) \<and> (\<exists>a. channels (pfd_fd pfd) = Some a \<and> pc_fd (st a) = pfd_fd pfd)"
    and "distinct (map pfd_fd (filter (\<lambda>pfd. pfd_revents pfd \<noteq> 0) fds))"
  shows "\<exists>st'. fill_active fds (length (filter (\<lambda>pfd. pfd_revents pfd \<noteq> 0) fds)) channels st =
      Some (map (\<lambda>pfd. the (channels (pfd_fd pfd))) (filter (\<lambda>pfd. pfd_revents pfd \<noteq> 0) fds), st') \<and>
    same_but_revents st st' \<and>
    (\<forall>a. pc_fd (st a) \<notin> pfd_fd ` set (filter (\<lambda>pfd. pfd_revents pfd \<noteq> 0) fds) \<longrightarrow> st' a = st a) \<and>
    (\<forall>pfd\<in>set fds. pfd_revents pfd \<noteq> 0 \<longrightarrow>
       pc_revents (st' (the (channels (pfd_fd pfd)))) = scast (pfd_revents pfd))"
  using assms
proof (induction fds arbitrary: st)
  case Nil
  then show ?case by (simp add: same_but_revents_def)
next
  case (Cons x fds)
  show ?case
  proof (cases "pfd_revents x = 0")
    case True
    then have "\<exists>st'. fill_active fds (length (filter (\<lambda>pfd. pfd_revents pfd \<noteq> 0) fds)) channels st =
        Some (map (\<lambda>pfd. the (channels (pfd_fd pfd))) (filter (\<lambda>pfd. pfd_revents pfd \<noteq> 0) fds), st') \<and>
      same_but_revents st st' \<and>
      (\<forall>a. pc_fd (st a) \<notin> pfd_fd ` set (filter (\<lambda>pfd. pfd_revents pfd \<noteq> 0) fds) \<longrightarrow> st' a = st a) \<and>
      (\<forall>pfd\<in>set fds. pfd_revents pfd \<noteq> 0 \<longrightarrow>
         pc_revents (st' (the (channels (pfd_fd pfd)))) = scast (pfd_revents pfd))"
      using Cons.prems by (intro Cons.IH) auto
    moreover have "fill_active (x # fds) n channels st = fill_active fds n channels st" for n
      using True by (cases n; cases fds) simp_all
    ultimately show ?thesis using True by simp
  next
    case False
    then obtain a where a: "channels (pfd_fd x) = Some a" "pc_fd (st a) = pfd_fd x"
        "0 < sint (pfd_revents x)"
      using Cons.prems(1) [of x] by auto
    let ?st = "set_revents a (scast (pfd_revents x)) st"
    have same: "pc_fd (?st b) = pc_fd (st b)" for b by simp
    have "distinct (map pfd_fd (filter (\<lambda>pfd. pfd_revents pfd \<noteq> 0) fds))"
      and new: "pfd_fd x \<notin> pfd_fd ` set (filter (\<lambda>pfd. pfd_revents pfd \<noteq> 0) fds)"
      using Cons.prems(2) False by simp_all
    moreover have "0 < sint (pfd_revents pfd) \<and>
        (\<exists>a. channels (pfd_fd pfd) = Some a \<and> pc_fd (?st a) = pfd_fd pfd)"
      if "pfd \<in> set fds" "pfd_revents pfd \<noteq> 0" for pfd
      using Cons.prems(1) [of pfd] that by auto
    ultimately obtain st' where st': "fill_active fds
          (length (filter (\<lambda>pfd. pfd_revents pfd \<noteq> 0) fds)) channels ?st =
        Some (map (\<lambda>pfd. the (channels (pfd_fd pfd))) (filter (\<lambda>pfd. pfd_revents pfd \<noteq> 0) fds), st')"
      "same_but_revents ?st st'"
      "\<forall>b. pc_fd (?st b) \<notin> pfd_fd ` set (filter (\<lambda>pfd. pfd_revents pfd \<noteq> 0) fds) \<longrightarrow> st' b = ?st b"
      "\<forall>pfd\<in>set fds. pfd_revents pfd \<noteq> 0 \<longrightarrow>
         pc_revents (st' (the (channels (pfd_fd pfd)))) = scast (pfd_revents pfd)"
      using Cons.IH [of ?st] by blast
    have "fill_active (x # fds) (length (filter (\<lambda>pfd. pfd_revents pfd \<noteq> 0) (x # fds))) channels st =
        Some (a # map (\<lambda>pfd. the (channels (pfd_fd pfd))) (filter (\<lambda>pfd. pfd_revents pfd \<noteq> 0) fds), st')"
      using a False st'(1) by simp
    moreover have "same_but_revents st st'" by (rule same_set_revents [OF st'(2)])
    moreover have "st' a = ?st a" using st'(3) new a(2) by simp
    moreover have "st' b = st b" if "pc_fd (st b) \<noteq> pfd_fd x"
        "pc_fd (st b) \<notin> pfd_fd ` set (filter (\<lambda>pfd. pfd_revents pfd \<noteq> 0) fds)" for b
      using st'(3) [rule_format, of b] that a(2) by (cases "b = a") simp_all
    ultimately show ?thesis using a(1) st'(4) False by auto
  qed
qed

lemma fill_ready_ok:
  assumes "\<And>ev a. (ev, a) \<in> set evs \<Longrightarrow> channels (pc_fd (st a)) = Some a" and "distinct (map snd evs)"
  shows "\<exists>st'. fill_ready evs channels st = Some (map snd evs, st') \<and>
    same_but_revents st st' \<and>
    (\<forall>a. a \<notin> snd ` set evs \<longrightarrow> st' a = st a) \<and>
    (\<forall>(ev, a)\<in>set evs. pc_revents (st' a) = ev)"
  using assms
proof (induction evs arbitrary: st)
  case Nil
  then show ?case by (simp add: same_but_revents_def)
next
  case (Cons x evs)
  obtain ev a where x: "x = (ev, a)" by (cases x)
  let ?st = "set_revents a ev st"
  have "channels (pc_fd (?st b)) = Some b" if "(e, b) \<in> set evs" for e b
    using Cons.prems(1) [of e b] that by auto
  moreover have "distinct (map snd evs)" "a \<notin> snd ` set evs" using Cons.prems(2) x by simp_all
  ultimately obtain st' where st': "fill_ready evs channels ?st = Some (map snd evs, st')"
      "same_but_revents ?st st'"
      "\<forall>b. b \<notin> snd ` set evs \<longrightarrow> st' b = ?st b" "\<forall>(e, b)\<in>set evs. pc_revents (st' b) = e"
    using Cons.IH [of ?st] by blast
  have "fill_ready (x # evs) channels st = Some (a # map snd evs, st')"
    using Cons.prems(1) [of ev a] st'(1) x by simp
  moreover have "same_but_revents st st'" by (rule same_set_revents [OF st'(2)])
  moreover have "st' a = ?st a" using st'(3) \<open>a \<notin> snd ` set evs\<close> by simp
  ultimately show ?case using st'(3,4) x by auto
qed

subsection \<open>The properties\<close>

text \<open>C20: the two pollers are the same to a loop whose channels change their events only while they
  ask for some, and are removed when they ask for none: after any such sequence of calls no
  assertion has failed in either, and both watch exactly the descriptors of the registered channels
  that ask for events, for the events each asked for last.
\<close>

theorem pollers_agree:
  assumes "\<And>a. 0 \<le> fd a" and "allowed_run fd ops (\<lambda>_. Fresh)"
  shows "\<exists>p e. run_all poll_do ops (new_poll_poller fd) = Some p \<and>
      run_all epoll_do ops (new_epoll_poller fd) = Some e \<and> poll_watched p = epoll_watched e \<and>
      watches fd (poll_watched p) (fold next_phase ops (\<lambda>_. Fresh))"
proof -
  let ?s = "fold next_phase ops (\<lambda>_. Fresh)"
  obtain p where p: "run_all poll_do ops (new_poll_poller fd) = Some p"
      "watches fd (poll_watched p) ?s"
    using poll.run_watches [OF poll_rel_new [OF assms(1)] assms(2)] by blast
  obtain e where e: "run_all epoll_do ops (new_epoll_poller fd) = Some e"
      "watches fd (epoll_watched e) ?s"
    using epoll.run_watches [OF epoll_rel_new assms(2)] by blast
  from p e watches_unique [OF p(2) e(2)] show ?thesis by blast
qed

theorem pollers_agree_witness:
  "\<exists>p e. run_all poll_do [Update 1 kReadEvent, Update 2 kWriteEvent, Update 3 kReadEvent,
        Update 1 kNoneEvent, Remove 1] (new_poll_poller int) = Some p \<and>
      run_all epoll_do [Update 1 kReadEvent, Update 2 kWriteEvent, Update 3 kReadEvent,
        Update 1 kNoneEvent, Remove 1] (new_epoll_poller int) = Some e \<and>
      poll_watched p = epoll_watched e"
proof -
  have "allowed_run int [Update 1 kReadEvent, Update 2 kWriteEvent, Update 3 kReadEvent,
        Update 1 kNoneEvent, Remove 1] (\<lambda>_. Fresh)"
    by (auto simp: kReadEvent_def kWriteEvent_def kNoneEvent_def poll_bits split: if_splits)
  moreover have "0 \<le> int a" for a by simp
  ultimately show ?thesis using pollers_agree [of int] by blast
qed

text \<open>The two part outside that discipline. When a channel asks for no events and then for some
  again, as \<open>stopRead\<close> and \<open>startRead\<close> of a connection make it, \<open>PollPoller\<close> goes on hiding its
  descriptor from the kernel, while \<open>EPollPoller\<close> watches it. A removed channel can be registered
  again with \<open>EPollPoller\<close>, but makes an assertion of \<open>PollPoller\<close> fail. And when a channel asks
  for no events twice, \<open>EPollPoller\<close> puts it back into the kernel's set.
\<close>

theorem pollers_differ:
  assumes "0 \<le> fd a" and "e \<noteq> kNoneEvent"
  shows "(\<exists>p. run_all poll_do [Update a e, Update a kNoneEvent, Update a e] (new_poll_poller fd) = Some p
      \<and> poll_watched p (fd a) = None) \<and>
    (\<exists>p. run_all epoll_do [Update a e, Update a kNoneEvent, Update a e] (new_epoll_poller fd) = Some p
      \<and> epoll_watched p (fd a) = Some (ucast e)) \<and>
    run_all poll_do [Update a e, Update a kNoneEvent, Remove a, Update a e] (new_poll_poller fd) = None \<and>
    (\<exists>p. run_all epoll_do [Update a e, Update a kNoneEvent, Remove a, Update a e] (new_epoll_poller fd)
      = Some p \<and> epoll_watched p (fd a) = Some (ucast e)) \<and>
    (\<exists>p. run_all epoll_do [Update a e, Update a kNoneEvent, Update a kNoneEvent] (new_epoll_poller fd)
      = Some p \<and> kernel p (fd a) = Some (kNoneEvent, a))"
  using assms
  by (simp add: poll_updateChannel_def poll_removeChannel_def new_poll_poller_def
      new_poll_channel_def epoll_updateChannel_def epoll_removeChannel_def epoll_update_def
      new_epoll_poller_def kNew_def kAdded_def kDeleted_def poll_watched_def epoll_watched_def
      Let_def kNoneEvent_def)

theorem pollers_differ_witness:
  "run_all poll_do [Update 7 kReadEvent, Update 7 kNoneEvent, Remove 7, Update 7 kReadEvent]
     (new_poll_poller int) = None"
proof -
  have "0 \<le> int 7" "kReadEvent \<noteq> kNoneEvent"
    by (simp_all add: kReadEvent_def kNoneEvent_def poll_bits)
  from pollers_differ [of int 7 kReadEvent, OF this] show ?thesis by blast
qed

text \<open>Every ready entry's channel is handed on, with what the kernel reported for it.\<close>

lemma poll_reports_ready:
  assumes rel: "poll_rel fd p s" and len: "length revents = length (pollfds p)"
    and ready: "\<And>i. i < length revents \<Longrightarrow> revents ! i \<noteq> 0 \<Longrightarrow>
      0 < sint (revents ! i) \<and> 0 \<le> pfd_fd (pollfds p ! i)"
    and some: "\<exists>i < length revents. revents ! i \<noteq> 0"
  shows "\<exists>active p'. poll_poll (int (length (filter (\<lambda>r. r \<noteq> 0) revents))) revents p = Some (active, p') \<and>
    length active = length (filter (\<lambda>r. r \<noteq> 0) revents) \<and>
    (\<forall>i < length revents. revents ! i \<noteq> 0 \<longrightarrow>
       (\<exists>a. a \<in> set active \<and> fd a = pfd_fd (pollfds p ! i) \<and>
          pc_revents (poll_store p' a) = scast (revents ! i)))"
proof -
  have slots: "slots_inv p" and fd: "pc_fd (poll_store p b) = fd b" for b
    using rel by (simp_all add: poll_rel_def)
  let ?fds = "map2 (\<lambda>pfd r. pfd\<lparr>pfd_revents := r\<rparr>) (pollfds p) revents"
  let ?ready = "filter (\<lambda>pfd. pfd_revents pfd \<noteq> 0) ?fds"
  let ?active = "map (\<lambda>pfd. the (poll_channels p (pfd_fd pfd))) ?ready"
  have nth: "?fds ! i = (pollfds p ! i)\<lparr>pfd_revents := revents ! i\<rparr>" if "i < length revents" for i
    using that len by simp
  have entry: "0 < sint (pfd_revents pfd) \<and>
      (\<exists>a. poll_channels p (pfd_fd pfd) = Some a \<and> pc_fd (poll_store p a) = pfd_fd pfd)"
    if pfd: "pfd \<in> set ?fds" "pfd_revents pfd \<noteq> 0" for pfd
  proof -
    obtain i where i: "i < length revents" "pfd = ?fds ! i" using pfd(1) len by (auto simp: in_set_conv_nth)
    then have r: "0 < sint (revents ! i)" "0 \<le> pfd_fd (pollfds p ! i)"
      using ready [of i] pfd(2) nth by auto
    have "i < length (pollfds p)" using i(1) len by simp
    then obtain a where a: "poll_channels p (slot_fd (pollfds p ! i)) = Some a"
      by (rule channel_of_slot [OF slots])
    then show ?thesis
      using slot_of(1) [OF slots a] r i nth by (simp add: slot_fd_def not_less [symmetric])
  qed
  have distinct: "distinct (map pfd_fd ?ready)"
  proof -
    have "inj_on (\<lambda>i. slot_fd (pollfds p ! i)) {..<length (pollfds p)}"
    proof (rule inj_onI)
      fix i j assume "i \<in> {..<length (pollfds p)}" "j \<in> {..<length (pollfds p)}"
        and eq: "slot_fd (pollfds p ! i) = slot_fd (pollfds p ! j)"
      then obtain a b where "poll_channels p (slot_fd (pollfds p ! i)) = Some a"
          "pc_index (poll_store p a) = int i" "poll_channels p (slot_fd (pollfds p ! j)) = Some b"
          "pc_index (poll_store p b) = int j"
        using channel_of_slot [OF slots] by (metis lessThan_iff)
      then show "i = j" using eq by simp
    qed
    then have "distinct (map slot_fd (pollfds p))"
      by (simp add: distinct_conv_nth inj_on_def) blast
    moreover have "map slot_fd ?fds = map slot_fd (pollfds p)"
      using len by (intro nth_equalityI) (simp_all add: slot_fd_def)
    ultimately have "distinct (map slot_fd ?ready)" by (metis distinct_map_filter)
    moreover have eq: "pfd_fd pfd = slot_fd pfd" if "pfd \<in> set ?ready" for pfd
    proof -
      have "pfd \<in> set ?fds" "pfd_revents pfd \<noteq> 0" using that by simp_all
      then obtain i where "i < length revents" "pfd = ?fds ! i" "pfd_revents pfd \<noteq> 0"
        unfolding in_set_conv_nth using len by auto
      then show ?thesis using ready [of i] nth by (simp add: slot_fd_def)
    qed
    have "map pfd_fd ?ready = map slot_fd ?ready" by (rule map_cong [OF refl]) (rule eq)
    ultimately show ?thesis by (simp only:)
  qed
  obtain st where st: "fill_active ?fds (length ?ready) (poll_channels p) (poll_store p) =
        Some (?active, st)"
      "\<forall>pfd\<in>set ?fds. pfd_revents pfd \<noteq> 0 \<longrightarrow>
         pc_revents (st (the (poll_channels p (pfd_fd pfd)))) = scast (pfd_revents pfd)"
    using fill_active_ok [of ?fds "poll_channels p" "poll_store p", OF entry distinct] by blast
  have count: "length ?ready = length (filter (\<lambda>r. r \<noteq> 0) revents)"
  proof -
    have "map pfd_revents ?fds = revents" using len by (intro nth_equalityI) simp_all
    then have "filter (\<lambda>r. r \<noteq> 0) revents = map pfd_revents ?ready"
      by (metis (no_types, lifting) comp_apply filter_cong filter_map)
    then show ?thesis by simp
  qed
  have "0 < length (filter (\<lambda>r. r \<noteq> 0) revents)"
    using some by (auto simp: filter_empty_conv intro: nth_mem bexI)
  then have poll: "poll_poll (int (length (filter (\<lambda>r. r \<noteq> 0) revents))) revents p =
      Some (?active, p\<lparr>pollfds := ?fds, poll_store := st\<rparr>)"
    using st(1) [unfolded count] by (simp add: poll_poll_def)
  have "\<exists>a. a \<in> set ?active \<and> fd a = pfd_fd (pollfds p ! i) \<and> pc_revents (st a) = scast (revents ! i)"
    if i: "i < length revents" "revents ! i \<noteq> 0" for i
  proof -
    let ?pfd = "?fds ! i"
    have "i < length ?fds" using i(1) len by simp
    then have mem: "?pfd \<in> set ?fds" by (rule nth_mem)
    have nz: "pfd_revents ?pfd \<noteq> 0" using i nth by simp
    then obtain a where a: "poll_channels p (pfd_fd ?pfd) = Some a" "fd a = pfd_fd ?pfd"
      using entry [OF mem nz] fd by auto
    have "a \<in> set ?active" using mem nz a(1) by (force intro: rev_image_eqI)
    moreover have "pc_revents (st a) = scast (revents ! i)"
      using bspec [OF st(2) mem] nz a(1) unfolding nth [OF i(1)] by simp
    moreover have "fd a = pfd_fd (pollfds p ! i)" using a(2) unfolding nth [OF i(1)] by simp
    ultimately show ?thesis by blast
  qed
  with poll count show ?thesis
    by (intro exI [where x = ?active] exI [where x = "p\<lparr>pollfds := ?fds, poll_store := st\<rparr>"]) simp
qed

text \<open>\<open>EPollPoller\<close>, the default, hands every descriptor the kernel reports to the loop: no
  assertion fails, the active channels are the reported ones in their order, each with the events
  reported for it, and the event array, doubled when it was filled, has room for what may come.
\<close>

theorem epoll_reports_ready:
  assumes "allowed_run fd ops (\<lambda>_. Fresh)"
    and "run_all epoll_do ops (new_epoll_poller fd) = Some p"
    and "length evs \<le> events_size p" and "evs \<noteq> []" and "distinct (map snd evs)"
    and "\<And>ev a. (ev, a) \<in> set evs \<Longrightarrow> \<exists>d e. kernel p d = Some (e, a)"
  shows "\<exists>p'. epoll_poll (Some evs) p = Some (map snd evs, p') \<and>
      (\<forall>(ev, a)\<in>set evs. pc_revents (epoll_store p' a) = ev) \<and>
      epoll_watched p' = epoll_watched p \<and> length evs < events_size p' "
proof -
  let ?s = "fold next_phase ops (\<lambda>_. Fresh)"
  have rel: "epoll_rel fd p ?s"
    using epoll.run_ok [OF epoll_rel_new assms(1)] assms(2) by auto
  have "epoll_channels p (pc_fd (epoll_store p a)) = Some a" if ev: "(ev, a) \<in> set evs" for ev a
  proof -
    obtain d e where "kernel p d = Some (e, a)" using assms(6) [OF ev] by blast
    then have "epoll_channels p d = Some a"
      using epoll_relD(1) [OF rel] by (auto simp: kernel_inv_def split: option.splits if_splits)
    then show ?thesis using epoll_relD(2,3) [OF rel] by simp
  qed
  then obtain st where st: "fill_ready evs (epoll_channels p) (epoll_store p) = Some (map snd evs, st)"
      "\<forall>(ev, a)\<in>set evs. pc_revents (st a) = ev"
    using fill_ready_ok [of evs "epoll_channels p" "epoll_store p"] assms(5) by auto
  obtain x xs where evs: "evs = x # xs" using assms(4) by (cases evs) auto
  let ?p = "p\<lparr>epoll_store := st\<rparr>"
  let ?p' = "if length evs = events_size p then ?p\<lparr>events_size := events_size p * 2\<rparr> else ?p"
  have "epoll_poll (Some evs) p = Some (map snd evs, ?p')"
    using st(1) assms(3) unfolding epoll_poll_def evs by (simp del: fill_ready.simps)
  moreover have "epoll_watched ?p' = epoll_watched p" by (auto simp: epoll_watched_def)
  moreover have "length evs < events_size ?p'" using assms(3,4) by (cases evs) auto
  moreover have "epoll_store ?p' = st" by simp
  ultimately show ?thesis using st(2) by metis
qed

theorem epoll_reports_ready_witness:
  "\<exists>p p'. run_all epoll_do [Update 7 kReadEvent] (new_epoll_poller int) = Some p \<and>
     epoll_poll (Some [(POLLIN, 7)]) p = Some ([7], p')"
proof -
  have ok: "allowed_run int [Update 7 kReadEvent] (\<lambda>_. Fresh)"
    by (simp add: kReadEvent_def kNoneEvent_def poll_bits)
  obtain p where p: "run_all epoll_do [Update 7 kReadEvent] (new_epoll_poller int) = Some p"
    using epoll.run_ok [OF epoll_rel_new ok] by blast
  have "kernel p 7 = Some (kReadEvent, 7)" "events_size p = 16"
    using p by (auto simp: epoll_updateChannel_def epoll_update_def new_epoll_poller_def
        new_poll_channel_def kInitEventListSize_def kNew_def kAdded_def kDeleted_def Let_def)
  then show ?thesis using epoll_reports_ready [OF ok p, of "[(POLLIN, 7)]"] p by auto
qed

end
