(* ===== verification/Event_Loop.thy ===== *)
theory Event_Loop
  imports Timer_Queue
begin

text \<open>
  \<open>EventLoop\<close> of \<^verbatim>\<open>muduo/net/EventLoop.cc\<close>: the round of polling, handling events and running
  the queued functors, cut into the steps between which other threads may act. A functor or a
  callback is known by a number; what it calls while it runs is an argument of its step, in the
  order of the calls, those of functors it runs itself included. \<open>queued\<close> and \<open>ran\<close> are history.
  The counter of the event descriptor is \<open>wakeups\<close>; a thread between the two halves of
  \<open>queueInLoop\<close> or \<open>quit\<close> is counted in \<open>waking\<close>. \<open>None\<close> is a failed \<open>assert\<close>.
\<close>

type_synonym task = nat

datatype loop_place =
  Not_looping | Polling | Handling "address list" | Calling "task list"

record event_loop =
  place :: loop_place
  looping :: bool
  quit :: bool
  eventHandling :: bool
  callingPendingFunctors :: bool
  iteration :: nat
  wakeups :: nat
  wakeupChannel :: address
  activeChannels :: "address list"
  currentActiveChannel :: "address option"
  pendingFunctors :: "task list"
  waking :: nat
  queued :: "task list"
  ran_tasks :: "task list"

definition new_event_loop :: "address \<Rightarrow> event_loop" where
  "new_event_loop w =
     \<lparr>place = Not_looping, looping = False, quit = False, eventHandling = False,
      callingPendingFunctors = False, iteration = 0, wakeups = 0, wakeupChannel = w,
      activeChannels = [], currentActiveChannel = None, pendingFunctors = [], waking = 0,
      queued = [], ran_tasks = []\<rparr>"

subsection \<open>Calls from any thread\<close>

definition wakeup :: "event_loop \<Rightarrow> event_loop" where
  "wakeup l = l\<lparr>wakeups := wakeups l + 1\<rparr>"

definition push_functor :: "task \<Rightarrow> event_loop \<Rightarrow> event_loop" where
  "push_functor f l = l\<lparr>pendingFunctors := pendingFunctors l @ [f], queued := queued l @ [f]\<rparr>"

definition queue_in_loop :: "bool \<Rightarrow> task \<Rightarrow> event_loop \<Rightarrow> event_loop" where
  "queue_in_loop in_loop f l =
     (let l1 = push_functor f l in
      if \<not> in_loop \<or> callingPendingFunctors l1 then wakeup l1 else l1)"

text \<open>\<open>runInLoop\<close>: whether the functor runs at once.\<close>

definition run_in_loop :: "bool \<Rightarrow> task \<Rightarrow> event_loop \<Rightarrow> bool \<times> event_loop" where
  "run_in_loop in_loop f l = (if in_loop then (True, l) else (False, queue_in_loop False f l))"

definition quit_loop :: "bool \<Rightarrow> event_loop \<Rightarrow> event_loop" where
  "quit_loop in_loop l =
     (let l1 = l\<lparr>quit := True\<rparr> in if \<not> in_loop then wakeup l1 else l1)"

definition runAt ::
  "bool \<Rightarrow> address \<Rightarrow> timestamp \<Rightarrow> nat \<Rightarrow> timer_queue \<Rightarrow> (timer_id \<times> timer_queue) option" where
  "runAt in_loop a time cb q = addTimer in_loop a cb time \<lparr>is_positive = False, in_micros = 0\<rparr> q"

definition runAfter ::
  "bool \<Rightarrow> address \<Rightarrow> timestamp \<Rightarrow> seconds \<Rightarrow> nat \<Rightarrow> timer_queue \<Rightarrow> (timer_id \<times> timer_queue) option"
where
  "runAfter in_loop a now delay cb q = runAt in_loop a (addTime now delay) cb q"

definition runEvery ::
  "bool \<Rightarrow> address \<Rightarrow> timestamp \<Rightarrow> seconds \<Rightarrow> nat \<Rightarrow> timer_queue \<Rightarrow> (timer_id \<times> timer_queue) option"
where
  "runEvery in_loop a now i cb q = addTimer in_loop a cb (addTime now i) i q"

text \<open>\<open>removeChannel\<close>: \<open>None\<close> when a channel that is yet to be handled is removed.\<close>

definition remove_from_loop :: "address \<Rightarrow> event_loop \<Rightarrow> event_loop option" where
  "remove_from_loop a l =
     (if eventHandling l \<longrightarrow> currentActiveChannel l = Some a \<or> a \<notin> set (activeChannels l)
      then Some l else None)"

subsection \<open>What callbacks and functors call\<close>

datatype loop_call = Queue_call task | Quit_call | Remove_call address

fun loop_call_do :: "loop_call \<Rightarrow> event_loop \<Rightarrow> event_loop option" where
  "loop_call_do (Queue_call f) l = Some (queue_in_loop True f l)"
| "loop_call_do Quit_call l = Some (quit_loop True l)"
| "loop_call_do (Remove_call a) l = remove_from_loop a l"

abbreviation loop_calls_do :: "loop_call list \<Rightarrow> event_loop \<Rightarrow> event_loop option" where
  "loop_calls_do \<equiv> run_all loop_call_do"

subsection \<open>The loop\<close>

definition begin_loop :: "event_loop \<Rightarrow> event_loop option" where
  "begin_loop l =
     (if looping l then None else Some (l\<lparr>looping := True, quit := False, place := Polling\<rparr>))"

definition poll_returns :: "address list \<Rightarrow> event_loop \<Rightarrow> event_loop" where
  "poll_returns active l =
     l\<lparr>activeChannels := active, iteration := iteration l + 1, eventHandling := True,
       place := Handling active\<rparr>"

text \<open>The wakeup channel's own callback, \<open>handleRead\<close>, empties the counter.\<close>

definition handle_wakeup :: "event_loop \<Rightarrow> event_loop" where
  "handle_wakeup l = l\<lparr>wakeups := 0\<rparr>"

definition handle_channel :: "address \<Rightarrow> loop_call list \<Rightarrow> event_loop \<Rightarrow> event_loop option" where
  "handle_channel a calls l =
     (let l1 = l\<lparr>currentActiveChannel := Some a\<rparr> in
      if a = wakeupChannel l1 then Some (handle_wakeup l1) else loop_calls_do calls l1)"

text \<open>\<open>doPendingFunctors\<close>: the swap, each functor, the end; then the test of the loop.\<close>

definition begin_functors :: "event_loop \<Rightarrow> event_loop" where
  "begin_functors l =
     l\<lparr>currentActiveChannel := None, eventHandling := False, callingPendingFunctors := True,
       place := Calling (pendingFunctors l), pendingFunctors := []\<rparr>"

definition call_functor :: "task \<Rightarrow> loop_call list \<Rightarrow> event_loop \<Rightarrow> event_loop option" where
  "call_functor f calls l = loop_calls_do calls (l\<lparr>ran_tasks := ran_tasks l @ [f]\<rparr>)"

definition end_round :: "event_loop \<Rightarrow> event_loop" where
  "end_round l =
     (let l1 = l\<lparr>callingPendingFunctors := False\<rparr> in
      if quit l1 then l1\<lparr>looping := False, place := Not_looping\<rparr>
      else l1\<lparr>activeChannels := [], place := Polling\<rparr>)"

text \<open>The steps. Those of other threads are the two halves of their calls.\<close>

datatype loop_op =
  Start | Poll_returns "address list" | Loop_step "loop_call list"
| Other_pushes task | Other_quits | Other_wakes | Owner_queues task

fun loop_do :: "loop_op \<Rightarrow> event_loop \<Rightarrow> event_loop option" where
  "loop_do Start l = begin_loop l"
| "loop_do (Poll_returns active) l = Some (poll_returns active l)"
| "loop_do (Loop_step calls) l =
     (case place l of
        Handling [] \<Rightarrow> Some (begin_functors l)
      | Handling (a # as) \<Rightarrow> handle_channel a calls (l\<lparr>place := Handling as\<rparr>)
      | Calling [] \<Rightarrow> Some (end_round l)
      | Calling (f # fs) \<Rightarrow> call_functor f calls (l\<lparr>place := Calling fs\<rparr>)
      | _ \<Rightarrow> Some l)"
| "loop_do (Other_pushes f) l = Some ((push_functor f l)\<lparr>waking := waking l + 1\<rparr>)"
| "loop_do Other_quits l = Some (l\<lparr>quit := True, waking := waking l + 1\<rparr>)"
| "loop_do Other_wakes l = Some ((wakeup l)\<lparr>waking := waking l - 1\<rparr>)"
| "loop_do (Owner_queues f) l = Some (queue_in_loop True f l)"

text \<open>
  The invariant of an event loop under any interleaving of its own steps with those of other
  threads: where the loop is agrees with its flags, functors run in the order they were queued, and
  a functor or a request to quit that comes while the loop polls is announced on the wakeup
  descriptor.
\<close>

text \<open>
  What the surroundings keep to: \<open>poll\<close> returns the wakeup channel when its descriptor is
  readable, and a callback removes only its own channel or one that is not active.
\<close>

fun call_allowed :: "loop_call \<Rightarrow> event_loop \<Rightarrow> bool" where
  "call_allowed (Remove_call a) l \<longleftrightarrow>
     (eventHandling l \<longrightarrow> currentActiveChannel l = Some a \<or> a \<notin> set (activeChannels l))"
| "call_allowed _ l \<longleftrightarrow> True"

fun loop_enabled :: "loop_op \<Rightarrow> event_loop \<Rightarrow> bool" where
  "loop_enabled Start l \<longleftrightarrow> place l = Not_looping"
| "loop_enabled (Poll_returns active) l \<longleftrightarrow>
     place l = Polling \<and> distinct active \<and> (wakeupChannel l \<in> set active \<longleftrightarrow> 0 < wakeups l)"
| "loop_enabled (Loop_step calls) l \<longleftrightarrow>
     (case place l of
        Handling (a # as) \<Rightarrow> \<forall>c\<in>set calls. call_allowed c (l\<lparr>currentActiveChannel := Some a\<rparr>)
      | Handling [] \<Rightarrow> True
      | Calling fs \<Rightarrow> True
      | _ \<Rightarrow> False)"
| "loop_enabled (Other_pushes f) l \<longleftrightarrow> True"
| "loop_enabled Other_quits l \<longleftrightarrow> True"
| "loop_enabled Other_wakes l \<longleftrightarrow> 0 < waking l"
| "loop_enabled (Owner_queues f) l \<longleftrightarrow> place l = Not_looping"

text \<open>Runs of a loop by the operations that \<open>ok\<close> allows.\<close>

inductive loop_runs :: "(loop_op \<Rightarrow> bool) \<Rightarrow> event_loop \<Rightarrow> event_loop \<Rightarrow> bool" for ok where
  loop_runs_refl: "loop_runs ok l l"
| loop_runs_step: "loop_runs ok l l1 \<Longrightarrow> ok op \<Longrightarrow> loop_enabled op l1 \<Longrightarrow>
    loop_do op l1 = Some l2 \<Longrightarrow> loop_runs ok l l2"

fun to_call :: "loop_place \<Rightarrow> task list" where
  "to_call (Calling fs) = fs"
| "to_call _ = []"

definition flags_inv :: "event_loop \<Rightarrow> bool" where
  "flags_inv l \<longleftrightarrow>
     (looping l \<longleftrightarrow> place l \<noteq> Not_looping) \<and>
     (eventHandling l \<longleftrightarrow> (\<exists>as. place l = Handling as)) \<and>
     (callingPendingFunctors l \<longleftrightarrow> (\<exists>fs. place l = Calling fs))"

definition order_inv :: "event_loop \<Rightarrow> bool" where
  "order_inv l \<longleftrightarrow> queued l = ran_tasks l @ to_call (place l) @ pendingFunctors l"

text \<open>A thread is about to write to the wakeup descriptor, or one has.\<close>

definition announced :: "event_loop \<Rightarrow> bool" where
  "announced l \<longleftrightarrow> 0 < wakeups l \<or> 0 < waking l"

definition wakeup_inv :: "event_loop \<Rightarrow> bool" where
  "wakeup_inv l \<longleftrightarrow>
     (eventHandling l \<or> pendingFunctors l = [] \<or> announced l) \<and>
     (place l = Polling \<and> quit l \<longrightarrow> announced l)"

lemma queue_in_loop_fields:
  "place (queue_in_loop b f l) = place l" "looping (queue_in_loop b f l) = looping l"
  "eventHandling (queue_in_loop b f l) = eventHandling l" "quit (queue_in_loop b f l) = quit l"
  "callingPendingFunctors (queue_in_loop b f l) = callingPendingFunctors l"
  "queued (queue_in_loop b f l) = queued l @ [f]" "ran_tasks (queue_in_loop b f l) = ran_tasks l"
  "pendingFunctors (queue_in_loop b f l) = pendingFunctors l @ [f]"
  "currentActiveChannel (queue_in_loop b f l) = currentActiveChannel l"
  "activeChannels (queue_in_loop b f l) = activeChannels l" "waking (queue_in_loop b f l) = waking l"
  "iteration (queue_in_loop b f l) = iteration l"
  "wakeups (queue_in_loop b f l) =
     (if \<not> b \<or> callingPendingFunctors l then wakeups l + 1 else wakeups l)"
  by (simp_all add: queue_in_loop_def push_functor_def wakeup_def Let_def)

lemma quit_loop_own: "quit_loop True l = l\<lparr>quit := True\<rparr>"
  by (simp add: quit_loop_def)

text \<open>A call from the loop's thread changes the functors, the request to quit and the counter.\<close>

lemma loop_call_same:
  assumes "loop_call_do c l = Some l'"
  shows "place l' = place l \<and> looping l' = looping l \<and> eventHandling l' = eventHandling l \<and>
    callingPendingFunctors l' = callingPendingFunctors l \<and> ran_tasks l' = ran_tasks l \<and>
    currentActiveChannel l' = currentActiveChannel l \<and> activeChannels l' = activeChannels l \<and>
    iteration l' = iteration l \<and> wakeups l \<le> wakeups l' \<and> waking l' = waking l"
  using assms
  by (cases c) (auto simp: queue_in_loop_fields quit_loop_own remove_from_loop_def split: if_splits)

lemma loop_calls_same:
  assumes "loop_calls_do cs l = Some l'"
  shows "place l' = place l \<and> looping l' = looping l \<and> eventHandling l' = eventHandling l \<and>
    callingPendingFunctors l' = callingPendingFunctors l \<and> ran_tasks l' = ran_tasks l \<and>
    currentActiveChannel l' = currentActiveChannel l \<and> activeChannels l' = activeChannels l \<and>
    iteration l' = iteration l \<and> wakeups l \<le> wakeups l' \<and> waking l' = waking l"
  using assms
  by (rule run_all_invariant [where P = "\<lambda>l'. place l' = place l \<and> looping l' = looping l \<and>
    eventHandling l' = eventHandling l \<and>
    callingPendingFunctors l' = callingPendingFunctors l \<and> ran_tasks l' = ran_tasks l \<and>
    currentActiveChannel l' = currentActiveChannel l \<and> activeChannels l' = activeChannels l \<and>
    iteration l' = iteration l \<and> wakeups l \<le> wakeups l' \<and> waking l' = waking l"])
    (simp, use loop_call_same in fastforce)

lemma loop_call_order: "loop_call_do c l = Some l' \<Longrightarrow> order_inv l \<Longrightarrow> order_inv l'"
  by (cases c) (auto simp: order_inv_def queue_in_loop_fields quit_loop_own remove_from_loop_def
      split: if_splits)

lemma loop_call_flags: "loop_call_do c l = Some l' \<Longrightarrow> flags_inv l \<Longrightarrow> flags_inv l'"
  using loop_call_same [of c l l'] by (simp add: flags_inv_def)

lemma loop_call_wakeup:
  assumes "loop_call_do c l = Some l'" and "eventHandling l \<or> callingPendingFunctors l"
    and "flags_inv l" and "wakeup_inv l"
  shows "wakeup_inv l'"
proof -
  have "place l' \<noteq> Polling" using assms(2,3) loop_call_same [OF assms(1)]
    by (auto simp: flags_inv_def)
  moreover have "eventHandling l' \<or> pendingFunctors l' = [] \<or> announced l'"
  proof (cases c)
    case (Queue_call f)
    then have l': "l' = queue_in_loop True f l" using assms(1) by simp
    show ?thesis
      using assms(2) unfolding l' announced_def queue_in_loop_fields by auto
  qed (use assms(1,4) in \<open>auto simp: wakeup_inv_def announced_def quit_loop_own
      remove_from_loop_def split: if_splits\<close>)
  ultimately show ?thesis by (simp add: wakeup_inv_def)
qed

lemmas loop_call_inv = loop_call_order loop_call_flags loop_call_wakeup

lemma loop_calls_inv:
  assumes "loop_calls_do cs l = Some l'" and "eventHandling l \<or> callingPendingFunctors l"
    and "order_inv l" and "flags_inv l"
  shows "order_inv l'" and "flags_inv l'" and "wakeup_inv l \<Longrightarrow> wakeup_inv l'"
proof -
  have "(eventHandling l' \<or> callingPendingFunctors l') \<and> order_inv l' \<and> flags_inv l' \<and>
      (wakeup_inv l \<longrightarrow> wakeup_inv l')"
  proof (rule run_all_invariant [OF assms(1)])
    fix c l1 l2
    assume "(eventHandling l1 \<or> callingPendingFunctors l1) \<and> order_inv l1 \<and> flags_inv l1 \<and>
        (wakeup_inv l \<longrightarrow> wakeup_inv l1)" and step: "loop_call_do c l1 = Some l2"
    then show "(eventHandling l2 \<or> callingPendingFunctors l2) \<and> order_inv l2 \<and> flags_inv l2 \<and>
        (wakeup_inv l \<longrightarrow> wakeup_inv l2)"
      using loop_call_inv [OF step] loop_call_same [OF step] by auto
  qed (use assms in simp)
  then show "order_inv l'" "flags_inv l'" "wakeup_inv l \<Longrightarrow> wakeup_inv l'" by simp_all
qed

lemma loop_calls_defined:
  "(\<And>c. c \<in> set cs \<Longrightarrow> call_allowed c l) \<Longrightarrow> \<exists>l'. loop_calls_do cs l = Some l'"
proof (induction cs arbitrary: l)
  case (Cons c cs)
  have "call_allowed c l" using Cons.prems by simp
  then obtain l1 where l1: "loop_call_do c l = Some l1"
    by (cases c) (auto simp: remove_from_loop_def)
  have "call_allowed d l1" if "d \<in> set cs" for d
    using Cons.prems [of d] that loop_call_same [OF l1] by (cases d) auto
  then show ?case using Cons.IH [of l1] l1 by auto
qed simp

subsection \<open>Every step keeps the invariant\<close>

lemma loop_step_ok:
  assumes flags: "flags_inv l" and en: "loop_enabled op l"
  shows "\<exists>l'. loop_do op l = Some l'"
proof (cases op)
  case Start
  then show ?thesis using flags en by (simp add: begin_loop_def flags_inv_def)
next
  case (Loop_step calls)
  show ?thesis
  proof (cases "place l")
    case (Handling as)
    show ?thesis
    proof (cases as)
      case (Cons a as')
      let ?l = "l\<lparr>place := Handling as', currentActiveChannel := Some a\<rparr>"
      have "call_allowed c ?l" if "c \<in> set calls" for c
        using en that Loop_step Handling Cons by (cases c) auto
      then show ?thesis
        using loop_calls_defined [of calls ?l] Loop_step Handling Cons
        by (auto simp: handle_channel_def Let_def)
    qed (use Loop_step Handling in simp)
  next
    case (Calling fs)
    show ?thesis
    proof (cases fs)
      case (Cons f fs')
      let ?l = "l\<lparr>place := Calling fs', ran_tasks := ran_tasks l @ [f]\<rparr>"
      have "call_allowed c ?l" for c
        using flags Calling by (cases c) (auto simp: flags_inv_def)
      then show ?thesis
        using loop_calls_defined [of calls ?l] Loop_step Calling Cons
        by (auto simp: call_functor_def)
    qed (use Loop_step Calling in simp)
  qed (use Loop_step in simp_all)
qed simp_all

lemma loop_step_order:
  assumes flags: "flags_inv l" and order: "order_inv l" and en: "loop_enabled op l"
    and step: "loop_do op l = Some l'"
  shows "flags_inv l' \<and> order_inv l'"
proof (cases op)
  case (Loop_step calls)
  show ?thesis
  proof (cases "place l")
    case (Handling as)
    show ?thesis
    proof (cases as)
      case Nil
      then have "l' = begin_functors l" using step Loop_step Handling by simp
      then show ?thesis
        using flags order Handling by (simp add: begin_functors_def flags_inv_def order_inv_def)
    next
      case (Cons a as')
      let ?l = "l\<lparr>place := Handling as', currentActiveChannel := Some a\<rparr>"
      have ok: "flags_inv ?l" "order_inv ?l" "eventHandling ?l"
        using flags order Handling by (simp_all add: flags_inv_def order_inv_def)
      consider "l' = handle_wakeup ?l" | "loop_calls_do calls ?l = Some l'"
        using step Loop_step Handling Cons by (auto simp: handle_channel_def Let_def split: if_splits)
      then show ?thesis
      proof cases
        case 1
        then show ?thesis
          using ok by (simp add: handle_wakeup_def flags_inv_def order_inv_def)
      next
        case 2
        then show ?thesis using loop_calls_inv [OF 2] ok by blast
      qed
    qed
  next
    case (Calling fs)
    show ?thesis
    proof (cases fs)
      case Nil
      then have "l' = end_round l" using step Loop_step Calling by simp
      then show ?thesis
        using flags order Calling Nil
        by (simp add: end_round_def flags_inv_def order_inv_def Let_def)
    next
      case (Cons f fs')
      let ?l = "l\<lparr>place := Calling fs', ran_tasks := ran_tasks l @ [f]\<rparr>"
      have ok: "flags_inv ?l" "order_inv ?l" "callingPendingFunctors ?l"
        using flags order Calling Cons by (simp_all add: flags_inv_def order_inv_def)
      have "loop_calls_do calls ?l = Some l'"
        using step Loop_step Calling Cons by (simp add: call_functor_def)
      from loop_calls_inv [OF this] ok show ?thesis by blast
    qed
  qed (use step Loop_step flags order en in simp_all)
qed (use flags order en step in \<open>auto simp: begin_loop_def poll_returns_def push_functor_def
    wakeup_def queue_in_loop_fields flags_inv_def order_inv_def split: if_splits\<close>)

lemma loop_step_wakeup:
  assumes flags: "flags_inv l" and order: "order_inv l" and wake: "wakeup_inv l"
    and en: "loop_enabled op l" and step: "loop_do op l = Some l'" and own: "\<nexists>f. op = Owner_queues f"
  shows "wakeup_inv l'"
proof (cases op)
  case (Loop_step calls)
  show ?thesis
  proof (cases "place l")
    case (Handling as)
    show ?thesis
    proof (cases as)
      case Nil
      then have "l' = begin_functors l" using step Loop_step Handling by simp
      then show ?thesis by (simp add: begin_functors_def wakeup_inv_def)
    next
      case (Cons a as')
      let ?l = "l\<lparr>place := Handling as', currentActiveChannel := Some a\<rparr>"
      have ok: "flags_inv ?l" "order_inv ?l" "eventHandling ?l" "wakeup_inv ?l"
        using flags order Handling by (simp_all add: flags_inv_def order_inv_def wakeup_inv_def)
      consider "l' = handle_wakeup ?l" | "loop_calls_do calls ?l = Some l'"
        using step Loop_step Handling Cons by (auto simp: handle_channel_def Let_def split: if_splits)
      then show ?thesis
      proof cases
        case 1
        then show ?thesis using ok(3) by (simp add: handle_wakeup_def wakeup_inv_def)
      next
        case 2
        then show ?thesis using loop_calls_inv(3) [OF 2] ok by blast
      qed
    qed
  next
    case (Calling fs)
    show ?thesis
    proof (cases fs)
      case Nil
      then have "l' = end_round l" using step Loop_step Calling by simp
      moreover have "\<not> eventHandling l" using flags Calling by (simp add: flags_inv_def)
      ultimately show ?thesis
        using wake by (auto simp: end_round_def wakeup_inv_def announced_def Let_def)
    next
      case (Cons f fs')
      let ?l = "l\<lparr>place := Calling fs', ran_tasks := ran_tasks l @ [f]\<rparr>"
      have ok: "flags_inv ?l" "order_inv ?l" "callingPendingFunctors ?l" "wakeup_inv ?l"
        using flags order wake Calling Cons
        by (simp_all add: flags_inv_def order_inv_def wakeup_inv_def announced_def)
      have "loop_calls_do calls ?l = Some l'"
        using step Loop_step Calling Cons by (simp add: call_functor_def)
      from loop_calls_inv(3) [OF this] ok show ?thesis by blast
    qed
  qed (use step Loop_step en in simp_all)
qed (use wake step own flags en in \<open>auto simp: begin_loop_def poll_returns_def push_functor_def
    wakeup_def wakeup_inv_def announced_def flags_inv_def split: if_splits\<close>)

end
