(* ===== verification/Loop_Theorems.thy ===== *)
theory Loop_Theorems
  imports Event_Loop
begin

text \<open>The properties of \<open>EventLoop\<close>, over its runs among other threads.\<close>

lemma new_loop_inv:
  "flags_inv (new_event_loop w)" "order_inv (new_event_loop w)" "wakeup_inv (new_event_loop w)"
  by (simp_all add: new_event_loop_def flags_inv_def order_inv_def wakeup_inv_def)

lemma loop_runs_inv:
  "loop_runs ok l l' \<Longrightarrow> flags_inv l \<Longrightarrow> order_inv l \<Longrightarrow> flags_inv l' \<and> order_inv l'"
  by (induction rule: loop_runs.induct) (use loop_step_order in blast)+

abbreviation not_by_owner :: "loop_op \<Rightarrow> bool" where
  "not_by_owner op \<equiv> \<nexists>f. op = Owner_queues f"

lemma loop_runs_wakeup:
  "loop_runs not_by_owner l l' \<Longrightarrow> flags_inv l \<Longrightarrow> order_inv l \<Longrightarrow> wakeup_inv l \<Longrightarrow> wakeup_inv l'"
proof (induction rule: loop_runs.induct)
  case (loop_runs_step l l1 op l2)
  then have "flags_inv l1" "order_inv l1" "wakeup_inv l1"
    using loop_runs_inv [OF loop_runs_step(1)] by simp_all
  then show ?case using loop_step_wakeup [of l1 op l2] loop_runs_step by blast
qed

subsection \<open>A round\<close>

definition served :: "event_loop \<Rightarrow> nat" where
  "served l = length (ran_tasks l) + length (to_call (place l))"

lemma loop_call_queued: "loop_call_do c l = Some l' \<Longrightarrow> \<exists>xs. queued l' = queued l @ xs"
  by (cases c) (auto simp: queue_in_loop_fields quit_loop_own remove_from_loop_def split: if_splits)

lemma loop_calls_queued:
  assumes "loop_calls_do cs l = Some l'"
  shows "\<exists>xs. queued l' = queued l @ xs"
proof (rule run_all_invariant [OF assms, where P = "\<lambda>l'. \<exists>xs. queued l' = queued l @ xs"])
  fix c l1 l2
  assume "\<exists>xs. queued l1 = queued l @ xs" "loop_call_do c l1 = Some l2"
  then show "\<exists>xs. queued l2 = queued l @ xs" using loop_call_queued [of c l1 l2] by fastforce
qed simp

text \<open>What one step does to a round: it may begin one, or end its handling of events.\<close>

definition round_step :: "event_loop \<Rightarrow> event_loop \<Rightarrow> bool" where
  "round_step l l' \<longleftrightarrow>
     served l \<le> served l' \<and> (\<exists>xs. queued l' = queued l @ xs) \<and>
     (if iteration l' = iteration l
      then (eventHandling l \<and> \<not> eventHandling l' \<longrightarrow> length (queued l) \<le> served l') \<and>
        (eventHandling l' \<longrightarrow> eventHandling l)
      else iteration l < iteration l' \<and> eventHandling l')"

lemma loop_do_round:
  assumes flags: "flags_inv l" and order: "order_inv l" and en: "loop_enabled op l"
    and step: "loop_do op l = Some l'"
  shows "round_step l l'"
proof (cases op)
  case (Loop_step calls)
  show ?thesis
  proof (cases "place l")
    case (Handling as)
    show ?thesis
    proof (cases as)
      case Nil
      then have "l' = begin_functors l" using step Loop_step Handling by simp
      then show ?thesis
        using order Handling
        by (simp add: begin_functors_def round_step_def served_def order_inv_def)
    next
      case (Cons a as')
      let ?l = "l\<lparr>place := Handling as', currentActiveChannel := Some a\<rparr>"
      consider "l' = handle_wakeup ?l" | "loop_calls_do calls ?l = Some l'"
        using step Loop_step Handling Cons by (auto simp: handle_channel_def Let_def split: if_splits)
      then show ?thesis
      proof cases
        case 1
        then show ?thesis using Handling by (simp add: handle_wakeup_def round_step_def served_def)
      next
        case 2
        then show ?thesis
          using loop_calls_same [OF 2] loop_calls_queued [OF 2] Handling
          by (simp add: round_step_def served_def)
      qed
    qed
  next
    case (Calling fs)
    then have "\<not> eventHandling l" using flags by (simp add: flags_inv_def)
    show ?thesis
    proof (cases fs)
      case Nil
      then have "l' = end_round l" using step Loop_step Calling by simp
      then show ?thesis
        using Calling Nil \<open>\<not> eventHandling l\<close>
        by (simp add: end_round_def round_step_def served_def Let_def)
    next
      case (Cons f fs')
      let ?l = "l\<lparr>place := Calling fs', ran_tasks := ran_tasks l @ [f]\<rparr>"
      have do: "loop_calls_do calls ?l = Some l'"
        using step Loop_step Calling Cons by (simp add: call_functor_def)
      show ?thesis
        using loop_calls_same [OF do] loop_calls_queued [OF do] Calling Cons \<open>\<not> eventHandling l\<close>
        by (simp add: round_step_def served_def)
    qed
  qed (use en Loop_step in simp_all)
qed (use step en in \<open>auto simp: begin_loop_def poll_returns_def push_functor_def wakeup_def
    queue_in_loop_fields round_step_def served_def split: if_splits\<close>)

lemma loop_runs_round:
  assumes "loop_runs ok l l'" and "flags_inv l" and "order_inv l" and "\<not> eventHandling l"
  shows "(\<exists>xs. queued l' = queued l @ xs) \<and> iteration l \<le> iteration l' \<and>
    (iteration l < iteration l' \<longrightarrow> eventHandling l' \<or> length (queued l) \<le> served l') \<and>
    (iteration l' = iteration l \<longrightarrow> \<not> eventHandling l')"
  using assms
proof (induction rule: loop_runs.induct)
  case (loop_runs_step l l1 op l2)
  have inv: "flags_inv l1" "order_inv l1"
    using loop_runs_inv [OF loop_runs_step(1)] loop_runs_step(6,7) by simp_all
  have step: "round_step l1 l2" by (rule loop_do_round [OF inv loop_runs_step(3,4)])
  have IH: "\<exists>xs. queued l1 = queued l @ xs" "iteration l \<le> iteration l1"
    "iteration l < iteration l1 \<longrightarrow> eventHandling l1 \<or> length (queued l) \<le> served l1"
    "iteration l1 = iteration l \<longrightarrow> \<not> eventHandling l1"
    using loop_runs_step by blast+
  have "length (queued l) \<le> length (queued l1)" using IH(1) by auto
  moreover have "\<exists>xs. queued l2 = queued l @ xs" using IH(1) step by (auto simp: round_step_def)
  ultimately show ?case
    using IH(2-4) step by (auto simp: round_step_def split: if_splits)
qed simp

subsection \<open>The properties\<close>

text \<open>C21: whatever other threads do in between, every step of the loop is defined, as long as callbacks
  remove only their own or inactive channels; the flags say where the loop is; and the functors run
  in the order they were queued: those that ran, those of this round and those that wait make up
  what was queued.
\<close>

theorem functors_in_order:
  assumes "loop_runs (\<lambda>_. True) (new_event_loop w) l" and "loop_enabled op l"
  shows "queued l = ran_tasks l @ to_call (place l) @ pendingFunctors l \<and>
    (callingPendingFunctors l \<longleftrightarrow> (\<exists>fs. place l = Calling fs)) \<and>
    (looping l \<longleftrightarrow> place l \<noteq> Not_looping) \<and> (\<exists>l'. loop_do op l = Some l')"
proof -
  have inv: "flags_inv l" "order_inv l"
    using loop_runs_inv [OF assms(1)] new_loop_inv by auto
  then show ?thesis
    using loop_step_ok [OF inv(1) assms(2)] by (simp add: flags_inv_def order_inv_def)
qed

theorem functors_in_order_witness:
  "\<exists>l'. loop_do (Other_pushes 5) (new_event_loop 0) = Some l'"
proof -
  have "loop_enabled (Other_pushes 5) (new_event_loop 0)" by simp
  from functors_in_order [OF loop_runs_refl this] show ?thesis by blast
qed

text \<open>C22: no wakeup is lost. While the loop is about to poll with functors waiting, or after a request
  to quit, the wakeup descriptor is readable or the thread that queued or quit is about to write to
  it, unless the functor was queued by the loop's own thread before it called \<open>loop\<close>: such a functor
  is not announced, and waits for the first event or the end of the poll.
\<close>

theorem no_lost_wakeup:
  "(\<forall>l. loop_runs not_by_owner (new_event_loop w) l \<and> place l = Polling \<and>
      (pendingFunctors l \<noteq> [] \<or> quit l) \<longrightarrow> 0 < wakeups l \<or> 0 < waking l) \<and>
   (\<exists>l. loop_runs (\<lambda>_. True) (new_event_loop w) l \<and> place l = Polling \<and> pendingFunctors l = [f] \<and>
      wakeups l = 0 \<and> waking l = 0)"
proof (intro conjI allI impI)
  fix l assume l: "loop_runs not_by_owner (new_event_loop w) l \<and> place l = Polling \<and>
      (pendingFunctors l \<noteq> [] \<or> quit l)"
  then have "wakeup_inv l" "flags_inv l"
    using loop_runs_wakeup [OF _ new_loop_inv] loop_runs_inv [OF _ new_loop_inv(1,2)] by blast+
  then show "0 < wakeups l \<or> 0 < waking l"
    using l by (auto simp: wakeup_inv_def announced_def flags_inv_def)
next
  let ?l1 = "queue_in_loop True f (new_event_loop w)"
  let ?l2 = "?l1\<lparr>looping := True, quit := False, place := Polling\<rparr>"
  have fields: "place ?l1 = Not_looping" "looping ?l1 = False" "pendingFunctors ?l1 = [f]"
      "wakeups ?l1 = 0" "waking ?l1 = 0"
    unfolding queue_in_loop_fields by (simp_all add: new_event_loop_def)
  have "loop_runs (\<lambda>_. True) (new_event_loop w) ?l1"
    by (rule loop_runs_step [OF loop_runs_refl, where op = "Owner_queues f"])
      (simp_all add: new_event_loop_def)
  then have "loop_runs (\<lambda>_. True) (new_event_loop w) ?l2"
    by (rule loop_runs_step [where op = Start]) (simp_all add: fields begin_loop_def)
  then show "\<exists>l. loop_runs (\<lambda>_. True) (new_event_loop w) l \<and> place l = Polling \<and>
      pendingFunctors l = [f] \<and> wakeups l = 0 \<and> waking l = 0"
    by (rule exI [where x = ?l2, OF conjI]) (simp add: fields)
qed

theorem no_lost_wakeup_witness:
  "\<exists>l. loop_runs (\<lambda>_. True) (new_event_loop 0) l \<and> place l = Polling \<and> pendingFunctors l = [9] \<and>
      wakeups l = 0 \<and> waking l = 0"
  using no_lost_wakeup [of 0 9] by blast

text \<open>C23: a round of the loop runs everything that was queued when it began to poll: when the loop
  polls again, or has left \<open>loop\<close>, after at least one more round, what has run begins with all that had
  been queued. A round ends: functors that are queued while the round's functors run do not join
  them.
\<close>

theorem round_runs_queued:
  assumes "loop_runs (\<lambda>_. True) (new_event_loop w) l" and "place l = Polling"
    and "loop_runs (\<lambda>_. True) l l'" and "place l' = Polling \<or> place l' = Not_looping"
    and "iteration l < iteration l'"
  shows "(\<exists>xs. ran_tasks l' = queued l @ xs) \<and>
    (\<forall>m f fs calls m'. place m = Calling (f # fs) \<and> loop_do (Loop_step calls) m = Some m' \<longrightarrow>
       place m' = Calling fs)"
proof -
  have inv: "flags_inv l" "order_inv l"
    using loop_runs_inv [OF assms(1)] new_loop_inv by auto
  have inv': "flags_inv l'" "order_inv l'" using loop_runs_inv [OF assms(3) inv] by auto
  have "\<not> eventHandling l" "\<not> eventHandling l'"
    using inv(1) inv'(1) assms(2,4) by (auto simp: flags_inv_def)
  then have "\<exists>xs. queued l' = queued l @ xs" "length (queued l) \<le> served l'"
    using loop_runs_round [OF assms(3) inv] assms(5) by auto
  moreover have "queued l' = ran_tasks l' @ pendingFunctors l'" "served l' = length (ran_tasks l')"
    using inv'(2) assms(4) by (auto simp: order_inv_def served_def)
  ultimately have "\<exists>xs. ran_tasks l' = queued l @ xs"
    by (metis append_eq_append_conv_if append_take_drop_id)
  moreover have "place m' = Calling fs"
    if "place m = Calling (f # fs)" "loop_do (Loop_step calls) m = Some m'" for m f fs calls m'
    using that loop_calls_same [of calls _ m'] by (auto simp: call_functor_def)
  ultimately show ?thesis by blast
qed

theorem round_runs_queued_witness:
  "\<exists>l l'. loop_runs (\<lambda>_. True) (new_event_loop 0) l \<and> queued l = [7] \<and>
     loop_runs (\<lambda>_. True) l l' \<and> (\<exists>xs. ran_tasks l' = [7] @ xs)"
proof -
  let ?step = "\<lambda>op l. the (loop_do op l)"
  let ?l0 = "new_event_loop 0"
  let ?l1 = "?step Start ?l0"
  let ?l2 = "?step (Other_pushes 7) ?l1"
  let ?l3 = "?step (Poll_returns []) ?l2"
  let ?l4 = "?step (Loop_step []) ?l3"
  let ?l5 = "?step (Loop_step [Queue_call 8]) ?l4"
  let ?l6 = "?step (Loop_step []) ?l5"
  note defs = new_event_loop_def begin_loop_def push_functor_def poll_returns_def
    begin_functors_def call_functor_def queue_in_loop_def wakeup_def end_round_def Let_def
  have r1: "loop_runs (\<lambda>_. True) ?l0 ?l1"
    by (rule loop_runs_step [OF loop_runs_refl, where op = Start]) (simp_all add: defs)
  have r2: "loop_runs (\<lambda>_. True) ?l0 ?l2"
    by (rule loop_runs_step [OF r1, where op = "Other_pushes 7"]) (simp_all add: defs)
  have r3: "loop_runs (\<lambda>_. True) ?l2 ?l3"
    by (rule loop_runs_step [OF loop_runs_refl, where op = "Poll_returns []"]) (simp_all add: defs)
  have r4: "loop_runs (\<lambda>_. True) ?l2 ?l4"
    by (rule loop_runs_step [OF r3, where op = "Loop_step []"]) (simp_all add: defs)
  have r5: "loop_runs (\<lambda>_. True) ?l2 ?l5"
    by (rule loop_runs_step [OF r4, where op = "Loop_step [Queue_call 8]"]) (simp_all add: defs)
  have r6: "loop_runs (\<lambda>_. True) ?l2 ?l6"
    by (rule loop_runs_step [OF r5, where op = "Loop_step []"]) (simp_all add: defs)
  have "place ?l2 = Polling" "place ?l6 = Polling \<or> place ?l6 = Not_looping"
      "iteration ?l2 < iteration ?l6" "queued ?l2 = [7]"
    by (simp_all add: defs)
  with round_runs_queued [OF r2 _ r6] r2 r6 show ?thesis by metis
qed

end
