(* ===== verification/Civil_Date.thy ===== *)
theory Civil_Date
  imports Prelude "HOL-Library.Signed_Division"
begin

text \<open>
  \<open>Date\<close> of \<^verbatim>\<open>muduo/base/Date.cc\<close>: the Julian day number of a civil date and back, by integer
  arithmetic that knows no tables. The division is C's, which truncates. The dates of
  interest are far inside the range of \<open>int\<close>, so the numbers are integers. The reference is the
  calendar as it is taught: the lengths of the months, the leap years, the day after a day.
\<close>

record YearMonthDay =
  ymd_year :: int
  ymd_month :: int
  ymd_day :: int

abbreviation ymd :: "int \<Rightarrow> int \<Rightarrow> int \<Rightarrow> YearMonthDay" where
  "ymd y m d \<equiv> \<lparr>ymd_year = y, ymd_month = m, ymd_day = d\<rparr>"

definition getJulianDayNumber :: "int \<Rightarrow> int \<Rightarrow> int \<Rightarrow> int" where
  "getJulianDayNumber year month day =
     (let a = (14 - month) sdiv 12;
          y = year + 4800 - a;
          m = month + 12 * a - 3
      in day + (153 * m + 2) sdiv 5 + y * 365 + y sdiv 4 - y sdiv 100 + y sdiv 400 - 32045)"

definition getYearMonthDay :: "int \<Rightarrow> YearMonthDay" where
  "getYearMonthDay julianDayNumber =
     (let a = julianDayNumber + 32044;
          b = (4 * a + 3) sdiv 146097;
          c = a - (b * 146097) sdiv 4;
          d = (4 * c + 3) sdiv 1461;
          e = c - (1461 * d) sdiv 4;
          m = (5 * e + 2) sdiv 153
      in ymd (b * 100 + d - 4800 + m sdiv 10) (m + 3 - 12 * (m sdiv 10))
             (e - (153 * m + 2) sdiv 5 + 1))"

definition kJulianDayOf1970_01_01 :: int where
  "kJulianDayOf1970_01_01 = getJulianDayNumber 1970 1 1"

definition kDaysPerWeek :: int where "kDaysPerWeek = 7"

text \<open>\<open>[0, 1, ..., 6]\<close> for \<open>[Sunday, Monday, ..., Saturday]\<close>.\<close>

definition weekDay :: "int \<Rightarrow> int" where
  "weekDay julianDayNumber = (julianDayNumber + 1) smod kDaysPerWeek"

definition valid_date_number :: "int \<Rightarrow> bool" where
  "valid_date_number julianDayNumber \<longleftrightarrow> julianDayNumber > 0"

subsection \<open>The calendar\<close>

definition leap_year :: "int \<Rightarrow> bool" where
  "leap_year y \<longleftrightarrow> 4 dvd y \<and> (100 dvd y \<longrightarrow> 400 dvd y)"

definition month_length :: "int \<Rightarrow> int \<Rightarrow> int" where
  "month_length y m =
     (if m = 2 then (if leap_year y then 29 else 28) else if m \<in> {4, 6, 9, 11} then 30 else 31)"

text \<open>The numbers of the calendar begin long before any date of interest.\<close>

definition calendar_date :: "YearMonthDay \<Rightarrow> bool" where
  "calendar_date d \<longleftrightarrow>
     - 4800 < ymd_year d \<and> 1 \<le> ymd_month d \<and> ymd_month d \<le> 12 \<and>
     1 \<le> ymd_day d \<and> ymd_day d \<le> month_length (ymd_year d) (ymd_month d)"

definition next_date :: "YearMonthDay \<Rightarrow> YearMonthDay" where
  "next_date d =
     (let y = ymd_year d; m = ymd_month d in
      if ymd_day d < month_length y m then ymd y m (ymd_day d + 1)
      else if m < 12 then ymd y (m + 1) 1
      else ymd (y + 1) 1 1)"

definition julian :: "YearMonthDay \<Rightarrow> int" where
  "julian d = getJulianDayNumber (ymd_year d) (ymd_month d) (ymd_day d)"

subsection \<open>Years that begin in March\<close>

lemma sdiv_nonneg: "0 \<le> (a :: int) \<Longrightarrow> 0 \<le> b \<Longrightarrow> a sdiv b = a div b"
  by (cases "a = 0"; cases "b = 0") (simp_all add: signed_divide_int_def)

text \<open>The numbers of a date: the year from March, the month from March, and the day in that year.\<close>

definition march_year :: "int \<Rightarrow> int \<Rightarrow> int" where
  "march_year y m = y + 4800 - (14 - m) div 12"

definition march_month :: "int \<Rightarrow> int" where
  "march_month m = m + 12 * ((14 - m) div 12) - 3"

definition days_before :: "int \<Rightarrow> int" where
  "days_before m = (153 * m + 2) div 5"

definition year_days :: "int \<Rightarrow> int" where
  "year_days y = 365 * y + y div 4 - y div 100 + y div 400"

definition quarter :: "int \<Rightarrow> int" where
  "quarter x = x div 4"

definition quarter_rest :: "int \<Rightarrow> int" where
  "quarter_rest x = x mod 4"

lemma quarter_parts: "x = 4 * quarter x + quarter_rest x" "0 \<le> quarter_rest x" "quarter_rest x \<le> 3"
  "0 \<le> x \<Longrightarrow> 0 \<le> quarter x"
  using pos_mod_bound [of 4 x]
  by (simp_all add: quarter_def quarter_rest_def pos_imp_zdiv_nonneg_iff)

lemma month_cases:
  assumes "1 \<le> m" "m \<le> (12::int)"
  obtains "m = 1" | "m = 2" | "m = 3" | "m = 4" | "m = 5" | "m = 6" | "m = 7" | "m = 8" | "m = 9"
    | "m = 10" | "m = 11" | "m = 12"
proof -
  have "m = 1 \<or> m = 2 \<or> m = 3 \<or> m = 4 \<or> m = 5 \<or> m = 6 \<or> m = 7 \<or> m = 8 \<or> m = 9 \<or>
      m = 10 \<or> m = 11 \<or> m = 12"
    using assms by presburger
  then show thesis using that by blast
qed

lemma march_values:
  assumes "1 \<le> m" "m \<le> 12"
  shows "0 \<le> march_month m" "march_month m \<le> 11"
    "march_year y m - 4800 + march_month m div 10 = y"
    "march_month m + 3 - 12 * (march_month m div 10) = m"
  using assms by (cases rule: month_cases; simp add: march_month_def march_year_def)+

lemma julian_march:
  assumes "1 \<le> m" "m \<le> 12" "- 4800 < y"
  defines "y' \<equiv> march_year y m"
  shows "getJulianDayNumber y m d =
      d + days_before (march_month m) + year_days y' - 32045"
    and "0 \<le> y'"
proof -
  have a: "(14 - m) sdiv 12 = (14 - m) div 12" "0 \<le> (14 - m) div 12" "(14 - m) div 12 \<le> 1"
    using assms(1,2) by (auto simp: sdiv_nonneg)
  show y': "0 \<le> y'" using a(3) assms(3) by (simp add: y'_def march_year_def)
  have "0 \<le> march_month m" by (rule march_values(1) [OF assms(1,2)])
  then have "(153 * march_month m + 2) sdiv 5 = days_before (march_month m)"
    by (simp add: sdiv_nonneg days_before_def)
  then show "getJulianDayNumber y m d =
      d + days_before (march_month m) + year_days y' - 32045"
    using y' by (simp add: getJulianDayNumber_def Let_def a(1) sdiv_nonneg y'_def march_year_def
        march_month_def year_days_def mult.commute)
qed

text \<open>The day of the year from March, and which of its days only a leap year has.\<close>

lemma day_bounds:
  assumes "1 \<le> m" "m \<le> 12" "1 \<le> d" "d \<le> month_length y m"
  defines "n \<equiv> d - 1 + days_before (march_month m)"
  shows "0 \<le> n" "n \<le> 365" "n = 365 \<Longrightarrow> m = 2 \<and> leap_year y"
    "(5 * n + 2) div 153 = march_month m"
proof -
  have "0 \<le> n \<and> n \<le> 365 \<and> (n = 365 \<longrightarrow> m = 2 \<and> leap_year y) \<and> (5 * n + 2) div 153 = march_month m"
    using assms(3,4) assms(1,2)
    by (cases rule: month_cases [OF assms(1,2)])
      (simp_all add: n_def march_month_def days_before_def month_length_def split: if_splits)
  then show "0 \<le> n" "n \<le> 365" "n = 365 \<Longrightarrow> m = 2 \<and> leap_year y"
    "(5 * n + 2) div 153 = march_month m" by simp_all
qed

subsection \<open>Back from the number\<close>

text \<open>A year from March, as the code takes it apart: its century, and the year in the century.\<close>

lemma century_parts:
  assumes "0 \<le> (y :: int)"
  defines "b \<equiv> y div 100" and "r \<equiv> y mod 100"
  shows "year_days y = 36524 * b + quarter b + 365 * r + quarter r"
    "(146097 * b) div 4 = 36524 * b + quarter b" "(1461 * r) div 4 = 365 * r + quarter r"
    "0 \<le> b" "0 \<le> r" "r < 100" "y = 100 * b + r"
proof -
  show y: "y = 100 * b + r" by (simp add: b_def r_def)
  show r: "0 \<le> r" "r < 100" by (simp_all add: r_def)
  show "0 \<le> b" using assms(1) by (simp add: b_def pos_imp_zdiv_nonneg_iff)
  have "y div 4 = 25 * b + quarter r" unfolding y quarter_def by simp
  moreover have "y div 400 = quarter b"
    using zdiv_zmult2_eq [of 4 y 100] by (simp add: b_def quarter_def)
  moreover have "y div 100 = b" by (simp add: b_def)
  ultimately show "year_days y = 36524 * b + quarter b + 365 * r + quarter r"
    unfolding year_days_def using y by linarith
  show "(146097 * b) div 4 = 36524 * b + quarter b" "(1461 * r) div 4 = 365 * r + quarter r"
    by (simp_all add: quarter_def)
qed

text \<open>The last day of a year from March is there only when the next January year is a leap year.\<close>

lemma last_day:
  assumes "m = 2" and "leap_year y" and "march_year y m = 100 * b + r"
  shows "quarter_rest r = 3" and "r = 99 \<Longrightarrow> quarter_rest b = 3"
proof -
  have y: "y = 100 * b + r - 4799" using assms(1,3) by (simp add: march_year_def)
  have "4 dvd y" using assms(2) by (simp add: leap_year_def)
  then have "4 dvd r - 3" unfolding y by presburger
  then show "quarter_rest r = 3" unfolding quarter_rest_def by presburger
  show "quarter_rest b = 3" if "r = 99"
  proof -
    have y': "y = 100 * (b - 47)" using that y by simp
    then have "100 * 4 dvd 100 * (b - 47)" using assms(2) by (simp add: leap_year_def)
    moreover have "(100 :: int) \<noteq> 0" by simp
    ultimately have "4 dvd b - 47"
      using dvd_times_left_cancel_iff [of 100 4 "b - 47"] by blast
    then show ?thesis unfolding quarter_rest_def by presburger
  qed
qed

lemma date_of_julian:
  assumes "calendar_date d"
  shows "getYearMonthDay (julian d) = d"
proof -
  obtain y m k where d: "d = ymd y m k" by (cases d)
  have y: "- 4800 < y" and m: "1 \<le> m" "m \<le> 12" and k: "1 \<le> k" "k \<le> month_length y m"
    using assms by (simp_all add: d calendar_date_def)
  define y' where "y' = march_year y m"
  define n where "n = k - 1 + days_before (march_month m)"
  define b where "b = y' div 100"
  define r where "r = y' mod 100"
  have y': "0 \<le> y'" unfolding y'_def by (rule julian_march(2) [OF m y])
  note parts = century_parts [OF y', folded b_def r_def]
  note qb = quarter_parts [of b] and qr = quarter_parts [of r]
  have n: "0 \<le> n" "n \<le> 365" "n = 365 \<Longrightarrow> m = 2 \<and> leap_year y"
    "(5 * n + 2) div 153 = march_month m"
    unfolding n_def by (fact day_bounds [OF m k])+
  have last: "n = 365 \<Longrightarrow> quarter_rest r = 3" "n = 365 \<Longrightarrow> r = 99 \<Longrightarrow> quarter_rest b = 3"
    using last_day [of m y b r] n(3) parts(7) by (auto simp: y'_def)
  define a where "a = julian d + 32044"
  have a: "a = 36524 * b + quarter b + 365 * r + quarter r + n"
    using julian_march(1) [OF m y, of k] parts(1) by (simp add: a_def julian_def d n_def y'_def)
  have a0: "0 \<le> a" using a parts(4,5) n(1) qb(4) qr(4) by simp
  have b: "(4 * a + 3) div 146097 = b"
  proof (rule int_div_pos_eq)
    show "4 * a + 3 = 146097 * b + (3 - quarter_rest b + 4 * (365 * r + quarter r + n))"
    proof -
      have "quarter_rest b = b - 4 * quarter b" using qb(1) by linarith
      then show ?thesis unfolding a by simp
    qed
    show "0 \<le> 3 - quarter_rest b + 4 * (365 * r + quarter r + n)"
      using n(1) parts(5) qb(3) qr(4) [OF parts(5)] by simp
    show "3 - quarter_rest b + 4 * (365 * r + quarter r + n) < 146097"
    proof (cases "r = 99 \<and> n = 365")
      case True
      then show ?thesis using last qr(1) by simp
    next
      case False
      then have "365 * r + n \<le> 365 * 99 + 364" using n(2) parts(6) by linarith
      moreover have "quarter r \<le> 24" using parts(6) qr(1,2) by linarith
      ultimately show ?thesis using qb(2) by simp
    qed
  qed
  define c where "c = a - (b * 146097) sdiv 4"
  have "(b * 146097) sdiv 4 = 36524 * b + quarter b"
    using parts(2,4) by (simp add: sdiv_nonneg mult.commute)
  then have c: "c = 365 * r + quarter r + n" using a by (simp add: c_def)
  have dd: "(4 * c + 3) div 1461 = r"
  proof (rule int_div_pos_eq)
    show "4 * c + 3 = 1461 * r + (3 - quarter_rest r + 4 * n)" using qr(1) unfolding c by simp
    show "0 \<le> 3 - quarter_rest r + 4 * n" using n(1) qr(3) by linarith
    show "3 - quarter_rest r + 4 * n < 1461"
      using n(2) last(1) qr(2) by (cases "n = 365") simp_all
  qed
  have c0: "0 \<le> c" using c parts(5) n(1) qr(4) by simp
  define e where "e = c - (1461 * r) sdiv 4"
  have "(1461 * r) sdiv 4 = 365 * r + quarter r" using parts(3,5) by (simp add: sdiv_nonneg)
  then have e: "e = n" using c by (simp add: e_def)
  have mm: "(5 * e + 2) sdiv 153 = march_month m" using n(1,4) by (simp add: e sdiv_nonneg)
  have bb: "(4 * a + 3) sdiv 146097 = b" using b a0 by (simp add: sdiv_nonneg)
  have rr: "(4 * c + 3) sdiv 1461 = r" using dd c0 by (simp add: sdiv_nonneg)
  have "getYearMonthDay (julian d) =
      ymd (b * 100 + r - 4800 + march_month m sdiv 10)
          (march_month m + 3 - 12 * (march_month m sdiv 10))
          (e - (153 * march_month m + 2) sdiv 5 + 1)"
    unfolding getYearMonthDay_def Let_def a_def [symmetric] bb c_def [symmetric] rr
      e_def [symmetric] mm by (rule refl)
  also have "\<dots> = ymd y m k"
  proof -
    have "march_month m sdiv 10 = march_month m div 10"
      "(153 * march_month m + 2) sdiv 5 = days_before (march_month m)"
      using march_values(1) [OF m] by (simp_all add: sdiv_nonneg days_before_def)
    then show ?thesis
      using march_values(3) [OF m, of y] march_values(4) [OF m] parts(7) by (simp add: e n_def y'_def)
  qed
  finally show ?thesis by (simp add: d)
qed

subsection \<open>The next day\<close>

lemma month_length_pos: "28 \<le> month_length y m"
  by (simp add: month_length_def)

lemma next_date_calendar: "calendar_date d \<Longrightarrow> calendar_date (next_date d)"
  using month_length_pos [of "ymd_year d" "ymd_month d + 1"] month_length_pos [of "ymd_year d + 1" 1]
  by (auto simp: calendar_date_def next_date_def Let_def)

lemma div_next:
  assumes "0 \<le> (z :: int)" and "0 < k"
  shows "(z + 1) div k = z div k + (if k dvd z + 1 then 1 else 0)"
proof -
  obtain n l where n: "z = int n" "k = int l" using assms by (metis nonneg_int_cases order_less_imp_le)
  have "(z + 1) div k = int (Suc n div l)" by (simp add: n zdiv_int add.commute)
  also have "Suc n div l = n div l + (if l dvd Suc n then 1 else 0)"
    by (simp add: div_Suc dvd_eq_mod_eq_0)
  also have "l dvd Suc n \<longleftrightarrow> k dvd z + 1"
    using int_dvd_int_iff [of l "Suc n"] by (simp add: n add.commute)
  finally show ?thesis by (simp add: n zdiv_int)
qed

lemma year_days_next:
  assumes "0 \<le> z"
  shows "year_days (z + 1) = year_days z + (if leap_year (z - 4799) then 366 else 365)"
proof -
  have eq: "z + 1 = (z - 4799) + 4800" by simp
  have dvd: "4 dvd z + 1 \<longleftrightarrow> 4 dvd z - 4799" "100 dvd z + 1 \<longleftrightarrow> 100 dvd z - 4799"
    "400 dvd z + 1 \<longleftrightarrow> 400 dvd z - 4799"
    unfolding eq by (rule dvd_add_left_iff, simp)+
  have imp: "100 dvd z + 1 \<Longrightarrow> 4 dvd z + 1" "400 dvd z + 1 \<Longrightarrow> 100 dvd z + 1"
    by (erule dvd_trans [rotated], simp)+
  have "leap_year (z - 4799) \<longleftrightarrow> 4 dvd z + 1 \<and> (100 dvd z + 1 \<longrightarrow> 400 dvd z + 1)"
    unfolding leap_year_def dvd by (rule refl)
  then have cases: "(if 4 dvd z + 1 then 1 else 0) - (if 100 dvd z + 1 then 1 else 0) +
      (if 400 dvd z + 1 then 1 else 0) = (if leap_year (z - 4799) then 1 else (0 :: int))"
    by (cases "400 dvd z + 1"; cases "100 dvd z + 1"; cases "4 dvd z + 1")
      (simp_all only: imp if_True if_False, simp_all)
  define i4 i100 i400 :: int where "i4 = (if 4 dvd z + 1 then 1 else 0)"
    and "i100 = (if 100 dvd z + 1 then 1 else 0)" and "i400 = (if 400 dvd z + 1 then 1 else 0)"
  define p q s where "p = z div 4" and "q = z div 100" and "s = z div 400"
  have "year_days (z + 1) = 365 * (z + 1) + (p + i4) - (q + i100) + (s + i400)"
    unfolding year_days_def div_next [OF assms zero_less_numeral] p_def q_def s_def i4_def
      i100_def i400_def by (rule refl)
  moreover have "year_days z = 365 * z + p - q + s"
    unfolding year_days_def p_def q_def s_def by (rule refl)
  ultimately show ?thesis
    using cases [folded i4_def i100_def i400_def] by (cases "leap_year (z - 4799)") simp_all
qed

lemma next_month_julian:
  assumes "1 \<le> m" "m \<le> 11" "- 4800 < y"
  shows "getJulianDayNumber y (m + 1) 1 = getJulianDayNumber y m (month_length y m) + 1"
proof -
  have m: "1 \<le> m" "m \<le> 12" "1 \<le> m + 1" "m + 1 \<le> 12" using assms(1,2) by simp_all
  note julian = julian_march(1) [OF m(1,2) assms(3)] julian_march(1) [OF m(3,4) assms(3)]
  show ?thesis
  proof (cases "m = 2")
    case True
    have "march_year y 3 = y + 4799 + 1" "march_year y 2 = y + 4799" "march_month 3 = 0"
      "days_before (march_month 3) = 0" "days_before (march_month 2) = 337"
      by (simp_all add: march_year_def march_month_def days_before_def)
    then show ?thesis
      using True julian year_days_next [of "y + 4799"] assms(3) by (simp add: month_length_def)
  next
    case False
    have "march_year y (m + 1) = march_year y m"
      using assms(1,2) False by (cases rule: month_cases [OF m(1,2)]) (simp_all add: march_year_def)
    moreover have "days_before (march_month (m + 1)) + 1 =
        month_length y m + days_before (march_month m) + 1"
      using assms(1,2) False
      by (cases rule: month_cases [OF m(1,2)])
        (simp_all add: march_month_def days_before_def month_length_def)
    ultimately show ?thesis using julian by simp
  qed
qed

lemma julian_next:
  assumes "calendar_date d"
  shows "julian (next_date d) = julian d + 1"
proof -
  obtain y m k where d: "d = ymd y m k" by (cases d)
  have y: "- 4800 < y" and m: "1 \<le> m" "m \<le> 12" and k: "1 \<le> k" "k \<le> month_length y m"
    using assms by (simp_all add: d calendar_date_def)
  consider "k < month_length y m" | "k = month_length y m" "m \<le> 11" | "k = month_length y m" "m = 12"
    using k m by linarith
  then show ?thesis
  proof cases
    case 1
    then show ?thesis by (simp add: d next_date_def julian_def getJulianDayNumber_def Let_def)
  next
    case 2
    then show ?thesis
      using next_month_julian [OF m(1) _ y] by (simp add: d next_date_def julian_def)
  next
    case 3
    have "march_year (y + 1) 1 = y + 4800" "march_year y 12 = y + 4800"
      "days_before (march_month 1) = 306" "days_before (march_month 12) = 275"
      by (simp_all add: march_year_def march_month_def days_before_def)
    then have "getJulianDayNumber (y + 1) 1 1 = getJulianDayNumber y 12 31 + 1"
      using julian_march(1) [of 1 "y + 1" 1] julian_march(1) [of 12 y 31] y by simp
    then show ?thesis using 3 by (simp add: d next_date_def julian_def month_length_def)
  qed
qed

text \<open>So every day number from some day on is the number of one date.\<close>

lemma julian_onto:
  assumes "julian (ymd (-4799) 1 1) \<le> j"
  shows "\<exists>d. calendar_date d \<and> julian d = j"
  using assms
proof (induction j rule: int_ge_induct)
  case base
  have "calendar_date (ymd (-4799) 1 1)" by (simp add: calendar_date_def month_length_def)
  then show ?case by blast
next
  case (step j)
  then obtain d where "calendar_date d" "julian d = j" by blast
  then show ?case using next_date_calendar julian_next by blast
qed

lemma julian_of_date:
  assumes "julian (ymd (-4799) 1 1) \<le> j"
  shows "calendar_date (getYearMonthDay j)" and "julian (getYearMonthDay j) = j"
  using julian_onto [OF assms] date_of_julian by auto

lemma julian_epoch: "kJulianDayOf1970_01_01 = 2440588" "julian (ymd (-4799) 1 1) = -31738"
  by (simp_all add: kJulianDayOf1970_01_01_def julian_def getJulianDayNumber_def Let_def
      signed_divide_int_def)

end
