(* ===== verification/Time_Zone.thy ===== *)
theory Time_Zone
  imports Civil_Date Byte_Order Muduo_Prelude
begin

text \<open>
  \<open>TimeZone\<close> of \<^verbatim>\<open>muduo/base/TimeZone.cc\<close>: broken-down times in UTC, and local times by the
  transitions of a zone file. Seconds are 64 bits wide in the program and integers here.
  \<open>gmtime_r\<close> and \<open>timegm\<close> of the C library compute what \<open>toUtcTime\<close> and \<open>fromUtcTime\<close> do, as the header
  says. \<open>None\<close> is a failed \<open>assert\<close>, or an access outside a vector, which C++ leaves undefined.
\<close>

record tm =
  tm_sec :: int
  tm_min :: int
  tm_hour :: int
  tm_mday :: int
  tm_mon :: int
  tm_year :: int
  tm_wday :: int
  tm_yday :: int
  tm_isdst :: int
  tm_gmtoff :: int
  tm_zone :: string

definition zero_tm :: tm where
  "zero_tm =
     \<lparr>tm_sec = 0, tm_min = 0, tm_hour = 0, tm_mday = 0, tm_mon = 0, tm_year = 0, tm_wday = 0,
      tm_yday = 0, tm_isdst = 0, tm_gmtoff = 0, tm_zone = []\<rparr>"

definition kSecondsPerDay :: int where "kSecondsPerDay = 24 * 60 * 60"

text \<open>\<open>unsigned\<close> seconds: the division is \<open>div\<close>.\<close>

definition fillHMS :: "int \<Rightarrow> tm \<Rightarrow> tm" where
  "fillHMS seconds utc =
     (let utc = utc\<lparr>tm_sec := seconds mod 60\<rparr>;
          minutes = seconds div 60
      in utc\<lparr>tm_min := minutes mod 60, tm_hour := minutes div 60\<rparr>)"

definition toUtcTime :: "int \<Rightarrow> bool \<Rightarrow> tm" where
  "toUtcTime secondsSinceEpoch yday =
     (let utc = zero_tm\<lparr>tm_zone := ''GMT''\<rparr>;
          seconds = secondsSinceEpoch smod kSecondsPerDay;
          days = secondsSinceEpoch sdiv kSecondsPerDay;
          (seconds, days) =
            (if seconds < 0 then (seconds + kSecondsPerDay, days - 1) else (seconds, days));
          utc = fillHMS seconds utc;
          date = days + kJulianDayOf1970_01_01;
          ymd = getYearMonthDay date;
          utc = utc\<lparr>tm_year := ymd_year ymd - 1900, tm_mon := ymd_month ymd - 1,
                    tm_mday := ymd_day ymd, tm_wday := weekDay date\<rparr>
      in if yday then utc\<lparr>tm_yday := date - getJulianDayNumber (ymd_year ymd) 1 1\<rparr> else utc)"

definition fromUtcFields :: "int \<Rightarrow> int \<Rightarrow> int \<Rightarrow> int \<Rightarrow> int \<Rightarrow> int \<Rightarrow> int" where
  "fromUtcFields year month day hour minute seconds =
     (let secondsInDay = hour * 3600 + minute * 60 + seconds;
          days = getJulianDayNumber year month day - kJulianDayOf1970_01_01
      in days * kSecondsPerDay + secondsInDay)"

definition fromUtcTime :: "tm \<Rightarrow> int" where
  "fromUtcTime utc =
     fromUtcFields (tm_year utc + 1900) (tm_mon utc + 1) (tm_mday utc) (tm_hour utc) (tm_min utc)
       (tm_sec utc)"

definition gmtime :: "int \<Rightarrow> tm" where "gmtime t = toUtcTime t True"

definition timegm :: "tm \<Rightarrow> int" where "timegm t = fromUtcTime t"

subsection \<open>The data of a zone\<close>

record transition =
  gmttime :: int
  localtime :: int
  localtimeIdx :: nat

record local_time =
  gmtOffset :: int
  isDst :: bool
  arrbIdx :: nat

record zone_data =
  transitions :: "transition list"
  localtimes :: "local_time list"
  zone_names :: string

definition empty_zone :: zone_data where
  "empty_zone = \<lparr>transitions = [], localtimes = [], zone_names = []\<rparr>"

text \<open>\<open>Comp\<close>: by the time in UTC or by the local time.\<close>

definition comp_less :: "bool \<Rightarrow> transition \<Rightarrow> transition \<Rightarrow> bool" where
  "comp_less compareGmt l r =
     (if compareGmt then gmttime l < gmttime r else localtime l < localtime r)"

definition comp_equal :: "bool \<Rightarrow> transition \<Rightarrow> transition \<Rightarrow> bool" where
  "comp_equal compareGmt l r =
     (if compareGmt then gmttime l = gmttime r else localtime l = localtime r)"

definition at_index :: "'a list \<Rightarrow> nat \<Rightarrow> 'a option" where
  "at_index xs i = (if i < length xs then Some (xs ! i) else None)"

text \<open>\<open>lower_bound\<close> is the index of the first element that is not below the key.\<close>

definition findLocaltime :: "zone_data \<Rightarrow> transition \<Rightarrow> bool \<Rightarrow> local_time option" where
  "findLocaltime data sentry gmt =
     (if transitions data = [] \<or> comp_less gmt sentry (hd (transitions data))
      then at_index (localtimes data) 0
      else
        let i = length (takeWhile (\<lambda>t. comp_less gmt t sentry) (transitions data)) in
        if i < length (transitions data) then
          if comp_equal gmt sentry (transitions data ! i)
          then at_index (localtimes data) (localtimeIdx (transitions data ! i))
          else if i = 0 then None
          else at_index (localtimes data) (localtimeIdx (transitions data ! (i - 1)))
        else at_index (localtimes data) (localtimeIdx (last (transitions data))))"

definition fixed_zone :: "int \<Rightarrow> string \<Rightarrow> zone_data" where
  "fixed_zone eastOfUtc name =
     empty_zone\<lparr>localtimes := [\<lparr>gmtOffset = eastOfUtc, isDst = False, arrbIdx = 0\<rparr>],
                zone_names := name\<rparr>"

definition c_string_at :: "string \<Rightarrow> nat \<Rightarrow> string" where
  "c_string_at s i = takeWhile (\<lambda>c. c \<noteq> NUL) (drop i s)"

definition toLocalTime :: "zone_data \<Rightarrow> int \<Rightarrow> tm option" where
  "toLocalTime data seconds = do {
     loc \<leftarrow> findLocaltime data \<lparr>gmttime = seconds, localtime = 0, localtimeIdx = 0\<rparr> True;
     let localSeconds = seconds + gmtOffset loc;
     C_assert (arrbIdx loc \<le> length (zone_names data));
     Some ((gmtime localSeconds)\<lparr>tm_isdst := (if isDst loc then 1 else 0), tm_gmtoff := gmtOffset loc,
             tm_zone := c_string_at (zone_names data) (arrbIdx loc)\<rparr>)
   }"

definition fromLocalTime :: "zone_data \<Rightarrow> tm \<Rightarrow> int option" where
  "fromLocalTime data localTm = do {
     let seconds = timegm localTm;
     loc \<leftarrow> findLocaltime data \<lparr>gmttime = 0, localtime = seconds, localtimeIdx = 0\<rparr> False;
     seconds \<leftarrow> (if tm_isdst localTm \<noteq> 0 then do {
                   tryTm \<leftarrow> toLocalTime data (seconds - gmtOffset loc);
                   Some (if tm_isdst tryTm = 0 \<and> tm_hour tryTm = tm_hour localTm \<and>
                            tm_min tryTm = tm_min localTm
                         then seconds - 3600 else seconds)
                 }
                 else Some seconds);
     Some (seconds - gmtOffset loc)
   }"

subsection \<open>Reading a zone file\<close>

text \<open>
  The reads of \<open>File\<close>: the value and the rest of the file. \<open>None\<close> here is the exception \<open>logic_error\<close>.
\<close>

definition readBytes :: "nat \<Rightarrow> string \<Rightarrow> (string \<times> string) option" where
  "readBytes n f = (if length f < n then None else Some (take n f, drop n f))"

definition readInt32 :: "string \<Rightarrow> (int \<times> string) option" where
  "readInt32 f = map_option (\<lambda>w. (sint w, drop 4 f)) (NetworkToHostInt32 f)"

definition readUInt8 :: "string \<Rightarrow> (nat \<times> string) option" where
  "readUInt8 f = (case f of [] \<Rightarrow> None | c # cs \<Rightarrow> Some (of_char c, cs))"

primrec read_many :: "(string \<Rightarrow> ('a \<times> string) option) \<Rightarrow> nat \<Rightarrow> string \<Rightarrow> ('a list \<times> string) option" where
  "read_many read 0 f = Some ([], f)"
| "read_many read (Suc n) f = do {
     (x, f) \<leftarrow> read f;
     (xs, f) \<leftarrow> read_many read n f;
     Some (x # xs, f)
   }"

record zone_counts =
  timecnt :: int
  typecnt :: int
  charcnt :: int

definition read_head :: "string \<Rightarrow> (zone_counts \<times> string) option" where
  "read_head f = do {
     (head, f) \<leftarrow> readBytes 4 f;
     if head \<noteq> ''TZif'' then None
     else do {
       (version, f) \<leftarrow> readBytes 1 f;
       (_, f) \<leftarrow> readBytes 15 f;
       (isgmtcnt, f) \<leftarrow> readInt32 f;
       (isstdcnt, f) \<leftarrow> readInt32 f;
       (leapcnt, f) \<leftarrow> readInt32 f;
       (times, f) \<leftarrow> readInt32 f;
       (types, f) \<leftarrow> readInt32 f;
       (chars, f) \<leftarrow> readInt32 f;
       Some (\<lparr>timecnt = times, typecnt = types, charcnt = chars\<rparr>, f)
     }
   }"

definition read_localtime :: "string \<Rightarrow> (local_time \<times> string) option" where
  "read_localtime f = do {
     (gmtoff, f) \<leftarrow> readInt32 f;
     (isdst, f) \<leftarrow> readUInt8 f;
     (abbrind, f) \<leftarrow> readUInt8 f;
     Some (\<lparr>gmtOffset = gmtoff, isDst = isdst \<noteq> 0, arrbIdx = abbrind\<rparr>, f)
   }"

text \<open>The localtimes that were read are kept when the file ends early; then there is no rest.\<close>

primrec read_localtimes :: "nat \<Rightarrow> string \<Rightarrow> local_time list \<times> string option" where
  "read_localtimes 0 f = ([], Some f)"
| "read_localtimes (Suc n) f =
     (case read_localtime f of
        None \<Rightarrow> ([], None)
      | Some (l, f) \<Rightarrow> map_prod (Cons l) id (read_localtimes n f))"

definition make_transitions :: "int list \<Rightarrow> nat list \<Rightarrow> local_time list \<Rightarrow> transition list option" where
  "make_transitions gmts idxs locals =
     those (map2 (\<lambda>t i. map_option (\<lambda>l. \<lparr>gmttime = t, localtime = t + gmtOffset l, localtimeIdx = i\<rparr>)
                          (at_index locals i)) gmts idxs)"

text \<open>
  What the data holds when the reading ends, by the end of the block or by an exception, which is
  caught and reported. A negative \<open>timecnt\<close> makes \<open>reserve\<close> throw a \<open>length_error\<close>, which is a
  \<open>logic_error\<close>; a negative \<open>charcnt\<close> is the length of an array.
\<close>

definition read_zone_data :: "string \<Rightarrow> zone_data option" where
  "read_zone_data f =
     (case read_head f of
        None \<Rightarrow> Some empty_zone
      | Some (n, f) \<Rightarrow>
          if timecnt n < 0 then Some empty_zone
          else
            (case Option.bind (read_many readInt32 (nat (timecnt n)) f)
                    (\<lambda>(gmts, f). map_option (map_prod (Pair gmts) id)
                       (read_many readUInt8 (nat (timecnt n)) f)) of
               None \<Rightarrow> Some empty_zone
             | Some ((gmts, idxs), f) \<Rightarrow>
                 (case read_localtimes (nat (typecnt n)) f of
                    (locals, None) \<Rightarrow> Some (empty_zone\<lparr>localtimes := locals\<rparr>)
                  | (locals, Some f) \<Rightarrow> do {
                      ts \<leftarrow> make_transitions gmts idxs locals;
                      C_assert (0 \<le> charcnt n);
                      Some \<lparr>transitions = ts, localtimes = locals,
                            zone_names = (case readBytes (nat (charcnt n)) f of
                                              None \<Rightarrow> [] | Some (s, _) \<Rightarrow> s)\<rparr>
                    })))"

text \<open>\<open>readTimeZoneFile\<close>: \<open>None\<close> is a file that cannot be opened. The result is always true.\<close>

definition readTimeZoneFile :: "string option \<Rightarrow> (bool \<times> zone_data) option" where
  "readTimeZoneFile zonefile =
     map_option (Pair True)
       (case zonefile of None \<Rightarrow> Some empty_zone | Some f \<Rightarrow> read_zone_data f)"

text \<open>The constructor: no data when reading fails.\<close>

definition TimeZone_of_file :: "string option \<Rightarrow> zone_data option option" where
  "TimeZone_of_file zonefile =
     map_option (\<lambda>(ok, data). if ok then Some data else None) (readTimeZoneFile zonefile)"

end
