(* ===== verification/Local_Time.thy ===== *)
theory Local_Time
  imports Time_Zone
begin

text \<open>
  Broken-down times in UTC: what \<open>toUtcTime\<close> computes, and that \<open>fromUtcTime\<close> undoes it.
  Then local times: \<open>toLocalTime\<close> and \<open>fromLocalTime\<close> by the transitions of a zone, and the hours that
  occur twice or not at all.
\<close>

text \<open>The first second of the calendar of \<open>Civil_Date\<close>, in January of the year 4800 before the epoch.\<close>

definition first_second :: int where
  "first_second = (julian (ymd (-4799) 1 1) - kJulianDayOf1970_01_01) * kSecondsPerDay"

lemma split_seconds:
  "(let s = t smod kSecondsPerDay; d = t sdiv kSecondsPerDay
    in if s < 0 then (s + kSecondsPerDay, d - 1) else (s, d)) =
   (t mod kSecondsPerDay, t div kSecondsPerDay)"
proof -
  let ?k = "86400 :: int"
  have eq: "t sdiv ?k * ?k + t smod ?k = t" by (rule sdiv_mult_smod_eq)
  have bound: "\<bar>t smod ?k\<bar> < ?k" "0 \<le> t \<Longrightarrow> 0 \<le> t smod ?k" "t \<le> 0 \<Longrightarrow> t smod ?k \<le> 0"
    by (auto simp: smod_int_alt_def abs_if sgn_if)
  show ?thesis
  proof (cases "t smod ?k < 0")
    case True
    have "t div ?k = t sdiv ?k - 1"
      by (rule int_div_pos_eq [where r = "t smod ?k + ?k"]) (use eq bound True in auto)
    moreover have "t mod ?k = t smod ?k + ?k"
      using div_mult_mod_eq [of t ?k] eq calculation by linarith
    ultimately show ?thesis using True by (simp add: kSecondsPerDay_def Let_def)
  next
    case False
    have "t div ?k = t sdiv ?k"
      by (rule int_div_pos_eq [where r = "t smod ?k"]) (use eq bound False in auto)
    moreover have "t mod ?k = t smod ?k"
      using div_mult_mod_eq [of t ?k] eq calculation by linarith
    ultimately show ?thesis using False by (simp add: kSecondsPerDay_def Let_def)
  qed
qed

text \<open>The fields of a broken-down time.\<close>

definition utc_tm :: "int \<Rightarrow> bool \<Rightarrow> tm" where
  "utc_tm t yday =
     (let s = t mod kSecondsPerDay; j = t div kSecondsPerDay + kJulianDayOf1970_01_01;
          d = getYearMonthDay j
      in \<lparr>tm_sec = s mod 60, tm_min = s div 60 mod 60, tm_hour = s div 60 div 60,
          tm_mday = ymd_day d, tm_mon = ymd_month d - 1, tm_year = ymd_year d - 1900,
          tm_wday = weekDay j,
          tm_yday = (if yday then j - getJulianDayNumber (ymd_year d) 1 1 else 0),
          tm_isdst = 0, tm_gmtoff = 0, tm_zone = ''GMT''\<rparr>)"

lemma toUtcTime_eq: "toUtcTime t yday = utc_tm t yday"
proof -
  have "toUtcTime t yday =
      (let (seconds, days) = (t mod kSecondsPerDay, t div kSecondsPerDay);
          utc = fillHMS seconds (zero_tm\<lparr>tm_zone := ''GMT''\<rparr>);
          date = days + kJulianDayOf1970_01_01;
          ymd = getYearMonthDay date;
          utc = utc\<lparr>tm_year := ymd_year ymd - 1900, tm_mon := ymd_month ymd - 1,
                    tm_mday := ymd_day ymd, tm_wday := weekDay date\<rparr>
      in if yday then utc\<lparr>tm_yday := date - getJulianDayNumber (ymd_year ymd) 1 1\<rparr> else utc)"
    unfolding toUtcTime_def split_seconds [symmetric, of t] Let_def by simp
  then show ?thesis by (simp add: utc_tm_def fillHMS_def zero_tm_def Let_def)
qed

lemma hms_parts:
  assumes "0 \<le> s" and "s < (86400 :: int)"
  shows "s div 60 div 60 * 3600 + s div 60 mod 60 * 60 + s mod 60 = s" "0 \<le> s div 60 div 60"
    "s div 60 div 60 < 24"
proof -
  have "s div 60 = s div 60 div 60 * 60 + s div 60 mod 60" "s = s div 60 * 60 + s mod 60" by simp_all
  then show "s div 60 div 60 * 3600 + s div 60 mod 60 * 60 + s mod 60 = s" by linarith
  have "s div 60 div 60 = s div 3600" using zdiv_zmult2_eq [of 60 s 60] by simp
  moreover have "s div 3600 < 24" using assms(2) by (simp add: div_less_iff_less_mult)
  moreover have "0 \<le> s div 3600" using assms(1) by (simp add: pos_imp_zdiv_nonneg_iff)
  ultimately show "0 \<le> s div 60 div 60" "s div 60 div 60 < 24" by simp_all
qed

lemma julian_at:
  assumes "first_second \<le> t"
  shows "julian (ymd (-4799) 1 1) \<le> t div kSecondsPerDay + kJulianDayOf1970_01_01"
proof -
  let ?d = "julian (ymd (-4799) 1 1) - kJulianDayOf1970_01_01"
  have "?d * 86400 \<le> t" using assms by (simp add: first_second_def kSecondsPerDay_def)
  from zdiv_mono1 [OF this, of 86400] have "?d \<le> t div 86400" by simp
  then show ?thesis by (simp add: kSecondsPerDay_def)
qed

lemma fromUtcTime_toUtcTime:
  assumes "first_second \<le> t"
  shows "fromUtcTime (toUtcTime t yday) = t"
proof -
  let ?j = "t div kSecondsPerDay + kJulianDayOf1970_01_01"
  let ?s = "t mod kSecondsPerDay"
  have "julian (getYearMonthDay ?j) = ?j" by (rule julian_of_date(2) [OF julian_at [OF assms]])
  moreover have "0 \<le> ?s" "?s < 86400" by (simp_all add: kSecondsPerDay_def)
  ultimately have "fromUtcTime (toUtcTime t yday) =
      (?j - kJulianDayOf1970_01_01) * kSecondsPerDay + ?s"
    using hms_parts(1) [of ?s]
    by (simp add: toUtcTime_eq utc_tm_def fromUtcTime_def fromUtcFields_def julian_def Let_def)
  then show ?thesis by simp
qed

lemma fromUtcTime_fields:
  "fromUtcTime t = fromUtcTime u"
  if "tm_year t = tm_year u" "tm_mon t = tm_mon u" "tm_mday t = tm_mday u" "tm_hour t = tm_hour u"
    "tm_min t = tm_min u" "tm_sec t = tm_sec u"
  using that by (simp add: fromUtcTime_def)

lemma day_of_year:
  assumes "calendar_date d"
  shows "0 \<le> julian d - julian (ymd (ymd_year d) 1 1)" "julian d - julian (ymd (ymd_year d) 1 1) < 366"
proof -
  obtain y m k where d: "d = ymd y m k" by (cases d)
  have y: "- 4800 < y" and m: "1 \<le> m" "m \<le> 12" and k: "1 \<le> k" "k \<le> month_length y m"
    using assms by (simp_all add: d calendar_date_def)
  obtain z where z: "y = z - 4799" "0 \<le> z"
  proof
    show "y = (y + 4799) - 4799" "0 \<le> y + 4799" using y by simp_all
  qed
  have next_year: "year_days (z + 1) = year_days z + (if leap_year (z - 4799) then 366 else 365)"
    by (rule year_days_next [OF z(2)])
  have d': "d = ymd (z - 4799) m k" using d z(1) by simp
  have "0 \<le> julian d - julian (ymd (ymd_year d) 1 1) \<and>
      julian d - julian (ymd (ymd_year d) 1 1) < 366"
    using julian_march(1) [OF m y, of k] julian_march(1) [of 1 y 1] next_year y k m
    unfolding z(1)
    by (cases rule: month_cases [OF m])
      (simp_all add: d' julian_def march_year_def add.commute march_month_def days_before_def month_length_def
        split: if_splits)
  then show "0 \<le> julian d - julian (ymd (ymd_year d) 1 1)"
    "julian d - julian (ymd (ymd_year d) 1 1) < 366" by simp_all
qed

text \<open>
  Local times of a zone: which of its localtimes is in force, and that \<open>fromLocalTime\<close> undoes
  \<open>toLocalTime\<close>, also in the hour that the end of summer time repeats.
\<close>

definition comp_key :: "bool \<Rightarrow> transition \<Rightarrow> int" where
  "comp_key gmt t = (if gmt then gmttime t else localtime t)"

text \<open>The localtime after the first \<open>n\<close> transitions.\<close>

definition local_after :: "zone_data \<Rightarrow> nat \<Rightarrow> local_time" where
  "local_after z n =
     localtimes z ! (if n = 0 then 0 else localtimeIdx (transitions z ! (n - 1)))"

definition zone_ok :: "zone_data \<Rightarrow> bool" where
  "zone_ok z \<longleftrightarrow>
     localtimes z \<noteq> [] \<and> (\<forall>l\<in>set (localtimes z). arrbIdx l \<le> length (zone_names z)) \<and>
     (\<forall>t\<in>set (transitions z). localtimeIdx t < length (localtimes z) \<and>
        localtime t = gmttime t + gmtOffset (localtimes z ! localtimeIdx t)) \<and>
     sorted_wrt (\<lambda>t u. gmttime t < gmttime u) (transitions z) \<and>
     sorted_wrt (\<lambda>t u. localtime t < localtime u) (transitions z)"

definition passed :: "bool \<Rightarrow> zone_data \<Rightarrow> int \<Rightarrow> nat" where
  "passed gmt z s = length (filter (\<lambda>t. comp_key gmt t \<le> s) (transitions z))"

lemma sorted_key: "zone_ok z \<Longrightarrow> sorted_wrt (\<lambda>t u. comp_key gmt t < comp_key gmt u) (transitions z)"
  by (cases gmt) (simp_all add: zone_ok_def comp_key_def)

lemma key_less:
  "zone_ok z \<Longrightarrow> i < j \<Longrightarrow> j < length (transitions z) \<Longrightarrow>
     comp_key gmt (transitions z ! i) < comp_key gmt (transitions z ! j)"
  using sorted_key [of z gmt] by (simp add: sorted_wrt_iff_nth_less)

lemma passed_eq:
  assumes z: "zone_ok z" and n: "n \<le> length (transitions z)"
    and before: "n = 0 \<or> comp_key gmt (transitions z ! (n - 1)) \<le> s"
    and after: "n < length (transitions z) \<Longrightarrow> s < comp_key gmt (transitions z ! n)"
  shows "passed gmt z s = n"
proof -
  let ?ts = "transitions z"
  have "comp_key gmt (?ts ! j) \<le> s" if "j < n" for j
    using before key_less [OF z, of j "n - 1" gmt] that n by (cases "j = n - 1") fastforce+
  then have "filter (\<lambda>t. comp_key gmt t \<le> s) (take n ?ts) = take n ?ts"
    using n by (intro filter_True) (auto simp: in_set_conv_nth)
  moreover have "s < comp_key gmt (?ts ! j)" if "n \<le> j" "j < length ?ts" for j
    using after key_less [OF z, of n j gmt] that by (cases "j = n") fastforce+
  then have "filter (\<lambda>t. comp_key gmt t \<le> s) (drop n ?ts) = []"
    by (auto simp: filter_empty_conv in_set_conv_nth not_le)
  moreover have "filter (\<lambda>t. comp_key gmt t \<le> s) ?ts =
      filter (\<lambda>t. comp_key gmt t \<le> s) (take n ?ts) @ filter (\<lambda>t. comp_key gmt t \<le> s) (drop n ?ts)"
    by (simp flip: filter_append)
  ultimately show ?thesis using n by (simp add: passed_def)
qed

lemma passed_bounds:
  fixes gmt s
  assumes z: "zone_ok z"
  defines "n \<equiv> passed gmt z s"
  shows "n \<le> length (transitions z)"
    and "0 < n \<Longrightarrow> comp_key gmt (transitions z ! (n - 1)) \<le> s"
    and "n < length (transitions z) \<Longrightarrow> s < comp_key gmt (transitions z ! n)"
proof -
  let ?ts = "transitions z"
  let ?n = "length (takeWhile (\<lambda>t. comp_key gmt t \<le> s) ?ts)"
  have le: "?n \<le> length ?ts" by (rule length_takeWhile_le)
  have before: "?n = 0 \<or> comp_key gmt (?ts ! (?n - 1)) \<le> s"
  proof (cases "?n = 0")
    case False
    then have "?n - 1 < ?n" by simp
    then have "takeWhile (\<lambda>t. comp_key gmt t \<le> s) ?ts ! (?n - 1) \<in>
        set (takeWhile (\<lambda>t. comp_key gmt t \<le> s) ?ts)" by (rule nth_mem)
    then show ?thesis using False by (auto simp: takeWhile_nth dest: set_takeWhileD)
  qed simp
  have after: "?n < length ?ts \<Longrightarrow> s < comp_key gmt (?ts ! ?n)"
    using nth_length_takeWhile [of "\<lambda>t. comp_key gmt t \<le> s" ?ts] by simp
  have "n = ?n" unfolding n_def by (rule passed_eq [OF z le before after])
  then show "n \<le> length ?ts" "0 < n \<Longrightarrow> comp_key gmt (?ts ! (n - 1)) \<le> s"
    "n < length ?ts \<Longrightarrow> s < comp_key gmt (?ts ! n)"
    using le before after by auto
qed

lemma local_after_index:
  assumes "zone_ok z" and "n \<le> length (transitions z)"
  shows "(if n = 0 then 0 else localtimeIdx (transitions z ! (n - 1))) < length (localtimes z)"
  using assms by (auto simp: zone_ok_def)

lemma findLocaltime_eq:
  assumes z: "zone_ok z"
  shows "findLocaltime z u gmt = Some (local_after z (passed gmt z (comp_key gmt u)))"
proof -
  let ?ts = "transitions z" and ?s = "comp_key gmt u"
  have less: "comp_less gmt t u \<longleftrightarrow> comp_key gmt t < ?s" "comp_less gmt u t \<longleftrightarrow> ?s < comp_key gmt t"
    "comp_equal gmt u t \<longleftrightarrow> ?s = comp_key gmt t" for t
    by (simp_all add: comp_less_def comp_equal_def comp_key_def)
  have found: "at_index (localtimes z) (if n = 0 then 0 else localtimeIdx (?ts ! (n - 1))) =
      Some (local_after z n)" if "n \<le> length ?ts" for n
    using local_after_index [OF z that] by (simp add: at_index_def local_after_def)
  show ?thesis
  proof (cases "?ts = [] \<or> ?s < comp_key gmt (hd ?ts)")
    case True
    then have "passed gmt z ?s = 0"
      by (intro passed_eq [OF z]) (auto simp: hd_conv_nth)
    then show ?thesis using True found [of 0] by (auto simp: findLocaltime_def less)
  next
    case False
    let ?i = "length (takeWhile (\<lambda>t. comp_key gmt t < ?s) ?ts)"
    have i: "?i \<le> length ?ts" by (rule length_takeWhile_le)
    have before: "comp_key gmt (?ts ! j) < ?s" if "j < ?i" for j
    proof -
      have "takeWhile (\<lambda>t. comp_key gmt t < ?s) ?ts ! j \<in> set (takeWhile (\<lambda>t. comp_key gmt t < ?s) ?ts)"
        by (rule nth_mem [OF that])
      then show ?thesis using that by (auto simp: takeWhile_nth dest: set_takeWhileD)
    qed
    have after: "?i < length ?ts \<Longrightarrow> ?s \<le> comp_key gmt (?ts ! ?i)"
      using nth_length_takeWhile [of "\<lambda>t. comp_key gmt t < ?s" ?ts] by simp
    show ?thesis
    proof (cases "?i < length ?ts \<and> comp_key gmt (?ts ! ?i) = ?s")
      case True
      then have "passed gmt z ?s = Suc ?i"
        using key_less [OF z, of ?i "Suc ?i" gmt] by (intro passed_eq [OF z]) auto
      then show ?thesis
        using False True found [of "Suc ?i"] by (simp add: findLocaltime_def less Let_def)
    next
      case not_equal: False
      have "?i \<noteq> 0"
      proof
        assume "?i = 0"
        then show False using False not_equal after by (auto simp: hd_conv_nth)
      qed
      then have "passed gmt z ?s = ?i"
        using before [of "?i - 1"] after not_equal i by (intro passed_eq [OF z]) auto
      moreover have "last ?ts = ?ts ! (?i - 1)" if "\<not> ?i < length ?ts"
        using False that i by (simp add: last_conv_nth)
      ultimately show ?thesis
        using False not_equal found [OF i] \<open>?i \<noteq> 0\<close>
        by (auto simp: findLocaltime_def less Let_def)
    qed
  qed
qed

text \<open>The local time as it is shown.\<close>

definition local_tm :: "zone_data \<Rightarrow> int \<Rightarrow> tm" where
  "local_tm z s =
     (let l = local_after z (passed True z s) in
      (gmtime (s + gmtOffset l))\<lparr>tm_isdst := (if isDst l then 1 else 0), tm_gmtoff := gmtOffset l,
        tm_zone := c_string_at (zone_names z) (arrbIdx l)\<rparr>)"

lemma local_after_in: "zone_ok z \<Longrightarrow> n \<le> length (transitions z) \<Longrightarrow> local_after z n \<in> set (localtimes z)"
  using local_after_index [of z n] by (auto simp: local_after_def intro!: nth_mem)

lemma toLocalTime_eq:
  assumes z: "zone_ok z"
  shows "toLocalTime z s = Some (local_tm z s)"
proof -
  have "arrbIdx (local_after z (passed True z s)) \<le> length (zone_names z)"
    using local_after_in [OF z passed_bounds(1) [OF z]] z by (simp add: zone_ok_def)
  then show ?thesis
    by (simp add: toLocalTime_def findLocaltime_eq [OF z] comp_key_def local_tm_def Let_def)
qed

text \<open>
  What a zone's transitions may do: move the clock forward, or back by the hour of summer time, with
  more than an hour till the next.
\<close>

definition one_hour_zone :: "zone_data \<Rightarrow> bool" where
  "one_hour_zone z \<longleftrightarrow>
     (\<forall>n < length (transitions z).
        let l = local_after z n; l' = local_after z (n + 1) in
        gmtOffset l \<le> gmtOffset l' \<or>
        isDst l \<and> \<not> isDst l' \<and> gmtOffset l = gmtOffset l' + 3600 \<and>
        (n + 1 < length (transitions z) \<longrightarrow>
           gmttime (transitions z ! n) + 3600 \<le> gmttime (transitions z ! (n + 1))))"

lemma transition_localtime:
  assumes "zone_ok z" and "n < length (transitions z)"
  shows "localtime (transitions z ! n) =
      gmttime (transitions z ! n) + gmtOffset (local_after z (n + 1))"
  using assms by (simp add: zone_ok_def local_after_def)

text \<open>The search by local time finds what was in force, or what follows it by the repeated hour.\<close>

lemma passed_local:
  fixes s
  assumes z: "zone_ok z" and hour: "one_hour_zone z"
  defines "n \<equiv> passed True z s" and "L \<equiv> s + gmtOffset (local_after z (passed True z s))"
  obtains "passed False z L = n"
  | "passed False z L = n + 1" "passed True z (s + 3600) = n + 1"
    "isDst (local_after z n)" "\<not> isDst (local_after z (n + 1))"
    "gmtOffset (local_after z n) = gmtOffset (local_after z (n + 1)) + 3600"
proof -
  let ?ts = "transitions z"
  let ?o = "\<lambda>n. gmtOffset (local_after z n)"
  note n = passed_bounds [OF z, of True s, folded n_def, unfolded comp_key_def if_True]
  have L: "L = s + ?o n" by (simp add: L_def n_def)
  have before: "n = 0 \<or> localtime (?ts ! (n - 1)) \<le> L"
    using n(1,2) transition_localtime [OF z, of "n - 1"] L by (cases "n = 0") auto
  show thesis
  proof (cases "n < length ?ts \<and> localtime (?ts ! n) \<le> L")
    case False
    have "passed False z L = n"
      by (rule passed_eq [OF z n(1)]) (use before False in \<open>auto simp: comp_key_def\<close>)
    then show thesis by (rule that(1))
  next
    case True
    then have lt: "n < length ?ts" and le: "localtime (?ts ! n) \<le> L" by simp_all
    have g: "s < gmttime (?ts ! n)" by (rule n(3) [OF lt])
    have local_n: "localtime (?ts ! n) = gmttime (?ts ! n) + ?o (n + 1)"
      by (rule transition_localtime [OF z lt])
    then have "\<not> ?o n \<le> ?o (n + 1)" using le g L by linarith
    then have fall: "isDst (local_after z n)" "\<not> isDst (local_after z (n + 1))"
        "?o n = ?o (n + 1) + 3600"
        "n + 1 < length ?ts \<Longrightarrow> gmttime (?ts ! n) + 3600 \<le> gmttime (?ts ! (n + 1))"
      using hour lt unfolding one_hour_zone_def Let_def by blast+
    have next_local: "L < localtime (?ts ! (n + 1))" if "n + 1 < length ?ts"
    proof -
      have "?o (n + 1) \<le> ?o (n + 2)"
        using hour that fall(2) unfolding one_hour_zone_def Let_def by fastforce
      then show ?thesis
        using transition_localtime [OF z that] fall(3) fall(4) [OF that] g L by simp
    qed
    have "passed False z L = n + 1"
      by (rule passed_eq [OF z]) (use lt le next_local in \<open>auto simp: comp_key_def\<close>)
    moreover have "passed True z (s + 3600) = n + 1"
      by (rule passed_eq [OF z])
        (use lt le local_n fall(3,4) g L in \<open>auto simp: comp_key_def\<close>)
    ultimately show thesis using that(2) fall(1-3) by blast
  qed
qed

lemma timegm_local_tm:
  assumes "first_second \<le> s + gmtOffset (local_after z (passed True z s))"
  shows "timegm (local_tm z s) = s + gmtOffset (local_after z (passed True z s))"
proof -
  let ?L = "s + gmtOffset (local_after z (passed True z s))"
  have "timegm (local_tm z s) = timegm (gmtime ?L)"
    unfolding timegm_def by (rule fromUtcTime_fields) (simp_all add: local_tm_def Let_def)
  then show ?thesis
    using fromUtcTime_toUtcTime [OF assms] by (simp add: timegm_def gmtime_def)
qed

lemma fromLocalTime_toLocalTime:
  assumes z: "zone_ok z" and hour: "one_hour_zone z"
    and first: "first_second \<le> s + gmtOffset (local_after z (passed True z s))"
  shows "fromLocalTime z (local_tm z s) = Some s"
proof -
  let ?n = "passed True z s"
  let ?L = "s + gmtOffset (local_after z ?n)"
  have L: "timegm (local_tm z s) = ?L" by (rule timegm_local_tm [OF first])
  have dst: "tm_isdst (local_tm z t) = (if isDst (local_after z (passed True z t)) then 1 else 0)" for t
    by (simp add: local_tm_def Let_def)
  show ?thesis
  proof (cases rule: passed_local [OF z hour, of s])
    case 1
    then have "findLocaltime z \<lparr>gmttime = 0, localtime = ?L, localtimeIdx = 0\<rparr> False =
        Some (local_after z ?n)" by (simp add: findLocaltime_eq [OF z] comp_key_def)
    then show ?thesis
      unfolding fromLocalTime_def Let_def L by (simp add: toLocalTime_eq [OF z] dst)
  next
    case 2
    let ?l = "local_after z (?n + 1)"
    have found: "findLocaltime z \<lparr>gmttime = 0, localtime = ?L, localtimeIdx = 0\<rparr> False = Some ?l"
      using 2(1) by (simp add: findLocaltime_eq [OF z] comp_key_def)
    have fall: "?L - gmtOffset ?l = s + 3600" using 2(5) by simp
    have "tm_isdst (local_tm z (s + 3600)) = 0" "tm_isdst (local_tm z s) = 1"
      using 2(2-4) by (simp_all add: dst)
    moreover have "tm_hour (local_tm z (s + 3600)) = tm_hour (local_tm z s)"
      "tm_min (local_tm z (s + 3600)) = tm_min (local_tm z s)"
      using 2(2,5) by (simp_all add: local_tm_def Let_def add.commute add.left_commute)
    ultimately show ?thesis
      unfolding fromLocalTime_def Let_def L found
      using 2(5) by (simp add: fall toLocalTime_eq [OF z])
  qed
qed

end
