(* ===== verification/Time_Theorems.thy ===== *)
theory Time_Theorems
  imports Local_Time
begin

text \<open>The properties of \<open>Date\<close> and \<open>TimeZone\<close>.\<close>

subsection \<open>Zone files\<close>

text \<open>A zone file of the first version, for the data it describes.\<close>

definition be32 :: "int \<Rightarrow> string" where
  "be32 x = host_bytes (HostToNetwork32 (word_of_int x))"

definition put_localtime :: "local_time \<Rightarrow> string" where
  "put_localtime l = be32 (gmtOffset l) @ [if isDst l then CHR 0x01 else NUL, char_of (arrbIdx l)]"

definition zone_file :: "zone_data \<Rightarrow> string" where
  "zone_file z =
     ''TZif'' @ [CHR ''2''] @ replicate 15 NUL @ be32 0 @ be32 0 @ be32 0 @
     be32 (int (length (transitions z))) @ be32 (int (length (localtimes z))) @
     be32 (int (length (zone_names z))) @
     concat (map (be32 \<circ> gmttime) (transitions z)) @
     map (char_of \<circ> localtimeIdx) (transitions z) @
     concat (map put_localtime (localtimes z)) @ zone_names z"

definition int32 :: "int \<Rightarrow> bool" where
  "int32 x \<longleftrightarrow> - (2 ^ 31) \<le> x \<and> x < 2 ^ 31"

definition fits_file :: "zone_data \<Rightarrow> bool" where
  "fits_file z \<longleftrightarrow>
     length (transitions z) < 2 ^ 31 \<and> length (localtimes z) < 2 ^ 31 \<and> length (zone_names z) < 2 ^ 31 \<and>
     (\<forall>t\<in>set (transitions z). int32 (gmttime t) \<and> localtimeIdx t < 256) \<and>
     (\<forall>l\<in>set (localtimes z). int32 (gmtOffset l) \<and> arrbIdx l < 256)"

lemma readInt32_be32: "int32 x \<Longrightarrow> readInt32 (be32 x @ f) = Some (x, f)"
proof -
  assume x: "int32 x"
  have "length (be32 x) = 4" by (simp add: be32_def)
  moreover have "sint (word_of_int x :: 32 word) = x"
    using x by (simp add: int32_def sint_sbintrunc' signed_take_bit_int_eq_self)
  ultimately show ?thesis
    by (simp add: readInt32_def be32_def network_read)
qed

lemma int32_nat: "n < 2 ^ 31 \<Longrightarrow> int32 (int n)"
proof -
  assume "n < 2 ^ 31"
  then have "int n < int (2 ^ 31)" by (simp only: of_nat_less_iff)
  then show ?thesis by (simp add: int32_def)
qed

lemma readUInt8_char: "n < 256 \<Longrightarrow> readUInt8 (char_of n # f) = Some (n, f)"
  by (simp add: readUInt8_def)

lemma read_many_put:
  assumes "\<And>x f. x \<in> set xs \<Longrightarrow> read (put x @ f) = Some (val x, f)"
  shows "read_many read (length xs) (concat (map put xs) @ f) = Some (map val xs, f)"
  using assms by (induction xs) simp_all

lemma read_localtimes_put:
  assumes "\<And>l. l \<in> set ls \<Longrightarrow> int32 (gmtOffset l) \<and> arrbIdx l < 256"
  shows "read_localtimes (length ls) (concat (map put_localtime ls) @ f) = (ls, Some f)"
  using assms
proof (induction ls)
  case (Cons l ls)
  have "read_localtime (put_localtime l @ g) = Some (l, g)" for g
    using Cons.prems [of l]
    by (simp add: read_localtime_def put_localtime_def readInt32_be32 readUInt8_char)
      (simp add: readUInt8_def)
  then show ?case using Cons by simp
qed simp

lemma make_transitions_ok:
  assumes "\<And>t. t \<in> set ts \<Longrightarrow> localtimeIdx t < length ls \<and>
      localtime t = gmttime t + gmtOffset (ls ! localtimeIdx t)"
  shows "make_transitions (map gmttime ts) (map localtimeIdx ts) ls = Some ts"
  using assms
proof (induction ts)
  case (Cons t ts)
  have "\<lparr>gmttime = gmttime t, localtime = gmttime t + gmtOffset (ls ! localtimeIdx t),
      localtimeIdx = localtimeIdx t\<rparr> = t"
    using Cons.prems [of t] by (cases t) simp
  then show ?case using Cons by (simp add: make_transitions_def at_index_def)
qed (simp add: make_transitions_def)

lemma read_head_file:
  assumes "fits_file z"
  shows "read_head (zone_file z) = Some (\<lparr>timecnt = int (length (transitions z)),
      typecnt = int (length (localtimes z)), charcnt = int (length (zone_names z))\<rparr>,
      concat (map (be32 \<circ> gmttime) (transitions z)) @ map (char_of \<circ> localtimeIdx) (transitions z) @
      concat (map put_localtime (localtimes z)) @ zone_names z)"
proof -
  have counts: "int32 0" "int32 (int (length (transitions z)))"
    "int32 (int (length (localtimes z)))" "int32 (int (length (zone_names z)))"
    using assms int32_nat by (auto simp: fits_file_def int32_def)
  have "readBytes 15 (replicate 15 NUL @ f) = Some (replicate 15 NUL, f)" for f
    by (simp add: readBytes_def)
  moreover have "readBytes 4 (''TZif'' @ f) = Some (''TZif'', f)" for f
    by (simp add: readBytes_def)
  moreover have "readBytes 1 ([CHR ''2''] @ f) = Some ([CHR ''2''], f)" for f
    by (simp add: readBytes_def)
  ultimately show ?thesis
    unfolding read_head_def zone_file_def
    by (simp only: bind.bind_lunit prod.case not_True_eq_False if_False readInt32_be32 [OF counts(1)]
        readInt32_be32 [OF counts(2)] readInt32_be32 [OF counts(3)] readInt32_be32 [OF counts(4)]
        simp_thms)
qed

lemma read_zone_file:
  assumes ok: "zone_ok z" and fits: "fits_file z"
  shows "read_zone_data (zone_file z) = Some z"
proof -
  have gmts: "read_many readInt32 (length (transitions z))
      (concat (map (be32 \<circ> gmttime) (transitions z)) @ f) = Some (map gmttime (transitions z), f)" for f
    by (rule read_many_put) (use fits in \<open>auto simp: fits_file_def readInt32_be32\<close>)
  have "read_many readUInt8 (length (transitions z))
      (concat (map (\<lambda>t. [char_of (localtimeIdx t)]) (transitions z)) @ f) =
      Some (map localtimeIdx (transitions z), f)" for f
    by (rule read_many_put) (use fits in \<open>auto simp: fits_file_def readUInt8_char\<close>)
  then have idxs: "read_many readUInt8 (length (transitions z))
      (map (char_of \<circ> localtimeIdx) (transitions z) @ f) =
      Some (map localtimeIdx (transitions z), f)" for f
    by (simp add: comp_def concat_map_singleton)
  have locals: "read_localtimes (length (localtimes z))
      (concat (map put_localtime (localtimes z)) @ f) = (localtimes z, Some f)" for f
    using fits by (intro read_localtimes_put) (simp add: fits_file_def)
  have ts: "make_transitions (map gmttime (transitions z)) (map localtimeIdx (transitions z))
      (localtimes z) = Some (transitions z)"
    using ok by (intro make_transitions_ok) (simp add: zone_ok_def)
  show ?thesis
    by (simp add: read_zone_data_def read_head_file [OF fits] gmts idxs locals ts readBytes_def)
qed

subsection \<open>The properties\<close>

text \<open>The arithmetic of \<open>Date\<close> is the calendar: a date is got back from its Julian day number, the
  number of the next day is the next number and its week day the next week day, and from the first
  day of the calendar on every number is the number of a date, which is what \<open>getYearMonthDay\<close> gives.
\<close>

theorem julian_day_numbers:
  assumes "calendar_date d" and "julian (ymd (-4799) 1 1) \<le> j"
  shows "getYearMonthDay (julian d) = d \<and> julian (next_date d) = julian d + 1 \<and>
    (0 \<le> julian d \<longrightarrow> weekDay (julian (next_date d)) = (weekDay (julian d) + 1) mod 7) \<and>
    calendar_date (getYearMonthDay j) \<and> julian (getYearMonthDay j) = j"
proof -
  have "weekDay (julian d + 1) = (weekDay (julian d) + 1) mod 7" if "0 \<le> julian d"
    using that by (simp add: weekDay_def kDaysPerWeek_def smod_int_alt_def mod_simps)
  then show ?thesis
    using date_of_julian [OF assms(1)] julian_next [OF assms(1)] julian_of_date [OF assms(2)] by simp
qed

theorem julian_day_numbers_witness:
  "getYearMonthDay (julian (ymd 2000 2 29)) = ymd 2000 2 29 \<and>
   next_date (ymd 2000 2 29) = ymd 2000 3 1 \<and> weekDay kJulianDayOf1970_01_01 = 4"
proof -
  have "calendar_date (ymd 2000 2 29)" by (simp add: calendar_date_def month_length_def leap_year_def)
  from julian_day_numbers [OF this order_refl] show ?thesis
    by (simp add: next_date_def month_length_def leap_year_def Let_def julian_epoch weekDay_def
        kDaysPerWeek_def smod_int_alt_def)
qed

text \<open>\<open>fromUtcTime\<close> undoes \<open>toUtcTime\<close> for every second of the calendar, and the broken-down time
  has its fields in range: hours, minutes and seconds, a date of the calendar, and the day of the
  year.
\<close>

theorem utc_time_roundtrip:
  assumes "first_second \<le> t"
  shows "fromUtcTime (toUtcTime t yday) = t \<and>
    calendar_date (ymd (tm_year (toUtcTime t yday) + 1900) (tm_mon (toUtcTime t yday) + 1)
      (tm_mday (toUtcTime t yday))) \<and>
    0 \<le> tm_hour (toUtcTime t yday) \<and> tm_hour (toUtcTime t yday) < 24 \<and>
    0 \<le> tm_min (toUtcTime t yday) \<and> tm_min (toUtcTime t yday) < 60 \<and>
    0 \<le> tm_sec (toUtcTime t yday) \<and> tm_sec (toUtcTime t yday) < 60 \<and>
    0 \<le> tm_yday (toUtcTime t yday) \<and> tm_yday (toUtcTime t yday) < 366"
proof -
  let ?j = "t div kSecondsPerDay + kJulianDayOf1970_01_01"
  have cal: "calendar_date (getYearMonthDay ?j)" "julian (getYearMonthDay ?j) = ?j"
    by (rule julian_of_date [OF julian_at [OF assms]])+
  have "0 \<le> ?j - getJulianDayNumber (ymd_year (getYearMonthDay ?j)) 1 1"
    "?j - getJulianDayNumber (ymd_year (getYearMonthDay ?j)) 1 1 < 366"
    using day_of_year [OF cal(1)] cal(2) by (simp_all add: julian_def)
  moreover have eta: "ymd (ymd_year d) (ymd_month d) (ymd_day d) = d" for d by simp
  moreover have "0 \<le> t mod kSecondsPerDay" "t mod kSecondsPerDay < 86400"
    by (simp_all add: kSecondsPerDay_def)
  note hms_parts(2,3) [OF this]
  ultimately show ?thesis
    using fromUtcTime_toUtcTime [OF assms] cal(1) by (simp add: toUtcTime_eq utc_tm_def Let_def eta)
qed

theorem utc_time_roundtrip_witness: "fromUtcTime (toUtcTime (-1) True) = -1"
proof -
  have "first_second \<le> -1" by (simp add: first_second_def julian_epoch kSecondsPerDay_def)
  from utc_time_roundtrip [OF this] show ?thesis by blast
qed

text \<open>A zone with one summer time, for the examples.\<close>

definition summer_zone :: zone_data where
  "summer_zone =
     \<lparr>transitions = [\<lparr>gmttime = 1000000, localtime = 1007200, localtimeIdx = 1\<rparr>,
                     \<lparr>gmttime = 2000000, localtime = 2003600, localtimeIdx = 0\<rparr>],
      localtimes = [\<lparr>gmtOffset = 3600, isDst = False, arrbIdx = 0\<rparr>,
                    \<lparr>gmtOffset = 7200, isDst = True, arrbIdx = 4\<rparr>],
      zone_names = ''CET'' @ [NUL] @ ''CEST'' @ [NUL]\<rparr>"

lemma all_less_two: "(\<forall>n < Suc (Suc 0). P n) \<longleftrightarrow> P 0 \<and> P (Suc 0)"
  by (auto simp: less_Suc_eq)

lemma summer_zone_ok: "zone_ok summer_zone" "one_hour_zone summer_zone" "fits_file summer_zone"
  by (simp_all add: zone_ok_def one_hour_zone_def summer_zone_def local_after_def fits_file_def
      int32_def all_less_two)

text \<open>C24: for well-formed zone data (transitions in the order of their seconds and of their local times), in
  which the clock goes back only at the end of summer time, then by exactly one hour, and with the next
  transition an hour later or more, \<open>fromLocalTime\<close> undoes \<open>toLocalTime\<close> for every second from the first of the calendar on,
  the hour that is shown twice included, because \<open>tm_isdst\<close> tells the two apart. (Zones whose clock
  has gone back in another way, as that of London in 1971 between two times of the same \<open>tm_isdst\<close>, are not
  covered: there two seconds have one local time.)
\<close>

theorem local_time_roundtrip:
  assumes "zone_ok z" and "one_hour_zone z"
    and "\<And>l. l \<in> set (localtimes z) \<Longrightarrow> first_second \<le> s + gmtOffset l"
  shows "\<exists>tm. toLocalTime z s = Some tm \<and> fromLocalTime z tm = Some s"
proof -
  have "local_after z (passed True z s) \<in> set (localtimes z)"
    by (rule local_after_in [OF assms(1) passed_bounds(1) [OF assms(1)]])
  then show ?thesis
    using toLocalTime_eq [OF assms(1)] fromLocalTime_toLocalTime [OF assms(1,2)] assms(3) by blast
qed

theorem local_time_roundtrip_witness:
  "\<exists>tm. toLocalTime summer_zone 1999000 = Some tm \<and> fromLocalTime summer_zone tm = Some 1999000"
proof -
  have "first_second \<le> 1999000 + gmtOffset l" if "l \<in> set (localtimes summer_zone)" for l
    using that by (auto simp: summer_zone_def first_second_def julian_epoch kSecondsPerDay_def)
  from local_time_roundtrip [OF summer_zone_ok(1,2) this] show ?thesis .
qed

text \<open>C25: reading a zone file gives back the transitions, localtimes and names it was written from.
\<close>

theorem zone_file_roundtrip:
  assumes "zone_ok z" and "fits_file z"
  shows "readTimeZoneFile (Some (zone_file z)) = Some (True, z)"
  by (simp add: readTimeZoneFile_def read_zone_file [OF assms])

theorem zone_file_roundtrip_witness:
  "readTimeZoneFile (Some (zone_file summer_zone)) = Some (True, summer_zone)"
  by (rule zone_file_roundtrip [OF summer_zone_ok(1,3)])

text \<open>A zone file that cannot be opened, is too short for its counts or has another head still gives
  a valid zone, without localtimes; a conversion with it reads the first element of an empty vector.
\<close>

theorem unreadable_zone:
  assumes "zonefile = None \<or> (\<exists>f. zonefile = Some f \<and> read_head f = None)"
  shows "TimeZone_of_file zonefile = Some (Some empty_zone) \<and> toLocalTime empty_zone s = None \<and>
    fromLocalTime empty_zone tm = None"
proof -
  have "findLocaltime empty_zone u gmt = None" for u gmt
    by (simp add: findLocaltime_def empty_zone_def at_index_def)
  then have "toLocalTime empty_zone s = None" "fromLocalTime empty_zone tm = None"
    by (simp_all add: toLocalTime_def fromLocalTime_def)
  moreover have "readTimeZoneFile zonefile = Some (True, empty_zone)"
    using assms by (cases zonefile) (simp_all add: readTimeZoneFile_def read_zone_data_def)
  ultimately show ?thesis by (simp add: TimeZone_of_file_def)
qed

theorem unreadable_zone_witness:
  "TimeZone_of_file (Some ''not a zone'') = Some (Some empty_zone) \<and> toLocalTime empty_zone 0 = None"
proof -
  have "readBytes 4 ''not a zone'' = Some (''not '', ''a zone'')" by (simp add: readBytes_def)
  then have "read_head ''not a zone'' = None" by (simp add: read_head_def)
  then have "Some ''not a zone'' = None \<or> (\<exists>f. Some ''not a zone'' = Some f \<and> read_head f = None)"
    by blast
  from unreadable_zone [OF this] show ?thesis by blast
qed

end
