(* ===== verification/Log_Stream.thy ===== *)
theory Log_Stream
  imports Muduo_Prelude "HOL-Library.Signed_Division" "HOL-Library.Sublist"
begin

text \<open>
  \<open>FixedBuffer\<close> and \<open>LogStream\<close> of \<^verbatim>\<open>muduo/base/LogStream.h\<close> and \<^verbatim>\<open>LogStream.cc\<close>:
  the buffer a log line is put together in. Only the bytes before \<open>cur_\<close> are modelled. An integer of
  any width is its value; the text of a \<open>double\<close>, which \<open>snprintf\<close> makes, is given with the item.
\<close>

subsection \<open>Integers to text\<close>

definition digits_table :: string where "digits_table = ''9876543210123456789''"

text \<open>\<open>zero[lsd]\<close>: the table is entered in the middle, and the remainder may be negative.\<close>

definition zero_at :: "int \<Rightarrow> char" where
  "zero_at lsd = digits_table ! nat (9 + lsd)"

function convert_digits :: "int \<Rightarrow> string" where
  "convert_digits i =
     zero_at (i smod 10) # (if i sdiv 10 \<noteq> 0 then convert_digits (i sdiv 10) else [])"
  by pat_completeness auto
termination
proof (relation "measure (\<lambda>i. nat \<bar>i\<bar>)")
  fix i :: int assume "i sdiv 10 \<noteq> 0"
  then have i: "\<bar>i\<bar> div 10 \<noteq> 0" by (auto simp: signed_divide_int_def)
  have "\<bar>i sdiv 10\<bar> = \<bar>i\<bar> div 10"
    by (simp add: signed_divide_int_def abs_mult pos_imp_zdiv_nonneg_iff abs_sgn_eq) auto
  then show "(i sdiv 10, i) \<in> measure (\<lambda>i. nat \<bar>i\<bar>)" using i by auto
qed simp

definition convert :: "int \<Rightarrow> string" where
  "convert value = rev (convert_digits value @ (if value < 0 then ''-'' else []))"

definition digitsHex :: string where "digitsHex = ''0123456789ABCDEF''"

fun convert_hex_digits :: "nat \<Rightarrow> string" where
  "convert_hex_digits i =
     digitsHex ! (i mod 16) # (if i div 16 \<noteq> 0 then convert_hex_digits (i div 16) else [])"

definition convertHex :: "64 word \<Rightarrow> string" where
  "convertHex value = rev (convert_hex_digits (unat value))"

declare convert_digits.simps [simp del] convert_hex_digits.simps [simp del]

subsection \<open>The buffer\<close>

record fixed_buffer =
  fb_size :: nat
  fb_text :: string

definition kSmallBuffer :: nat where "kSmallBuffer = 4000"
definition kLargeBuffer :: nat where "kLargeBuffer = 4000 * 1000"

definition new_fixed_buffer :: "nat \<Rightarrow> fixed_buffer" where
  "new_fixed_buffer n = \<lparr>fb_size = n, fb_text = []\<rparr>"

definition avail :: "fixed_buffer \<Rightarrow> nat" where
  "avail b = fb_size b - length (fb_text b)"

definition fb_append :: "string \<Rightarrow> fixed_buffer \<Rightarrow> fixed_buffer" where
  "fb_append s b = (if length s < avail b then b\<lparr>fb_text := fb_text b @ s\<rparr> else b)"

definition fb_reset :: "fixed_buffer \<Rightarrow> fixed_buffer" where
  "fb_reset b = b\<lparr>fb_text := []\<rparr>"

subsection \<open>The stream\<close>

definition kMaxNumericSize :: nat where "kMaxNumericSize = 32"

datatype log_item =
    Log_bool bool | Log_integer int | Log_pointer "64 word" | Log_double string
  | Log_char char | Log_cstring "string option" | Log_string string

definition formatInteger :: "int \<Rightarrow> fixed_buffer \<Rightarrow> fixed_buffer" where
  "formatInteger v b =
     (if kMaxNumericSize \<le> avail b then b\<lparr>fb_text := fb_text b @ convert v\<rparr> else b)"

text \<open>The operators for the eight integer types: the short ones go through \<open>int\<close>.\<close>

definition log_integer :: "int \<Rightarrow> fixed_buffer \<Rightarrow> fixed_buffer" where
  "log_integer v = formatInteger v"

definition log_pointer :: "64 word \<Rightarrow> fixed_buffer \<Rightarrow> fixed_buffer" where
  "log_pointer v b =
     (if kMaxNumericSize \<le> avail b then b\<lparr>fb_text := fb_text b @ ''0x'' @ convertHex v\<rparr> else b)"

definition log_double :: "string \<Rightarrow> fixed_buffer \<Rightarrow> fixed_buffer" where
  "log_double s b =
     (if kMaxNumericSize \<le> avail b then b\<lparr>fb_text := fb_text b @ s\<rparr> else b)"

fun log_put :: "log_item \<Rightarrow> fixed_buffer \<Rightarrow> fixed_buffer" where
  "log_put (Log_bool v) b = fb_append (if v then ''1'' else ''0'') b"
| "log_put (Log_integer v) b = log_integer v b"
| "log_put (Log_pointer v) b = log_pointer v b"
| "log_put (Log_double s) b = log_double s b"
| "log_put (Log_char c) b = fb_append [c] b"
| "log_put (Log_cstring s) b = fb_append (case s of None \<Rightarrow> ''(null)'' | Some t \<Rightarrow> t) b"
| "log_put (Log_string s) b = fb_append s b"

definition log_all :: "log_item list \<Rightarrow> fixed_buffer \<Rightarrow> fixed_buffer" where
  "log_all items b = fold log_put items b"

subsection \<open>The conversions are the decimal and hexadecimal texts\<close>

lemma zero_at_digit:
  assumes "\<bar>d\<bar> < 10"
  shows "zero_at d = digit_char (nat \<bar>d\<bar>)"
proof -
  have "nat \<bar>d\<bar> < 10" using assms by simp
  then have "nat \<bar>d\<bar> \<in> {0, 1, 2, 3, 4, 5, 6, 7, 8, 9}" by (rule below_ten)
  moreover have "d = int (nat \<bar>d\<bar>) \<or> d = - int (nat \<bar>d\<bar>)" by auto
  ultimately have "\<exists>k \<in> {0, 1, 2, 3, 4, 5, 6, 7, 8, 9 :: nat}. d = int k \<or> d = - int k" by blast
  then show ?thesis
    by (elim bexE insertE emptyE disjE)
      (simp_all add: zero_at_def digits_table_def digit_char_def)
qed

lemma abs_sdiv_10: "nat \<bar>(i :: int) sdiv 10\<bar> = nat \<bar>i\<bar> div 10"
proof -
  have "\<bar>i sdiv 10\<bar> = \<bar>i\<bar> div 10"
    by (simp add: signed_divide_int_def abs_mult pos_imp_zdiv_nonneg_iff abs_sgn_eq) auto
  then show ?thesis by (simp add: nat_div_distrib)
qed

lemma abs_smod_10: "\<bar>i smod 10\<bar> = \<bar>i :: int\<bar> mod 10"
proof (cases "0 \<le> i")
  case True
  then show ?thesis
    by (cases "i = 0") (simp_all add: signed_modulo_int_def signed_divide_int_def minus_div_mult_eq_mod)
next
  case False
  then have "i smod 10 = - ((- i) mod 10)"
    by (simp add: signed_modulo_int_def signed_divide_int_def minus_div_mult_eq_mod [symmetric])
  then show ?thesis using False by simp
qed

lemma convert_digits_decimal: "convert_digits i = rev (decimal (nat \<bar>i\<bar>))"
proof (induction i rule: convert_digits.induct)
  case (1 i)
  let ?n = "nat \<bar>i\<bar>"
  have "\<bar>i smod 10\<bar> < 10" by (simp add: abs_smod_10)
  then have digit: "zero_at (i smod 10) = digit_char (?n mod 10)"
    using zero_at_digit [of "i smod 10"] by (simp add: abs_smod_10 nat_mod_distrib)
  show ?case
  proof (cases "?n < 10")
    case True
    then have "nat \<bar>i sdiv 10\<bar> = 0" by (simp add: abs_sdiv_10)
    then have "i sdiv 10 = 0" by simp
    then have "convert_digits i = [zero_at (i smod 10)]" by (subst convert_digits.simps) simp
    then show ?thesis using True digit by (subst decimal.simps) simp
  next
    case False
    then have "nat \<bar>i sdiv 10\<bar> \<noteq> 0" by (simp add: abs_sdiv_10 div_eq_0_iff)
    then have "i sdiv 10 \<noteq> 0" by auto
    then show ?thesis
      using False 1 digit by (subst convert_digits.simps, subst decimal.simps) (simp add: abs_sdiv_10)
  qed
qed

lemma convert_int_text: "convert i = int_text i"
  by (simp add: convert_def convert_digits_decimal int_text_def)

text \<open>The value of a hexadecimal text.\<close>

definition hex_char_value :: "char \<Rightarrow> nat" where
  "hex_char_value c = (if c \<le> CHR ''9'' then of_char c - 48 else of_char c - 55)"

definition hex_text_value :: "string \<Rightarrow> nat" where
  "hex_text_value s = foldl (\<lambda>v c. v * 16 + hex_char_value c) 0 s"

lemma hex_digit_value:
  assumes "d < 16"
  shows "hex_char_value (digitsHex ! d) = d"
proof -
  have "d \<in> {0, 1, 2, 3, 4, 5, 6, 7, 8, 9, 10, 11, 12, 13, 14, 15}"
    using assms unfolding insert_iff empty_iff by presburger
  then show ?thesis
    by (elim insertE emptyE) (simp_all add: digitsHex_def hex_char_value_def less_eq_char_def)
qed

lemma hex_text_value_digits: "hex_text_value (rev (convert_hex_digits n)) = n"
proof (induction n rule: convert_hex_digits.induct)
  case (1 n)
  have d: "hex_char_value (digitsHex ! (n mod 16)) = n mod 16" by (rule hex_digit_value) simp
  show ?case
  proof (cases "n div 16 = 0")
    case True
    then show ?thesis
      using d by (subst convert_hex_digits.simps) (simp add: hex_text_value_def)
  next
    case False
    from 1 [OF False] have "hex_text_value (rev (convert_hex_digits n)) = n div 16 * 16 + n mod 16"
      using d False by (subst convert_hex_digits.simps) (simp add: hex_text_value_def)
    then show ?thesis by simp
  qed
qed

lemma convertHex_value: "hex_text_value (convertHex w) = unat w"
  by (simp add: convertHex_def hex_text_value_digits)

lemma hex_digits_length: "n < 16 ^ k \<Longrightarrow> 0 < k \<Longrightarrow> length (convert_hex_digits n) \<le> k"
proof (induction k arbitrary: n)
  case (Suc k)
  show ?case
  proof (cases "n div 16 = 0")
    case True
    then show ?thesis by (subst convert_hex_digits.simps) simp
  next
    case False
    have "n div 16 < 16 ^ k" using Suc.prems(1) by (simp add: less_mult_imp_div_less)
    moreover have "0 < k" using False calculation by (cases k) auto
    ultimately have "length (convert_hex_digits (n div 16)) \<le> k" by (rule Suc.IH)
    then show ?thesis by (subst convert_hex_digits.simps) simp
  qed
qed simp

lemma convertHex_length: "length (convertHex w) \<le> 16"
  using hex_digits_length [of "unat w" 16] unsigned_less [of w, where 'a = nat]
  by (simp add: convertHex_def)

subsection \<open>Items are written whole or not at all\<close>

fun log_text :: "log_item \<Rightarrow> string" where
  "log_text (Log_bool v) = (if v then ''1'' else ''0'')"
| "log_text (Log_integer v) = int_text v"
| "log_text (Log_pointer v) = ''0x'' @ convertHex v"
| "log_text (Log_double s) = s"
| "log_text (Log_char c) = [c]"
| "log_text (Log_cstring s) = (case s of None \<Rightarrow> ''(null)'' | Some t \<Rightarrow> t)"
| "log_text (Log_string s) = s"

fun log_item_ok :: "log_item \<Rightarrow> bool" where
  "log_item_ok (Log_integer v) \<longleftrightarrow> - (2 ^ 63) \<le> v \<and> v < 2 ^ 64"
| "log_item_ok (Log_double s) \<longleftrightarrow> length s < kMaxNumericSize"
| "log_item_ok _ \<longleftrightarrow> True"

fun is_numeric :: "log_item \<Rightarrow> bool" where
  "is_numeric (Log_integer v) \<longleftrightarrow> True"
| "is_numeric (Log_pointer v) \<longleftrightarrow> True"
| "is_numeric (Log_double s) \<longleftrightarrow> True"
| "is_numeric _ \<longleftrightarrow> False"

definition log_room :: "log_item \<Rightarrow> fixed_buffer \<Rightarrow> bool" where
  "log_room it b \<longleftrightarrow>
     (if is_numeric it then kMaxNumericSize \<le> avail b else length (log_text it) < avail b)"

lemma log_put_text:
  "log_put it b = (if log_room it b then b\<lparr>fb_text := fb_text b @ log_text it\<rparr> else b)"
  by (cases it)
    (simp_all add: log_room_def fb_append_def formatInteger_def log_integer_def log_pointer_def
      log_double_def
      convert_int_text)

lemma numeric_short: "is_numeric it \<Longrightarrow> log_item_ok it \<Longrightarrow> length (log_text it) < kMaxNumericSize"
proof (cases it)
  case (Log_integer v)
  assume "log_item_ok it"
  then have "- (2 ^ 63) \<le> v" "v < 2 ^ 64" using Log_integer by simp_all
  then have "\<bar>v\<bar> < 10 ^ 20" by (auto simp: abs_less_iff)
  from int_text_length [OF this] show ?thesis using Log_integer by (simp add: kMaxNumericSize_def)
next
  case (Log_pointer w)
  then show ?thesis using convertHex_length [of w] by (simp add: kMaxNumericSize_def)
qed (simp_all add: kMaxNumericSize_def)

lemma log_put_inside:
  assumes "log_item_ok it" and "length (fb_text b) < fb_size b"
  shows "length (fb_text (log_put it b)) < fb_size (log_put it b)"
  using assms numeric_short [of it] by (auto simp: log_put_text log_room_def avail_def)

lemma log_room_enough:
  assumes "length (fb_text b) + length (log_text it) + kMaxNumericSize \<le> fb_size b"
  shows "log_room it b"
  using assms by (auto simp: log_room_def avail_def kMaxNumericSize_def)

lemma log_all_inside:
  "list_all log_item_ok items \<Longrightarrow> length (fb_text b) < fb_size b \<Longrightarrow>
     fb_size (log_all items b) = fb_size b \<and> length (fb_text (log_all items b)) < fb_size b"
proof (induction items arbitrary: b)
  case (Cons it items)
  have "fb_size (log_put it b) = fb_size b" by (simp add: log_put_text)
  with Cons.IH [of "log_put it b"] Cons.prems log_put_inside [of it b] show ?case
    by (simp add: log_all_def)
qed (simp add: log_all_def)

lemma log_all_subseq:
  "\<exists>ts. fb_text (log_all items b) = fb_text b @ concat ts \<and> subseq ts (map log_text items)"
proof (induction items arbitrary: b)
  case Nil
  show ?case by (rule exI [of _ "[]"]) (simp add: log_all_def)
next
  case (Cons it items)
  obtain ts where ts: "fb_text (log_all items (log_put it b)) = fb_text (log_put it b) @ concat ts"
    "subseq ts (map log_text items)" using Cons.IH by blast
  show ?case
  proof (cases "log_room it b")
    case True
    with ts show ?thesis
      by (intro exI [of _ "log_text it # ts"]) (simp add: log_all_def log_put_text)
  next
    case False
    with ts show ?thesis
      by (intro exI [of _ ts]) (simp add: log_all_def log_put_text list_emb_Cons)
  qed
qed

lemma log_all_enough:
  "length (fb_text b) + length (concat (map log_text items)) + kMaxNumericSize \<le> fb_size b \<Longrightarrow>
     fb_text (log_all items b) = fb_text b @ concat (map log_text items)"
proof (induction items arbitrary: b)
  case (Cons it items)
  have "log_room it b" using Cons.prems by (intro log_room_enough) simp
  then have "log_put it b = b\<lparr>fb_text := fb_text b @ log_text it\<rparr>" by (simp add: log_put_text)
  with Cons show ?case by (simp add: log_all_def)
qed (simp add: log_all_def)

end
