(* ===== verification/Async_Logging.thy ===== *)
theory Async_Logging
  imports Muduo_Prelude Log_Stream
begin

text \<open>
  \<open>LogFile\<close> of \<^verbatim>\<open>muduo/base/LogFile.cc\<close>: a log that goes on in a new file when the old one
  is too long or the day is over. A file is the time it was opened at, which gives its name, and
  its bytes; the newest comes first. What \<open>time(NULL)\<close> returns is given with each call, as a number
  of seconds that is not negative. \<open>lf_flushed\<close> counts the bytes of the newest file that
  have been flushed. \<open>None\<close> is the use of a file that was never opened. Then \<open>AsyncLogging\<close> of
  \<^verbatim>\<open>muduo/base/AsyncLogging.cc\<close>: threads that append and one that writes, step by step.
\<close>

definition kRollPerSeconds :: int where "kRollPerSeconds = 60 * 60 * 24"

record log_file =
  lf_rollSize :: nat
  lf_flushInterval :: int
  lf_checkEveryN :: int
  lf_count :: int
  lf_startOfPeriod :: int
  lf_lastRoll :: int
  lf_lastFlush :: int
  lf_files :: "(int \<times> string) list"
  lf_flushed :: nat

definition rollFile :: "int \<Rightarrow> log_file \<Rightarrow> bool \<times> log_file" where
  "rollFile now lf =
     (let start = now div kRollPerSeconds * kRollPerSeconds in
      if now > lf_lastRoll lf
      then (True, lf\<lparr>lf_lastRoll := now, lf_lastFlush := now, lf_startOfPeriod := start,
                     lf_files := (now, []) # lf_files lf, lf_flushed := 0\<rparr>)
      else (False, lf))"

text \<open>The constructor, with a name that must not contain a slash.\<close>

definition new_log_file ::
  "string \<Rightarrow> nat \<Rightarrow> int \<Rightarrow> int \<Rightarrow> int \<Rightarrow> log_file option" where
  "new_log_file basename rollSize flushInterval checkEveryN now = do {
     C_assert (CHR ''/'' \<notin> set basename);
     Some (snd (rollFile now
       \<lparr>lf_rollSize = rollSize, lf_flushInterval = flushInterval, lf_checkEveryN = checkEveryN,
        lf_count = 0, lf_startOfPeriod = 0, lf_lastRoll = 0, lf_lastFlush = 0, lf_files = [],
        lf_flushed = 0\<rparr>))
   }"

definition flush_file :: "log_file \<Rightarrow> log_file option" where
  "flush_file lf =
     (case lf_files lf of
        [] \<Rightarrow> None
      | (t, s) # older \<Rightarrow> Some (lf\<lparr>lf_flushed := length s\<rparr>))"

text \<open>
  \<open>append_unlocked\<close>; \<open>now\<close> is the first time that is asked for, \<open>now'\<close> the time that \<open>rollFile\<close> asks
  for when a new day has begun.
\<close>

definition append_unlocked :: "string \<Rightarrow> int \<times> int \<Rightarrow> log_file \<Rightarrow> log_file option" where
  "append_unlocked logline clock lf =
     (case (lf_files lf, clock) of
        ([], _) \<Rightarrow> None
      | ((t, s) # older, (now, now')) \<Rightarrow>
          let lf1 = lf\<lparr>lf_files := (t, s @ logline) # older\<rparr> in
          if length (s @ logline) > lf_rollSize lf1 then Some (snd (rollFile now lf1))
          else
            let lf2 = lf1\<lparr>lf_count := lf_count lf1 + 1\<rparr> in
            if lf_count lf2 \<ge> lf_checkEveryN lf2 then
              let lf3 = lf2\<lparr>lf_count := 0\<rparr>;
                  thisPeriod = now div kRollPerSeconds * kRollPerSeconds in
              if thisPeriod \<noteq> lf_startOfPeriod lf3 then Some (snd (rollFile now' lf3))
              else if now - lf_lastFlush lf3 > lf_flushInterval lf3
              then flush_file (lf3\<lparr>lf_lastFlush := now\<rparr>)
              else Some lf3
            else Some lf2)"

subsection \<open>Nothing is lost when a file is rolled\<close>

text \<open>The bytes of all files, in the order they were written.\<close>

definition lf_text :: "log_file \<Rightarrow> string" where
  "lf_text lf = concat (rev (map snd (lf_files lf)))"

lemma rollFile_text [simp]: "lf_text (snd (rollFile now lf)) = lf_text lf"
  by (simp add: rollFile_def lf_text_def Let_def)

lemma flush_file_text: "flush_file lf = Some lf' \<Longrightarrow> lf_files lf' = lf_files lf"
  by (auto simp: flush_file_def split: list.splits)

lemma append_text:
  assumes "lf_files lf \<noteq> []"
  shows "\<exists>lf'. append_unlocked logline clock lf = Some lf' \<and> lf_files lf' \<noteq> [] \<and>
    lf_text lf' = lf_text lf @ logline"
proof -
  obtain t s older where files: "lf_files lf = (t, s) # older" using assms by (cases "lf_files lf") auto
  obtain now now' where clock: "clock = (now, now')" by (cases clock)
  show ?thesis
    by (simp add: append_unlocked_def files clock Let_def flush_file_def rollFile_def lf_text_def)
qed

subsection \<open>When a file is left\<close>

text \<open>Every file but the newest was longer than the limit, or its day was over.\<close>

fun rolled_well :: "nat \<Rightarrow> (int \<times> string) list \<Rightarrow> bool" where
  "rolled_well n ((t', s') # (t, s) # older) \<longleftrightarrow>
     t < t' \<and> (n < length s \<or> t div kRollPerSeconds < t' div kRollPerSeconds) \<and>
     rolled_well n ((t, s) # older)"
| "rolled_well n _ \<longleftrightarrow> True"

definition log_file_inv :: "log_file \<Rightarrow> bool" where
  "log_file_inv lf \<longleftrightarrow>
     lf_files lf \<noteq> [] \<and> rolled_well (lf_rollSize lf) (lf_files lf) \<and>
     lf_lastRoll lf = fst (hd (lf_files lf)) \<and>
     lf_startOfPeriod lf = fst (hd (lf_files lf)) div kRollPerSeconds * kRollPerSeconds"

lemma rolled_well_longer:
  "rolled_well n ((t, s) # older) \<Longrightarrow> rolled_well n ((t, s') # older)"
  by (cases older) auto

lemma append_inv:
  assumes "log_file_inv lf" and "lf_lastRoll lf \<le> now" and "now \<le> now'"
    and "append_unlocked logline (now, now') lf = Some lf'"
  shows "log_file_inv lf' \<and> lf_lastRoll lf' \<le> now' \<and> lf_rollSize lf' = lf_rollSize lf"
proof -
  obtain t s older where files: "lf_files lf = (t, s) # older"
    using assms(1) by (cases "lf_files lf") (auto simp: log_file_inv_def)
  let ?s = "s @ logline"
  have older: "rolled_well (lf_rollSize lf) ((t, ?s) # older)"
    using assms(1) rolled_well_longer [of "lf_rollSize lf" t s older ?s]
    by (simp add: log_file_inv_def files)
  have t: "lf_lastRoll lf = t" "lf_startOfPeriod lf = t div kRollPerSeconds * kRollPerSeconds"
    using assms(1) by (simp_all add: log_file_inv_def files)
  have day: "t div kRollPerSeconds < now' div kRollPerSeconds \<and> t < now'"
    if "now div kRollPerSeconds * kRollPerSeconds \<noteq> t div kRollPerSeconds * kRollPerSeconds"
  proof -
    have pos: "0 < kRollPerSeconds" by (simp add: kRollPerSeconds_def)
    have "t div kRollPerSeconds \<noteq> now div kRollPerSeconds" using that by auto
    moreover have "t div kRollPerSeconds \<le> now div kRollPerSeconds"
      "now div kRollPerSeconds \<le> now' div kRollPerSeconds"
      using assms(2,3) t(1) pos by (auto intro: zdiv_mono1)
    ultimately have d: "t div kRollPerSeconds < now' div kRollPerSeconds" by linarith
    then have "\<not> now' \<le> t" using zdiv_mono1 [of now' t kRollPerSeconds] pos by linarith
    then show ?thesis using d by simp
  qed
  show ?thesis
    using assms older t day
    by (auto simp: append_unlocked_def files Let_def rollFile_def flush_file_def log_file_inv_def
        split: if_splits)
qed

text \<open>A series of appends, each with its times.\<close>

definition append_lines :: "(string \<times> int \<times> int) list \<Rightarrow> log_file \<Rightarrow> log_file option" where
  "append_lines = run_all (\<lambda>(logline, clock). append_unlocked logline clock)"

fun clock_from :: "int \<Rightarrow> (string \<times> int \<times> int) list \<Rightarrow> bool" where
  "clock_from t [] \<longleftrightarrow> True"
| "clock_from t ((l, now, now') # ls) \<longleftrightarrow> t \<le> now \<and> now \<le> now' \<and> clock_from now' ls"

lemma clock_from_mono: "clock_from t ls \<Longrightarrow> t' \<le> t \<Longrightarrow> clock_from t' ls"
  by (cases ls) auto

lemma append_lines_ok:
  "log_file_inv lf \<Longrightarrow> clock_from (lf_lastRoll lf) ls \<Longrightarrow>
     \<exists>lf'. append_lines ls lf = Some lf' \<and> log_file_inv lf' \<and>
       lf_rollSize lf' = lf_rollSize lf \<and> lf_text lf' = lf_text lf @ concat (map fst ls)"
proof (induction ls arbitrary: lf)
  case (Cons l ls)
  obtain line now now' where l: "l = (line, now, now')" by (cases l)
  have files: "lf_files lf \<noteq> []" using Cons.prems(1) by (simp add: log_file_inv_def)
  obtain lf1 where a: "append_unlocked line (now, now') lf = Some lf1" "lf_text lf1 = lf_text lf @ line"
    using append_text [OF files] by blast
  have i: "log_file_inv lf1" "lf_lastRoll lf1 \<le> now'" "lf_rollSize lf1 = lf_rollSize lf"
    using append_inv [OF Cons.prems(1) _ _ a(1)] Cons.prems(2) l by auto
  have "clock_from (lf_lastRoll lf1) ls"
    using Cons.prems(2) l i(2) clock_from_mono by auto
  from Cons.IH [OF i(1) this] a i(3) show ?case by (auto simp: append_lines_def l)
qed (simp add: append_lines_def)

lemma new_log_file_ok:
  assumes "CHR ''/'' \<notin> set basename" and "0 < now"
  shows "\<exists>lf. new_log_file basename rollSize flushInterval checkEveryN now = Some lf \<and>
    log_file_inv lf \<and> lf_lastRoll lf = now \<and> lf_text lf = [] \<and> lf_rollSize lf = rollSize"
  using assms
  by (simp add: new_log_file_def rollFile_def log_file_inv_def lf_text_def Let_def)

text \<open>
  \<open>AsyncLogging\<close> of \<^verbatim>\<open>muduo/base/AsyncLogging.cc\<close>: any thread appends lines to the
  buffers in front, one thread takes the buffers away and writes them to a log file. The state holds
  the members and the local variables of the writing thread; a step is a call of \<open>append\<close>, a call
  of \<open>stop\<close>, or what the writing thread does up to the next point at which others can come
  between: the test of \<open>running_\<close>, the section under the mutex, the writing. Waiting on the
  condition ends by itself after \<open>flushInterval_\<close> seconds, so the section can be entered at any time.
  \<open>None\<close> is a failed \<open>assert\<close>, or a pointer that is used though it is null.
\<close>

datatype writer_place = Writer_start | Writer_test | Writer_swap | Writer_write | Writer_done

record async_logging =
  al_running :: bool
  al_currentBuffer :: fixed_buffer
  al_nextBuffer :: "fixed_buffer option"
  al_buffers :: "fixed_buffer list"
  al_place :: writer_place
  al_newBuffer1 :: "fixed_buffer option"
  al_newBuffer2 :: "fixed_buffer option"
  al_buffersToWrite :: "fixed_buffer list"
  al_output :: "log_file option"

definition new_large_buffer :: fixed_buffer where
  "new_large_buffer = new_fixed_buffer kLargeBuffer"

text \<open>After the constructor and \<open>start\<close>: the thread has been started.\<close>

definition start_async :: async_logging where
  "start_async =
     \<lparr>al_running = True, al_currentBuffer = new_large_buffer,
      al_nextBuffer = Some new_large_buffer, al_buffers = [], al_place = Writer_start,
      al_newBuffer1 = None, al_newBuffer2 = None, al_buffersToWrite = [], al_output = None\<rparr>"

definition async_append :: "string \<Rightarrow> async_logging \<Rightarrow> async_logging" where
  "async_append logline s =
     (if avail (al_currentBuffer s) > length logline
      then s\<lparr>al_currentBuffer := fb_append logline (al_currentBuffer s)\<rparr>
      else
        let s1 = s\<lparr>al_buffers := al_buffers s @ [al_currentBuffer s]\<rparr>;
            s2 = (case al_nextBuffer s1 of
                    Some b \<Rightarrow> s1\<lparr>al_currentBuffer := b, al_nextBuffer := None\<rparr>
                  | None \<Rightarrow> s1\<lparr>al_currentBuffer := new_large_buffer\<rparr>)
        in s2\<lparr>al_currentBuffer := fb_append logline (al_currentBuffer s2)\<rparr>)"

text \<open>The beginning of \<open>threadFunc\<close>.\<close>

definition writer_begins :: "string \<Rightarrow> nat \<Rightarrow> int \<Rightarrow> async_logging \<Rightarrow> async_logging option" where
  "writer_begins basename rollSize now s = do {
     C_assert (al_running s);
     output \<leftarrow> new_log_file basename rollSize 3 1024 now;
     Some (s\<lparr>al_output := Some output, al_newBuffer1 := Some new_large_buffer,
             al_newBuffer2 := Some new_large_buffer, al_place := Writer_test\<rparr>)
   }"

text \<open>The test of the loop, and the assertions at its beginning.\<close>

definition is_empty_buffer :: "fixed_buffer option \<Rightarrow> bool" where
  "is_empty_buffer b \<longleftrightarrow> (case b of None \<Rightarrow> False | Some c \<Rightarrow> length (fb_text c) = 0)"

definition writer_tests :: "async_logging \<Rightarrow> async_logging option" where
  "writer_tests s =
     (if al_running s then do {
        C_assert (is_empty_buffer (al_newBuffer1 s));
        C_assert (is_empty_buffer (al_newBuffer2 s));
        C_assert (al_buffersToWrite s = []);
        Some (s\<lparr>al_place := Writer_swap\<rparr>)
      }
      else do {
        output \<leftarrow> al_output s;
        output \<leftarrow> flush_file output;
        Some (s\<lparr>al_output := Some output, al_place := Writer_done\<rparr>)
      })"

text \<open>The section under the mutex.\<close>

definition writer_swaps :: "async_logging \<Rightarrow> async_logging option" where
  "writer_swaps s = do {
     let full = al_buffers s @ [al_currentBuffer s];
     b \<leftarrow> al_newBuffer1 s;
     let s = s\<lparr>al_currentBuffer := b, al_newBuffer1 := None, al_buffers := al_buffersToWrite s,
               al_buffersToWrite := full\<rparr>;
     Some (if al_nextBuffer s = None
           then s\<lparr>al_nextBuffer := al_newBuffer2 s, al_newBuffer2 := None, al_place := Writer_write\<rparr>
           else s\<lparr>al_place := Writer_write\<rparr>)
   }"

text \<open>
  The rest of the loop's body. \<open>clock i\<close> is what the append of the i-th text asks the time for, and
  \<open>notice\<close> the line that tells of dropped buffers.
\<close>

primrec write_buffers ::
  "(nat \<Rightarrow> int \<times> int) \<Rightarrow> nat \<Rightarrow> fixed_buffer list \<Rightarrow> log_file \<Rightarrow> log_file option" where
  "write_buffers clock i [] lf = Some lf"
| "write_buffers clock i (b # bs) lf =
     Option.bind (append_unlocked (fb_text b) (clock i) lf) (write_buffers clock (Suc i) bs)"

text \<open>A buffer that has been written is kept for the next round, if it is needed.\<close>

definition take_back ::
  "fixed_buffer option \<Rightarrow> fixed_buffer list \<Rightarrow> (fixed_buffer option \<times> fixed_buffer list) option" where
  "take_back b written =
     (if b = None then do {
        C_assert (written \<noteq> []);
        Some (Some (fb_reset (last written)), butlast written)
      } else Some (b, written))"

definition writer_writes ::
  "string \<Rightarrow> (nat \<Rightarrow> int \<times> int) \<Rightarrow> async_logging \<Rightarrow> async_logging option" where
  "writer_writes notice clock s = do {
     C_assert (al_buffersToWrite s \<noteq> []);
     output \<leftarrow> al_output s;
     (output, written) \<leftarrow>
       (if length (al_buffersToWrite s) > 25 then do {
          output \<leftarrow> append_unlocked notice (clock 0) output;
          Some (output, take 2 (al_buffersToWrite s))
        } else Some (output, al_buffersToWrite s));
     output \<leftarrow> write_buffers clock 1 written output;
     let written = (if length written > 2 then take 2 written else written);
     (b1, written) \<leftarrow> take_back (al_newBuffer1 s) written;
     (b2, written) \<leftarrow> take_back (al_newBuffer2 s) written;
     output \<leftarrow> flush_file output;
     Some (s\<lparr>al_newBuffer1 := b1, al_newBuffer2 := b2, al_buffersToWrite := [],
             al_output := Some output, al_place := Writer_test\<rparr>)
   }"

subsection \<open>Steps\<close>

text \<open>What the surroundings give a step of the writing thread.\<close>

record writer_env =
  env_basename :: string
  env_rollSize :: nat
  env_now :: int
  env_notice :: string
  env_clock :: "nat \<Rightarrow> int \<times> int"

datatype async_op = Async_append string | Async_stop | Async_writer writer_env

definition writer_step :: "writer_env \<Rightarrow> async_logging \<Rightarrow> async_logging option" where
  "writer_step env s =
     (case al_place s of
        Writer_start \<Rightarrow> writer_begins (env_basename env) (env_rollSize env) (env_now env) s
      | Writer_test \<Rightarrow> writer_tests s
      | Writer_swap \<Rightarrow> writer_swaps s
      | Writer_write \<Rightarrow> writer_writes (env_notice env) (env_clock env) s
      | Writer_done \<Rightarrow> Some s)"

fun async_do :: "async_op \<Rightarrow> async_logging \<Rightarrow> async_logging option" where
  "async_do (Async_append logline) s = Some (async_append logline s)"
| "async_do Async_stop s = Some (s\<lparr>al_running := False\<rparr>)"
| "async_do (Async_writer env) s = writer_step env s"

definition async_run :: "async_op list \<Rightarrow> async_logging \<Rightarrow> async_logging option" where
  "async_run = run_all async_do"

text \<open>
  What is asked of a run: the name of the log has no slash, and the clock is past the epoch. \<open>stop\<close> waits for the thread, and \<open>start\<close> for its beginning, so the log is not
  stopped before it has begun.
\<close>

fun async_enabled :: "async_op \<Rightarrow> async_logging \<Rightarrow> bool" where
  "async_enabled Async_stop s \<longleftrightarrow> al_place s \<noteq> Writer_start"
| "async_enabled (Async_writer env) s \<longleftrightarrow> CHR ''/'' \<notin> set (env_basename env) \<and> 0 < env_now env"
| "async_enabled (Async_append logline) s \<longleftrightarrow> True"

primrec async_allowed :: "async_op list \<Rightarrow> async_logging \<Rightarrow> bool" where
  "async_allowed [] s \<longleftrightarrow> True"
| "async_allowed (op # ops) s \<longleftrightarrow>
     async_enabled op s \<and> (case async_do op s of None \<Rightarrow> True | Some s' \<Rightarrow> async_allowed ops s')"

subsection \<open>The buffers\<close>

definition large_buffer :: "fixed_buffer \<Rightarrow> bool" where
  "large_buffer b \<longleftrightarrow> fb_size b = kLargeBuffer \<and> length (fb_text b) < kLargeBuffer"

definition empty_large :: "fixed_buffer option \<Rightarrow> bool" where
  "empty_large b \<longleftrightarrow> b = Some new_large_buffer"

definition thread_inv :: "async_logging \<Rightarrow> bool" where
  "thread_inv s \<longleftrightarrow>
     (case al_place s of
        Writer_start \<Rightarrow> al_running s \<and> al_buffersToWrite s = [] \<and> al_output s = None
      | Writer_write \<Rightarrow>
          al_buffersToWrite s \<noteq> [] \<and> al_newBuffer1 s = None \<and>
          (empty_large (al_newBuffer2 s) \<or>
             al_newBuffer2 s = None \<and> 2 \<le> length (al_buffersToWrite s))
      | _ \<Rightarrow> al_buffersToWrite s = [] \<and> empty_large (al_newBuffer1 s) \<and> empty_large (al_newBuffer2 s))"

definition output_inv :: "async_logging \<Rightarrow> bool" where
  "output_inv s \<longleftrightarrow>
     (case al_output s of None \<Rightarrow> al_place s = Writer_start | Some lf \<Rightarrow> lf_files lf \<noteq> [])"

definition async_inv :: "async_logging \<Rightarrow> bool" where
  "async_inv s \<longleftrightarrow>
     large_buffer (al_currentBuffer s) \<and>
     (al_nextBuffer s = None \<longrightarrow> al_buffers s \<noteq> []) \<and>
     (al_nextBuffer s = None \<or> empty_large (al_nextBuffer s)) \<and>
     (\<forall>b \<in> set (al_buffersToWrite s). large_buffer b) \<and>
     (\<forall>b \<in> set (al_buffers s). large_buffer b) \<and>
     thread_inv s \<and> output_inv s"

text \<open>The bytes that wait, and the bytes that are written.\<close>

definition pending_text :: "async_logging \<Rightarrow> string" where
  "pending_text s =
     concat (map fb_text (al_buffersToWrite s @ al_buffers s)) @ fb_text (al_currentBuffer s)"

definition written_text :: "async_logging \<Rightarrow> string" where
  "written_text s = (case al_output s of None \<Rightarrow> [] | Some lf \<Rightarrow> lf_text lf)"

definition logged_text :: "async_logging \<Rightarrow> string" where
  "logged_text s = written_text s @ pending_text s"

lemma new_large_buffer_ok [simp]:
  "large_buffer new_large_buffer" "fb_text new_large_buffer = []" "fb_size new_large_buffer = kLargeBuffer"
  by (simp_all add: new_large_buffer_def new_fixed_buffer_def large_buffer_def kLargeBuffer_def)

lemma fb_reset_large [simp]: "large_buffer b \<Longrightarrow> fb_reset b = new_large_buffer"
  by (simp add: large_buffer_def fb_reset_def new_large_buffer_def new_fixed_buffer_def)

lemma start_async_inv: "async_inv start_async"
  by (simp add: start_async_def async_inv_def thread_inv_def output_inv_def empty_large_def)

text \<open>The writing thread's data do not change under \<open>append\<close>.\<close>

lemma thread_inv_cong:
  "al_place s' = al_place s \<Longrightarrow> al_running s' = al_running s \<Longrightarrow> al_output s' = al_output s \<Longrightarrow>
   al_newBuffer1 s' = al_newBuffer1 s \<Longrightarrow> al_newBuffer2 s' = al_newBuffer2 s \<Longrightarrow>
   al_buffersToWrite s' = al_buffersToWrite s \<Longrightarrow>
   thread_inv s' = thread_inv s \<and> output_inv s' = output_inv s"
  by (cases "al_place s"; cases "al_output s"; simp add: thread_inv_def output_inv_def)

lemma append_large:
  assumes "large_buffer b" and "length s < avail b"
  shows "large_buffer (fb_append s b) \<and> fb_text (fb_append s b) = fb_text b @ s"
  using assms by (auto simp: large_buffer_def fb_append_def avail_def)

text \<open>A line that does not fit an empty buffer is left out.\<close>

definition kept_line :: "string \<Rightarrow> string" where
  "kept_line logline = (if length logline < kLargeBuffer then logline else [])"

lemma append_fresh:
  "large_buffer (fb_append s new_large_buffer) \<and> fb_text (fb_append s new_large_buffer) = kept_line s"
  using new_large_buffer_ok by (simp add: large_buffer_def fb_append_def avail_def kept_line_def)

lemma async_append_ok:
  assumes inv: "async_inv s"
  shows "async_inv (async_append logline s) \<and>
    logged_text (async_append logline s) = logged_text s @ kept_line logline \<and>
    al_place (async_append logline s) = al_place s"
proof (cases "length logline < avail (al_currentBuffer s)")
  case True
  let ?b = "fb_append logline (al_currentBuffer s)"
  have a: "async_append logline s = s\<lparr>al_currentBuffer := ?b\<rparr>" using True by (simp add: async_append_def)
  have b: "large_buffer ?b \<and> fb_text ?b = fb_text (al_currentBuffer s) @ logline"
    using append_large [OF _ True] inv by (simp add: async_inv_def)
  have k: "kept_line logline = logline"
    using True inv by (auto simp: kept_line_def avail_def async_inv_def large_buffer_def)
  have t: "thread_inv (s\<lparr>al_currentBuffer := ?b\<rparr>) = thread_inv s \<and>
      output_inv (s\<lparr>al_currentBuffer := ?b\<rparr>) = output_inv s"
    by (rule thread_inv_cong) simp_all
  show ?thesis
    unfolding a k using inv b t
    by (simp add: async_inv_def logged_text_def written_text_def pending_text_def)
next
  case False
  let ?b = "fb_append logline new_large_buffer"
  let ?s = "s\<lparr>al_buffers := al_buffers s @ [al_currentBuffer s], al_currentBuffer := ?b,
      al_nextBuffer := None\<rparr>"
  have a: "async_append logline s = ?s"
    using False inv
    by (auto simp: async_append_def Let_def async_inv_def empty_large_def split: option.splits)
  have b: "large_buffer ?b \<and> fb_text ?b = kept_line logline" by (rule append_fresh)
  have t: "thread_inv ?s = thread_inv s \<and> output_inv ?s = output_inv s"
    by (rule thread_inv_cong) simp_all
  show ?thesis
    unfolding a using inv b t
    by (simp add: async_inv_def logged_text_def written_text_def pending_text_def ball_Un)
qed

text \<open>The steps of the writing thread.\<close>

lemma writer_begins_ok:
  assumes inv: "async_inv s" and "al_place s = Writer_start"
    and "CHR ''/'' \<notin> set basename" "0 < now"
  shows "\<exists>s'. writer_begins basename rollSize now s = Some s' \<and> async_inv s' \<and>
    logged_text s' = logged_text s"
proof -
  from new_log_file_ok [OF assms(3,4), of rollSize 3 1024] obtain lf
    where lf: "new_log_file basename rollSize 3 1024 now = Some lf" "log_file_inv lf" "lf_text lf = []"
    by blast
  then show ?thesis
    using inv assms(2)
    by (simp add: writer_begins_def async_inv_def thread_inv_def output_inv_def empty_large_def
        logged_text_def written_text_def pending_text_def log_file_inv_def)
qed

lemma writer_tests_ok:
  assumes inv: "async_inv s" and place: "al_place s = Writer_test"
  shows "\<exists>s'. writer_tests s = Some s' \<and> async_inv s' \<and> logged_text s' = logged_text s"
proof (cases "al_running s")
  case True
  then show ?thesis
    using inv place
    by (cases "al_output s"; simp add: writer_tests_def async_inv_def thread_inv_def output_inv_def
        empty_large_def is_empty_buffer_def logged_text_def written_text_def pending_text_def)
next
  case False
  obtain lf t x older where lf: "al_output s = Some lf" "lf_files lf = (t, x) # older"
    using inv place
    by (cases "al_output s"; auto simp: async_inv_def output_inv_def neq_Nil_conv)
  then have f: "flush_file lf = Some (lf\<lparr>lf_flushed := length x\<rparr>)" by (simp add: flush_file_def)
  then show ?thesis
    using inv place False lf
    by (simp add: writer_tests_def async_inv_def thread_inv_def output_inv_def empty_large_def
        logged_text_def written_text_def pending_text_def lf_text_def)
qed

lemma writer_swaps_ok:
  assumes inv: "async_inv s" and place: "al_place s = Writer_swap"
  shows "\<exists>s'. writer_swaps s = Some s' \<and> async_inv s' \<and> logged_text s' = logged_text s"
proof -
  have w: "al_buffersToWrite s = []" "al_newBuffer1 s = Some new_large_buffer"
    "al_newBuffer2 s = Some new_large_buffer"
    using inv place by (simp_all add: async_inv_def thread_inv_def empty_large_def)
  show ?thesis
  proof (cases "al_nextBuffer s = None")
    case True
    then have "al_buffers s \<noteq> []" using inv by (simp add: async_inv_def)
    then have "2 \<le> length (al_buffers s @ [al_currentBuffer s])" by (cases "al_buffers s") auto
    then show ?thesis
      using inv place w True
      by (cases "al_output s")
        (auto simp: writer_swaps_def Let_def async_inv_def thread_inv_def output_inv_def
          empty_large_def logged_text_def written_text_def pending_text_def)
  next
    case False
    then show ?thesis
      using inv place w
      by (cases "al_output s")
        (auto simp: writer_swaps_def Let_def async_inv_def thread_inv_def output_inv_def
          empty_large_def logged_text_def written_text_def pending_text_def)
  qed
qed

lemma write_buffers_ok:
  "lf_files lf \<noteq> [] \<Longrightarrow> \<exists>lf'. write_buffers clock i bs lf = Some lf' \<and> lf_files lf' \<noteq> [] \<and>
     lf_text lf' = lf_text lf @ concat (map fb_text bs)"
proof (induction bs arbitrary: i lf)
  case (Cons b bs)
  obtain lf1 where a: "append_unlocked (fb_text b) (clock i) lf = Some lf1" "lf_files lf1 \<noteq> []"
    "lf_text lf1 = lf_text lf @ fb_text b"
    using append_text [OF Cons.prems] by blast
  show ?case using Cons.IH [OF a(2), of "Suc i"] a by auto
qed simp

lemma flush_file_ok:
  assumes "lf_files lf \<noteq> []"
  shows "\<exists>lf'. flush_file lf = Some lf' \<and> lf_files lf' = lf_files lf"
  using assms by (cases "lf_files lf") (auto simp: flush_file_def)

text \<open>The buffers that are taken back are enough for the next round.\<close>

lemma take_back_ok:
  assumes "\<forall>b \<in> set written. large_buffer b"
    and "empty_large b1 \<or> b1 = None \<and> written \<noteq> []"
  shows "\<exists>rest. take_back b1 written = Some (Some new_large_buffer, rest) \<and>
    (\<forall>b \<in> set rest. large_buffer b) \<and>
    length rest = (if b1 = None then length written - 1 else length written)"
  using assms
  by (auto simp: take_back_def empty_large_def in_set_butlastD)

definition dropping :: "async_op \<Rightarrow> async_logging \<Rightarrow> bool" where
  "dropping op s \<longleftrightarrow>
     (\<exists>env. op = Async_writer env) \<and> al_place s = Writer_write \<and> length (al_buffersToWrite s) > 25"

lemma writer_writes_ok:
  assumes inv: "async_inv s" and place: "al_place s = Writer_write"
  shows "\<exists>s'. writer_writes notice clock s = Some s' \<and> async_inv s' \<and>
    (length (al_buffersToWrite s) \<le> 25 \<longrightarrow> logged_text s' = logged_text s)"
proof -
  let ?w = "al_buffersToWrite s"
  have w: "?w \<noteq> []" "al_newBuffer1 s = None" "\<forall>b \<in> set ?w. large_buffer b"
    "empty_large (al_newBuffer2 s) \<or> al_newBuffer2 s = None \<and> 2 \<le> length ?w"
    using inv place by (simp_all add: async_inv_def thread_inv_def)
  obtain lf where lf: "al_output s = Some lf" "lf_files lf \<noteq> []"
    using inv place by (cases "al_output s") (auto simp: async_inv_def output_inv_def)
  define written where "written = (if length ?w > 25 then take 2 ?w else ?w)"
  obtain lf0 where lf0: "append_unlocked notice (clock 0) lf = Some lf0" "lf_files lf0 \<noteq> []"
    using append_text [OF lf(2)] by blast
  define lf1 where "lf1 = (if length ?w > 25 then lf0 else lf)"
  have lf1: "lf_files lf1 \<noteq> []" "length ?w \<le> 25 \<longrightarrow> lf1 = lf"
    "(if length ?w > 25 then do {
        output \<leftarrow> append_unlocked notice (clock 0) lf;
        Some (output, take 2 ?w)
      } else Some (lf, ?w)) = Some (lf1, written)"
    using lf0 lf(2) by (simp_all add: written_def lf1_def)
  obtain lf2 where lf2: "write_buffers clock 1 written lf1 = Some lf2" "lf_files lf2 \<noteq> []"
    "lf_text lf2 = lf_text lf1 @ concat (map fb_text written)"
    using write_buffers_ok [OF lf1(1)] by blast
  obtain lf3 where lf3: "flush_file lf2 = Some lf3" "lf_files lf3 = lf_files lf2"
    using flush_file_ok [OF lf2(2)] by blast
  define kept where "kept = (if length written > 2 then take 2 written else written)"
  have kept: "kept \<noteq> []" "\<forall>b \<in> set kept. large_buffer b"
    "al_newBuffer2 s = None \<Longrightarrow> 2 \<le> length kept"
    using w by (auto simp: kept_def written_def empty_large_def dest: in_set_takeD)
  obtain rest where rest: "take_back (al_newBuffer1 s) kept = Some (Some new_large_buffer, rest)"
    "\<forall>b \<in> set rest. large_buffer b" "length rest = length kept - 1"
    using take_back_ok [OF kept(2), of "al_newBuffer1 s"] kept(1) w(2) by auto
  have "empty_large (al_newBuffer2 s) \<or> al_newBuffer2 s = None \<and> rest \<noteq> []"
    using w(4) kept(3) rest(3) by (cases rest) auto
  from take_back_ok [OF rest(2) this] obtain rest'
    where rest': "take_back (al_newBuffer2 s) rest = Some (Some new_large_buffer, rest')" by blast
  let ?s = "s\<lparr>al_newBuffer1 := Some new_large_buffer, al_newBuffer2 := Some new_large_buffer,
      al_buffersToWrite := [], al_output := Some lf3, al_place := Writer_test\<rparr>"
  have "writer_writes notice clock s = Some ?s"
    using w(1) lf(1) lf2(1) lf3(1) rest(1) rest'
    unfolding writer_writes_def Let_def by (simp add: lf1(3) kept_def [symmetric])
  moreover have "async_inv ?s"
    using inv lf2(2) lf3(2)
    by (simp add: async_inv_def thread_inv_def output_inv_def empty_large_def)
  moreover have "logged_text ?s = logged_text s" if "length ?w \<le> 25"
    using that lf lf1(2) lf2(3) lf3(2)
    by (simp add: logged_text_def written_text_def pending_text_def written_def lf_text_def)
  ultimately show ?thesis by blast
qed

fun appended :: "async_op \<Rightarrow> string" where
  "appended (Async_append logline) = kept_line logline"
| "appended _ = []"

lemma async_do_ok:
  assumes inv: "async_inv s" and en: "async_enabled op s"
  shows "\<exists>s'. async_do op s = Some s' \<and> async_inv s' \<and>
    (\<not> dropping op s \<longrightarrow> logged_text s' = logged_text s @ appended op)"
proof (cases op)
  case (Async_append logline)
  then show ?thesis using async_append_ok [OF inv] by simp
next
  case Async_stop
  then show ?thesis
    using inv en
    by (cases "al_place s"; cases "al_output s")
      (simp_all add: async_inv_def thread_inv_def output_inv_def logged_text_def written_text_def
        pending_text_def)
next
  case (Async_writer env)
  show ?thesis
  proof (cases "al_place s")
    case Writer_start
    then show ?thesis
      using writer_begins_ok [OF inv, of "env_basename env" "env_now env" "env_rollSize env"] en
        Async_writer
      by (auto simp: writer_step_def)
  next
    case Writer_test
    then show ?thesis using writer_tests_ok [OF inv] Async_writer by (auto simp: writer_step_def)
  next
    case Writer_swap
    then show ?thesis using writer_swaps_ok [OF inv] Async_writer by (auto simp: writer_step_def)
  next
    case Writer_write
    then show ?thesis
      using writer_writes_ok [OF inv, of "env_notice env" "env_clock env"] Async_writer
      by (auto simp: writer_step_def dropping_def not_less)
  next
    case Writer_done
    then show ?thesis using inv Async_writer by (simp add: writer_step_def)
  qed
qed

primrec drops :: "async_op list \<Rightarrow> async_logging \<Rightarrow> bool" where
  "drops [] s \<longleftrightarrow> False"
| "drops (op # ops) s \<longleftrightarrow>
     dropping op s \<or> (case async_do op s of None \<Rightarrow> False | Some s' \<Rightarrow> drops ops s')"

lemma async_run_ok:
  "async_inv s \<Longrightarrow> async_allowed ops s \<Longrightarrow>
     \<exists>s'. async_run ops s = Some s' \<and> async_inv s' \<and>
       (\<not> drops ops s \<longrightarrow> logged_text s' = logged_text s @ concat (map appended ops))"
proof (induction ops arbitrary: s)
  case (Cons op ops)
  obtain s1 where s1: "async_do op s = Some s1" "async_inv s1"
    "\<not> dropping op s \<Longrightarrow> logged_text s1 = logged_text s @ appended op"
    using async_do_ok [OF Cons.prems(1)] Cons.prems(2) by auto
  have "async_allowed ops s1" using Cons.prems(2) s1(1) by simp
  from Cons.IH [OF s1(2) this] s1 show ?case by (auto simp: async_run_def)
qed (simp add: async_run_def)

end
