(* ===== verification/Logging_Theorems.thy ===== *)
theory Logging_Theorems
  imports Async_Logging
begin

text \<open>The properties of the logging library, from a single item to the files.\<close>

text \<open>C26: a \<open>LogStream\<close> never writes outside its buffer; what it holds is the texts of some of the
  items, whole and in order, and of all items if they leave 32 bytes free. An integer's text has
  the integer's value, a pointer's text its bits.
\<close>

theorem log_stream_exact:
  assumes "list_all log_item_ok items"
  shows "length (fb_text (log_all items (new_fixed_buffer kSmallBuffer))) < kSmallBuffer \<and>
    (\<exists>ts. fb_text (log_all items (new_fixed_buffer kSmallBuffer)) = concat ts \<and>
      subseq ts (map log_text items)) \<and>
    (length (concat (map log_text items)) + kMaxNumericSize \<le> kSmallBuffer \<longrightarrow>
      fb_text (log_all items (new_fixed_buffer kSmallBuffer)) = concat (map log_text items)) \<and>
    int_value (convert v) = v \<and> hex_text_value (convertHex w) = unat w"
proof -
  let ?b = "new_fixed_buffer kSmallBuffer"
  have b: "fb_text ?b = []" "fb_size ?b = kSmallBuffer" "length (fb_text ?b) < fb_size ?b"
    by (simp_all add: new_fixed_buffer_def kSmallBuffer_def)
  show ?thesis
    using log_all_inside [OF assms b(3)] log_all_subseq [of items ?b] log_all_enough [of ?b items]
    by (simp add: b convert_int_text convertHex_value)
qed

lemma log_stream_exact_witness:
  "fb_text (log_all [Log_string ''n='', Log_integer (-25)] (new_fixed_buffer kSmallBuffer)) =
     ''n='' @ int_text (-25)"
  using log_stream_exact [of "[Log_string ''n='', Log_integer (-25)]"]
    int_text_length [of "-25" 2]
  by (simp add: kSmallBuffer_def kMaxNumericSize_def)

text \<open>C27: a log file loses nothing when it is rolled: the bytes of its files, in order, are the
  lines that were appended, in order. A file is left only when it is longer than the limit or its
  day is over, and each file is opened at a later time than the one before, so that it has another
  name.
\<close>

theorem log_file_keeps_lines:
  assumes "new_log_file basename rollSize flushInterval checkEveryN now = Some lf" and "0 < now"
    and "clock_from now ls"
  shows "\<exists>lf'. append_lines ls lf = Some lf' \<and> lf_text lf' = concat (map fst ls) \<and>
    rolled_well rollSize (lf_files lf')"
proof -
  have "CHR ''/'' \<notin> set basename" using assms(1) by (auto simp: new_log_file_def split: bind_splits)
  from new_log_file_ok [OF this assms(2), of rollSize flushInterval checkEveryN] assms(1)
  have lf: "log_file_inv lf" "lf_lastRoll lf = now" "lf_text lf = []" "lf_rollSize lf = rollSize"
    by simp_all
  then show ?thesis
    using append_lines_ok [OF lf(1), of ls] assms(3) by (auto simp: log_file_inv_def)
qed

lemma log_file_keeps_lines_witness:
  "\<exists>lf lf'. new_log_file ''log'' 3 3 1 100 = Some lf \<and>
     append_lines [(''one'', 100, 100), (''two'', 101, 101), (''three'', 90000, 90001)] lf = Some lf' \<and>
     lf_text lf' = ''onetwothree''"
proof -
  obtain lf where lf: "new_log_file ''log'' 3 3 1 100 = Some lf"
    using new_log_file_ok [of "''log''" 100 3 3 1] by auto
  show ?thesis
    using log_file_keeps_lines [OF lf, of "[(''one'', 100, 100), (''two'', 101, 101), (''three'', 90000, 90001)]"] lf
    by auto
qed

text \<open>C28: in every interleaving of appends with the writing thread no assertion of \<open>AsyncLogging\<close>
  fails and no null buffer is used, whatever the lines' lengths. In a run in which never more than 25
  buffers have to be written at once, the files' bytes followed by the bytes in the buffers are, in
  order, the appended lines that are shorter than a buffer of 4,000,000 bytes. (Longer lines are left
  out, as \<open>FixedBuffer::append\<close> does without a notice; of more than 25 buffers, all but two are dropped.)
\<close>

theorem async_log_in_order:
  assumes "async_allowed ops start_async"
  shows "\<exists>s. async_run ops start_async = Some s \<and>
    (\<not> drops ops start_async \<longrightarrow>
      written_text s @ pending_text s = concat (map appended ops))"
  using async_run_ok [OF start_async_inv assms]
  by (auto simp: logged_text_def written_text_def pending_text_def start_async_def)

definition sample_env :: writer_env where
  "sample_env =
     \<lparr>env_basename = ''log'', env_rollSize = 1000, env_now = 100, env_notice = ''dropped'',
      env_clock = (\<lambda>i. (100, 100))\<rparr>"

lemma async_log_in_order_witness:
  "\<exists>s. async_run [Async_writer sample_env, Async_append ''one'', Async_writer sample_env,
       Async_append ''two''] start_async = Some s \<and>
     written_text s @ pending_text s = ''onetwo''"
  using async_log_in_order [of "[Async_writer sample_env, Async_append ''one'',
      Async_writer sample_env, Async_append ''two'']"]
  by (simp add: sample_env_def start_async_def writer_step_def writer_begins_def new_log_file_def
      rollFile_def async_append_def avail_def new_large_buffer_def new_fixed_buffer_def
      kLargeBuffer_def writer_tests_def is_empty_buffer_def dropping_def kept_line_def Let_def)

text \<open>\<open>stop\<close> can lose lines: what is appended after the writing thread has taken the buffers away
  stays in the buffers if \<open>stop\<close> is called before the thread tests \<open>running_\<close> again, although the
  call of \<open>append\<close> came before the call of \<open>stop\<close>.
\<close>

theorem async_lines_lost:
  assumes "length a < kLargeBuffer" and "length b < kLargeBuffer"
  shows "\<exists>s. async_run [Async_writer sample_env, Async_append a, Async_writer sample_env,
      Async_writer sample_env, Async_append b, Async_writer sample_env, Async_stop,
      Async_writer sample_env] start_async = Some s \<and>
    al_place s = Writer_done \<and> written_text s = a \<and> pending_text s = b"
  using assms
  by (simp add: async_run_def sample_env_def start_async_def writer_step_def writer_begins_def
      new_log_file_def rollFile_def async_append_def avail_def new_large_buffer_def
      new_fixed_buffer_def writer_tests_def is_empty_buffer_def writer_swaps_def writer_writes_def
      append_unlocked_def flush_file_def take_back_def fb_reset_def fb_append_def Let_def
      written_text_def pending_text_def lf_text_def)

lemma async_lines_lost_witness:
  "\<exists>s. async_run [Async_writer sample_env, Async_append ''one'', Async_writer sample_env,
      Async_writer sample_env, Async_append ''two'', Async_writer sample_env, Async_stop,
      Async_writer sample_env] start_async = Some s \<and>
    al_place s = Writer_done \<and> written_text s = ''one'' \<and> pending_text s = ''two''"
  by (rule async_lines_lost) (simp_all add: kLargeBuffer_def)

end
