(* ===== verification/Muduo_Http.thy ===== *)
theory Muduo_Http
  imports Net_Buffer Muduo_Prelude String_Map
begin

text \<open>
  The HTTP parser of muduo, \<^verbatim>\<open>muduo/net/http/HttpRequest.h\<close> and \<^verbatim>\<open>HttpContext.cc\<close>: the
  request, and the context that reads requests from a connection's buffer, a line at a time. A range
  of pointers is the string between them. \<open>None\<close> is a failed \<open>assert\<close>.
\<close>

subsection \<open>The request\<close>

datatype request_method = kInvalid | kGet | kPost | kHead | kPut | kDelete

datatype request_version = kUnknown | kHttp10 | kHttp11

record muduo_request =
  mr_method :: request_method
  mr_version :: request_version
  mr_path :: string
  mr_query :: string
  mr_receiveTime :: timestamp
  mr_headers :: string_map

definition new_muduo_request :: muduo_request where
  "new_muduo_request =
     \<lparr>mr_method = kInvalid, mr_version = kUnknown, mr_path = [], mr_query = [],
      mr_receiveTime = invalid_time, mr_headers = []\<rparr>"

definition setMethod :: "string \<Rightarrow> muduo_request \<Rightarrow> (bool \<times> muduo_request) option" where
  "setMethod m r = do {
     C_assert (mr_method r = kInvalid);
     let method =
       (if m = ''GET'' then kGet
        else if m = ''POST'' then kPost
        else if m = ''HEAD'' then kHead
        else if m = ''PUT'' then kPut
        else if m = ''DELETE'' then kDelete
        else kInvalid);
     Some (method \<noteq> kInvalid, r\<lparr>mr_method := method\<rparr>)
   }"

fun methodString :: "request_method \<Rightarrow> string" where
  "methodString kGet = ''GET''"
| "methodString kPost = ''POST''"
| "methodString kHead = ''HEAD''"
| "methodString kPut = ''PUT''"
| "methodString kDelete = ''DELETE''"
| "methodString kInvalid = ''UNKNOWN''"

text \<open>\<open>addHeader\<close>: the name before the colon, and what is behind it less the white space around it.\<close>

definition trim_right :: "string \<Rightarrow> string" where
  "trim_right s = rev (dropWhile is_space (rev s))"

definition addHeader :: "string \<Rightarrow> string \<Rightarrow> muduo_request \<Rightarrow> muduo_request" where
  "addHeader field behind r =
     r\<lparr>mr_headers := map_assign field (trim_right (dropWhile is_space behind)) (mr_headers r)\<rparr>"

definition getHeader :: "muduo_request \<Rightarrow> string \<Rightarrow> string" where
  "getHeader r field = (case map_find (mr_headers r) field of Some v \<Rightarrow> v | None \<Rightarrow> [])"

text \<open>\<open>swap\<close> leaves the versions where they are.\<close>

definition swap_requests :: "muduo_request \<times> muduo_request \<Rightarrow> muduo_request \<times> muduo_request" where
  "swap_requests rs =
     (case rs of (a, b) \<Rightarrow>
        (b\<lparr>mr_version := mr_version a\<rparr>, a\<lparr>mr_version := mr_version b\<rparr>))"

subsection \<open>The context\<close>

datatype context_state = kExpectRequestLine | kExpectHeaders | kExpectBody | kGotAll

record http_context =
  hc_state :: context_state
  hc_request :: muduo_request

definition new_http_context :: http_context where
  "new_http_context = \<lparr>hc_state = kExpectRequestLine, hc_request = new_muduo_request\<rparr>"

definition gotAll :: "http_context \<Rightarrow> bool" where
  "gotAll c \<longleftrightarrow> hc_state c = kGotAll"

definition reset_context :: "http_context \<Rightarrow> http_context" where
  "reset_context c =
     c\<lparr>hc_state := kExpectRequestLine,
       hc_request := fst (swap_requests (hc_request c, new_muduo_request))\<rparr>"

definition processRequestLine :: "string \<Rightarrow> muduo_request \<Rightarrow> (bool \<times> muduo_request) option" where
  "processRequestLine line r =
     (case memchr SP line of
        None \<Rightarrow> Some (False, r)
      | Some i \<Rightarrow> do {
          (known, r) \<leftarrow> setMethod (take i line) r;
          if \<not> known then Some (False, r)
          else
            let start = drop (i + 1) line in
            case memchr SP start of
              None \<Rightarrow> Some (False, r)
            | Some j \<Rightarrow>
                let target = take j start;
                    r = (case memchr (CHR ''?'') target of
                           Some q \<Rightarrow> r\<lparr>mr_path := take q target, mr_query := drop q target\<rparr>
                         | None \<Rightarrow> r\<lparr>mr_path := target\<rparr>);
                    start = drop (j + 1) start in
                if length start = 8 \<and> take 7 start = ''HTTP/1.'' then
                  if start ! 7 = CHR ''1'' then Some (True, r\<lparr>mr_version := kHttp11\<rparr>)
                  else if start ! 7 = CHR ''0'' then Some (True, r\<lparr>mr_version := kHttp10\<rparr>)
                  else Some (False, r)
                else Some (False, r)
        })"

text \<open>
  \<open>parseRequest\<close>. In the states \<open>kExpectBody\<close>, which nothing sets, and \<open>kGotAll\<close> the loop has
  nothing to do and does not end.
\<close>

datatype parse_outcome = Parsed bool http_context net_buffer | Parse_aborts

partial_function (option) parseRequest ::
  "timestamp \<Rightarrow> http_context \<Rightarrow> net_buffer \<Rightarrow> parse_outcome option" where
  "parseRequest receiveTime c b =
     (if hc_state c = kExpectRequestLine then
        (case findCRLF b of
           None \<Rightarrow> Some (Parsed True c b)
         | Some crlf \<Rightarrow>
             (case processRequestLine (take (crlf - readerIndex b) (content b)) (hc_request c) of
                None \<Rightarrow> Some Parse_aborts
              | Some (ok, r) \<Rightarrow>
                  if ok then
                    (case retrieveUntil (crlf + 2) b of
                       None \<Rightarrow> Some Parse_aborts
                     | Some b' \<Rightarrow>
                         parseRequest receiveTime
                           (c\<lparr>hc_request := r\<lparr>mr_receiveTime := receiveTime\<rparr>,
                              hc_state := kExpectHeaders\<rparr>) b')
                  else Some (Parsed False (c\<lparr>hc_request := r\<rparr>) b)))
      else if hc_state c = kExpectHeaders then
        (case findCRLF b of
           None \<Rightarrow> Some (Parsed True c b)
         | Some crlf \<Rightarrow>
             let line = take (crlf - readerIndex b) (content b) in
             (case memchr (CHR '':'') line of
                Some i \<Rightarrow>
                  (case retrieveUntil (crlf + 2) b of
                     None \<Rightarrow> Some Parse_aborts
                   | Some b' \<Rightarrow>
                       parseRequest receiveTime
                         (c\<lparr>hc_request := addHeader (take i line) (drop (i + 1) line) (hc_request c)\<rparr>)
                         b')
              | None \<Rightarrow>
                  map_option (Parsed True (c\<lparr>hc_state := kGotAll\<rparr>)) (retrieveUntil (crlf + 2) b)))
      else parseRequest receiveTime c b)"

subsection \<open>The parser on strings\<close>

text \<open>
  The same on the bytes of the buffer: the answer, the context and the bytes that are left. \<open>None\<close> is
  a failed \<open>assert\<close>; the states in which the loop does not end are left alone.
\<close>

function parse_text ::
  "timestamp \<Rightarrow> http_context \<Rightarrow> string \<Rightarrow> (bool \<times> http_context \<times> string) option" where
  "parse_text t c s =
     (if hc_state c = kExpectRequestLine then
        (case search_crlf s of
           None \<Rightarrow> Some (True, c, s)
         | Some n \<Rightarrow>
             (case processRequestLine (take n s) (hc_request c) of
                None \<Rightarrow> None
              | Some (ok, r) \<Rightarrow>
                  if ok then
                    parse_text t (c\<lparr>hc_request := r\<lparr>mr_receiveTime := t\<rparr>,
                                    hc_state := kExpectHeaders\<rparr>) (drop (n + 2) s)
                  else Some (False, c\<lparr>hc_request := r\<rparr>, s)))
      else if hc_state c = kExpectHeaders then
        (case search_crlf s of
           None \<Rightarrow> Some (True, c, s)
         | Some n \<Rightarrow>
             (case memchr (CHR '':'') (take n s) of
                Some i \<Rightarrow>
                  parse_text t
                    (c\<lparr>hc_request := addHeader (take i s) (drop (i + 1) (take n s)) (hc_request c)\<rparr>)
                    (drop (n + 2) s)
              | None \<Rightarrow> Some (True, c\<lparr>hc_state := kGotAll\<rparr>, drop (n + 2) s)))
      else Some (True, c, s))"
  by pat_completeness auto

lemma search_crlf_found:
  "search_crlf s = Some n \<Longrightarrow> n + 2 \<le> length s \<and> s = take n s @ CR # LF # drop (n + 2) s"
  by (induction s arbitrary: n rule: search_crlf.induct) (auto split: if_splits)

termination parse_text
  by (relation "measure (\<lambda>(t, c, s). length s)") (auto dest!: search_crlf_found)

declare parse_text.simps [simp del]

lemma memchr_take:
  "memchr c (take n s) = Some i \<Longrightarrow> take i (take n s) = take i s \<and> i < n"
proof -
  assume "memchr c (take n s) = Some i"
  from memchr_Some [OF this] have "i < n" by simp
  then show ?thesis by (simp add: min_absorb1)
qed

lemma buffer_line:
  assumes inv: "buffer_inv b" and found: "search_crlf (content b) = Some n"
  shows "findCRLF b = Some (readerIndex b + n)"
    and "\<exists>b'. retrieveUntil (readerIndex b + n + 2) b = Some b' \<and> buffer_inv b' \<and>
      content b' = drop (n + 2) (content b)"
proof -
  show "findCRLF b = Some (readerIndex b + n)" by (simp add: findCRLF_def found)
  have n: "n + 2 \<le> readableBytes b" using search_crlf_found [OF found] length_content [OF inv] by simp
  then have "retrieveUntil (readerIndex b + n + 2) b = retrieve (n + 2) b"
    using inv by (auto simp: retrieveUntil_def readableBytes_def buffer_inv_def)
  moreover obtain b' where "retrieve (n + 2) b = Some b'"
    using retrieve_ok(1) [OF inv, of "n + 2"] n length_content [OF inv]
    by (cases "retrieve (n + 2) b") auto
  ultimately show "\<exists>b'. retrieveUntil (readerIndex b + n + 2) b = Some b' \<and> buffer_inv b' \<and>
      content b' = drop (n + 2) (content b)"
    using retrieve_ok(2) [OF inv] by auto
qed

definition live :: "http_context \<Rightarrow> bool" where
  "live c \<longleftrightarrow> hc_state c = kExpectRequestLine \<or> hc_state c = kExpectHeaders"

text \<open>What the loop does on a buffer is what the function on strings does on its content.\<close>

lemma parseRequest_text:
  assumes "buffer_inv b" and "live c"
  shows "case parse_text t c (content b) of
      None \<Rightarrow> parseRequest t c b = Some Parse_aborts
    | Some (ok, c', rest) \<Rightarrow>
        \<exists>b'. parseRequest t c b = Some (Parsed ok c' b') \<and> buffer_inv b' \<and> content b' = rest"
  using assms
proof (induction "length (content b)" arbitrary: b c rule: less_induct)
  case less
  note inv = less.prems(1)
  show ?case
  proof (cases "search_crlf (content b)")
    case None
    then have "findCRLF b = None" by (simp add: findCRLF_def)
    then show ?thesis
      using inv less.prems(2) None
      by (subst parse_text.simps, subst parseRequest.simps) (auto simp: live_def)
  next
    case (Some n)
    note crlf = buffer_line(1) [OF inv Some]
    obtain b' where b': "retrieveUntil (readerIndex b + n + 2) b = Some b'" "buffer_inv b'"
      "content b' = drop (n + 2) (content b)" using buffer_line(2) [OF inv Some] by blast
    have shorter: "length (content b') < length (content b)"
      using b'(3) search_crlf_found [OF Some] by (simp only: length_drop) linarith
    have line: "take (readerIndex b + n - readerIndex b) (content b) = take n (content b)" by simp
    show ?thesis
    proof (cases "hc_state c = kExpectRequestLine")
      case True
      show ?thesis
      proof (cases "processRequestLine (take n (content b)) (hc_request c)")
        case None
        then show ?thesis
          using True Some crlf
          by (subst parse_text.simps, subst parseRequest.simps) (simp add: line)
      next
        case p: (Some okr)
        obtain ok r where okr: "okr = (ok, r)" by (cases okr)
        let ?c = "c\<lparr>hc_request := r\<lparr>mr_receiveTime := t\<rparr>, hc_state := kExpectHeaders\<rparr>"
        show ?thesis
        proof (cases ok)
          case ok: True
          have e1: "parse_text t c (content b) = parse_text t ?c (content b')"
            using True Some p okr ok b'(3) by (subst parse_text.simps) simp
          have e2: "parseRequest t c b = parseRequest t ?c b'"
            using True crlf p okr ok b'(1) by (subst parseRequest.simps) (simp add: line)
          have "live ?c" by (simp add: live_def)
          then show ?thesis unfolding e1 e2 by (rule less.hyps [OF shorter b'(2)])
        next
          case bad: False
          have "parse_text t c (content b) = Some (False, c\<lparr>hc_request := r\<rparr>, content b)"
            using True Some p okr bad by (subst parse_text.simps) simp
          moreover have "parseRequest t c b = Some (Parsed False (c\<lparr>hc_request := r\<rparr>) b)"
            using True crlf p okr bad by (subst parseRequest.simps) (simp add: line)
          ultimately show ?thesis using inv by simp
        qed
      qed
    next
      case False
      then have st: "hc_state c = kExpectHeaders" using less.prems(2) by (simp add: live_def)
      show ?thesis
      proof (cases "memchr (CHR '':'') (take n (content b))")
        case None
        then show ?thesis
          using st Some crlf b'
          by (subst parse_text.simps, subst parseRequest.simps) (simp add: line Let_def)
      next
        case m: (Some i)
        let ?l = "take n (content b)"
        let ?c = "c\<lparr>hc_request := addHeader (take i ?l) (drop (i + 1) ?l) (hc_request c)\<rparr>"
        have e1: "parse_text t c (content b) = parse_text t ?c (content b')"
          using st Some m memchr_take [OF m] b'(3) by (subst parse_text.simps) simp
        have e2: "parseRequest t c b = parseRequest t ?c b'"
          using st crlf m b'(1) by (subst parseRequest.simps) (simp add: line Let_def)
        have "live ?c" using st by (simp add: live_def)
        then show ?thesis unfolding e1 e2 by (rule less.hyps [OF shorter b'(2)])
      qed
    qed
  qed
qed

subsection \<open>Bytes that come in pieces\<close>

lemma search_crlf_append: "search_crlf s = Some n \<Longrightarrow> search_crlf (s @ s') = Some n"
  by (induction s arbitrary: n rule: search_crlf.induct) (auto split: if_splits)

text \<open>
  Parsing two pieces together is parsing the first, and going on with the second if the request is
  not complete. The receive time is the time of the call that completes the request line.
\<close>

definition parse_more ::
  "timestamp \<Rightarrow> string \<Rightarrow> (bool \<times> http_context \<times> string) option \<Rightarrow>
   (bool \<times> http_context \<times> string) option" where
  "parse_more t s' res =
     (case res of
        None \<Rightarrow> None
      | Some (ok, c', rest) \<Rightarrow>
          if ok \<and> \<not> gotAll c' then parse_text t c' (rest @ s') else Some (ok, c', rest @ s'))"

lemma parse_text_append:
  "live c \<Longrightarrow> parse_text t c (s @ s') = parse_more t s' (parse_text t c s)"
proof (induction t c s rule: parse_text.induct)
  case (1 t c s)
  note parse_text.simps [of t c s, simp]
  show ?case
  proof (cases "search_crlf s")
    case None
    then show ?thesis using 1(3) by (auto simp: live_def parse_more_def gotAll_def)
  next
    case (Some n)
    have pre: "n + 2 \<le> length s" using search_crlf_found [OF Some] by simp
    note found = search_crlf_append [OF Some, of s']
    show ?thesis
    proof (cases "hc_state c = kExpectRequestLine")
      case True
      show ?thesis
      proof (cases "processRequestLine (take n s) (hc_request c)")
        case None
        then show ?thesis
          using True Some found pre
          by (subst parse_text.simps [of t c "s @ s'"]) (simp add: parse_more_def)
      next
        case p: (Some okr)
        obtain ok r where okr: "okr = (ok, r)" by (cases okr)
        let ?c = "c\<lparr>hc_request := r\<lparr>mr_receiveTime := t\<rparr>, hc_state := kExpectHeaders\<rparr>"
        show ?thesis
        proof (cases ok)
          case ok: True
          have "parse_text t c s = parse_text t ?c (drop (n + 2) s)"
            using True Some p okr ok by simp
          moreover have "parse_text t c (s @ s') = parse_text t ?c (drop (n + 2) s @ s')"
            using True p okr ok found pre by (subst parse_text.simps [of t c "s @ s'"]) simp
          moreover have "live ?c" by (simp add: live_def)
          ultimately show ?thesis using 1(1) [OF True Some p okr [symmetric] ok] by metis
        next
          case False
          then show ?thesis
            using True Some p okr found pre
            by (subst parse_text.simps [of t c "s @ s'"]) (simp add: parse_more_def)
        qed
      qed
    next
      case False
      then have st: "hc_state c = kExpectHeaders" using 1(3) by (simp add: live_def)
      show ?thesis
      proof (cases "memchr (CHR '':'') (take n s)")
        case None
        then show ?thesis
          using st Some found pre
          by (subst parse_text.simps [of t c "s @ s'"]) (simp add: parse_more_def gotAll_def)
      next
        case m: (Some i)
        let ?c = "c\<lparr>hc_request := addHeader (take i s) (drop (i + 1) (take n s)) (hc_request c)\<rparr>"
        have i: "i \<le> length s" using memchr_take [OF m] pre by simp
        have "parse_text t c s = parse_text t ?c (drop (n + 2) s)" using st Some m by simp
        moreover have "parse_text t c (s @ s') = parse_text t ?c (drop (n + 2) s @ s')"
          using st m found pre i by (subst parse_text.simps [of t c "s @ s'"]) simp
        moreover have "live ?c" using st by (simp add: live_def)
        ultimately show ?thesis using 1(2) [OF False st Some m] by metis
      qed
    qed
  qed
qed

lemma parse_text_live:
  "parse_text t c s = Some (True, c', rest) \<Longrightarrow> live c \<Longrightarrow> live c' \<or> gotAll c'"
proof (induction t c s rule: parse_text.induct)
  case (1 t c s)
  note [simp] = parse_text.simps [of t c s]
  show ?case
  proof (cases "search_crlf s")
    case None
    then show ?thesis using 1(3,4) by (auto simp: live_def)
  next
    case (Some n)
    show ?thesis
    proof (cases "hc_state c = kExpectRequestLine")
      case True
      obtain r where r: "processRequestLine (take n s) (hc_request c) = Some (True, r)"
        using 1(3) True Some by (auto split: option.splits prod.splits if_splits)
      show ?thesis
        using 1(1) [OF True Some r refl TrueI] 1(3) True Some r by (simp add: live_def)
    next
      case False
      then have st: "hc_state c = kExpectHeaders" using 1(4) by (simp add: live_def)
      show ?thesis
      proof (cases "memchr (CHR '':'') (take n s)")
        case None
        then show ?thesis using 1(3) st Some by (auto simp: gotAll_def)
      next
        case m: (Some i)
        show ?thesis using 1(2) [OF False st Some m] 1(3) st Some m by (simp add: live_def)
      qed
    qed
  qed
qed

lemma parse_text_length: "parse_text t c s = Some (ok, c', rest) \<Longrightarrow> length rest \<le> length s"
proof (induction t c s rule: parse_text.induct)
  case (1 t c s)
  note [simp] = parse_text.simps [of t c s]
  show ?case
  proof (cases "search_crlf s")
    case (Some n)
    have n: "n + 2 \<le> length s" using search_crlf_found [OF Some] by simp
    show ?thesis
      using 1(1) [OF _ Some] 1(2) [OF _ _ Some] 1(3) n Some
      by (fastforce split: option.splits prod.splits if_splits)
  qed (use 1(3) in \<open>auto split: if_splits\<close>)
qed

subsection \<open>The receive time does not matter\<close>

definition at_time :: "timestamp \<Rightarrow> http_context \<Rightarrow> http_context" where
  "at_time t c = c\<lparr>hc_request := (hc_request c)\<lparr>mr_receiveTime := t\<rparr>\<rparr>"

lemma at_time_simps [simp]:
  "hc_state (at_time t c) = hc_state c" "live (at_time t c) = live c" "gotAll (at_time t c) = gotAll c"
  "hc_request (at_time t c) = (hc_request c)\<lparr>mr_receiveTime := t\<rparr>"
  "at_time t (at_time t' c) = at_time t c"
  by (simp_all add: at_time_def live_def gotAll_def)

definition untimed ::
  "(bool \<times> http_context \<times> string) option \<Rightarrow> (bool \<times> http_context \<times> string) option" where
  "untimed = map_option (\<lambda>(ok, c, s). (ok, at_time 0 c, s))"

lemma setMethod_time:
  "setMethod m (r\<lparr>mr_receiveTime := t\<rparr>) =
     map_option (\<lambda>(ok, r). (ok, r\<lparr>mr_receiveTime := t\<rparr>)) (setMethod m r)"
  by (cases r) (simp add: setMethod_def C_assert_def Let_def)

lemma processRequestLine_time:
  "processRequestLine l (r\<lparr>mr_receiveTime := t\<rparr>) =
     map_option (\<lambda>(ok, r). (ok, r\<lparr>mr_receiveTime := t\<rparr>)) (processRequestLine l r)"
proof (cases "memchr SP l")
  case None
  then show ?thesis by (simp add: processRequestLine_def)
next
  case (Some i)
  show ?thesis
  proof (cases "setMethod (take i l) r")
    case None
    then show ?thesis using Some by (simp add: processRequestLine_def setMethod_time)
  next
    case m: (Some kr)
    obtain known r' where kr: "kr = (known, r')" by (cases kr)
    show ?thesis
      using Some m kr
      by (cases r')
        (simp add: processRequestLine_def setMethod_time Let_def split: option.split)
  qed
qed

lemma parse_text_time: "untimed (parse_text t' (at_time u c) s) = untimed (parse_text t c s)"
proof (induction t c s arbitrary: t' u rule: parse_text.induct)
  case (1 t c s)
  note [simp] = parse_text.simps [of t c s] parse_text.simps [of t' "at_time u c" s]
  show ?case
  proof (cases "search_crlf s")
    case None
    then show ?thesis by (simp add: untimed_def)
  next
    case (Some n)
    show ?thesis
    proof (cases "hc_state c = kExpectRequestLine")
      case True
      show ?thesis
      proof (cases "processRequestLine (take n s) (hc_request c)")
        case None
        then show ?thesis using True Some by (simp add: processRequestLine_time untimed_def)
      next
        case p: (Some okr)
        obtain ok r where okr: "okr = (ok, r)" by (cases okr)
        let ?c = "\<lambda>c t r. c\<lparr>hc_request := r\<lparr>mr_receiveTime := t\<rparr>, hc_state := kExpectHeaders\<rparr>"
        show ?thesis
        proof (cases ok)
          case ok: True
          have e: "?c (at_time u c) t' r = at_time t' (?c c t r)"
            by (cases c, cases r) (simp add: at_time_def)
          have "parse_text t' (at_time u c) s =
              parse_text t' (?c (at_time u c) t' r) (drop (n + 2) s)"
            using True Some p okr ok by (simp add: processRequestLine_time)
          moreover have "parse_text t c s = parse_text t (?c c t r) (drop (n + 2) s)"
            using True Some p okr ok by simp
          ultimately show ?thesis
            unfolding e using 1(1) [OF True Some p okr [symmetric] ok, of t' t'] by simp
        next
          case False
          have "at_time 0 ((at_time u c)\<lparr>hc_request := r\<lparr>mr_receiveTime := u\<rparr>\<rparr>) =
              at_time 0 (c\<lparr>hc_request := r\<rparr>)"
            by (cases c, cases r) (simp add: at_time_def)
          then show ?thesis
            using True Some p okr False by (simp add: processRequestLine_time untimed_def)
        qed
      qed
    next
      case nl: False
      show ?thesis
      proof (cases "hc_state c = kExpectHeaders")
        case True
        show ?thesis
        proof (cases "memchr (CHR '':'') (take n s)")
          case None
          have "at_time 0 ((at_time u c)\<lparr>hc_state := kGotAll\<rparr>) = at_time 0 (c\<lparr>hc_state := kGotAll\<rparr>)"
            by (cases c, cases "hc_request c") (simp add: at_time_def)
          then show ?thesis using True Some None by (simp add: untimed_def)
        next
          case m: (Some i)
          let ?add = "addHeader (take i s) (drop (i + 1) (take n s))"
          have "(at_time u c)\<lparr>hc_request := ?add ((hc_request c)\<lparr>mr_receiveTime := u\<rparr>)\<rparr> =
              at_time u (c\<lparr>hc_request := ?add (hc_request c)\<rparr>)"
            by (cases c, cases "hc_request c") (simp add: at_time_def addHeader_def)
          then show ?thesis
            using True Some m 1(2) [OF nl True Some m, of t' u] by simp
        qed
      next
        case False
        then show ?thesis using nl by (simp add: untimed_def)
      qed
    qed
  qed
qed

end
