(* ===== verification/Muduo_Http_Server.thy ===== *)
theory Muduo_Http_Server
  imports Muduo_Http Muduo_Prelude Http_Response
begin

text \<open>
  \<open>HttpResponse\<close> and \<open>HttpServer\<close> of \<^verbatim>\<open>muduo/net/http\<close>. The calls on the connection are
  recorded in their order; the callback may change the response and a world of its own.
\<close>

subsection \<open>The response\<close>

datatype status_code =
  Unknown_status | k200Ok | k301MovedPermanently | k400BadRequest | k404NotFound

fun status_number :: "status_code \<Rightarrow> int" where
  "status_number Unknown_status = 0"
| "status_number k200Ok = 200"
| "status_number k301MovedPermanently = 301"
| "status_number k400BadRequest = 400"
| "status_number k404NotFound = 404"

record muduo_response =
  rp_headers :: string_map
  rp_statusCode :: status_code
  rp_statusMessage :: string
  rp_closeConnection :: bool
  rp_body :: string

definition new_muduo_response :: "bool \<Rightarrow> muduo_response" where
  "new_muduo_response close =
     \<lparr>rp_headers = [], rp_statusCode = Unknown_status, rp_statusMessage = [],
      rp_closeConnection = close, rp_body = []\<rparr>"

definition response_addHeader :: "string \<Rightarrow> string \<Rightarrow> muduo_response \<Rightarrow> muduo_response" where
  "response_addHeader key value r = r\<lparr>rp_headers := map_assign key value (rp_headers r)\<rparr>"

definition setContentType :: "string \<Rightarrow> muduo_response \<Rightarrow> muduo_response" where
  "setContentType contentType = response_addHeader ''Content-Type'' contentType"

text \<open>\<open>appendToBuffer\<close>: the pieces it appends, with the texts that go through an array of 32 bytes.\<close>

definition response_pieces :: "muduo_response \<Rightarrow> string list" where
  "response_pieces r =
     [snprintf_text 32 (''HTTP/1.1 '' @ int_text (status_number (rp_statusCode r)) @ '' ''),
      rp_statusMessage r, kCRLF] @
     (if rp_closeConnection r then [''Connection: close'' @ kCRLF]
      else [snprintf_text 32 (''Content-Length: '' @ int_text (int (length (rp_body r))) @ kCRLF),
            ''Connection: Keep-Alive'' @ kCRLF]) @
     concat (map (\<lambda>(k, v). [k, '': '', v, kCRLF]) (rp_headers r)) @
     [kCRLF, rp_body r]"

definition appendToBuffer :: "muduo_response \<Rightarrow> net_buffer \<Rightarrow> net_buffer option" where
  "appendToBuffer r output = run_all append_bytes (response_pieces r) output"

subsection \<open>The server\<close>

type_synonym 'w http_callback = "muduo_request \<Rightarrow> muduo_response \<Rightarrow> 'w \<Rightarrow> muduo_response \<times> 'w"

definition defaultHttpCallback :: "'w http_callback" where
  "defaultHttpCallback req resp w =
     (resp\<lparr>rp_statusCode := k404NotFound, rp_statusMessage := ''Not Found'',
           rp_closeConnection := True\<rparr>, w)"

datatype http_conn_op = Conn_send string | Conn_shutdown

definition muduo_onRequest ::
  "'w http_callback \<Rightarrow> muduo_request \<Rightarrow> 'w \<Rightarrow> (http_conn_op list \<times> 'w) option" where
  "muduo_onRequest cb req w = do {
     let connection = getHeader req ''Connection'';
     let close = (connection = ''close'' \<or>
                  (mr_version req = kHttp10 \<and> connection \<noteq> ''Keep-Alive''));
     let (response, w) = cb req (new_muduo_response close) w;
     buf \<leftarrow> appendToBuffer response (new_buffer kInitialSize);
     Some ([Conn_send (content buf)] @ (if rp_closeConnection response then [Conn_shutdown] else []), w)
   }"

datatype 'w http_reaction = Reaction http_context net_buffer "http_conn_op list" 'w | Reaction_aborts

definition bad_request_text :: string where
  "bad_request_text = ''HTTP/1.1 400 Bad Request'' @ kCRLF @ kCRLF"

definition muduo_onMessage ::
  "'w http_callback \<Rightarrow> timestamp \<Rightarrow> http_context \<Rightarrow> net_buffer \<Rightarrow> 'w \<Rightarrow> 'w http_reaction option" where
  "muduo_onMessage cb receiveTime context buf w =
     (case parseRequest receiveTime context buf of
        None \<Rightarrow> None
      | Some Parse_aborts \<Rightarrow> Some Reaction_aborts
      | Some (Parsed ok context buf) \<Rightarrow>
          let ops = (if ok then [] else [Conn_send bad_request_text, Conn_shutdown]) in
          if gotAll context then
            (case muduo_onRequest cb (hc_request context) w of
               None \<Rightarrow> Some Reaction_aborts
             | Some (ops', w) \<Rightarrow> Some (Reaction (reset_context context) buf (ops @ ops') w))
          else Some (Reaction context buf ops w))"

text \<open>\<open>onConnection\<close>: a new connection gets a new context.\<close>

definition muduo_onConnection :: "bool \<Rightarrow> http_context option \<Rightarrow> http_context option" where
  "muduo_onConnection connected context = (if connected then Some new_http_context else context)"

subsection \<open>The text of a response\<close>

lemma append_all_content:
  "buffer_inv b \<Longrightarrow> \<exists>b'. run_all append_bytes ps b = Some b' \<and> buffer_inv b' \<and>
     content b' = content b @ concat ps"
proof (induction ps arbitrary: b)
  case (Cons p ps)
  obtain b1 where b1: "append_bytes p b = Some b1" "buffer_inv b1" "content b1 = content b @ p"
    using append_ok [OF Cons.prems] by blast
  with Cons.IH [OF b1(2)] show ?case by auto
qed simp

definition response_text :: "muduo_response \<Rightarrow> string" where
  "response_text r = concat (response_pieces r)"

lemma appendToBuffer_text:
  "\<exists>b. appendToBuffer r (new_buffer kInitialSize) = Some b \<and> content b = response_text r"
  using append_all_content [of "new_buffer kInitialSize" "response_pieces r"]
    new_buffer_ok [of kInitialSize]
  by (auto simp: appendToBuffer_def response_text_def)

text \<open>What the server answers to a request.\<close>

definition answer_to :: "'w http_callback \<Rightarrow> muduo_request \<Rightarrow> 'w \<Rightarrow> http_conn_op list \<times> 'w" where
  "answer_to cb req w =
     (let connection = getHeader req ''Connection'';
          close = (connection = ''close'' \<or> (mr_version req = kHttp10 \<and> connection \<noteq> ''Keep-Alive''));
          (response, w) = cb req (new_muduo_response close) w
      in (Conn_send (response_text response) #
            (if rp_closeConnection response then [Conn_shutdown] else []), w))"

lemma muduo_onRequest_answer: "muduo_onRequest cb req w = Some (answer_to cb req w)"
proof -
  let ?close = "getHeader req ''Connection'' = ''close'' \<or>
    (mr_version req = kHttp10 \<and> getHeader req ''Connection'' \<noteq> ''Keep-Alive'')"
  obtain resp w' where cb: "cb req (new_muduo_response ?close) w = (resp, w')"
    by (cases "cb req (new_muduo_response ?close) w")
  obtain b where "appendToBuffer resp (new_buffer kInitialSize) = Some b" "content b = response_text resp"
    using appendToBuffer_text by blast
  then show ?thesis by (simp add: muduo_onRequest_def answer_to_def Let_def cb)
qed

text \<open>The text can be read back.\<close>

definition muduo_response_ok :: "muduo_response \<Rightarrow> bool" where
  "muduo_response_ok r \<longleftrightarrow>
     CR \<notin> set (rp_statusMessage r) \<and> list_all field_ok (rp_headers r) \<and> length (rp_body r) < 10 ^ 12"

definition all_fields :: "muduo_response \<Rightarrow> (string \<times> string) list" where
  "all_fields r =
     (if rp_closeConnection r then [(''Connection'', ''close'')]
      else [(''Content-Length'', int_text (int (length (rp_body r)))), (''Connection'', ''Keep-Alive'')]) @
     rp_headers r"

lemma concat_fields:
  "concat (concat (map (\<lambda>(k, v). [k, '': '', v, kCRLF]) hs)) = concat (map header_line hs)"
  by (induction hs) (auto simp: header_line_def kCRLF_def)

lemma int_text_no [simp]: "CR \<notin> set (int_text i)" "SP \<notin> set (int_text i)"
  using int_text_chars [of i] by auto

lemma status_number_short: "length (int_text (status_number c)) \<le> 4"
proof -
  have "\<bar>status_number c\<bar> < 10 ^ 3" by (cases c) simp_all
  from int_text_length [OF this] show ?thesis by simp
qed

lemma response_text_lines:
  assumes "muduo_response_ok r"
  shows "response_text r =
    (''HTTP/1.1 '' @ int_text (status_number (rp_statusCode r)) @ '' '' @ rp_statusMessage r) @ CR # LF #
    concat (map header_line (all_fields r)) @ CR # LF # rp_body r"
proof -
  let ?n = "int_text (int (length (rp_body r)))"
  have "length ?n \<le> 13"
    using int_text_length [of "int (length (rp_body r))" 12] assms by (simp add: muduo_response_ok_def)
  then have cut: "snprintf_text 32 (''Content-Length: '' @ ?n @ kCRLF) = ''Content-Length: '' @ ?n @ kCRLF"
    unfolding snprintf_text_def by (intro take_all) (simp add: kCRLF_def)
  have "snprintf_text 32 (''HTTP/1.1 '' @ int_text (status_number (rp_statusCode r)) @ '' '') =
      ''HTTP/1.1 '' @ int_text (status_number (rp_statusCode r)) @ '' ''"
    unfolding snprintf_text_def
    using status_number_short [of "rp_statusCode r"] by (intro take_all) simp
  then show ?thesis
    using cut concat_fields [of "rp_headers r"]
    by (simp add: response_text_def response_pieces_def all_fields_def header_line_def kCRLF_def)
qed

lemma read_muduo_response:
  assumes "muduo_response_ok r"
  shows "read_response (response_text r) =
    Some (int_text (status_number (rp_statusCode r)), rp_statusMessage r, all_fields r, rp_body r)"
proof -
  let ?code = "int_text (status_number (rp_statusCode r))"
  let ?line = "''HTTP/1.1 '' @ ?code @ '' '' @ rp_statusMessage r"
  have "CR \<notin> set ?line" using assms by (simp add: muduo_response_ok_def)
  from read_line_found [OF this]
  have "read_line (response_text r) =
      Some (?line, concat (map header_line (all_fields r)) @ CR # LF # rp_body r)"
    unfolding response_text_lines [OF assms] .
  moreover have "list_all field_ok (all_fields r)"
    using assms by (simp add: all_fields_def muduo_response_ok_def field_ok_def)
  ultimately show ?thesis
    using read_fields_lines [of "all_fields r" "rp_body r"]
      read_status_line_text [of ?code "rp_statusMessage r"]
    by (simp add: read_response_def)
qed

end
