(* ===== verification/Muduo_Http_Theorems.thy ===== *)
theory Muduo_Http_Theorems
  imports Muduo_Http_Server Http_Request
begin

text \<open>
  The properties of muduo's HTTP server: what a request text is, that it is read whatever the pieces
  it comes in, what is answered, and what happens to a line that is no request.
\<close>

subsection \<open>The text of a request\<close>

definition muduo_request_text ::
  "request_method \<Rightarrow> string \<Rightarrow> string \<Rightarrow> bool \<Rightarrow> (string \<times> string) list \<Rightarrow> string" where
  "muduo_request_text m path query new hs =
     (methodString m @ '' '' @ path @ query @ '' HTTP/1.'' @ (if new then ''1'' else ''0'')) @ CR # LF #
     concat (map header_line hs) @ CR # LF # []"

definition trimmed :: "string \<Rightarrow> bool" where
  "trimmed v \<longleftrightarrow> v = [] \<or> \<not> is_space (hd v) \<and> \<not> is_space (last v)"

definition muduo_parts_ok ::
  "request_method \<Rightarrow> string \<Rightarrow> string \<Rightarrow> (string \<times> string) list \<Rightarrow> bool" where
  "muduo_parts_ok m path query hs \<longleftrightarrow>
     m \<noteq> kInvalid \<and> set path \<inter> {SP, CR, CHR ''?''} = {} \<and> set query \<inter> {SP, CR} = {} \<and>
     (query = [] \<or> hd query = CHR ''?'') \<and> list_all field_ok hs \<and> list_all (trimmed \<circ> snd) hs"

text \<open>The request that is read; \<open>t\<close> is the time of the call that completed its first line.\<close>

definition request_read ::
  "request_method \<Rightarrow> string \<Rightarrow> string \<Rightarrow> bool \<Rightarrow> (string \<times> string) list \<Rightarrow> timestamp \<Rightarrow> muduo_request" where
  "request_read m path query new hs t =
     \<lparr>mr_method = m, mr_version = (if new then kHttp11 else kHttp10), mr_path = path,
      mr_query = query, mr_receiveTime = t, mr_headers = assign_all hs []\<rparr>"

lemma search_crlf_line: "CR \<notin> set l \<Longrightarrow> search_crlf (l @ CR # LF # s) = Some (length l)"
proof (induction l)
  case (Cons c l)
  then show ?case by (cases l) auto
qed simp

lemma take_front: "take (length l) (l @ s) = l"
  by simp

lemma memchr_first: "c \<notin> set s \<Longrightarrow> memchr c (s @ c # rest) = Some (length s)"
  by (induction s) auto

lemma parse_first_line:
  assumes "CR \<notin> set l" and "hc_state c = kExpectRequestLine"
    and "processRequestLine l (hc_request c) = Some (True, r)"
  shows "parse_text t c (l @ CR # LF # s) =
    parse_text t (c\<lparr>hc_request := r\<lparr>mr_receiveTime := t\<rparr>, hc_state := kExpectHeaders\<rparr>) s"
  using search_crlf_line [OF assms(1), of s] assms(2,3) by (subst parse_text.simps) simp

lemma parse_header_line:
  assumes "CR \<notin> set l" and "hc_state c = kExpectHeaders" and "memchr (CHR '':'') l = Some i"
  shows "parse_text t c (l @ CR # LF # s) =
    parse_text t (c\<lparr>hc_request := addHeader (take i l) (drop (i + 1) l) (hc_request c)\<rparr>) s"
proof -
  have "i < length l" using memchr_Some [OF assms(3)] by simp
  then show ?thesis
    using search_crlf_line [OF assms(1), of s] assms(2,3) by (subst parse_text.simps) simp
qed

lemma trim_value:
  assumes "trimmed v"
  shows "trim_right (dropWhile is_space (SP # v)) = v"
proof (cases "v = []")
  case False
  then obtain a x where v: "v = a # x" by (cases v) auto
  obtain b y where r: "rev v = b # y" using False by (cases "rev v") auto
  have "last v = b" using r False by (simp add: last_rev [symmetric, of "rev v", simplified] hd_rev [symmetric])
  then have "\<not> is_space a" "\<not> is_space b" using assms v by (auto simp: trimmed_def)
  then have "dropWhile is_space v = v" "dropWhile is_space (rev v) = rev v" using v r by simp_all
  then show ?thesis by (simp add: trim_right_def is_space_def)
qed (simp add: trim_right_def is_space_def)

lemma processRequestLine_read:
  assumes "muduo_parts_ok m path query hs" and "mr_method r = kInvalid" and "mr_query r = []"
  shows "processRequestLine
      (methodString m @ '' '' @ path @ query @ '' HTTP/1.'' @ (if new then ''1'' else ''0'')) r =
    Some (True, r\<lparr>mr_method := m, mr_path := path, mr_query := query,
      mr_version := (if new then kHttp11 else kHttp10)\<rparr>)"
proof -
  let ?v = "''HTTP/1.'' @ (if new then ''1'' else ''0'')"
  let ?t = "path @ query"
  have ms: "SP \<notin> set (methodString m)" by (cases m) simp_all
  have sm: "setMethod (methodString m) r = Some (True, r\<lparr>mr_method := m\<rparr>)"
    using assms(1,2) by (cases m) (simp_all add: setMethod_def muduo_parts_ok_def)
  have t: "SP \<notin> set ?t" using assms(1) by (auto simp: muduo_parts_ok_def)
  have line: "methodString m @ '' '' @ path @ query @ '' HTTP/1.'' @ (if new then ''1'' else ''0'') =
      methodString m @ SP # ?t @ SP # ?v" by simp
  have q: "(case memchr (CHR ''?'') ?t of
        Some q \<Rightarrow> r\<lparr>mr_method := m, mr_path := take q ?t, mr_query := drop q ?t\<rparr>
      | None \<Rightarrow> r\<lparr>mr_method := m, mr_path := ?t\<rparr>) =
      r\<lparr>mr_method := m, mr_path := path, mr_query := query\<rparr>"
  proof (cases query)
    case Nil
    then have "memchr (CHR ''?'') ?t = None"
      using assms(1) by (auto simp: memchr_None muduo_parts_ok_def)
    then show ?thesis using Nil assms(3) by (cases r) simp
  next
    case (Cons c query')
    then have "memchr (CHR ''?'') ?t = Some (length path)"
      using assms(1) memchr_first [of "CHR ''?''" path query'] by (auto simp: muduo_parts_ok_def)
    then show ?thesis by simp
  qed
  show ?thesis
    unfolding line processRequestLine_def memchr_first [OF ms]
    using sm memchr_first [OF t, of ?v] q by simp
qed

lemma parse_header_lines:
  assumes "list_all field_ok hs" and "list_all (trimmed \<circ> snd) hs" and "hc_state c = kExpectHeaders"
  shows "parse_text t c (concat (map header_line hs) @ CR # LF # rest) =
    Some (True, c\<lparr>hc_state := kGotAll,
      hc_request := (hc_request c)\<lparr>mr_headers := assign_all hs (mr_headers (hc_request c))\<rparr>\<rparr>, rest)"
  using assms
proof (induction hs arbitrary: c)
  case Nil
  have "search_crlf (CR # LF # rest) = Some 0" by simp
  then show ?case
    using Nil by (subst parse_text.simps) (simp add: assign_all_def)
next
  case (Cons h hs)
  obtain k v where h: "h = (k, v)" by (cases h)
  let ?l = "k @ '': '' @ v"
  let ?rest = "concat (map header_line hs) @ CR # LF # rest"
  let ?c = "c\<lparr>hc_request := (hc_request c)\<lparr>mr_headers := map_assign k v (mr_headers (hc_request c))\<rparr>\<rparr>"
  have ok: "CR \<notin> set ?l" "CHR '':'' \<notin> set k" "trimmed v"
    using Cons.prems(1,2) by (auto simp: field_ok_def h)
  have split: "concat (map header_line (h # hs)) @ CR # LF # rest = ?l @ CR # LF # ?rest"
    by (simp add: header_line_def h)
  have colon: "memchr (CHR '':'') ?l = Some (length k)"
    using memchr_first [OF ok(2), of "SP # v"] by simp
  have "take (length k) ?l = k" "drop (length k + 1) ?l = SP # v" by simp_all
  moreover have "addHeader k (SP # v) (hc_request c) = hc_request ?c"
    unfolding addHeader_def trim_value [OF ok(3)] by simp
  ultimately have "parse_text t c (?l @ CR # LF # ?rest) = parse_text t ?c ?rest"
    unfolding parse_header_line [OF ok(1) Cons.prems(3) colon] by simp
  also have "\<dots> = Some (True, ?c\<lparr>hc_state := kGotAll,
      hc_request := (hc_request ?c)\<lparr>mr_headers := assign_all hs (mr_headers (hc_request ?c))\<rparr>\<rparr>, rest)"
    using Cons.prems by (intro Cons.IH) simp_all
  finally show ?case
    unfolding split by (simp add: assign_all_def h)
qed

definition ready_context :: "http_context \<Rightarrow> bool" where
  "ready_context c \<longleftrightarrow>
     hc_state c = kExpectRequestLine \<and> mr_method (hc_request c) = kInvalid \<and>
     mr_query (hc_request c) = [] \<and> mr_headers (hc_request c) = []"

lemma ready_contexts: "ready_context new_http_context" "ready_context (reset_context c)"
  by (simp_all add: ready_context_def new_http_context_def reset_context_def swap_requests_def
      new_muduo_request_def)

lemma parse_request_text:
  assumes ok: "muduo_parts_ok m path query hs" and ready: "ready_context c"
  shows "parse_text t c (muduo_request_text m path query new hs @ rest) =
    Some (True, \<lparr>hc_state = kGotAll, hc_request = request_read m path query new hs t\<rparr>, rest)"
proof -
  let ?l = "methodString m @ '' '' @ path @ query @ '' HTTP/1.'' @ (if new then ''1'' else ''0'')"
  let ?rest = "concat (map header_line hs) @ CR # LF # rest"
  have split: "muduo_request_text m path query new hs @ rest = ?l @ CR # LF # ?rest"
    by (simp add: muduo_request_text_def)
  have "CR \<notin> set (methodString m)" by (cases m) simp_all
  then have no_cr: "CR \<notin> set ?l" using ok by (auto simp: muduo_parts_ok_def)
  let ?r = "(hc_request c)\<lparr>mr_method := m, mr_path := path, mr_query := query,
      mr_version := (if new then kHttp11 else kHttp10)\<rparr>"
  have "processRequestLine ?l (hc_request c) = Some (True, ?r)"
    using ready by (intro processRequestLine_read [OF ok]) (simp_all add: ready_context_def)
  from parse_first_line [OF no_cr _ this] ready
  have "parse_text t c (?l @ CR # LF # ?rest) =
      parse_text t (c\<lparr>hc_request := ?r\<lparr>mr_receiveTime := t\<rparr>, hc_state := kExpectHeaders\<rparr>) ?rest"
    by (simp add: ready_context_def)
  then show ?thesis
    unfolding split using ok ready
    by (cases c, cases "hc_request c")
      (simp add: parse_header_lines muduo_parts_ok_def request_read_def ready_context_def)
qed

subsection \<open>Messages\<close>

text \<open>The server gets the bytes of a connection piece by piece; the calls it makes, per piece.\<close>

primrec serve_pieces ::
  "'w http_callback \<Rightarrow> (timestamp \<times> string) list \<Rightarrow> http_context \<times> net_buffer \<times> 'w \<Rightarrow>
   (http_conn_op list list \<times> http_context \<times> net_buffer \<times> 'w) option" where
  "serve_pieces cb [] s = Some ([], s)"
| "serve_pieces cb (p # ps) s =
     (case s of (c, b, w) \<Rightarrow>
        (case append_bytes (snd p) b of
           None \<Rightarrow> None
         | Some b1 \<Rightarrow>
             (case muduo_onMessage cb (fst p) c b1 w of
                Some (Reaction c' b' ops w') \<Rightarrow>
                  map_option (\<lambda>(rest, s'). (ops # rest, s')) (serve_pieces cb ps (c', b', w'))
              | _ \<Rightarrow> None)))"

lemma at_own_time: "at_time (mr_receiveTime (hc_request c)) c = c"
  by (simp add: at_time_def)

lemma untimed_other: "untimed (parse_text t c s) = untimed (parse_text t' c s)"
  using parse_text_time [of t "mr_receiveTime (hc_request c)" c s t'] by (simp add: at_own_time)

lemma untimed_Some:
  "untimed res = Some (ok, cf, rest) \<Longrightarrow> \<exists>c'. res = Some (ok, c', rest) \<and> at_time 0 c' = cf"
  by (auto simp: untimed_def)

text \<open>A piece that does not end the request is kept, and nothing is answered.\<close>

lemma piece_step:
  assumes "live c" and "buffer_inv b" and "gotAll cf" and "length rest < length behind"
    and parse: "untimed (parse_text 0 c (content b @ behind)) = Some (True, cf, rest)"
  shows "\<exists>c' b'. muduo_onMessage cb t c b w = Some (Reaction c' b' [] w) \<and> live c' \<and> buffer_inv b' \<and>
    untimed (parse_text 0 c' (content b' @ behind)) = Some (True, cf, rest) \<and>
    length (content b') \<le> length (content b)"
proof -
  from untimed_Some [OF parse [unfolded untimed_other [of 0 _ _ t]]] obtain c1
    where c1: "parse_more t behind (parse_text t c (content b)) = Some (True, c1, rest)" "at_time 0 c1 = cf"
    unfolding parse_text_append [OF assms(1)] by blast
  have done_c1: "gotAll c1" using c1(2) assms(3) by auto
  obtain ok c' s where p: "parse_text t c (content b) = Some (ok, c', s)"
    using c1(1) by (cases "parse_text t c (content b)") (auto simp: parse_more_def)
  have going: "ok \<and> \<not> gotAll c'"
  proof (rule ccontr)
    assume "\<not> (ok \<and> \<not> gotAll c')"
    then have "rest = s @ behind" using c1(1) p by (auto simp: parse_more_def split: if_splits)
    then show False using assms(4) by simp
  qed
  then have "parse_text t c' (s @ behind) = Some (True, c1, rest)"
    using c1(1) p by (simp add: parse_more_def)
  then have again: "untimed (parse_text 0 c' (s @ behind)) = Some (True, cf, rest)"
    using untimed_other [of 0 c' "s @ behind" t] c1(2) by (simp add: untimed_def)
  obtain b' where b': "parseRequest t c b = Some (Parsed ok c' b')" "buffer_inv b'" "content b' = s"
    using parseRequest_text [OF assms(2,1), of t] p by auto
  have "live c'" using parse_text_live [of t c "content b" c' s] p going assms(1) by simp
  moreover have "length s \<le> length (content b)" using parse_text_length [OF p] .
  ultimately show ?thesis using b' going again by (simp add: muduo_onMessage_def)
qed

text \<open>The piece that ends it is answered.\<close>

lemma piece_last:
  assumes "live c" and "buffer_inv b" and "gotAll cf"
    and parse: "untimed (parse_text 0 c (content b)) = Some (True, cf, rest)"
  shows "\<exists>c' b'. muduo_onMessage cb t c b w =
      Some (Reaction (reset_context c') b' (fst (answer_to cb (hc_request c') w))
        (snd (answer_to cb (hc_request c') w))) \<and>
    at_time 0 c' = cf \<and> buffer_inv b' \<and> content b' = rest"
proof -
  from untimed_Some [OF parse [unfolded untimed_other [of 0 _ _ t]]] obtain c'
    where c': "parse_text t c (content b) = Some (True, c', rest)" "at_time 0 c' = cf" by blast
  then have "gotAll c'" using assms(3) by auto
  moreover obtain b' where "parseRequest t c b = Some (Parsed True c' b')" "buffer_inv b'"
    "content b' = rest"
    using parseRequest_text [OF assms(2,1), of t] c'(1) by auto
  ultimately show ?thesis
    using c'(2)
    by (intro exI [of _ c'] exI [of _ b'])
      (simp add: muduo_onMessage_def muduo_onRequest_answer case_prod_beta)
qed

lemma serve_pieces_parse:
  assumes "live c" and "buffer_inv b" and "gotAll cf" and "length rest < length (snd p)"
    and "untimed (parse_text 0 c (content b @ concat (map snd ps) @ snd p)) = Some (True, cf, rest)"
  shows "\<exists>c' b'. serve_pieces cb (ps @ [p]) (c, b, w) =
      Some (replicate (length ps) [] @ [fst (answer_to cb (hc_request c') w)],
        reset_context c', b', snd (answer_to cb (hc_request c') w)) \<and>
    at_time 0 c' = cf \<and> buffer_inv b' \<and> content b' = rest"
  using assms
proof (induction ps arbitrary: c b)
  case Nil
  obtain b1 where b1: "append_bytes (snd p) b = Some b1" "buffer_inv b1" "content b1 = content b @ snd p"
    using append_ok [OF Nil.prems(2)] by blast
  have "untimed (parse_text 0 c (content b1)) = Some (True, cf, rest)" using Nil.prems(5) b1(3) by simp
  from piece_last [OF Nil.prems(1) b1(2) Nil.prems(3) this, of cb "fst p" w]
  obtain c' b' where r: "muduo_onMessage cb (fst p) c b1 w =
      Some (Reaction (reset_context c') b' (fst (answer_to cb (hc_request c') w))
        (snd (answer_to cb (hc_request c') w)))"
    "at_time 0 c' = cf" "buffer_inv b'" "content b' = rest" by blast
  show ?case
    by (rule exI [of _ c'], rule exI [of _ b']) (simp add: b1(1) r)
next
  case (Cons q ps)
  obtain b1 where b1: "append_bytes (snd q) b = Some b1" "buffer_inv b1" "content b1 = content b @ snd q"
    using append_ok [OF Cons.prems(2)] by blast
  let ?behind = "concat (map snd ps) @ snd p"
  have len: "length rest < length ?behind" using Cons.prems(4) by simp
  have "untimed (parse_text 0 c (content b1 @ ?behind)) = Some (True, cf, rest)"
    using Cons.prems(5) b1(3) by simp
  from piece_step [OF Cons.prems(1) b1(2) Cons.prems(3) len this, of cb "fst q" w]
  obtain c1 b2 where s: "muduo_onMessage cb (fst q) c b1 w = Some (Reaction c1 b2 [] w)" "live c1"
    "buffer_inv b2" "untimed (parse_text 0 c1 (content b2 @ ?behind)) = Some (True, cf, rest)" by blast
  from Cons.IH [OF s(2,3) Cons.prems(3,4) s(4)] obtain c' b' where
    "serve_pieces cb (ps @ [p]) (c1, b2, w) =
      Some (replicate (length ps) [] @ [fst (answer_to cb (hc_request c') w)],
        reset_context c', b', snd (answer_to cb (hc_request c') w))"
    "at_time 0 c' = cf" "buffer_inv b'" "content b' = rest" by blast
  then show ?case by (intro exI [of _ c'] exI [of _ b']) (simp add: b1(1) s(1))
qed

subsection \<open>The properties\<close>

text \<open>C29: whatever the pieces a request comes in, nothing is answered before its last byte is there, and
  the piece that holds it is answered with exactly the response to that request; the bytes behind
  the request stay in the buffer, even if they are a whole request, and the context is ready for the
  next one.
\<close>

theorem muduo_request_answered:
  assumes "muduo_parts_ok m path query hs" and "ready_context c" and "buffer_inv b"
    and "content b @ concat (map snd ps) @ snd p = muduo_request_text m path query new hs @ rest"
    and "length rest < length (snd p)"
  shows "\<exists>t c' b'. let answer = answer_to cb (request_read m path query new hs t) w in
    serve_pieces cb (ps @ [p]) (c, b, w) =
      Some (replicate (length ps) [] @ [fst answer], c', b', snd answer) \<and>
    ready_context c' \<and> buffer_inv b' \<and> content b' = rest"
proof -
  let ?cf = "\<lparr>hc_state = kGotAll, hc_request = request_read m path query new hs 0\<rparr>"
  have parse: "untimed (parse_text 0 c (content b @ concat (map snd ps) @ snd p)) = Some (True, ?cf, rest)"
    unfolding assms(4) parse_request_text [OF assms(1,2)]
    by (simp add: untimed_def at_time_def request_read_def)
  have "live c" using assms(2) by (simp add: ready_context_def live_def)
  moreover have "gotAll ?cf" by (simp add: gotAll_def)
  ultimately have "\<exists>c' b'. serve_pieces cb (ps @ [p]) (c, b, w) =
      Some (replicate (length ps) [] @ [fst (answer_to cb (hc_request c') w)],
        reset_context c', b', snd (answer_to cb (hc_request c') w)) \<and>
      at_time 0 c' = ?cf \<and> buffer_inv b' \<and> content b' = rest"
    by (rule serve_pieces_parse [OF _ assms(3) _ assms(5) parse])
  then obtain c' b' where s: "serve_pieces cb (ps @ [p]) (c, b, w) =
      Some (replicate (length ps) [] @ [fst (answer_to cb (hc_request c') w)],
        reset_context c', b', snd (answer_to cb (hc_request c') w))"
    "at_time 0 c' = ?cf" "buffer_inv b'" "content b' = rest"
    by (elim exE conjE)
  have "hc_request c' = request_read m path query new hs (mr_receiveTime (hc_request c'))"
    using s(2) by (cases c', cases "hc_request c'") (simp add: at_time_def request_read_def)
  then show ?thesis
    using s ready_contexts(2) [of c'] unfolding Let_def by metis
qed

definition hello_callback :: "nat http_callback" where
  "hello_callback req resp w =
     (resp\<lparr>rp_statusCode := k200Ok, rp_statusMessage := ''OK'', rp_body := mr_path req\<rparr>, w + 1)"

lemma muduo_request_answered_witness:
  "\<exists>t c' b'. let answer = answer_to hello_callback (request_read kGet ''/a'' ''?x'' True [(''Host'', ''h'')] t) 0 in
     serve_pieces hello_callback
       [(1, ''GET /a?x HT''), (2, ''TP/1.1'' @ CR # LF # ''Host: h'' @ [CR]), (3, [LF, CR, LF] @ ''GET'')]
       (new_http_context, new_buffer 16, 0) = Some ([[], [], fst answer], c', b', snd answer) \<and>
     ready_context c' \<and> buffer_inv b' \<and> content b' = ''GET''"
proof -
  let ?ps = "[(1, ''GET /a?x HT''), (2, ''TP/1.1'' @ CR # LF # ''Host: h'' @ [CR])] :: (timestamp \<times> string) list"
  let ?p = "(3, [LF, CR, LF] @ ''GET'') :: timestamp \<times> string"
  have ok: "muduo_parts_ok kGet ''/a'' ''?x'' [(''Host'', ''h'')]"
    by (simp add: muduo_parts_ok_def field_ok_def trimmed_def is_space_def less_eq_char_def)
  have b: "buffer_inv (new_buffer 16)" "content (new_buffer 16) = []"
    using new_buffer_ok [of 16] by simp_all
  have split: "content (new_buffer 16) @ concat (map snd ?ps) @ snd ?p =
      muduo_request_text kGet ''/a'' ''?x'' True [(''Host'', ''h'')] @ ''GET''"
    by (simp add: b(2) muduo_request_text_def header_line_def)
  have run: "?ps @ [?p] = [(1, ''GET /a?x HT''), (2, ''TP/1.1'' @ CR # LF # ''Host: h'' @ [CR]),
      (3, [LF, CR, LF] @ ''GET'')]" "replicate (length ?ps) [] @ [x] = [[], [], x]" for x :: "'b list"
    by simp_all
  have short: "length ''GET'' < length (snd ?p)" by simp
  show ?thesis
    using muduo_request_answered [OF ok ready_contexts(1) b(1) split short, of hello_callback 0]
    unfolding run .
qed

text \<open>C30: what \<open>HttpResponse::appendToBuffer\<close> writes is read back by an HTTP client as the status code, the
  message, the headers and the body, with \<open>Connection: close\<close> or the length of the body in front.
\<close>

theorem muduo_response_roundtrip:
  assumes "muduo_response_ok r"
  shows "\<exists>b. appendToBuffer r (new_buffer kInitialSize) = Some b \<and>
    read_response (content b) =
      Some (int_text (status_number (rp_statusCode r)), rp_statusMessage r, all_fields r, rp_body r) \<and>
    int_value (int_text (status_number (rp_statusCode r))) = status_number (rp_statusCode r)"
  using appendToBuffer_text [of r] read_muduo_response [OF assms] by auto

lemma muduo_response_roundtrip_witness:
  "\<exists>b. appendToBuffer (fst (hello_callback new_muduo_request (new_muduo_response False) 0))
       (new_buffer kInitialSize) = Some b \<and>
     read_response (content b) = Some (int_text 200, ''OK'',
       [(''Content-Length'', int_text 0), (''Connection'', ''Keep-Alive'')], [])"
  using muduo_response_roundtrip [of "fst (hello_callback new_muduo_request (new_muduo_response False) 0)"]
  by (simp add: hello_callback_def new_muduo_response_def new_muduo_request_def muduo_response_ok_def
      all_fields_def)

lemma processRequestLine_bad_version:
  assumes "m \<noteq> kInvalid" and "SP \<notin> set target" and "mr_method r = kInvalid"
    and "version \<noteq> ''HTTP/1.0''" and "version \<noteq> ''HTTP/1.1''"
  shows "\<exists>r'. processRequestLine (methodString m @ SP # target @ SP # version) r = Some (False, r') \<and>
    mr_method r' = m"
proof -
  have ms: "SP \<notin> set (methodString m)" by (cases m) simp_all
  have sm: "setMethod (methodString m) r = Some (True, r\<lparr>mr_method := m\<rparr>)"
    using assms(1,3) by (cases m) (simp_all add: setMethod_def)
  have last: "version = ''HTTP/1.'' @ [version ! 7]" if "length version = 8" "take 7 version = ''HTTP/1.''"
    using that take_Suc_conv_app_nth [of 7 version] by simp
  have "\<not> (length version = 8 \<and> take 7 version = ''HTTP/1.'' \<and>
      (version ! 7 = CHR ''1'' \<or> version ! 7 = CHR ''0''))"
    using last assms(4,5) by auto
  then show ?thesis
    unfolding processRequestLine_def memchr_first [OF ms]
    using sm memchr_first [OF assms(2), of version] by (auto simp: Let_def split: option.splits)
qed

text \<open>A request line with a known method and a version that is not HTTP/1.0 or HTTP/1.1 is answered
  with 400 and a shutdown, but the method and the line stay: the next bytes of the client, whatever they
  are, make the \<open>assert\<close> of \<open>setMethod\<close> fail, and the process ends.
\<close>

theorem bad_version_aborts:
  assumes "m \<noteq> kInvalid" and "set target \<inter> {SP, CR} = {}" and "CR \<notin> set version"
    and "version \<noteq> ''HTTP/1.0''" and "version \<noteq> ''HTTP/1.1''"
    and "ready_context c" and "buffer_inv b"
    and "content b = (methodString m @ SP # target @ SP # version) @ CR # LF # rest"
  shows "\<exists>c' b'. muduo_onMessage cb t c b w =
      Some (Reaction c' b' [Conn_send bad_request_text, Conn_shutdown] w) \<and>
    (\<exists>b''. append_bytes data b' = Some b'' \<and> muduo_onMessage cb t' c' b'' w = Some Reaction_aborts)"
proof -
  let ?l = "methodString m @ SP # target @ SP # version"
  have "CR \<notin> set (methodString m)" by (cases m) simp_all
  then have no_cr: "CR \<notin> set ?l" using assms(2,3) by auto
  have "mr_method (hc_request c) = kInvalid" using assms(6) by (simp add: ready_context_def)
  from processRequestLine_bad_version [OF assms(1) _ this assms(4,5), of target] assms(2)
  obtain r' where r': "processRequestLine ?l (hc_request c) = Some (False, r')" "mr_method r' = m" by auto
  let ?c = "c\<lparr>hc_request := r'\<rparr>"
  have first: "search_crlf (content b) = Some (length ?l)"
    unfolding assms(8) by (rule search_crlf_line [OF no_cr])
  have line: "take (length ?l) (content b) = ?l" unfolding assms(8) by (rule take_front)
  have st: "hc_state c = kExpectRequestLine" using assms(6) by (simp add: ready_context_def)
  have live: "live c" "live ?c" using st by (simp_all add: live_def)
  have "parse_text t c (content b) = Some (False, ?c, content b)"
    using first line st r'(1) by (subst parse_text.simps) simp
  then obtain b' where b': "parseRequest t c b = Some (Parsed False ?c b')" "buffer_inv b'"
    "content b' = content b"
    using parseRequest_text [OF assms(7) live(1), of t] by auto
  obtain b'' where b'': "append_bytes data b' = Some b''" "buffer_inv b''"
    "content b'' = content b' @ data" using append_ok [OF b'(2)] by blast
  have "processRequestLine ?l r' = None"
    using memchr_first [of SP "methodString m" "target @ SP # version"] r'(2) assms(1)
    by (cases m) (simp_all add: processRequestLine_def setMethod_def)
  moreover have "search_crlf (content b'') = Some (length ?l)"
    unfolding b''(3) b'(3) by (rule search_crlf_append [OF first])
  moreover have "take (length ?l) (content b'') = ?l"
    using line search_crlf_found [OF first] unfolding b''(3) b'(3) by simp
  ultimately have "parse_text t' ?c (content b'') = None"
    using st by (subst parse_text.simps) simp
  then have "parseRequest t' ?c b'' = Some Parse_aborts"
    using parseRequest_text [OF b''(2) live(2), of t'] by simp
  moreover have "\<not> gotAll ?c" using st by (simp add: gotAll_def)
  ultimately show ?thesis
    using b'(1) b''(1) by (intro exI [of _ ?c] exI [of _ b']) (simp add: muduo_onMessage_def)
qed

lemma bad_version_aborts_witness:
  "\<exists>b c' b'. content b = ''GET / HTTP/2.0'' @ [CR, LF] \<and>
     muduo_onMessage hello_callback 0 new_http_context b 0 =
       Some (Reaction c' b' [Conn_send bad_request_text, Conn_shutdown] 0) \<and>
     (\<exists>b''. append_bytes ''x'' b' = Some b'' \<and>
       muduo_onMessage hello_callback 1 c' b'' 0 = Some Reaction_aborts)"
proof -
  obtain b where b: "buffer_inv b" "content b = ''GET / HTTP/2.0'' @ [CR, LF]"
    using append_ok [of "new_buffer 0" "''GET / HTTP/2.0'' @ [CR, LF]"] new_buffer_ok [of 0] by auto
  have "\<exists>c' b'. muduo_onMessage hello_callback 0 new_http_context b 0 =
        Some (Reaction c' b' [Conn_send bad_request_text, Conn_shutdown] 0) \<and>
      (\<exists>b''. append_bytes ''x'' b' = Some b'' \<and>
        muduo_onMessage hello_callback 1 c' b'' 0 = Some Reaction_aborts)"
    by (rule bad_version_aborts [of kGet "''/''" "''HTTP/2.0''" _ _ "[]"])
      (simp_all add: b ready_contexts(1))
  then show ?thesis using b(2) by blast
qed

end
