(* ===== verification/Protobuf_Codec.thy ===== *)
theory Protobuf_Codec
  imports Net_Buffer Muduo_Prelude
begin

text \<open>
  \<open>ProtobufCodecLite\<close> of \<^verbatim>\<open>muduo/net/protobuf/ProtobufCodecLite.cc\<close>: messages on a stream
  of bytes, each as its length, a tag, the serialized message and a checksum of both. Protocol Buffers
  and zlib are parameters: \<open>pb_serialize\<close> is the byte string of a message, \<open>pb_parse\<close> what
  \<open>ParseFromArray\<close> reads, \<open>pb_adler32\<close> the checksum. The callbacks change a world of their own; the
  error callback also gets the buffer.
\<close>

definition kHeaderLen :: nat where "kHeaderLen = 4"
definition kChecksumLen :: nat where "kChecksumLen = 4"
definition kMaxMessageLen :: nat where "kMaxMessageLen = 64 * 1024 * 1024"

datatype protobuf_error =
  kNoError | kInvalidLength | kCheckSumError | kInvalidNameLen | kUnknownMessageType | kParseError

record ('m, 'w) protobuf_codec =
  pb_tag :: string
  pb_serialize :: "'m \<Rightarrow> string"
  pb_parse :: "string \<Rightarrow> 'm option"
  pb_adler32 :: "string \<Rightarrow> 32 word"
  pb_messageCallback :: "'m \<Rightarrow> timestamp \<Rightarrow> 'w \<Rightarrow> 'w"
  pb_rawCb :: "(string \<Rightarrow> timestamp \<Rightarrow> 'w \<Rightarrow> bool \<times> 'w) option"
  pb_errorCallback :: "net_buffer \<Rightarrow> timestamp \<Rightarrow> protobuf_error \<Rightarrow> 'w \<Rightarrow> net_buffer \<times> 'w"

definition kMinMessageLen :: "('m, 'w) protobuf_codec \<Rightarrow> nat" where
  "kMinMessageLen c = length (pb_tag c) + kChecksumLen"

fun errorCodeToString :: "protobuf_error \<Rightarrow> string" where
  "errorCodeToString kNoError = ''NoError''"
| "errorCodeToString kInvalidLength = ''InvalidLength''"
| "errorCodeToString kCheckSumError = ''CheckSumError''"
| "errorCodeToString kInvalidNameLen = ''InvalidNameLen''"
| "errorCodeToString kUnknownMessageType = ''UnknownMessageType''"
| "errorCodeToString kParseError = ''ParseError''"

definition asInt32 :: "string \<Rightarrow> 32 word" where
  "asInt32 buf = NetworkToHost32 (host_word (take 4 buf))"

definition checksum :: "('m, 'w) protobuf_codec \<Rightarrow> string \<Rightarrow> 32 word" where
  "checksum c buf = pb_adler32 c buf"

subsection \<open>Sending\<close>

definition serializeToBuffer ::
  "('m, 'w) protobuf_codec \<Rightarrow> 'm \<Rightarrow> net_buffer \<Rightarrow> (nat \<times> net_buffer) option" where
  "serializeToBuffer c message buf = do {
     let data = pb_serialize c message;
     buf \<leftarrow> ensureWritableBytes (length data + kChecksumLen) buf;
     buf \<leftarrow> hasWritten (length data) (buf\<lparr>storage := write_at (writerIndex buf) data (storage buf)\<rparr>);
     Some (length data, buf)
   }"

definition fillEmptyBuffer ::
  "('m, 'w) protobuf_codec \<Rightarrow> net_buffer \<Rightarrow> 'm \<Rightarrow> net_buffer option" where
  "fillEmptyBuffer c buf message = do {
     C_assert (readableBytes buf = 0);
     buf \<leftarrow> append_bytes (pb_tag c) buf;
     (byte_size, buf) \<leftarrow> serializeToBuffer c message buf;
     buf \<leftarrow> appendInt32 (checksum c (content buf)) buf;
     C_assert (readableBytes buf = length (pb_tag c) + byte_size + kChecksumLen);
     prepend (host_bytes (HostToNetwork32 (of_nat (readableBytes buf)))) buf
   }"

text \<open>\<open>send\<close>: the bytes that go to the connection.\<close>

definition protobuf_send :: "('m, 'w) protobuf_codec \<Rightarrow> 'm \<Rightarrow> string option" where
  "protobuf_send c message = map_option content (fillEmptyBuffer c (new_buffer kInitialSize) message)"

subsection \<open>Receiving\<close>

text \<open>\<open>buf\<close> and \<open>len\<close> are the bytes of one frame without its length.\<close>

definition validateChecksum :: "('m, 'w) protobuf_codec \<Rightarrow> string \<Rightarrow> bool" where
  "validateChecksum c buf =
     (let len = length buf;
          expectedCheckSum = asInt32 (drop (len - kChecksumLen) buf);
          checkSum = checksum c (take (len - kChecksumLen) buf)
      in checkSum = expectedCheckSum)"

definition protobuf_parse :: "('m, 'w) protobuf_codec \<Rightarrow> string \<Rightarrow> protobuf_error + 'm" where
  "protobuf_parse c buf =
     (if validateChecksum c buf then
        if take (length (pb_tag c)) buf = pb_tag c then
          let data = drop (length (pb_tag c)) buf;
              dataLen = length buf - kChecksumLen - length (pb_tag c)
          in case pb_parse c (take dataLen data) of
               Some message \<Rightarrow> Inr message
             | None \<Rightarrow> Inl kParseError
        else Inl kUnknownMessageType
      else Inl kCheckSumError)"

partial_function (option) protobuf_onMessage ::
  "('m, 'w) protobuf_codec \<Rightarrow> timestamp \<Rightarrow> net_buffer \<Rightarrow> 'w \<Rightarrow> (net_buffer \<times> 'w) option" where
  "protobuf_onMessage c receiveTime buf w =
     (if readableBytes buf \<ge> kMinMessageLen c + kHeaderLen then
        (case peekInt32 buf of
           None \<Rightarrow> None
         | Some len \<Rightarrow>
             if sint len > int kMaxMessageLen \<or> sint len < int (kMinMessageLen c)
             then Some (pb_errorCallback c buf receiveTime kInvalidLength w)
             else
               let n = kHeaderLen + nat (sint len) in
               if readableBytes buf \<ge> n then
                 (case (case pb_rawCb c of None \<Rightarrow> (True, w)
                        | Some f \<Rightarrow> f (take n (content buf)) receiveTime w) of
                    (go_on, w) \<Rightarrow>
                      if \<not> go_on then
                        Option.bind (retrieve n buf) (\<lambda>buf. protobuf_onMessage c receiveTime buf w)
                      else
                        (case protobuf_parse c (drop kHeaderLen (take n (content buf))) of
                           Inr message \<Rightarrow>
                             let w = pb_messageCallback c message receiveTime w in
                             Option.bind (retrieve n buf) (\<lambda>buf. protobuf_onMessage c receiveTime buf w)
                         | Inl errorCode \<Rightarrow>
                             Some (pb_errorCallback c buf receiveTime errorCode w)))
               else Some (buf, w))
      else Some (buf, w))"

text \<open>The error callback that is used when none is given: it shuts the connection down.\<close>

definition defaultErrorCallback :: "bool \<Rightarrow> protobuf_error \<Rightarrow> string \<times> bool" where
  "defaultErrorCallback connected errorCode =
     (''ProtobufCodecLite::defaultErrorCallback - '' @ errorCodeToString errorCode, connected)"

definition rpctag :: string where "rpctag = ''RPC0''"

subsection \<open>Frames on a byte string\<close>

text \<open>
  What the loop does to the bytes of the buffer: it stops in front of an incomplete frame, or in front
  of the frame with an error.
\<close>

datatype 'w decoded = Decoded string 'w | Decode_error protobuf_error string 'w

function decode ::
  "('m, 'w) protobuf_codec \<Rightarrow> timestamp \<Rightarrow> string \<Rightarrow> 'w \<Rightarrow> 'w decoded" where
  "decode c t s w =
     (if length s < kMinMessageLen c + kHeaderLen then Decoded s w
      else if sint (asInt32 s) > int kMaxMessageLen \<or> sint (asInt32 s) < int (kMinMessageLen c)
      then Decode_error kInvalidLength s w
      else
        let n = kHeaderLen + nat (sint (asInt32 s)) in
        if length s < n then Decoded s w
        else
          case (case pb_rawCb c of None \<Rightarrow> (True, w) | Some f \<Rightarrow> f (take n s) t w) of
            (go_on, w) \<Rightarrow>
              if \<not> go_on then decode c t (drop n s) w
              else (case protobuf_parse c (drop kHeaderLen (take n s)) of
                      Inr m \<Rightarrow> decode c t (drop n s) (pb_messageCallback c m t w)
                    | Inl e \<Rightarrow> Decode_error e s w))"
  by pat_completeness auto
termination
  by (relation "measure (\<lambda>(c, t, s, w). length s)") (auto simp: kHeaderLen_def)

declare decode.simps [simp del]

definition finish_decoding ::
  "('m, 'w) protobuf_codec \<Rightarrow> timestamp \<Rightarrow> net_buffer \<Rightarrow> 'w decoded \<Rightarrow> net_buffer \<times> 'w" where
  "finish_decoding c t b res =
     (case res of Decoded _ w \<Rightarrow> (b, w) | Decode_error e _ w \<Rightarrow> pb_errorCallback c b t e w)"

fun bytes_left :: "'w decoded \<Rightarrow> string" where
  "bytes_left (Decoded s w) = s"
| "bytes_left (Decode_error e s w) = s"

lemma peek_length:
  assumes "buffer_inv b" and "4 \<le> length (content b)"
  shows "peekInt32 b = Some (asInt32 (content b))"
  using assms peek_content [OF assms(1), of 4] length_content [OF assms(1)]
  by (simp add: peekInt32_def asInt32_def)

lemma retrieve_frame:
  assumes "buffer_inv b" and "n \<le> length (content b)"
  shows "\<exists>b'. retrieve n b = Some b' \<and> buffer_inv b' \<and> content b' = drop n (content b)"
  using retrieve_ok [OF assms(1), of n] assms(2) by (cases "retrieve n b") auto

lemma onMessage_decode:
  "buffer_inv b \<Longrightarrow> \<exists>b'. protobuf_onMessage c t b w = Some (finish_decoding c t b' (decode c t (content b) w)) \<and>
     buffer_inv b' \<and> content b' = bytes_left (decode c t (content b) w)"
proof (induction "length (content b)" arbitrary: b w rule: less_induct)
  case less
  note inv = less.prems
  let ?s = "content b"
  let ?len = "sint (asInt32 ?s)"
  let ?n = "kHeaderLen + nat ?len"
  note [simp] = decode.simps [of c t ?s w] protobuf_onMessage.simps [of c t b w]
  have read: "readableBytes b = length ?s" using length_content [OF inv] by simp
  show ?case
  proof (cases "length ?s < kMinMessageLen c + kHeaderLen")
    case True
    then show ?thesis using inv read by (intro exI [of _ b]) (simp add: finish_decoding_def)
  next
    case long: False
    then have "4 \<le> length ?s" by (simp add: kHeaderLen_def)
    note peek = peek_length [OF inv this]
    show ?thesis
    proof (cases "?len > int kMaxMessageLen \<or> ?len < int (kMinMessageLen c)")
      case True
      then show ?thesis
        using long inv read peek by (intro exI [of _ b]) (simp add: finish_decoding_def)
    next
      case good: False
      show ?thesis
      proof (cases "length ?s < ?n")
        case True
        then show ?thesis
          using long good inv read peek
          by (intro exI [of _ b]) (simp add: finish_decoding_def Let_def)
      next
        case whole: False
        obtain b' where b': "retrieve ?n b = Some b'" "buffer_inv b'" "content b' = drop ?n ?s"
          using retrieve_frame [OF inv, of ?n] whole by auto
        have shorter: "length (content b') < length ?s" using b'(3) whole by (simp add: kHeaderLen_def)
        obtain go_on w1 where raw: "(case pb_rawCb c of None \<Rightarrow> (True, w)
            | Some f \<Rightarrow> f (take ?n ?s) t w) = (go_on, w1)" by (rule prod.exhaust)
        show ?thesis
        proof (cases "go_on")
          case False
          then show ?thesis
            using less.hyps [OF shorter b'(2), of w1] long good whole read peek raw b'
            by (simp add: Let_def)
        next
          case go: True
          show ?thesis
          proof (cases "protobuf_parse c (drop kHeaderLen (take ?n ?s))")
            case (Inr m)
            then show ?thesis
              using less.hyps [OF shorter b'(2), of "pb_messageCallback c m t w1"] long good whole read
                peek raw b' go
              by (simp add: Let_def)
          next
            case (Inl e)
            then show ?thesis
              using long good whole read peek raw go inv
              by (intro exI [of _ b]) (simp add: finish_decoding_def Let_def)
          qed
        qed
      qed
    qed
  qed
qed

subsection \<open>Bytes that come in pieces\<close>

lemma asInt32_append: "4 \<le> length s \<Longrightarrow> asInt32 (s @ s') = asInt32 s"
  by (simp add: asInt32_def)

fun decode_more ::
  "('m, 'w) protobuf_codec \<Rightarrow> timestamp \<Rightarrow> string \<Rightarrow> 'w decoded \<Rightarrow> 'w decoded" where
  "decode_more c t s' (Decoded s w) = decode c t (s @ s') w"
| "decode_more c t s' (Decode_error e s w) = Decode_error e (s @ s') w"

lemma decode_append: "decode c t (s @ s') w = decode_more c t s' (decode c t s w)"
proof (induction c t s w rule: decode.induct)
  case (1 c t s w)
  let ?len = "sint (asInt32 s)"
  let ?n = "kHeaderLen + nat ?len"
  note [simp] = decode.simps [of c t s w]
  show ?case
  proof (cases "length s < kMinMessageLen c + kHeaderLen")
    case long: False
    then have four: "asInt32 (s @ s') = asInt32 s" by (intro asInt32_append) (simp add: kHeaderLen_def)
    have long': "\<not> length (s @ s') < kMinMessageLen c + kHeaderLen" using long by simp
    show ?thesis
    proof (cases "?len > int kMaxMessageLen \<or> ?len < int (kMinMessageLen c)")
      case True
      then show ?thesis
        using long long' by (subst decode.simps [of c t "s @ s'"]) (simp add: four)
    next
      case good: False
      show ?thesis
      proof (cases "length s < ?n")
        case True
        then show ?thesis using long good by simp
      next
        case whole: False
        have pre: "take ?n (s @ s') = take ?n s" "drop ?n (s @ s') = drop ?n s @ s'"
          "\<not> length (s @ s') < ?n" using whole by simp_all
        obtain go_on w1 where raw: "(case pb_rawCb c of None \<Rightarrow> (True, w)
            | Some f \<Rightarrow> f (take ?n s) t w) = (go_on, w1)" by (rule prod.exhaust)
        note step = decode.simps [of c t "s @ s'" w, unfolded four Let_def pre raw prod.case]
        show ?thesis
        proof (cases go_on)
          case False
          then show ?thesis
            using 1(1) [OF long good refl whole raw [symmetric]] long long' good whole raw
            by (simp add: step pre(3) del: length_append)
        next
          case go: True
          show ?thesis
          proof (cases "protobuf_parse c (drop kHeaderLen (take ?n s))")
            case (Inr m)
            then show ?thesis
              using 1(2) [OF long good refl whole raw [symmetric]] go long long' good whole raw
              by (simp add: step pre(3) del: length_append)
          next
            case (Inl e)
            then show ?thesis
              using go long long' good whole raw by (simp add: step pre(3) del: length_append)
          qed
        qed
      qed
    qed
  qed simp
qed

subsection \<open>What is sent is received\<close>

definition frame_wire :: "('m, 'w) protobuf_codec \<Rightarrow> 'm \<Rightarrow> string" where
  "frame_wire c m =
     (let body = pb_tag c @ pb_serialize c m;
          frame = body @ host_bytes (HostToNetwork32 (checksum c body))
      in host_bytes (HostToNetwork32 (of_nat (length frame))) @ frame)"

text \<open>Writing leaves the room in front of the bytes, which the length needs.\<close>

lemma ensure_keeps_room:
  "kCheapPrepend \<le> prependableBytes b \<Longrightarrow> ensureWritableBytes n b = Some b' \<Longrightarrow>
     kCheapPrepend \<le> prependableBytes b'"
  by (auto simp: ensureWritableBytes_def makeSpace_def prependableBytes_def Let_def
      split: if_splits bind_splits)

lemma append_keeps_room:
  "kCheapPrepend \<le> prependableBytes b \<Longrightarrow> append_bytes s b = Some b' \<Longrightarrow>
     kCheapPrepend \<le> prependableBytes b'"
  by (auto simp: append_bytes_def hasWritten_def prependableBytes_def split: if_splits bind_splits
      dest!: ensure_keeps_room [unfolded prependableBytes_def, rotated])

lemma serialize_keeps_room:
  "kCheapPrepend \<le> prependableBytes b \<Longrightarrow> serializeToBuffer c m b = Some (n, b') \<Longrightarrow>
     kCheapPrepend \<le> prependableBytes b'"
  by (auto simp: serializeToBuffer_def hasWritten_def prependableBytes_def Let_def
      split: if_splits bind_splits dest!: ensure_keeps_room [unfolded prependableBytes_def, rotated])

lemma serializeToBuffer_ok:
  assumes "buffer_inv b"
  shows "\<exists>b'. serializeToBuffer c m b = Some (length (pb_serialize c m), b') \<and> buffer_inv b' \<and>
    content b' = content b @ pb_serialize c m"
proof -
  let ?d = "pb_serialize c m"
  obtain b1 where b1: "ensureWritableBytes (length ?d + kChecksumLen) b = Some b1" "buffer_inv b1"
    "content b1 = content b" "length ?d + kChecksumLen \<le> writableBytes b1"
    using ensureWritableBytes_ok [OF assms] by blast
  have "length ?d \<le> writableBytes b1" using b1(4) by simp
  from written_content [OF b1(2) this] b1(1,3) show ?thesis
    by (auto simp: serializeToBuffer_def Let_def)
qed

lemma fillEmptyBuffer_ok:
  assumes "buffer_inv b" and "content b = []" and "kCheapPrepend \<le> prependableBytes b"
  shows "\<exists>b'. fillEmptyBuffer c b m = Some b' \<and> buffer_inv b' \<and> content b' = frame_wire c m"
proof -
  have empty: "readableBytes b = 0" using length_content [OF assms(1)] assms(2) by simp
  obtain b1 where b1: "append_bytes (pb_tag c) b = Some b1" "buffer_inv b1" "content b1 = pb_tag c"
    using append_ok [OF assms(1), of "pb_tag c"] assms(2) by auto
  obtain b2 where b2: "serializeToBuffer c m b1 = Some (length (pb_serialize c m), b2)" "buffer_inv b2"
    "content b2 = pb_tag c @ pb_serialize c m"
    using serializeToBuffer_ok [OF b1(2), of c m] b1(3) by auto
  let ?body = "pb_tag c @ pb_serialize c m"
  obtain b3 where b3: "appendInt32 (checksum c ?body) b2 = Some b3" "buffer_inv b3"
    "content b3 = ?body @ host_bytes (HostToNetwork32 (checksum c ?body))"
    using append_ok [OF b2(2), of "host_bytes (HostToNetwork32 (checksum c ?body))"] b2(3)
    by (auto simp: appendInt32_def)
  have len: "readableBytes b3 = length (pb_tag c) + length (pb_serialize c m) + kChecksumLen"
    using length_content [OF b3(2)] b3(3) by (simp add: kChecksumLen_def)
  have room: "4 \<le> prependableBytes b3"
    using append_keeps_room [OF serialize_keeps_room [OF append_keeps_room [OF assms(3) b1(1)] b2(1)]
        b3(1) [unfolded appendInt32_def]]
    by (simp add: kCheapPrepend_def)
  let ?len = "host_bytes (HostToNetwork32 (of_nat (readableBytes b3)))"
  obtain b4 where b4: "prepend ?len b3 = Some b4"
    using prepend_ok(1) [OF b3(2), of ?len] room by (cases "prepend ?len b3") auto
  have "buffer_inv b4 \<and> content b4 = ?len @ content b3" by (rule prepend_ok(2) [OF b3(2) b4])
  moreover have "fillEmptyBuffer c b m = Some b4"
    using empty b1(1) b2(1,3) b3(1) len b4 by (simp add: fillEmptyBuffer_def)
  ultimately show ?thesis
    using b3(3) len by (simp add: frame_wire_def Let_def kChecksumLen_def)
qed

definition frame_fits :: "('m, 'w) protobuf_codec \<Rightarrow> 'm \<Rightarrow> bool" where
  "frame_fits c m \<longleftrightarrow>
     length (pb_tag c) + length (pb_serialize c m) + kChecksumLen \<le> kMaxMessageLen"

lemma asInt32_bytes: "asInt32 (host_bytes (HostToNetwork32 x) @ s) = x"
  using network_word [of x]
  by (simp add: asInt32_def HostToNetwork32_def NetworkToHost32_def)

lemma parse_wire:
  assumes "pb_parse c (pb_serialize c m) = Some m"
  shows "protobuf_parse c (drop kHeaderLen (frame_wire c m)) = Inr m"
proof -
  let ?body = "pb_tag c @ pb_serialize c m"
  let ?sum = "host_bytes (HostToNetwork32 (checksum c ?body))"
  have frame: "drop kHeaderLen (frame_wire c m) = ?body @ ?sum"
    by (simp add: frame_wire_def Let_def kHeaderLen_def)
  have len: "length (?body @ ?sum) - kChecksumLen = length ?body" by (simp add: kChecksumLen_def)
  have "validateChecksum c (?body @ ?sum)"
    unfolding validateChecksum_def Let_def len
    using asInt32_bytes [of "checksum c ?body" "[]"] by simp
  moreover have "length (?body @ ?sum) - kChecksumLen - length (pb_tag c) = length (pb_serialize c m)"
    unfolding len by simp
  ultimately show ?thesis using assms unfolding frame by (simp add: protobuf_parse_def Let_def)
qed

definition frame_length :: "('m, 'w) protobuf_codec \<Rightarrow> 'm \<Rightarrow> nat" where
  "frame_length c m = length (pb_tag c) + length (pb_serialize c m) + kChecksumLen"

lemma length_frame_wire: "length (frame_wire c m) = kHeaderLen + frame_length c m"
  by (simp add: frame_wire_def frame_length_def Let_def kHeaderLen_def kChecksumLen_def)

lemma sint_small: "n \<le> 64 * 1024 * 1024 \<Longrightarrow> sint (of_nat n :: 32 word) = int n"
  by (simp add: signed_of_nat signed_take_bit_int_eq_self)

lemma wire_announces:
  assumes "frame_fits c m"
  shows "sint (asInt32 (frame_wire c m @ s)) = int (frame_length c m)"
    and "\<not> (int (frame_length c m) > int kMaxMessageLen \<or> int (frame_length c m) < int (kMinMessageLen c))"
proof -
  have max: "frame_length c m \<le> 64 * 1024 * 1024"
    using assms by (simp add: frame_fits_def frame_length_def kMaxMessageLen_def)
  have "asInt32 (frame_wire c m @ s) = of_nat (frame_length c m)"
    using asInt32_bytes [of "of_nat (frame_length c m)"]
    by (simp add: frame_wire_def frame_length_def Let_def kChecksumLen_def)
  then show "sint (asInt32 (frame_wire c m @ s)) = int (frame_length c m)"
    using sint_small [OF max] by simp
  show "\<not> (int (frame_length c m) > int kMaxMessageLen \<or> int (frame_length c m) < int (kMinMessageLen c))"
    using max by (simp add: frame_length_def kMaxMessageLen_def kMinMessageLen_def)
qed

lemma decode_wire:
  assumes "frame_fits c m" and "pb_rawCb c = None" and "pb_parse c (pb_serialize c m) = Some m"
  shows "decode c t (frame_wire c m @ s) w = decode c t s (pb_messageCallback c m t w)"
proof -
  note len = wire_announces(1) [OF assms(1), of s]
  have n: "kHeaderLen + nat (int (frame_length c m)) = length (frame_wire c m)"
    unfolding length_frame_wire by simp
  have enough: "\<not> length (frame_wire c m @ s) < kMinMessageLen c + kHeaderLen"
    "\<not> length (frame_wire c m @ s) < length (frame_wire c m)"
    unfolding length_append length_frame_wire by (simp_all add: kMinMessageLen_def frame_length_def)
  have pre: "take (length (frame_wire c m)) (frame_wire c m @ s) = frame_wire c m"
    "drop (length (frame_wire c m)) (frame_wire c m @ s) = s" by simp_all
  show ?thesis
    unfolding decode.simps [of c t "frame_wire c m @ s" w] len n Let_def pre
    using enough wire_announces(2) [OF assms(1)] assms(2) parse_wire [OF assms(3)] by (simp del: length_append)
qed

definition deliver ::
  "('m, 'w) protobuf_codec \<Rightarrow> timestamp \<Rightarrow> 'm list \<Rightarrow> 'w \<Rightarrow> 'w" where
  "deliver c t ms w = fold (\<lambda>m. pb_messageCallback c m t) ms w"

lemma decode_wires:
  assumes "list_all (frame_fits c) ms" and "pb_rawCb c = None"
    and "\<forall>m. pb_parse c (pb_serialize c m) = Some m"
  shows "decode c t (concat (map (frame_wire c) ms) @ s) w = decode c t s (deliver c t ms w)"
  using assms(1)
proof (induction ms arbitrary: w)
  case (Cons m ms)
  then show ?case using decode_wire [of c m t _ w] assms(2,3) by (simp add: deliver_def)
qed (simp add: deliver_def)

text \<open>A frame of which bytes are missing is left in the buffer.\<close>

lemma decode_partial:
  assumes "frame_fits c m" and "frame_wire c m = s @ s'" and "s' \<noteq> []"
  shows "decode c t s w = Decoded s w"
proof (cases "length s < kMinMessageLen c + kHeaderLen")
  case True
  then show ?thesis by (simp add: decode.simps)
next
  case False
  have "asInt32 s = asInt32 (frame_wire c m)"
    unfolding assms(2) using False by (intro asInt32_append [symmetric]) (simp add: kHeaderLen_def)
  then have len: "sint (asInt32 s) = int (frame_length c m)"
    using wire_announces(1) [OF assms(1), of "[]"] by simp
  have "length (s @ s') = kHeaderLen + frame_length c m"
    unfolding assms(2) [symmetric] by (rule length_frame_wire)
  then have "length s < kHeaderLen + frame_length c m" using assms(3) by (cases s') auto
  then show ?thesis
    using False wire_announces(2) [OF assms(1)] by (simp add: decode.simps [of c t s w] len)
qed

subsection \<open>The properties\<close>

primrec receive_pieces ::
  "('m, 'w) protobuf_codec \<Rightarrow> timestamp \<Rightarrow> string list \<Rightarrow> net_buffer \<Rightarrow> 'w \<Rightarrow> (net_buffer \<times> 'w) option"
where
  "receive_pieces c t [] b w = Some (b, w)"
| "receive_pieces c t (p # ps) b w = do {
     b \<leftarrow> append_bytes p b;
     (b, w) \<leftarrow> protobuf_onMessage c t b w;
     receive_pieces c t ps b w
   }"

lemma receive_pieces_decode:
  assumes "buffer_inv b" and "decode c t (content b) w = Decoded (content b) w"
    and "decode c t (content b @ concat ps) w = Decoded rest w'"
  shows "\<exists>b'. receive_pieces c t ps b w = Some (b', w') \<and> buffer_inv b' \<and> content b' = rest"
  using assms
proof (induction ps arbitrary: b w)
  case (Cons p ps)
  obtain b1 where b1: "append_bytes p b = Some b1" "buffer_inv b1" "content b1 = content b @ p"
    using append_ok [OF Cons.prems(1)] by blast
  have all: "decode_more c t (concat ps) (decode c t (content b1) w) = Decoded rest w'"
    using Cons.prems(3) by (simp add: b1(3) decode_append [symmetric])
  obtain s1 w1 where s1: "decode c t (content b1) w = Decoded s1 w1"
    using all by (cases "decode c t (content b1) w") auto
  obtain b2 where b2: "protobuf_onMessage c t b1 w = Some (b2, w1)" "buffer_inv b2" "content b2 = s1"
    using onMessage_decode [OF b1(2), of c t w] s1 by (auto simp: finish_decoding_def)
  have "decode c t s1 w1 = Decoded s1 w1"
    using decode_append [of c t "content b1" "[]" w] s1 by simp
  then show ?case using Cons.IH [OF b2(2), of w1] all s1 b1(1) b2 by simp
qed simp

text \<open>C31: what \<open>send\<close> writes for a list of messages, in whatever pieces it arrives, is delivered to the
  message callback as these messages in this order; the bytes of a frame that is not complete stay in
  the buffer. Serialization is assumed to be undone by parsing; the checksum may be any function.
\<close>

theorem protobuf_stream_delivered:
  assumes "list_all (frame_fits c) ms" and "pb_rawCb c = None"
    and "\<forall>m. pb_parse c (pb_serialize c m) = Some m"
    and "frame_fits c m" and "frame_wire c m = part @ missing" and "missing \<noteq> []"
    and "concat ps = concat (map (the \<circ> protobuf_send c) ms) @ part"
  shows "\<exists>b. receive_pieces c t ps (new_buffer kInitialSize) w = Some (b, deliver c t ms w) \<and>
    content b = part"
proof -
  have new: "buffer_inv (new_buffer kInitialSize)" "content (new_buffer kInitialSize) = []"
    "kCheapPrepend \<le> prependableBytes (new_buffer kInitialSize)"
    using new_buffer_ok [of kInitialSize] by auto
  have "protobuf_send c m = Some (frame_wire c m)" for m
    using fillEmptyBuffer_ok [OF new, of c m] by (auto simp: protobuf_send_def)
  then have wire: "the \<circ> protobuf_send c = frame_wire c" by auto
  have "decode c t (concat ps) w = Decoded part (deliver c t ms w)"
    unfolding assms(7) wire decode_wires [OF assms(1-3)]
    by (rule decode_partial [OF assms(4-6)])
  moreover have "decode c t [] w = Decoded [] w" by (simp add: decode.simps kHeaderLen_def)
  ultimately show ?thesis
    using receive_pieces_decode [OF new(1), of c t w ps part "deliver c t ms w"] new(2) by auto
qed

definition text_codec :: "(string, string list) protobuf_codec" where
  "text_codec =
     \<lparr>pb_tag = rpctag, pb_serialize = (\<lambda>m. m), pb_parse = Some, pb_adler32 = (\<lambda>s. of_nat (length s)),
      pb_messageCallback = (\<lambda>m t w. w @ [m]), pb_rawCb = None,
      pb_errorCallback = (\<lambda>b t e w. (b, w @ [errorCodeToString e]))\<rparr>"

lemma protobuf_stream_delivered_witness:
  "\<exists>ps b. length ps = 3 \<and>
     receive_pieces text_codec 0 ps (new_buffer kInitialSize) [] = Some (b, [''one'', ''two'']) \<and>
     content b = take 5 (frame_wire text_codec ''three'')"
proof -
  let ?w = "frame_wire text_codec ''three''"
  let ?all = "concat (map (the \<circ> protobuf_send text_codec) [''one'', ''two'']) @ take 5 ?w"
  have "length ?w = 17" unfolding length_frame_wire
    by (simp add: kHeaderLen_def frame_length_def kChecksumLen_def text_codec_def rpctag_def)
  then have miss: "drop 5 ?w \<noteq> []" by simp
  have "\<exists>b. receive_pieces text_codec 0 [take 7 ?all, [], drop 7 ?all] (new_buffer kInitialSize) [] =
      Some (b, deliver text_codec 0 [''one'', ''two''] []) \<and> content b = take 5 ?w"
  proof (rule protobuf_stream_delivered)
    show "?w = take 5 ?w @ drop 5 ?w" by simp
    show "concat [take 7 ?all, [], drop 7 ?all] = ?all" by (simp only: concat.simps append_Nil append_Nil2 append_take_drop_id)
  qed (use miss in \<open>simp_all add: frame_fits_def kChecksumLen_def kMaxMessageLen_def text_codec_def rpctag_def\<close>)
  moreover have "deliver text_codec 0 [''one'', ''two''] [] = [''one'', ''two'']"
    by (simp add: deliver_def text_codec_def)
  moreover have "length [take 7 ?all, [], drop 7 ?all] = 3" by simp
  ultimately show ?thesis by metis
qed

text \<open>A frame whose length is out of bounds, or whose checksum is not that of its bytes, stops the
  loop: the messages before it are delivered, the error callback gets the right code and a buffer that
  begins with the bad frame, and nothing of it reaches the message callback.
\<close>

theorem protobuf_bad_frame:
  assumes "list_all (frame_fits c) ms" and "pb_rawCb c = None"
    and "\<forall>m. pb_parse c (pb_serialize c m) = Some m"
    and "buffer_inv b" and "content b = concat (map (frame_wire c) ms) @ bad"
    and "kMinMessageLen c + kHeaderLen \<le> length bad"
    and "e = kInvalidLength \<and>
        (sint (asInt32 bad) > int kMaxMessageLen \<or> sint (asInt32 bad) < int (kMinMessageLen c)) \<or>
      e = kCheckSumError \<and>
        int (kMinMessageLen c) \<le> sint (asInt32 bad) \<and> sint (asInt32 bad) \<le> int kMaxMessageLen \<and>
        kHeaderLen + nat (sint (asInt32 bad)) \<le> length bad \<and>
        \<not> validateChecksum c (drop kHeaderLen (take (kHeaderLen + nat (sint (asInt32 bad))) bad))"
  shows "\<exists>b'. protobuf_onMessage c t b w = Some (pb_errorCallback c b' t e (deliver c t ms w)) \<and>
    content b' = bad"
proof -
  have "decode c t bad w' = Decode_error e bad w'" for w'
    using assms(2,6,7)
    by (subst decode.simps) (auto simp: Let_def protobuf_parse_def)
  then have "decode c t (content b) w = Decode_error e bad (deliver c t ms w)"
    unfolding assms(5) decode_wires [OF assms(1-3)] .
  with onMessage_decode [OF assms(4), of c t w] show ?thesis by (auto simp: finish_decoding_def)
qed

lemma protobuf_bad_frame_witness:
  "\<exists>b b'. content b = frame_wire text_codec ''one'' @ host_bytes (HostToNetwork32 0) @ ''damaged!'' \<and>
     protobuf_onMessage text_codec 0 b [] = Some (b', [''one'', ''InvalidLength'']) \<and>
     content b' = host_bytes (HostToNetwork32 0) @ ''damaged!''"
proof -
  let ?bad = "host_bytes (HostToNetwork32 0) @ ''damaged!''"
  obtain b where b: "buffer_inv b" "content b = concat (map (frame_wire text_codec) [''one'']) @ ?bad"
    using append_ok [of "new_buffer 0" "frame_wire text_codec ''one'' @ ?bad"] new_buffer_ok [of 0]
    by auto
  have "asInt32 ?bad = 0" by (rule asInt32_bytes)
  then have len: "sint (asInt32 ?bad) < int (kMinMessageLen text_codec)"
    by (simp add: kMinMessageLen_def kChecksumLen_def)
  have "\<exists>b'. protobuf_onMessage text_codec 0 b [] =
      Some (pb_errorCallback text_codec b' 0 kInvalidLength (deliver text_codec 0 [''one''] [])) \<and>
      content b' = ?bad"
    by (rule protobuf_bad_frame [OF _ _ _ b])
      (use len in \<open>simp_all add: frame_fits_def kChecksumLen_def kMaxMessageLen_def text_codec_def
        rpctag_def kMinMessageLen_def kHeaderLen_def\<close>)
  then show ?thesis
    using b(2) by (auto simp: deliver_def text_codec_def)
qed

end
