(* ===== verification/Connector.thy ===== *)
theory Connector
  imports Muduo_Prelude "HOL-Library.Multiset"
begin

text \<open>
  \<open>Connector\<close> of \<^verbatim>\<open>muduo/net/Connector.cc\<close>: it opens a socket, waits until the socket can be
  written, and hands it over, or tries again after a delay that doubles. The state holds the members,
  the functors the connector has queued in its loop, the delays of its timers that have not fired, and
  what has become of the sockets, which are numbered in the order of their creation. What the system
  answers is given with each step. \<open>None\<close> is a failed \<open>assert\<close>, or the use of a channel that is not
  there.
\<close>

datatype connector_state = Connector_disconnected | Connector_connecting | Connector_connected

datatype connector_functor = Start_in_loop | Stop_in_loop | Reset_channel

record connector =
  cn_connect :: bool
  cn_state :: connector_state
  cn_channel :: "(nat \<times> bool) option"
  cn_retryDelayMs :: nat
  cn_functors :: "connector_functor list"
  cn_timers :: "nat list"
  cn_sockets :: nat
  cn_closed :: "nat list"
  cn_handed :: "nat list"

definition kMaxRetryDelayMs :: nat where "kMaxRetryDelayMs = 30 * 1000"
definition kInitRetryDelayMs :: nat where "kInitRetryDelayMs = 500"

definition new_connector :: connector where
  "new_connector =
     \<lparr>cn_connect = False, cn_state = Connector_disconnected, cn_channel = None,
      cn_retryDelayMs = kInitRetryDelayMs, cn_functors = [], cn_timers = [], cn_sockets = 0,
      cn_closed = [], cn_handed = []\<rparr>"

definition close_socket :: "nat \<Rightarrow> connector \<Rightarrow> connector" where
  "close_socket fd c = c\<lparr>cn_closed := cn_closed c @ [fd]\<rparr>"

definition queue_functor :: "connector_functor \<Rightarrow> connector \<Rightarrow> connector" where
  "queue_functor f c = c\<lparr>cn_functors := cn_functors c @ [f]\<rparr>"

subsection \<open>Connecting\<close>

text \<open>A channel is its socket and whether it watches it.\<close>

definition connecting :: "nat \<Rightarrow> connector \<Rightarrow> connector option" where
  "connecting sockfd c = do {
     let c = c\<lparr>cn_state := Connector_connecting\<rparr>;
     C_assert (cn_channel c = None);
     Some (c\<lparr>cn_channel := Some (sockfd, True)\<rparr>)
   }"

definition retry :: "nat \<Rightarrow> connector \<Rightarrow> connector" where
  "retry sockfd c =
     (let c = (close_socket sockfd c)\<lparr>cn_state := Connector_disconnected\<rparr> in
      if cn_connect c then
        c\<lparr>cn_timers := cn_timers c @ [cn_retryDelayMs c],
          cn_retryDelayMs := min (cn_retryDelayMs c * 2) kMaxRetryDelayMs\<rparr>
      else c)"

datatype connect_errno =
    No_error | EINPROGRESS | EINTR | EISCONN
  | EAGAIN | EADDRINUSE | EADDRNOTAVAIL | ECONNREFUSED | ENETUNREACH
  | EACCES | EPERM | EAFNOSUPPORT | EALREADY | EBADF | EFAULT | ENOTSOCK
  | Other_error

definition connect_socket :: "connect_errno \<Rightarrow> connector \<Rightarrow> connector option" where
  "connect_socket savedErrno c =
     (let sockfd = cn_sockets c;
          c = c\<lparr>cn_sockets := cn_sockets c + 1\<rparr>
      in if savedErrno \<in> {No_error, EINPROGRESS, EINTR, EISCONN} then connecting sockfd c
         else if savedErrno \<in> {EAGAIN, EADDRINUSE, EADDRNOTAVAIL, ECONNREFUSED, ENETUNREACH}
         then Some (retry sockfd c)
         else Some (close_socket sockfd c))"

definition startInLoop :: "connect_errno \<Rightarrow> connector \<Rightarrow> connector option" where
  "startInLoop savedErrno c = do {
     C_assert (cn_state c = Connector_disconnected);
     if cn_connect c then connect_socket savedErrno c else Some c
   }"

text \<open>\<open>start\<close> in the loop's thread runs at once, in another thread it is queued.\<close>

definition connector_start :: "bool \<Rightarrow> connect_errno \<Rightarrow> connector \<Rightarrow> connector option" where
  "connector_start in_loop savedErrno c =
     (let c = c\<lparr>cn_connect := True\<rparr> in
      if in_loop then startInLoop savedErrno c else Some (queue_functor Start_in_loop c))"

definition connector_restart :: "connect_errno \<Rightarrow> connector \<Rightarrow> connector option" where
  "connector_restart savedErrno c =
     startInLoop savedErrno
       (c\<lparr>cn_state := Connector_disconnected, cn_retryDelayMs := kInitRetryDelayMs, cn_connect := True\<rparr>)"

definition connector_stop :: "connector \<Rightarrow> connector" where
  "connector_stop c = queue_functor Stop_in_loop (c\<lparr>cn_connect := False\<rparr>)"

subsection \<open>The channel\<close>

definition removeAndResetChannel :: "connector \<Rightarrow> (nat \<times> connector) option" where
  "removeAndResetChannel c =
     (case cn_channel c of
        None \<Rightarrow> None
      | Some (sockfd, _) \<Rightarrow>
          Some (sockfd, queue_functor Reset_channel (c\<lparr>cn_channel := Some (sockfd, False)\<rparr>)))"

definition channel_watched :: "connector \<Rightarrow> bool" where
  "channel_watched c = (case cn_channel c of None \<Rightarrow> False | Some (_, watched) \<Rightarrow> watched)"

lemma channel_watched_iff [simp]: "channel_watched c \<longleftrightarrow> (\<exists>fd. cn_channel c = Some (fd, True))"
  by (auto simp: channel_watched_def split: option.splits)

text \<open>\<open>resetChannel\<close> deletes the channel, whose destructor asserts that it is not watched.\<close>

definition resetChannel :: "connector \<Rightarrow> connector option" where
  "resetChannel c = do {
     C_assert (\<not> channel_watched c);
     Some (c\<lparr>cn_channel := None\<rparr>)
   }"

definition stopInLoop :: "connector \<Rightarrow> connector option" where
  "stopInLoop c =
     (if cn_state c = Connector_connecting then do {
        (sockfd, c) \<leftarrow> removeAndResetChannel (c\<lparr>cn_state := Connector_disconnected\<rparr>);
        Some (retry sockfd c)
      }
      else Some c)"

definition connector_handleWrite :: "bool \<Rightarrow> bool \<Rightarrow> connector \<Rightarrow> connector option" where
  "connector_handleWrite err self_connect c =
     (if cn_state c = Connector_connecting then do {
        (sockfd, c) \<leftarrow> removeAndResetChannel c;
        if err then Some (retry sockfd c)
        else if self_connect then Some (retry sockfd c)
        else
          let c = c\<lparr>cn_state := Connector_connected\<rparr> in
          if cn_connect c then Some (c\<lparr>cn_handed := cn_handed c @ [sockfd]\<rparr>)
          else Some (close_socket sockfd c)
      }
      else do {
        C_assert (cn_state c = Connector_disconnected);
        Some c
      })"

definition connector_handleError :: "connector \<Rightarrow> connector option" where
  "connector_handleError c =
     (if cn_state c = Connector_connecting then do {
        (sockfd, c) \<leftarrow> removeAndResetChannel c;
        Some (retry sockfd c)
      }
      else Some c)"

subsection \<open>Steps\<close>

datatype connector_op =
    Cn_start bool connect_errno | Cn_restart connect_errno | Cn_stop
  | Cn_functor connect_errno | Cn_timer connect_errno | Cn_writable bool bool | Cn_error

fun connector_functor_run :: "connect_errno \<Rightarrow> connector_functor \<Rightarrow> connector \<Rightarrow> connector option" where
  "connector_functor_run e Start_in_loop c = startInLoop e c"
| "connector_functor_run e Stop_in_loop c = stopInLoop c"
| "connector_functor_run e Reset_channel c = resetChannel c"

fun connector_do :: "connector_op \<Rightarrow> connector \<Rightarrow> connector option" where
  "connector_do (Cn_start in_loop e) c = connector_start in_loop e c"
| "connector_do (Cn_restart e) c = connector_restart e c"
| "connector_do Cn_stop c = Some (connector_stop c)"
| "connector_do (Cn_functor e) c =
     (case cn_functors c of
        [] \<Rightarrow> None
      | f # fs \<Rightarrow> connector_functor_run e f (c\<lparr>cn_functors := fs\<rparr>))"
| "connector_do (Cn_timer e) c =
     (case cn_timers c of [] \<Rightarrow> None | _ # ts \<Rightarrow> startInLoop e (c\<lparr>cn_timers := ts\<rparr>))"
| "connector_do (Cn_writable err self) c = connector_handleWrite err self c"
| "connector_do Cn_error c = connector_handleError c"

definition connector_run :: "connector_op list \<Rightarrow> connector \<Rightarrow> connector option" where
  "connector_run = run_all connector_do"

text \<open>
  What the surroundings see to. Events come from a channel that is watched. A timer fires when the
  functors of its round are done, so that the old channel is gone. \<open>start\<close> is called when nothing is
  under way: the connector is disconnected, no retry is waiting and no functor is queued. \<open>restart\<close>
  is called after a connection was handed over and has been closed.
\<close>

fun connector_enabled :: "connector_op \<Rightarrow> connector \<Rightarrow> bool" where
  "connector_enabled (Cn_start in_loop e) c \<longleftrightarrow>
     cn_state c = Connector_disconnected \<and> cn_timers c = [] \<and> cn_functors c = []"
| "connector_enabled (Cn_restart e) c \<longleftrightarrow> cn_state c = Connector_connected \<and> cn_functors c = []"
| "connector_enabled Cn_stop c \<longleftrightarrow> True"
| "connector_enabled (Cn_functor e) c \<longleftrightarrow> cn_functors c \<noteq> []"
| "connector_enabled (Cn_timer e) c \<longleftrightarrow> cn_timers c \<noteq> [] \<and> Reset_channel \<notin> set (cn_functors c)"
| "connector_enabled (Cn_writable err self) c \<longleftrightarrow> channel_watched c"
| "connector_enabled Cn_error c \<longleftrightarrow> channel_watched c"

primrec connector_allowed :: "connector_op list \<Rightarrow> connector \<Rightarrow> bool" where
  "connector_allowed [] c \<longleftrightarrow> True"
| "connector_allowed (op # ops) c \<longleftrightarrow>
     connector_enabled op c \<and>
     (case connector_do op c of None \<Rightarrow> True | Some c' \<Rightarrow> connector_allowed ops c')"

subsection \<open>The invariant\<close>

text \<open>At most one attempt is under way: a queued start, a waiting retry, a socket that connects.\<close>

definition attempts :: "connector \<Rightarrow> nat" where
  "attempts c = count_list (cn_functors c) Start_in_loop + length (cn_timers c) +
     (if cn_state c = Connector_disconnected then 0 else 1)"

text \<open>The channel is watched while the socket connects, and kept until its functor deletes it.\<close>

definition channel_inv :: "connector \<Rightarrow> bool" where
  "channel_inv c \<longleftrightarrow>
     (case cn_channel c of
        None \<Rightarrow> cn_state c \<noteq> Connector_connecting \<and> count_list (cn_functors c) Reset_channel = 0
      | Some (fd, True) \<Rightarrow>
          cn_state c = Connector_connecting \<and> count_list (cn_functors c) Reset_channel = 0
      | Some (fd, False) \<Rightarrow>
          cn_state c \<noteq> Connector_connecting \<and> count_list (cn_functors c) Reset_channel = 1 \<and>
          count_list (cn_functors c) Start_in_loop = 0)"

text \<open>Every socket is closed, handed over, or the one that connects.\<close>

definition connecting_socket :: "connector \<Rightarrow> nat list" where
  "connecting_socket c = (case cn_channel c of Some (fd, True) \<Rightarrow> [fd] | _ \<Rightarrow> [])"

definition sockets_inv :: "connector \<Rightarrow> bool" where
  "sockets_inv c \<longleftrightarrow>
     mset (cn_closed c @ cn_handed c @ connecting_socket c) = mset [0..<cn_sockets c]"

definition delays_inv :: "connector \<Rightarrow> bool" where
  "delays_inv c \<longleftrightarrow>
     (\<forall>d \<in> insert (cn_retryDelayMs c) (set (cn_timers c)).
        kInitRetryDelayMs \<le> d \<and> d \<le> kMaxRetryDelayMs)"

definition connector_inv :: "connector \<Rightarrow> bool" where
  "connector_inv c \<longleftrightarrow> attempts c \<le> 1 \<and> channel_inv c \<and> sockets_inv c \<and> delays_inv c"

lemmas connector_inv_defs =
  connector_inv_def attempts_def channel_inv_def sockets_inv_def delays_inv_def
  connecting_socket_def

lemma new_connector_inv: "connector_inv new_connector"
  by (simp add: connector_inv_defs new_connector_def kInitRetryDelayMs_def kMaxRetryDelayMs_def)

lemmas connector_defs =
  connect_socket_def connecting_def retry_def close_socket_def queue_functor_def Let_def

text \<open>An attempt starts when nothing is under way.\<close>

definition idle :: "connector \<Rightarrow> bool" where
  "idle c \<longleftrightarrow> cn_state c = Connector_disconnected \<and> cn_timers c = [] \<and>
     count_list (cn_functors c) Start_in_loop = 0 \<and> cn_channel c = None"

lemma retry_inv:
  assumes "cn_timers c = []" and "count_list (cn_functors c) Start_in_loop = 0"
    and "\<forall>fd. cn_channel c \<noteq> Some (fd, True)"
    and "cn_channel c = None \<longrightarrow> count_list (cn_functors c) Reset_channel = 0"
    and "cn_channel c \<noteq> None \<longrightarrow> count_list (cn_functors c) Reset_channel = 1"
    and "mset (cn_closed c @ cn_handed c @ [fd]) = mset [0..<cn_sockets c]"
    and "delays_inv c"
  shows "connector_inv (retry fd c)"
  using assms
  by (auto simp: connector_inv_defs connector_defs kInitRetryDelayMs_def kMaxRetryDelayMs_def
      split: option.splits prod.splits bool.splits)

lemma startInLoop_ok:
  assumes "idle c" and "connector_inv c"
  shows "\<exists>c'. startInLoop e c = Some c' \<and> connector_inv c'"
proof -
  let ?c = "c\<lparr>cn_sockets := cn_sockets c + 1\<rparr>"
  have free: "count_list (cn_functors c) Reset_channel = 0"
    using assms by (simp add: idle_def connector_inv_defs)
  let ?n = "cn_sockets c"
  let ?conn = "?c\<lparr>cn_state := Connector_connecting, cn_channel := Some (?n, True)\<rparr>"
  have ch: "cn_channel c = None" "cn_state c = Connector_disconnected" using assms(1) by (simp_all add: idle_def)
  have "connector_inv (retry ?n ?c)"
    using assms free by (intro retry_inv) (simp_all add: idle_def connector_inv_defs)
  moreover have "connector_inv ?conn"
    using assms free by (simp add: idle_def connector_inv_defs)
  moreover have "connector_inv (close_socket ?n ?c)"
    using assms free by (simp add: idle_def connector_inv_defs close_socket_def)
  moreover have "startInLoop e c \<in> {Some ?conn, Some (retry ?n ?c), Some (close_socket ?n ?c), Some c}"
    by (simp add: startInLoop_def connect_socket_def connecting_def Let_def ch)
  ultimately show ?thesis using assms(2) by blast
qed

text \<open>Taking the channel off the poller, before the socket is closed or handed over.\<close>

definition unwatched :: "nat \<Rightarrow> connector \<Rightarrow> connector" where
  "unwatched fd c = queue_functor Reset_channel (c\<lparr>cn_channel := Some (fd, False)\<rparr>)"

lemma connecting_channel:
  "connector_inv c \<Longrightarrow> cn_state c = Connector_connecting \<Longrightarrow> \<exists>fd. cn_channel c = Some (fd, True)"
  by (auto simp: connector_inv_def channel_inv_def split: option.splits bool.splits)

lemma connecting_state:
  assumes "connector_inv c" and "cn_channel c = Some (fd, True)"
  shows "removeAndResetChannel c = Some (fd, unwatched fd c)" "cn_state c = Connector_connecting"
    "cn_timers c = []" "count_list (cn_functors c) Start_in_loop = 0"
    "count_list (cn_functors c) Reset_channel = 0"
    "mset (cn_closed c @ cn_handed c @ [fd]) = mset [0..<cn_sockets c]" "delays_inv c"
  using assms by (auto simp: removeAndResetChannel_def unwatched_def connector_inv_defs)

lemma retry_after:
  assumes "connector_inv c" and "cn_channel c = Some (fd, True)"
  shows "connector_inv (retry fd (unwatched fd c))"
  using connecting_state [OF assms]
  by (intro retry_inv) (simp_all add: unwatched_def queue_functor_def delays_inv_def)

lemma handleError_ok:
  assumes "connector_inv c"
  shows "\<exists>c'. connector_handleError c = Some c' \<and> connector_inv c'"
proof (cases "cn_state c = Connector_connecting")
  case True
  then obtain fd where fd: "cn_channel c = Some (fd, True)" using connecting_channel [OF assms] by blast
  show ?thesis
    using connecting_state(1) [OF assms fd] retry_after [OF assms fd] True
    by (simp add: connector_handleError_def)
qed (simp add: connector_handleError_def assms)

lemma handleWrite_ok:
  assumes "connector_inv c" and "cn_channel c = Some (fd, True)"
  shows "\<exists>c'. connector_handleWrite err self c = Some c' \<and> connector_inv c'"
proof -
  let ?c = "(unwatched fd c)\<lparr>cn_state := Connector_connected\<rparr>"
  note st = connecting_state [OF assms]
  have inv: "connector_inv (close_socket fd ?c)" "connector_inv (?c\<lparr>cn_handed := cn_handed c @ [fd]\<rparr>)"
    using st
    by (auto simp: connector_inv_defs unwatched_def queue_functor_def close_socket_def)
  have "cn_handed ?c = cn_handed c" by (simp add: unwatched_def queue_functor_def)
  then show ?thesis
    using st(1,2) inv retry_after [OF assms]
    by (simp add: connector_handleWrite_def Let_def)
qed

lemma stopInLoop_ok:
  assumes "connector_inv c"
  shows "\<exists>c'. stopInLoop c = Some c' \<and> connector_inv c'"
proof (cases "cn_state c = Connector_connecting")
  case True
  then obtain fd where fd: "cn_channel c = Some (fd, True)" using connecting_channel [OF assms] by blast
  have "retry fd ((unwatched fd c)\<lparr>cn_state := Connector_disconnected\<rparr>) = retry fd (unwatched fd c)"
    by (simp add: retry_def close_socket_def Let_def)
  moreover have "removeAndResetChannel (c\<lparr>cn_state := Connector_disconnected\<rparr>) =
      Some (fd, (unwatched fd c)\<lparr>cn_state := Connector_disconnected\<rparr>)"
    using fd by (simp add: removeAndResetChannel_def unwatched_def queue_functor_def)
  ultimately show ?thesis using retry_after [OF assms fd] True by (simp add: stopInLoop_def)
qed (simp add: stopInLoop_def assms)

lemma functor_ok:
  assumes inv: "connector_inv c" and fs: "cn_functors c = f # fs"
  shows "\<exists>c'. connector_functor_run e f (c\<lparr>cn_functors := fs\<rparr>) = Some c' \<and> connector_inv c'"
proof (cases f)
  case Start_in_loop
  have "idle (c\<lparr>cn_functors := fs\<rparr>)" "connector_inv (c\<lparr>cn_functors := fs\<rparr>)"
    using inv fs Start_in_loop
    by (auto simp: idle_def connector_inv_defs split: option.splits prod.splits bool.splits if_splits)
  then show ?thesis using startInLoop_ok Start_in_loop by simp
next
  case Stop_in_loop
  have "connector_inv (c\<lparr>cn_functors := fs\<rparr>)"
    using inv fs Stop_in_loop
    by (auto simp: connector_inv_defs split: option.splits prod.splits bool.splits if_splits)
  then show ?thesis using stopInLoop_ok Stop_in_loop by simp
next
  case Reset_channel
  then obtain fd where fd: "cn_channel c = Some (fd, False)" "count_list fs Reset_channel = 0"
    using inv fs by (auto simp: connector_inv_defs split: option.splits prod.splits bool.splits)
  have "connector_inv (c\<lparr>cn_functors := fs, cn_channel := None\<rparr>)"
    using inv fs Reset_channel fd by (auto simp: connector_inv_defs split: if_splits)
  then show ?thesis using Reset_channel fd(1) by (simp add: resetChannel_def)
qed

lemma connector_do_ok:
  assumes inv: "connector_inv c" and en: "connector_enabled op c"
  shows "\<exists>c'. connector_do op c = Some c' \<and> connector_inv c'"
proof (cases op)
  case (Cn_start in_loop e)
  let ?c = "c\<lparr>cn_connect := True\<rparr>"
  have i: "idle ?c" "connector_inv ?c" "connector_inv (queue_functor Start_in_loop ?c)"
    using inv en Cn_start
    by (auto simp: idle_def connector_inv_defs queue_functor_def
        split: option.splits prod.splits bool.splits if_splits)
  show ?thesis using startInLoop_ok [OF i(1,2)] i(3) Cn_start by (simp add: connector_start_def Let_def)
next
  case (Cn_restart e)
  let ?c = "c\<lparr>cn_state := Connector_disconnected, cn_retryDelayMs := kInitRetryDelayMs, cn_connect := True\<rparr>"
  have "idle ?c" "connector_inv ?c"
    using inv en Cn_restart
    by (auto simp: idle_def connector_inv_defs kInitRetryDelayMs_def kMaxRetryDelayMs_def
        split: option.splits prod.splits bool.splits if_splits)
  then show ?thesis using startInLoop_ok Cn_restart by (simp add: connector_restart_def)
next
  case Cn_stop
  have "connector_inv (connector_stop c)"
    using inv
    by (auto simp: connector_stop_def queue_functor_def connector_inv_defs
        split: option.splits prod.splits bool.splits)
  then show ?thesis using Cn_stop by simp
next
  case (Cn_functor e)
  then show ?thesis using functor_ok [OF inv] en by (cases "cn_functors c") auto
next
  case (Cn_timer e)
  then obtain d ts where ts: "cn_timers c = d # ts" using en by (cases "cn_timers c") auto
  have "idle (c\<lparr>cn_timers := ts\<rparr>)" "connector_inv (c\<lparr>cn_timers := ts\<rparr>)"
    using inv en Cn_timer ts
    by (auto simp: idle_def connector_inv_defs count_list_0_iff
        split: option.splits prod.splits bool.splits if_splits)
  then show ?thesis using startInLoop_ok Cn_timer ts by simp
next
  case (Cn_writable err self)
  then show ?thesis using handleWrite_ok [OF inv] en by auto
next
  case Cn_error
  then show ?thesis using handleError_ok [OF inv] by simp
qed

lemma connector_run_ok:
  "connector_inv c \<Longrightarrow> connector_allowed ops c \<Longrightarrow>
     \<exists>c'. connector_run ops c = Some c' \<and> connector_inv c'"
proof (induction ops arbitrary: c)
  case (Cons op ops)
  then show ?case using connector_do_ok [of c op] by (fastforce simp: connector_run_def)
qed (simp add: connector_run_def)

subsection \<open>The properties\<close>

text \<open>C32: in every order of calls, events, functors and timers that the surroundings allow, no assertion
  of the connector fails, at most one attempt is under way, every socket it has created is closed,
  handed over or the one that connects, each exactly once, and a retry waits between half a second and
  thirty seconds.
\<close>

theorem connector_sockets_accounted:
  assumes "connector_allowed ops new_connector"
  shows "\<exists>c. connector_run ops new_connector = Some c \<and> attempts c \<le> 1 \<and>
    mset (cn_closed c @ cn_handed c @ connecting_socket c) = mset [0..<cn_sockets c] \<and>
    (\<forall>d \<in> set (cn_timers c). kInitRetryDelayMs \<le> d \<and> d \<le> kMaxRetryDelayMs)"
  using connector_run_ok [OF new_connector_inv assms]
  by (auto simp: connector_inv_def sockets_inv_def delays_inv_def)

lemma connector_sockets_accounted_witness:
  "\<exists>c. connector_run [Cn_start False EINTR, Cn_functor EINPROGRESS, Cn_writable True False,
       Cn_functor EINTR, Cn_timer No_error, Cn_writable False False, Cn_stop] new_connector = Some c \<and>
     attempts c \<le> 1 \<and>
     mset (cn_closed c @ cn_handed c @ connecting_socket c) = mset [0..<cn_sockets c]"
  using connector_sockets_accounted [of "[Cn_start False EINTR, Cn_functor EINPROGRESS,
      Cn_writable True False, Cn_functor EINTR, Cn_timer No_error, Cn_writable False False, Cn_stop]"]
  by (auto simp: new_connector_def connector_start_def startInLoop_def connect_socket_def
      connecting_def queue_functor_def connector_handleWrite_def removeAndResetChannel_def retry_def
      close_socket_def resetChannel_def connector_stop_def Let_def)

fun starts :: "connector_op \<Rightarrow> bool" where
  "starts (Cn_start in_loop e) \<longleftrightarrow> True"
| "starts (Cn_restart e) \<longleftrightarrow> True"
| "starts _ \<longleftrightarrow> False"

definition silent :: "connector \<Rightarrow> connector \<Rightarrow> bool" where
  "silent c c' \<longleftrightarrow> \<not> cn_connect c' \<and> cn_handed c' = cn_handed c \<and>
     length (cn_timers c') \<le> length (cn_timers c)"

lemma silent_refl: "\<not> cn_connect c \<Longrightarrow> silent c c"
  by (simp add: silent_def)

lemma retry_silent: "\<not> cn_connect c \<Longrightarrow> silent c (retry fd c)"
  by (simp add: silent_def retry_def close_socket_def Let_def)

lemma removed_silent:
  "removeAndResetChannel c = Some (fd, c') \<Longrightarrow>
     cn_connect c' = cn_connect c \<and> cn_handed c' = cn_handed c \<and> cn_timers c' = cn_timers c"
  by (auto simp: removeAndResetChannel_def queue_functor_def split: option.splits)

lemma startInLoop_silent: "startInLoop e c = Some c' \<Longrightarrow> \<not> cn_connect c \<Longrightarrow> c' = c"
  by (auto simp: startInLoop_def split: bind_splits)

lemma step_silent:
  assumes "connector_do op c = Some c'" and "\<not> starts op" and "\<not> cn_connect c"
  shows "silent c c'"
proof (cases op)
  case Cn_stop
  then show ?thesis using assms by (auto simp: connector_stop_def queue_functor_def silent_def)
next
  case (Cn_functor e)
  then obtain f fs where fs: "cn_functors c = f # fs"
    "connector_functor_run e f (c\<lparr>cn_functors := fs\<rparr>) = Some c'"
    using assms(1) by (cases "cn_functors c") auto
  let ?c = "c\<lparr>cn_functors := fs\<rparr>"
  have "silent ?c c'"
  proof (cases f)
    case Start_in_loop
    then show ?thesis using fs(2) assms(3) startInLoop_silent [of e ?c c'] by (auto simp: silent_def)
  next
    case Stop_in_loop
    then show ?thesis
      using fs(2) assms(3)
      by (auto simp: stopInLoop_def silent_def retry_def close_socket_def Let_def
          split: if_splits bind_splits dest!: removed_silent)
  next
    case Reset_channel
    then show ?thesis using fs(2) assms(3) by (auto simp: resetChannel_def silent_def split: bind_splits)
  qed
  then show ?thesis by (simp add: silent_def)
next
  case (Cn_timer e)
  then obtain d ts where ts: "cn_timers c = d # ts" "startInLoop e (c\<lparr>cn_timers := ts\<rparr>) = Some c'"
    using assms(1) by (cases "cn_timers c") auto
  then show ?thesis using startInLoop_silent [OF ts(2)] assms(3) by (auto simp: silent_def)
next
  case (Cn_writable err self)
  then show ?thesis
    using assms
    by (auto simp: connector_handleWrite_def silent_def retry_def close_socket_def Let_def
        split: if_splits bind_splits dest!: removed_silent)
next
  case Cn_error
  then show ?thesis
    using assms
    by (auto simp: connector_handleError_def silent_def retry_def close_socket_def Let_def
        split: if_splits bind_splits dest!: removed_silent)
qed (use assms in auto)

text \<open>After \<open>stop\<close>, until the next \<open>start\<close> or \<open>restart\<close>, no connection is handed over and no
  retry is set up, whatever else happens and in whatever order.
\<close>

theorem stopped_connector_silent:
  assumes "connector_run ops (connector_stop c) = Some c'" and "list_all (\<lambda>op. \<not> starts op) ops"
  shows "cn_handed c' = cn_handed c \<and> length (cn_timers c') \<le> length (cn_timers c)"
proof -
  have "connector_run ops s = Some c' \<Longrightarrow> \<not> cn_connect s \<Longrightarrow> silent s c'" for s
    using assms(2)
  proof (induction ops arbitrary: s)
    case (Cons op ops)
    then obtain s1 where s1: "connector_do op s = Some s1" "connector_run ops s1 = Some c'"
      by (auto simp: connector_run_def split: bind_splits)
    then have "silent s s1" using step_silent Cons.prems by auto
    then show ?case using Cons.IH [OF s1(2)] Cons.prems by (auto simp: silent_def)
  qed (simp add: connector_run_def silent_refl)
  from this [OF assms(1)] show ?thesis by (simp add: silent_def connector_stop_def queue_functor_def)
qed

lemma stopped_connector_silent_witness:
  "\<exists>c c'. connector_run [Cn_start True EINPROGRESS] new_connector = Some c \<and>
     connector_run [Cn_writable False False, Cn_functor EINTR] (connector_stop c) = Some c' \<and>
     cn_handed c' = cn_handed c \<and> length (cn_timers c') \<le> length (cn_timers c)"
proof -
  obtain c where c: "connector_run [Cn_start True EINPROGRESS] new_connector = Some c"
    "cn_state c = Connector_connecting" "cn_channel c = Some (0, True)" "cn_functors c = []"
    by (auto simp: connector_run_def new_connector_def connector_start_def startInLoop_def
        connect_socket_def connecting_def Let_def)
  obtain c' where c': "connector_run [Cn_writable False False, Cn_functor EINTR] (connector_stop c) = Some c'"
    using c(2-4)
    by (auto simp: connector_run_def connector_stop_def queue_functor_def connector_handleWrite_def
        removeAndResetChannel_def close_socket_def stopInLoop_def Let_def)
  show ?thesis using stopped_connector_silent [OF c'] c(1) c' by auto
qed

text \<open>When every attempt is refused, the delays between the attempts double from half a second up to
  thirty seconds.
\<close>

theorem retry_delays_double:
  "\<exists>c. connector_run (Cn_start True ECONNREFUSED # replicate k (Cn_timer ECONNREFUSED)) new_connector =
      Some c \<and>
    cn_timers c = [min (kInitRetryDelayMs * 2 ^ k) kMaxRetryDelayMs] \<and>
    cn_closed c = [0..<k + 1] \<and> cn_handed c = []"
proof -
  have step: "\<exists>c'. connector_do (Cn_timer ECONNREFUSED) c = Some c' \<and> cn_connect c' \<and>
      cn_state c' = Connector_disconnected \<and> cn_timers c' = [cn_retryDelayMs c] \<and>
      cn_retryDelayMs c' = min (cn_retryDelayMs c * 2) kMaxRetryDelayMs \<and>
      cn_closed c' = cn_closed c @ [cn_sockets c] \<and> cn_sockets c' = cn_sockets c + 1 \<and>
      cn_handed c' = cn_handed c"
    if "cn_connect c" "cn_state c = Connector_disconnected" "cn_timers c = [d]" for c d
    using that by (simp add: startInLoop_def connect_socket_def retry_def close_socket_def Let_def)
  have run: "\<exists>c'. connector_run (replicate k (Cn_timer ECONNREFUSED)) c = Some c' \<and>
      cn_timers c' = [min (kInitRetryDelayMs * 2 ^ (n + k)) kMaxRetryDelayMs] \<and>
      cn_closed c' = [0..<n + k + 1] \<and> cn_handed c' = []"
    if "cn_connect c" "cn_state c = Connector_disconnected"
      "cn_timers c = [min (kInitRetryDelayMs * 2 ^ n) kMaxRetryDelayMs]"
      "cn_retryDelayMs c = min (kInitRetryDelayMs * 2 ^ (n + 1)) kMaxRetryDelayMs"
      "cn_closed c = [0..<n + 1]" "cn_sockets c = n + 1" "cn_handed c = []" for c n
    using that
  proof (induction k arbitrary: c n)
    case (Suc k)
    obtain c1 where c1: "connector_do (Cn_timer ECONNREFUSED) c = Some c1" "cn_connect c1"
      "cn_state c1 = Connector_disconnected" "cn_timers c1 = [cn_retryDelayMs c]"
      "cn_retryDelayMs c1 = min (cn_retryDelayMs c * 2) kMaxRetryDelayMs"
      "cn_closed c1 = cn_closed c @ [cn_sockets c]" "cn_sockets c1 = cn_sockets c + 1"
      "cn_handed c1 = cn_handed c"
      using step [OF Suc.prems(1,2,3)] by blast
    have "min (min (kInitRetryDelayMs * 2 ^ (n + 1)) kMaxRetryDelayMs * 2) kMaxRetryDelayMs =
        min (kInitRetryDelayMs * 2 ^ (Suc n + 1)) kMaxRetryDelayMs"
      by (simp add: min_def)
    then show ?case
      using Suc.IH [of c1 "Suc n"] Suc.prems c1 by (auto simp: connector_run_def)
  qed (simp add: connector_run_def)
  obtain c where c: "connector_do (Cn_start True ECONNREFUSED) new_connector = Some c" "cn_connect c"
    "cn_state c = Connector_disconnected" "cn_timers c = [500]" "cn_retryDelayMs c = 1000"
    "cn_closed c = [0]" "cn_sockets c = 1" "cn_handed c = []"
    by (simp add: new_connector_def connector_start_def startInLoop_def connect_socket_def retry_def
        close_socket_def Let_def kInitRetryDelayMs_def kMaxRetryDelayMs_def)
  then show ?thesis
    using run [of c 0] by (simp add: connector_run_def kInitRetryDelayMs_def kMaxRetryDelayMs_def)
qed

text \<open>Outside that discipline the assertions of the connector fail: if it is started again after a
  \<open>stop\<close> that left the timer of a retry running; if it is started again after a \<open>stop\<close> that came while the
  socket connected, and the socket became writable first; if the timer of a retry fires in the round in
  which the attempt before it has failed.
\<close>

theorem connector_races:
  "connector_run [Cn_start True ECONNREFUSED, Cn_stop, Cn_functor e, Cn_start True EINPROGRESS] new_connector \<noteq> None \<and>
   connector_run [Cn_start True ECONNREFUSED, Cn_stop, Cn_functor e, Cn_start True EINPROGRESS, Cn_timer e']
     new_connector = None \<and>
   connector_run [Cn_start True EINPROGRESS, Cn_stop, Cn_writable False False, Cn_functor e, Cn_functor e]
     new_connector \<noteq> None \<and>
   connector_run [Cn_start True EINPROGRESS, Cn_stop, Cn_writable False False, Cn_functor e, Cn_functor e,
     Cn_start True e'] new_connector = None \<and>
   connector_run [Cn_start True EINPROGRESS, Cn_writable True False] new_connector \<noteq> None \<and>
   connector_run [Cn_start True EINPROGRESS, Cn_writable True False, Cn_timer EINPROGRESS] new_connector = None"
  by (simp add: connector_run_def new_connector_def connector_start_def startInLoop_def
      connect_socket_def connecting_def queue_functor_def connector_handleWrite_def
      removeAndResetChannel_def retry_def close_socket_def resetChannel_def connector_stop_def
      stopInLoop_def Let_def)

end
