(* ===== verification/Tcp_Server.thy ===== *)
theory Tcp_Server
  imports Muduo_Prelude String_Map
begin

text \<open>
  The accepting side of muduo: \<open>EventLoopThreadPool\<close>, \<open>Acceptor\<close>, \<open>sockets::accept\<close> and \<open>TcpServer\<close>.
  The loops are numbered, the base loop is 0. A connection is represented by what the server knows of
  it, its name, its loop and its descriptor, and by how far its life has come. What is handed to a
  loop with \<open>runInLoop\<close> or \<open>queueInLoop\<close> waits in \<open>ts_tasks\<close>, in the order in which it was handed over.
  \<open>None\<close> is a failed \<open>assert\<close>, a fatal log entry, or the use of a server that is gone.
\<close>

subsection \<open>EventLoopThreadPool\<close>

record loop_pool =
  lp_name :: string
  lp_started :: bool
  lp_numThreads :: nat
  lp_next :: nat
  lp_threads :: "string list"
  lp_loops :: "nat list"

definition new_loop_pool :: "string \<Rightarrow> loop_pool" where
  "new_loop_pool nameArg =
     \<lparr>lp_name = nameArg, lp_started = False, lp_numThreads = 0, lp_next = 0, lp_threads = [],
      lp_loops = []\<rparr>"

text \<open>The threads are named after the pool; each hands over its loop when it runs.\<close>

definition thread_name :: "string \<Rightarrow> nat \<Rightarrow> string" where
  "thread_name pool i = snprintf_text (length pool + 32) (pool @ int_text (int i))"

definition start_pool :: "loop_pool \<Rightarrow> loop_pool option" where
  "start_pool p = do {
     C_assert (\<not> lp_started p);
     Some (p\<lparr>lp_started := True,
             lp_threads := lp_threads p @ map (thread_name (lp_name p)) [0..<lp_numThreads p],
             lp_loops := lp_loops p @ map Suc [0..<lp_numThreads p]\<rparr>)
   }"

definition getNextLoop :: "loop_pool \<Rightarrow> (nat \<times> loop_pool) option" where
  "getNextLoop p = do {
     C_assert (lp_started p);
     if lp_loops p \<noteq> [] then
       let next = lp_next p + 1 in
       Some (lp_loops p ! lp_next p,
             p\<lparr>lp_next := (if length (lp_loops p) \<le> next then 0 else next)\<rparr>)
     else Some (0, p)
   }"

definition getLoopForHash :: "nat \<Rightarrow> loop_pool \<Rightarrow> nat" where
  "getLoopForHash hashCode p =
     (if lp_loops p \<noteq> [] then lp_loops p ! (hashCode mod length (lp_loops p)) else 0)"

definition getAllLoops :: "loop_pool \<Rightarrow> nat list option" where
  "getAllLoops p = do {
     C_assert (lp_started p);
     Some (if lp_loops p = [] then [0] else lp_loops p)
   }"

subsection \<open>Descriptors\<close>

text \<open>
  What the code relies on in the system: a new descriptor is the lowest that is free, there is a limit,
  and \<open>accept\<close> fails with \<open>EMFILE\<close> at the limit, and with \<open>EAGAIN\<close> when nobody waits. Any other
  failure is given with the step.
\<close>

datatype accept_errno =
    EAGAIN | ECONNABORTED | EINTR | EPROTO | EPERM | EMFILE
  | EBADF | EFAULT | EINVAL | ENFILE | ENOBUFS | ENOMEM | ENOTSOCK | EOPNOTSUPP
  | Unknown_errno

record descriptors =
  d_open :: "nat list"
  d_limit :: nat
  d_backlog :: "nat list"

definition lowest_free :: "descriptors \<Rightarrow> nat option" where
  "lowest_free d = find (\<lambda>n. n \<notin> set (d_open d)) [0..<d_limit d]"

definition open_fd :: "descriptors \<Rightarrow> nat option \<times> descriptors" where
  "open_fd d = (case lowest_free d of
     None \<Rightarrow> (None, d)
   | Some n \<Rightarrow> (Some n, d\<lparr>d_open := n # d_open d\<rparr>))"

definition close_fd :: "nat \<Rightarrow> descriptors \<Rightarrow> descriptors" where
  "close_fd n d = d\<lparr>d_open := remove1 n (d_open d)\<rparr>"

definition accept_fd :: "accept_errno option \<Rightarrow> descriptors \<Rightarrow> (accept_errno + nat \<times> nat) \<times> descriptors" where
  "accept_fd failure d = (case lowest_free d of
     None \<Rightarrow> (Inl EMFILE, d)
   | Some n \<Rightarrow> (case failure of
       Some e \<Rightarrow> (Inl e, d)
     | None \<Rightarrow> (case d_backlog d of
         [] \<Rightarrow> (Inl EAGAIN, d)
       | peer # waiting \<Rightarrow> (Inr (n, peer), d\<lparr>d_open := n # d_open d, d_backlog := waiting\<rparr>))))"

text \<open>\<open>sockets::accept\<close> ends the process when the error is not one that it expects.\<close>

definition expected_errors :: "accept_errno list" where
  "expected_errors = [EAGAIN, ECONNABORTED, EINTR, EPROTO, EPERM, EMFILE]"

definition accept_socket ::
    "accept_errno option \<Rightarrow> descriptors \<Rightarrow> ((accept_errno + nat \<times> nat) \<times> descriptors) option" where
  "accept_socket failure d = (case accept_fd failure d of
     (Inl e, d) \<Rightarrow> if e \<in> set expected_errors then Some (Inl e, d) else None
   | (Inr c, d) \<Rightarrow> Some (Inr c, d))"

subsection \<open>Acceptor\<close>

text \<open>The idle descriptor is \<open>None\<close> when it could not be opened again.\<close>

record acceptor =
  ac_fd :: nat
  ac_listenning :: bool
  ac_idleFd :: "nat option"

definition new_acceptor :: "descriptors \<Rightarrow> (acceptor \<times> descriptors) option" where
  "new_acceptor d = do {
     (sockfd, d) \<leftarrow> (case open_fd d of (Some n, d) \<Rightarrow> Some (n, d) | (None, d) \<Rightarrow> None);
     let (idle, d) = open_fd d;
     C_assert (idle \<noteq> None);
     Some (\<lparr>ac_fd = sockfd, ac_listenning = False, ac_idleFd = idle\<rparr>, d)
   }"

definition close_idle :: "nat option \<Rightarrow> descriptors \<Rightarrow> descriptors" where
  "close_idle idle d = (case idle of None \<Rightarrow> d | Some n \<Rightarrow> close_fd n d)"

definition destroy_acceptor :: "acceptor \<Rightarrow> descriptors \<Rightarrow> descriptors" where
  "destroy_acceptor a d = close_fd (ac_fd a) (close_idle (ac_idleFd a) d)"

text \<open>
  \<open>handleRead\<close> of an acceptor whose callback is set: the new connection, if there is one, goes to the
  callback. At the limit the idle descriptor is given up for a moment, so that the connection can
  be accepted and closed.
\<close>

definition shed_connection :: "acceptor \<Rightarrow> descriptors \<Rightarrow> acceptor \<times> descriptors" where
  "shed_connection a d =
     (let d = close_idle (ac_idleFd a) d;
          (r, d) = accept_fd None d;
          d = (case r of Inr (n, peer) \<Rightarrow> close_fd n d | Inl e \<Rightarrow> d);
          (idle, d) = open_fd d
      in (a\<lparr>ac_idleFd := idle\<rparr>, d))"

definition acceptor_handleRead ::
    "accept_errno option \<Rightarrow> acceptor \<Rightarrow> descriptors \<Rightarrow>
      ((nat \<times> nat) option \<times> acceptor \<times> descriptors) option" where
  "acceptor_handleRead failure a d = do {
     (r, d) \<leftarrow> accept_socket failure d;
     case r of
       Inr c \<Rightarrow> Some (Some c, a, d)
     | Inl e \<Rightarrow>
         if e = EMFILE then let (a, d) = shed_connection a d in Some (None, a, d)
         else Some (None, a, d)
   }"

subsection \<open>TcpServer\<close>

datatype conn_phase = Conn_made | Conn_established | Conn_closed | Conn_destroyed

record server_conn =
  co_name :: string
  co_loop :: nat
  co_fd :: nat
  co_phase :: conn_phase

datatype server_task = Task_established nat | Task_remove nat | Task_destroyed nat

record tcp_server =
  ts_alive :: bool
  ts_name :: string
  ts_ipPort :: string
  ts_acceptor :: acceptor
  ts_pool :: loop_pool
  ts_started :: bool
  ts_nextConnId :: int
  ts_connections :: "(string \<times> nat) list"
  ts_conns :: "server_conn list"
  ts_tasks :: "(nat \<times> server_task) list"
  ts_fds :: descriptors

definition new_tcp_server :: "string \<Rightarrow> string \<Rightarrow> descriptors \<Rightarrow> tcp_server option" where
  "new_tcp_server ipPort nameArg d = do {
     (a, d) \<leftarrow> new_acceptor d;
     Some \<lparr>ts_alive = True, ts_name = nameArg, ts_ipPort = ipPort, ts_acceptor = a,
           ts_pool = new_loop_pool nameArg, ts_started = False, ts_nextConnId = 1,
           ts_connections = [], ts_conns = [], ts_tasks = [], ts_fds = d\<rparr>
   }"

definition setThreadNum :: "int \<Rightarrow> tcp_server \<Rightarrow> tcp_server option" where
  "setThreadNum numThreads s = do {
     C_assert (0 \<le> numThreads);
     Some (s\<lparr>ts_pool := (ts_pool s)\<lparr>lp_numThreads := nat numThreads\<rparr>\<rparr>)
   }"

definition start_server :: "tcp_server \<Rightarrow> tcp_server option" where
  "start_server s =
     (if \<not> ts_started s then do {
        pool \<leftarrow> start_pool (ts_pool s);
        C_assert (\<not> ac_listenning (ts_acceptor s));
        Some (s\<lparr>ts_started := True, ts_pool := pool,
                ts_acceptor := (ts_acceptor s)\<lparr>ac_listenning := True\<rparr>\<rparr>)
      }
      else Some s)"

definition queue_task :: "nat \<Rightarrow> server_task \<Rightarrow> tcp_server \<Rightarrow> tcp_server" where
  "queue_task loop t s = s\<lparr>ts_tasks := ts_tasks s @ [(loop, t)]\<rparr>"

text \<open>
  The life of a connection as the server sees it: the assertions are those of \<open>connectEstablished\<close> and
  of the channel that \<open>connectDestroyed\<close> removes. A destroyed connection gives its descriptor back.
\<close>

definition set_phase :: "nat \<Rightarrow> conn_phase \<Rightarrow> tcp_server \<Rightarrow> tcp_server" where
  "set_phase k ph s = s\<lparr>ts_conns := (ts_conns s)[k := (ts_conns s ! k)\<lparr>co_phase := ph\<rparr>]\<rparr>"

definition conn_established :: "nat \<Rightarrow> tcp_server \<Rightarrow> tcp_server option" where
  "conn_established k s = do {
     C_assert (co_phase (ts_conns s ! k) = Conn_made);
     Some (set_phase k Conn_established s)
   }"

definition conn_destroyed :: "nat \<Rightarrow> tcp_server \<Rightarrow> tcp_server option" where
  "conn_destroyed k s = do {
     C_assert (co_phase (ts_conns s ! k) \<noteq> Conn_destroyed);
     let s = set_phase k Conn_destroyed s;
     Some (s\<lparr>ts_fds := close_fd (co_fd (ts_conns s ! k)) (ts_fds s)\<rparr>)
   }"

definition removeConnectionInLoop :: "nat \<Rightarrow> tcp_server \<Rightarrow> tcp_server option" where
  "removeConnectionInLoop k s = do {
     let conn = ts_conns s ! k;
     let (n, m) = map_erase (co_name conn) (ts_connections s);
     C_assert (n = 1);
     Some (queue_task (co_loop conn) (Task_destroyed k) (s\<lparr>ts_connections := m\<rparr>))
   }"

fun run_task :: "server_task \<Rightarrow> tcp_server \<Rightarrow> tcp_server option" where
  "run_task (Task_established k) s = conn_established k s"
| "run_task (Task_remove k) s = (if ts_alive s then removeConnectionInLoop k s else None)"
| "run_task (Task_destroyed k) s = conn_destroyed k s"

text \<open>\<open>runInLoop\<close>, called in the thread of the loop \<open>here\<close>.\<close>

definition run_in_loop :: "nat \<Rightarrow> nat \<Rightarrow> server_task \<Rightarrow> tcp_server \<Rightarrow> tcp_server option" where
  "run_in_loop here loop t s = (if here = loop then run_task t s else Some (queue_task loop t s))"

text \<open>The text behind the server's name is cut at 63 characters; the number is an \<open>int\<close>.\<close>

definition conn_suffix :: "string \<Rightarrow> int \<Rightarrow> string" where
  "conn_suffix ipPort i = snprintf_text 64 (''-'' @ ipPort @ ''#'' @ int_text i)"

definition newConnection :: "nat \<Rightarrow> tcp_server \<Rightarrow> tcp_server option" where
  "newConnection sockfd s = do {
     (ioLoop, pool) \<leftarrow> getNextLoop (ts_pool s);
     let buf = conn_suffix (ts_ipPort s) (ts_nextConnId s);
     C_assert (ts_nextConnId s < 2 ^ 31 - 1);
     let connName = ts_name s @ buf;
     let k = length (ts_conns s);
     let conn = \<lparr>co_name = connName, co_loop = ioLoop, co_fd = sockfd, co_phase = Conn_made\<rparr>;
     run_in_loop 0 ioLoop (Task_established k)
       (s\<lparr>ts_pool := pool, ts_nextConnId := ts_nextConnId s + 1, ts_conns := ts_conns s @ [conn],
          ts_connections := map_assign connName k (ts_connections s)\<rparr>)
   }"

definition removeConnection :: "nat \<Rightarrow> nat \<Rightarrow> tcp_server \<Rightarrow> tcp_server option" where
  "removeConnection here k s = run_in_loop here 0 (Task_remove k) s"

definition removeAndDestroyConnection :: "nat \<Rightarrow> nat \<Rightarrow> tcp_server \<Rightarrow> tcp_server option" where
  "removeAndDestroyConnection here k s = removeConnection here k s"

primrec destroy_connections :: "(string \<times> nat) list \<Rightarrow> tcp_server \<Rightarrow> tcp_server option" where
  "destroy_connections [] s = Some s"
| "destroy_connections (e # m) s = do {
     s \<leftarrow> run_in_loop 0 (co_loop (ts_conns s ! snd e)) (Task_destroyed (snd e)) s;
     destroy_connections m s
   }"

definition destroy_server :: "tcp_server \<Rightarrow> tcp_server option" where
  "destroy_server s = do {
     s \<leftarrow> destroy_connections (ts_connections s) s;
     Some (s\<lparr>ts_alive := False, ts_connections := [],
             ts_fds := destroy_acceptor (ts_acceptor s) (ts_fds s)\<rparr>)
   }"

subsection \<open>Steps\<close>

text \<open>
  The acceptor's channel becomes readable; a connection closes in its own loop, whose close callback is
  \<open>removeConnection\<close>; a loop takes the first task that waits for it; the server is destroyed; the
  application asks for the removal of a connection; clients arrive, and other parts of the process open
  and close descriptors of their own.
\<close>

datatype server_op =
    Sv_start | Sv_accept "accept_errno option" | Sv_close nat | Sv_task nat | Sv_destroy
  | Sv_remove nat nat | Sv_client nat

definition accept_step :: "accept_errno option \<Rightarrow> tcp_server \<Rightarrow> tcp_server option" where
  "accept_step failure s = do {
     (r, a, d) \<leftarrow> acceptor_handleRead failure (ts_acceptor s) (ts_fds s);
     let s = s\<lparr>ts_acceptor := a, ts_fds := d\<rparr>;
     case r of
       Some (connfd, peer) \<Rightarrow> newConnection connfd s
     | None \<Rightarrow> Some s
   }"

definition close_step :: "nat \<Rightarrow> tcp_server \<Rightarrow> tcp_server option" where
  "close_step k s = do {
     C_assert (co_phase (ts_conns s ! k) = Conn_established);
     C_assert (ts_alive s);
     removeConnection (co_loop (ts_conns s ! k)) k (set_phase k Conn_closed s)
   }"

primrec next_task :: "nat \<Rightarrow> (nat \<times> server_task) list \<Rightarrow> (server_task \<times> (nat \<times> server_task) list) option" where
  "next_task loop [] = None"
| "next_task loop (e # es) =
     (if fst e = loop then Some (snd e, es)
      else map_option (\<lambda>(t, es). (t, e # es)) (next_task loop es))"

definition task_step :: "nat \<Rightarrow> tcp_server \<Rightarrow> tcp_server option" where
  "task_step loop s =
     (case next_task loop (ts_tasks s) of
        None \<Rightarrow> Some s
      | Some (t, rest) \<Rightarrow> run_task t (s\<lparr>ts_tasks := rest\<rparr>))"

fun server_do :: "server_op \<Rightarrow> tcp_server \<Rightarrow> tcp_server option" where
  "server_do Sv_start s = start_server s"
| "server_do (Sv_accept failure) s = accept_step failure s"
| "server_do (Sv_close k) s = close_step k s"
| "server_do (Sv_task loop) s = task_step loop s"
| "server_do Sv_destroy s = destroy_server s"
| "server_do (Sv_remove here k) s = removeAndDestroyConnection here k s"
| "server_do (Sv_client peer) s =
     Some (s\<lparr>ts_fds := (ts_fds s)\<lparr>d_backlog := d_backlog (ts_fds s) @ [peer]\<rparr>\<rparr>)"

definition server_run :: "server_op list \<Rightarrow> tcp_server \<Rightarrow> tcp_server option" where
  "server_run = run_all server_do"

end
