(* ===== verification/Server_Theorems.thy ===== *)
theory Server_Theorems
  imports Tcp_Server "HOL-Library.Multiset"
begin

text \<open>
  What holds of a server in every order of its steps: names, loops, the map of connections and the
  tasks that wait agree with how far each connection has come, and no descriptor is lost.
\<close>

subsection \<open>Descriptors\<close>

lemma lowest_free_Some: "lowest_free d = Some n \<Longrightarrow> n \<notin> set (d_open d) \<and> n < d_limit d"
  by (auto simp: lowest_free_def find_Some_iff)

lemma lowest_free_None: "lowest_free d = None \<longleftrightarrow> set [0..<d_limit d] \<subseteq> set (d_open d)"
  by (auto simp: lowest_free_def find_None_iff)

lemma close_fd_simps [simp]:
  "d_limit (close_fd n d) = d_limit d" "d_backlog (close_fd n d) = d_backlog d"
  "mset (d_open (close_fd n d)) = mset (d_open d) - {#n#}"
  "distinct (d_open d) \<Longrightarrow> distinct (d_open (close_fd n d))"
  by (simp_all add: close_fd_def)

lemma close_makes_room:
  assumes "n < d_limit d" and "distinct (d_open d)"
  shows "\<exists>m. lowest_free (close_fd n d) = Some m"
proof -
  have "n \<notin> set (d_open (close_fd n d))" using assms(2) by (simp add: close_fd_def)
  then have "lowest_free (close_fd n d) \<noteq> None" using assms(1) by (auto simp: lowest_free_None)
  then show ?thesis by blast
qed

text \<open>A connection that cannot be kept is accepted and closed, and the idle descriptor is there again.\<close>

lemma shed_ok:
  assumes i: "ac_idleFd a = Some i" "i < d_limit d" "i \<in> set (d_open d)" and d: "distinct (d_open d)"
  shows "\<exists>j d'. shed_connection a d = (a\<lparr>ac_idleFd := Some j\<rparr>, d') \<and> j < d_limit d' \<and>
    d_limit d' = d_limit d \<and> distinct (d_open d') \<and> d_backlog d' = tl (d_backlog d) \<and>
    mset (d_open d') = add_mset j (mset (d_open d) - {#i#})"
proof -
  let ?d = "close_fd i d"
  obtain m where m: "lowest_free ?d = Some m" using close_makes_room [OF i(2) d] by blast
  note free = lowest_free_Some [OF m]
  have closed: "close_fd m (?d\<lparr>d_open := m # d_open ?d, d_backlog := w\<rparr>) = ?d\<lparr>d_backlog := w\<rparr>" for w
    by (simp add: close_fd_def)
  have same: "lowest_free (?d\<lparr>d_backlog := w\<rparr>) = Some m" for w
    using m by (simp add: lowest_free_def)
  have "shed_connection a d =
      (a\<lparr>ac_idleFd := Some m\<rparr>, ?d\<lparr>d_open := m # d_open ?d, d_backlog := tl (d_backlog d)\<rparr>)"
  proof (cases "d_backlog d")
    case Nil
    then have "?d\<lparr>d_open := m # d_open ?d, d_backlog := []\<rparr> = ?d\<lparr>d_open := m # d_open ?d\<rparr>"
      by (cases d) (simp add: close_fd_def)
    then show ?thesis
      using Nil i(1) m by (simp add: shed_connection_def accept_fd_def open_fd_def close_idle_def Let_def)
  next
    case (Cons p ps)
    then show ?thesis
      using i(1) m same [of ps] closed [of ps]
      by (simp add: shed_connection_def accept_fd_def open_fd_def close_idle_def Let_def)
  qed
  then show ?thesis using free d by simp
qed

lemma handleRead_cases:
  assumes i: "ac_idleFd a = Some i" "i < d_limit d" "i \<in> set (d_open d)" and d: "distinct (d_open d)"
    and f: "\<And>e. failure = Some e \<Longrightarrow> e \<in> set expected_errors \<and> e \<noteq> EMFILE"
  shows "(\<exists>n p ps. acceptor_handleRead failure a d =
        Some (Some (n, p), a, d\<lparr>d_open := n # d_open d, d_backlog := ps\<rparr>) \<and>
        n \<notin> set (d_open d) \<and> d_backlog d = p # ps) \<or>
    acceptor_handleRead failure a d = Some (None, a, d) \<or>
    (\<exists>j d'. acceptor_handleRead failure a d = Some (None, a\<lparr>ac_idleFd := Some j\<rparr>, d') \<and>
        j < d_limit d' \<and> d_limit d' = d_limit d \<and> distinct (d_open d') \<and>
        mset (d_open d') = add_mset j (mset (d_open d) - {#i#}))"
proof (cases "lowest_free d")
  case None
  then show ?thesis
    using shed_ok [OF i d]
    by (auto simp: acceptor_handleRead_def accept_socket_def accept_fd_def expected_errors_def)
next
  case (Some n)
  note free = lowest_free_Some [OF Some]
  show ?thesis
  proof (cases failure)
    case None
    then show ?thesis
      using Some free
      by (cases "d_backlog d")
        (auto simp: acceptor_handleRead_def accept_socket_def accept_fd_def expected_errors_def)
  next
    case (Some e)
    then show ?thesis
      using \<open>lowest_free d = Some n\<close> f [OF Some]
      by (simp add: acceptor_handleRead_def accept_socket_def accept_fd_def)
  qed
qed

subsection \<open>The invariant\<close>

text \<open>The loop that serves the connection \<open>k\<close> of a pool of \<open>n\<close> threads.\<close>

definition loop_of_conn :: "nat \<Rightarrow> nat \<Rightarrow> nat" where
  "loop_of_conn n k = (if n = 0 then 0 else Suc (k mod n))"

definition name_of_conn :: "tcp_server \<Rightarrow> nat \<Rightarrow> string" where
  "name_of_conn s k = ts_name s @ conn_suffix (ts_ipPort s) (int k + 1)"

fun task_conn :: "server_task \<Rightarrow> nat" where
  "task_conn (Task_established k) = k"
| "task_conn (Task_remove k) = k"
| "task_conn (Task_destroyed k) = k"

definition tasks_of :: "nat \<Rightarrow> (nat \<times> server_task) list \<Rightarrow> (nat \<times> server_task) list" where
  "tasks_of k = filter (\<lambda>e. task_conn (snd e) = k)"

text \<open>How far a connection has come, what waits for it, and whether the map has it.\<close>

definition phase_ok :: "bool \<Rightarrow> nat \<Rightarrow> conn_phase \<Rightarrow> (nat \<times> server_task) list \<Rightarrow> bool \<Rightarrow> nat \<Rightarrow> bool" where
  "phase_ok alive loop ph tasks in_map k \<longleftrightarrow> (case ph of
     Conn_made \<Rightarrow> alive \<and> loop \<noteq> 0 \<and> tasks = [(loop, Task_established k)] \<and> in_map
   | Conn_established \<Rightarrow> alive \<and> tasks = [] \<and> in_map
   | Conn_closed \<Rightarrow>
       alive \<and> loop \<noteq> 0 \<and> tasks = [(0, Task_remove k)] \<and> in_map \<or>
       tasks = [(loop, Task_destroyed k)] \<and> \<not> in_map
   | Conn_destroyed \<Rightarrow> tasks = [] \<and> \<not> in_map)"

definition in_map :: "tcp_server \<Rightarrow> nat \<Rightarrow> bool" where
  "in_map s k \<longleftrightarrow> (name_of_conn s k, k) \<in> set (ts_connections s)"

definition conn_ok :: "nat \<Rightarrow> tcp_server \<Rightarrow> nat \<Rightarrow> bool" where
  "conn_ok n s k \<longleftrightarrow>
     co_name (ts_conns s ! k) = name_of_conn s k \<and>
     co_loop (ts_conns s ! k) = loop_of_conn n k \<and>
     phase_ok (ts_alive s) (loop_of_conn n k) (co_phase (ts_conns s ! k)) (tasks_of k (ts_tasks s))
       (in_map s k) k"

definition pool_ok :: "nat \<Rightarrow> tcp_server \<Rightarrow> bool" where
  "pool_ok n s \<longleftrightarrow>
     lp_numThreads (ts_pool s) = n \<and>
     lp_started (ts_pool s) = ts_started s \<and> ac_listenning (ts_acceptor s) = ts_started s \<and>
     lp_loops (ts_pool s) = (if ts_started s then map Suc [0..<n] else []) \<and>
     lp_next (ts_pool s) = (if n = 0 then 0 else length (ts_conns s) mod n) \<and>
     (ts_started s \<or> ts_conns s = [])"

definition map_ok :: "tcp_server \<Rightarrow> bool" where
  "map_ok s \<longleftrightarrow>
     map_ordered (ts_connections s) \<and>
     (\<forall>(c, k) \<in> set (ts_connections s). k < length (ts_conns s) \<and> c = name_of_conn s k) \<and>
     (\<forall>e \<in> set (ts_tasks s). task_conn (snd e) < length (ts_conns s)) \<and>
     ts_nextConnId s = int (length (ts_conns s)) + 1 \<and>
     length (ts_conns s) < 2 ^ 31 - 1 \<and> length (ts_ipPort s) \<le> 51"

definition live_fds :: "tcp_server \<Rightarrow> nat list" where
  "live_fds s = map co_fd (filter (\<lambda>c. co_phase c \<noteq> Conn_destroyed) (ts_conns s))"

definition own_fds :: "tcp_server \<Rightarrow> nat list" where
  "own_fds s =
     (if ts_alive s then [ac_fd (ts_acceptor s), the (ac_idleFd (ts_acceptor s))] else [])"

definition fds_ok :: "nat list \<Rightarrow> tcp_server \<Rightarrow> bool" where
  "fds_ok others s \<longleftrightarrow>
     distinct (d_open (ts_fds s)) \<and>
     mset (d_open (ts_fds s)) = mset (others @ own_fds s @ live_fds s) \<and>
     (\<exists>i. ac_idleFd (ts_acceptor s) = Some i \<and> i < d_limit (ts_fds s))"

definition server_inv :: "nat \<Rightarrow> nat list \<Rightarrow> tcp_server \<Rightarrow> bool" where
  "server_inv n others s \<longleftrightarrow>
     pool_ok n s \<and> map_ok s \<and> fds_ok others s \<and> (\<forall>k < length (ts_conns s). conn_ok n s k)"

text \<open>Names differ, because the whole number is always in the name.\<close>

lemma conn_suffix_whole:
  assumes "length ipPort \<le> 51" and "0 \<le> i" and "i < 2 ^ 31"
  shows "conn_suffix ipPort i = ''-'' @ ipPort @ ''#'' @ int_text i"
proof -
  have "nat i < 10 ^ 10" using assms(2,3) by (simp add: nat_less_iff)
  then have "length (int_text i) \<le> 10" using assms(2) decimal_length [of "nat i" 10] by (simp add: int_text_def)
  then show ?thesis using assms(1) by (simp add: conn_suffix_def snprintf_text_def)
qed

lemma name_of_conn_inj:
  assumes "length (ts_ipPort s) \<le> 51" and "k < 2 ^ 31 - 1" and "j < 2 ^ 31 - 1"
  shows "name_of_conn s k = name_of_conn s j \<longleftrightarrow> k = j"
proof
  assume "name_of_conn s k = name_of_conn s j"
  then have "int_text (int k + 1) = int_text (int j + 1)"
    using assms conn_suffix_whole [of "ts_ipPort s" "int k + 1"] conn_suffix_whole [of "ts_ipPort s" "int j + 1"]
    by (simp add: name_of_conn_def)
  then have "int_value (int_text (int k + 1)) = int_value (int_text (int j + 1))" by simp
  then show "k = j" by simp
qed simp

subsection \<open>One connection changes\<close>

lemma tasks_of_append [simp]: "tasks_of k (xs @ ys) = tasks_of k xs @ tasks_of k ys"
  and tasks_of_Cons [simp]:
    "tasks_of k (e # xs) = (if task_conn (snd e) = k then e # tasks_of k xs else tasks_of k xs)"
  and tasks_of_Nil [simp]: "tasks_of k [] = []"
  by (simp_all add: tasks_of_def)

lemma tasks_of_none: "\<forall>e \<in> set T. task_conn (snd e) < k \<Longrightarrow> tasks_of k T = []"
  by (auto simp: tasks_of_def filter_empty_conv)

lemma live_update:
  assumes "k < length cs"
  shows "mset (map co_fd (filter (\<lambda>c. co_phase c \<noteq> Conn_destroyed) (cs[k := (cs ! k)\<lparr>co_phase := ph\<rparr>]))) +
      (if co_phase (cs ! k) = Conn_destroyed then {#} else {#co_fd (cs ! k)#}) =
    mset (map co_fd (filter (\<lambda>c. co_phase c \<noteq> Conn_destroyed) cs)) +
      (if ph = Conn_destroyed then {#} else {#co_fd (cs ! k)#})"
  using assms
proof (induction cs arbitrary: k)
  case (Cons c cs)
  show ?case
  proof (cases k)
    case (Suc j)
    then show ?thesis
      using Cons.IH [of j] Cons.prems
      by (cases "co_phase c = Conn_destroyed"; cases "ph = Conn_destroyed";
          cases "co_phase (cs ! j) = Conn_destroyed") simp_all
  qed simp
qed simp

lemma update_conn:
  assumes inv: "server_inv n others s" and k: "k < length (ts_conns s)"
    and s': "s' = s\<lparr>ts_conns := (ts_conns s)[k := (ts_conns s ! k)\<lparr>co_phase := ph\<rparr>], ts_tasks := T,
        ts_connections := M, ts_fds := F\<rparr>"
    and T: "\<And>j. j \<noteq> k \<Longrightarrow> tasks_of j T = tasks_of j (ts_tasks s)"
      "\<forall>e \<in> set T. task_conn (snd e) < length (ts_conns s)"
    and M: "map_ordered M" "\<And>j. j \<noteq> k \<Longrightarrow> (name_of_conn s j, j) \<in> set M \<longleftrightarrow> in_map s j"
      "set M \<subseteq> set (ts_connections s)"
    and ph: "phase_ok (ts_alive s) (loop_of_conn n k) ph (tasks_of k T) ((name_of_conn s k, k) \<in> set M) k"
    and F: "distinct (d_open F)" "d_limit F = d_limit (ts_fds s)"
      "mset (d_open F) + (if ph = Conn_destroyed then {#co_fd (ts_conns s ! k)#} else {#}) = mset (d_open (ts_fds s))"
    and live: "co_phase (ts_conns s ! k) \<noteq> Conn_destroyed"
  shows "server_inv n others s'"
proof -
  have same: "ts_alive s' = ts_alive s" "ts_name s' = ts_name s" "ts_ipPort s' = ts_ipPort s"
    "ts_acceptor s' = ts_acceptor s" "ts_pool s' = ts_pool s" "ts_started s' = ts_started s"
    "ts_nextConnId s' = ts_nextConnId s" "length (ts_conns s') = length (ts_conns s)"
    "ts_tasks s' = T" "ts_connections s' = M" "ts_fds s' = F" "ts_conns s' = [] \<longleftrightarrow> ts_conns s = []"
    unfolding s' by simp_all
  have names: "name_of_conn s' j = name_of_conn s j" for j by (simp add: name_of_conn_def same)
  have "pool_ok n s'" using inv by (simp add: server_inv_def pool_ok_def same)
  moreover have "map_ok s'"
    using inv M(1,3) T(2) by (auto simp: server_inv_def map_ok_def same names)
  moreover have "fds_ok others s'"
  proof -
    let ?x = "co_fd (ts_conns s ! k)" and ?O = "mset (others @ own_fds s)"
    have "mset (live_fds s') + {#?x#} =
        mset (live_fds s) + (if ph = Conn_destroyed then {#} else {#?x#})"
      using live_update [OF k, of ph] live by (simp add: s' live_fds_def)
    moreover have "mset (d_open (ts_fds s)) = ?O + mset (live_fds s)"
      using inv by (simp add: server_inv_def fds_ok_def)
    ultimately have "mset (d_open F) + {#?x#} = ?O + mset (live_fds s') + {#?x#}"
      using F(3) by (cases "ph = Conn_destroyed") (simp_all add: union_assoc)
    then have "mset (d_open F) = ?O + mset (live_fds s')" by (rule add_right_imp_eq)
    moreover have "own_fds s' = own_fds s" by (simp add: own_fds_def same)
    ultimately have "mset (d_open F) = mset (others @ own_fds s' @ live_fds s')" by simp
    then show ?thesis using inv F(1,2) by (simp add: server_inv_def fds_ok_def same)
  qed
  moreover have "conn_ok n s' j" if j: "j < length (ts_conns s')" for j
  proof (cases "j = k")
    case True
    then show ?thesis
      using inv k ph unfolding server_inv_def conn_ok_def in_map_def names by (auto simp: s')
  next
    case False
    have "conn_ok n s j" using inv j by (simp add: server_inv_def same)
    moreover have "ts_conns s' ! j = ts_conns s ! j" using False by (simp add: s')
    moreover have "in_map s' j = in_map s j" using M(2) [OF False] by (simp add: in_map_def names same)
    ultimately show ?thesis using T(1) [OF False] by (simp add: conn_ok_def names same)
  qed
  ultimately show ?thesis by (simp add: server_inv_def)
qed

lemma inv_conn: "server_inv n others s \<Longrightarrow> k < length (ts_conns s) \<Longrightarrow> conn_ok n s k"
  by (simp add: server_inv_def)

lemma names_inj:
  "server_inv n others s \<Longrightarrow> k < length (ts_conns s) \<Longrightarrow> j < length (ts_conns s) \<Longrightarrow>
     name_of_conn s k = name_of_conn s j \<longleftrightarrow> k = j"
  by (intro name_of_conn_inj) (auto simp: server_inv_def map_ok_def)

text \<open>A connection is taken off the map.\<close>

lemma map_remove:
  assumes inv: "server_inv n others s" and k: "k < length (ts_conns s)" and m: "in_map s k"
  defines "M \<equiv> remove1 (name_of_conn s k, k) (ts_connections s)"
  shows "map_erase (name_of_conn s k) (ts_connections s) = (1, M)" "map_ordered M"
    "(name_of_conn s k, k) \<notin> set M"
    "j \<noteq> k \<Longrightarrow> (name_of_conn s j, j) \<in> set M \<longleftrightarrow> in_map s j" "set M \<subseteq> set (ts_connections s)"
proof -
  have o: "map_ordered (ts_connections s)" using inv by (simp add: server_inv_def map_ok_def)
  show e: "map_erase (name_of_conn s k) (ts_connections s) = (1, M)"
    using map_erase_one [OF o] m by (simp add: in_map_def M_def)
  show "map_ordered M" using map_erase_ordered [OF o, of "name_of_conn s k"] by (simp add: e)
  have "M = snd (map_erase (name_of_conn s k) (ts_connections s))" by (simp add: e)
  then show "(name_of_conn s k, k) \<notin> set M" by (simp add: map_erase_def)
  show "set M \<subseteq> set (ts_connections s)" unfolding M_def by (rule set_remove1_subset)
  show "(name_of_conn s j, j) \<in> set M \<longleftrightarrow> in_map s j" if "j \<noteq> k"
    using that by (simp add: M_def in_map_def in_set_remove1)
qed

lemma update_conn_tasks:
  assumes inv: "server_inv n others s" and k: "k < length (ts_conns s)"
    and s': "s' = s\<lparr>ts_conns := (ts_conns s)[k := (ts_conns s ! k)\<lparr>co_phase := ph\<rparr>], ts_tasks := T,
        ts_connections := M\<rparr>"
    and T: "\<And>j. j \<noteq> k \<Longrightarrow> tasks_of j T = tasks_of j (ts_tasks s)"
      "\<forall>e \<in> set T. task_conn (snd e) < length (ts_conns s)"
    and M: "M = ts_connections s \<or> in_map s k \<and> M = remove1 (name_of_conn s k, k) (ts_connections s)"
    and ph: "phase_ok (ts_alive s) (loop_of_conn n k) ph (tasks_of k T) ((name_of_conn s k, k) \<in> set M) k"
    and live: "co_phase (ts_conns s ! k) \<noteq> Conn_destroyed" "ph \<noteq> Conn_destroyed"
  shows "server_inv n others s'"
proof (rule update_conn [OF inv k _ T _ _ _ ph])
  show "s' = s\<lparr>ts_conns := (ts_conns s)[k := (ts_conns s ! k)\<lparr>co_phase := ph\<rparr>], ts_tasks := T,
      ts_connections := M, ts_fds := ts_fds s\<rparr>" by (simp add: s')
  have "map_ordered (ts_connections s)" "distinct (d_open (ts_fds s))"
    using inv by (simp_all add: server_inv_def map_ok_def fds_ok_def)
  then show "map_ordered M" "distinct (d_open (ts_fds s))" "set M \<subseteq> set (ts_connections s)"
    "\<And>j. j \<noteq> k \<Longrightarrow> (name_of_conn s j, j) \<in> set M \<longleftrightarrow> in_map s j"
    using M map_remove [OF inv k] by (auto simp: in_map_def)
qed (use live in simp_all)

subsection \<open>A new connection\<close>

text \<open>The state after \<open>newConnection\<close>, with the connection's phase and the task that waits for it.\<close>

definition with_conn :: "nat \<Rightarrow> nat \<Rightarrow> conn_phase \<Rightarrow> (nat \<times> server_task) list \<Rightarrow> tcp_server \<Rightarrow> tcp_server" where
  "with_conn n fd ph ts s =
     (let k = length (ts_conns s) in
      s\<lparr>ts_pool := (ts_pool s)\<lparr>lp_next := (if n = 0 then 0 else Suc k mod n)\<rparr>,
        ts_nextConnId := ts_nextConnId s + 1,
        ts_conns := ts_conns s @
          [\<lparr>co_name = name_of_conn s k, co_loop = loop_of_conn n k, co_fd = fd, co_phase = ph\<rparr>],
        ts_connections := map_assign (name_of_conn s k) k (ts_connections s),
        ts_tasks := ts_tasks s @ ts\<rparr>)"

lemma map_fresh:
  assumes "map_ok s"
  shows "name_of_conn s (length (ts_conns s)) \<notin> set (map fst (ts_connections s))"
proof
  let ?k = "length (ts_conns s)"
  assume "name_of_conn s ?k \<in> set (map fst (ts_connections s))"
  then obtain j where j: "(name_of_conn s ?k, j) \<in> set (ts_connections s)" by auto
  then have "j < ?k" "name_of_conn s ?k = name_of_conn s j" using assms by (auto simp: map_ok_def)
  then show False using name_of_conn_inj [of s ?k j] assms by (simp add: map_ok_def)
qed

lemma with_conn_inv:
  assumes p: "pool_ok n s" "ts_started s" and m: "map_ok s" "length (ts_conns s) + 1 < 2 ^ 31 - 1"
    and c: "\<forall>j < length (ts_conns s). conn_ok n s j"
    and d: "distinct (d_open (ts_fds s))"
      "mset (d_open (ts_fds s)) = add_mset fd (mset (others @ own_fds s @ live_fds s))"
      "\<exists>i. ac_idleFd (ts_acceptor s) = Some i \<and> i < d_limit (ts_fds s)"
    and ph: "phase_ok (ts_alive s) (loop_of_conn n (length (ts_conns s))) ph ts True (length (ts_conns s))"
      "ph \<noteq> Conn_destroyed" "\<forall>e \<in> set ts. task_conn (snd e) = length (ts_conns s)"
  shows "server_inv n others (with_conn n fd ph ts s)"
proof -
  let ?k = "length (ts_conns s)" and ?s = "with_conn n fd ph ts s"
  have names: "name_of_conn ?s j = name_of_conn s j" for j
    by (simp add: name_of_conn_def with_conn_def Let_def)
  have entries: "set (ts_connections ?s) = insert (name_of_conn s ?k, ?k) (set (ts_connections s))"
    using map_assign_new [OF map_fresh [OF m(1)], of ?k]
    by (simp add: with_conn_def Let_def flip: set_mset_mset)
  have old: "tasks_of ?k (ts_tasks s) = []"
    using m(1) by (intro tasks_of_none) (simp add: map_ok_def)
  have new: "tasks_of ?k ts = ts" "\<And>j. j \<noteq> ?k \<Longrightarrow> tasks_of j ts = []"
    using ph(3) by (auto simp: tasks_of_def filter_id_conv filter_empty_conv)
  have "pool_ok n ?s" using p by (simp add: pool_ok_def with_conn_def Let_def)
  moreover have "map_ok ?s"
  proof -
    have "map_ordered (ts_connections ?s)"
      using m(1) by (simp add: with_conn_def Let_def map_ok_def map_assign_ordered)
    moreover have "length (ts_conns ?s) = Suc ?k" "ts_tasks ?s = ts_tasks s @ ts"
      "ts_nextConnId ?s = ts_nextConnId s + 1" "ts_ipPort ?s = ts_ipPort s"
      by (simp_all add: with_conn_def Let_def)
    ultimately show ?thesis
      using m ph(3) unfolding map_ok_def entries names by (fastforce simp: less_Suc_eq)
  qed
  moreover have "fds_ok others ?s"
    using d ph(2) by (simp add: fds_ok_def own_fds_def live_fds_def with_conn_def Let_def)
  moreover have "conn_ok n ?s j" if "j < length (ts_conns ?s)" for j
  proof (cases "j = ?k")
    case True
    then show ?thesis
      using ph(1) old new(1) entries unfolding conn_ok_def in_map_def names
      by (simp add: with_conn_def Let_def)
  next
    case False
    then have j: "j < ?k" using that by (simp add: with_conn_def Let_def)
    have "in_map ?s j = in_map s j" using False by (simp add: in_map_def names entries)
    moreover have "ts_conns ?s ! j = ts_conns s ! j" "ts_alive ?s = ts_alive s"
      "tasks_of j (ts_tasks ?s) = tasks_of j (ts_tasks s)"
      using j new(2) by (simp_all add: with_conn_def Let_def nth_append)
    ultimately show ?thesis using c j by (simp add: conn_ok_def names)
  qed
  ultimately show ?thesis by (simp add: server_inv_def)
qed

lemma getNextLoop_ok:
  assumes "pool_ok n s" and "ts_started s"
  shows "getNextLoop (ts_pool s) = Some (loop_of_conn n (length (ts_conns s)),
    (ts_pool s)\<lparr>lp_next := (if n = 0 then 0 else Suc (length (ts_conns s)) mod n)\<rparr>)"
proof (cases "n = 0")
  case True
  then show ?thesis
    using assms by (cases "ts_pool s") (simp add: pool_ok_def getNextLoop_def loop_of_conn_def)
next
  case False
  let ?k = "length (ts_conns s)"
  have "lp_loops (ts_pool s) = map Suc [0..<n]" "lp_next (ts_pool s) = ?k mod n" "lp_started (ts_pool s)"
    using assms False by (simp_all add: pool_ok_def)
  moreover have "n \<le> Suc (?k mod n) \<longleftrightarrow> Suc (?k mod n) = n"
    using mod_less_divisor [of n ?k] False by linarith
  ultimately show ?thesis
    using False by (simp add: getNextLoop_def loop_of_conn_def Let_def mod_Suc)
qed

lemma newConnection_ok:
  assumes p: "pool_ok n s" "ts_started s" "ts_alive s"
    and m: "map_ok s" "length (ts_conns s) + 1 < 2 ^ 31 - 1"
    and c: "\<forall>j < length (ts_conns s). conn_ok n s j"
    and d: "distinct (d_open (ts_fds s))"
      "mset (d_open (ts_fds s)) = add_mset fd (mset (others @ own_fds s @ live_fds s))"
      "\<exists>i. ac_idleFd (ts_acceptor s) = Some i \<and> i < d_limit (ts_fds s)"
  shows "\<exists>s'. newConnection fd s = Some s' \<and> server_inv n others s'"
proof -
  let ?k = "length (ts_conns s)"
  have id: "ts_nextConnId s = int ?k + 1" using m(1) by (simp add: map_ok_def)
  have "newConnection fd s =
      run_in_loop 0 (loop_of_conn n ?k) (Task_established ?k) (with_conn n fd Conn_made [] s)"
    using m(2) getNextLoop_ok [OF p(1,2)]
    by (simp add: newConnection_def id with_conn_def Let_def name_of_conn_def add.commute)
  also have "\<dots> = Some (if loop_of_conn n ?k = 0 then with_conn n fd Conn_established [] s
      else with_conn n fd Conn_made [(loop_of_conn n ?k, Task_established ?k)] s)"
    by (simp add: run_in_loop_def queue_task_def conn_established_def set_phase_def with_conn_def Let_def)
  finally have new: "newConnection fd s = Some (if loop_of_conn n ?k = 0 then with_conn n fd Conn_established [] s
      else with_conn n fd Conn_made [(loop_of_conn n ?k, Task_established ?k)] s)" .
  show ?thesis
    unfolding new
    using with_conn_inv [OF p(1,2) m c d, where ph = Conn_established and ts = "[]"]
      with_conn_inv [OF p(1,2) m c d, where ph = Conn_made and ts = "[(loop_of_conn n ?k, Task_established ?k)]"]
    by (auto simp: phase_ok_def p(3))
qed

subsection \<open>The steps\<close>

text \<open>
  The surroundings: the acceptor is ready only when the server listens, errors that end the process
  are excluded, and so is the end of the numbers; a connection closes once, after it was established;
  a server is destroyed while it has no threads of its own; nobody asks for the removal of a connection
  from outside.
\<close>

fun server_enabled :: "server_op \<Rightarrow> tcp_server \<Rightarrow> bool" where
  "server_enabled Sv_start s \<longleftrightarrow> ts_alive s"
| "server_enabled (Sv_accept failure) s \<longleftrightarrow>
     ts_alive s \<and> ts_started s \<and> ts_nextConnId s < 2 ^ 31 - 2 \<and>
     (case failure of None \<Rightarrow> True | Some e \<Rightarrow> e \<in> set expected_errors \<and> e \<noteq> EMFILE)"
| "server_enabled (Sv_close k) s \<longleftrightarrow>
     k < length (ts_conns s) \<and> co_phase (ts_conns s ! k) = Conn_established"
| "server_enabled (Sv_task loop) s \<longleftrightarrow> True"
| "server_enabled Sv_destroy s \<longleftrightarrow> ts_alive s \<and> lp_loops (ts_pool s) = []"
| "server_enabled (Sv_remove here k) s \<longleftrightarrow> False"
| "server_enabled (Sv_client peer) s \<longleftrightarrow> True"

primrec server_allowed :: "server_op list \<Rightarrow> tcp_server \<Rightarrow> bool" where
  "server_allowed [] s \<longleftrightarrow> True"
| "server_allowed (op # ops) s \<longleftrightarrow>
     server_enabled op s \<and>
     (case server_do op s of None \<Rightarrow> True | Some s' \<Rightarrow> server_allowed ops s')"

lemma start_ok:
  assumes inv: "server_inv n others s" and alive: "ts_alive s"
  shows "\<exists>s'. start_server s = Some s' \<and> server_inv n others s'"
proof (cases "ts_started s")
  case True
  then show ?thesis using inv by (simp add: start_server_def)
next
  case False
  then have "ts_conns s = []" "lp_loops (ts_pool s) = []" using inv by (simp_all add: server_inv_def pool_ok_def)
  then show ?thesis
    using inv False
    by (simp add: start_server_def start_pool_def server_inv_def pool_ok_def map_ok_def fds_ok_def
        own_fds_def live_fds_def name_of_conn_def)
qed

lemma own_fds_open:
  assumes "fds_ok others s" and "ts_alive s"
  shows "\<exists>i. ac_idleFd (ts_acceptor s) = Some i \<and> i < d_limit (ts_fds s) \<and> i \<in> set (d_open (ts_fds s))"
proof -
  obtain i where i: "ac_idleFd (ts_acceptor s) = Some i" "i < d_limit (ts_fds s)"
    using assms(1) by (auto simp: fds_ok_def)
  have "set (d_open (ts_fds s)) = set_mset (mset (others @ own_fds s @ live_fds s))"
    using assms(1) unfolding fds_ok_def by (metis set_mset_mset)
  moreover have "i \<in> set (own_fds s)" using i assms(2) by (simp add: own_fds_def)
  ultimately show ?thesis using i by auto
qed

lemma other_acceptor:
  assumes inv: "server_inv n others s" and alive: "ts_alive s" and i: "ac_idleFd (ts_acceptor s) = Some i"
    and d: "j < d_limit d" "distinct (d_open d)"
      "mset (d_open d) = add_mset j (mset (d_open (ts_fds s)) - {#i#})"
  shows "server_inv n others (s\<lparr>ts_acceptor := (ts_acceptor s)\<lparr>ac_idleFd := Some j\<rparr>, ts_fds := d\<rparr>)"
proof -
  let ?s = "s\<lparr>ts_acceptor := (ts_acceptor s)\<lparr>ac_idleFd := Some j\<rparr>, ts_fds := d\<rparr>"
  have "mset (d_open (ts_fds s)) = mset (others @ own_fds s @ live_fds s)"
    using inv by (simp add: server_inv_def fds_ok_def)
  then have "mset (d_open d) = mset (others @ own_fds ?s @ live_fds ?s)"
    using alive i by (simp add: d(3) own_fds_def live_fds_def)
  then show ?thesis
    using inv d(1,2)
    by (simp add: server_inv_def pool_ok_def map_ok_def fds_ok_def conn_ok_def in_map_def name_of_conn_def)
qed

lemma accept_ok:
  assumes inv: "server_inv n others s" and en: "server_enabled (Sv_accept failure) s"
  shows "\<exists>s'. accept_step failure s = Some s' \<and> server_inv n others s'"
proof -
  let ?a = "ts_acceptor s" and ?d = "ts_fds s"
  have alive: "ts_alive s" "ts_started s" using en by simp_all
  have parts: "pool_ok n s" "map_ok s" "fds_ok others s" "\<forall>k < length (ts_conns s). conn_ok n s k"
    using inv by (simp_all add: server_inv_def)
  obtain i where i: "ac_idleFd ?a = Some i" "i < d_limit ?d" "i \<in> set (d_open ?d)"
    using own_fds_open [OF parts(3) alive(1)] by blast
  have d: "distinct (d_open ?d)" using parts(3) by (simp add: fds_ok_def)
  have f: "\<And>e. failure = Some e \<Longrightarrow> e \<in> set expected_errors \<and> e \<noteq> EMFILE" using en by auto
  consider (connection) c p ps where "acceptor_handleRead failure ?a ?d =
        Some (Some (c, p), ?a, ?d\<lparr>d_open := c # d_open ?d, d_backlog := ps\<rparr>)" "c \<notin> set (d_open ?d)"
    | (nobody) "acceptor_handleRead failure ?a ?d = Some (None, ?a, ?d)"
    | (shed) j d' where "acceptor_handleRead failure ?a ?d = Some (None, ?a\<lparr>ac_idleFd := Some j\<rparr>, d')"
        "j < d_limit d'" "distinct (d_open d')" "mset (d_open d') = add_mset j (mset (d_open ?d) - {#i#})"
    using handleRead_cases [OF i d f] by blast
  then show ?thesis
  proof cases
    case connection
    let ?s = "s\<lparr>ts_acceptor := ?a, ts_fds := ?d\<lparr>d_open := c # d_open ?d, d_backlog := ps\<rparr>\<rparr>"
    have "\<exists>s'. newConnection c ?s = Some s' \<and> server_inv n others s'"
    proof (rule newConnection_ok)
      show "pool_ok n ?s" "map_ok ?s" "\<forall>k < length (ts_conns ?s). conn_ok n ?s k"
        using parts by (simp_all add: pool_ok_def map_ok_def conn_ok_def in_map_def name_of_conn_def)
      show "length (ts_conns ?s) + 1 < 2 ^ 31 - 1" using en parts(2) by (simp add: map_ok_def)
      show "mset (d_open (ts_fds ?s)) = add_mset c (mset (others @ own_fds ?s @ live_fds ?s))"
        using parts(3) by (simp add: fds_ok_def own_fds_def live_fds_def)
    qed (use alive d i connection(2) in simp_all)
    then show ?thesis using connection(1) by (simp add: accept_step_def)
  next
    case nobody
    then show ?thesis using inv by (simp add: accept_step_def)
  next
    case shed
    then show ?thesis
      using other_acceptor [OF inv alive(1) i(1) shed(2-4)] by (simp add: accept_step_def)
  qed
qed

text \<open>The removal of a connection from the map, and the task that destroys it.\<close>

lemma removeConnectionInLoop_eq:
  assumes inv: "server_inv n others s" and k: "k < length (ts_conns s)" and m: "in_map s k"
    and t: "ts_conns t = C" "ts_tasks t = T" "ts_connections t = ts_connections s"
    and c: "co_name (C ! k) = name_of_conn s k" "co_loop (C ! k) = l"
  shows "removeConnectionInLoop k t = Some (t\<lparr>ts_tasks := T @ [(l, Task_destroyed k)],
    ts_connections := remove1 (name_of_conn s k, k) (ts_connections s)\<rparr>)"
  using map_remove(1) [OF inv k m] t c
  by (simp add: removeConnectionInLoop_def queue_task_def Let_def)

lemma close_ok:
  assumes inv: "server_inv n others s" and en: "server_enabled (Sv_close k) s"
  shows "\<exists>s'. close_step k s = Some s' \<and> server_inv n others s'"
proof -
  let ?C = "(ts_conns s)[k := (ts_conns s ! k)\<lparr>co_phase := Conn_closed\<rparr>]"
  let ?M = "remove1 (name_of_conn s k, k) (ts_connections s)"
  let ?remove = "ts_tasks s @ [(0, Task_remove k)]"
  let ?destroy = "ts_tasks s @ [(0, Task_destroyed k)]"
  have k: "k < length (ts_conns s)" "co_phase (ts_conns s ! k) = Conn_established" using en by simp_all
  have c: "co_name (ts_conns s ! k) = name_of_conn s k" "co_loop (ts_conns s ! k) = loop_of_conn n k"
    "ts_alive s" "tasks_of k (ts_tasks s) = []" "in_map s k"
    using inv_conn [OF inv k(1)] k(2) by (simp_all add: conn_ok_def phase_ok_def)
  have T: "\<forall>e \<in> set (ts_tasks s). task_conn (snd e) < length (ts_conns s)"
    using inv by (simp add: server_inv_def map_ok_def)
  have step: "close_step k s = (if loop_of_conn n k = 0
      then removeConnectionInLoop k (s\<lparr>ts_conns := ?C\<rparr>)
      else Some (s\<lparr>ts_conns := ?C, ts_tasks := ?remove\<rparr>))"
    using k c
    by (simp add: close_step_def removeConnection_def run_in_loop_def queue_task_def set_phase_def)
  show ?thesis
  proof (cases "loop_of_conn n k = 0")
    case True
    have "server_inv n others (s\<lparr>ts_conns := ?C, ts_tasks := ?destroy, ts_connections := ?M\<rparr>)"
      using update_conn_tasks [OF inv k(1) refl, of ?destroy ?M Conn_closed]
        T c(4,5) k map_remove(3) [OF inv k(1) c(5)] True
      by (simp add: phase_ok_def)
    moreover have "removeConnectionInLoop k (s\<lparr>ts_conns := ?C\<rparr>) =
        Some (s\<lparr>ts_conns := ?C, ts_tasks := ?destroy, ts_connections := ?M\<rparr>)"
      using removeConnectionInLoop_eq [OF inv k(1) c(5), of "s\<lparr>ts_conns := ?C\<rparr>" ?C "ts_tasks s" 0]
        k(1) c(1,2) True by simp
    ultimately show ?thesis using True by (simp add: step)
  next
    case False
    have "server_inv n others (s\<lparr>ts_conns := ?C, ts_tasks := ?remove, ts_connections := ts_connections s\<rparr>)"
      using update_conn_tasks [OF inv k(1) refl, of ?remove "ts_connections s" Conn_closed] T c(3-5) k False
      by (simp add: phase_ok_def in_map_def)
    then show ?thesis using False by (simp add: step)
  qed
qed

text \<open>A task that waits is the only one of its connection.\<close>

lemma next_task_split:
  "next_task loop ts = Some (t, rest) \<Longrightarrow> \<exists>xs ys. ts = xs @ (loop, t) # ys \<and> rest = xs @ ys"
proof (induction ts arbitrary: rest)
  case (Cons e es)
  then show ?case
  proof (cases "fst e = loop")
    case True
    then show ?thesis using Cons.prems by (cases e) (rule exI [of _ "[]"], auto)
  next
    case False
    then obtain rest' where "next_task loop es = Some (t, rest')" "rest = e # rest'"
      using Cons.prems by auto
    then obtain xs ys where "e # es = (e # xs) @ (loop, t) # ys" "rest = (e # xs) @ ys"
      using Cons.IH by fastforce
    then show ?thesis by blast
  qed
qed simp

lemma next_task_conn:
  assumes inv: "server_inv n others s" and nt: "next_task loop (ts_tasks s) = Some (t, rest)"
    and k: "k = task_conn t"
  shows "k < length (ts_conns s)" "tasks_of k (ts_tasks s) = [(loop, t)]" "tasks_of k rest = []"
    "\<And>j. j \<noteq> k \<Longrightarrow> tasks_of j rest = tasks_of j (ts_tasks s)"
    "\<forall>e \<in> set rest. task_conn (snd e) < length (ts_conns s)"
proof -
  obtain xs ys where split: "ts_tasks s = xs @ (loop, t) # ys" "rest = xs @ ys"
    using next_task_split [OF nt] by blast
  show kl: "k < length (ts_conns s)" and "\<forall>e \<in> set rest. task_conn (snd e) < length (ts_conns s)"
    using inv split k by (auto simp: server_inv_def map_ok_def)
  have "length (tasks_of k (ts_tasks s)) \<le> 1"
    using inv_conn [OF inv kl] by (auto simp: conn_ok_def phase_ok_def split: conn_phase.splits)
  then show "tasks_of k (ts_tasks s) = [(loop, t)]" "tasks_of k rest = []"
    using split k by (auto simp: tasks_of_def)
  show "\<And>j. j \<noteq> k \<Longrightarrow> tasks_of j rest = tasks_of j (ts_tasks s)" using split k by simp
qed

lemma conn_destroyed_ok:
  assumes inv: "server_inv n others s" and k: "k < length (ts_conns s)"
    and live: "co_phase (ts_conns s ! k) \<noteq> Conn_destroyed"
    and T: "\<forall>j. j \<noteq> k \<longrightarrow> tasks_of j T = tasks_of j (ts_tasks s)" "tasks_of k T = []"
      "\<forall>e \<in> set T. task_conn (snd e) < length (ts_conns s)"
    and M: "M = ts_connections s \<and> \<not> in_map s k \<or>
      in_map s k \<and> M = remove1 (name_of_conn s k, k) (ts_connections s)"
    and t: "t = s\<lparr>ts_tasks := T, ts_connections := M\<rparr>"
  shows "\<exists>s'. conn_destroyed k t = Some s' \<and> server_inv n others s' \<and> ts_connections s' = M \<and>
    ts_alive s' = ts_alive s \<and> length (ts_conns s') = length (ts_conns s) \<and>
    ts_acceptor s' = ts_acceptor s"
proof -
  let ?x = "co_fd (ts_conns s ! k)"
  let ?F = "close_fd ?x (ts_fds s)"
  let ?s = "s\<lparr>ts_conns := (ts_conns s)[k := (ts_conns s ! k)\<lparr>co_phase := Conn_destroyed\<rparr>], ts_tasks := T,
        ts_connections := M, ts_fds := ?F\<rparr>"
  have fds: "distinct (d_open (ts_fds s))" "mset (d_open (ts_fds s)) = mset (others @ own_fds s @ live_fds s)"
    "map_ordered (ts_connections s)"
    using inv by (simp_all add: server_inv_def fds_ok_def map_ok_def)
  have "?x \<in> set (live_fds s)" using k live unfolding live_fds_def by force
  then have "?x \<in># mset (d_open (ts_fds s))" using fds(2) by simp
  then have F: "mset (d_open ?F) + {#?x#} = mset (d_open (ts_fds s))" by simp
  have "(name_of_conn s k, k) \<notin> set M" "map_ordered M" "set M \<subseteq> set (ts_connections s)"
    "\<And>j. j \<noteq> k \<Longrightarrow> (name_of_conn s j, j) \<in> set M \<longleftrightarrow> in_map s j"
    using M map_remove [OF inv k] fds(3) by (auto simp: in_map_def)
  then have "server_inv n others ?s"
    by (intro update_conn [OF inv k refl _ T(3)]) (use F T(1,2) fds(1) live in \<open>simp_all add: phase_ok_def\<close>)
  moreover have "conn_destroyed k t = Some ?s"
    using k live by (simp add: conn_destroyed_def set_phase_def t)
  ultimately show ?thesis by simp
qed

lemma task_ok:
  assumes inv: "server_inv n others s"
  shows "\<exists>s'. task_step loop s = Some s' \<and> server_inv n others s'"
proof (cases "next_task loop (ts_tasks s)")
  case None
  then show ?thesis using inv by (simp add: task_step_def)
next
  case (Some p)
  then obtain t rest where nt: "next_task loop (ts_tasks s) = Some (t, rest)" by (cases p) auto
  let ?s = "s\<lparr>ts_tasks := rest\<rparr>"
  have step: "task_step loop s = run_task t ?s" by (simp add: task_step_def nt)
  show ?thesis
  proof (cases t)
    case (Task_established k)
    note task = next_task_conn [OF inv nt, unfolded Task_established, simplified]
    have c: "ts_alive s" "co_phase (ts_conns s ! k) = Conn_made" "in_map s k"
      using inv_conn [OF inv task(1)] task(2)
      by (auto simp: conn_ok_def phase_ok_def split: conn_phase.splits)
    have "server_inv n others (s\<lparr>ts_conns := (ts_conns s)[k := (ts_conns s ! k)\<lparr>co_phase := Conn_established\<rparr>],
        ts_tasks := rest, ts_connections := ts_connections s\<rparr>)"
      using update_conn_tasks [OF inv task(1) refl task(4,5), where M = "ts_connections s" and ph = Conn_established] c task(3)
      by (simp add: phase_ok_def in_map_def)
    moreover have "task_step loop s =
        Some (s\<lparr>ts_conns := (ts_conns s)[k := (ts_conns s ! k)\<lparr>co_phase := Conn_established\<rparr>],
          ts_tasks := rest, ts_connections := ts_connections s\<rparr>)"
      using c Task_established by (simp add: step conn_established_def set_phase_def)
    ultimately show ?thesis by simp
  next
    case (Task_remove k)
    note task = next_task_conn [OF inv nt, unfolded Task_remove, simplified]
    have c: "ts_alive s" "co_phase (ts_conns s ! k) = Conn_closed" "in_map s k"
      "co_name (ts_conns s ! k) = name_of_conn s k" "co_loop (ts_conns s ! k) = loop_of_conn n k"
      using inv_conn [OF inv task(1)] task(2)
      by (auto simp: conn_ok_def phase_ok_def split: conn_phase.splits)
    let ?M = "remove1 (name_of_conn s k, k) (ts_connections s)"
    let ?T = "rest @ [(loop_of_conn n k, Task_destroyed k)]"
    have "(ts_conns s)[k := (ts_conns s ! k)\<lparr>co_phase := Conn_closed\<rparr>] = ts_conns s"
      using c(2) task(1) by (metis list_update_id server_conn.surjective server_conn.update_convs(4))
    moreover have "server_inv n others
        (s\<lparr>ts_conns := (ts_conns s)[k := (ts_conns s ! k)\<lparr>co_phase := Conn_closed\<rparr>],
          ts_tasks := ?T, ts_connections := ?M\<rparr>)"
      using update_conn_tasks [OF inv task(1) refl, where T = ?T and M = ?M and ph = Conn_closed] task c(2,3)
        map_remove(3) [OF inv task(1) c(3)]
      by (simp add: phase_ok_def)
    ultimately have "server_inv n others (s\<lparr>ts_conns := ts_conns s, ts_tasks := ?T, ts_connections := ?M\<rparr>)"
      by simp
    moreover have "removeConnectionInLoop k ?s = Some (s\<lparr>ts_tasks := ?T, ts_connections := ?M\<rparr>)"
      using removeConnectionInLoop_eq [OF inv task(1) c(3), of ?s "ts_conns s" rest] c(4,5) by simp
    ultimately show ?thesis using c(1) Task_remove by (simp add: step)
  next
    case (Task_destroyed k)
    note task = next_task_conn [OF inv nt, unfolded Task_destroyed, simplified]
    have c: "co_phase (ts_conns s ! k) \<noteq> Conn_destroyed"
      "ts_connections s = ts_connections s \<and> \<not> in_map s k \<or>
        in_map s k \<and> ts_connections s = remove1 (name_of_conn s k, k) (ts_connections s)"
      using inv_conn [OF inv task(1)] task(2)
      by (auto simp: conn_ok_def phase_ok_def split: conn_phase.splits)
    have "?s = s\<lparr>ts_tasks := rest, ts_connections := ts_connections s\<rparr>" by simp
    from conn_destroyed_ok [OF inv task(1) c(1) _ task(3) task(5) c(2) this] task(4)
    show ?thesis using Task_destroyed by (auto simp: step)
  qed
qed

text \<open>The server's end.\<close>

lemma conn_destroyed_connections:
  "conn_destroyed k (s\<lparr>ts_connections := X\<rparr>) =
     map_option (\<lambda>s. s\<lparr>ts_connections := X\<rparr>) (conn_destroyed k s)"
  by (simp add: conn_destroyed_def set_phase_def C_assert_def)

lemma destroy_connections_ok:
  assumes "server_inv n others (s\<lparr>ts_connections := m\<rparr>)" and "ts_alive s" and "n = 0 \<or> ts_conns s = []"
  shows "\<exists>s'. destroy_connections m s = Some s' \<and> server_inv n others (s'\<lparr>ts_connections := []\<rparr>) \<and>
    ts_alive s' \<and> ts_acceptor s' = ts_acceptor s"
  using assms
proof (induction m arbitrary: s)
  case (Cons e m)
  let ?S = "s\<lparr>ts_connections := e # m\<rparr>" and ?k = "snd e"
  have k: "?k < length (ts_conns ?S)" "e = (name_of_conn ?S ?k, ?k)"
    using Cons.prems(1) by (auto simp: server_inv_def map_ok_def)
  then have n: "n = 0" using Cons.prems(3) by auto
  have m: "in_map ?S ?k" using k(2) by (simp add: in_map_def)
  have c: "co_loop (ts_conns s ! ?k) = 0" "co_phase (ts_conns s ! ?k) = Conn_established"
    "tasks_of ?k (ts_tasks s) = []"
    using inv_conn [OF Cons.prems(1) k(1)] m n
    by (auto simp: conn_ok_def phase_ok_def loop_of_conn_def split: conn_phase.splits)
  have t: "\<forall>e \<in> set (ts_tasks s). task_conn (snd e) < length (ts_conns ?S)"
    using Cons.prems(1) by (simp add: server_inv_def map_ok_def)
  have "remove1 (name_of_conn ?S ?k, ?k) (ts_connections ?S) = m" using k(2) by simp
  then obtain s1 where s1: "conn_destroyed ?k (s\<lparr>ts_connections := m\<rparr>) = Some s1"
    "server_inv n others s1" "ts_alive s1" "length (ts_conns s1) = length (ts_conns s)"
    "ts_acceptor s1 = ts_acceptor s"
    using conn_destroyed_ok [OF Cons.prems(1) k(1), where T = "ts_tasks s" and M = m
        and t = "s\<lparr>ts_connections := m\<rparr>"] c m t Cons.prems(2)
    by auto
  then obtain s2 where s2: "conn_destroyed ?k s = Some s2" "s1 = s2\<lparr>ts_connections := m\<rparr>"
    by (auto simp: conn_destroyed_connections)
  have "destroy_connections (e # m) s = destroy_connections m s2"
    using c(1) s2(1) by (simp add: run_in_loop_def)
  then show ?case using Cons.IH [of s2] s1 s2(2) n by simp
qed simp

lemma destroy_ok:
  assumes inv: "server_inv n others s" and en: "server_enabled Sv_destroy s"
  shows "\<exists>s'. destroy_server s = Some s' \<and> server_inv n others s'"
proof -
  have "n = 0 \<or> ts_conns s = []"
    using inv en by (auto simp: server_inv_def pool_ok_def split: if_splits)
  moreover have "s\<lparr>ts_connections := ts_connections s\<rparr> = s" by simp
  ultimately obtain s1 where s1: "destroy_connections (ts_connections s) s = Some s1"
    "server_inv n others (s1\<lparr>ts_connections := []\<rparr>)" "ts_alive s1"
    using destroy_connections_ok [where n = n and others = others and s = s and m = "ts_connections s"] inv en by auto
  let ?s1 = "s1\<lparr>ts_connections := []\<rparr>"
  let ?s2 = "s1\<lparr>ts_alive := False, ts_connections := [],
      ts_fds := destroy_acceptor (ts_acceptor s1) (ts_fds s1)\<rparr>"
  have fds: "fds_ok others ?s1" using s1(2) by (simp add: server_inv_def)
  then obtain i where i: "ac_idleFd (ts_acceptor s1) = Some i" "i < d_limit (ts_fds s1)"
    by (auto simp: fds_ok_def)
  have "mset (d_open (ts_fds s1)) = mset (others @ [ac_fd (ts_acceptor s1), i] @ live_fds s1)"
    using fds i(1) s1(3) by (simp add: fds_ok_def own_fds_def live_fds_def)
  then have "fds_ok others ?s2"
    using fds i by (simp add: fds_ok_def destroy_acceptor_def close_idle_def own_fds_def live_fds_def)
  moreover have "conn_ok n ?s2 k" if "k < length (ts_conns ?s2)" for k
  proof -
    have "conn_ok n ?s1 k" using s1(2) that by (simp add: server_inv_def)
    then show ?thesis
      by (auto simp: conn_ok_def phase_ok_def in_map_def name_of_conn_def split: conn_phase.splits)
  qed
  ultimately have "server_inv n others ?s2"
    using s1(2) by (simp add: server_inv_def pool_ok_def map_ok_def)
  then show ?thesis using s1(1) by (simp add: destroy_server_def)
qed

lemma client_ok:
  "server_inv n others s \<Longrightarrow>
     server_inv n others (s\<lparr>ts_fds := (ts_fds s)\<lparr>d_backlog := d_backlog (ts_fds s) @ [p]\<rparr>\<rparr>)"
  by (simp add: server_inv_def pool_ok_def map_ok_def fds_ok_def conn_ok_def in_map_def
      name_of_conn_def own_fds_def live_fds_def)

lemma server_run_ok:
  "server_inv n others s \<Longrightarrow> server_allowed ops s \<Longrightarrow>
     \<exists>s'. server_run ops s = Some s' \<and> server_inv n others s'"
proof (induction ops arbitrary: s)
  case (Cons op ops)
  have en: "server_enabled op s" using Cons.prems(2) by simp
  note inv = Cons.prems(1)
  have "\<exists>s1. server_do op s = Some s1 \<and> server_inv n others s1"
  proof (cases op)
    case Sv_start
    then show ?thesis using start_ok [OF inv] en by simp
  next
    case (Sv_accept failure)
    then show ?thesis using accept_ok [OF inv, of failure] en by simp
  next
    case (Sv_close k)
    then show ?thesis using close_ok [OF inv, of k] en by simp
  next
    case (Sv_task loop)
    then show ?thesis using task_ok [OF inv, of loop] by simp
  next
    case Sv_destroy
    then show ?thesis using destroy_ok [OF inv] en by simp
  next
    case (Sv_client p)
    then show ?thesis using client_ok [OF inv, of p] by simp
  qed (use en in simp)
  then obtain s1 where s1: "server_do op s = Some s1" "server_inv n others s1" by blast
  then show ?case using Cons.IH [OF s1(2)] Cons.prems(2) by (simp add: server_run_def)
qed (simp add: server_run_def)

lemma map_entries:
  assumes "map_ok s"
  shows "set (map snd (ts_connections s)) = {k. k < length (ts_conns s) \<and> in_map s k}"
proof (intro set_eqI iffI)
  fix k
  assume "k \<in> set (map snd (ts_connections s))"
  then obtain c where c: "(c, k) \<in> set (ts_connections s)" by auto
  then have "k < length (ts_conns s)" "c = name_of_conn s k" using assms unfolding map_ok_def by blast+
  then show "k \<in> {k. k < length (ts_conns s) \<and> in_map s k}" using c by (simp add: in_map_def)
next
  fix k
  assume "k \<in> {k. k < length (ts_conns s) \<and> in_map s k}"
  then have "(name_of_conn s k, k) \<in> set (ts_connections s)" by (simp add: in_map_def)
  from imageI [OF this, of snd] show "k \<in> set (map snd (ts_connections s))" by simp
qed

subsection \<open>The properties\<close>

definition server_created :: "string \<Rightarrow> string \<Rightarrow> nat \<Rightarrow> descriptors \<Rightarrow> tcp_server option" where
  "server_created ipPort nameArg n d = do {
     s \<leftarrow> new_tcp_server ipPort nameArg d;
     setThreadNum (int n) s
   }"

lemma server_created_inv:
  assumes "server_created ipPort nameArg n d = Some s" and "length ipPort \<le> 51" and "distinct (d_open d)"
  shows "server_inv n (d_open d) s"
proof -
  obtain l where l: "lowest_free d = Some l"
    using assms(1) by (cases "lowest_free d")
      (auto simp: server_created_def new_tcp_server_def new_acceptor_def open_fd_def)
  let ?d = "d\<lparr>d_open := l # d_open d\<rparr>"
  obtain i where i: "lowest_free ?d = Some i"
    using assms(1) l by (cases "lowest_free ?d")
      (auto simp: server_created_def new_tcp_server_def new_acceptor_def open_fd_def)
  have "s = \<lparr>ts_alive = True, ts_name = nameArg, ts_ipPort = ipPort,
      ts_acceptor = \<lparr>ac_fd = l, ac_listenning = False, ac_idleFd = Some i\<rparr>,
      ts_pool = (new_loop_pool nameArg)\<lparr>lp_numThreads := n\<rparr>, ts_started = False, ts_nextConnId = 1,
      ts_connections = [], ts_conns = [], ts_tasks = [], ts_fds = d\<lparr>d_open := i # l # d_open d\<rparr>\<rparr>"
    using assms(1) l i
    by (simp add: server_created_def new_tcp_server_def new_acceptor_def open_fd_def setThreadNum_def)
  then show ?thesis
    using assms(2,3) lowest_free_Some [OF l] lowest_free_Some [OF i]
    by (simp add: server_inv_def pool_ok_def map_ok_def fds_ok_def own_fds_def live_fds_def new_loop_pool_def)
qed

text \<open>C33: in every order of clients, accepts, closing connections and tasks of the loops no assertion of
  the server fails; no two connections have the same name; the connections are dealt to the loops
  of the pool in turn; and the descriptors that are open are those that were open before, the
  server's two and those of the connections that are not yet destroyed, each once. When no task waits,
  the map of connections holds exactly those that are established.
\<close>

theorem tcp_server_sound:
  assumes "server_created ipPort nameArg n d = Some s0" and "length ipPort \<le> 51"
    and "distinct (d_open d)" and "server_allowed ops s0"
  shows "\<exists>s. server_run ops s0 = Some s \<and>
    distinct (map co_name (ts_conns s)) \<and>
    map co_loop (ts_conns s) = map (loop_of_conn n) [0..<length (ts_conns s)] \<and>
    mset (d_open (ts_fds s)) = mset (d_open d @ own_fds s @ live_fds s) \<and> distinct (d_open (ts_fds s)) \<and>
    (ts_tasks s = [] \<longrightarrow>
      set (map snd (ts_connections s)) =
        {k. k < length (ts_conns s) \<and> co_phase (ts_conns s ! k) = Conn_established} \<and>
      live_fds s = map co_fd (filter (\<lambda>c. co_phase c = Conn_established) (ts_conns s)))"
proof -
  obtain s where s: "server_run ops s0 = Some s" "server_inv n (d_open d) s"
    using server_run_ok [OF server_created_inv [OF assms(1-3)] assms(4)] by blast
  have c: "conn_ok n s k" if "k < length (ts_conns s)" for k using inv_conn [OF s(2) that] .
  have "map co_name (ts_conns s) = map (name_of_conn s) [0..<length (ts_conns s)]"
    using c by (intro nth_equalityI) (simp_all add: conn_ok_def)
  moreover have "distinct (map (name_of_conn s) [0..<length (ts_conns s)])"
    using names_inj [OF s(2)] by (simp add: distinct_map inj_on_def)
  ultimately have "distinct (map co_name (ts_conns s))" by simp
  moreover have "map co_loop (ts_conns s) = map (loop_of_conn n) [0..<length (ts_conns s)]"
    using c by (intro nth_equalityI) (simp_all add: conn_ok_def)
  moreover have "mset (d_open (ts_fds s)) = mset (d_open d @ own_fds s @ live_fds s)"
    "distinct (d_open (ts_fds s))"
    using s(2) by (simp_all add: server_inv_def fds_ok_def)
  moreover have "set (map snd (ts_connections s)) =
        {k. k < length (ts_conns s) \<and> co_phase (ts_conns s ! k) = Conn_established} \<and>
      live_fds s = map co_fd (filter (\<lambda>c. co_phase c = Conn_established) (ts_conns s))"
    if "ts_tasks s = []"
  proof -
    have ph: "in_map s k \<longleftrightarrow> co_phase (ts_conns s ! k) = Conn_established"
      "co_phase (ts_conns s ! k) \<in> {Conn_established, Conn_destroyed}" if "k < length (ts_conns s)" for k
      using c [OF that] \<open>ts_tasks s = []\<close> by (auto simp: conn_ok_def phase_ok_def split: conn_phase.splits)
    have "set (map snd (ts_connections s)) = {k. k < length (ts_conns s) \<and> in_map s k}"
      using s(2) by (intro map_entries) (simp add: server_inv_def)
    moreover have "co_phase x \<noteq> Conn_destroyed \<longleftrightarrow> co_phase x = Conn_established"
      if "x \<in> set (ts_conns s)" for x
      using that ph(2) by (fastforce simp: in_set_conv_nth)
    ultimately show ?thesis using ph(1) by (auto simp: live_fds_def cong: filter_cong)
  qed
  ultimately show ?thesis using s(1) by blast
qed

definition three_fds :: descriptors where
  "three_fds = \<lparr>d_open = [0, 1, 2], d_limit = 10, d_backlog = [7, 8]\<rparr>"

definition two_clients :: "server_op list" where
  "two_clients = [Sv_start, Sv_accept None, Sv_task 1, Sv_accept None, Sv_close 0, Sv_task 0, Sv_task 1]"

lemma two_clients_allowed:
  "\<exists>s0. server_created ''10.0.0.1:80'' ''Web'' 2 three_fds = Some s0 \<and> server_allowed two_clients s0"
proof -
  have "case_option False (server_allowed two_clients) (server_created ''10.0.0.1:80'' ''Web'' 2 three_fds)"
    by code_simp
  then show ?thesis by (auto split: option.splits)
qed

lemma tcp_server_sound_witness:
  "\<exists>s0 s. server_created ''10.0.0.1:80'' ''Web'' 2 three_fds = Some s0 \<and> server_run two_clients s0 = Some s \<and>
    mset (d_open (ts_fds s)) = mset (d_open three_fds @ own_fds s @ live_fds s)"
proof -
  obtain s0 where s0: "server_created ''10.0.0.1:80'' ''Web'' 2 three_fds = Some s0"
    "server_allowed two_clients s0"
    using two_clients_allowed by blast
  show ?thesis using tcp_server_sound [OF s0(1) _ _ s0(2)] s0(1) by (auto simp: three_fds_def)
qed

text \<open>At the limit of descriptors an acceptor takes the first client that waits off the queue and
  turns it away, and has its idle descriptor again, while all other descriptors are as before.
\<close>

theorem acceptor_at_limit:
  assumes "ac_idleFd a = Some i" and "i < d_limit d" and "i \<in> set (d_open d)"
    and "distinct (d_open d)" and "lowest_free d = None"
  shows "\<exists>d'. acceptor_handleRead failure a d = Some (None, a, d') \<and>
    mset (d_open d') = mset (d_open d) \<and> d_backlog d' = tl (d_backlog d)"
proof -
  obtain j d' where s: "shed_connection a d = (a\<lparr>ac_idleFd := Some j\<rparr>, d')" "j < d_limit d'"
    "d_limit d' = d_limit d" "distinct (d_open d')" "d_backlog d' = tl (d_backlog d)"
    "mset (d_open d') = add_mset j (mset (d_open d) - {#i#})"
    using shed_ok [OF assms(1-4)] by blast
  have "j \<in> set (d_open d)" using s(2,3) assms(5) by (auto simp: lowest_free_None)
  moreover have "mset (d_open d') = mset (j # remove1 i (d_open d))" using s(6) by simp
  from mset_eq_imp_distinct_iff [OF this] have "j \<notin> set (remove1 i (d_open d))" using s(4) by simp
  ultimately have "j = i" by (metis in_set_remove1)
  then show ?thesis
    using s(1,5,6) assms(1,3,5)
    by (simp add: acceptor_handleRead_def accept_socket_def accept_fd_def expected_errors_def)
qed

lemma acceptor_at_limit_witness:
  "\<exists>d'. acceptor_handleRead None \<lparr>ac_fd = 3, ac_listenning = True, ac_idleFd = Some 4\<rparr>
      \<lparr>d_open = [4, 3, 0, 1, 2], d_limit = 5, d_backlog = [7, 8]\<rparr> =
      Some (None, \<lparr>ac_fd = 3, ac_listenning = True, ac_idleFd = Some 4\<rparr>, d') \<and> d_backlog d' = [8]"
proof -
  have "lowest_free \<lparr>d_open = [4, 3, 0, 1, 2], d_limit = 5, d_backlog = [7, 8]\<rparr> = None" by code_simp
  from acceptor_at_limit [OF _ _ _ _ this, of "\<lparr>ac_fd = 3, ac_listenning = True, ac_idleFd = Some 4\<rparr>" 4 None]
  show ?thesis by auto
qed

definition one_client :: "nat \<Rightarrow> server_op list \<Rightarrow> tcp_server option" where
  "one_client n ops =
     Option.bind (server_created ''10.0.0.1:80'' ''Web'' n three_fds) (server_run ([Sv_start, Sv_accept None] @ ops))"

text \<open>Three orders outside that discipline fail: a connection that was removed with
  \<open>removeAndDestroyConnection\<close> closes afterwards; the server is destroyed while the removal of a
  connection waits in its loop; a connection closes in its own thread after the server was destroyed.
\<close>

theorem server_races:
  "one_client 0 [Sv_remove 0 0] \<noteq> None \<and> one_client 0 [Sv_remove 0 0, Sv_close 0] = None \<and>
   one_client 1 [Sv_task 1, Sv_close 0, Sv_destroy] \<noteq> None \<and>
   one_client 1 [Sv_task 1, Sv_close 0, Sv_destroy, Sv_task 0] = None \<and>
   one_client 1 [Sv_task 1, Sv_destroy] \<noteq> None \<and> one_client 1 [Sv_task 1, Sv_destroy, Sv_close 0] = None"
proof -
  have "\<not> Option.is_none (one_client 0 [Sv_remove 0 0])" "Option.is_none (one_client 0 [Sv_remove 0 0, Sv_close 0])"
    "\<not> Option.is_none (one_client 1 [Sv_task 1, Sv_close 0, Sv_destroy])"
    "Option.is_none (one_client 1 [Sv_task 1, Sv_close 0, Sv_destroy, Sv_task 0])"
    "\<not> Option.is_none (one_client 1 [Sv_task 1, Sv_destroy])"
    "Option.is_none (one_client 1 [Sv_task 1, Sv_destroy, Sv_close 0])"
    by code_simp+
  then show ?thesis by (simp add: Option.is_none_def)
qed

end
