(* ===== verification/Monitor_Queue.thy ===== *)
theory Monitor_Queue
  imports Muduo_Prelude
begin

text \<open>
  Threads that share a queue under a mutex and two conditions, \<open>BoundedBlockingQueue\<close>,
  \<open>BlockingQueue\<close> and \<open>ThreadPool\<close>. What happens between a lock and the unlock or \<open>wait\<close> that
  follows is one step. The contract that these classes share is a locale: what each step does to the
  length of the queue and to the numbers of threads that are awake or wait; its lemma is that no
  wakeup is lost.
\<close>

subsection \<open>Counting threads\<close>

definition number :: "('t \<Rightarrow> bool) \<Rightarrow> 't list \<Rightarrow> nat" where
  "number P ts = length (filter P ts)"

lemma number_update:
  "i < length ts \<Longrightarrow>
     number P (ts[i := t]) + (if P (ts ! i) then 1 else 0) = number P ts + (if P t then 1 else 0)"
proof (induction ts arbitrary: i)
  case (Cons u ts)
  then show ?case by (cases i) (auto simp: number_def)
qed simp

lemma number_pos: "0 < number P ts \<longleftrightarrow> (\<exists>t \<in> set ts. P t)"
  by (auto simp: number_def filter_empty_conv)

lemma number_zero: "number P ts = 0 \<longleftrightarrow> (\<forall>t \<in> set ts. \<not> P t)"
  by (auto simp: number_def filter_empty_conv)

lemma number_nth: "i < length ts \<Longrightarrow> P (ts ! i) \<Longrightarrow> 0 < number P ts"
  by (auto simp: number_pos)

text \<open>
  \<open>notify\<close> wakes one of the threads that wait, if there is any; \<open>notifyAll\<close> wakes them all. The
  function says what a thread does that is woken.
\<close>

inductive notify :: "('t \<Rightarrow> bool) \<Rightarrow> ('t \<Rightarrow> 't) \<Rightarrow> 't list \<Rightarrow> 't list \<Rightarrow> bool" for waits wake where
  notify_one: "j < length ts \<Longrightarrow> waits (ts ! j) \<Longrightarrow> notify waits wake ts (ts[j := wake (ts ! j)])"
| notify_none: "number waits ts = 0 \<Longrightarrow> notify waits wake ts ts"

definition notifyAll :: "('t \<Rightarrow> bool) \<Rightarrow> ('t \<Rightarrow> 't) \<Rightarrow> 't list \<Rightarrow> 't list" where
  "notifyAll waits wake ts = map (\<lambda>t. if waits t then wake t else t) ts"

lemma notify_total: "\<exists>ts'. notify waits wake ts ts'"
proof (cases "number waits ts = 0")
  case False
  then obtain j where "j < length ts" "waits (ts ! j)" by (auto simp: number_zero in_set_conv_nth)
  then show ?thesis using notify_one [of j ts waits wake] by blast
qed (blast intro: notify_none)

lemma notify_length: "notify waits wake ts ts' \<Longrightarrow> length ts' = length ts"
  by (auto elim!: notify.cases)

lemma number_set:
  "i < length ts \<Longrightarrow> number P (ts[i := t]) =
     (if P (ts ! i) then number P ts - 1 else number P ts) + (if P t then 1 else 0)"
  using number_update [of i ts P t] number_nth [of i ts P] by (auto split: if_splits)

lemma notify_numbers:
  assumes n: "notify waits wake ts ts'" and w: "\<And>t. waits t \<Longrightarrow> \<not> waits (wake t) \<and> \<not> awake t \<and> awake (wake t)"
  shows "number waits ts = 0 \<and> ts' = ts \<or>
    (\<exists>w. number waits ts = Suc w \<and> number waits ts' = w \<and> number awake ts' = number awake ts + 1)"
  using n
proof cases
  case (notify_one j)
  then show ?thesis
    using number_update [of j ts waits "wake (ts ! j)"] number_update [of j ts awake "wake (ts ! j)"]
      w [of "ts ! j"] number_nth [of j ts waits]
    by (cases "number waits ts") auto
qed simp

lemma notify_others:
  assumes n: "notify waits wake ts ts'" and w: "\<And>t. waits t \<Longrightarrow> Q (wake t) = Q t"
  shows "number Q ts' = number Q ts"
  using n
proof cases
  case (notify_one j)
  then show ?thesis using number_update [of j ts Q "wake (ts ! j)"] w [of "ts ! j"] by (simp split: if_splits)
qed simp

lemma notify_elements:
  assumes "notify waits wake ts ts'" and "i < length ts"
  shows "ts' ! i = ts ! i \<or> waits (ts ! i) \<and> ts' ! i = wake (ts ! i)"
  using assms by (auto elim!: notify.cases simp: nth_list_update split: if_splits)

subsection \<open>The contract\<close>

text \<open>The room of a queue: \<open>None\<close> is a queue without a limit.\<close>

definition full :: "nat option \<Rightarrow> nat \<Rightarrow> bool" where
  "full cap q \<longleftrightarrow> (case cap of None \<Rightarrow> False | Some n \<Rightarrow> n \<le> q)"

record counts =
  ct_queue :: nat
  ct_takers :: nat
  ct_takers_waiting :: nat
  ct_putters :: nat
  ct_putters_waiting :: nat

inductive monitor_effect :: "nat option \<Rightarrow> counts \<Rightarrow> counts \<Rightarrow> bool" for cap where
  nothing: "monitor_effect cap c c"
| take_enters: "monitor_effect cap c (c\<lparr>ct_takers := ct_takers c + 1\<rparr>)"
| put_enters: "monitor_effect cap c (c\<lparr>ct_putters := ct_putters c + 1\<rparr>)"
| take_leaves: "ct_queue c = 0 \<Longrightarrow> ct_takers c = Suc a \<Longrightarrow> monitor_effect cap c (c\<lparr>ct_takers := a\<rparr>)"
| take_waits: "ct_queue c = 0 \<Longrightarrow> ct_takers c = Suc a \<Longrightarrow>
    monitor_effect cap c (c\<lparr>ct_takers := a, ct_takers_waiting := ct_takers_waiting c + 1\<rparr>)"
| put_waits: "full cap (ct_queue c) \<Longrightarrow> ct_putters c = Suc p \<Longrightarrow>
    monitor_effect cap c (c\<lparr>ct_putters := p, ct_putters_waiting := ct_putters_waiting c + 1\<rparr>)"
| take_wakes: "ct_takers_waiting c = Suc w \<Longrightarrow>
    monitor_effect cap c (c\<lparr>ct_takers := ct_takers c + 1, ct_takers_waiting := w\<rparr>)"
| put_wakes: "ct_putters_waiting c = Suc w \<Longrightarrow>
    monitor_effect cap c (c\<lparr>ct_putters := ct_putters c + 1, ct_putters_waiting := w\<rparr>)"
| take_all_wake:
    "monitor_effect cap c (c\<lparr>ct_takers := ct_takers c + ct_takers_waiting c, ct_takers_waiting := 0\<rparr>)"
| take_gets_wakes: "ct_queue c = Suc q \<Longrightarrow> ct_takers c = Suc a \<Longrightarrow> ct_putters_waiting c = Suc w \<Longrightarrow>
    monitor_effect cap c
      (c\<lparr>ct_queue := q, ct_takers := a, ct_putters := ct_putters c + 1, ct_putters_waiting := w\<rparr>)"
| take_gets: "ct_queue c = Suc q \<Longrightarrow> ct_takers c = Suc a \<Longrightarrow> cap = None \<or> ct_putters_waiting c = 0 \<Longrightarrow>
    monitor_effect cap c (c\<lparr>ct_queue := q, ct_takers := a\<rparr>)"
| put_adds_wakes: "\<not> full cap (ct_queue c) \<Longrightarrow> ct_putters c = Suc p \<Longrightarrow> ct_takers_waiting c = Suc w \<Longrightarrow>
    monitor_effect cap c
      (c\<lparr>ct_queue := ct_queue c + 1, ct_putters := p, ct_takers := ct_takers c + 1, ct_takers_waiting := w\<rparr>)"
| put_adds: "\<not> full cap (ct_queue c) \<Longrightarrow> ct_putters c = Suc p \<Longrightarrow> ct_takers_waiting c = 0 \<Longrightarrow>
    monitor_effect cap c (c\<lparr>ct_queue := ct_queue c + 1, ct_putters := p\<rparr>)"

text \<open>
  While a taker waits, there are as many takers awake as there are entries; while a putter waits,
  there are as many putters awake as there are free places.
\<close>

definition wakeups_kept :: "nat option \<Rightarrow> counts \<Rightarrow> bool" where
  "wakeups_kept cap c \<longleftrightarrow>
     (ct_takers_waiting c = 0 \<or> ct_queue c \<le> ct_takers c) \<and>
     (ct_putters_waiting c = 0 \<or> (\<exists>n. cap = Some n \<and> n \<le> ct_queue c + ct_putters c)) \<and>
     (\<forall>n. cap = Some n \<longrightarrow> ct_queue c \<le> n)"

lemma effect_keeps: "monitor_effect cap c c' \<Longrightarrow> wakeups_kept cap c \<Longrightarrow> wakeups_kept cap c'"
  by (induction rule: monitor_effect.induct) (auto simp: wakeups_kept_def full_def split: option.splits)

locale monitor =
  fixes step :: "'s \<Rightarrow> 's \<Rightarrow> bool" and counts :: "'s \<Rightarrow> counts" and cap :: "nat option"
  assumes step_effect: "step s s' \<Longrightarrow> monitor_effect cap (counts s) (counts s')"
begin

lemma steps_keep:
  assumes "step\<^sup>*\<^sup>* s s'" and "wakeups_kept cap (counts s)"
  shows "wakeups_kept cap (counts s')"
  using assms by (induction rule: rtranclp_induct) (blast intro: effect_keeps step_effect)+

text \<open>If no thread is awake, nothing is left to be done: takers wait at an empty queue, putters at a full one.\<close>

lemma nobody_stuck:
  assumes "step\<^sup>*\<^sup>* s s'" and "wakeups_kept cap (counts s)"
    and "ct_takers (counts s') = 0" and "ct_putters (counts s') = 0"
  shows "(0 < ct_takers_waiting (counts s') \<longrightarrow> ct_queue (counts s') = 0) \<and>
    (0 < ct_putters_waiting (counts s') \<longrightarrow> full cap (ct_queue (counts s')))"
  using steps_keep [OF assms(1,2)] assms(3,4) by (auto simp: wakeups_kept_def full_def)

end

end
