(* ===== verification/Blocking_Queue.thy ===== *)
theory Blocking_Queue
  imports Monitor_Queue
begin

text \<open>
  \<open>BoundedBlockingQueue\<close> and \<open>BlockingQueue\<close> of \<^verbatim>\<open>muduo/base\<close>, for any number of threads that put
  and take in any order: the queue never holds more than it may, what is taken is what was put, in
  order, and a thread that waits has a reason to. A queue without a limit is the \<open>BlockingQueue\<close>:
  its \<open>put\<close> never waits, and its \<open>take\<close> notifies nobody.
\<close>

datatype 'a queue_thread = Outside | In_put 'a | Wait_not_full 'a | In_take | Wait_not_empty

record 'a blocking_queue =
  bq_queue :: "'a list"
  bq_threads :: "'a queue_thread list"
  bq_put :: "'a list"
  bq_taken :: "'a list"

definition new_blocking_queue :: "nat \<Rightarrow> 'a blocking_queue" where
  "new_blocking_queue threads =
     \<lparr>bq_queue = [], bq_threads = replicate threads Outside, bq_put = [], bq_taken = []\<rparr>"

text \<open>One pass of the loops of \<open>put\<close> and \<open>take\<close>: \<open>None\<close> is \<open>wait\<close>.\<close>

definition put_pass :: "nat option \<Rightarrow> 'a \<Rightarrow> 'a list \<Rightarrow> 'a list option" where
  "put_pass cap x q = (if full cap (length q) then None else Some (q @ [x]))"

fun take_pass :: "'a list \<Rightarrow> ('a \<times> 'a list) option" where
  "take_pass [] = None"
| "take_pass (x # q) = Some (x, q)"

fun waits_not_full :: "'a queue_thread \<Rightarrow> bool" where
  "waits_not_full (Wait_not_full x) \<longleftrightarrow> True"
| "waits_not_full _ \<longleftrightarrow> False"

fun in_put :: "'a queue_thread \<Rightarrow> bool" where
  "in_put (In_put x) \<longleftrightarrow> True"
| "in_put _ \<longleftrightarrow> False"

fun wake_thread :: "'a queue_thread \<Rightarrow> 'a queue_thread" where
  "wake_thread (Wait_not_full x) = In_put x"
| "wake_thread Wait_not_empty = In_take"
| "wake_thread t = t"

abbreviation waits_not_empty :: "'a queue_thread \<Rightarrow> bool" where
  "waits_not_empty t \<equiv> t = Wait_not_empty"

abbreviation set_thread :: "nat \<Rightarrow> 'a queue_thread \<Rightarrow> 'a blocking_queue \<Rightarrow> 'a blocking_queue" where
  "set_thread i t s \<equiv> s\<lparr>bq_threads := (bq_threads s)[i := t]\<rparr>"

text \<open>
  The steps of thread \<open>i\<close>: it calls \<open>put\<close> or \<open>take\<close>; it makes a pass; it wakes up without being
  notified.
\<close>

inductive queue_step :: "nat option \<Rightarrow> 'a blocking_queue \<Rightarrow> 'a blocking_queue \<Rightarrow> bool" for cap where
  calls_put: "i < length (bq_threads s) \<Longrightarrow> bq_threads s ! i = Outside \<Longrightarrow>
    queue_step cap s (set_thread i (In_put x) s)"
| calls_take: "i < length (bq_threads s) \<Longrightarrow> bq_threads s ! i = Outside \<Longrightarrow>
    queue_step cap s (set_thread i In_take s)"
| put_waits: "i < length (bq_threads s) \<Longrightarrow> bq_threads s ! i = In_put x \<Longrightarrow>
    put_pass cap x (bq_queue s) = None \<Longrightarrow>
    queue_step cap s (set_thread i (Wait_not_full x) s)"
| put_adds: "i < length (bq_threads s) \<Longrightarrow> bq_threads s ! i = In_put x \<Longrightarrow>
    put_pass cap x (bq_queue s) = Some q \<Longrightarrow>
    notify waits_not_empty wake_thread ((bq_threads s)[i := Outside]) ts \<Longrightarrow>
    queue_step cap s (s\<lparr>bq_queue := q, bq_threads := ts, bq_put := bq_put s @ [x]\<rparr>)"
| take_waits: "i < length (bq_threads s) \<Longrightarrow> bq_threads s ! i = In_take \<Longrightarrow>
    take_pass (bq_queue s) = None \<Longrightarrow>
    queue_step cap s (set_thread i Wait_not_empty s)"
| take_gets: "i < length (bq_threads s) \<Longrightarrow> bq_threads s ! i = In_take \<Longrightarrow>
    take_pass (bq_queue s) = Some (x, q) \<Longrightarrow> cap \<noteq> None \<Longrightarrow>
    notify waits_not_full wake_thread ((bq_threads s)[i := Outside]) ts \<Longrightarrow>
    queue_step cap s (s\<lparr>bq_queue := q, bq_threads := ts, bq_taken := bq_taken s @ [x]\<rparr>)"
| take_gets_unlimited: "i < length (bq_threads s) \<Longrightarrow> bq_threads s ! i = In_take \<Longrightarrow>
    take_pass (bq_queue s) = Some (x, q) \<Longrightarrow> cap = None \<Longrightarrow>
    queue_step cap s
      (s\<lparr>bq_queue := q, bq_threads := (bq_threads s)[i := Outside], bq_taken := bq_taken s @ [x]\<rparr>)"
| wakes_up: "i < length (bq_threads s) \<Longrightarrow>
    waits_not_full (bq_threads s ! i) \<or> waits_not_empty (bq_threads s ! i) \<Longrightarrow>
    queue_step cap s (set_thread i (wake_thread (bq_threads s ! i)) s)"

text \<open>The steps of a \<open>BlockingQueue\<close>, which has no limit.\<close>

definition unlimited_step :: "'a blocking_queue \<Rightarrow> 'a blocking_queue \<Rightarrow> bool" where
  "unlimited_step = queue_step None"

subsection \<open>The contract of the monitor\<close>

definition queue_counts :: "'a blocking_queue \<Rightarrow> counts" where
  "queue_counts s =
     \<lparr>ct_queue = length (bq_queue s),
      ct_takers = number (\<lambda>t. t = In_take) (bq_threads s),
      ct_takers_waiting = number waits_not_empty (bq_threads s),
      ct_putters = number in_put (bq_threads s),
      ct_putters_waiting = number waits_not_full (bq_threads s)\<rparr>"

lemma notify_takers:
  assumes "notify waits_not_empty wake_thread ts ts'"
  shows "number in_put ts' = number in_put ts" "number waits_not_full ts' = number waits_not_full ts"
    "number waits_not_empty ts = 0 \<and> ts' = ts \<or>
     (\<exists>w. number waits_not_empty ts = Suc w \<and> number waits_not_empty ts' = w \<and>
       number (\<lambda>t. t = In_take) ts' = number (\<lambda>t. t = In_take) ts + 1)"
  by (rule notify_others [OF assms], simp)+ (rule notify_numbers [OF assms], simp)

lemma notify_putters:
  assumes "notify waits_not_full wake_thread ts ts'"
  shows "number (\<lambda>t. t = In_take) ts' = number (\<lambda>t. t = In_take) ts"
    "number waits_not_empty ts' = number waits_not_empty ts"
    "number waits_not_full ts = 0 \<and> ts' = ts \<or>
     (\<exists>w. number waits_not_full ts = Suc w \<and> number waits_not_full ts' = w \<and>
       number in_put ts' = number in_put ts + 1)"
proof -
  have w: "waits_not_full t \<Longrightarrow> \<exists>x. t = Wait_not_full x" for t :: "'a queue_thread" by (cases t) auto
  show "number (\<lambda>t. t = In_take) ts' = number (\<lambda>t. t = In_take) ts"
    "number waits_not_empty ts' = number waits_not_empty ts"
    by (rule notify_others [OF assms], use w in fastforce)+
  show "number waits_not_full ts = 0 \<and> ts' = ts \<or>
     (\<exists>w. number waits_not_full ts = Suc w \<and> number waits_not_full ts' = w \<and>
       number in_put ts' = number in_put ts + 1)"
    by (rule notify_numbers [OF assms], use w in fastforce)
qed

lemma queue_step_effect: "queue_step cap s s' \<Longrightarrow> monitor_effect cap (queue_counts s) (queue_counts s')"
proof (induction rule: queue_step.induct)
  case (calls_put i s x)
  then show ?case
    using put_enters [of cap "queue_counts s"] by (simp add: queue_counts_def number_set)
next
  case (calls_take i s)
  then show ?case
    using take_enters [of cap "queue_counts s"] by (simp add: queue_counts_def number_set)
next
  case (put_waits i s x)
  then obtain p where "number in_put (bq_threads s) = Suc p"
    using number_nth [of i "bq_threads s" in_put] by (auto simp: gr0_conv_Suc)
  then show ?case
    using put_waits monitor_effect.put_waits [of cap "queue_counts s" p]
    by (simp add: queue_counts_def number_set put_pass_def split: if_splits)
next
  case (put_adds i s x q ts)
  then obtain p where p: "number in_put (bq_threads s) = Suc p"
    using number_nth [of i "bq_threads s" in_put] by (auto simp: gr0_conv_Suc)
  have q: "\<not> full cap (length (bq_queue s))" "length q = length (bq_queue s) + 1"
    using put_adds(3) by (auto simp: put_pass_def split: if_splits)
  note numbers = notify_takers [OF put_adds(4)]
  from numbers(3) show ?case
  proof (elim disjE exE conjE)
    assume "number waits_not_empty ((bq_threads s)[i := Outside]) = 0" "ts = (bq_threads s)[i := Outside]"
    then show ?thesis
      using monitor_effect.put_adds [of cap "queue_counts s" p] put_adds(1,2) p q
      by (simp add: queue_counts_def number_set)
  next
    fix w
    assume "number waits_not_empty ((bq_threads s)[i := Outside]) = Suc w" "number waits_not_empty ts = w"
      "number (\<lambda>t. t = In_take) ts = number (\<lambda>t. t = In_take) ((bq_threads s)[i := Outside]) + 1"
    then show ?thesis
      using monitor_effect.put_adds_wakes [of cap "queue_counts s" p w] put_adds(1,2) p q numbers(1,2)
      by (simp add: queue_counts_def number_set)
  qed
next
  case (take_waits i s)
  then obtain a where "number (\<lambda>t. t = In_take) (bq_threads s) = Suc a"
    using number_nth [of i "bq_threads s" "\<lambda>t. t = In_take"] by (auto simp: gr0_conv_Suc)
  then show ?case
    using take_waits monitor_effect.take_waits [of "queue_counts s" a cap]
    by (cases "bq_queue s") (simp_all add: queue_counts_def number_set)
next
  case (take_gets i s x q ts)
  then obtain a where a: "number (\<lambda>t. t = In_take) (bq_threads s) = Suc a"
    using number_nth [of i "bq_threads s" "\<lambda>t. t = In_take"] by (auto simp: gr0_conv_Suc)
  have q: "bq_queue s = x # q" using take_gets(3) by (cases "bq_queue s") auto
  note numbers = notify_putters [OF take_gets(5)]
  from numbers(3) show ?case
  proof (elim disjE exE conjE)
    assume "number waits_not_full ((bq_threads s)[i := Outside]) = 0" "ts = (bq_threads s)[i := Outside]"
    then show ?thesis
      using monitor_effect.take_gets [of "queue_counts s" "length q" a cap] take_gets(1,2) a q
      by (simp add: queue_counts_def number_set)
  next
    fix w
    assume "number waits_not_full ((bq_threads s)[i := Outside]) = Suc w" "number waits_not_full ts = w"
      "number in_put ts = number in_put ((bq_threads s)[i := Outside]) + 1"
    then show ?thesis
      using monitor_effect.take_gets_wakes [of "queue_counts s" "length q" a w cap] take_gets(1,2) a q numbers(1,2)
      by (simp add: queue_counts_def number_set)
  qed
next
  case (take_gets_unlimited i s x q)
  then obtain a where a: "number (\<lambda>t. t = In_take) (bq_threads s) = Suc a"
    using number_nth [of i "bq_threads s" "\<lambda>t. t = In_take"] by (auto simp: gr0_conv_Suc)
  have q: "bq_queue s = x # q" using take_gets_unlimited(3) by (cases "bq_queue s") auto
  show ?case
    using monitor_effect.take_gets [of "queue_counts s" "length q" a cap] take_gets_unlimited(1,2,4) a q
    by (simp add: queue_counts_def number_set)
next
  case (wakes_up i s)
  from wakes_up(2) show ?case
  proof
    assume w: "waits_not_full (bq_threads s ! i)"
    then obtain n where "number waits_not_full (bq_threads s) = Suc n"
      using number_nth [OF wakes_up(1), of waits_not_full] by (auto simp: gr0_conv_Suc)
    then show ?thesis
      using put_wakes [of "queue_counts s" n cap] wakes_up(1) w
      by (cases "bq_threads s ! i") (simp_all add: queue_counts_def number_set)
  next
    assume w: "waits_not_empty (bq_threads s ! i)"
    then obtain n where "number waits_not_empty (bq_threads s) = Suc n"
      using number_nth [OF wakes_up(1), of waits_not_empty] by (auto simp: gr0_conv_Suc)
    then show ?thesis
      using take_wakes [of "queue_counts s" n cap] wakes_up(1) w
      by (simp add: queue_counts_def number_set)
  qed
qed

interpretation shared_queue: monitor "queue_step cap" queue_counts cap
  by unfold_locales (rule queue_step_effect)

subsection \<open>The queue\<close>

definition queue_inv :: "'a blocking_queue \<Rightarrow> bool" where
  "queue_inv s \<longleftrightarrow> bq_put s = bq_taken s @ bq_queue s"

lemma queue_step_inv: "queue_step cap s s' \<Longrightarrow> queue_inv s \<Longrightarrow> queue_inv s'"
proof (induction rule: queue_step.induct)
  case (take_gets i s x q ts)
  then show ?case by (cases "bq_queue s") (simp_all add: queue_inv_def)
next
  case (take_gets_unlimited i s x q)
  then show ?case by (cases "bq_queue s") (simp_all add: queue_inv_def)
qed (auto simp: queue_inv_def put_pass_def split: if_splits)

lemma new_blocking_queue_ok:
  "queue_inv (new_blocking_queue n)" "wakeups_kept cap (queue_counts (new_blocking_queue n))"
  by (auto simp: queue_inv_def new_blocking_queue_def wakeups_kept_def queue_counts_def number_def)

lemma blocking_invariants:
  assumes "(queue_step cap)\<^sup>*\<^sup>* (new_blocking_queue n) s"
  shows "bq_put s = bq_taken s @ bq_queue s" "wakeups_kept cap (queue_counts s)"
proof -
  have "queue_inv s"
    using assms by (induction rule: rtranclp_induct) (auto simp: new_blocking_queue_ok intro: queue_step_inv)
  then show "bq_put s = bq_taken s @ bq_queue s" by (simp add: queue_inv_def)
  show "wakeups_kept cap (queue_counts s)"
    by (rule shared_queue.steps_keep [OF assms]) (rule new_blocking_queue_ok)
qed

text \<open>Whatever threads put and take in whatever order, what was taken is a prefix of what was put,
  the rest is in the queue, and a bounded queue never holds more than it may. If every thread is
  outside or waits, then those that wait in \<open>take\<close> have an empty queue, and those that wait in \<open>put\<close>
  a full one: no wakeup was lost.
\<close>

theorem blocking_queue_sound:
  assumes "(queue_step cap)\<^sup>*\<^sup>* (new_blocking_queue n) s"
  shows "bq_put s = bq_taken s @ bq_queue s \<and>
    (\<forall>k. cap = Some k \<longrightarrow> length (bq_queue s) \<le> k) \<and>
    (list_all (\<lambda>t. t \<noteq> In_take \<and> \<not> in_put t) (bq_threads s) \<longrightarrow>
      (Wait_not_empty \<in> set (bq_threads s) \<longrightarrow> bq_queue s = []) \<and>
      (list_ex waits_not_full (bq_threads s) \<longrightarrow> full cap (length (bq_queue s))))"
proof -
  note kept = blocking_invariants [OF assms]
  have "bq_queue s = []" if "ct_takers (queue_counts s) = 0" "ct_putters (queue_counts s) = 0"
    "Wait_not_empty \<in> set (bq_threads s)"
    using shared_queue.nobody_stuck [OF assms new_blocking_queue_ok(2) that(1,2)] that(3)
    by (auto simp: queue_counts_def number_pos)
  moreover have "full cap (length (bq_queue s))" if "ct_takers (queue_counts s) = 0"
    "ct_putters (queue_counts s) = 0" "list_ex waits_not_full (bq_threads s)"
    using shared_queue.nobody_stuck [OF assms new_blocking_queue_ok(2) that(1,2)] that(3)
    by (auto simp: queue_counts_def number_pos list_ex_iff)
  ultimately show ?thesis
    using kept by (auto simp: wakeups_kept_def queue_counts_def number_zero list_all_iff)
qed

text \<open>In a queue without a limit nobody waits to put.\<close>

lemma unlimited_put:
  assumes "unlimited_step\<^sup>*\<^sup>* (new_blocking_queue n) s"
  shows "bq_put s = bq_taken s @ bq_queue s" "\<not> list_ex waits_not_full (bq_threads s)"
proof -
  have run: "(queue_step None)\<^sup>*\<^sup>* (new_blocking_queue n) s" using assms by (simp add: unlimited_step_def)
  show "bq_put s = bq_taken s @ bq_queue s" using blocking_invariants [OF run] by simp
  show "\<not> list_ex waits_not_full (bq_threads s)"
    using blocking_invariants [OF run]
    by (auto simp: wakeups_kept_def queue_counts_def number_zero list_ex_iff)
qed

lemma one_item_waits:
  "(queue_step (Some 1))\<^sup>*\<^sup>* (new_blocking_queue 2)
     \<lparr>bq_queue = [7 :: nat], bq_threads = [In_take, Outside], bq_put = [7], bq_taken = []\<rparr>"
proof -
  let ?s = "\<lambda>q t0 t1. \<lparr>bq_queue = q, bq_threads = [t0, t1], bq_put = q, bq_taken = []\<rparr>"
  let ?step = "queue_step (Some (1 :: nat)) :: nat blocking_queue \<Rightarrow> nat blocking_queue \<Rightarrow> bool"
  have "notify waits_not_empty wake_thread [Wait_not_empty, Outside :: nat queue_thread]
      [In_take, Outside]"
    using notify_one [of 0 "[Wait_not_empty, Outside :: nat queue_thread]" waits_not_empty wake_thread] by simp
  then have steps: "?step (?s [] Outside Outside) (?s [] In_take Outside)"
    "?step (?s [] In_take Outside) (?s [] Wait_not_empty Outside)"
    "?step (?s [] Wait_not_empty Outside) (?s [] Wait_not_empty (In_put 7))"
    "?step (?s [] Wait_not_empty (In_put 7)) (?s [7] In_take Outside)"
    using calls_take [of 0 "?s [] Outside Outside" "Some 1"]
      take_waits [of 0 "?s [] In_take Outside" "Some 1"]
      calls_put [of 1 "?s [] Wait_not_empty Outside" "Some 1" 7]
      put_adds [of 1 "?s [] Wait_not_empty (In_put 7)" 7 "Some 1" "[7]" "[In_take, Outside]"]
    by (simp_all add: put_pass_def full_def)
  have "new_blocking_queue 2 = ?s [] Outside Outside"
    by (simp add: new_blocking_queue_def numeral_2_eq_2)
  then show ?thesis using steps by (metis (no_types, lifting) rtranclp.rtrancl_refl rtranclp.rtrancl_into_rtrancl)
qed

lemma blocking_queue_sound_witness:
  "length [7 :: nat] \<le> 1 \<and> bq_put \<lparr>bq_queue = [7 :: nat], bq_threads = [In_take, Outside], bq_put = [7], bq_taken = []\<rparr> = [7]"
  using blocking_queue_sound [OF one_item_waits] by simp

end
