(* ===== verification/Thread_Pool.thy ===== *)
theory Thread_Pool
  imports Monitor_Queue "HOL-Library.Multiset"
begin

text \<open>
  \<open>ThreadPool\<close> of \<^verbatim>\<open>muduo/base/ThreadPool.cc\<close>: worker threads that take tasks from a queue, callers of
  \<open>run\<close> that may have to wait for room, and \<open>stop\<close>. The steps of the threads come in any order.
  The limit of the queue, 0 for none, is set before the start and is a parameter. Tasks return;
  the handlers for exceptions, which end the process, are not modelled.
\<close>

datatype 'a worker = Worker_at_loop | Worker_takes | Worker_waits | Worker_runs 'a | Worker_left

datatype 'a caller = Caller_wants 'a | Caller_waits 'a | Caller_returned

record 'a thread_pool =
  tp_name :: string
  tp_running :: bool
  tp_threads :: "string list"
  tp_queue :: "'a list"
  tp_workers :: "'a worker list"
  tp_callers :: "'a caller list"
  tp_accepted :: "'a list"
  tp_taken :: "'a list"
  tp_ran :: "'a list"

definition new_thread_pool :: "string \<Rightarrow> 'a thread_pool" where
  "new_thread_pool nameArg =
     \<lparr>tp_name = nameArg, tp_running = False, tp_threads = [], tp_queue = [], tp_workers = [],
      tp_callers = [], tp_accepted = [], tp_taken = [], tp_ran = []\<rparr>"

definition start_thread_pool :: "nat \<Rightarrow> 'a thread_pool \<Rightarrow> 'a thread_pool option" where
  "start_thread_pool numThreads p = do {
     C_assert (tp_threads p = []);
     Some (p\<lparr>tp_running := True,
             tp_threads := map (\<lambda>i. tp_name p @ snprintf_text 32 (int_text (int i + 1))) [0..<numThreads],
             tp_workers := replicate numThreads Worker_at_loop\<rparr>)
   }"

definition isFull :: "nat \<Rightarrow> 'a list \<Rightarrow> bool" where
  "isFull maxQueueSize q \<longleftrightarrow> 0 < maxQueueSize \<and> maxQueueSize \<le> length q"

text \<open>One pass of the loops of \<open>run\<close> and \<open>take\<close>: the first gives \<open>None\<close> when the caller waits.\<close>

definition run_pass :: "nat \<Rightarrow> 'a \<Rightarrow> 'a list \<Rightarrow> 'a list option" where
  "run_pass maxQueueSize t q = (if isFull maxQueueSize q then None else Some (q @ [t]))"

datatype 'a take_result = Take_waits | Take_nothing | Take_task 'a "'a list"

fun take_task :: "bool \<Rightarrow> 'a list \<Rightarrow> 'a take_result" where
  "take_task running [] = (if running then Take_waits else Take_nothing)"
| "take_task running (t # q) = Take_task t q"

fun is_caller_waits :: "'a caller \<Rightarrow> bool" where
  "is_caller_waits (Caller_waits t) \<longleftrightarrow> True"
| "is_caller_waits _ \<longleftrightarrow> False"

fun is_caller_wants :: "'a caller \<Rightarrow> bool" where
  "is_caller_wants (Caller_wants t) \<longleftrightarrow> True"
| "is_caller_wants _ \<longleftrightarrow> False"

fun wake_caller :: "'a caller \<Rightarrow> 'a caller" where
  "wake_caller (Caller_waits t) = Caller_wants t"
| "wake_caller c = c"

abbreviation is_worker_waits :: "'a worker \<Rightarrow> bool" where
  "is_worker_waits w \<equiv> w = Worker_waits"

definition wake_worker :: "'a worker \<Rightarrow> 'a worker" where
  "wake_worker w = (if is_worker_waits w then Worker_takes else w)"

abbreviation set_worker :: "nat \<Rightarrow> 'a worker \<Rightarrow> 'a thread_pool \<Rightarrow> 'a thread_pool" where
  "set_worker i w p \<equiv> p\<lparr>tp_workers := (tp_workers p)[i := w]\<rparr>"

abbreviation set_caller :: "nat \<Rightarrow> 'a caller \<Rightarrow> 'a thread_pool \<Rightarrow> 'a thread_pool" where
  "set_caller i c p \<equiv> p\<lparr>tp_callers := (tp_callers p)[i := c]\<rparr>"

definition at_worker :: "nat \<Rightarrow> 'a worker \<Rightarrow> 'a thread_pool \<Rightarrow> bool" where
  "at_worker i w p \<longleftrightarrow> i < length (tp_workers p) \<and> tp_workers p ! i = w"

definition at_caller :: "nat \<Rightarrow> 'a caller \<Rightarrow> 'a thread_pool \<Rightarrow> bool" where
  "at_caller i c p \<longleftrightarrow> i < length (tp_callers p) \<and> tp_callers p ! i = c"

inductive pool_step :: "nat \<Rightarrow> 'a thread_pool \<Rightarrow> 'a thread_pool \<Rightarrow> bool" for mx where
  run_here: "tp_workers p = [] \<Longrightarrow> 
    pool_step mx p
      (p\<lparr>tp_accepted := tp_accepted p @ [t], tp_taken := tp_taken p @ [t], tp_ran := tp_ran p @ [t]\<rparr>)"
| run_called: "tp_workers p \<noteq> [] \<Longrightarrow>
    pool_step mx p (p\<lparr>tp_callers := tp_callers p @ [Caller_wants t]\<rparr>)"
| run_waits: "at_caller i (Caller_wants t) p \<Longrightarrow> run_pass mx t (tp_queue p) = None \<Longrightarrow>
    pool_step mx p (set_caller i (Caller_waits t) p)"
| run_adds: "at_caller i (Caller_wants t) p \<Longrightarrow> run_pass mx t (tp_queue p) = Some q \<Longrightarrow>
    notify is_worker_waits wake_worker (tp_workers p) ws \<Longrightarrow>
    pool_step mx p ((set_caller i Caller_returned p)
      \<lparr>tp_queue := q, tp_workers := ws, tp_accepted := tp_accepted p @ [t]\<rparr>)"
| caller_wakes: "at_caller i (Caller_waits t) p \<Longrightarrow> pool_step mx p (set_caller i (Caller_wants t) p)"
| worker_goes_on: "at_worker i Worker_at_loop p \<Longrightarrow> tp_running p \<Longrightarrow>
    pool_step mx p (set_worker i Worker_takes p)"
| worker_leaves: "at_worker i Worker_at_loop p \<Longrightarrow> \<not> tp_running p \<Longrightarrow>
    pool_step mx p (set_worker i Worker_left p)"
| take_waits: "at_worker i Worker_takes p \<Longrightarrow> take_task (tp_running p) (tp_queue p) = Take_waits \<Longrightarrow>
    pool_step mx p (set_worker i Worker_waits p)"
| take_nothing: "at_worker i Worker_takes p \<Longrightarrow> take_task (tp_running p) (tp_queue p) = Take_nothing \<Longrightarrow>
    pool_step mx p (set_worker i Worker_at_loop p)"
| take_gets: "at_worker i Worker_takes p \<Longrightarrow> take_task (tp_running p) (tp_queue p) = Take_task t q \<Longrightarrow>
    (if 0 < mx then notify is_caller_waits wake_caller (tp_callers p) cs else cs = tp_callers p) \<Longrightarrow>
    pool_step mx p ((set_worker i (Worker_runs t) p)
      \<lparr>tp_queue := q, tp_callers := cs, tp_taken := tp_taken p @ [t]\<rparr>)"
| worker_wakes: "at_worker i Worker_waits p \<Longrightarrow> pool_step mx p (set_worker i Worker_takes p)"
| task_ends: "at_worker i (Worker_runs t) p \<Longrightarrow>
    pool_step mx p ((set_worker i Worker_at_loop p)\<lparr>tp_ran := tp_ran p @ [t]\<rparr>)"
| stop_called:
    "pool_step mx p (p\<lparr>tp_running := False, tp_workers := notifyAll is_worker_waits wake_worker (tp_workers p)\<rparr>)"

subsection \<open>The contract of the monitor\<close>

definition pool_cap :: "nat \<Rightarrow> nat option" where
  "pool_cap mx = (if 0 < mx then Some mx else None)"

lemma full_pool_cap: "full (pool_cap mx) (length q) \<longleftrightarrow> isFull mx q"
  by (simp add: pool_cap_def full_def isFull_def)

definition pool_counts :: "'a thread_pool \<Rightarrow> counts" where
  "pool_counts p =
     \<lparr>ct_queue = length (tp_queue p),
      ct_takers = number (\<lambda>w. w = Worker_takes) (tp_workers p),
      ct_takers_waiting = number is_worker_waits (tp_workers p),
      ct_putters = number is_caller_wants (tp_callers p),
      ct_putters_waiting = number is_caller_waits (tp_callers p)\<rparr>"

lemma notify_workers:
  assumes "notify is_worker_waits wake_worker ws ws'"
  shows "number is_worker_waits ws = 0 \<and> ws' = ws \<or>
    (\<exists>w. number is_worker_waits ws = Suc w \<and> number is_worker_waits ws' = w \<and>
       number (\<lambda>w. w = Worker_takes) ws' = number (\<lambda>w. w = Worker_takes) ws + 1)"
  by (rule notify_numbers [OF assms]) (simp add: wake_worker_def)

lemma caller_waits_iff: "is_caller_waits c \<longleftrightarrow> (\<exists>t. c = Caller_waits t)"
  and caller_wants_iff: "is_caller_wants c \<longleftrightarrow> (\<exists>t. c = Caller_wants t)"
  by (cases c; simp)+

lemma notify_callers:
  assumes "notify is_caller_waits wake_caller cs cs'"
  shows "number is_caller_waits cs = 0 \<and> cs' = cs \<or>
    (\<exists>w. number is_caller_waits cs = Suc w \<and> number is_caller_waits cs' = w \<and>
       number is_caller_wants cs' = number is_caller_wants cs + 1)"
  by (rule notify_numbers [OF assms]) (auto simp: caller_waits_iff)

lemma notifyAll_workers:
  "number is_worker_waits (notifyAll is_worker_waits wake_worker ws) = 0" (is ?none)
  "number (\<lambda>w. w = Worker_takes) (notifyAll is_worker_waits wake_worker ws) =
    number (\<lambda>w. w = Worker_takes) ws + number is_worker_waits ws" (is ?all)
proof -
  show ?none by (auto simp: number_zero notifyAll_def wake_worker_def)
  show ?all by (induction ws) (simp_all add: notifyAll_def number_def wake_worker_def)
qed

lemma at_worker_number: "at_worker i w p \<Longrightarrow> Q w \<Longrightarrow> \<exists>n. number Q (tp_workers p) = Suc n"
  using number_nth [of i "tp_workers p" Q] by (auto simp: at_worker_def gr0_conv_Suc)

lemma at_caller_number: "at_caller i c p \<Longrightarrow> Q c \<Longrightarrow> \<exists>n. number Q (tp_callers p) = Suc n"
  using number_nth [of i "tp_callers p" Q] by (auto simp: at_caller_def gr0_conv_Suc)

lemma set_worker_counts:
  "at_worker i w p \<Longrightarrow> number Q ((tp_workers p)[i := w']) =
     (if Q w then number Q (tp_workers p) - 1 else number Q (tp_workers p)) + (if Q w' then 1 else 0)"
  by (simp add: at_worker_def number_set)

lemma set_caller_counts:
  "at_caller i c p \<Longrightarrow> number Q ((tp_callers p)[i := c']) =
     (if Q c then number Q (tp_callers p) - 1 else number Q (tp_callers p)) + (if Q c' then 1 else 0)"
  by (simp add: at_caller_def number_set)

lemma number_snoc: "number Q (xs @ [x]) = number Q xs + (if Q x then 1 else 0)"
  by (simp add: number_def)

lemma take_task_simps:
  "take_task r q = Take_waits \<longleftrightarrow> q = [] \<and> r"
  "take_task r q = Take_nothing \<longleftrightarrow> q = [] \<and> \<not> r"
  "take_task r q = Take_task t q' \<longleftrightarrow> q = t # q'"
  by (cases q; auto)+

lemma run_pass_simps:
  "run_pass mx t q = None \<longleftrightarrow> isFull mx q"
  "run_pass mx t q = Some q' \<longleftrightarrow> \<not> isFull mx q \<and> q' = q @ [t]"
  by (auto simp: run_pass_def)

lemmas pool_counts_simps =
  pool_counts_def set_worker_counts set_caller_counts number_snoc full_pool_cap take_task_simps run_pass_simps

lemma pool_step_effect:
  "pool_step mx p p' \<Longrightarrow> monitor_effect (pool_cap mx) (pool_counts p) (pool_counts p')"
proof (induction rule: pool_step.induct)
  case (run_here p t)
  have "pool_counts (p\<lparr>tp_accepted := tp_accepted p @ [t], tp_taken := tp_taken p @ [t],
      tp_ran := tp_ran p @ [t]\<rparr>) = pool_counts p" by (simp add: pool_counts_def)
  then show ?case by (simp only: monitor_effect.nothing)
next
  case (run_called p t)
  then show ?case using put_enters [of "pool_cap mx" "pool_counts p"] by (simp add: pool_counts_simps)
next
  case (run_waits i t p)
  then obtain n where "number is_caller_wants (tp_callers p) = Suc n"
    using at_caller_number [of i "Caller_wants t" p is_caller_wants] by auto
  then show ?case
    using run_waits put_waits [of "pool_cap mx" "pool_counts p" n] by (simp add: pool_counts_simps)
next
  case (run_adds i t p q ws)
  then obtain n where n: "number is_caller_wants (tp_callers p) = Suc n"
    using at_caller_number [of i "Caller_wants t" p is_caller_wants] by auto
  from notify_workers [OF run_adds(3)] show ?case
  proof (elim disjE exE conjE)
    assume "number is_worker_waits (tp_workers p) = 0" "ws = tp_workers p"
    then show ?thesis
      using put_adds [of "pool_cap mx" "pool_counts p" n] run_adds(1,2) n by (simp add: pool_counts_simps)
  next
    fix w
    assume "number is_worker_waits (tp_workers p) = Suc w" "number is_worker_waits ws = w"
      "number (\<lambda>w. w = Worker_takes) ws = number (\<lambda>w. w = Worker_takes) (tp_workers p) + 1"
    then show ?thesis
      using put_adds_wakes [of "pool_cap mx" "pool_counts p" n w] run_adds(1,2) n
      by (simp add: pool_counts_simps)
  qed
next
  case (caller_wakes i t p)
  then obtain n where "number is_caller_waits (tp_callers p) = Suc n"
    using at_caller_number [of i "Caller_waits t" p is_caller_waits] by auto
  then show ?case
    using caller_wakes put_wakes [of "pool_counts p" n "pool_cap mx"] by (simp add: pool_counts_simps)
next
  case (worker_goes_on i p)
  then show ?case using take_enters [of "pool_cap mx" "pool_counts p"] by (simp add: pool_counts_simps)
next
  case (worker_leaves i p)
  then have "pool_counts (set_worker i Worker_left p) = pool_counts p" by (simp add: pool_counts_simps)
  then show ?case by (simp only: monitor_effect.nothing)
next
  case (take_waits i p)
  then obtain n where "number (\<lambda>w. w = Worker_takes) (tp_workers p) = Suc n"
    using at_worker_number [of i Worker_takes p "\<lambda>w. w = Worker_takes"] by auto
  then show ?case
    using take_waits monitor_effect.take_waits [of "pool_counts p" n "pool_cap mx"]
    by (simp add: pool_counts_simps)
next
  case (take_nothing i p)
  then obtain n where "number (\<lambda>w. w = Worker_takes) (tp_workers p) = Suc n"
    using at_worker_number [of i Worker_takes p "\<lambda>w. w = Worker_takes"] by auto
  then show ?case
    using take_nothing take_leaves [of "pool_counts p" n "pool_cap mx"] by (simp add: pool_counts_simps)
next
  case (take_gets i p t q cs)
  then obtain n where n: "number (\<lambda>w. w = Worker_takes) (tp_workers p) = Suc n"
    using at_worker_number [of i Worker_takes p "\<lambda>w. w = Worker_takes"] by auto
  show ?case
  proof (cases "0 < mx \<and> cs \<noteq> tp_callers p")
    case True
    then obtain w where "number is_caller_waits (tp_callers p) = Suc w" "number is_caller_waits cs = w"
      "number is_caller_wants cs = number is_caller_wants (tp_callers p) + 1"
      using notify_callers [of "tp_callers p" cs] take_gets(3) by auto
    then show ?thesis
      using take_gets_wakes [of "pool_counts p" "length q" n w "pool_cap mx"] take_gets(1,2) n
      by (simp add: pool_counts_simps)
  next
    case False
    then have "cs = tp_callers p" using take_gets(3) by (auto split: if_splits)
    moreover have "0 < mx \<Longrightarrow> number is_caller_waits (tp_callers p) = 0"
      using notify_callers [of "tp_callers p" cs] take_gets(3) \<open>cs = tp_callers p\<close> by auto
    ultimately show ?thesis
      using monitor_effect.take_gets [of "pool_counts p" "length q" n "pool_cap mx"] take_gets(1,2) n
      by (simp add: pool_counts_simps pool_cap_def split: if_splits)
  qed
next
  case (worker_wakes i p)
  then obtain n where "number is_worker_waits (tp_workers p) = Suc n"
    using at_worker_number [of i Worker_waits p is_worker_waits] by auto
  then show ?case
    using worker_wakes take_wakes [of "pool_counts p" n "pool_cap mx"] by (simp add: pool_counts_simps)
next
  case (task_ends i t p)
  then have "pool_counts ((set_worker i Worker_at_loop p)\<lparr>tp_ran := tp_ran p @ [t]\<rparr>) = pool_counts p"
    by (simp add: pool_counts_simps)
  then show ?case by (simp only: monitor_effect.nothing)
next
  case (stop_called p)
  then show ?case
    using take_all_wake [of "pool_cap mx" "pool_counts p"] by (simp add: pool_counts_def notifyAll_workers)
qed

interpretation pool: monitor "pool_step mx" pool_counts "pool_cap mx"
  by unfold_locales (rule pool_step_effect)

subsection \<open>The invariant\<close>

fun running_task :: "'a worker \<Rightarrow> 'a multiset" where
  "running_task (Worker_runs t) = {#t#}"
| "running_task _ = {#}"

definition tasks_running :: "'a worker list \<Rightarrow> 'a multiset" where
  "tasks_running ws = sum_list (map running_task ws)"

lemma tasks_running_update:
  "i < length ws \<Longrightarrow> tasks_running (ws[i := w]) + running_task (ws ! i) = tasks_running ws + running_task w"
proof (induction ws arbitrary: i)
  case (Cons v ws)
  then show ?case by (cases i) (auto simp: tasks_running_def ac_simps)
qed simp

lemma tasks_running_set:
  "at_worker i v p \<Longrightarrow> running_task v = {#} \<Longrightarrow>
     tasks_running ((tp_workers p)[i := w]) = tasks_running (tp_workers p) + running_task w"
  using tasks_running_update [of i "tp_workers p" w] by (simp add: at_worker_def)

lemma tasks_running_notify:
  assumes "notify is_worker_waits wake_worker ws ws'"
  shows "tasks_running ws' = tasks_running ws"
  using assms
proof cases
  case (notify_one j)
  then show ?thesis using tasks_running_update [of j ws "wake_worker (ws ! j)"] by (simp add: wake_worker_def)
qed simp

lemma tasks_running_notifyAll: "tasks_running (notifyAll is_worker_waits wake_worker ws) = tasks_running ws"
  by (induction ws) (auto simp: tasks_running_def notifyAll_def wake_worker_def)

lemma notifyAll_set:
  "length (notifyAll is_worker_waits wake_worker ws) = length ws"
  "Worker_waits \<notin> set (notifyAll is_worker_waits wake_worker ws)"
  "Worker_left \<in> set (notifyAll is_worker_waits wake_worker ws) \<longleftrightarrow> Worker_left \<in> set ws"
  by (auto simp: notifyAll_def wake_worker_def image_iff)

definition pool_inv :: "nat \<Rightarrow> 'a thread_pool \<Rightarrow> bool" where
  "pool_inv n p \<longleftrightarrow>
     length (tp_workers p) = n \<and> tp_accepted p = tp_taken p @ tp_queue p \<and>
     mset (tp_taken p) = mset (tp_ran p) + tasks_running (tp_workers p) \<and>
     (n = 0 \<longrightarrow> tp_queue p = [] \<and> tp_callers p = []) \<and>
     (tp_running p \<longrightarrow> Worker_left \<notin> set (tp_workers p)) \<and>
     (\<not> tp_running p \<longrightarrow> Worker_waits \<notin> set (tp_workers p))"

lemma notify_workers_set:
  assumes n: "notify is_worker_waits wake_worker ws ws'"
  shows "Worker_left \<notin> set ws \<Longrightarrow> Worker_left \<notin> set ws'" "Worker_waits \<notin> set ws \<Longrightarrow> ws' = ws"
proof -
  from n show "Worker_left \<notin> set ws \<Longrightarrow> Worker_left \<notin> set ws'"
    by cases (auto simp: wake_worker_def dest!: set_update_subset_insert [THEN subsetD])
  from n show "Worker_waits \<notin> set ws \<Longrightarrow> ws' = ws"
    by cases (metis nth_mem)
qed

lemma set_worker_new: "v \<in> set (ws[i := w]) \<Longrightarrow> v = w \<or> v \<in> set ws"
  using set_update_subset_insert [of ws i w] by auto

lemma pool_step_inv: "pool_step mx p p' \<Longrightarrow> pool_inv n p \<Longrightarrow> pool_inv n p'"
proof (induction rule: pool_step.induct)
  case (run_adds i t p q ws)
  have "n \<noteq> 0" "q = tp_queue p @ [t]"
    using run_adds(1,2,4) by (auto simp: pool_inv_def at_caller_def run_pass_simps)
  then show ?case
    using run_adds(4) tasks_running_notify [OF run_adds(3)] notify_length [OF run_adds(3)]
      notify_workers_set [OF run_adds(3)]
    by (simp add: pool_inv_def)
next
  case (take_gets i p t q cs)
  then show ?case
    using tasks_running_set [OF take_gets(1), of "Worker_runs t"]
    by (auto simp: pool_inv_def take_task_simps dest!: set_worker_new)
next
  case (task_ends i t p)
  then show ?case
    using tasks_running_update [of i "tp_workers p" Worker_at_loop]
    by (auto simp: pool_inv_def at_worker_def dest!: set_worker_new)
next
  case (stop_called p)
  then show ?case
    by (simp add: pool_inv_def tasks_running_notifyAll notifyAll_set)
next
  case (worker_goes_on i p)
  then show ?case
    using tasks_running_set [OF worker_goes_on(1), of Worker_takes]
    by (auto simp: pool_inv_def dest!: set_worker_new)
next
  case (worker_leaves i p)
  then show ?case
    using tasks_running_set [OF worker_leaves(1), of Worker_left]
    by (auto simp: pool_inv_def dest!: set_worker_new)
next
  case (take_waits i p)
  then show ?case
    using tasks_running_set [OF take_waits(1), of Worker_waits]
    by (auto simp: pool_inv_def take_task_simps dest!: set_worker_new)
next
  case (take_nothing i p)
  then show ?case
    using tasks_running_set [OF take_nothing(1), of Worker_at_loop]
    by (auto simp: pool_inv_def take_task_simps dest!: set_worker_new)
next
  case (worker_wakes i p)
  then show ?case
    using tasks_running_set [OF worker_wakes(1), of Worker_takes]
    by (auto simp: pool_inv_def dest!: set_worker_new)
qed (auto simp: pool_inv_def tasks_running_def)

lemma started_pool:
  assumes "start_thread_pool n (new_thread_pool name) = Some p"
  shows "pool_inv n p" "wakeups_kept (pool_cap mx) (pool_counts p)"
proof -
  have p: "tp_workers p = replicate n Worker_at_loop" "tp_queue p = []" "tp_callers p = []"
    "tp_accepted p = []" "tp_taken p = []" "tp_ran p = []" "tp_running p"
    using assms by (auto simp: start_thread_pool_def new_thread_pool_def)
  have "tasks_running (replicate n Worker_at_loop) = {#}" by (induction n) (simp_all add: tasks_running_def)
  then show "pool_inv n p" using p by (simp add: pool_inv_def)
  show "wakeups_kept (pool_cap mx) (pool_counts p)"
    by (simp add: wakeups_kept_def pool_counts_def p number_def)
qed

lemma pool_steps_inv: "(pool_step mx)\<^sup>*\<^sup>* p p' \<Longrightarrow> pool_inv n p \<Longrightarrow> pool_inv n p'"
  by (induction rule: rtranclp_induct) (auto intro: pool_step_inv)

subsection \<open>The properties\<close>

text \<open>C34: whatever the threads do in whatever order, tasks are taken in the order in which they were
  accepted, each is run by one worker and at most once, and the queue keeps its limit. When the pool
  runs and all its workers wait while no caller is on its way, every accepted task has been run and
  every call of \<open>run\<close> has returned.
\<close>

theorem thread_pool_sound:
  assumes "start_thread_pool n (new_thread_pool name) = Some p0" and "(pool_step mx)\<^sup>*\<^sup>* p0 p"
  shows "tp_accepted p = tp_taken p @ tp_queue p \<and>
    mset (tp_taken p) = mset (tp_ran p) + tasks_running (tp_workers p) \<and>
    (0 < mx \<longrightarrow> length (tp_queue p) \<le> mx) \<and>
    (0 < n \<and> list_all (\<lambda>w. w = Worker_waits) (tp_workers p) \<and>
      list_all (\<lambda>c. \<not> is_caller_wants c) (tp_callers p) \<longrightarrow>
      mset (tp_ran p) = mset (tp_accepted p) \<and> list_all (\<lambda>c. c = Caller_returned) (tp_callers p))"
proof -
  have inv: "pool_inv n p" using pool_steps_inv [OF assms(2)] started_pool(1) [OF assms(1)] by blast
  have kept: "wakeups_kept (pool_cap mx) (pool_counts p)"
    by (rule pool.steps_keep [OF assms(2)]) (rule started_pool [OF assms(1)])
  have "mset (tp_ran p) = mset (tp_accepted p)" "list_all (\<lambda>c. c = Caller_returned) (tp_callers p)"
    if w: "0 < n" "list_all (\<lambda>w. w = Worker_waits) (tp_workers p)"
      and c: "list_all (\<lambda>c. \<not> is_caller_wants c) (tp_callers p)"
  proof -
    have ws: "tp_workers p = replicate n Worker_waits"
      by (rule replicate_eqI) (use w(2) inv in \<open>simp_all add: list_all_iff pool_inv_def\<close>)
    have "ct_takers (pool_counts p) = 0" "ct_putters (pool_counts p) = 0"
      "0 < ct_takers_waiting (pool_counts p)"
      using c w(1) by (simp_all add: pool_counts_def ws number_def list_all_iff filter_empty_conv)
    note stuck = pool.nobody_stuck [OF assms(2) started_pool(2) [OF assms(1)] this(1,2)] this(3)
    then have q: "tp_queue p = []" by (auto simp: pool_counts_def)
    have "ct_putters_waiting (pool_counts p) = 0"
      using stuck by (auto simp: full_def pool_cap_def split: if_splits)
    then have none: "\<forall>c \<in> set (tp_callers p). \<not> is_caller_waits c" by (simp add: pool_counts_def number_zero)
    have "tasks_running (replicate n Worker_waits) = {#}" by (induction n) (simp_all add: tasks_running_def)
    then show "mset (tp_ran p) = mset (tp_accepted p)" using inv q by (simp add: pool_inv_def ws)
    have "d = Caller_returned" if "d \<in> set (tp_callers p)" for d
    proof -
      have "\<not> is_caller_waits d" "\<not> is_caller_wants d" using that none c by (auto simp: list_all_iff)
      then show ?thesis by (cases d) simp_all
    qed
    then show "list_all (\<lambda>c. c = Caller_returned) (tp_callers p)" by (simp add: list_all_iff)
  qed
  moreover have "0 < mx \<longrightarrow> length (tp_queue p) \<le> mx"
    using kept by (simp add: wakeups_kept_def pool_counts_def pool_cap_def)
  ultimately show ?thesis using inv by (simp add: pool_inv_def)
qed

text \<open>A pool of one worker, the state written with what changes.\<close>

abbreviation one_worker ::
    "bool \<Rightarrow> nat list \<Rightarrow> nat worker \<Rightarrow> nat caller list \<Rightarrow> nat list \<Rightarrow> nat list \<Rightarrow> nat thread_pool" where
  "one_worker running q w cs taken over \<equiv>
     \<lparr>tp_name = ''pool'', tp_running = running, tp_threads = [''pool1''], tp_queue = q,
      tp_workers = [w], tp_callers = cs, tp_accepted = taken @ q, tp_taken = taken, tp_ran = over\<rparr>"

lemma start_one_worker:
  "start_thread_pool 1 (new_thread_pool ''pool'') = Some (one_worker True [] Worker_at_loop [] [] [])"
proof -
  have "int_text 1 = ''1''" by code_simp
  then show ?thesis by (simp add: start_thread_pool_def new_thread_pool_def snprintf_text_def)
qed

lemma task_accepted:
  "(pool_step 1)\<^sup>*\<^sup>* (one_worker True [] Worker_at_loop [] [] [])
     (one_worker True [5] Worker_at_loop [Caller_returned] [] [])"
proof -
  have "pool_step 1 (one_worker True [] Worker_at_loop [] [] [])
      (one_worker True [] Worker_at_loop [Caller_wants 5] [] [])"
    using run_called [of "one_worker True [] Worker_at_loop [] [] []" 1 5] by simp
  moreover have "pool_step 1 (one_worker True [] Worker_at_loop [Caller_wants 5] [] [])
      (one_worker True [5] Worker_at_loop [Caller_returned] [] [])"
    using run_adds [of 0 5 "one_worker True [] Worker_at_loop [Caller_wants 5] [] []" 1 "[5]" "[Worker_at_loop]"]
      notify_none [of is_worker_waits "[Worker_at_loop :: nat worker]" wake_worker]
    by (simp add: at_caller_def run_pass_def isFull_def number_def)
  ultimately show ?thesis by simp
qed

lemma thread_pool_sound_witness:
  "tp_accepted (one_worker True [5] Worker_at_loop [Caller_returned] [] []) = [5] \<and>
   length (tp_queue (one_worker True [5] Worker_at_loop [Caller_returned] [] [])) \<le> 1"
  using thread_pool_sound [OF start_one_worker task_accepted] by simp

fun worker_rank :: "'a worker \<Rightarrow> nat" where
  "worker_rank Worker_left = 0"
| "worker_rank Worker_at_loop = 1"
| "worker_rank (Worker_runs t) = 2"
| "worker_rank Worker_takes = 3"
| "worker_rank Worker_waits = 4"

definition workers_rank :: "'a thread_pool \<Rightarrow> nat" where
  "workers_rank p = sum_list (map worker_rank (tp_workers p))"

lemma rank_set:
  assumes "at_worker i v p" and "worker_rank w < worker_rank v"
  shows "workers_rank (p\<lparr>tp_workers := (tp_workers p)[i := w]\<rparr>) < workers_rank p"
proof -
  have "i < length ws \<Longrightarrow> worker_rank w < worker_rank (ws ! i) \<Longrightarrow>
      sum_list (map worker_rank (ws[i := w])) < sum_list (map worker_rank ws)" for ws
  proof (induction ws arbitrary: i)
    case (Cons u ws)
    then show ?case by (cases i) auto
  qed simp
  then show ?thesis using assms by (simp add: at_worker_def workers_rank_def)
qed

lemma workers_rank_more: "tp_workers q = tp_workers p \<Longrightarrow> workers_rank q = workers_rank p"
  by (simp add: workers_rank_def)

lemma stopped_step:
  assumes "pool_step mx p p'" and "\<not> tp_running p" and "Worker_waits \<notin> set (tp_workers p)"
  shows "\<not> tp_running p' \<and> Worker_waits \<notin> set (tp_workers p') \<and>
    (tp_workers p' = tp_workers p \<or> workers_rank p' < workers_rank p)"
  using assms
proof cases
  case (run_adds i t q ws)
  then show ?thesis using assms(2,3) notify_workers_set(2) [OF run_adds(4)] by simp
next
  case (worker_leaves i)
  then show ?thesis using assms(2,3) rank_set [of i _ p Worker_left] by (auto dest!: set_worker_new)
next
  case (take_waits i)
  then show ?thesis using assms(2) by (simp add: take_task_simps)
next
  case (take_nothing i)
  then show ?thesis using assms(2,3) rank_set [of i _ p Worker_at_loop] by (auto dest!: set_worker_new)
next
  case (take_gets i t q cs)
  then show ?thesis
    using assms(2,3) rank_set [of i _ p "Worker_runs t"]
    by (auto simp: workers_rank_def dest!: set_worker_new)
next
  case (worker_wakes i)
  then have "Worker_waits \<in> set (tp_workers p)" unfolding at_worker_def by (metis nth_mem)
  then show ?thesis using assms(3) by simp
next
  case (task_ends i t)
  then show ?thesis
    using assms(2,3) rank_set [of i _ p Worker_at_loop]
    by (auto simp: workers_rank_def dest!: set_worker_new)
next
  case stop_called
  have "notifyAll is_worker_waits wake_worker ws = ws" if "Worker_waits \<notin> set ws" for ws :: "'a worker list"
    using that by (induction ws) (auto simp: notifyAll_def)
  then show ?thesis using stop_called assms(3) by simp
qed auto

lemma stopped_progress:
  assumes "\<not> tp_running p" and "Worker_waits \<notin> set (tp_workers p)"
    and "\<not> list_all (\<lambda>w. w = Worker_left) (tp_workers p)"
  shows "\<exists>p'. pool_step mx p p' \<and> workers_rank p' < workers_rank p"
proof -
  obtain i w where w: "at_worker i w p" "w \<noteq> Worker_left" "w \<noteq> Worker_waits"
    using assms(2,3) by (auto simp: list_all_iff in_set_conv_nth at_worker_def)
  show ?thesis
  proof (cases w)
    case Worker_at_loop
    then show ?thesis
      using worker_leaves [of i p mx] rank_set [OF w(1), of Worker_left] w(1) assms(1) by auto
  next
    case Worker_takes
    show ?thesis
    proof (cases "tp_queue p")
      case Nil
      then show ?thesis
        using take_nothing [of i p mx] rank_set [OF w(1), of Worker_at_loop] w(1) assms(1) Worker_takes
        by (auto simp: take_task_simps)
    next
      case (Cons t q)
      let ?p = "\<lambda>cs. (set_worker i (Worker_runs t) p)
          \<lparr>tp_queue := q, tp_callers := cs, tp_taken := tp_taken p @ [t]\<rparr>"
      have "\<exists>cs. if 0 < mx then notify is_caller_waits wake_caller (tp_callers p) cs else cs = tp_callers p"
        using notify_total [of is_caller_waits wake_caller "tp_callers p"] by auto
      then obtain cs where "pool_step mx p (?p cs)"
        using take_gets [of i p t q mx] w(1) Cons Worker_takes by (auto simp: take_task_simps)
      moreover have "workers_rank (?p cs) < workers_rank p" for cs
        using rank_set [OF w(1), of "Worker_runs t"] Worker_takes by (simp add: workers_rank_def)
      ultimately show ?thesis by blast
    qed
  next
    case (Worker_runs t)
    let ?p = "(set_worker i Worker_at_loop p)\<lparr>tp_ran := tp_ran p @ [t]\<rparr>"
    have "pool_step mx p ?p" using task_ends [of i t p mx] w(1) Worker_runs by simp
    moreover have "workers_rank ?p < workers_rank p"
      using rank_set [OF w(1), of Worker_at_loop] Worker_runs by (simp add: workers_rank_def)
    ultimately show ?thesis by blast
  qed (use w in simp_all)
qed

lemma stopped_ends:
  assumes "\<not> tp_running p" and "Worker_waits \<notin> set (tp_workers p)"
  shows "\<exists>p'. (pool_step mx)\<^sup>*\<^sup>* p p' \<and> list_all (\<lambda>w. w = Worker_left) (tp_workers p')"
  using assms
proof (induction p rule: measure_induct_rule [of workers_rank])
  case (less p)
  show ?case
  proof (cases "list_all (\<lambda>w. w = Worker_left) (tp_workers p)")
    case False
    obtain p1 where p1: "pool_step mx p p1" "workers_rank p1 < workers_rank p"
      using stopped_progress [OF less.prems False] by blast
    obtain p2 where "(pool_step mx)\<^sup>*\<^sup>* p1 p2" "list_all (\<lambda>w. w = Worker_left) (tp_workers p2)"
      using less.IH [OF p1(2)] stopped_step [OF p1(1) less.prems] by blast
    then show ?thesis using p1(1) by (meson converse_rtranclp_into_rtranclp)
  qed auto
qed

text \<open>C35: \<open>stop\<close> comes to an end: after it, every step of a worker brings the workers nearer to their end,
  no other step sets them back, and while a worker has not left some worker can make a step; so that
  after at most three steps of each worker all have left.
\<close>

theorem pool_stop_ends:
  assumes "start_thread_pool n (new_thread_pool name) = Some p0" and "(pool_step mx)\<^sup>*\<^sup>* p0 p"
    and "\<not> tp_running p"
  shows "workers_rank p \<le> 3 * n \<and>
    (\<forall>p'. pool_step mx p p' \<longrightarrow> \<not> tp_running p' \<and>
      (tp_workers p' = tp_workers p \<or> workers_rank p' < workers_rank p)) \<and>
    (list_all (\<lambda>w. w = Worker_left) (tp_workers p) \<or>
      (\<exists>p'. pool_step mx p p' \<and> workers_rank p' < workers_rank p)) \<and>
    (\<exists>p'. (pool_step mx)\<^sup>*\<^sup>* p p' \<and> list_all (\<lambda>w. w = Worker_left) (tp_workers p'))"
proof -
  have inv: "pool_inv n p" using pool_steps_inv [OF assms(2)] started_pool(1) [OF assms(1)] by blast
  then have w: "Worker_waits \<notin> set (tp_workers p)" using assms(3) by (simp add: pool_inv_def)
  have "Worker_waits \<notin> set ws \<Longrightarrow> sum_list (map worker_rank ws) \<le> 3 * length ws" for ws :: "'a worker list"
  proof (induction ws)
    case (Cons v ws)
    then show ?case by (cases v) auto
  qed simp
  then have "workers_rank p \<le> 3 * n" using inv w unfolding workers_rank_def pool_inv_def by metis
  then show ?thesis
    using stopped_step [OF _ assms(3) w] stopped_progress [OF assms(3) w] stopped_ends [OF assms(3) w]
    by blast
qed

lemma stopped_with_caller:
  "(pool_step 1)\<^sup>*\<^sup>* (one_worker True [] Worker_at_loop [] [] [])
     (one_worker False [5] Worker_left [Caller_returned, Caller_waits 6] [] [])"
proof -
  let ?p = "\<lambda>r w cs. one_worker r [5] w cs [] []"
  have "pool_step 1 (?p True Worker_at_loop [Caller_returned])
      (?p True Worker_at_loop [Caller_returned, Caller_wants 6])"
    using run_called [of "?p True Worker_at_loop [Caller_returned]" 1 6] by simp
  moreover have "pool_step 1 (?p True Worker_at_loop [Caller_returned, Caller_wants 6])
      (?p True Worker_at_loop [Caller_returned, Caller_waits 6])"
    using run_waits [of 1 6 "?p True Worker_at_loop [Caller_returned, Caller_wants 6]" 1]
    by (simp add: at_caller_def run_pass_def isFull_def)
  moreover have "pool_step 1 (?p True Worker_at_loop [Caller_returned, Caller_waits 6])
      (?p False Worker_at_loop [Caller_returned, Caller_waits 6])"
    using stop_called [of 1 "?p True Worker_at_loop [Caller_returned, Caller_waits 6]"]
    by (simp add: notifyAll_def)
  moreover have "pool_step 1 (?p False Worker_at_loop [Caller_returned, Caller_waits 6])
      (?p False Worker_left [Caller_returned, Caller_waits 6])"
    using worker_leaves [of 0 "?p False Worker_at_loop [Caller_returned, Caller_waits 6]" 1]
    by (simp add: at_worker_def)
  ultimately show ?thesis
    using task_accepted by (meson rtranclp.rtrancl_into_rtrancl)
qed

lemma pool_stop_ends_witness:
  "workers_rank (one_worker False [5] Worker_left [Caller_returned, Caller_waits 6] [] []) \<le> 3"
  using pool_stop_ends [OF start_one_worker stopped_with_caller] by simp

definition stranded :: "'a list \<Rightarrow> 'a \<Rightarrow> 'a thread_pool \<Rightarrow> bool" where
  "stranded q t p \<longleftrightarrow>
     \<not> tp_running p \<and> tp_workers p = [Worker_left] \<and> tp_queue p = q \<and> tp_ran p = [] \<and>
     length (tp_callers p) > 1 \<and> tp_callers p ! 1 \<in> {Caller_wants t, Caller_waits t}"

text \<open>Something has run, or the call has returned.\<close>

definition rescued :: "'a thread_pool \<Rightarrow> bool" where
  "rescued p \<longleftrightarrow> tp_ran p \<noteq> [] \<or> tp_callers p ! 1 = Caller_returned"

lemma stranded_waits: "stranded q t p \<Longrightarrow> \<not> rescued p"
  by (auto simp: stranded_def rescued_def)

lemma stranded_step:
  assumes "pool_step mx p p'" and "stranded q t p" and "isFull mx q"
  shows "stranded q t p'"
  using assms(1)
proof cases
  case (run_called u)
  then show ?thesis using assms(2) by (auto simp: stranded_def nth_append)
next
  case (run_waits i u)
  then show ?thesis
    using assms(2) by (cases "i = 1") (auto simp: stranded_def at_caller_def nth_list_update)
next
  case (caller_wakes i u)
  then show ?thesis
    using assms(2) by (cases "i = 1") (auto simp: stranded_def at_caller_def nth_list_update)
qed (use assms(2,3) in \<open>auto simp: stranded_def run_pass_simps at_worker_def notifyAll_def\<close>)

text \<open>C36: what was accepted may never run: after \<open>stop\<close> a worker leaves without a look at the queue, and
  since \<open>stop\<close> wakes no caller of \<open>run\<close>, a caller that waits for room waits for ever.
\<close>

theorem pool_stop_strands:
  "\<exists>p0 p. start_thread_pool 1 (new_thread_pool ''pool'') = Some p0 \<and> (pool_step 1)\<^sup>*\<^sup>* p0 p \<and>
    tp_accepted p = [5 :: nat] \<and> Caller_waits 6 \<in> set (tp_callers p) \<and>
    \<not> (\<exists>p'. (pool_step 1)\<^sup>*\<^sup>* p p' \<and> rescued p')"
proof -
  let ?p = "one_worker False [5] Worker_left [Caller_returned, Caller_waits 6] [] []"
  have str: "stranded [5] 6 p'" if "(pool_step 1)\<^sup>*\<^sup>* ?p p'" for p'
    using that
  proof (induction rule: rtranclp_induct)
    case (step q r)
    then show ?case using stranded_step [of 1 q r "[5]" 6] by (simp add: isFull_def)
  qed (simp add: stranded_def)
  have never: "\<not> (\<exists>p'. (pool_step 1)\<^sup>*\<^sup>* ?p p' \<and> rescued p')"
  proof
    assume "\<exists>p'. (pool_step 1)\<^sup>*\<^sup>* ?p p' \<and> rescued p'"
    then obtain p' where p': "(pool_step 1)\<^sup>*\<^sup>* ?p p'" "rescued p'"
      by (elim exE conjE)
    show False using p'(2) stranded_waits [OF str [OF p'(1)]] by simp
  qed
  have "tp_accepted ?p = [5]" "Caller_waits 6 \<in> set (tp_callers ?p)" by simp_all
  from start_one_worker stopped_with_caller this never show ?thesis
    by (intro exI [of _ ?p] exI [of _ "one_worker True [] Worker_at_loop [] [] []"] conjI)
qed

end
