(* ===== verification/Thread_Start.thy ===== *)
theory Thread_Start
  imports Monitor_Queue
begin

text \<open>
  Two more monitors of muduo: \<open>CountDownLatch\<close>, for which any number of threads wait until it is
  counted down, and \<open>EventLoopThread\<close>, whose \<open>startLoop\<close> waits until the new thread has made its loop.
  Then \<open>Thread\<close> of \<^verbatim>\<open>muduo/base/Thread.cc\<close>, which starts them.
\<close>

subsection \<open>CountDownLatch\<close>

datatype latch_waiter = Latch_tests | Latch_waits | Latch_returned

record latch =
  la_count :: int
  la_waiters :: "latch_waiter list"

definition new_latch :: "int \<Rightarrow> latch" where
  "new_latch count = \<lparr>la_count = count, la_waiters = []\<rparr>"

text \<open>One pass of the loop of \<open>wait\<close>.\<close>

definition latch_pass :: "int \<Rightarrow> latch_waiter" where
  "latch_pass count = (if 0 < count then Latch_waits else Latch_returned)"

abbreviation latch_waiting :: "latch_waiter \<Rightarrow> bool" where
  "latch_waiting w \<equiv> w = Latch_waits"

definition wake_waiter :: "latch_waiter \<Rightarrow> latch_waiter" where
  "wake_waiter w = Latch_tests"

definition countDown :: "latch \<Rightarrow> latch" where
  "countDown l =
     (let l = l\<lparr>la_count := la_count l - 1\<rparr> in
      if la_count l = 0 then l\<lparr>la_waiters := notifyAll latch_waiting wake_waiter (la_waiters l)\<rparr> else l)"

inductive latch_step :: "latch \<Rightarrow> latch \<Rightarrow> bool" where
  wait_called: "latch_step l (l\<lparr>la_waiters := la_waiters l @ [Latch_tests]\<rparr>)"
| wait_passes: "i < length (la_waiters l) \<Longrightarrow> la_waiters l ! i = Latch_tests \<Longrightarrow>
    latch_step l (l\<lparr>la_waiters := (la_waiters l)[i := latch_pass (la_count l)]\<rparr>)"
| waiter_wakes: "i < length (la_waiters l) \<Longrightarrow> la_waiters l ! i = Latch_waits \<Longrightarrow>
    latch_step l (l\<lparr>la_waiters := (la_waiters l)[i := wake_waiter Latch_waits]\<rparr>)"
| counted_down: "latch_step l (countDown l)"

definition latch_inv :: "latch \<Rightarrow> bool" where
  "latch_inv l \<longleftrightarrow>
     (la_count l \<le> 0 \<longrightarrow> Latch_waits \<notin> set (la_waiters l)) \<and>
     (0 < la_count l \<longrightarrow> Latch_returned \<notin> set (la_waiters l))"

lemma set_waiter: "v \<in> set (ws[i := w]) \<Longrightarrow> v = w \<or> v \<in> set ws"
  using set_update_subset_insert [of ws i w] by auto

lemma latch_step_inv: "latch_step l l' \<Longrightarrow> latch_inv l \<Longrightarrow> latch_inv l'"
proof (induction rule: latch_step.induct)
  case (counted_down l)
  then show ?case
    by (auto simp: countDown_def Let_def latch_inv_def notifyAll_def wake_waiter_def)
qed (auto simp: latch_inv_def latch_pass_def wake_waiter_def dest!: set_waiter split: if_splits)

lemma new_latch_inv: "latch_inv (new_latch n)"
  by (simp add: new_latch_def latch_inv_def)

text \<open>No thread returns from \<open>wait\<close> before the latch has been counted down to zero, and from then on no
  thread waits, whoever waits and counts down in whatever order.
\<close>

theorem latch_opens:
  assumes "latch_step\<^sup>*\<^sup>* (new_latch n) l"
  shows "(Latch_returned \<in> set (la_waiters l) \<longrightarrow> la_count l \<le> 0) \<and>
    (Latch_waits \<in> set (la_waiters l) \<longrightarrow> 0 < la_count l)"
proof -
  have "latch_inv l"
    using assms by (induction rule: rtranclp_induct) (auto intro: new_latch_inv latch_step_inv)
  then show ?thesis by (auto simp: latch_inv_def not_less)
qed

lemma latch_opens_witness:
  "latch_step\<^sup>*\<^sup>* (new_latch 1) \<lparr>la_count = 0, la_waiters = [Latch_returned]\<rparr> \<and>
   la_count \<lparr>la_count = 0, la_waiters = [Latch_returned]\<rparr> \<le> 0"
proof -
  let ?l = "\<lambda>c w. \<lparr>la_count = c, la_waiters = w\<rparr>"
  have "latch_step (new_latch 1) (?l 1 [Latch_tests])" "latch_step (?l 1 [Latch_tests]) (?l 1 [Latch_waits])"
    "latch_step (?l 1 [Latch_waits]) (?l 0 [Latch_tests])" "latch_step (?l 0 [Latch_tests]) (?l 0 [Latch_returned])"
    using wait_called [of "new_latch 1"] wait_passes [of 0 "?l 1 [Latch_tests]"]
      counted_down [of "?l 1 [Latch_waits]"] wait_passes [of 0 "?l 0 [Latch_tests]"]
    by (simp_all add: new_latch_def latch_pass_def countDown_def notifyAll_def wake_waiter_def)
  then have steps: "latch_step\<^sup>*\<^sup>* (new_latch 1) (?l 0 [Latch_returned])"
    by (meson rtranclp.rtrancl_refl rtranclp.rtrancl_into_rtrancl)
  show ?thesis using steps latch_opens [OF steps] by simp
qed

subsection \<open>EventLoopThread\<close>

text \<open>
  The new thread makes its loop, runs the callback, publishes the loop under the mutex, and takes it
  back, without the mutex, when the loop ends. \<open>startLoop\<close> reads the pointer once more after it has
  left its loop.
\<close>

datatype loop_thread_state = Thread_not_started | Thread_makes_loop | Thread_loops | Thread_ended

datatype starter = Starter_not_called | Starter_tests | Starter_waits | Starter_leaves | Starter_returned bool

record loop_thread =
  lt_loop :: bool
  lt_thread :: loop_thread_state
  lt_starter :: starter

definition new_loop_thread :: loop_thread where
  "new_loop_thread = \<lparr>lt_loop = False, lt_thread = Thread_not_started, lt_starter = Starter_not_called\<rparr>"

definition wake_starter :: "starter \<Rightarrow> starter" where
  "wake_starter s = (if s = Starter_waits then Starter_tests else s)"

definition startLoop :: "loop_thread \<Rightarrow> loop_thread option" where
  "startLoop t = do {
     C_assert (lt_thread t = Thread_not_started);
     Some (t\<lparr>lt_thread := Thread_makes_loop, lt_starter := Starter_tests\<rparr>)
   }"

definition startLoop_pass :: "loop_thread \<Rightarrow> loop_thread" where
  "startLoop_pass t = t\<lparr>lt_starter := (if \<not> lt_loop t then Starter_waits else Starter_leaves)\<rparr>"

definition publish_loop :: "loop_thread \<Rightarrow> loop_thread" where
  "publish_loop t = t\<lparr>lt_loop := True, lt_thread := Thread_loops, lt_starter := wake_starter (lt_starter t)\<rparr>"

inductive loop_thread_step :: "bool \<Rightarrow> loop_thread \<Rightarrow> loop_thread \<Rightarrow> bool" for may_end where
  loop_started: "lt_starter t = Starter_not_called \<Longrightarrow> startLoop t = Some t' \<Longrightarrow> loop_thread_step may_end t t'"
| loop_tested: "lt_starter t = Starter_tests \<Longrightarrow> loop_thread_step may_end t (startLoop_pass t)"
| starter_wakes: "lt_starter t = Starter_waits \<Longrightarrow>
    loop_thread_step may_end t (t\<lparr>lt_starter := wake_starter (lt_starter t)\<rparr>)"
| starter_returns: "lt_starter t = Starter_leaves \<Longrightarrow>
    loop_thread_step may_end t (t\<lparr>lt_starter := Starter_returned (lt_loop t)\<rparr>)"
| loop_published: "lt_thread t = Thread_makes_loop \<Longrightarrow> loop_thread_step may_end t (publish_loop t)"
| loop_ends: "may_end \<Longrightarrow> lt_thread t = Thread_loops \<Longrightarrow>
    loop_thread_step may_end t (t\<lparr>lt_loop := False, lt_thread := Thread_ended\<rparr>)"

definition loop_thread_inv :: "loop_thread \<Rightarrow> bool" where
  "loop_thread_inv t \<longleftrightarrow>
     (lt_thread t = Thread_not_started \<longleftrightarrow> lt_starter t = Starter_not_called) \<and>
     lt_thread t \<noteq> Thread_ended \<and> (lt_loop t \<longleftrightarrow> lt_thread t = Thread_loops) \<and>
     (lt_starter t = Starter_tests \<longrightarrow> lt_thread t \<in> {Thread_makes_loop, Thread_loops}) \<and>
     (lt_starter t = Starter_waits \<longrightarrow> lt_thread t = Thread_makes_loop) \<and>
     (lt_starter t = Starter_leaves \<longrightarrow> lt_thread t = Thread_loops) \<and>
     lt_starter t \<noteq> Starter_returned False \<and>
     (lt_starter t = Starter_returned True \<longrightarrow> lt_thread t = Thread_loops)"

lemma loop_thread_step_inv:
  "loop_thread_step False t t' \<Longrightarrow> loop_thread_inv t \<Longrightarrow> loop_thread_inv t'"
  by (induction rule: loop_thread_step.induct)
    (auto simp: loop_thread_inv_def startLoop_def startLoop_pass_def publish_loop_def wake_starter_def
      split: if_splits)

lemma new_loop_thread_inv: "loop_thread_inv new_loop_thread"
  by (simp add: new_loop_thread_def loop_thread_inv_def)

text \<open>While the loop of the new thread does not end, \<open>startLoop\<close> waits only as long as the thread has yet
  to publish its loop, which wakes it, and what it returns is the loop.
\<close>

theorem loop_thread_starts:
  assumes "(loop_thread_step False)\<^sup>*\<^sup>* new_loop_thread t"
  shows "(lt_starter t = Starter_waits \<longrightarrow>
       loop_thread_step False t (publish_loop t) \<and> lt_starter (publish_loop t) = Starter_tests) \<and>
     lt_starter t \<noteq> Starter_returned False"
proof -
  have "loop_thread_inv t"
    using assms by (induction rule: rtranclp_induct) (auto intro: new_loop_thread_inv loop_thread_step_inv)
  moreover have "lt_starter (publish_loop t) = wake_starter (lt_starter t)" by (simp add: publish_loop_def)
  ultimately show ?thesis
    using loop_published [of t False] by (auto simp: loop_thread_inv_def wake_starter_def)
qed

abbreviation loop_thread_at :: "bool \<Rightarrow> loop_thread_state \<Rightarrow> starter \<Rightarrow> loop_thread" where
  "loop_thread_at l th st \<equiv> \<lparr>lt_loop = l, lt_thread = th, lt_starter = st\<rparr>"

lemma loop_thread_steps:
  "loop_thread_step e new_loop_thread (loop_thread_at False Thread_makes_loop Starter_tests)"
  "loop_thread_step e (loop_thread_at False Thread_makes_loop st) (loop_thread_at True Thread_loops (wake_starter st))"
  "loop_thread_step e (loop_thread_at True th Starter_tests) (loop_thread_at True th Starter_leaves)"
  "loop_thread_step e (loop_thread_at False th Starter_tests) (loop_thread_at False th Starter_waits)"
  "loop_thread_step e (loop_thread_at l th Starter_leaves) (loop_thread_at l th (Starter_returned l))"
  "loop_thread_step True (loop_thread_at True Thread_loops st) (loop_thread_at False Thread_ended st)"
  using loop_started [of new_loop_thread "loop_thread_at False Thread_makes_loop Starter_tests" e]
    loop_published [of "loop_thread_at False Thread_makes_loop st" e]
    loop_tested [of "loop_thread_at True th Starter_tests" e]
    loop_tested [of "loop_thread_at False th Starter_tests" e]
    starter_returns [of "loop_thread_at l th Starter_leaves" e]
    loop_ends [of True "loop_thread_at True Thread_loops st"]
  by (simp_all add: new_loop_thread_def startLoop_def publish_loop_def startLoop_pass_def)

lemma loop_thread_starts_witness:
  "(loop_thread_step False)\<^sup>*\<^sup>* new_loop_thread (loop_thread_at False Thread_makes_loop Starter_waits) \<and>
   loop_thread_step False (loop_thread_at False Thread_makes_loop Starter_waits)
     (publish_loop (loop_thread_at False Thread_makes_loop Starter_waits))"
proof -
  have "(loop_thread_step False)\<^sup>*\<^sup>* new_loop_thread (loop_thread_at False Thread_makes_loop Starter_waits)"
    by (meson loop_thread_steps(1,4) rtranclp.rtrancl_refl rtranclp.rtrancl_into_rtrancl)
  from loop_thread_starts [OF this] this show ?thesis by simp
qed

text \<open>If the loop of the new thread ends too early, \<open>startLoop\<close> may return a null pointer, or wait
  for ever.
\<close>

theorem loop_thread_race:
  "(loop_thread_step True)\<^sup>*\<^sup>* new_loop_thread (loop_thread_at False Thread_ended (Starter_returned False)) \<and>
   (loop_thread_step True)\<^sup>*\<^sup>* new_loop_thread (loop_thread_at False Thread_ended Starter_waits) \<and>
   \<not> (\<exists>t l. (loop_thread_step True)\<^sup>*\<^sup>* (loop_thread_at False Thread_ended Starter_waits) t \<and>
     lt_starter t = Starter_returned l)"
proof (intro conjI notI)
  have looping: "(loop_thread_step True)\<^sup>*\<^sup>* new_loop_thread (loop_thread_at True Thread_loops Starter_tests)"
    using loop_thread_steps(1) [of True] loop_thread_steps(2) [of True Starter_tests]
    by (simp add: wake_starter_def)
  note into = rtranclp.rtrancl_into_rtrancl [of "loop_thread_step True"]
  show "(loop_thread_step True)\<^sup>*\<^sup>* new_loop_thread (loop_thread_at False Thread_ended (Starter_returned False))"
    by (rule into [OF into [OF into [OF looping]]]) (rule loop_thread_steps)+
  show "(loop_thread_step True)\<^sup>*\<^sup>* new_loop_thread (loop_thread_at False Thread_ended Starter_waits)"
    by (rule into [OF into [OF looping]]) (rule loop_thread_steps)+
  assume "\<exists>t l. (loop_thread_step True)\<^sup>*\<^sup>* (loop_thread_at False Thread_ended Starter_waits) t \<and>
     lt_starter t = Starter_returned l"
  then obtain t l where t: "(loop_thread_step True)\<^sup>*\<^sup>* (loop_thread_at False Thread_ended Starter_waits) t"
    "lt_starter t = Starter_returned l"
    by blast
  from t(1) have "lt_loop t = False \<and> lt_thread t = Thread_ended \<and> lt_starter t \<in> {Starter_waits, Starter_tests}"
  proof (induction rule: rtranclp_induct)
    case (step u v)
    from step(2) show ?case
      by cases (use step(3) in \<open>auto simp: startLoop_pass_def wake_starter_def\<close>)
  qed simp
  then show False using t(2) by simp
qed

subsection \<open>\<open>Thread\<close>\<close>

text \<open>
  The object that owns a thread of the system. \<open>thr_tid\<close> is the number that the thread stores when it
  begins, if the object is still there. The process counts the objects to name them.
\<close>

record thread_object =
  thr_started :: bool
  thr_joined :: bool
  thr_tid :: int
  thr_name :: string

definition default_thread_name :: "int \<Rightarrow> string \<Rightarrow> string" where
  "default_thread_name num name = (if name = [] then snprintf_text 32 (''Thread'' @ int_text num) else name)"

definition new_thread_object :: "int \<Rightarrow> string \<Rightarrow> int \<times> thread_object" where
  "new_thread_object numCreated n =
     (let num = numCreated + 1 in
      (num, \<lparr>thr_started = False, thr_joined = False, thr_tid = 0, thr_name = default_thread_name num n\<rparr>))"

text \<open>If \<open>pthread_create\<close> fails the process ends: \<open>None\<close>, as for a failed \<open>assert\<close>.\<close>

definition thread_start :: "bool \<Rightarrow> thread_object \<Rightarrow> thread_object option" where
  "thread_start created t = do {
     C_assert (\<not> thr_started t);
     let t = t\<lparr>thr_started := True\<rparr>;
     if created then Some t else None
   }"

definition thread_join :: "thread_object \<Rightarrow> thread_object option" where
  "thread_join t = do {
     C_assert (thr_started t);
     C_assert (\<not> thr_joined t);
     Some (t\<lparr>thr_joined := True\<rparr>)
   }"

text \<open>Whether the destructor detaches the thread.\<close>

definition thread_destroy :: "thread_object \<Rightarrow> bool" where
  "thread_destroy t \<longleftrightarrow> thr_started t \<and> \<not> thr_joined t"

datatype thread_end = Returns | Throws_Exception | Throws_std | Throws_other

text \<open>
  \<open>runInThread\<close>: the object, if it is still there, the names the thread has one after the other, and
  whether the process is ended; an unknown exception is thrown again, and nothing catches it.
\<close>

definition runInThread ::
    "int \<Rightarrow> string \<Rightarrow> thread_end \<Rightarrow> thread_object option \<Rightarrow> thread_object option \<times> string list \<times> bool" where
  "runInThread tid name e object =
     (let object = map_option (\<lambda>t. t\<lparr>thr_tid := tid\<rparr>) object;
          running = (if name = [] then ''muduoThread'' else name)
      in case e of
           Returns \<Rightarrow> (object, [running, ''finished''], False)
         | Throws_Exception \<Rightarrow> (object, [running, ''crashed''], True)
         | Throws_std \<Rightarrow> (object, [running, ''crashed''], True)
         | Throws_other \<Rightarrow> (object, [running, ''crashed''], True))"

datatype thread_op = Th_start bool | Th_runs int thread_end | Th_join

fun thread_do :: "thread_op \<Rightarrow> thread_object \<Rightarrow> thread_object option" where
  "thread_do (Th_start created) t = thread_start created t"
| "thread_do (Th_runs tid e) t =
     (case runInThread tid (thr_name t) e (Some t) of
        (Some t', _, aborts) \<Rightarrow> if aborts then None else Some t'
      | (None, _, _) \<Rightarrow> None)"
| "thread_do Th_join t = thread_join t"

definition count_ops :: "(thread_op \<Rightarrow> bool) \<Rightarrow> thread_op list \<Rightarrow> nat" where
  "count_ops p ops = length (filter p ops)"

definition is_start :: "thread_op \<Rightarrow> bool" where
  "is_start op \<longleftrightarrow> (case op of Th_start _ \<Rightarrow> True | _ \<Rightarrow> False)"

lemma thread_run_counts:
  assumes "run_all thread_do ops t = Some t'"
  shows "(if thr_started t' then 1 else 0) = (if thr_started t then 1 else 0) + count_ops is_start ops \<and>
    (if thr_joined t' then 1 else 0) = (if thr_joined t then 1 else 0) + count_ops ((=) Th_join) ops \<and>
    thr_name t' = thr_name t \<and> ((thr_joined t \<longrightarrow> thr_started t) \<longrightarrow> thr_joined t' \<longrightarrow> thr_started t')"
  using assms
proof (induction ops arbitrary: t)
  case (Cons op ops)
  then obtain s where s: "thread_do op t = Some s" "run_all thread_do ops s = Some t'"
    by (auto split: bind_splits)
  note ih = Cons.IH [OF s(2)]
  show ?case
  proof (cases op)
    case (Th_start created)
    then have "\<not> thr_started t" "s = t\<lparr>thr_started := True\<rparr>"
      using s(1) by (auto simp: thread_start_def Let_def split: bind_splits if_splits)
    then show ?thesis using ih Th_start by (simp add: count_ops_def is_start_def)
  next
    case Th_join
    then have "\<not> thr_joined t" "thr_started t" "s = t\<lparr>thr_joined := True\<rparr>"
      using s(1) by (auto simp: thread_join_def split: bind_splits if_splits)
    then show ?thesis using ih Th_join by (simp add: count_ops_def is_start_def)
  next
    case (Th_runs tid e)
    then have "s = t\<lparr>thr_tid := tid\<rparr>"
      using s(1) by (cases e) (simp_all add: runInThread_def)
    then show ?thesis using ih Th_runs by (simp add: count_ops_def is_start_def)
  qed
qed (simp add: count_ops_def)

text \<open>Over the life of an object, with any calls that fail no assertion, the thread of the system is created
  at most once, and given back as often as it was created: joined, or detached by the destructor. Objects
  without a name get different names.
\<close>

theorem thread_given_back:
  assumes "run_all thread_do ops (snd (new_thread_object n name)) = Some t"
  shows "count_ops is_start ops \<le> 1 \<and>
    count_ops ((=) Th_join) ops + (if thread_destroy t then 1 else 0) = count_ops is_start ops"
proof -
  have "\<not> thr_started (snd (new_thread_object n name))" "\<not> thr_joined (snd (new_thread_object n name))"
    by (simp_all add: new_thread_object_def Let_def)
  then show ?thesis
    using thread_run_counts [OF assms] by (auto simp: thread_destroy_def split: if_splits)
qed

lemma thread_given_back_witness:
  "count_ops ((=) Th_join) [Th_start True, Th_runs 7 Returns] + 1 =
     count_ops is_start [Th_start True, Th_runs 7 Returns]"
proof -
  have "run_all thread_do [Th_start True, Th_runs 7 Returns] (snd (new_thread_object 0 [])) =
      Some \<lparr>thr_started = True, thr_joined = False, thr_tid = 7, thr_name = ''Thread1''\<rparr>"
    by code_simp
  from thread_given_back [OF this] show ?thesis by (simp add: thread_destroy_def)
qed

lemma thread_names_differ:
  assumes "\<bar>m\<bar> < 2 ^ 31" and "\<bar>n\<bar> < 2 ^ 31" and "m \<noteq> n"
  shows "default_thread_name m [] \<noteq> default_thread_name n []"
proof -
  have "take 25 (int_text i) = int_text i" if "\<bar>i\<bar> < 2 ^ 31" for i
    using int_text_length [of i 10] that by simp
  moreover have "int_text m \<noteq> int_text n" using assms(3) by (metis int_text_value)
  ultimately show ?thesis using assms(1,2) by (simp add: default_thread_name_def snprintf_text_def)
qed

end
