(* ===== verification/Rpc_Channel.thy ===== *)
theory Rpc_Channel
  imports Muduo_Prelude "HOL-Library.Word" "HOL-Library.Multiset"
begin

text \<open>
  \<open>RpcChannel\<close> of \<^verbatim>\<open>muduo/net/protorpc\<close>: calls of remote methods over one connection, several of which
  may be under way. Serialized requests and responses are byte strings. A service is represented by
  what the channel asks of it: which methods it has, and which requests each can parse; what the
  application answers, and when, comes with the steps. A response object of a caller is a number.
\<close>

datatype rpc_error =
  NO_ERROR | WRONG_PROTO | NO_SERVICE | NO_METHOD | INVALID_REQUEST | INVALID_RESPONSE | TIMEOUT

datatype rpc_type = REQUEST | RESPONSE | ERROR

record rpc_message =
  rm_type :: rpc_type
  rm_id :: "64 word"
  rm_service :: "string option"
  rm_method :: "string option"
  rm_request :: "string option"
  rm_response :: "string option"
  rm_error :: "rpc_error option"

definition empty_message :: "rpc_type \<Rightarrow> 64 word \<Rightarrow> rpc_message" where
  "empty_message ty i =
     \<lparr>rm_type = ty, rm_id = i, rm_service = None, rm_method = None, rm_request = None,
      rm_response = None, rm_error = None\<rparr>"

text \<open>A field that is not set reads as the empty string.\<close>

definition field_text :: "string option \<Rightarrow> string" where
  "field_text x = (case x of None \<Rightarrow> [] | Some t \<Rightarrow> t)"

type_synonym rpc_service = "string \<Rightarrow> (string \<Rightarrow> bool) option"

record outstanding_call =
  oc_response :: "nat option"
  oc_done :: bool

datatype channel_event = Response_parsed nat string | Done_run nat | Response_deleted nat

record pending_call =
  pc_id :: "64 word"
  pc_service :: string
  pc_method :: string
  pc_request :: string

record rpc_channel =
  ch_id :: "64 word"
  ch_outstandings :: "(64 word \<times> outstanding_call) list"
  ch_services :: "(string \<Rightarrow> rpc_service option) option"
  ch_pending :: "pending_call list"
  ch_events :: "channel_event list"

definition new_rpc_channel :: "(string \<Rightarrow> rpc_service option) option \<Rightarrow> rpc_channel" where
  "new_rpc_channel services =
     \<lparr>ch_id = 0, ch_outstandings = [], ch_services = services, ch_pending = [], ch_events = []\<rparr>"

text \<open>\<open>std::map\<close> from ids to calls, whose order is not used: assignment and erasure.\<close>

definition calls_assign :: "64 word \<Rightarrow> outstanding_call \<Rightarrow> (64 word \<times> outstanding_call) list \<Rightarrow>
    (64 word \<times> outstanding_call) list" where
  "calls_assign i c m = (i, c) # filter (\<lambda>e. fst e \<noteq> i) m"

definition calls_erase :: "64 word \<Rightarrow> (64 word \<times> outstanding_call) list \<Rightarrow> (64 word \<times> outstanding_call) list" where
  "calls_erase i m = filter (\<lambda>e. fst e \<noteq> i) m"

definition CallMethod :: "string \<Rightarrow> string \<Rightarrow> string \<Rightarrow> outstanding_call \<Rightarrow> rpc_channel \<Rightarrow> rpc_message \<times> rpc_channel" where
  "CallMethod service meth request out c =
     (let i = ch_id c + 1;
          message = (empty_message REQUEST i)
            \<lparr>rm_service := Some service, rm_method := Some meth, rm_request := Some request\<rparr>
      in (message, c\<lparr>ch_id := i, ch_outstandings := calls_assign i out (ch_outstandings c)\<rparr>))"

definition finish_call :: "rpc_message \<Rightarrow> outstanding_call \<Rightarrow> channel_event list" where
  "finish_call message out = (case oc_response out of
     None \<Rightarrow> []
   | Some r \<Rightarrow>
       (case rm_response message of Some t \<Rightarrow> [Response_parsed r t] | None \<Rightarrow> []) @
       (if oc_done out then [Done_run r] else []) @ [Response_deleted r])"

definition find_method :: "rpc_message \<Rightarrow> rpc_channel \<Rightarrow> rpc_error" where
  "find_method message c = (case ch_services c of
     None \<Rightarrow> NO_SERVICE
   | Some services \<Rightarrow> (case services (field_text (rm_service message)) of
       None \<Rightarrow> NO_SERVICE
     | Some service \<Rightarrow> (case service (field_text (rm_method message)) of
         None \<Rightarrow> NO_METHOD
       | Some parses \<Rightarrow> if parses (field_text (rm_request message)) then NO_ERROR else INVALID_REQUEST)))"

definition onRpcMessage :: "rpc_message \<Rightarrow> rpc_channel \<Rightarrow> (rpc_message list \<times> rpc_channel) option" where
  "onRpcMessage message c = (case rm_type message of
     RESPONSE \<Rightarrow> do {
       C_assert (rm_response message \<noteq> None \<or> rm_error message \<noteq> None);
       case map_of (ch_outstandings c) (rm_id message) of
         Some out \<Rightarrow>
           Some ([], c\<lparr>ch_outstandings := calls_erase (rm_id message) (ch_outstandings c),
                      ch_events := ch_events c @ finish_call message out\<rparr>)
       | None \<Rightarrow> Some ([], c)
     }
   | REQUEST \<Rightarrow>
       let error = find_method message c in
       if error = NO_ERROR then
         Some ([], c\<lparr>ch_pending := ch_pending c @
           [\<lparr>pc_id = rm_id message, pc_service = field_text (rm_service message),
             pc_method = field_text (rm_method message), pc_request = field_text (rm_request message)\<rparr>]\<rparr>)
       else Some ([(empty_message RESPONSE (rm_id message))\<lparr>rm_error := Some error\<rparr>], c)
   | ERROR \<Rightarrow> Some ([], c))"

text \<open>The application answers the pending call \<open>j\<close>, which runs \<open>doneCallback\<close>.\<close>

definition doneCallback :: "string \<Rightarrow> 64 word \<Rightarrow> rpc_message" where
  "doneCallback response i = (empty_message RESPONSE i)\<lparr>rm_response := Some response\<rparr>"

definition answer_pending :: "nat \<Rightarrow> string \<Rightarrow> rpc_channel \<Rightarrow> rpc_message \<times> rpc_channel" where
  "answer_pending j response c =
     (doneCallback response (pc_id (ch_pending c ! j)),
      c\<lparr>ch_pending := take j (ch_pending c) @ drop (Suc j) (ch_pending c)\<rparr>)"

subsection \<open>Two channels\<close>

text \<open>
  A client and a server, with the messages that are on their way in both directions: the codec and the
  connection deliver them in order. The application answers a call by its service, method and request.
\<close>

record rpc_system =
  rs_client :: rpc_channel
  rs_server :: rpc_channel
  rs_to_server :: "rpc_message list"
  rs_to_client :: "rpc_message list"
  rs_calls :: "(string \<times> string \<times> string) list"

definition new_rpc_system :: "(string \<Rightarrow> rpc_service option) option \<Rightarrow> rpc_system" where
  "new_rpc_system services =
     \<lparr>rs_client = new_rpc_channel None, rs_server = new_rpc_channel services, rs_to_server = [],
      rs_to_client = [], rs_calls = []\<rparr>"

datatype rpc_op = Rpc_call string string string | Rpc_to_server | Rpc_answer nat | Rpc_to_client

fun rpc_do :: "(string \<Rightarrow> string \<Rightarrow> string \<Rightarrow> string) \<Rightarrow> rpc_op \<Rightarrow> rpc_system \<Rightarrow> rpc_system option" where
  "rpc_do answer (Rpc_call s m q) y =
     (let out = \<lparr>oc_response = Some (length (rs_calls y)), oc_done = True\<rparr>;
          (msg, c) = CallMethod s m q out (rs_client y)
      in Some (y\<lparr>rs_client := c, rs_to_server := rs_to_server y @ [msg], rs_calls := rs_calls y @ [(s, m, q)]\<rparr>))"
| "rpc_do answer Rpc_to_server y =
     (case rs_to_server y of
        [] \<Rightarrow> Some y
      | msg # rest \<Rightarrow> do {
          (sent, c) \<leftarrow> onRpcMessage msg (rs_server y);
          Some (y\<lparr>rs_server := c, rs_to_server := rest, rs_to_client := rs_to_client y @ sent\<rparr>)
        })"
| "rpc_do answer (Rpc_answer j) y =
     (if j < length (ch_pending (rs_server y)) then
        let p = ch_pending (rs_server y) ! j;
            (msg, c) = answer_pending j (answer (pc_service p) (pc_method p) (pc_request p)) (rs_server y)
        in Some (y\<lparr>rs_server := c, rs_to_client := rs_to_client y @ [msg]\<rparr>)
      else Some y)"
| "rpc_do answer Rpc_to_client y =
     (case rs_to_client y of
        [] \<Rightarrow> Some y
      | msg # rest \<Rightarrow> do {
          (sent, c) \<leftarrow> onRpcMessage msg (rs_client y);
          Some (y\<lparr>rs_client := c, rs_to_client := rest, rs_to_server := rs_to_server y @ sent\<rparr>)
        })"

definition rpc_run :: "(string \<Rightarrow> string \<Rightarrow> string \<Rightarrow> string) \<Rightarrow> rpc_op list \<Rightarrow> rpc_system \<Rightarrow> rpc_system option" where
  "rpc_run answer = run_all (rpc_do answer)"

subsection \<open>What a call comes to\<close>

type_synonym rpc_call = "string \<times> string \<times> string"

fun outcome :: "(string \<Rightarrow> rpc_service option) option \<Rightarrow> (string \<Rightarrow> string \<Rightarrow> string \<Rightarrow> string) \<Rightarrow>
    rpc_call \<Rightarrow> rpc_error + string" where
  "outcome services answer (s, m, q) = (case Option.bind services (\<lambda>f. f s) of
     None \<Rightarrow> Inl NO_SERVICE
   | Some service \<Rightarrow> (case service m of
       None \<Rightarrow> Inl NO_METHOD
     | Some parses \<Rightarrow> if parses q then Inr (answer s m q) else Inl INVALID_REQUEST))"

definition call_id :: "nat \<Rightarrow> 64 word" where
  "call_id i = of_nat i + 1"

fun request_of :: "nat \<Rightarrow> rpc_call \<Rightarrow> rpc_message" where
  "request_of i (s, m, q) =
     (empty_message REQUEST (call_id i))\<lparr>rm_service := Some s, rm_method := Some m, rm_request := Some q\<rparr>"

fun pending_of :: "nat \<Rightarrow> rpc_call \<Rightarrow> pending_call" where
  "pending_of i (s, m, q) = \<lparr>pc_id = call_id i, pc_service = s, pc_method = m, pc_request = q\<rparr>"

fun response_of :: "nat \<Rightarrow> rpc_error + string \<Rightarrow> rpc_message" where
  "response_of i (Inl e) = (empty_message RESPONSE (call_id i))\<lparr>rm_error := Some e\<rparr>"
| "response_of i (Inr t) = doneCallback t (call_id i)"

text \<open>A caller learns the answer; of an error it learns only that the call is over.\<close>

fun events_of :: "nat \<Rightarrow> rpc_error + string \<Rightarrow> channel_event list" where
  "events_of i (Inl e) = [Done_run i, Response_deleted i]"
| "events_of i (Inr t) = [Response_parsed i t, Done_run i, Response_deleted i]"

lemma call_id_inj:
  assumes "i < 2 ^ 64 - 1" and "j < 2 ^ 64 - 1"
  shows "call_id i = call_id j \<longleftrightarrow> i = j"
proof
  assume "call_id i = call_id j"
  then have "of_nat (Suc i) = (of_nat (Suc j) :: 64 word)" by (simp add: call_id_def add.commute)
  then have "unat (of_nat (Suc i) :: 64 word) = unat (of_nat (Suc j) :: 64 word)" by simp
  then show "i = j" using assms by (simp only: unat_of_nat_64)
qed simp

subsection \<open>The invariant\<close>

text \<open>
  Every call is a request on its way, pending at the server, a response on its way, or done: the lists
  \<open>qs\<close>, \<open>ps\<close>, \<open>rs\<close> and \<open>ds\<close> hold their numbers.
\<close>

definition open_call :: "nat \<Rightarrow> 64 word \<times> outstanding_call" where
  "open_call i = (call_id i, \<lparr>oc_response = Some i, oc_done = True\<rparr>)"

definition rpc_inv :: "(string \<Rightarrow> rpc_service option) option \<Rightarrow> (string \<Rightarrow> string \<Rightarrow> string \<Rightarrow> string) \<Rightarrow>
    rpc_system \<Rightarrow> nat list \<Rightarrow> nat list \<Rightarrow> nat list \<Rightarrow> nat list \<Rightarrow> bool" where
  "rpc_inv services answer y qs ps rs ds \<longleftrightarrow>
     (let call = (\<lambda>i. rs_calls y ! i) in
      ch_services (rs_server y) = services \<and>
      rs_to_server y = map (\<lambda>i. request_of i (call i)) qs \<and>
      ch_pending (rs_server y) = map (\<lambda>i. pending_of i (call i)) ps \<and>
      rs_to_client y = map (\<lambda>i. response_of i (outcome services answer (call i))) rs \<and>
      ch_events (rs_client y) = concat (map (\<lambda>i. events_of i (outcome services answer (call i))) ds) \<and>
      (\<forall>i \<in> set ps. \<exists>t. outcome services answer (call i) = Inr t)) \<and>
     set (ch_outstandings (rs_client y)) = open_call ` set (qs @ ps @ rs) \<and>
     distinct (map fst (ch_outstandings (rs_client y))) \<and>
     distinct (qs @ ps @ rs @ ds) \<and> set (qs @ ps @ rs @ ds) = {..<length (rs_calls y)} \<and>
     ch_id (rs_client y) = of_nat (length (rs_calls y)) \<and> length (rs_calls y) < 2 ^ 64 - 1"

lemma new_rpc_inv: "rpc_inv services answer (new_rpc_system services) [] [] [] []"
  by (simp add: rpc_inv_def new_rpc_system_def new_rpc_channel_def)

lemma inv_open:
  assumes "rpc_inv services answer y qs ps rs ds" and "e \<in> set (ch_outstandings (rs_client y))"
  shows "\<exists>i \<in> set (qs @ ps @ rs). e = open_call i"
proof -
  have "set (ch_outstandings (rs_client y)) = open_call ` set (qs @ ps @ rs)"
    using assms(1) by (simp add: rpc_inv_def)
  then show ?thesis using assms(2) by blast
qed

lemma call_ok:
  assumes "rpc_inv services answer y qs ps rs ds" and "length (rs_calls y) + 1 < 2 ^ 64 - 1"
  shows "\<exists>y'. rpc_do answer (Rpc_call s m q) y = Some y' \<and>
    rpc_inv services answer y' (qs @ [length (rs_calls y)]) ps rs ds"
proof -
  let ?n = "length (rs_calls y)" and ?c = "rs_client y"
  let ?calls = "rs_calls y @ [(s, m, q)]"
  have sub: "i < ?n" if "i \<in> set (qs @ ps @ rs @ ds)" for i using assms(1) that by (auto simp: rpc_inv_def)
  then have call: "?calls ! i = rs_calls y ! i" if "i \<in> set (qs @ ps @ rs @ ds)" for i
    using that by (simp add: nth_append)
  have id: "ch_id ?c + 1 = call_id ?n" using assms(1) by (simp add: rpc_inv_def call_id_def)
  have "fst e \<noteq> call_id ?n" if e: "e \<in> set (ch_outstandings ?c)" for e
  proof -
    obtain i where "i \<in> set (qs @ ps @ rs)" "e = open_call i" using inv_open [OF assms(1) e] by blast
    then have i: "i \<in> set (qs @ ps @ rs @ ds)" "fst e = call_id i" by (auto simp: open_call_def)
    then show ?thesis using sub [OF i(1)] call_id_inj [of i ?n] assms(2) by simp
  qed
  then have new: "filter (\<lambda>e. fst e \<noteq> call_id ?n) (ch_outstandings ?c) = ch_outstandings ?c"
    "call_id ?n \<notin> fst ` set (ch_outstandings ?c)"
    by (force simp: filter_id_conv)+
  let ?y = "y\<lparr>rs_client := ?c\<lparr>ch_id := call_id ?n, ch_outstandings := open_call ?n # ch_outstandings ?c\<rparr>,
      rs_to_server := rs_to_server y @ [request_of ?n (s, m, q)], rs_calls := ?calls\<rparr>"
  have "rpc_do answer (Rpc_call s m q) y = Some ?y"
    by (simp add: CallMethod_def Let_def id calls_assign_def new(1) open_call_def)
  moreover have "rpc_inv services answer ?y (qs @ [?n]) ps rs ds"
  proof -
    have "?n \<notin> set (qs @ ps @ rs @ ds)" using sub by blast
    moreover have "call_id ?n = of_nat (length ?calls)" by (simp add: call_id_def)
    ultimately show ?thesis
      using assms new(2)
      by (auto simp: rpc_inv_def Let_def open_call_def lessThan_Suc call cong: map_cong)
  qed
  ultimately show ?thesis by blast
qed

lemma to_server_ok:
  assumes inv: "rpc_inv services answer y (i # qs) ps rs ds"
  shows "\<exists>y'. rpc_do answer Rpc_to_server y = Some y' \<and>
    (rpc_inv services answer y' qs (ps @ [i]) rs ds \<or> rpc_inv services answer y' qs ps (rs @ [i]) ds)"
proof -
  obtain s m q where c: "rs_calls y ! i = (s, m, q)" by (cases "rs_calls y ! i") auto
  have msg: "rs_to_server y = request_of i (s, m, q) # map (\<lambda>i. request_of i (rs_calls y ! i)) qs"
    and services: "ch_services (rs_server y) = services"
    using inv c by (simp_all add: rpc_inv_def Let_def)
  have found: "find_method (request_of i (s, m, q)) (rs_server y) =
      (case outcome services answer (s, m, q) of Inl e \<Rightarrow> e | Inr t \<Rightarrow> NO_ERROR)"
    "\<forall>e. outcome services answer (s, m, q) = Inl e \<longrightarrow> e \<noteq> NO_ERROR"
    by (auto simp: find_method_def services field_text_def split: option.splits)
  show ?thesis
  proof (cases "outcome services answer (s, m, q)")
    case (Inl e)
    let ?y = "y\<lparr>rs_to_server := map (\<lambda>i. request_of i (rs_calls y ! i)) qs,
        rs_to_client := rs_to_client y @ [response_of i (Inl e)]\<rparr>"
    have "rpc_do answer Rpc_to_server y = Some ?y"
      using found Inl by (simp add: msg onRpcMessage_def empty_message_def Let_def)
    moreover have "rpc_inv services answer ?y qs ps (rs @ [i]) ds"
      using inv c Inl by (auto simp: rpc_inv_def Let_def)
    ultimately show ?thesis by blast
  next
    case (Inr t)
    let ?y = "y\<lparr>rs_to_server := map (\<lambda>i. request_of i (rs_calls y ! i)) qs,
        rs_server := (rs_server y)\<lparr>ch_pending := ch_pending (rs_server y) @ [pending_of i (s, m, q)]\<rparr>\<rparr>"
    have "rpc_do answer Rpc_to_server y = Some ?y"
      using found Inr by (simp add: msg onRpcMessage_def empty_message_def field_text_def Let_def)
    moreover have "rpc_inv services answer ?y qs (ps @ [i]) rs ds"
      using inv c Inr by (auto simp: rpc_inv_def Let_def)
    ultimately show ?thesis by blast
  qed
qed

lemma answer_ok:
  assumes inv: "rpc_inv services answer y qs ps rs ds" and j: "j < length ps"
  shows "\<exists>y'. rpc_do answer (Rpc_answer j) y = Some y' \<and>
    rpc_inv services answer y' qs (take j ps @ drop (Suc j) ps) (rs @ [ps ! j]) ds"
proof -
  let ?i = "ps ! j"
  obtain s m q where c: "rs_calls y ! ?i = (s, m, q)" by (cases "rs_calls y ! ?i") auto
  have "?i \<in> set ps" using j by simp
  then obtain t where t: "outcome services answer (s, m, q) = Inr t"
    using inv c unfolding rpc_inv_def Let_def by metis
  then have a: "t = answer s m q" by (auto split: option.splits if_splits)
  have pend: "ch_pending (rs_server y) = map (\<lambda>i. pending_of i (rs_calls y ! i)) ps"
    using inv by (simp add: rpc_inv_def Let_def)
  let ?y = "y\<lparr>rs_server := (rs_server y)\<lparr>ch_pending := map (\<lambda>i. pending_of i (rs_calls y ! i)) (take j ps @ drop (Suc j) ps)\<rparr>,
      rs_to_client := rs_to_client y @ [response_of ?i (Inr t)]\<rparr>"
  have "rpc_do answer (Rpc_answer j) y = Some ?y"
    using j c by (simp add: pend answer_pending_def Let_def a take_map drop_map)
  moreover have split: "ps = take j ps @ ?i # drop (Suc j) ps" using j by (rule id_take_nth_drop)
  have perm: "mset (qs @ (take j ps @ drop (Suc j) ps) @ (rs @ [?i]) @ ds) = mset (qs @ ps @ rs @ ds)"
    by (subst (3) split) simp
  have "rpc_inv services answer ?y qs (take j ps @ drop (Suc j) ps) (rs @ [?i]) ds"
  proof -
    have "set (qs @ (take j ps @ drop (Suc j) ps) @ (rs @ [?i])) = set (qs @ ps @ rs)"
      by (subst (3) split) auto
    moreover have "\<forall>i \<in> set (take j ps @ drop (Suc j) ps). \<exists>t. outcome services answer (rs_calls y ! i) = Inr t"
      using inv by (auto simp: rpc_inv_def Let_def dest: in_set_takeD in_set_dropD)
    ultimately show ?thesis
      using inv c t mset_eq_imp_distinct_iff [OF perm] mset_eq_setD [OF perm]
      unfolding rpc_inv_def Let_def by simp
  qed
  ultimately show ?thesis by blast
qed

lemma map_of_open:
  assumes "distinct (map fst m)" and "open_call i \<in> set m"
  shows "map_of m (call_id i) = Some \<lparr>oc_response = Some i, oc_done = True\<rparr>"
  using assms by (simp add: open_call_def)

lemma erase_open:
  assumes "set m = open_call ` S" and "\<forall>j \<in> S. call_id j = call_id i \<longleftrightarrow> j = i"
  shows "set (calls_erase (call_id i) m) = open_call ` (S - {i})"
  using assms by (auto simp: calls_erase_def open_call_def)

lemma to_client_ok:
  assumes inv: "rpc_inv services answer y qs ps (i # rs) ds"
  shows "\<exists>y'. rpc_do answer Rpc_to_client y = Some y' \<and> rpc_inv services answer y' qs ps rs (ds @ [i])"
proof -
  let ?c = "rs_client y" and ?o = "outcome services answer (rs_calls y ! i)"
  let ?m = "calls_erase (call_id i) (ch_outstandings ?c)"
  let ?rest = "map (\<lambda>i. response_of i (outcome services answer (rs_calls y ! i))) rs"
  have msg: "rs_to_client y = response_of i ?o # ?rest"
    using inv by (simp add: rpc_inv_def Let_def)
  have outs: "set (ch_outstandings ?c) = open_call ` set (qs @ ps @ i # rs)"
    "distinct (map fst (ch_outstandings ?c))" "distinct (qs @ ps @ (i # rs) @ ds)"
    "set (qs @ ps @ (i # rs) @ ds) = {..<length (rs_calls y)}" "length (rs_calls y) < 2 ^ 64 - 1"
    using inv by (simp_all add: rpc_inv_def)
  have small: "j < 2 ^ 64 - 1" if "j \<in> set (qs @ ps @ (i # rs) @ ds)" for j
    using that outs(5) unfolding outs(4) by simp
  have found: "map_of (ch_outstandings ?c) (call_id i) = Some \<lparr>oc_response = Some i, oc_done = True\<rparr>"
    using map_of_open [OF outs(2)] outs(1) by simp
  have fin: "finish_call (response_of i ?o) \<lparr>oc_response = Some i, oc_done = True\<rparr> = events_of i ?o"
    "rm_type (response_of i ?o) = RESPONSE" "rm_id (response_of i ?o) = call_id i"
    "rm_response (response_of i ?o) \<noteq> None \<or> rm_error (response_of i ?o) \<noteq> None"
    by (cases ?o; simp add: finish_call_def empty_message_def doneCallback_def)+
  have "\<forall>j \<in> set (qs @ ps @ i # rs). call_id j = call_id i \<longleftrightarrow> j = i"
  proof
    fix j
    assume "j \<in> set (qs @ ps @ i # rs)"
    then show "call_id j = call_id i \<longleftrightarrow> j = i" by (intro call_id_inj small) auto
  qed
  from erase_open [OF outs(1) this] have "set ?m = open_call ` (set (qs @ ps @ i # rs) - {i})" .
  moreover have "set (qs @ ps @ i # rs) - {i} = set (qs @ ps @ rs)" using outs(3) by auto
  ultimately have left: "set ?m = open_call ` set (qs @ ps @ rs)" by simp
  let ?y = "y\<lparr>rs_client := ?c\<lparr>ch_outstandings := ?m, ch_events := ch_events ?c @ events_of i ?o\<rparr>,
      rs_to_client := ?rest\<rparr>"
  have "rpc_do answer Rpc_to_client y = Some ?y"
    using fin(2-4) by (simp add: msg onRpcMessage_def found fin(1))
  moreover have "distinct (map fst ?m)" unfolding calls_erase_def by (rule distinct_map_filter [OF outs(2)])
  then have "rpc_inv services answer ?y qs ps rs (ds @ [i])"
    using inv left by (auto simp: rpc_inv_def Let_def)
  ultimately show ?thesis by blast
qed

text \<open>Numbers are there for fewer than \<open>2^64\<close> calls.\<close>

definition rpc_allowed :: "rpc_op list \<Rightarrow> bool" where
  "rpc_allowed ops \<longleftrightarrow> length ops < 2 ^ 64 - 2"

lemma rpc_do_ok:
  assumes inv: "rpc_inv services answer y qs ps rs ds" and n: "length (rs_calls y) + 1 < 2 ^ 64 - 1"
  shows "\<exists>y' qs' ps' rs' ds'. rpc_do answer op y = Some y' \<and> rpc_inv services answer y' qs' ps' rs' ds' \<and>
    length (rs_calls y') \<le> length (rs_calls y) + 1"
proof (cases op)
  case (Rpc_call s m q)
  obtain y' where y': "rpc_do answer (Rpc_call s m q) y = Some y'"
    "rpc_inv services answer y' (qs @ [length (rs_calls y)]) ps rs ds"
    using call_ok [OF inv n] by blast
  have "length (rs_calls y') = length (rs_calls y) + 1" using y'(1) by (auto simp: CallMethod_def Let_def)
  then show ?thesis using y' Rpc_call by (metis order_refl)
next
  case Rpc_to_server
  show ?thesis
  proof (cases qs)
    case Nil
    then have "rs_to_server y = []" using inv by (simp add: rpc_inv_def Let_def)
    then show ?thesis using inv Rpc_to_server by auto
  next
    case (Cons i js)
    obtain y' ps' rs' where y': "rpc_do answer Rpc_to_server y = Some y'" "rpc_inv services answer y' js ps' rs' ds"
      using to_server_ok [of services answer y i js ps rs ds] inv Cons by blast
    have "rs_calls y' = rs_calls y" using y'(1) by (auto split: list.splits bind_splits)
    then show ?thesis using y' Rpc_to_server by (metis le_add1)
  qed
next
  case (Rpc_answer j)
  have len: "length (ch_pending (rs_server y)) = length ps" using inv by (simp add: rpc_inv_def Let_def)
  show ?thesis
  proof (cases "j < length ps")
    case True
    obtain y' where y': "rpc_do answer (Rpc_answer j) y = Some y'"
      "rpc_inv services answer y' qs (take j ps @ drop (Suc j) ps) (rs @ [ps ! j]) ds"
      using answer_ok [OF inv True] by blast
    have "rs_calls y' = rs_calls y" using y'(1) True len by (auto simp: answer_pending_def Let_def)
    then show ?thesis using y' Rpc_answer by (metis le_add1)
  next
    case False
    then show ?thesis using inv Rpc_answer len by auto
  qed
next
  case Rpc_to_client
  show ?thesis
  proof (cases rs)
    case Nil
    then have "rs_to_client y = []" using inv by (simp add: rpc_inv_def Let_def)
    then show ?thesis using inv Rpc_to_client by auto
  next
    case (Cons i js)
    obtain y' where y': "rpc_do answer Rpc_to_client y = Some y'" "rpc_inv services answer y' qs ps js (ds @ [i])"
      using to_client_ok [of services answer y qs ps i js ds] inv Cons by blast
    have "rs_calls y' = rs_calls y" using y'(1) by (auto split: list.splits bind_splits)
    then show ?thesis using y' Rpc_to_client by (metis le_add1)
  qed
qed

lemma rpc_run_ok:
  "rpc_inv services answer y qs ps rs ds \<Longrightarrow> length (rs_calls y) + length ops < 2 ^ 64 - 1 \<Longrightarrow>
     \<exists>y' qs' ps' rs' ds'. rpc_run answer ops y = Some y' \<and> rpc_inv services answer y' qs' ps' rs' ds'"
proof (induction ops arbitrary: y qs ps rs ds)
  case (Cons op ops)
  have "length (rs_calls y) + 1 < 2 ^ 64 - 1" using Cons.prems(2) by simp
  then obtain y1 qs1 ps1 rs1 ds1 where y1: "rpc_do answer op y = Some y1"
    "rpc_inv services answer y1 qs1 ps1 rs1 ds1" "length (rs_calls y1) \<le> length (rs_calls y) + 1"
    using rpc_do_ok [OF Cons.prems(1)] by blast
  have "length (rs_calls y1) + length ops < 2 ^ 64 - 1" using y1(3) Cons.prems(2) by simp
  then show ?case using Cons.IH [OF y1(2)] y1(1) by (simp add: rpc_run_def)
qed (auto simp: rpc_run_def)

subsection \<open>The property\<close>

text \<open>C37: whatever calls a client makes, and in whatever order the server's application answers, no assertion
  fails, every call comes to its end at most once, with the answer to exactly this call, and when no
  message is on its way and none is pending every call has come to its end.
\<close>

theorem rpc_calls_answered:
  assumes "rpc_allowed ops"
  shows "\<exists>y ds. rpc_run answer ops (new_rpc_system services) = Some y \<and>
    ch_events (rs_client y) =
      concat (map (\<lambda>i. events_of i (outcome services answer (rs_calls y ! i))) ds) \<and>
    distinct ds \<and> set ds \<subseteq> {..<length (rs_calls y)} \<and>
    (rs_to_server y = [] \<and> ch_pending (rs_server y) = [] \<and> rs_to_client y = [] \<longrightarrow>
      set ds = {..<length (rs_calls y)} \<and> ch_outstandings (rs_client y) = [])"
proof -
  have "length (rs_calls (new_rpc_system services)) + length ops < 2 ^ 64 - 1"
    using assms by (simp add: rpc_allowed_def new_rpc_system_def)
  then obtain y qs ps rs ds where y: "rpc_run answer ops (new_rpc_system services) = Some y"
    "rpc_inv services answer y qs ps rs ds"
    using rpc_run_ok [OF new_rpc_inv] by blast
  have parts: "rs_to_server y = map (\<lambda>i. request_of i (rs_calls y ! i)) qs"
    "ch_pending (rs_server y) = map (\<lambda>i. pending_of i (rs_calls y ! i)) ps"
    "rs_to_client y = map (\<lambda>i. response_of i (outcome services answer (rs_calls y ! i))) rs"
    "ch_events (rs_client y) = concat (map (\<lambda>i. events_of i (outcome services answer (rs_calls y ! i))) ds)"
    "set (ch_outstandings (rs_client y)) = open_call ` set (qs @ ps @ rs)"
    "distinct (qs @ ps @ rs @ ds)" "set (qs @ ps @ rs @ ds) = {..<length (rs_calls y)}"
    using y(2) by (simp_all add: rpc_inv_def Let_def)
  have "set ds = {..<length (rs_calls y)} \<and> ch_outstandings (rs_client y) = []"
    if "rs_to_server y = []" "ch_pending (rs_server y) = []" "rs_to_client y = []"
    using parts(1-3,5,7) that by simp
  moreover have "distinct ds" "set ds \<subseteq> {..<length (rs_calls y)}" using parts(6,7) by auto
  ultimately show ?thesis using y(1) parts(4) by blast
qed

definition echo_service :: rpc_service where
  "echo_service m = (if m = ''Echo'' then Some (\<lambda>q. q \<noteq> []) else None)"

lemma rpc_calls_answered_witness:
  "\<exists>y ds. rpc_run (\<lambda>s m q. q) [Rpc_call ''Test'' ''Echo'' ''hi'', Rpc_call ''Test'' ''Time'' [], Rpc_to_server,
       Rpc_to_server, Rpc_to_client, Rpc_answer 0, Rpc_to_client]
     (new_rpc_system (Some (\<lambda>s. if s = ''Test'' then Some echo_service else None))) = Some y \<and>
     distinct ds \<and> set ds \<subseteq> {..<length (rs_calls y)}"
  using rpc_calls_answered [of "[Rpc_call ''Test'' ''Echo'' ''hi'', Rpc_call ''Test'' ''Time'' [], Rpc_to_server,
       Rpc_to_server, Rpc_to_client, Rpc_answer 0, Rpc_to_client]" "\<lambda>s m q. q"
      "Some (\<lambda>s. if s = ''Test'' then Some echo_service else None)"]
  unfolding rpc_allowed_def by auto

text \<open>A peer that sends a response with neither a response nor an error ends the process.\<close>

lemma empty_response_aborts: "onRpcMessage (empty_message RESPONSE i) c = None"
  by (simp add: onRpcMessage_def empty_message_def)

end
