(* ===== verification/Inspector.thy ===== *)
theory Inspector
  imports Muduo_Http_Server
begin

text \<open>
  \<open>Inspector\<close> of \<^verbatim>\<open>muduo/net/inspect\<close>: commands that are registered under a module and a name, and
  answered by the HTTP server when their path is requested; and \<open>split\<close>, which takes the path apart.
  The maps are ordered lists, as in \<open>String_Map\<close>. The picture of \<^verbatim>\<open>/favicon.ico\<close>, 1743 bytes, is a
  parameter. The commands that the class registers itself are not modelled.
\<close>

subsection \<open>The path\<close>

text \<open>\<open>str.find('/', start)\<close>.\<close>

definition find_slash :: "string \<Rightarrow> nat \<Rightarrow> nat option" where
  "find_slash str start = map_option ((+) start) (memchr (CHR ''/'') (drop start str))"

lemma find_slash_bounds: "find_slash str start = Some pos \<Longrightarrow> start \<le> pos \<and> pos < length str"
  by (auto simp: find_slash_def dest!: memchr_Some)

function split_loop :: "string \<Rightarrow> nat \<Rightarrow> string list \<Rightarrow> string list" where
  "split_loop str start result =
     (case find_slash str start of
        Some pos \<Rightarrow>
          split_loop str (pos + 1)
            (if start < pos then result @ [take (pos - start) (drop start str)] else result)
      | None \<Rightarrow> if start < length str then result @ [drop start str] else result)"
  by pat_completeness auto
termination
  by (relation "measure (\<lambda>(str, start, result). length str - start)")
    (auto dest!: find_slash_bounds)

declare split_loop.simps [simp del]

definition split_path :: "string \<Rightarrow> string list" where
  "split_path str = split_loop str 0 []"

subsection \<open>The commands\<close>

type_synonym command_callback = "request_method \<Rightarrow> string list \<Rightarrow> string"

record inspector =
  in_modules :: "(string \<times> (string \<times> command_callback option) list) list"
  in_helps :: "(string \<times> (string \<times> string) list) list"

definition new_inspector :: inspector where
  "new_inspector = \<lparr>in_modules = [], in_helps = []\<rparr>"

text \<open>\<open>operator[]\<close> on a map of maps: an entry that is missing is an empty map.\<close>

definition inner_map :: "string \<Rightarrow> (string \<times> (string \<times> 'v) list) list \<Rightarrow> (string \<times> 'v) list" where
  "inner_map k m = (case map_find m k of None \<Rightarrow> [] | Some l \<Rightarrow> l)"

definition inspector_add :: "string \<Rightarrow> string \<Rightarrow> command_callback option \<Rightarrow> string \<Rightarrow> inspector \<Rightarrow> inspector" where
  "inspector_add module command cb help ins =
     ins\<lparr>in_modules := map_assign module (map_assign command cb (inner_map module (in_modules ins))) (in_modules ins),
         in_helps := map_assign module (map_assign command help (inner_map module (in_helps ins))) (in_helps ins)\<rparr>"

definition inspector_remove :: "string \<Rightarrow> string \<Rightarrow> inspector \<Rightarrow> inspector" where
  "inspector_remove module command ins =
     (case map_find (in_modules ins) module of
        None \<Rightarrow> ins
      | Some commList \<Rightarrow>
          ins\<lparr>in_modules := map_assign module (snd (map_erase command commList)) (in_modules ins),
              in_helps := map_assign module (snd (map_erase command (inner_map module (in_helps ins)))) (in_helps ins)\<rparr>)"

definition ok_response :: "string \<Rightarrow> string \<Rightarrow> muduo_response \<Rightarrow> muduo_response" where
  "ok_response contentType body resp =
     (setContentType contentType (resp\<lparr>rp_statusCode := k200Ok, rp_statusMessage := ''OK''\<rparr>))\<lparr>rp_body := body\<rparr>"

definition help_line :: "string \<Rightarrow> string \<Rightarrow> string \<Rightarrow> string" where
  "help_line module command help =
     (let len = length module + length command in
      ''/'' @ module @ ''/'' @ command @ replicate (if 25 \<le> len then 1 else 25 - len) (CHR '' '') @
      help @ [CHR 0x0A])"

definition help_page :: "inspector \<Rightarrow> string" where
  "help_page ins =
     concat (map (\<lambda>(module, l). concat (map (\<lambda>(command, help). help_line module command help) l)) (in_helps ins))"

definition inspector_onRequest :: "string \<Rightarrow> inspector \<Rightarrow> muduo_request \<Rightarrow> muduo_response \<Rightarrow> muduo_response" where
  "inspector_onRequest favicon ins req resp =
     (if mr_path req = ''/'' then ok_response ''text/plain'' (help_page ins) resp
      else
        let (ok, resp) = (case split_path (mr_path req) of
            [] \<Rightarrow> (False, resp)
          | [module] \<Rightarrow>
              if module = ''favicon.ico'' then (True, ok_response ''image/png'' favicon resp)
              else (False, resp)
          | module # command # args \<Rightarrow>
              (case map_find (in_modules ins) module of
                 None \<Rightarrow> (False, resp)
               | Some commList \<Rightarrow>
                   (case map_find commList command of
                      Some (Some cb) \<Rightarrow> (True, ok_response ''text/plain'' (cb (mr_method req) args) resp)
                    | _ \<Rightarrow> (False, resp))))
        in if ok then resp else resp\<lparr>rp_statusCode := k404NotFound, rp_statusMessage := ''Not Found''\<rparr>)"

subsection \<open>What split finds\<close>

text \<open>The reference: the text is cut at every slash, and empty parts are left out.\<close>

fun cut_at_slash :: "string \<Rightarrow> string list" where
  "cut_at_slash [] = [[]]"
| "cut_at_slash (c # s) =
     (if c = CHR ''/'' then [] # cut_at_slash s
      else (c # hd (cut_at_slash s)) # tl (cut_at_slash s))"

lemma cut_at_slash_not_Nil [simp]: "cut_at_slash s \<noteq> []"
  by (induction s) auto

lemma cut_found:
  "memchr (CHR ''/'') s = Some i \<Longrightarrow> cut_at_slash s = take i s # cut_at_slash (drop (Suc i) s)"
  by (induction s arbitrary: i) (auto split: if_splits)

lemma cut_not_found: "memchr (CHR ''/'') s = None \<Longrightarrow> cut_at_slash s = [s]"
  by (induction s) (auto split: if_splits)

lemma split_loop_cut:
  "start \<le> length str \<Longrightarrow>
     split_loop str start result = result @ filter (\<lambda>p. p \<noteq> []) (cut_at_slash (drop start str))"
proof (induction str start result rule: split_loop.induct)
  case (1 str start result)
  show ?case
  proof (cases "memchr (CHR ''/'') (drop start str)")
    case None
    then show ?thesis
      using 1(2) by (subst split_loop.simps) (auto simp: find_slash_def cut_not_found)
  next
    case (Some i)
    then have f: "find_slash str start = Some (start + i)" by (simp add: find_slash_def)
    have b: "start + i + 1 \<le> length str" using find_slash_bounds [OF f] by simp
    have "drop (start + i + 1) str = drop (Suc i) (drop start str)" by (simp add: add.commute)
    then show ?thesis
      using 1(1) [OF f b] b
      by (subst split_loop.simps) (simp add: f cut_found [OF Some] del: drop_drop)
  qed
qed

lemma split_path_cut: "split_path str = filter (\<lambda>p. p \<noteq> []) (cut_at_slash str)"
  by (simp add: split_path_def split_loop_cut)

text \<open>A path built of parts is taken apart into these parts.\<close>

lemma cut_part: "CHR ''/'' \<notin> set p \<Longrightarrow> cut_at_slash (p @ s) = (p @ hd (cut_at_slash s)) # tl (cut_at_slash s)"
  by (induction p) auto

lemma split_parts:
  assumes "\<forall>p \<in> set ps. p \<noteq> [] \<and> CHR ''/'' \<notin> set p"
  shows "split_path (concat (map (\<lambda>p. CHR ''/'' # p) ps)) = ps"
proof -
  have "cut_at_slash (concat (map (\<lambda>p. CHR ''/'' # p) ps)) = [] # ps"
    using assms
  proof (induction ps)
    case (Cons p ps)
    then show ?case using cut_part [of p "concat (map (\<lambda>p. CHR ''/'' # p) ps)"] by simp
  qed simp
  moreover have "filter (\<lambda>p. p \<noteq> []) ps = ps" using assms by (simp add: filter_id_conv)
  ultimately show ?thesis by (simp add: split_path_cut)
qed

subsection \<open>The maps\<close>

lemma map_find_member: "map_ordered m \<Longrightarrow> map_find m k = Some v \<longleftrightarrow> (k, v) \<in> set m"
proof (induction m k rule: map_find.induct)
  case (2 k' v' m k)
  then show ?case by (cases "k = k'") force+
qed simp

lemma map_find_erase: "map_find (snd (map_erase k m)) k' = (if k' = k then None else map_find m k')"
  by (induction m) (auto simp: map_erase_def)

datatype inspector_op = Ins_add string string "command_callback option" string | Ins_remove string string

fun inspector_do :: "inspector_op \<Rightarrow> inspector \<Rightarrow> inspector" where
  "inspector_do (Ins_add m c cb h) ins = inspector_add m c cb h ins"
| "inspector_do (Ins_remove m c) ins = inspector_remove m c ins"

text \<open>The contract: one map from module and command to the callback and its help.\<close>

type_synonym command_table = "string \<times> string \<Rightarrow> (command_callback option \<times> string) option"

fun table_do :: "inspector_op \<Rightarrow> command_table \<Rightarrow> command_table" where
  "table_do (Ins_add m c cb h) f = f((m, c) := Some (cb, h))"
| "table_do (Ins_remove m c) f = f((m, c) := None)"

definition nested :: "(string \<times> (string \<times> 'v) list) list \<Rightarrow> bool" where
  "nested m \<longleftrightarrow> map_ordered m \<and> (\<forall>(k, l) \<in> set m. map_ordered l)"

lemma nested_inner: "nested m \<Longrightarrow> map_ordered (inner_map k m)"
  using map_find_member [of m k] by (auto simp: nested_def inner_map_def split: option.splits)

lemma nested_assign:
  assumes "nested m" and "map_ordered l"
  shows "nested (map_assign k l m)"
proof -
  have "set (map_assign k l m) \<subseteq> insert (k, l) (set m)"
    by (induction k l m rule: map_assign.induct) auto
  then show ?thesis using assms map_assign_ordered [of m k l] by (auto simp: nested_def)
qed

lemma inner_assign:
  assumes "nested m"
  shows "map_find (inner_map k' (map_assign k (map_assign c v (inner_map k m)) m)) c' =
      (if k' = k \<and> c' = c then Some v else map_find (inner_map k' m) c')"
    "map_find (inner_map k' (map_assign k (snd (map_erase c (inner_map k m))) m)) c' =
      (if k' = k \<and> c' = c then None else map_find (inner_map k' m) c')"
  using assms nested_inner [OF assms, of k]
  by (auto simp: inner_map_def map_find_assign nested_def map_find_erase split: option.splits)

definition table_of :: "inspector \<Rightarrow> command_table \<Rightarrow> bool" where
  "table_of ins f \<longleftrightarrow>
     nested (in_modules ins) \<and> nested (in_helps ins) \<and>
     (\<forall>m c. map_find (inner_map m (in_modules ins)) c = map_option fst (f (m, c))) \<and>
     (\<forall>m c. map_find (inner_map m (in_helps ins)) c = map_option snd (f (m, c)))"

lemma new_inspector_table: "table_of new_inspector (\<lambda>_. None)"
  by (simp add: table_of_def new_inspector_def nested_def inner_map_def)

lemma inspector_do_table:
  assumes "table_of ins f"
  shows "table_of (inspector_do op ins) (table_do op f)"
proof (cases op)
  case (Ins_add m c cb h)
  have n: "nested (in_modules ins)" "nested (in_helps ins)" using assms by (simp_all add: table_of_def)
  show ?thesis
    using assms n nested_inner map_assign_ordered nested_assign
    by (simp add: Ins_add inspector_add_def table_of_def inner_assign map_assign_ordered nested_assign
        nested_inner)
next
  case (Ins_remove m c)
  have n: "nested (in_modules ins)" "nested (in_helps ins)" using assms by (simp_all add: table_of_def)
  show ?thesis
  proof (cases "map_find (in_modules ins) m")
    case None
    then have "f (m, c) = None"
      using assms unfolding table_of_def by (metis inner_map_def map_find.simps(1) map_option_is_None option.simps(4))
    then have "f((m, c) := None) = f" by auto
    then show ?thesis using None assms by (simp add: Ins_remove inspector_remove_def)
  next
    case (Some l)
    then have "l = inner_map m (in_modules ins)" by (simp add: inner_map_def)
    then have "inspector_remove m c ins = ins\<lparr>
        in_modules := map_assign m (snd (map_erase c (inner_map m (in_modules ins)))) (in_modules ins),
        in_helps := map_assign m (snd (map_erase c (inner_map m (in_helps ins)))) (in_helps ins)\<rparr>"
      using Some by (simp add: inspector_remove_def)
    then show ?thesis
      using assms n by (simp add: Ins_remove table_of_def inner_assign map_erase_ordered nested_assign nested_inner)
  qed
qed

lemma inspector_run_table: "table_of ins f \<Longrightarrow> table_of (fold inspector_do ops ins) (fold table_do ops f)"
  by (induction ops arbitrary: ins f) (auto simp: inspector_do_table)

subsection \<open>The properties\<close>

text \<open>What the index page is made of, in the order of the two maps.\<close>

definition help_entries :: "inspector \<Rightarrow> (string \<times> string \<times> string) list" where
  "help_entries ins = concat (map (\<lambda>(m, l). map (\<lambda>(c, h). (m, c, h)) l) (in_helps ins))"

lemma help_page_entries: "help_page ins = concat (map (\<lambda>(m, c, h). help_line m c h) (help_entries ins))"
proof -
  have "concat (map (\<lambda>(m, l). concat (map (\<lambda>(c, h). help_line m c h) l)) ms) =
      concat (map (\<lambda>(m, c, h). help_line m c h) (concat (map (\<lambda>(m, l). map (\<lambda>(c, h). (m, c, h)) l) ms)))" for ms
    by (induction ms) (auto simp: map_concat comp_def intro!: arg_cong [where f = concat] map_cong)
  then show ?thesis by (simp add: help_page_def help_entries_def)
qed

lemma entries_member:
  assumes "nested m"
  shows "(k, c, h) \<in> set (concat (map (\<lambda>(k, l). map (\<lambda>(c, h). (k, c, h)) l) m)) \<longleftrightarrow>
    map_find (inner_map k m) c = Some h"
proof -
  have "(k, c, h) \<in> set (concat (map (\<lambda>(k, l). map (\<lambda>(c, h). (k, c, h)) l) m)) \<longleftrightarrow>
      (\<exists>l. (k, l) \<in> set m \<and> (c, h) \<in> set l)"
    by auto
  also have "\<dots> \<longleftrightarrow> (\<exists>l. map_find m k = Some l \<and> map_find l c = Some h)"
  proof (intro iff_exI conj_cong)
    show "(k, l) \<in> set m \<longleftrightarrow> map_find m k = Some l" for l
      using assms map_find_member [of m k l] by (simp add: nested_def)
    show "(c, h) \<in> set l \<longleftrightarrow> map_find l c = Some h" if "map_find m k = Some l" for l
      using assms map_find_member [of m k l] map_find_member [of l c h] that by (auto simp: nested_def)
  qed
  also have "\<dots> \<longleftrightarrow> map_find (inner_map k m) c = Some h"
    by (auto simp: inner_map_def split: option.splits)
  finally show ?thesis .
qed

lemma help_entries_member:
  "nested (in_helps ins) \<Longrightarrow>
     (m, c, h) \<in> set (help_entries ins) \<longleftrightarrow> map_find (inner_map m (in_helps ins)) c = Some h"
  unfolding help_entries_def by (rule entries_member)

lemma help_entries_ordered:
  assumes "nested (in_helps ins)"
  shows "sorted_wrt (\<lambda>(m, c, h) (m', c', h'). m < m' \<or> m = m' \<and> c < c') (help_entries ins)"
proof -
  let ?lt = "\<lambda>(m, c, h) (m', c', h'). m < m' \<or> m = m' \<and> (c :: string) < c'"
  let ?row = "\<lambda>(m, l). map (\<lambda>(c, h). (m, c, h)) l"
  have row: "map_ordered l \<Longrightarrow> sorted_wrt ?lt (?row (m, l))" for m :: string and l :: "(string \<times> string) list"
    by (simp add: map_ordered_def sorted_wrt_map case_prod_unfold)
  have "map_ordered ms \<Longrightarrow> \<forall>(k, l) \<in> set ms. map_ordered l \<Longrightarrow> sorted_wrt ?lt (concat (map ?row ms))"
    for ms :: "(string \<times> (string \<times> string) list) list"
  proof (induction ms)
    case (Cons e ms)
    obtain k l where e: "e = (k, l)" by (cases e)
    have "sorted_wrt ?lt (?row (k, l))" "sorted_wrt ?lt (concat (map ?row ms))"
      using Cons row by (auto simp: e)
    moreover have "\<forall>x \<in> set (?row (k, l)). \<forall>y \<in> set (concat (map ?row ms)). ?lt x y"
      using Cons.prems(1) by (fastforce simp: e)
    ultimately show ?case by (simp add: e sorted_wrt_append)
  qed simp
  then show ?thesis using assms by (simp add: nested_def help_entries_def)
qed

text \<open>C38: however commands were added and removed, a request for \<^verbatim>\<open>/module/command/arguments\<close> is answered by
  the callback that was registered last, with the arguments taken from the path, or with 404 when
  there is none; and a request for \<^verbatim>\<open>/\<close> is answered with a page that has one line for each
  registered command, in the order of modules and commands, with its path and its help, and no other line.
\<close>

theorem inspector_dispatches:
  fixes ops :: "inspector_op list"
  defines "ins \<equiv> fold inspector_do ops new_inspector" and "table \<equiv> fold table_do ops (\<lambda>_. None)"
  assumes "\<forall>p \<in> set (m # c # args). p \<noteq> [] \<and> CHR ''/'' \<notin> set p"
    and "mr_path req = concat (map (\<lambda>p. CHR ''/'' # p) (m # c # args))"
  shows "inspector_onRequest favicon ins req resp =
      (case table (m, c) of
         Some (Some cb, h) \<Rightarrow> ok_response ''text/plain'' (cb (mr_method req) args) resp
       | _ \<Rightarrow> resp\<lparr>rp_statusCode := k404NotFound, rp_statusMessage := ''Not Found''\<rparr>) \<and>
    (\<exists>es. inspector_onRequest favicon ins (req\<lparr>mr_path := ''/''\<rparr>) resp =
        ok_response ''text/plain''
          (concat (map (\<lambda>(m, c, h). ''/'' @ m @ ''/'' @ c @
             replicate (max 1 (25 - (length m + length c))) (CHR '' '') @ h @ [CHR 0x0A]) es)) resp \<and>
      sorted_wrt (\<lambda>(m, c, h) (m', c', h'). m < m' \<or> m = m' \<and> c < c') es \<and>
      set es = {(m, c, h). \<exists>cb. table (m, c) = Some (cb, h)})"
proof (intro conjI exI [where x = "help_entries ins"])
  have t: "table_of ins table"
    unfolding ins_def table_def by (rule inspector_run_table [OF new_inspector_table])
  have "mr_path req \<noteq> ''/''" using assms(3,4) by (cases m) auto
  moreover have "split_path (mr_path req) = m # c # args"
    unfolding assms(4) by (rule split_parts) (rule assms(3))
  moreover have "map_find (inner_map m (in_modules ins)) c = map_option fst (table (m, c))"
    using t by (simp add: table_of_def)
  ultimately show "inspector_onRequest favicon ins req resp =
      (case table (m, c) of
         Some (Some cb, h) \<Rightarrow> ok_response ''text/plain'' (cb (mr_method req) args) resp
       | _ \<Rightarrow> resp\<lparr>rp_statusCode := k404NotFound, rp_statusMessage := ''Not Found''\<rparr>)"
    by (cases "table (m, c)"; cases "map_find (in_modules ins) m")
      (auto simp: inspector_onRequest_def inner_map_def Let_def split: option.splits prod.splits)
  have n: "\<forall>m c. map_find (inner_map m (in_helps ins)) c = map_option snd (table (m, c))"
    "nested (in_helps ins)"
    using t by (simp_all add: table_of_def)
  have "help_line m c h = ''/'' @ m @ ''/'' @ c @
      replicate (max 1 (25 - (length m + length c))) (CHR '' '') @ h @ [CHR 0x0A]" for m c h
    by (auto simp: help_line_def Let_def max_def)
  then show "inspector_onRequest favicon ins (req\<lparr>mr_path := ''/''\<rparr>) resp =
      ok_response ''text/plain''
        (concat (map (\<lambda>(m, c, h). ''/'' @ m @ ''/'' @ c @
           replicate (max 1 (25 - (length m + length c))) (CHR '' '') @ h @ [CHR 0x0A]) (help_entries ins))) resp"
    by (simp add: inspector_onRequest_def help_page_entries)
  show "sorted_wrt (\<lambda>(m, c, h) (m', c', h'). m < m' \<or> m = m' \<and> c < c') (help_entries ins)"
    using n(2) by (rule help_entries_ordered)
  show "set (help_entries ins) = {(m, c, h). \<exists>cb. table (m, c) = Some (cb, h)}"
    using n by (auto simp: help_entries_member)
qed

lemma inspector_dispatches_witness:
  defines "ops \<equiv> [Ins_add ''proc'' ''pid'' (Some (\<lambda>me args. concat args)) ''print pid'',
    Ins_add ''proc'' ''status'' None ''print status'', Ins_remove ''proc'' ''status'']"
  shows "inspector_onRequest [] (fold inspector_do ops new_inspector)
      (new_muduo_request\<lparr>mr_path := ''/proc/pid/a/b''\<rparr>) (new_muduo_response False) =
    ok_response ''text/plain'' ''ab'' (new_muduo_response False) \<and>
    (\<exists>es. inspector_onRequest [] (fold inspector_do ops new_inspector)
        (new_muduo_request\<lparr>mr_path := ''/''\<rparr>) (new_muduo_response False) =
      ok_response ''text/plain''
        (concat (map (\<lambda>(m, c, h). ''/'' @ m @ ''/'' @ c @
           replicate (max 1 (25 - (length m + length c))) (CHR '' '') @ h @ [CHR 0x0A]) es))
        (new_muduo_response False) \<and>
      set es = {(''proc'', ''pid'', ''print pid'')})"
proof -
  let ?req = "new_muduo_request\<lparr>mr_path := ''/proc/pid/a/b''\<rparr>"
  have t: "fold table_do ops (\<lambda>_. None) =
      [(''proc'', ''pid'') \<mapsto> (Some (\<lambda>me args. concat args), ''print pid'')]"
    by (auto simp: ops_def)
  note run = inspector_dispatches [of "''proc''" "''pid''" "[''a'', ''b'']" ?req "[]" ops
      "new_muduo_response False"]
  have "inspector_onRequest [] (fold inspector_do ops new_inspector) ?req (new_muduo_response False) =
      ok_response ''text/plain'' ''ab'' (new_muduo_response False)"
    using run by (simp add: t)
  moreover obtain es where "inspector_onRequest [] (fold inspector_do ops new_inspector)
        (?req\<lparr>mr_path := ''/''\<rparr>) (new_muduo_response False) =
      ok_response ''text/plain''
        (concat (map (\<lambda>(m, c, h). ''/'' @ m @ ''/'' @ c @
           replicate (max 1 (25 - (length m + length c))) (CHR '' '') @ h @ [CHR 0x0A]) es))
        (new_muduo_response False)"
      "set es = {(m, c, h). \<exists>cb. fold table_do ops (\<lambda>_. None) (m, c) = Some (cb, h)}"
    using run by fastforce
  moreover have "{(m, c, h). \<exists>cb. fold table_do ops (\<lambda>_. None) (m, c) = Some (cb, h)} =
      {(''proc'', ''pid'', ''print pid'')}"
    by (auto simp: t split: if_splits)
  ultimately show ?thesis by (auto simp del: append.simps replicate_0)
qed

end
