(* ===== verification/Tcp_Client.thy ===== *)
theory Tcp_Client
  imports Connector
begin

text \<open>
  \<open>TcpClient\<close> of \<^verbatim>\<open>muduo/net/TcpClient.cc\<close>, with the \<open>Connector\<close> it owns: one connection at a time,
  which is made again when it closes, if the client was told so. A connection is known by its socket;
  \<open>tcl_tasks\<close> holds the connections whose \<open>connectDestroyed\<close> is queued, \<open>tcl_destroyed\<close> those that have
  given their socket back. The address of the peer comes with each step.
\<close>

record tcp_client =
  tcl_connector :: connector
  tcl_name :: string
  tcl_retry :: bool
  tcl_connect :: bool
  tcl_nextConnId :: int
  tcl_connection :: "nat option"
  tcl_names :: "string list"
  tcl_tasks :: "nat list"
  tcl_destroyed :: "nat list"
  tcl_shutdowns :: "nat list"

definition new_tcp_client :: "string \<Rightarrow> tcp_client" where
  "new_tcp_client nameArg =
     \<lparr>tcl_connector = new_connector, tcl_name = nameArg, tcl_retry = False, tcl_connect = True,
      tcl_nextConnId = 1, tcl_connection = None, tcl_names = [], tcl_tasks = [], tcl_destroyed = [],
      tcl_shutdowns = []\<rparr>"

definition client_connect :: "bool \<Rightarrow> connect_errno \<Rightarrow> tcp_client \<Rightarrow> tcp_client option" where
  "client_connect in_loop e s = do {
     c \<leftarrow> connector_start in_loop e (tcl_connector s);
     Some (s\<lparr>tcl_connect := True, tcl_connector := c\<rparr>)
   }"

text \<open>
  \<open>disconnect\<close> shuts down the connection's writing half, after which the peer will close it;
  \<open>tcl_shutdowns\<close> holds the connections that were told so.
\<close>

definition client_disconnect :: "tcp_client \<Rightarrow> tcp_client" where
  "client_disconnect s =
     (let s = s\<lparr>tcl_connect := False\<rparr> in
      case tcl_connection s of
        None \<Rightarrow> s
      | Some fd \<Rightarrow> s\<lparr>tcl_shutdowns := tcl_shutdowns s @ [fd]\<rparr>)"

definition client_stop :: "tcp_client \<Rightarrow> tcp_client" where
  "client_stop s = s\<lparr>tcl_connect := False, tcl_connector := connector_stop (tcl_connector s)\<rparr>"

definition client_newConnection :: "string \<Rightarrow> nat \<Rightarrow> tcp_client \<Rightarrow> tcp_client" where
  "client_newConnection peer sockfd s =
     (let buf = snprintf_text 32 (CHR '':'' # peer @ CHR ''#'' # int_text (tcl_nextConnId s)) in
      s\<lparr>tcl_nextConnId := tcl_nextConnId s + 1, tcl_names := tcl_names s @ [tcl_name s @ buf],
        tcl_connection := Some sockfd\<rparr>)"

definition client_removeConnection :: "connect_errno \<Rightarrow> nat \<Rightarrow> tcp_client \<Rightarrow> tcp_client option" where
  "client_removeConnection e fd s = do {
     C_assert (tcl_connection s = Some fd);
     let s = s\<lparr>tcl_connection := None, tcl_tasks := tcl_tasks s @ [fd]\<rparr>;
     if tcl_retry s \<and> tcl_connect s then do {
       c \<leftarrow> connector_restart e (tcl_connector s);
       Some (s\<lparr>tcl_connector := c\<rparr>)
     }
     else Some s
   }"

subsection \<open>Steps\<close>

text \<open>
  Calls of the application; an event, a timer or a functor of the connector, which may hand over a
  connection; the connection closes; the loop runs a queued \<open>connectDestroyed\<close>.
\<close>

datatype client_op =
    Tl_connect bool connect_errno | Tl_disconnect | Tl_stop | Tl_enableRetry
  | Tl_connector connector_op string | Tl_close connect_errno | Tl_task

fun client_do :: "client_op \<Rightarrow> tcp_client \<Rightarrow> tcp_client option" where
  "client_do (Tl_connect in_loop e) s = client_connect in_loop e s"
| "client_do Tl_disconnect s = Some (client_disconnect s)"
| "client_do Tl_stop s = Some (client_stop s)"
| "client_do Tl_enableRetry s = Some (s\<lparr>tcl_retry := True\<rparr>)"
| "client_do (Tl_connector op peer) s = do {
     c \<leftarrow> connector_do op (tcl_connector s);
     Some (fold (client_newConnection peer) (drop (length (cn_handed (tcl_connector s))) (cn_handed c))
       (s\<lparr>tcl_connector := c\<rparr>))
   }"
| "client_do (Tl_close e) s =
     (case tcl_connection s of None \<Rightarrow> None | Some fd \<Rightarrow> client_removeConnection e fd s)"
| "client_do Tl_task s =
     (case tcl_tasks s of
        [] \<Rightarrow> Some s
      | fd # fds \<Rightarrow> Some (s\<lparr>tcl_tasks := fds, tcl_destroyed := tcl_destroyed s @ [fd]\<rparr>))"

definition client_run :: "client_op list \<Rightarrow> tcp_client \<Rightarrow> tcp_client option" where
  "client_run = run_all client_do"

text \<open>
  The surroundings of the connector are as before; a connection closes after the functors that were queued
  when it was made; \<open>connect\<close> is called when nothing is under way, which the client does not check.
\<close>

fun client_enabled :: "client_op \<Rightarrow> tcp_client \<Rightarrow> bool" where
  "client_enabled (Tl_connect in_loop e) s \<longleftrightarrow> connector_enabled (Cn_start in_loop e) (tcl_connector s)"
| "client_enabled (Tl_connector op peer) s \<longleftrightarrow>
     \<not> starts op \<and> op \<noteq> Cn_stop \<and> connector_enabled op (tcl_connector s)"
| "client_enabled (Tl_close e) s \<longleftrightarrow> tcl_connection s \<noteq> None \<and> cn_functors (tcl_connector s) = []"
| "client_enabled _ s \<longleftrightarrow> True"

primrec client_allowed :: "client_op list \<Rightarrow> tcp_client \<Rightarrow> bool" where
  "client_allowed [] s \<longleftrightarrow> True"
| "client_allowed (op # ops) s \<longleftrightarrow>
     client_enabled op s \<and>
     (case client_do op s of None \<Rightarrow> True | Some s' \<Rightarrow> client_allowed ops s')"

subsection \<open>The invariant\<close>

definition held_sockets :: "tcp_client \<Rightarrow> nat list" where
  "held_sockets s = (case tcl_connection s of None \<Rightarrow> [] | Some fd \<Rightarrow> [fd]) @ tcl_tasks s"

definition client_inv :: "tcp_client \<Rightarrow> bool" where
  "client_inv s \<longleftrightarrow>
     connector_inv (tcl_connector s) \<and>
     (tcl_connection s \<noteq> None \<longrightarrow> cn_state (tcl_connector s) = Connector_connected) \<and>
     mset (cn_handed (tcl_connector s)) = mset (tcl_destroyed s @ held_sockets s)"

lemma new_client_inv: "client_inv (new_tcp_client name)"
  using new_connector_inv
  by (simp add: client_inv_def new_tcp_client_def held_sockets_def new_connector_def)

text \<open>What a step of the connector hands over.\<close>

lemma removed_eq: "removeAndResetChannel c = Some (fd, c') \<Longrightarrow>
    c' = unwatched fd c \<and> (\<exists>w. cn_channel c = Some (fd, w))"
  by (auto simp: removeAndResetChannel_def unwatched_def split: option.splits)

lemma retry_fields: "cn_handed (retry fd c) = cn_handed c"
  by (simp add: retry_def close_socket_def Let_def)

lemma connect_handed: "connect_socket e c = Some c' \<Longrightarrow> cn_handed c' = cn_handed c"
  by (auto simp: connect_socket_def connecting_def retry_fields close_socket_def Let_def
      split: if_splits bind_splits)

lemma start_handed: "startInLoop e c = Some c' \<Longrightarrow> cn_handed c' = cn_handed c"
  by (auto simp: startInLoop_def dest: connect_handed split: if_splits bind_splits)

lemma step_hands_over:
  assumes "connector_do op c = Some c'" and "\<not> starts op" and "op \<noteq> Cn_stop"
  shows "cn_handed c' = cn_handed c \<or>
    (\<exists>fd. cn_handed c' = cn_handed c @ [fd] \<and> cn_state c = Connector_connecting \<and> cn_state c' = Connector_connected)"
proof (cases op)
  case (Cn_functor e)
  then obtain f fs where fs: "cn_functors c = f # fs"
    "connector_functor_run e f (c\<lparr>cn_functors := fs\<rparr>) = Some c'"
    using assms(1) by (cases "cn_functors c") auto
  have "cn_handed c' = cn_handed c"
  proof (cases f)
    case Start_in_loop
    then show ?thesis using start_handed fs(2) by fastforce
  next
    case Stop_in_loop
    then show ?thesis
      using fs(2)
      by (auto simp: stopInLoop_def unwatched_def queue_functor_def retry_fields
          dest!: removed_eq split: if_splits bind_splits)
  next
    case Reset_channel
    then show ?thesis using fs(2) by (auto simp: resetChannel_def split: bind_splits)
  qed
  then show ?thesis ..
next
  case (Cn_timer e)
  then obtain d ts where "startInLoop e (c\<lparr>cn_timers := ts\<rparr>) = Some c'"
    using assms(1) by (cases "cn_timers c") auto
  from start_handed [OF this] show ?thesis by simp
next
  case (Cn_writable err self)
  then show ?thesis
    using assms(1)
    by (auto simp: connector_handleWrite_def unwatched_def queue_functor_def retry_fields
        close_socket_def Let_def dest!: removed_eq split: if_splits bind_splits)
next
  case Cn_error
  then show ?thesis
    using assms(1)
    by (auto simp: connector_handleError_def unwatched_def queue_functor_def retry_fields
        dest!: removed_eq split: if_splits bind_splits)
qed (use assms in simp_all)

text \<open>While a connection is there, the connector rests.\<close>

lemma step_connected:
  assumes inv: "connector_inv c" and s: "cn_state c = Connector_connected"
    and d: "connector_do op c = Some c'" "\<not> starts op" "op \<noteq> Cn_stop" "connector_enabled op c"
  shows "cn_state c' = Connector_connected"
proof -
  have rest: "cn_timers c = []" "count_list (cn_functors c) Start_in_loop = 0"
    using inv s by (simp_all add: connector_inv_def attempts_def)
  have ch: "\<nexists>fd. cn_channel c = Some (fd, True)" using inv s by (auto simp: connector_inv_def channel_inv_def)
  show ?thesis
  proof (cases op)
    case (Cn_functor e)
    then obtain f fs where fs: "cn_functors c = f # fs"
      "connector_functor_run e f (c\<lparr>cn_functors := fs\<rparr>) = Some c'"
      using d(1) by (cases "cn_functors c") auto
    then show ?thesis
      using rest(2) s by (cases f) (auto simp: stopInLoop_def resetChannel_def split: bind_splits)
  qed (use d rest ch in auto)
qed

lemma client_connector_ok:
  assumes inv: "client_inv s" and en: "client_enabled (Tl_connector op peer) s"
  shows "\<exists>s'. client_do (Tl_connector op peer) s = Some s' \<and> client_inv s'"
proof -
  let ?c = "tcl_connector s"
  have ci: "connector_inv ?c" and e: "\<not> starts op" "op \<noteq> Cn_stop" "connector_enabled op ?c"
    using inv en by (simp_all add: client_inv_def)
  obtain c' where c': "connector_do op ?c = Some c'" "connector_inv c'"
    using connector_do_ok [OF ci e(3)] by blast
  from step_hands_over [OF c'(1) e(1,2)] show ?thesis
  proof
    assume same: "cn_handed c' = cn_handed ?c"
    have "client_inv (s\<lparr>tcl_connector := c'\<rparr>)"
      using inv c'(2) step_connected [OF ci _ c'(1) e] same
      by (simp add: client_inv_def held_sockets_def)
    then show ?thesis using c'(1) same by simp
  next
    assume "\<exists>fd. cn_handed c' = cn_handed ?c @ [fd] \<and> cn_state ?c = Connector_connecting \<and>
        cn_state c' = Connector_connected"
    then obtain fd where fd: "cn_handed c' = cn_handed ?c @ [fd]" "cn_state ?c = Connector_connecting"
      "cn_state c' = Connector_connected" by blast
    then have none: "tcl_connection s = None" using inv by (auto simp: client_inv_def)
    have "client_inv (client_newConnection peer fd (s\<lparr>tcl_connector := c'\<rparr>))"
      using inv c'(2) fd none by (simp add: client_inv_def held_sockets_def client_newConnection_def)
    then show ?thesis using c'(1) fd(1) by simp
  qed
qed

lemma connector_stop_inv: "connector_inv c \<Longrightarrow> connector_inv (connector_stop c)"
  using connector_do_ok [of c Cn_stop] by simp

lemma client_do_ok:
  assumes inv: "client_inv s" and en: "client_enabled op s"
  shows "\<exists>s'. client_do op s = Some s' \<and> client_inv s'"
proof (cases op)
  case (Tl_connect in_loop e)
  let ?c = "tcl_connector s"
  have start: "connector_inv ?c" "connector_enabled (Cn_start in_loop e) ?c"
    using inv en Tl_connect by (simp_all add: client_inv_def)
  obtain c' where c': "connector_start in_loop e ?c = Some c'" "connector_inv c'"
    using connector_do_ok [OF start] by auto
  have "tcl_connection s = None" using inv start(2) by (auto simp: client_inv_def)
  moreover have "cn_handed c' = cn_handed ?c"
    using c'(1) start_handed by (auto simp: connector_start_def queue_functor_def Let_def split: if_splits)
  ultimately show ?thesis
    using inv c' Tl_connect by (simp add: client_connect_def client_inv_def held_sockets_def)
next
  case Tl_stop
  have "cn_state (connector_stop c) = cn_state c" "cn_handed (connector_stop c) = cn_handed c" for c
    by (simp_all add: connector_stop_def queue_functor_def)
  then show ?thesis
    using inv connector_stop_inv Tl_stop by (simp add: client_stop_def client_inv_def held_sockets_def)
next
  case (Tl_connector cop peer)
  then show ?thesis using client_connector_ok [OF inv] en by simp
next
  case (Tl_close e)
  then obtain fd where fd: "tcl_connection s = Some fd" using en by auto
  let ?s = "s\<lparr>tcl_connection := None, tcl_tasks := tcl_tasks s @ [fd]\<rparr>"
  have s: "client_inv ?s" using inv fd by (simp add: client_inv_def held_sockets_def)
  show ?thesis
  proof (cases "tcl_retry s \<and> tcl_connect s")
    case True
    have st: "connector_inv (tcl_connector s)" "connector_enabled (Cn_restart e) (tcl_connector s)"
      using inv en fd Tl_close by (simp_all add: client_inv_def)
    obtain c' where c': "connector_restart e (tcl_connector s) = Some c'" "connector_inv c'"
      using connector_do_ok [OF st] by auto
    have "cn_handed c' = cn_handed (tcl_connector s)"
      using c'(1) start_handed by (auto simp: connector_restart_def)
    then have "client_inv (?s\<lparr>tcl_connector := c'\<rparr>)"
      using s c'(2) by (simp add: client_inv_def held_sockets_def)
    then show ?thesis using Tl_close fd True c'(1) by (simp add: client_removeConnection_def)
  next
    case False
    then show ?thesis using Tl_close fd s by (auto simp: client_removeConnection_def)
  qed
next
  case Tl_task
  then show ?thesis
    using inv by (cases "tcl_tasks s") (auto simp: client_inv_def held_sockets_def split: option.splits)
qed (use inv in \<open>auto simp: client_inv_def held_sockets_def client_disconnect_def Let_def split: option.splits\<close>)

lemma client_run_ok:
  "client_inv s \<Longrightarrow> client_allowed ops s \<Longrightarrow> \<exists>s'. client_run ops s = Some s' \<and> client_inv s'"
proof (induction ops arbitrary: s)
  case (Cons op ops)
  obtain s1 where "client_do op s = Some s1" "client_inv s1"
    using client_do_ok [OF Cons.prems(1)] Cons.prems(2) by auto
  then show ?case using Cons.IH [of s1] Cons.prems(2) by (simp add: client_run_def)
qed (simp add: client_run_def)

subsection \<open>The properties\<close>

text \<open>C39: in every allowed order of calls, events and tasks no assertion of a client or its connector fails,
  and every socket is one that the connector has closed or that connects, the client's connection, one
  that is about to be destroyed, or destroyed: each exactly once.
\<close>

theorem tcp_client_sound:
  assumes "client_allowed ops (new_tcp_client name)"
  shows "\<exists>s. client_run ops (new_tcp_client name) = Some s \<and>
    mset (cn_closed (tcl_connector s) @ connecting_socket (tcl_connector s) @ held_sockets s @
      tcl_destroyed s) = mset [0..<cn_sockets (tcl_connector s)]"
proof -
  obtain s where s: "client_run ops (new_tcp_client name) = Some s" "client_inv s"
    using client_run_ok [OF new_client_inv assms] by blast
  let ?c = "tcl_connector s"
  have "mset (cn_closed ?c) + mset (cn_handed ?c) + mset (connecting_socket ?c) = mset [0..<cn_sockets ?c]"
  proof -
    have "sockets_inv ?c" using s(2) by (simp add: client_inv_def connector_inv_def)
    then show ?thesis by (simp add: sockets_inv_def union_assoc)
  qed
  moreover have "mset (cn_handed ?c) = mset (tcl_destroyed s) + mset (held_sockets s)"
    using s(2) by (simp add: client_inv_def)
  ultimately have "mset (cn_closed ?c @ connecting_socket ?c @ held_sockets s @ tcl_destroyed s) =
      mset [0..<cn_sockets ?c]"
    by (simp only: mset_append union_ac)
  then show ?thesis using s(1) by blast
qed

definition retrying_client :: "client_op list" where
  "retrying_client =
     [Tl_enableRetry, Tl_connect True EINPROGRESS, Tl_connector (Cn_writable False False) ''10.0.0.1:80'',
      Tl_connector (Cn_functor EINTR) [], Tl_close EINPROGRESS, Tl_task]"

lemma tcp_client_sound_witness:
  "\<exists>s. client_run retrying_client (new_tcp_client ''C'') = Some s \<and>
    mset (cn_closed (tcl_connector s) @ connecting_socket (tcl_connector s) @ held_sockets s @
      tcl_destroyed s) = mset [0..<cn_sockets (tcl_connector s)]"
proof -
  have "client_allowed retrying_client (new_tcp_client ''C'')" by code_simp
  from tcp_client_sound [OF this] show ?thesis .
qed

text \<open>A client whose connection has closed cannot be connected again without the retry: the connector is
  left in the state of a connection, and its assertion fails when \<open>connect\<close> is called in the loop's
  thread, whatever the system answers.
\<close>

theorem client_reconnect_aborts:
  assumes "client_inv s" and "tcl_connection s = Some fd" and "\<not> tcl_retry s"
  shows "client_run [Tl_close e, Tl_connect True e'] s = None \<and> client_do (Tl_close e) s \<noteq> None"
proof -
  have "cn_state (tcl_connector s) = Connector_connected" using assms(1,2) by (simp add: client_inv_def)
  then show ?thesis
    using assms(2,3)
    by (simp add: client_run_def client_removeConnection_def client_connect_def connector_start_def
        startInLoop_def Let_def)
qed

lemma client_reconnect_aborts_witness:
  "\<exists>s. client_run [Tl_connect True EINPROGRESS, Tl_connector (Cn_writable False False) ''10.0.0.1:80'']
      (new_tcp_client ''C'') = Some s \<and> client_run [Tl_close EINTR, Tl_connect True EINPROGRESS] s = None"
proof -
  let ?ops = "[Tl_connect True EINPROGRESS, Tl_connector (Cn_writable False False) ''10.0.0.1:80'']"
  have a: "client_allowed ?ops (new_tcp_client ''C'')" by code_simp
  then obtain s where s: "client_run ?ops (new_tcp_client ''C'') = Some s" "client_inv s"
    using client_run_ok [OF new_client_inv a] by blast
  have "case_option False (\<lambda>s. tcl_connection s = Some 0 \<and> \<not> tcl_retry s) (client_run ?ops (new_tcp_client ''C''))"
    by code_simp
  then have "tcl_connection s = Some 0" "\<not> tcl_retry s" using s(1) by simp_all
  from client_reconnect_aborts [OF s(2) this] s(1) show ?thesis by blast
qed

end
