(* ===== verification/Log_Line.thy ===== *)
theory Log_Line
  imports Log_Stream Local_Time
begin

text \<open>
  The front of the log, \<^verbatim>\<open>muduo/base/Logging.cc\<close> and \<^verbatim>\<open>Logging.h\<close>: a \<open>Logger\<close> puts a line together in its
  stream and hands it to the output when it is destroyed. The state holds the variables of one thread:
  its number, and the text of the last second it has logged in. What \<open>gettid\<close>, the clock, \<open>errno\<close> and
  \<open>strerror_r\<close> give is a parameter. \<open>None\<close> is a failed \<open>assert\<close>.
\<close>

subsection \<open>Dates\<close>

definition tm_text :: "tm \<Rightarrow> string" where
  "tm_text t =
     space_padded 4 (tm_year t + 1900) @ zero_padded 2 (tm_mon t + 1) @ zero_padded 2 (tm_mday t) @
     '' '' @ zero_padded 2 (tm_hour t) @ '':'' @ zero_padded 2 (tm_min t) @ '':'' @
     zero_padded 2 (tm_sec t)"

text \<open>\<open>Timestamp::toString\<close> and \<open>toFormattedString\<close> of \<^verbatim>\<open>muduo/base/Timestamp.cc\<close>.\<close>

definition Timestamp_toString :: "timestamp \<Rightarrow> string" where
  "Timestamp_toString t =
     (let seconds = t sdiv kMicroSecondsPerSecond; microseconds = t smod kMicroSecondsPerSecond in
      snprintf_text 31 (int_text seconds @ ''.'' @ zero_padded 6 microseconds))"

definition toFormattedString :: "bool \<Rightarrow> timestamp \<Rightarrow> string" where
  "toFormattedString showMicroseconds t =
     (let seconds = t sdiv kMicroSecondsPerSecond; tm_time = gmtime seconds in
      if showMicroseconds then
        let microseconds = t smod kMicroSecondsPerSecond in
        snprintf_text 32 (tm_text tm_time @ ''.'' @ zero_padded 6 microseconds)
      else snprintf_text 32 (tm_text tm_time))"

subsection \<open>Levels and files\<close>

datatype log_level = TRACE | DEBUG | INFO | WARN | ERROR | FATAL

definition level_number :: "log_level \<Rightarrow> nat" where
  "level_number l =
     (case l of TRACE \<Rightarrow> 0 | DEBUG \<Rightarrow> 1 | INFO \<Rightarrow> 2 | WARN \<Rightarrow> 3 | ERROR \<Rightarrow> 4 | FATAL \<Rightarrow> 5)"

definition LogLevelName :: "string list" where
  "LogLevelName = [''TRACE '', ''DEBUG '', ''INFO  '', ''WARN  '', ''ERROR '', ''FATAL '']"

definition initLogLevel :: "bool \<Rightarrow> bool \<Rightarrow> log_level" where
  "initLogLevel env_trace env_debug = (if env_trace then TRACE else if env_debug then DEBUG else INFO)"

text \<open>\<open>SourceFile\<close>: what follows the last slash.\<close>

definition source_file :: "string \<Rightarrow> string" where
  "source_file path = rev (takeWhile (\<lambda>c. c \<noteq> CHR ''/'') (rev path))"

subsection \<open>The head of a line\<close>

record log_thread =
  lt_cachedTid :: int
  lt_tidString :: string
  lt_tidStringLength :: nat
  lt_time :: string
  lt_lastSecond :: int

definition new_log_thread :: log_thread where
  "new_log_thread =
     \<lparr>lt_cachedTid = 0, lt_tidString = [], lt_tidStringLength = 6, lt_time = [], lt_lastSecond = 0\<rparr>"

definition cacheTid :: "int \<Rightarrow> log_thread \<Rightarrow> log_thread" where
  "cacheTid gettid th =
     (if lt_cachedTid th = 0 then
        let s = space_padded 5 gettid @ '' '' in
        th\<lparr>lt_cachedTid := gettid, lt_tidString := snprintf_text 32 s, lt_tidStringLength := length s\<rparr>
      else th)"

text \<open>A \<open>T\<close> is a text whose length is known.\<close>

definition log_T :: "string \<Rightarrow> nat \<Rightarrow> fixed_buffer \<Rightarrow> fixed_buffer option" where
  "log_T str len b = do {
     C_assert (length str = len);
     Some (log_put (Log_string str) b)
   }"

definition formatTime ::
    "zone_data option \<Rightarrow> timestamp \<Rightarrow> log_thread \<Rightarrow> fixed_buffer \<Rightarrow> (log_thread \<times> fixed_buffer) option" where
  "formatTime zone time th b = do {
     let seconds = time sdiv kMicroSecondsPerSecond;
     let microseconds = time smod kMicroSecondsPerSecond;
     th \<leftarrow> (if seconds \<noteq> lt_lastSecond th then do {
              let th = th\<lparr>lt_lastSecond := seconds\<rparr>;
              tm_time \<leftarrow> (case zone of
                           Some z \<Rightarrow> toLocalTime z seconds
                         | None \<Rightarrow> Some (gmtime seconds));
              C_assert (length (tm_text tm_time) = 17);
              Some (th\<lparr>lt_time := snprintf_text 32 (tm_text tm_time)\<rparr>)
            }
            else Some th);
     let us = CHR ''.'' # zero_padded 6 microseconds @ (if zone = None then ''Z '' else '' '');
     C_assert (length us = (if zone = None then 9 else 8));
     b \<leftarrow> log_T (lt_time th) 17 b;
     b \<leftarrow> log_T us (length us) b;
     Some (th, b)
   }"

definition Logger_Impl ::
    "(int \<Rightarrow> string) \<Rightarrow> int \<Rightarrow> zone_data option \<Rightarrow> timestamp \<Rightarrow> log_level \<Rightarrow> int \<Rightarrow> log_thread \<Rightarrow>
     (log_thread \<times> fixed_buffer) option" where
  "Logger_Impl strerror gettid zone now level savedErrno th = do {
     (th, b) \<leftarrow> formatTime zone now th (new_fixed_buffer kSmallBuffer);
     let th = cacheTid gettid th;
     b \<leftarrow> log_T (lt_tidString th) (lt_tidStringLength th) b;
     b \<leftarrow> log_T (LogLevelName ! level_number level) 6 b;
     Some (th, if savedErrno \<noteq> 0
               then log_all [Log_cstring (Some (strerror savedErrno)), Log_cstring (Some '' (errno=''),
                      Log_integer savedErrno, Log_cstring (Some '') '')] b
               else b)
   }"

definition Logger_finish :: "string \<Rightarrow> nat \<Rightarrow> fixed_buffer \<Rightarrow> fixed_buffer" where
  "Logger_finish basename line b =
     log_all [Log_cstring (Some '' - ''), Log_string basename, Log_char (CHR '':''),
       Log_integer (int line), Log_char (LF)] b"

subsection \<open>A statement that logs\<close>

datatype log_macro =
    LOG_TRACE string | LOG_DEBUG string | LOG_INFO | LOG_WARN | LOG_ERROR | LOG_FATAL
  | LOG_SYSERR int | LOG_SYSFATAL int

text \<open>The level, \<open>errno\<close> and the function's name that the constructor of each macro is given.\<close>

fun macro_level :: "log_macro \<Rightarrow> log_level" where
  "macro_level (LOG_TRACE func) = TRACE"
| "macro_level (LOG_DEBUG func) = DEBUG"
| "macro_level LOG_INFO = INFO"
| "macro_level LOG_WARN = WARN"
| "macro_level LOG_ERROR = ERROR"
| "macro_level LOG_FATAL = FATAL"
| "macro_level (LOG_SYSERR e) = ERROR"
| "macro_level (LOG_SYSFATAL e) = FATAL"

fun macro_errno :: "log_macro \<Rightarrow> int" where
  "macro_errno (LOG_SYSERR e) = e"
| "macro_errno (LOG_SYSFATAL e) = e"
| "macro_errno _ = 0"

fun macro_func :: "log_macro \<Rightarrow> log_item list" where
  "macro_func (LOG_TRACE func) = [Log_cstring (Some func), Log_char (CHR '' '')]"
| "macro_func (LOG_DEBUG func) = [Log_cstring (Some func), Log_char (CHR '' '')]"
| "macro_func _ = []"

text \<open>Only the first three macros test the level.\<close>

fun macro_enabled :: "log_level \<Rightarrow> log_macro \<Rightarrow> bool" where
  "macro_enabled g (LOG_TRACE func) \<longleftrightarrow> level_number g \<le> level_number TRACE"
| "macro_enabled g (LOG_DEBUG func) \<longleftrightarrow> level_number g \<le> level_number DEBUG"
| "macro_enabled g LOG_INFO \<longleftrightarrow> level_number g \<le> level_number INFO"
| "macro_enabled g _ \<longleftrightarrow> True"

record log_call =
  lc_macro :: log_macro
  lc_now :: timestamp
  lc_path :: string
  lc_line :: nat
  lc_items :: "log_item list"

text \<open>What is given to the output, and whether the process is ended.\<close>

definition log_statement ::
    "(int \<Rightarrow> string) \<Rightarrow> int \<Rightarrow> zone_data option \<Rightarrow> log_call \<Rightarrow> log_thread \<Rightarrow>
     (string \<times> bool \<times> log_thread) option" where
  "log_statement strerror gettid zone c th = do {
     (th, b) \<leftarrow> Logger_Impl strerror gettid zone (lc_now c) (macro_level (lc_macro c))
                 (macro_errno (lc_macro c)) th;
     let b = log_all (lc_items c) (log_all (macro_func (lc_macro c)) b);
     let b = Logger_finish (source_file (lc_path c)) (lc_line c) b;
     Some (fb_text b, macro_level (lc_macro c) = FATAL, th)
   }"

text \<open>A thread that logs: the texts that the output was given, up to the abort.\<close>

primrec log_session ::
    "(int \<Rightarrow> string) \<Rightarrow> int \<Rightarrow> log_level \<Rightarrow> zone_data option \<Rightarrow> log_call list \<Rightarrow> log_thread \<Rightarrow>
     string list option" where
  "log_session strerror gettid g zone [] th = Some []"
| "log_session strerror gettid g zone (c # cs) th =
     (if macro_enabled g (lc_macro c) then do {
        (s, aborts, th) \<leftarrow> log_statement strerror gettid zone c th;
        if aborts then Some [s]
        else do {
          ss \<leftarrow> log_session strerror gettid g zone cs th;
          Some (s # ss)
        }
      }
      else log_session strerror gettid g zone cs th)"

subsection \<open>Lengths\<close>

definition printable_tm :: "tm \<Rightarrow> bool" where
  "printable_tm t \<longleftrightarrow>
     - 999 \<le> tm_year t + 1900 \<and> tm_year t + 1900 \<le> 9999 \<and> 0 \<le> tm_mon t \<and> tm_mon t < 12 \<and>
     1 \<le> tm_mday t \<and> tm_mday t \<le> 31 \<and> 0 \<le> tm_hour t \<and> tm_hour t < 24 \<and> 0 \<le> tm_min t \<and> tm_min t < 60 \<and>
     0 \<le> tm_sec t \<and> tm_sec t < 60"

lemma printable_length:
  assumes "printable_tm t"
  shows "length (tm_text t) = 17"
proof -
  let ?y = "tm_year t + 1900"
  have "length (int_text ?y) \<le> 4"
  proof (cases "?y < 0")
    case True
    then have "\<bar>?y\<bar> < 10 ^ 3" using assms by (simp add: printable_tm_def)
    from int_text_length [OF this] show ?thesis by simp
  next
    case False
    then have "nat ?y < 10 ^ 4" using assms by (auto simp: printable_tm_def nat_less_iff)
    from decimal_length [OF this] show ?thesis using False by (simp add: int_text_def)
  qed
  then have "length (space_padded 4 ?y) = 4" by (rule space_padded_length)
  moreover have "length (zero_padded 2 i) = 2" if "0 \<le> i" "i < 100" for i
    by (rule zero_padded_length) (use that in simp_all)
  ultimately show ?thesis using assms by (simp add: tm_text_def printable_tm_def)
qed

text \<open>What \<open>gmtime_r\<close> gives is printable if the year is.\<close>

lemma gmtime_printable:
  assumes "first_second \<le> t" and "- 999 \<le> tm_year (gmtime t) + 1900" and "tm_year (gmtime t) + 1900 \<le> 9999"
  shows "printable_tm (gmtime t)"
proof -
  let ?j = "t div kSecondsPerDay + kJulianDayOf1970_01_01"
  let ?s = "t mod kSecondsPerDay"
  have d: "calendar_date (getYearMonthDay ?j)" by (rule julian_of_date(1) [OF julian_at [OF assms(1)]])
  then have "ymd_day (getYearMonthDay ?j) \<le> 31"
    by (auto simp: calendar_date_def month_length_def split: if_splits)
  moreover have "0 \<le> ?s" "?s < 86400" by (simp_all add: kSecondsPerDay_def)
  ultimately show ?thesis
    using assms(2,3) d hms_parts(2,3) [of ?s]
    by (simp add: gmtime_def toUtcTime_eq utc_tm_def printable_tm_def calendar_date_def Let_def)
qed

subsection \<open>What a line should be\<close>

definition shown_tm :: "zone_data option \<Rightarrow> int \<Rightarrow> tm" where
  "shown_tm zone s = (case zone of None \<Rightarrow> gmtime s | Some z \<Rightarrow> local_tm z s)"

definition micro_text :: "zone_data option \<Rightarrow> timestamp \<Rightarrow> string" where
  "micro_text zone now =
     CHR ''.'' # zero_padded 6 (now mod kMicroSecondsPerSecond) @ (if zone = None then ''Z '' else '' '')"

definition tid_text :: "int \<Rightarrow> string" where
  "tid_text tid = space_padded 5 tid @ '' ''"

definition error_items :: "(int \<Rightarrow> string) \<Rightarrow> int \<Rightarrow> log_item list" where
  "error_items strerror e =
     (if e \<noteq> 0
      then [Log_cstring (Some (strerror e)), Log_cstring (Some '' (errno=''), Log_integer e,
            Log_cstring (Some '') '')]
      else [])"

definition head_items :: "(int \<Rightarrow> string) \<Rightarrow> int \<Rightarrow> zone_data option \<Rightarrow> log_call \<Rightarrow> log_item list" where
  "head_items strerror tid zone c =
     [Log_string (tm_text (shown_tm zone (lc_now c div kMicroSecondsPerSecond))),
      Log_string (micro_text zone (lc_now c)), Log_string (tid_text tid),
      Log_string (LogLevelName ! level_number (macro_level (lc_macro c)))] @
     error_items strerror (macro_errno (lc_macro c)) @ macro_func (lc_macro c)"

definition tail_items :: "log_call \<Rightarrow> log_item list" where
  "tail_items c =
     [Log_cstring (Some '' - ''), Log_string (source_file (lc_path c)), Log_char (CHR '':''),
      Log_integer (int (lc_line c)), Log_char (LF)]"

definition texts :: "log_item list \<Rightarrow> string" where
  "texts items = concat (map log_text items)"

definition line_text :: "(int \<Rightarrow> string) \<Rightarrow> int \<Rightarrow> zone_data option \<Rightarrow> log_call \<Rightarrow> string" where
  "line_text strerror tid zone c =
     texts (head_items strerror tid zone c) @ texts (lc_items c) @ texts (tail_items c)"

definition zone_set :: "zone_data option \<Rightarrow> bool" where
  "zone_set zone \<longleftrightarrow> (case zone of None \<Rightarrow> True | Some z \<Rightarrow> zone_ok z)"

definition tid_ok :: "int \<Rightarrow> bool" where "tid_ok tid \<longleftrightarrow> 0 < tid \<and> tid < 2 ^ 31"

text \<open>The clock is past the first second of 1970, and the date has four digits for the year.\<close>

definition clock_ok :: "zone_data option \<Rightarrow> timestamp \<Rightarrow> bool" where
  "clock_ok zone now \<longleftrightarrow>
     kMicroSecondsPerSecond \<le> now \<and> printable_tm (shown_tm zone (now div kMicroSecondsPerSecond))"

subsection \<open>The variables of the thread\<close>

definition log_thread_ok :: "int \<Rightarrow> zone_data option \<Rightarrow> log_thread \<Rightarrow> bool" where
  "log_thread_ok tid zone th \<longleftrightarrow>
     (lt_cachedTid th \<noteq> 0 \<longrightarrow> lt_tidString th = tid_text tid \<and> lt_tidStringLength th = length (tid_text tid)) \<and>
     (lt_lastSecond th \<noteq> 0 \<longrightarrow>
        lt_time th = tm_text (shown_tm zone (lt_lastSecond th)) \<and> length (lt_time th) = 17)"

lemma new_log_thread_ok: "log_thread_ok tid zone new_log_thread"
  by (simp add: log_thread_ok_def new_log_thread_def)

lemma tid_text_length: "tid_ok tid \<Longrightarrow> length (tid_text tid) \<le> 31"
  using int_text_length [of tid 10] by (simp add: tid_text_def space_padded_def tid_ok_def)

lemma cacheTid_ok:
  assumes "log_thread_ok tid zone th" and "tid_ok tid"
  shows "log_thread_ok tid zone (cacheTid tid th)" and "lt_tidString (cacheTid tid th) = tid_text tid"
    and "lt_tidStringLength (cacheTid tid th) = length (tid_text tid)"
  using assms tid_text_length [OF assms(2)]
  by (auto simp: cacheTid_def log_thread_ok_def snprintf_text_def tid_text_def Let_def)

lemma log_T_exact [simp]: "log_T s (length s) b = Some (log_put (Log_string s) b)"
  by (simp add: log_T_def)

lemma shown_tm_eq:
  "zone_set zone \<Longrightarrow>
     (case zone of Some z \<Rightarrow> toLocalTime z s | None \<Rightarrow> Some (gmtime s)) = Some (shown_tm zone s)"
  by (cases zone) (simp_all add: zone_set_def shown_tm_def toLocalTime_eq)

lemma formatTime_ok:
  assumes th: "log_thread_ok tid zone th" and z: "zone_set zone" and c: "clock_ok zone now"
  shows "\<exists>th'. formatTime zone now th b =
      Some (th', log_all [Log_string (tm_text (shown_tm zone (now div kMicroSecondsPerSecond))),
        Log_string (micro_text zone now)] b) \<and> log_thread_ok tid zone th'"
proof -
  let ?s = "now div kMicroSecondsPerSecond"
  let ?t = "tm_text (shown_tm zone ?s)"
  have now: "0 \<le> now" "now sdiv kMicroSecondsPerSecond = ?s"
    "now smod kMicroSecondsPerSecond = now mod kMicroSecondsPerSecond"
    using c by (simp_all add: clock_ok_def kMicroSecondsPerSecond_def sdiv_nonneg
        signed_modulo_int_def minus_div_mult_eq_mod signed_divide_int_def sgn_if)
  have s: "?s \<noteq> 0" using c by (auto simp: clock_ok_def kMicroSecondsPerSecond_def)
  have t: "length ?t = 17" using c printable_length by (simp add: clock_ok_def)
  have m: "length (zero_padded 6 (now mod kMicroSecondsPerSecond)) = 6"
    by (rule zero_padded_length) (simp_all add: kMicroSecondsPerSecond_def)
  define th' where "th' = (if ?s \<noteq> lt_lastSecond th then th\<lparr>lt_lastSecond := ?s, lt_time := ?t\<rparr> else th)"
  have ok: "log_thread_ok tid zone th'" using th t by (auto simp: th'_def log_thread_ok_def)
  have time: "lt_time th' = ?t" using th s by (auto simp: th'_def log_thread_ok_def)
  have "formatTime zone now th b = do {
      b \<leftarrow> log_T (lt_time th') 17 b;
      Some (th', log_put (Log_string (micro_text zone now)) b)
    }"
    using m t by (simp add: formatTime_def now shown_tm_eq [OF z] th'_def micro_text_def
        snprintf_text_def Let_def)
  also have "\<dots> = Some (th', log_all [Log_string ?t, Log_string (micro_text zone now)] b)"
    unfolding time using t by (simp add: log_T_def log_all_def)
  finally show ?thesis using ok by blast
qed

lemma log_all_append: "log_all (xs @ ys) b = log_all ys (log_all xs b)"
  by (simp add: log_all_def)

lemma log_all_Nil: "log_all [] b = b"
  by (simp add: log_all_def)

lemma log_all_Cons: "log_all (x # xs) b = log_all xs (log_put x b)"
  by (simp add: log_all_def)

lemma LogLevelName_length: "length (LogLevelName ! level_number l) = 6"
  by (cases l) (simp_all add: LogLevelName_def level_number_def)

lemma log_statement_items:
  assumes "log_thread_ok tid zone th" and "zone_set zone" and "tid_ok tid" and "clock_ok zone (lc_now c)"
  shows "\<exists>th'. log_statement strerror tid zone c th =
      Some (fb_text (log_all (head_items strerror tid zone c @ lc_items c @ tail_items c)
             (new_fixed_buffer kSmallBuffer)), macro_level (lc_macro c) = FATAL, th') \<and>
    log_thread_ok tid zone th'"
proof -
  let ?b = "new_fixed_buffer kSmallBuffer"
  obtain th1 where th1: "formatTime zone (lc_now c) th ?b =
      Some (th1, log_all [Log_string (tm_text (shown_tm zone (lc_now c div kMicroSecondsPerSecond))),
        Log_string (micro_text zone (lc_now c))] ?b)" "log_thread_ok tid zone th1"
    using formatTime_ok [OF assms(1,2,4)] by blast
  note tid = cacheTid_ok [OF th1(2) assms(3)]
  have "log_statement strerror tid zone c th =
      Some (fb_text (log_all (head_items strerror tid zone c @ lc_items c @ tail_items c) ?b),
        macro_level (lc_macro c) = FATAL, cacheTid tid th1)"
    using LogLevelName_length [of "macro_level (lc_macro c)"]
    by (simp add: log_statement_def Logger_Impl_def th1(1) tid(2,3) log_T_def Logger_finish_def Let_def
        head_items_def tail_items_def error_items_def log_all_append log_all_Cons log_all_Nil)
  then show ?thesis using tid(1) by blast
qed

subsection \<open>The properties\<close>

definition fits :: "string \<Rightarrow> bool" where
  "fits s \<longleftrightarrow> length s + kMaxNumericSize \<le> kSmallBuffer"


lemma whole_line:
  assumes "fits (line_text strerror tid zone c)"
  shows "fb_text (log_all (head_items strerror tid zone c @ lc_items c @ tail_items c)
      (new_fixed_buffer kSmallBuffer)) = line_text strerror tid zone c"
  using assms log_all_enough [of "new_fixed_buffer kSmallBuffer"
      "head_items strerror tid zone c @ lc_items c @ tail_items c"]
  by (simp add: fits_def line_text_def texts_def new_fixed_buffer_def)


definition sample_call :: log_call where
  "sample_call = \<lparr>lc_macro = LOG_INFO, lc_now = 1000000, lc_path = ''a/b.cc'', lc_line = 7,
     lc_items = [Log_cstring (Some ''n='')]\<rparr>"

lemma second_one: "gmtime 1 = \<lparr>tm_sec = 1, tm_min = 0, tm_hour = 0, tm_mday = 1, tm_mon = 0, tm_year = 70,
    tm_wday = 4, tm_yday = 0, tm_isdst = 0, tm_gmtoff = 0, tm_zone = ''GMT''\<rparr>"
proof -
  have "julian (ymd 1970 1 1) = 2440588" using julian_epoch(1) by (simp add: julian_def kJulianDayOf1970_01_01_def)
  moreover have "calendar_date (ymd 1970 1 1)" by (simp add: calendar_date_def month_length_def)
  ultimately have "getYearMonthDay 2440588 = ymd 1970 1 1" using date_of_julian by metis
  moreover have "getJulianDayNumber 1970 1 1 = 2440588"
    using \<open>julian (ymd 1970 1 1) = 2440588\<close> by (simp add: julian_def)
  ultimately show ?thesis
    by (simp add: gmtime_def toUtcTime_eq utc_tm_def kSecondsPerDay_def julian_epoch weekDay_def kDaysPerWeek_def
        smod_int_alt_def Let_def)
qed

lemma sample_texts:
  "tm_text (gmtime 1) = ''19700101 00:00:01''" "zero_padded 6 0 = ''000000''" "tid_text 1234 = '' 1234 ''"
  "source_file ''a/b.cc'' = ''b.cc''" "int_text 7 = ''7''"
  unfolding second_one by code_simp+

lemma sample_head:
  "head_items strerror 1234 None (sample_call\<lparr>lc_macro := m, lc_items := items\<rparr>) =
     [Log_string ''19700101 00:00:01'', Log_string ''.000000Z '', Log_string '' 1234 '',
      Log_string (LogLevelName ! level_number (macro_level m))] @
     error_items strerror (macro_errno m) @ macro_func m"
  by (simp add: head_items_def shown_tm_def micro_text_def sample_call_def kMicroSecondsPerSecond_def
      sample_texts)

lemma sample_line_fits:
  assumes "m \<in> {LOG_INFO, LOG_DEBUG ''f''}"
  shows "fits (line_text strerror 1234 None (sample_call\<lparr>lc_macro := m\<rparr>))"
  using assms sample_head [where strerror = strerror and m = m and items = "lc_items sample_call"]
  by (auto simp: fits_def line_text_def texts_def tail_items_def error_items_def sample_call_def
      sample_texts LogLevelName_length kMaxNumericSize_def kSmallBuffer_def)

lemma sample_call_ok:
  "clock_ok None (lc_now sample_call)" "fits (line_text strerror 1234 None sample_call)"
proof -
  show "clock_ok None (lc_now sample_call)"
    by (simp add: clock_ok_def sample_call_def shown_tm_def kMicroSecondsPerSecond_def second_one
        printable_tm_def)
  show "fits (line_text strerror 1234 None sample_call)"
    using sample_line_fits [of LOG_INFO strerror] by (simp add: sample_call_def)
qed


text \<open>A statement whose message fills the buffer to its last byte but one is put out without its tail, and
  so without the end of the line: the next statement's line follows it directly.
\<close>

theorem long_message_joined:
  assumes "zone_set zone" and "tid_ok tid"
    and "clock_ok zone (lc_now c)" and "clock_ok zone (lc_now c')"
    and "lc_macro c = LOG_WARN" and "macro_enabled g (lc_macro c')" and "fits (line_text strerror tid zone c')"
    and "lc_items c = [Log_string msg]"
    and "length (texts (head_items strerror tid zone c)) + length msg + 1 = kSmallBuffer"
    and "kMaxNumericSize < length msg"
  shows "log_session strerror tid g zone [c, c'] new_log_thread =
    Some [texts (head_items strerror tid zone c) @ msg, line_text strerror tid zone c']"
proof -
  let ?b = "new_fixed_buffer kSmallBuffer"
  have full: "log_put it b = b"
    if "length (fb_text b) + 1 = fb_size b" "it \<in> set (tail_items c)" for it b
  proof -
    have "avail b = 1" using that(1) by (simp add: avail_def)
    then show ?thesis
      using that(2) by (auto simp: tail_items_def log_put_text log_room_def kMaxNumericSize_def)
  qed
  have "fb_text (log_all (head_items strerror tid zone c) ?b) = texts (head_items strerror tid zone c)"
    using log_all_enough [of ?b "head_items strerror tid zone c"] assms(9,10)
    by (simp add: texts_def new_fixed_buffer_def)
  moreover have "fb_size (log_all items b) = fb_size b" for items b
    by (induction items arbitrary: b) (simp_all add: log_all_def log_put_text)
  ultimately have put: "log_all (head_items strerror tid zone c @ [Log_string msg]) ?b =
      \<lparr>fb_size = kSmallBuffer, fb_text = texts (head_items strerror tid zone c) @ msg\<rparr>"
    using assms(9)
    by (simp add: log_all_append log_all_Cons log_all_Nil fb_append_def avail_def new_fixed_buffer_def)
  have "log_all (tail_items c) b = b" if "length (fb_text b) + 1 = fb_size b" for b
  proof -
    have "log_all items b = b" if "set items \<subseteq> set (tail_items c)" for items
      using that full [OF \<open>length (fb_text b) + 1 = fb_size b\<close>]
      by (induction items) (simp_all add: log_all_def)
    then show ?thesis by blast
  qed
  then have "fb_text (log_all (head_items strerror tid zone c @ lc_items c @ tail_items c) ?b) =
      texts (head_items strerror tid zone c) @ msg"
    using put assms(8,9) by (simp add: log_all_append log_all_Cons log_all_Nil)
  then obtain th1 where th1: "log_thread_ok tid zone th1"
    "log_statement strerror tid zone c new_log_thread =
      Some (texts (head_items strerror tid zone c) @ msg, False, th1)"
    using log_statement_items [OF new_log_thread_ok assms(1,2,3), of strerror] assms(5) by auto
  obtain th2 where th2: "log_statement strerror tid zone c' th1 =
      Some (line_text strerror tid zone c', macro_level (lc_macro c') = FATAL, th2)"
    using log_statement_items [OF th1(1) assms(1,2,4), of strerror] whole_line [OF assms(7)] by auto
  show ?thesis using assms(5,6) by (simp add: th1(2) th2)
qed

lemma long_message_joined_witness:
  "\<exists>c. log_session (\<lambda>e. []) 1234 INFO None [c, sample_call] new_log_thread =
     Some [texts (head_items (\<lambda>e. []) 1234 None c) @ replicate 3961 (CHR ''x''),
       line_text (\<lambda>e. []) 1234 None sample_call]"
proof -
  let ?c = "sample_call\<lparr>lc_macro := LOG_WARN, lc_items := [Log_string (replicate 3961 (CHR ''x''))]\<rparr>"
  have len: "length (texts (head_items (\<lambda>e. []) 1234 None ?c)) = 38"
    by (simp add: sample_head texts_def error_items_def LogLevelName_length)
  show ?thesis
    by (rule exI [of _ ?c], rule long_message_joined)
      (use sample_call_ok len in \<open>simp_all add: zone_set_def tid_ok_def sample_call_def
        level_number_def kMaxNumericSize_def kSmallBuffer_def\<close>)
qed

text \<open>A log in the first second of 1970 fails an assertion: that second counts as written already.\<close>

lemma first_second_aborts: "formatTime zone (int us) new_log_thread b = None" if "us < 1000000"
  using that by (simp add: formatTime_def new_log_thread_def kMicroSecondsPerSecond_def log_T_def
      sdiv_nonneg Let_def)

text \<open>After \<open>setTimeZone\<close> the rest of the second is shown in the old zone.\<close>

lemma zone_change_stale:
  assumes "log_thread_ok tid None th" and "clock_ok None now" and "zone_set (Some z)"
    and "formatTime None now th b = Some (th1, b1)"
  shows "\<exists>th2. formatTime (Some z) now th1 b2 =
    Some (th2, log_all [Log_string (tm_text (gmtime (now div kMicroSecondsPerSecond))),
      Log_string (micro_text (Some z) now)] b2)"
proof -
  let ?s = "now div kMicroSecondsPerSecond"
  let ?t = "tm_text (gmtime ?s)"
  have now: "0 \<le> now" "now sdiv kMicroSecondsPerSecond = ?s" "?s \<noteq> 0"
    "now smod kMicroSecondsPerSecond = now mod kMicroSecondsPerSecond"
    using assms(2) by (auto simp: clock_ok_def kMicroSecondsPerSecond_def sdiv_nonneg
        signed_modulo_int_def minus_div_mult_eq_mod signed_divide_int_def sgn_if)
  have t: "length ?t = 17" using assms(2) printable_length by (simp add: clock_ok_def shown_tm_def)
  have m: "length (zero_padded 6 (now mod kMicroSecondsPerSecond)) = 6"
    by (rule zero_padded_length) (simp_all add: kMicroSecondsPerSecond_def)
  have "lt_lastSecond th1 = ?s" "lt_time th1 = ?t"
    using assms(1,4) now t
    by (auto simp: formatTime_def log_thread_ok_def shown_tm_def snprintf_text_def Let_def
        split: bind_splits if_splits)
  then show ?thesis
    using m t by (simp add: formatTime_def now log_T_def micro_text_def log_all_def Let_def)
qed

text \<open>Neither text of a \<open>Timestamp\<close> is cut off, up to the year 9999.\<close>

lemma timestamp_texts:
  assumes "clock_ok None t" and "t < 2 ^ 63"
  shows "Timestamp_toString t =
      int_text (t div kMicroSecondsPerSecond) @ ''.'' @ zero_padded 6 (t mod kMicroSecondsPerSecond)"
    and "toFormattedString True t =
      tm_text (gmtime (t div kMicroSecondsPerSecond)) @ ''.'' @ zero_padded 6 (t mod kMicroSecondsPerSecond)"
    and "toFormattedString False t = tm_text (gmtime (t div kMicroSecondsPerSecond))"
proof -
  let ?s = "t div kMicroSecondsPerSecond"
  have now: "0 \<le> t" "t sdiv kMicroSecondsPerSecond = ?s"
    "t smod kMicroSecondsPerSecond = t mod kMicroSecondsPerSecond"
    using assms(1) by (auto simp: clock_ok_def kMicroSecondsPerSecond_def sdiv_nonneg
        signed_modulo_int_def minus_div_mult_eq_mod signed_divide_int_def sgn_if)
  have m: "length (zero_padded 6 (t mod kMicroSecondsPerSecond)) = 6"
    by (rule zero_padded_length) (simp_all add: kMicroSecondsPerSecond_def)
  have "0 \<le> ?s" using now(1) by (simp add: kMicroSecondsPerSecond_def pos_imp_zdiv_nonneg_iff)
  moreover have "?s < 10 ^ 19" using assms(2) by (simp add: kMicroSecondsPerSecond_def div_less_iff_less_mult)
  ultimately have "\<bar>?s\<bar> < 10 ^ 19" by simp
  from int_text_length [OF this] have s: "length (int_text ?s) \<le> 20" by simp
  have t: "length (tm_text (gmtime ?s)) = 17"
    using assms(1) printable_length by (simp add: clock_ok_def shown_tm_def)
  show "Timestamp_toString t = int_text ?s @ ''.'' @ zero_padded 6 (t mod kMicroSecondsPerSecond)"
    "toFormattedString True t = tm_text (gmtime ?s) @ ''.'' @ zero_padded 6 (t mod kMicroSecondsPerSecond)"
    "toFormattedString False t = tm_text (gmtime ?s)"
    using m s t by (simp_all add: Timestamp_toString_def toFormattedString_def now snprintf_text_def)
qed

end
