(* ===== verification/File_Util.thy ===== *)
theory File_Util
  imports Muduo_Prelude "HOL-Library.Sublist"
begin

text \<open>
  \<^verbatim>\<open>muduo/base/FileUtil.cc\<close>: appending to a file, and reading one up to a limit. How many bytes
  each call of the system takes or gives is a list of answers; a call behind the end of the list takes or
  gives all it can. A file that is read is its bytes.
\<close>

subsection \<open>\<open>AppendFile\<close>\<close>

record append_file =
  af_text :: string
  af_answers :: "nat list"
  af_writtenBytes :: nat

definition new_append_file :: "nat list \<Rightarrow> append_file" where
  "new_append_file answers = \<lparr>af_text = [], af_answers = answers, af_writtenBytes = 0\<rparr>"

definition append_write :: "string \<Rightarrow> append_file \<Rightarrow> nat \<times> append_file" where
  "append_write logline f =
     (let n = (case af_answers f of [] \<Rightarrow> length logline | a # _ \<Rightarrow> min a (length logline)) in
      (n, f\<lparr>af_text := af_text f @ take n logline, af_answers := tl (af_answers f)\<rparr>))"

text \<open>The loop, on what remains of the line.\<close>

function append_rest :: "string \<Rightarrow> append_file \<Rightarrow> append_file" where
  "append_rest logline f =
     (if logline = [] then f
      else
        let (x, f) = append_write logline f in
        if x = 0 then f
        else append_rest (drop x logline) f)"
  by pat_completeness auto
termination by (relation "measure (\<lambda>(logline, f). length logline)") auto

declare append_rest.simps [simp del]

definition append_line :: "string \<Rightarrow> append_file \<Rightarrow> append_file" where
  "append_line logline f =
     (let (n, f) = append_write logline f;
          f = append_rest (drop n logline) f
      in f\<lparr>af_writtenBytes := af_writtenBytes f + length logline\<rparr>)"

subsection \<open>\<open>ReadSmallFile\<close>\<close>

definition kBufferSize :: nat where "kBufferSize = 64 * 1024"

datatype read_answer = Read_up_to nat | Read_error int

definition next_answer :: "nat \<Rightarrow> read_answer list \<Rightarrow> read_answer" where
  "next_answer toRead answers = (case answers of [] \<Rightarrow> Read_up_to toRead | a # _ \<Rightarrow> a)"

text \<open>The loop: the bytes that are left in the file, the content so far. The result is the new error.\<close>

function read_loop :: "nat \<Rightarrow> read_answer list \<Rightarrow> string \<Rightarrow> int \<Rightarrow> string \<Rightarrow> int \<times> string" where
  "read_loop maxSize answers rest err content =
     (if length content < maxSize then
        let toRead = min (maxSize - length content) kBufferSize in
        case next_answer toRead answers of
          Read_error e \<Rightarrow> (e, content)
        | Read_up_to k \<Rightarrow>
            (let n = length (take (min k toRead) rest) in
             if n > 0 then read_loop maxSize (tl answers) (drop n rest) err (content @ take n rest)
             else (err, content))
      else (err, content))"
  by pat_completeness auto
termination
  by (relation "measure (\<lambda>(maxSize, answers, rest, err, content). length rest)") auto

declare read_loop.simps [simp del]

definition EISDIR :: int where "EISDIR = 21"

datatype file_mode = Regular | Directory | Other_mode

record file_stat =
  st_mode :: file_mode
  st_size :: int
  st_mtime :: int
  st_ctime :: int

record file_info =
  fi_size :: "int option"
  fi_modifyTime :: "int option"
  fi_createTime :: "int option"

definition no_info :: file_info where
  "no_info = \<lparr>fi_size = None, fi_modifyTime = None, fi_createTime = None\<rparr>"

text \<open>
  \<open>opened\<close> is the file, or \<open>errno\<close> of \<open>open\<close>; \<open>stat\<close> is what \<open>fstat\<close> gives, or its \<open>errno\<close>. The three
  flags say which of the pointers are not null; without the first, \<open>fstat\<close> is not called.
\<close>

definition readToString ::
    "nat \<Rightarrow> int + string \<Rightarrow> read_answer list \<Rightarrow> int + file_stat \<Rightarrow> bool \<Rightarrow> bool \<Rightarrow> bool \<Rightarrow> string \<Rightarrow>
     int \<times> string \<times> file_info" where
  "readToString maxSize opened answers stat fileSize modifyTime createTime content =
     (case opened of
        Inl err \<Rightarrow> (err, content, no_info)
      | Inr file \<Rightarrow>
          (let (err, info) =
             (if fileSize then
                case stat of
                  Inl e \<Rightarrow> (e, no_info)
                | Inr st \<Rightarrow>
                    (if st_mode st = Directory then EISDIR else 0,
                     \<lparr>fi_size = (if st_mode st = Regular then Some (st_size st) else None),
                      fi_modifyTime = (if modifyTime then Some (st_mtime st) else None),
                      fi_createTime = (if createTime then Some (st_ctime st) else None)\<rparr>)
              else (0, no_info));
             (err, content) = read_loop maxSize answers file err []
           in (err, content, info)))"

definition readFile :: "nat \<Rightarrow> int + string \<Rightarrow> read_answer list \<Rightarrow> string \<Rightarrow> int \<times> string" where
  "readFile maxSize opened answers content =
     (let (err, content, info) = readToString maxSize opened answers (Inl 0) False False False content
      in (err, content))"

text \<open>\<open>readToBuffer\<close>: one \<open>pread\<close> from the start, with room for the NUL.\<close>

definition readToBuffer :: "int + string \<Rightarrow> read_answer list \<Rightarrow> string \<Rightarrow> int \<times> string" where
  "readToBuffer opened answers buf =
     (case opened of
        Inl err \<Rightarrow> (err, buf)
      | Inr file \<Rightarrow>
          (case answers of
             Read_error e # _ \<Rightarrow> (e, buf)
           | Read_up_to k # _ \<Rightarrow> (0, take (min k (kBufferSize - 1)) file)
           | [] \<Rightarrow> (0, take (kBufferSize - 1) file)))"

subsection \<open>What is written\<close>

lemma append_write_eq:
  "append_write s f = (n, f') \<Longrightarrow>
     n \<le> length s \<and> af_text f' = af_text f @ take n s \<and> af_writtenBytes f' = af_writtenBytes f \<and>
     set (af_answers f') \<subseteq> set (af_answers f) \<and> (0 \<notin> set (af_answers f) \<and> s \<noteq> [] \<longrightarrow> 0 < n)"
  by (cases "af_answers f") (auto simp: append_write_def Let_def)

lemma append_rest_eq:
  "\<exists>n \<le> length s. af_text (append_rest s f) = af_text f @ take n s \<and>
     af_writtenBytes (append_rest s f) = af_writtenBytes f \<and>
     (0 \<notin> set (af_answers f) \<longrightarrow> n = length s)"
proof (induction s f rule: append_rest.induct)
  case (1 s f)
  obtain x f1 where w: "append_write s f = (x, f1)" by (cases "append_write s f")
  note e = append_write_eq [OF w]
  show ?case
  proof (cases "s = [] \<or> x = 0")
    case True
    then show ?thesis
      using e w by (subst append_rest.simps, subst append_rest.simps) (auto intro!: exI [of _ 0])
  next
    case False
    then obtain n where n: "n \<le> length (drop x s)"
      "af_text (append_rest (drop x s) f1) = af_text f1 @ take n (drop x s)"
      "af_writtenBytes (append_rest (drop x s) f1) = af_writtenBytes f1"
      "0 \<notin> set (af_answers f1) \<Longrightarrow> n = length (drop x s)"
      using 1 [OF _ w [symmetric] refl] by auto
    have "append_rest s f = append_rest (drop x s) f1"
      using False w by (subst append_rest.simps) simp
    moreover have "take x s @ take n (drop x s) = take (x + n) s" by (simp add: take_add)
    moreover have "x + n \<le> length s" using n(1) conjunct1 [OF e] by simp
    moreover have "0 \<notin> set (af_answers f) \<longrightarrow> x + n = length s"
      using n(4) e by (metis le_add_diff_inverse length_drop subset_iff)
    ultimately show ?thesis using n(2,3) e by (intro exI [of _ "x + n"]) simp
  qed
qed

text \<open>A line is appended as far as the system takes it, and whole unless a call takes nothing; the counter
  of written bytes grows by the whole line in any case.
\<close>

theorem append_line_prefix:
  "\<exists>n \<le> length s. af_text (append_line s f) = af_text f @ take n s \<and>
     (0 \<notin> set (af_answers f) \<longrightarrow> n = length s) \<and>
     af_writtenBytes (append_line s f) = af_writtenBytes f + length s"
proof -
  obtain x f1 where w: "append_write s f = (x, f1)" by (cases "append_write s f")
  note e = append_write_eq [OF w]
  obtain n where n: "n \<le> length (drop x s)" "af_text (append_rest (drop x s) f1) = af_text f1 @ take n (drop x s)"
    "af_writtenBytes (append_rest (drop x s) f1) = af_writtenBytes f1"
    "0 \<notin> set (af_answers f1) \<Longrightarrow> n = length (drop x s)"
    using append_rest_eq [of "drop x s" f1] by blast
  have "take x s @ take n (drop x s) = take (x + n) s" by (simp add: take_add)
  moreover have "0 \<notin> set (af_answers f) \<longrightarrow> x + n = length s"
    using n(4) e by (metis le_add_diff_inverse length_drop subset_iff)
  moreover have "x + n \<le> length s" using n(1) conjunct1 [OF e] by simp
  ultimately show ?thesis
    using n(2,3) e by (intro exI [of _ "x + n"]) (simp add: append_line_def w)
qed

lemma append_line_counts_lost:
  "af_text (append_line ''line'' (new_append_file [2, 0])) = ''li'' \<and>
   af_writtenBytes (append_line ''line'' (new_append_file [2, 0])) = 4"
  by code_simp

subsection \<open>What is read\<close>

fun gives :: "read_answer \<Rightarrow> bool" where
  "gives (Read_up_to k) \<longleftrightarrow> 0 < k"
| "gives (Read_error e) \<longleftrightarrow> False"

lemma take_step:
  assumes "n \<le> m" and "n \<le> length rest"
  shows "(content @ take n rest) @ take (m - n) (drop n rest) = content @ take m rest"
  using assms(1) by (simp add: take_add [symmetric])

lemma read_loop_all:
  "list_all gives answers \<Longrightarrow> length content \<le> maxSize \<Longrightarrow>
     read_loop maxSize answers rest err content = (err, content @ take (maxSize - length content) rest)"
proof (induction maxSize answers rest err content rule: read_loop.induct)
  case (1 maxSize answers rest err content)
  let ?room = "maxSize - length content"
  let ?toRead = "min ?room kBufferSize"
  show ?case
  proof (cases "length content < maxSize \<and> rest \<noteq> []")
    case True
    then have pos: "0 < ?toRead" by (simp add: kBufferSize_def)
    then obtain k where k: "next_answer ?toRead answers = Read_up_to k" "0 < k"
      using 1(2) by (cases answers; cases "hd answers") (auto simp: next_answer_def)
    define n where "n = length (take (min k ?toRead) rest)"
    have n: "0 < n" "n \<le> ?room" "n \<le> length rest" using pos k(2) True by (auto simp: n_def)
    have "list_all gives (tl answers)" using 1(2) by (cases answers) simp_all
    then have "read_loop maxSize (tl answers) (drop n rest) err (content @ take n rest) =
        (err, (content @ take n rest) @ take (maxSize - length (content @ take n rest)) (drop n rest))"
      using 1(1) [OF _ refl k(1) n_def n(1)] True n by simp
    also have "\<dots> = (err, content @ take ?room rest)"
      using take_step [OF n(2,3)] n by simp
    finally show ?thesis
      using True k(1) n(1) by (subst read_loop.simps) (simp add: n_def Let_def)
  next
    case False
    then show ?thesis
      using 1(2,3) by (subst read_loop.simps)
        (cases answers; cases "hd answers"; auto simp: next_answer_def Let_def)
  qed
qed

text \<open>A file that can be opened and read is read whole up to the limit, in whatever pieces it comes. A file
  that cannot be opened leaves the content as it was.
\<close>

theorem file_read_exact:
  assumes "list_all gives answers"
  shows "readFile maxSize (Inr file_bytes) answers content = (0, take maxSize file_bytes) \<and>
    readFile maxSize (Inl e) answers content = (e, content)"
  using read_loop_all [OF assms, where content = "[]" and rest = file_bytes and err = 0] by (simp add: readFile_def readToString_def)

lemma file_read_exact_witness: "readFile 5 (Inr ''a file'') [Read_up_to 2, Read_up_to 100] ''old'' = (0, ''a fil'')"
  using file_read_exact [of "[Read_up_to 2, Read_up_to 100]" 5 "''a file''" "''old''"] by simp

end
