(* ===== verification/Process_Info.thy ===== *)
theory Process_Info
  imports File_Util Log_Line
begin

text \<open>
  What the process tells of itself, \<^verbatim>\<open>muduo/base/ProcessInfo.cc\<close> and
  \<^verbatim>\<open>muduo/net/inspect/ProcessInspector.cc\<close>: the texts of \<^verbatim>\<open>/proc\<close> are parsed by searching
  for characters. The texts are parameters, as are the entries of a directory. Numbers are unbounded. \<open>None\<close>
  is a read outside a text, the use of a null pointer, or a failed \<open>assert\<close>. Times are in clock ticks;
  their text in seconds is a parameter.
\<close>

subsection \<open>Searching and reading numbers\<close>

definition find_char :: "char \<Rightarrow> string \<Rightarrow> nat option" where
  "find_char c s = (if c \<in> set s then Some (length (takeWhile (\<lambda>x. x \<noteq> c) s)) else None)"

definition rfind_char :: "char \<Rightarrow> string \<Rightarrow> nat option" where
  "rfind_char c s =
     (if c \<in> set s then Some (length s - 1 - length (takeWhile (\<lambda>x. x \<noteq> c) (rev s))) else None)"

fun find_text :: "string \<Rightarrow> string \<Rightarrow> nat option" where
  "find_text key [] = (if key = [] then Some 0 else None)"
| "find_text key (c # cs) =
     (if prefix key (c # cs) then Some 0 else map_option Suc (find_text key cs))"

definition is_digit_char :: "char \<Rightarrow> bool" where
  "is_digit_char c \<longleftrightarrow> c \<in> set ''0123456789''"

text \<open>\<open>atoi\<close>, \<open>atol\<close> and \<open>strtol\<close> to the base 10.\<close>

definition C_number :: "string \<Rightarrow> int" where
  "C_number s =
     (case dropWhile is_space s of
        [] \<Rightarrow> 0
      | c # cs \<Rightarrow>
          if c = CHR ''-'' then - int (decimal_from 0 (takeWhile is_digit_char cs))
          else if c = CHR ''+'' then int (decimal_from 0 (takeWhile is_digit_char cs))
          else int (decimal_from 0 (takeWhile is_digit_char (c # cs))))"

subsection \<open>\<open>ProcessInfo\<close>\<close>

text \<open>The offset and the length of the name; \<open>None\<close> is the empty \<open>StringPiece\<close>, whose pointer is null.\<close>

definition procname :: "string \<Rightarrow> (nat \<times> nat) option" where
  "procname stat =
     (case (find_char (CHR ''('') stat, rfind_char (CHR '')'') stat) of
        (Some lp, Some rp) \<Rightarrow> if lp < rp then Some (lp + 1, rp - lp - 1) else None
      | _ \<Rightarrow> None)"

definition numThreads :: "string \<Rightarrow> int" where
  "numThreads status =
     (case find_text ''Threads:'' status of
        None \<Rightarrow> 0
      | Some pos \<Rightarrow> C_number (drop (pos + 8) status))"

text \<open>\<open>scanDir\<close> with \<open>fdDirFilter\<close> and with \<open>taskDirFilter\<close>, on the names in a directory.\<close>

definition digit_name :: "string \<Rightarrow> bool" where
  "digit_name name \<longleftrightarrow> name \<noteq> [] \<and> is_digit_char (hd name)"

definition openedFiles :: "string list \<Rightarrow> nat" where
  "openedFiles names = length (filter digit_name names)"

definition process_threads :: "string list \<Rightarrow> int list" where
  "process_threads names = sort (map C_number (filter digit_name names))"

definition maxOpenFiles :: "int option \<Rightarrow> string list \<Rightarrow> int" where
  "maxOpenFiles rlim names = (case rlim of None \<Rightarrow> int (openedFiles names) | Some n \<Rightarrow> n)"

subsection \<open>\<open>ProcessInspector\<close>\<close>

definition uptime :: "timestamp \<Rightarrow> timestamp \<Rightarrow> bool \<Rightarrow> string" where
  "uptime now start showMicroseconds =
     (let age = now - start;
          seconds = age sdiv kMicroSecondsPerSecond;
          days = seconds sdiv 86400;
          hours = (seconds smod 86400) sdiv 3600;
          minutes = (seconds smod 3600) sdiv 60;
          text = int_text days @ '' days '' @ zero_padded 2 hours @ '':'' @ zero_padded 2 minutes @ '':'' @
            zero_padded 2 (seconds smod 60)
      in if showMicroseconds
         then snprintf_text 256 (text @ ''.'' @ zero_padded 6 (age smod kMicroSecondsPerSecond))
         else snprintf_text 256 text)"

definition getLong :: "string \<Rightarrow> string \<Rightarrow> int" where
  "getLong procStatus key =
     (case find_text key procStatus of
        None \<Rightarrow> 0
      | Some pos \<Rightarrow> C_number (drop (pos + length key) procStatus))"

text \<open>The search for the end of the line has no other end.\<close>

definition getProcessName :: "string \<Rightarrow> string option" where
  "getProcessName procStatus =
     (case find_text ''Name:'' procStatus of
        None \<Rightarrow> Some []
      | Some pos \<Rightarrow>
          let rest = dropWhile (\<lambda>c. c = CHR 0x09) (drop (pos + 5) procStatus) in
          if LF \<in> set rest then Some (takeWhile (\<lambda>c. c \<noteq> LF) rest) else None)"

definition next_field :: "string \<Rightarrow> string" where
  "next_field data = (if SP \<in> set data then tl (dropWhile (\<lambda>c. c \<noteq> SP) data) else [])"

definition getCpuTime :: "string \<Rightarrow> int \<times> int" where
  "getCpuTime data =
     (let data = (next_field ^^ 10) data;
          utime = C_number data;
          data = next_field data;
          stime = C_number data
      in (utime, stime))"

text \<open>The line of one thread: its parts, and the text.\<close>

definition thread_parts :: "string \<Rightarrow> (string \<times> char \<times> int \<times> int) option" where
  "thread_parts stat =
     (case procname stat of
        None \<Rightarrow> None
      | Some (offset, len) \<Rightarrow> do {
          let rp = offset + len;
          C_assert (rp < length stat \<and> stat ! rp = CHR '')'');
          let stat = stat[rp := NUL];
          C_assert (rp + 4 \<le> length stat);
          let times = getCpuTime (drop (rp + 4) stat);
          Some (takeWhile (\<lambda>c. c \<noteq> NUL) (drop offset stat), stat ! (rp + 2), times)
        })"

definition thread_line :: "(int \<Rightarrow> string) \<Rightarrow> int \<Rightarrow> string \<Rightarrow> string option" where
  "thread_line seconds_text tid stat = do {
     (name, state, utime, stime) \<leftarrow> thread_parts stat;
     Some (snprintf_text 256
       (space_padded 5 tid @ '' '' @ name @ replicate (16 - length name) SP @ '' '' @ [state] @ '' '' @
        seconds_text utime @ '' '' @ seconds_text stime @ [LF]))
   }"

text \<open>\<open>read\<close> is what \<open>readFile\<close> gives for the file of a thread.\<close>

primrec thread_lines :: "(int \<Rightarrow> string) \<Rightarrow> (int \<Rightarrow> int \<times> string) \<Rightarrow> int list \<Rightarrow> string option" where
  "thread_lines seconds_text read [] = Some []"
| "thread_lines seconds_text read (tid # tids) =
     (if fst (read tid) = 0 then do {
        line \<leftarrow> thread_line seconds_text tid (snd (read tid));
        lines \<leftarrow> thread_lines seconds_text read tids;
        Some (line @ lines)
      }
      else thread_lines seconds_text read tids)"

definition threads_page :: "(int \<Rightarrow> string) \<Rightarrow> (int \<Rightarrow> int \<times> string) \<Rightarrow> string list \<Rightarrow> string option" where
  "threads_page seconds_text read names = do {
     lines \<leftarrow> thread_lines seconds_text read (process_threads names);
     Some (''  TID NAME             S    User Time  System Time'' @ [LF] @ lines)
   }"

text \<open>
  The page \<open>overview\<close>, with what the other functions of \<open>ProcessInfo\<close> give: the texts of the processor
  times and of the sizes in MiB are parameters.
\<close>

record process_data =
  pd_now :: timestamp
  pd_startTime :: timestamp
  pd_procStatus :: string
  pd_exePath :: string
  pd_username :: string
  pd_hostname :: string
  pd_isDebugBuild :: bool
  pd_pid :: int
  pd_fd_names :: "string list"
  pd_rlimit :: "int option"
  pd_cpuTime :: "int \<times> int"

definition stringPrintf :: "string \<Rightarrow> string \<Rightarrow> string" where
  "stringPrintf out text = out @ snprintf_text 256 text"

definition overview :: "(int \<Rightarrow> string) \<Rightarrow> (int \<Rightarrow> string) \<Rightarrow> process_data \<Rightarrow> string option" where
  "overview mib_text seconds_text d = do {
     let result = ''Page generated at '' @ toFormattedString True (pd_now d) @ '' (UTC)'' @ [LF] @
       ''Started at '' @ toFormattedString True (pd_startTime d) @ '' (UTC), up for '' @
       uptime (pd_now d) (pd_startTime d) True @ [LF];
     name \<leftarrow> getProcessName (pd_procStatus d);
     let result = result @ name @ '' ('' @ pd_exePath d @ '') running as '' @ pd_username d @ '' on '' @
       pd_hostname d @ [LF];
     let result = (if pd_isDebugBuild d then result @ ''WARNING: debug build!'' @ [LF] else result);
     let result = stringPrintf result (''pid '' @ int_text (pd_pid d) @ '', num of threads '' @
       int_text (getLong (pd_procStatus d) ''Threads:'') @ '', bits '' @ int_text 64 @ [LF]);
     let result = stringPrintf (result @ ''Virtual memory: '')
       (mib_text (getLong (pd_procStatus d) ''VmSize:'') @ '' MiB, '');
     let result = stringPrintf (result @ ''RSS memory: '')
       (mib_text (getLong (pd_procStatus d) ''VmRSS:'') @ '' MiB'' @ [LF]);
     let result = stringPrintf result (''Opened files: '' @ int_text (int (openedFiles (pd_fd_names d))) @
       '', limit: '' @ int_text (maxOpenFiles (pd_rlimit d) (pd_fd_names d)) @ [LF]);
     Some (stringPrintf result (''User time: '' @ seconds_text (fst (pd_cpuTime d)) @ ''s'' @ [LF] @
       ''Sys time:  '' @ seconds_text (snd (pd_cpuTime d)) @ ''s'' @ [LF]))
   }"

subsection \<open>The file of a thread\<close>

text \<open>As the system writes it: the name stands in parentheses and may contain any characters.\<close>

definition fields_text :: "string list \<Rightarrow> string" where
  "fields_text fs = concat (map (\<lambda>f. f @ '' '') fs)"

definition stat_text :: "int \<Rightarrow> string \<Rightarrow> char \<Rightarrow> string list \<Rightarrow> nat \<Rightarrow> nat \<Rightarrow> string \<Rightarrow> string" where
  "stat_text tid name state fs utime stime rest =
     int_text tid @ '' ('' @ name @ '') '' @ [state] @ '' '' @ fields_text fs @
     decimal utime @ '' '' @ decimal stime @ '' '' @ rest"

lemma takeWhile_upto: "c \<notin> set a \<Longrightarrow> takeWhile (\<lambda>x. x \<noteq> c) (a @ c # b) = a"
  by (induction a) auto

lemma dropWhile_upto: "c \<notin> set a \<Longrightarrow> dropWhile (\<lambda>x. x \<noteq> c) (a @ c # b) = c # b"
  by (induction a) auto

lemma find_char_at: "c \<notin> set a \<Longrightarrow> find_char c (a @ c # b) = Some (length a)"
  unfolding find_char_def by (subst takeWhile_upto) simp_all

lemma rfind_char_at: "c \<notin> set b \<Longrightarrow> rfind_char c (a @ c # b) = Some (length a)"
  using takeWhile_upto [of c "rev b" "rev a"] by (simp add: rfind_char_def)

lemma next_field_skips: "SP \<notin> set f \<Longrightarrow> next_field (f @ SP # t) = t"
  unfolding next_field_def by (subst dropWhile_upto) simp_all

lemma next_fields_skip:
  "\<forall>f \<in> set fs. SP \<notin> set f \<Longrightarrow> (next_field ^^ length fs) (fields_text fs @ t) = t"
proof (induction fs)
  case (Cons f fs)
  then have "next_field (f @ SP # (fields_text fs @ t)) = fields_text fs @ t"
    by (intro next_field_skips) simp
  then show ?case using Cons by (simp add: fields_text_def funpow_swap1)
qed (simp add: fields_text_def)

lemma decimal_digit_chars: "list_all is_digit_char (decimal n)"
  unfolding list_all_iff is_digit_char_def by (intro ballI subsetD [OF decimal_digits])

lemma digit_not_space: "is_digit_char c \<Longrightarrow> \<not> is_space c \<and> c \<noteq> CHR ''-'' \<and> c \<noteq> CHR ''+'' \<and> c \<noteq> SP"
  by (auto simp: is_digit_char_def is_space_def less_eq_char_def)

lemma C_number_decimal: "C_number (decimal n @ SP # t) = int n"
proof -
  obtain c cs where d: "decimal n = c # cs" by (cases "decimal n") simp_all
  have all: "list_all is_digit_char (c # cs)" using decimal_digit_chars [of n] d by simp
  have space: "\<not> is_digit_char SP" by (simp add: is_digit_char_def)
  have "takeWhile is_digit_char (s @ SP # t) = s" if "list_all is_digit_char s" for s
    using that space by (induction s) simp_all
  from this [OF all] have "takeWhile is_digit_char ((c # cs) @ SP # t) = c # cs" .
  moreover have "decimal_from 0 (c # cs) = n" using decimal_value [of n] d by simp
  ultimately show ?thesis
    using digit_not_space [of c] all unfolding C_number_def d by simp
qed

text \<open>The line of a thread shows the thread's name, its state and its two times, whatever the name is:
  also a name with parentheses and spaces, as any program can give itself.
\<close>

theorem thread_shown:
  assumes "length fs = 10" and "\<forall>f \<in> set fs. SP \<notin> set f \<and> CHR '')'' \<notin> set f"
    and "CHR '')'' \<notin> set rest" and "state \<noteq> CHR '')''" and "NUL \<notin> set name"
  shows "thread_parts (stat_text tid name state fs utime stime rest) =
    Some (name, state, int utime, int stime)"
proof -
  define b where "b = fields_text fs @ decimal utime @ SP # decimal stime @ SP # rest"
  define a where "a = int_text tid @ '' ''"
  have stat: "stat_text tid name state fs utime stime rest =
      a @ CHR ''('' # name @ CHR '')'' # SP # state # SP # b" (is "?stat = _")
    by (simp add: stat_text_def a_def b_def)
  have "CHR ''('' \<notin> set a" using int_text_chars [of tid] by (auto simp: a_def)
  then have lp: "find_char (CHR ''('') ?stat = Some (length a)" unfolding stat by (rule find_char_at)
  have digits: "CHR '')'' \<notin> set (decimal n)" for n using decimal_digits [of n] by auto
  have "CHR '')'' \<notin> set b" using assms(2,3) digits by (auto simp: b_def fields_text_def)
  then have "rfind_char (CHR '')'') ((a @ CHR ''('' # name) @ CHR '')'' # SP # state # SP # b) =
      Some (length (a @ CHR ''('' # name))"
    using assms(4) by (intro rfind_char_at) simp
  then have rp: "rfind_char (CHR '')'') ?stat = Some (length a + 1 + length name)" unfolding stat by simp
  define pre where "pre = a @ CHR ''('' # name"
  define off where "off = length a + 1"
  have proc: "procname ?stat = Some (off, length name)" by (simp add: procname_def lp rp off_def)
  have pre: "off + length name = length pre" by (simp add: pre_def off_def)
  have split: "?stat = pre @ CHR '')'' # SP # state # SP # b" by (simp add: stat pre_def)
  have upd: "?stat[length pre := NUL] = pre @ NUL # SP # state # SP # b" by (simp add: split)
  have name: "takeWhile (\<lambda>c. c \<noteq> NUL) (drop off (pre @ NUL # SP # state # SP # b)) = name"
    using takeWhile_upto [OF assms(5), of "SP # state # SP # b"] by (simp add: pre_def off_def)
  have times: "getCpuTime b = (int utime, int stime)"
  proof -
    have "(next_field ^^ 10) b = decimal utime @ SP # decimal stime @ SP # rest"
      using next_fields_skip [of fs] assms(1,2) by (simp add: b_def)
    moreover have "SP \<notin> set (decimal utime)" using decimal_digits [of utime] by auto
    ultimately show ?thesis by (simp add: getCpuTime_def C_number_decimal next_field_skips)
  qed
  have at: "?stat ! length pre = CHR '')''" "length pre + 4 \<le> length ?stat"
    "(pre @ NUL # SP # state # SP # b) ! (length pre + 2) = state"
    "drop (length pre + 4) (pre @ NUL # SP # state # SP # b) = b"
    by (simp_all add: split nth_append)
  show ?thesis
    unfolding thread_parts_def proc option.case prod.case Let_def pre upd name at(3,4) times
    using at(1,2) by simp
qed

lemma thread_shown_witness:
  "thread_parts (stat_text 7 ''a) (b'' (CHR ''S'') (replicate 10 ''0'') 12 3 ''0'') =
     Some (''a) (b'', CHR ''S'', 12, 3)"
  using thread_shown [of "replicate 10 ''0''" "''0''" "CHR ''S''" "''a) (b''" 7 12 3] by simp

text \<open>A file without a name in parentheses makes \<open>threads\<close> use a null pointer, and a status without an end
  of line behind the name makes \<open>getProcessName\<close> read on behind the text.
\<close>

lemma parse_faults:
  "thread_parts [] = None" "thread_parts ''7 name S'' = None" "getProcessName ''Name:'' = None"
  by code_simp+

text \<open>The parts of the time since the start.\<close>

lemma uptime_parts:
  assumes "0 \<le> age"
  shows "uptime (start + age) start True =
    (let s = age div kMicroSecondsPerSecond in
     snprintf_text 256 (int_text (s div 86400) @ '' days '' @ zero_padded 2 (s mod 86400 div 3600) @ '':'' @
       zero_padded 2 (s mod 3600 div 60) @ '':'' @ zero_padded 2 (s mod 60) @ ''.'' @
       zero_padded 6 (age mod kMicroSecondsPerSecond)))"
proof -
  have nonneg: "a sdiv b = a div b" "a smod b = a mod b" if "0 \<le> a" "0 < b" for a b :: int
    using that by (cases "a = 0"; simp add: signed_divide_int_def signed_modulo_int_def minus_div_mult_eq_mod)+
  have "0 \<le> age div kMicroSecondsPerSecond"
    using assms by (simp add: kMicroSecondsPerSecond_def pos_imp_zdiv_nonneg_iff)
  then show ?thesis
    using assms by (simp add: uptime_def nonneg Let_def kMicroSecondsPerSecond_def)
qed

end
