(* ===== verification/Socket_Address.thy ===== *)
theory Socket_Address
  imports Muduo_Prelude Byte_Order
begin

text \<open>
  \<open>InetAddress\<close> of \<^verbatim>\<open>muduo/net/InetAddress.cc\<close> with the functions on addresses of \<^verbatim>\<open>SocketsOps.cc\<close>. An
  address is the union of \<open>sockaddr_in\<close> and \<open>sockaddr_in6\<close>: the four bytes behind the port are
  the address of the one and the flow information of the other. \<open>inet_pton\<close> and \<open>inet_ntop\<close> of the C
  library are written out for the family \<open>AF_INET\<close>; the text of an IPv6 address is a parameter. Answers of
  the system are given with the call. \<open>None\<close> is a failed \<open>assert\<close>.
\<close>

datatype sa_family = AF_UNSPEC | AF_INET | AF_INET6

record inet_address =
  ia_family :: sa_family
  ia_port :: "16 word"
  ia_word :: "32 word"
  ia_addr6 :: string
  ia_scope :: "32 word"

definition zero_address :: inet_address where
  "zero_address =
     \<lparr>ia_family = AF_UNSPEC, ia_port = 0, ia_word = 0, ia_addr6 = replicate 16 NUL, ia_scope = 0\<rparr>"

subsection \<open>The texts of the C library\<close>

definition inet_ntop4 :: "string \<Rightarrow> string" where
  "inet_ntop4 bytes =
     concat (map (\<lambda>(i, b). (if i = 0 then [] else ''.'') @ decimal (of_char b)) (enumerate 0 bytes))"

fun split_dots :: "string \<Rightarrow> string list" where
  "split_dots [] = [[]]"
| "split_dots (c # cs) =
     (if c = CHR ''.'' then [] # split_dots cs
      else case split_dots cs of [] \<Rightarrow> [[c]] | p # ps \<Rightarrow> (c # p) # ps)"

definition octet_of :: "string \<Rightarrow> nat option" where
  "octet_of s =
     (if s \<noteq> [] \<and> length s \<le> 3 \<and> list_all (\<lambda>c. c \<in> set ''0123456789'') s \<and>
         (hd s = CHR ''0'' \<longrightarrow> length s = 1) \<and> decimal_from 0 s \<le> 255
      then Some (decimal_from 0 s) else None)"

definition inet_pton4 :: "string \<Rightarrow> string option" where
  "inet_pton4 ip =
     (case map octet_of (split_dots ip) of
        [Some a, Some b, Some c, Some d] \<Rightarrow> Some (map char_of [a, b, c, d])
      | _ \<Rightarrow> None)"

subsection \<open>Making an address\<close>

definition kInaddrAny :: "32 word" where "kInaddrAny = 0"
definition kInaddrLoopback :: "32 word" where "kInaddrLoopback = 0x7F000001"

definition InetAddress_port :: "16 word \<Rightarrow> bool \<Rightarrow> bool \<Rightarrow> inet_address" where
  "InetAddress_port port loopbackOnly ipv6 =
     (if ipv6 then
        zero_address\<lparr>ia_family := AF_INET6,
          ia_addr6 := (if loopbackOnly then replicate 15 NUL @ [CHR 0x01] else replicate 16 NUL),
          ia_port := HostToNetwork16 port\<rparr>
      else
        let ip = (if loopbackOnly then kInaddrLoopback else kInaddrAny) in
        zero_address\<lparr>ia_family := AF_INET, ia_word := HostToNetwork32 ip, ia_port := HostToNetwork16 port\<rparr>)"

definition fromIpPort4 :: "string \<Rightarrow> 16 word \<Rightarrow> inet_address \<Rightarrow> inet_address" where
  "fromIpPort4 ip port a =
     (let a = a\<lparr>ia_family := AF_INET, ia_port := HostToNetwork16 port\<rparr> in
      case inet_pton4 ip of
        None \<Rightarrow> a
      | Some bytes \<Rightarrow> a\<lparr>ia_word := host_word bytes\<rparr>)"

text \<open>The family that is given to \<open>inet_pton\<close> is \<open>AF_INET\<close> here as well: it writes four bytes.\<close>

definition fromIpPort6 :: "string \<Rightarrow> 16 word \<Rightarrow> inet_address \<Rightarrow> inet_address" where
  "fromIpPort6 ip port a =
     (let a = a\<lparr>ia_family := AF_INET6, ia_port := HostToNetwork16 port\<rparr> in
      case inet_pton4 ip of
        None \<Rightarrow> a
      | Some bytes \<Rightarrow> a\<lparr>ia_addr6 := bytes @ drop 4 (ia_addr6 a)\<rparr>)"

definition InetAddress_ip :: "string \<Rightarrow> 16 word \<Rightarrow> bool \<Rightarrow> inet_address" where
  "InetAddress_ip ip port ipv6 =
     (if ipv6 then fromIpPort6 ip port zero_address else fromIpPort4 ip port zero_address)"

text \<open>\<open>resolve\<close>, with the type and the bytes of the first address that \<open>gethostbyname_r\<close> finds.\<close>

definition resolve :: "(sa_family \<times> string) option \<Rightarrow> inet_address \<Rightarrow> (bool \<times> inet_address) option" where
  "resolve he out =
     (case he of
        None \<Rightarrow> Some (False, out)
      | Some (h_addrtype, h_addr) \<Rightarrow> do {
          C_assert (h_addrtype = AF_INET \<and> length h_addr = 4);
          Some (True, out\<lparr>ia_word := host_word h_addr\<rparr>)
        })"

subsection \<open>Showing an address\<close>

definition INET_ADDRSTRLEN :: nat where "INET_ADDRSTRLEN = 16"
definition INET6_ADDRSTRLEN :: nat where "INET6_ADDRSTRLEN = 46"

definition sockets_toIp :: "(string \<Rightarrow> string) \<Rightarrow> string \<Rightarrow> nat \<Rightarrow> inet_address \<Rightarrow> string option" where
  "sockets_toIp ntop6 buf sz a =
     (if ia_family a = AF_INET then do {
        C_assert (INET_ADDRSTRLEN \<le> sz);
        Some (inet_ntop4 (host_bytes (ia_word a)))
      }
      else if ia_family a = AF_INET6 then do {
        C_assert (INET6_ADDRSTRLEN \<le> sz);
        Some (ntop6 (ia_addr6 a))
      }
      else Some buf)"

definition sockets_toIpPort :: "(string \<Rightarrow> string) \<Rightarrow> string \<Rightarrow> nat \<Rightarrow> inet_address \<Rightarrow> string option" where
  "sockets_toIpPort ntop6 buf sz a = do {
     buf \<leftarrow> sockets_toIp ntop6 buf sz a;
     let n = length buf;
     let port = NetworkToHost16 (ia_port a);
     C_assert (n < sz);
     Some (buf @ snprintf_text (sz - n) (CHR '':'' # decimal (unat port)))
   }"

definition toIpPort :: "(string \<Rightarrow> string) \<Rightarrow> inet_address \<Rightarrow> string option" where
  "toIpPort ntop6 a = sockets_toIpPort ntop6 [] 64 a"

definition toIp :: "(string \<Rightarrow> string) \<Rightarrow> inet_address \<Rightarrow> string option" where
  "toIp ntop6 a = sockets_toIp ntop6 [] 64 a"

definition ipNetEndian :: "inet_address \<Rightarrow> 32 word option" where
  "ipNetEndian a = do {
     C_assert (ia_family a = AF_INET);
     Some (ia_word a)
   }"

definition toPort :: "inet_address \<Rightarrow> 16 word" where
  "toPort a = NetworkToHost16 (ia_port a)"

subsection \<open>The ends of a connection\<close>

definition getLocalAddr :: "inet_address option \<Rightarrow> inet_address" where
  "getLocalAddr getsockname = (case getsockname of None \<Rightarrow> zero_address | Some a \<Rightarrow> a)"

definition getPeerAddr :: "inet_address option \<Rightarrow> inet_address" where
  "getPeerAddr getpeername = (case getpeername of None \<Rightarrow> zero_address | Some a \<Rightarrow> a)"

definition isSelfConnect :: "inet_address option \<Rightarrow> inet_address option \<Rightarrow> bool" where
  "isSelfConnect getsockname getpeername =
     (let localaddr = getLocalAddr getsockname; peeraddr = getPeerAddr getpeername in
      if ia_family localaddr = AF_INET then
        ia_port localaddr = ia_port peeraddr \<and> ia_word localaddr = ia_word peeraddr
      else if ia_family localaddr = AF_INET6 then
        ia_port localaddr = ia_port peeraddr \<and> ia_addr6 localaddr = ia_addr6 peeraddr
      else False)"

subsection \<open>Dotted numbers are read back\<close>

definition dotted :: "nat list \<Rightarrow> string" where
  "dotted ns = concat (map (\<lambda>(i, n). (if i = 0 then [] else ''.'') @ decimal n) (enumerate 0 ns))"

lemma split_dots_number: "CHR ''.'' \<notin> set s \<Longrightarrow> split_dots s = [s]"
  by (induction s) auto

lemma split_dots_append: "CHR ''.'' \<notin> set s \<Longrightarrow> split_dots (s @ CHR ''.'' # t) = s # split_dots t"
  by (induction s) auto

lemma decimal_no_dot: "CHR ''.'' \<notin> set (decimal n)"
  using decimal_digits [of n] by auto

lemma octet_decimal:
  assumes "n < 256"
  shows "octet_of (decimal n) = Some n"
proof -
  have "list_all (\<lambda>n. octet_of (decimal n) = Some n) [0..<256]" by code_simp
  then show ?thesis using assms by (simp add: list_all_iff)
qed

lemma pton_dotted:
  assumes "a < 256" and "b < 256" and "c < 256" and "d < 256"
  shows "inet_pton4 (dotted [a, b, c, d]) = Some (map char_of [a, b, c, d])"
  using assms
  by (simp add: inet_pton4_def dotted_def split_dots_append split_dots_number decimal_no_dot octet_decimal)

lemma ntop_dotted:
  assumes "a < 256" and "b < 256" and "c < 256" and "d < 256"
  shows "inet_ntop4 (map char_of [a, b, c, d]) = dotted [a, b, c, d]"
  using assms by (simp add: inet_ntop4_def dotted_def)

lemma dotted_length:
  assumes "a < 256" and "b < 256" and "c < 256" and "d < 256"
  shows "length (dotted [a, b, c, d]) \<le> 15"
proof -
  have "length (decimal n) \<le> 3" if "n < 256" for n
    using decimal_length [of n 3] that by simp
  from this [OF assms(1)] this [OF assms(2)] this [OF assms(3)] this [OF assms(4)] show ?thesis
    by (simp add: dotted_def)
qed

lemma network16 [simp]: "NetworkToHost16 (HostToNetwork16 p) = p"
  by (simp add: NetworkToHost16_def HostToNetwork16_def byte_swap_twice)

text \<open>An address made from four numbers and a port is shown as these numbers and the port; the
  numbers are the bytes of the address in the order of the network, and the port is given back.
\<close>

theorem inet_address_roundtrip:
  assumes "a < 256" and "b < 256" and "c < 256" and "d < 256"
  shows "toIpPort ntop6 (InetAddress_ip (dotted [a, b, c, d]) port False) =
      Some (dotted [a, b, c, d] @ '':'' @ decimal (unat port)) \<and>
    toIp ntop6 (InetAddress_ip (dotted [a, b, c, d]) port False) = Some (dotted [a, b, c, d]) \<and>
    map_option host_bytes (ipNetEndian (InetAddress_ip (dotted [a, b, c, d]) port False)) =
      Some (map char_of [a, b, c, d]) \<and>
    toPort (InetAddress_ip (dotted [a, b, c, d]) port False) = port"
proof -
  let ?a = "InetAddress_ip (dotted [a, b, c, d]) port False"
  have a: "?a = zero_address\<lparr>ia_family := AF_INET, ia_port := HostToNetwork16 port,
      ia_word := host_word (map char_of [a, b, c, d])\<rparr>"
    by (simp only: InetAddress_ip_def fromIpPort4_def pton_dotted [OF assms] Let_def option.case if_False)
  have bytes: "host_bytes (host_word (map char_of [a, b, c, d]) :: 32 word) = map char_of [a, b, c, d]"
    by (rule host_bytes_word) simp_all
  have "unat port < 10 ^ 5" using unsigned_less [of port, where 'a = nat] by simp
  from decimal_length [OF this] have "length (decimal (unat port)) \<le> 5" by simp
  then show ?thesis
    using dotted_length [OF assms]
    unfolding toIpPort_def toIp_def sockets_toIpPort_def sockets_toIp_def ipNetEndian_def toPort_def a
    by (simp add: bytes ntop_dotted [OF assms] snprintf_text_def INET_ADDRSTRLEN_def
        del: list.map)
qed

lemma inet_address_roundtrip_witness:
  "toIpPort ntop6 (InetAddress_ip (dotted [10, 0, 0, 1]) 80 False) = Some (''10.0.0.1:80'')"
proof -
  have "dotted [10, 0, 0, 1] @ '':'' @ decimal (unat (80 :: 16 word)) = ''10.0.0.1:80''" by code_simp
  then show ?thesis using inet_address_roundtrip [of 10 0 0 1 ntop6 80] by simp
qed

text \<open>The text of an IPv6 address is never read: what is made of it is the unspecified address, at which a
  server listens on every interface. A text for IPv4 goes into the first bytes of the address.
\<close>

theorem ipv6_text_ignored:
  assumes "inet_pton4 ip = None"
  shows "ia_addr6 (InetAddress_ip ip port True) = ia_addr6 (InetAddress_port port False True) \<and>
    InetAddress_ip ip port True = InetAddress_port port False True"
  using assms by (simp add: InetAddress_ip_def fromIpPort6_def InetAddress_port_def zero_address_def)

lemma ipv6_text_ignored_witness: "InetAddress_ip ''::1'' 80 True = InetAddress_port 80 False True"
proof -
  have "inet_pton4 ''::1'' = None" by code_simp
  from ipv6_text_ignored [OF this] show ?thesis by blast
qed

text \<open>\<open>resolve\<close> into an IPv6 address changes its flow information and not the address.\<close>

lemma resolve_into_flow:
  "length bytes = 4 \<Longrightarrow> ia_family out = AF_INET6 \<Longrightarrow>
     \<exists>out'. resolve (Some (AF_INET, bytes)) out = Some (True, out') \<and> toIp ntop6 out' = toIp ntop6 out"
  by (simp add: resolve_def toIp_def sockets_toIp_def)

text \<open>The two ends of a connection are told apart by the port and the address.\<close>

lemma self_connect_iff:
  assumes "ia_family l = ia_family p" and "ia_family l \<noteq> AF_UNSPEC"
  shows "isSelfConnect (Some l) (Some p) \<longleftrightarrow>
    toPort l = toPort p \<and>
    (if ia_family l = AF_INET then ipNetEndian l = ipNetEndian p else ia_addr6 l = ia_addr6 p)"
proof -
  have "HostToNetwork16 (NetworkToHost16 w) = w" for w
    by (simp add: NetworkToHost16_def HostToNetwork16_def byte_swap_twice)
  then have "NetworkToHost16 v = NetworkToHost16 w \<longleftrightarrow> v = w" for v w by metis
  then show ?thesis
    using assms by (cases "ia_family l")
      (auto simp: isSelfConnect_def getLocalAddr_def getPeerAddr_def toPort_def ipNetEndian_def Let_def)
qed

end
