(* ===== verification/String_Piece.thy ===== *)
theory String_Piece
  imports Main "HOL-Library.Sublist" "HOL-Library.List_Lexorder" "HOL-Library.Char_ord"
begin

text \<open>
  \<open>StringPiece\<close> of \<^verbatim>\<open>muduo/base/StringPiece.h\<close>: a piece is the bytes it points to. Its comparisons
  are made of \<open>memcmp\<close> on the common length and of the lengths; they are shown to be the order of the
  library on strings, whose characters are ordered as unsigned bytes.
\<close>

text \<open>\<open>memcmp\<close>: the difference of the first two bytes that differ.\<close>

fun memcmp :: "string \<Rightarrow> string \<Rightarrow> nat \<Rightarrow> int" where
  "memcmp (x # xs) (y # ys) (Suc n) =
     (if x = y then memcmp xs ys n else int (of_char x) - int (of_char y))"
| "memcmp xs ys n = 0"

definition piece_common :: "string \<Rightarrow> string \<Rightarrow> nat" where
  "piece_common s x = (if length s < length x then length s else length x)"

definition piece_equal :: "string \<Rightarrow> string \<Rightarrow> bool" where
  "piece_equal s x \<longleftrightarrow> length s = length x \<and> memcmp s x (length s) = 0"

text \<open>The macro \<open>STRINGPIECE_BINARY_PREDICATE(cmp, auxcmp)\<close>.\<close>

definition piece_predicate ::
    "(nat \<Rightarrow> nat \<Rightarrow> bool) \<Rightarrow> (int \<Rightarrow> int \<Rightarrow> bool) \<Rightarrow> string \<Rightarrow> string \<Rightarrow> bool" where
  "piece_predicate cmp auxcmp s x \<longleftrightarrow>
     (let r = memcmp s x (piece_common s x) in
      auxcmp r 0 \<or> r = 0 \<and> cmp (length s) (length x))"

definition piece_less :: "string \<Rightarrow> string \<Rightarrow> bool" where
  "piece_less = piece_predicate (<) (<)"

definition piece_less_eq :: "string \<Rightarrow> string \<Rightarrow> bool" where
  "piece_less_eq = piece_predicate (\<le>) (<)"

definition piece_greater_eq :: "string \<Rightarrow> string \<Rightarrow> bool" where
  "piece_greater_eq = piece_predicate (\<ge>) (>)"

definition piece_greater :: "string \<Rightarrow> string \<Rightarrow> bool" where
  "piece_greater = piece_predicate (>) (>)"

definition piece_compare :: "string \<Rightarrow> string \<Rightarrow> int" where
  "piece_compare s x =
     (let r = memcmp s x (piece_common s x) in
      if r = 0 then
        if length s < length x then -1 else if length x < length s then 1 else r
      else r)"

definition piece_starts_with :: "string \<Rightarrow> string \<Rightarrow> bool" where
  "piece_starts_with s x \<longleftrightarrow> length x \<le> length s \<and> memcmp s x (length x) = 0"

definition remove_prefix :: "nat \<Rightarrow> string \<Rightarrow> string" where
  "remove_prefix n s = drop n s"

definition remove_suffix :: "nat \<Rightarrow> string \<Rightarrow> string" where
  "remove_suffix n s = take (length s - n) s"

subsection \<open>The order of the library\<close>

lemma char_less_iff: "(x :: char) < y \<longleftrightarrow> (of_char x :: nat) < of_char y"
  by (simp add: less_char_def)

lemma memcmp_equal: "length s = length x \<Longrightarrow> memcmp s x (length s) = 0 \<longleftrightarrow> s = x"
  by (induction s x rule: list_induct2) auto

lemma memcmp_prefix: "length x \<le> length s \<Longrightarrow> memcmp s x (length x) = 0 \<longleftrightarrow> prefix x s"
proof (induction x arbitrary: s)
  case (Cons c x)
  then obtain d t where "s = d # t" by (cases s) auto
  then show ?case using Cons by auto
qed simp

lemma common_Cons: "piece_common (c # s) (d # x) = Suc (piece_common s x)"
  by (simp add: piece_common_def)

lemma common_Nil [simp]: "piece_common [] x = 0" "piece_common s [] = 0"
  by (simp_all add: piece_common_def)

lemma memcmp_order:
  "(memcmp s x (piece_common s x) < 0 \<or> memcmp s x (piece_common s x) = 0 \<and> length s < length x) \<longleftrightarrow> s < x"
  "(memcmp s x (piece_common s x) > 0 \<or> memcmp s x (piece_common s x) = 0 \<and> length s > length x) \<longleftrightarrow> s > x"
  "(memcmp s x (piece_common s x) = 0 \<and> length s = length x) \<longleftrightarrow> s = x"
proof (induction s arbitrary: x)
  case (Cons c s)
  {
    case 1 show ?case using Cons.IH(1) by (cases x) (auto simp: common_Cons char_less_iff)
  next
    case 2 show ?case using Cons.IH(2) by (cases x) (auto simp: common_Cons char_less_iff)
  next
    case 3 show ?case using Cons.IH(3) by (cases x) (auto simp: common_Cons)
  }
next
  case Nil
  {
    case 1 show ?case by (cases x) simp_all
  next
    case 2 show ?case by (cases x) simp_all
  next
    case 3 show ?case by (cases x) simp_all
  }
qed

text \<open>The comparisons of pieces are the lexicographic order on strings of unsigned bytes, \<open>compare\<close> has the
  sign of that order, and \<open>starts_with\<close> holds exactly for the prefixes.
\<close>

theorem string_piece_order:
  "piece_equal s x = (s = x) \<and> piece_less s x = (s < x) \<and> piece_less_eq s x = (s \<le> x) \<and>
   piece_greater_eq s x = (s \<ge> x) \<and> piece_greater s x = (s > x) \<and>
   (piece_compare s x < 0) = (s < x) \<and> (piece_compare s x = 0) = (s = x) \<and> (piece_compare s x > 0) = (s > x) \<and>
   piece_starts_with s x = prefix x s"
proof (intro conjI)
  let ?r = "memcmp s x (piece_common s x)"
  note o = memcmp_order [of s x]
  show "piece_equal s x = (s = x)" using memcmp_equal [of s x] by (auto simp: piece_equal_def)
  show "piece_less s x = (s < x)" "piece_greater s x = (s > x)"
    using o(1,2) by (auto simp: piece_less_def piece_greater_def piece_predicate_def Let_def)
  have "piece_less_eq s x = (s < x \<or> s = x)"
    unfolding o(1) [symmetric] o(3) [symmetric]
    by (auto simp: piece_less_eq_def piece_predicate_def Let_def)
  then show "piece_less_eq s x = (s \<le> x)" by (auto simp: le_less)
  have "piece_greater_eq s x = (s > x \<or> s = x)"
    unfolding o(2) [symmetric] o(3) [symmetric]
    by (auto simp: piece_greater_eq_def piece_predicate_def Let_def)
  then show "piece_greater_eq s x = (s \<ge> x)" by (auto simp: le_less)
  show "(piece_compare s x < 0) = (s < x)"
    unfolding o(1) [symmetric] by (auto simp: piece_compare_def Let_def)
  show "(piece_compare s x = 0) = (s = x)"
    unfolding o(3) [symmetric] by (auto simp: piece_compare_def Let_def)
  show "(piece_compare s x > 0) = (s > x)"
    unfolding o(2) [symmetric] by (auto simp: piece_compare_def Let_def)
  show "piece_starts_with s x = prefix x s"
  proof (cases "length x \<le> length s")
    case True
    then show ?thesis by (simp add: piece_starts_with_def memcmp_prefix)
  next
    case False
    then show ?thesis using prefix_length_le [of x s] by (auto simp: piece_starts_with_def)
  qed
qed

end
