(* ===== verification/Spec2Isabelle.thy ===== *)
theory Spec2Isabelle
  imports Parser_Theorems Woody_Theorems Request_Theorems Tcp_Theorems Timer_Theorems
    Poller_Theorems Loop_Theorems Time_Theorems Logging_Theorems Muduo_Http_Theorems
    Protobuf_Codec Connector Server_Theorems Blocking_Queue Thread_Pool Thread_Start Rpc_Channel
    Inspector Tcp_Client Log_Line Process_Info Socket_Address String_Piece
begin

text \<open>
  A model of woody, a C++ library for HTTP and WebSocket servers, and of the network library muduo
  that it carries in its tree and runs on, with the properties that make them correct. Paths are
  given below \<^verbatim>\<open>src/\<close>; muduo is \<^verbatim>\<open>src/lib/muduo\<close>.

  \<^bold>\<open>The program.\<close> An \<^verbatim>\<open>EventLoop\<close> waits in a poller for events on file descriptors, runs the timers
  that are due and the functors that other threads have queued. A \<^verbatim>\<open>TcpServer\<close> accepts connections
  and deals them to the loops of a pool; a \<^verbatim>\<open>TcpClient\<close> makes one through a \<^verbatim>\<open>Connector\<close>. A
  \<^verbatim>\<open>TcpConnection\<close> moves bytes between its socket and two \<^verbatim>\<open>Buffer\<close>s, and tells its owner. For woody
  the owner is an \<^verbatim>\<open>HTTPServer\<close> with one \<^verbatim>\<open>HTTPHandler\<close> or \<^verbatim>\<open>WebsocketHandler\<close> per connection,
  which feeds the bytes to its codec: \<^verbatim>\<open>HTTPCodec\<close> is a client of the incremental parser
  \<^verbatim>\<open>http_parser_execute\<close>, \<^verbatim>\<open>WebsocketCodec\<close> of \<^verbatim>\<open>WebsocketParser\<close>. Beside them stand muduo's own
  HTTP server, its codec for Protocol Buffers with remote calls on top, its asynchronous log,
  its dates and time zones, and the queues and pools of its threads.

  \<^bold>\<open>The message parser\<close> (\<^verbatim>\<open>woody/lib/http_parser/http_parser.c\<close> and \<^verbatim>\<open>.h\<close>).
  \<^item> \<open>Prelude\<close>: C characters, literals with their NUL, \<open>memchr\<close>, decimal numbers. \<open>Http_Parser_Types\<close>:
    the enumerations, the structs \<open>http_parser\<close> and \<open>http_parser_settings\<close> with every bit-field at its
    width, the tables \<open>tokens\<close>, \<open>unhex\<close>, \<open>normal_url_char\<close> and the character macros.
  \<^item> \<open>Url_Char\<close>: \<open>parse_url_char\<close>. \<open>Parser_Machine\<close>: the local variables of \<open>http_parser_execute\<close> as
    a record \<open>exec\<close>, the outcomes of a case of the switch (\<open>break\<close>, \<open>goto reexecute\<close>, \<open>goto error\<close>, a
    return, a failed \<open>assert\<close>), the macros that run callbacks, count header bytes and set marks.
    \<open>Start_Lines\<close>, \<open>Header_Lines\<close>, \<open>Message_Body\<close>: one definition for each case of the switch, in the
    order of the code. \<open>Parser_Execute\<close>: the switch, the loop, and the other operations.
  \<^item> \<open>Parser_Safety\<close>, \<open>Header_Safety\<close>, \<open>Body_Safety\<close>, \<open>Execute_Safety\<close>: the invariant of a parser
    between calls and that of the loop, its measure, and that every case keeps the one, decreases the
    other and fails no \<open>assert\<close>, for any callbacks that meet the locale \<open>parser_callbacks\<close>.
  \<^item> \<open>Header_Name\<close>, \<open>Header_Value\<close>: the matchers that work a character at a time against definitions
    that see the whole name or value. \<open>Parser_Theorems\<close>: chunk sizes and the parser's properties.
  \<^item> \<open>Url_Parser\<close>, \<open>Url_Fields\<close>, \<open>Url_Parts\<close>: \<open>http_parser_parse_url\<close>, the bounds of the fields it
    sets, and the round trip of a URL put together from its parts.

  \<^bold>\<open>woody\<close> (\<^verbatim>\<open>woody/http\<close>, \<^verbatim>\<open>woody/websocket\<close>, \<^verbatim>\<open>woody/base\<close>, \<^verbatim>\<open>lib/bytree\<close>).
  \<^item> \<open>String_Map\<close> (\<open>std::map\<close>), \<open>Http_Request\<close>, \<open>Http_Codec\<close> (whose callbacks interpret
    \<open>parser_callbacks\<close>), \<open>Http_Response\<close>, \<open>Http_Server\<close> (handler and server). \<open>Data_Loop\<close>: the loop
    that both handlers run over a codec, with the locale \<open>data_codec\<close>.
  \<^item> \<open>Websocket_Parser\<close> (frames, messages, parser), \<open>Websocket_Wire\<close> (frames written and read back),
    \<open>Websocket_Codec\<close>, \<open>Websocket_Handler\<close> (the upgrade and the session).
  \<^item> \<open>String_Util\<close>, \<open>Base64\<close>, \<open>Byte_Order\<close>, and \<open>Net_Buffer\<close>: muduo's \<open>Buffer\<close> and its locale
    \<open>byte_queue\<close>. \<open>Woody_Theorems\<close>: the properties of the URL parser and of these parts.
  \<^item> \<open>Request_Steps\<close>, \<open>Request_Headers\<close>, \<open>Request_Message\<close>, \<open>Request_Delivery\<close>, \<open>Request_Theorems\<close>:
    parser, codec and handler together, from the bytes of requests to what the application is given;
    the locale \<open>listener\<close> is a set of callbacks that only listen.

  \<^bold>\<open>The event loop\<close> (\<^verbatim>\<open>muduo/net\<close>).
  \<^item> \<open>Muduo_Prelude\<close>: \<open>assert\<close> as a step that may fail, sorted sets, runs. \<open>Channel\<close>, \<open>Tcp_Connection\<close>,
    \<open>Tcp_Safety\<close>, \<open>Tcp_Theorems\<close>: a connection's states, the order of its bytes, its callbacks.
  \<^item> \<open>Timer_Queue\<close>, \<open>Timer_Safety\<close>, \<open>Timer_Alarm\<close>, \<open>Timer_Theorems\<close>: the two sets of timers, allocation
    and deletion, the alarms. \<open>Poller\<close> (the locale \<open>poller\<close>), \<open>Poll_Poller\<close>, \<open>Epoll_Poller\<close>,
    \<open>Poller_Theorems\<close>: both pollers against one contract.
  \<^item> \<open>Event_Loop\<close>, \<open>Loop_Theorems\<close>: rounds of the loop among threads that queue functors. \<open>Tcp_Server\<close>,
    \<open>Server_Theorems\<close>: acceptor, pool of loops, server. \<open>Connector\<close>, \<open>Tcp_Client\<close>: the connecting side.

  \<^bold>\<open>What is built on it.\<close>
  \<^item> \<open>Muduo_Http\<close>, \<open>Muduo_Http_Server\<close>, \<open>Muduo_Http_Theorems\<close>: \<^verbatim>\<open>muduo/net/http\<close>. \<open>Protobuf_Codec\<close>,
    \<open>Rpc_Channel\<close>: \<^verbatim>\<open>muduo/net/protobuf\<close> and \<^verbatim>\<open>protorpc\<close>. \<open>Inspector\<close>: \<^verbatim>\<open>muduo/net/inspect\<close>.
  \<^item> \<open>Civil_Date\<close>, \<open>Time_Zone\<close>, \<open>Local_Time\<close>, \<open>Time_Theorems\<close>: dates and zones of \<^verbatim>\<open>muduo/base\<close>.
    \<open>Log_Stream\<close>, \<open>Async_Logging\<close>, \<open>Logging_Theorems\<close>: streams, files that roll, and the writing
    thread. \<open>Log_Line\<close>: the statement that logs, and the texts of time stamps.
  \<^item> \<open>Socket_Address\<close>: \<open>InetAddress\<close> with its texts. \<open>String_Piece\<close>: comparisons. \<open>File_Util\<close>,
    \<open>Process_Info\<close>: files read and appended to, and what is parsed out of \<^verbatim>\<open>/proc\<close>.
  \<^item> \<open>Monitor_Queue\<close> (the locale \<open>monitor\<close>: a queue under a mutex with two conditions),
    \<open>Blocking_Queue\<close>, \<open>Thread_Pool\<close>, \<open>Thread_Start\<close> (\<open>CountDownLatch\<close>, \<open>EventLoopThread\<close> and
    \<open>Thread\<close>).

  \<^bold>\<open>Interfaces.\<close> A locale states what a client needs of a provider, its lemmas are the client's, and
  it is interpreted on the model of the code: \<open>parser_callbacks\<close> on the codec's callbacks,
  \<open>data_codec\<close> on both codecs, \<open>byte_queue\<close> on \<open>Buffer\<close>, \<open>listener\<close> on the codec's callbacks,
  \<open>poller\<close> on \<open>PollPoller\<close> and \<open>EPollPoller\<close>, \<open>monitor\<close> on the queues and the pool.

  \<^bold>\<open>Termination.\<close> The loop of \<open>http_parser_execute\<close>, the loops of the handlers, \<open>parseRequest\<close> and the
  loop of the protobuf codec depend on callbacks or on a buffer, so they are partial functions and
  ending is a theorem. In the parser each round decreases \<open>8 * (len - p) + rank\<close>, where the rank of a
  state bounds the jumps to \<open>reexecute\<close> before a byte is consumed. The other loops are structural or
  have a measure; there is no fuel. Threads are lists of steps in any order that the locks allow.

  \<^bold>\<open>Assumptions.\<close> \<open>assert\<close> is active and the parser is built in strict mode, as the build files leave
  it; a failed \<open>assert\<close> and a read outside a buffer are results of their own. The host is little-endian
  with 64-bit sizes. A buffer's length fits a \<open>size_t\<close>. A callback may do what it likes with its own
  state; of the parser it writes at most \<open>http_errno\<close>, as \<open>http_parser_pause\<close> does. The properties of
  whole requests are about requests within \<open>HTTP_MAX_HEADER_SIZE\<close>. Callbacks to the application are
  recorded as events. Times and dates are unbounded integers. A callable given to the loop ends. What
  the system answers (\<open>read\<close>, \<open>write\<close>, \<open>accept\<close>, \<open>connect\<close>, \<open>poll\<close>, the clock) is given with each
  step; \<open>gmtime_r\<close> and \<open>timegm\<close> compute what the code's own \<open>toUtcTime\<close> and \<open>fromUtcTime\<close> do. The
  functions of Boost, Protocol Buffers, \<open>adler32\<close> and SHA-1 are parameters.

  \<^bold>\<open>Not modelled.\<close> The programs in \<^verbatim>\<open>contrib\<close>, the examples and the tests; bytree's logging, which is
  output. Thin wrappers around single calls of the system, pthread or zlib: sockets other than
  \<open>accept\<close> and their addresses, mutexes and conditions, atomic integers, compressed files and streams,
  the inspectors of the system and of performance. Destructors whose only effect is to free memory, and
  \<open>~TcpClient\<close>. The choice of a poller by the environment. Texts of floating-point numbers.
\<close>

end
